(* ===== verification/GR_Prelude.thy ===== *)
theory GR_Prelude
  imports Main "HOL-Library.Word"
begin

text \<open>
  Shared vocabulary of the development: the machine integer types of the C code, the
  result type of code that can abort, little-endian byte encodings, the contents of one
  4 KiB page frame, and the generic lemmas about them that the component theories use.
  The collection \<open>frame_simps\<close> holds the read-after-write laws of frames.
\<close>

unbundle bit_operations_syntax

section \<open>Machine integers and results\<close>

type_synonym u8 = "8 word"
type_synonym u16 = "16 word"
type_synonym u32 = "32 word"
type_synonym u64 = "64 word"

text \<open>
  How C code leaves a function without returning: \<open>Bug\<close> is \<open>xzl_bug_on_msg\<close> (which calls
  \<open>abort\<close>), \<open>Exit\<close> is a call of \<open>exit\<close>, \<open>Bad_Access\<close> is an access outside the object the
  pointer belongs to (undefined behaviour in C), and \<open>No_Fuel\<close> is a loop cut off by the
  fuel of its model.
\<close>

datatype abort = Bug | Exit | Bad_Access | No_Fuel

type_synonym 'a res = "abort + 'a"

definition bindR :: "'e + 'a \<Rightarrow> ('a \<Rightarrow> 'e + 'b) \<Rightarrow> 'e + 'b" where
  "bindR r f = (case r of Inl e \<Rightarrow> Inl e | Inr x \<Rightarrow> f x)"

lemma bindR_simps [simp]:
  "bindR (Inl e) f = Inl e"
  "bindR (Inr x) f = f x"
  by (simp_all add: bindR_def)

lemma bindR_eq_Inr: "bindR r f = Inr y \<longleftrightarrow> (\<exists>x. r = Inr x \<and> f x = Inr y)"
  by (cases r) auto

lemma bindR_InrE [elim]:
  assumes "bindR r f = Inr y"
  obtains x where "r = Inr x" and "f x = Inr y"
  using assms by (auto simp: bindR_eq_Inr)

lemma bindR_cong [fundef_cong]:
  "r = r' \<Longrightarrow> (\<And>x. r' = Inr x \<Longrightarrow> f x = g x) \<Longrightarrow> bindR r f = bindR r' g"
  by (cases r') auto

lemma bindR_assoc: "bindR (bindR r f) g = bindR r (\<lambda>x. bindR (f x) g)"
  by (cases r) auto

lemma unat_of_nat_u64: "n < 2 ^ 64 \<Longrightarrow> unat (of_nat n :: u64) = n"
  by (simp add: unat_of_nat)

lemma unat_of_nat_u32: "n < 2 ^ 32 \<Longrightarrow> unat (of_nat n :: u32) = n"
  by (simp add: unat_of_nat)

section \<open>Little-endian encodings\<close>

text \<open>
  \<open>le_bytes n w\<close> are the \<open>n\<close> low bytes of \<open>w\<close> as they lie in memory on a little-endian
  machine, \<open>le_word\<close> reads them back.
\<close>

definition le_bytes :: "nat \<Rightarrow> 'a::len word \<Rightarrow> u8 list" where
  "le_bytes n w = map (\<lambda>i. ucast (drop_bit (8 * i) w)) [0..<n]"

fun le_word :: "u8 list \<Rightarrow> 'a::len word" where
  "le_word [] = 0"
| "le_word (b # bs) = ucast b OR push_bit 8 (le_word bs)"

lemma length_le_bytes [simp]: "length (le_bytes n w) = n"
  by (simp add: le_bytes_def)

lemma le_bytes_0 [simp]: "le_bytes 0 w = []"
  by (simp add: le_bytes_def)

lemma le_bytes_Suc: "le_bytes (Suc n) w = ucast w # le_bytes n (drop_bit 8 w)"
proof (rule nth_equalityI)
  show "length (le_bytes (Suc n) w) = length (ucast w # le_bytes n (drop_bit 8 w))"
    by simp
next
  fix i assume "i < length (le_bytes (Suc n) w)"
  then have "i < Suc n" by simp
  then show "le_bytes (Suc n) w ! i = (ucast w # le_bytes n (drop_bit 8 w)) ! i"
  proof (cases i)
    case 0
    then show ?thesis by (simp add: le_bytes_def del: upt_Suc)
  next
    case (Suc j)
    with \<open>i < Suc n\<close> show ?thesis
      by (simp add: le_bytes_def add.commute del: upt_Suc)
  qed
qed

lemma ucast_or_push_bit:
  fixes w :: "'a::len word"
  shows "ucast (ucast w :: u8) OR push_bit 8 (take_bit n (drop_bit 8 w)) = take_bit (n + 8) w"
  by (rule bit_eqI) (auto simp: bit_simps dest: bit_imp_le_length)

lemma le_word_le_bytes_take: "le_word (le_bytes n w) = take_bit (8 * n) (w :: 'a::len word)"
proof (induction n arbitrary: w)
  case 0
  then show ?case by simp
next
  case (Suc n)
  have "le_word (le_bytes (Suc n) w) = ucast (ucast w :: u8) OR push_bit 8 (take_bit (8 * n) (drop_bit 8 w))"
    by (simp add: le_bytes_Suc Suc.IH)
  also have "\<dots> = take_bit (8 * Suc n) w"
    by (simp add: ucast_or_push_bit add.commute)
  finally show ?case .
qed

lemma le_word_le_bytes:
  assumes "LENGTH('a) \<le> 8 * n"
  shows "le_word (le_bytes n w) = (w :: 'a::len word)"
  using assms by (simp add: le_word_le_bytes_take take_bit_word_eq_self)

lemma le_word_le_bytes_std [simp]:
  "le_word (le_bytes 8 (w :: u64)) = w"
  "le_word (le_bytes 4 (v :: u32)) = v"
  "le_word (le_bytes 1 (u :: u8)) = u"
  by (simp_all add: le_word_le_bytes)

section \<open>Page frames\<close>

text \<open>
  The contents of a page frame are a function from the offset in the page to the byte
  stored there. \<open>frame_get\<close> and \<open>frame_put\<close> are the two directions of a \<open>memcpy\<close> between
  the frame and a buffer; \<open>frame_get64\<close> and \<open>frame_put64\<close> see the frame as the array of
  64-bit words it is when it holds a page table.
\<close>

type_synonym frame = "nat \<Rightarrow> u8"

definition frame_get :: "frame \<Rightarrow> nat \<Rightarrow> nat \<Rightarrow> u8 list" where
  "frame_get f off n = map f [off..<off + n]"

definition frame_put :: "frame \<Rightarrow> nat \<Rightarrow> u8 list \<Rightarrow> frame" where
  "frame_put f off bs = (\<lambda>i. if off \<le> i \<and> i < off + length bs then bs ! (i - off) else f i)"

definition frame_get64 :: "frame \<Rightarrow> nat \<Rightarrow> u64" where
  "frame_get64 f i = le_word (frame_get f (8 * i) 8)"

definition frame_put64 :: "frame \<Rightarrow> nat \<Rightarrow> u64 \<Rightarrow> frame" where
  "frame_put64 f i v = frame_put f (8 * i) (le_bytes 8 v)"

named_theorems frame_simps

lemma length_frame_get [simp]: "length (frame_get f off n) = n"
  by (simp add: frame_get_def)

lemma nth_frame_get [simp]: "i < n \<Longrightarrow> frame_get f off n ! i = f (off + i)"
  by (simp add: frame_get_def)

lemma frame_get_put_same [frame_simps]:
  "n = length bs \<Longrightarrow> frame_get (frame_put f off bs) off n = bs"
  by (rule nth_equalityI) (simp_all add: frame_put_def)

lemma frame_get_put_disjoint [frame_simps]:
  "off + n \<le> off' \<or> off' + length bs \<le> off \<Longrightarrow>
   frame_get (frame_put f off' bs) off n = frame_get f off n"
  by (rule nth_equalityI) (auto simp: frame_put_def)

lemma frame_get_put_inside:
  assumes "off' \<le> off" and "off + n \<le> off' + length bs"
  shows "frame_get (frame_put f off' bs) off n = take n (drop (off - off') bs)"
  by (rule nth_equalityI) (use assms in \<open>auto simp: frame_put_def\<close>)

lemma frame_get64_put64 [frame_simps]:
  "frame_get64 (frame_put64 f i v) j = (if i = j then v else frame_get64 f j)"
proof (cases i j rule: linorder_cases)
  case less
  then have "8 * i + 8 \<le> 8 * j" by simp
  then show ?thesis using less
    by (simp add: frame_get64_def frame_put64_def frame_get_put_disjoint)
next
  case equal
  then show ?thesis by (simp add: frame_get64_def frame_put64_def frame_get_put_same)
next
  case greater
  then have "8 * j + 8 \<le> 8 * i" by simp
  then show ?thesis using greater
    by (simp add: frame_get64_def frame_put64_def frame_get_put_disjoint)
qed

lemma frame_put_nil [simp]: "frame_put f off [] = f"
  by (rule ext) (auto simp: frame_put_def)

lemma frame_put_append:
  "frame_put (frame_put f off bs) (off + length bs) cs = frame_put f off (bs @ cs)"
  by (rule ext) (auto simp: frame_put_def nth_append)

lemma frame_get_add: "frame_get f off (n + m) = frame_get f off n @ frame_get f (off + n) m"
  by (rule nth_equalityI) (auto simp: nth_append)

lemma frame_get_0 [simp]: "frame_get f off 0 = []"
  by (simp add: frame_get_def)

text \<open>An array of 64-bit words copied to the start of a frame.\<close>

definition words_bytes :: "u64 list \<Rightarrow> u8 list" where
  "words_bytes ws = concat (map (le_bytes 8) ws)"

lemma words_bytes_simps [simp]:
  "words_bytes [] = []"
  "words_bytes (w # ws) = le_bytes 8 w @ words_bytes ws"
  "words_bytes (ws @ vs) = words_bytes ws @ words_bytes vs"
  by (simp_all add: words_bytes_def)

lemma length_words_bytes [simp]: "length (words_bytes ws) = 8 * length ws"
  by (induction ws) auto

lemma words_bytes_slice:
  "i < length ws \<Longrightarrow> take 8 (drop (8 * i) (words_bytes ws)) = le_bytes 8 (ws ! i)"
proof (induction ws arbitrary: i)
  case Nil
  then show ?case by simp
next
  case (Cons w ws)
  then show ?case by (cases i) auto
qed

lemma frame_get64_words [frame_simps]:
  assumes "i < length ws"
  shows "frame_get64 (frame_put f 0 (words_bytes ws)) i = ws ! i"
proof -
  have "frame_get (frame_put f 0 (words_bytes ws)) (8 * i) 8 = le_bytes 8 (ws ! i)"
    using assms by (subst frame_get_put_inside) (auto simp: words_bytes_slice)
  then show ?thesis by (simp add: frame_get64_def)
qed

definition frame_words :: "frame \<Rightarrow> u64 list" where
  "frame_words f = map (frame_get64 f) [0..<512]"

lemma length_frame_words [simp]: "length (frame_words f) = 512"
  by (simp add: frame_words_def)

lemma nth_frame_words [simp]: "i < 512 \<Longrightarrow> frame_words f ! i = frame_get64 f i"
  by (simp add: frame_words_def)

end
