(* ===== verification/KB_MmuMode.thy ===== *)
theory KB_MmuMode
  imports GR_Prelude
begin

text \<open>
  The page table entry formats of the Mali driver: the operations a \<open>struct kbase_mmu_mode\<close>
  offers to the MMU code, as \<open>mmu/mali_kbase_mmu_mode_aarch64.c\<close> and
  \<open>mmu/mali_kbase_mmu_mode_lpae.c\<close> implement them, the locale \<open>entry_codec\<close> with the laws
  the page walks rely on, its interpretation for both modes, and the address space setup
  (\<open>kbase_mmu_get_as_setup\<close>, \<open>mmu_get_as_setup\<close>).
\<close>

unbundle bit_operations_syntax

section \<open>Constants\<close>

abbreviation (input) PAGE_SHIFT :: nat where "PAGE_SHIFT \<equiv> 12"
abbreviation (input) PAGE_SIZE :: nat where "PAGE_SIZE \<equiv> 4096"
abbreviation (input) KBASE_MMU_PAGE_ENTRIES :: nat where "KBASE_MMU_PAGE_ENTRIES \<equiv> 512"
abbreviation (input) MIDGARD_MMU_TOPLEVEL :: nat where "MIDGARD_MMU_TOPLEVEL \<equiv> 0"
abbreviation (input) MIDGARD_MMU_BOTTOMLEVEL :: nat where "MIDGARD_MMU_BOTTOMLEVEL \<equiv> 3"

definition page_aligned :: "u64 \<Rightarrow> bool" where
  "page_aligned pa \<longleftrightarrow> take_bit PAGE_SHIFT pa = 0"

abbreviation (input) PAGE_MASK :: u64 where "PAGE_MASK \<equiv> NOT (mask 12)"

definition KBASE_REG_GPU_WR :: u64 where "KBASE_REG_GPU_WR = push_bit 2 1"
definition KBASE_REG_GPU_NX :: u64 where "KBASE_REG_GPU_NX = push_bit 3 1"
definition KBASE_REG_SHARE_IN :: u64 where "KBASE_REG_SHARE_IN = push_bit 9 1"
definition KBASE_REG_SHARE_BOTH :: u64 where "KBASE_REG_SHARE_BOTH = push_bit 10 1"
definition KBASE_REG_GPU_RD :: u64 where "KBASE_REG_GPU_RD = push_bit 13 1"

definition KBASE_REG_MEMATTR_VALUE :: "u64 \<Rightarrow> u64" where
  "KBASE_REG_MEMATTR_VALUE x = drop_bit 16 (x AND push_bit 16 7)"

definition ENTRY_TYPE_MASK :: u64 where "ENTRY_TYPE_MASK = 3"
definition ENTRY_IS_ATE :: u64 where "ENTRY_IS_ATE = 1"
definition ENTRY_IS_ATE_L3 :: u64 where "ENTRY_IS_ATE_L3 = 3"
definition ENTRY_IS_ATE_L02 :: u64 where "ENTRY_IS_ATE_L02 = 1"
definition ENTRY_IS_INVAL :: u64 where "ENTRY_IS_INVAL = 2"
definition ENTRY_IS_PTE :: u64 where "ENTRY_IS_PTE = 3"
definition ENTRY_ACCESS_RW :: u64 where "ENTRY_ACCESS_RW = push_bit 6 1"
definition ENTRY_ACCESS_RO :: u64 where "ENTRY_ACCESS_RO = push_bit 6 3"
definition ENTRY_RD_BIT :: u64 where "ENTRY_RD_BIT = push_bit 6 1"
definition ENTRY_WR_BIT :: u64 where "ENTRY_WR_BIT = push_bit 7 1"
definition ENTRY_ACCESS_BIT :: u64 where "ENTRY_ACCESS_BIT = push_bit 10 1"
definition ENTRY_NX_BIT :: u64 where "ENTRY_NX_BIT = push_bit 54 1"
definition SHARE_BOTH_BITS :: u64 where "SHARE_BOTH_BITS = push_bit 8 2"
definition SHARE_INNER_BITS :: u64 where "SHARE_INNER_BITS = push_bit 8 3"

section \<open>Bit lemmas\<close>

named_theorems entry_bits

lemma bit_three: "bit (3 :: u64) n \<longleftrightarrow> n < 2"
  using bit_mask_iff [where 'a = "64 word", of 2 n] by (auto simp: mask_eq_exp_minus_1)

lemma bit_seven: "bit (7 :: u64) n \<longleftrightarrow> n < 3"
  using bit_mask_iff [where 'a = "64 word", of 3 n] by (auto simp: mask_eq_exp_minus_1)

lemma bit_two: "bit (2 :: u64) n \<longleftrightarrow> n = 1"
  using bit_exp_iff [where 'a = "64 word", of 1 n] by auto

lemma bit_one: "bit (1 :: u64) n \<longleftrightarrow> n = 0"
  by (simp add: bit_1_iff)

lemma bit_entry_consts [entry_bits]:
  "bit ENTRY_TYPE_MASK n \<longleftrightarrow> n < 2"
  "bit ENTRY_IS_ATE n \<longleftrightarrow> n = 0"
  "bit ENTRY_IS_ATE_L3 n \<longleftrightarrow> n < 2"
  "bit ENTRY_IS_ATE_L02 n \<longleftrightarrow> n = 0"
  "bit ENTRY_IS_INVAL n \<longleftrightarrow> n = 1"
  "bit ENTRY_IS_PTE n \<longleftrightarrow> n < 2"
  "bit ENTRY_ACCESS_RW n \<longleftrightarrow> n = 6"
  "bit ENTRY_ACCESS_RO n \<longleftrightarrow> n = 6 \<or> n = 7"
  "bit ENTRY_RD_BIT n \<longleftrightarrow> n = 6"
  "bit ENTRY_WR_BIT n \<longleftrightarrow> n = 7"
  "bit ENTRY_ACCESS_BIT n \<longleftrightarrow> n = 10"
  "bit ENTRY_NX_BIT n \<longleftrightarrow> n = 54"
  "bit SHARE_BOTH_BITS n \<longleftrightarrow> n = 9"
  "bit SHARE_INNER_BITS n \<longleftrightarrow> n = 8 \<or> n = 9"
  by (auto simp only: ENTRY_TYPE_MASK_def ENTRY_IS_ATE_def ENTRY_IS_ATE_L3_def
      ENTRY_IS_ATE_L02_def ENTRY_IS_INVAL_def ENTRY_IS_PTE_def ENTRY_ACCESS_RW_def
      ENTRY_ACCESS_RO_def ENTRY_RD_BIT_def ENTRY_WR_BIT_def ENTRY_ACCESS_BIT_def
      ENTRY_NX_BIT_def SHARE_BOTH_BITS_def SHARE_INNER_BITS_def bit_three bit_two bit_one
      bit_push_bit_iff)
    auto

lemma page_aligned_bit: "page_aligned pa \<Longrightarrow> n < 12 \<Longrightarrow> \<not> bit pa n"
proof -
  assume pa: "page_aligned pa" and n: "n < 12"
  have "bit (take_bit 12 pa) n = bit pa n" using n by (simp add: bit_take_bit_iff)
  then show ?thesis using pa by (simp add: page_aligned_def)
qed

lemma page_alignedI: "(\<And>n. n < 12 \<Longrightarrow> \<not> bit pa n) \<Longrightarrow> page_aligned pa"
  unfolding page_aligned_def by (rule bit_word_eqI) (auto simp: bit_simps)

lemma page_aligned_mask [simp]: "page_aligned (x AND PAGE_MASK)"
  by (rule page_alignedI) (simp add: bit_simps)

lemma and_mask_page: "page_aligned pa \<Longrightarrow> pa AND PAGE_MASK = pa"
  by (rule bit_word_eqI) (auto simp: bit_simps dest: page_aligned_bit)

lemma entry_addr:
  assumes "page_aligned pa" and "\<And>n. 12 \<le> n \<Longrightarrow> \<not> bit f n"
  shows "(pa OR f) AND PAGE_MASK = pa"
  by (rule bit_word_eqI) (use assms in \<open>auto simp: bit_simps dest: page_aligned_bit\<close>)

lemma entry_type:
  assumes "page_aligned pa"
  shows "(pa OR f) AND ENTRY_TYPE_MASK = f AND ENTRY_TYPE_MASK"
proof (rule bit_word_eqI)
  fix n
  show "bit ((pa OR f) AND ENTRY_TYPE_MASK) n = bit (f AND ENTRY_TYPE_MASK) n"
    using page_aligned_bit [OF assms, of n] by (auto simp: bit_simps entry_bits)
qed

section \<open>The two entry formats\<close>

text \<open>
  \<open>struct kbase_mmu_mode\<close>, without the entries that program the MMU registers. A tagged
  address is the physical address with the tag in its low bits; \<open>as_phys_addr_t\<close> masks it.
\<close>

definition as_phys_addr_t :: "u64 \<Rightarrow> u64" where
  "as_phys_addr_t t = t AND PAGE_MASK"

record kbase_mmu_mode =
  pte_to_phy_addr :: "u64 \<Rightarrow> u64"
  ate_is_valid :: "u64 \<Rightarrow> nat \<Rightarrow> bool"
  pte_is_valid :: "u64 \<Rightarrow> nat \<Rightarrow> bool"
  entry_set_ate :: "u64 \<Rightarrow> u64 \<Rightarrow> nat \<Rightarrow> u64"
  entry_set_pte :: "u64 \<Rightarrow> u64"
  entry_invalidate :: u64

definition drv_pte_to_phy_addr :: "u64 \<Rightarrow> u64" where
  "drv_pte_to_phy_addr entry = (if entry AND 1 = 0 then 0 else entry AND PAGE_MASK)"

definition aarch64_ate_is_valid :: "u64 \<Rightarrow> nat \<Rightarrow> bool" where
  "aarch64_ate_is_valid ate level =
     (if level = MIDGARD_MMU_BOTTOMLEVEL then ate AND ENTRY_TYPE_MASK = ENTRY_IS_ATE_L3
      else ate AND ENTRY_TYPE_MASK = ENTRY_IS_ATE_L02)"

definition aarch64_pte_is_valid :: "u64 \<Rightarrow> nat \<Rightarrow> bool" where
  "aarch64_pte_is_valid pte level =
     (if level = MIDGARD_MMU_BOTTOMLEVEL then False
      else pte AND ENTRY_TYPE_MASK = ENTRY_IS_PTE)"

definition aarch64_mmu_flags :: "u64 \<Rightarrow> u64" where
  "aarch64_mmu_flags flags =
     (let f0 = push_bit 2 (KBASE_REG_MEMATTR_VALUE flags);
          f1 = (if flags AND KBASE_REG_GPU_WR \<noteq> 0 then f0 OR ENTRY_ACCESS_RW
                else if flags AND KBASE_REG_GPU_RD \<noteq> 0 then f0 OR ENTRY_ACCESS_RO
                else f0);
          f2 = f1 OR (if flags AND KBASE_REG_GPU_NX \<noteq> 0 then ENTRY_NX_BIT else 0)
      in if flags AND KBASE_REG_SHARE_BOTH \<noteq> 0 then f2 OR SHARE_BOTH_BITS
         else if flags AND KBASE_REG_SHARE_IN \<noteq> 0 then f2 OR SHARE_INNER_BITS
         else f2)"

definition aarch64_entry_set_ate :: "u64 \<Rightarrow> u64 \<Rightarrow> nat \<Rightarrow> u64" where
  "aarch64_entry_set_ate phy flags level =
     (if level = MIDGARD_MMU_BOTTOMLEVEL
      then as_phys_addr_t phy OR aarch64_mmu_flags flags OR ENTRY_ACCESS_BIT OR ENTRY_IS_ATE_L3
      else as_phys_addr_t phy OR aarch64_mmu_flags flags OR ENTRY_ACCESS_BIT OR ENTRY_IS_ATE_L02)"

definition aarch64_entry_set_pte :: "u64 \<Rightarrow> u64" where
  "aarch64_entry_set_pte phy = (phy AND PAGE_MASK) OR ENTRY_ACCESS_BIT OR ENTRY_IS_PTE"

definition aarch64_mode :: kbase_mmu_mode where
  "aarch64_mode =
     \<lparr> pte_to_phy_addr = drv_pte_to_phy_addr,
       ate_is_valid = aarch64_ate_is_valid,
       pte_is_valid = aarch64_pte_is_valid,
       entry_set_ate = aarch64_entry_set_ate,
       entry_set_pte = aarch64_entry_set_pte,
       entry_invalidate = ENTRY_IS_INVAL \<rparr>"

definition lpae_ate_is_valid :: "u64 \<Rightarrow> nat \<Rightarrow> bool" where
  "lpae_ate_is_valid ate level \<longleftrightarrow> ate AND ENTRY_TYPE_MASK = ENTRY_IS_ATE"

definition lpae_pte_is_valid :: "u64 \<Rightarrow> nat \<Rightarrow> bool" where
  "lpae_pte_is_valid pte level \<longleftrightarrow> pte AND ENTRY_TYPE_MASK = ENTRY_IS_PTE"

definition lpae_mmu_flags :: "u64 \<Rightarrow> u64" where
  "lpae_mmu_flags flags =
     (let memattr_idx = KBASE_REG_MEMATTR_VALUE flags;
          memattr_idx = (if memattr_idx = 5 then 0 else memattr_idx);
          f0 = push_bit 2 memattr_idx;
          f1 = f0 OR (if flags AND KBASE_REG_GPU_WR \<noteq> 0 then ENTRY_WR_BIT else 0);
          f2 = f1 OR (if flags AND KBASE_REG_GPU_RD \<noteq> 0 then ENTRY_RD_BIT else 0);
          f3 = f2 OR (if flags AND KBASE_REG_GPU_NX \<noteq> 0 then ENTRY_NX_BIT else 0)
      in if flags AND KBASE_REG_SHARE_BOTH \<noteq> 0 then f3 OR SHARE_BOTH_BITS
         else if flags AND KBASE_REG_SHARE_IN \<noteq> 0 then f3 OR SHARE_INNER_BITS
         else f3)"

definition lpae_entry_set_ate :: "u64 \<Rightarrow> u64 \<Rightarrow> nat \<Rightarrow> u64" where
  "lpae_entry_set_ate phy flags level =
     as_phys_addr_t phy OR lpae_mmu_flags flags OR ENTRY_IS_ATE"

definition lpae_entry_set_pte :: "u64 \<Rightarrow> u64" where
  "lpae_entry_set_pte phy = (phy AND PAGE_MASK) OR ENTRY_IS_PTE"

definition lpae_mode :: kbase_mmu_mode where
  "lpae_mode =
     \<lparr> pte_to_phy_addr = drv_pte_to_phy_addr,
       ate_is_valid = lpae_ate_is_valid,
       pte_is_valid = lpae_pte_is_valid,
       entry_set_ate = lpae_entry_set_ate,
       entry_set_pte = lpae_entry_set_pte,
       entry_invalidate = ENTRY_IS_INVAL \<rparr>"

section \<open>Laws of the formats\<close>

lemma bit_memattr_value: "bit (KBASE_REG_MEMATTR_VALUE x) n \<Longrightarrow> n < 3"
  unfolding KBASE_REG_MEMATTR_VALUE_def
  by (auto simp only: bit_drop_bit_eq bit_and_iff bit_push_bit_iff bit_seven o_apply)

lemma bit_aarch64_mmu_flags:
  assumes "bit (aarch64_mmu_flags fl) n"
  shows "2 \<le> n \<and> n < 10 \<or> n = 54"
proof -
  have "bit (push_bit 2 (KBASE_REG_MEMATTR_VALUE fl)) n \<Longrightarrow> 2 \<le> n \<and> n < 5"
    using bit_memattr_value [of fl "n - 2"] by (auto simp: bit_push_bit_iff)
  then show ?thesis using assms
    by (auto simp: aarch64_mmu_flags_def Let_def bit_or_iff entry_bits split: if_splits)
qed

lemma bit_lpae_mmu_flags:
  assumes "bit (lpae_mmu_flags fl) n"
  shows "2 \<le> n \<and> n < 10 \<or> n = 54"
proof -
  have "bit (push_bit 2 (KBASE_REG_MEMATTR_VALUE fl)) n \<Longrightarrow> 2 \<le> n \<and> n < 5"
    using bit_memattr_value [of fl "n - 2"] by (auto simp: bit_push_bit_iff)
  then show ?thesis using assms
    by (auto simp: lpae_mmu_flags_def Let_def bit_or_iff entry_bits split: if_splits)
qed

lemma flags_type_bits:
  assumes "\<And>n. bit f n \<Longrightarrow> 2 \<le> n"
  shows "(f OR t) AND ENTRY_TYPE_MASK = t AND ENTRY_TYPE_MASK"
proof (rule bit_word_eqI)
  fix n
  show "bit ((f OR t) AND ENTRY_TYPE_MASK) n = bit (t AND ENTRY_TYPE_MASK) n"
    using assms [of n] by (auto simp: bit_simps entry_bits)
qed

lemma type_consts:
  "ENTRY_IS_ATE_L3 AND ENTRY_TYPE_MASK = ENTRY_IS_ATE_L3"
  "ENTRY_IS_ATE_L02 AND ENTRY_TYPE_MASK = ENTRY_IS_ATE_L02"
  "ENTRY_IS_ATE AND ENTRY_TYPE_MASK = ENTRY_IS_ATE"
  "ENTRY_IS_PTE AND ENTRY_TYPE_MASK = ENTRY_IS_PTE"
  "ENTRY_IS_INVAL AND ENTRY_TYPE_MASK = ENTRY_IS_INVAL"
  by (simp_all add: ENTRY_IS_ATE_L3_def ENTRY_IS_ATE_L02_def ENTRY_IS_ATE_def ENTRY_IS_PTE_def
      ENTRY_IS_INVAL_def ENTRY_TYPE_MASK_def)

lemma aarch64_ate_type:
  "aarch64_entry_set_ate phy fl l AND ENTRY_TYPE_MASK =
     (if l = MIDGARD_MMU_BOTTOMLEVEL then ENTRY_IS_ATE_L3 else ENTRY_IS_ATE_L02)"
proof -
  let ?g = "\<lambda>t. as_phys_addr_t phy OR aarch64_mmu_flags fl OR ENTRY_ACCESS_BIT OR t"
  have "?g t AND ENTRY_TYPE_MASK = t AND ENTRY_TYPE_MASK" for t
  proof -
    have "?g t = (as_phys_addr_t phy OR (aarch64_mmu_flags fl OR ENTRY_ACCESS_BIT)) OR t"
      by (simp add: or.assoc)
    also have "\<dots> AND ENTRY_TYPE_MASK = t AND ENTRY_TYPE_MASK"
    proof (rule flags_type_bits)
      fix n
      assume b: "bit (as_phys_addr_t phy OR (aarch64_mmu_flags fl OR ENTRY_ACCESS_BIT)) n"
      show "2 \<le> n"
        using b bit_aarch64_mmu_flags [of fl n]
        by (auto simp: as_phys_addr_t_def bit_simps entry_bits)
    qed
    finally show ?thesis .
  qed
  then show ?thesis by (simp add: aarch64_entry_set_ate_def type_consts)
qed

lemma lpae_ate_type: "lpae_entry_set_ate phy fl l AND ENTRY_TYPE_MASK = ENTRY_IS_ATE"
proof -
  have "((as_phys_addr_t phy OR lpae_mmu_flags fl) OR ENTRY_IS_ATE) AND ENTRY_TYPE_MASK
     = ENTRY_IS_ATE AND ENTRY_TYPE_MASK"
  proof (rule flags_type_bits)
    fix n
    assume b: "bit (as_phys_addr_t phy OR lpae_mmu_flags fl) n"
    show "2 \<le> n"
      using b bit_lpae_mmu_flags [of fl n]
      by (auto simp: as_phys_addr_t_def bit_simps entry_bits)
  qed
  then show ?thesis by (simp add: lpae_entry_set_ate_def type_consts or.assoc)
qed

lemma pte_type:
  assumes "\<And>n. bit f n \<Longrightarrow> 2 \<le> n"
  shows "((x AND PAGE_MASK) OR f OR ENTRY_IS_PTE) AND ENTRY_TYPE_MASK = ENTRY_IS_PTE"
proof -
  have "(((x AND PAGE_MASK) OR f) OR ENTRY_IS_PTE) AND ENTRY_TYPE_MASK
     = ENTRY_IS_PTE AND ENTRY_TYPE_MASK"
    by (rule flags_type_bits) (use assms in \<open>auto simp: bit_simps\<close>)
  then show ?thesis by (simp add: type_consts or.assoc)
qed

lemma odd_of_type: "e AND ENTRY_TYPE_MASK = ENTRY_IS_PTE \<Longrightarrow> e AND 1 \<noteq> 0"
proof
  assume t: "e AND ENTRY_TYPE_MASK = ENTRY_IS_PTE" and z: "e AND 1 = 0"
  have "bit (e AND ENTRY_TYPE_MASK) 0" using t by (simp add: entry_bits)
  then have "bit (e AND 1) 0" by (simp add: bit_simps)
  then show False using z by simp
qed

lemma drv_pte_to_phy_addr_inval [simp]: "drv_pte_to_phy_addr ENTRY_IS_INVAL = 0"
  by (simp add: drv_pte_to_phy_addr_def ENTRY_IS_INVAL_def)

lemma page_aligned_drv_pte [simp]: "page_aligned (drv_pte_to_phy_addr e)"
  by (simp add: drv_pte_to_phy_addr_def) (simp add: page_aligned_def)

section \<open>The interface of the page walks\<close>

text \<open>
  What the page table code of \<open>mali_kbase_mmu.c\<close> needs of a mode: the constructors produce
  entries that the tests recognise, a table entry gives back the address it was made from,
  an entry is never both an address translation entry and a table entry, and an invalid
  entry is neither.
\<close>

locale entry_codec =
  fixes mode :: kbase_mmu_mode
  assumes pte_valid: "l < MIDGARD_MMU_BOTTOMLEVEL \<Longrightarrow> pte_is_valid mode (entry_set_pte mode pa) l"
    and pte_addr: "page_aligned pa \<Longrightarrow> pte_to_phy_addr mode (entry_set_pte mode pa) = pa"
    and ate_valid: "ate_is_valid mode (entry_set_ate mode phy fl l) l"
    and ate_not_pte: "ate_is_valid mode e l \<Longrightarrow> \<not> pte_is_valid mode e l"
    and inval_not_ate: "\<not> ate_is_valid mode (entry_invalidate mode) l"
    and inval_not_pte: "\<not> pte_is_valid mode (entry_invalidate mode) l"
    and inval_addr: "pte_to_phy_addr mode (entry_invalidate mode) = 0"
begin

lemma entries_distinct:
  assumes "l < MIDGARD_MMU_BOTTOMLEVEL"
  shows "entry_set_ate mode phy fl l \<noteq> entry_set_pte mode pa"
    and "entry_set_ate mode phy fl l \<noteq> entry_invalidate mode"
    and "entry_set_pte mode pa \<noteq> entry_invalidate mode"
  using assms pte_valid [of l pa] ate_valid [of phy fl l] ate_not_pte inval_not_ate inval_not_pte
  by metis+

lemma walk_step:
  assumes "page_aligned pa" and "l < MIDGARD_MMU_BOTTOMLEVEL"
  shows "\<not> ate_is_valid mode (entry_set_pte mode pa) l"
    and "pte_is_valid mode (entry_set_pte mode pa) l"
    and "pte_to_phy_addr mode (entry_set_pte mode pa) = pa"
  using assms pte_valid pte_addr ate_not_pte by blast+

end

interpretation aarch64: entry_codec aarch64_mode
proof
  fix l pa phy fl e
  show "pte_is_valid aarch64_mode (entry_set_pte aarch64_mode pa) l"
    if "l < MIDGARD_MMU_BOTTOMLEVEL"
    using that pte_type [of ENTRY_ACCESS_BIT pa]
    by (auto simp: aarch64_mode_def aarch64_pte_is_valid_def aarch64_entry_set_pte_def entry_bits)
  show "pte_to_phy_addr aarch64_mode (entry_set_pte aarch64_mode pa) = pa" if "page_aligned pa"
  proof -
    have t: "aarch64_entry_set_pte pa AND ENTRY_TYPE_MASK = ENTRY_IS_PTE"
      using pte_type [of ENTRY_ACCESS_BIT pa] by (auto simp: aarch64_entry_set_pte_def entry_bits)
    have "((pa AND PAGE_MASK) OR (ENTRY_ACCESS_BIT OR ENTRY_IS_PTE)) AND PAGE_MASK = pa AND PAGE_MASK"
      by (rule entry_addr) (auto simp: bit_simps entry_bits)
    then have "aarch64_entry_set_pte pa AND PAGE_MASK = pa"
      using that by (simp add: aarch64_entry_set_pte_def and_mask_page or.assoc)
    then show ?thesis
      using odd_of_type [OF t] by (simp add: aarch64_mode_def drv_pte_to_phy_addr_def)
  qed
  show "ate_is_valid aarch64_mode (entry_set_ate aarch64_mode phy fl l) l"
    by (simp add: aarch64_mode_def aarch64_ate_is_valid_def aarch64_ate_type)
  show "\<not> pte_is_valid aarch64_mode e l" if "ate_is_valid aarch64_mode e l"
    using that by (auto simp: aarch64_mode_def aarch64_ate_is_valid_def aarch64_pte_is_valid_def
        ENTRY_IS_ATE_L02_def ENTRY_IS_PTE_def split: if_splits)
  show "\<not> ate_is_valid aarch64_mode (entry_invalidate aarch64_mode) l"
    by (simp add: aarch64_mode_def aarch64_ate_is_valid_def type_consts)
      (simp add: ENTRY_IS_INVAL_def ENTRY_IS_ATE_L3_def ENTRY_IS_ATE_L02_def)
  show "\<not> pte_is_valid aarch64_mode (entry_invalidate aarch64_mode) l"
    by (simp add: aarch64_mode_def aarch64_pte_is_valid_def type_consts)
      (simp add: ENTRY_IS_INVAL_def ENTRY_IS_PTE_def)
  show "pte_to_phy_addr aarch64_mode (entry_invalidate aarch64_mode) = 0"
    by (simp add: aarch64_mode_def)
qed

interpretation lpae: entry_codec lpae_mode
proof
  fix l pa phy fl e
  have t: "lpae_entry_set_pte pa AND ENTRY_TYPE_MASK = ENTRY_IS_PTE"
    using pte_type [of 0 pa] by (simp add: lpae_entry_set_pte_def)
  show "pte_is_valid lpae_mode (entry_set_pte lpae_mode pa) l"
    using t by (simp add: lpae_mode_def lpae_pte_is_valid_def)
  show "pte_to_phy_addr lpae_mode (entry_set_pte lpae_mode pa) = pa" if "page_aligned pa"
  proof -
    have "((pa AND PAGE_MASK) OR ENTRY_IS_PTE) AND PAGE_MASK = pa AND PAGE_MASK"
      by (rule entry_addr) (auto simp: bit_simps entry_bits)
    then have "lpae_entry_set_pte pa AND PAGE_MASK = pa"
      using that by (simp add: lpae_entry_set_pte_def and_mask_page)
    then show ?thesis
      using odd_of_type [OF t] by (simp add: lpae_mode_def drv_pte_to_phy_addr_def)
  qed
  show "ate_is_valid lpae_mode (entry_set_ate lpae_mode phy fl l) l"
    by (simp add: lpae_mode_def lpae_ate_is_valid_def lpae_ate_type)
  show "\<not> pte_is_valid lpae_mode e l" if "ate_is_valid lpae_mode e l"
    using that by (simp add: lpae_mode_def lpae_ate_is_valid_def lpae_pte_is_valid_def
        ENTRY_IS_ATE_def ENTRY_IS_PTE_def)
  show "\<not> ate_is_valid lpae_mode (entry_invalidate lpae_mode) l"
    by (simp add: lpae_mode_def lpae_ate_is_valid_def type_consts)
      (simp add: ENTRY_IS_INVAL_def ENTRY_IS_ATE_def)
  show "\<not> pte_is_valid lpae_mode (entry_invalidate lpae_mode) l"
    by (simp add: lpae_mode_def lpae_pte_is_valid_def type_consts)
      (simp add: ENTRY_IS_INVAL_def ENTRY_IS_PTE_def)
  show "pte_to_phy_addr lpae_mode (entry_invalidate lpae_mode) = 0"
    by (simp add: lpae_mode_def)
qed

section \<open>Address space setup\<close>

text \<open>
  \<open>struct kbase_mmu_setup\<close>, the values of the three registers of an address space, and how
  they are computed from the page directory of the table \<open>mmut\<close>. Both functions write every
  field.
\<close>

record kbase_mmu_setup =
  transtab :: u64
  memattr :: u64
  transcfg :: u64

definition memattr_byte :: "nat \<Rightarrow> u64 \<Rightarrow> u64" where
  "memattr_byte idx policy = push_bit (idx * 8) policy"

definition kbase_mmu_get_as_setup :: "u64 \<Rightarrow> kbase_mmu_setup" where
  "kbase_mmu_get_as_setup mmut_pgd =
     \<lparr> transtab = mmut_pgd AND (push_bit 40 1 - push_bit 4 1),
       memattr = memattr_byte 0 0x88 OR memattr_byte 1 0x8F OR memattr_byte 2 0x8D OR
                 memattr_byte 3 0x88 OR memattr_byte 4 0x8D OR memattr_byte 5 0x4C,
       transcfg = 6 \<rparr>"

definition mmu_get_as_setup :: "u64 \<Rightarrow> kbase_mmu_setup" where
  "mmu_get_as_setup mmut_pgd =
     \<lparr> transtab = (mmut_pgd AND (push_bit 32 0xFFFFFFFF OR 0xfffff000)) OR 3 OR push_bit 2 1,
       memattr = memattr_byte 0 0x48 OR memattr_byte 1 0x4F OR memattr_byte 2 0x4D OR
                 memattr_byte 3 0x88 OR memattr_byte 4 0x8D OR 0,
       transcfg = 0 \<rparr>"

lemma transtab_base_mask: "(push_bit 40 1 - push_bit 4 1 :: u64) = mask 40 AND NOT (mask 4)"
  by (simp add: mask_eq_exp_minus_1)

lemma kbase_mmu_get_as_setup_transtab:
  assumes "page_aligned p" and "p < 2 ^ 40"
  shows "transtab (kbase_mmu_get_as_setup p) = p"
proof -
  have "unat p < 2 ^ 40" using assms(2) by (simp add: word_less_nat_alt)
  then have "take_bit 40 p = p"
    by (simp only: word_unat_eq_iff unsigned_take_bit_eq take_bit_nat_eq_self)
  then have hi: "\<not> bit p n" if "40 \<le> n" for n
    using that by (metis bit_take_bit_iff linorder_not_less)
  have "p AND (mask 40 AND NOT (mask 4)) = p"
  proof (rule bit_word_eqI)
    fix n
    show "bit (p AND (mask 40 AND NOT (mask 4))) n = bit p n"
      using hi [of n] page_aligned_bit [OF assms(1), of n] bit_imp_le_length [of p n]
      by (cases "n < 40") (auto simp only: bit_and_iff bit_not_iff bit_mask_iff possible_bit_def, auto)
  qed
  then show ?thesis by (simp only: kbase_mmu_get_as_setup_def transtab_base_mask kbase_mmu_setup.select_convs)
qed

lemma mmu_get_as_setup_transtab:
  assumes "page_aligned p"
  shows "transtab (mmu_get_as_setup p) AND PAGE_MASK = p"
proof -
  have m: "(push_bit 32 0xFFFFFFFF OR 0xfffff000 :: u64) = PAGE_MASK"
    by (simp add: mask_eq_exp_minus_1)
  have "3 OR push_bit 2 1 = (7 :: u64)" by simp
  moreover have "(p OR 7) AND PAGE_MASK = p"
    by (rule entry_addr [OF assms]) (simp only: bit_seven)
  ultimately have "(p OR (3 OR push_bit 2 1)) AND PAGE_MASK = p" by simp
  then show ?thesis
    by (simp only: mmu_get_as_setup_def m kbase_mmu_setup.select_convs and_mask_page [OF assms] or.assoc)
qed

end
