(* ===== verification/GR_Context.thy ===== *)
theory GR_Context
  imports KB_MmuMode
begin

text \<open>
  The data of the replayer (\<open>replayer/include/gr_defs.h\<close>, \<open>gr_mem.h\<close>): register
  accesses, GPU memory regions, the user-space copy of the page table, the configuration and
  the replay context; the physical memory behind \<open>/dev/mem\<close> and the functions of
  \<open>replayer/gr_mem.c\<close> that map, read and write one physical page.
\<close>

section \<open>Data\<close>

record reg_io =
  io_ts :: u64
  io_is_read :: char
  io_offset :: u32
  io_value :: u32

record gpu_mem_region =
  gm_start :: u64
  gm_end :: u64
  gm_pages :: "u64 list"
  gm_nr_pages :: nat
  gm_flags :: u64
  gm_is_valid :: bool
  gm_is_synced :: bool

text \<open>
  \<open>struct user_pgtable\<close>: the physical page of a page directory, which stays mapped (the
  mapping aliases the page, so the page address stands for it), and the directories below it.
  An entry that the code never wrote is \<open>None\<close>; the C array is not cleared when it is allocated.
\<close>

datatype user_pgtable = User_Pgtable (phys_page: u64) (pgd: "nat \<Rightarrow> user_pgtable option")

record gr_config =
  nr_prep_jobs :: u32
  nr_comp_jobs :: u32
  nr_tot_jobs :: u32
  test_checkpoint :: bool
  is_validate :: bool

record sync_as =
  sa_gm_start :: u64
  sa_gm_end :: u64
  sa_size :: u64
  sa_is_input :: bool
  sa_pm_start :: u64
  sa_pm_end :: u64

abbreviation (input) NR_VA_REGION :: nat where "NR_VA_REGION \<equiv> 128"

record replay_context =
  config :: gr_config
  old_transtab :: u64
  new_transtab :: u64
  gm_region :: "gpu_mem_region list"
  tot_nr_pages :: u32
  sas :: "sync_as list"
  user_pgt :: user_pgtable
  provision :: "u8 list option"
  nr_written_pages :: u32
  ts_prep_start :: u32
  ts_prep_end :: u32
  ts_comp_start :: u32
  ts_comp_end :: u32
  tot_prep_time :: u32
  tot_comp_time :: u32

text \<open>
  \<open>gm_region\<close> is the used part of the C array: \<open>nr_regions\<close> is its length, and the rest of
  the \<open>NR_VA_REGION\<close> entries are zero, as \<open>gr_rctx_init\<close> clears the context.
\<close>

definition zero_region :: gpu_mem_region where
  "zero_region = \<lparr> gm_start = 0, gm_end = 0, gm_pages = [], gm_nr_pages = 0, gm_flags = 0,
     gm_is_valid = False, gm_is_synced = False \<rparr>"

definition nr_regions :: "replay_context \<Rightarrow> nat" where
  "nr_regions rctx = length (gm_region rctx)"

definition region_at :: "replay_context \<Rightarrow> nat \<Rightarrow> gpu_mem_region res" where
  "region_at rctx i =
     (if i < nr_regions rctx then Inr (gm_region rctx ! i)
      else if i < NR_VA_REGION then Inr zero_region else Inl Bad_Access)"

section \<open>Physical memory\<close>

text \<open>
  Physical memory by page address, and the pages that \<open>mmap\<close> of \<open>/dev/mem\<close> accepts. A mapping
  is shared, so a mapped page and the frame it maps are the same bytes.
\<close>

record pmem =
  frames :: "u64 \<Rightarrow> frame"
  mappable :: "u64 \<Rightarrow> bool"

definition page_offset_of :: "u64 \<Rightarrow> nat" where
  "page_offset_of a = unat (take_bit PAGE_SHIFT a)"

definition gr_map_page :: "pmem \<Rightarrow> u64 \<Rightarrow> u64 res" where
  "gr_map_page pm paddr =
     (if \<not> page_aligned paddr then Inl Bug
      else if \<not> mappable pm paddr then Inl Exit
      else Inr paddr)"

definition gr_read_phys :: "pmem \<Rightarrow> u64 \<Rightarrow> nat \<Rightarrow> u8 list res" where
  "gr_read_phys pm paddr sz =
     bindR (gr_map_page pm (paddr AND PAGE_MASK)) (\<lambda>mem_page.
       if page_offset_of paddr + sz > PAGE_SIZE then Inl Bad_Access
       else Inr (frame_get (frames pm mem_page) (page_offset_of paddr) sz))"

definition gr_write_phys :: "pmem \<Rightarrow> u64 \<Rightarrow> u8 list \<Rightarrow> pmem res" where
  "gr_write_phys pm paddr buf =
     bindR (gr_map_page pm (paddr AND PAGE_MASK)) (\<lambda>mem_page.
       if page_offset_of paddr + length buf > PAGE_SIZE then Inl Bad_Access
       else Inr (pm\<lparr>frames := (frames pm)
              (mem_page := frame_put (frames pm mem_page) (page_offset_of paddr) buf)\<rparr>))"

definition gr_phys_memset :: "pmem \<Rightarrow> u64 \<Rightarrow> u8 \<Rightarrow> nat \<Rightarrow> pmem res" where
  "gr_phys_memset pm paddr v sz =
     (if page_offset_of paddr + sz > PAGE_SIZE then Inl Bug
      else bindR (gr_map_page pm (paddr AND PAGE_MASK)) (\<lambda>page.
        Inr (pm\<lparr>frames := (frames pm)
              (page := frame_put (frames pm page) (page_offset_of paddr) (replicate sz v))\<rparr>)))"

text \<open>Reads and writes of one 64-bit word of a mapped page (\<open>gr_read64\<close>, \<open>pgd_page[i] = v\<close>).\<close>

definition gr_read64 :: "pmem \<Rightarrow> u64 \<Rightarrow> nat \<Rightarrow> u64" where
  "gr_read64 pm base offset = frame_get64 (frames pm base) offset"

definition gr_write64 :: "pmem \<Rightarrow> u64 \<Rightarrow> nat \<Rightarrow> u64 \<Rightarrow> pmem" where
  "gr_write64 pm base offset val =
     pm\<lparr>frames := (frames pm)(base := frame_put64 (frames pm base) offset val)\<rparr>"

section \<open>Lemmas\<close>

lemma page_offset_of_less: "page_offset_of a < PAGE_SIZE"
proof -
  have "unat (take_bit 12 a) = take_bit 12 (unat a)" by (simp add: unsigned_take_bit_eq)
  then show ?thesis by (simp add: page_offset_of_def take_bit_eq_mod)
qed

lemma page_offset_of_aligned [simp]: "page_aligned a \<Longrightarrow> page_offset_of a = 0"
  by (simp add: page_offset_of_def page_aligned_def)

lemma gr_map_page_Inr [simp]:
  "gr_map_page pm pa = Inr q \<longleftrightarrow> page_aligned pa \<and> mappable pm pa \<and> q = pa"
  by (auto simp: gr_map_page_def)

lemma gr_map_page_ok: "page_aligned pa \<Longrightarrow> mappable pm pa \<Longrightarrow> gr_map_page pm pa = Inr pa"
  by simp

lemma or_offset_parts:
  assumes "page_aligned pa" and "k < PAGE_SIZE"
  shows "(pa + of_nat k) AND PAGE_MASK = pa" and "page_offset_of (pa + of_nat k) = k"
proof -
  have k: "unat (of_nat k :: u64) = k" using assms(2) by (simp add: unat_of_nat)
  have kb: "\<not> bit (of_nat k :: u64) n" if "12 \<le> n" for n
  proof -
    have "take_bit 12 (of_nat k :: u64) = of_nat k"
      using assms(2) by (simp only: take_bit_of_nat) (simp add: take_bit_nat_eq_self)
    then have "bit (of_nat k :: u64) n \<longleftrightarrow> bit (take_bit 12 (of_nat k :: u64)) n" by simp
    then show ?thesis using that by (simp add: bit_take_bit_iff)
  qed
  have sep: "\<not> (bit pa n \<and> bit (of_nat k :: u64) n)" for n
    by (cases "n < 12") (use kb [of n] page_aligned_bit [OF assms(1), of n] in auto)
  have disj: "pa AND of_nat k = 0"
    by (rule bit_word_eqI) (use sep in \<open>simp only: bit_and_iff bit_0_eq bot_apply bot_bool_def simp_thms\<close>)
  then have sum: "pa + of_nat k = pa OR of_nat k" by (simp add: disjunctive_add_eq_or)
  show "(pa + of_nat k) AND PAGE_MASK = pa"
    unfolding sum by (rule entry_addr [OF assms(1)]) (use kb in auto)
  have "take_bit 12 (pa + of_nat k) = take_bit 12 (of_nat k :: u64)"
    unfolding sum by (rule bit_word_eqI)
      (auto simp only: bit_take_bit_iff bit_or_iff dest: page_aligned_bit [OF assms(1)])
  also have "\<dots> = of_nat k"
    using assms(2) by (simp only: take_bit_of_nat) (simp add: take_bit_nat_eq_self)
  finally show "page_offset_of (pa + of_nat k) = k"
    using k by (simp add: page_offset_of_def)
qed

end
