(* ===== verification/GR_IOHistory.thy ===== *)
theory GR_IOHistory
  imports GR_Context
begin

text \<open>
  The register history: the ring buffer in the driver and its dump as text (\<open>gr_io_history_init\<close>,
  \<open>gr_io_history_add\<close>, \<open>gr_io_history_dump\<close> of \<open>gr/gr_as.c\<close>), and the reader in the replayer
  (\<open>gr_reg_init_list\<close> of \<open>replayer/gr_replay.c\<close>) with the \<open>fscanf\<close> conversions it uses.
\<close>

unbundle bit_operations_syntax

section \<open>The ring buffer\<close>

record io_access =
  ia_addr :: u64
  ia_value :: u32
  ia_timestamp :: u64
  ia_thread_id :: u32

text \<open>\<open>h_buf\<close> is \<open>None\<close> for a null pointer; an entry that was never written is \<open>None\<close>.\<close>

record io_history =
  h_enabled :: bool
  h_count :: u64
  h_size :: u16
  h_buf :: "(nat \<Rightarrow> io_access option) option"

text \<open>
  A failed or empty allocation is only reported: the function goes on and returns 0. An
  allocation of no bytes fails.
\<close>

definition gr_io_history_init :: "bool \<Rightarrow> u16 \<Rightarrow> io_history" where
  "gr_io_history_init alloc_ok new_size =
     \<lparr> h_enabled = True, h_count = 0, h_size = new_size,
       h_buf = (if alloc_ok \<and> new_size \<noteq> 0 then Some (\<lambda>i. None) else None) \<rparr>"

definition gr_io_history_add ::
  "io_history \<Rightarrow> u32 \<Rightarrow> u32 \<Rightarrow> u8 \<Rightarrow> u64 \<Rightarrow> u32 \<Rightarrow> io_history res" where
  "gr_io_history_add h offset v write now pid =
     (if h_size h = 0 then Inl Bad_Access
      else case h_buf h of
             None \<Rightarrow> Inl Bad_Access
           | Some buf \<Rightarrow>
               (let i = unat (h_count h) mod unat (h_size h);
                    io = \<lparr> ia_addr = ucast offset OR ucast write, ia_value = v, ia_timestamp = now,
                           ia_thread_id = pid \<rparr>;
                    count' = h_count h + 1
                in Inr (h\<lparr> h_buf := Some (buf(i \<mapsto> io)),
                           h_count := (if count' = 0 then ucast (h_size h) else count') \<rparr>)))"

section \<open>The dump\<close>

fun digits :: "nat \<Rightarrow> nat \<Rightarrow> nat list" where
  "digits b n = (if b < 2 \<or> n < b then [n] else digits b (n div b) @ [n mod b])"

declare digits.simps [simp del]

definition digit_char :: "nat \<Rightarrow> char" where
  "digit_char d = char_of (if d < 10 then 48 + d else 87 + d)"

definition show_num :: "nat \<Rightarrow> nat \<Rightarrow> string" where
  "show_num b n = map digit_char (digits b n)"

text \<open>The format \<open>%llu,%c,%x,%x\<close> and a newline.\<close>

definition io_line :: "u64 \<Rightarrow> char \<Rightarrow> u32 \<Rightarrow> u32 \<Rightarrow> string" where
  "io_line timestamp access offset v =
     show_num 10 (unat timestamp) @ CHR '','' # access # CHR '','' #
     show_num 16 (unat offset) @ CHR '','' # show_num 16 (unat v) @ [CHR 0x0A]"

text \<open>
  The loop of the dump, for the \<open>n\<close> accesses that are left of \<open>iters\<close>: the text that it writes.
  An access that was never recorded is an indeterminate read.
\<close>

fun history_dump_loop ::
  "io_history \<Rightarrow> (nat \<Rightarrow> io_access option) \<Rightarrow> u64 \<Rightarrow> nat \<Rightarrow> u64 \<Rightarrow> string res" where
  "history_dump_loop h buf iters 0 prev_ts = Inr []"
| "history_dump_loop h buf iters (Suc n) prev_ts =
     (case buf (unat (h_count h - iters + (iters - of_nat (Suc n))) mod unat (h_size h)) of
        None \<Rightarrow> Inl Bad_Access
      | Some io \<Rightarrow>
          (let access = (if bit (ia_addr io) 0 then CHR ''W'' else CHR ''R'');
               offset = (ucast (ia_addr io) AND NOT 1 :: u32);
               timestamp = ia_timestamp io - prev_ts
           in bindR (history_dump_loop h buf iters n (ia_timestamp io)) (\<lambda>rest.
                Inr (io_line timestamp access offset (ia_value io) @ rest))))"

definition gr_io_history_dump :: "io_history \<Rightarrow> string res" where
  "gr_io_history_dump h =
     (let iters = (if ucast (h_size h) > h_count h then h_count h else ucast (h_size h))
      in if iters = 0 then Inr []
         else case h_buf h of
                None \<Rightarrow> Inl Bad_Access
              | Some buf \<Rightarrow>
                  (case buf (unat (h_count h - iters) mod unat (h_size h)) of
                     None \<Rightarrow> Inl Bad_Access
                   | Some io \<Rightarrow> history_dump_loop h buf iters (unat iters) (ia_timestamp io)))"

section \<open>The reader\<close>

text \<open>A text file: what is left of it, and the end-of-file indicator.\<close>

record tfile =
  tf_rest :: string
  tf_eof :: bool

definition at :: "string \<Rightarrow> tfile \<Rightarrow> tfile" where
  "at rest f = \<lparr> tf_rest = rest, tf_eof = (tf_eof f \<or> rest = []) \<rparr>"

definition is_space :: "char \<Rightarrow> bool" where
  "is_space c \<longleftrightarrow> c \<in> {CHR '' '', CHR 0x09, CHR 0x0A, CHR 0x0B, CHR 0x0C, CHR 0x0D}"

text \<open>White space in the format: reads to the first other character or the end.\<close>

definition scan_space :: "tfile \<Rightarrow> tfile" where
  "scan_space f = at (dropWhile is_space (tf_rest f)) f"

definition digit_val :: "char \<Rightarrow> nat option" where
  "digit_val c =
     (let n = of_char c :: nat
      in if 48 \<le> n \<and> n \<le> 57 then Some (n - 48)
         else if 97 \<le> n \<and> n \<le> 102 then Some (n - 87)
         else if 65 \<le> n \<and> n \<le> 70 then Some (n - 55) else None)"

definition is_digit :: "nat \<Rightarrow> char \<Rightarrow> bool" where
  "is_digit b c \<longleftrightarrow> (case digit_val c of None \<Rightarrow> False | Some d \<Rightarrow> d < b)"

definition scan_sign :: "string \<Rightarrow> bool \<times> string" where
  "scan_sign s = (case s of [] \<Rightarrow> (False, [])
     | c # cs \<Rightarrow> if c = CHR ''-'' then (True, cs) else if c = CHR ''+'' then (False, cs) else (False, s))"

definition scan_prefix :: "nat \<Rightarrow> string \<Rightarrow> string" where
  "scan_prefix b s =
     (case s of
        c # d # cs \<Rightarrow> if b = 16 \<and> c = CHR ''0'' \<and> (d = CHR ''x'' \<or> d = CHR ''X'') then cs else s
      | _ \<Rightarrow> s)"

definition num_value :: "nat \<Rightarrow> string \<Rightarrow> nat" where
  "num_value b ds = foldl (\<lambda>a c. a * b + the (digit_val c)) 0 ds"

text \<open>
  The conversions \<open>%lu\<close> (base 10) and \<open>%x\<close> (base 16): white space, an optional sign, for base
  16 an optional prefix, and digits; the value is saturated at 64 bits, as \<open>strtoul\<close> does.
  No digit is a matching failure.
\<close>

definition scan_num :: "nat \<Rightarrow> tfile \<Rightarrow> u64 option \<times> tfile" where
  "scan_num b f =
     (let f1 = scan_space f;
          (neg, s1) = scan_sign (tf_rest f1);
          s2 = scan_prefix b s1;
          ds = takeWhile (is_digit b) s2;
          f2 = at (dropWhile (is_digit b) s2) f1;
          v = (if num_value b ds < 2 ^ 64 then of_nat (num_value b ds) else - 1)
      in (if ds = [] then None else Some (if neg then - v else v), f2))"

definition scan_char :: "tfile \<Rightarrow> char option \<times> tfile" where
  "scan_char f =
     (case tf_rest f of [] \<Rightarrow> (None, f\<lparr> tf_eof := True \<rparr>) | c # cs \<Rightarrow> (Some c, f\<lparr> tf_rest := cs \<rparr>))"

definition scan_lit :: "char \<Rightarrow> tfile \<Rightarrow> bool \<times> tfile" where
  "scan_lit c f =
     (case tf_rest f of [] \<Rightarrow> (False, f\<lparr> tf_eof := True \<rparr>)
      | d # cs \<Rightarrow> if d = c then (True, f\<lparr> tf_rest := cs \<rparr>) else (False, f))"

text \<open>
  \<open>fscanf\<close> with \<open>%lu,%c,%x,%x\<close> and a newline: it stops at the first failure. An entry that was
  not completely assigned, which has indeterminate members, is \<open>None\<close>.
\<close>

definition scan_io :: "tfile \<Rightarrow> reg_io option \<times> tfile" where
  "scan_io f =
     (case scan_num 10 f of
        (None, f1) \<Rightarrow> (None, f1)
      | (Some ts, f1) \<Rightarrow>
     (case scan_lit CHR '','' f1 of
        (False, f2) \<Rightarrow> (None, f2)
      | (True, f2) \<Rightarrow>
     (case scan_char f2 of
        (None, f3) \<Rightarrow> (None, f3)
      | (Some c, f3) \<Rightarrow>
     (case scan_lit CHR '','' f3 of
        (False, f4) \<Rightarrow> (None, f4)
      | (True, f4) \<Rightarrow>
     (case scan_num 16 f4 of
        (None, f5) \<Rightarrow> (None, f5)
      | (Some off, f5) \<Rightarrow>
     (case scan_lit CHR '','' f5 of
        (False, f6) \<Rightarrow> (None, f6)
      | (True, f6) \<Rightarrow>
     (case scan_num 16 f6 of
        (None, f7) \<Rightarrow> (None, f7)
      | (Some v, f7) \<Rightarrow>
          (Some \<lparr> io_ts = ts, io_is_read = c, io_offset = ucast off, io_value = ucast v \<rparr>,
           scan_space f7))))))))"

text \<open>
  The loop over the file, cut off by fuel: on text that does not match, the position does not
  move and the loop never ends.
\<close>

fun reg_list_loop :: "nat \<Rightarrow> tfile \<Rightarrow> reg_io option list \<Rightarrow> reg_io option list res" where
  "reg_list_loop fuel f acc =
     (if tf_eof f then Inr acc
      else case fuel of
             0 \<Rightarrow> Inl No_Fuel
           | Suc n \<Rightarrow> (let (io, f') = scan_io f in reg_list_loop n f' (acc @ [io])))"

declare reg_list_loop.simps [simp del]

definition gr_reg_init_list :: "nat \<Rightarrow> string option \<Rightarrow> reg_io option list res" where
  "gr_reg_init_list fuel input =
     (case input of
        None \<Rightarrow> Inl Bug
      | Some text \<Rightarrow> reg_list_loop fuel \<lparr> tf_rest = text, tf_eof = False \<rparr> [])"

section \<open>Numbers\<close>

lemma digits_less: "1 < b \<Longrightarrow> d \<in> set (digits b n) \<Longrightarrow> d < b"
proof (induction b n rule: digits.induct)
  case (1 b n)
  then show ?case by (subst (asm) (2) digits.simps) (auto split: if_splits)
qed

lemma digits_nonempty [simp]: "digits b n \<noteq> []"
  by (subst digits.simps) simp

lemma digits_value: "1 < b \<Longrightarrow> foldl (\<lambda>a d. a * b + d) 0 (digits b n) = n"
proof (induction b n rule: digits.induct)
  case (1 b n)
  show ?case
  proof (cases "n < b")
    case True
    then show ?thesis by (subst digits.simps) simp
  next
    case False
    then show ?thesis using 1 by (subst digits.simps) simp
  qed
qed

lemma digit_val_char: "d < 16 \<Longrightarrow> digit_val (digit_char d) = Some d"
  by (auto simp: digit_val_def digit_char_def of_char_of)

lemma digit_char_plain:
  assumes "d < 16"
  shows "\<not> is_space (digit_char d)" and "digit_char d \<noteq> CHR ''-''" and "digit_char d \<noteq> CHR ''+''"
    and "digit_char d \<noteq> CHR ''x''" and "digit_char d \<noteq> CHR ''X''"
proof -
  have "d \<in> {0, 1, 2, 3, 4, 5, 6, 7, 8, 9, 10, 11, 12, 13, 14, 15}" using assms by (simp, presburger)
  then show "\<not> is_space (digit_char d)" "digit_char d \<noteq> CHR ''-''" "digit_char d \<noteq> CHR ''+''"
    "digit_char d \<noteq> CHR ''x''" "digit_char d \<noteq> CHR ''X''"
    by (auto simp: digit_char_def is_space_def char_of_def)
qed

lemma num_value_digits:
  assumes "1 < b" and "b \<le> 16"
  shows "num_value b (show_num b n) = n"
proof -
  have "foldl (\<lambda>a c. a * b + the (digit_val c)) a (map digit_char ds) = foldl (\<lambda>a d. a * b + d) a ds"
    if "\<forall>d \<in> set ds. d < 16" for a ds
    using that by (induction ds arbitrary: a) (simp_all add: digit_val_char)
  moreover have "\<forall>d \<in> set (digits b n). d < 16" using digits_less assms by fastforce
  ultimately show ?thesis using digits_value [of b n] assms(1) by (simp add: num_value_def show_num_def)
qed

text \<open>A printed number, followed by a character that is no digit, is read back.\<close>

lemma scan_num_show:
  fixes w :: "'a::len word"
  assumes "b = 10 \<or> b = 16" and "LENGTH('a) \<le> 64" and "\<not> is_digit b c" and "c \<noteq> CHR ''x''" and "c \<noteq> CHR ''X''"
  shows "scan_num b \<lparr> tf_rest = show_num b (unat w) @ c # s, tf_eof = False \<rparr> =
    (Some (ucast w), \<lparr> tf_rest = c # s, tf_eof = False \<rparr>)"
proof -
  have b: "1 < b" "b \<le> 16" using assms(1) by auto
  have "\<forall>d \<in> set (digits b (unat w)). d < b" using digits_less b(1) by blast
  moreover obtain d ds where ds: "digits b (unat w) = d # ds" by (cases "digits b (unat w)") auto
  ultimately have dl: "d < b" "\<forall>e \<in> set ds. e < b" by auto
  then have d16: "d < 16" "\<forall>e \<in> set ds. e < 16" using b(2) by auto
  have s: "show_num b (unat w) = digit_char d # map digit_char ds" by (simp add: show_num_def ds)
  define t where "t = show_num b (unat w) @ c # s"
  have t': "t = digit_char d # map digit_char ds @ c # s" by (simp add: t_def s)
  have sp: "dropWhile is_space t = t" using digit_char_plain(1) [OF d16(1)] by (simp add: t')
  have sg: "scan_sign t = (False, t)" using digit_char_plain(2,3) [OF d16(1)] by (simp add: scan_sign_def t')
  have pf: "scan_prefix b t = t"
    using d16(2) digit_char_plain(4,5) assms(4,5) by (cases ds) (auto simp: scan_prefix_def t')
  have dg: "\<forall>e \<in> set (show_num b (unat w)). is_digit b e"
    using dl d16 by (auto simp: s is_digit_def digit_val_char)
  then have tw: "takeWhile (is_digit b) t = show_num b (unat w)" "dropWhile (is_digit b) t = c # s"
    using assms(3) by (simp_all add: t_def takeWhile_tail dropWhile_append3)
  have "unat w < 2 ^ LENGTH('a)" by (rule unsigned_less)
  also have "(2 :: nat) ^ LENGTH('a) \<le> 2 ^ 64" using assms(2) by (intro power_increasing) auto
  finally have "unat w < 2 ^ 64" .
  moreover have "(of_nat (unat w) :: u64) = ucast w" by simp
  moreover have ne: "t \<noteq> []" "show_num b (unat w) \<noteq> []" by (simp_all add: t' s)
  moreover have "\<exists>x \<in> set t. \<not> is_digit b x" using assms(3) by (auto simp: t_def)
  ultimately show ?thesis using sp sg pf tw num_value_digits [OF b, of "unat w"]
    unfolding t_def [symmetric]
    by (simp add: scan_num_def scan_space_def at_def Let_def ne)
qed

section \<open>Reading lines back\<close>

definition no_space :: "string \<Rightarrow> bool" where
  "no_space g \<longleftrightarrow> (case g of [] \<Rightarrow> True | c # cs \<Rightarrow> \<not> is_space c)"

lemma separators: "\<not> is_digit b CHR '',''" "\<not> is_digit b CHR 0x0A" "is_space CHR 0x0A"
  by (simp_all add: is_digit_def digit_val_def is_space_def)

lemma scan_io_line:
  assumes "no_space g"
  shows "scan_io \<lparr> tf_rest = io_line ts c off v @ g, tf_eof = False \<rparr> =
    (Some \<lparr> io_ts = ts, io_is_read = c, io_offset = off, io_value = v \<rparr>, \<lparr> tf_rest = g, tf_eof = (g = []) \<rparr>)"
proof -
  have sp: "scan_space \<lparr> tf_rest = CHR 0x0A # g, tf_eof = False \<rparr> = \<lparr> tf_rest = g, tf_eof = (g = []) \<rparr>"
    using assms by (cases g) (auto simp: scan_space_def at_def separators no_space_def)
  have u: "ucast (ucast w :: u64) = w" for w :: u32
    by (rule bit_word_eqI) (simp add: bit_simps)
  show ?thesis
    by (simp add: io_line_def scan_io_def scan_num_show separators scan_lit_def scan_char_def sp u)
qed

lemma io_line_no_space: "no_space (io_line ts c off v @ g)"
proof -
  obtain d ds where d: "digits 10 (unat ts) = d # ds" by (cases "digits 10 (unat ts)") auto
  then have "d < 16" using digits_less [of 10 d "unat ts"] by simp
  then show ?thesis using digit_char_plain(1) by (simp add: io_line_def show_num_def d no_space_def)
qed

definition line_of :: "reg_io \<Rightarrow> string" where
  "line_of io = io_line (io_ts io) (io_is_read io) (io_offset io) (io_value io)"

lemma lines_no_space: "no_space (concat (map line_of ios))"
  by (cases ios) (simp_all add: no_space_def [of "[]"] line_of_def io_line_no_space)

lemma lines_empty: "concat (map line_of ios) = [] \<longleftrightarrow> ios = []"
  by (cases ios) (simp_all add: line_of_def io_line_def)

lemma reg_list_loop_lines:
  assumes "ios \<noteq> []" and "length ios \<le> fuel"
  shows "reg_list_loop fuel \<lparr> tf_rest = concat (map line_of ios), tf_eof = False \<rparr> acc = Inr (acc @ map Some ios)"
  using assms
proof (induction ios arbitrary: fuel acc)
  case (Cons io ios)
  then obtain n where n: "fuel = Suc n" by (cases fuel) auto
  have "reg_list_loop fuel \<lparr> tf_rest = concat (map line_of (io # ios)), tf_eof = False \<rparr> acc =
      reg_list_loop n \<lparr> tf_rest = concat (map line_of ios), tf_eof = (concat (map line_of ios) = []) \<rparr> (acc @ [Some io])"
    using scan_io_line [OF lines_no_space [of ios], of "io_ts io" "io_is_read io" "io_offset io" "io_value io"]
    by (subst reg_list_loop.simps) (cases io, simp add: n line_of_def)
  also have "\<dots> = Inr (acc @ map Some (io # ios))"
  proof (cases "ios = []")
    case True
    then show ?thesis by (simp add: reg_list_loop.simps)
  next
    case False
    then have "(concat (map line_of ios) = []) = False" using lines_empty by blast
    then show ?thesis using Cons.IH [OF False, of n "acc @ [Some io]"] Cons.prems(2) n by (simp only:) simp
  qed
  finally show ?case .
qed simp

section \<open>The ring buffer as a list\<close>

text \<open>The accesses of a recording, and the lines for them: each has the time since the one before.\<close>

record access =
  ac_offset :: u32
  ac_value :: u32
  ac_write :: bool
  ac_time :: u64
  ac_pid :: u32

definition entry_of :: "access \<Rightarrow> io_access" where
  "entry_of a = \<lparr> ia_addr = ucast (ac_offset a) OR ucast (if ac_write a then 1 else 0 :: u8),
     ia_value = ac_value a, ia_timestamp = ac_time a, ia_thread_id = ac_pid a \<rparr>"

lemma entry_of_simps [simp]:
  "ia_value (entry_of a) = ac_value a" "ia_timestamp (entry_of a) = ac_time a"
  by (simp_all add: entry_of_def)

fun history_run :: "access list \<Rightarrow> io_history \<Rightarrow> io_history res" where
  "history_run [] h = Inr h"
| "history_run (a # as) h =
     bindR (gr_io_history_add h (ac_offset a) (ac_value a) (if ac_write a then 1 else 0) (ac_time a) (ac_pid a))
       (history_run as)"

fun ios_of :: "u64 \<Rightarrow> access list \<Rightarrow> reg_io list" where
  "ios_of prev [] = []"
| "ios_of prev (a # as) =
     \<lparr> io_ts = ac_time a - prev, io_is_read = (if ac_write a then CHR ''W'' else CHR ''R''),
       io_offset = ac_offset a, io_value = ac_value a \<rparr> # ios_of (ac_time a) as"

definition dumped_ios :: "access list \<Rightarrow> reg_io list" where
  "dumped_ios as = (case as of [] \<Rightarrow> [] | a # _ \<Rightarrow> ios_of (ac_time a) as)"

definition history_is :: "io_history \<Rightarrow> nat \<Rightarrow> access list \<Rightarrow> bool" where
  "history_is h n as \<longleftrightarrow> 0 < n \<and> unat (h_size h) = n \<and> h_count h = of_nat (length as) \<and>
     (\<exists>buf. h_buf h = Some buf \<and>
        (\<forall>k < length as. length as \<le> k + n \<longrightarrow> buf (k mod n) = Some (entry_of (as ! k))))"

lemma history_init_is: "sz \<noteq> 0 \<Longrightarrow> history_is (gr_io_history_init True sz) (unat sz) []"
  by (auto simp: history_is_def gr_io_history_init_def unat_gt_0)

lemma mod_window:
  fixes k m n :: nat
  assumes "k < m" and "m < k + n"
  shows "k mod n \<noteq> m mod n"
proof
  assume "k mod n = m mod n"
  then have "n dvd m - k" by (metis assms(1) less_imp_le mod_eq_dvd_iff_nat)
  moreover have "0 < m - k" "m - k < n" using assms by auto
  ultimately show False by (auto dest: dvd_imp_le)
qed

lemma history_add_is:
  assumes "history_is h n as" and "length as < 2 ^ 64 - 1"
  shows "\<exists>h'. gr_io_history_add h (ac_offset a) (ac_value a) (if ac_write a then 1 else 0) (ac_time a) (ac_pid a) = Inr h' \<and>
    history_is h' n (as @ [a])"
proof -
  from assms(1) obtain buf where h: "0 < n" "unat (h_size h) = n" "h_count h = of_nat (length as)" "h_buf h = Some buf"
    "\<forall>k < length as. length as \<le> k + n \<longrightarrow> buf (k mod n) = Some (entry_of (as ! k))"
    by (auto simp: history_is_def)
  have c: "unat (h_count h) = length as" using assms(2) by (simp add: h(3) unat_of_nat_u64)
  have "unat (of_nat (Suc (length as)) :: u64) = Suc (length as)" using assms(2) by (intro unat_of_nat_u64) simp
  then have nz: "(of_nat (Suc (length as)) :: u64) \<noteq> 0" by (metis nat.distinct(1) unsigned_0)
  have "(buf(length as mod n \<mapsto> entry_of a)) (k mod n) = Some (entry_of ((as @ [a]) ! k))"
    if "k < Suc (length as)" "Suc (length as) \<le> k + n" for k
  proof (cases "k = length as")
    case False
    then have "k < length as" using that(1) by simp
    moreover from this have "k mod n \<noteq> length as mod n" using mod_window [of k "length as" n] that(2) by simp
    ultimately show ?thesis using h(5) that(2) by (simp add: nth_append)
  qed simp
  moreover have "h_size h \<noteq> 0" using h(1,2) by auto
  moreover have "h_count h + 1 = of_nat (Suc (length as))" by (simp add: h(3))
  ultimately show ?thesis using h(1,2,4) nz c
    by (simp add: gr_io_history_add_def history_is_def entry_of_def Let_def del: of_nat_Suc)
qed

lemma history_run_is:
  "history_is h n bs \<Longrightarrow> length bs + length as < 2 ^ 64 \<Longrightarrow>
     \<exists>h'. history_run as h = Inr h' \<and> history_is h' n (bs @ as)"
proof (induction as arbitrary: h bs)
  case (Cons a as)
  have "length bs < 2 ^ 64 - 1" using Cons.prems(2) by simp
  from history_add_is [OF Cons.prems(1) this] obtain h' where
    "gr_io_history_add h (ac_offset a) (ac_value a) (if ac_write a then 1 else 0) (ac_time a) (ac_pid a) = Inr h'"
    "history_is h' n (bs @ [a])" by blast
  then show ?case using Cons.IH [of h' "bs @ [a]"] Cons.prems(2) by simp
qed simp

text \<open>Register offsets are even, so the low bit of an entry is the direction.\<close>

lemma entry_offset:
  assumes "\<not> bit (ac_offset a) 0"
  shows "bit (ia_addr (entry_of a)) 0 \<longleftrightarrow> ac_write a"
    and "(ucast (ia_addr (entry_of a)) AND NOT 1 :: u32) = ac_offset a"
proof -
  show "bit (ia_addr (entry_of a)) 0 \<longleftrightarrow> ac_write a"
    using assms by (simp add: entry_of_def bit_or_iff bit_ucast_iff)
  have "bit (1 :: u32) n \<longleftrightarrow> n = 0" for n by (simp add: bit_1_iff)
  then show "(ucast (ia_addr (entry_of a)) AND NOT 1 :: u32) = ac_offset a"
    using assms by (intro bit_word_eqI)
      (auto simp: entry_of_def bit_simps bit_1_iff intro: ccontr)
qed

lemma history_dump_loop_lines:
  assumes "history_is h n as" and "length as < 2 ^ 64" and "iters = min n (length as)" and "m \<le> iters"
    and "\<forall>a \<in> set as. \<not> bit (ac_offset a) 0" and "h_buf h = Some buf"
  shows "history_dump_loop h buf (of_nat iters) m prev =
    Inr (concat (map line_of (ios_of prev (drop (length as - m) as))))"
  using assms(4)
proof (induction m arbitrary: prev)
  case (Suc m)
  from assms(1) have h: "unat (h_size h) = n" "h_count h = of_nat (length as)"
    "\<forall>k < length as. length as \<le> k + n \<longrightarrow> buf (k mod n) = Some (entry_of (as ! k))"
    using assms(6) by (auto simp: history_is_def)
  let ?k = "length as - Suc m"
  have k: "?k < length as" "length as \<le> ?k + n" using Suc.prems assms(3) by auto
  have "h_count h - of_nat iters + (of_nat iters - of_nat (Suc m)) = (of_nat (length as) - of_nat (Suc m) :: u64)"
    by (simp add: h(2))
  also have "\<dots> = of_nat ?k" using Suc.prems assms(3) by (simp add: of_nat_diff)
  finally have "unat (h_count h - of_nat iters + (of_nat iters - of_nat (Suc m))) = ?k"
    using assms(2) by (simp add: unat_of_nat_u64)
  then have b: "buf (unat (h_count h - of_nat iters + (of_nat iters - of_nat (Suc m))) mod unat (h_size h)) =
      Some (entry_of (as ! ?k))" using h(1,3) k by simp
  have ev: "\<not> bit (ac_offset (as ! ?k)) 0" using assms(5) k(1) by simp
  have sk: "Suc ?k = length as - m" using Suc.prems assms(3) by auto
  have d: "drop ?k as = as ! ?k # drop (length as - m) as"
    using Cons_nth_drop_Suc [OF k(1)] unfolding sk by (rule sym)
  have ih: "history_dump_loop h buf (of_nat iters) m (ac_time (as ! ?k)) =
      Inr (concat (map line_of (ios_of (ac_time (as ! ?k)) (drop (length as - m) as))))"
    using Suc.IH Suc.prems by simp
  have "line_of \<lparr> io_ts = ac_time (as ! ?k) - prev, io_is_read = (if ac_write (as ! ?k) then CHR ''W'' else CHR ''R''),
      io_offset = ac_offset (as ! ?k), io_value = ac_value (as ! ?k) \<rparr> =
    io_line (ac_time (as ! ?k) - prev) (if ac_write (as ! ?k) then CHR ''W'' else CHR ''R'')
      (ac_offset (as ! ?k)) (ac_value (as ! ?k))" by (simp add: line_of_def)
  then show ?case
    by (simp only: history_dump_loop.simps b option.case Let_def entry_of_simps entry_offset [OF ev] ih
        bindR_simps d ios_of.simps list.map concat.simps)
qed simp

lemma gr_io_history_dump_lines:
  assumes "history_is h n as" and "length as < 2 ^ 64" and "\<forall>a \<in> set as. \<not> bit (ac_offset a) 0"
  shows "gr_io_history_dump h = Inr (concat (map line_of (dumped_ios (drop (length as - n) as))))"
proof -
  let ?m = "min n (length as)"
  from assms(1) obtain buf where h: "0 < n" "unat (h_size h) = n" "h_count h = of_nat (length as)" "h_buf h = Some buf"
    "\<forall>k < length as. length as \<le> k + n \<longrightarrow> buf (k mod n) = Some (entry_of (as ! k))"
    by (auto simp: history_is_def)
  have c: "unat (h_count h) = length as" using assms(2) by (simp add: h(3) unat_of_nat_u64)
  have us: "unat (ucast (h_size h) :: u64) = n" using h(2) unsigned_less [of "h_size h", where 'a = nat]
    by (simp add: unsigned_ucast_eq take_bit_nat_eq_self)
  have w: "ucast (h_size h) = (of_nat n :: u64)" using h(2) by (simp flip: h(2))
  have it: "(if ucast (h_size h) > h_count h then h_count h else ucast (h_size h)) = of_nat ?m"
    using us c h(2,3) w by (auto simp: word_less_nat_alt min_def)
  show ?thesis
  proof (cases "as = []")
    case True
    then show ?thesis using it by (simp add: gr_io_history_dump_def dumped_ios_def)
  next
    case False
    have m: "unat (of_nat ?m :: u64) = ?m" "0 < ?m" using assms(2) h(1) False by (simp_all add: unat_of_nat_u64)
    then have nz: "(of_nat ?m :: u64) \<noteq> 0" by (metis less_irrefl unsigned_0)
    have "h_count h - of_nat ?m = of_nat (length as - ?m)" by (simp add: h(3) of_nat_diff)
    moreover have "unat (of_nat (length as - ?m) :: u64) = length as - ?m"
      by (rule unat_of_nat_u64) (use assms(2) in simp)
    ultimately have "unat (h_count h - of_nat ?m) = length as - ?m" by (simp only:)
    moreover have k: "length as - ?m < length as" "length as \<le> length as - ?m + n" using m(2) by auto
    ultimately have b: "buf (unat (h_count h - of_nat ?m) mod unat (h_size h)) = Some (entry_of (as ! (length as - ?m)))"
      using h(2,5) by simp
    have d: "drop (length as - n) as = as ! (length as - ?m) # drop (Suc (length as - ?m)) as"
      using k(1) by (cases "n \<le> length as") (auto simp: Cons_nth_drop_Suc min_def)
    have l: "history_dump_loop h buf (of_nat ?m) ?m (ac_time (as ! (length as - ?m))) =
        Inr (concat (map line_of (ios_of (ac_time (as ! (length as - ?m))) (drop (length as - ?m) as))))"
      by (rule history_dump_loop_lines [OF assms(1,2) refl order_refl assms(3) h(4)])
    have dd: "drop (length as - ?m) as = drop (length as - n) as" by (simp add: min_def)
    show ?thesis using nz b l m(1) h(4)
      by (simp add: gr_io_history_dump_def it dd) (simp add: d dumped_ios_def)
  qed
qed

section \<open>Properties\<close>

text \<open>
  C19. What the driver records of its register accesses is what the replayer loads: after any
  number of accesses, the dumped text is read back as the last accesses that fit into the ring
  buffer, in order, with direction, offset and value, each with the time since the one before.
\<close>

theorem register_history_roundtrip:
  assumes "sz \<noteq> 0" and "length as < 2 ^ 64" and "\<forall>a \<in> set as. \<not> bit (ac_offset a) 0" and "as \<noteq> []"
    and "min (unat sz) (length as) \<le> fuel"
  shows "\<exists>h text. history_run as (gr_io_history_init True sz) = Inr h \<and> gr_io_history_dump h = Inr text \<and>
    gr_reg_init_list fuel (Some text) = Inr (map Some (dumped_ios (drop (length as - unat sz) as)))"
proof -
  let ?last = "drop (length as - unat sz) as"
  obtain h where h: "history_run as (gr_io_history_init True sz) = Inr h" "history_is h (unat sz) as"
    using history_run_is [OF history_init_is [OF assms(1)], of as] assms(2) by auto
  have d: "gr_io_history_dump h = Inr (concat (map line_of (dumped_ios ?last)))"
    by (rule gr_io_history_dump_lines [OF h(2) assms(2,3)])
  have len: "length (ios_of prev bs) = length bs" for prev bs
    by (induction bs arbitrary: prev) simp_all
  have "0 < unat sz" using assms(1) by (simp add: unat_gt_0)
  then have "length as - unat sz < length as" using assms(4) by simp
  then have ne: "?last \<noteq> []" by simp
  then have "dumped_ios ?last \<noteq> []" "length (dumped_ios ?last) = length ?last"
    by (cases ?last; simp add: dumped_ios_def len)+
  moreover have "length ?last \<le> fuel" using assms(5) by (simp add: min_def split: if_splits)
  ultimately have "reg_list_loop fuel \<lparr> tf_rest = concat (map line_of (dumped_ios ?last)), tf_eof = False \<rparr> [] =
      Inr ([] @ map Some (dumped_ios ?last))"
    by (intro reg_list_loop_lines) simp_all
  then show ?thesis using h(1) d by (simp add: gr_reg_init_list_def)
qed

definition demo_accesses :: "access list" where
  "demo_accesses = [\<lparr> ac_offset = 0x24, ac_value = 0x100, ac_write = True, ac_time = 5, ac_pid = 1 \<rparr>,
     \<lparr> ac_offset = 0x1000, ac_value = 0xff, ac_write = False, ac_time = 7, ac_pid = 1 \<rparr>,
     \<lparr> ac_offset = 0x30, ac_value = 1, ac_write = True, ac_time = 12, ac_pid = 2 \<rparr>]"

theorem register_history_roundtrip_witness:
  "\<exists>h text. history_run demo_accesses (gr_io_history_init True 2) = Inr h \<and> gr_io_history_dump h = Inr text \<and>
    gr_reg_init_list 2 (Some text) = Inr [
      Some \<lparr> io_ts = 0, io_is_read = CHR ''R'', io_offset = 0x1000, io_value = 0xff \<rparr>,
      Some \<lparr> io_ts = 5, io_is_read = CHR ''W'', io_offset = 0x30, io_value = 1 \<rparr>]"
proof -
  have "\<forall>a \<in> set demo_accesses. \<not> bit (ac_offset a) 0"
    by (simp add: demo_accesses_def bit_iff_odd)
  then show ?thesis
    using register_history_roundtrip [of 2 demo_accesses 2] by (simp add: demo_accesses_def dumped_ios_def)
qed

text \<open>
  A history file that does not start like a line makes the loader loop for ever: no
  conversion consumes the offending character, so the end of the file is never reached, while
  every round allocates an entry.
\<close>

theorem gr_reg_init_list_stuck:
  assumes "\<not> is_space c" and "\<not> is_digit 10 c" and "c \<noteq> CHR ''-''" and "c \<noteq> CHR ''+''"
  shows "gr_reg_init_list fuel (Some (c # s)) = Inl No_Fuel"
proof -
  have "scan_io \<lparr> tf_rest = c # s, tf_eof = False \<rparr> = (None, \<lparr> tf_rest = c # s, tf_eof = False \<rparr>)"
    using assms by (cases s)
      (simp_all add: scan_io_def scan_num_def scan_space_def at_def scan_sign_def scan_prefix_def Let_def)
  then have "reg_list_loop fuel \<lparr> tf_rest = c # s, tf_eof = False \<rparr> acc = Inl No_Fuel" for acc
    by (induction fuel arbitrary: acc) (subst reg_list_loop.simps, simp)+
  then show ?thesis by (simp add: gr_reg_init_list_def)
qed

theorem gr_reg_init_list_stuck_witness:
  "gr_reg_init_list 100000 (Some ''# 0,R,0,0'') = Inl No_Fuel"
  by (rule gr_reg_init_list_stuck) (simp_all add: is_space_def is_digit_def digit_val_def)

end
