(* ===== verification/GR_Pte.thy ===== *)
theory GR_Pte
  imports GR_Context
begin

text \<open>
  The page table entries as the replayer sees them and its two page walks
  (\<open>replayer/gr_mem.c\<close>): \<open>gr_get_pgd_at_level\<close> reads the tables in physical memory,
  \<open>gr_get_user_pgd_at_level\<close> follows the tree the replayer keeps in user space, and
  \<open>gr_trans_va_to_pa\<close> translates a GPU address. The entry encodings are compared with those
  of the driver.
\<close>

unbundle bit_operations_syntax

section \<open>Entries\<close>

definition gr_get_mmu_flags :: "u64 \<Rightarrow> u64" where
  "gr_get_mmu_flags flags =
     (let mmu_flags = push_bit 2 (KBASE_REG_MEMATTR_VALUE flags);
          mmu_flags = (if flags AND KBASE_REG_GPU_WR \<noteq> 0 then mmu_flags OR ENTRY_ACCESS_RW
                       else if flags AND KBASE_REG_GPU_RD \<noteq> 0 then mmu_flags OR ENTRY_ACCESS_RO
                       else mmu_flags);
          mmu_flags = mmu_flags OR (if flags AND KBASE_REG_GPU_NX \<noteq> 0 then ENTRY_NX_BIT else 0)
      in if flags AND KBASE_REG_SHARE_BOTH \<noteq> 0 then mmu_flags OR SHARE_BOTH_BITS
         else if flags AND KBASE_REG_SHARE_IN \<noteq> 0 then mmu_flags OR SHARE_INNER_BITS
         else mmu_flags)"

definition gr_entry_get_ate :: "u64 \<Rightarrow> u64 \<Rightarrow> nat \<Rightarrow> u64" where
  "gr_entry_get_ate paddr flags level =
     (if level = MIDGARD_MMU_BOTTOMLEVEL
      then paddr OR gr_get_mmu_flags flags OR ENTRY_ACCESS_BIT OR ENTRY_IS_ATE_L3
      else paddr OR gr_get_mmu_flags flags OR ENTRY_ACCESS_BIT OR ENTRY_IS_ATE_L02)"

definition gr_entry_get_pte :: "u64 \<Rightarrow> u64" where
  "gr_entry_get_pte paddr = paddr OR ENTRY_ACCESS_BIT OR ENTRY_IS_PTE"

definition pte_to_phys_addr :: "u64 \<Rightarrow> u64" where
  "pte_to_phys_addr entry =
     (let entry = (if entry AND ENTRY_NX_BIT \<noteq> 0 then entry AND NOT ENTRY_NX_BIT else entry)
      in entry AND PAGE_MASK)"

definition gr_pte_is_valid :: "u64 \<Rightarrow> nat \<Rightarrow> bool" where
  "gr_pte_is_valid pte level =
     (if level = MIDGARD_MMU_BOTTOMLEVEL then False
      else pte AND ENTRY_TYPE_MASK = ENTRY_IS_PTE)"

section \<open>Walks\<close>

definition PFN_DOWN :: "u64 \<Rightarrow> u64" where
  "PFN_DOWN x = drop_bit PAGE_SHIFT x"

definition pte_index :: "u64 \<Rightarrow> nat \<Rightarrow> nat" where
  "pte_index vpfn l = unat (take_bit 9 (drop_bit ((3 - l) * 9) vpfn))"

function gr_walk :: "pmem \<Rightarrow> u64 \<Rightarrow> nat \<Rightarrow> nat \<Rightarrow> u64 \<Rightarrow> u64 res" where
  "gr_walk pm vpfn l level pgd0 =
     (if l < level
      then bindR (gr_map_page pm pgd0) (\<lambda>pgd_page.
             let target_pgd = pte_to_phys_addr (gr_read64 pm pgd_page (pte_index vpfn l))
             in if target_pgd = 0 then Inl Exit else gr_walk pm vpfn (Suc l) level target_pgd)
      else Inr pgd0)"
  by pat_completeness auto
termination
  by (relation "measure (\<lambda>(pm, vpfn, l, level, p). level - l)") auto

declare gr_walk.simps [simp del]

definition gr_get_pgd_at_level :: "pmem \<Rightarrow> u64 \<Rightarrow> nat \<Rightarrow> u64 \<Rightarrow> u64 res" where
  "gr_get_pgd_at_level pm gaddr level pgd0 = gr_walk pm (PFN_DOWN gaddr) MIDGARD_MMU_TOPLEVEL level pgd0"

definition gr_trans_va_to_pa :: "pmem \<Rightarrow> u64 \<Rightarrow> u64 \<Rightarrow> u64 res" where
  "gr_trans_va_to_pa pm pgd0 vaddr =
     bindR (gr_get_pgd_at_level pm vaddr MIDGARD_MMU_BOTTOMLEVEL pgd0) (\<lambda>target_pgd.
     bindR (gr_map_page pm target_pgd) (\<lambda>pgd_page.
       let pte = gr_read64 pm pgd_page (pte_index (PFN_DOWN vaddr) MIDGARD_MMU_BOTTOMLEVEL)
       in Inr (pte_to_phys_addr pte + take_bit PAGE_SHIFT vaddr)))"

text \<open>
  The walk in the user-space tree stops with a bug when the child is missing. A child the code
  never stored is an indeterminate pointer, which is modelled as an invalid access.
\<close>

function user_walk :: "u64 \<Rightarrow> nat \<Rightarrow> nat \<Rightarrow> user_pgtable \<Rightarrow> user_pgtable res" where
  "user_walk vpfn l level current_pgt =
     (if l < level
      then case pgd current_pgt (pte_index vpfn l) of
             None \<Rightarrow> Inl Bad_Access
           | Some target_pgt \<Rightarrow> user_walk vpfn (Suc l) level target_pgt
      else Inr current_pgt)"
  by pat_completeness auto
termination
  by (relation "measure (\<lambda>(vpfn, l, level, p). level - l)") auto

declare user_walk.simps [simp del]

definition gr_get_user_pgd_at_level :: "replay_context \<Rightarrow> u64 \<Rightarrow> nat \<Rightarrow> user_pgtable res" where
  "gr_get_user_pgd_at_level rctx gaddr level =
     user_walk (PFN_DOWN gaddr) MIDGARD_MMU_TOPLEVEL level (user_pgt rctx)"

section \<open>Lemmas\<close>

lemma pte_index_less: "pte_index vpfn l < 512"
proof -
  have "unat (take_bit 9 w) < 512" for w :: u64
    by (simp only: unsigned_take_bit_eq) (simp add: take_bit_eq_mod)
  then show ?thesis by (simp add: pte_index_def)
qed

lemma gr_walk_done [simp]: "gr_walk pm vpfn level level p = Inr p"
  by (simp add: gr_walk.simps)

lemma user_walk_done [simp]: "user_walk vpfn level level up = Inr up"
  by (simp add: user_walk.simps)

text \<open>A physical page address: aligned, not zero, and clear of the NX position.\<close>

definition valid_pa :: "u64 \<Rightarrow> bool" where
  "valid_pa pa \<longleftrightarrow> page_aligned pa \<and> pa \<noteq> 0 \<and> \<not> bit pa 54"

lemma pte_to_phys_addr_or:
  assumes "page_aligned pa" and "\<not> bit pa 54" and "\<And>n. bit f n \<Longrightarrow> n < 12 \<or> n = 54"
  shows "pte_to_phys_addr (pa OR f) = pa"
proof -
  have nx: "e AND ENTRY_NX_BIT \<noteq> 0 \<longleftrightarrow> bit e 54" for e
  proof
    assume "e AND ENTRY_NX_BIT \<noteq> 0"
    then obtain n where "bit (e AND ENTRY_NX_BIT) n" by (metis bit_word_eqI bit_0_eq bot_apply bot_bool_def)
    then show "bit e 54" by (auto simp add: bit_and_iff entry_bits)
  next
    assume "bit e 54"
    then have "bit (e AND ENTRY_NX_BIT) 54" by (simp add: bit_and_iff entry_bits)
    then show "e AND ENTRY_NX_BIT \<noteq> 0" by auto
  qed
  have "bit (pte_to_phys_addr (pa OR f)) n = bit pa n" if "n < 64" for n
  proof -
    have "n < 12 \<Longrightarrow> \<not> bit pa n" using assms(1) by (rule page_aligned_bit)
    then show ?thesis using that assms(2) assms(3) [of n]
      by (auto simp: pte_to_phys_addr_def Let_def nx bit_simps entry_bits)
  qed
  then show ?thesis by (intro bit_word_eqI) simp
qed

lemma gr_get_mmu_flags_eq: "gr_get_mmu_flags fl = aarch64_mmu_flags fl"
  by (simp add: gr_get_mmu_flags_def aarch64_mmu_flags_def Let_def)

lemma pte_to_phys_addr_ate:
  assumes "valid_pa pa"
  shows "pte_to_phys_addr (gr_entry_get_ate pa fl l) = pa"
proof -
  have "pte_to_phys_addr (pa OR (aarch64_mmu_flags fl OR (ENTRY_ACCESS_BIT OR t))) = pa"
    if "\<And>n. bit t n \<Longrightarrow> n < 2" for t
    by (rule pte_to_phys_addr_or)
      (use assms that bit_aarch64_mmu_flags [of fl] in
        \<open>force simp: valid_pa_def bit_or_iff entry_bits\<close>)+
  from this [of ENTRY_IS_ATE_L3] this [of ENTRY_IS_ATE_L02] show ?thesis
    by (simp add: gr_entry_get_ate_def gr_get_mmu_flags_eq or.assoc entry_bits)
qed

lemma gr_entry_get_ate_eq:
  "page_aligned pa \<Longrightarrow> gr_entry_get_ate pa fl l = aarch64_entry_set_ate pa fl l"
  by (simp add: gr_entry_get_ate_def aarch64_entry_set_ate_def gr_get_mmu_flags_eq
      as_phys_addr_t_def and_mask_page)

lemma gr_entry_get_pte_eq: "page_aligned pa \<Longrightarrow> gr_entry_get_pte pa = aarch64_entry_set_pte pa"
  by (simp add: gr_entry_get_pte_def aarch64_entry_set_pte_def and_mask_page)

lemma gr_pte_is_valid_eq: "gr_pte_is_valid e l = aarch64_pte_is_valid e l"
  by (simp add: gr_pte_is_valid_def aarch64_pte_is_valid_def)

section \<open>Properties\<close>

text \<open>
  C40. The replayer encodes a page table entry exactly as the driver's AArch64 mode does: for a
  page-aligned address, every combination of region flags and every level give the same
  address translation entry, and the table entries agree as well.
\<close>

theorem gr_entry_get_ate_driver:
  assumes "page_aligned pa"
  shows "gr_entry_get_ate pa fl l = entry_set_ate aarch64_mode pa fl l \<and>
    gr_entry_get_pte pa = entry_set_pte aarch64_mode pa"
  using assms by (simp add: gr_entry_get_ate_eq gr_entry_get_pte_eq aarch64_mode_def)

theorem gr_entry_get_ate_driver_witness:
  "gr_entry_get_ate 0x7f3000 0x606e 3 = entry_set_ate aarch64_mode 0x7f3000 0x606e 3"
  using gr_entry_get_ate_driver [of "0x7f3000" "0x606e" 3]
  by (simp add: page_aligned_def)

text \<open>
  The address a walk of the replayer reads out of an entry is the address the entry was
  built from, whatever the flags (the NX bit included): for a page address that is clear at bit 54
  the replayer's decoding of its own entries gives the address back.
\<close>

theorem gr_entry_roundtrip:
  assumes "valid_pa pa"
  shows "pte_to_phys_addr (gr_entry_get_ate pa fl l) = pa"
  using assms by (rule pte_to_phys_addr_ate)

theorem gr_entry_roundtrip_witness:
  "pte_to_phys_addr (gr_entry_get_ate 0x7f3000 0x606e 3) = 0x7f3000"
proof (rule gr_entry_roundtrip)
  have "(0x7f3000 :: u64) < 2 ^ 54" by simp
  then have "\<not> bit (0x7f3000 :: u64) 54"
    by (simp only: bit_iff_odd_drop_bit) simp
  then show "valid_pa 0x7f3000" by (simp add: valid_pa_def page_aligned_def)
qed

end
