(* ===== verification/GR_PageSource.thy ===== *)
theory GR_PageSource
  imports GR_Pte
begin

text \<open>
  What the replayer needs of the source of physical pages, as two interfaces: single pages for
  the page tables and blocks of pages for the memory contents. The kernel module's pool
  provides both (\<open>GR_Mempool\<close>).
\<close>

text \<open>
  \<open>get_page\<close> is \<open>gr_manager_alloc_get_single_page\<close>: it changes the state of the source and,
  because pages are cleared when they are allocated, the memory. \<open>owned\<close> are the pages handed
  out so far, \<open>avail\<close> a number of pages that are certain to be available.
\<close>

locale page_source =
  fixes get_page :: "'s \<Rightarrow> pmem \<Rightarrow> (u64 \<times> 's \<times> pmem) res"
    and src_ok :: "'s \<Rightarrow> (u64 \<Rightarrow> bool) \<Rightarrow> bool"
    and owned :: "'s \<Rightarrow> u64 set"
    and avail :: "'s \<Rightarrow> nat"
  assumes get_page_succeeds:
    "src_ok s (mappable pm) \<Longrightarrow> 0 < avail s \<Longrightarrow> \<exists>p s' pm'. get_page s pm = Inr (p, s', pm')"
    and get_page_fresh:
    "src_ok s (mappable pm) \<Longrightarrow> get_page s pm = Inr (p, s', pm') \<Longrightarrow>
       valid_pa p \<and> p \<notin> owned s \<and> mappable pm p"
    and get_page_owned:
    "src_ok s (mappable pm) \<Longrightarrow> get_page s pm = Inr (p, s', pm') \<Longrightarrow>
       owned s' = insert p (owned s) \<and> src_ok s' (mappable pm) \<and> avail s \<le> Suc (avail s')"
    and get_page_memory:
    "src_ok s (mappable pm) \<Longrightarrow> get_page s pm = Inr (p, s', pm') \<Longrightarrow>
       mappable pm' = mappable pm \<and> (\<forall>q. q \<noteq> p \<longrightarrow> frames pm' q = frames pm q)"

text \<open>
  Two calls give a block of pages: \<open>gr_manager_alloc_pages\<close> makes the pages available and
  \<open>gr_manager_get_pages\<close> hands them out.
\<close>

locale pages_source = page_source get_page src_ok owned avail
  for get_page :: "'s \<Rightarrow> pmem \<Rightarrow> (u64 \<times> 's \<times> pmem) res"
    and src_ok :: "'s \<Rightarrow> (u64 \<Rightarrow> bool) \<Rightarrow> bool"
    and owned :: "'s \<Rightarrow> u64 set"
    and avail :: "'s \<Rightarrow> nat" +
  fixes alloc_pages :: "nat \<Rightarrow> 's \<Rightarrow> pmem \<Rightarrow> ('s \<times> pmem) res"
    and get_pages :: "nat \<Rightarrow> 's \<Rightarrow> (u64 list \<times> 's) res"
  assumes alloc_get_pages:
    "src_ok s (mappable pm) \<Longrightarrow> n \<le> avail s \<Longrightarrow>
     \<exists>s1 pm' ps s'. alloc_pages n s pm = Inr (s1, pm') \<and> get_pages n s1 = Inr (ps, s') \<and>
       length ps = n \<and> distinct ps \<and> set ps \<inter> owned s = {} \<and>
       (\<forall>p \<in> set ps. valid_pa p \<and> mappable pm p) \<and>
       owned s' = set ps \<union> owned s \<and> src_ok s' (mappable pm) \<and> avail s \<le> avail s' + n \<and>
       mappable pm' = mappable pm \<and> (\<forall>q. q \<notin> set ps \<longrightarrow> frames pm' q = frames pm q)"

end
