(* ===== verification/GR_File.thy ===== *)
theory GR_File
  imports GR_Prelude
begin

text \<open>
  Files as the two sides use them: \<open>fread\<close> of one object in the replayer, with the end-of-file
  indicator, and \<open>file_write\<close> in the recorder (\<open>gr/gr_as.c\<close>), which writes at an offset the
  caller keeps.
\<close>

section \<open>Reading\<close>

text \<open>
  An open file: the bytes that are left and the indicator that \<open>feof\<close> tests, which only a read
  that runs into the end sets.
\<close>

record cfile =
  cf_rest :: "u8 list"
  cf_eof :: bool

text \<open>
  \<open>fread\<close> of one object of \<open>n\<close> bytes. At the end of the file nothing is read and the object
  keeps its value; a partly read object is indeterminate, which is an invalid access here. The
  first component is \<open>None\<close> when the object is left alone.
\<close>

definition fread_obj :: "nat \<Rightarrow> cfile \<Rightarrow> (u8 list option \<times> cfile) res" where
  "fread_obj n f =
     (if n \<le> length (cf_rest f) then Inr (Some (take n (cf_rest f)), f\<lparr> cf_rest := drop n (cf_rest f) \<rparr>)
      else if cf_rest f = [] then Inr (None, f\<lparr> cf_eof := True \<rparr>)
      else Inl Bad_Access)"

text \<open>Reading into a variable, which may still be uninitialised.\<close>

definition fread_word :: "nat \<Rightarrow> 'a::len word option \<Rightarrow> cfile \<Rightarrow> ('a word option \<times> cfile) res" where
  "fread_word n old f =
     bindR (fread_obj n f) (\<lambda>(r, f').
       Inr (case r of None \<Rightarrow> old | Some bs \<Rightarrow> Some (le_word bs), f'))"

definition fread_buf :: "nat \<Rightarrow> u8 list option \<Rightarrow> cfile \<Rightarrow> (u8 list option \<times> cfile) res" where
  "fread_buf n old f =
     bindR (fread_obj n f) (\<lambda>(r, f').
       Inr (case r of None \<Rightarrow> old | Some bs \<Rightarrow> Some bs, f'))"

text \<open>Using a variable: an uninitialised one is an invalid access.\<close>

definition var :: "'a option \<Rightarrow> 'a res" where
  "var x = (case x of None \<Rightarrow> Inl Bad_Access | Some v \<Rightarrow> Inr v)"

lemma var_simps [simp]: "var None = Inl Bad_Access" "var (Some v) = Inr v"
  by (simp_all add: var_def)

definition fopen :: "u8 list \<Rightarrow> cfile" where
  "fopen bs = \<lparr> cf_rest = bs, cf_eof = False \<rparr>"

named_theorems fread_simps

lemma fread_obj_append [fread_simps]:
  "length bs = n \<Longrightarrow> fread_obj n \<lparr> cf_rest = bs @ g, cf_eof = e \<rparr> =
     Inr (Some bs, \<lparr> cf_rest = g, cf_eof = e \<rparr>)"
  by (simp add: fread_obj_def)

lemma fread_word_u64 [fread_simps]:
  "fread_word 8 old \<lparr> cf_rest = le_bytes 8 (w :: u64) @ g, cf_eof = e \<rparr> =
     Inr (Some w, \<lparr> cf_rest = g, cf_eof = e \<rparr>)"
  by (simp add: fread_word_def fread_obj_append)

lemma fread_word_u32 [fread_simps]:
  "fread_word 4 old \<lparr> cf_rest = le_bytes 4 (w :: u32) @ g, cf_eof = e \<rparr> =
     Inr (Some w, \<lparr> cf_rest = g, cf_eof = e \<rparr>)"
  by (simp add: fread_word_def fread_obj_append)

lemma fread_word_u8 [fread_simps]:
  "fread_word 1 old \<lparr> cf_rest = w # g, cf_eof = e \<rparr> = Inr (Some (w :: u8), \<lparr> cf_rest = g, cf_eof = e \<rparr>)"
  by (simp add: fread_word_def fread_obj_def)

lemma fread_buf_append [fread_simps]:
  "length bs = n \<Longrightarrow> fread_buf n old \<lparr> cf_rest = bs @ g, cf_eof = e \<rparr> =
     Inr (Some bs, \<lparr> cf_rest = g, cf_eof = e \<rparr>)"
  by (simp add: fread_buf_def fread_obj_append)

lemma fread_end [fread_simps]:
  "0 < n \<Longrightarrow> fread_obj n \<lparr> cf_rest = [], cf_eof = e \<rparr> = Inr (None, \<lparr> cf_rest = [], cf_eof = True \<rparr>)"
  "0 < n \<Longrightarrow> fread_word n old \<lparr> cf_rest = [], cf_eof = e \<rparr> = Inr (old, \<lparr> cf_rest = [], cf_eof = True \<rparr>)"
  "0 < n \<Longrightarrow> fread_buf n b \<lparr> cf_rest = [], cf_eof = e \<rparr> = Inr (b, \<lparr> cf_rest = [], cf_eof = True \<rparr>)"
  by (simp_all add: fread_obj_def fread_word_def fread_buf_def)

text \<open>A read makes progress: it takes bytes or sets the indicator, and never gives bytes back.\<close>

definition file_le :: "cfile \<Rightarrow> cfile \<Rightarrow> bool" where
  "file_le f' f \<longleftrightarrow> length (cf_rest f') \<le> length (cf_rest f) \<and> (cf_eof f \<longrightarrow> cf_eof f')"

definition file_less :: "cfile \<Rightarrow> cfile \<Rightarrow> bool" where
  "file_less f' f \<longleftrightarrow> file_le f' f \<and> (length (cf_rest f') < length (cf_rest f) \<or> cf_eof f')"

lemma file_le_refl [simp]: "file_le f f"
  by (simp add: file_le_def)

lemma file_le_trans: "file_le f2 f1 \<Longrightarrow> file_le f1 f \<Longrightarrow> file_le f2 f"
  by (auto simp: file_le_def)

lemma file_less_trans: "file_le f2 f1 \<Longrightarrow> file_less f1 f \<Longrightarrow> file_less f2 f"
  by (auto simp: file_le_def file_less_def)

lemma file_less_le: "file_less f' f \<Longrightarrow> file_le f' f"
  by (simp add: file_less_def)

lemma fread_obj_less: "fread_obj n f = Inr (r, f') \<Longrightarrow> 0 < n \<Longrightarrow> file_less f' f"
  by (auto simp: fread_obj_def file_less_def file_le_def split: if_splits)

lemma fread_word_less: "fread_word n old f = Inr (r, f') \<Longrightarrow> 0 < n \<Longrightarrow> file_less f' f"
  by (auto simp: fread_word_def dest: fread_obj_less)

lemma fread_buf_less: "fread_buf n old f = Inr (r, f') \<Longrightarrow> 0 < n \<Longrightarrow> file_less f' f"
  by (auto simp: fread_buf_def dest: fread_obj_less)

lemma fread_le:
  "fread_obj n f = Inr (x, f') \<Longrightarrow> file_le f' f"
  "fread_word n old f = Inr (r, f') \<Longrightarrow> file_le f' f"
  "fread_buf n b f = Inr (y, f') \<Longrightarrow> file_le f' f"
  by (auto simp: fread_obj_def fread_word_def fread_buf_def file_le_def bindR_eq_Inr split: if_splits)

section \<open>Writing\<close>

text \<open>
  The contents of a file and the offset of the next write. A file is opened without
  \<open>O_TRUNC\<close>: what an older, longer file had behind the written range stays.
\<close>

record wfile =
  wf_data :: "u8 list"
  wf_offset :: nat

definition file_write :: "wfile \<Rightarrow> u8 list \<Rightarrow> wfile" where
  "file_write f bs =
     (let o' = wf_offset f + length bs
      in f\<lparr> wf_data := take (wf_offset f) (wf_data f) @ replicate (wf_offset f - length (wf_data f)) 0 @
                      bs @ drop o' (wf_data f),
            wf_offset := o' \<rparr>)"

lemma file_write_append:
  "file_write (file_write f bs) cs = file_write f (bs @ cs)"
  by (cases "wf_offset f \<le> length (wf_data f)")
    (simp_all add: file_write_def Let_def min_def ac_simps)

lemma file_write_offset [simp]: "wf_offset (file_write f bs) = wf_offset f + length bs"
  by (simp add: file_write_def Let_def)

text \<open>Writing to a file from the start of it: the new bytes come first.\<close>

lemma file_write_start:
  "wf_offset f = 0 \<Longrightarrow> wf_data (file_write f bs) = bs @ drop (length bs) (wf_data f)"
  by (simp add: file_write_def Let_def)

text \<open>The offset stays within the file.\<close>

definition wf_ok :: "wfile \<Rightarrow> bool" where
  "wf_ok f \<longleftrightarrow> wf_offset f \<le> length (wf_data f)"

lemma file_write_ok [simp]: "wf_ok (file_write f bs)"
  by (simp add: wf_ok_def file_write_def Let_def)

lemma file_write_nil [simp]: "wf_ok f \<Longrightarrow> file_write f [] = f"
  by (simp add: wf_ok_def file_write_def Let_def)

end
