(* ===== verification/KB_MmuDump.thy ===== *)
theory KB_MmuDump
  imports KB_MmuMode GR_Context GR_File
begin

text \<open>
  The dump of the GPU page table in the driver: \<open>kbasep_mmu_dump_level\<close> and
  \<open>kbase_mmu_dump\<close> of \<open>mmu/mali_kbase_mmu.c\<close>, and \<open>gr_mmu_dump\<close> of \<open>gr/gr_as.c\<close>, which
  writes the file the replayer reads. The specification is \<open>dump_words\<close>: the tables in
  pre-order, each as its tagged address followed by its 512 entries.
\<close>

unbundle bit_operations_syntax

section \<open>One table and the tables below it\<close>

text \<open>
  The output buffer: the 64-bit words put into it, and the room that is left in bytes. A page
  is mapped with \<open>kmap\<close>, which fails where the page is not mappable.
\<close>

record dump_buf =
  db_out :: "u64 list"
  db_size_left :: nat

definition db_put_table :: "dump_buf \<Rightarrow> u64 \<Rightarrow> u64 list \<Rightarrow> dump_buf" where
  "db_put_table b m_pgd ws =
     (let size = KBASE_MMU_PAGE_ENTRIES * 8 + 8
      in if db_size_left b \<ge> size
         then \<lparr> db_out = db_out b @ m_pgd # ws, db_size_left = db_size_left b - size \<rparr>
         else b)"

fun dump_entries ::
  "kbase_mmu_mode \<Rightarrow> nat \<Rightarrow> (u64 \<Rightarrow> dump_buf \<Rightarrow> nat \<times> dump_buf) \<Rightarrow> u64 list \<Rightarrow> nat \<Rightarrow>
   dump_buf \<Rightarrow> nat \<times> dump_buf" where
  "dump_entries mode level dump_level [] sz b = (sz, b)"
| "dump_entries mode level dump_level (e # es) sz b =
     (if pte_is_valid mode e level
      then (let (dump_size, b') = dump_level (pte_to_phy_addr mode e) b
            in if dump_size = 0 then (0, b')
               else dump_entries mode level dump_level es (sz + dump_size) b')
      else dump_entries mode level dump_level es sz b)"

text \<open>
  \<open>dump_level_at mode pm d\<close> is the dump of a table \<open>d\<close> levels above the bottom, so that the
  recursion on the level is structural.
\<close>

primrec dump_level_at ::
  "kbase_mmu_mode \<Rightarrow> pmem \<Rightarrow> nat \<Rightarrow> u64 \<Rightarrow> dump_buf \<Rightarrow> nat \<times> dump_buf" where
  "dump_level_at mode pm 0 = (\<lambda>p b.
     if \<not> mappable pm (p AND PAGE_MASK) then (0, b)
     else (KBASE_MMU_PAGE_ENTRIES * 8 + 8,
           db_put_table b (p OR of_nat MIDGARD_MMU_BOTTOMLEVEL)
             (frame_words (frames pm (p AND PAGE_MASK)))))"
| "dump_level_at mode pm (Suc d) = (\<lambda>p b.
     if \<not> mappable pm (p AND PAGE_MASK) then (0, b)
     else (let level = MIDGARD_MMU_BOTTOMLEVEL - Suc d;
               pgd_page = frame_words (frames pm (p AND PAGE_MASK))
           in dump_entries mode level (dump_level_at mode pm d) pgd_page
                (KBASE_MMU_PAGE_ENTRIES * 8 + 8) (db_put_table b (p OR of_nat level) pgd_page)))"

definition kbasep_mmu_dump_level ::
  "kbase_mmu_mode \<Rightarrow> pmem \<Rightarrow> u64 \<Rightarrow> nat \<Rightarrow> dump_buf \<Rightarrow> nat \<times> dump_buf" where
  "kbasep_mmu_dump_level mode pm p level b =
     dump_level_at mode pm (MIDGARD_MMU_BOTTOMLEVEL - level) p b"

definition gr_mmu_dump_level ::
  "kbase_mmu_mode \<Rightarrow> pmem \<Rightarrow> u64 \<Rightarrow> nat \<Rightarrow> dump_buf \<Rightarrow> nat \<times> dump_buf" where
  "gr_mmu_dump_level mode pm p level b = kbasep_mmu_dump_level mode pm p level b"

section \<open>The whole table\<close>

text \<open>
  \<open>kbase_mmu_dump\<close> returns the buffer of \<open>nr_pages\<close> pages, as words, or NULL. \<open>alloc_ok\<close> is
  the outcome of \<open>vmalloc_user\<close>, which clears the memory.
\<close>

definition zero_fill :: "nat \<Rightarrow> u64 list \<Rightarrow> u64 list" where
  "zero_fill n ws = ws @ replicate (n - length ws) 0"

definition kbase_mmu_dump ::
  "kbase_mmu_mode \<Rightarrow> (u64 \<Rightarrow> kbase_mmu_setup) \<Rightarrow> pmem \<Rightarrow> u64 \<Rightarrow> bool \<Rightarrow> nat \<Rightarrow> u64 list option" where
  "kbase_mmu_dump mode get_as_setup pm p alloc_ok nr_pages =
     (if nr_pages = 0 then None
      else if \<not> alloc_ok then None
      else (let as_setup = get_as_setup p;
                config = [transtab as_setup, memattr as_setup, transcfg as_setup];
                (dump_size, b) = kbasep_mmu_dump_level mode pm p MIDGARD_MMU_TOPLEVEL
                   \<lparr> db_out = config, db_size_left = nr_pages * PAGE_SIZE - 3 * 8 \<rparr>
            in if dump_size = 0 then None
               else if 3 * 8 + dump_size + 8 > nr_pages * PAGE_SIZE then None
               else Some (zero_fill (nr_pages * 512) (db_out b @ [0xFF]))))"

text \<open>
  \<open>struct gr_mmu\<close>, the counter of table pages and the setup that was dumped, the flag
  \<open>is_done\<close> of \<open>gr_mmu_dump\<close>, which is static, and the contents of the file it writes. The
  file is opened without \<open>O_TRUNC\<close>, so what an older, longer file had behind the new contents
  stays.
\<close>

record gr_mmu =
  tm_pgd :: u64
  tm_transtab :: u64
  tm_memattr :: u64
  tm_transcfg :: u64
  pgt_nr_pages :: nat
  mmu_is_done :: bool
  pgt_file :: "u8 list"

text \<open>
  The buffer has room for \<open>pgt_nr_pages\<close> tables. \<open>dump_size\<close> counts the tables that were
  visited, also those that did not fit, so the write reads behind the buffer when there are
  more.
\<close>

definition gr_mmu_dump ::
  "kbase_mmu_mode \<Rightarrow> (u64 \<Rightarrow> kbase_mmu_setup) \<Rightarrow> pmem \<Rightarrow> u64 \<Rightarrow> gr_mmu \<Rightarrow> gr_mmu res" where
  "gr_mmu_dump mode get_as_setup pm p tmmu =
     (if mmu_is_done tmmu then Inr tmmu
      else (let as_setup = get_as_setup p;
                size_left = 8 + 8 * 3 + 8 * pgt_nr_pages tmmu + pgt_nr_pages tmmu * PAGE_SIZE + 8;
                tmmu' = tmmu\<lparr> tm_transtab := transtab as_setup, tm_memattr := memattr as_setup,
                              tm_transcfg := transcfg as_setup \<rparr>;
                hdr = [of_nat size_left, transtab as_setup, memattr as_setup, transcfg as_setup];
                (level_size, b) = gr_mmu_dump_level mode pm p MIDGARD_MMU_TOPLEVEL
                   \<lparr> db_out = hdr, db_size_left = size_left - (8 + 8 * 3) \<rparr>;
                dump_size = 8 + 8 * 3 + level_size + 8;
                buffer = words_bytes (zero_fill (size_left div 8) (db_out b @ [0xFFFFFFFFFF]))
            in if dump_size > size_left then Inl Bad_Access
               else Inr (tmmu'\<lparr> pgt_file := wf_data (file_write \<lparr> wf_data = pgt_file tmmu, wf_offset = 0 \<rparr>
                                    (take dump_size buffer)),
                                mmu_is_done := True \<rparr>)))"

section \<open>Specification\<close>

text \<open>The words of the tables in pre-order, and the number of tables.\<close>

primrec dump_words :: "kbase_mmu_mode \<Rightarrow> pmem \<Rightarrow> nat \<Rightarrow> u64 \<Rightarrow> u64 list" where
  "dump_words mode pm 0 p =
     (p OR of_nat MIDGARD_MMU_BOTTOMLEVEL) # frame_words (frames pm (p AND PAGE_MASK))"
| "dump_words mode pm (Suc d) p =
     (let ws = frame_words (frames pm (p AND PAGE_MASK)); level = MIDGARD_MMU_BOTTOMLEVEL - Suc d
      in (p OR of_nat level) # ws @
         concat (map (\<lambda>e. dump_words mode pm d (pte_to_phy_addr mode e))
                  (filter (\<lambda>e. pte_is_valid mode e level) ws)))"

text \<open>Every table the dump visits can be mapped.\<close>

primrec tables_mapped :: "kbase_mmu_mode \<Rightarrow> pmem \<Rightarrow> nat \<Rightarrow> u64 \<Rightarrow> bool" where
  "tables_mapped mode pm 0 p \<longleftrightarrow> mappable pm (p AND PAGE_MASK)"
| "tables_mapped mode pm (Suc d) p \<longleftrightarrow> mappable pm (p AND PAGE_MASK) \<and>
     (\<forall>e \<in> set (frame_words (frames pm (p AND PAGE_MASK))).
        pte_is_valid mode e (MIDGARD_MMU_BOTTOMLEVEL - Suc d) \<longrightarrow>
        tables_mapped mode pm d (pte_to_phy_addr mode e))"

definition nr_tables :: "kbase_mmu_mode \<Rightarrow> pmem \<Rightarrow> nat \<Rightarrow> u64 \<Rightarrow> nat" where
  "nr_tables mode pm d p = length (dump_words mode pm d p) div 513"

lemma dump_words_pos: "0 < length (dump_words mode pm d p)"
  by (cases d) (simp_all add: Let_def)

lemma dvd_length_concat: "(\<And>x. x \<in> set xs \<Longrightarrow> n dvd length x) \<Longrightarrow> n dvd length (concat xs)"
  by (induction xs) auto

lemma dump_words_dvd: "513 dvd length (dump_words mode pm d p)"
proof (induction d arbitrary: p)
  case 0
  show ?case by simp
next
  case (Suc d)
  let ?es = "filter (\<lambda>e. pte_is_valid mode e (3 - Suc d)) (frame_words (frames pm (p AND PAGE_MASK)))"
  have "513 dvd length (concat (map (\<lambda>e. dump_words mode pm d (pte_to_phy_addr mode e)) ?es))"
    by (rule dvd_length_concat) (use Suc.IH in auto)
  then have "513 dvd 513 + length (concat (map (\<lambda>e. dump_words mode pm d (pte_to_phy_addr mode e)) ?es))"
    by (rule dvd_add [OF dvd_refl])
  then show ?case by (simp add: Let_def)
qed

lemma length_dump_words: "length (dump_words mode pm d p) = 513 * nr_tables mode pm d p"
  using dump_words_dvd [of mode pm d p] by (simp add: nr_tables_def)

lemma nr_tables_pos: "0 < nr_tables mode pm d p"
  using dump_words_pos [of mode pm d p] by (simp add: length_dump_words)

text \<open>
  The loop over the entries appends the dumps of the valid ones, when the recursive dump
  appends its own and there is room for all.
\<close>

definition db_append :: "dump_buf \<Rightarrow> u64 list \<Rightarrow> dump_buf" where
  "db_append b ws = \<lparr> db_out = db_out b @ ws, db_size_left = db_size_left b - 8 * length ws \<rparr>"

lemma db_append_simps [simp]:
  "db_out (db_append b ws) = db_out b @ ws"
  "db_size_left (db_append b ws) = db_size_left b - 8 * length ws"
  "db_append (db_append b ws) vs = db_append b (ws @ vs)"
  by (simp_all add: db_append_def)

lemma db_append_nil [simp]: "db_append b [] = b"
  by (simp add: db_append_def)

lemma db_put_table_append:
  "length ws = 512 \<Longrightarrow> 4104 \<le> db_size_left b \<Longrightarrow> db_put_table b m ws = db_append b (m # ws)"
  by (simp add: db_put_table_def db_append_def)

lemma dump_entries_append:
  assumes "\<And>e b. e \<in> set es \<Longrightarrow> pte_is_valid mode e level \<Longrightarrow> 8 * length (dw e) \<le> db_size_left b \<Longrightarrow>
      rec (pte_to_phy_addr mode e) b = (8 * length (dw e), db_append b (dw e))"
    and "\<And>e. 0 < length (dw e)"
    and "8 * length (concat (map dw (filter (\<lambda>e. pte_is_valid mode e level) es))) \<le> db_size_left b"
  shows "dump_entries mode level rec es sz b =
    (sz + 8 * length (concat (map dw (filter (\<lambda>e. pte_is_valid mode e level) es))),
     db_append b (concat (map dw (filter (\<lambda>e. pte_is_valid mode e level) es))))"
  using assms
proof (induction es arbitrary: sz b)
  case Nil
  then show ?case by simp
next
  case (Cons e es)
  have IH: "dump_entries mode level rec es size' b' =
    (size' + 8 * length (concat (map dw (filter (\<lambda>e. pte_is_valid mode e level) es))),
     db_append b' (concat (map dw (filter (\<lambda>e. pte_is_valid mode e level) es))))"
    if "8 * length (concat (map dw (filter (\<lambda>e. pte_is_valid mode e level) es))) \<le> db_size_left b'"
    for size' b' using Cons.IH [OF Cons.prems(1) Cons.prems(2) that] by simp
  show ?case
  proof (cases "pte_is_valid mode e level")
    case False
    then show ?thesis using IH Cons.prems(3) by simp
  next
    case True
    then have r: "rec (pte_to_phy_addr mode e) b = (8 * length (dw e), db_append b (dw e))"
      using Cons.prems(1) [of e b] Cons.prems(3) by simp
    show ?thesis using True IH [of "db_append b (dw e)"] Cons.prems(2) [of e] Cons.prems(3)
      by (simp add: r algebra_simps)
  qed
qed

lemma dump_level_at_words:
  assumes "tables_mapped mode pm d p" and "8 * length (dump_words mode pm d p) \<le> db_size_left b"
  shows "dump_level_at mode pm d p b =
    (8 * length (dump_words mode pm d p), db_append b (dump_words mode pm d p))"
  using assms
proof (induction d arbitrary: p b)
  case 0
  then show ?case by (simp add: db_put_table_append)
next
  case (Suc d)
  let ?ws = "frame_words (frames pm (p AND PAGE_MASK))" and ?l = "3 - Suc d"
  let ?es = "filter (\<lambda>e. pte_is_valid mode e ?l) ?ws"
  let ?dw = "\<lambda>e. dump_words mode pm d (pte_to_phy_addr mode e)"
  have room: "8 * length (concat (map ?dw ?es)) \<le>
      db_size_left (db_append b ((p OR of_nat ?l) # ?ws))"
    using Suc.prems(2) by (simp add: Let_def)
  have "dump_entries mode ?l (dump_level_at mode pm d) ?ws 4104
      (db_append b ((p OR of_nat ?l) # ?ws)) =
    (4104 + 8 * length (concat (map ?dw ?es)),
     db_append (db_append b ((p OR of_nat ?l) # ?ws)) (concat (map ?dw ?es)))"
    by (rule dump_entries_append [OF _ _ room])
      (use Suc.IH Suc.prems(1) dump_words_pos in auto)
  moreover have "4104 \<le> db_size_left b" using Suc.prems(2) by (simp add: Let_def)
  ultimately show ?case using Suc.prems(1)
    by (simp add: Let_def db_put_table_append del: of_nat_Suc)
qed

text \<open>The size that is returned does not depend on the room in the buffer.\<close>

lemma dump_entries_size:
  assumes "\<And>e b. e \<in> set es \<Longrightarrow> pte_is_valid mode e level \<Longrightarrow>
      fst (rec (pte_to_phy_addr mode e) b) = 8 * length (dw e)"
    and "\<And>e. 0 < length (dw e)"
  shows "fst (dump_entries mode level rec es sz b) =
    sz + 8 * length (concat (map dw (filter (\<lambda>e. pte_is_valid mode e level) es)))"
  using assms
proof (induction es arbitrary: sz b)
  case Nil
  then show ?case by simp
next
  case (Cons e es)
  obtain n b' where r: "rec (pte_to_phy_addr mode e) b = (n, b')" by fastforce
  moreover have "pte_is_valid mode e level \<Longrightarrow> n = 8 * length (dw e) \<and> n \<noteq> 0"
    using Cons.prems(1) [of e b] Cons.prems(2) [of e] r by simp
  moreover have "fst (dump_entries mode level rec es sz' b'') =
    sz' + 8 * length (concat (map dw (filter (\<lambda>e. pte_is_valid mode e level) es)))" for sz' b''
    using Cons.IH [OF Cons.prems(1) Cons.prems(2)] by simp
  ultimately show ?case by (cases "pte_is_valid mode e level") auto
qed

lemma dump_level_at_size:
  "tables_mapped mode pm d p \<Longrightarrow>
   fst (dump_level_at mode pm d p b) = 8 * length (dump_words mode pm d p)"
proof (induction d arbitrary: p b)
  case 0
  then show ?case by simp
next
  case (Suc d)
  let ?ws = "frame_words (frames pm (p AND PAGE_MASK))" and ?l = "3 - Suc d"
  let ?dw = "\<lambda>e. dump_words mode pm d (pte_to_phy_addr mode e)"
  have "fst (dump_entries mode ?l (dump_level_at mode pm d) ?ws 4104 b') =
      4104 + 8 * length (concat (map ?dw (filter (\<lambda>e. pte_is_valid mode e ?l) ?ws)))" for b'
    by (rule dump_entries_size) (use Suc dump_words_pos in auto)
  then show ?case using Suc.prems by (simp add: Let_def del: of_nat_Suc)
qed

section \<open>A small page table\<close>

text \<open>
  One table on each level, at \<open>0x1000\<close> to \<open>0x4000\<close>; the first entry of each is used, and
  the bottom one maps the first page of the address space to \<open>0x9000\<close>.
\<close>

definition demo_entry :: "u64 \<Rightarrow> u64" where
  "demo_entry p = (if p = 0x1000 then 0x2403 else if p = 0x2000 then 0x3403
     else if p = 0x3000 then 0x4403 else if p = 0x4000 then 0x9443 else 0)"

definition demo_tables :: pmem where
  "demo_tables = \<lparr>frames = (\<lambda>p. frame_put64 (\<lambda>i. 0) 0 (demo_entry p)), mappable = (\<lambda>p. True)\<rparr>"

lemma frame_get64_zero [simp]: "frame_get64 (\<lambda>i. 0) j = 0"
proof -
  have "frame_get (\<lambda>i. 0) (8 * j) 8 = le_bytes 8 (0 :: u64)"
    by (rule nth_equalityI) (auto simp: le_bytes_def)
  then show ?thesis by (simp add: frame_get64_def)
qed

lemma frame_words_single: "frame_words (frame_put64 (\<lambda>i. 0) 0 v) = v # replicate 511 0"
  by (rule nth_equalityI) (auto simp: frame_simps nth_Cons')

lemma demo_pte_types:
  "demo_entry p AND PAGE_MASK = (if p = 0x1000 then 0x2000 else if p = 0x2000 then 0x3000
     else if p = 0x3000 then 0x4000 else if p = 0x4000 then 0x9000 else 0)"
  by (simp add: demo_entry_def mask_eq_exp_minus_1)

lemma tables_mapped_all: "(\<And>q. mappable pm q) \<Longrightarrow> tables_mapped mode pm d p"
  by (induction d arbitrary: p) auto

lemma demo_pte_valid:
  "l \<noteq> 3 \<Longrightarrow> aarch64_pte_is_valid (demo_entry p) l \<longleftrightarrow>
     p = 0x1000 \<or> p = 0x2000 \<or> p = 0x3000 \<or> p = 0x4000"
  "\<not> aarch64_pte_is_valid 0 l"
  by (simp_all add: aarch64_pte_is_valid_def demo_entry_def ENTRY_TYPE_MASK_def ENTRY_IS_PTE_def)

lemma demo_dump_words_Suc:
  assumes "p = 0x1000 \<or> p = 0x2000 \<or> p = 0x3000"
  shows "dump_words aarch64_mode demo_tables (Suc d) p =
    (p OR of_nat (3 - Suc d)) # (demo_entry p # replicate 511 0) @
      dump_words aarch64_mode demo_tables d (demo_entry p AND PAGE_MASK)"
proof -
  have "p AND PAGE_MASK = p" using assms by (auto simp: mask_eq_exp_minus_1)
  moreover have "drv_pte_to_phy_addr (demo_entry p) = demo_entry p AND PAGE_MASK"
    using assms by (auto simp: drv_pte_to_phy_addr_def demo_entry_def)
  ultimately show ?thesis using assms
    by (auto simp: demo_tables_def frame_words_single demo_pte_valid Let_def aarch64_mode_def
        simp del: of_nat_diff of_nat_Suc)
qed

lemma demo_nr_tables: "length (dump_words aarch64_mode demo_tables 3 0x1000) = 2052"
proof -
  have "length (dump_words aarch64_mode demo_tables (Suc (Suc (Suc 0))) 0x1000) = 2052"
    by (subst demo_dump_words_Suc, simp, subst demo_dump_words_Suc, simp add: demo_pte_types,
        subst demo_dump_words_Suc, simp_all add: demo_pte_types)
  then show ?thesis by (simp add: numeral_3_eq_3)
qed

section \<open>Properties\<close>

definition pgt_words :: "kbase_mmu_mode \<Rightarrow> pmem \<Rightarrow> u64 \<Rightarrow> u64 list" where
  "pgt_words mode pm p = dump_words mode pm (MIDGARD_MMU_BOTTOMLEVEL - MIDGARD_MMU_TOPLEVEL) p"

definition pgt_tables :: "kbase_mmu_mode \<Rightarrow> pmem \<Rightarrow> u64 \<Rightarrow> nat" where
  "pgt_tables mode pm p = nr_tables mode pm (MIDGARD_MMU_BOTTOMLEVEL - MIDGARD_MMU_TOPLEVEL) p"

definition pgt_mapped :: "kbase_mmu_mode \<Rightarrow> pmem \<Rightarrow> u64 \<Rightarrow> bool" where
  "pgt_mapped mode pm p = tables_mapped mode pm (MIDGARD_MMU_BOTTOMLEVEL - MIDGARD_MMU_TOPLEVEL) p"

lemma length_pgt_words: "length (pgt_words mode pm p) = 513 * pgt_tables mode pm p"
  by (simp only: pgt_words_def pgt_tables_def length_dump_words)

lemma kbasep_mmu_dump_level_words:
  assumes "pgt_mapped mode pm p" and "8 * length (pgt_words mode pm p) \<le> db_size_left b"
  shows "kbasep_mmu_dump_level mode pm p MIDGARD_MMU_TOPLEVEL b =
    (8 * length (pgt_words mode pm p), db_append b (pgt_words mode pm p))"
  using dump_level_at_words [of mode pm 3 p b] assms
  by (simp only: kbasep_mmu_dump_level_def pgt_words_def pgt_mapped_def diff_zero)

lemma kbasep_mmu_dump_level_size:
  assumes "pgt_mapped mode pm p"
  shows "fst (kbasep_mmu_dump_level mode pm p MIDGARD_MMU_TOPLEVEL b) = 8 * length (pgt_words mode pm p)"
  using dump_level_at_size [of mode pm 3 p b] assms
  by (simp only: kbasep_mmu_dump_level_def pgt_words_def pgt_mapped_def diff_zero)

lemma pgt_words_pos: "0 < length (pgt_words mode pm p)"
  unfolding pgt_words_def by (rule dump_words_pos)

text \<open>
  The debug dump of the driver succeeds exactly when the configuration, all the tables of
  the address space and the end marker fit into the requested number of pages, and then it
  holds them in this order, followed by zeros.
\<close>

theorem kbase_mmu_dump_fits:
  assumes "pgt_mapped mode pm p" and "0 < nr_pages"
  shows "kbase_mmu_dump mode get_setup pm p True nr_pages =
    (if 24 + 8 * length (pgt_words mode pm p) + 8 \<le> nr_pages * PAGE_SIZE
     then Some (zero_fill (nr_pages * 512)
        ([transtab (get_setup p), memattr (get_setup p), transcfg (get_setup p)] @ pgt_words mode pm p @ [0xFF]))
     else None)"
proof -
  let ?b = "\<lparr>db_out = [transtab (get_setup p), memattr (get_setup p), transcfg (get_setup p)],
      db_size_left = nr_pages * PAGE_SIZE - 3 * 8\<rparr>"
  obtain n b where d: "kbasep_mmu_dump_level mode pm p MIDGARD_MMU_TOPLEVEL ?b = (n, b)" by fastforce
  have n: "n = 8 * length (pgt_words mode pm p)"
    using kbasep_mmu_dump_level_size [OF assms(1), of ?b] d by simp
  have "b = db_append ?b (pgt_words mode pm p)"
    if "24 + 8 * length (pgt_words mode pm p) + 8 \<le> nr_pages * PAGE_SIZE"
    using kbasep_mmu_dump_level_words [OF assms(1), of ?b] d that by simp
  then show ?thesis using assms(2) pgt_words_pos [of mode pm p] d n
    by (simp add: kbase_mmu_dump_def Let_def)
qed

theorem kbase_mmu_dump_fits_witness:
  "kbase_mmu_dump aarch64_mode kbase_mmu_get_as_setup demo_tables 0x1000 True 5 \<noteq> None \<and>
   kbase_mmu_dump aarch64_mode kbase_mmu_get_as_setup demo_tables 0x1000 True 4 = None"
proof -
  have "pgt_mapped aarch64_mode demo_tables 0x1000"
    unfolding pgt_mapped_def by (rule tables_mapped_all) (simp add: demo_tables_def)
  from kbase_mmu_dump_fits [OF this, of _ kbase_mmu_get_as_setup] show ?thesis
    by (simp add: pgt_words_def demo_nr_tables)
qed

text \<open>
  The recorder's dump: when the counter of table pages covers the tables, the file holds the
  size, the setup, the tables in pre-order and the end marker.
\<close>

definition pgt_file_words ::
  "kbase_mmu_mode \<Rightarrow> (u64 \<Rightarrow> kbase_mmu_setup) \<Rightarrow> pmem \<Rightarrow> u64 \<Rightarrow> nat \<Rightarrow> u64 list" where
  "pgt_file_words mode get_setup pm p n =
     [of_nat (40 + 4104 * n), transtab (get_setup p), memattr (get_setup p), transcfg (get_setup p)] @
     pgt_words mode pm p @ [0xFFFFFFFFFF]"

lemma take_words_bytes: "take (8 * n) (words_bytes ws) = words_bytes (take n ws)"
proof (induction ws arbitrary: n)
  case Nil
  then show ?case by simp
next
  case (Cons w ws)
  then show ?case by (cases n) auto
qed

lemma gr_mmu_dump_file:
  assumes "pgt_mapped mode pm p" and "pgt_tables mode pm p \<le> pgt_nr_pages t" and "\<not> mmu_is_done t"
  shows "\<exists>t'. gr_mmu_dump mode get_setup pm p t = Inr t' \<and> mmu_is_done t' \<and>
    tm_transtab t' = transtab (get_setup p) \<and>
    (\<exists>tail. pgt_file t' = words_bytes (pgt_file_words mode get_setup pm p (pgt_nr_pages t)) @ tail)"
proof -
  define n where "n = pgt_nr_pages t"
  let ?hdr = "[of_nat (40 + 4104 * n), transtab (get_setup p), memattr (get_setup p), transcfg (get_setup p)]"
  let ?b = "\<lparr>db_out = ?hdr, db_size_left = 8 + 4104 * n\<rparr>"
  have len: "length (pgt_words mode pm p) \<le> 513 * n"
    using assms(2) by (simp add: length_pgt_words n_def)
  have "kbasep_mmu_dump_level mode pm p MIDGARD_MMU_TOPLEVEL ?b =
    (8 * length (pgt_words mode pm p), db_append ?b (pgt_words mode pm p))"
    by (rule kbasep_mmu_dump_level_words [OF assms(1)]) (use len in simp)
  moreover have sz: "8 + 8 * 3 + 8 * n + n * PAGE_SIZE + 8 = 40 + 4104 * n" by simp
  moreover have "take (40 + 8 * length (pgt_words mode pm p))
       (words_bytes (zero_fill (5 + 513 * n) (?hdr @ pgt_words mode pm p @ [0xFFFFFFFFFF]))) =
     words_bytes (pgt_file_words mode get_setup pm p n)"
    using take_words_bytes [of "5 + length (pgt_words mode pm p)"]
    by (simp add: zero_fill_def pgt_file_words_def algebra_simps)
  moreover have "(40 + 4104 * n) div 8 = 5 + 513 * n" by simp
  ultimately show ?thesis using assms(3) len
    by (simp add: gr_mmu_dump_def gr_mmu_dump_level_def Let_def file_write_def flip: n_def)
qed

text \<open>
  When the page table has more tables than the recorder counted, \<open>gr_mmu_dump\<close> writes more
  bytes than its buffer has: the tables that did not fit are still counted in the size of the
  write.
\<close>

theorem gr_mmu_dump_overread:
  assumes "pgt_mapped mode pm p" and "pgt_nr_pages t < pgt_tables mode pm p" and "\<not> mmu_is_done t"
  shows "gr_mmu_dump mode get_setup pm p t = Inl Bad_Access"
proof -
  define n where "n = pgt_nr_pages t"
  have len: "513 * n < length (pgt_words mode pm p)"
    using assms(2) by (simp add: length_pgt_words n_def)
  have "fst (kbasep_mmu_dump_level mode pm p MIDGARD_MMU_TOPLEVEL b) = 8 * length (pgt_words mode pm p)" for b
    by (rule kbasep_mmu_dump_level_size [OF assms(1)])
  then show ?thesis using assms(3) len
    by (simp add: gr_mmu_dump_def gr_mmu_dump_level_def Let_def split_beta flip: n_def)
qed

theorem gr_mmu_dump_overread_witness:
  "gr_mmu_dump aarch64_mode kbase_mmu_get_as_setup demo_tables 0x1000
     \<lparr>tm_pgd = 0x1000, tm_transtab = 0, tm_memattr = 0, tm_transcfg = 0, pgt_nr_pages = 3,
      mmu_is_done = False, pgt_file = []\<rparr> = Inl Bad_Access"
proof (rule gr_mmu_dump_overread)
  show "pgt_mapped aarch64_mode demo_tables 0x1000"
    unfolding pgt_mapped_def by (rule tables_mapped_all) (simp add: demo_tables_def)
qed (simp_all add: pgt_tables_def nr_tables_def demo_nr_tables)

end
