(* ===== verification/GR_PgTable.thy ===== *)
theory GR_PgTable
  imports GR_PageSource KB_MmuDump
begin

text \<open>
  Reconstruction of the page table in the replayer (\<open>gr_pgt_init\<close> and \<open>gr_construct_pgt\<close> of
  \<open>replayer/gr_mem.c\<close>) from the file the recorder wrote. Pages come from the kernel module
  through an ioctl, behind the interface \<open>page_source\<close>. The new table is related to the recorded one by \<open>rebuilt\<close>.
\<close>

unbundle bit_operations_syntax

section \<open>Construction\<close>

text \<open>
  \<open>rec\<close> is the construction of the table one level below, which starts at the given offset
  of the dumped words and returns the new page, its node in user space, the offset of the last
  table it read and the new state.
\<close>

type_synonym 's build = "u32 \<Rightarrow> 's \<Rightarrow> pmem \<Rightarrow> (u64 \<times> user_pgtable \<times> u32 \<times> 's \<times> pmem) res"

fun construct_entries ::
  "'s build \<Rightarrow> nat \<Rightarrow> u64 list \<Rightarrow> nat \<Rightarrow> u32 \<Rightarrow> u64 list \<Rightarrow> (nat \<Rightarrow> user_pgtable option) \<Rightarrow>
   's \<Rightarrow> pmem \<Rightarrow> (u32 \<times> u64 list \<times> (nat \<Rightarrow> user_pgtable option) \<times> 's \<times> pmem) res" where
  "construct_entries rec level [] i offset pte_buffer kids s pm =
     Inr (offset, pte_buffer, kids, s, pm)"
| "construct_entries rec level (old_pte # old_ptes) i offset pte_buffer kids s pm =
     (if gr_pte_is_valid old_pte level
      then bindR (rec (offset + (of_nat KBASE_MMU_PAGE_ENTRIES + 1)) s pm)
             (\<lambda>(next_pgd, user_next_pgd, offset', s', pm').
                construct_entries rec level old_ptes (Suc i) offset'
                  (pte_buffer[i := (old_pte AND mask 12) OR next_pgd])
                  (kids(i \<mapsto> user_next_pgd)) s' pm')
      else construct_entries rec level old_ptes (Suc i) offset pte_buffer kids s pm)"

definition construct_table ::
  "('s \<Rightarrow> pmem \<Rightarrow> (u64 \<times> 's \<times> pmem) res) \<Rightarrow> u64 list \<Rightarrow> nat \<Rightarrow> 's build \<Rightarrow> 's build" where
  "construct_table get_page pgt_value level rec offset s pm =
     bindR (get_page s pm) (\<lambda>(new_pgd, s1, pm1).
     bindR (gr_map_page pm1 new_pgd) (\<lambda>mapped_page.
     let base = unat (offset + 1)
     in if length pgt_value < base + KBASE_MMU_PAGE_ENTRIES then Inl Bad_Access
        else (let old_pte_value = take KBASE_MMU_PAGE_ENTRIES (drop base pgt_value)
              in bindR (if level < MIDGARD_MMU_BOTTOMLEVEL
                        then construct_entries rec level old_pte_value 0 offset old_pte_value
                               (\<lambda>i. None) s1 pm1
                        else Inr (offset, old_pte_value, (\<lambda>i. None), s1, pm1))
                   (\<lambda>(offset', pte_buffer, kids, s2, pm2).
                    bindR (gr_write_phys pm2 new_pgd (words_bytes pte_buffer)) (\<lambda>pm3.
                      Inr (new_pgd, User_Pgtable new_pgd kids, offset', s2, pm3))))))"

text \<open>\<open>construct_at get_page pgt_value d\<close> builds a table \<open>d\<close> levels above the bottom.\<close>

primrec construct_at ::
  "('s \<Rightarrow> pmem \<Rightarrow> (u64 \<times> 's \<times> pmem) res) \<Rightarrow> u64 list \<Rightarrow> nat \<Rightarrow> 's build" where
  "construct_at get_page pgt_value 0 =
     construct_table get_page pgt_value MIDGARD_MMU_BOTTOMLEVEL (\<lambda>offset s pm. Inl Bad_Access)"
| "construct_at get_page pgt_value (Suc d) =
     construct_table get_page pgt_value (MIDGARD_MMU_BOTTOMLEVEL - Suc d)
       (construct_at get_page pgt_value d)"

definition gr_construct_pgt ::
  "('s \<Rightarrow> pmem \<Rightarrow> (u64 \<times> 's \<times> pmem) res) \<Rightarrow> u64 list \<Rightarrow> nat \<Rightarrow> 's build" where
  "gr_construct_pgt get_page pgt_value level =
     construct_at get_page pgt_value (MIDGARD_MMU_BOTTOMLEVEL - level)"

section \<open>Reading the file\<close>

text \<open>
  The loop that reads the table words. A word that \<open>fread\<close> could not fill is indeterminate
  and is looked at, an index from \<open>remained\<close> on is behind the array; both are invalid
  accesses. The initialised part of the array includes the end marker.
\<close>

function read_pgt_words :: "nat \<Rightarrow> u64 list \<Rightarrow> u8 list \<Rightarrow> u64 list res" where
  "read_pgt_words remained pgt_value f =
     (if length pgt_value \<ge> remained \<or> length f < 8 then Inl Bad_Access
      else (let w = le_word (take 8 f)
            in if w = 0xFFFFFFFFFF then Inr (pgt_value @ [w])
               else read_pgt_words remained (pgt_value @ [w]) (drop 8 f)))"
  by pat_completeness auto
termination
  by (relation "measure (\<lambda>(remained, pgt_value, f). length f)") auto

declare read_pgt_words.simps [simp del]

definition gr_pgt_init ::
  "('s \<Rightarrow> pmem \<Rightarrow> (u64 \<times> 's \<times> pmem) res) \<Rightarrow> replay_context \<Rightarrow> u8 list option \<Rightarrow> 's \<Rightarrow> pmem \<Rightarrow>
   (replay_context \<times> u64 \<times> u64 \<times> 's \<times> pmem) res" where
  "gr_pgt_init get_page rctx path s pm =
     (case path of
        None \<Rightarrow> Inl Bad_Access
      | Some f \<Rightarrow>
          if length f < 32 then Inl Bad_Access
          else (let sz = le_word (take 8 f) :: u64;
                    transtab = le_word (take 8 (drop 8 f)) :: u64;
                    remained = ucast ((sz - 8 - 8 * 3) div 8) :: u32
                in bindR (read_pgt_words (unat remained) [] (drop 32 f)) (\<lambda>pgt_value.
                   bindR (gr_construct_pgt get_page pgt_value MIDGARD_MMU_TOPLEVEL 0 s pm)
                     (\<lambda>(new_pgd, up, offset, s', pm').
                        Inr (rctx\<lparr>user_pgt := up\<rparr>, transtab, new_pgd, s', pm')))))"

section \<open>Specification\<close>

text \<open>The pages of the tables in a user-space tree.\<close>

primrec upages :: "nat \<Rightarrow> user_pgtable \<Rightarrow> u64 set" where
  "upages 0 up = {phys_page up}"
| "upages (Suc d) up =
     insert (phys_page up) (\<Union>i \<in> {..<512}. case pgd up i of None \<Rightarrow> {} | Some u \<Rightarrow> upages d u)"

text \<open>No page is used for two tables.\<close>

primrec upt_distinct :: "nat \<Rightarrow> user_pgtable \<Rightarrow> bool" where
  "upt_distinct 0 up \<longleftrightarrow> True"
| "upt_distinct (Suc d) up \<longleftrightarrow>
     (\<forall>i < 512. \<forall>u. pgd up i = Some u \<longrightarrow>
        upt_distinct d u \<and> phys_page up \<notin> upages d u \<and>
        (\<forall>j < 512. \<forall>v. j \<noteq> i \<longrightarrow> pgd up j = Some v \<longrightarrow> upages d u \<inter> upages d v = {}))"

text \<open>
  \<open>rebuilt mode pmk d p pm up\<close>: the table at \<open>phys_page up\<close> in \<open>pm\<close> is the copy of the table
  at \<open>p\<close> in the recorded memory \<open>pmk\<close>, with every table entry pointing to the copy of the
  table it pointed to and keeping its flags, and all other entries unchanged.
\<close>

primrec rebuilt :: "kbase_mmu_mode \<Rightarrow> pmem \<Rightarrow> nat \<Rightarrow> u64 \<Rightarrow> pmem \<Rightarrow> user_pgtable \<Rightarrow> bool" where
  "rebuilt mode pmk 0 p pm up \<longleftrightarrow>
     frame_words (frames pm (phys_page up)) = frame_words (frames pmk (p AND PAGE_MASK))"
| "rebuilt mode pmk (Suc d) p pm up \<longleftrightarrow>
     (\<forall>i < 512.
        let old = frame_get64 (frames pmk (p AND PAGE_MASK)) i;
            new = frame_get64 (frames pm (phys_page up)) i
        in if pte_is_valid mode old (MIDGARD_MMU_BOTTOMLEVEL - Suc d)
           then \<exists>u. pgd up i = Some u \<and> new = (old AND mask 12) OR phys_page u \<and>
                    rebuilt mode pmk d (pte_to_phy_addr mode old) pm u
           else pgd up i = None \<and> new = old)"

lemma rebuilt_cong:
  "(\<And>q. q \<in> upages d up \<Longrightarrow> frames pm' q = frames pm q) \<Longrightarrow>
   rebuilt mode pmk d p pm up \<Longrightarrow> rebuilt mode pmk d p pm' up"
proof (induction d arbitrary: p up)
  case 0
  then show ?case by simp
next
  case (Suc d)
  have sub: "frames pm' q = frames pm q" if "i < 512" "pgd up i = Some u" "q \<in> upages d u" for i u q
    using that by (intro Suc.prems(1)) (auto intro!: bexI [of _ i])
  have top: "frames pm' (phys_page up) = frames pm (phys_page up)"
    by (rule Suc.prems(1)) simp
  show ?case
    unfolding rebuilt.simps Let_def
  proof (intro allI impI)
    fix i :: nat
    assume i: "i < 512"
    note r = Suc.prems(2) [unfolded rebuilt.simps Let_def, rule_format, OF i]
    show "if pte_is_valid mode (frame_get64 (frames pmk (p AND PAGE_MASK)) i) (3 - Suc d)
          then \<exists>u. pgd up i = Some u \<and> frame_get64 (frames pm' (phys_page up)) i =
                 (frame_get64 (frames pmk (p AND PAGE_MASK)) i AND mask 12) OR phys_page u \<and>
               rebuilt mode pmk d (pte_to_phy_addr mode (frame_get64 (frames pmk (p AND PAGE_MASK)) i)) pm' u
          else pgd up i = None \<and> frame_get64 (frames pm' (phys_page up)) i =
                 frame_get64 (frames pmk (p AND PAGE_MASK)) i"
      using r Suc.IH sub [OF i] by (auto simp: top split: if_splits)
  qed
qed

section \<open>Entries of a table\<close>

text \<open>
  The entries \<open>es\<close>, at the positions from \<open>i\<close> on, are done: the valid ones have a child
  whose pages lie in \<open>A\<close>, the others are as they were.
\<close>

definition entry_done ::
  "kbase_mmu_mode \<Rightarrow> pmem \<Rightarrow> nat \<Rightarrow> nat \<Rightarrow> u64 \<Rightarrow> user_pgtable option \<Rightarrow> u64 \<Rightarrow> pmem \<Rightarrow>
   u64 set \<Rightarrow> bool" where
  "entry_done mode pmk level d e kid v pm A \<longleftrightarrow>
     (if pte_is_valid mode e level
      then case kid of
             None \<Rightarrow> False
           | Some u \<Rightarrow> v = (e AND mask 12) OR phys_page u \<and>
               rebuilt mode pmk d (pte_to_phy_addr mode e) pm u \<and> upt_distinct d u \<and>
               upages d u \<subseteq> A
      else kid = None \<and> v = e)"

definition entries_done ::
  "kbase_mmu_mode \<Rightarrow> pmem \<Rightarrow> nat \<Rightarrow> nat \<Rightarrow> u64 list \<Rightarrow> nat \<Rightarrow> u64 list \<Rightarrow>
   (nat \<Rightarrow> user_pgtable option) \<Rightarrow> pmem \<Rightarrow> u64 set \<Rightarrow> bool" where
  "entries_done mode pmk level d es i buf kids pm A \<longleftrightarrow>
     (\<forall>j < length es. entry_done mode pmk level d (es ! j) (kids (i + j)) (buf ! (i + j)) pm A) \<and>
     (\<forall>j < length es. \<forall>k < length es. \<forall>u v. j \<noteq> k \<longrightarrow>
        kids (i + j) = Some u \<longrightarrow> kids (i + k) = Some v \<longrightarrow> upages d u \<inter> upages d v = {})"

lemma entries_done_Nil [simp]: "entries_done mode pmk level d [] i buf kids pm A"
  by (simp add: entries_done_def)

lemma entry_done_pages: "entry_done mode pmk level d e (Some u) v pm A \<Longrightarrow> upages d u \<subseteq> A"
  by (simp add: entry_done_def split: if_splits)

lemma entry_done_mono:
  assumes "entry_done mode pmk level d e kid v pm A" and "A \<subseteq> B"
    and "\<And>q. q \<in> A \<Longrightarrow> frames pm' q = frames pm q"
  shows "entry_done mode pmk level d e kid v pm' B"
proof -
  have "rebuilt mode pmk d p pm' u" if "rebuilt mode pmk d p pm u" "upages d u \<subseteq> A" for p u
    by (rule rebuilt_cong [OF _ that(1)]) (use assms(3) that(2) in auto)
  then show ?thesis using assms(1,2) by (auto simp: entry_done_def split: if_splits option.splits)
qed

lemma entries_done_mono:
  assumes "entries_done mode pmk level d es i buf kids pm A" and "A \<subseteq> B"
    and "\<And>q. q \<in> A \<Longrightarrow> frames pm' q = frames pm q"
  shows "entries_done mode pmk level d es i buf kids pm' B"
  using assms entry_done_mono [OF _ assms(2,3)] by (simp add: entries_done_def)

text \<open>One more entry in front: its pages are apart from those of the others.\<close>

lemma entries_done_Cons:
  assumes fin: "entries_done mode pmk level d es (Suc i) buf kids pm B"
    and e: "entry_done mode pmk level d e (kids i) (buf ! i) pm A"
    and sub: "B \<subseteq> A" and disj: "\<And>u. kids i = Some u \<Longrightarrow> upages d u \<inter> B = {}"
  shows "entries_done mode pmk level d (e # es) i buf kids pm A"
proof -
  have old: "entry_done mode pmk level d (es ! j) (kids (Suc i + j)) (buf ! (Suc i + j)) pm B"
    if "j < length es" for j using fin that by (simp add: entries_done_def)
  have inB: "upages d v \<subseteq> B" if "j < length es" "kids (Suc i + j) = Some v" for j v
    using old [OF that(1)] that(2) by (simp add: entry_done_pages)
  have d0: "upages d u \<inter> upages d v = {}"
    if "j < length es" "kids i = Some u" "kids (Suc i + j) = Some v" for j u v
    using inB [OF that(1,3)] disj [OF that(2)] by auto
  have dd: "upages d u \<inter> upages d v = {}"
    if "j < length es" "k < length es" "j \<noteq> k" "kids (Suc i + j) = Some u" "kids (Suc i + k) = Some v"
    for j k u v using fin that by (simp add: entries_done_def)
  show ?thesis
    unfolding entries_done_def
  proof (intro conjI allI impI)
    fix j assume j: "j < length (e # es)"
    show "entry_done mode pmk level d ((e # es) ! j) (kids (i + j)) (buf ! (i + j)) pm A"
      using e entry_done_mono [OF old sub refl] j by (cases j) simp_all
  next
    fix j k u v
    assume a: "j < length (e # es)" "k < length (e # es)" "j \<noteq> k"
      "kids (i + j) = Some u" "kids (i + k) = Some v"
    show "upages d u \<inter> upages d v = {}"
    proof (cases j)
      case 0
      then obtain m where "k = Suc m" using a(3) by (cases k) auto
      then show ?thesis using 0 a d0 [of m u v] by simp
    next
      case (Suc m)
      then show ?thesis using a d0 [of m v u] dd [of m "k - 1" u v] by (cases k) auto
    qed
  qed
qed

lemma length_dump_concat:
  "length (concat (map (\<lambda>e. dump_words mode pmk d (f e)) es)) =
     513 * sum_list (map (\<lambda>e. nr_tables mode pmk d (f e)) es)"
  by (induction es) (auto simp: length_dump_words)

lemma nr_tables_Suc:
  "nr_tables mode pmk (Suc d) p =
     Suc (sum_list (map (\<lambda>e. nr_tables mode pmk d (pte_to_phy_addr mode e))
       (filter (\<lambda>e. pte_is_valid mode e (3 - Suc d)) (frame_words (frames pmk (p AND PAGE_MASK))))))"
  by (simp add: nr_tables_def [of mode pmk "Suc d"] Let_def length_dump_concat
      del: length_concat)

lemma gr_write_phys_page:
  assumes "page_aligned p" and "mappable pm p" and "length bs \<le> PAGE_SIZE"
  shows "gr_write_phys pm p bs =
    Inr (pm\<lparr>frames := (frames pm)(p := frame_put (frames pm p) 0 bs)\<rparr>)"
  using assms by (simp add: gr_write_phys_def and_mask_page gr_map_page_ok)

section \<open>Reading back the dump\<close>

lemma le_word_take_le_bytes [simp]: "le_word (take 8 (le_bytes 8 (w :: u64) @ f)) = w"
  by simp

lemma read_pgt_words_dump:
  assumes "0xFFFFFFFFFF \<notin> set ws" and "length acc + length ws < remained"
  shows "read_pgt_words remained acc (words_bytes (ws @ [0xFFFFFFFFFF]) @ tail) =
    Inr (acc @ ws @ [0xFFFFFFFFFF])"
  using assms
proof (induction ws arbitrary: acc)
  case Nil
  then show ?case by (subst read_pgt_words.simps) simp
next
  case (Cons w ws)
  then show ?case by (subst read_pgt_words.simps) auto
qed

lemma drop_le_bytes_append [simp]: "drop 8 (le_bytes 8 w @ f) = f"
  by simp

text \<open>
  What \<open>gr_pgt_init\<close> reads of a file that \<open>gr_mmu_dump\<close> wrote: the words of the tables, the
  end marker included, for a table that 32-bit word indices can address.
\<close>

definition pgt_file_ok :: "kbase_mmu_mode \<Rightarrow> pmem \<Rightarrow> u64 \<Rightarrow> nat \<Rightarrow> bool" where
  "pgt_file_ok mode pmk p n \<longleftrightarrow>
     pgt_tables mode pmk p \<le> n \<and> 513 * n + 1 < 2 ^ 32 \<and> 0xFFFFFFFFFF \<notin> set (pgt_words mode pmk p)"

lemma gr_pgt_init_reads:
  assumes "pgt_file_ok mode pmk p n"
  shows "gr_pgt_init get_page rctx (Some (words_bytes (pgt_file_words mode get_setup pmk p n) @ tail)) s pm =
    bindR (gr_construct_pgt get_page (pgt_words mode pmk p @ [0xFFFFFFFFFF]) MIDGARD_MMU_TOPLEVEL 0 s pm)
      (\<lambda>(new_pgd, up, offset, s', pm').
         Inr (rctx\<lparr>user_pgt := up\<rparr>, transtab (get_setup p), new_pgd, s', pm'))"
proof -
  let ?ws = "pgt_words mode pmk p"
  let ?f = "words_bytes (?ws @ [0xFFFFFFFFFF]) @ tail"
  have n: "513 * n + 1 < 2 ^ 32" using assms by (simp add: pgt_file_ok_def)
  let ?sz = "of_nat (40 + 4104 * n) :: u64"
  have "?sz - 8 - 8 * 3 = of_nat (8 + 4104 * n)" by simp
  moreover have "(of_nat (8 + 4104 * n) :: u64) div 8 = of_nat (513 * n + 1)"
  proof -
    have "unat (of_nat (8 + 4104 * n) :: u64) = 8 + 4104 * n"
      by (rule unat_of_nat_u64) (use n in simp)
    moreover have "unat (of_nat (513 * n + 1) :: u64) = 513 * n + 1"
      by (rule unat_of_nat_u64) (use n in simp)
    ultimately show ?thesis by (simp only: word_unat_eq_iff unat_div_distrib) simp
  qed
  ultimately have div: "(?sz - 8 - 8 * 3) div 8 = of_nat (513 * n + 1)" by simp
  have rem: "unat (ucast (of_nat (513 * n + 1) :: u64) :: u32) = 513 * n + 1"
  proof -
    have "unat (of_nat (513 * n + 1) :: u64) = 513 * n + 1"
      by (rule unat_of_nat_u64) (use n in simp)
    then show ?thesis using n by (simp only: unsigned_ucast_eq) (simp add: take_bit_nat_eq_self)
  qed
  have rd: "read_pgt_words (513 * n + 1) [] ?f = Inr (?ws @ [0xFFFFFFFFFF])"
    using read_pgt_words_dump [of ?ws "[]" "513 * n + 1" tail] assms
    by (simp add: pgt_file_ok_def length_pgt_words)
  have bytes: "words_bytes (pgt_file_words mode get_setup pmk p n) @ tail =
      le_bytes 8 ?sz @ le_bytes 8 (transtab (get_setup p)) @ le_bytes 8 (memattr (get_setup p)) @
      le_bytes 8 (transcfg (get_setup p)) @ ?f"
    by (simp add: pgt_file_words_def)
  have d: "drop 32 (le_bytes 8 a @ le_bytes 8 b @ le_bytes 8 c @ le_bytes 8 e @ g) = g"
    for a b c e :: u64 and g by simp
  show ?thesis
    unfolding gr_pgt_init_def bytes option.case Let_def d
    unfolding le_word_take_le_bytes drop_le_bytes_append div rem rd
    by simp
qed

section \<open>Every page source\<close>

context page_source
begin

text \<open>
  What every piece of the construction does to the state: it hands out fresh pages and writes
  no other page.
\<close>

definition grows :: "'s \<Rightarrow> pmem \<Rightarrow> 's \<Rightarrow> pmem \<Rightarrow> bool" where
  "grows s pm s' pm' \<longleftrightarrow> src_ok s' (mappable pm') \<and> mappable pm' = mappable pm \<and>
     owned s \<subseteq> owned s' \<and> (\<forall>q \<in> owned s' - owned s. valid_pa q \<and> mappable pm q) \<and>
     (\<forall>q. q \<notin> owned s' - owned s \<longrightarrow> frames pm' q = frames pm q)"

lemma grows_refl: "src_ok s (mappable pm) \<Longrightarrow> grows s pm s pm"
  by (simp add: grows_def)

lemma grows_trans: "grows s pm s1 pm1 \<Longrightarrow> grows s1 pm1 s2 pm2 \<Longrightarrow> grows s pm s2 pm2"
  unfolding grows_def by auto

lemma grows_get_page:
  assumes "src_ok s (mappable pm)" and "get_page s pm = Inr (p, s', pm')"
  shows "grows s pm s' pm'"
  using get_page_fresh [OF assms] get_page_owned [OF assms] get_page_memory [OF assms]
  by (auto simp: grows_def)

text \<open>The table at depth \<open>d\<close> is built from the dump of the table at \<open>p\<close>.\<close>

definition build_ok :: "kbase_mmu_mode \<Rightarrow> pmem \<Rightarrow> u64 list \<Rightarrow> nat \<Rightarrow> 's build \<Rightarrow> u64 \<Rightarrow> bool" where
  "build_ok mode pmk pgt_value d build p \<longleftrightarrow>
     (\<forall>pre post offset s pm.
        pgt_value = pre @ dump_words mode pmk d p @ post \<longrightarrow> unat offset = length pre \<longrightarrow>
        src_ok s (mappable pm) \<longrightarrow> nr_tables mode pmk d p \<le> avail s \<longrightarrow>
        (\<exists>up offset' s' pm'.
           build offset s pm = Inr (phys_page up, up, offset', s', pm') \<and>
           unat offset' + 513 = length pre + length (dump_words mode pmk d p) \<and>
           grows s pm s' pm' \<and> avail s \<le> avail s' + nr_tables mode pmk d p \<and>
           rebuilt mode pmk d p pm' up \<and> upt_distinct d up \<and> upages d up \<subseteq> owned s' - owned s))"

lemma construct_entries_ok:
  assumes "\<And>e. e \<in> set es \<Longrightarrow> pte_is_valid mode e level \<Longrightarrow>
      build_ok mode pmk pgt_value d rec (pte_to_phy_addr mode e)"
    and "\<And>e. e \<in> set es \<Longrightarrow> gr_pte_is_valid e level = pte_is_valid mode e level"
    and "pgt_value = pre @ concat (map (\<lambda>e. dump_words mode pmk d (pte_to_phy_addr mode e))
           (filter (\<lambda>e. pte_is_valid mode e level) es)) @ post"
    and "unat offset + 513 = length pre" and "length pgt_value < 2 ^ 32"
    and "src_ok s (mappable pm)"
    and "sum_list (map (\<lambda>e. nr_tables mode pmk d (pte_to_phy_addr mode e))
           (filter (\<lambda>e. pte_is_valid mode e level) es)) \<le> avail s"
    and "\<And>j. i \<le> j \<Longrightarrow> kids j = None"
    and "i + length es = length buf" and "\<And>j. j < length es \<Longrightarrow> buf ! (i + j) = es ! j"
  shows "\<exists>offset' buf' kids' s' pm'.
    construct_entries rec level es i offset buf kids s pm = Inr (offset', buf', kids', s', pm') \<and>
    unat offset' + 513 = length pre + length (concat (map (\<lambda>e. dump_words mode pmk d (pte_to_phy_addr mode e))
           (filter (\<lambda>e. pte_is_valid mode e level) es))) \<and>
    length buf' = length buf \<and> (\<forall>j < i. buf' ! j = buf ! j \<and> kids' j = kids j) \<and>
    grows s pm s' pm' \<and>
    avail s \<le> avail s' + sum_list (map (\<lambda>e. nr_tables mode pmk d (pte_to_phy_addr mode e))
           (filter (\<lambda>e. pte_is_valid mode e level) es)) \<and>
    entries_done mode pmk level d es i buf' kids' pm' (owned s' - owned s)"
  using assms
proof (induction es arbitrary: i offset buf kids s pm pre)
  case Nil
  then show ?case by (auto intro: grows_refl)
next
  case (Cons e es)
  note rec_ok = Cons.prems(1) and same = Cons.prems(2) and bound = Cons.prems(5)
  let ?dw = "\<lambda>e. dump_words mode pmk d (pte_to_phy_addr mode e)"
  let ?rest = "concat (map ?dw (filter (\<lambda>e. pte_is_valid mode e level) es))"
  have buf0: "buf ! i = e" "i < length buf" using Cons.prems(9) Cons.prems(10) [of 0] by simp_all
  have tail: "buf ! (Suc i + j) = es ! j" if "j < length es" for j
    using Cons.prems(10) [of "Suc j"] that by simp
  show ?case
  proof (cases "pte_is_valid mode e level")
    case False
    have "\<exists>offset' buf' kids' s' pm'.
        construct_entries rec level es (Suc i) offset buf kids s pm = Inr (offset', buf', kids', s', pm') \<and>
        unat offset' + 513 = length pre + length ?rest \<and>
        length buf' = length buf \<and> (\<forall>j < Suc i. buf' ! j = buf ! j \<and> kids' j = kids j) \<and>
        grows s pm s' pm' \<and>
        avail s \<le> avail s' + sum_list (map (\<lambda>e. nr_tables mode pmk d (pte_to_phy_addr mode e))
           (filter (\<lambda>e. pte_is_valid mode e level) es)) \<and>
        entries_done mode pmk level d es (Suc i) buf' kids' pm' (owned s' - owned s)"
      by (rule Cons.IH) (use Cons.prems False tail in \<open>auto\<close>)
    then show ?thesis using False same [of e] buf0(1) Cons.prems(8)
      by (auto intro!: entries_done_Cons simp: entry_done_def)
  next
    case True
    define off1 where "off1 = offset + 513"
    have pv: "pgt_value = pre @ ?dw e @ ?rest @ post" using Cons.prems(3) True by simp
    have "length pre < 2 ^ 32" using bound pv by simp
    then have off1: "unat off1 = length pre"
      using Cons.prems(4) by (simp add: off1_def unat_word_ariths)
    have "build_ok mode pmk pgt_value d rec (pte_to_phy_addr mode e)"
      using rec_ok [of e] True by simp
    from this [unfolded build_ok_def, rule_format, OF pv off1 Cons.prems(6)] Cons.prems(7) True
    obtain u off2 s1 pm1 where r: "rec off1 s pm = Inr (phys_page u, u, off2, s1, pm1)"
      and off2: "unat off2 + 513 = length (pre @ ?dw e)"
      and g1: "grows s pm s1 pm1" and av1: "avail s \<le> avail s1 + nr_tables mode pmk d (pte_to_phy_addr mode e)"
      and u: "rebuilt mode pmk d (pte_to_phy_addr mode e) pm1 u" "upt_distinct d u"
        "upages d u \<subseteq> owned s1 - owned s" by auto
    let ?v = "(e AND mask 12) OR phys_page u"
    have "\<exists>offset' buf' kids' s' pm'.
        construct_entries rec level es (Suc i) off2 (buf[i := ?v]) (kids(i \<mapsto> u)) s1 pm1
          = Inr (offset', buf', kids', s', pm') \<and>
        unat offset' + 513 = length (pre @ ?dw e) + length ?rest \<and>
        length buf' = length (buf[i := ?v]) \<and>
        (\<forall>j < Suc i. buf' ! j = (buf[i := ?v]) ! j \<and> kids' j = (kids(i \<mapsto> u)) j) \<and>
        grows s1 pm1 s' pm' \<and>
        avail s1 \<le> avail s' + sum_list (map (\<lambda>e. nr_tables mode pmk d (pte_to_phy_addr mode e))
           (filter (\<lambda>e. pte_is_valid mode e level) es)) \<and>
        entries_done mode pmk level d es (Suc i) buf' kids' pm' (owned s' - owned s1)"
      by (rule Cons.IH) (use Cons.prems True tail off2 pv g1 av1 in \<open>auto simp: grows_def\<close>)
    then obtain offset' buf' kids' s' pm' where
      ce: "construct_entries rec level es (Suc i) off2 (buf[i := ?v]) (kids(i \<mapsto> u)) s1 pm1
          = Inr (offset', buf', kids', s', pm')"
      and o': "unat offset' + 513 = length (pre @ ?dw e) + length ?rest"
      and b': "length buf' = length buf" "\<And>j. j < Suc i \<Longrightarrow> buf' ! j = (buf[i := ?v]) ! j \<and> kids' j = (kids(i \<mapsto> u)) j"
      and g2: "grows s1 pm1 s' pm'"
      and av2: "avail s1 \<le> avail s' + sum_list (map (\<lambda>e. nr_tables mode pmk d (pte_to_phy_addr mode e))
           (filter (\<lambda>e. pte_is_valid mode e level) es))"
      and d2: "entries_done mode pmk level d es (Suc i) buf' kids' pm' (owned s' - owned s1)"
      by auto
    have "rebuilt mode pmk d (pte_to_phy_addr mode e) pm' u"
      by (rule rebuilt_cong [OF _ u(1)]) (use g2 u(3) in \<open>auto simp: grows_def\<close>)
    moreover have "owned s \<subseteq> owned s1" "owned s1 \<subseteq> owned s'" using g1 g2 by (auto simp: grows_def)
    ultimately have "entries_done mode pmk level d (e # es) i buf' kids' pm' (owned s' - owned s)"
      by (intro entries_done_Cons [OF d2])
        (use b'(2) [of i] buf0 u True in \<open>auto simp: entry_done_def\<close>)
    moreover have "grows s pm s' pm'" using g1 g2 by (rule grows_trans)
    moreover have "\<forall>j < i. buf' ! j = buf ! j \<and> kids' j = kids j" using b'(2) by simp
    ultimately show ?thesis
      using True same [of e] r ce o' b'(1) av1 av2 by (simp add: off1_def)
  qed
qed

text \<open>The first steps of a table: the new page and the recorded words of the table.\<close>

lemma construct_table_start:
  assumes "pgt_value = pre @ (w # ws) @ post" and "length ws = 512" and "unat offset = length pre"
    and "length pgt_value < 2 ^ 32" and "src_ok s (mappable pm)" and "0 < avail s"
  obtains p0 s1 pm1 where "get_page s pm = Inr (p0, s1, pm1)"
    and "construct_table get_page pgt_value level rec offset s pm =
      bindR (if level < MIDGARD_MMU_BOTTOMLEVEL
             then construct_entries rec level ws 0 offset ws (\<lambda>i. None) s1 pm1
             else Inr (offset, ws, (\<lambda>i. None), s1, pm1))
        (\<lambda>(offset', pte_buffer, kids, s2, pm2).
           bindR (gr_write_phys pm2 p0 (words_bytes pte_buffer)) (\<lambda>pm3.
             Inr (p0, User_Pgtable p0 kids, offset', s2, pm3)))"
proof -
  from get_page_succeeds [OF assms(5,6)] obtain p0 s1 pm1 where g: "get_page s pm = Inr (p0, s1, pm1)"
    by blast
  have "page_aligned p0" "mappable pm1 p0"
    using get_page_fresh [OF assms(5) g] get_page_memory [OF assms(5) g] by (simp_all add: valid_pa_def)
  moreover have "unat (offset + 1) = Suc (length pre)"
    using assms(1,3,4) by (simp add: unat_word_ariths)
  ultimately have "construct_table get_page pgt_value level rec offset s pm =
      bindR (if level < MIDGARD_MMU_BOTTOMLEVEL
             then construct_entries rec level ws 0 offset ws (\<lambda>i. None) s1 pm1
             else Inr (offset, ws, (\<lambda>i. None), s1, pm1))
        (\<lambda>(offset', pte_buffer, kids, s2, pm2).
           bindR (gr_write_phys pm2 p0 (words_bytes pte_buffer)) (\<lambda>pm3.
             Inr (p0, User_Pgtable p0 kids, offset', s2, pm3)))"
    using assms(1,2) g by (simp add: construct_table_def Let_def gr_map_page_ok)
  then show thesis using g that by blast
qed

text \<open>The last step: the buffer is written to the new page, which no child uses.\<close>

lemma table_done:
  assumes "entries_done mode pmk (3 - Suc d) d (frame_words (frames pmk (p AND PAGE_MASK))) 0 buf kids
      pm A"
    and "length buf = 512" and "p0 \<notin> A" and "frames pm' p0 = frame_put f 0 (words_bytes buf)"
    and "\<And>q. q \<in> A \<Longrightarrow> frames pm' q = frames pm q"
  shows "rebuilt mode pmk (Suc d) p pm' (User_Pgtable p0 kids)"
    and "upt_distinct (Suc d) (User_Pgtable p0 kids)"
    and "upages (Suc d) (User_Pgtable p0 kids) \<subseteq> insert p0 A"
proof -
  let ?old = "frame_get64 (frames pmk (p AND PAGE_MASK))"
  have "entries_done mode pmk (3 - Suc d) d (frame_words (frames pmk (p AND PAGE_MASK))) 0 buf kids pm' A"
    by (rule entries_done_mono [OF assms(1) subset_refl assms(5)])
  then have d: "entry_done mode pmk (3 - Suc d) d (?old i) (kids i) (buf ! i) pm' A"
      and disj: "\<And>j u v. j < 512 \<Longrightarrow> i \<noteq> j \<Longrightarrow> kids i = Some u \<Longrightarrow> kids j = Some v \<Longrightarrow>
        upages d u \<inter> upages d v = {}" if "i < 512" for i
    using that by (auto simp: entries_done_def)
  have new: "frame_get64 (frames pm' p0) i = buf ! i" if "i < 512" for i
    using that assms(2,4) by (simp add: frame_simps)
  show "rebuilt mode pmk (Suc d) p pm' (User_Pgtable p0 kids)"
    unfolding rebuilt.simps Let_def
  proof (intro allI impI)
    fix i :: nat assume i: "i < 512"
    show "if pte_is_valid mode (?old i) (3 - Suc d)
        then \<exists>u. pgd (User_Pgtable p0 kids) i = Some u \<and>
            frame_get64 (frames pm' (phys_page (User_Pgtable p0 kids))) i =
              (?old i AND mask 12) OR phys_page u \<and>
            rebuilt mode pmk d (pte_to_phy_addr mode (?old i)) pm' u
        else pgd (User_Pgtable p0 kids) i = None \<and>
            frame_get64 (frames pm' (phys_page (User_Pgtable p0 kids))) i = ?old i"
      using d [OF i] new [OF i] by (auto simp: entry_done_def split: if_splits option.splits)
  qed
  have in_A: "upages d u \<subseteq> A \<and> upt_distinct d u" if "i < 512" "kids i = Some u" for i u
    using d [OF that(1)] that(2) by (simp add: entry_done_def split: if_splits)
  show "upt_distinct (Suc d) (User_Pgtable p0 kids)"
    using in_A disj assms(3) by auto
  show "upages (Suc d) (User_Pgtable p0 kids) \<subseteq> insert p0 A"
    using in_A by (force split: option.splits)
qed

lemma construct_at_bottom:
  assumes "length pgt_value < 2 ^ 32"
  shows "build_ok mode pmk pgt_value 0 (construct_at get_page pgt_value 0) p"
proof -
  show ?thesis unfolding build_ok_def
  proof (intro allI impI)
    fix pre post and offset :: u32 and s and pm :: pmem
    let ?ws = "frame_words (frames pmk (p AND PAGE_MASK))"
    assume a: "pgt_value = pre @ dump_words mode pmk 0 p @ post" "unat offset = length pre"
      "src_ok s (mappable pm)" "nr_tables mode pmk 0 p \<le> avail s"
    have pv: "pgt_value = pre @ ((p OR of_nat 3) # ?ws) @ post" using a(1) by simp
    have av: "0 < avail s" using a(4) nr_tables_pos [of mode pmk 0 p] by linarith
    obtain p0 s1 pm1 where g: "get_page s pm = Inr (p0, s1, pm1)"
      and c: "construct_table get_page pgt_value 3 (\<lambda>offset s pm. Inl Bad_Access) offset s pm =
        bindR (gr_write_phys pm1 p0 (words_bytes ?ws)) (\<lambda>pm3.
             Inr (p0, User_Pgtable p0 (\<lambda>i. None), offset, s1, pm3))"
      by (rule construct_table_start [OF pv length_frame_words a(2) assms(1) a(3) av, where level = 3 and rec = "\<lambda>offset s pm. Inl Bad_Access"]) auto
    note f = get_page_fresh [OF a(3) g] and o = get_page_owned [OF a(3) g] and m = get_page_memory [OF a(3) g]
    let ?pm = "pm1\<lparr>frames := (frames pm1)(p0 := frame_put (frames pm1 p0) 0 (words_bytes ?ws))\<rparr>"
    have w: "gr_write_phys pm1 p0 (words_bytes ?ws) = Inr ?pm"
      by (rule gr_write_phys_page) (use f m in \<open>simp_all add: valid_pa_def\<close>)
    have "frame_words (frame_put (frames pm1 p0) 0 (words_bytes ?ws)) = ?ws"
      by (rule nth_equalityI) (simp_all add: frame_simps)
    then have "rebuilt mode pmk 0 p ?pm (User_Pgtable p0 (\<lambda>i. None))" by simp
    moreover have "grows s pm s1 ?pm" using f o m by (auto simp: grows_def)
    moreover have "nr_tables mode pmk 0 p = 1" by (simp add: nr_tables_def)
    ultimately show "\<exists>up offset' s' pm'.
        construct_at get_page pgt_value 0 offset s pm = Inr (phys_page up, up, offset', s', pm') \<and>
        unat offset' + 513 = length pre + length (dump_words mode pmk 0 p) \<and> grows s pm s' pm' \<and>
        avail s \<le> avail s' + nr_tables mode pmk 0 p \<and> rebuilt mode pmk 0 p pm' up \<and>
        upt_distinct 0 up \<and> upages 0 up \<subseteq> owned s' - owned s"
      using a(2) f o by (intro exI [of _ "User_Pgtable p0 (\<lambda>i. None)"] exI) (auto simp: c w)
  qed
qed

lemma construct_at_above:
  assumes "length pgt_value < 2 ^ 32"
    and "\<And>e l. l < 3 \<Longrightarrow> gr_pte_is_valid e l = pte_is_valid mode e l" and "d < 3"
    and rec: "\<And>q. build_ok mode pmk pgt_value d (construct_at get_page pgt_value d) q"
  shows "build_ok mode pmk pgt_value (Suc d) (construct_at get_page pgt_value (Suc d)) p"
proof -
  let ?level = "3 - Suc d"
  let ?ws = "frame_words (frames pmk (p AND PAGE_MASK))"
  let ?es = "filter (\<lambda>e. pte_is_valid mode e ?level) ?ws"
  let ?dws = "concat (map (\<lambda>e. dump_words mode pmk d (pte_to_phy_addr mode e)) ?es)"
  let ?n = "sum_list (map (\<lambda>e. nr_tables mode pmk d (pte_to_phy_addr mode e)) ?es)"
  note nr = nr_tables_Suc [of mode pmk d p]
  show ?thesis unfolding build_ok_def
  proof (intro allI impI)
    fix pre post and offset :: u32 and s and pm :: pmem
    assume a: "pgt_value = pre @ dump_words mode pmk (Suc d) p @ post" "unat offset = length pre"
      "src_ok s (mappable pm)" "nr_tables mode pmk (Suc d) p \<le> avail s"
    have pv: "pgt_value = pre @ ((p OR of_nat ?level) # ?ws) @ (?dws @ post)"
      using a(1) by (simp add: Let_def)
    have av: "0 < avail s" using a(4) nr by simp
    obtain p0 s1 pm1 where g: "get_page s pm = Inr (p0, s1, pm1)"
      and c: "construct_table get_page pgt_value ?level (construct_at get_page pgt_value d) offset s pm =
        bindR (construct_entries (construct_at get_page pgt_value d) ?level ?ws 0 offset ?ws (\<lambda>i. None) s1 pm1)
          (\<lambda>(offset', pte_buffer, kids, s2, pm2).
             bindR (gr_write_phys pm2 p0 (words_bytes pte_buffer)) (\<lambda>pm3.
               Inr (p0, User_Pgtable p0 kids, offset', s2, pm3)))"
      by (rule construct_table_start [OF pv length_frame_words a(2) assms(1) a(3) av, where level = ?level and rec = "construct_at get_page pgt_value d"])
        (auto split: if_splits)
    note f = get_page_fresh [OF a(3) g] and o = get_page_owned [OF a(3) g] and m = get_page_memory [OF a(3) g]
    have "\<exists>offset' buf' kids' s' pm'.
      construct_entries (construct_at get_page pgt_value d) ?level ?ws 0 offset ?ws (\<lambda>i. None) s1 pm1 =
        Inr (offset', buf', kids', s', pm') \<and>
      unat offset' + 513 = length (pre @ (p OR of_nat ?level) # ?ws) + length ?dws \<and>
      length buf' = length ?ws \<and> (\<forall>j < 0. buf' ! j = ?ws ! j \<and> kids' j = None) \<and>
      grows s1 pm1 s' pm' \<and> avail s1 \<le> avail s' + ?n \<and>
      entries_done mode pmk ?level d ?ws 0 buf' kids' pm' (owned s' - owned s1)"
      by (rule construct_entries_ok [where pgt_value = pgt_value and post = post])
        (use rec assms(1,2) pv a(2,4) o m nr in auto)
    then obtain offset' buf kids s2 pm2 where
      ce: "construct_entries (construct_at get_page pgt_value d) ?level ?ws 0 offset ?ws (\<lambda>i. None) s1 pm1
        = Inr (offset', buf, kids, s2, pm2)"
      and o': "unat offset' + 513 = length pre + 513 + length ?dws" and lb: "length buf = 512"
      and g2: "grows s1 pm1 s2 pm2" and av2: "avail s1 \<le> avail s2 + ?n"
      and ed: "entries_done mode pmk ?level d ?ws 0 buf kids pm2 (owned s2 - owned s1)"
      by auto
    let ?pm = "pm2\<lparr>frames := (frames pm2)(p0 := frame_put (frames pm2 p0) 0 (words_bytes buf))\<rparr>"
    have w: "gr_write_phys pm2 p0 (words_bytes buf) = Inr ?pm"
      by (rule gr_write_phys_page) (use f m g2 lb in \<open>simp_all add: valid_pa_def grows_def\<close>)
    have p0: "p0 \<in> owned s1" "p0 \<notin> owned s" and sub: "owned s \<subseteq> owned s1" "owned s1 \<subseteq> owned s2"
      using o f g2 by (auto simp: grows_def)
    have "grows s pm s2 pm2" by (rule grows_trans [OF grows_get_page [OF a(3) g] g2])
    then have g3: "grows s pm s2 ?pm" using p0 sub by (auto simp: grows_def)
    have "p0 \<notin> owned s2 - owned s1" using p0 by simp
    note td = table_done [OF ed lb this, of ?pm "frames pm2 p0"]
    have "rebuilt mode pmk (Suc d) p ?pm (User_Pgtable p0 kids)"
      and "upt_distinct (Suc d) (User_Pgtable p0 kids)"
      and "upages (Suc d) (User_Pgtable p0 kids) \<subseteq> insert p0 (owned s2 - owned s1)"
      by (rule td; use p0 in auto)+
    then show "\<exists>up offset' s' pm'.
        construct_at get_page pgt_value (Suc d) offset s pm = Inr (phys_page up, up, offset', s', pm') \<and>
        unat offset' + 513 = length pre + length (dump_words mode pmk (Suc d) p) \<and> grows s pm s' pm' \<and>
        avail s \<le> avail s' + nr_tables mode pmk (Suc d) p \<and> rebuilt mode pmk (Suc d) p pm' up \<and>
        upt_distinct (Suc d) up \<and> upages (Suc d) up \<subseteq> owned s' - owned s"
      using c ce w g3 o' av2 o nr p0 sub
      by (intro exI [of _ "User_Pgtable p0 kids"] exI [of _ offset'] exI [of _ s2] exI [of _ ?pm])
        (auto simp: Let_def simp del: upages.simps rebuilt.simps upt_distinct.simps)
  qed
qed

lemma construct_at_ok:
  assumes "length pgt_value < 2 ^ 32"
    and "\<And>e l. l < 3 \<Longrightarrow> gr_pte_is_valid e l = pte_is_valid mode e l" and "d \<le> 3"
  shows "build_ok mode pmk pgt_value d (construct_at get_page pgt_value d) p"
  using assms(3)
proof (induction d arbitrary: p)
  case (0 p)
  show ?case by (rule construct_at_bottom [OF assms(1)])
next
  case (Suc d p)
  then show ?case by (intro construct_at_above [OF assms(1,2)]) auto
qed

text \<open>
  The page table read back from the recorder's file: the new table is a copy of the recorded
  one, on fresh pages, and nothing else in memory changed.
\<close>

lemma gr_pgt_init_rebuilt:
  assumes "pgt_file_ok mode pmk p n"
    and "\<And>e l. l < 3 \<Longrightarrow> gr_pte_is_valid e l = pte_is_valid mode e l"
    and "src_ok s (mappable pm)" and "pgt_tables mode pmk p \<le> avail s"
  obtains up s' pm' where
    "gr_pgt_init get_page rctx (Some (words_bytes (pgt_file_words mode get_setup pmk p n) @ tail)) s pm =
      Inr (rctx\<lparr>user_pgt := up\<rparr>, transtab (get_setup p), phys_page up, s', pm')"
    and "grows s pm s' pm'" and "rebuilt mode pmk 3 p pm' up" and "upt_distinct 3 up"
    and "upages 3 up \<subseteq> owned s' - owned s"
    and "avail s \<le> avail s' + pgt_tables mode pmk p"
proof -
  let ?v = "pgt_words mode pmk p @ [0xFFFFFFFFFF]"
  have "length ?v < 2 ^ 32"
    using assms(1) by (simp add: pgt_file_ok_def length_pgt_words)
  then have b: "build_ok mode pmk ?v 3 (construct_at get_page ?v 3) p"
    by (rule construct_at_ok [OF _ assms(2)]) auto
  have v: "?v = [] @ dump_words mode pmk 3 p @ [0xFFFFFFFFFF]" by (simp add: pgt_words_def)
  have "unat (0 :: u32) = length ([] :: u64 list)" by simp
  from b [unfolded build_ok_def, rule_format, OF v this assms(3)] assms(4)
  obtain up offset' s' pm' where
    "construct_at get_page ?v 3 0 s pm = Inr (phys_page up, up, offset', s', pm')"
    and r: "grows s pm s' pm'" "avail s \<le> avail s' + pgt_tables mode pmk p"
      "rebuilt mode pmk 3 p pm' up" "upt_distinct 3 up" "upages 3 up \<subseteq> owned s' - owned s"
    by (auto simp: pgt_tables_def)
  then have "gr_pgt_init get_page rctx (Some (words_bytes (pgt_file_words mode get_setup pmk p n) @ tail)) s pm =
      Inr (rctx\<lparr>user_pgt := up\<rparr>, transtab (get_setup p), phys_page up, s', pm')"
    by (simp add: gr_pgt_init_reads [OF assms(1)] gr_construct_pgt_def)
  then show thesis using r by (intro that [OF _ r(1) r(3) r(4) r(5) r(2)])
qed

end

section \<open>Walks in the rebuilt table\<close>

text \<open>The table that the recorded page table reaches for a page of the address space.\<close>

primrec table_walk :: "kbase_mmu_mode \<Rightarrow> pmem \<Rightarrow> u64 \<Rightarrow> nat \<Rightarrow> u64 \<Rightarrow> u64 option" where
  "table_walk mode pm vpfn 0 p = Some (p AND PAGE_MASK)"
| "table_walk mode pm vpfn (Suc d) p =
     (let level = MIDGARD_MMU_BOTTOMLEVEL - Suc d;
          e = frame_get64 (frames pm (p AND PAGE_MASK)) (pte_index vpfn level)
      in if pte_is_valid mode e level then table_walk mode pm vpfn d (pte_to_phy_addr mode e)
         else None)"

lemma new_entry_addr:
  assumes "valid_pa p"
  shows "pte_to_phys_addr ((old AND mask 12) OR p) = p"
proof -
  have "pte_to_phys_addr (p OR (old AND mask 12)) = p"
    by (rule pte_to_phys_addr_or) (use assms in \<open>auto simp: valid_pa_def bit_and_iff bit_mask_iff\<close>)
  then show ?thesis by (simp add: or.commute)
qed

lemma rebuilt_child:
  assumes "rebuilt mode pmk (Suc d) p pm up" and "i < 512"
    and "pte_is_valid mode (frame_get64 (frames pmk (p AND PAGE_MASK)) i) (3 - Suc d)"
  obtains u where "pgd up i = Some u"
    and "frame_get64 (frames pm (phys_page up)) i =
      (frame_get64 (frames pmk (p AND PAGE_MASK)) i AND mask 12) OR phys_page u"
    and "rebuilt mode pmk d (pte_to_phy_addr mode (frame_get64 (frames pmk (p AND PAGE_MASK)) i)) pm u"
  using assms(1) [unfolded rebuilt.simps Let_def, rule_format, OF assms(2)] assms(3) by auto

lemma rebuilt_walk:
  assumes "rebuilt mode pmk d p pm up" and "table_walk mode pmk vpfn d p = Some b" and "d \<le> 3"
    and "\<And>q. q \<in> upages d up \<Longrightarrow> valid_pa q \<and> mappable pm q"
  shows "\<exists>leaf. user_walk vpfn (3 - d) 3 up = Inr leaf \<and>
    gr_walk pm vpfn (3 - d) 3 (phys_page up) = Inr (phys_page leaf) \<and>
    frame_words (frames pm (phys_page leaf)) = frame_words (frames pmk b) \<and>
    phys_page leaf \<in> upages d up"
  using assms
proof (induction d arbitrary: p up)
  case 0
  then show ?case by auto
next
  case (Suc d)
  let ?i = "pte_index vpfn (3 - Suc d)"
  let ?e = "frame_get64 (frames pmk (p AND PAGE_MASK)) ?i"
  have i: "?i < 512" by (rule pte_index_less)
  have v: "pte_is_valid mode ?e (3 - Suc d)" and w: "table_walk mode pmk vpfn d (pte_to_phy_addr mode ?e) = Some b"
    using Suc.prems(2) by (auto simp: Let_def split: if_splits)
  obtain u where u: "pgd up ?i = Some u"
    and e': "frame_get64 (frames pm (phys_page up)) ?i = (?e AND mask 12) OR phys_page u"
    and r: "rebuilt mode pmk d (pte_to_phy_addr mode ?e) pm u"
    by (rule rebuilt_child [OF Suc.prems(1) i v])
  have sub: "upages d u \<subseteq> upages (Suc d) up" using i u by (auto intro!: bexI [of _ ?i])
  have pu: "phys_page u \<in> upages d u" by (cases d) simp_all
  have vu: "valid_pa (phys_page u)" "valid_pa (phys_page up)" "mappable pm (phys_page up)"
    using Suc.prems(4) sub pu by auto
  have lv: "3 - Suc d < 3" "Suc (3 - Suc d) = 3 - d" using Suc.prems(3) by auto
  have "pte_to_phys_addr (gr_read64 pm (phys_page up) ?i) = phys_page u"
    by (simp only: gr_read64_def e' new_entry_addr [OF vu(1)])
  then have "gr_walk pm vpfn (3 - Suc d) 3 (phys_page up) = gr_walk pm vpfn (3 - d) 3 (phys_page u)"
    using vu lv by (subst gr_walk.simps) (simp add: valid_pa_def gr_map_page_ok)
  moreover have "user_walk vpfn (3 - Suc d) 3 up = user_walk vpfn (3 - d) 3 u"
    using u lv by (subst user_walk.simps) simp
  moreover have "\<exists>leaf. user_walk vpfn (3 - d) 3 u = Inr leaf \<and>
      gr_walk pm vpfn (3 - d) 3 (phys_page u) = Inr (phys_page leaf) \<and>
      frame_words (frames pm (phys_page leaf)) = frame_words (frames pmk b) \<and>
      phys_page leaf \<in> upages d u"
  proof (rule Suc.IH [OF r w])
    show "d \<le> 3" using Suc.prems(3) by simp
    show "valid_pa q \<and> mappable pm q" if "q \<in> upages d u" for q
      using that sub by (intro Suc.prems(4)) blast
  qed
  ultimately show ?case using sub by (simp del: upages.simps) blast
qed

end
