(* ===== verification/GR_UserTree.thy ===== *)
theory GR_UserTree
  imports GR_PgTable
begin

text \<open>
  The rebuilt page table as a map from virtual page numbers to entries: the invariant
  \<open>tree_ok\<close> of the user-space tree and the tables in memory, the entry of a page, and the laws
  of changing one entry or one page outside the tables. Only the 36 low bits of a page number
  select an entry.
\<close>

unbundle bit_operations_syntax

section \<open>Pages above the bottom level and on it\<close>

primrec inner_pages :: "nat \<Rightarrow> user_pgtable \<Rightarrow> u64 set" where
  "inner_pages 0 up = {}"
| "inner_pages (Suc d) up =
     insert (phys_page up) (\<Union>i \<in> {..<512}. case pgd up i of None \<Rightarrow> {} | Some u \<Rightarrow> inner_pages d u)"

primrec leaf_pages :: "nat \<Rightarrow> user_pgtable \<Rightarrow> u64 set" where
  "leaf_pages 0 up = {phys_page up}"
| "leaf_pages (Suc d) up = (\<Union>i \<in> {..<512}. case pgd up i of None \<Rightarrow> {} | Some u \<Rightarrow> leaf_pages d u)"

text \<open>The table entries in memory point to the tables that the tree has there.\<close>

primrec tree_agrees :: "nat \<Rightarrow> user_pgtable \<Rightarrow> pmem \<Rightarrow> bool" where
  "tree_agrees 0 up pm \<longleftrightarrow> True"
| "tree_agrees (Suc d) up pm \<longleftrightarrow>
     (\<forall>i < 512. \<forall>u. pgd up i = Some u \<longrightarrow>
        pte_to_phys_addr (frame_get64 (frames pm (phys_page up)) i) = phys_page u \<and>
        tree_agrees d u pm)"

lemma upages_split: "upages d up = inner_pages d up \<union> leaf_pages d up"
proof (induction d arbitrary: up)
  case (Suc d)
  have "(case x of None \<Rightarrow> {} | Some u \<Rightarrow> upages d u) =
      (case x of None \<Rightarrow> {} | Some u \<Rightarrow> inner_pages d u) \<union>
      (case x of None \<Rightarrow> {} | Some u \<Rightarrow> leaf_pages d u)" for x
    using Suc by (simp split: option.split)
  then show ?case by (simp add: UN_Un_distrib)
qed simp

lemma child_pages:
  assumes "i < 512" and "pgd up i = Some u"
  shows "upages d u \<subseteq> upages (Suc d) up" and "inner_pages d u \<subseteq> inner_pages (Suc d) up"
    and "leaf_pages d u \<subseteq> leaf_pages (Suc d) up"
  using assms by (auto intro!: bexI [of _ i])

lemma inner_leaf_disjoint: "upt_distinct d up \<Longrightarrow> inner_pages d up \<inter> leaf_pages d up = {}"
proof (induction d arbitrary: up)
  case (Suc d)
  have "q \<notin> leaf_pages (Suc d) up" if q: "q \<in> inner_pages (Suc d) up" for q
  proof
    assume "q \<in> leaf_pages (Suc d) up"
    then obtain j v where j: "j < 512" "pgd up j = Some v" "q \<in> leaf_pages d v"
      by (auto split: option.splits)
    have v: "phys_page up \<notin> upages d v" "upt_distinct d v" using Suc.prems j by auto
    from q j(3) v(1) obtain i u where i: "i < 512" "pgd up i = Some u" "q \<in> inner_pages d u"
      by (auto simp: upages_split split: option.splits)
    show False
    proof (cases "i = j")
      case True
      then show False using i j Suc.IH [OF v(2)] by auto
    next
      case False
      then have "upages d u \<inter> upages d v = {}" using Suc.prems i(1,2) j(1,2) by auto
      then show False using i(3) j(3) by (auto simp: upages_split)
    qed
  qed
  then show ?case by blast
qed simp

lemma tree_agrees_child:
  assumes "tree_agrees (Suc d) up pm" and "i < 512" and "pgd up i = Some u"
  shows "pte_to_phys_addr (frame_get64 (frames pm (phys_page up)) i) = phys_page u"
    and "tree_agrees d u pm"
  using assms by simp_all

lemma upt_distinct_child:
  assumes "upt_distinct (Suc d) up" and "i < 512" and "pgd up i = Some u"
  shows "upt_distinct d u" and "phys_page up \<notin> upages d u"
    and "j < 512 \<Longrightarrow> pgd up j = Some v \<Longrightarrow> i \<noteq> j \<Longrightarrow> upages d u \<inter> upages d v = {}"
  using assms by auto

lemma tree_agrees_cong:
  "tree_agrees d up pm \<Longrightarrow> (\<And>q. q \<in> inner_pages d up \<Longrightarrow> frames pm' q = frames pm q) \<Longrightarrow>
   tree_agrees d up pm'"
proof (induction d arbitrary: up)
  case (Suc d)
  have top: "frames pm' (phys_page up) = frames pm (phys_page up)" by (rule Suc.prems(2)) simp
  have "tree_agrees d u pm'" if "i < 512" "pgd up i = Some u" for i u
  proof (rule Suc.IH)
    show "tree_agrees d u pm" by (rule tree_agrees_child(2) [OF Suc.prems(1) that])
    show "frames pm' q = frames pm q" if "q \<in> inner_pages d u" for q
      using Suc.prems(2) child_pages(2) [OF \<open>i < 512\<close> \<open>pgd up i = Some u\<close>, of d] that by blast
  qed
  then show ?case using Suc.prems(1) by (simp add: top)
qed simp

lemma rebuilt_agrees:
  "rebuilt mode pmk d p pm up \<Longrightarrow> (\<And>q. q \<in> upages d up \<Longrightarrow> valid_pa q) \<Longrightarrow> tree_agrees d up pm"
proof (induction d arbitrary: p up)
  case (Suc d)
  have "pte_to_phys_addr (frame_get64 (frames pm (phys_page up)) i) = phys_page u \<and> tree_agrees d u pm"
    if i: "i < 512" "pgd up i = Some u" for i u
  proof -
    let ?e = "frame_get64 (frames pmk (p AND PAGE_MASK)) i"
    note r = Suc.prems(1) [unfolded rebuilt.simps Let_def, rule_format, OF i(1)]
    have v: "pte_is_valid mode ?e (3 - Suc d)" using r i(2) by (auto split: if_splits)
    have n: "frame_get64 (frames pm (phys_page up)) i = (?e AND mask 12) OR phys_page u"
      "rebuilt mode pmk d (pte_to_phy_addr mode ?e) pm u" using r v i(2) by auto
    have "phys_page u \<in> upages d u" by (cases d) simp_all
    then have "valid_pa (phys_page u)" using Suc.prems(2) child_pages(1) [OF i, of d] by blast
    moreover have "tree_agrees d u pm"
      by (rule Suc.IH [OF n(2)]) (use Suc.prems(2) child_pages(1) [OF i, of d] in blast)
    ultimately show ?thesis unfolding n(1) by (simp add: new_entry_addr)
  qed
  then show ?case by simp
qed simp

section \<open>Walks\<close>

lemma user_walk_step:
  assumes "user_walk vpfn (3 - Suc d) 3 up = Inr leaf" and "Suc d \<le> 3"
  obtains u where "pgd up (pte_index vpfn (3 - Suc d)) = Some u"
    and "user_walk vpfn (3 - d) 3 u = Inr leaf"
proof -
  have "3 - Suc d < 3" "Suc (3 - Suc d) = 3 - d" using assms(2) by auto
  then show thesis using assms(1) that
    by (subst (asm) user_walk.simps) (simp split: option.splits)
qed

lemma user_walk_leaf:
  "user_walk vpfn (3 - d) 3 up = Inr leaf \<Longrightarrow> d \<le> 3 \<Longrightarrow> phys_page leaf \<in> leaf_pages d up"
proof (induction d arbitrary: up)
  case (Suc d)
  from Suc.prems obtain u where u: "pgd up (pte_index vpfn (3 - Suc d)) = Some u"
    "user_walk vpfn (3 - d) 3 u = Inr leaf" by (rule user_walk_step)
  then have "phys_page leaf \<in> leaf_pages d u" using Suc by simp
  then show ?case using child_pages(3) [OF pte_index_less u(1), of d] by blast
qed simp

lemma tree_walk:
  assumes "tree_agrees d up pm" and "user_walk vpfn (3 - d) 3 up = Inr leaf" and "d \<le> 3"
    and "\<And>q. q \<in> upages d up \<Longrightarrow> valid_pa q \<and> mappable pm q"
  shows "gr_walk pm vpfn (3 - d) 3 (phys_page up) = Inr (phys_page leaf)"
  using assms
proof (induction d arbitrary: up)
  case (Suc d)
  let ?i = "pte_index vpfn (3 - Suc d)"
  from Suc.prems(2,3) obtain u where u: "pgd up ?i = Some u" "user_walk vpfn (3 - d) 3 u = Inr leaf"
    by (rule user_walk_step)
  have a: "pte_to_phys_addr (gr_read64 pm (phys_page up) ?i) = phys_page u" "tree_agrees d u pm"
    using tree_agrees_child [OF Suc.prems(1) pte_index_less u(1)] by (simp_all add: gr_read64_def)
  have up: "valid_pa (phys_page up)" "mappable pm (phys_page up)" using Suc.prems(4) by simp_all
  have sub: "valid_pa q \<and> mappable pm q" if "q \<in> upages d u" for q
    using that Suc.prems(4) child_pages(1) [OF pte_index_less u(1), of d] by blast
  have pu: "phys_page u \<noteq> 0" using sub [of "phys_page u"] by (cases d) (auto simp: valid_pa_def)
  have lv: "3 - Suc d < 3" "Suc (3 - Suc d) = 3 - d" using Suc.prems(3) by auto
  have "gr_walk pm vpfn (3 - Suc d) 3 (phys_page up) = gr_walk pm vpfn (3 - d) 3 (phys_page u)"
    using a(1) up lv pu by (subst gr_walk.simps) (simp add: valid_pa_def gr_map_page_ok)
  also have "\<dots> = Inr (phys_page leaf)" using Suc.IH [OF a(2) u(2) _ sub] Suc.prems(3) by simp
  finally show ?case .
qed simp

text \<open>Two page numbers that reach the same bottom table agree on the indices above it.\<close>

lemma leaf_indices:
  assumes "upt_distinct d up" and "user_walk v (3 - d) 3 up = Inr l1"
    and "user_walk w (3 - d) 3 up = Inr l2" and "phys_page l1 = phys_page l2" and "d \<le> 3"
    and "3 - d \<le> l" and "l < 3"
  shows "pte_index v l = pte_index w l"
  using assms
proof (induction d arbitrary: up)
  case (Suc d)
  from Suc.prems(2,5) obtain u where u: "pgd up (pte_index v (3 - Suc d)) = Some u"
    "user_walk v (3 - d) 3 u = Inr l1" by (rule user_walk_step)
  from Suc.prems(3,5) obtain w' where w': "pgd up (pte_index w (3 - Suc d)) = Some w'"
    "user_walk w (3 - d) 3 w' = Inr l2" by (rule user_walk_step)
  have "phys_page l1 \<in> upages d u" "phys_page l1 \<in> upages d w'"
    using user_walk_leaf [OF u(2)] user_walk_leaf [OF w'(2)] Suc.prems(4,5) by (auto simp: upages_split)
  then have same: "pte_index v (3 - Suc d) = pte_index w (3 - Suc d)"
    using upt_distinct_child(3) [OF Suc.prems(1) pte_index_less u(1) pte_index_less w'(1)] by blast
  then have "w' = u" using u(1) w'(1) by simp
  moreover have "upt_distinct d u" by (rule upt_distinct_child(1) [OF Suc.prems(1) pte_index_less u(1)])
  ultimately have "3 - d \<le> l \<Longrightarrow> pte_index v l = pte_index w l"
    using Suc.IH [OF _ u(2)] w'(2) Suc.prems by simp
  then show ?case using same Suc.prems(5,6) by (cases "l = 3 - Suc d") auto
qed simp

lemma bit_pte_index:
  assumes "n < 36"
  shows "bit v n \<longleftrightarrow> bit (pte_index v (3 - n div 9)) (n mod 9)"
proof -
  have "3 - (3 - n div 9) = n div 9" using assms by simp
  then have "bit (pte_index v (3 - n div 9)) (n mod 9) \<longleftrightarrow> bit v (n div 9 * 9 + n mod 9)"
    using assms by (simp only: pte_index_def bit_unsigned_iff bit_take_bit_iff bit_drop_bit_eq o_apply)
      (auto simp: add.commute bit_imp_le_length)
  then show ?thesis by simp
qed

lemma pte_indices_eq:
  assumes "\<And>l. l \<le> 3 \<Longrightarrow> pte_index v l = pte_index w l"
  shows "take_bit 36 v = take_bit 36 w"
proof (rule bit_word_eqI)
  fix n
  show "bit (take_bit 36 v) n = bit (take_bit 36 w) n"
    using bit_pte_index [of n v] bit_pte_index [of n w] assms [of "3 - n div 9"]
    by (simp only: bit_take_bit_iff) auto
qed

section \<open>The page table as a map\<close>

definition tree_ok :: "user_pgtable \<Rightarrow> pmem \<Rightarrow> bool" where
  "tree_ok up pm \<longleftrightarrow> upt_distinct 3 up \<and> tree_agrees 3 up pm \<and>
     (\<forall>q \<in> upages 3 up. valid_pa q \<and> mappable pm q)"

definition pte_of :: "user_pgtable \<Rightarrow> pmem \<Rightarrow> u64 \<Rightarrow> u64 option" where
  "pte_of up pm vpfn =
     (case user_walk vpfn MIDGARD_MMU_TOPLEVEL MIDGARD_MMU_BOTTOMLEVEL up of
        Inl _ \<Rightarrow> None
      | Inr leaf \<Rightarrow> Some (gr_read64 pm (phys_page leaf) (pte_index vpfn MIDGARD_MMU_BOTTOMLEVEL)))"

lemma tree_leaf:
  assumes "tree_ok up pm" and "user_walk vpfn 0 3 up = Inr leaf"
  shows "phys_page leaf \<in> upages 3 up" and "phys_page leaf \<notin> inner_pages 3 up"
    and "valid_pa (phys_page leaf)" and "mappable pm (phys_page leaf)"
proof -
  have l: "phys_page leaf \<in> leaf_pages 3 up" using user_walk_leaf [of vpfn 3 up leaf] assms(2) by simp
  then show u: "phys_page leaf \<in> upages 3 up" by (simp only: upages_split) blast
  show "phys_page leaf \<notin> inner_pages 3 up"
    using l inner_leaf_disjoint [of 3 up] assms(1) by (auto simp only: tree_ok_def)
  show "valid_pa (phys_page leaf)" "mappable pm (phys_page leaf)"
    using u assms(1) by (auto simp only: tree_ok_def)
qed

lemma tree_trans:
  assumes "tree_ok up pm" and "pte_of up pm (PFN_DOWN va) = Some e"
  shows "gr_trans_va_to_pa pm (phys_page up) va = Inr (pte_to_phys_addr e + take_bit PAGE_SHIFT va)"
proof -
  from assms(2) obtain leaf where l: "user_walk (PFN_DOWN va) 0 3 up = Inr leaf"
    and e: "e = gr_read64 pm (phys_page leaf) (pte_index (PFN_DOWN va) 3)"
    by (auto simp: pte_of_def split: sum.splits)
  have "gr_walk pm (PFN_DOWN va) (3 - 3) 3 (phys_page up) = Inr (phys_page leaf)"
    by (rule tree_walk) (use assms(1) l in \<open>auto simp only: tree_ok_def diff_self_eq_0 order_refl\<close>)
  then show ?thesis using tree_leaf(3,4) [OF assms(1) l]
    by (simp add: gr_trans_va_to_pa_def gr_get_pgd_at_level_def gr_map_page_ok valid_pa_def e)
qed

text \<open>Changing one entry.\<close>

lemma tree_write_pte:
  fixes e :: u64
  assumes ok: "tree_ok up pm" and l: "user_walk vpfn 0 3 up = Inr leaf"
  defines "pm' \<equiv> gr_write64 pm (phys_page leaf) (pte_index vpfn 3) e"
  shows "tree_ok up pm'" and "pte_of up pm' vpfn = Some e"
    and "take_bit 36 w \<noteq> take_bit 36 vpfn \<Longrightarrow> pte_of up pm' w = pte_of up pm w"
    and "q \<notin> upages 3 up \<Longrightarrow> frames pm' q = frames pm q" and "mappable pm' = mappable pm"
proof -
  note leaf = tree_leaf [OF ok l]
  show m: "mappable pm' = mappable pm" by (simp add: pm'_def gr_write64_def)
  have f: "frames pm' q = frames pm q" if "q \<noteq> phys_page leaf" for q
    using that by (simp add: pm'_def gr_write64_def)
  have "tree_agrees 3 up pm'"
  proof (rule tree_agrees_cong [where pm = pm])
    show "tree_agrees 3 up pm" using ok by (simp only: tree_ok_def)
    show "frames pm' q = frames pm q" if "q \<in> inner_pages 3 up" for q
      by (rule f) (use leaf(2) that in \<open>auto simp only:\<close>)
  qed
  then show "tree_ok up pm'" using ok by (auto simp only: tree_ok_def m)
  show "pte_of up pm' vpfn = Some e"
    using l by (simp add: pte_of_def pm'_def gr_write64_def gr_read64_def frame_simps)
  show "frames pm' q = frames pm q" if "q \<notin> upages 3 up"
    by (rule f) (use leaf(1) that in \<open>auto simp only:\<close>)
  show "pte_of up pm' w = pte_of up pm w" if w: "take_bit 36 w \<noteq> take_bit 36 vpfn"
  proof (cases "user_walk w 0 3 up")
    case (Inr l2)
    have "\<not> (phys_page l2 = phys_page leaf \<and> pte_index w 3 = pte_index vpfn 3)"
    proof
      assume a: "phys_page l2 = phys_page leaf \<and> pte_index w 3 = pte_index vpfn 3"
      have d: "upt_distinct 3 up" using ok by (simp only: tree_ok_def)
      have w0: "user_walk w (3 - 3) 3 up = Inr l2" "user_walk vpfn (3 - 3) 3 up = Inr leaf"
        using Inr l by simp_all
      have "pte_index w x = pte_index vpfn x" if "x < 3" for x
        by (rule leaf_indices [OF d w0]) (use a that in auto)
      then have "pte_index w x = pte_index vpfn x" if "x \<le> 3" for x
        using a that by (cases "x = 3") auto
      then show False using pte_indices_eq w by blast
    qed
    then show ?thesis using Inr
      by (auto simp: pte_of_def pm'_def gr_write64_def gr_read64_def frame_simps)
  qed (simp add: pte_of_def)
qed

text \<open>Changing a page outside the tables.\<close>

lemma tree_other_page:
  assumes "tree_ok up pm" and "\<And>q. q \<in> upages 3 up \<Longrightarrow> frames pm' q = frames pm q"
    and "mappable pm' = mappable pm"
  shows "tree_ok up pm'" and "pte_of up pm' w = pte_of up pm w"
proof -
  have "tree_agrees 3 up pm'"
    by (rule tree_agrees_cong [where pm = pm])
      (use assms(1,2) upages_split [of 3 up] in \<open>auto simp only: tree_ok_def Un_iff\<close>)
  then show "tree_ok up pm'" using assms(1,3) by (auto simp only: tree_ok_def)
  show "pte_of up pm' w = pte_of up pm w"
  proof (cases "user_walk w 0 3 up")
    case (Inr leaf)
    then show ?thesis using assms(2) [OF tree_leaf(1) [OF assms(1) Inr]]
      by (simp add: pte_of_def gr_read64_def)
  qed (simp add: pte_of_def)
qed

end
