(* ===== verification/GR_MemContents.thy ===== *)
theory GR_MemContents
  imports GR_UserTree GR_File
begin

text \<open>
  The memory contents (\<open>gr_mem_contents_init\<close> of \<open>replayer/gr_mem.c\<close>): the file of the
  recorded GPU memory regions is read, pages are allocated for them, filled, and entered into
  the bottom tables. The loop tests \<open>feof\<close> before it reads, so it runs once more after the
  last region, with the values of that region still in its variables.
\<close>

unbundle bit_operations_syntax

section \<open>Model\<close>

text \<open>
  The local variables of the function, which keep their values from one round of the loop to
  the next; \<open>None\<close> is an uninitialised variable.
\<close>

record mc_vars =
  mc_start :: "u64 option"
  mc_end :: "u64 option"
  mc_nents :: "u64 option"
  mc_flags :: "u32 option"
  mc_is_valid :: "u8 option"
  mc_buf :: "u8 list option"

text \<open>The loop over the pages of one region, for the pages that are left of \<open>pages\<close>.\<close>

fun mc_pages ::
  "user_pgtable \<Rightarrow> bool \<Rightarrow> u64 \<Rightarrow> u64 \<Rightarrow> u64 \<Rightarrow> u64 list \<Rightarrow> cfile \<Rightarrow> u8 list option \<Rightarrow> pmem \<Rightarrow>
   (cfile \<times> u8 list option \<times> pmem) res" where
  "mc_pages up is_valid flags gm_e vaddr [] f buf pm = Inr (f, buf, pm)"
| "mc_pages up is_valid flags gm_e vaddr (new_page # pages) f buf pm =
     (if vaddr < gm_e
      then bindR (user_walk (PFN_DOWN vaddr) MIDGARD_MMU_TOPLEVEL MIDGARD_MMU_BOTTOMLEVEL up) (\<lambda>target_pgt.
           let vindex = pte_index (PFN_DOWN vaddr) MIDGARD_MMU_BOTTOMLEVEL;
               new_pte = gr_entry_get_ate new_page flags MIDGARD_MMU_BOTTOMLEVEL
           in bindR (if is_valid
                     then bindR (fread_word 8 (Some vaddr) f) (\<lambda>(v, f1).
                          bindR (fread_word 8 (None :: u64 option) f1) (\<lambda>(paddr, f2).
                          bindR (fread_buf PAGE_SIZE buf f2) (\<lambda>(b, f3).
                          bindR (var v) (\<lambda>vaddr'.
                          bindR (var b) (\<lambda>bs.
                          bindR (gr_write_phys pm new_page bs) (\<lambda>pm1.
                            Inr (vaddr', f3, b, pm1)))))))
                     else Inr (vaddr, f, buf, pm))
                (\<lambda>(vaddr', f', buf', pm').
                   mc_pages up is_valid flags gm_e (vaddr' + 4096) pages f' buf'
                     (gr_write64 pm' (phys_page target_pgt) vindex new_pte)))
      else Inr (f, buf, pm))"

text \<open>
  One round: the header of a region, then its pages and its entry in the table of regions,
  which has \<open>NR_VA_REGION\<close> places.
\<close>

definition mc_header :: "mc_vars \<Rightarrow> cfile \<Rightarrow> (mc_vars \<times> cfile) res" where
  "mc_header vs f =
     bindR (fread_word 8 (mc_start vs) f) (\<lambda>(gm_s, f1).
     bindR (fread_word 8 (mc_end vs) f1) (\<lambda>(gm_e, f2).
     bindR (fread_word 8 (mc_nents vs) f2) (\<lambda>(n, f3).
     bindR (fread_word 4 (mc_flags vs) f3) (\<lambda>(fl, f4).
     bindR (fread_word 1 (mc_is_valid vs) f4) (\<lambda>(iv, f5).
       Inr (vs\<lparr> mc_start := gm_s, mc_end := gm_e, mc_nents := n, mc_flags := fl,
                mc_is_valid := iv \<rparr>, f5))))))"

definition mc_region ::
  "(nat \<Rightarrow> 's \<Rightarrow> pmem \<Rightarrow> ('s \<times> pmem) res) \<Rightarrow> (nat \<Rightarrow> 's \<Rightarrow> (u64 list \<times> 's) res) \<Rightarrow>
   replay_context \<Rightarrow> u64 \<Rightarrow> u64 \<Rightarrow> u64 \<Rightarrow> u32 \<Rightarrow> u8 \<Rightarrow> u8 list option \<Rightarrow> cfile \<Rightarrow> 's \<Rightarrow> pmem \<Rightarrow>
   (replay_context \<times> u8 list option \<times> cfile \<times> 's \<times> pmem) res" where
  "mc_region alloc_pages get_pages rctx gm_s gm_e nents flags is_valid buf f s pm =
     (if nr_regions rctx \<ge> NR_VA_REGION then Inl Bad_Access
      else
        bindR (alloc_pages (unat nents) s pm) (\<lambda>(s1, pm1).
        bindR (get_pages (unat nents) s1) (\<lambda>(pages, s2).
        bindR (mc_pages (user_pgt rctx) (is_valid \<noteq> 0) (ucast flags) gm_e gm_s pages f buf pm1)
          (\<lambda>(f', buf', pm2).
             Inr (rctx\<lparr> gm_region := gm_region rctx @
                        [\<lparr> gm_start = gm_s, gm_end = gm_e, gm_pages = pages,
                           gm_nr_pages = unat nents, gm_flags = ucast flags,
                           gm_is_valid = (is_valid \<noteq> 0), gm_is_synced = False \<rparr>],
                      tot_nr_pages := tot_nr_pages rctx + ucast nents \<rparr>,
                  buf', f', s2, pm2)))))"

definition mc_round ::
  "(nat \<Rightarrow> 's \<Rightarrow> pmem \<Rightarrow> ('s \<times> pmem) res) \<Rightarrow> (nat \<Rightarrow> 's \<Rightarrow> (u64 list \<times> 's) res) \<Rightarrow>
   replay_context \<Rightarrow> mc_vars \<Rightarrow> cfile \<Rightarrow> 's \<Rightarrow> pmem \<Rightarrow>
   (replay_context \<times> mc_vars \<times> cfile \<times> 's \<times> pmem) res" where
  "mc_round alloc_pages get_pages rctx vs f s pm =
     bindR (mc_header vs f) (\<lambda>(vs', f').
     bindR (var (mc_start vs')) (\<lambda>gm_s.
     bindR (var (mc_end vs')) (\<lambda>gm_e.
     bindR (var (mc_nents vs')) (\<lambda>nents.
     bindR (var (mc_flags vs')) (\<lambda>flags.
     bindR (var (mc_is_valid vs')) (\<lambda>is_valid.
     bindR (mc_region alloc_pages get_pages rctx gm_s gm_e nents flags is_valid (mc_buf vs') f' s pm)
       (\<lambda>(rctx', buf', f'', s', pm'). Inr (rctx', vs'\<lparr> mc_buf := buf' \<rparr>, f'', s', pm'))))))))"

lemma mc_pages_le:
  "mc_pages up is_valid flags gm_e vaddr pages f buf pm = Inr (f', b', pm') \<Longrightarrow> file_le f' f"
proof (induction pages arbitrary: vaddr f buf pm)
  case Nil
  then show ?case by simp
next
  case (Cons p ps)
  show ?case
  proof (cases "vaddr < gm_e \<and> is_valid")
    case True
    from Cons.prems True obtain v f1 pa f2 b f3 va l where
      "fread_word 8 (Some vaddr) f = Inr (v, f1)" "fread_word 8 (None :: u64 option) f1 = Inr (pa, f2)"
      "fread_buf PAGE_SIZE buf f2 = Inr (b, f3)"
      "mc_pages up is_valid flags gm_e (va + 4096) ps f3 b l = Inr (f', b', pm')"
      by (auto simp: Let_def bindR_eq_Inr)
    then have "file_le f1 f" "file_le f2 f1" "file_le f3 f2" "file_le f' f3"
      using Cons.IH by (auto intro: fread_le)
    then show ?thesis by (blast intro: file_le_trans)
  next
    case False
    then show ?thesis using Cons by (auto simp: Let_def bindR_eq_Inr split: if_splits)
  qed
qed

lemma mc_header_less:
  assumes "mc_header vs f = Inr (vs', f')"
  shows "file_less f' f"
proof -
  from assms obtain a1 f1 a2 f2 a3 f3 a4 f4 a5 where
    r: "fread_word 8 (mc_start vs) f = Inr (a1, f1)" "fread_word 8 (mc_end vs) f1 = Inr (a2, f2)"
      "fread_word 8 (mc_nents vs) f2 = Inr (a3, f3)" "fread_word 4 (mc_flags vs) f3 = Inr (a4, f4)"
      "fread_word 1 (mc_is_valid vs) f4 = Inr (a5, f')"
    by (auto simp: mc_header_def bindR_eq_Inr)
  have "file_less f1 f" using r(1) by (rule fread_word_less) simp
  moreover have "file_le f2 f1" "file_le f3 f2" "file_le f4 f3" "file_le f' f4"
    using r by (auto intro: fread_le)
  ultimately show ?thesis by (blast intro: file_le_trans file_less_trans)
qed

lemma mc_round_less:
  assumes "mc_round alloc_pages get_pages rctx vs f s pm = Inr (rctx', vs', f', s', pm')"
  shows "file_less f' f"
proof -
  from assms obtain v1 f1 up v fl e a ps pm1 b pm2 where h: "mc_header vs f = Inr (v1, f1)"
    "mc_pages up v fl e a ps f1 (mc_buf v1) pm1 = Inr (f', b, pm2)"
    by (auto simp: mc_round_def mc_region_def bindR_eq_Inr split: if_splits)
  then show ?thesis using mc_header_less mc_pages_le file_less_trans by blast
qed

text \<open>The loop, and the function: the file is opened, and the variables are not initialised.\<close>

function mc_loop ::
  "(nat \<Rightarrow> 's \<Rightarrow> pmem \<Rightarrow> ('s \<times> pmem) res) \<Rightarrow> (nat \<Rightarrow> 's \<Rightarrow> (u64 list \<times> 's) res) \<Rightarrow>
   replay_context \<Rightarrow> mc_vars \<Rightarrow> cfile \<Rightarrow> 's \<Rightarrow> pmem \<Rightarrow> (replay_context \<times> 's \<times> pmem) res" where
  "mc_loop alloc_pages get_pages rctx vs f s pm =
     (if cf_eof f then Inr (rctx, s, pm)
      else bindR (mc_round alloc_pages get_pages rctx vs f s pm)
             (\<lambda>(rctx', vs', f', s', pm'). mc_loop alloc_pages get_pages rctx' vs' f' s' pm'))"
  by pat_completeness auto
termination
proof (relation "measure (\<lambda>(a, g, rctx, vs, f, s, pm). length (cf_rest f) + (if cf_eof f then 0 else 1))",
    goal_cases)
  case (2 a g rctx vs f s pm x rctx' y vs' z f' u s' pm')
  then have "mc_round a g rctx vs f s pm = Inr (rctx', vs', f', s', pm')" by simp
  then have "file_less f' f" by (rule mc_round_less)
  then show ?case using 2(1) by (auto simp: file_less_def file_le_def)
qed simp

declare mc_loop.simps [simp del]

definition gr_mem_contents_init ::
  "(nat \<Rightarrow> 's \<Rightarrow> pmem \<Rightarrow> ('s \<times> pmem) res) \<Rightarrow> (nat \<Rightarrow> 's \<Rightarrow> (u64 list \<times> 's) res) \<Rightarrow>
   replay_context \<Rightarrow> u8 list option \<Rightarrow> 's \<Rightarrow> pmem \<Rightarrow> (replay_context \<times> 's \<times> pmem) res" where
  "gr_mem_contents_init alloc_pages get_pages rctx path s pm =
     (case path of
        None \<Rightarrow> Inl Bug
      | Some bs \<Rightarrow>
          mc_loop alloc_pages get_pages rctx
            \<lparr> mc_start = None, mc_end = None, mc_nents = None, mc_flags = None, mc_is_valid = None,
              mc_buf = None \<rparr> (fopen bs) s pm)"

section \<open>Recorded regions\<close>

text \<open>
  A region as the recorder writes it: for a valid region the pages follow, each with its
  virtual and physical address and its contents.
\<close>

record mc_rec =
  r_start :: u64
  r_end :: u64
  r_nents :: nat
  r_flags :: u32
  r_valid :: bool
  r_pages :: "(u64 \<times> u8 list) list"

fun mc_page_bytes :: "u64 \<Rightarrow> (u64 \<times> u8 list) list \<Rightarrow> u8 list" where
  "mc_page_bytes va [] = []"
| "mc_page_bytes va ((pa, bs) # ps) =
     le_bytes 8 va @ le_bytes 8 pa @ bs @ mc_page_bytes (va + 4096) ps"

definition mc_bytes :: "mc_rec \<Rightarrow> u8 list" where
  "mc_bytes r =
     le_bytes 8 (r_start r) @ le_bytes 8 (r_end r) @ le_bytes 8 (of_nat (r_nents r) :: u64) @
     le_bytes 4 (r_flags r) @ [if r_valid r then 1 else 0] @
     (if r_valid r then mc_page_bytes (r_start r) (r_pages r) else [])"

text \<open>
  Regions the replayer can take: page aligned below \<open>2 ^ 48\<close>, not empty, not larger than their
  address range, and with as many page contents as entries.
\<close>

definition rec_ok :: "mc_rec \<Rightarrow> bool" where
  "rec_ok r \<longleftrightarrow> page_aligned (r_start r) \<and> 0 < r_nents r \<and>
     unat (r_start r) + PAGE_SIZE * r_nents r \<le> unat (r_end r) \<and>
     unat (r_start r) + PAGE_SIZE * r_nents r \<le> 2 ^ 48 \<and>
     (r_valid r \<longrightarrow> length (r_pages r) = r_nents r \<and> (\<forall>x \<in> set (r_pages r). length (snd x) = PAGE_SIZE))"

section \<open>Filling a region\<close>

text \<open>
  What the loop over the pages does to memory: for each page address and new contents, if any,
  the page is written and its entry is set.
\<close>

definition put_page :: "pmem \<Rightarrow> u64 \<Rightarrow> u8 list \<Rightarrow> pmem" where
  "put_page pm p bs = pm\<lparr>frames := (frames pm)(p := frame_put (frames pm p) 0 bs)\<rparr>"

fun fill_pages :: "user_pgtable \<Rightarrow> u64 \<Rightarrow> u64 \<Rightarrow> (u64 \<times> u8 list option) list \<Rightarrow> pmem \<Rightarrow> pmem" where
  "fill_pages up flags va [] pm = pm"
| "fill_pages up flags va ((p, c) # xs) pm =
     (let pm1 = (case c of None \<Rightarrow> pm | Some bs \<Rightarrow> put_page pm p bs);
          pm2 = (case user_walk (PFN_DOWN va) 0 3 up of
                   Inl _ \<Rightarrow> pm1
                 | Inr leaf \<Rightarrow> gr_write64 pm1 (phys_page leaf) (pte_index (PFN_DOWN va) 3)
                                (gr_entry_get_ate p flags 3))
      in fill_pages up flags (va + 4096) xs pm2)"

text \<open>The number of the \<open>i\<close>-th page from an address on.\<close>

definition vpn :: "u64 \<Rightarrow> nat \<Rightarrow> u64" where
  "vpn va i = PFN_DOWN (va + of_nat (PAGE_SIZE * i))"

lemma vpn_0 [simp]: "vpn va 0 = PFN_DOWN va"
  by (simp add: vpn_def)

lemma vpn_shift [simp]: "vpn (va + 4096) i = vpn va (Suc i)"
  by (simp add: vpn_def add.assoc)

definition walkable :: "user_pgtable \<Rightarrow> u64 \<Rightarrow> nat \<Rightarrow> bool" where
  "walkable up va n \<longleftrightarrow> (\<forall>i < n. \<exists>leaf. user_walk (vpn va i) 0 3 up = Inr leaf)"

lemma walkable_Suc:
  "walkable up va (Suc n) \<longleftrightarrow>
     (\<exists>leaf. user_walk (PFN_DOWN va) 0 3 up = Inr leaf) \<and> walkable up (va + 4096) n"
  by (simp add: walkable_def All_less_Suc2)

text \<open>The page numbers of a region below \<open>2 ^ 48\<close> are different in the 36 bits that count.\<close>

lemma region_pfn:
  assumes "unat va + PAGE_SIZE * n \<le> 2 ^ 48" and "i < n"
  shows "unat (take_bit 36 (vpn va i)) = unat va div PAGE_SIZE + i"
proof -
  have i: "PAGE_SIZE * i < 2 ^ 48" "unat va + PAGE_SIZE * i < 2 ^ 48"
    using assms by (auto simp: less_le_trans [of "PAGE_SIZE * i" "PAGE_SIZE * n"])
  have "unat (of_nat (PAGE_SIZE * i) :: u64) = PAGE_SIZE * i"
    by (rule unat_of_nat_u64) (use i in simp)
  then have s: "unat (va + of_nat (PAGE_SIZE * i)) = unat va + PAGE_SIZE * i"
    using i by (subst unat_word_ariths(1)) simp
  have "unat (vpn va i) = unat va div PAGE_SIZE + i"
    by (simp only: vpn_def PFN_DOWN_def unat_drop_bit_eq s) (simp add: drop_bit_eq_div)
  moreover have "unat va div PAGE_SIZE + i < 2 ^ 36"
    using i(2) by simp
  ultimately show ?thesis by (simp only: unsigned_take_bit_eq) (simp add: take_bit_nat_eq_self)
qed

lemma tree_put_page:
  assumes "tree_ok up pm" and "p \<notin> upages 3 up"
  shows "tree_ok up (put_page pm p bs)" and "pte_of up (put_page pm p bs) w = pte_of up pm w"
  by (rule tree_other_page [OF assms(1)]; use assms(2) in \<open>auto simp: put_page_def\<close>)+

text \<open>The entries and contents after filling a region, and what is left alone.\<close>

definition filled :: "user_pgtable \<Rightarrow> u64 \<Rightarrow> u64 \<Rightarrow> (u64 \<times> u8 list option) list \<Rightarrow> pmem \<Rightarrow> bool" where
  "filled up flags va xs pm \<longleftrightarrow>
     (\<forall>i < length xs.
        pte_of up pm (vpn va i) =
          Some (gr_entry_get_ate (fst (xs ! i)) flags 3) \<and>
        (\<forall>bs. snd (xs ! i) = Some bs \<longrightarrow> frame_get (frames pm (fst (xs ! i))) 0 PAGE_SIZE = bs))"

lemma fill_pages_ok:
  assumes "tree_ok up pm" and "walkable up va (length xs)"
    and "unat va + PAGE_SIZE * length xs \<le> 2 ^ 48" and "distinct (map fst xs)"
    and "set (map fst xs) \<inter> upages 3 up = {}"
    and "\<forall>x \<in> set xs. \<forall>bs. snd x = Some bs \<longrightarrow> length bs = PAGE_SIZE"
  shows "tree_ok up (fill_pages up flags va xs pm) \<and> filled up flags va xs (fill_pages up flags va xs pm) \<and>
    mappable (fill_pages up flags va xs pm) = mappable pm \<and>
    (\<forall>q. q \<notin> set (map fst xs) \<union> upages 3 up \<longrightarrow> frames (fill_pages up flags va xs pm) q = frames pm q) \<and>
    (\<forall>w. (\<forall>i < length xs. take_bit 36 w \<noteq> take_bit 36 (vpn va i)) \<longrightarrow>
       pte_of up (fill_pages up flags va xs pm) w = pte_of up pm w)"
  using assms
proof (induction xs arbitrary: va pm)
  case Nil
  then show ?case by (simp add: filled_def)
next
  case (Cons x xs)
  obtain p c where x: "x = (p, c)" by (cases x)
  from Cons.prems(2) obtain leaf where l: "user_walk (PFN_DOWN va) 0 3 up = Inr leaf"
    and w: "walkable up (va + 4096) (length xs)" by (auto simp: walkable_Suc)
  define pm1 where "pm1 = (case c of None \<Rightarrow> pm | Some bs \<Rightarrow> put_page pm p bs)"
  define pm2 where "pm2 = gr_write64 pm1 (phys_page leaf) (pte_index (PFN_DOWN va) 3)
    (gr_entry_get_ate p flags 3)"
  have eq: "fill_pages up flags va (x # xs) pm = fill_pages up flags (va + 4096) xs pm2"
    by (simp add: x l pm1_def pm2_def Let_def)
  have p: "p \<notin> upages 3 up" "p \<notin> set (map fst xs)" using Cons.prems(4,5) x by auto
  have t1: "tree_ok up pm1" "\<And>v. pte_of up pm1 v = pte_of up pm v"
    using Cons.prems(1) tree_put_page [OF Cons.prems(1) p(1)] by (auto simp: pm1_def split: option.split)
  have f1: "\<And>q. q \<noteq> p \<Longrightarrow> frames pm1 q = frames pm q" "mappable pm1 = mappable pm"
    by (auto simp: pm1_def put_page_def split: option.split)
  note t2 = tree_write_pte [OF t1(1) l, where e = "gr_entry_get_ate p flags 3", folded pm2_def]
  have va1: "unat (va + 4096) = unat va + PAGE_SIZE"
    using Cons.prems(3) by (subst unat_word_ariths(1)) simp
  have IH: "tree_ok up (fill_pages up flags (va + 4096) xs pm2) \<and>
    filled up flags (va + 4096) xs (fill_pages up flags (va + 4096) xs pm2) \<and>
    mappable (fill_pages up flags (va + 4096) xs pm2) = mappable pm2 \<and>
    (\<forall>q. q \<notin> set (map fst xs) \<union> upages 3 up \<longrightarrow>
       frames (fill_pages up flags (va + 4096) xs pm2) q = frames pm2 q) \<and>
    (\<forall>w. (\<forall>i < length xs. take_bit 36 w \<noteq> take_bit 36 (vpn va (Suc i))) \<longrightarrow>
       pte_of up (fill_pages up flags (va + 4096) xs pm2) w = pte_of up pm2 w)"
    using Cons.IH [OF t2(1) w] Cons.prems(3-6) va1 x by auto
  have ne: "take_bit 36 (vpn va i) \<noteq> take_bit 36 (vpn va j)" if "i < Suc (length xs)" "j < Suc (length xs)" "i \<noteq> j" for i j
    using region_pfn [OF Cons.prems(3), of i] region_pfn [OF Cons.prems(3), of j] that by auto
  have fill: "filled up flags va (x # xs) (fill_pages up flags (va + 4096) xs pm2)"
    unfolding filled_def
  proof (intro allI impI)
    fix i assume i: "i < length (x # xs)"
    show "pte_of up (fill_pages up flags (va + 4096) xs pm2) (vpn va i) =
        Some (gr_entry_get_ate (fst ((x # xs) ! i)) flags 3) \<and>
      (\<forall>bs. snd ((x # xs) ! i) = Some bs \<longrightarrow>
        frame_get (frames (fill_pages up flags (va + 4096) xs pm2) (fst ((x # xs) ! i))) 0 PAGE_SIZE = bs)"
    proof (cases i)
      case 0
      have "pte_of up (fill_pages up flags (va + 4096) xs pm2) (vpn va 0) = pte_of up pm2 (vpn va 0)"
        using IH ne [of 0] by (auto simp del: vpn_0)
      then have "pte_of up (fill_pages up flags (va + 4096) xs pm2) (vpn va 0) =
          Some (gr_entry_get_ate p flags 3)" using t2(2) by simp
      moreover have "frames (fill_pages up flags (va + 4096) xs pm2) p = frames pm1 p"
        using IH p t2(4) by auto
      moreover have "length bs = PAGE_SIZE" if "c = Some bs" for bs using Cons.prems(6) x that by auto
      ultimately show ?thesis using 0 x
        by (auto simp: pm1_def put_page_def frame_get_put_same)
    next
      case (Suc j)
      then show ?thesis using IH i by (simp add: filled_def)
    qed
  qed
  have other: "pte_of up (fill_pages up flags (va + 4096) xs pm2) w = pte_of up pm w"
    if a: "\<forall>i < length (x # xs). take_bit 36 w \<noteq> take_bit 36 (vpn va i)" for w
  proof -
    have "take_bit 36 w \<noteq> take_bit 36 (PFN_DOWN va)" using a by (auto dest: spec [of _ 0])
    moreover have "\<forall>i < length xs. take_bit 36 w \<noteq> take_bit 36 (vpn va (Suc i))" using a by auto
    ultimately show ?thesis using IH t1(2) t2(3) by auto
  qed
  have "frames (fill_pages up flags (va + 4096) xs pm2) q = frames pm q"
    if "q \<notin> set (map fst (x # xs)) \<union> upages 3 up" for q
    using IH that t2(4) f1(1) x by auto
  then show ?case using IH fill other t2(5) f1(2) unfolding eq by auto
qed

section \<open>The loop over the pages fills a region\<close>

text \<open>All page addresses of the region are below its end.\<close>

lemma region_below_end:
  assumes "unat va + PAGE_SIZE * n \<le> unat (e :: u64)" and "0 < n"
  shows "va < e" and "unat va + PAGE_SIZE * n \<le> 2 ^ 48 \<Longrightarrow> unat (va + 4096) = unat va + PAGE_SIZE"
proof -
  show "va < e" using assms by (simp add: word_less_nat_alt)
  show "unat (va + 4096) = unat va + PAGE_SIZE" if "unat va + PAGE_SIZE * n \<le> 2 ^ 48"
  proof -
    have "PAGE_SIZE \<le> PAGE_SIZE * n" using assms(2) by simp
    then show ?thesis using that by (subst unat_word_ariths(1)) simp
  qed
qed

lemma put_page_write:
  assumes "valid_pa p" and "mappable pm p" and "length bs = PAGE_SIZE"
  shows "gr_write_phys pm p bs = Inr (put_page pm p bs)"
  using gr_write_phys_page [of p pm bs] assms by (simp add: valid_pa_def put_page_def)

lemma mappable_writes [simp]:
  "mappable (put_page pm p bs) = mappable pm" "mappable (gr_write64 pm b i v) = mappable pm"
  by (simp_all add: put_page_def gr_write64_def)

text \<open>A valid region: contents and addresses come from the file.\<close>

lemma mc_pages_valid:
  assumes "length cs = length ps" and "walkable up va (length ps)"
    and "unat va + PAGE_SIZE * length ps \<le> unat gm_e" and "unat va + PAGE_SIZE * length ps \<le> 2 ^ 48"
    and "\<forall>p \<in> set ps. valid_pa p \<and> mappable pm p" and "\<forall>x \<in> set cs. length (snd x) = PAGE_SIZE"
  shows "mc_pages up True flags gm_e va ps \<lparr> cf_rest = mc_page_bytes va cs @ g, cf_eof = e \<rparr> buf pm =
    Inr (\<lparr> cf_rest = g, cf_eof = e \<rparr>, if cs = [] then buf else Some (snd (last cs)),
         fill_pages up flags va (zip ps (map (\<lambda>x. Some (snd x)) cs)) pm)"
  using assms
proof (induction cs ps arbitrary: va buf pm rule: list_induct2)
  case Nil
  then show ?case by simp
next
  case (Cons c cs p ps)
  obtain pa bs where c: "c = (pa, bs)" by (cases c)
  from Cons.prems(1) obtain leaf where l: "user_walk (PFN_DOWN va) 0 3 up = Inr leaf"
    and w: "walkable up (va + 4096) (length ps)" by (auto simp: walkable_Suc)
  note below = region_below_end [OF Cons.prems(2)]
  have va1: "unat (va + 4096) = unat va + PAGE_SIZE" using below(2) Cons.prems(3) by simp
  have "gr_write_phys pm p bs = Inr (put_page pm p bs)"
    by (rule put_page_write) (use Cons.prems(4,5) c in auto)
  moreover have bs: "length bs = PAGE_SIZE" using Cons.prems(5) c by simp
  ultimately have "mc_pages up True flags gm_e va (p # ps)
      \<lparr> cf_rest = mc_page_bytes va (c # cs) @ g, cf_eof = e \<rparr> buf pm =
    mc_pages up True flags gm_e (va + 4096) ps
      \<lparr> cf_rest = mc_page_bytes (va + 4096) cs @ g, cf_eof = e \<rparr> (Some bs)
      (gr_write64 (put_page pm p bs) (phys_page leaf) (pte_index (PFN_DOWN va) 3) (gr_entry_get_ate p flags 3))"
    using below(1) l by (simp add: c fread_simps Let_def)
  also have "\<dots> = Inr (\<lparr> cf_rest = g, cf_eof = e \<rparr>, if cs = [] then Some bs else Some (snd (last cs)),
      fill_pages up flags (va + 4096) (zip ps (map (\<lambda>x. Some (snd x)) cs))
        (gr_write64 (put_page pm p bs) (phys_page leaf) (pte_index (PFN_DOWN va) 3)
          (gr_entry_get_ate p flags 3)))"
    by (rule Cons.IH [OF w]) (use Cons.prems va1 in auto)
  finally show ?case by (simp add: c l Let_def)
qed

text \<open>A region that is not valid: only the entries are set.\<close>

lemma mc_pages_invalid:
  assumes "walkable up va (length ps)"
    and "unat va + PAGE_SIZE * length ps \<le> unat gm_e" and "unat va + PAGE_SIZE * length ps \<le> 2 ^ 48"
  shows "mc_pages up False flags gm_e va ps f buf pm =
    Inr (f, buf, fill_pages up flags va (map (\<lambda>p. (p, None)) ps) pm)"
  using assms
proof (induction ps arbitrary: va pm)
  case Nil
  then show ?case by simp
next
  case (Cons p ps)
  from Cons.prems(1) obtain leaf where l: "user_walk (PFN_DOWN va) 0 3 up = Inr leaf"
    and w: "walkable up (va + 4096) (length ps)" by (auto simp: walkable_Suc)
  note below = region_below_end [OF Cons.prems(2)]
  have va1: "unat (va + 4096) = unat va + PAGE_SIZE" using below(2) Cons.prems(3) by simp
  have "mc_pages up False flags gm_e (va + 4096) ps f buf pm' =
      Inr (f, buf, fill_pages up flags (va + 4096) (map (\<lambda>p. (p, None)) ps) pm')" for pm'
    by (rule Cons.IH [OF w]) (use Cons.prems va1 in auto)
  then show ?case using below(1) l by (simp add: Let_def)
qed

text \<open>
  The extra round at the end of the file, for a valid region: nothing is read, and every page
  gets the contents that are still in the buffer.
\<close>

lemma mc_pages_at_end:
  assumes "walkable up va (length ps)"
    and "unat va + PAGE_SIZE * length ps \<le> unat gm_e" and "unat va + PAGE_SIZE * length ps \<le> 2 ^ 48"
    and "\<forall>p \<in> set ps. valid_pa p \<and> mappable pm p" and "length bs = PAGE_SIZE"
  shows "mc_pages up True flags gm_e va ps \<lparr> cf_rest = [], cf_eof = True \<rparr> (Some bs) pm =
    Inr (\<lparr> cf_rest = [], cf_eof = True \<rparr>, Some bs,
         fill_pages up flags va (map (\<lambda>p. (p, Some bs)) ps) pm)"
  using assms
proof (induction ps arbitrary: va pm)
  case Nil
  then show ?case by simp
next
  case (Cons p ps)
  from Cons.prems(1) obtain leaf where l: "user_walk (PFN_DOWN va) 0 3 up = Inr leaf"
    and w: "walkable up (va + 4096) (length ps)" by (auto simp: walkable_Suc)
  note below = region_below_end [OF Cons.prems(2)]
  have va1: "unat (va + 4096) = unat va + PAGE_SIZE" using below(2) Cons.prems(3) by simp
  have "gr_write_phys pm p bs = Inr (put_page pm p bs)"
    by (rule put_page_write) (use Cons.prems(4,5) in auto)
  moreover have "mc_pages up True flags gm_e (va + 4096) ps \<lparr> cf_rest = [], cf_eof = True \<rparr> (Some bs) pm' =
      Inr (\<lparr> cf_rest = [], cf_eof = True \<rparr>, Some bs,
        fill_pages up flags (va + 4096) (map (\<lambda>p. (p, Some bs)) ps) pm')"
    if "mappable pm' = mappable pm" for pm'
    by (rule Cons.IH [OF w]) (use Cons.prems va1 that in auto)
  ultimately show ?case using below(1) l by (simp add: fread_simps Let_def)
qed

section \<open>Regions\<close>

definition region_of :: "mc_rec \<Rightarrow> u64 list \<Rightarrow> gpu_mem_region" where
  "region_of r ps = \<lparr> gm_start = r_start r, gm_end = r_end r, gm_pages = ps,
     gm_nr_pages = r_nents r, gm_flags = ucast (r_flags r), gm_is_valid = r_valid r,
     gm_is_synced = False \<rparr>"

definition rec_fill :: "mc_rec \<Rightarrow> u64 list \<Rightarrow> (u64 \<times> u8 list option) list" where
  "rec_fill r ps =
     (if r_valid r then zip ps (map (\<lambda>x. Some (snd x)) (r_pages r)) else map (\<lambda>p. (p, None)) ps)"

text \<open>What the extra round writes for the last region: everywhere the contents of its last page.\<close>

definition rec_again :: "mc_rec \<Rightarrow> u64 list \<Rightarrow> (u64 \<times> u8 list option) list" where
  "rec_again r ps =
     map (\<lambda>p. (p, if r_valid r then Some (snd (last (r_pages r))) else None)) ps"

definition vars_of :: "mc_rec \<Rightarrow> u8 list option \<Rightarrow> mc_vars" where
  "vars_of r b = \<lparr> mc_start = Some (r_start r), mc_end = Some (r_end r),
     mc_nents = Some (of_nat (r_nents r)), mc_flags = Some (r_flags r),
     mc_is_valid = Some (if r_valid r then 1 else 0), mc_buf = b \<rparr>"

definition last_buf :: "mc_rec \<Rightarrow> u8 list option \<Rightarrow> u8 list option" where
  "last_buf r b = (if r_valid r then Some (snd (last (r_pages r))) else b)"

definition rec_body :: "mc_rec \<Rightarrow> u8 list" where
  "rec_body r = (if r_valid r then mc_page_bytes (r_start r) (r_pages r) else [])"

lemma rec_ok_nents: "rec_ok r \<Longrightarrow> unat (of_nat (r_nents r) :: u64) = r_nents r"
  by (rule unat_of_nat_u64) (simp add: rec_ok_def)

lemma rec_ok_pages_nonempty: "rec_ok r \<Longrightarrow> r_valid r \<Longrightarrow> r_pages r \<noteq> []"
  by (auto simp: rec_ok_def)

lemma mc_header_rec:
  "mc_header vs \<lparr> cf_rest = mc_bytes r @ g, cf_eof = e \<rparr> =
     Inr (vars_of r (mc_buf vs), \<lparr> cf_rest = rec_body r @ g, cf_eof = e \<rparr>)"
  by (simp add: mc_header_def mc_bytes_def fread_simps vars_of_def rec_body_def del: One_nat_def)

lemma mc_header_end:
  "mc_header (vars_of r b) \<lparr> cf_rest = [], cf_eof = False \<rparr> =
     Inr (vars_of r b, \<lparr> cf_rest = [], cf_eof = True \<rparr>)"
  by (simp add: mc_header_def fread_simps vars_of_def)

lemma mc_pages_rec:
  assumes "rec_ok r" and "walkable up (r_start r) (r_nents r)" and "length ps = r_nents r"
    and "\<forall>p \<in> set ps. valid_pa p \<and> mappable pm p"
  shows "mc_pages up (r_valid r) flags (r_end r) (r_start r) ps
      \<lparr> cf_rest = rec_body r @ g, cf_eof = e \<rparr> buf pm =
    Inr (\<lparr> cf_rest = g, cf_eof = e \<rparr>, last_buf r buf,
         fill_pages up flags (r_start r) (rec_fill r ps) pm)"
proof (cases "r_valid r")
  case True
  then have "mc_pages up True flags (r_end r) (r_start r) ps
      \<lparr> cf_rest = mc_page_bytes (r_start r) (r_pages r) @ g, cf_eof = e \<rparr> buf pm =
    Inr (\<lparr> cf_rest = g, cf_eof = e \<rparr>, if r_pages r = [] then buf else Some (snd (last (r_pages r))),
         fill_pages up flags (r_start r) (zip ps (map (\<lambda>x. Some (snd x)) (r_pages r))) pm)"
    by (intro mc_pages_valid) (use assms in \<open>auto simp: rec_ok_def\<close>)
  then show ?thesis using True rec_ok_pages_nonempty [OF assms(1)]
    by (simp add: rec_body_def rec_fill_def last_buf_def)
next
  case False
  then show ?thesis using assms
    by (simp add: rec_body_def rec_fill_def last_buf_def mc_pages_invalid rec_ok_def)
qed

lemma mc_pages_again:
  assumes "rec_ok r" and "walkable up (r_start r) (r_nents r)" and "length ps = r_nents r"
    and "\<forall>p \<in> set ps. valid_pa p \<and> mappable pm p"
  shows "mc_pages up (r_valid r) flags (r_end r) (r_start r) ps
      \<lparr> cf_rest = [], cf_eof = True \<rparr> (last_buf r b) pm =
    Inr (\<lparr> cf_rest = [], cf_eof = True \<rparr>, last_buf r b,
         fill_pages up flags (r_start r) (rec_again r ps) pm)"
proof (cases "r_valid r")
  case True
  have "last (r_pages r) \<in> set (r_pages r)" using rec_ok_pages_nonempty [OF assms(1) True] by simp
  then have "length (snd (last (r_pages r))) = PAGE_SIZE" using assms(1) True by (auto simp: rec_ok_def)
  then show ?thesis using True assms
    by (simp add: last_buf_def rec_again_def mc_pages_at_end rec_ok_def)
next
  case False
  then show ?thesis using assms
    by (simp add: rec_again_def last_buf_def mc_pages_invalid rec_ok_def)
qed

lemma fst_rec_fill: "rec_ok r \<Longrightarrow> length ps = r_nents r \<Longrightarrow> map fst (rec_fill r ps) = ps"
  by (simp add: rec_fill_def rec_ok_def o_def)

lemma fst_rec_again [simp]: "map fst (rec_again r ps) = ps"
  by (simp add: rec_again_def o_def)

lemma rec_fill_lengths:
  assumes "rec_ok r" and "length ps = r_nents r"
  shows "length (rec_fill r ps) = r_nents r"
    and "\<forall>x \<in> set (rec_fill r ps). \<forall>bs. snd x = Some bs \<longrightarrow> length bs = PAGE_SIZE"
    and "length (rec_again r ps) = r_nents r"
    and "\<forall>x \<in> set (rec_again r ps). \<forall>bs. snd x = Some bs \<longrightarrow> length bs = PAGE_SIZE"
proof -
  show "length (rec_fill r ps) = r_nents r" "length (rec_again r ps) = r_nents r"
    using assms by (auto simp: rec_fill_def rec_again_def rec_ok_def)
  show "\<forall>x \<in> set (rec_fill r ps). \<forall>bs. snd x = Some bs \<longrightarrow> length bs = PAGE_SIZE"
    using assms by (auto simp: rec_fill_def rec_ok_def dest!: set_zip_rightD)
  have "length (snd (last (r_pages r))) = PAGE_SIZE" if "r_valid r"
    using assms(1) that rec_ok_pages_nonempty [OF assms(1) that] by (auto simp: rec_ok_def)
  then show "\<forall>x \<in> set (rec_again r ps). \<forall>bs. snd x = Some bs \<longrightarrow> length bs = PAGE_SIZE"
    by (auto simp: rec_again_def split: if_splits)
qed

section \<open>One round\<close>

definition add_region :: "replay_context \<Rightarrow> mc_rec \<Rightarrow> u64 list \<Rightarrow> replay_context" where
  "add_region rctx r ps = rctx\<lparr> gm_region := gm_region rctx @ [region_of r ps],
     tot_nr_pages := tot_nr_pages rctx + ucast (of_nat (r_nents r) :: u64) \<rparr>"

lemma add_region_simps [simp]:
  "gm_region (add_region rctx r ps) = gm_region rctx @ [region_of r ps]"
  "user_pgt (add_region rctx r ps) = user_pgt rctx"
  "nr_regions (add_region rctx r ps) = Suc (nr_regions rctx)"
  by (simp_all add: add_region_def nr_regions_def)

text \<open>The page numbers of a region, in the 36 bits that count.\<close>

definition region_vpns :: "mc_rec \<Rightarrow> u64 set" where
  "region_vpns r = (\<lambda>i. take_bit 36 (vpn (r_start r) i)) ` {..<r_nents r}"

text \<open>The entries and contents of a region, and that they stay.\<close>

definition region_filled :: "user_pgtable \<Rightarrow> mc_rec \<Rightarrow> (u64 \<times> u8 list option) list \<Rightarrow> pmem \<Rightarrow> bool" where
  "region_filled up r xs pm \<longleftrightarrow> length xs = r_nents r \<and> filled up (ucast (r_flags r)) (r_start r) xs pm"

lemma region_filled_keep:
  assumes "region_filled up r xs pm"
    and "\<And>q. q \<in> set (map fst xs) \<Longrightarrow> frames pm' q = frames pm q"
    and "\<And>w. take_bit 36 w \<in> region_vpns r \<Longrightarrow> pte_of up pm' w = pte_of up pm w"
  shows "region_filled up r xs pm'"
proof -
  have "frames pm' (fst (xs ! i)) = frames pm (fst (xs ! i))" if "i < length xs" for i
    by (rule assms(2)) (use that in simp)
  moreover have "pte_of up pm' (vpn (r_start r) i) = pte_of up pm (vpn (r_start r) i)" if "i < length xs" for i
    by (rule assms(3)) (use that assms(1) in \<open>auto simp: region_vpns_def region_filled_def\<close>)
  ultimately show ?thesis using assms(1) by (simp add: region_filled_def filled_def)
qed

context pages_source
begin

text \<open>
  A region that the loop over the pages fills with \<open>X ps\<close>, when \<open>ps\<close> are the new pages: it is
  entered with fresh pages, and nothing else changes.
\<close>

definition fresh_region ::
  "user_pgtable \<Rightarrow> 's \<Rightarrow> pmem \<Rightarrow> mc_rec \<Rightarrow> u64 list \<Rightarrow> 's \<Rightarrow> pmem \<Rightarrow> bool" where
  "fresh_region up s pm r ps s' pm' \<longleftrightarrow>
     length ps = r_nents r \<and> distinct ps \<and> set ps \<inter> owned s = {} \<and> owned s' = set ps \<union> owned s \<and>
     (\<forall>p \<in> set ps. valid_pa p) \<and> mappable pm' = mappable pm \<and>
     src_ok s' (mappable pm') \<and> avail s \<le> avail s' + r_nents r \<and> tree_ok up pm' \<and>
     (\<forall>q. q \<notin> set ps \<union> upages 3 up \<longrightarrow> frames pm' q = frames pm q) \<and>
     (\<forall>w. take_bit 36 w \<notin> region_vpns r \<longrightarrow> pte_of up pm' w = pte_of up pm w)"

lemma mc_region_step:
  assumes "src_ok s (mappable pm)" and "tree_ok (user_pgt rctx) pm"
    and "upages 3 (user_pgt rctx) \<subseteq> owned s" and "rec_ok r"
    and "walkable (user_pgt rctx) (r_start r) (r_nents r)" and "r_nents r \<le> avail s"
    and "nr_regions rctx < NR_VA_REGION"
    and pages: "\<And>ps pm1. length ps = r_nents r \<Longrightarrow> \<forall>p \<in> set ps. valid_pa p \<and> mappable pm1 p \<Longrightarrow>
      mc_pages (user_pgt rctx) (r_valid r) (ucast (r_flags r)) (r_end r) (r_start r) ps f buf pm1 =
      Inr (f', buf', fill_pages (user_pgt rctx) (ucast (r_flags r)) (r_start r) (X ps) pm1)"
    and X: "\<And>ps. length ps = r_nents r \<Longrightarrow> map fst (X ps) = ps \<and>
      (\<forall>x \<in> set (X ps). \<forall>bs. snd x = Some bs \<longrightarrow> length bs = PAGE_SIZE)"
  obtains ps s' pm' where
    "mc_region alloc_pages get_pages rctx (r_start r) (r_end r) (of_nat (r_nents r)) (r_flags r)
       (if r_valid r then 1 else 0) buf f s pm = Inr (add_region rctx r ps, buf', f', s', pm')"
    and "fresh_region (user_pgt rctx) s pm r ps s' pm'"
    and "region_filled (user_pgt rctx) r (X ps) pm'"
proof -
  let ?up = "user_pgt rctx" and ?fl = "ucast (r_flags r) :: u64"
  from alloc_get_pages [OF assms(1,6)] obtain s1 pm1 ps s' where
    a: "alloc_pages (r_nents r) s pm = Inr (s1, pm1)" "get_pages (r_nents r) s1 = Inr (ps, s')"
    and ps: "length ps = r_nents r" "distinct ps" "set ps \<inter> owned s = {}"
      "\<forall>p \<in> set ps. valid_pa p \<and> mappable pm p" "owned s' = set ps \<union> owned s"
    and s': "src_ok s' (mappable pm)" "avail s \<le> avail s' + r_nents r"
    and pm1: "mappable pm1 = mappable pm" "\<forall>q. q \<notin> set ps \<longrightarrow> frames pm1 q = frames pm q" by blast
  have out: "q \<notin> set ps" if "q \<in> upages 3 ?up" for q using that assms(3) ps(3) by blast
  have t1: "tree_ok ?up pm1" "\<And>w. pte_of ?up pm1 w = pte_of ?up pm w"
    using tree_other_page [OF assms(2), of pm1] out pm1 by blast+
  have xs: "map fst (X ps) = ps" "\<forall>x \<in> set (X ps). \<forall>bs. snd x = Some bs \<longrightarrow> length bs = PAGE_SIZE"
    using X ps(1) by blast+
  then have len: "length (X ps) = r_nents r" using ps(1) by (metis length_map)
  define pm' where "pm' = fill_pages ?up ?fl (r_start r) (X ps) pm1"
  have w: "walkable ?up (r_start r) (length (X ps))" using assms(5) len by simp
  have b: "unat (r_start r) + PAGE_SIZE * length (X ps) \<le> 2 ^ 48" using assms(4) len by (simp add: rec_ok_def)
  have d: "set (map fst (X ps)) \<inter> upages 3 ?up = {}" using out xs(1) by auto
  have dd: "distinct (map fst (X ps))" using xs(1) ps(2) by simp
  note fp = fill_pages_ok [OF t1(1) w b dd d xs(2), of ?fl, folded pm'_def, unfolded xs(1)]
  have "fresh_region ?up s pm r ps s' pm'"
    using fp ps s' pm1 t1(2) len by (auto simp: fresh_region_def region_vpns_def)
  moreover have "region_filled ?up r (X ps) pm'" using fp len by (simp add: region_filled_def)
  moreover have "mc_region alloc_pages get_pages rctx (r_start r) (r_end r) (of_nat (r_nents r)) (r_flags r)
       (if r_valid r then 1 else 0) buf f s pm = Inr (add_region rctx r ps, buf', f', s', pm')"
    using pages [of ps pm1] ps(1,4) pm1(1) assms(7) rec_ok_nents [OF assms(4)] a
    by (cases "r_valid r") (simp_all add: mc_region_def pm'_def add_region_def region_of_def)
  ultimately show thesis using that by blast
qed

lemma mc_round_record:
  assumes "src_ok s (mappable pm)" and "tree_ok (user_pgt rctx) pm"
    and "upages 3 (user_pgt rctx) \<subseteq> owned s" and "rec_ok r"
    and "walkable (user_pgt rctx) (r_start r) (r_nents r)" and "r_nents r \<le> avail s"
    and "nr_regions rctx < NR_VA_REGION"
  obtains ps s' pm' where
    "mc_round alloc_pages get_pages rctx vs \<lparr> cf_rest = mc_bytes r @ g, cf_eof = e \<rparr> s pm =
       Inr (add_region rctx r ps, vars_of r (last_buf r (mc_buf vs)), \<lparr> cf_rest = g, cf_eof = e \<rparr>, s', pm')"
    and "fresh_region (user_pgt rctx) s pm r ps s' pm'"
    and "region_filled (user_pgt rctx) r (rec_fill r ps) pm'"
proof (rule mc_region_step [OF assms, where X = "rec_fill r" and buf = "mc_buf vs"])
  show "mc_pages (user_pgt rctx) (r_valid r) (ucast (r_flags r)) (r_end r) (r_start r) ps
      \<lparr> cf_rest = rec_body r @ g, cf_eof = e \<rparr> (mc_buf vs) pm1 =
    Inr (\<lparr> cf_rest = g, cf_eof = e \<rparr>, last_buf r (mc_buf vs),
      fill_pages (user_pgt rctx) (ucast (r_flags r)) (r_start r) (rec_fill r ps) pm1)"
    if "length ps = r_nents r" "\<forall>p \<in> set ps. valid_pa p \<and> mappable pm1 p" for ps pm1
    by (rule mc_pages_rec [OF assms(4,5) that])
  show "map fst (rec_fill r ps) = ps \<and>
      (\<forall>x \<in> set (rec_fill r ps). \<forall>bs. snd x = Some bs \<longrightarrow> length bs = PAGE_SIZE)"
    if "length ps = r_nents r" for ps
    using fst_rec_fill [OF assms(4) that] rec_fill_lengths(2) [OF assms(4) that] by blast
qed (rule that, simp_all add: mc_round_def mc_header_rec, simp_all add: vars_of_def)

lemma mc_round_end:
  assumes "src_ok s (mappable pm)" and "tree_ok (user_pgt rctx) pm"
    and "upages 3 (user_pgt rctx) \<subseteq> owned s" and "rec_ok r"
    and "walkable (user_pgt rctx) (r_start r) (r_nents r)" and "r_nents r \<le> avail s"
    and "nr_regions rctx < NR_VA_REGION"
  obtains ps s' pm' where
    "mc_round alloc_pages get_pages rctx (vars_of r (last_buf r b)) \<lparr> cf_rest = [], cf_eof = False \<rparr> s pm =
       Inr (add_region rctx r ps, vars_of r (last_buf r b), \<lparr> cf_rest = [], cf_eof = True \<rparr>, s', pm')"
    and "fresh_region (user_pgt rctx) s pm r ps s' pm'"
    and "region_filled (user_pgt rctx) r (rec_again r ps) pm'"
proof (rule mc_region_step [OF assms, where X = "rec_again r" and buf = "last_buf r b"])
  show "mc_pages (user_pgt rctx) (r_valid r) (ucast (r_flags r)) (r_end r) (r_start r) ps
      \<lparr> cf_rest = [], cf_eof = True \<rparr> (last_buf r b) pm1 =
    Inr (\<lparr> cf_rest = [], cf_eof = True \<rparr>, last_buf r b,
      fill_pages (user_pgt rctx) (ucast (r_flags r)) (r_start r) (rec_again r ps) pm1)"
    if "length ps = r_nents r" "\<forall>p \<in> set ps. valid_pa p \<and> mappable pm1 p" for ps pm1
    by (rule mc_pages_again [OF assms(4,5) that])
  show "map fst (rec_again r ps) = ps \<and>
      (\<forall>x \<in> set (rec_again r ps). \<forall>bs. snd x = Some bs \<longrightarrow> length bs = PAGE_SIZE)"
    if "length ps = r_nents r" for ps
    using rec_fill_lengths(4) [OF assms(4) that] by simp
qed (rule that, simp_all add: mc_round_def mc_header_end, simp_all add: vars_of_def)

end

section \<open>The whole file\<close>

text \<open>Regions with different page numbers.\<close>

primrec regions_apart :: "mc_rec list \<Rightarrow> bool" where
  "regions_apart [] \<longleftrightarrow> True"
| "regions_apart (r # rs) \<longleftrightarrow> (\<forall>x \<in> set rs. region_vpns r \<inter> region_vpns x = {}) \<and> regions_apart rs"

text \<open>
  What the function makes of the regions \<open>rs\<close>, when round \<open>k\<close> got the pages \<open>pss ! k\<close> and the
  extra round the pages \<open>again\<close>: all regions but the last have their contents, the last has
  the pages of the extra round.
\<close>

definition loaded ::
  "user_pgtable \<Rightarrow> mc_rec list \<Rightarrow> u64 list list \<Rightarrow> u64 list \<Rightarrow> pmem \<Rightarrow> bool" where
  "loaded up rs pss again pm \<longleftrightarrow> length pss = length rs \<and>
     (\<forall>k < length rs. length (pss ! k) = r_nents (rs ! k)) \<and>
     (\<forall>k < length rs - 1. region_filled up (rs ! k) (rec_fill (rs ! k) (pss ! k)) pm) \<and>
     region_filled up (last rs) (rec_again (last rs) again) pm"

lemma loaded_Cons:
  "rs \<noteq> [] \<Longrightarrow> loaded up (r # rs) (ps # pss) again pm \<longleftrightarrow>
     length ps = r_nents r \<and> region_filled up r (rec_fill r ps) pm \<and> loaded up rs pss again pm"
proof -
  assume "rs \<noteq> []"
  then have "length (r # rs) - 1 = Suc (length rs - 1)" "last (r # rs) = last rs" by (cases rs; simp)+
  then show ?thesis by (simp only: loaded_def list.size All_less_Suc2 add_Suc_right add_0_right nth_Cons_0
        nth_Cons_Suc nat.inject) auto
qed

context pages_source
begin

lemma mc_loop_records:
  assumes "rs \<noteq> []" and "src_ok s (mappable pm)" and "tree_ok (user_pgt rctx) pm"
    and "upages 3 (user_pgt rctx) \<subseteq> owned s"
    and "\<forall>r \<in> set rs. rec_ok r \<and> walkable (user_pgt rctx) (r_start r) (r_nents r)"
    and "regions_apart rs" and "sum_list (map r_nents rs) + r_nents (last rs) \<le> avail s"
    and "nr_regions rctx + length rs < NR_VA_REGION"
  shows "\<exists>pss again rctx' s' pm'.
    mc_loop alloc_pages get_pages rctx vs \<lparr> cf_rest = concat (map mc_bytes rs), cf_eof = False \<rparr> s pm =
      Inr (rctx', s', pm') \<and> user_pgt rctx' = user_pgt rctx \<and>
    gm_region rctx' = gm_region rctx @ map2 region_of rs pss @ [region_of (last rs) again] \<and>
    distinct (concat pss @ again) \<and> set (concat pss @ again) \<inter> owned s = {} \<and>
    owned s' = set (concat pss @ again) \<union> owned s \<and> src_ok s' (mappable pm') \<and>
    (\<forall>p \<in> set (concat pss @ again). valid_pa p) \<and> mappable pm' = mappable pm \<and>
    tree_ok (user_pgt rctx) pm' \<and> loaded (user_pgt rctx) rs pss again pm' \<and>
    (\<forall>q. q \<notin> set (concat pss @ again) \<union> upages 3 (user_pgt rctx) \<longrightarrow> frames pm' q = frames pm q) \<and>
    (\<forall>w. (\<forall>r \<in> set rs. take_bit 36 w \<notin> region_vpns r) \<longrightarrow>
       pte_of (user_pgt rctx) pm' w = pte_of (user_pgt rctx) pm w)"
  using assms
proof (induction rs arbitrary: rctx vs s pm)
  case Nil
  then show ?case by simp
next
  case (Cons r rs)
  let ?up = "user_pgt rctx" and ?g = "concat (map mc_bytes rs)"
  have r: "rec_ok r" "walkable ?up (r_start r) (r_nents r)" "r_nents r \<le> avail s" "nr_regions rctx < NR_VA_REGION"
    using Cons.prems(5,7,8) by simp_all
  obtain ps s1 pm1 where
    round: "mc_round alloc_pages get_pages rctx vs \<lparr> cf_rest = mc_bytes r @ ?g, cf_eof = False \<rparr> s pm =
      Inr (add_region rctx r ps, vars_of r (last_buf r (mc_buf vs)), \<lparr> cf_rest = ?g, cf_eof = False \<rparr>, s1, pm1)"
    and fr: "fresh_region ?up s pm r ps s1 pm1" and fl: "region_filled ?up r (rec_fill r ps) pm1"
    by (rule mc_round_record [OF Cons.prems(2,3,4) r(1,2,3,4)])
  have step: "mc_loop alloc_pages get_pages rctx vs \<lparr> cf_rest = concat (map mc_bytes (r # rs)), cf_eof = False \<rparr> s pm =
      mc_loop alloc_pages get_pages (add_region rctx r ps) (vars_of r (last_buf r (mc_buf vs)))
        \<lparr> cf_rest = ?g, cf_eof = False \<rparr> s1 pm1"
    using round by (subst mc_loop.simps) simp
  have fr': "length ps = r_nents r" "distinct ps" "set ps \<inter> owned s = {}" "owned s1 = set ps \<union> owned s"
    "src_ok s1 (mappable pm1)" "avail s \<le> avail s1 + r_nents r" "tree_ok ?up pm1"
    "\<forall>q. q \<notin> set ps \<union> upages 3 ?up \<longrightarrow> frames pm1 q = frames pm q"
    "\<forall>w. take_bit 36 w \<notin> region_vpns r \<longrightarrow> pte_of ?up pm1 w = pte_of ?up pm w"
    "\<forall>p \<in> set ps. valid_pa p" "mappable pm1 = mappable pm"
    using fr by (auto simp only: fresh_region_def)
  have up1: "upages 3 ?up \<subseteq> owned s1" using Cons.prems(4) fr'(4) by blast
  show ?case
  proof (cases "rs = []")
    case True
    let ?r1 = "add_region rctx r ps"
    have "r_nents r \<le> avail s1" "nr_regions ?r1 < NR_VA_REGION"
      using Cons.prems(7,8) True fr'(6) by simp_all
    then obtain ag s' pm' where
      round2: "mc_round alloc_pages get_pages ?r1 (vars_of r (last_buf r (mc_buf vs)))
          \<lparr> cf_rest = [], cf_eof = False \<rparr> s1 pm1 =
        Inr (add_region ?r1 r ag, vars_of r (last_buf r (mc_buf vs)), \<lparr> cf_rest = [], cf_eof = True \<rparr>, s', pm')"
      and fr2: "fresh_region ?up s1 pm1 r ag s' pm'" and fl2: "region_filled ?up r (rec_again r ag) pm'"
      using mc_round_end [of s1 pm1 ?r1 r "mc_buf vs"] fr'(5,7) up1 r(1,2) by auto
    have "mc_loop alloc_pages get_pages rctx vs \<lparr> cf_rest = concat (map mc_bytes (r # rs)), cf_eof = False \<rparr> s pm =
        Inr (add_region ?r1 r ag, s', pm')"
      unfolding step using round2 True by (subst mc_loop.simps) (simp add: mc_loop.simps)
    moreover have "loaded ?up (r # rs) [ps] ag pm'" using True fl2 fr'(1) by (simp add: loaded_def)
    moreover have "distinct (concat [ps] @ ag)" "set (concat [ps] @ ag) \<inter> owned s = {}"
      "owned s' = set (concat [ps] @ ag) \<union> owned s" "src_ok s' (mappable pm')" "tree_ok ?up pm'"
      "\<forall>q. q \<notin> set (concat [ps] @ ag) \<union> upages 3 ?up \<longrightarrow> frames pm' q = frames pm q"
      "\<forall>w. (\<forall>x \<in> set (r # rs). take_bit 36 w \<notin> region_vpns x) \<longrightarrow> pte_of ?up pm' w = pte_of ?up pm w"
      "\<forall>p \<in> set (concat [ps] @ ag). valid_pa p" "mappable pm' = mappable pm"
      using fr' fr2 by (auto simp: fresh_region_def)
    ultimately show ?thesis using True
      by (intro exI [of _ "[ps]"] exI [of _ ag] exI [of _ "add_region ?r1 r ag"] exI [of _ s'] exI [of _ pm'])
        simp
  next
    case False
    let ?r1 = "add_region rctx r ps"
    have "sum_list (map r_nents rs) + r_nents (last rs) \<le> avail s1" "nr_regions ?r1 + length rs < NR_VA_REGION"
      using Cons.prems(7,8) False fr'(6) by simp_all
    moreover have "regions_apart rs" "\<forall>r \<in> set rs. rec_ok r \<and> walkable ?up (r_start r) (r_nents r)"
      using Cons.prems(5,6) by simp_all
    ultimately have "sum_list (map r_nents rs) + r_nents (last rs) \<le> avail s1"
      "nr_regions ?r1 + length rs < NR_VA_REGION" "regions_apart rs"
      "\<forall>r \<in> set rs. rec_ok r \<and> walkable ?up (r_start r) (r_nents r)" by simp_all
    note IH = Cons.IH [OF False fr'(5), of ?r1, unfolded add_region_simps(2), OF fr'(7) up1 this(4,3,1,2)]
    obtain pss ag rctx' s' pm' where
      l: "mc_loop alloc_pages get_pages ?r1 (vars_of r (last_buf r (mc_buf vs))) \<lparr> cf_rest = ?g, cf_eof = False \<rparr> s1 pm1 =
        Inr (rctx', s', pm')" "user_pgt rctx' = ?up"
      "gm_region rctx' = gm_region ?r1 @ map2 region_of rs pss @ [region_of (last rs) ag]"
      and p: "distinct (concat pss @ ag)" "set (concat pss @ ag) \<inter> owned s1 = {}"
        "owned s' = set (concat pss @ ag) \<union> owned s1" "src_ok s' (mappable pm')" "tree_ok ?up pm'"
      and ld: "loaded ?up rs pss ag pm'"
      and k: "\<forall>q. q \<notin> set (concat pss @ ag) \<union> upages 3 ?up \<longrightarrow> frames pm' q = frames pm1 q"
        "\<forall>w. (\<forall>r \<in> set rs. take_bit 36 w \<notin> region_vpns r) \<longrightarrow> pte_of ?up pm' w = pte_of ?up pm1 w"
      and v: "\<forall>p \<in> set (concat pss @ ag). valid_pa p" "mappable pm' = mappable pm1"
      using IH [of "vars_of r (last_buf r (mc_buf vs))"] by (elim exE conjE) (rule that)
    have "region_filled ?up r (rec_fill r ps) pm'"
    proof (rule region_filled_keep [OF fl])
      fix q assume "q \<in> set (map fst (rec_fill r ps))"
      then have "q \<in> set ps" using fst_rec_fill [OF r(1) fr'(1)] by simp
      then show "frames pm' q = frames pm1 q"
        using k(1) p(2) fr'(3,4) Cons.prems(4) by blast
    next
      fix w assume "take_bit 36 w \<in> region_vpns r"
      then show "pte_of ?up pm' w = pte_of ?up pm1 w"
        using k(2) Cons.prems(6) by auto
    qed
    then have "loaded ?up (r # rs) (ps # pss) ag pm'" using ld False fr'(1) by (simp add: loaded_Cons)
    moreover have "distinct (concat (ps # pss) @ ag)" "set (concat (ps # pss) @ ag) \<inter> owned s = {}"
      "owned s' = set (concat (ps # pss) @ ag) \<union> owned s"
      "\<forall>q. q \<notin> set (concat (ps # pss) @ ag) \<union> upages 3 ?up \<longrightarrow> frames pm' q = frames pm q"
      "\<forall>w. (\<forall>x \<in> set (r # rs). take_bit 36 w \<notin> region_vpns x) \<longrightarrow> pte_of ?up pm' w = pte_of ?up pm w"
      "\<forall>p \<in> set (concat (ps # pss) @ ag). valid_pa p" "mappable pm' = mappable pm"
      using fr' p k v by auto
    ultimately show ?thesis using False p(4,5) l unfolding step
      by (intro exI [of _ "ps # pss"] exI [of _ ag] exI [of _ rctx'] exI [of _ s'] exI [of _ pm'])
        simp
  qed
qed

end

end
