(* ===== verification/GR_MemCheck.thy ===== *)
theory GR_MemCheck
  imports GR_MemContents
begin

text \<open>
  Checking the memory contents before another run (\<open>gr_mem_contents_check\<close> of
  \<open>replayer/gr_utils.c\<close>): the recorded contents are read again and compared with the pages of the
  regions; from the first page of a region that differs on, its pages are written again. Its
  loop has the extra round of \<open>gr_mem_contents_init\<close>, for which there is an extra region.
\<close>

unbundle bit_operations_syntax

section \<open>Model\<close>








section \<open>Pages with their contents\<close>

definition holds :: "pmem \<Rightarrow> (u64 \<times> u8 list option) list \<Rightarrow> bool" where
  "holds pm xs \<longleftrightarrow> (\<forall>x \<in> set xs. \<forall>bs. snd x = Some bs \<longrightarrow> frame_get (frames pm (fst x)) 0 PAGE_SIZE = bs)"

lemma holds_simps [simp]:
  "holds pm []"
  "holds pm ((p, c) # xs) \<longleftrightarrow> (\<forall>bs. c = Some bs \<longrightarrow> frame_get (frames pm p) 0 PAGE_SIZE = bs) \<and> holds pm xs"
  by (simp_all add: holds_def)

lemma holds_append [simp]: "holds pm (xs @ ys) \<longleftrightarrow> holds pm xs \<and> holds pm ys"
  by (induction xs) (auto simp: holds_def)







section \<open>The whole file\<close>











section \<open>Properties\<close>





end
