(* ===== verification/GR_KList.thy ===== *)
theory GR_KList
  imports GR_Prelude
begin

text \<open>
  The doubly linked lists of the kernel module's page pool. \<open>struct list_head\<close> nodes are
  embedded in the pool (the list heads) and in \<open>struct page\<close> (the field \<open>lru\<close>); a page is named
  by its physical address. The links are an explicit store, because a page whose node is added
  to a second list without being taken off the first leaves both lists inconsistent.
\<close>

datatype lnode = Page_List | Used_List | Free_List | Pg u64

record links =
  nx :: "lnode \<Rightarrow> lnode"
  pv :: "lnode \<Rightarrow> lnode"

definition INIT_LIST_HEAD :: "links \<Rightarrow> lnode \<Rightarrow> links" where
  "INIT_LIST_HEAD l h = l\<lparr> nx := (nx l)(h := h), pv := (pv l)(h := h) \<rparr>"

definition list_add :: "links \<Rightarrow> lnode \<Rightarrow> lnode \<Rightarrow> links" where
  "list_add l x h =
     (let next = nx l h;
          l1 = l\<lparr> pv := (pv l)(next := x) \<rparr>;
          l2 = l1\<lparr> nx := (nx l1)(x := next), pv := (pv l1)(x := h) \<rparr>
      in l2\<lparr> nx := (nx l2)(h := x) \<rparr>)"

definition list_del_init :: "links \<Rightarrow> lnode \<Rightarrow> links" where
  "list_del_init l x =
     (let l1 = l\<lparr> pv := (pv l)(nx l x := pv l x) \<rparr>;
          l2 = l1\<lparr> nx := (nx l1)(pv l x := nx l x) \<rparr>
      in INIT_LIST_HEAD l2 x)"

section \<open>Lists that the links represent\<close>

primrec path :: "links \<Rightarrow> lnode \<Rightarrow> lnode list \<Rightarrow> lnode \<Rightarrow> bool" where
  "path l a [] z \<longleftrightarrow> nx l a = z \<and> pv l z = a"
| "path l a (x # xs) z \<longleftrightarrow> nx l a = x \<and> pv l x = a \<and> path l x xs z"

definition rep :: "links \<Rightarrow> lnode \<Rightarrow> lnode list \<Rightarrow> bool" where
  "rep l h xs \<longleftrightarrow> path l h xs h \<and> distinct (h # xs)"

lemma path_cong:
  "path l a xs z \<Longrightarrow> (\<And>y. y \<in> set (a # xs) \<Longrightarrow> nx l' y = nx l y) \<Longrightarrow>
   (\<And>y. y \<in> set (xs @ [z]) \<Longrightarrow> pv l' y = pv l y) \<Longrightarrow> path l' a xs z"
  by (induction xs arbitrary: a) simp_all

lemma rep_cong:
  assumes "rep l h xs" and "\<And>y. y \<in> set (h # xs) \<Longrightarrow> nx l' y = nx l y \<and> pv l' y = pv l y"
  shows "rep l' h xs"
  using assms by (auto simp: rep_def intro: path_cong)

lemma rep_next: "rep l h xs \<Longrightarrow> nx l h = (case xs of [] \<Rightarrow> h | x # _ \<Rightarrow> x)"
  by (cases xs) (simp_all add: rep_def)

lemma rep_init: "rep (INIT_LIST_HEAD l h) h []"
  by (simp add: rep_def INIT_LIST_HEAD_def)

lemma rep_list_add:
  assumes "rep l h xs" and "x \<notin> set (h # xs)"
  shows "rep (list_add l x h) h (x # xs)"
proof -
  have "path (list_add l x h) x xs h"
  proof (cases xs)
    case Nil
    then show ?thesis using assms by (auto simp: rep_def list_add_def Let_def)
  next
    case (Cons y ys)
    have "path (list_add l x h) y ys h"
      by (rule path_cong [where l = l])
        (use assms Cons in \<open>auto simp: rep_def list_add_def Let_def\<close>)
    then show ?thesis using assms Cons by (auto simp: rep_def list_add_def Let_def)
  qed
  then show ?thesis using assms by (auto simp: rep_def list_add_def Let_def)
qed

lemma rep_list_add_other:
  assumes "rep l h' ys" and "rep l h xs" and "x \<notin> set (h' # ys)"
    and "set (h # xs) \<inter> set (h' # ys) = {}"
  shows "rep (list_add l x h) h' ys"
proof (rule rep_cong [OF assms(1)])
  fix y assume y: "y \<in> set (h' # ys)"
  have "nx l h \<in> set (h # xs)" using rep_next [OF assms(2)] by (cases xs) auto
  then have "y \<noteq> nx l h" "y \<noteq> x" "y \<noteq> h" using y assms(3,4) by auto
  then show "nx (list_add l x h) y = nx l y \<and> pv (list_add l x h) y = pv l y"
    by (simp add: list_add_def Let_def)
qed

lemma rep_del_first:
  assumes "rep l h (x # xs)"
  shows "rep (list_del_init l x) h xs"
proof (cases xs)
  case Nil
  then show ?thesis
    using assms by (auto simp: rep_def list_del_init_def INIT_LIST_HEAD_def Let_def)
next
  case (Cons y ys)
  have "path (list_del_init l x) y ys h"
    by (rule path_cong [where l = l])
      (use assms Cons in \<open>auto simp: rep_def list_del_init_def INIT_LIST_HEAD_def Let_def\<close>)
  then show ?thesis using assms Cons
    by (auto simp: rep_def list_del_init_def INIT_LIST_HEAD_def Let_def)
qed

lemma rep_del_first_other:
  assumes "rep l h' ys" and "rep l h (x # xs)" and "set (h # x # xs) \<inter> set (h' # ys) = {}"
  shows "rep (list_del_init l x) h' ys"
proof (rule rep_cong [OF assms(1)])
  fix y assume y: "y \<in> set (h' # ys)"
  have "nx l x \<in> set (h # x # xs)" "pv l x = h"
    using assms(2) by (cases xs; simp add: rep_def)+
  then have "y \<noteq> nx l x" "y \<noteq> pv l x" "y \<noteq> x" using y assms(3) by auto
  then show "nx (list_del_init l x) y = nx l y \<and> pv (list_del_init l x) y = pv l y"
    by (simp add: list_del_init_def INIT_LIST_HEAD_def Let_def)
qed

text \<open>A deleted node is linked to itself, and deleting it again changes nothing.\<close>

definition self_linked :: "links \<Rightarrow> lnode \<Rightarrow> bool" where
  "self_linked l x \<longleftrightarrow> nx l x = x \<and> pv l x = x"

lemma self_linked_del: "self_linked (list_del_init l x) x"
  by (simp add: self_linked_def list_del_init_def INIT_LIST_HEAD_def Let_def)

lemma list_del_init_self: "self_linked l x \<Longrightarrow> list_del_init l x = l"
  by (simp add: self_linked_def list_del_init_def INIT_LIST_HEAD_def Let_def fun_upd_idem)

end
