(* ===== verification/GR_Mempool.thy ===== *)
theory GR_Mempool
  imports GR_KList GR_MemContents
begin

text \<open>
  The page pool of the kernel module (\<open>replayer/nano_driver/gr_mempool.c\<close>), the pool requests
  of \<open>gr_ioctl\<close> in \<open>gr_main.c\<close>, and the functions of \<open>replayer/gr_manager.c\<close> that issue them.
  The pool is the page source of the page table construction: the interpretations discharge
  the laws of \<open>page_source\<close> and of \<open>pages_source\<close>, which adds the request for many pages.
\<close>

unbundle bit_operations_syntax

section \<open>State\<close>

text \<open>
  The kernel behind the module. \<open>alloc_script\<close> are the results that the next calls of
  \<open>alloc_pages\<close> will have (a page, or \<open>None\<close> for NULL; NULL when it is used up), \<open>dma_script\<close>
  tells for the next calls of \<open>dma_map_page\<close> whether the mapping fails. \<open>freed\<close> are the pages
  that were given back; freeing a page twice is an invalid access.
\<close>

record kernel_pages =
  alloc_script :: "u64 option list"
  dma_script :: "bool list"
  freed :: "u64 list"

record gr_mempool =
  mp_order :: nat
  cur_size :: nat
  tot_size :: nat
  mp_links :: links

text \<open>The global \<open>pool\<close>: \<open>None\<close> before it is set and after it was freed.\<close>

record mempool_state =
  pool :: "gr_mempool option"
  kern :: kernel_pages

section \<open>Pool operations\<close>

definition gr_mempool_is_empty :: "gr_mempool \<Rightarrow> bool" where
  "gr_mempool_is_empty p \<longleftrightarrow> cur_size p = 0"

definition gr_mempool_add :: "gr_mempool \<Rightarrow> u64 \<Rightarrow> gr_mempool" where
  "gr_mempool_add p pg =
     p\<lparr> mp_links := list_add (mp_links p) (Pg pg) Page_List,
        cur_size := cur_size p + 1, tot_size := tot_size p + 1 \<rparr>"

text \<open>
  \<open>alloc_pages\<close> with \<open>__GFP_ZERO\<close> clears the \<open>2 ^ order\<close> frames of the page.
\<close>

definition zero_frames :: "pmem \<Rightarrow> u64 \<Rightarrow> nat \<Rightarrow> pmem" where
  "zero_frames pm pg order =
     pm\<lparr>frames := fold (\<lambda>i f. f(pg + of_nat (PAGE_SIZE * i) := (\<lambda>j. 0))) [0..<2 ^ order] (frames pm)\<rparr>"

definition gr_mem_alloc_page ::
  "gr_mempool \<Rightarrow> kernel_pages \<Rightarrow> pmem \<Rightarrow> u64 option \<times> kernel_pages \<times> pmem" where
  "gr_mem_alloc_page p k pm =
     (case alloc_script k of
        Some pg # sc \<Rightarrow> (Some pg, k\<lparr> alloc_script := sc, freed := removeAll pg (freed k) \<rparr>,
                         zero_frames pm pg (mp_order p))
      | None # sc \<Rightarrow> (None, k\<lparr> alloc_script := sc \<rparr>, pm)
      | [] \<Rightarrow> (None, k, pm))"

definition gr_mempool_free_page :: "kernel_pages \<Rightarrow> u64 \<Rightarrow> kernel_pages res" where
  "gr_mempool_free_page k pg =
     (if pg \<in> set (freed k) then Inl Bad_Access else Inr (k\<lparr> freed := pg # freed k \<rparr>))"

text \<open>
  Taking a page off the pool. \<open>list_first_entry\<close> of an empty list gives the list head itself,
  which is no page.
\<close>

definition gr_mempool_remove :: "gr_mempool \<Rightarrow> (u64 option \<times> gr_mempool) res" where
  "gr_mempool_remove p =
     (if gr_mempool_is_empty p then Inr (None, p)
      else case nx (mp_links p) Page_List of
             Pg pg \<Rightarrow>
               (let l = list_del_init (mp_links p) (Pg pg)
                in Inr (Some pg, p\<lparr> mp_links := list_add l (Pg pg) Used_List,
                                    cur_size := cur_size p - 1 \<rparr>))
           | _ \<Rightarrow> Inl Bad_Access)"

definition gr_mempool_alloc :: "gr_mempool \<Rightarrow> (u64 option \<times> gr_mempool) res" where
  "gr_mempool_alloc p = gr_mempool_remove p"

text \<open>
  Growing: the page is mapped for DMA before the check that there is one, so a failed
  allocation is an invalid access and the \<open>-ENOMEM\<close> after it is never returned.
\<close>

fun gr_mempool_grow ::
  "gr_mempool \<Rightarrow> nat \<Rightarrow> kernel_pages \<Rightarrow> pmem \<Rightarrow> (int \<times> gr_mempool \<times> kernel_pages \<times> pmem) res" where
  "gr_mempool_grow p 0 k pm = Inr (0, p, k, pm)"
| "gr_mempool_grow p (Suc n) k pm =
     (case gr_mem_alloc_page p k pm of
        (None, k1, pm1) \<Rightarrow> Inl Bad_Access
      | (Some pg, k1, pm1) \<Rightarrow>
          (case dma_script k1 of
             True # ds \<Rightarrow> bindR (gr_mempool_free_page (k1\<lparr> dma_script := ds \<rparr>) pg)
                            (\<lambda>k2. Inr (-1, p, k2, pm1))
           | False # ds \<Rightarrow> gr_mempool_grow (gr_mempool_add p pg) n (k1\<lparr> dma_script := ds \<rparr>) pm1
           | [] \<Rightarrow> gr_mempool_grow (gr_mempool_add p pg) n k1 pm1))"

text \<open>
  \<open>kmalloc\<close> of the pool does not clear it, but every field the code reads is set. The links
  of pages are what they are.
\<close>

definition gr_mempool_init :: "nat \<Rightarrow> links \<Rightarrow> gr_mempool" where
  "gr_mempool_init order l =
     \<lparr> mp_order = order, cur_size = 0, tot_size = 0,
       mp_links = INIT_LIST_HEAD (INIT_LIST_HEAD l Page_List) Used_List \<rparr>"

text \<open>
  Termination of the pool: the free pages are taken off and added to a local list, then the
  pages of both lists are freed with \<open>list_for_each_entry_safe\<close>. Taking a page off puts it on
  the used list, from which it is not deleted before it is added to the local list.
\<close>

fun move_free_pages :: "nat \<Rightarrow> gr_mempool \<Rightarrow> gr_mempool res" where
  "move_free_pages 0 p = (if gr_mempool_is_empty p then Inr p else Inl No_Fuel)"
| "move_free_pages (Suc n) p =
     (if gr_mempool_is_empty p then Inr p
      else bindR (gr_mempool_remove p)
             (\<lambda>(x, p'). case x of
                None \<Rightarrow> Inl Bad_Access
              | Some pg \<Rightarrow>
                  move_free_pages n (p'\<lparr> mp_links := list_add (mp_links p') (Pg pg) Free_List \<rparr>)))"

fun free_each :: "nat \<Rightarrow> lnode \<Rightarrow> lnode \<Rightarrow> links \<Rightarrow> kernel_pages \<Rightarrow> (links \<times> kernel_pages) res" where
  "free_each 0 h x l k = Inl No_Fuel"
| "free_each (Suc n) h x l k =
     (if x = h then Inr (l, k)
      else case x of
             Pg pg \<Rightarrow> (let tmp = nx l x
                       in bindR (gr_mempool_free_page k pg)
                            (\<lambda>k'. free_each n h tmp (list_del_init l x) k'))
           | _ \<Rightarrow> Inl Bad_Access)"

definition gr_mempool_term :: "nat \<Rightarrow> gr_mempool \<Rightarrow> kernel_pages \<Rightarrow> kernel_pages res" where
  "gr_mempool_term fuel p k =
     bindR (move_free_pages fuel (p\<lparr> mp_links := INIT_LIST_HEAD (mp_links p) Free_List \<rparr>)) (\<lambda>p1.
     bindR (free_each fuel Free_List (nx (mp_links p1) Free_List) (mp_links p1) k) (\<lambda>(l2, k2).
     bindR (free_each fuel Used_List (nx l2 Used_List) l2 k2) (\<lambda>(l3, k3). Inr k3)))"

section \<open>The requests of the ioctl\<close>

text \<open>
  \<open>GR_MEMPOOL_INIT\<close>, \<open>GR_MEMPOOL_GET_PAGE\<close>, \<open>GR_MEMPOOL_GROW\<close>, \<open>GR_MEMPOOL_GET_PAGES\<close> and
  \<open>GR_MEMPOOL_TERM\<close>. The results of growing are ignored. The physical address of a NULL page
  is meaningless, which is an invalid access here.
\<close>

definition ioctl_mempool_init :: "links \<Rightarrow> mempool_state \<Rightarrow> mempool_state" where
  "ioctl_mempool_init l s = s\<lparr> pool := Some (gr_mempool_init 0 l) \<rparr>"

definition ioctl_get_page :: "mempool_state \<Rightarrow> pmem \<Rightarrow> (u64 \<times> mempool_state \<times> pmem) res" where
  "ioctl_get_page s pm =
     (case pool s of
        None \<Rightarrow> Inl Bad_Access
      | Some p \<Rightarrow>
          bindR (gr_mempool_grow p 1 (kern s) pm) (\<lambda>(ret, p1, k1, pm1).
          bindR (gr_mempool_alloc p1) (\<lambda>(x, p2).
            case x of
              None \<Rightarrow> Inl Bad_Access
            | Some pg \<Rightarrow> Inr (pg, s\<lparr> pool := Some p2, kern := k1 \<rparr>, pm1))))"

definition ioctl_grow :: "nat \<Rightarrow> mempool_state \<Rightarrow> pmem \<Rightarrow> (mempool_state \<times> pmem) res" where
  "ioctl_grow nr_pages s pm =
     (case pool s of
        None \<Rightarrow> Inl Bad_Access
      | Some p \<Rightarrow> bindR (gr_mempool_grow p nr_pages (kern s) pm) (\<lambda>(ret, p1, k1, pm1).
          Inr (s\<lparr> pool := Some p1, kern := k1 \<rparr>, pm1)))"

fun take_pages :: "nat \<Rightarrow> gr_mempool \<Rightarrow> (u64 list \<times> gr_mempool) res" where
  "take_pages 0 p = Inr ([], p)"
| "take_pages (Suc n) p =
     bindR (gr_mempool_alloc p) (\<lambda>(x, p1).
       case x of
         None \<Rightarrow> Inl Bad_Access
       | Some pg \<Rightarrow> bindR (take_pages n p1) (\<lambda>(pgs, p2). Inr (pg # pgs, p2)))"

definition ioctl_get_pages :: "nat \<Rightarrow> mempool_state \<Rightarrow> (u64 list \<times> mempool_state) res" where
  "ioctl_get_pages nr_pages s =
     (case pool s of
        None \<Rightarrow> Inl Bad_Access
      | Some p \<Rightarrow> bindR (take_pages nr_pages p) (\<lambda>(pgs, p1). Inr (pgs, s\<lparr> pool := Some p1 \<rparr>)))"

definition ioctl_mempool_term :: "nat \<Rightarrow> mempool_state \<Rightarrow> mempool_state res" where
  "ioctl_mempool_term fuel s =
     (case pool s of
        None \<Rightarrow> Inl Bad_Access
      | Some p \<Rightarrow> bindR (gr_mempool_term fuel p (kern s)) (\<lambda>k.
          Inr (s\<lparr> pool := None, kern := k \<rparr>)))"

text \<open>The user-space side.\<close>

definition gr_manager_alloc_get_single_page ::
  "mempool_state \<Rightarrow> pmem \<Rightarrow> (u64 \<times> mempool_state \<times> pmem) res" where
  "gr_manager_alloc_get_single_page s pm = ioctl_get_page s pm"

definition gr_manager_alloc_pages ::
  "nat \<Rightarrow> mempool_state \<Rightarrow> pmem \<Rightarrow> (mempool_state \<times> pmem) res" where
  "gr_manager_alloc_pages nr_pages s pm = ioctl_grow nr_pages s pm"

definition gr_manager_get_pages :: "nat \<Rightarrow> mempool_state \<Rightarrow> (u64 list \<times> mempool_state) res" where
  "gr_manager_get_pages nr_pages s = ioctl_get_pages nr_pages s"

section \<open>The pool as two lists\<close>

definition pool_rep :: "gr_mempool \<Rightarrow> u64 list \<Rightarrow> u64 list \<Rightarrow> bool" where
  "pool_rep p free used \<longleftrightarrow>
     rep (mp_links p) Page_List (map Pg free) \<and> rep (mp_links p) Used_List (map Pg used) \<and>
     set free \<inter> set used = {} \<and> cur_size p = length free"

lemma pool_rep_init: "pool_rep (gr_mempool_init order l) [] []"
  by (simp add: pool_rep_def gr_mempool_init_def rep_def INIT_LIST_HEAD_def)

lemma pool_rep_add:
  assumes "pool_rep p free used" and "pg \<notin> set free \<union> set used"
  shows "pool_rep (gr_mempool_add p pg) (pg # free) used"
proof -
  have "rep (list_add (mp_links p) (Pg pg) Page_List) Page_List (Pg pg # map Pg free)"
    by (rule rep_list_add) (use assms in \<open>auto simp: pool_rep_def\<close>)
  moreover have "rep (list_add (mp_links p) (Pg pg) Page_List) Used_List (map Pg used)"
    by (rule rep_list_add_other [where xs = "map Pg free"])
      (use assms in \<open>auto simp: pool_rep_def\<close>)
  ultimately show ?thesis using assms by (auto simp: pool_rep_def gr_mempool_add_def)
qed

lemma gr_mempool_remove_first:
  assumes "pool_rep p (pg # free) used"
  obtains p' where "gr_mempool_remove p = Inr (Some pg, p')" and "pool_rep p' free (pg # used)"
    and "mp_order p' = mp_order p" and "tot_size p' = tot_size p"
proof -
  let ?l = "list_del_init (mp_links p) (Pg pg)"
  let ?p = "p\<lparr> mp_links := list_add ?l (Pg pg) Used_List, cur_size := cur_size p - 1 \<rparr>"
  have page: "rep (mp_links p) Page_List (Pg pg # map Pg free)"
    and used: "rep (mp_links p) Used_List (map Pg used)"
    and disj: "set (pg # free) \<inter> set used = {}" "cur_size p = Suc (length free)"
    using assms by (auto simp: pool_rep_def)
  have notin: "Pg pg \<notin> set (Page_List # map Pg free)" "Pg pg \<notin> set (Used_List # map Pg used)"
    using page disj by (auto simp: rep_def)
  have p1: "rep ?l Page_List (map Pg free)" by (rule rep_del_first [OF page])
  have u1: "rep ?l Used_List (map Pg used)"
    by (rule rep_del_first_other [OF used page]) (use disj in auto)
  have "rep (list_add ?l (Pg pg) Used_List) Used_List (Pg pg # map Pg used)"
    by (rule rep_list_add [OF u1 notin(2)])
  moreover have "rep (list_add ?l (Pg pg) Used_List) Page_List (map Pg free)"
    by (rule rep_list_add_other [OF p1 u1 notin(1)]) (use disj in auto)
  ultimately have "pool_rep ?p free (pg # used)"
    using disj notin by (auto simp: pool_rep_def)
  moreover have "gr_mempool_remove p = Inr (Some pg, ?p)"
    using rep_next [OF page] disj
    by (simp add: gr_mempool_remove_def gr_mempool_is_empty_def Let_def)
  ultimately show thesis using that by simp
qed

lemma gr_mempool_remove_empty: "pool_rep p [] used \<Longrightarrow> gr_mempool_remove p = Inr (None, p)"
  by (simp add: gr_mempool_remove_def gr_mempool_is_empty_def pool_rep_def)

text \<open>Growing by as many pages as the kernel has for it.\<close>

lemma zero_frames_order_0:
  "mappable (zero_frames pm pg n) = mappable pm"
  "zero_frames pm pg 0 = pm\<lparr>frames := (frames pm)(pg := (\<lambda>j. 0))\<rparr>"
  by (simp_all add: zero_frames_def)

lemma gr_mempool_grow_ok:
  assumes "pool_rep p free used" and "alloc_script k = map Some ps @ sc" and "True \<notin> set (dma_script k)"
    and "distinct ps" and "set ps \<inter> (set free \<union> set used) = {}" and "mp_order p = 0"
  obtains p' k' pm' where "gr_mempool_grow p (length ps) k pm = Inr (0, p', k', pm')"
    and "pool_rep p' (rev ps @ free) used" and "mp_order p' = 0" and "alloc_script k' = sc"
    and "True \<notin> set (dma_script k')" and "mappable pm' = mappable pm"
    and "\<forall>q. q \<notin> set ps \<longrightarrow> frames pm' q = frames pm q"
proof -
  have "\<exists>p' k' pm'. gr_mempool_grow p (length ps) k pm = Inr (0, p', k', pm') \<and>
      pool_rep p' (rev ps @ free) used \<and> mp_order p' = 0 \<and> alloc_script k' = sc \<and>
      True \<notin> set (dma_script k') \<and> mappable pm' = mappable pm \<and>
      (\<forall>q. q \<notin> set ps \<longrightarrow> frames pm' q = frames pm q)"
    using assms
  proof (induction ps arbitrary: p free k pm)
    case Nil
    then show ?case by simp
  next
    case (Cons pg ps)
    have add: "pool_rep (gr_mempool_add p pg) (pg # free) used"
      by (rule pool_rep_add) (use Cons.prems in auto)
    have ord: "mp_order (gr_mempool_add p pg) = 0" using Cons.prems by (simp add: gr_mempool_add_def)
    define k0 where "k0 = k\<lparr> alloc_script := map Some ps @ sc, freed := removeAll pg (freed k) \<rparr>"
    define k1 where "k1 = (if dma_script k = [] then k0 else k0\<lparr> dma_script := tl (dma_script k) \<rparr>)"
    define pm1 where "pm1 = zero_frames pm pg 0"
    have step: "gr_mempool_grow p (Suc (length ps)) k pm =
        gr_mempool_grow (gr_mempool_add p pg) (length ps) k1 pm1"
      using Cons.prems(2,3,6)
      by (cases "dma_script k") (auto simp: gr_mem_alloc_page_def k0_def k1_def pm1_def split: bool.splits)
    have t: "True \<notin> set (tl (dma_script k))" using Cons.prems(3) by (cases "dma_script k") auto
    have pre: "alloc_script k1 = map Some ps @ sc" "True \<notin> set (dma_script k1)" "distinct ps"
      "set ps \<inter> (set (pg # free) \<union> set used) = {}"
      using Cons.prems t by (auto simp: k0_def k1_def)
    have "mappable pm1 = mappable pm" "\<And>q. q \<noteq> pg \<Longrightarrow> frames pm1 q = frames pm q"
      by (simp_all add: pm1_def zero_frames_order_0)
    with Cons.IH [OF add pre ord, of pm1] show ?case
      by (auto simp: step simp del: gr_mempool_grow.simps)
  qed
  then show thesis using that by blast
qed

section \<open>The pool is a page source\<close>

text \<open>
  What the module needs of the kernel: the coming allocations succeed with distinct, valid
  pages that are not in the pool, and DMA mappings do not fail.
\<close>

definition mempool_ok :: "mempool_state \<Rightarrow> (u64 \<Rightarrow> bool) \<Rightarrow> bool" where
  "mempool_ok s mp \<longleftrightarrow>
     (\<exists>p free used ps. pool s = Some p \<and> mp_order p = 0 \<and> pool_rep p free used \<and>
        alloc_script (kern s) = map Some ps \<and> True \<notin> set (dma_script (kern s)) \<and> distinct ps \<and>
        set ps \<inter> (set free \<union> set used) = {} \<and> (\<forall>q \<in> set ps \<union> set free. valid_pa q \<and> mp q))"

text \<open>The pages in use, as a set: those on a list that represents the used list.\<close>

definition pages_in_use :: "mempool_state \<Rightarrow> u64 set" where
  "pages_in_use s = {pg. \<exists>p used. pool s = Some p \<and> rep (mp_links p) Used_List (map Pg used) \<and>
     pg \<in> set used}"

definition pages_left :: "mempool_state \<Rightarrow> nat" where
  "pages_left s = length (alloc_script (kern s))"

lemma path_unique: "path l a xs z \<Longrightarrow> path l a ys z \<Longrightarrow> z \<notin> set xs \<Longrightarrow> z \<notin> set ys \<Longrightarrow> xs = ys"
proof (induction xs arbitrary: a ys)
  case Nil
  then show ?case by (cases ys) auto
next
  case (Cons x xs)
  then show ?case by (cases ys) auto
qed

lemma rep_unique: "rep l h xs \<Longrightarrow> rep l h ys \<Longrightarrow> xs = ys"
  using path_unique by (auto simp: rep_def)

lemma pages_in_use_eq:
  assumes "pool s = Some p" and "pool_rep p free used"
  shows "pages_in_use s = set used"
proof -
  have "used' = used" if "rep (mp_links p) Used_List (map Pg used')" for used'
  proof -
    have "map Pg used' = map Pg used" using rep_unique [OF that] assms(2) by (simp add: pool_rep_def)
    then show ?thesis by (simp add: inj_map_eq_map inj_def)
  qed
  then show ?thesis using assms by (auto simp: pages_in_use_def pool_rep_def)
qed

text \<open>One page: a fresh one is allocated and handed out at once.\<close>

lemma ioctl_get_page_ok:
  assumes "pool s = Some p" and "pool_rep p free used" and "mp_order p = 0"
    and "alloc_script (kern s) = Some pg # map Some ps" and "True \<notin> set (dma_script (kern s))"
    and "pg \<notin> set free \<union> set used"
  obtains p' k' pm' where "ioctl_get_page s pm = Inr (pg, s\<lparr> pool := Some p', kern := k' \<rparr>, pm')"
    and "pool_rep p' free (pg # used)" and "mp_order p' = 0" and "alloc_script k' = map Some ps"
    and "True \<notin> set (dma_script k')" and "mappable pm' = mappable pm"
    and "\<forall>q. q \<noteq> pg \<longrightarrow> frames pm' q = frames pm q"
proof -
  obtain p1 k1 pm1 where g: "gr_mempool_grow p (length [pg]) (kern s) pm = Inr (0, p1, k1, pm1)"
    "pool_rep p1 (rev [pg] @ free) used" "mp_order p1 = 0" "alloc_script k1 = map Some ps"
    "True \<notin> set (dma_script k1)" "mappable pm1 = mappable pm"
    "\<forall>q. q \<notin> set [pg] \<longrightarrow> frames pm1 q = frames pm q"
    by (rule gr_mempool_grow_ok [OF assms(2), of "kern s" "[pg]" "map Some ps"]) (use assms in auto)
  from g(2) have "pool_rep p1 (pg # free) used" by simp
  then obtain p2 where "gr_mempool_remove p1 = Inr (Some pg, p2)" "pool_rep p2 free (pg # used)"
    "mp_order p2 = mp_order p1" by (rule gr_mempool_remove_first)
  then show thesis using g assms(1)
    by (intro that [where p' = p2 and k' = k1 and pm' = pm1])
      (simp_all add: ioctl_get_page_def gr_mempool_alloc_def)
qed

lemma mempool_page_source:
  assumes "mempool_ok s (mappable pm)" and "ioctl_get_page s pm = Inr (pg, s', pm')"
  shows "valid_pa pg \<and> pg \<notin> pages_in_use s \<and> mappable pm pg \<and>
    pages_in_use s' = insert pg (pages_in_use s) \<and> mempool_ok s' (mappable pm) \<and>
    pages_left s \<le> Suc (pages_left s') \<and>
    mappable pm' = mappable pm \<and> (\<forall>q. q \<noteq> pg \<longrightarrow> frames pm' q = frames pm q)"
proof -
  from assms(1) obtain p free used ps where s: "pool s = Some p" "mp_order p = 0"
    "pool_rep p free used" "alloc_script (kern s) = map Some ps" "True \<notin> set (dma_script (kern s))"
    "distinct ps" "set ps \<inter> (set free \<union> set used) = {}"
    "\<forall>q \<in> set ps \<union> set free. valid_pa q \<and> mappable pm q"
    by (auto simp: mempool_ok_def)
  show ?thesis
  proof (cases ps)
    case Nil
    then show ?thesis using assms(2) s by (simp add: ioctl_get_page_def gr_mem_alloc_page_def)
  next
    case (Cons q qs)
    obtain p' k' pm'' where g: "ioctl_get_page s pm = Inr (q, s\<lparr> pool := Some p', kern := k' \<rparr>, pm'')"
      "pool_rep p' free (q # used)" "mp_order p' = 0" "alloc_script k' = map Some qs"
      "True \<notin> set (dma_script k')"
      "mappable pm'' = mappable pm" "\<forall>r. r \<noteq> q \<longrightarrow> frames pm'' r = frames pm r"
      by (rule ioctl_get_page_ok [OF s(1,3,2), where pg = q and ps = qs and pm = pm])
        (use s Cons in auto)
    have "pages_in_use s = set used" by (rule pages_in_use_eq [OF s(1,3)])
    moreover have "pages_in_use (s\<lparr> pool := Some p', kern := k' \<rparr>) = set (q # used)"
      by (rule pages_in_use_eq [OF _ g(2)]) simp
    moreover have "mempool_ok (s\<lparr> pool := Some p', kern := k' \<rparr>) (mappable pm)"
      unfolding mempool_ok_def
      by (intro exI [of _ p'] exI [of _ free] exI [of _ "q # used"] exI [of _ qs])
        (use g s Cons in auto)
    ultimately show ?thesis using g(1,4,6,7) assms(2) s(4,7,8) Cons by (auto simp: pages_left_def)
  qed
qed

lemma mempool_page_succeeds:
  assumes "mempool_ok s (mappable pm)" and "0 < pages_left s"
  shows "\<exists>pg s' pm'. ioctl_get_page s pm = Inr (pg, s', pm')"
proof -
  from assms(1) obtain p free used ps where s: "pool s = Some p" "mp_order p = 0"
    "pool_rep p free used" "alloc_script (kern s) = map Some ps" "True \<notin> set (dma_script (kern s))"
    "set ps \<inter> (set free \<union> set used) = {}"
    by (auto simp: mempool_ok_def)
  with assms(2) obtain q qs where q: "ps = q # qs" by (cases ps) (auto simp: pages_left_def)
  show ?thesis
    by (rule ioctl_get_page_ok [OF s(1,3,2), where pg = q and ps = qs and pm = pm])
      (use s q in auto)
qed

interpretation pool: page_source ioctl_get_page mempool_ok pages_in_use pages_left
proof
  show "\<exists>p s' pm'. ioctl_get_page s pm = Inr (p, s', pm')"
    if "mempool_ok s (mappable pm)" "0 < pages_left s" for s pm
    using that by (rule mempool_page_succeeds)
qed (use mempool_page_source in blast)+

text \<open>A block of pages.\<close>

lemma take_pages_ok:
  assumes "pool_rep p (xs @ free) used"
  shows "\<exists>p'. take_pages (length xs) p = Inr (xs, p') \<and> pool_rep p' free (rev xs @ used) \<and>
    mp_order p' = mp_order p"
  using assms
proof (induction xs arbitrary: p used)
  case Nil
  then show ?case by simp
next
  case (Cons x xs)
  from Cons.prems have "pool_rep p (x # xs @ free) used" by simp
  then obtain p1 where r: "gr_mempool_remove p = Inr (Some x, p1)"
    "pool_rep p1 (xs @ free) (x # used)" "mp_order p1 = mp_order p" by (rule gr_mempool_remove_first)
  from Cons.IH [OF r(2)] show ?case using r(1,3) by (auto simp: gr_mempool_alloc_def)
qed

lemma mempool_alloc_get_pages:
  assumes "mempool_ok s (mappable pm)" and "n \<le> pages_left s"
  shows "\<exists>s1 pm' ps s'. ioctl_grow n s pm = Inr (s1, pm') \<and> ioctl_get_pages n s1 = Inr (ps, s') \<and>
    length ps = n \<and> distinct ps \<and> set ps \<inter> pages_in_use s = {} \<and>
    (\<forall>p \<in> set ps. valid_pa p \<and> mappable pm p) \<and>
    pages_in_use s' = set ps \<union> pages_in_use s \<and> mempool_ok s' (mappable pm) \<and>
    pages_left s \<le> pages_left s' + n \<and>
    mappable pm' = mappable pm \<and> (\<forall>q. q \<notin> set ps \<longrightarrow> frames pm' q = frames pm q)"
proof -
  from assms(1) obtain p free used ps where s: "pool s = Some p" "mp_order p = 0"
    "pool_rep p free used" "alloc_script (kern s) = map Some ps" "True \<notin> set (dma_script (kern s))"
    "distinct ps" "set ps \<inter> (set free \<union> set used) = {}"
    "\<forall>q \<in> set ps \<union> set free. valid_pa q \<and> mappable pm q"
    by (auto simp: mempool_ok_def)
  define xs where "xs = take n ps"
  have n: "length xs = n" using assms(2) s(4) by (simp add: xs_def pages_left_def)
  have ps: "ps = xs @ drop n ps" by (simp add: xs_def)
  have xs: "distinct xs" "set xs \<inter> (set free \<union> set used) = {}" "set xs \<inter> set (drop n ps) = {}"
    using s(6,7) set_take_subset [of n ps] by (auto simp: xs_def dest: set_take_disj_set_drop_if_distinct)
  have "alloc_script (kern s) = map Some xs @ map Some (drop n ps)" using s(4) ps by (metis map_append)
  then obtain p1 k1 pm1 where g: "gr_mempool_grow p (length xs) (kern s) pm = Inr (0, p1, k1, pm1)"
    "pool_rep p1 (rev xs @ free) used" "mp_order p1 = 0" "alloc_script k1 = map Some (drop n ps)"
    "True \<notin> set (dma_script k1)" "mappable pm1 = mappable pm"
    "\<forall>q. q \<notin> set xs \<longrightarrow> frames pm1 q = frames pm q"
    by (rule gr_mempool_grow_ok [OF s(3)]) (use xs s in auto)
  from take_pages_ok [OF g(2)] n obtain p2 where t: "take_pages n p1 = Inr (rev xs, p2)"
    "pool_rep p2 free (xs @ used)" "mp_order p2 = 0" using g(3) by auto
  define s1 s2 where "s1 = s\<lparr> pool := Some p1, kern := k1 \<rparr>" and "s2 = s1\<lparr> pool := Some p2 \<rparr>"
  have "pages_in_use s = set used" by (rule pages_in_use_eq [OF s(1,3)])
  moreover have "pages_in_use s2 = set (xs @ used)"
    by (rule pages_in_use_eq [OF _ t(2)]) (simp add: s2_def)
  moreover have "mempool_ok s2 (mappable pm)" unfolding mempool_ok_def
    by (intro exI [of _ p2] exI [of _ free] exI [of _ "xs @ used"] exI [of _ "drop n ps"])
      (use t g s xs set_drop_subset [of n ps] in \<open>auto simp: s2_def s1_def\<close>)
  moreover have "\<forall>q \<in> set xs. valid_pa q \<and> mappable pm q" using s(8) ps by (metis Un_iff set_append)
  ultimately show ?thesis using g t n s xs
    by (intro exI [of _ s1] exI [of _ pm1] exI [of _ "rev xs"] exI [of _ s2])
      (auto simp: ioctl_grow_def ioctl_get_pages_def s1_def s2_def pages_left_def)
qed

interpretation pools: pages_source ioctl_get_page mempool_ok pages_in_use pages_left ioctl_grow
  ioctl_get_pages
  by unfold_locales (rule mempool_alloc_get_pages)

section \<open>Giving the pages back\<close>

text \<open>Freeing the pages of a list of which no page is free yet.\<close>

lemma free_each_list:
  assumes "rep l h (map Pg xs)" and "set xs \<inter> set (freed k) = {}" and "length xs < fuel"
    and "h \<notin> range Pg"
  shows "\<exists>l'. free_each fuel h (nx l h) l k = Inr (l', k\<lparr>freed := rev xs @ freed k\<rparr>) \<and>
    (\<forall>y. y \<notin> set (h # map Pg xs) \<longrightarrow> nx l' y = nx l y)"
  using assms
proof (induction xs arbitrary: fuel l k)
  case Nil
  then show ?case using rep_next [OF Nil.prems(1)] by (cases fuel) auto
next
  case (Cons x xs)
  then obtain f where f: "fuel = Suc f" by (cases fuel) auto
  let ?l = "list_del_init l (Pg x)"
  have r: "rep l h (Pg x # map Pg xs)" using Cons.prems(1) by simp
  have d: "rep ?l h (map Pg xs)" by (rule rep_del_first [OF r])
  have n: "nx l h = Pg x" "nx l (Pg x) = nx ?l h" "Pg x \<noteq> h" "x \<notin> set xs"
    using r rep_next [OF d] by (cases xs; auto simp: rep_def)+
  have keep: "nx ?l y = nx l y" if "y \<noteq> h" "y \<noteq> Pg x" for y
    using that r by (auto simp: list_del_init_def INIT_LIST_HEAD_def Let_def rep_def)
  have "\<exists>l'. free_each f h (nx ?l h) ?l (k\<lparr>freed := x # freed k\<rparr>) =
      Inr (l', k\<lparr>freed := x # freed k\<rparr>\<lparr>freed := rev xs @ freed (k\<lparr>freed := x # freed k\<rparr>)\<rparr>) \<and>
      (\<forall>y. y \<notin> set (h # map Pg xs) \<longrightarrow> nx l' y = nx ?l y)"
    by (rule Cons.IH [OF d]) (use Cons.prems f n in auto)
  moreover have "x \<notin> set (freed k)" using Cons.prems(2) by simp
  ultimately show ?case using f n keep
    by (auto simp: gr_mempool_free_page_def Let_def)
qed

text \<open>
  One step of the first loop of the termination. The page is at the head of the used list and
  on the local list at the same time.
\<close>

definition moving :: "links \<Rightarrow> u64 list \<Rightarrow> u64 list \<Rightarrow> bool" where
  "moving l free moved \<longleftrightarrow>
     rep l Page_List (map Pg free) \<and> rep l Free_List (map Pg moved) \<and>
     set free \<inter> set moved = {} \<and>
     nx l Used_List \<notin> set (Page_List # map Pg free) \<union> {Free_List} \<and>
     (case moved of [] \<Rightarrow> True | y # ys \<Rightarrow> nx l Used_List = Pg y)"

lemma moving_step:
  assumes m: "moving l (x # free) moved"
  defines "l1 \<equiv> list_del_init l (Pg x)"
  defines "l2 \<equiv> list_add (list_add l1 (Pg x) Used_List) (Pg x) Free_List"
  shows "moving l2 free (x # moved)"
proof -
  have page: "rep l Page_List (Pg x # map Pg free)" and fl: "rep l Free_List (map Pg moved)"
    and disj: "set (x # free) \<inter> set moved = {}"
    using m by (auto simp: moving_def)
  have p1: "rep l1 Page_List (map Pg free)" unfolding l1_def by (rule rep_del_first [OF page])
  have f1: "rep l1 Free_List (map Pg moved)" unfolding l1_def
    by (rule rep_del_first_other [OF fl page]) (use disj in auto)
  have u1: "nx l1 Used_List = nx l Used_List"
    using page by (auto simp: l1_def list_del_init_def INIT_LIST_HEAD_def Let_def rep_def)
  define u where "u = nx l Used_List"
  have u: "u \<notin> set (Page_List # map Pg free)" "u \<noteq> Free_List" "u \<noteq> Pg x"
    "moved \<noteq> [] \<Longrightarrow> u = Pg (hd moved)"
    using m by (auto simp: moving_def u_def split: list.splits)
  have x: "Pg x \<notin> set (Page_List # map Pg free)" "x \<notin> set moved"
    using page disj by (auto simp: rep_def)
  have l2nx: "nx l2 y = (if y = Used_List \<or> y = Free_List then Pg x
      else if y = Pg x then nx l1 Free_List else nx l1 y)" for y
    by (auto simp: l2_def list_add_def Let_def)
  have l2pv: "pv l2 y = (if y = Pg x then Free_List else if y = nx l1 Free_List then Pg x
      else if y = u then Pg x else pv l1 y)" for y
    by (auto simp: l2_def list_add_def Let_def u1 u_def)
  have nf: "nx l1 Free_List = (case moved of [] \<Rightarrow> Free_List | y # _ \<Rightarrow> Pg y)"
    using rep_next [OF f1] by (cases moved) auto
  have "rep l2 Page_List (map Pg free)"
    by (rule rep_cong [OF p1]) (use u x disj in \<open>auto simp: l2nx l2pv nf split: list.splits\<close>)
  moreover have "rep l2 Free_List (Pg x # map Pg moved)"
  proof (cases moved)
    case Nil
    then show ?thesis using u by (auto simp: rep_def l2nx l2pv nf)
  next
    case (Cons y ys)
    have "path l2 (Pg y) (map Pg ys) Free_List"
      by (rule path_cong [where l = l1])
        (use f1 Cons u x in \<open>auto simp: rep_def l2nx l2pv nf\<close>)
    then show ?thesis using Cons f1 x by (auto simp: rep_def l2nx l2pv nf)
  qed
  ultimately show ?thesis using disj x by (auto simp: moving_def l2nx)
qed

lemma move_free_pages_ok:
  assumes "moving (mp_links p) free moved" and "cur_size p = length free" and "length free \<le> fuel"
  shows "\<exists>p'. move_free_pages fuel p = Inr p' \<and> moving (mp_links p') [] (rev free @ moved)"
  using assms
proof (induction free arbitrary: fuel p moved)
  case Nil
  then show ?case by (cases fuel) (auto simp: gr_mempool_is_empty_def)
next
  case (Cons x free)
  then obtain f where f: "fuel = Suc f" by (cases fuel) auto
  let ?l2 = "list_add (list_add (list_del_init (mp_links p) (Pg x)) (Pg x) Used_List) (Pg x) Free_List"
  let ?p = "p\<lparr> cur_size := cur_size p - 1, mp_links := ?l2 \<rparr>"
  have "nx (mp_links p) Page_List = Pg x"
    using Cons.prems(1) rep_next by (fastforce simp: moving_def)
  then have "move_free_pages fuel p = move_free_pages f ?p"
    using Cons.prems(2) f by (simp add: gr_mempool_remove_def gr_mempool_is_empty_def Let_def)
  moreover have "\<exists>p'. move_free_pages f ?p = Inr p' \<and> moving (mp_links p') [] (rev free @ x # moved)"
    by (rule Cons.IH) (use moving_step [OF Cons.prems(1)] Cons.prems f in auto)
  ultimately show ?case by simp
qed

section \<open>Properties\<close>

text \<open>
  Terminating the pool when every page was handed out gives each page back exactly once,
  in the order in which they were handed out, for every fuel above the number of pages.
\<close>

theorem gr_mempool_term_frees_once:
  assumes "pool_rep p [] used" and "set used \<inter> set (freed k) = {}" and "length used < fuel"
  shows "gr_mempool_term fuel p k = Inr (k\<lparr>freed := rev used @ freed k\<rparr>)"
proof -
  let ?l = "INIT_LIST_HEAD (mp_links p) Free_List"
  obtain f where f: "fuel = Suc f" using assms(3) by (cases fuel) auto
  have u: "rep ?l Used_List (map Pg used)"
    by (rule rep_cong [where l = "mp_links p"])
      (use assms(1) in \<open>auto simp: pool_rep_def INIT_LIST_HEAD_def\<close>)
  have "nx ?l Free_List = Free_List" by (simp add: INIT_LIST_HEAD_def)
  moreover have "\<exists>l'. free_each fuel Used_List (nx ?l Used_List) ?l k =
      Inr (l', k\<lparr>freed := rev used @ freed k\<rparr>)"
    using free_each_list [OF u assms(2,3)] by auto
  moreover have "cur_size p = 0" using assms(1) by (simp add: pool_rep_def)
  ultimately show ?thesis using f
    by (auto simp: gr_mempool_term_def gr_mempool_is_empty_def)
qed

definition demo_links :: links where
  "demo_links = \<lparr>nx = (\<lambda>x. x), pv = (\<lambda>x. x)\<rparr>"

definition demo_kern :: kernel_pages where
  "demo_kern = \<lparr>alloc_script = map Some [0x1000, 0x2000, 0x3000, 0x4000, 0x5000, 0x6000],
     dma_script = [], freed = []\<rparr>"

definition demo_pool_used :: gr_mempool where
  "demo_pool_used = \<lparr>mp_order = 0, cur_size = 0, tot_size = 2,
     mp_links = list_add (list_add (mp_links (gr_mempool_init 0 demo_links)) (Pg 0x1000) Used_List)
       (Pg 0x2000) Used_List\<rparr>"

lemma demo_pool_used_rep: "pool_rep demo_pool_used [] [0x2000, 0x1000]"
  by (simp add: pool_rep_def demo_pool_used_def gr_mempool_init_def rep_def INIT_LIST_HEAD_def
      list_add_def Let_def demo_links_def)

theorem gr_mempool_term_frees_once_witness:
  "gr_mempool_term 3 demo_pool_used demo_kern =
     Inr (demo_kern\<lparr>freed := [0x1000, 0x2000]\<rparr>)"
  using gr_mempool_term_frees_once [OF demo_pool_used_rep, of demo_kern 3] by (simp add: demo_kern_def)

text \<open>
  When the pool still holds pages that were not handed out, its termination frees a page a
  second time: the page taken off the pool last is put on the used list by
  \<open>gr_mempool_remove\<close>, never deleted from it, and met there again by the last loop.
\<close>

theorem gr_mempool_term_double_free:
  assumes "pool_rep p (x # free) used" and "set (x # free) \<inter> set (freed k) = {}"
    and "length free + 2 < fuel"
  shows "gr_mempool_term fuel p k = Inl Bad_Access"
proof -
  let ?l = "INIT_LIST_HEAD (mp_links p) Free_List"
  let ?p = "p\<lparr> mp_links := ?l \<rparr>"
  have pr: "rep (mp_links p) Page_List (map Pg (x # free))" "rep (mp_links p) Used_List (map Pg used)"
    using assms(1) by (simp_all add: pool_rep_def)
  have "rep ?l Page_List (map Pg (x # free))"
    by (rule rep_cong [OF pr(1)]) (auto simp: INIT_LIST_HEAD_def)
  moreover have "nx ?l Used_List \<notin> set (Page_List # map Pg (x # free)) \<union> {Free_List}"
    using rep_next [OF pr(2)] assms(1)
    by (cases used) (auto simp: INIT_LIST_HEAD_def pool_rep_def)
  ultimately have "moving ?l (x # free) []" using rep_init by (auto simp: moving_def)
  then have "\<exists>p1. move_free_pages fuel ?p = Inr p1 \<and> moving (mp_links p1) [] (rev (x # free) @ [])"
    by (intro move_free_pages_ok) (use assms in \<open>simp_all add: pool_rep_def\<close>)
  then obtain p1 where p1: "move_free_pages fuel ?p = Inr p1" and m: "moving (mp_links p1) [] (rev (x # free))"
    by auto
  then obtain y ys where y: "rev (x # free) = y # ys" by (cases "rev (x # free)") auto
  have fl: "rep (mp_links p1) Free_List (map Pg (y # ys))" and u: "nx (mp_links p1) Used_List = Pg y"
    using m [unfolded y] by (auto simp: moving_def)
  have yset: "set (y # ys) = set (x # free)" "length (y # ys) = Suc (length free)"
    unfolding y [symmetric] by simp_all
  have "set (y # ys) \<inter> set (freed k) = {}" "length (y # ys) < fuel"
    using yset assms(2,3) by simp_all
  from free_each_list [OF fl this] obtain l2 where
    l2: "free_each fuel Free_List (nx (mp_links p1) Free_List) (mp_links p1) k =
      Inr (l2, k\<lparr>freed := rev (y # ys) @ freed k\<rparr>)" "nx l2 Used_List = Pg y"
    using u by (force simp: image_iff)
  obtain f where "fuel = Suc f" using assms(3) by (cases fuel) auto
  then have "free_each fuel Used_List (Pg y) l2 (k\<lparr>freed := rev (y # ys) @ freed k\<rparr>) = Inl Bad_Access"
    by (simp add: gr_mempool_free_page_def Let_def)
  then show ?thesis using p1 l2 by (simp add: gr_mempool_term_def)
qed

definition demo_pool_free :: gr_mempool where
  "demo_pool_free = gr_mempool_add (gr_mempool_init 0 demo_links) 0x1000"

theorem gr_mempool_term_double_free_witness:
  "gr_mempool_term 3 demo_pool_free demo_kern = Inl Bad_Access"
proof (rule gr_mempool_term_double_free)
  show "pool_rep demo_pool_free [0x1000] []"
    unfolding demo_pool_free_def by (rule pool_rep_add [OF pool_rep_init]) simp
qed (simp_all add: demo_kern_def)

text \<open>
  A block request hands out as many pages as were asked for, all different, none in use
  before, clear of the rest of memory; afterwards exactly they are in use in addition.
\<close>

theorem gr_manager_pages_fresh:
  assumes "mempool_ok s (mappable pm)" and "n \<le> pages_left s"
  shows "\<exists>s1 pm' ps s'. gr_manager_alloc_pages n s pm = Inr (s1, pm') \<and>
    gr_manager_get_pages n s1 = Inr (ps, s') \<and>
    length ps = n \<and> distinct ps \<and> set ps \<inter> pages_in_use s = {} \<and>
    pages_in_use s' = set ps \<union> pages_in_use s \<and>
    (\<forall>q. q \<notin> set ps \<longrightarrow> frames pm' q = frames pm q)"
  using pools.alloc_get_pages [OF assms]
  unfolding gr_manager_alloc_pages_def gr_manager_get_pages_def by blast

definition demo_mempool :: mempool_state where
  "demo_mempool = ioctl_mempool_init demo_links \<lparr>pool = None, kern = demo_kern\<rparr>"

lemma valid_pa_small:
  assumes "page_aligned p" and "p \<noteq> 0" and "unat p < 2 ^ 54"
  shows "valid_pa p"
proof -
  have "unat (drop_bit 54 p) = 0"
    by (simp only: unat_drop_bit_eq) (use assms(3) in \<open>simp add: drop_bit_eq_div\<close>)
  then have "drop_bit 54 p = 0" by (simp only: unsigned_eq_0_iff)
  then have "\<not> bit p 54" by (simp add: bit_iff_odd_drop_bit)
  then show ?thesis using assms by (simp add: valid_pa_def)
qed

lemma demo_mempool_ok: "mempool_ok demo_mempool (\<lambda>q. True)"
  unfolding mempool_ok_def
  by (intro exI [of _ "gr_mempool_init 0 demo_links"] exI [of _ "[]"]
      exI [of _ "[0x1000, 0x2000, 0x3000, 0x4000, 0x5000, 0x6000]"])
    (simp add: demo_mempool_def ioctl_mempool_init_def pool_rep_init demo_kern_def
      valid_pa_small page_aligned_def, simp add: gr_mempool_init_def)

theorem gr_manager_pages_fresh_witness:
  "\<exists>s1 pm' ps s'. gr_manager_alloc_pages 3 demo_mempool
        \<lparr>frames = (\<lambda>p i. 0), mappable = (\<lambda>q. True)\<rparr> = Inr (s1, pm') \<and>
    gr_manager_get_pages 3 s1 = Inr (ps, s') \<and> length ps = 3 \<and> distinct ps"
proof -
  have "mempool_ok demo_mempool (mappable \<lparr>frames = (\<lambda>p i. 0), mappable = (\<lambda>q. True)\<rparr>)"
    using demo_mempool_ok by simp
  moreover have "3 \<le> pages_left demo_mempool"
    by (simp add: pages_left_def demo_mempool_def ioctl_mempool_init_def demo_kern_def)
  ultimately show ?thesis using gr_manager_pages_fresh by blast
qed

end
