(* ===== verification/GR_MemIO.thy ===== *)
theory GR_MemIO
  imports GR_Context
begin

text \<open>
  Copies between a user buffer and GPU memory (\<open>gr_gpu_mem_io\<close>, \<open>gr_copy_to_gpu\<close>,
  \<open>gr_copy_from_gpu\<close> of \<open>replayer/gr_mem.c\<close>), and their specification on the linear contents
  of a GPU memory region. The specification shows which bytes a copy moves: all of them,
  except when the copy touches exactly two pages, where the part on the second page is not
  moved.
\<close>

section \<open>Model\<close>

fun find_region_from :: "gpu_mem_region list \<Rightarrow> nat \<Rightarrow> u64 \<Rightarrow> nat option" where
  "find_region_from [] off gaddr = None"
| "find_region_from (r # rs) off gaddr =
     (if gm_start r \<le> gaddr \<and> gaddr < gm_end r then Some off
      else find_region_from rs (Suc off) gaddr)"

definition gr_find_region_enclosing_address :: "replay_context \<Rightarrow> u64 \<Rightarrow> nat option" where
  "gr_find_region_enclosing_address rctx gaddr = find_region_from (gm_region rctx) 0 gaddr"

text \<open>
  One call through the function pointer \<open>gpu_mem_io\<close>: a read fills the chunk of the buffer,
  a write stores it. The result is the new memory and the new contents of the chunk.
\<close>

definition page_io :: "bool \<Rightarrow> pmem \<Rightarrow> u64 \<Rightarrow> u8 list \<Rightarrow> (pmem \<times> u8 list) res" where
  "page_io is_read pm paddr chunk =
     (if is_read
      then bindR (gr_read_phys pm paddr (length chunk)) (\<lambda>d. Inr (pm, d))
      else bindR (gr_write_phys pm paddr chunk) (\<lambda>pm'. Inr (pm', chunk)))"

function io_middle_pages ::
  "bool \<Rightarrow> u64 list \<Rightarrow> nat \<Rightarrow> nat \<Rightarrow> nat \<Rightarrow> pmem \<Rightarrow> u8 list \<Rightarrow>
   (pmem \<times> u8 list \<times> u8 list) res" where
  "io_middle_pages is_read pages page_offset i last_page pm rest =
     (if i < last_page
      then if page_offset + i \<ge> length pages \<or> length rest < PAGE_SIZE then Inl Bad_Access
           else bindR (page_io is_read pm (pages ! (page_offset + i)) (take PAGE_SIZE rest))
             (\<lambda>(pm', d).
                bindR (io_middle_pages is_read pages page_offset (Suc i) last_page pm'
                         (drop PAGE_SIZE rest))
                  (\<lambda>(pm'', ds, rest'). Inr (pm'', d @ ds, rest')))
      else Inr (pm, [], rest))"
  by pat_completeness auto
termination
  by (relation "measure (\<lambda>(is_read, pages, page_offset, i, last_page, pm, rest). last_page - i)")
    auto

declare io_middle_pages.simps [simp del]

definition gr_page_count :: "nat \<Rightarrow> nat \<Rightarrow> nat" where
  "gr_page_count offset sz =
     unat (ucast (drop_bit PAGE_SHIFT (of_nat (offset + sz + (PAGE_SIZE - 1)) :: u64)) :: u32)"

text \<open>
  The three stages of the copy: the part on the first page, the whole pages between, and the
  rest on the last page.
\<close>

definition io_first_middle_last ::
  "bool \<Rightarrow> u64 list \<Rightarrow> nat \<Rightarrow> nat \<Rightarrow> nat \<Rightarrow> pmem \<Rightarrow> u8 list \<Rightarrow> (pmem \<times> u8 list) res" where
  "io_first_middle_last is_read pages page_offset offset page_count pm buf =
     (let sz = min (PAGE_SIZE - offset) (length buf)
      in bindR (page_io is_read pm (pages ! page_offset + of_nat offset) (take sz buf))
          (\<lambda>(pm1, d1).
           bindR (if page_count > 2
                  then io_middle_pages is_read pages page_offset 1 (page_count - 1) pm1
                         (drop sz buf)
                  else Inr (pm1, [], drop sz buf))
            (\<lambda>(pm2, d2, rest).
             if page_count > 2 \<and> rest \<noteq> []
             then if length rest > PAGE_SIZE then Inl Bug
                  else if page_offset + page_count - 1 \<ge> length pages then Inl Bad_Access
                  else bindR (page_io is_read pm2 (pages ! (page_offset + page_count - 1)) rest)
                    (\<lambda>(pm3, d3). Inr (pm3, d1 @ d2 @ d3))
             else Inr (pm2, d1 @ d2 @ rest))))"

definition gr_gpu_mem_io ::
  "replay_context \<Rightarrow> pmem \<Rightarrow> u64 \<Rightarrow> u8 list \<Rightarrow> bool \<Rightarrow> (pmem \<times> u8 list) res" where
  "gr_gpu_mem_io rctx pm gaddr buf is_read =
     (case gr_find_region_enclosing_address rctx gaddr of
        None \<Rightarrow> Inl Bad_Access
      | Some region_offset \<Rightarrow>
          (let gm = gm_region rctx ! region_offset;
               offset = page_offset_of gaddr;
               page_offset = unat (drop_bit PAGE_SHIFT (gaddr - gm_start gm));
               page_count = gr_page_count offset (length buf)
           in if gm_end gm < gaddr + of_nat (length buf) then Inl Bug
              else if page_offset \<ge> length (gm_pages gm) then Inl Bad_Access
              else io_first_middle_last is_read (gm_pages gm) page_offset offset page_count pm buf))"

definition gr_copy_from_gpu :: "replay_context \<Rightarrow> pmem \<Rightarrow> u64 \<Rightarrow> u8 list \<Rightarrow> u8 list res" where
  "gr_copy_from_gpu rctx pm gaddr buf =
     bindR (gr_gpu_mem_io rctx pm gaddr buf True) (\<lambda>(pm', buf'). Inr buf')"

definition gr_copy_to_gpu :: "replay_context \<Rightarrow> pmem \<Rightarrow> u64 \<Rightarrow> u8 list \<Rightarrow> pmem res" where
  "gr_copy_to_gpu rctx pm gaddr buf =
     bindR (gr_gpu_mem_io rctx pm gaddr buf False) (\<lambda>(pm', buf'). Inr pm')"

section \<open>Linear contents of a region\<close>

definition pages_ok :: "pmem \<Rightarrow> u64 list \<Rightarrow> bool" where
  "pages_ok pm pages \<longleftrightarrow>
     distinct pages \<and> (\<forall>p \<in> set pages. page_aligned p \<and> mappable pm p)"

definition region_bytes :: "u64 list \<Rightarrow> pmem \<Rightarrow> nat \<Rightarrow> u8" where
  "region_bytes pages pm k =
     (if k < PAGE_SIZE * length pages
      then frames pm (pages ! (k div PAGE_SIZE)) (k mod PAGE_SIZE) else 0)"

text \<open>The specification of a transfer of one chunk at position \<open>pos\<close> of the linear contents.\<close>

definition lin_io :: "bool \<Rightarrow> (nat \<Rightarrow> u8) \<Rightarrow> nat \<Rightarrow> u8 list \<Rightarrow> (nat \<Rightarrow> u8) \<times> u8 list" where
  "lin_io is_read F pos chunk =
     (if is_read then (F, frame_get F pos (length chunk)) else (frame_put F pos chunk, chunk))"

definition io_refines ::
  "u64 list \<Rightarrow> bool \<Rightarrow> pmem \<Rightarrow> nat \<Rightarrow> u8 list \<Rightarrow> pmem \<times> u8 list \<Rightarrow> bool" where
  "io_refines pages is_read pm pos chunk r \<longleftrightarrow>
     (region_bytes pages (fst r), snd r) = lin_io is_read (region_bytes pages pm) pos chunk \<and>
     mappable (fst r) = mappable pm \<and>
     (\<forall>q. q \<notin> set pages \<longrightarrow> frames (fst r) q = frames pm q)"

lemma lin_io_append:
  "lin_io b F pos (c1 @ c2) =
     (let (F', d1) = lin_io b F pos c1; (F'', d2) = lin_io b F' (pos + length c1) c2
      in (F'', d1 @ d2))"
  by (simp add: lin_io_def frame_put_append frame_get_add)

lemma io_refines_nil [simp]: "io_refines pages b pm pos [] (pm, [])"
  by (simp add: io_refines_def lin_io_def)

lemma io_refines_append:
  assumes "io_refines pages b pm pos c1 (pm1, d1)"
    and "io_refines pages b pm1 (pos + length c1) c2 (pm2, d2)"
  shows "io_refines pages b pm pos (c1 @ c2) (pm2, d1 @ d2)"
  using assms by (auto simp: io_refines_def lin_io_append split: prod.splits)

lemma pages_ok_refines: "io_refines pages b pm pos c (pm', d) \<Longrightarrow> pages_ok pm pages \<Longrightarrow> pages_ok pm' pages"
  by (simp add: io_refines_def pages_ok_def)

lemma page_io_refines:
  assumes ok: "pages_ok pm pages" and p: "p < length pages" and fit: "off + length c \<le> PAGE_SIZE"
    and off: "off < PAGE_SIZE"
  shows "\<exists>pm' d. page_io b pm (pages ! p + of_nat off) c = Inr (pm', d) \<and>
    io_refines pages b pm (PAGE_SIZE * p + off) c (pm', d)"
proof -
  let ?q = "pages ! p" and ?pos = "PAGE_SIZE * p + off"
  have q: "page_aligned ?q" "mappable pm ?q"
    using ok p by (auto simp: pages_ok_def)
  note parts = or_offset_parts [OF q(1) off]
  have bound: "?pos + length c \<le> PAGE_SIZE * length pages"
  proof -
    have "?pos + length c \<le> PAGE_SIZE * p + PAGE_SIZE" using fit by simp
    also have "\<dots> = PAGE_SIZE * Suc p" by simp
    also have "\<dots> \<le> PAGE_SIZE * length pages" using p by (intro mult_le_mono2) simp
    finally show ?thesis .
  qed
  have div: "(?pos + i) div PAGE_SIZE = p" "(?pos + i) mod PAGE_SIZE = off + i"
    if "i < length c" for i
    using that fit by (simp_all add: add.assoc)
  show ?thesis
  proof (cases b)
    case True
    have "frame_get (frames pm ?q) off (length c)
        = frame_get (region_bytes pages pm) ?pos (length c)"
      by (rule nth_equalityI) (use bound div in \<open>auto simp: region_bytes_def\<close>)
    then show ?thesis
      using True q fit parts
      by (simp add: page_io_def gr_read_phys_def io_refines_def lin_io_def gr_map_page_ok)
  next
    case False
    let ?pm' = "pm\<lparr>frames := (frames pm)(?q := frame_put (frames pm ?q) off c)\<rparr>"
    have other: "pages ! j \<noteq> ?q" if "j < length pages" "j \<noteq> p" for j
      using ok that p by (auto simp: pages_ok_def nth_eq_iff_index_eq)
    have "region_bytes pages ?pm' k = frame_put (region_bytes pages pm) ?pos c k" for k
    proof (cases "k < PAGE_SIZE * length pages")
      case k: True
      then have kl: "k div PAGE_SIZE < length pages"
        by (simp add: less_mult_imp_div_less mult.commute)
      have kdm: "k = PAGE_SIZE * (k div PAGE_SIZE) + k mod PAGE_SIZE" by simp
      show ?thesis
      proof (cases "k div PAGE_SIZE = p")
        case True
        define m where "m = k mod PAGE_SIZE"
        have km: "k = PAGE_SIZE * p + m" "m < PAGE_SIZE" using kdm True by (auto simp: m_def)
        then have dm: "k div PAGE_SIZE = p" "k mod PAGE_SIZE = m" by simp_all
        show ?thesis using k km(2) unfolding region_bytes_def dm frame_put_def
          by (simp add: km(1))
      next
        case False
        have "\<not> (?pos \<le> k \<and> k < ?pos + length c)"
        proof
          assume a: "?pos \<le> k \<and> k < ?pos + length c"
          then obtain i where "k = ?pos + i" "i < length c"
            by (metis add_less_cancel_left le_Suc_ex)
          with div(1) False show False by simp
        qed
        then show ?thesis
          using k False other [OF kl] by (auto simp: region_bytes_def frame_put_def)
      qed
    next
      case False
      then show ?thesis using bound by (auto simp: region_bytes_def frame_put_def)
    qed
    then have rb: "region_bytes pages ?pm' = frame_put (region_bytes pages pm) ?pos c" by blast
    have "page_io b pm (?q + of_nat off) c = Inr (?pm', c)"
      using False q fit parts by (simp add: page_io_def gr_write_phys_def gr_map_page_ok)
    moreover have "io_refines pages b pm ?pos c (?pm', c)"
      using False rb p by (auto simp: io_refines_def lin_io_def)
    ultimately show ?thesis by blast
  qed
qed

lemma io_middle_pages_refines:
  assumes "pages_ok pm pages" and "i \<le> m" and "i < m \<longrightarrow> po + m \<le> length pages"
    and "PAGE_SIZE * (m - i) \<le> length rest"
  shows "\<exists>pm' ds. io_middle_pages b pages po i m pm rest
            = Inr (pm', ds, drop (PAGE_SIZE * (m - i)) rest) \<and>
    io_refines pages b pm (PAGE_SIZE * (po + i)) (take (PAGE_SIZE * (m - i)) rest) (pm', ds)"
  using assms
proof (induction "m - i" arbitrary: i pm rest)
  case 0
  then have "i = m" by simp
  then show ?case by (auto simp: io_middle_pages.simps [of b pages po m m])
next
  case (Suc k)
  then have im: "i < m" and mi: "m - i = Suc k" by simp_all
  have len: "PAGE_SIZE \<le> length rest" and len': "PAGE_SIZE * k \<le> length (drop PAGE_SIZE rest)"
    using Suc.prems(4) mi by simp_all
  have p: "po + i < length pages" using Suc.prems(3) im by simp
  from page_io_refines [OF Suc.prems(1) p, of 0 "take PAGE_SIZE rest" b] len
  obtain pm1 d where io: "page_io b pm (pages ! (po + i)) (take PAGE_SIZE rest) = Inr (pm1, d)"
    and r1: "io_refines pages b pm (PAGE_SIZE * (po + i)) (take PAGE_SIZE rest) (pm1, d)"
    by auto
  have ok1: "pages_ok pm1 pages" using r1 Suc.prems(1) by (rule pages_ok_refines)
  have k: "k = m - Suc i" using mi by simp
  have "\<exists>pm2 ds. io_middle_pages b pages po (Suc i) m pm1 (drop PAGE_SIZE rest)
      = Inr (pm2, ds, drop (PAGE_SIZE * (m - Suc i)) (drop PAGE_SIZE rest)) \<and>
    io_refines pages b pm1 (PAGE_SIZE * (po + Suc i))
      (take (PAGE_SIZE * (m - Suc i)) (drop PAGE_SIZE rest)) (pm2, ds)"
    using Suc.prems(3) im len' k by (intro Suc.hyps(1) [OF k ok1]) auto
  then obtain pm2 ds where
    rec: "io_middle_pages b pages po (Suc i) m pm1 (drop PAGE_SIZE rest)
      = Inr (pm2, ds, drop (PAGE_SIZE * k) (drop PAGE_SIZE rest))"
    and r2: "io_refines pages b pm1 (PAGE_SIZE * (po + i) + PAGE_SIZE)
      (take (PAGE_SIZE * k) (drop PAGE_SIZE rest)) (pm2, ds)"
    unfolding k by (auto simp: algebra_simps)
  have "io_middle_pages b pages po i m pm rest
      = Inr (pm2, d @ ds, drop (PAGE_SIZE * (m - i)) rest)"
    using io rec p im len mi
    by (simp add: io_middle_pages.simps [of b pages po i m] add.commute)
  moreover have "io_refines pages b pm (PAGE_SIZE * (po + i))
      (take PAGE_SIZE rest @ take (PAGE_SIZE * k) (drop PAGE_SIZE rest)) (pm2, d @ ds)"
    using io_refines_append [OF r1] r2 len by simp
  moreover have "take PAGE_SIZE rest @ take (PAGE_SIZE * k) (drop PAGE_SIZE rest)
      = take (PAGE_SIZE * (m - i)) rest"
    using mi by (simp add: take_add)
  ultimately show ?case by auto
qed

text \<open>How many of the bytes asked for a transfer moves.\<close>

definition gr_xfer_len :: "nat \<Rightarrow> nat \<Rightarrow> nat" where
  "gr_xfer_len offset len = (if gr_page_count offset len = 2 then PAGE_SIZE - offset else len)"

lemma gr_page_count_eq:
  assumes "offset < PAGE_SIZE" and "len < 2 ^ 43"
  shows "gr_page_count offset len = (offset + len + (PAGE_SIZE - 1)) div PAGE_SIZE"
proof -
  let ?t = "offset + len + (PAGE_SIZE - 1)"
  have t: "?t < 2 ^ 44" using assms by simp
  have u: "unat (of_nat ?t :: u64) = ?t" by (rule unat_of_nat_u64) (use t in simp)
  have d: "unat (drop_bit 12 (of_nat ?t :: u64)) = ?t div PAGE_SIZE"
    by (simp only: unat_drop_bit_eq u) (simp add: drop_bit_eq_div)
  have "?t div PAGE_SIZE < 2 ^ 32" using t by (simp add: less_mult_imp_div_less)
  then show ?thesis
    by (simp only: gr_page_count_def unsigned_ucast_eq d) (simp add: take_bit_nat_eq_self)
qed

text \<open>The situation of a well-formed transfer: a region that encloses the range and backs it.\<close>

definition gr_io_ok :: "replay_context \<Rightarrow> pmem \<Rightarrow> u64 \<Rightarrow> nat \<Rightarrow> gpu_mem_region \<Rightarrow> bool" where
  "gr_io_ok rctx pm gaddr len gm \<longleftrightarrow>
     (\<exists>ro. gr_find_region_enclosing_address rctx gaddr = Some ro \<and> gm_region rctx ! ro = gm) \<and>
     page_aligned (gm_start gm) \<and> gm_start gm \<le> gaddr \<and>
     pages_ok pm (gm_pages gm) \<and>
     0 < len \<and> len < 2 ^ 43 \<and>
     unat gaddr + len \<le> unat (gm_end gm) \<and>
     unat (gaddr - gm_start gm) + len \<le> PAGE_SIZE * length (gm_pages gm)"

definition region_pos :: "gpu_mem_region \<Rightarrow> u64 \<Rightarrow> nat" where
  "region_pos gm gaddr = unat (gaddr - gm_start gm)"

lemma take_bit_diff_aligned:
  assumes "page_aligned s"
  shows "take_bit 12 (g - s) = take_bit 12 (g :: u64)"
proof -
  have "take_bit 12 (g - s + s) = take_bit 12 (take_bit 12 (g - s) + take_bit 12 s)"
    by transfer (simp add: take_bit_add)
  then show ?thesis using assms by (simp add: page_aligned_def)
qed

lemma region_pos_parts:
  assumes "page_aligned (gm_start gm)"
  shows "unat (drop_bit PAGE_SHIFT (gaddr - gm_start gm)) = region_pos gm gaddr div PAGE_SIZE"
    and "page_offset_of gaddr = region_pos gm gaddr mod PAGE_SIZE"
proof -
  show "unat (drop_bit PAGE_SHIFT (gaddr - gm_start gm)) = region_pos gm gaddr div PAGE_SIZE"
    by (simp only: region_pos_def unat_drop_bit_eq) (simp add: drop_bit_eq_div)
  have "take_bit 12 gaddr = take_bit 12 (gaddr - gm_start gm)"
    using take_bit_diff_aligned [OF assms] by simp
  then show "page_offset_of gaddr = region_pos gm gaddr mod PAGE_SIZE"
    by (simp only: page_offset_of_def region_pos_def unsigned_take_bit_eq) (simp add: take_bit_eq_mod)
qed

lemma unat_add_no_bug:
  assumes "unat g + len \<le> unat (e :: u64)"
  shows "\<not> e < g + of_nat len"
proof -
  have "unat e < 2 ^ 64" using unsigned_less [of e] by simp
  then have "unat (g + of_nat len) = unat g + len"
    using assms by (simp add: unat_word_ariths unat_of_nat)
  then show ?thesis using assms by (simp add: word_less_nat_alt)
qed

text \<open>The copy when it touches one or two pages: only the first page's part is moved.\<close>

lemma io_short_refines:
  assumes pok: "pages_ok pm pages" and po: "po < length pages" and off: "off < PAGE_SIZE"
    and pc: "\<not> pc > 2" and sz: "sz = min (PAGE_SIZE - off) (length buf)"
  shows "\<exists>pm' d. io_first_middle_last b pages po off pc pm buf = Inr (pm', d @ drop sz buf) \<and>
    io_refines pages b pm (PAGE_SIZE * po + off) (take sz buf) (pm', d)"
proof -
  have "off + length (take sz buf) \<le> PAGE_SIZE" using off by (simp add: sz)
  from page_io_refines [OF pok po this off, of b] show ?thesis
    using pc by (auto simp: io_first_middle_last_def Let_def sz)
qed

text \<open>The copy when it touches three pages or more: everything is moved.\<close>

lemma io_long_refines:
  assumes pok: "pages_ok pm pages" and off: "off < PAGE_SIZE" and pc: "pc > 2"
    and lo: "PAGE_SIZE * (pc - 1) < off + length buf" and hi: "off + length buf \<le> PAGE_SIZE * pc"
    and top: "po + (pc - 1) < length pages"
  shows "\<exists>pm' d. io_first_middle_last b pages po off pc pm buf = Inr (pm', d) \<and>
    io_refines pages b pm (PAGE_SIZE * po + off) buf (pm', d)"
proof -
  define sz mid where "sz = PAGE_SIZE - off" and "mid = PAGE_SIZE * (pc - 2)"
  define rest where "rest = drop sz buf"
  have pcm: "pc - 1 - 1 = pc - 2" "PAGE_SIZE * (pc - 1) = mid + PAGE_SIZE"
      "PAGE_SIZE * pc = mid + PAGE_SIZE + PAGE_SIZE"
    using pc by (auto simp: mid_def)
  have szl: "sz \<le> length buf" "min (PAGE_SIZE - off) (length buf) = sz"
    using lo pcm off by (auto simp: sz_def)
  have rl: "mid < length rest" "length rest \<le> mid + PAGE_SIZE"
    using lo hi off unfolding pcm by (auto simp: sz_def rest_def)
  have "po < length pages" "off + length (take sz buf) \<le> PAGE_SIZE"
    using top szl off by (auto simp: sz_def)
  from page_io_refines [OF pok this off, of b] obtain pm1 d1 where
    io1: "page_io b pm (pages ! po + of_nat off) (take sz buf) = Inr (pm1, d1)"
    and r1: "io_refines pages b pm (PAGE_SIZE * po + off) (take sz buf) (pm1, d1)" by auto
  have ok1: "pages_ok pm1 pages" using r1 pok by (rule pages_ok_refines)
  have p1: "PAGE_SIZE * (po + 1) = PAGE_SIZE * po + off + sz" using off by (simp add: sz_def)
  have "\<exists>pm2 d2. io_middle_pages b pages po 1 (pc - 1) pm1 rest
        = Inr (pm2, d2, drop (PAGE_SIZE * (pc - 1 - 1)) rest) \<and>
      io_refines pages b pm1 (PAGE_SIZE * (po + 1)) (take (PAGE_SIZE * (pc - 1 - 1)) rest) (pm2, d2)"
    by (rule io_middle_pages_refines [OF ok1])
      (use pc top rl(1) pcm(1) in \<open>auto simp: mid_def\<close>)
  then obtain pm2 d2 where
    io2: "io_middle_pages b pages po 1 (pc - 1) pm1 rest = Inr (pm2, d2, drop mid rest)"
    and r2: "io_refines pages b pm1 (PAGE_SIZE * po + off + sz) (take mid rest) (pm2, d2)"
    unfolding pcm p1 mid_def [symmetric] by auto
  have ok2: "pages_ok pm2 pages" using r2 ok1 by (rule pages_ok_refines)
  have l: "drop mid rest \<noteq> []" "length (drop mid rest) \<le> PAGE_SIZE" using rl by auto
  from page_io_refines [OF ok2 top, of 0 "drop mid rest" b] l obtain pm3 d3 where
    io3: "page_io b pm2 (pages ! (po + (pc - 1))) (drop mid rest) = Inr (pm3, d3)"
    and r3: "io_refines pages b pm2 (PAGE_SIZE * (po + (pc - 1))) (drop mid rest) (pm3, d3)"
    by auto
  have p3: "PAGE_SIZE * (po + (pc - 1)) = PAGE_SIZE * po + off + sz + mid"
    using pcm(2) off by (simp add: sz_def algebra_simps)
  have "io_refines pages b pm (PAGE_SIZE * po + off)
      (take sz buf @ take mid rest @ drop mid rest) (pm3, d1 @ d2 @ d3)"
    using io_refines_append [OF r1, of "take mid rest @ drop mid rest"]
      io_refines_append [OF r2, of "drop mid rest" pm3 d3] r3 szl(1) rl(1)
    unfolding p3 by (simp add: min_absorb2)
  then have "io_refines pages b pm (PAGE_SIZE * po + off) buf (pm3, d1 @ d2 @ d3)"
    by (simp only: rest_def append_take_drop_id)
  moreover have "io_first_middle_last b pages po off pc pm buf = Inr (pm3, d1 @ d2 @ d3)"
    using io1 io2 io3 l pc top by (simp add: io_first_middle_last_def szl(2) flip: rest_def)
  ultimately show ?thesis by blast
qed

lemma gr_gpu_mem_io_refines:
  assumes ok: "gr_io_ok rctx pm gaddr (length buf) gm"
  shows "\<exists>pm' d. gr_gpu_mem_io rctx pm gaddr buf b
       = Inr (pm', d @ drop (gr_xfer_len (page_offset_of gaddr) (length buf)) buf) \<and>
     io_refines (gm_pages gm) b pm (region_pos gm gaddr)
       (take (gr_xfer_len (page_offset_of gaddr) (length buf)) buf) (pm', d)"
proof -
  define off po pc where "off = region_pos gm gaddr mod PAGE_SIZE"
    and "po = region_pos gm gaddr div PAGE_SIZE"
    and "pc = (off + length buf + (PAGE_SIZE - 1)) div PAGE_SIZE"
  from ok obtain ro where ro: "gr_find_region_enclosing_address rctx gaddr = Some ro"
      "gm_region rctx ! ro = gm"
    and al: "page_aligned (gm_start gm)" and pok: "pages_ok pm (gm_pages gm)"
    and len: "0 < length buf" "length buf < 2 ^ 43"
    and fin: "\<not> gm_end gm < gaddr + of_nat (length buf)"
    and pos: "region_pos gm gaddr + length buf \<le> PAGE_SIZE * length (gm_pages gm)"
    using unat_add_no_bug by (auto simp: gr_io_ok_def region_pos_def)
  note parts = region_pos_parts [OF al, of gaddr, folded off_def po_def]
  have off: "off < PAGE_SIZE" and rp: "region_pos gm gaddr = PAGE_SIZE * po + off"
    by (simp_all add: off_def po_def)
  have cnt: "gr_page_count off (length buf) = pc"
    using gr_page_count_eq [OF off len(2)] by (simp add: pc_def)
  have pcb: "PAGE_SIZE * pc \<le> off + length buf + 4095" "off + length buf \<le> PAGE_SIZE * pc"
    using times_div_less_eq_dividend [of PAGE_SIZE "off + length buf + 4095"]
      dividend_less_times_div [of PAGE_SIZE "off + length buf + 4095"]
    by (simp_all add: pc_def)
  have "PAGE_SIZE * po < PAGE_SIZE * length (gm_pages gm)" using pos len rp by linarith
  then have po: "po < length (gm_pages gm)" by simp
  have eq: "gr_gpu_mem_io rctx pm gaddr buf b = io_first_middle_last b (gm_pages gm) po off pc pm buf"
    using ro fin po by (simp add: gr_gpu_mem_io_def Let_def parts cnt)
  show ?thesis
  proof (cases "pc > 2")
    case False
    have x: "gr_xfer_len off (length buf) = min (PAGE_SIZE - off) (length buf)"
      using False pcb len by (auto simp: gr_xfer_len_def cnt)
    show ?thesis
      using io_short_refines [OF pok po off False refl, where b = b and buf = buf] x by (simp add: eq rp parts)
  next
    case True
    have "PAGE_SIZE * (po + (pc - 1)) < PAGE_SIZE * length (gm_pages gm)"
      using pcb True pos rp by (simp add: algebra_simps)
    then have top: "po + (pc - 1) < length (gm_pages gm)" by simp
    have lo: "PAGE_SIZE * (pc - 1) < off + length buf" using pcb(1) True by simp
    show ?thesis
      using io_long_refines [OF pok off True lo pcb(2) top, of b] True
      by (simp add: eq rp parts gr_xfer_len_def cnt)
  qed
qed

section \<open>Properties\<close>

definition demo_pmem :: pmem where
  "demo_pmem = \<lparr>frames = (\<lambda>p i. 0), mappable = (\<lambda>p. True)\<rparr>"

definition demo_region :: gpu_mem_region where
  "demo_region = \<lparr>gm_start = 0x10000, gm_end = 0x14000,
     gm_pages = [0x1000, 0x3000, 0x2000, 0x5000], gm_nr_pages = 4, gm_flags = 0x606e,
     gm_is_valid = True, gm_is_synced = False\<rparr>"

definition demo_rctx :: replay_context where
  "demo_rctx = \<lparr>config = \<lparr>nr_prep_jobs = 0, nr_comp_jobs = 0, nr_tot_jobs = 0,
       test_checkpoint = False, is_validate = False\<rparr>,
     old_transtab = 0, new_transtab = 0, gm_region = [demo_region], tot_nr_pages = 4, sas = [],
     user_pgt = User_Pgtable 0 (\<lambda>i. None), provision = None, nr_written_pages = 0,
     ts_prep_start = 0, ts_prep_end = 0, ts_comp_start = 0, ts_comp_end = 0,
     tot_prep_time = 0, tot_comp_time = 0\<rparr>"

lemma demo_io_ok:
  assumes "0 < len" and "len \<le> 0x3000"
  shows "gr_io_ok demo_rctx demo_pmem 0x10010 len demo_region"
  using assms by (simp add: gr_io_ok_def demo_rctx_def demo_pmem_def demo_region_def
      gr_find_region_enclosing_address_def pages_ok_def page_aligned_def)

lemma demo_offset: "page_offset_of 0x10010 = 16"
  by (simp add: page_offset_of_def)

text \<open>
  Copying a buffer to GPU memory that does not touch exactly two pages stores the whole
  buffer at its place in the region's linear contents, and changes no other byte of the region
  and no other physical page.
\<close>

theorem gr_copy_to_gpu_stores:
  assumes "gr_io_ok rctx pm gaddr (length buf) gm"
    and "gr_page_count (page_offset_of gaddr) (length buf) \<noteq> 2"
  shows "\<exists>pm'. gr_copy_to_gpu rctx pm gaddr buf = Inr pm' \<and>
    region_bytes (gm_pages gm) pm' = frame_put (region_bytes (gm_pages gm) pm) (region_pos gm gaddr) buf \<and>
    (\<forall>q. q \<notin> set (gm_pages gm) \<longrightarrow> frames pm' q = frames pm q)"
  using gr_gpu_mem_io_refines [OF assms(1), of False] assms(2)
  by (auto simp: gr_copy_to_gpu_def gr_xfer_len_def io_refines_def lin_io_def)

theorem gr_copy_to_gpu_stores_witness:
  "\<exists>pm'. gr_copy_to_gpu demo_rctx demo_pmem 0x10010 [1, 2, 3] = Inr pm' \<and>
    region_bytes (gm_pages demo_region) pm' =
      frame_put (region_bytes (gm_pages demo_region) demo_pmem) (region_pos demo_region 0x10010) [1, 2, 3]"
proof -
  have "gr_io_ok demo_rctx demo_pmem 0x10010 (length [1, 2, 3 :: u8]) demo_region"
    by (rule demo_io_ok) simp_all
  moreover have "gr_page_count (page_offset_of 0x10010) (length [1, 2, 3 :: u8]) \<noteq> 2"
    by (simp add: demo_offset gr_page_count_eq)
  ultimately show ?thesis using gr_copy_to_gpu_stores by blast
qed

text \<open>
  Reading back what was written gives the same buffer: the two directions of the copy
  agree, across any number of pages other than two.
\<close>

theorem gr_copy_roundtrip:
  assumes "gr_io_ok rctx pm gaddr (length buf) gm"
    and "gr_page_count (page_offset_of gaddr) (length buf) \<noteq> 2"
    and "length out = length buf"
  shows "\<exists>pm'. gr_copy_to_gpu rctx pm gaddr buf = Inr pm' \<and>
    gr_copy_from_gpu rctx pm' gaddr out = Inr buf"
proof -
  have "\<exists>pm' d. gr_gpu_mem_io rctx pm gaddr buf False = Inr (pm', d) \<and>
      io_refines (gm_pages gm) False pm (region_pos gm gaddr) buf (pm', d)"
    using gr_gpu_mem_io_refines [OF assms(1), of False] assms(2) by (auto simp: gr_xfer_len_def)
  then obtain pm' d where w: "gr_gpu_mem_io rctx pm gaddr buf False = Inr (pm', d)"
    and r: "io_refines (gm_pages gm) False pm (region_pos gm gaddr) buf (pm', d)" by blast
  have "gr_io_ok rctx pm' gaddr (length out) gm"
    using assms(1,3) pages_ok_refines [OF r] by (auto simp: gr_io_ok_def)
  from gr_gpu_mem_io_refines [OF this, of True] assms(2,3)
  obtain pm'' d' where rd: "gr_gpu_mem_io rctx pm' gaddr out True = Inr (pm'', d')"
    and r': "io_refines (gm_pages gm) True pm' (region_pos gm gaddr) out (pm'', d')"
    by (auto simp: gr_xfer_len_def)
  have "d' = buf" using r r' assms(3) by (simp add: io_refines_def lin_io_def frame_get_put_same)
  then show ?thesis using w rd by (simp add: gr_copy_to_gpu_def gr_copy_from_gpu_def)
qed

theorem gr_copy_roundtrip_witness:
  "\<exists>pm'. gr_copy_to_gpu demo_rctx demo_pmem 0x10010 (replicate 0x2100 7) = Inr pm' \<and>
    gr_copy_from_gpu demo_rctx pm' 0x10010 (replicate 0x2100 0) = Inr (replicate 0x2100 7)"
proof (rule gr_copy_roundtrip [where gm = demo_region])
  show "gr_io_ok demo_rctx demo_pmem 0x10010 (length (replicate 0x2100 (7 :: u8))) demo_region"
    by (rule demo_io_ok) simp_all
  show "gr_page_count (page_offset_of 0x10010) (length (replicate 0x2100 (7 :: u8))) \<noteq> 2"
    by (simp add: demo_offset gr_page_count_eq)
  show "length (replicate 0x2100 (0 :: u8)) = length (replicate 0x2100 (7 :: u8))" by simp
qed

text \<open>
  When the range touches exactly two pages the copy still returns normally, but only the
  part on the first page is stored: the guard \<open>page_count > 2\<close> of the last stage also skips
  the second of two pages. Every byte of the region from the page boundary on is unchanged.
\<close>

theorem gr_copy_to_gpu_two_pages:
  assumes "gr_io_ok rctx pm gaddr (length buf) gm"
    and "gr_page_count (page_offset_of gaddr) (length buf) = 2"
  shows "\<exists>pm'. gr_copy_to_gpu rctx pm gaddr buf = Inr pm' \<and>
    region_bytes (gm_pages gm) pm' =
      frame_put (region_bytes (gm_pages gm) pm) (region_pos gm gaddr)
        (take (PAGE_SIZE - page_offset_of gaddr) buf)"
  using gr_gpu_mem_io_refines [OF assms(1), of False] assms(2)
  by (auto simp: gr_copy_to_gpu_def gr_xfer_len_def io_refines_def lin_io_def)

theorem gr_copy_to_gpu_two_pages_witness:
  "\<exists>pm'. gr_copy_to_gpu demo_rctx demo_pmem 0x10010 (replicate 0x1000 7) = Inr pm' \<and>
    region_bytes (gm_pages demo_region) pm' =
      frame_put (region_bytes (gm_pages demo_region) demo_pmem) (region_pos demo_region 0x10010)
        (take (PAGE_SIZE - page_offset_of 0x10010) (replicate 0x1000 7))"
proof (rule gr_copy_to_gpu_two_pages)
  show "gr_io_ok demo_rctx demo_pmem 0x10010 (length (replicate 0x1000 (7 :: u8))) demo_region"
    by (rule demo_io_ok) simp_all
  show "gr_page_count (page_offset_of 0x10010) (length (replicate 0x1000 (7 :: u8))) = 2"
    by (simp add: demo_offset gr_page_count_eq)
qed

end
