(* ===== verification/GR_PgtReplay.thy ===== *)
theory GR_PgtReplay
  imports GR_Mempool GR_MemIO
begin

text \<open>
  From the recorder's page table to the replayer's: the dump of the driver, the reconstruction
  on the pages of the kernel module's pool, and the replayer's two page walks put together.
\<close>

unbundle bit_operations_syntax

lemma gr_manager_alloc_get_single_page_eq: "gr_manager_alloc_get_single_page = ioctl_get_page"
  by (intro ext) (simp add: gr_manager_alloc_get_single_page_def)

lemma driver_pte_valid:
  "l < 3 \<Longrightarrow> gr_pte_is_valid e l = pte_is_valid aarch64_mode e l"
  "l < 3 \<Longrightarrow> gr_pte_is_valid e l = pte_is_valid lpae_mode e l"
  by (simp_all add: gr_pte_is_valid_def aarch64_mode_def lpae_mode_def aarch64_pte_is_valid_def
      lpae_pte_is_valid_def)

text \<open>The recorded address space, the counter of its tables, and the pages for the new one.\<close>

definition record_ok :: "kbase_mmu_mode \<Rightarrow> pmem \<Rightarrow> u64 \<Rightarrow> gr_mmu \<Rightarrow> bool" where
  "record_ok mode pmk p t \<longleftrightarrow>
     (mode = aarch64_mode \<or> mode = lpae_mode) \<and> pgt_mapped mode pmk p \<and>
     pgt_file_ok mode pmk p (pgt_nr_pages t) \<and> \<not> mmu_is_done t"

lemma record_replay_pgt:
  assumes "record_ok mode pmk p t" and "mempool_ok s (mappable pm)"
    and "pgt_tables mode pmk p \<le> pages_left s"
  obtains t' up s' pm' where "gr_mmu_dump mode get_setup pmk p t = Inr t'"
    and "gr_pgt_init gr_manager_alloc_get_single_page rctx (Some (pgt_file t')) s pm =
      Inr (rctx\<lparr>user_pgt := up\<rparr>, transtab (get_setup p), phys_page up, s', pm')"
    and "pool.grows s pm s' pm'" and "rebuilt mode pmk 3 p pm' up" and "upt_distinct 3 up"
    and "upages 3 up \<subseteq> pages_in_use s' - pages_in_use s"
    and "pages_left s \<le> pages_left s' + pgt_tables mode pmk p"
proof -
  have valid: "l < 3 \<Longrightarrow> gr_pte_is_valid e l = pte_is_valid mode e l" for e l
    using assms(1) driver_pte_valid by (auto simp: record_ok_def)
  from assms(1) have m: "pgt_mapped mode pmk p" "pgt_file_ok mode pmk p (pgt_nr_pages t)"
    "\<not> mmu_is_done t" by (simp_all add: record_ok_def)
  then have "pgt_tables mode pmk p \<le> pgt_nr_pages t" by (simp add: pgt_file_ok_def)
  from gr_mmu_dump_file [OF m(1) this m(3), of get_setup] obtain t' tail where
    t': "gr_mmu_dump mode get_setup pmk p t = Inr t'"
    "pgt_file t' = words_bytes (pgt_file_words mode get_setup pmk p (pgt_nr_pages t)) @ tail" by blast
  show thesis
    by (rule pool.gr_pgt_init_rebuilt [OF m(2) valid assms(2,3), of rctx get_setup tail])
      (use t' that in \<open>auto simp: gr_manager_alloc_get_single_page_eq\<close>)
qed

section \<open>Properties\<close>

text \<open>
  C18. A page table recorded by the driver and rebuilt by the replayer translates like the
  original: wherever the recorded table has a bottom table for a GPU address, both of the
  replayer's walks reach the same new page, which holds the entries of that bottom table, is
  freshly allocated, and no page that was in use before is changed. The address returned as
  the old table is the value of \<open>TRANSTAB\<close> that the driver recorded.
\<close>

theorem record_replay_page_table:
  assumes "record_ok mode pmk p t" and "mempool_ok s (mappable pm)"
    and "pgt_tables mode pmk p \<le> pages_left s"
  shows "\<exists>t' rctx' new s' pm'.
    gr_mmu_dump mode get_setup pmk p t = Inr t' \<and>
    gr_pgt_init gr_manager_alloc_get_single_page rctx (Some (pgt_file t')) s pm =
      Inr (rctx', transtab (get_setup p), new, s', pm') \<and>
    (\<forall>gaddr b. table_walk mode pmk (PFN_DOWN gaddr) 3 p = Some b \<longrightarrow>
       (\<exists>leaf. gr_get_user_pgd_at_level rctx' gaddr 3 = Inr leaf \<and>
          gr_get_pgd_at_level pm' gaddr 3 new = Inr (phys_page leaf) \<and>
          frame_words (frames pm' (phys_page leaf)) = frame_words (frames pmk b) \<and>
          phys_page leaf \<in> pages_in_use s' - pages_in_use s)) \<and>
    (\<forall>q \<in> pages_in_use s. frames pm' q = frames pm q)"
proof -
  obtain t' up s' pm' where d: "gr_mmu_dump mode get_setup pmk p t = Inr t'"
    and i: "gr_pgt_init gr_manager_alloc_get_single_page rctx (Some (pgt_file t')) s pm =
      Inr (rctx\<lparr>user_pgt := up\<rparr>, transtab (get_setup p), phys_page up, s', pm')"
    and g: "pool.grows s pm s' pm'" and r: "rebuilt mode pmk 3 p pm' up"
    and u: "upages 3 up \<subseteq> pages_in_use s' - pages_in_use s"
    by (rule record_replay_pgt [OF assms])
  have v: "valid_pa q \<and> mappable pm' q" if "q \<in> upages 3 up" for q
    using g that u by (auto simp: pool.grows_def)
  have "\<exists>leaf. gr_get_user_pgd_at_level (rctx\<lparr>user_pgt := up\<rparr>) gaddr 3 = Inr leaf \<and>
      gr_get_pgd_at_level pm' gaddr 3 (phys_page up) = Inr (phys_page leaf) \<and>
      frame_words (frames pm' (phys_page leaf)) = frame_words (frames pmk b) \<and>
      phys_page leaf \<in> pages_in_use s' - pages_in_use s"
    if "table_walk mode pmk (PFN_DOWN gaddr) 3 p = Some b" for gaddr b
    using rebuilt_walk [OF r that order_refl v] u
    by (auto simp: gr_get_user_pgd_at_level_def gr_get_pgd_at_level_def)
  moreover have "frames pm' q = frames pm q" if "q \<in> pages_in_use s" for q
    using g that by (simp add: pool.grows_def)
  ultimately show ?thesis using d i by blast
qed

definition demo_mmu :: gr_mmu where
  "demo_mmu = \<lparr>tm_pgd = 0x1000, tm_transtab = 0, tm_memattr = 0, tm_transcfg = 0,
     pgt_nr_pages = 4, mmu_is_done = False, pgt_file = []\<rparr>"

lemma demo_dump_words:
  "pgt_words aarch64_mode demo_tables 0x1000 =
     [0x1000, 0x2403] @ replicate 511 0 @ [0x2001, 0x3403] @ replicate 511 0 @
     [0x3002, 0x4403] @ replicate 511 0 @ [0x4003, 0x9443] @ replicate 511 0"
proof -
  have m: "(0x4000 :: u64) AND PAGE_MASK = 0x4000" by (simp add: mask_eq_exp_minus_1)
  have b: "dump_words aarch64_mode demo_tables 0 0x4000 = 0x4003 # 0x9443 # replicate 511 0"
    by (simp add: m demo_tables_def frame_words_single demo_entry_def)
  have s: "dump_words aarch64_mode demo_tables (Suc 0) 0x3000 =
      [0x3002, 0x4403] @ replicate 511 0 @ dump_words aarch64_mode demo_tables 0 0x4000"
    "dump_words aarch64_mode demo_tables (Suc (Suc 0)) 0x2000 =
      [0x2001, 0x3403] @ replicate 511 0 @ dump_words aarch64_mode demo_tables (Suc 0) 0x3000"
    "dump_words aarch64_mode demo_tables (Suc (Suc (Suc 0))) 0x1000 =
      [0x1000, 0x2403] @ replicate 511 0 @ dump_words aarch64_mode demo_tables (Suc (Suc 0)) 0x2000"
    using demo_dump_words_Suc [of "0x3000" 0, unfolded demo_pte_types]
      demo_dump_words_Suc [of "0x2000" "Suc 0", unfolded demo_pte_types]
      demo_dump_words_Suc [of "0x1000" "Suc (Suc 0)", unfolded demo_pte_types]
    by (simp_all add: demo_entry_def del: dump_words.simps)
  have "dump_words aarch64_mode demo_tables (Suc (Suc (Suc 0))) 0x1000 =
     [0x1000, 0x2403] @ replicate 511 0 @ [0x2001, 0x3403] @ replicate 511 0 @
     [0x3002, 0x4403] @ replicate 511 0 @ [0x4003, 0x9443] @ replicate 511 0"
    unfolding s b by simp
  then show ?thesis by (simp only: pgt_words_def numeral_3_eq_3 diff_zero)
qed

lemma demo_record_ok: "record_ok aarch64_mode demo_tables 0x1000 demo_mmu"
proof -
  have "pgt_mapped aarch64_mode demo_tables 0x1000"
    unfolding pgt_mapped_def by (rule tables_mapped_all) (simp add: demo_tables_def)
  moreover have "pgt_tables aarch64_mode demo_tables 0x1000 = 4"
    by (simp add: pgt_tables_def nr_tables_def demo_nr_tables)
  moreover have "0xFFFFFFFFFF \<notin> set (pgt_words aarch64_mode demo_tables 0x1000)"
    unfolding demo_dump_words by simp
  ultimately show ?thesis by (simp add: record_ok_def pgt_file_ok_def demo_mmu_def)
qed

theorem record_replay_page_table_witness:
  "\<exists>t' rctx' new s' pm'.
    gr_mmu_dump aarch64_mode kbase_mmu_get_as_setup demo_tables 0x1000 demo_mmu = Inr t' \<and>
    gr_pgt_init gr_manager_alloc_get_single_page demo_rctx (Some (pgt_file t')) demo_mempool demo_pmem =
      Inr (rctx', 0x1000, new, s', pm')"
proof -
  have "mempool_ok demo_mempool (mappable demo_pmem)" using demo_mempool_ok by (simp add: demo_pmem_def)
  moreover have "pgt_tables aarch64_mode demo_tables 0x1000 \<le> pages_left demo_mempool"
    by (simp add: pgt_tables_def nr_tables_def demo_nr_tables pages_left_def demo_mempool_def
        ioctl_mempool_init_def demo_kern_def)
  moreover have "transtab (kbase_mmu_get_as_setup 0x1000) = 0x1000"
    by (rule kbase_mmu_get_as_setup_transtab) (simp_all add: page_aligned_def)
  ultimately show ?thesis
    using record_replay_page_table [OF demo_record_ok, of demo_mempool demo_pmem
        kbase_mmu_get_as_setup demo_rctx] by auto
qed

end
