(* ===== verification/GR_Recorder.thy ===== *)
theory GR_Recorder
  imports GR_MemContents
begin

text \<open>
  The recorder in the driver (\<open>gr/gr_as.c\<close>, \<open>gr/gr_defs.h\<close>): the list of address spaces that
  the runtime maps, the dump of their memory into the file the replayer reads, and the list of
  the synchronised address spaces. The calls are those of \<open>mali_kbase_core_linux.c\<close>:
  \<open>kbase_api_job_submit\<close> before each submission and \<open>kbase_api_post_term\<close> at the end.
\<close>

unbundle bit_operations_syntax

section \<open>Data\<close>

datatype gr_as_type =
    GR_AS_TYPE_UNKNOWN | GR_AS_TYPE_GPU_BINARY | GR_AS_TYPE_INOUT
  | GR_AS_TYPE_ALL_WO_COMPUTE_JOB | GR_AS_TYPE_COMPUTE_JOB | GR_AS_TYPE_ALL

text \<open>
  What the recorder uses of \<open>struct kbase_va_region\<close> and its CPU allocation. A region is
  reached through the pointer in \<open>struct gr_as\<close>; \<open>heap\<close> maps such pointers to the regions that
  are still allocated.
\<close>

record va_region =
  rg_start_pfn :: u64
  rg_nr_pages :: u64
  rg_flags :: u64
  rg_nents :: u64
  rg_pages :: "u64 list"
  rg_cpu_type :: u32
  rg_gpu_type :: u32

type_synonym heap = "u64 \<Rightarrow> va_region option"

record vm_area =
  vma_start :: u64
  vma_end :: u64

record gr_as =
  as_vm_start :: u64
  as_vm_end :: u64
  as_start_pfn :: u64
  as_nr_pages :: u64
  as_nents :: u64
  as_flags :: u32
  as_is_valid :: bool
  as_num :: u32
  as_is_dumped :: bool
  as_cpu_type :: u32
  as_gpu_type :: u32
  as_reg :: u64
  as_type :: gr_as_type

record gr_sync_as =
  sy_vm_start :: u64
  sy_vm_end :: u64
  sy_size :: u64
  sy_cpu_to_gpu :: u8
  sy_gpu_to_cpu :: u8

record gr_context =
  as_list :: "gr_as list"
  as_cnt :: u32
  sync_as_list :: "gr_sync_as list"
  sync_as_cnt :: u32
  sync_as_file :: "wfile option"
  mem_dump_file :: "wfile option"

abbreviation (input) GR_FAIL :: nat where "GR_FAIL \<equiv> 0"
abbreviation (input) GR_SUCCESS :: nat where "GR_SUCCESS \<equiv> 1"

abbreviation (input) REG_GPU_NX :: nat where "REG_GPU_NX \<equiv> 3"
abbreviation (input) REG_CPU_CACHED :: nat where "REG_CPU_CACHED \<equiv> 4"
abbreviation (input) REG_GPU_CACHED :: nat where "REG_GPU_CACHED \<equiv> 5"

text \<open>\<open>file_write\<close> on the result of \<open>file_open\<close>, which is a null pointer when the open failed.\<close>

definition file_put :: "wfile option \<Rightarrow> u8 list \<Rightarrow> wfile option res" where
  "file_put f bs = (case f of None \<Rightarrow> Inl Bad_Access | Some g \<Rightarrow> Inr (Some (file_write g bs)))"

section \<open>The context\<close>

text \<open>The two files as \<open>file_open\<close> returns them; the offset of the next write is reset.\<close>

definition gr_context_init :: "bool \<Rightarrow> u8 list option \<Rightarrow> u8 list option \<Rightarrow> int \<times> gr_context option" where
  "gr_context_init alloc_ok mem_file sync_file =
     (if \<not> alloc_ok then (-1, None)
      else (0, Some \<lparr> as_list = [], as_cnt = 0, sync_as_list = [], sync_as_cnt = 0,
                     sync_as_file = map_option (\<lambda>bs. \<lparr> wf_data = bs, wf_offset = 0 \<rparr>) sync_file,
                     mem_dump_file = map_option (\<lambda>bs. \<lparr> wf_data = bs, wf_offset = 0 \<rparr>) mem_file \<rparr>))"

text \<open>
  \<open>list_for_each_entry\<close> with \<open>kfree\<close> in its body: entry \<open>i\<close> is freed and then read to reach the
  next one.
\<close>

fun kfree_each :: "'a list \<Rightarrow> nat \<Rightarrow> nat set \<Rightarrow> nat set res" where
  "kfree_each [] i released = Inr released"
| "kfree_each (x # xs) i released =
     (if i \<in> released then Inl Bad_Access
      else (let released' = insert i released
            in if i \<in> released' then Inl Bad_Access else kfree_each xs (Suc i) released'))"

definition gr_context_term :: "gr_context \<Rightarrow> unit res" where
  "gr_context_term ctx =
     (if mem_dump_file ctx = None \<or> sync_as_file ctx = None then Inl Bad_Access
      else bindR (kfree_each (as_list ctx) 0 {}) (\<lambda>u.
           bindR (kfree_each (sync_as_list ctx) 0 {}) (\<lambda>v. Inr ())))"

section \<open>Synchronised address spaces\<close>

record syncset =
  ss_type :: u8
  ss_user_addr :: u64
  ss_size :: u64

definition count_sync :: "u8 \<Rightarrow> gr_sync_as \<Rightarrow> (nat \<times> gr_sync_as)" where
  "count_sync ty e =
     (if ty = 1 then (GR_SUCCESS, e\<lparr> sy_cpu_to_gpu := sy_cpu_to_gpu e + 1 \<rparr>)
      else if ty = 2 then (GR_SUCCESS, e\<lparr> sy_gpu_to_cpu := sy_gpu_to_cpu e + 1 \<rparr>)
      else (GR_FAIL, e))"

text \<open>The first entry with the bounds is found and counted; \<open>None\<close> when there is none.\<close>

fun count_existing :: "u64 \<Rightarrow> u64 \<Rightarrow> u8 \<Rightarrow> gr_sync_as list \<Rightarrow> (nat \<times> gr_sync_as list) option" where
  "count_existing st en ty [] = None"
| "count_existing st en ty (e # es) =
     (if sy_vm_start e = st \<and> sy_vm_end e = en
      then (let (r, e') = count_sync ty e in Some (r, e' # es))
      else map_option (\<lambda>(r, es'). (r, e # es')) (count_existing st en ty es))"

definition gr_as_add_sync :: "bool \<Rightarrow> gr_context \<Rightarrow> syncset \<Rightarrow> nat \<times> gr_context" where
  "gr_as_add_sync alloc_ok ctx sset =
     (let sync_vm_start = ss_user_addr sset;
          sync_vm_end = sync_vm_start + ss_size sset
      in case count_existing sync_vm_start sync_vm_end (ss_type sset) (sync_as_list ctx) of
           Some (r, es) \<Rightarrow> (r, ctx\<lparr> sync_as_list := es \<rparr>)
         | None \<Rightarrow>
             if \<not> alloc_ok then (GR_FAIL, ctx)
             else (let (r, e) = count_sync (ss_type sset)
                         \<lparr> sy_vm_start = sync_vm_start, sy_vm_end = sync_vm_end, sy_size = ss_size sset,
                           sy_cpu_to_gpu = 0, sy_gpu_to_cpu = 0 \<rparr>
                   in (r, ctx\<lparr> sync_as_cnt := sync_as_cnt ctx + 1,
                              sync_as_list := sync_as_list ctx @ [e] \<rparr>)))"

section \<open>Address spaces\<close>

text \<open>The page fault handler marks the first address space with the bounds of the mapping.\<close>

fun mark_valid :: "vm_area \<Rightarrow> u64 \<Rightarrow> gr_as list \<Rightarrow> gr_as list" where
  "mark_valid vma nents [] = []"
| "mark_valid vma nents (t # ts) =
     (if as_vm_start t = vma_start vma \<and> as_vm_end t = vma_end vma
      then t\<lparr> as_is_valid := True, as_nents := nents \<rparr> # ts
      else t # mark_valid vma nents ts)"

definition gr_as_add_valid :: "gr_context \<Rightarrow> vm_area \<Rightarrow> u64 \<Rightarrow> nat \<times> gr_context" where
  "gr_as_add_valid ctx vma nents =
     (GR_SUCCESS, ctx\<lparr> as_list := mark_valid vma nents (as_list ctx) \<rparr>)"

text \<open>
  The type of a new address space. The context is looked at for its counter before the test
  for a null pointer, unless the first test has decided already.
\<close>

definition classify_as :: "gr_context option \<Rightarrow> u32 \<Rightarrow> u64 \<Rightarrow> gr_as_type res" where
  "classify_as ctx fl nr_pages =
     (if \<not> bit fl REG_GPU_NX then Inr GR_AS_TYPE_GPU_BINARY
      else case ctx of
             None \<Rightarrow> Inl Bad_Access
           | Some c \<Rightarrow>
               if as_cnt c > 5 \<and> nr_pages = 1 \<and> \<not> bit fl REG_CPU_CACHED then Inr GR_AS_TYPE_COMPUTE_JOB
               else if bit fl REG_CPU_CACHED \<and> bit fl REG_GPU_CACHED then Inr GR_AS_TYPE_INOUT
               else Inr GR_AS_TYPE_UNKNOWN)"

definition gr_as_add ::
  "bool \<Rightarrow> heap \<Rightarrow> gr_context option \<Rightarrow> vm_area \<Rightarrow> u64 \<Rightarrow> (nat \<times> gr_context option) res" where
  "gr_as_add alloc_ok heap gr_ctx vma region =
     (if \<not> alloc_ok then Inr (GR_FAIL, gr_ctx)
      else case heap region of
             None \<Rightarrow> Inl Bad_Access
           | Some r \<Rightarrow>
               bindR (classify_as gr_ctx (ucast (rg_flags r)) (rg_nr_pages r)) (\<lambda>ty.
                 let tas = \<lparr> as_vm_start = vma_start vma, as_vm_end = vma_end vma,
                       as_start_pfn = rg_start_pfn r, as_nr_pages = rg_nr_pages r,
                       as_nents = rg_nents r, as_flags = ucast (rg_flags r), as_is_valid = False,
                       as_num = 0, as_is_dumped = False, as_cpu_type = rg_cpu_type r,
                       as_gpu_type = rg_gpu_type r, as_reg = region, as_type = ty \<rparr>
                 in Inr (GR_SUCCESS,
                      map_option (\<lambda>c. c\<lparr> as_cnt := as_cnt c + 1,
                                        as_list := as_list c @ [tas\<lparr> as_num := as_cnt c \<rparr>] \<rparr>) gr_ctx)))"

section \<open>Dump of the memory contents\<close>

text \<open>
  The pages of one address space, from number \<open>i\<close> on: virtual address, physical address and
  contents through \<open>kmap\<close>.
\<close>

fun dump_pages :: "pmem \<Rightarrow> u64 list \<Rightarrow> u64 \<Rightarrow> nat \<Rightarrow> nat \<Rightarrow> wfile \<Rightarrow> wfile res" where
  "dump_pages pm pages vm_start i 0 f = Inr f"
| "dump_pages pm pages vm_start i (Suc n) f =
     (if i < length pages
      then (let vaddr = vm_start + of_nat (PAGE_SIZE * i);
                paddr = as_phys_addr_t (pages ! i)
            in dump_pages pm pages vm_start (Suc i) n
                 (file_write (file_write (file_write f (le_bytes 8 vaddr)) (le_bytes 8 paddr))
                    (frame_get (frames pm paddr) 0 PAGE_SIZE)))
      else Inl Bad_Access)"

definition gr_dump_phys_pages ::
  "pmem \<Rightarrow> heap \<Rightarrow> wfile option \<Rightarrow> gr_as \<Rightarrow> (nat \<times> wfile option) res" where
  "gr_dump_phys_pages pm heap f tas =
     (case heap (as_reg tas) of
        None \<Rightarrow> Inl Bad_Access
      | Some r \<Rightarrow>
          case f of
            None \<Rightarrow> Inr (GR_FAIL, None)
          | Some g \<Rightarrow> bindR (dump_pages pm (rg_pages r) (as_vm_start tas) 0 (unat (as_nents tas)) g)
                       (\<lambda>g'. Inr (GR_SUCCESS, Some g')))"

definition gr_dump_mc ::
  "pmem \<Rightarrow> heap \<Rightarrow> wfile option \<Rightarrow> gr_as \<Rightarrow> (wfile option \<times> gr_as) res" where
  "gr_dump_mc pm heap f tas =
     bindR (file_put f (le_bytes 8 (as_vm_start tas))) (\<lambda>f1.
     bindR (file_put f1 (le_bytes 8 (as_vm_end tas))) (\<lambda>f2.
     bindR (file_put f2 (le_bytes 8 (as_nents tas))) (\<lambda>f3.
     bindR (file_put f3 (le_bytes 4 (as_flags tas))) (\<lambda>f4.
     bindR (file_put f4 [if as_is_valid tas then 1 else 0]) (\<lambda>f5.
     bindR (if as_is_valid tas then gr_dump_phys_pages pm heap f5 tas else Inr (GR_SUCCESS, f5))
       (\<lambda>(r, f6). Inr (f6, tas\<lparr> as_is_dumped := True \<rparr>)))))))"

definition gr_dump_mc_type ::
  "pmem \<Rightarrow> heap \<Rightarrow> gr_as_type \<Rightarrow> wfile option \<Rightarrow> gr_as \<Rightarrow> (wfile option \<times> gr_as) res" where
  "gr_dump_mc_type pm heap ty f tas =
     (case ty of
        GR_AS_TYPE_COMPUTE_JOB \<Rightarrow>
          if as_type tas = GR_AS_TYPE_COMPUTE_JOB \<or> as_type tas = GR_AS_TYPE_GPU_BINARY
          then gr_dump_mc pm heap f tas else Inr (f, tas)
      | GR_AS_TYPE_GPU_BINARY \<Rightarrow>
          if as_type tas = GR_AS_TYPE_COMPUTE_JOB \<or> as_type tas = GR_AS_TYPE_GPU_BINARY
          then gr_dump_mc pm heap f tas else Inr (f, tas)
      | GR_AS_TYPE_ALL_WO_COMPUTE_JOB \<Rightarrow>
          if as_type tas \<noteq> GR_AS_TYPE_COMPUTE_JOB \<and> as_type tas \<noteq> GR_AS_TYPE_GPU_BINARY
          then gr_dump_mc pm heap f tas else Inr (f, tas)
      | GR_AS_TYPE_UNKNOWN \<Rightarrow>
          if as_type tas \<noteq> GR_AS_TYPE_COMPUTE_JOB \<and> as_type tas \<noteq> GR_AS_TYPE_GPU_BINARY
          then gr_dump_mc pm heap f tas else Inr (f, tas)
      | GR_AS_TYPE_INOUT \<Rightarrow>
          if as_type tas \<noteq> GR_AS_TYPE_COMPUTE_JOB \<and> as_type tas \<noteq> GR_AS_TYPE_GPU_BINARY
          then gr_dump_mc pm heap f tas else Inr (f, tas)
      | GR_AS_TYPE_ALL \<Rightarrow> gr_dump_mc pm heap f tas)"

text \<open>The walk over the list, shared by the two dump functions, which differ in their test.\<close>

fun dump_list ::
  "pmem \<Rightarrow> heap \<Rightarrow> (gr_as \<Rightarrow> bool) \<Rightarrow> gr_as_type \<Rightarrow> gr_as list \<Rightarrow> wfile option \<Rightarrow>
   (wfile option \<times> gr_as list) res" where
  "dump_list pm heap test ty [] f = Inr (f, [])"
| "dump_list pm heap test ty (t # ts) f =
     bindR (if test t then gr_dump_mc_type pm heap ty f t else Inr (f, t)) (\<lambda>(f1, t').
     bindR (dump_list pm heap test ty ts f1) (\<lambda>(f2, ts'). Inr (f2, t' # ts')))"

definition dump_mc_where ::
  "pmem \<Rightarrow> heap \<Rightarrow> (gr_as \<Rightarrow> bool) \<Rightarrow> gr_as_type \<Rightarrow> gr_context \<Rightarrow> gr_context res" where
  "dump_mc_where pm heap test ty ctx =
     bindR (dump_list pm heap test ty (as_list ctx) (mem_dump_file ctx)) (\<lambda>(f, ts).
       Inr (ctx\<lparr> as_list := ts, mem_dump_file := f \<rparr>))"

definition gr_dump_mc_invalid :: "pmem \<Rightarrow> heap \<Rightarrow> gr_context \<Rightarrow> gr_as_type \<Rightarrow> gr_context res" where
  "gr_dump_mc_invalid pm heap ctx ty =
     dump_mc_where pm heap (\<lambda>t. \<not> as_is_dumped t \<and> \<not> as_is_valid t) ty ctx"

definition gr_dump_mc_valid :: "pmem \<Rightarrow> heap \<Rightarrow> gr_context \<Rightarrow> gr_as_type \<Rightarrow> gr_context res" where
  "gr_dump_mc_valid pm heap ctx ty =
     dump_mc_where pm heap (\<lambda>t. \<not> as_is_dumped t \<and> as_is_valid t) ty ctx"

fun sync_records :: "gr_sync_as list \<Rightarrow> wfile option \<Rightarrow> wfile option res" where
  "sync_records [] f = Inr f"
| "sync_records (e # es) f =
     bindR (file_put f (le_bytes 8 (sy_vm_start e))) (\<lambda>f1.
     bindR (file_put f1 (le_bytes 8 (sy_vm_end e))) (\<lambda>f2.
     bindR (file_put f2 (le_bytes 8 (sy_size e))) (\<lambda>f3. sync_records es f3)))"

definition gr_dump_sync_as :: "gr_context \<Rightarrow> gr_context res" where
  "gr_dump_sync_as ctx =
     bindR (file_put (sync_as_file ctx) (le_bytes 4 (sync_as_cnt ctx))) (\<lambda>f.
     bindR (sync_records (sync_as_list ctx) f) (\<lambda>f'. Inr (ctx\<lparr> sync_as_file := f' \<rparr>)))"

section \<open>The calls of the driver\<close>

text \<open>
  The recorder's part of \<open>kbase_api_job_submit\<close>, before the jobs are submitted, and of
  \<open>kbase_api_post_term\<close> after the page table dump.
\<close>

definition record_submit :: "pmem \<Rightarrow> heap \<Rightarrow> gr_context \<Rightarrow> gr_context res" where
  "record_submit pm heap ctx = gr_dump_mc_valid pm heap ctx GR_AS_TYPE_ALL_WO_COMPUTE_JOB"

definition record_post_term :: "pmem \<Rightarrow> heap \<Rightarrow> gr_context \<Rightarrow> gr_context res" where
  "record_post_term pm heap ctx =
     bindR (gr_dump_mc_valid pm heap ctx GR_AS_TYPE_COMPUTE_JOB) (\<lambda>ctx1.
     bindR (gr_dump_mc_invalid pm heap ctx1 GR_AS_TYPE_ALL) (\<lambda>ctx2. gr_dump_sync_as ctx2))"

section \<open>What a dump writes\<close>

definition rec_of :: "pmem \<Rightarrow> heap \<Rightarrow> gr_as \<Rightarrow> mc_rec" where
  "rec_of pm heap t = \<lparr> r_start = as_vm_start t, r_end = as_vm_end t, r_nents = unat (as_nents t),
     r_flags = as_flags t, r_valid = as_is_valid t,
     r_pages = map (\<lambda>p. (as_phys_addr_t p, frame_get (frames pm (as_phys_addr_t p)) 0 PAGE_SIZE))
       (take (unat (as_nents t)) (rg_pages (the (heap (as_reg t))))) \<rparr>"

text \<open>The region of a valid address space is still allocated, with as many pages as are dumped.\<close>

definition as_ready :: "heap \<Rightarrow> gr_as \<Rightarrow> bool" where
  "as_ready heap t \<longleftrightarrow> as_is_valid t \<longrightarrow>
     (\<exists>r. heap (as_reg t) = Some r \<and> unat (as_nents t) \<le> length (rg_pages r))"

lemma dump_pages_bytes:
  assumes "i + n \<le> length pages"
  shows "wf_ok f \<Longrightarrow> dump_pages pm pages st i n f =
    Inr (file_write f (mc_page_bytes (st + of_nat (PAGE_SIZE * i))
      (map (\<lambda>p. (as_phys_addr_t p, frame_get (frames pm (as_phys_addr_t p)) 0 PAGE_SIZE))
        (take n (drop i pages)))))"
  using assms
proof (induction n arbitrary: i f)
  case 0
  then show ?case by simp
next
  case (Suc n)
  have i: "i < length pages" using Suc.prems(2) by simp
  then have d: "drop i pages = pages ! i # drop (Suc i) pages" by (simp add: Cons_nth_drop_Suc)
  have a: "st + (4096 + 4096 * of_nat i) = st + 4096 * of_nat i + 4096" by (simp add: ac_simps)
  show ?case using Suc.IH [where i = "Suc i"] Suc.prems i a
    by (simp add: d Let_def file_write_append)
qed

lemma file_put_Some [simp]: "file_put (Some f) bs = Inr (Some (file_write f bs))"
  by (simp add: file_put_def)

lemma gr_dump_mc_bytes:
  assumes "as_ready heap t"
  shows "gr_dump_mc pm heap (Some f) t =
    Inr (Some (file_write f (mc_bytes (rec_of pm heap t))), t\<lparr> as_is_dumped := True \<rparr>)"
proof (cases "as_is_valid t")
  case True
  then obtain r where "heap (as_reg t) = Some r" "unat (as_nents t) \<le> length (rg_pages r)"
    using assms by (auto simp: as_ready_def)
  then show ?thesis using True
    by (simp add: gr_dump_mc_def gr_dump_phys_pages_def dump_pages_bytes mc_bytes_def rec_of_def
        file_write_append)
next
  case False
  then show ?thesis by (simp add: gr_dump_mc_def mc_bytes_def rec_of_def file_write_append)
qed

text \<open>The types that a dump takes.\<close>

definition type_taken :: "gr_as_type \<Rightarrow> gr_as_type \<Rightarrow> bool" where
  "type_taken ty t \<longleftrightarrow>
     (let job = (t = GR_AS_TYPE_COMPUTE_JOB \<or> t = GR_AS_TYPE_GPU_BINARY)
      in if ty = GR_AS_TYPE_ALL then True
         else if ty = GR_AS_TYPE_COMPUTE_JOB \<or> ty = GR_AS_TYPE_GPU_BINARY then job else \<not> job)"

lemma gr_dump_mc_type_taken:
  "gr_dump_mc_type pm heap ty f t =
     (if type_taken ty (as_type t) then gr_dump_mc pm heap f t else Inr (f, t))"
  by (cases ty; cases "as_type t") (simp_all add: gr_dump_mc_type_def type_taken_def)

definition dump_chosen :: "(gr_as \<Rightarrow> bool) \<Rightarrow> gr_as_type \<Rightarrow> gr_as \<Rightarrow> bool" where
  "dump_chosen test ty t \<longleftrightarrow> test t \<and> type_taken ty (as_type t)"

lemma dump_one:
  "(if test t then gr_dump_mc_type pm heap ty f t else Inr (f, t)) =
     (if dump_chosen test ty t then gr_dump_mc pm heap f t else Inr (f, t))"
  by (simp add: gr_dump_mc_type_taken dump_chosen_def)

text \<open>A walk dumps the address spaces that pass both tests, in the order of the list.\<close>

lemma dump_list_bytes:
  assumes "\<forall>t \<in> set ts. dump_chosen test ty t \<longrightarrow> as_ready heap t" and "wf_ok f"
  shows "dump_list pm heap test ty ts (Some f) =
    Inr (Some (file_write f (concat (map (\<lambda>t. mc_bytes (rec_of pm heap t))
           (filter (dump_chosen test ty) ts)))),
         map (\<lambda>t. if dump_chosen test ty t then t\<lparr> as_is_dumped := True \<rparr> else t) ts)"
  using assms
proof (induction ts arbitrary: f)
  case Nil
  then show ?case by simp
next
  case (Cons t ts)
  have IH: "dump_list pm heap test ty ts (Some g) =
    Inr (Some (file_write g (concat (map (\<lambda>t. mc_bytes (rec_of pm heap t))
           (filter (dump_chosen test ty) ts)))),
         map (\<lambda>t. if dump_chosen test ty t then t\<lparr> as_is_dumped := True \<rparr> else t) ts)"
    if "wf_ok g" for g
    by (rule Cons.IH [OF _ that]) (use Cons.prems(1) in simp)
  show ?case using Cons.prems
    by (cases "dump_chosen test ty t") (simp_all add: dump_one gr_dump_mc_bytes IH file_write_append)
qed


section \<open>Runs of the recorder\<close>

text \<open>
  The events of a recording: a mapping, a page fault, a cache maintenance call, a submission
  and the end. Each event sees the memory and the allocated regions of its moment.
\<close>

datatype rec_event =
    Ev_Map vm_area u64 | Ev_Fault vm_area u64 | Ev_Sync syncset | Ev_Submit | Ev_Post_Term

definition rec_step :: "pmem \<times> heap \<times> rec_event \<Rightarrow> gr_context \<Rightarrow> gr_context res" where
  "rec_step e ctx =
     (case e of (pm, heap, ev) \<Rightarrow>
       (case ev of
          Ev_Map vma region \<Rightarrow> bindR (gr_as_add True heap (Some ctx) vma region) (\<lambda>(r, c). Inr (the c))
        | Ev_Fault vma nents \<Rightarrow> Inr (snd (gr_as_add_valid ctx vma nents))
        | Ev_Sync sset \<Rightarrow> Inr (snd (gr_as_add_sync True ctx sset))
        | Ev_Submit \<Rightarrow> record_submit pm heap ctx
        | Ev_Post_Term \<Rightarrow> record_post_term pm heap ctx))"

fun rec_run :: "(pmem \<times> heap \<times> rec_event) list \<Rightarrow> gr_context \<Rightarrow> gr_context res" where
  "rec_run [] ctx = Inr ctx"
| "rec_run (e # es) ctx = bindR (rec_step e ctx) (rec_run es)"

text \<open>
  The invariant: the file holds the records of the address spaces that are marked as dumped,
  each once (\<open>ds\<close> are their numbers and records in the order of the file), and the numbers of
  the list and the counters are right.
\<close>

definition rec_inv :: "gr_context \<Rightarrow> (nat \<times> mc_rec) list \<Rightarrow> bool" where
  "rec_inv ctx ds \<longleftrightarrow>
     (\<exists>f. mem_dump_file ctx = Some f \<and> wf_ok f \<and>
        take (wf_offset f) (wf_data f) = concat (map (\<lambda>d. mc_bytes (snd d)) ds)) \<and>
     distinct (map fst ds) \<and>
     (\<forall>i < length (as_list ctx). as_is_dumped (as_list ctx ! i) \<longleftrightarrow> i \<in> fst ` set ds) \<and>
     (\<forall>(i, r) \<in> set ds. i < length (as_list ctx) \<and> r_start r = as_vm_start (as_list ctx ! i) \<and>
        r_end r = as_vm_end (as_list ctx ! i) \<and> r_flags r = as_flags (as_list ctx ! i)) \<and>
     as_cnt ctx = of_nat (length (as_list ctx)) \<and>
     (\<forall>i < length (as_list ctx). as_num (as_list ctx ! i) = of_nat i) \<and>
     sync_as_cnt ctx = of_nat (length (sync_as_list ctx)) \<and>
     distinct (map (\<lambda>e. (sy_vm_start e, sy_vm_end e)) (sync_as_list ctx))"

lemma gr_context_init_inv:
  "gr_context_init True (Some bs) (Some cs) = (0, Some ctx) \<Longrightarrow> rec_inv ctx []"
  by (auto simp: gr_context_init_def rec_inv_def wf_ok_def)

lemma count_existing_None:
  "count_existing st en ty es = None \<Longrightarrow> (st, en) \<notin> set (map (\<lambda>e. (sy_vm_start e, sy_vm_end e)) es)"
  by (induction es) (auto split: if_splits prod.splits)

lemma count_sync_bounds:
  "count_sync ty e = (r, e') \<Longrightarrow> sy_vm_start e' = sy_vm_start e \<and> sy_vm_end e' = sy_vm_end e"
  by (auto simp: count_sync_def split: if_splits)

lemma count_existing_Some:
  "count_existing st en ty es = Some (r, es') \<Longrightarrow> length es' = length es \<and>
     map (\<lambda>e. (sy_vm_start e, sy_vm_end e)) es' = map (\<lambda>e. (sy_vm_start e, sy_vm_end e)) es"
  by (induction es arbitrary: es') (auto split: if_splits prod.splits dest: count_sync_bounds)

lemma mark_valid_keeps:
  "length (mark_valid vma n ts) = length ts"
  "i < length ts \<Longrightarrow> as_is_dumped (mark_valid vma n ts ! i) = as_is_dumped (ts ! i)"
  "i < length ts \<Longrightarrow> as_vm_start (mark_valid vma n ts ! i) = as_vm_start (ts ! i)"
  "i < length ts \<Longrightarrow> as_vm_end (mark_valid vma n ts ! i) = as_vm_end (ts ! i)"
  "i < length ts \<Longrightarrow> as_flags (mark_valid vma n ts ! i) = as_flags (ts ! i)"
  "i < length ts \<Longrightarrow> as_num (mark_valid vma n ts ! i) = as_num (ts ! i)"
  by (induction ts arbitrary: i) (auto simp: nth_Cons split: nat.split)

lemma rec_inv_fault: "rec_inv ctx ds \<Longrightarrow> rec_inv (snd (gr_as_add_valid ctx vma n)) ds"
  unfolding rec_inv_def gr_as_add_valid_def by (auto simp: mark_valid_keeps)

lemma rec_inv_sync:
  assumes "rec_inv ctx ds"
  shows "rec_inv (snd (gr_as_add_sync True ctx sset)) ds"
proof (cases "count_existing (ss_user_addr sset) (ss_user_addr sset + ss_size sset) (ss_type sset) (sync_as_list ctx)")
  case None
  then show ?thesis using assms count_existing_None [OF None]
    by (auto simp: gr_as_add_sync_def rec_inv_def Let_def split: prod.split dest: count_sync_bounds)
next
  case (Some p)
  then show ?thesis using assms count_existing_Some [of _ _ _ _ "fst p" "snd p"]
    by (auto simp: gr_as_add_sync_def rec_inv_def Let_def split: prod.split)
qed

lemma gr_as_add_ok:
  assumes "gr_as_add True heap (Some ctx) vma region = Inr (r, Some ctx')"
  obtains t where "ctx' = ctx\<lparr> as_cnt := as_cnt ctx + 1, as_list := as_list ctx @ [t] \<rparr>"
    and "\<not> as_is_dumped t" and "as_num t = as_cnt ctx"
proof -
  from assms obtain r' ty where "heap region = Some r'"
    and "classify_as (Some ctx) (ucast (rg_flags r')) (rg_nr_pages r') = Inr ty"
    by (auto simp: gr_as_add_def split: option.splits)
  then show thesis using assms by (auto simp: gr_as_add_def Let_def intro!: that)
qed

lemma gr_as_add_Some: "gr_as_add ok heap (Some ctx) vma region = Inr (r, c) \<Longrightarrow> \<exists>x. c = Some x"
  by (auto simp: gr_as_add_def Let_def bindR_eq_Inr split: option.splits if_splits)

lemma rec_inv_map:
  assumes "rec_inv ctx ds" and "gr_as_add True heap (Some ctx) vma region = Inr (r, Some ctx')"
  shows "rec_inv ctx' ds"
proof (rule gr_as_add_ok [OF assms(2)])
  fix t assume c: "ctx' = ctx\<lparr> as_cnt := as_cnt ctx + 1, as_list := as_list ctx @ [t] \<rparr>"
    and t: "\<not> as_is_dumped t" "as_num t = as_cnt ctx"
  show ?thesis using assms(1) t unfolding c rec_inv_def
    by (auto simp: nth_append less_Suc_eq image_iff)
qed

lemma dump_pages_Inr: "dump_pages pm pages st i n f = Inr g \<Longrightarrow> n = 0 \<or> i + n \<le> length pages"
  by (induction n arbitrary: i f) (fastforce simp: Let_def split: if_splits)+

lemma gr_dump_mc_Inr: "gr_dump_mc pm heap (Some f) t = Inr p \<Longrightarrow> as_ready heap t"
  by (auto simp: gr_dump_mc_def gr_dump_phys_pages_def as_ready_def bindR_eq_Inr
      split: option.splits if_splits dest!: dump_pages_Inr)

lemma dump_list_Inr:
  "dump_list pm heap test ty ts (Some f) = Inr p \<Longrightarrow>
   \<forall>t \<in> set ts. dump_chosen test ty t \<longrightarrow> as_ready heap t"
proof (induction ts arbitrary: f p)
  case (Cons t ts)
  show ?case
  proof (cases "dump_chosen test ty t")
    case True
    then have "as_ready heap t" using Cons.prems
      by (auto simp: dump_one bindR_eq_Inr intro: gr_dump_mc_Inr)
    then show ?thesis using Cons True
      by (auto simp: dump_one gr_dump_mc_bytes bindR_eq_Inr)
  next
    case False
    then show ?thesis using Cons by (auto simp: dump_one bindR_eq_Inr)
  qed
qed simp

lemma file_write_take:
  "wf_ok f \<Longrightarrow> take (wf_offset (file_write f bs)) (wf_data (file_write f bs)) =
     take (wf_offset f) (wf_data f) @ bs"
  by (simp add: wf_ok_def file_write_def Let_def min_def)

lemma filter_index: "filter P ts = map ((!) ts) (filter (\<lambda>i. P (ts ! i)) [0..<length ts])"
  using filter_map [of P "(!) ts" "[0..<length ts]"] by (simp add: map_nth o_def)

lemma dump_mc_where_eq:
  assumes "dump_mc_where pm heap test ty ctx = Inr ctx'" and "mem_dump_file ctx = Some f" and "wf_ok f"
  shows "ctx' = ctx\<lparr> as_list := map (\<lambda>t. if dump_chosen test ty t then t\<lparr> as_is_dumped := True \<rparr> else t) (as_list ctx),
    mem_dump_file := Some (file_write f (concat (map (\<lambda>t. mc_bytes (rec_of pm heap t))
      (filter (dump_chosen test ty) (as_list ctx))))) \<rparr>"
proof -
  from assms(1,2) obtain p where "dump_list pm heap test ty (as_list ctx) (Some f) = Inr p"
    by (auto simp: dump_mc_where_def)
  then show ?thesis using assms dump_list_bytes [OF dump_list_Inr, of pm heap test ty "as_list ctx" f p f pm]
    by (simp add: dump_mc_where_def)
qed

lemma rec_inv_dump:
  assumes "rec_inv ctx ds" and "dump_mc_where pm heap test ty ctx = Inr ctx'"
    and "\<And>t. test t \<Longrightarrow> \<not> as_is_dumped t"
  shows "\<exists>ds'. rec_inv ctx' ds'"
proof -
  let ?ts = "as_list ctx" and ?c = "dump_chosen test ty"
  let ?is = "filter (\<lambda>i. ?c (?ts ! i)) [0..<length ?ts]"
  let ?new = "map (\<lambda>i. (i, rec_of pm heap (?ts ! i))) ?is"
  from assms(1) obtain f where f: "mem_dump_file ctx = Some f" "wf_ok f"
    "take (wf_offset f) (wf_data f) = concat (map (\<lambda>d. mc_bytes (snd d)) ds)"
    by (auto simp: rec_inv_def)
  note c = dump_mc_where_eq [OF assms(2) f(1,2)]
  have nd: "\<not> as_is_dumped (?ts ! i)" if "?c (?ts ! i)" for i
    using assms(3) that by (simp add: dump_chosen_def)
  have b: "concat (map (\<lambda>t. mc_bytes (rec_of pm heap t)) (filter ?c ?ts)) =
      concat (map (\<lambda>d. mc_bytes (snd d)) ?new)"
    by (subst filter_index) (simp add: o_def)
  let ?g = "file_write f (concat (map (\<lambda>d. mc_bytes (snd d)) ?new))"
  have gfile: "wf_ok ?g" "take (wf_offset ?g) (wf_data ?g) = concat (map (\<lambda>d. mc_bytes (snd d)) (ds @ ?new))"
    using file_write_take [OF f(2)] f(3) by simp_all
  have c': "mem_dump_file ctx' = Some ?g" "as_list ctx' = map (\<lambda>t. if ?c t then t\<lparr> as_is_dumped := True \<rparr> else t) ?ts"
    "as_cnt ctx' = as_cnt ctx" "sync_as_cnt ctx' = sync_as_cnt ctx" "sync_as_list ctx' = sync_as_list ctx"
    unfolding c b by simp_all
  have old: "distinct (map fst ds)" "\<forall>i < length ?ts. as_is_dumped (?ts ! i) \<longleftrightarrow> i \<in> fst ` set ds"
    "\<forall>(i, r) \<in> set ds. i < length ?ts \<and> r_start r = as_vm_start (?ts ! i) \<and>
       r_end r = as_vm_end (?ts ! i) \<and> r_flags r = as_flags (?ts ! i)"
    using assms(1) by (simp_all add: rec_inv_def)
  have dist: "distinct (map fst (ds @ ?new))" using old(1,2) nd by (auto simp: o_def)
  have dumped: "\<forall>i < length ?ts. as_is_dumped (as_list ctx' ! i) \<longleftrightarrow> i \<in> fst ` set (ds @ ?new)"
    using old(2) by (auto simp: c'(2) image_Un image_image)
  have same: "\<forall>(i, r) \<in> set (ds @ ?new). i < length ?ts \<and> r_start r = as_vm_start (as_list ctx' ! i) \<and>
       r_end r = as_vm_end (as_list ctx' ! i) \<and> r_flags r = as_flags (as_list ctx' ! i)"
    using old(3) by (auto simp: c'(2) rec_of_def)
  have "\<forall>i < length ?ts. as_num (as_list ctx' ! i) = of_nat i"
    using assms(1) by (simp add: rec_inv_def c'(2))
  then have "rec_inv ctx' (ds @ ?new)"
    using gfile dist dumped same assms(1) unfolding rec_inv_def c'(1,3,4,5)
    by (simp add: c'(2) del: map_append concat_append)
  then show ?thesis ..
qed

lemma rec_inv_dumps:
  "rec_inv ctx ds \<Longrightarrow> gr_dump_mc_valid pm heap ctx ty = Inr ctx' \<Longrightarrow> \<exists>ds'. rec_inv ctx' ds'"
  "rec_inv ctx ds \<Longrightarrow> gr_dump_mc_invalid pm heap ctx ty = Inr ctx' \<Longrightarrow> \<exists>ds'. rec_inv ctx' ds'"
  unfolding gr_dump_mc_valid_def gr_dump_mc_invalid_def by (erule (1) rec_inv_dump; simp)+

lemma dump_mc_where_Inr:
  assumes "dump_mc_where pm heap test ty ctx = Inr ctx'"
  shows "sync_as_list ctx' = sync_as_list ctx" and "sync_as_cnt ctx' = sync_as_cnt ctx"
    and "sync_as_file ctx' = sync_as_file ctx"
  using assms by (auto simp: dump_mc_where_def)

lemma gr_dump_sync_as_Inr:
  assumes "gr_dump_sync_as ctx = Inr ctx'"
  shows "as_list ctx' = as_list ctx" and "mem_dump_file ctx' = mem_dump_file ctx"
    and "rec_inv ctx ds \<Longrightarrow> rec_inv ctx' ds"
proof -
  obtain x where "ctx' = ctx\<lparr> sync_as_file := x \<rparr>"
    using assms by (auto simp: gr_dump_sync_as_def bindR_eq_Inr)
  then show "as_list ctx' = as_list ctx" "mem_dump_file ctx' = mem_dump_file ctx"
    "rec_inv ctx ds \<Longrightarrow> rec_inv ctx' ds" by (simp_all add: rec_inv_def)
qed

lemma rec_inv_step:
  assumes "rec_inv ctx ds" and "rec_step e ctx = Inr ctx'"
  shows "\<exists>ds'. rec_inv ctx' ds'"
proof -
  obtain pm heap ev where e: "e = (pm, heap, ev)" by (cases e)
  show ?thesis
  proof (cases ev)
    case (Ev_Map vma region)
    then obtain r c where a: "gr_as_add True heap (Some ctx) vma region = Inr (r, c)" "ctx' = the c"
      using assms(2) by (auto simp: rec_step_def e bindR_eq_Inr)
    obtain x where "c = Some x" using gr_as_add_Some [OF a(1)] ..
    then have "gr_as_add True heap (Some ctx) vma region = Inr (r, Some ctx')" using a by simp
    then have "rec_inv ctx' ds" by (rule rec_inv_map [OF assms(1)])
    then show ?thesis ..
  next
    case (Ev_Fault vma n)
    then have "ctx' = snd (gr_as_add_valid ctx vma n)" using assms(2) by (simp add: rec_step_def e)
    then show ?thesis using rec_inv_fault [OF assms(1)] by blast
  next
    case (Ev_Sync sset)
    then have "ctx' = snd (gr_as_add_sync True ctx sset)" using assms(2) by (simp add: rec_step_def e)
    then show ?thesis using rec_inv_sync [OF assms(1)] by blast
  next
    case Ev_Submit
    then have "gr_dump_mc_valid pm heap ctx GR_AS_TYPE_ALL_WO_COMPUTE_JOB = Inr ctx'"
      using assms(2) by (simp add: rec_step_def e record_submit_def)
    then show ?thesis by (rule rec_inv_dumps(1) [OF assms(1)])
  next
    case Ev_Post_Term
    then obtain c1 c2 where c: "gr_dump_mc_valid pm heap ctx GR_AS_TYPE_COMPUTE_JOB = Inr c1"
      "gr_dump_mc_invalid pm heap c1 GR_AS_TYPE_ALL = Inr c2" "gr_dump_sync_as c2 = Inr ctx'"
      using assms(2) by (auto simp: rec_step_def e record_post_term_def bindR_eq_Inr)
    obtain ds1 where "rec_inv c1 ds1" using rec_inv_dumps(1) [OF assms(1) c(1)] ..
    then obtain ds2 where "rec_inv c2 ds2" using rec_inv_dumps(2) c(2) by blast
    then show ?thesis using gr_dump_sync_as_Inr(3) [OF c(3)] by blast
  qed
qed

lemma rec_inv_run: "rec_inv ctx ds \<Longrightarrow> rec_run es ctx = Inr ctx' \<Longrightarrow> \<exists>ds'. rec_inv ctx' ds'"
proof (induction es arbitrary: ctx ds)
  case (Cons e es)
  from Cons.prems(2) obtain c where c: "rec_step e ctx = Inr c" "rec_run es c = Inr ctx'"
    by (auto simp: bindR_eq_Inr)
  obtain ds1 where "rec_inv c ds1" using rec_inv_step [OF Cons.prems(1) c(1)] ..
  then show ?case using c(2) by (rule Cons.IH)
qed auto

section \<open>Properties\<close>

text \<open>
  C30. Whatever the runtime maps, touches and submits, in any order and over any changes of
  memory, the recorded file holds exactly the records of the address spaces marked as dumped,
  each once and with the bounds and flags it was mapped with; the list numbers, the counters and
  the list of synchronised address spaces, which has no duplicates, agree.
\<close>

theorem recorder_file_invariant:
  assumes "gr_context_init True (Some bs) (Some cs) = (0, Some ctx)" and "rec_run es ctx = Inr ctx'"
  shows "\<exists>ds. rec_inv ctx' ds"
  using gr_context_init_inv [OF assms(1)] assms(2) by (rule rec_inv_run)

definition demo_heap :: heap where
  "demo_heap = [0x10 \<mapsto> \<lparr> rg_start_pfn = 0x7f000, rg_nr_pages = 1, rg_flags = 0x603e, rg_nents = 1,
     rg_pages = [0x5000], rg_cpu_type = 0, rg_gpu_type = 0 \<rparr>]"

definition demo_vma :: vm_area where
  "demo_vma = \<lparr> vma_start = 0x7f000000, vma_end = 0x7f001000 \<rparr>"

definition demo_mem :: pmem where
  "demo_mem = \<lparr> frames = (\<lambda>p i. 0), mappable = (\<lambda>p. True) \<rparr>"

definition demo_rec0 :: gr_context where
  "demo_rec0 = the (snd (gr_context_init True (Some []) (Some [])))"

text \<open>One buffer is mapped, touched, submitted with, and the recording ends.\<close>

definition demo_events :: "pmem \<Rightarrow> (pmem \<times> heap \<times> rec_event) list" where
  "demo_events pm = map (\<lambda>e. (pm, demo_heap, e))
     [Ev_Map demo_vma 0x10, Ev_Fault demo_vma 1,
      Ev_Sync \<lparr> ss_type = 1, ss_user_addr = 0x7f000000, ss_size = 0x1000 \<rparr>, Ev_Submit, Ev_Post_Term]"

lemma demo_flags: "bit (0x603e :: u32) 3" "bit (0x603e :: u32) 4" "bit (0x603e :: u32) 5"
  by (simp_all only: bit_iff_odd_drop_bit) simp_all

lemmas rec_eval = rec_step_def gr_as_add_def classify_as_def gr_as_add_valid_def gr_as_add_sync_def
  record_submit_def record_post_term_def gr_dump_mc_valid_def gr_dump_mc_invalid_def
  dump_mc_where_def gr_dump_mc_type_def gr_dump_mc_def gr_dump_phys_pages_def gr_dump_sync_as_def
  count_sync_def Let_def

theorem recorder_file_invariant_witness:
  "\<exists>ctx' ds. rec_run (demo_events demo_mem) demo_rec0 = Inr ctx' \<and> as_is_dumped (hd (as_list ctx')) \<and>
     rec_inv ctx' ds"
proof -
  have "\<exists>ctx'. rec_run (demo_events demo_mem) demo_rec0 = Inr ctx' \<and> as_is_dumped (hd (as_list ctx'))"
    by (simp add: demo_events_def demo_rec0_def gr_context_init_def rec_eval demo_heap_def demo_vma_def
        demo_flags)
  then obtain ctx' where c: "rec_run (demo_events demo_mem) demo_rec0 = Inr ctx'" "as_is_dumped (hd (as_list ctx'))"
    by blast
  have "gr_context_init True (Some []) (Some []) = (0, Some demo_rec0)"
    by (simp add: demo_rec0_def gr_context_init_def)
  from recorder_file_invariant [OF this c(1)] show ?thesis using c by blast
qed

text \<open>
  C36. What the end of a recording misses: an address space that is touched by the CPU after the
  last submission, and holds neither jobs nor shaders (an output buffer that the application
  reads), is valid when the recording ends, so that neither of the two final dumps takes it; it
  stays undumped, and the file has no record for it.
\<close>

theorem recorder_misses_late_region:
  assumes "rec_inv ctx ds" and "record_post_term pm heap ctx = Inr ctx'" and "i < length (as_list ctx)"
    and "as_is_valid (as_list ctx ! i)" and "\<not> as_is_dumped (as_list ctx ! i)"
    and "as_type (as_list ctx ! i) = GR_AS_TYPE_INOUT \<or> as_type (as_list ctx ! i) = GR_AS_TYPE_UNKNOWN"
  shows "as_list ctx' ! i = as_list ctx ! i \<and> (\<exists>ds'. rec_inv ctx' ds' \<and> i \<notin> fst ` set ds')"
proof -
  from assms(2) obtain c1 c2 where c: "gr_dump_mc_valid pm heap ctx GR_AS_TYPE_COMPUTE_JOB = Inr c1"
    "gr_dump_mc_invalid pm heap c1 GR_AS_TYPE_ALL = Inr c2" "gr_dump_sync_as c2 = Inr ctx'"
    by (auto simp: record_post_term_def bindR_eq_Inr)
  obtain f where f: "mem_dump_file ctx = Some f" "wf_ok f" using assms(1) by (auto simp: rec_inv_def)
  note c1 = dump_mc_where_eq [OF c(1) [unfolded gr_dump_mc_valid_def] f]
  have "mem_dump_file c1 = Some (file_write f (concat (map (\<lambda>t. mc_bytes (rec_of pm heap t))
      (filter (dump_chosen (\<lambda>t. \<not> as_is_dumped t \<and> as_is_valid t) GR_AS_TYPE_COMPUTE_JOB) (as_list ctx)))))"
    unfolding c1 by simp
  note c2 = dump_mc_where_eq [OF c(2) [unfolded gr_dump_mc_invalid_def] this file_write_ok]
  have l1: "as_list c1 = map (\<lambda>t. if dump_chosen (\<lambda>t. \<not> as_is_dumped t \<and> as_is_valid t) GR_AS_TYPE_COMPUTE_JOB t
      then t\<lparr> as_is_dumped := True \<rparr> else t) (as_list ctx)" unfolding c1 by simp
  have l2: "as_list c2 = map (\<lambda>t. if dump_chosen (\<lambda>t. \<not> as_is_dumped t \<and> \<not> as_is_valid t) GR_AS_TYPE_ALL t
      then t\<lparr> as_is_dumped := True \<rparr> else t) (as_list c1)" unfolding c2 by simp
  have same: "as_list c1 ! i = as_list ctx ! i" "length (as_list c1) = length (as_list ctx)"
    using assms(3-6) unfolding l1 by (auto simp: dump_chosen_def type_taken_def)
  have "as_list c2 ! i = as_list ctx ! i" "length (as_list c2) = length (as_list ctx)"
    using same assms(3-6) unfolding l2 by (auto simp: dump_chosen_def)
  then have s: "as_list ctx' ! i = as_list ctx ! i" "i < length (as_list ctx')"
    using gr_dump_sync_as_Inr(1) [OF c(3)] assms(3) by simp_all
  have "rec_step (pm, heap, Ev_Post_Term) ctx = Inr ctx'" using assms(2) by (simp add: rec_step_def)
  then obtain ds' where "rec_inv ctx' ds'" using rec_inv_step [OF assms(1)] by blast
  moreover from this have "i \<notin> fst ` set ds'" using s assms(5) by (auto simp: rec_inv_def)
  ultimately show ?thesis using s(1) by blast
qed

definition demo_late :: gr_context where
  "demo_late = demo_rec0\<lparr> as_cnt := 1, as_list := [\<lparr> as_vm_start = 0x7f000000, as_vm_end = 0x7f001000,
     as_start_pfn = 0x7f000, as_nr_pages = 1, as_nents = 1, as_flags = 0x603e, as_is_valid = True,
     as_num = 0, as_is_dumped = False, as_cpu_type = 0, as_gpu_type = 0, as_reg = 0x10,
     as_type = GR_AS_TYPE_INOUT \<rparr>] \<rparr>"

text \<open>The address space of the example above, touched after the submission instead of before it.\<close>

theorem recorder_misses_late_region_witness:
  "rec_run [(demo_mem, demo_heap, Ev_Map demo_vma 0x10), (demo_mem, demo_heap, Ev_Submit),
      (demo_mem, demo_heap, Ev_Fault demo_vma 1)] demo_rec0 = Inr demo_late \<and>
   (\<exists>ctx'. record_post_term demo_mem demo_heap demo_late = Inr ctx' \<and> as_list ctx' = as_list demo_late)"
proof -
  have run: "rec_run [(demo_mem, demo_heap, Ev_Map demo_vma 0x10), (demo_mem, demo_heap, Ev_Submit),
      (demo_mem, demo_heap, Ev_Fault demo_vma 1)] demo_rec0 = Inr demo_late"
    by (simp add: demo_late_def demo_rec0_def gr_context_init_def rec_eval demo_heap_def demo_vma_def demo_flags)
  have "gr_context_init True (Some []) (Some []) = (0, Some demo_rec0)"
    by (simp add: demo_rec0_def gr_context_init_def)
  then obtain ds where inv: "rec_inv demo_late ds" using gr_context_init_inv rec_inv_run run by blast
  have "\<exists>ctx'. record_post_term demo_mem demo_heap demo_late = Inr ctx' \<and> length (as_list ctx') = 1"
    by (simp add: demo_late_def demo_rec0_def gr_context_init_def rec_eval demo_heap_def)
  then obtain ctx' where c: "record_post_term demo_mem demo_heap demo_late = Inr ctx'" "length (as_list ctx') = 1"
    by blast
  have "as_list ctx' ! 0 = as_list demo_late ! 0"
    using recorder_misses_late_region [OF inv c(1), of 0] by (simp add: demo_late_def)
  then have "as_list ctx' = as_list demo_late"
    using c(2) by (cases "as_list ctx'") (simp_all add: demo_late_def)
  then show ?thesis using run c(1) by blast
qed

end
