(* ===== verification/GR_MemReplay.thy ===== *)
theory GR_MemReplay
  imports GR_PgtReplay GR_Recorder
begin

text \<open>
  The start of a replay (\<open>gr_mem_init\<close>, \<open>gr_get_sync_as\<close> and \<open>gr_find_sync_as\<close> of
  \<open>replayer/gr_mem.c\<close>), and recorder and replayer put together: the memory image that the
  driver recorded and what the replayer makes of it.
\<close>

unbundle bit_operations_syntax

section \<open>Model\<close>

text \<open>
  The loop of \<open>gr_get_sync_as\<close> over the \<open>n\<close> entries that are left of \<open>cnt\<close>. An address in no
  region gives the index \<open>-1\<close>, and the entry in front of the array is written.
\<close>

fun sync_as_loop ::
  "pmem \<Rightarrow> nat \<Rightarrow> nat \<Rightarrow> u64 option \<Rightarrow> u64 option \<Rightarrow> u64 option \<Rightarrow> cfile \<Rightarrow> sync_as list \<Rightarrow>
   replay_context \<Rightarrow> (sync_as list \<times> replay_context) res" where
  "sync_as_loop pm cnt 0 v_start v_end v_size f acc rctx = Inr (acc, rctx)"
| "sync_as_loop pm cnt (Suc n) v_start v_end v_size f acc rctx =
     bindR (fread_word 8 v_start f) (\<lambda>(v_start', f1).
     bindR (fread_word 8 v_end f1) (\<lambda>(v_end', f2).
     bindR (fread_word 8 v_size f2) (\<lambda>(v_size', f3).
     bindR (var v_start') (\<lambda>gm_s.
     bindR (var v_end') (\<lambda>gm_e.
     bindR (var v_size') (\<lambda>sz.
     bindR (gr_trans_va_to_pa pm (new_transtab rctx) gm_s) (\<lambda>pm_s.
     case gr_find_region_enclosing_address rctx gm_s of
       None \<Rightarrow> Inl Bad_Access
     | Some region_offset \<Rightarrow>
         sync_as_loop pm cnt n v_start' v_end' v_size' f3
           (acc @ [\<lparr> sa_gm_start = gm_s, sa_gm_end = gm_e, sa_size = sz,
                     sa_is_input = (cnt - Suc n = cnt - 1), sa_pm_start = pm_s, sa_pm_end = 0 \<rparr>])
           (rctx\<lparr> gm_region := (gm_region rctx)
              [region_offset := (gm_region rctx ! region_offset)\<lparr> gm_is_synced := True \<rparr>] \<rparr>))))))))"

definition gr_get_sync_as :: "replay_context \<Rightarrow> pmem \<Rightarrow> u8 list option \<Rightarrow> replay_context res" where
  "gr_get_sync_as rctx pm sas_file =
     (case sas_file of
        None \<Rightarrow> Inl Bad_Access
      | Some bs \<Rightarrow>
          bindR (fread_word 4 (Some (0 :: u32)) (fopen bs)) (\<lambda>(v, f).
          bindR (var v) (\<lambda>cnt.
          bindR (sync_as_loop pm (unat cnt) (unat cnt) None None None f [] rctx) (\<lambda>(sas', rctx').
            Inr (rctx'\<lparr> sas := sas' \<rparr>)))))"

text \<open>
  The first synchronised address space whose first page starts with the buffer. The buffer for
  the page holds \<open>PAGE_SIZE\<close> bytes, so a longer comparison reads behind it.
\<close>

fun find_sas :: "pmem \<Rightarrow> u8 list \<Rightarrow> sync_as list \<Rightarrow> sync_as option res" where
  "find_sas pm buf [] = Inr None"
| "find_sas pm buf (a # as) =
     bindR (gr_read_phys pm (sa_pm_start a) PAGE_SIZE) (\<lambda>sas_buf.
       if length buf > PAGE_SIZE then Inl Bad_Access
       else if take (length buf) sas_buf = buf then Inr (Some a) else find_sas pm buf as)"

definition gr_find_sync_as :: "replay_context \<Rightarrow> pmem \<Rightarrow> u8 list \<Rightarrow> sync_as option res" where
  "gr_find_sync_as rctx pm buf = find_sas pm buf (sas rctx)"

text \<open>
  The files of the configuration, and \<open>gr_mem_init\<close>. \<open>mapped\<close> says whether the registers could
  be mapped, \<open>fresh n\<close> are the indeterminate contents of \<open>n\<close> allocated bytes. The last result
  is the register snapshot file that \<open>gr_validation_init\<close> opens.
\<close>

record init_files =
  pgt_path :: "u8 list option"
  mc_path :: "u8 list option"
  sas_path :: "u8 list option"
  snapshot_path :: "u8 list option"

definition gr_mem_init ::
  "('s \<Rightarrow> pmem \<Rightarrow> (u64 \<times> 's \<times> pmem) res) \<Rightarrow> (nat \<Rightarrow> 's \<Rightarrow> pmem \<Rightarrow> ('s \<times> pmem) res) \<Rightarrow>
   (nat \<Rightarrow> 's \<Rightarrow> (u64 list \<times> 's) res) \<Rightarrow> bool \<Rightarrow> (nat \<Rightarrow> u8 list) \<Rightarrow> init_files \<Rightarrow>
   replay_context \<Rightarrow> 's \<Rightarrow> pmem \<Rightarrow> (replay_context \<times> 's \<times> pmem \<times> cfile option) res" where
  "gr_mem_init get_page alloc_pages get_pages mapped fresh paths rctx s pm =
     (if \<not> mapped then Inl Exit
      else
        bindR (gr_pgt_init get_page rctx (pgt_path paths) s pm)
          (\<lambda>(rctx1, old_pgd, new_pgd, s1, pm1).
        bindR (gr_mem_contents_init alloc_pages get_pages rctx1 (mc_path paths) s1 pm1)
          (\<lambda>(rctx2, s2, pm2).
        bindR (gr_get_sync_as (rctx2\<lparr> old_transtab := old_pgd, new_transtab := new_pgd \<rparr>) pm2
                 (sas_path paths))
          (\<lambda>rctx3.
        let rctx4 = (if test_checkpoint (config rctx3)
                     then rctx3\<lparr> provision := Some (fresh (PAGE_SIZE * unat (tot_nr_pages rctx3))) \<rparr>
                     else rctx3)
        in if is_validate (config rctx4)
           then (case snapshot_path paths of
                   None \<Rightarrow> Inl Bug
                 | Some bs \<Rightarrow> Inr (rctx4, s2, pm2, Some (fopen bs)))
           else Inr (rctx4, s2, pm2, None)))))"

section \<open>The recorded image\<close>

text \<open>
  The regions of a recording, over the recorded page table: the replayer can take each, every
  page has a bottom table, and no two regions share a page.
\<close>

definition image_ok :: "kbase_mmu_mode \<Rightarrow> pmem \<Rightarrow> u64 \<Rightarrow> mc_rec list \<Rightarrow> bool" where
  "image_ok mode pmk p rs \<longleftrightarrow> rs \<noteq> [] \<and> length rs < NR_VA_REGION \<and> regions_apart rs \<and>
     (\<forall>r \<in> set rs. rec_ok r \<and>
        (\<forall>i < r_nents r. table_walk mode pmk (vpn (r_start r) i) 3 p \<noteq> None))"

text \<open>Pages that the replay of the image takes: the tables, the regions, and the last one again.\<close>

definition image_pages :: "kbase_mmu_mode \<Rightarrow> pmem \<Rightarrow> u64 \<Rightarrow> mc_rec list \<Rightarrow> nat" where
  "image_pages mode pmk p rs =
     pgt_tables mode pmk p + (sum_list (map r_nents rs) + r_nents (last rs))"

lemma rebuilt_tree_ok:
  assumes "rebuilt mode pmk 3 p pm up" and "upt_distinct 3 up"
    and "\<And>q. q \<in> upages 3 up \<Longrightarrow> valid_pa q \<and> mappable pm q"
  shows "tree_ok up pm"
  unfolding tree_ok_def using assms(2,3) rebuilt_agrees [OF assms(1)] by blast

lemma rebuilt_walkable:
  assumes "rebuilt mode pmk 3 p pm up" and "\<And>q. q \<in> upages 3 up \<Longrightarrow> valid_pa q \<and> mappable pm q"
    and "\<forall>i < n. table_walk mode pmk (vpn va i) 3 p \<noteq> None"
  shows "walkable up va n"
  unfolding walkable_def
proof (intro allI impI)
  fix i assume "i < n"
  then obtain b where "table_walk mode pmk (vpn va i) 3 p = Some b" using assms(3) by auto
  then show "\<exists>leaf. user_walk (vpn va i) 0 3 up = Inr leaf"
    using rebuilt_walk [OF assms(1) _ order_refl assms(2)] by fastforce
qed

text \<open>
  The two files of a recording in the replayer: \<open>up\<close> is the new table, \<open>pss\<close> are the pages of
  the regions and \<open>again\<close> those of the extra round.
\<close>

lemma gr_manager_requests: "gr_manager_alloc_pages = ioctl_grow" "gr_manager_get_pages = ioctl_get_pages"
  by (intro ext, simp add: gr_manager_alloc_pages_def gr_manager_get_pages_def)+

lemma record_replay_image:
  assumes "record_ok mode pmk p t" and "mempool_ok s (mappable pm)" and "image_ok mode pmk p rs"
    and "image_pages mode pmk p rs \<le> pages_left s" and "gm_region rctx = []"
  obtains t' up s1 pm1 pss again rctx' s' pm' where
    "gr_mmu_dump mode get_setup pmk p t = Inr t'"
    and "gr_pgt_init gr_manager_alloc_get_single_page rctx (Some (pgt_file t')) s pm =
      Inr (rctx\<lparr>user_pgt := up\<rparr>, transtab (get_setup p), phys_page up, s1, pm1)"
    and "gr_mem_contents_init gr_manager_alloc_pages gr_manager_get_pages (rctx\<lparr>user_pgt := up\<rparr>)
      (Some (concat (map mc_bytes rs))) s1 pm1 = Inr (rctx', s', pm')"
    and "user_pgt rctx' = up" and "gm_region rctx' = map2 region_of rs pss @ [region_of (last rs) again]"
    and "distinct (concat pss @ again)" and "set (concat pss @ again) \<subseteq> pages_in_use s' - pages_in_use s"
    and "\<forall>q \<in> set (concat pss @ again). valid_pa q" and "tree_ok up pm'" and "loaded up rs pss again pm'"
proof -
  have n: "pgt_tables mode pmk p \<le> pages_left s"
    using assms(4) by (simp add: image_pages_def)
  obtain t' up s1 pm1 where d: "gr_mmu_dump mode get_setup pmk p t = Inr t'"
    and i: "gr_pgt_init gr_manager_alloc_get_single_page rctx (Some (pgt_file t')) s pm =
      Inr (rctx\<lparr>user_pgt := up\<rparr>, transtab (get_setup p), phys_page up, s1, pm1)"
    and g: "pool.grows s pm s1 pm1" and r: "rebuilt mode pmk 3 p pm1 up" and ud: "upt_distinct 3 up"
    and u: "upages 3 up \<subseteq> pages_in_use s1 - pages_in_use s"
    and l: "pages_left s \<le> pages_left s1 + pgt_tables mode pmk p"
    by (rule record_replay_pgt [OF assms(1,2) n])
  have v: "valid_pa q \<and> mappable pm1 q" if "q \<in> upages 3 up" for q
    using g that u by (auto simp: pool.grows_def)
  let ?rctx = "rctx\<lparr>user_pgt := up\<rparr>"
  have a: "rs \<noteq> []" "mempool_ok s1 (mappable pm1)" "tree_ok (user_pgt ?rctx) pm1"
    "upages 3 (user_pgt ?rctx) \<subseteq> pages_in_use s1"
    "\<forall>r \<in> set rs. rec_ok r \<and> walkable (user_pgt ?rctx) (r_start r) (r_nents r)" "regions_apart rs"
    "sum_list (map r_nents rs) + r_nents (last rs) \<le> pages_left s1"
    "nr_regions ?rctx + length rs < NR_VA_REGION"
    using assms(3,4,5) g u l rebuilt_tree_ok [OF r ud v] rebuilt_walkable [OF r v]
    by (auto simp: image_ok_def pool.grows_def image_pages_def nr_regions_def)
  let ?vs = "\<lparr> mc_start = None, mc_end = None, mc_nents = None, mc_flags = None, mc_is_valid = None,
    mc_buf = None \<rparr>"
  from pools.mc_loop_records [OF a, of ?vs] obtain pss again rctx' s' pm' where
    m: "mc_loop ioctl_grow ioctl_get_pages ?rctx ?vs \<lparr> cf_rest = concat (map mc_bytes rs), cf_eof = False \<rparr> s1 pm1 =
      Inr (rctx', s', pm')" "user_pgt rctx' = up"
      "gm_region rctx' = map2 region_of rs pss @ [region_of (last rs) again]"
      "distinct (concat pss @ again)" "set (concat pss @ again) \<inter> pages_in_use s1 = {}"
      "pages_in_use s' = set (concat pss @ again) \<union> pages_in_use s1"
      "\<forall>q \<in> set (concat pss @ again). valid_pa q" "tree_ok up pm'" "loaded up rs pss again pm'"
    using assms(5) by auto
  have "gr_mem_contents_init gr_manager_alloc_pages gr_manager_get_pages ?rctx
      (Some (concat (map mc_bytes rs))) s1 pm1 = Inr (rctx', s', pm')"
    using m(1) by (simp add: gr_mem_contents_init_def fopen_def gr_manager_requests)
  moreover have "set (concat pss @ again) \<subseteq> pages_in_use s' - pages_in_use s"
    using m(5,6) g by (auto simp: pool.grows_def)
  ultimately show thesis using that d i m by blast
qed

text \<open>Page addresses of a region.\<close>

lemma region_va_aligned:
  assumes "page_aligned va"
  shows "take_bit PAGE_SHIFT (va + of_nat (PAGE_SIZE * i)) = 0"
proof -
  have "take_bit 12 (of_nat (4096 * i) :: u64) = 0"
    by (simp only: take_bit_of_nat) (simp add: take_bit_eq_mod)
  moreover have "take_bit 12 (va + of_nat (4096 * i)) =
      take_bit 12 (take_bit 12 va + take_bit 12 (of_nat (4096 * i)))"
    by transfer (simp add: take_bit_add)
  ultimately show ?thesis using assms by (simp add: page_aligned_def)
qed


text \<open>Translation of a page of a region that is filled.\<close>

lemma filled_translate:
  assumes "tree_ok up pm" and "region_filled up r xs pm" and "i < r_nents r" and "page_aligned (r_start r)"
    and "valid_pa (fst (xs ! i))"
  shows "gr_trans_va_to_pa pm (phys_page up) (r_start r + of_nat (PAGE_SIZE * i)) = Inr (fst (xs ! i))"
proof -
  have "pte_of up pm (PFN_DOWN (r_start r + of_nat (PAGE_SIZE * i))) =
      Some (gr_entry_get_ate (fst (xs ! i)) (ucast (r_flags r)) 3)"
    using assms(2,3) by (simp add: region_filled_def filled_def vpn_def)
  from tree_trans [OF assms(1) this] show ?thesis
    using pte_to_phys_addr_ate [OF assms(5)] region_va_aligned [OF assms(4), of i] by simp
qed

section \<open>Properties\<close>


lemma find_region_last:
  assumes "length pss = length rs" and "rs \<noteq> []"
    and "r_start (last rs) \<le> a" and "a < r_end (last rs)"
    and "\<forall>r \<in> set (butlast rs). \<not> (r_start r \<le> a \<and> a < r_end r)"
  shows "find_region_from (map2 region_of rs pss @ gs) n a = Some (n + length rs - 1)"
  using assms
proof (induction rs pss arbitrary: n rule: list_induct2')
  case (4 r rs ps pss)
  show ?case
  proof (cases "rs = []")
    case True
    then show ?thesis using 4 by (simp add: region_of_def)
  next
    case False
    then show ?thesis using 4 "4.IH" [of "Suc n"] by (auto simp: region_of_def)
  qed
qed simp_all

text \<open>
  C23. The last region of the file is loaded twice: the table of regions has one entry more than
  the file. The GPU sees the second set of pages, and when the region has contents, each of them
  holds the contents of the region's last page. The replayer's own lookup finds the first entry,
  so that what it copies to the region goes to pages that the GPU does not see.
\<close>

theorem record_replay_last_region:
  assumes "record_ok mode pmk p t" and "mempool_ok s (mappable pm)"
    and "rec_inv ctx ds" and "mem_dump_file ctx = Some f" and "wf_offset f = length (wf_data f)"
    and "image_ok mode pmk p (map snd ds)"
    and "image_pages mode pmk p (map snd ds) \<le> pages_left s" and "gm_region rctx = []"
  shows "\<exists>t' rctx1 new s1 pm1 rctx' s' pm'.
    gr_mmu_dump mode get_setup pmk p t = Inr t' \<and>
    gr_pgt_init gr_manager_alloc_get_single_page rctx (Some (pgt_file t')) s pm =
      Inr (rctx1, transtab (get_setup p), new, s1, pm1) \<and>
    gr_mem_contents_init gr_manager_alloc_pages gr_manager_get_pages rctx1 (Some (wf_data f)) s1 pm1 =
      Inr (rctx', s', pm') \<and>
    nr_regions rctx' = length ds + 1 \<and>
    (\<forall>i < r_nents (snd (last ds)). \<exists>q.
       gr_trans_va_to_pa pm' new (r_start (snd (last ds)) + of_nat (PAGE_SIZE * i)) = Inr q \<and>
       q \<notin> set (gm_pages (gm_region rctx' ! (length ds - 1))) \<and>
       (r_valid (snd (last ds)) \<longrightarrow>
          frame_get (frames pm' q) 0 PAGE_SIZE = snd (last (r_pages (snd (last ds)))))) \<and>
    (\<forall>a. r_start (snd (last ds)) \<le> a \<longrightarrow> a < r_end (snd (last ds)) \<longrightarrow>
       (\<forall>r \<in> set (butlast (map snd ds)). \<not> (r_start r \<le> a \<and> a < r_end r)) \<longrightarrow>
       gr_find_region_enclosing_address rctx' a = Some (length ds - 1))"
proof -
  let ?rs = "map snd ds"
  have ne: "?rs \<noteq> []" "ds \<noteq> []" using assms(6) by (auto simp: image_ok_def)
  have data: "wf_data f = concat (map mc_bytes ?rs)" using assms(3,4,5) by (auto simp: rec_inv_def o_def)
  have l: "last ?rs = snd (last ds)" using ne by (simp add: last_map)
  obtain t' up s1 pm1 pss again rctx' s' pm' where
    i: "gr_mmu_dump mode get_setup pmk p t = Inr t'"
      "gr_pgt_init gr_manager_alloc_get_single_page rctx (Some (pgt_file t')) s pm =
        Inr (rctx\<lparr>user_pgt := up\<rparr>, transtab (get_setup p), phys_page up, s1, pm1)"
      "gr_mem_contents_init gr_manager_alloc_pages gr_manager_get_pages (rctx\<lparr>user_pgt := up\<rparr>)
        (Some (concat (map mc_bytes ?rs))) s1 pm1 = Inr (rctx', s', pm')"
    and g: "gm_region rctx' = map2 region_of ?rs pss @ [region_of (last ?rs) again]"
    and pg: "distinct (concat pss @ again)" "\<forall>q \<in> set (concat pss @ again). valid_pa q"
    and t: "tree_ok up pm'" and ld: "loaded up ?rs pss again pm'"
    by (rule record_replay_image [OF assms(1,2,6,7,8), where get_setup = get_setup])
  have len: "length pss = length ds" using ld by (simp add: loaded_def)
  have n: "nr_regions rctx' = length ds + 1" using len by (simp add: nr_regions_def g)
  have fl: "region_filled up (snd (last ds)) (rec_again (snd (last ds)) again) pm'"
    using ld by (simp add: loaded_def l)
  have lag: "length again = r_nents (snd (last ds))" using fl by (simp add: region_filled_def rec_again_def)
  have "pss \<noteq> []" using len ne by auto
  then have first: "gm_pages (gm_region rctx' ! (length ds - 1)) = last pss"
    using len ne by (auto simp: g nth_append region_of_def last_conv_nth)
  have ok: "rec_ok (snd (last ds))" using assms(6) ne by (auto simp: image_ok_def)
  have "gr_trans_va_to_pa pm' (phys_page up) (r_start (snd (last ds)) + of_nat (PAGE_SIZE * i)) = Inr (again ! i) \<and>
      again ! i \<notin> set (gm_pages (gm_region rctx' ! (length ds - 1))) \<and>
      (r_valid (snd (last ds)) \<longrightarrow>
         frame_get (frames pm' (again ! i)) 0 PAGE_SIZE = snd (last (r_pages (snd (last ds)))))"
    if i: "i < r_nents (snd (last ds))" for i
  proof -
    have ai: "again ! i \<in> set again" using i lag by simp
    have fst: "fst (rec_again (snd (last ds)) again ! i) = again ! i"
      using i lag by (simp add: rec_again_def)
    have "last pss \<in> set pss" using len ne by (metis last_in_set length_0_conv)
    then have "set (last pss) \<subseteq> set (concat pss)" by auto
    then have "again ! i \<notin> set (last pss)" using pg(1) ai by auto
    moreover have "gr_trans_va_to_pa pm' (phys_page up) (r_start (snd (last ds)) + of_nat (PAGE_SIZE * i)) =
        Inr (again ! i)"
      using filled_translate [OF t fl i] ok pg(2) ai fst by (simp add: rec_ok_def)
    moreover have "r_valid (snd (last ds)) \<longrightarrow>
        frame_get (frames pm' (again ! i)) 0 PAGE_SIZE = snd (last (r_pages (snd (last ds))))"
      using fl i lag by (auto simp: region_filled_def filled_def rec_again_def)
    ultimately show ?thesis unfolding first by blast
  qed
  moreover have "gr_find_region_enclosing_address rctx' a = Some (length ds - 1)"
    if "r_start (snd (last ds)) \<le> a" "a < r_end (snd (last ds))"
      "\<forall>r \<in> set (butlast ?rs). \<not> (r_start r \<le> a \<and> a < r_end r)" for a
    using find_region_last [of pss ?rs a _ 0] that len ne
    by (simp add: gr_find_region_enclosing_address_def g l)
  ultimately show ?thesis using i n unfolding data [symmetric] by blast
qed

section \<open>A small recording\<close>

text \<open>
  Two regions, of one and of two pages, over the table of \<open>demo_tables\<close>, as the recorder leaves
  them, and a pool with ten pages.
\<close>

definition demo_r1 :: mc_rec where
  "demo_r1 = \<lparr> r_start = 0x1000, r_end = 0x2000, r_nents = 1, r_flags = 0x606e, r_valid = True,
     r_pages = [(0x21000, replicate PAGE_SIZE 7)] \<rparr>"

definition demo_r2 :: mc_rec where
  "demo_r2 = \<lparr> r_start = 0x2000, r_end = 0x4000, r_nents = 2, r_flags = 0x606e, r_valid = True,
     r_pages = [(0x22000, replicate PAGE_SIZE 1), (0x23000, replicate PAGE_SIZE 2)] \<rparr>"

definition demo_as :: "u64 \<Rightarrow> u64 \<Rightarrow> u64 \<Rightarrow> u32 \<Rightarrow> gr_as" where
  "demo_as st en n k = \<lparr> as_vm_start = st, as_vm_end = en, as_start_pfn = PFN_DOWN st, as_nr_pages = n,
     as_nents = n, as_flags = 0x606e, as_is_valid = True, as_num = k, as_is_dumped = True,
     as_cpu_type = 0, as_gpu_type = 0, as_reg = 0x10, as_type = GR_AS_TYPE_INOUT \<rparr>"

definition demo_file :: wfile where
  "demo_file = \<lparr> wf_data = mc_bytes demo_r1 @ mc_bytes demo_r2,
     wf_offset = length (mc_bytes demo_r1 @ mc_bytes demo_r2) \<rparr>"

definition demo_ds :: "(nat \<times> mc_rec) list" where
  "demo_ds = [(0, demo_r1), (1, demo_r2)]"

definition demo_recorded :: gr_context where
  "demo_recorded = \<lparr> as_list = [demo_as 0x1000 0x2000 1 0, demo_as 0x2000 0x4000 2 1], as_cnt = 2,
     sync_as_list = [], sync_as_cnt = 0, sync_as_file = None, mem_dump_file = Some demo_file \<rparr>"

lemma demo_recorded_inv: "rec_inv demo_recorded demo_ds"
  by (simp add: rec_inv_def demo_recorded_def demo_ds_def demo_file_def wf_ok_def demo_as_def
      demo_r1_def demo_r2_def All_less_Suc2 numeral_2_eq_2)

lemma demo_frames: "frames demo_tables p = frame_put64 (\<lambda>i. 0) 0 (demo_entry p)"
  by (simp add: demo_tables_def)

lemma demo_walk_step:
  assumes "p = 0x1000 \<or> p = 0x2000 \<or> p = 0x3000" and "pte_index v (3 - Suc d) = 0"
  shows "table_walk aarch64_mode demo_tables v (Suc d) p =
    table_walk aarch64_mode demo_tables v d (demo_entry p AND PAGE_MASK)"
proof -
  have "p AND PAGE_MASK = p" using assms(1) by (auto simp: mask_eq_exp_minus_1)
  then have "frame_get64 (frames demo_tables (p AND PAGE_MASK)) 0 = demo_entry p"
    by (simp add: demo_frames frame_simps)
  moreover have "drv_pte_to_phy_addr (demo_entry p) = demo_entry p AND PAGE_MASK"
    using assms(1) by (auto simp: drv_pte_to_phy_addr_def demo_entry_def)
  ultimately show ?thesis using assms
    by (auto simp: Let_def aarch64_mode_def demo_pte_valid)
qed

lemma demo_walk:
  assumes "pte_index v 0 = 0" and "pte_index v 1 = 0" and "pte_index v 2 = 0"
  shows "table_walk aarch64_mode demo_tables v 3 0x1000 \<noteq> None"
proof -
  have "table_walk aarch64_mode demo_tables v (Suc (Suc (Suc 0))) 0x1000 =
      table_walk aarch64_mode demo_tables v (Suc (Suc 0)) 0x2000"
    using assms(1) by (subst demo_walk_step) (simp_all add: demo_pte_types del: table_walk.simps)
  also have "\<dots> = table_walk aarch64_mode demo_tables v (Suc 0) 0x3000"
    using assms(2) by (subst demo_walk_step) (simp_all add: demo_pte_types del: table_walk.simps)
  also have "\<dots> = table_walk aarch64_mode demo_tables v 0 0x4000"
    using assms(3) by (subst demo_walk_step) (simp_all add: demo_pte_types del: table_walk.simps)
  finally show ?thesis by (simp add: numeral_3_eq_3 del: table_walk.simps(2))
qed

lemma demo_image_ok: "image_ok aarch64_mode demo_tables 0x1000 [demo_r1, demo_r2]"
proof -
  have v: "PFN_DOWN 0x1000 = 1" "PFN_DOWN 0x2000 = 2" "vpn 0x2000 (Suc 0) = 3"
    by (simp_all add: vpn_def PFN_DOWN_def)
  have i: "table_walk aarch64_mode demo_tables 1 3 0x1000 \<noteq> None"
    "table_walk aarch64_mode demo_tables 2 3 0x1000 \<noteq> None"
    "table_walk aarch64_mode demo_tables 3 3 0x1000 \<noteq> None"
    by (rule demo_walk; simp add: pte_index_def)+
  have "region_vpns demo_r1 = {1}" "region_vpns demo_r2 = {2, 3}"
    by (auto simp: region_vpns_def demo_r1_def demo_r2_def numeral_2_eq_2 lessThan_Suc v)
  moreover have "rec_ok demo_r1" "rec_ok demo_r2"
    by (simp_all add: rec_ok_def demo_r1_def demo_r2_def page_aligned_def)
  moreover have "\<forall>i < r_nents demo_r1. table_walk aarch64_mode demo_tables (vpn (r_start demo_r1) i) 3 0x1000 \<noteq> None"
    using i v by (simp add: demo_r1_def)
  moreover have "\<forall>i < r_nents demo_r2. table_walk aarch64_mode demo_tables (vpn (r_start demo_r2) i) 3 0x1000 \<noteq> None"
    using i v by (simp add: demo_r2_def numeral_2_eq_2 All_less_Suc2)
  ultimately show ?thesis by (simp add: image_ok_def del: not_None_eq)
qed

definition demo_pool10 :: mempool_state where
  "demo_pool10 = ioctl_mempool_init demo_links \<lparr>pool = None, kern =
     \<lparr>alloc_script = map Some [0x11000, 0x12000, 0x13000, 0x14000, 0x15000, 0x16000, 0x17000, 0x18000, 0x19000, 0x1a000],
      dma_script = [], freed = []\<rparr>\<rparr>"

lemma demo_pool10_ok: "mempool_ok demo_pool10 (mappable demo_pmem)" "pages_left demo_pool10 = 10"
proof -
  show "mempool_ok demo_pool10 (mappable demo_pmem)"
    unfolding mempool_ok_def
    by (intro exI [of _ "gr_mempool_init 0 demo_links"] exI [of _ "[]"]
        exI [of _ "[0x11000, 0x12000, 0x13000, 0x14000, 0x15000, 0x16000, 0x17000, 0x18000, 0x19000, 0x1a000]"])
      (simp add: demo_pool10_def ioctl_mempool_init_def pool_rep_init demo_pmem_def
        valid_pa_small page_aligned_def, simp add: gr_mempool_init_def)
qed (simp add: pages_left_def demo_pool10_def ioctl_mempool_init_def)

definition demo_empty :: replay_context where
  "demo_empty = demo_rctx\<lparr> gm_region := [], tot_nr_pages := 0 \<rparr>"

lemma demo_image:
  "record_ok aarch64_mode demo_tables 0x1000 demo_mmu" "mempool_ok demo_pool10 (mappable demo_pmem)"
  "rec_inv demo_recorded demo_ds" "mem_dump_file demo_recorded = Some demo_file"
  "wf_offset demo_file = length (wf_data demo_file)"
  "image_ok aarch64_mode demo_tables 0x1000 (map snd demo_ds)"
  "image_pages aarch64_mode demo_tables 0x1000 (map snd demo_ds) \<le> pages_left demo_pool10"
  "gm_region demo_empty = []"
  using demo_record_ok demo_pool10_ok demo_recorded_inv demo_image_ok
  by (simp_all add: demo_recorded_def demo_file_def demo_ds_def demo_empty_def image_pages_def
      pgt_tables_def nr_tables_def demo_nr_tables demo_r1_def demo_r2_def)


theorem record_replay_last_region_witness:
  "\<exists>t' rctx1 new s1 pm1 rctx' s' pm' q.
    gr_mmu_dump aarch64_mode kbase_mmu_get_as_setup demo_tables 0x1000 demo_mmu = Inr t' \<and>
    gr_pgt_init gr_manager_alloc_get_single_page demo_empty (Some (pgt_file t')) demo_pool10 demo_pmem =
      Inr (rctx1, transtab (kbase_mmu_get_as_setup 0x1000), new, s1, pm1) \<and>
    gr_mem_contents_init gr_manager_alloc_pages gr_manager_get_pages rctx1 (Some (wf_data demo_file)) s1 pm1 =
      Inr (rctx', s', pm') \<and> nr_regions rctx' = 3 \<and>
    gr_trans_va_to_pa pm' new 0x2000 = Inr q \<and> frame_get (frames pm' q) 0 PAGE_SIZE = replicate PAGE_SIZE 2"
  using record_replay_last_region [OF demo_image, of kbase_mmu_get_as_setup]
  by (simp add: demo_ds_def demo_r1_def demo_r2_def numeral_2_eq_2 numeral_3_eq_3 All_less_Suc2) blast

section \<open>Synchronised address spaces\<close>

definition sync_bytes :: "gr_sync_as list \<Rightarrow> u8 list" where
  "sync_bytes es = concat (map (\<lambda>e. le_bytes 8 (sy_vm_start e) @ le_bytes 8 (sy_vm_end e) @ le_bytes 8 (sy_size e)) es)"

lemma sync_records_bytes:
  "wf_ok f \<Longrightarrow> sync_records es (Some f) = Inr (Some (file_write f (sync_bytes es)))"
  by (induction es arbitrary: f) (simp_all add: sync_bytes_def file_write_append)

definition sas_of :: "nat \<Rightarrow> (u64 \<Rightarrow> u64) \<Rightarrow> nat \<Rightarrow> gr_sync_as \<Rightarrow> sync_as" where
  "sas_of cnt pa i e = \<lparr> sa_gm_start = sy_vm_start e, sa_gm_end = sy_vm_end e, sa_size = sy_size e,
     sa_is_input = (i = cnt - 1), sa_pm_start = pa (sy_vm_start e), sa_pm_end = 0 \<rparr>"

lemma find_region_synced:
  "i < length rs \<Longrightarrow> find_region_from (rs[i := (rs ! i)\<lparr> gm_is_synced := True \<rparr>]) n a = find_region_from rs n a"
  by (induction rs arbitrary: i n) (auto simp: nth_Cons split: nat.split)

lemma find_region_less: "find_region_from rs n a = Some k \<Longrightarrow> n \<le> k \<and> k < n + length rs"
  by (induction rs arbitrary: n) (auto split: if_splits dest!: meta_spec, force+)

lemma sync_as_loop_reads:
  assumes "\<forall>e \<in> set es. gr_trans_va_to_pa pm (new_transtab rctx) (sy_vm_start e) = Inr (pa (sy_vm_start e)) \<and>
      gr_find_region_enclosing_address rctx (sy_vm_start e) \<noteq> None"
    and "length es \<le> cnt"
  shows "\<exists>rs. sync_as_loop pm cnt (length es) v1 v2 v3 \<lparr> cf_rest = sync_bytes es @ g, cf_eof = b \<rparr> acc rctx =
    Inr (acc @ map (\<lambda>i. sas_of cnt pa (cnt - length es + i) (es ! i)) [0..<length es], rctx\<lparr> gm_region := rs \<rparr>)"
  using assms
proof (induction es arbitrary: v1 v2 v3 acc rctx)
  case Nil
  show ?case by (intro exI [of _ "gm_region rctx"]) (simp add: sync_bytes_def)
next
  case (Cons e es)
  obtain k where k: "find_region_from (gm_region rctx) 0 (sy_vm_start e) = Some k"
    using Cons.prems(1) by (auto simp: gr_find_region_enclosing_address_def)
  then have kl: "k < length (gm_region rctx)" using find_region_less by fastforce
  let ?rctx = "rctx\<lparr> gm_region := (gm_region rctx)[k := (gm_region rctx ! k)\<lparr> gm_is_synced := True \<rparr>] \<rparr>"
  have "\<exists>rs. sync_as_loop pm cnt (length es) (Some (sy_vm_start e)) (Some (sy_vm_end e)) (Some (sy_size e))
      \<lparr> cf_rest = sync_bytes es @ g, cf_eof = b \<rparr> (acc @ [sas_of cnt pa (cnt - Suc (length es)) e]) ?rctx =
    Inr ((acc @ [sas_of cnt pa (cnt - Suc (length es)) e]) @
      map (\<lambda>i. sas_of cnt pa (cnt - length es + i) (es ! i)) [0..<length es], ?rctx\<lparr> gm_region := rs \<rparr>)"
    by (rule Cons.IH)
      (use Cons.prems find_region_synced [OF kl] in \<open>auto simp: gr_find_region_enclosing_address_def\<close>)
  moreover have "map (\<lambda>i. sas_of cnt pa (cnt - length (e # es) + i) ((e # es) ! i)) [0..<length (e # es)] =
      sas_of cnt pa (cnt - Suc (length es)) e # map (\<lambda>i. sas_of cnt pa (cnt - length es + i) (es ! i)) [0..<length es]"
    using Cons.prems(2) by (simp add: upt_conv_Cons map_Suc_upt [symmetric] del: upt_Suc)
  ultimately show ?case using Cons.prems(1) k
    by (simp add: sync_bytes_def fread_simps gr_find_region_enclosing_address_def sas_of_def)
qed

text \<open>
  The list of synchronised address spaces survives the file: when the recorder writes it and
  every entry lies in a loaded region, the replayer reads back the same entries in the same
  order, with the physical address of their first page; it takes the last one, and only that
  one, for the input.
\<close>

theorem sync_as_roundtrip:
  assumes "rec_inv ctx ds" and "sync_as_file ctx = Some \<lparr> wf_data = [], wf_offset = 0 \<rparr>"
    and "length (sync_as_list ctx) < 2 ^ 32"
    and "\<forall>e \<in> set (sync_as_list ctx).
      gr_trans_va_to_pa pm (new_transtab rctx) (sy_vm_start e) = Inr (pa (sy_vm_start e)) \<and>
      gr_find_region_enclosing_address rctx (sy_vm_start e) \<noteq> None"
  shows "\<exists>ctx' g rctx'. gr_dump_sync_as ctx = Inr ctx' \<and> sync_as_file ctx' = Some g \<and>
    gr_get_sync_as rctx pm (Some (wf_data g)) = Inr rctx' \<and>
    sas rctx' = map (\<lambda>i. sas_of (length (sync_as_list ctx)) pa i (sync_as_list ctx ! i))
      [0..<length (sync_as_list ctx)]"
proof -
  let ?es = "sync_as_list ctx"
  have cnt: "sync_as_cnt ctx = of_nat (length ?es)" using assms(1) by (simp add: rec_inv_def)
  have u: "unat (of_nat (length ?es) :: u32) = length ?es" by (rule unat_of_nat_u32) (rule assms(3))
  let ?g = "file_write \<lparr> wf_data = [], wf_offset = 0 \<rparr> (le_bytes 4 (sync_as_cnt ctx) @ sync_bytes ?es)"
  have d: "gr_dump_sync_as ctx = Inr (ctx\<lparr> sync_as_file := Some ?g \<rparr>)"
    by (simp add: gr_dump_sync_as_def assms(2) sync_records_bytes file_write_append)
  have w: "wf_data ?g = le_bytes 4 (sync_as_cnt ctx) @ sync_bytes ?es"
    by (subst file_write_start) simp_all
  obtain rs where "sync_as_loop pm (length ?es) (length ?es) None None None
      \<lparr> cf_rest = sync_bytes ?es @ [], cf_eof = False \<rparr> [] rctx =
    Inr ([] @ map (\<lambda>i. sas_of (length ?es) pa (length ?es - length ?es + i) (?es ! i)) [0..<length ?es],
      rctx\<lparr> gm_region := rs \<rparr>)"
    using sync_as_loop_reads [OF assms(4) order_refl] by blast
  then have "gr_get_sync_as rctx pm (Some (wf_data ?g)) = Inr (rctx\<lparr> gm_region := rs,
      sas := map (\<lambda>i. sas_of (length ?es) pa i (?es ! i)) [0..<length ?es] \<rparr>)"
    unfolding w by (simp add: gr_get_sync_as_def fopen_def fread_simps cnt u)
  then show ?thesis using d by (intro exI [of _ "ctx\<lparr> sync_as_file := Some ?g \<rparr>"] exI [of _ ?g]) simp
qed

definition demo_synced :: gr_context where
  "demo_synced = demo_recorded\<lparr> sync_as_cnt := 2, sync_as_file := Some \<lparr> wf_data = [], wf_offset = 0 \<rparr>,
     sync_as_list := [\<lparr> sy_vm_start = 0, sy_vm_end = 0x800, sy_size = 0x800, sy_cpu_to_gpu = 1, sy_gpu_to_cpu = 0 \<rparr>,
       \<lparr> sy_vm_start = 0x800, sy_vm_end = 0x1000, sy_size = 0x800, sy_cpu_to_gpu = 1, sy_gpu_to_cpu = 1 \<rparr>] \<rparr>"

definition demo_loaded :: replay_context where
  "demo_loaded = demo_rctx\<lparr> new_transtab := 0x1000, gm_region := [\<lparr>gm_start = 0, gm_end = 0x1000,
     gm_pages = [0x9000], gm_nr_pages = 1, gm_flags = 0x606e, gm_is_valid = True, gm_is_synced = False\<rparr>] \<rparr>"

lemma demo_trans:
  assumes "va = 0 \<or> va = 0x800"
  shows "gr_trans_va_to_pa demo_tables 0x1000 va = Inr (0x9000 + va)"
proof -
  have e: "gr_read64 demo_tables p 0 = demo_entry p" for p
    by (simp add: gr_read64_def demo_frames frame_simps)
  have m: "mappable demo_tables p" for p by (simp add: demo_tables_def)
  have "PFN_DOWN va = 0" using assms by (auto simp: PFN_DOWN_def)
  then have i: "pte_index (PFN_DOWN va) l = 0" for l by (simp add: pte_index_def)
  have a: "pte_to_phys_addr (demo_entry p) = demo_entry p AND PAGE_MASK" if "p \<in> {0x1000, 0x2000, 0x3000, 0x4000}" for p
    using that by (auto simp: demo_entry_def pte_to_phys_addr_def ENTRY_NX_BIT_def)
  have "gr_walk demo_tables (PFN_DOWN va) 0 3 0x1000 = Inr 0x4000"
    by (subst gr_walk.simps, simp add: i e m a demo_pte_types gr_map_page_ok page_aligned_def,
        subst gr_walk.simps, simp add: i e m a demo_pte_types gr_map_page_ok page_aligned_def,
        subst gr_walk.simps, simp add: i e m a demo_pte_types gr_map_page_ok page_aligned_def,
        subst gr_walk.simps, simp)
  then show ?thesis using assms
    by (auto simp: gr_trans_va_to_pa_def gr_get_pgd_at_level_def i e m a demo_pte_types gr_map_page_ok page_aligned_def)
qed

theorem sync_as_roundtrip_witness:
  "\<exists>ctx' g rctx'. gr_dump_sync_as demo_synced = Inr ctx' \<and> sync_as_file ctx' = Some g \<and>
    gr_get_sync_as demo_loaded demo_tables (Some (wf_data g)) = Inr rctx' \<and>
    map sa_pm_start (sas rctx') = [0x9000, 0x9800] \<and> map sa_is_input (sas rctx') = [False, True]"
proof -
  have "rec_inv demo_synced demo_ds"
    using demo_recorded_inv by (simp add: rec_inv_def demo_synced_def demo_recorded_def)
  moreover have "\<forall>e \<in> set (sync_as_list demo_synced).
      gr_trans_va_to_pa demo_tables (new_transtab demo_loaded) (sy_vm_start e) = Inr (0x9000 + sy_vm_start e) \<and>
      gr_find_region_enclosing_address demo_loaded (sy_vm_start e) \<noteq> None"
    by (simp add: demo_synced_def demo_loaded_def demo_trans gr_find_region_enclosing_address_def)
  ultimately show ?thesis
    using sync_as_roundtrip [of demo_synced demo_ds demo_tables demo_loaded "\<lambda>va. 0x9000 + va"]
    by (simp add: demo_synced_def sas_of_def) force
qed

end
