(* ===== verification/GR_Device.thy ===== *)
theory GR_Device
  imports GR_Context GR_File
begin

text \<open>
  The GPU as the replayer sees it: register accesses (\<open>gr_reg_read\<close>, \<open>gr_reg_write\<close> of
  \<open>replayer/gr_mem.c\<close>), waiting for interrupts (\<open>gr_manager_poll\<close> of \<open>gr_manager.c\<close>), cache and
  TLB maintenance and the waits of \<open>gr_replay.c\<close>, and the comparison of all registers with a
  snapshot (\<open>gr_validation.c\<close>). The hardware, the kernel's \<open>poll\<close> and the clock are the record
  \<open>machine\<close>, a parameter of everything here; delays are part of its answers.
\<close>

unbundle bit_operations_syntax

section \<open>Registers\<close>

definition GPU_CONTROL_REG :: "u32 \<Rightarrow> u32" where "GPU_CONTROL_REG r = r"
definition JOB_CONTROL_REG :: "u32 \<Rightarrow> u32" where "JOB_CONTROL_REG r = 0x1000 + r"
definition JOB_SLOT_REG :: "u32 \<Rightarrow> u32 \<Rightarrow> u32" where
  "JOB_SLOT_REG n r = JOB_CONTROL_REG (0x800 + push_bit 7 n) + r"
definition MMU_REG :: "u32 \<Rightarrow> u32" where "MMU_REG r = 0x2000 + r"
definition MMU_AS_REG :: "u32 \<Rightarrow> u32 \<Rightarrow> u32" where
  "MMU_AS_REG n r = MMU_REG (0x400 + push_bit 6 n) + r"

abbreviation (input) GPU_IRQ_RAWSTAT :: u32 where "GPU_IRQ_RAWSTAT \<equiv> 0x020"
abbreviation (input) GPU_IRQ_CLEAR :: u32 where "GPU_IRQ_CLEAR \<equiv> 0x024"
abbreviation (input) GPU_IRQ_MASK :: u32 where "GPU_IRQ_MASK \<equiv> 0x028"
abbreviation (input) GPU_COMMAND :: u32 where "GPU_COMMAND \<equiv> 0x030"
abbreviation (input) LATEST_FLUSH :: u32 where "LATEST_FLUSH \<equiv> 0x038"
abbreviation (input) SHADER_READY_LO :: u32 where "SHADER_READY_LO \<equiv> 0x140"
abbreviation (input) TILER_READY_LO :: u32 where "TILER_READY_LO \<equiv> 0x150"
abbreviation (input) JOB_IRQ_STATUS :: u32 where "JOB_IRQ_STATUS \<equiv> 0x00C"
abbreviation (input) JS_HEAD_NEXT_LO :: u32 where "JS_HEAD_NEXT_LO \<equiv> 0x40"
abbreviation (input) JS_HEAD_NEXT_HI :: u32 where "JS_HEAD_NEXT_HI \<equiv> 0x44"
abbreviation (input) JS_CONFIG_NEXT :: u32 where "JS_CONFIG_NEXT \<equiv> 0x58"
abbreviation (input) JS_COMMAND_NEXT :: u32 where "JS_COMMAND_NEXT \<equiv> 0x60"
abbreviation (input) JS_FLUSH_ID_NEXT :: u32 where "JS_FLUSH_ID_NEXT \<equiv> 0x70"
abbreviation (input) AS_TRANSTAB_LO :: u32 where "AS_TRANSTAB_LO \<equiv> 0x00"
abbreviation (input) AS_TRANSTAB_HI :: u32 where "AS_TRANSTAB_HI \<equiv> 0x04"
abbreviation (input) AS_LOCKADDR_LO :: u32 where "AS_LOCKADDR_LO \<equiv> 0x10"
abbreviation (input) AS_LOCKADDR_HI :: u32 where "AS_LOCKADDR_HI \<equiv> 0x14"
abbreviation (input) AS_COMMAND :: u32 where "AS_COMMAND \<equiv> 0x18"
abbreviation (input) AS_STATUS :: u32 where "AS_STATUS \<equiv> 0x28"

abbreviation (input) GPU_COMMAND_SOFT_RESET :: u32 where "GPU_COMMAND_SOFT_RESET \<equiv> 1"
abbreviation (input) GPU_COMMAND_CLEAN_INV_CACHES :: u32 where "GPU_COMMAND_CLEAN_INV_CACHES \<equiv> 8"
abbreviation (input) RESET_COMPLETED :: u32 where "RESET_COMPLETED \<equiv> 0x100"
abbreviation (input) CLEAN_CACHES_COMPLETED :: u32 where "CLEAN_CACHES_COMPLETED \<equiv> 0x20000"
abbreviation (input) AS_STATUS_AS_INACTIVE :: u32 where "AS_STATUS_AS_INACTIVE \<equiv> 0"
abbreviation (input) AS_STATUS_AS_ACTIVE :: u32 where "AS_STATUS_AS_ACTIVE \<equiv> 1"
abbreviation (input) AS_COMMAND_LOCK :: u32 where "AS_COMMAND_LOCK \<equiv> 2"
abbreviation (input) AS_COMMAND_FLUSH_PT :: u32 where "AS_COMMAND_FLUSH_PT \<equiv> 4"
abbreviation (input) AS_COMMAND_FLUSH_MEM :: u32 where "AS_COMMAND_FLUSH_MEM \<equiv> 5"
abbreviation (input) JS_CONFIG_START_FLUSH_NO_ACTION :: u32 where "JS_CONFIG_START_FLUSH_NO_ACTION \<equiv> 0"

abbreviation (input) KBASE_AS_INACTIVE_MAX_LOOPS :: nat where "KBASE_AS_INACTIVE_MAX_LOOPS \<equiv> 100000000"
abbreviation (input) GPU_REG_PA_SIZE :: nat where "GPU_REG_PA_SIZE \<equiv> 0x4000"

text \<open>
  The registers the replayer treats in its own way are pairwise different.
\<close>

lemmas reg_defs = GPU_CONTROL_REG_def JOB_CONTROL_REG_def JOB_SLOT_REG_def MMU_REG_def MMU_AS_REG_def

text \<open>
  The registers by themselves, as the two kernel modules see them through the mapping of the
  register window; a parameter of the theories about them.
\<close>

record 'h mmio =
  mm_read :: "u32 \<Rightarrow> 'h \<Rightarrow> u32 \<times> 'h"
  mm_write :: "u32 \<Rightarrow> u32 \<Rightarrow> 'h \<Rightarrow> 'h"

section \<open>The machine\<close>

datatype gr_irq_type = IRQ_TYPE_JOB | IRQ_TYPE_MMU | IRQ_TYPE_GPU

text \<open>
  \<open>hw_poll\<close> is one call of \<open>poll\<close> on the descriptor of an interrupt: its result and whether
  \<open>POLLIN\<close> is among the returned events. The GPU shares the memory of the CPU, so memory is
  part of the machine's state.
\<close>

record 'd machine =
  hw_read :: "u32 \<Rightarrow> 'd \<Rightarrow> u32 \<times> 'd"
  hw_write :: "u32 \<Rightarrow> u32 \<Rightarrow> 'd \<Rightarrow> 'd"
  hw_poll :: "gr_irq_type \<Rightarrow> int \<Rightarrow> 'd \<Rightarrow> (int \<times> bool) \<times> 'd"
  hw_time :: "'d \<Rightarrow> u32 \<times> 'd"
  hw_mem :: "'d \<Rightarrow> pmem"
  hw_put_mem :: "pmem \<Rightarrow> 'd \<Rightarrow> 'd"

definition gr_reg_read :: "'d machine \<Rightarrow> u32 \<Rightarrow> 'd \<Rightarrow> (u32 \<times> 'd) res" where
  "gr_reg_read hw offset d =
     (if unat offset + 4 > GPU_REG_PA_SIZE then Inl Bad_Access else Inr (hw_read hw offset d))"

definition gr_reg_write :: "'d machine \<Rightarrow> u32 \<Rightarrow> u32 \<Rightarrow> 'd \<Rightarrow> 'd res" where
  "gr_reg_write hw offset value d =
     (if unat offset + 4 > GPU_REG_PA_SIZE then Inl Bad_Access else Inr (hw_write hw offset value d))"

text \<open>
  Waiting for an interrupt: \<open>poll\<close> is called again until it reports \<open>POLLIN\<close>, also when its
  timeout has passed; fuel bounds the number of calls.
\<close>

fun gr_manager_poll :: "'d machine \<Rightarrow> nat \<Rightarrow> gr_irq_type \<Rightarrow> int \<Rightarrow> 'd \<Rightarrow> (int \<times> 'd) res" where
  "gr_manager_poll hw 0 irq timeout d = Inl No_Fuel"
| "gr_manager_poll hw (Suc fuel) irq timeout d =
     (case hw_poll hw irq timeout d of
        ((retval, pollin), d') \<Rightarrow>
          if retval = -1 then Inl Exit
          else if retval > 0 \<and> pollin then Inr (retval, d')
          else gr_manager_poll hw fuel irq timeout d')"

section \<open>Waits and cache maintenance\<close>

text \<open>
  The loops count down; \<open>reg_wait_loop\<close> gives the counter it ends with. \<open>reg_read_once\<close> and
  \<open>gr_wait_gpu_irq\<close> are not used by the replayer.
\<close>

fun reg_wait_loop :: "'d machine \<Rightarrow> u32 \<Rightarrow> u32 \<Rightarrow> nat \<Rightarrow> u32 \<Rightarrow> 'd \<Rightarrow> (nat \<times> 'd) res" where
  "reg_wait_loop hw offset value 0 new_value d = Inr (0, d)"
| "reg_wait_loop hw offset value (Suc max_loops) new_value d =
     (if max_loops \<noteq> 0 \<and> new_value \<noteq> value
      then bindR (gr_reg_read hw offset d) (\<lambda>(new_value', d').
             reg_wait_loop hw offset value max_loops new_value' d')
      else Inr (max_loops, d))"

definition reg_read_wait :: "'d machine \<Rightarrow> u32 \<Rightarrow> u32 \<Rightarrow> 'd \<Rightarrow> 'd res" where
  "reg_read_wait hw offset value d =
     bindR (gr_reg_read hw offset d) (\<lambda>(new_value, d1).
     bindR (reg_wait_loop hw offset value KBASE_AS_INACTIVE_MAX_LOOPS new_value d1) (\<lambda>(max_loops, d2).
       if max_loops = 0 then Inl Bug else Inr d2))"

fun cache_wait :: "'d machine \<Rightarrow> u32 \<Rightarrow> nat \<Rightarrow> u32 \<Rightarrow> 'd \<Rightarrow> (u32 \<times> 'd) res" where
  "cache_wait hw msk 0 val d = Inr (val, d)"
| "cache_wait hw msk (Suc loops) val d =
     (if val AND msk = 0 \<and> loops \<noteq> 0
      then bindR (gr_reg_read hw (GPU_CONTROL_REG GPU_IRQ_RAWSTAT) d) (\<lambda>(val', d').
             cache_wait hw msk loops val' d')
      else Inr (val, d))"

definition gr_cache_invalidate :: "'d machine \<Rightarrow> 'd \<Rightarrow> 'd res" where
  "gr_cache_invalidate hw d =
     bindR (gr_reg_read hw (GPU_CONTROL_REG GPU_IRQ_MASK) d) (\<lambda>(irq_mask, d1).
     bindR (gr_reg_write hw (GPU_CONTROL_REG GPU_IRQ_MASK) (irq_mask OR CLEAN_CACHES_COMPLETED) d1) (\<lambda>d2.
     bindR (gr_reg_write hw (GPU_CONTROL_REG GPU_COMMAND) GPU_COMMAND_CLEAN_INV_CACHES d2) (\<lambda>d3.
     bindR (gr_reg_read hw (GPU_CONTROL_REG GPU_IRQ_RAWSTAT) d3) (\<lambda>(val, d4).
     bindR (cache_wait hw (CLEAN_CACHES_COMPLETED OR RESET_COMPLETED) 100000 val d4) (\<lambda>(val', d5).
     bindR (gr_reg_read hw (GPU_CONTROL_REG GPU_IRQ_MASK) d5) (\<lambda>(irq_mask', d6).
     bindR (gr_reg_write hw (GPU_CONTROL_REG GPU_IRQ_MASK) (irq_mask' AND NOT CLEAN_CACHES_COMPLETED) d6) (\<lambda>d7.
       gr_reg_write hw (GPU_CONTROL_REG GPU_IRQ_CLEAR) val' d7)))))))"

fun flush_wait :: "'d machine \<Rightarrow> nat \<Rightarrow> u32 \<Rightarrow> 'd \<Rightarrow> 'd res" where
  "flush_wait hw 0 val d = Inr d"
| "flush_wait hw (Suc max_loops) val d =
     (if max_loops \<noteq> 0 \<and> val AND AS_STATUS_AS_ACTIVE \<noteq> 0
      then bindR (gr_reg_read hw (MMU_AS_REG 0 AS_STATUS) d) (\<lambda>(val', d'). flush_wait hw max_loops val' d')
      else Inr d)"

definition gr_as_flush :: "'d machine \<Rightarrow> u64 \<Rightarrow> 'd \<Rightarrow> 'd res" where
  "gr_as_flush hw lock_addr d =
     bindR (gr_reg_write hw (MMU_AS_REG 0 AS_LOCKADDR_LO) (ucast (lock_addr AND 0xFFFFFFFF)) d) (\<lambda>d1.
     bindR (gr_reg_write hw (MMU_AS_REG 0 AS_LOCKADDR_HI) (ucast (drop_bit 32 lock_addr AND 0xFFFFFFFF)) d1) (\<lambda>d2.
     bindR (gr_reg_write hw (MMU_AS_REG 0 AS_COMMAND) AS_COMMAND_LOCK d2) (\<lambda>d3.
     bindR (gr_reg_write hw (MMU_AS_REG 0 AS_COMMAND) AS_COMMAND_FLUSH_MEM d3) (\<lambda>d4.
     bindR (gr_reg_read hw (MMU_AS_REG 0 AS_STATUS) d4) (\<lambda>(val, d5).
       flush_wait hw 100000000 val d5)))))"

section \<open>Validation against a snapshot\<close>

text \<open>
  All registers of the first 16 KiB are read and compared, the translation table base excepted.
  \<open>gr_is_same_regmap\<close> also returns the new snapshot buffer and file; the messages and the
  \<open>getchar\<close> after a difference are left out.
\<close>

definition regmap_word :: "u8 list \<Rightarrow> nat \<Rightarrow> u32" where
  "regmap_word rm i = le_word (take 4 (drop (4 * i) rm))"

fun regmap_loop :: "'d machine \<Rightarrow> u8 list \<Rightarrow> nat list \<Rightarrow> int \<Rightarrow> 'd \<Rightarrow> (int \<times> 'd) res" where
  "regmap_loop hw rm [] ret d = Inr (ret, d)"
| "regmap_loop hw rm (i # is) ret d =
     bindR (gr_reg_read hw (of_nat (4 * i)) d) (\<lambda>(value, d').
       if (of_nat (4 * i) :: u32) = MMU_AS_REG 0 AS_TRANSTAB_LO \<or> (of_nat (4 * i) :: u32) = MMU_AS_REG 0 AS_TRANSTAB_HI
       then regmap_loop hw rm is ret d'
       else regmap_loop hw rm is (if regmap_word rm i \<noteq> value then 0 else ret) d')"

definition gr_is_same_regmap ::
  "'d machine \<Rightarrow> u8 list option \<Rightarrow> cfile \<Rightarrow> reg_io \<Rightarrow> 'd \<Rightarrow> (int \<times> u8 list option \<times> cfile \<times> 'd) res" where
  "gr_is_same_regmap hw regmap reg_fp cur_io d =
     bindR (fread_buf GPU_REG_PA_SIZE regmap reg_fp) (\<lambda>(regmap', reg_fp').
       if io_offset cur_io = JOB_CONTROL_REG JOB_IRQ_STATUS \<or> io_offset cur_io = JOB_SLOT_REG 1 JS_COMMAND_NEXT
       then Inr (1, regmap', reg_fp', d)
       else if io_offset cur_io = MMU_AS_REG 0 AS_COMMAND \<and>
         (io_value cur_io = AS_COMMAND_LOCK \<or> io_value cur_io = AS_COMMAND_FLUSH_PT \<or>
          io_value cur_io = AS_COMMAND_FLUSH_MEM)
       then Inr (1, regmap', reg_fp', d)
       else bindR (var regmap') (\<lambda>rm.
            bindR (regmap_loop hw rm [0..<GPU_REG_PA_SIZE div 4] 1 d) (\<lambda>(ret, d').
              Inr (1, regmap', reg_fp', d'))))"

section \<open>Lemmas\<close>

lemma reg_read_ok [simp]:
  "unat offset + 4 \<le> GPU_REG_PA_SIZE \<Longrightarrow> gr_reg_read hw offset d = Inr (hw_read hw offset d)"
  by (simp add: gr_reg_read_def)

lemma reg_write_ok [simp]:
  "unat offset + 4 \<le> GPU_REG_PA_SIZE \<Longrightarrow> gr_reg_write hw offset v d = Inr (hw_write hw offset v d)"
  by (simp add: gr_reg_write_def)

lemma gr_manager_poll_more:
  "gr_manager_poll hw n irq t d = Inr r \<Longrightarrow> n \<le> m \<Longrightarrow> gr_manager_poll hw m irq t d = Inr r"
proof (induction n arbitrary: m d)
  case 0
  then show ?case by simp
next
  case (Suc n)
  then obtain m' where m: "m = Suc m'" "n \<le> m'" by (metis Suc_le_D Suc_le_mono)
  then show ?case using Suc.prems(1) Suc.IH [of _ m']
    by (auto split: prod.splits if_splits)
qed

text \<open>The machine after \<open>n\<close> polls that reported nothing.\<close>

definition quiet_poll :: "'d machine \<Rightarrow> gr_irq_type \<Rightarrow> int \<Rightarrow> 'd \<Rightarrow> bool" where
  "quiet_poll hw irq t d \<longleftrightarrow>
     (case hw_poll hw irq t d of ((r, p), d') \<Rightarrow> r \<noteq> -1 \<and> \<not> (r > 0 \<and> p))"

definition after_polls :: "'d machine \<Rightarrow> gr_irq_type \<Rightarrow> int \<Rightarrow> nat \<Rightarrow> 'd \<Rightarrow> 'd" where
  "after_polls hw irq t n d = ((\<lambda>d. snd (hw_poll hw irq t d)) ^^ n) d"

lemma after_polls_simps:
  "after_polls hw irq t 0 d = d"
  "after_polls hw irq t (Suc n) d = after_polls hw irq t n (snd (hw_poll hw irq t d))"
  by (simp_all add: after_polls_def funpow_Suc_right del: funpow.simps(2))

lemma gr_manager_poll_after:
  assumes "\<forall>i < n. quiet_poll hw irq t (after_polls hw irq t i d)"
  shows "gr_manager_poll hw (n + m) irq t d = gr_manager_poll hw m irq t (after_polls hw irq t n d)"
  using assms
proof (induction n arbitrary: d)
  case 0
  then show ?case by (simp add: after_polls_simps)
next
  case (Suc n)
  obtain r p d' where h: "hw_poll hw irq t d = ((r, p), d')" by (metis surj_pair)
  have q: "quiet_poll hw irq t d" using Suc.prems by (auto dest: spec [of _ 0] simp: after_polls_simps)
  have "\<forall>i < n. quiet_poll hw irq t (after_polls hw irq t i d')"
    using Suc.prems h by (auto dest: spec [of _ "Suc i" for i] simp: after_polls_simps)
  then show ?case using Suc.IH [of d'] q h by (auto simp: quiet_poll_def after_polls_simps)
qed

end
