(* ===== verification/GR_NanoIrq.thy ===== *)
theory GR_NanoIrq
  imports GR_Device
begin

text \<open>
  The interrupts of the kernel module (\<open>replayer/nano_driver/gr_irq.c\<close> over the register accesses
  of \<open>gr_hw.c\<close>): the handlers of the three interrupt lines, the flags they raise and the \<open>poll\<close>
  operations of the two descriptors that lower them, and the registration of the handlers. The
  registers of the GPU are the parameter \<open>mmio\<close>. The last section is the protocol of a handler
  and one polling process as a step relation.
\<close>

unbundle bit_operations_syntax

section \<open>Registers and state\<close>

abbreviation (input) JOB_IRQ_RAWSTAT :: u32 where "JOB_IRQ_RAWSTAT \<equiv> 0x000"
abbreviation (input) JOB_IRQ_CLEAR :: u32 where "JOB_IRQ_CLEAR \<equiv> 0x004"
abbreviation (input) JOB_IRQ_MASK :: u32 where "JOB_IRQ_MASK \<equiv> 0x008"
abbreviation (input) MMU_IRQ_CLEAR :: u32 where "MMU_IRQ_CLEAR \<equiv> 0x004"
abbreviation (input) MMU_IRQ_MASK :: u32 where "MMU_IRQ_MASK \<equiv> 0x008"
abbreviation (input) GPU_IRQ_STATUS :: u32 where "GPU_IRQ_STATUS \<equiv> 0x02C"
abbreviation (input) ALL_BITS :: u32 where "ALL_BITS \<equiv> 0xFFFFFFFF"
abbreviation (input) POLLIN :: u32 where "POLLIN \<equiv> 0x1"
abbreviation (input) POLLRDNORM :: u32 where "POLLRDNORM \<equiv> 0x40"

text \<open>
  The module's register accesses (the functions of \<open>gr_hw.c\<close>, named like those of the replayer).
\<close>

definition nd_reg_write :: "'h mmio \<Rightarrow> u32 \<Rightarrow> u32 \<Rightarrow> 'h \<Rightarrow> 'h" where
  "nd_reg_write hw offset value h = mm_write hw offset value h"

definition nd_reg_read :: "'h mmio \<Rightarrow> u32 \<Rightarrow> 'h \<Rightarrow> u32 \<times> 'h" where
  "nd_reg_read hw offset h = (let (val, h') = mm_read hw offset h in (val, h'))"

text \<open>
  \<open>is_job_irq\<close> and \<open>is_gpu_irq\<close> are atomic counters. \<open>job_wakes\<close> counts the calls of
  \<open>wake_up_interruptible\<close> on the queue of the job interrupt; nothing wakes the other queue.
\<close>

record 'h irq_dev =
  is_job_irq :: int
  is_gpu_irq :: int
  job_irq_cnt :: u32
  gpu_irq_cnt :: u32
  job_wakes :: nat
  regs :: 'h

section \<open>The handlers\<close>

text \<open>\<open>ffs\<close>: the position of the lowest set bit, counted from 1, and 0 when there is none.\<close>

definition ffs :: "u32 \<Rightarrow> nat" where
  "ffs w = (case List.find (\<lambda>i. bit w i) [0..<32] of None \<Rightarrow> 0 | Some i \<Rightarrow> Suc i)"

definition job_clear_mask :: "u32 \<Rightarrow> u32" where
  "job_clear_mask pending =
     (let failed = drop_bit 16 pending;
          finished = (pending AND 0xFFFF) OR failed;
          i = ffs finished - 1
      in pending AND (push_bit i 1 OR push_bit (i + 16) 1))"

fun job_irq_loop :: "'h mmio \<Rightarrow> nat \<Rightarrow> u32 \<Rightarrow> 'h \<Rightarrow> 'h res" where
  "job_irq_loop hw 0 pending h = (if pending = 0 then Inr h else Inl No_Fuel)"
| "job_irq_loop hw (Suc fuel) pending h =
     (if pending = 0 then Inr h
      else let h1 = nd_reg_write hw (JOB_CONTROL_REG JOB_IRQ_CLEAR) (job_clear_mask pending) h;
               (pending', h2) = nd_reg_read hw (JOB_CONTROL_REG JOB_IRQ_RAWSTAT) h1
           in job_irq_loop hw fuel pending' h2)"

definition gr_job_irq_handler :: "'h mmio \<Rightarrow> nat \<Rightarrow> 'h irq_dev \<Rightarrow> 'h irq_dev res" where
  "gr_job_irq_handler hw fuel g =
     (let g1 = g\<lparr> job_irq_cnt := job_irq_cnt g + 1, job_wakes := job_wakes g + 1 \<rparr>;
          (pending, h1) = nd_reg_read hw (JOB_CONTROL_REG JOB_IRQ_STATUS) (regs g1)
      in bindR (job_irq_loop hw fuel pending h1) (\<lambda>h2.
           Inr (g1\<lparr> regs := h2, is_job_irq := is_job_irq g1 + 1 \<rparr>)))"

definition gr_mmu_irq_handler :: "'h mmio \<Rightarrow> 'h irq_dev \<Rightarrow> 'h irq_dev" where
  "gr_mmu_irq_handler hw g =
     (let h1 = nd_reg_write hw (MMU_REG MMU_IRQ_MASK) 0 (regs g);
          h2 = nd_reg_write hw (MMU_REG MMU_IRQ_CLEAR) ALL_BITS h1;
          h3 = nd_reg_write hw (MMU_REG MMU_IRQ_CLEAR) ALL_BITS h2;
          h4 = nd_reg_write hw (MMU_REG MMU_IRQ_MASK) ALL_BITS h3
      in g\<lparr> regs := h4 \<rparr>)"

definition gr_gpu_irq_handler :: "'h mmio \<Rightarrow> 'h irq_dev \<Rightarrow> 'h irq_dev" where
  "gr_gpu_irq_handler hw g =
     (let g1 = g\<lparr> gpu_irq_cnt := gpu_irq_cnt g + 1 \<rparr>;
          (val, h1) = nd_reg_read hw (GPU_CONTROL_REG GPU_IRQ_STATUS) (regs g1);
          h2 = nd_reg_write hw (GPU_CONTROL_REG GPU_IRQ_CLEAR) val h1
      in g1\<lparr> regs := h2, is_gpu_irq := is_gpu_irq g1 + 1 \<rparr>)"

text \<open>The handler table, indexed by the tag of the line.\<close>

definition gr_handler :: "'h mmio \<Rightarrow> nat \<Rightarrow> u32 \<Rightarrow> 'h irq_dev \<Rightarrow> 'h irq_dev res" where
  "gr_handler hw fuel tag g =
     (if tag = 0 then gr_job_irq_handler hw fuel g
      else if tag = 1 then Inr (gr_mmu_irq_handler hw g)
      else if tag = 2 then Inr (gr_gpu_irq_handler hw g)
      else Inl Bad_Access)"

section \<open>The poll operations\<close>

text \<open>
  The events that one call of \<open>poll\<close> reports and the counter it leaves. The queue that
  \<open>poll_wait\<close> registers with is found through \<open>private_data\<close>, see \<open>job_irq_init\<close>.
\<close>

definition job_irq_poll :: "int \<Rightarrow> u32 \<times> int" where
  "job_irq_poll n = (if n \<noteq> 0 then (POLLIN OR POLLRDNORM, n - 1) else (0, n))"

definition gpu_irq_poll :: "int \<Rightarrow> u32 \<times> int" where
  "gpu_irq_poll n = (if n \<noteq> 0 then (POLLIN, n - 1) else (0, n))"

text \<open>
  What \<open>private_data\<close> of a descriptor points to: the init functions pass the address of their
  parameter \<open>grdev\<close>, which is gone when they return.
\<close>

datatype private_data = Device | Stack_Slot

definition poll_queue :: "private_data \<Rightarrow> unit res" where
  "poll_queue pd = (case pd of Device \<Rightarrow> Inr () | Stack_Slot \<Rightarrow> Inl Bad_Access)"

text \<open>\<open>anon_inode_getfd\<close> gives the parameter \<open>fd\<close>, a descriptor or a negative error.\<close>

definition gpu_irq_init :: "int \<Rightarrow> 'h irq_dev \<Rightarrow> (int \<times> private_data) \<times> 'h irq_dev" where
  "gpu_irq_init fd g = ((fd, Stack_Slot), g\<lparr> is_gpu_irq := 0 \<rparr>)"

definition job_irq_init :: "int \<Rightarrow> 'h irq_dev \<Rightarrow> (int \<times> private_data) \<times> 'h irq_dev" where
  "job_irq_init fd g = ((fd, Stack_Slot), g\<lparr> is_job_irq := 0 \<rparr>)"

section \<open>Registration\<close>

definition tgx_tag :: "u64 \<Rightarrow> u32 \<Rightarrow> u64" where
  "tgx_tag ptr tag = ptr OR ucast tag"

definition tgx_untag :: "u64 \<Rightarrow> u64" where
  "tgx_untag ptr = ptr AND NOT 3"

record gr_irq =
  irq :: int
  flags :: u32

definition gr_get_irqs :: "gr_irq list" where
  "gr_get_irqs = map (\<lambda>n. \<lparr> irq = n, flags = 0x4 \<rparr>) [64, 65, 66]"

text \<open>
  A registered handler is its line, the tag of the handler and the cookie it is called with.
  \<open>request_irq\<close> answers with the next element of \<open>script\<close> (0 when it is used up); only the
  result of the last line is returned.
\<close>

type_synonym installed = "(int \<times> u32 \<times> u64) list"

fun install_lines ::
  "u64 \<Rightarrow> (u32 \<times> gr_irq) list \<Rightarrow> int list \<Rightarrow> int \<Rightarrow> installed \<Rightarrow> int \<times> installed" where
  "install_lines dev [] script err ins = (err, ins)"
| "install_lines dev ((i, x) # xs) script err ins =
     (let (err', script') = (case script of [] \<Rightarrow> (0, []) | r # rs \<Rightarrow> (r, rs))
      in install_lines dev xs script' err'
           (if err' = 0 then (irq x, i, tgx_tag dev i) # ins else ins))"

definition gr_install_interrupts :: "u64 \<Rightarrow> int list \<Rightarrow> installed \<Rightarrow> int \<times> installed" where
  "gr_install_interrupts dev script ins =
     install_lines dev (zip [0, 1, 2] gr_get_irqs) script 0 ins"

text \<open>\<open>free_irq\<close> removes the handler with this line and cookie, if there is one.\<close>

definition free_irq :: "int \<Rightarrow> u64 \<Rightarrow> installed \<Rightarrow> installed" where
  "free_irq n cookie ins = filter (\<lambda>(m, i, c). \<not> (m = n \<and> c = cookie)) ins"

definition gr_release_interrupts :: "u64 \<Rightarrow> installed \<Rightarrow> installed" where
  "gr_release_interrupts dev ins =
     fold (\<lambda>(i, x) l. free_irq (irq x) (tgx_tag dev i) l) (zip [0, 1, 2] gr_get_irqs) ins"

section \<open>Acknowledging job interrupts\<close>

lemma ffs_bounds:
  assumes "w \<noteq> 0"
  shows "0 < ffs w" and "bit w (ffs w - 1)"
proof -
  obtain j where "bit w j" using assms by (metis bit_eqI bit_0_eq bot_apply bot_bool_def)
  then have "j < 32" using bit_imp_le_length by fastforce
  then obtain i where "List.find (\<lambda>i. bit w i) [0..<32] = Some i"
    using \<open>bit w j\<close> by (cases "List.find (\<lambda>i. bit w i) [0..<32]") (auto simp: find_None_iff)
  moreover from this have "bit w i" by (auto simp: find_Some_iff)
  ultimately show "0 < ffs w" and "bit w (ffs w - 1)" by (simp_all add: ffs_def)
qed

text \<open>
  A slot is pending when its bit for a finished or for a failed job is set; \<open>slots\<close> are the
  pending ones.
\<close>

definition slots :: "u32 \<Rightarrow> nat set" where
  "slots w = {i. i < 16 \<and> (bit w i \<or> bit w (i + 16))}"

lemma finite_slots [simp]: "finite (slots w)"
  by (simp add: slots_def)

lemma card_slots: "card (slots w) \<le> 16"
  using card_mono [of "{..<16}" "slots w"] by (auto simp: slots_def)

lemma slots_empty: "slots w = {} \<longleftrightarrow> w = 0"
proof
  assume *: "slots w = {}"
  show "w = 0"
  proof (rule bit_word_eqI)
    fix n assume "n < LENGTH(32)"
    then have n: "n < 32" by simp
    show "bit w n \<longleftrightarrow> bit (0 :: u32) n"
    proof (cases "n < 16")
      case True
      then show ?thesis using * by (auto simp: slots_def)
    next
      case False
      then obtain j where "n = j + 16" by (metis add.commute le_Suc_ex not_less)
      then show ?thesis using * n by (auto simp: slots_def)
    qed
  qed
qed (simp add: slots_def)

lemma finished_bit:
  "bit ((w AND 0xFFFF) OR drop_bit 16 w :: u32) i \<longleftrightarrow> i \<in> slots w"
proof -
  have "bit (0xFFFF :: u32) i \<longleftrightarrow> i < 16"
  proof -
    have "(0xFFFF :: u32) = mask 16" by (simp add: mask_eq_exp_minus_1)
    then show ?thesis by (simp only: bit_mask_iff) auto
  qed
  moreover have "bit w (i + 16) \<Longrightarrow> i < 16"
    using bit_imp_le_length [of w "i + 16"] by simp
  ultimately show ?thesis by (auto simp: slots_def bit_simps add.commute)
qed

lemma job_clear_mask_slot:
  assumes "w \<noteq> 0"
  obtains i where "i \<in> slots w"
    and "job_clear_mask w = w AND (push_bit i 1 OR push_bit (i + 16) 1)"
proof -
  let ?fin = "(w AND 0xFFFF) OR drop_bit 16 w"
  have "?fin \<noteq> 0"
  proof
    assume "?fin = 0"
    then have "\<And>i. i \<notin> slots w" using finished_bit [of w] by simp
    then show False using assms slots_empty [of w] by blast
  qed
  then have "ffs ?fin - 1 \<in> slots w" using ffs_bounds finished_bit by blast
  then show thesis by (intro that) (simp_all add: job_clear_mask_def Let_def)
qed

lemma slots_cleared:
  assumes "w \<noteq> 0"
  shows "slots (w AND NOT (job_clear_mask w)) \<subset> slots w"
proof -
  obtain i where i: "i \<in> slots w"
    and m: "job_clear_mask w = w AND (push_bit i 1 OR push_bit (i + 16) 1)"
    using job_clear_mask_slot [OF assms] by blast
  have "i \<notin> slots (w AND NOT (job_clear_mask w))"
    using i by (auto simp: slots_def m bit_simps)
  moreover have "slots (w AND NOT (job_clear_mask w)) \<subseteq> slots w"
    by (auto simp: slots_def bit_simps)
  ultimately show ?thesis using i by blast
qed

text \<open>
  The documented behaviour of the registers, with no interrupt arriving in between: reads have
  no effect on the raw status, the status shows enabled bits of it, and a write of the clear
  register clears the bits written.
\<close>

definition job_regs_ok :: "'h mmio \<Rightarrow> ('h \<Rightarrow> u32) \<Rightarrow> bool" where
  "job_regs_ok hw raw \<longleftrightarrow>
     (\<forall>h. fst (mm_read hw (JOB_CONTROL_REG JOB_IRQ_RAWSTAT) h) = raw h) \<and>
     (\<forall>h. fst (mm_read hw (JOB_CONTROL_REG JOB_IRQ_STATUS) h) AND NOT (raw h) = 0) \<and>
     (\<forall>r h. raw (snd (mm_read hw r h)) = raw h) \<and>
     (\<forall>v h. raw (mm_write hw (JOB_CONTROL_REG JOB_IRQ_CLEAR) v h) = raw h AND NOT v)"

lemma job_irq_loop_step:
  assumes "job_regs_ok hw raw" and "pending \<noteq> 0"
  obtains h' where "job_irq_loop hw (Suc fuel) pending h = job_irq_loop hw fuel (raw h') h'"
    and "raw h' = raw h AND NOT (job_clear_mask pending)"
proof -
  let ?h1 = "nd_reg_write hw (JOB_CONTROL_REG JOB_IRQ_CLEAR) (job_clear_mask pending) h"
  let ?h2 = "snd (mm_read hw (JOB_CONTROL_REG JOB_IRQ_RAWSTAT) ?h1)"
  have "raw ?h2 = raw ?h1" using assms(1) by (simp add: job_regs_ok_def)
  moreover have "nd_reg_read hw (JOB_CONTROL_REG JOB_IRQ_RAWSTAT) ?h1 = (raw ?h1, ?h2)"
    using assms(1) by (simp add: job_regs_ok_def nd_reg_read_def split_beta prod_eq_iff)
  ultimately have "job_irq_loop hw (Suc fuel) pending h = job_irq_loop hw fuel (raw ?h2) ?h2"
    using assms(2) by (simp add: Let_def)
  moreover have "raw ?h1 = raw h AND NOT (job_clear_mask pending)"
    using assms(1) by (simp add: job_regs_ok_def nd_reg_write_def)
  ultimately show thesis using that \<open>raw ?h2 = raw ?h1\<close> by simp
qed

lemma job_irq_loop_clears:
  assumes "job_regs_ok hw raw" and "card (slots (raw h)) \<le> fuel"
  shows "\<exists>h'. job_irq_loop hw fuel (raw h) h = Inr h' \<and> raw h' = 0"
  using assms(2)
proof (induction fuel arbitrary: h)
  case 0
  then have "raw h = 0" using slots_empty by simp
  then show ?case by simp
next
  case (Suc fuel)
  show ?case
  proof (cases "raw h = 0")
    case True
    then show ?thesis by simp
  next
    case False
    obtain h' where step: "job_irq_loop hw (Suc fuel) (raw h) h = job_irq_loop hw fuel (raw h') h'"
      and raw: "raw h' = raw h AND NOT (job_clear_mask (raw h))"
      using job_irq_loop_step [OF assms(1) False] by blast
    have "card (slots (raw h')) < card (slots (raw h))"
      unfolding raw by (rule psubset_card_mono [OF _ slots_cleared [OF False]]) simp
    then show ?thesis using Suc step by auto
  qed
qed

lemma job_irq_loop_from_status:
  assumes "job_regs_ok hw raw" and "pending \<noteq> 0"
  shows "\<exists>h'. job_irq_loop hw 17 pending h = Inr h' \<and> raw h' = 0"
proof -
  obtain h' where "job_irq_loop hw (Suc 16) pending h = job_irq_loop hw 16 (raw h') h'"
    using job_irq_loop_step [OF assms] by blast
  then show ?thesis
    using job_irq_loop_clears [OF assms(1), of h' 16] card_slots [of "raw h'"] by simp
qed

text \<open>
  C24. The job interrupt handler returns: it acknowledges one pending slot per round, its finished
  and its failed bit together, so seventeen rounds are enough. When the status register shows an
  interrupt, none is pending afterwards; when it shows none (the line is shared), the pending
  ones stay. Either way one interrupt is counted and announced and one waiter is woken.
\<close>

theorem gr_job_irq_handler_acknowledges:
  assumes "job_regs_ok hw raw"
  shows "\<exists>g'. gr_job_irq_handler hw 17 g = Inr g' \<and>
           raw (regs g') =
             (if fst (mm_read hw (JOB_CONTROL_REG JOB_IRQ_STATUS) (regs g)) = 0
              then raw (regs g) else 0) \<and>
           is_job_irq g' = is_job_irq g + 1 \<and> is_gpu_irq g' = is_gpu_irq g \<and>
           job_irq_cnt g' = job_irq_cnt g + 1 \<and> job_wakes g' = job_wakes g + 1"
proof -
  obtain pending h1 where read: "mm_read hw (JOB_CONTROL_REG JOB_IRQ_STATUS) (regs g) = (pending, h1)"
    by fastforce
  then have raw1: "raw h1 = raw (regs g)"
    using assms unfolding job_regs_ok_def by (metis snd_conv)
  have "\<exists>h2. job_irq_loop hw 17 pending h1 = Inr h2 \<and>
             raw h2 = (if pending = 0 then raw (regs g) else 0)"
  proof (cases "pending = 0")
    case True
    then show ?thesis using raw1 by (simp add: eval_nat_numeral)
  next
    case False
    then show ?thesis using job_irq_loop_from_status [OF assms, of pending h1] by simp
  qed
  then obtain h2 where "job_irq_loop hw 17 pending h1 = Inr h2"
    and "raw h2 = (if pending = 0 then raw (regs g) else 0)" by blast
  then show ?thesis
    using read by (simp add: gr_job_irq_handler_def nd_reg_read_def Let_def)
qed

text \<open>A block of job registers that behaves as documented, all interrupts enabled.\<close>

definition demo_mmio :: "u32 mmio" where
  "demo_mmio =
     \<lparr> mm_read = (\<lambda>r h. (h, h)),
       mm_write = (\<lambda>r v h. if r = JOB_CONTROL_REG JOB_IRQ_CLEAR then h AND NOT v else h) \<rparr>"

definition demo_irq_dev :: "u32 irq_dev" where
  "demo_irq_dev = \<lparr> is_job_irq = 0, is_gpu_irq = 0, job_irq_cnt = 0, gpu_irq_cnt = 0,
                    job_wakes = 0, regs = 0x20003 \<rparr>"

lemma demo_mmio_ok: "job_regs_ok demo_mmio (\<lambda>h. h)"
  by (simp add: job_regs_ok_def demo_mmio_def)

lemma gr_job_irq_handler_acknowledges_witness:
  "\<exists>g'. gr_job_irq_handler demo_mmio 17 demo_irq_dev = Inr g' \<and> regs g' = 0 \<and> is_job_irq g' = 1"
  using gr_job_irq_handler_acknowledges [OF demo_mmio_ok, of demo_irq_dev]
  by (auto simp: demo_irq_dev_def demo_mmio_def)

section \<open>Registering and releasing the handlers\<close>

lemma tag_bits: "tag \<in> {0, 1, 2} \<Longrightarrow> (ucast (tag :: u32) :: u64) AND NOT 3 = 0"
  by auto

lemma tgx_untag_tag:
  assumes "ptr AND NOT 3 = ptr" and "tag \<in> {0, 1, 2}"
  shows "tgx_untag (tgx_tag ptr tag) = ptr"
  using assms tag_bits [OF assms(2)]
  by (simp add: tgx_untag_def tgx_tag_def bit.conj_disj_distrib2)

lemma install_interrupts_eq:
  "gr_install_interrupts dev [a, b, c] ins =
     (c, (if c = 0 then [(66, 2, tgx_tag dev 2)] else []) @
         (if b = 0 then [(65, 1, tgx_tag dev 1)] else []) @
         (if a = 0 then [(64, 0, tgx_tag dev 0)] else []) @ ins)"
  by (simp add: gr_install_interrupts_def gr_get_irqs_def)

lemma install_script:
  obtains a b c where "gr_install_interrupts dev script ins = gr_install_interrupts dev [a, b, c] ins"
proof -
  have "\<exists>a b c. gr_install_interrupts dev script ins = gr_install_interrupts dev [a, b, c] ins"
  proof (cases script)
    case Nil
    then show ?thesis
      by (intro exI [of _ 0]) (simp add: gr_install_interrupts_def gr_get_irqs_def)
  next
    case (Cons a s1)
    show ?thesis
    proof (cases s1)
      case Nil
      with Cons show ?thesis
        by (intro exI [of _ a] exI [of _ 0]) (simp add: gr_install_interrupts_def gr_get_irqs_def)
    next
      case (Cons b s2)
      with \<open>script = a # s1\<close> show ?thesis
        by (intro exI [of _ a] exI [of _ b] exI [of _ "case s2 of [] \<Rightarrow> 0 | c # s3 \<Rightarrow> c"])
          (simp add: gr_install_interrupts_def gr_get_irqs_def split: list.splits)
    qed
  qed
  then show thesis using that by blast
qed

lemma free_irq_other: "cookie \<notin> snd ` snd ` set ins \<Longrightarrow> free_irq n cookie ins = ins"
  unfolding free_irq_def by (rule filter_True) (force simp: image_iff)

lemma free_irq_simps [simp]:
  "free_irq n cookie [] = []"
  "free_irq n cookie ((m, i, c) # ins) =
     (if m = n \<and> c = cookie then free_irq n cookie ins else (m, i, c) # free_irq n cookie ins)"
  by (simp_all add: free_irq_def)

lemma release_after_install:
  assumes "\<forall>tag \<in> {0, 1, 2}. tgx_tag dev tag \<notin> snd ` snd ` set ins"
  shows "gr_release_interrupts dev (snd (gr_install_interrupts dev script ins)) = ins"
proof -
  obtain a b c where "gr_install_interrupts dev script ins = gr_install_interrupts dev [a, b, c] ins"
    by (rule install_script)
  with assms show ?thesis
    by (simp add: install_interrupts_eq gr_release_interrupts_def gr_get_irqs_def free_irq_other)
qed

section \<open>The handler and a polling process\<close>

text \<open>
  The interleavings of the job interrupt handler with one process that polls its descriptor with
  the timeout \<open>tmo\<close> over and over. The handler first wakes the process and counts the interrupt
  at its end; the process calls \<open>job_irq_poll\<close> and, when that reports nothing, returns if the
  timeout is 0 and sleeps otherwise, until it is woken or, for a positive timeout, until the time
  has passed.
\<close>

datatype handler_pc = H_Idle | H_Woken
datatype poller_pc = P_User | P_Scan | P_Asleep

record irq_state =
  handler :: handler_pc
  poller :: poller_pc
  flag :: int
  handled :: nat
  returned :: nat

definition irq_start :: irq_state where
  "irq_start = \<lparr> handler = H_Idle, poller = P_User, flag = 0, handled = 0, returned = 0 \<rparr>"

definition wake_poller :: "poller_pc \<Rightarrow> poller_pc" where
  "wake_poller p = (if p = P_Asleep then P_Scan else p)"

inductive irq_step :: "int \<Rightarrow> irq_state \<Rightarrow> irq_state \<Rightarrow> bool" for tmo where
  wake: "handler s = H_Idle \<Longrightarrow>
    irq_step tmo s (s\<lparr> handler := H_Woken, poller := wake_poller (poller s) \<rparr>)"
| count: "handler s = H_Woken \<Longrightarrow>
    irq_step tmo s (s\<lparr> handler := H_Idle, flag := flag s + 1, handled := handled s + 1 \<rparr>)"
| call: "poller s = P_User \<Longrightarrow> irq_step tmo s (s\<lparr> poller := P_Scan \<rparr>)"
| report: "poller s = P_Scan \<Longrightarrow> job_irq_poll (flag s) = (ev, n) \<Longrightarrow> ev \<noteq> 0 \<Longrightarrow>
    irq_step tmo s (s\<lparr> poller := P_User, flag := n, returned := returned s + 1 \<rparr>)"
| nothing: "poller s = P_Scan \<Longrightarrow> job_irq_poll (flag s) = (0, n) \<Longrightarrow>
    irq_step tmo s (s\<lparr> poller := if tmo = 0 then P_User else P_Asleep, flag := n \<rparr>)"
| elapse: "poller s = P_Asleep \<Longrightarrow> 0 < tmo \<Longrightarrow> irq_step tmo s (s\<lparr> poller := P_Scan \<rparr>)"

inductive_cases irq_stepE: "irq_step tmo s t"

abbreviation irq_reach :: "int \<Rightarrow> irq_state \<Rightarrow> bool" where
  "irq_reach tmo \<equiv> (irq_step tmo)\<^sup>*\<^sup>* irq_start"

lemma job_irq_poll_simps:
  "job_irq_poll n = (ev, m) \<Longrightarrow> ev \<noteq> 0 \<longleftrightarrow> n \<noteq> 0"
  "job_irq_poll n = (ev, m) \<Longrightarrow> m = (if n \<noteq> 0 then n - 1 else n)"
  by (auto simp: job_irq_poll_def split: if_splits)

definition irq_inv :: "int \<Rightarrow> irq_state \<Rightarrow> bool" where
  "irq_inv tmo s \<longleftrightarrow> int (handled s) = int (returned s) + flag s \<and> 0 \<le> flag s \<and>
     (tmo = 0 \<longrightarrow> poller s \<noteq> P_Asleep)"

lemma irq_inv_step:
  assumes "irq_step tmo s t" and "irq_inv tmo s"
  shows "irq_inv tmo t"
  using assms
  by (cases rule: irq_step.cases)
    (auto simp: irq_inv_def wake_poller_def job_irq_poll_def split: if_splits)

lemma irq_inv_reach: "irq_reach tmo s \<Longrightarrow> irq_inv tmo s"
proof (induction rule: rtranclp_induct)
  case base
  then show ?case by (simp add: irq_inv_def irq_start_def)
next
  case (step s t)
  then show ?case using irq_inv_step by blast
qed


lemma scan_step:
  assumes "irq_step tmo s t" and "poller s = P_Scan" and "flag s \<noteq> 0"
    and "handler t = handler s"
  shows "t = s\<lparr> poller := P_User, flag := flag s - 1, returned := returned s + 1 \<rparr>"
  using assms
  by (cases rule: irq_step.cases) (simp_all add: job_irq_poll_def split: if_splits)

definition irq_run1 :: irq_state where
  "irq_run1 = irq_start\<lparr> handler := H_Woken \<rparr>"

lemma irq_reach_run1: "irq_reach tmo irq_run1"
  using irq_step.wake [of irq_start tmo]
  by (simp add: irq_run1_def irq_start_def wake_poller_def)


text \<open>
  With the timeout 0 that the replayer uses the process never sleeps: when an interrupt has
  been counted, the next call of \<open>job_irq_poll\<close> that is under way, or that the process makes
  next, reports it.
\<close>

theorem poll_without_timeout_reports:
  assumes "irq_reach 0 s" and "flag s \<noteq> 0"
  shows "\<exists>t. irq_step 0 (s\<lparr> poller := P_Scan \<rparr>) t \<and> returned t = returned s + 1 \<and> poller t = P_User \<and>
           (poller s = P_Scan \<or> irq_step 0 s (s\<lparr> poller := P_Scan \<rparr>)) \<and>
           (\<forall>t'. irq_step 0 (s\<lparr> poller := P_Scan \<rparr>) t' \<longrightarrow> handler t' = handler s \<longrightarrow> t' = t)"
proof -
  let ?s = "s\<lparr> poller := P_Scan \<rparr>"
  let ?t = "?s\<lparr> poller := P_User, flag := flag s - 1, returned := returned s + 1 \<rparr>"
  have "poller s = P_Scan \<or> poller s = P_User"
    using irq_inv_reach [OF assms(1)] by (cases "poller s") (simp_all add: irq_inv_def)
  then have called: "poller s = P_Scan \<or> irq_step 0 s ?s"
    using irq_step.call [of s 0] by blast
  have reports: "irq_step 0 ?s ?t"
    using irq_step.report [of ?s "POLLIN OR POLLRDNORM" "flag s - 1" 0] assms(2)
    by (simp add: job_irq_poll_def)
  have only: "\<forall>t'. irq_step 0 ?s t' \<longrightarrow> handler t' = handler s \<longrightarrow> t' = ?t"
  proof (intro allI impI)
    fix t' assume "irq_step 0 ?s t'" and "handler t' = handler s"
    then show "t' = ?t" using scan_step [of 0 ?s t'] assms(2) by simp
  qed
  show ?thesis
    by (rule exI [of _ ?t], intro conjI) (fact reports, simp, simp, fact called, fact only)
qed

definition irq_run2 :: irq_state where
  "irq_run2 = irq_run1\<lparr> handler := H_Idle, flag := 1, handled := 1 \<rparr>"

lemma irq_reach_run2: "irq_reach tmo irq_run2"
  using rtranclp.rtrancl_into_rtrancl [OF irq_reach_run1 irq_step.count [of irq_run1 tmo]]
  by (simp add: irq_run2_def irq_run1_def irq_start_def)

lemma poll_without_timeout_reports_witness:
  "\<exists>t. irq_step 0 (irq_run2\<lparr> poller := P_Scan \<rparr>) t \<and> returned t = returned irq_run2 + 1"
  using poll_without_timeout_reports [OF irq_reach_run2] by (auto simp: irq_run2_def)

text \<open>
  With an unlimited timeout a wake-up can be lost, because the handler wakes the process
  before it counts the interrupt: a state can be reached where an interrupt is counted, the
  handler is done, the process sleeps, and nothing but a further interrupt is possible.
\<close>

theorem poll_loses_wake_up:
  assumes "tmo < 0"
  shows "\<exists>s. irq_reach tmo s \<and> flag s = 1 \<and> handler s = H_Idle \<and> poller s = P_Asleep \<and>
           (\<forall>t. irq_step tmo s t \<longrightarrow> handler t = H_Woken)"
proof -
  let ?a = "irq_run1\<lparr> poller := P_Scan \<rparr>"
  let ?b = "irq_run1\<lparr> poller := P_Asleep \<rparr>"
  let ?c = "?b\<lparr> handler := H_Idle, flag := 1, handled := 1 \<rparr>"
  have "irq_step tmo irq_run1 ?a"
    by (rule irq_step.call) (simp add: irq_run1_def irq_start_def)
  moreover have "irq_step tmo ?a ?b"
    using irq_step.nothing [of ?a 0 tmo] assms
    by (simp add: irq_run1_def irq_start_def job_irq_poll_def)
  moreover have "irq_step tmo ?b ?c"
    using irq_step.count [of ?b tmo] by (simp add: irq_run1_def irq_start_def)
  ultimately have "irq_reach tmo ?c"
    using irq_reach_run1 by (meson rtranclp.rtrancl_into_rtrancl)
  moreover have "handler t = H_Woken" if "irq_step tmo ?c t" for t
    using that by (cases rule: irq_step.cases) (use assms in auto)
  ultimately show ?thesis by (intro exI [of _ ?c]) auto
qed

lemma poll_loses_wake_up_witness:
  "\<exists>s. irq_reach (-1) s \<and> flag s = 1 \<and> poller s = P_Asleep"
  using poll_loses_wake_up [of "-1"] by auto

end
