(* ===== verification/GR_NanoMain.thy ===== *)
theory GR_NanoMain
  imports GR_NanoIrq GR_Mempool
begin

text \<open>
  The device of the kernel module (\<open>replayer/nano_driver/gr_main.c\<close>): probing and removing the
  device, mapping its registers, opening and releasing the device file, and the dispatcher of
  its requests, which composes the pool operations of \<open>GR_Mempool\<close> and the descriptors of
  \<open>GR_NanoIrq\<close>; and the set-up of the replayer on top of it (\<open>gr_manager_init\<close> and
  \<open>gr_manager_term\<close> of \<open>replayer/gr_manager.c\<close>).
\<close>

unbundle bit_operations_syntax

section \<open>State\<close>

text \<open>
  The global \<open>grdev\<close>: null, a live object or one that was freed. \<open>reg\<close> tells whether the
  registers are mapped. \<open>regions\<close> are the memory regions requested from the kernel.
\<close>

datatype dev_ptr = Null_Dev | Live_Dev | Freed_Dev

record 'h nano =
  in_use :: int
  grdev :: dev_ptr
  reg_mapped :: bool
  reg_start :: u64
  reg_size :: u64
  regions :: "(u64 \<times> u64) list"
  misc_registered :: bool
  irqs_dev :: "'h irq_dev"
  lines_on :: installed
  waitqueue :: bool
  mem :: mempool_state
  physmem :: pmem

text \<open>
  The answers of the kernel: whether \<open>kzalloc\<close> succeeds, the result of \<open>misc_register\<close>, the
  register resource (start and size), whether its region can be requested and mapped, the
  results of \<open>request_irq\<close>, the two descriptors, the address of the device object, the bytes
  that lie where \<open>gr_ioctl\<close> puts its \<open>param\<close>, the links of pages and the effect of
  \<open>dma_sync_single_for_cpu\<close> on memory.
\<close>

record kernel =
  k_kzalloc :: bool
  k_misc_register :: int
  k_resource :: "(u64 \<times> u64) option"
  k_region_free :: bool
  k_ioremap :: bool
  k_request_irq :: "int list"
  k_job_fd :: int
  k_gpu_fd :: int
  k_dev_addr :: u64
  k_stack_word :: u32
  k_links :: links
  k_dma_sync :: "u64 \<Rightarrow> u64 \<Rightarrow> pmem \<Rightarrow> pmem"
  k_fuel :: nat

abbreviation (input) ENOENT :: int where "ENOENT \<equiv> 2"
abbreviation (input) EIO :: int where "EIO \<equiv> 5"
abbreviation (input) ENOMEM :: int where "ENOMEM \<equiv> 12"
abbreviation (input) EBUSY :: int where "EBUSY \<equiv> 16"
abbreviation (input) ENODEV :: int where "ENODEV \<equiv> 19"
abbreviation (input) EINVAL :: int where "EINVAL \<equiv> 22"

text \<open>Using a field of \<open>*grdev\<close>, and a register access, which needs the mapping.\<close>

definition use_grdev :: "'h nano \<Rightarrow> unit res" where
  "use_grdev n = (if grdev n = Live_Dev then Inr () else Inl Bad_Access)"

definition nano_write :: "'h mmio \<Rightarrow> u32 \<Rightarrow> u32 \<Rightarrow> 'h nano \<Rightarrow> 'h nano res" where
  "nano_write hw offset value n =
     (if reg_mapped n
      then Inr (n\<lparr> irqs_dev := (irqs_dev n)\<lparr> regs := nd_reg_write hw offset value (regs (irqs_dev n)) \<rparr> \<rparr>)
      else Inl Bad_Access)"

text \<open>\<open>GPU_FAULT\<close>, \<open>MULTIPLE_GPU_FAULTS\<close>, \<open>RESET_COMPLETED\<close>, \<open>POWER_CHANGED_ALL\<close>, \<open>PRFCNT_SAMPLE_COMPLETED\<close>.\<close>

definition GPU_IRQ_REG_ALL :: u32 where
  "GPU_IRQ_REG_ALL = push_bit 0 1 OR push_bit 7 1 OR push_bit 8 1 OR push_bit 10 1 OR push_bit 16 1"

section \<open>Opening and releasing\<close>

definition gr_open :: "'h mmio \<Rightarrow> kernel \<Rightarrow> 'h nano \<Rightarrow> (int \<times> 'h nano) res" where
  "gr_open hw k n =
     (if in_use n \<noteq> 0 then Inr (- EBUSY, n)
      else bindR (nano_write hw (GPU_CONTROL_REG GPU_IRQ_CLEAR) GPU_IRQ_REG_ALL (n\<lparr> in_use := in_use n + 1 \<rparr>)) (\<lambda>n.
           bindR (nano_write hw (GPU_CONTROL_REG GPU_IRQ_MASK) GPU_IRQ_REG_ALL n) (\<lambda>n.
           bindR (nano_write hw (JOB_CONTROL_REG JOB_IRQ_CLEAR) ALL_BITS n) (\<lambda>n.
           bindR (nano_write hw (JOB_CONTROL_REG JOB_IRQ_MASK) ALL_BITS n) (\<lambda>n.
           bindR (nano_write hw (MMU_REG MMU_IRQ_CLEAR) ALL_BITS n) (\<lambda>n.
           bindR (nano_write hw (MMU_REG MMU_IRQ_MASK) ALL_BITS n) (\<lambda>n.
             let (err, ins) = gr_install_interrupts (k_dev_addr k) (k_request_irq k) (lines_on n)
             in bindR (use_grdev n) (\<lambda>_.
                  Inr (0, n\<lparr> lines_on := ins, waitqueue := True \<rparr>)))))))))"

definition gr_release :: "'h mmio \<Rightarrow> kernel \<Rightarrow> 'h nano \<Rightarrow> (int \<times> 'h nano) res" where
  "gr_release hw k n =
     bindR (nano_write hw (GPU_CONTROL_REG GPU_IRQ_MASK) 0 (n\<lparr> in_use := in_use n - 1 \<rparr>)) (\<lambda>n.
     bindR (nano_write hw (GPU_CONTROL_REG GPU_IRQ_CLEAR) GPU_IRQ_REG_ALL n) (\<lambda>n.
     bindR (nano_write hw (JOB_CONTROL_REG JOB_IRQ_MASK) 0 n) (\<lambda>n.
     bindR (nano_write hw (JOB_CONTROL_REG JOB_IRQ_CLEAR) ALL_BITS n) (\<lambda>n.
     bindR (nano_write hw (MMU_REG MMU_IRQ_CLEAR) ALL_BITS n) (\<lambda>n.
       Inr (0, n\<lparr> lines_on := gr_release_interrupts (k_dev_addr k) (lines_on n) \<rparr>))))))"

section \<open>Probing and removing\<close>

definition gr_common_reg_unmap :: "'h nano \<Rightarrow> 'h nano res" where
  "gr_common_reg_unmap n =
     (if reg_mapped n
      then bindR (use_grdev n) (\<lambda>_.
             Inr (n\<lparr> regions := remove1 (reg_start n, reg_size n) (regions n),
                     reg_mapped := False, reg_start := 0, reg_size := 0 \<rparr>))
      else Inr n)"

definition gr_common_reg_map :: "kernel \<Rightarrow> 'h nano \<Rightarrow> (int \<times> 'h nano) res" where
  "gr_common_reg_map k n =
     bindR (use_grdev n) (\<lambda>_.
       if \<not> k_region_free k then Inr (- EIO, n)
       else let n1 = n\<lparr> regions := (reg_start n, reg_size n) # regions n, reg_mapped := k_ioremap k \<rparr>
            in if \<not> reg_mapped n1
               then Inr (- EINVAL, n1\<lparr> regions := remove1 (reg_start n1, reg_size n1) (regions n1) \<rparr>)
               else Inr (0, n1))"

definition gr_platform_device_probe :: "kernel \<Rightarrow> 'h nano \<Rightarrow> (int \<times> 'h nano) res" where
  "gr_platform_device_probe k n =
     (if \<not> k_kzalloc k then Inr (- ENOMEM, n\<lparr> grdev := Null_Dev \<rparr>)
      else let n1 = n\<lparr> grdev := Live_Dev, reg_start := 0, reg_size := 0, waitqueue := False \<rparr>;
               err = k_misc_register k;
               n2 = (if err \<noteq> 0 then n1\<lparr> grdev := Freed_Dev \<rparr> else n1\<lparr> misc_registered := True \<rparr>)
           in bindR (use_grdev n2) (\<lambda>_.
                case k_resource k of
                  None \<Rightarrow> Inr (- ENOENT, n2)
                | Some (start, len) \<Rightarrow>
                    bindR (gr_common_reg_map k (n2\<lparr> reg_start := start, reg_size := len \<rparr>))
                      (\<lambda>(ret, n3). Inr (err, n3))))"

definition gr_platform_device_remove :: "'h nano \<Rightarrow> (int \<times> 'h nano) res" where
  "gr_platform_device_remove n =
     (if grdev n = Null_Dev then Inr (- ENODEV, n)
      else bindR (gr_common_reg_unmap n) (\<lambda>n1.
           bindR (use_grdev n1) (\<lambda>_.
             Inr (0, n1\<lparr> misc_registered := False, grdev := Freed_Dev \<rparr>))))"

section \<open>Requests\<close>

text \<open>
  The numbers of the requests: direction (1 write, 2 read), size of the argument, type and
  number.
\<close>

definition IOC :: "u32 \<Rightarrow> u32 \<Rightarrow> u32 \<Rightarrow> u32" where
  "IOC dir nr sz = push_bit 30 dir OR push_bit 8 0x80 OR nr OR push_bit 16 sz"

definition IOC_DIR :: "u32 \<Rightarrow> u32" where "IOC_DIR cmd = drop_bit 30 cmd AND 3"
definition IOC_SIZE :: "u32 \<Rightarrow> u32" where "IOC_SIZE cmd = drop_bit 16 cmd AND 0x3FFF"

definition GR_MEMPOOL_INIT :: u32 where "GR_MEMPOOL_INIT = IOC 0 0 0"
definition GR_MEMPOOL_GET_PAGE :: u32 where "GR_MEMPOOL_GET_PAGE = IOC 2 1 8"
definition GR_MEMPOOL_TERM :: u32 where "GR_MEMPOOL_TERM = IOC 0 2 0"
definition GR_MEMPOOL_GET_PAGES :: u32 where "GR_MEMPOOL_GET_PAGES = IOC 3 6 16"
definition GR_MEMPOOL_GROW :: u32 where "GR_MEMPOOL_GROW = IOC 2 7 8"
definition GR_IOCTL_MEM_SYNC :: u32 where "GR_IOCTL_MEM_SYNC = IOC 1 15 32"
definition GR_IOCTL_IRQ_SETUP :: u32 where "GR_IOCTL_IRQ_SETUP = IOC 2 16 12"

lemmas ioctl_cmds = GR_MEMPOOL_INIT_def GR_MEMPOOL_GET_PAGE_def GR_MEMPOOL_TERM_def
  GR_MEMPOOL_GET_PAGES_def GR_MEMPOOL_GROW_def GR_IOCTL_MEM_SYNC_def GR_IOCTL_IRQ_SETUP_def

text \<open>
  The argument: whether user space may access it, and its fields when it can be copied in
  (\<open>copy_from_user\<close> clears what it cannot copy). The pages of \<open>GR_MEMPOOL_GET_PAGES\<close> are stored
  straight through the user pointer in it.
\<close>

record user_arg =
  ua_access :: bool
  ua_nr_pages :: nat
  ua_handle :: u64
  ua_len :: u64

datatype user_out = Out_None | Out_Page u64 | Out_Pages "u64 list" | Out_Fds int u32 int

definition access_ok :: "user_arg \<Rightarrow> int" where
  "access_ok ua = (if ua_access ua then 1 else 0)"

definition gr_mem_sync :: "kernel \<Rightarrow> user_arg \<Rightarrow> 'h nano \<Rightarrow> 'h nano res" where
  "gr_mem_sync k ua n =
     bindR (use_grdev n) (\<lambda>_.
       Inr (n\<lparr> physmem := k_dma_sync k (push_bit 12 (drop_bit 12 (ua_handle ua))) (ua_len ua) (physmem n) \<rparr>))"

definition copied :: "user_arg \<Rightarrow> user_out \<Rightarrow> user_out" where
  "copied ua out = (if ua_access ua then out else Out_None)"

definition gr_ioctl ::
  "kernel \<Rightarrow> u32 \<Rightarrow> user_arg \<Rightarrow> 'h nano \<Rightarrow> (int \<times> user_out \<times> 'h nano) res" where
  "gr_ioctl k cmd ua n =
     (let sz = IOC_SIZE cmd
      in if sz \<noteq> 0 \<and> IOC_DIR cmd AND 2 \<noteq> 0 \<and> access_ok ua < 0 then Inr (- EINVAL, Out_None, n)
         else if sz \<noteq> 0 \<and> IOC_DIR cmd AND 1 \<noteq> 0 \<and> access_ok ua < 0 then Inr (- EINVAL, Out_None, n)
         else if cmd = GR_MEMPOOL_INIT
           then Inr (0, Out_None, n\<lparr> mem := ioctl_mempool_init (k_links k) (mem n) \<rparr>)
         else if cmd = GR_MEMPOOL_GET_PAGE
           then bindR (ioctl_get_page (mem n) (physmem n)) (\<lambda>(pa, s, pm).
                  Inr (0, copied ua (Out_Page pa), n\<lparr> mem := s, physmem := pm \<rparr>))
         else if cmd = GR_MEMPOOL_GROW
           then bindR (ioctl_grow (if ua_access ua then ua_nr_pages ua else 0) (mem n) (physmem n)) (\<lambda>(s, pm).
                  Inr (0, Out_None, n\<lparr> mem := s, physmem := pm \<rparr>))
         else if cmd = GR_MEMPOOL_GET_PAGES
           then bindR (ioctl_get_pages (if ua_access ua then ua_nr_pages ua else 0) (mem n)) (\<lambda>(pas, s).
                  Inr (0, Out_Pages pas, n\<lparr> mem := s \<rparr>))
         else if cmd = GR_MEMPOOL_TERM
           then bindR (ioctl_mempool_term (k_fuel k) (mem n)) (\<lambda>s. Inr (0, Out_None, n\<lparr> mem := s \<rparr>))
         else if cmd = GR_IOCTL_MEM_SYNC
           then bindR (gr_mem_sync k (if ua_access ua then ua else ua\<lparr> ua_handle := 0, ua_len := 0 \<rparr>) n) (\<lambda>n1.
                  Inr (0, Out_None, n1))
         else if cmd = GR_IOCTL_IRQ_SETUP
           then (let ((job_fd, pd1), d1) = job_irq_init (k_job_fd k) (irqs_dev n);
                     ((gpu_fd, pd2), d2) = gpu_irq_init (k_gpu_fd k) d1
                 in Inr (0, copied ua (Out_Fds job_fd (k_stack_word k) gpu_fd), n\<lparr> irqs_dev := d2 \<rparr>))
         else Inr (0, Out_None, n))"

section \<open>The replayer's set-up\<close>

text \<open>
  \<open>gr_manager_init\<close>: the device is opened and asked for its descriptors before the result of
  \<open>open\<close> is checked; a failed \<open>open\<close> then makes the first request fail and ends in the abort.
  The three handles are the descriptors of job, MMU and GPU interrupts.
\<close>

definition user_arg0 :: user_arg where
  "user_arg0 = \<lparr> ua_access = True, ua_nr_pages = 0, ua_handle = 0, ua_len = 0 \<rparr>"

definition gr_manager_init ::
  "'h mmio \<Rightarrow> kernel \<Rightarrow> 'h nano \<Rightarrow> ((int \<times> u32 \<times> int) \<times> 'h nano) res" where
  "gr_manager_init hw k n =
     bindR (gr_open hw k n) (\<lambda>(gr_handle, n1).
       if gr_handle < 0 then Inl Bug
       else bindR (gr_ioctl k GR_IOCTL_IRQ_SETUP user_arg0 n1) (\<lambda>(ret, out, n2).
            bindR (gr_ioctl k GR_MEMPOOL_INIT user_arg0 n2) (\<lambda>(ret', out', n3).
              case out of
                Out_Fds job mmu gpu \<Rightarrow> Inr ((job, mmu, gpu), n3)
              | _ \<Rightarrow> Inl Bad_Access)))"

definition gr_manager_term :: "'h mmio \<Rightarrow> kernel \<Rightarrow> 'h nano \<Rightarrow> 'h nano res" where
  "gr_manager_term hw k n =
     bindR (gr_ioctl k GR_MEMPOOL_TERM user_arg0 n) (\<lambda>(ret, out, n1).
     bindR (gr_release hw k n1) (\<lambda>(ret', n2). Inr n2))"

section \<open>One user at a time\<close>

lemma nano_write_ok [simp]:
  "reg_mapped n \<Longrightarrow> nano_write hw r v n =
     Inr (n\<lparr> irqs_dev := (irqs_dev n)\<lparr> regs := nd_reg_write hw r v (regs (irqs_dev n)) \<rparr> \<rparr>)"
  by (simp add: nano_write_def)

lemma use_grdev_live [simp]: "grdev n = Live_Dev \<Longrightarrow> use_grdev n = Inr ()"
  by (simp add: use_grdev_def)

text \<open>The registers apart, which no guard depends on, a device that can be opened.\<close>

definition ready :: "'h nano \<Rightarrow> bool" where
  "ready n \<longleftrightarrow> grdev n = Live_Dev \<and> reg_mapped n"

definition same_device :: "'h nano \<Rightarrow> 'h nano \<Rightarrow> bool" where
  "same_device n n' \<longleftrightarrow> grdev n' = grdev n \<and> reg_mapped n' = reg_mapped n \<and> mem n' = mem n \<and>
     physmem n' = physmem n \<and> is_job_irq (irqs_dev n') = is_job_irq (irqs_dev n) \<and>
     is_gpu_irq (irqs_dev n') = is_gpu_irq (irqs_dev n)"

lemma gr_open_busy: "in_use n \<noteq> 0 \<Longrightarrow> gr_open hw k n = Inr (- EBUSY, n)"
  by (simp add: gr_open_def)

lemma gr_open_ok:
  assumes "ready n" and "in_use n = 0"
  obtains n' where "gr_open hw k n = Inr (0, n')" and "in_use n' = 1" and "same_device n n'"
    and "lines_on n' = snd (gr_install_interrupts (k_dev_addr k) (k_request_irq k) (lines_on n))"
    and "waitqueue n'"
  using assms
  by (simp add: gr_open_def ready_def same_device_def split_beta)

lemma gr_release_ok:
  assumes "ready n"
  obtains n' where "gr_release hw k n = Inr (0, n')" and "in_use n' = in_use n - 1"
    and "same_device n n'" and "lines_on n' = gr_release_interrupts (k_dev_addr k) (lines_on n)"
    and "waitqueue n' = waitqueue n"
  using assms
  by (simp add: gr_release_def ready_def same_device_def)

text \<open>
  What processes do with the device file: open it, and close it as often as an \<open>open\<close> succeeded.
\<close>

datatype file_op = F_Open | F_Release

fun file_ops :: "'h mmio \<Rightarrow> kernel \<Rightarrow> file_op list \<Rightarrow> 'h nano \<Rightarrow> nat \<Rightarrow> ('h nano \<times> nat) res" where
  "file_ops hw k [] n files = Inr (n, files)"
| "file_ops hw k (F_Open # ops) n files =
     bindR (gr_open hw k n) (\<lambda>(ret, n').
       file_ops hw k ops n' (if ret = 0 then files + 1 else files))"
| "file_ops hw k (F_Release # ops) n files =
     (if files = 0 then file_ops hw k ops n files
      else bindR (gr_release hw k n) (\<lambda>(ret, n'). file_ops hw k ops n' (files - 1)))"

definition own_lines :: "kernel \<Rightarrow> installed \<Rightarrow> bool" where
  "own_lines k ins \<longleftrightarrow> (\<forall>tag \<in> {0, 1, 2}. tgx_tag (k_dev_addr k) tag \<notin> snd ` snd ` set ins)"

definition file_inv :: "kernel \<Rightarrow> installed \<Rightarrow> 'h nano \<Rightarrow> nat \<Rightarrow> bool" where
  "file_inv k ins n files \<longleftrightarrow>
     ready n \<and> in_use n = int files \<and> files \<le> 1 \<and> (files = 1 \<longrightarrow> waitqueue n) \<and>
     lines_on n = (if files = 0 then ins
                   else snd (gr_install_interrupts (k_dev_addr k) (k_request_irq k) ins))"

lemma ready_same: "ready n \<Longrightarrow> same_device n n' \<Longrightarrow> ready n'"
  by (simp add: ready_def same_device_def)

lemma file_inv_open:
  assumes "file_inv k ins n files"
  obtains ret n' where "gr_open hw k n = Inr (ret, n')"
    and "file_inv k ins n' (if ret = 0 then files + 1 else files)"
proof (cases "files = 0")
  case True
  then have "ready n" and "in_use n = 0" and lines: "lines_on n = ins"
    using assms by (simp_all add: file_inv_def)
  then obtain n' where n': "gr_open hw k n = Inr (0, n')" "in_use n' = 1" "same_device n n'"
    "lines_on n' = snd (gr_install_interrupts (k_dev_addr k) (k_request_irq k) (lines_on n))"
    "waitqueue n'"
    by (elim gr_open_ok [of n hw k])
  then have "file_inv k ins n' 1"
    using ready_same [OF \<open>ready n\<close>] lines by (simp add: file_inv_def)
  then show thesis using that [OF n'(1)] True by simp
next
  case False
  then have "gr_open hw k n = Inr (- EBUSY, n)"
    using assms by (intro gr_open_busy) (simp add: file_inv_def)
  then show thesis using that assms by simp
qed

lemma file_inv_release:
  assumes "file_inv k ins n files" and "own_lines k ins" and "files \<noteq> 0"
  obtains n' where "gr_release hw k n = Inr (0, n')" and "file_inv k ins n' (files - 1)"
proof -
  have one: "files = 1" using assms by (simp add: file_inv_def)
  obtain n' where rel: "gr_release hw k n = Inr (0, n')" and "in_use n' = in_use n - 1"
    and "same_device n n'" and "lines_on n' = gr_release_interrupts (k_dev_addr k) (lines_on n)"
    using assms(1) gr_release_ok [of n hw k] unfolding file_inv_def by metis
  moreover from this have "ready n'" using ready_same [of n n'] assms(1) by (simp add: file_inv_def)
  ultimately have "file_inv k ins n' 0"
    using assms(1,2) one release_after_install [of "k_dev_addr k" ins "k_request_irq k"]
    unfolding file_inv_def own_lines_def by simp
  then show thesis using that rel one by simp
qed

lemma file_ops_inv:
  assumes "file_inv k ins n files" and "own_lines k ins"
  shows "\<exists>n' files'. file_ops hw k ops n files = Inr (n', files') \<and> file_inv k ins n' files'"
  using assms(1)
proof (induction ops arbitrary: n files)
  case Nil
  then show ?case by simp
next
  case (Cons x ops)
  show ?case
  proof (cases x)
    case F_Open
    obtain ret n' where "gr_open hw k n = Inr (ret, n')"
      and inv: "file_inv k ins n' (if ret = 0 then files + 1 else files)"
      using file_inv_open [OF Cons.prems] by blast
    then show ?thesis using Cons.IH [OF inv] F_Open by simp
  next
    case F_Release
    show ?thesis
    proof (cases "files = 0")
      case True
      then show ?thesis using Cons.IH [OF Cons.prems] F_Release by simp
    next
      case False
      obtain n' where "gr_release hw k n = Inr (0, n')" and inv: "file_inv k ins n' (files - 1)"
        using file_inv_release [OF Cons.prems assms(2) False] by blast
      then show ?thesis using Cons.IH [OF inv] F_Release False by simp
    qed
  qed
qed

text \<open>
  The device has at most one user: whatever processes open and close the file, every call
  returns, \<open>in_use\<close> is the number of open files, which is 0 or 1, and when the file is closed the
  interrupt lines are those from before, whichever of them could be requested.
\<close>

theorem gr_device_one_user:
  assumes "grdev n = Live_Dev" and "reg_mapped n" and "in_use n = 0" and "own_lines k (lines_on n)"
  shows "\<exists>n' files. file_ops hw k ops n 0 = Inr (n', files) \<and> files \<le> 1 \<and> in_use n' = int files \<and>
           (files = 0 \<longrightarrow> lines_on n' = lines_on n) \<and> (files = 1 \<longrightarrow> waitqueue n')"
  using file_ops_inv [of k "lines_on n" n 0 hw ops] assms
  by (auto simp: file_inv_def ready_def)

definition demo_kernel :: kernel where
  "demo_kernel =
     \<lparr> k_kzalloc = True, k_misc_register = 0, k_resource = Some (0xe82c0000, 0x4000),
       k_region_free = True, k_ioremap = True, k_request_irq = [0, -16, 0], k_job_fd = 5, k_gpu_fd = 6,
       k_dev_addr = 0x1000, k_stack_word = 0xdead, k_links = demo_links,
       k_dma_sync = (\<lambda>h l m. m), k_fuel = 10 \<rparr>"

definition demo_module :: "u32 nano" where
  "demo_module =
     \<lparr> in_use = 0, grdev = Null_Dev, reg_mapped = False, reg_start = 0, reg_size = 0, regions = [],
       misc_registered = False, irqs_dev = demo_irq_dev, lines_on = [], waitqueue = False,
       mem = \<lparr> pool = None, kern = demo_kern \<rparr>,
       physmem = \<lparr> frames = (\<lambda>p i. 0), mappable = (\<lambda>q. True) \<rparr> \<rparr>"

definition demo_probed :: "u32 nano" where
  "demo_probed = demo_module\<lparr> grdev := Live_Dev, reg_mapped := True, reg_start := 0xe82c0000,
     reg_size := 0x4000, regions := [(0xe82c0000, 0x4000)], misc_registered := True \<rparr>"

lemma gr_device_one_user_witness:
  "\<exists>n' files. file_ops demo_mmio demo_kernel [F_Open, F_Open, F_Release, F_Open] demo_probed 0 =
      Inr (n', files) \<and> files \<le> 1 \<and> in_use n' = int files"
  using gr_device_one_user [of demo_probed demo_kernel demo_mmio "[F_Open, F_Open, F_Release, F_Open]"]
  by (auto simp: demo_probed_def demo_module_def own_lines_def)

section \<open>Probing\<close>

text \<open>
  Failures of \<open>probe\<close>: when \<open>misc_register\<close> fails the device object is freed and used
  afterwards, and when the registers cannot be requested or mapped the probe still reports
  success, so that the first \<open>open\<close> writes through the null mapping.
\<close>

theorem probe_ignores_failures:
  assumes "k_kzalloc k" and "in_use n = 0" and "\<not> reg_mapped n"
  shows "(k_misc_register k \<noteq> 0 \<longrightarrow> gr_platform_device_probe k n = Inl Bad_Access) \<and>
         (k_misc_register k = 0 \<longrightarrow> k_resource k \<noteq> None \<longrightarrow> \<not> (k_region_free k \<and> k_ioremap k) \<longrightarrow>
           (\<exists>n'. gr_platform_device_probe k n = Inr (0, n') \<and> gr_open hw k n' = Inl Bad_Access))"
proof (intro conjI impI)
  assume "k_misc_register k \<noteq> 0"
  then show "gr_platform_device_probe k n = Inl Bad_Access"
    using assms by (simp add: gr_platform_device_probe_def use_grdev_def)
next
  assume misc: "k_misc_register k = 0" and "k_resource k \<noteq> None"
    and fails: "\<not> (k_region_free k \<and> k_ioremap k)"
  then obtain start len where res: "k_resource k = Some (start, len)" by auto
  show "\<exists>n'. gr_platform_device_probe k n = Inr (0, n') \<and> gr_open hw k n' = Inl Bad_Access"
    using assms misc res fails
    by (cases "k_region_free k")
      (simp_all add: gr_platform_device_probe_def gr_common_reg_map_def gr_open_def nano_write_def)
qed

lemma probe_ignores_failures_witness:
  "\<exists>n'. gr_platform_device_probe (demo_kernel\<lparr> k_ioremap := False \<rparr>) demo_module = Inr (0, n') \<and>
     gr_open demo_mmio (demo_kernel\<lparr> k_ioremap := False \<rparr>) n' = Inl Bad_Access"
  using probe_ignores_failures [of "demo_kernel\<lparr> k_ioremap := False \<rparr>" demo_module demo_mmio]
  by (simp add: demo_kernel_def demo_module_def)

section \<open>Setting up\<close>

lemma IOC_sizes:
  "IOC_SIZE GR_MEMPOOL_GROW = 8" "IOC_SIZE GR_MEMPOOL_GET_PAGES = 16"
  by (simp_all add: ioctl_cmds IOC_def IOC_SIZE_def)

lemma access_ok_not_negative [simp]: "\<not> access_ok ua < 0"
  by (simp add: access_ok_def)

lemma gr_ioctl_cases:
  "gr_ioctl k GR_MEMPOOL_INIT ua n = Inr (0, Out_None, n\<lparr> mem := ioctl_mempool_init (k_links k) (mem n) \<rparr>)"
  "gr_ioctl k GR_MEMPOOL_GROW ua n =
     bindR (ioctl_grow (if ua_access ua then ua_nr_pages ua else 0) (mem n) (physmem n)) (\<lambda>(s, pm).
       Inr (0, Out_None, n\<lparr> mem := s, physmem := pm \<rparr>))"
  "gr_ioctl k GR_MEMPOOL_GET_PAGES ua n =
     bindR (ioctl_get_pages (if ua_access ua then ua_nr_pages ua else 0) (mem n)) (\<lambda>(pas, s).
       Inr (0, Out_Pages pas, n\<lparr> mem := s \<rparr>))"
  "gr_ioctl k GR_IOCTL_IRQ_SETUP ua n =
     Inr (0, copied ua (Out_Fds (k_job_fd k) (k_stack_word k) (k_gpu_fd k)),
          n\<lparr> irqs_dev := (irqs_dev n)\<lparr> is_job_irq := 0, is_gpu_irq := 0 \<rparr> \<rparr>)"
  by (simp_all add: gr_ioctl_def Let_def ioctl_cmds IOC_def job_irq_init_def gpu_irq_init_def)

lemma mempool_init_ok:
  assumes "alloc_script (kern s) = map Some ps" and "True \<notin> set (dma_script (kern s))"
    and "distinct ps" and "\<forall>q \<in> set ps. valid_pa q \<and> mp q"
  shows "mempool_ok (ioctl_mempool_init l s) mp" and "pages_left (ioctl_mempool_init l s) = length ps"
    and "pages_in_use (ioctl_mempool_init l s) = {}"
proof -
  show "mempool_ok (ioctl_mempool_init l s) mp"
    unfolding mempool_ok_def
    by (intro exI [of _ "gr_mempool_init 0 l"] exI [of _ "[]"]
        exI [of _ "[]"] exI [of _ ps])
      (use assms in \<open>simp add: ioctl_mempool_init_def pool_rep_init, simp add: gr_mempool_init_def\<close>)
  show "pages_left (ioctl_mempool_init l s) = length ps"
    using assms(1) by (simp add: pages_left_def ioctl_mempool_init_def)
  have "rep (mp_links (gr_mempool_init 0 l)) Used_List []"
    using pool_rep_init by (auto simp: pool_rep_def)
  then show "pages_in_use (ioctl_mempool_init l s) = {}"
    using rep_unique by (fastforce simp: pages_in_use_def ioctl_mempool_init_def)
qed

text \<open>
  C31. Setting up the replayer on a probed device that nobody uses: the device is opened, the
  counters of interrupts are 0 and the pool is new, so the two requests by which the replayer
  then gets memory give as many pages as it asks for, all different, and touch no other page.
  The handle of the MMU interrupt, however, is whatever lay on the kernel's stack.
\<close>

theorem gr_manager_init_ready:
  assumes "grdev n = Live_Dev" and "reg_mapped n" and "in_use n = 0"
    and "alloc_script (kern (mem n)) = map Some ps" and "True \<notin> set (dma_script (kern (mem n)))"
    and "distinct ps" and "\<forall>q \<in> set ps. valid_pa q \<and> mappable (physmem n) q"
    and "m \<le> length ps" and "ua_access ua" and "ua_nr_pages ua = m"
  shows "\<exists>n1 n2 n3 pages. gr_manager_init hw k n = Inr ((k_job_fd k, k_stack_word k, k_gpu_fd k), n1) \<and>
           in_use n1 = 1 \<and> is_job_irq (irqs_dev n1) = 0 \<and> is_gpu_irq (irqs_dev n1) = 0 \<and>
           gr_ioctl k GR_MEMPOOL_GROW ua n1 = Inr (0, Out_None, n2) \<and>
           gr_ioctl k GR_MEMPOOL_GET_PAGES ua n2 = Inr (0, Out_Pages pages, n3) \<and>
           length pages = m \<and> distinct pages \<and>
           (\<forall>q. q \<notin> set pages \<longrightarrow> frames (physmem n3) q = frames (physmem n) q)"
proof -
  obtain n0 where n0: "gr_open hw k n = Inr (0, n0)" "in_use n0 = 1" "same_device n n0"
    using assms(1-3) gr_open_ok [of n hw k] unfolding ready_def by blast
  let ?n1 = "n0\<lparr> irqs_dev := (irqs_dev n0)\<lparr> is_job_irq := 0, is_gpu_irq := 0 \<rparr>,
                mem := ioctl_mempool_init (k_links k) (mem n0) \<rparr>"
  have init: "gr_manager_init hw k n = Inr ((k_job_fd k, k_stack_word k, k_gpu_fd k), ?n1)"
    using n0 by (simp add: gr_manager_init_def gr_ioctl_cases copied_def user_arg0_def)
  have "mem n0 = mem n" and "physmem n0 = physmem n" using n0(3) by (simp_all add: same_device_def)
  then have pool: "mempool_ok (mem ?n1) (mappable (physmem n0))" "pages_left (mem ?n1) = length ps"
    using mempool_init_ok [of "mem n" ps "mappable (physmem n)" "k_links k"] assms(4-7) by simp_all
  obtain s1 pm' pages s' where "ioctl_grow m (mem ?n1) (physmem n0) = Inr (s1, pm')"
    and "ioctl_get_pages m s1 = Inr (pages, s')" and "length pages = m" and "distinct pages"
    and "\<forall>q. q \<notin> set pages \<longrightarrow> frames pm' q = frames (physmem n0) q"
    using pools.alloc_get_pages [OF pool(1), of m] pool(2) assms(8) by auto
  then show ?thesis
    using init n0(2) assms(9,10) \<open>physmem n0 = physmem n\<close> by (simp add: gr_ioctl_cases)
qed

lemma gr_manager_init_ready_witness:
  "\<exists>n1 n2 n3 pages. gr_manager_init demo_mmio demo_kernel demo_probed = Inr ((5, 0xdead, 6), n1) \<and>
     gr_ioctl demo_kernel GR_MEMPOOL_GROW (user_arg0\<lparr> ua_nr_pages := 3 \<rparr>) n1 = Inr (0, Out_None, n2) \<and>
     gr_ioctl demo_kernel GR_MEMPOOL_GET_PAGES (user_arg0\<lparr> ua_nr_pages := 3 \<rparr>) n2 =
       Inr (0, Out_Pages pages, n3) \<and> length pages = 3 \<and> distinct pages"
proof -
  note ready = gr_manager_init_ready [of demo_probed
      "[0x1000, 0x2000, 0x3000, 0x4000, 0x5000, 0x6000]" 3 "user_arg0\<lparr> ua_nr_pages := 3 \<rparr>"
      demo_mmio demo_kernel]
  have "\<forall>q \<in> set [0x1000, 0x2000, 0x3000, 0x4000, 0x5000, 0x6000]. valid_pa q"
    by (simp add: valid_pa_small page_aligned_def)
  then show ?thesis
    using ready
    by (simp add: demo_probed_def demo_module_def demo_kern_def user_arg0_def demo_kernel_def) blast
qed

end
