(* ===== verification/GR_Checkpoint.thy ===== *)
theory GR_Checkpoint
  imports GR_MemContents
begin

text \<open>
  Checkpoints (\<open>gr_write_checkpoint\<close> of \<open>replayer/gr_checkpoint.c\<close>): all pages of all GPU
  memory regions are copied into the space that \<open>gr_mem_init\<close> has set aside. The theory also
  shows that this space is large enough: \<open>tot_nr_pages\<close> is the number of pages of the regions
  after every successful \<open>gr_mem_contents_init\<close>.
\<close>

unbundle bit_operations_syntax

section \<open>Model\<close>

text \<open>The inner loop over the \<open>n\<close> pages of a region that are left, which the array \<open>ps\<close> starts with.\<close>

fun ckpt_pages :: "pmem \<Rightarrow> u32 \<Rightarrow> u64 list \<Rightarrow> nat \<Rightarrow> u8 list \<Rightarrow> u32 \<Rightarrow> (u8 list \<times> u32) res" where
  "ckpt_pages pm tot ps 0 prov written = Inr (prov, written)"
| "ckpt_pages pm tot ps (Suc n) prov written =
     (if written \<ge> tot then Inl Bug
      else case ps of
        [] \<Rightarrow> Inl Bad_Access
      | p # ps' \<Rightarrow>
          bindR (gr_map_page pm p) (\<lambda>mapped_page.
            let pos = unat written * PAGE_SIZE
            in if pos + PAGE_SIZE > length prov then Inl Bad_Access
               else ckpt_pages pm tot ps' n
                      (take pos prov @ frame_get (frames pm mapped_page) 0 PAGE_SIZE @ drop (pos + PAGE_SIZE) prov)
                      (written + 1)))"

fun ckpt_regions :: "pmem \<Rightarrow> u32 \<Rightarrow> gpu_mem_region list \<Rightarrow> u8 list \<Rightarrow> u32 \<Rightarrow> (u8 list \<times> u32) res" where
  "ckpt_regions pm tot [] prov written = Inr (prov, written)"
| "ckpt_regions pm tot (gm # gms) prov written =
     bindR (ckpt_pages pm tot (gm_pages gm) (gm_nr_pages gm) prov written) (\<lambda>(prov', written').
       ckpt_regions pm tot gms prov' written')"

text \<open>\<open>count\<close> is the static counter of the calls; the last result is its new value.\<close>

definition gr_write_checkpoint :: "pmem \<Rightarrow> replay_context \<Rightarrow> u32 \<Rightarrow> (int \<times> replay_context \<times> u32) res" where
  "gr_write_checkpoint pm rctx count =
     (if count \<ge> 2 then Inr (0, rctx, count + 1)
      else if \<not> test_checkpoint (config rctx) then Inl Bug
      else case provision rctx of
        None \<Rightarrow> Inl Bug
      | Some prov \<Rightarrow>
          bindR (ckpt_regions pm (tot_nr_pages rctx) (gm_region rctx) prov 0) (\<lambda>(prov', written).
            Inr (1, rctx\<lparr> provision := Some prov', nr_written_pages := written \<rparr>, count + 1)))"

section \<open>The number of pages\<close>

definition nr_all_pages :: "replay_context \<Rightarrow> nat" where
  "nr_all_pages rctx = sum_list (map gm_nr_pages (gm_region rctx))"

definition pages_counted :: "replay_context \<Rightarrow> bool" where
  "pages_counted rctx \<longleftrightarrow> tot_nr_pages rctx = of_nat (nr_all_pages rctx)"

lemma mc_region_counted:
  assumes "mc_region a g rctx gm_s gm_e n fl iv b f s pm = Inr (rctx', b', f', s', pm')" "pages_counted rctx"
  shows "pages_counted rctx'"
  using assms
  by (clarsimp simp: mc_region_def bindR_eq_Inr pages_counted_def nr_all_pages_def split: if_splits)

lemma mc_loop_counted:
  "mc_loop a g rctx vs f s pm = Inr (rctx', s', pm') \<Longrightarrow> pages_counted rctx \<Longrightarrow> pages_counted rctx'"
proof (induction a g rctx vs f s pm rule: mc_loop.induct)
  case (1 a g rctx vs f s pm)
  show ?case
  proof (cases "cf_eof f")
    case True
    then show ?thesis using "1.prems" by (simp add: mc_loop.simps [of a g rctx])
  next
    case False
    with "1.prems"(1) obtain rctx1 vs1 f1 s1 pm1 where
      r: "mc_round a g rctx vs f s pm = Inr (rctx1, vs1, f1, s1, pm1)"
      and l: "mc_loop a g rctx1 vs1 f1 s1 pm1 = Inr (rctx', s', pm')"
      by (auto simp: mc_loop.simps [of a g rctx] bindR_eq_Inr)
    from r "1.prems"(2) have "pages_counted rctx1"
      by (auto simp: mc_round_def bindR_eq_Inr intro: mc_region_counted)
    then show ?thesis using "1.IH" [OF False r] l by blast
  qed
qed

section \<open>What a checkpoint holds\<close>

definition region_image :: "pmem \<Rightarrow> gpu_mem_region \<Rightarrow> u8 list" where
  "region_image pm gm = concat (map (\<lambda>p. frame_get (frames pm p) 0 PAGE_SIZE) (gm_pages gm))"

definition region_mapped :: "pmem \<Rightarrow> gpu_mem_region \<Rightarrow> bool" where
  "region_mapped pm gm \<longleftrightarrow> gm_nr_pages gm = length (gm_pages gm) \<and>
     (\<forall>p \<in> set (gm_pages gm). page_aligned p \<and> mappable pm p)"

lemma length_region_image: "region_mapped pm gm \<Longrightarrow> length (region_image pm gm) = PAGE_SIZE * gm_nr_pages gm"
  by (simp add: region_image_def region_mapped_def length_concat comp_def sum_list_triv)

lemma of_nat_u32_less: "k < n \<Longrightarrow> n < 2 ^ 32 \<Longrightarrow> \<not> (of_nat n :: u32) \<le> of_nat k"
  by (simp add: word_le_nat_alt unat_of_nat_u32)

lemma ckpt_pages_ok:
  assumes "\<forall>p \<in> set ps. page_aligned p \<and> mappable pm p"
    and "w + length ps \<le> tot" and "tot < 2 ^ 32" and "length prov = PAGE_SIZE * tot"
  shows "ckpt_pages pm (of_nat tot) ps (length ps) prov (of_nat w) =
    Inr (take (PAGE_SIZE * w) prov @ concat (map (\<lambda>p. frame_get (frames pm p) 0 PAGE_SIZE) ps) @
           drop (PAGE_SIZE * (w + length ps)) prov, of_nat (w + length ps))"
  using assms
proof (induction ps arbitrary: w prov)
  case Nil
  then show ?case by simp
next
  case (Cons p ps)
  let ?new = "frame_get (frames pm p) 0 PAGE_SIZE"
  let ?prov = "take (PAGE_SIZE * w) prov @ ?new @ drop (PAGE_SIZE * Suc w) prov"
  have w: "unat (of_nat w :: u32) = w" using Cons.prems by (intro unat_of_nat_u32) simp
  have room: "PAGE_SIZE * w + PAGE_SIZE \<le> PAGE_SIZE * tot" using Cons.prems(2) by simp
  have len: "length ?prov = PAGE_SIZE * tot" using Cons.prems(4) room by (simp del: length_drop) simp
  have lt: "\<not> (of_nat tot :: u32) \<le> of_nat w"
    using Cons.prems by (intro of_nat_u32_less) auto
  have "ckpt_pages pm (of_nat tot) (p # ps) (length (p # ps)) prov (of_nat w) =
      ckpt_pages pm (of_nat tot) ps (length ps) ?prov (of_nat (Suc w))"
    using Cons.prems(1,4) room lt by (simp add: w Let_def mult.commute add.commute gr_map_page_ok)
  also have "\<dots> = Inr (take (PAGE_SIZE * Suc w) ?prov @
      concat (map (\<lambda>p. frame_get (frames pm p) 0 PAGE_SIZE) ps) @
      drop (PAGE_SIZE * (Suc w + length ps)) ?prov, of_nat (Suc w + length ps))"
    by (rule Cons.IH) (use Cons.prems len in auto)
  also have "take (PAGE_SIZE * Suc w) ?prov = take (PAGE_SIZE * w) prov @ ?new"
    using Cons.prems(4) room by simp
  also have "drop (PAGE_SIZE * (Suc w + length ps)) ?prov = drop (PAGE_SIZE * (w + length (p # ps))) prov"
    using Cons.prems(4) room by (simp add: algebra_simps)
  finally show ?case by simp
qed

lemma ckpt_regions_ok:
  assumes "\<forall>gm \<in> set gms. region_mapped pm gm"
    and "w + sum_list (map gm_nr_pages gms) \<le> tot" and "tot < 2 ^ 32" and "length prov = PAGE_SIZE * tot"
  shows "ckpt_regions pm (of_nat tot) gms prov (of_nat w) =
    Inr (take (PAGE_SIZE * w) prov @ concat (map (region_image pm) gms) @
           drop (PAGE_SIZE * (w + sum_list (map gm_nr_pages gms))) prov,
         of_nat (w + sum_list (map gm_nr_pages gms)))"
  using assms
proof (induction gms arbitrary: w prov)
  case Nil
  then show ?case by simp
next
  case (Cons gm gms)
  let ?n = "gm_nr_pages gm"
  let ?prov = "take (PAGE_SIZE * w) prov @ region_image pm gm @ drop (PAGE_SIZE * (w + ?n)) prov"
  have m: "region_mapped pm gm" and n: "?n = length (gm_pages gm)"
    using Cons.prems(1) by (auto simp: region_mapped_def)
  have il: "length (region_image pm gm) = PAGE_SIZE * ?n" using m by (rule length_region_image)
  have room: "PAGE_SIZE * w + PAGE_SIZE * ?n \<le> PAGE_SIZE * tot" using Cons.prems(2) by simp
  have p: "ckpt_pages pm (of_nat tot) (gm_pages gm) ?n prov (of_nat w) = Inr (?prov, of_nat (w + ?n))"
    using ckpt_pages_ok [of "gm_pages gm" pm w tot prov] Cons.prems m
    by (simp add: region_mapped_def region_image_def)
  have len: "length ?prov = PAGE_SIZE * tot" using Cons.prems(4) room by (simp add: il)
  have "ckpt_regions pm (of_nat tot) (gm # gms) prov (of_nat w) =
      ckpt_regions pm (of_nat tot) gms ?prov (of_nat (w + ?n))"
    using p by simp
  also have "\<dots> = Inr (take (PAGE_SIZE * (w + ?n)) ?prov @ concat (map (region_image pm) gms) @
      drop (PAGE_SIZE * (w + ?n + sum_list (map gm_nr_pages gms))) ?prov,
      of_nat (w + ?n + sum_list (map gm_nr_pages gms)))"
    by (rule Cons.IH) (use Cons.prems len in auto)
  also have "take (PAGE_SIZE * (w + ?n)) ?prov = take (PAGE_SIZE * w) prov @ region_image pm gm"
    using Cons.prems(4) room by (simp add: il)
  also have "drop (PAGE_SIZE * (w + ?n + sum_list (map gm_nr_pages gms))) ?prov =
      drop (PAGE_SIZE * (w + sum_list (map gm_nr_pages (gm # gms)))) prov"
    using Cons.prems(4) room by (simp add: il algebra_simps)
  finally show ?case by simp
qed

section \<open>Properties\<close>

text \<open>
  After every successful load of a memory contents file, whatever the file and the page
  source, the counter \<open>tot_nr_pages\<close> is the number of pages of all regions, modulo
  \<open>2 ^ 32\<close>: the space for checkpoints, which is allocated from this counter, fits the regions.
\<close>

theorem gr_mem_contents_init_counts:
  assumes "gr_mem_contents_init a g rctx data s pm = Inr (rctx', s', pm')" and "pages_counted rctx"
  shows "pages_counted rctx'"
  using assms by (auto simp: gr_mem_contents_init_def split: option.splits intro: mc_loop_counted)

text \<open>
  A checkpoint holds the contents of every page of every region, in order: with the space
  that \<open>gr_mem_init\<close> allocates and fewer than \<open>2 ^ 32\<close> pages, the first two calls succeed, fill
  all of the space, never run into the check for missing space, and change nothing else.
\<close>

theorem gr_write_checkpoint_copies:
  assumes "count < 2" and "test_checkpoint (config rctx)" and "pages_counted rctx"
    and "nr_all_pages rctx < 2 ^ 32" and "\<forall>gm \<in> set (gm_region rctx). region_mapped pm gm"
    and "provision rctx = Some prov" and "length prov = PAGE_SIZE * unat (tot_nr_pages rctx)"
  shows "gr_write_checkpoint pm rctx count =
    Inr (1, rctx\<lparr> provision := Some (concat (map (region_image pm) (gm_region rctx))),
                  nr_written_pages := tot_nr_pages rctx \<rparr>, count + 1)"
proof -
  have t: "tot_nr_pages rctx = of_nat (nr_all_pages rctx)" using assms(3) by (simp add: pages_counted_def)
  have u: "unat (tot_nr_pages rctx) = nr_all_pages rctx" using t assms(4) by (simp add: unat_of_nat_u32)
  have "ckpt_regions pm (of_nat (nr_all_pages rctx)) (gm_region rctx) prov (of_nat 0) =
      Inr (concat (map (region_image pm) (gm_region rctx)), of_nat (nr_all_pages rctx))"
    by (subst ckpt_regions_ok) (use assms u in \<open>simp_all add: nr_all_pages_def\<close>)
  then show ?thesis using assms(1,2,6) by (simp add: gr_write_checkpoint_def t)
qed

definition demo_ckpt_rctx :: replay_context where
  "demo_ckpt_rctx =
     \<lparr> config = \<lparr> nr_prep_jobs = 0, nr_comp_jobs = 1, nr_tot_jobs = 1, test_checkpoint = True, is_validate = False \<rparr>,
       old_transtab = 0, new_transtab = 0,
       gm_region = [\<lparr> gm_start = 0x10000, gm_end = 0x12000, gm_pages = [0x1000, 0x3000], gm_nr_pages = 2,
                     gm_flags = 0x606e, gm_is_valid = True, gm_is_synced = False \<rparr>],
       tot_nr_pages = 2, sas = [], user_pgt = User_Pgtable 0 (\<lambda>i. None),
       provision = Some (replicate 0x2000 0), nr_written_pages = 0,
       ts_prep_start = 0, ts_prep_end = 0, ts_comp_start = 0, ts_comp_end = 0,
       tot_prep_time = 0, tot_comp_time = 0 \<rparr>"

lemma le_zero: "le_word (replicate n 0) = 0"
  by (induction n) auto

definition demo_ckpt_mem :: pmem where
  "demo_ckpt_mem = \<lparr> frames = (\<lambda>p i. 7), mappable = (\<lambda>p. True) \<rparr>"

theorem gr_mem_contents_init_counts_witness:
  "pages_counted (demo_ckpt_rctx\<lparr> gm_region := gm_region demo_ckpt_rctx @
     [\<lparr> gm_start = 0, gm_end = 0, gm_pages = [], gm_nr_pages = 0, gm_flags = 0,
        gm_is_valid = False, gm_is_synced = False \<rparr>, \<lparr> gm_start = 0, gm_end = 0, gm_pages = [], gm_nr_pages = 0, gm_flags = 0,
        gm_is_valid = False, gm_is_synced = False \<rparr>] \<rparr>)"
proof (rule gr_mem_contents_init_counts [where rctx = demo_ckpt_rctx and data = "Some (replicate 29 0)"
      and a = "\<lambda>n s pm. Inr (s, pm)" and g = "\<lambda>n s. Inr ([], s)" and s = "()" and s' = "()"
      and pm = demo_ckpt_mem and pm' = demo_ckpt_mem])
  show "gr_mem_contents_init (\<lambda>n s pm. Inr (s, pm)) (\<lambda>n s. Inr ([], s)) demo_ckpt_rctx (Some (replicate 29 0)) ()
      demo_ckpt_mem = Inr (demo_ckpt_rctx\<lparr> gm_region := gm_region demo_ckpt_rctx @
     [\<lparr> gm_start = 0, gm_end = 0, gm_pages = [], gm_nr_pages = 0, gm_flags = 0,
        gm_is_valid = False, gm_is_synced = False \<rparr>, \<lparr> gm_start = 0, gm_end = 0, gm_pages = [], gm_nr_pages = 0, gm_flags = 0,
        gm_is_valid = False, gm_is_synced = False \<rparr>] \<rparr>, (), demo_ckpt_mem)"
    by (simp add: gr_mem_contents_init_def fopen_def mc_loop.simps mc_round_def mc_header_def mc_region_def
        fread_word_def fread_obj_def take_replicate drop_replicate nr_regions_def demo_ckpt_rctx_def le_zero)
  show "pages_counted demo_ckpt_rctx"
    by (simp add: pages_counted_def nr_all_pages_def demo_ckpt_rctx_def)
qed

theorem gr_write_checkpoint_copies_witness:
  "gr_write_checkpoint demo_ckpt_mem demo_ckpt_rctx 1 =
    Inr (1, demo_ckpt_rctx\<lparr> provision := Some (concat (map (region_image demo_ckpt_mem) (gm_region demo_ckpt_rctx))),
                  nr_written_pages := 2 \<rparr>, 2)"
  using gr_write_checkpoint_copies [of 1 demo_ckpt_rctx demo_ckpt_mem "replicate 0x2000 0"]
  by (simp add: demo_ckpt_rctx_def demo_ckpt_mem_def pages_counted_def nr_all_pages_def region_mapped_def page_aligned_def)

end
