(* ===== verification/GR_Replay.thy ===== *)
theory GR_Replay
  imports GR_Device GR_Checkpoint GR_MemIO
begin

text \<open>
  The replay of the recorded register accesses (\<open>replayer/gr_replay.c\<close>): every recorded read is
  done again, every recorded write is done again with the values that belong to this run (the
  new page table, the latest flush identifier), and after every job submission the replayer
  waits for the job interrupt. The specification is the relation \<open>replays\<close> between the recorded
  accesses and the events at the GPU.
\<close>

unbundle bit_operations_syntax

section \<open>Model\<close>

abbreviation (input) GR_JS :: u32 where "GR_JS \<equiv> 1"
abbreviation (input) GR_AS_NR :: u32 where "GR_AS_NR \<equiv> 0"

text \<open>
  The state of a replay: the machine, the context, the variables with static storage
  (\<open>latest_flush_id\<close>, \<open>jc_lo\<close> of \<open>gr_js_tune\<close>, \<open>count\<close> of \<open>gr_write_checkpoint\<close>), the snapshot buffer
  and file of the context, and the local counters of \<open>gr_replay_run\<close>.
\<close>

record 'd replay =
  rp_dev :: 'd
  rp_ctx :: replay_context
  latest_flush_id :: u32
  jc_lo :: u32
  ckpt_count :: u32
  regmap :: "u8 list option"
  reg_fp :: cfile
  job_submit_cnt :: u32
  sum_comp_time :: u32

definition gr_js_tune :: "'d machine \<Rightarrow> u32 \<Rightarrow> u32 \<Rightarrow> 'd replay \<Rightarrow> 'd replay res" where
  "gr_js_tune hw type val st =
     (if type = JOB_SLOT_REG GR_JS JS_HEAD_NEXT_LO then Inr (st\<lparr> jc_lo := val \<rparr>)
      else let jc_addr = push_bit 32 (ucast val) OR ucast (jc_lo st)
           in bindR (gr_copy_to_gpu (rp_ctx st) (hw_mem hw (rp_dev st)) jc_addr (le_bytes 8 (0 :: u64)))
                (\<lambda>pm. Inr (st\<lparr> rp_dev := hw_put_mem hw pm (rp_dev st) \<rparr>)))"

text \<open>
  A recorded read. After the wait for an inactive address space the code falls through to the
  case of the flush identifier.
\<close>

definition replay_read :: "'d machine \<Rightarrow> u32 \<Rightarrow> u32 \<Rightarrow> 'd replay \<Rightarrow> 'd replay res" where
  "replay_read hw cmd value st =
     bindR (gr_reg_read hw cmd (rp_dev st)) (\<lambda>(new_value, d).
       if cmd = GPU_CONTROL_REG SHADER_READY_LO \<or> cmd = GPU_CONTROL_REG TILER_READY_LO
       then Inr (st\<lparr> rp_dev := d \<rparr>)
       else if cmd = MMU_AS_REG GR_AS_NR AS_STATUS
       then bindR (if value = AS_STATUS_AS_ACTIVE then reg_read_wait hw cmd AS_STATUS_AS_INACTIVE d else Inr d)
              (\<lambda>d'. Inr (st\<lparr> rp_dev := d', latest_flush_id := new_value \<rparr>))
       else if cmd = GPU_CONTROL_REG LATEST_FLUSH
       then Inr (st\<lparr> rp_dev := d, latest_flush_id := new_value \<rparr>)
       else Inr (st\<lparr> rp_dev := d \<rparr>))"

text \<open>Before a recorded write: the value to be written instead, and the work before a submission.\<close>

definition replay_checkpoint :: "'d machine \<Rightarrow> 'd replay \<Rightarrow> 'd replay res" where
  "replay_checkpoint hw st =
     bindR (gr_cache_invalidate hw (rp_dev st)) (\<lambda>d1.
     bindR (gr_as_flush hw (new_transtab (rp_ctx st)) d1) (\<lambda>d2.
     bindR (gr_write_checkpoint (hw_mem hw d2) (rp_ctx st) (ckpt_count st)) (\<lambda>(ret, rctx, cnt).
       Inr (st\<lparr> rp_dev := d2, rp_ctx := rctx, ckpt_count := cnt \<rparr>))))"

definition tune_write :: "'d machine \<Rightarrow> u32 \<Rightarrow> u32 \<Rightarrow> 'd replay \<Rightarrow> (u32 \<times> 'd replay) res" where
  "tune_write hw cmd value st =
     (if cmd = JOB_SLOT_REG GR_JS JS_HEAD_NEXT_LO \<or> cmd = JOB_SLOT_REG GR_JS JS_HEAD_NEXT_HI
      then bindR (gr_js_tune hw cmd value st) (\<lambda>st'. Inr (value, st'))
      else if cmd = JOB_SLOT_REG GR_JS JS_COMMAND_NEXT
      then if test_checkpoint (config (rp_ctx st))
           then bindR (replay_checkpoint hw st) (\<lambda>st'. Inr (value, st'))
           else Inr (value, st)
      else if cmd = JOB_SLOT_REG GR_JS JS_FLUSH_ID_NEXT then Inr (latest_flush_id st, st)
      else if cmd = JOB_SLOT_REG GR_JS JS_CONFIG_NEXT
      then Inr (if test_checkpoint (config (rp_ctx st)) then JS_CONFIG_START_FLUSH_NO_ACTION else value, st)
      else if cmd = MMU_AS_REG GR_AS_NR AS_TRANSTAB_LO
      then Inr (ucast (new_transtab (rp_ctx st) AND 0xFFFFFFFF), st)
      else if cmd = MMU_AS_REG GR_AS_NR AS_TRANSTAB_HI
      then Inr (ucast (drop_bit 32 (new_transtab (rp_ctx st)) AND 0xFFFFFFFF), st)
      else Inr (value, st))"

text \<open>
  After the submission of a job: the wait for its interrupt, and the time stamps. The timeout
  argument \<open>0.05\<close> is converted to the \<open>int\<close> 0. \<open>k2_measure\<close> is the clock; its samples are left out.
\<close>

definition gr_wait_job_irq :: "'d machine \<Rightarrow> nat \<Rightarrow> int \<Rightarrow> 'd \<Rightarrow> (int \<times> 'd) res" where
  "gr_wait_job_irq hw fuel timeout d = gr_manager_poll hw fuel IRQ_TYPE_JOB timeout d"

definition measure_into :: "'d machine \<Rightarrow> bool \<Rightarrow> (u32 \<Rightarrow> replay_context \<Rightarrow> replay_context) \<Rightarrow> 'd replay \<Rightarrow> 'd replay" where
  "measure_into hw cond upd st =
     (if cond then case hw_time hw (rp_dev st) of (t, d) \<Rightarrow> st\<lparr> rp_dev := d, rp_ctx := upd t (rp_ctx st) \<rparr>
      else st)"

definition before_irq :: "'d machine \<Rightarrow> 'd replay \<Rightarrow> u32 \<times> 'd replay" where
  "before_irq hw st =
     (case hw_time hw (rp_dev st) of (ts_job_start, d) \<Rightarrow>
        let n = job_submit_cnt st;
            st1 = measure_into hw (n = 1) (\<lambda>t c. c\<lparr> ts_prep_start := t \<rparr>) (st\<lparr> rp_dev := d \<rparr>)
        in (ts_job_start, measure_into hw (n = nr_prep_jobs (config (rp_ctx st)) + 1)
              (\<lambda>t c. c\<lparr> ts_comp_start := t \<rparr>) st1))"

definition job_ended :: "'d machine \<Rightarrow> u32 \<Rightarrow> 'd replay \<Rightarrow> 'd replay" where
  "job_ended hw ts_job_start st =
     (case hw_time hw (rp_dev st) of (ts_job_end, d) \<Rightarrow>
        let n = job_submit_cnt st; cfg = config (rp_ctx st)
        in measure_into hw (n = nr_prep_jobs cfg) (\<lambda>t c. c\<lparr> ts_prep_end := t \<rparr>)
             (st\<lparr> rp_dev := d,
                 sum_comp_time := (if n > nr_prep_jobs cfg \<and> n \<le> nr_tot_jobs cfg
                   then sum_comp_time st + (ts_job_end - ts_job_start) else sum_comp_time st) \<rparr>))"

definition after_irq :: "'d machine \<Rightarrow> u32 \<Rightarrow> 'd replay \<Rightarrow> 'd replay" where
  "after_irq hw ts_job_start st =
     (let n = job_submit_cnt st; cfg = config (rp_ctx st); st1 = job_ended hw ts_job_start st
      in if n \<noteq> nr_prep_jobs cfg \<and> n = nr_tot_jobs cfg
         then measure_into hw True (\<lambda>t c. c) (measure_into hw True (\<lambda>t c. c\<lparr> ts_comp_end := t \<rparr>) st1)
         else (measure_into hw (n > nr_prep_jobs cfg \<and> (n - nr_prep_jobs cfg) mod 32 = 0) (\<lambda>t c. c) st1)
                \<lparr> job_submit_cnt := n + 1 \<rparr>)"

definition replay_submitted :: "'d machine \<Rightarrow> nat \<Rightarrow> 'd replay \<Rightarrow> 'd replay res" where
  "replay_submitted hw fuel st =
     (case before_irq hw st of (ts_job_start, st1) \<Rightarrow>
        bindR (gr_wait_job_irq hw fuel 0 (rp_dev st1)) (\<lambda>(retval, d).
          Inr (after_irq hw ts_job_start (st1\<lparr> rp_dev := d \<rparr>))))"

definition replay_written :: "'d machine \<Rightarrow> nat \<Rightarrow> u32 \<Rightarrow> u32 \<Rightarrow> 'd replay \<Rightarrow> 'd replay res" where
  "replay_written hw fuel cmd value st =
     (if cmd = JOB_SLOT_REG GR_JS JS_COMMAND_NEXT then replay_submitted hw fuel st
      else if cmd = GPU_CONTROL_REG GPU_COMMAND \<and> value = GPU_COMMAND_SOFT_RESET
      then bindR (gr_reg_write hw (GPU_CONTROL_REG GPU_IRQ_MASK) 0x100 (rp_dev st)) (\<lambda>d. Inr (st\<lparr> rp_dev := d \<rparr>))
      else Inr st)"

definition replay_write :: "'d machine \<Rightarrow> nat \<Rightarrow> u32 \<Rightarrow> u32 \<Rightarrow> 'd replay \<Rightarrow> 'd replay res" where
  "replay_write hw fuel cmd value st =
     bindR (tune_write hw cmd value st) (\<lambda>(value', st1).
     bindR (gr_reg_write hw cmd value' (rp_dev st1)) (\<lambda>d.
       replay_written hw fuel cmd value' (st1\<lparr> rp_dev := d \<rparr>)))"

definition replay_validate :: "'d machine \<Rightarrow> reg_io \<Rightarrow> 'd replay \<Rightarrow> 'd replay res" where
  "replay_validate hw cur_io st =
     (if is_validate (config (rp_ctx st))
      then bindR (gr_is_same_regmap hw (regmap st) (reg_fp st) cur_io (rp_dev st)) (\<lambda>(same, rm, fp, d).
             Inr (st\<lparr> rp_dev := d, regmap := rm, reg_fp := fp \<rparr>))
      else Inr st)"

definition replay_io :: "'d machine \<Rightarrow> nat \<Rightarrow> reg_io \<Rightarrow> 'd replay \<Rightarrow> 'd replay res" where
  "replay_io hw fuel cur_io st =
     bindR (if io_is_read cur_io = CHR ''R''
            then replay_read hw (io_offset cur_io) (io_value cur_io) st
            else replay_write hw fuel (io_offset cur_io) (io_value cur_io) st)
       (replay_validate hw cur_io)"

fun replay_loop :: "'d machine \<Rightarrow> nat \<Rightarrow> reg_io list \<Rightarrow> 'd replay \<Rightarrow> 'd replay res" where
  "replay_loop hw fuel [] st = Inr st"
| "replay_loop hw fuel (cur_io # ios) st = bindR (replay_io hw fuel cur_io st) (replay_loop hw fuel ios)"

definition gr_replay_run :: "'d machine \<Rightarrow> nat \<Rightarrow> reg_io list \<Rightarrow> 'd replay \<Rightarrow> 'd replay res" where
  "gr_replay_run hw fuel ios st =
     (let (ts_replay_start, d) = hw_time hw (rp_dev st)
      in bindR (replay_loop hw fuel ios (st\<lparr> rp_dev := d, job_submit_cnt := 1, sum_comp_time := 0 \<rparr>)) (\<lambda>st'.
           Inr (st'\<lparr> rp_ctx := (rp_ctx st')
             \<lparr> tot_prep_time := tot_prep_time (rp_ctx st') + (ts_prep_end (rp_ctx st') - ts_replay_start),
               tot_comp_time := tot_comp_time (rp_ctx st') + (ts_comp_end (rp_ctx st') - ts_comp_start (rp_ctx st')) \<rparr> \<rparr>)))"

section \<open>Events and their specification\<close>

datatype event = Rd u32 u32 | Wr u32 u32 | Irq gr_irq_type

text \<open>A machine that also keeps the list of what happened at the GPU.\<close>

definition traced :: "'d machine \<Rightarrow> ('d \<times> event list) machine" where
  "traced hw = \<lparr>
     hw_read = (\<lambda>off (d, es). case hw_read hw off d of (v, d') \<Rightarrow> (v, (d', es @ [Rd off v]))),
     hw_write = (\<lambda>off v (d, es). (hw_write hw off v d, es @ [Wr off v])),
     hw_poll = (\<lambda>irq t (d, es). case hw_poll hw irq t d of
        ((r, p), d') \<Rightarrow> ((r, p), (d', if r > 0 \<and> p then es @ [Irq irq] else es))),
     hw_time = (\<lambda>(d, es). case hw_time hw d of (t, d') \<Rightarrow> (t, (d', es))),
     hw_mem = (\<lambda>(d, es). hw_mem hw d),
     hw_put_mem = (\<lambda>pm (d, es). (hw_put_mem hw pm d, es)) \<rparr>"

definition tuned :: "u64 \<Rightarrow> u32 \<Rightarrow> u32 \<Rightarrow> u32 \<Rightarrow> u32" where
  "tuned tt flush off v =
     (if off = MMU_AS_REG GR_AS_NR AS_TRANSTAB_LO then ucast tt
      else if off = MMU_AS_REG GR_AS_NR AS_TRANSTAB_HI then ucast (drop_bit 32 tt)
      else if off = JOB_SLOT_REG GR_JS JS_FLUSH_ID_NEXT then flush else v)"

text \<open>
  What one recorded access stands for at the GPU, when the flush identifier is \<open>f\<close> before and
  \<open>f'\<close> after it: a read is one read, followed by more when the recorded address space was busy;
  a write is one write, and the submission of a job ends with its interrupt.
\<close>

inductive io_events :: "u64 \<Rightarrow> u32 \<Rightarrow> reg_io \<Rightarrow> event list \<Rightarrow> u32 \<Rightarrow> bool" for tt where
  read_plain: "io_is_read io = CHR ''R'' \<Longrightarrow> io_offset io \<noteq> MMU_AS_REG GR_AS_NR AS_STATUS \<Longrightarrow>
    io_offset io \<noteq> GPU_CONTROL_REG LATEST_FLUSH \<Longrightarrow> io_events tt f io [Rd (io_offset io) v] f"
| read_flush: "io_is_read io = CHR ''R'' \<Longrightarrow> io_offset io = GPU_CONTROL_REG LATEST_FLUSH \<Longrightarrow>
    io_events tt f io [Rd (io_offset io) v] v"
| read_status: "io_is_read io = CHR ''R'' \<Longrightarrow> io_offset io = MMU_AS_REG GR_AS_NR AS_STATUS \<Longrightarrow>
    io_value io \<noteq> AS_STATUS_AS_ACTIVE \<Longrightarrow> io_events tt f io [Rd (io_offset io) v] v"
| read_wait: "io_is_read io = CHR ''R'' \<Longrightarrow> io_offset io = MMU_AS_REG GR_AS_NR AS_STATUS \<Longrightarrow>
    io_value io = AS_STATUS_AS_ACTIVE \<Longrightarrow>
    io_events tt f io (Rd (io_offset io) v # map (Rd (io_offset io)) vs @ [Rd (io_offset io) AS_STATUS_AS_INACTIVE]) v"
| write_plain: "io_is_read io \<noteq> CHR ''R'' \<Longrightarrow> io_offset io \<noteq> JOB_SLOT_REG GR_JS JS_COMMAND_NEXT \<Longrightarrow>
    \<not> (io_offset io = GPU_CONTROL_REG GPU_COMMAND \<and> io_value io = GPU_COMMAND_SOFT_RESET) \<Longrightarrow>
    io_events tt f io [Wr (io_offset io) (tuned tt f (io_offset io) (io_value io))] f"
| write_reset: "io_is_read io \<noteq> CHR ''R'' \<Longrightarrow> io_offset io = GPU_CONTROL_REG GPU_COMMAND \<Longrightarrow>
    io_value io = GPU_COMMAND_SOFT_RESET \<Longrightarrow>
    io_events tt f io [Wr (io_offset io) (io_value io), Wr (GPU_CONTROL_REG GPU_IRQ_MASK) 0x100] f"
| write_submit: "io_is_read io \<noteq> CHR ''R'' \<Longrightarrow> io_offset io = JOB_SLOT_REG GR_JS JS_COMMAND_NEXT \<Longrightarrow>
    io_events tt f io [Wr (io_offset io) (io_value io), Irq IRQ_TYPE_JOB] f"

inductive replays :: "u64 \<Rightarrow> u32 \<Rightarrow> reg_io list \<Rightarrow> event list \<Rightarrow> u32 \<Rightarrow> bool" for tt where
  replays_none [intro]: "replays tt f [] [] f"
| replays_step [intro]: "io_events tt f io es f' \<Longrightarrow> replays tt f' ios es' f'' \<Longrightarrow>
    replays tt f (io # ios) (es @ es') f''"

inductive_cases replays_ConsE: "replays tt f (io # ios) es f'"
inductive_cases replays_NilE: "replays tt f [] es f'"

section \<open>The model produces these events\<close>

definition same_setup :: "'d replay \<Rightarrow> 'e replay \<Rightarrow> bool" where
  "same_setup st st' \<longleftrightarrow> config (rp_ctx st') = config (rp_ctx st) \<and>
     new_transtab (rp_ctx st') = new_transtab (rp_ctx st) \<and> gm_region (rp_ctx st') = gm_region (rp_ctx st)"

lemma same_setup_trans: "same_setup st st1 \<Longrightarrow> same_setup st1 st2 \<Longrightarrow> same_setup st st2"
  by (simp add: same_setup_def)

definition keeps :: "('d \<times> event list) replay \<Rightarrow> ('d \<times> event list) replay \<Rightarrow> bool" where
  "keeps st st' \<longleftrightarrow> same_setup st st' \<and> snd (rp_dev st') = snd (rp_dev st) \<and> latest_flush_id st' = latest_flush_id st"

definition emits :: "('d \<times> event list) replay \<Rightarrow> event list \<Rightarrow> ('d \<times> event list) replay \<Rightarrow> bool" where
  "emits st es st' \<longleftrightarrow> same_setup st st' \<and> snd (rp_dev st') = snd (rp_dev st) @ es"

lemma reg_read_traced:
  "gr_reg_read (traced hw) off d = Inr (v, d') \<Longrightarrow> snd d' = snd d @ [Rd off v]"
  by (auto simp: gr_reg_read_def traced_def split: if_splits prod.splits)

lemma reg_write_traced:
  "gr_reg_write (traced hw) off v d = Inr d' \<Longrightarrow> snd d' = snd d @ [Wr off v]"
  by (auto simp: gr_reg_write_def traced_def split: if_splits prod.splits)

lemma poll_traced: "gr_manager_poll (traced hw) n irq t d = Inr (r, d') \<Longrightarrow> snd d' = snd d @ [Irq irq]"
proof (induction n arbitrary: d)
  case 0
  then show ?case by simp
next
  case (Suc n)
  obtain d0 es where d: "d = (d0, es)" by (cases d)
  obtain r0 p d1 where h: "hw_poll hw irq t d0 = ((r0, p), d1)" by (metis surj_pair)
  then have "hw_poll (traced hw) irq t d = ((r0, p), (d1, if r0 > 0 \<and> p then es @ [Irq irq] else es))"
    by (simp add: traced_def d)
  then show ?case using Suc.prems Suc.IH [of "(d1, es)"] d by (auto split: if_splits)
qed

lemma time_traced: "snd (snd (hw_time (traced hw) d)) = snd d"
  by (auto simp: traced_def split: prod.splits)

lemma put_mem_traced: "snd (hw_put_mem (traced hw) pm d) = snd d"
  by (auto simp: traced_def split: prod.splits)

lemma measure_keeps:
  assumes "\<And>t c. config (upd t c) = config c \<and> new_transtab (upd t c) = new_transtab c \<and> gm_region (upd t c) = gm_region c"
  shows "keeps st (measure_into (traced hw) b upd st)"
  using assms time_traced [of hw "rp_dev st"]
  by (auto simp: keeps_def same_setup_def measure_into_def split: prod.splits)

lemma reg_wait_loop_traced:
  "reg_wait_loop (traced hw) off v n new d = Inr (m, d') \<Longrightarrow> m \<noteq> 0 \<Longrightarrow>
    (new = v \<and> d' = d) \<or> (\<exists>vs. snd d' = snd d @ map (Rd off) vs @ [Rd off v])"
proof (induction n arbitrary: new d)
  case 0
  then show ?case by simp
next
  case (Suc n)
  show ?case
  proof (cases "n \<noteq> 0 \<and> new \<noteq> v")
    case True
    then obtain new1 d1 where r: "gr_reg_read (traced hw) off d = Inr (new1, d1)"
      and l: "reg_wait_loop (traced hw) off v n new1 d1 = Inr (m, d')"
      using Suc.prems by (auto simp: bindR_eq_Inr)
    note e = reg_read_traced [OF r]
    from Suc.IH [OF l Suc.prems(2)] show ?thesis
    proof
      assume "new1 = v \<and> d' = d1"
      then have "snd d' = snd d @ map (Rd off) [] @ [Rd off v]" using e by simp
      then show ?thesis by blast
    next
      assume "\<exists>vs. snd d' = snd d1 @ map (Rd off) vs @ [Rd off v]"
      then obtain vs where "snd d' = snd d1 @ map (Rd off) vs @ [Rd off v]" by blast
      then have "snd d' = snd d @ map (Rd off) (new1 # vs) @ [Rd off v]" using e by simp
      then show ?thesis by blast
    qed
  next
    case False
    then show ?thesis using Suc.prems by (auto split: if_splits)
  qed
qed

lemma reg_read_wait_traced:
  assumes "reg_read_wait (traced hw) off v d = Inr d'"
  shows "\<exists>vs. snd d' = snd d @ map (Rd off) vs @ [Rd off v]"
proof -
  from assms obtain new d1 m where r: "gr_reg_read (traced hw) off d = Inr (new, d1)"
    and l: "reg_wait_loop (traced hw) off v KBASE_AS_INACTIVE_MAX_LOOPS new d1 = Inr (m, d')" and m: "m \<noteq> 0"
    by (auto simp: reg_read_wait_def bindR_eq_Inr split: if_splits)
  note e = reg_read_traced [OF r]
  from reg_wait_loop_traced [OF l m] show ?thesis
  proof
    assume "new = v \<and> d' = d1"
    then have "snd d' = snd d @ map (Rd off) [] @ [Rd off v]" using e by simp
    then show ?thesis by blast
  next
    assume "\<exists>vs. snd d' = snd d1 @ map (Rd off) vs @ [Rd off v]"
    then obtain vs where "snd d' = snd d1 @ map (Rd off) vs @ [Rd off v]" by blast
    then have "snd d' = snd d @ map (Rd off) (new # vs) @ [Rd off v]" using e by simp
    then show ?thesis by blast
  qed
qed

lemma replay_read_events:
  assumes "replay_read (traced hw) (io_offset io) (io_value io) st = Inr st'" and "io_is_read io = CHR ''R''"
  shows "\<exists>es. io_events tt (latest_flush_id st) io es (latest_flush_id st') \<and> emits st es st'"
proof -
  let ?c = "io_offset io"
  have neq: "GPU_CONTROL_REG SHADER_READY_LO \<noteq> MMU_AS_REG GR_AS_NR AS_STATUS"
    "GPU_CONTROL_REG TILER_READY_LO \<noteq> MMU_AS_REG GR_AS_NR AS_STATUS"
    "GPU_CONTROL_REG SHADER_READY_LO \<noteq> GPU_CONTROL_REG LATEST_FLUSH"
    "GPU_CONTROL_REG TILER_READY_LO \<noteq> GPU_CONTROL_REG LATEST_FLUSH"
    "MMU_AS_REG GR_AS_NR AS_STATUS \<noteq> GPU_CONTROL_REG LATEST_FLUSH" by (simp_all add: reg_defs)
  from assms(1) obtain v d where r: "gr_reg_read (traced hw) ?c (rp_dev st) = Inr (v, d)"
    by (auto simp: replay_read_def bindR_eq_Inr)
  note e = reg_read_traced [OF r]
  consider "?c = MMU_AS_REG GR_AS_NR AS_STATUS" "io_value io = AS_STATUS_AS_ACTIVE"
    | "?c = MMU_AS_REG GR_AS_NR AS_STATUS" "io_value io \<noteq> AS_STATUS_AS_ACTIVE"
    | "?c = GPU_CONTROL_REG LATEST_FLUSH"
    | "?c \<noteq> MMU_AS_REG GR_AS_NR AS_STATUS" "?c \<noteq> GPU_CONTROL_REG LATEST_FLUSH" by blast
  then show ?thesis
  proof cases
    case 1
    then obtain d' where w: "reg_read_wait (traced hw) ?c AS_STATUS_AS_INACTIVE d = Inr d'"
      and st': "st' = st\<lparr> rp_dev := d', latest_flush_id := v \<rparr>"
      using assms(1) r neq by (auto simp: replay_read_def bindR_eq_Inr)
    from reg_read_wait_traced [OF w] obtain vs where
      "snd d' = snd d @ map (Rd ?c) vs @ [Rd ?c AS_STATUS_AS_INACTIVE]" by blast
    then show ?thesis using io_events.read_wait [OF assms(2) 1, where v = v and vs = vs] st' e
      by (intro exI [of _ "Rd ?c v # map (Rd ?c) vs @ [Rd ?c AS_STATUS_AS_INACTIVE]"])
        (simp add: emits_def same_setup_def)
  next
    case 2
    then have "st' = st\<lparr> rp_dev := d, latest_flush_id := v \<rparr>"
      using assms(1) r neq by (auto simp: replay_read_def bindR_eq_Inr)
    then show ?thesis using io_events.read_status [OF assms(2) 2] e
      by (intro exI [of _ "[Rd ?c v]"]) (simp add: emits_def same_setup_def)
  next
    case 3
    then have "st' = st\<lparr> rp_dev := d, latest_flush_id := v \<rparr>"
      using assms(1) r neq by (auto simp: replay_read_def bindR_eq_Inr)
    then show ?thesis using io_events.read_flush [OF assms(2) 3] e
      by (intro exI [of _ "[Rd ?c v]"]) (simp add: emits_def same_setup_def)
  next
    case 4
    then have "st' = st\<lparr> rp_dev := d \<rparr>"
      using assms(1) r by (auto simp: replay_read_def bindR_eq_Inr split: if_splits)
    then show ?thesis using io_events.read_plain [OF assms(2) 4] e
      by (intro exI [of _ "[Rd ?c v]"]) (simp add: emits_def same_setup_def)
  qed
qed

lemma poll_keeps: "gr_wait_job_irq (traced hw) fuel t d = Inr (r, d') \<Longrightarrow> snd d' = snd d @ [Irq IRQ_TYPE_JOB]"
  unfolding gr_wait_job_irq_def by (rule poll_traced)

lemma emits_keeps: "emits st es st1 \<Longrightarrow> keeps st1 st2 \<Longrightarrow> emits st es st2"
  by (simp add: emits_def keeps_def same_setup_def)

lemma keeps_trans: "keeps st st1 \<Longrightarrow> keeps st1 st2 \<Longrightarrow> keeps st st2"
  by (simp add: keeps_def same_setup_def)

lemma keeps_refl [simp]: "keeps st st"
  by (simp add: keeps_def same_setup_def)

lemma keeps_submit_cnt [simp]: "keeps st (st'\<lparr> job_submit_cnt := n \<rparr>) = keeps st st'"
  by (simp add: keeps_def same_setup_def)

lemma keeps_measure:
  assumes "\<And>t c. config (upd t c) = config c \<and> new_transtab (upd t c) = new_transtab c \<and> gm_region (upd t c) = gm_region c"
    and "keeps st0 st"
  shows "keeps st0 (measure_into (traced hw) b upd st)"
  by (rule keeps_trans [OF assms(2) measure_keeps]) (use assms(1) in auto)

lemma before_irq_keeps: "keeps st (snd (before_irq (traced hw) st))"
proof -
  obtain ts d where t: "hw_time (traced hw) (rp_dev st) = (ts, d)" by (cases "hw_time (traced hw) (rp_dev st)")
  have "keeps st (st\<lparr> rp_dev := d \<rparr>)"
    using time_traced [of hw "rp_dev st"] t by (simp add: keeps_def same_setup_def)
  then show ?thesis unfolding before_irq_def t by (auto simp: Let_def intro!: keeps_measure)
qed

lemma job_ended_keeps: "keeps st (job_ended (traced hw) ts st)"
proof -
  obtain te d where t: "hw_time (traced hw) (rp_dev st) = (te, d)" by (cases "hw_time (traced hw) (rp_dev st)")
  have "keeps st (st\<lparr> rp_dev := d, sum_comp_time := x \<rparr>)" "keeps st (st\<lparr> rp_dev := d \<rparr>)" for x
    using time_traced [of hw "rp_dev st"] t by (simp_all add: keeps_def same_setup_def)
  then show ?thesis unfolding job_ended_def t by (auto simp: Let_def intro!: keeps_measure)
qed

lemma after_irq_keeps: "keeps st (after_irq (traced hw) ts st)"
  unfolding after_irq_def Let_def by (auto intro!: keeps_measure job_ended_keeps)

lemma replay_submitted_events:
  assumes "replay_submitted (traced hw) fuel st = Inr st'"
  shows "emits st [Irq IRQ_TYPE_JOB] st' \<and> latest_flush_id st' = latest_flush_id st"
proof -
  obtain ts st1 where b: "before_irq (traced hw) st = (ts, st1)" by (cases "before_irq (traced hw) st")
  from assms b obtain r d where p: "gr_wait_job_irq (traced hw) fuel 0 (rp_dev st1) = Inr (r, d)"
    and st': "st' = after_irq (traced hw) ts (st1\<lparr> rp_dev := d \<rparr>)"
    by (auto simp: replay_submitted_def bindR_eq_Inr)
  have "keeps st st1" using before_irq_keeps [of st hw] b by simp
  moreover have "keeps (st1\<lparr> rp_dev := d \<rparr>) st'" unfolding st' by (rule after_irq_keeps)
  ultimately show ?thesis using poll_keeps [OF p] by (simp add: emits_def keeps_def same_setup_def)
qed

lemma and_low32: "(ucast (x AND 0xFFFFFFFF :: u64) :: u32) = ucast x"
proof -
  have m: "(0xFFFFFFFF :: u64) = mask 32" by (simp add: mask_eq_exp_minus_1)
  show ?thesis unfolding m by (intro bit_word_eqI) (auto simp: bit_simps)
qed

lemma tune_write_value:
  assumes "tune_write (traced hw) (io_offset io) (io_value io) st = Inr (v, st1)"
    and "\<not> test_checkpoint (config (rp_ctx st))"
  shows "v = tuned (new_transtab (rp_ctx st)) (latest_flush_id st) (io_offset io) (io_value io) \<and> keeps st st1"
proof -
  have js: "keeps st st1" if "gr_js_tune (traced hw) c w st = Inr st1" for c w
    using that by (auto simp: put_mem_traced gr_js_tune_def keeps_def same_setup_def bindR_eq_Inr Let_def split: if_splits)
  have refl: "keeps st st" by (simp add: keeps_def same_setup_def)
  have neq: "JOB_SLOT_REG GR_JS JS_HEAD_NEXT_LO \<noteq> MMU_AS_REG GR_AS_NR AS_TRANSTAB_LO"
    "JOB_SLOT_REG GR_JS JS_HEAD_NEXT_LO \<noteq> MMU_AS_REG GR_AS_NR AS_TRANSTAB_HI"
    "JOB_SLOT_REG GR_JS JS_HEAD_NEXT_LO \<noteq> JOB_SLOT_REG GR_JS JS_FLUSH_ID_NEXT"
    "JOB_SLOT_REG GR_JS JS_HEAD_NEXT_HI \<noteq> MMU_AS_REG GR_AS_NR AS_TRANSTAB_LO"
    "JOB_SLOT_REG GR_JS JS_HEAD_NEXT_HI \<noteq> MMU_AS_REG GR_AS_NR AS_TRANSTAB_HI"
    "JOB_SLOT_REG GR_JS JS_HEAD_NEXT_HI \<noteq> JOB_SLOT_REG GR_JS JS_FLUSH_ID_NEXT"
    "JOB_SLOT_REG GR_JS JS_COMMAND_NEXT \<noteq> MMU_AS_REG GR_AS_NR AS_TRANSTAB_LO"
    "JOB_SLOT_REG GR_JS JS_COMMAND_NEXT \<noteq> MMU_AS_REG GR_AS_NR AS_TRANSTAB_HI"
    "JOB_SLOT_REG GR_JS JS_COMMAND_NEXT \<noteq> JOB_SLOT_REG GR_JS JS_FLUSH_ID_NEXT"
    "JOB_SLOT_REG GR_JS JS_CONFIG_NEXT \<noteq> MMU_AS_REG GR_AS_NR AS_TRANSTAB_LO"
    "JOB_SLOT_REG GR_JS JS_CONFIG_NEXT \<noteq> MMU_AS_REG GR_AS_NR AS_TRANSTAB_HI"
    "JOB_SLOT_REG GR_JS JS_CONFIG_NEXT \<noteq> JOB_SLOT_REG GR_JS JS_FLUSH_ID_NEXT"
    "JOB_SLOT_REG GR_JS JS_FLUSH_ID_NEXT \<noteq> MMU_AS_REG GR_AS_NR AS_TRANSTAB_LO"
    "JOB_SLOT_REG GR_JS JS_FLUSH_ID_NEXT \<noteq> MMU_AS_REG GR_AS_NR AS_TRANSTAB_HI"
    "MMU_AS_REG GR_AS_NR AS_TRANSTAB_HI \<noteq> MMU_AS_REG GR_AS_NR AS_TRANSTAB_LO" by (simp_all add: reg_defs)
  show ?thesis
    using assms js neq refl
    by (auto simp: tune_write_def tuned_def bindR_eq_Inr and_low32 split: if_splits)
qed

lemma replay_write_events:
  assumes w: "replay_write (traced hw) fuel (io_offset io) (io_value io) st = Inr st'"
    and io: "io_is_read io \<noteq> CHR ''R''" and cp: "\<not> test_checkpoint (config (rp_ctx st))"
  shows "\<exists>es. io_events (new_transtab (rp_ctx st)) (latest_flush_id st) io es (latest_flush_id st') \<and> emits st es st'"
proof -
  let ?c = "io_offset io"
  from w obtain v st1 d where t: "tune_write (traced hw) ?c (io_value io) st = Inr (v, st1)"
    and r: "gr_reg_write (traced hw) ?c v (rp_dev st1) = Inr d"
    and f: "replay_written (traced hw) fuel ?c v (st1\<lparr> rp_dev := d \<rparr>) = Inr st'"
    by (auto simp: replay_write_def bindR_eq_Inr)
  from tune_write_value [OF t cp] have v: "v = tuned (new_transtab (rp_ctx st)) (latest_flush_id st) ?c (io_value io)"
    and k: "keeps st st1" by auto
  have e: "emits st [Wr ?c v] (st1\<lparr> rp_dev := d \<rparr>)"
    using k reg_write_traced [OF r] by (simp add: emits_def keeps_def same_setup_def)
  have fl: "latest_flush_id (st1\<lparr> rp_dev := d \<rparr>) = latest_flush_id st" using k by (simp add: keeps_def)
  have neq: "JOB_SLOT_REG GR_JS JS_COMMAND_NEXT \<noteq> GPU_CONTROL_REG GPU_COMMAND"
    "tuned tt fl (JOB_SLOT_REG GR_JS JS_COMMAND_NEXT) x = x" "tuned tt fl (GPU_CONTROL_REG GPU_COMMAND) x = x" for tt fl x
    by (simp_all add: tuned_def reg_defs)
  consider "?c = JOB_SLOT_REG GR_JS JS_COMMAND_NEXT"
    | "?c = GPU_CONTROL_REG GPU_COMMAND" "io_value io = GPU_COMMAND_SOFT_RESET"
    | "?c \<noteq> JOB_SLOT_REG GR_JS JS_COMMAND_NEXT" "\<not> (?c = GPU_CONTROL_REG GPU_COMMAND \<and> io_value io = GPU_COMMAND_SOFT_RESET)"
    by blast
  then show ?thesis
  proof cases
    case 1
    then have "replay_submitted (traced hw) fuel (st1\<lparr> rp_dev := d \<rparr>) = Inr st'"
      using f by (simp add: replay_written_def)
    from replay_submitted_events [OF this] have "emits st [Wr ?c v, Irq IRQ_TYPE_JOB] st'" "latest_flush_id st' = latest_flush_id st"
      using e fl by (auto simp: emits_def same_setup_def)
    moreover have "v = io_value io" using v 1 neq by simp
    ultimately show ?thesis using io_events.write_submit [OF io 1] by metis
  next
    case 2
    have vv: "v = io_value io" using v 2 neq by simp
    then obtain d' where "gr_reg_write (traced hw) (GPU_CONTROL_REG GPU_IRQ_MASK) 0x100 d = Inr d'"
      and "st' = st1\<lparr> rp_dev := d' \<rparr>"
      using f 2 neq by (auto simp: replay_written_def bindR_eq_Inr)
    then have "emits st [Wr ?c v, Wr (GPU_CONTROL_REG GPU_IRQ_MASK) 0x100] st'" "latest_flush_id st' = latest_flush_id st"
      using e fl reg_write_traced by (fastforce simp: emits_def same_setup_def)+
    then show ?thesis using io_events.write_reset [OF io 2] vv by metis
  next
    case 3
    have "tuned tt fl (GPU_CONTROL_REG GPU_COMMAND) x = x" for tt fl x by (rule neq)
    then have "st' = st1\<lparr> rp_dev := d \<rparr>"
      using f 3 v by (auto simp: replay_written_def split: if_splits)
    then show ?thesis using io_events.write_plain [OF io 3] v e fl by metis
  qed
qed

lemma replay_io_events:
  assumes "replay_io (traced hw) fuel io st = Inr st'"
    and "\<not> test_checkpoint (config (rp_ctx st))" and "\<not> is_validate (config (rp_ctx st))"
  shows "\<exists>es. io_events (new_transtab (rp_ctx st)) (latest_flush_id st) io es (latest_flush_id st') \<and> emits st es st'"
proof -
  from assms(1) obtain st1 where
    s: "(if io_is_read io = CHR ''R'' then replay_read (traced hw) (io_offset io) (io_value io) st
        else replay_write (traced hw) fuel (io_offset io) (io_value io) st) = Inr st1"
    and v: "replay_validate (traced hw) io st1 = Inr st'"
    by (auto simp: replay_io_def bindR_eq_Inr)
  have e: "\<exists>es. io_events (new_transtab (rp_ctx st)) (latest_flush_id st) io es (latest_flush_id st1) \<and> emits st es st1"
    using s assms(2) replay_read_events replay_write_events by (auto split: if_splits)
  then have "\<not> is_validate (config (rp_ctx st1))" using assms(3) by (auto simp: emits_def same_setup_def)
  then show ?thesis using v e by (simp add: replay_validate_def)
qed

lemma replay_loop_events:
  assumes "replay_loop (traced hw) fuel ios st = Inr st'"
    and "\<not> test_checkpoint (config (rp_ctx st))" and "\<not> is_validate (config (rp_ctx st))"
  shows "\<exists>es. replays (new_transtab (rp_ctx st)) (latest_flush_id st) ios es (latest_flush_id st') \<and> emits st es st'"
  using assms
proof (induction ios arbitrary: st)
  case Nil
  then show ?case by (auto simp: emits_def same_setup_def)
next
  case (Cons io ios)
  then obtain st1 where s: "replay_io (traced hw) fuel io st = Inr st1" and l: "replay_loop (traced hw) fuel ios st1 = Inr st'"
    by (auto simp: bindR_eq_Inr)
  from replay_io_events [OF s Cons.prems(2,3)] obtain es where
    e: "io_events (new_transtab (rp_ctx st)) (latest_flush_id st) io es (latest_flush_id st1)" "emits st es st1" by blast
  then have c: "\<not> test_checkpoint (config (rp_ctx st1))" "\<not> is_validate (config (rp_ctx st1))"
    "new_transtab (rp_ctx st1) = new_transtab (rp_ctx st)"
    using Cons.prems(2,3) by (auto simp: emits_def same_setup_def)
  from Cons.IH [OF l c(1,2)] obtain es' where
    r: "replays (new_transtab (rp_ctx st)) (latest_flush_id st1) ios es' (latest_flush_id st')" "emits st1 es' st'"
    using c(3) by auto
  have "emits st (es @ es') st'" using e(2) r(2) by (simp add: emits_def same_setup_def)
  then show ?case using e(1) r(1) by blast
qed

section \<open>The replay returns\<close>

text \<open>
  A set of machine states in which the GPU answers: it is closed under everything the replayer
  does, a job interrupt is reported within \<open>fuel\<close> calls of \<open>poll\<close>, and a busy address space
  becomes inactive in time.
\<close>

definition answers :: "'d machine \<Rightarrow> nat \<Rightarrow> 'd set \<Rightarrow> bool" where
  "answers hw fuel S \<longleftrightarrow> (\<forall>d \<in> S.
     (\<forall>off. snd (hw_read hw off d) \<in> S) \<and> (\<forall>off v. hw_write hw off v d \<in> S) \<and> snd (hw_time hw d) \<in> S \<and>
     (\<forall>pm. mappable pm = mappable (hw_mem hw d) \<longrightarrow> hw_put_mem hw pm d \<in> S) \<and>
     (\<exists>r d'. gr_manager_poll hw fuel IRQ_TYPE_JOB 0 d = Inr (r, d') \<and> d' \<in> S) \<and>
     (\<exists>d'. reg_read_wait hw (MMU_AS_REG GR_AS_NR AS_STATUS) AS_STATUS_AS_INACTIVE d = Inr d' \<and> d' \<in> S))"

text \<open>The job chain addresses of a recording, when the low half was \<open>lo\<close> before.\<close>

fun job_heads :: "u32 \<Rightarrow> reg_io list \<Rightarrow> u64 list" where
  "job_heads lo [] = []"
| "job_heads lo (io # ios) =
     (if io_is_read io = CHR ''R'' then job_heads lo ios
      else if io_offset io = JOB_SLOT_REG GR_JS JS_HEAD_NEXT_LO then job_heads (io_value io) ios
      else if io_offset io = JOB_SLOT_REG GR_JS JS_HEAD_NEXT_HI
      then (push_bit 32 (ucast (io_value io)) OR ucast lo) # job_heads lo ios
      else job_heads lo ios)"

definition recording_ok :: "'d machine \<Rightarrow> 'd set \<Rightarrow> 'e replay \<Rightarrow> reg_io list \<Rightarrow> bool" where
  "recording_ok hw S st ios \<longleftrightarrow>
     \<not> test_checkpoint (config (rp_ctx st)) \<and> \<not> is_validate (config (rp_ctx st)) \<and>
     (\<forall>io \<in> set ios. unat (io_offset io) + 4 \<le> GPU_REG_PA_SIZE) \<and>
     (\<forall>a \<in> set (job_heads (jc_lo st) ios). \<forall>d \<in> S. \<exists>gm. gr_io_ok (rp_ctx st) (hw_mem hw d) a 8 gm)"

definition stays :: "'d set \<Rightarrow> 'd replay \<Rightarrow> 'd replay \<Rightarrow> bool" where
  "stays S st st' \<longleftrightarrow> rp_dev st' \<in> S \<and> same_setup st st' \<and> jc_lo st' = jc_lo st"

lemma stays_trans: "stays S st st1 \<Longrightarrow> stays S st1 st2 \<Longrightarrow> stays S st st2"
  by (simp add: stays_def same_setup_def)

lemma stays_dev: "d \<in> S \<Longrightarrow> stays S st (st\<lparr> rp_dev := d \<rparr>)"
  by (simp add: stays_def same_setup_def)

lemma stays_simps [simp]:
  "stays S st (st'\<lparr> job_submit_cnt := n \<rparr>) = stays S st st'"
  "stays S st (st'\<lparr> sum_comp_time := u \<rparr>) = stays S st st'"
  "stays S st (st'\<lparr> latest_flush_id := v \<rparr>) = stays S st st'"
  by (simp_all add: stays_def same_setup_def)

lemma stays_measure:
  assumes "answers hw fuel S"
    and "\<And>t c. config (upd t c) = config c \<and> new_transtab (upd t c) = new_transtab c \<and> gm_region (upd t c) = gm_region c"
    and "stays S st0 st"
  shows "stays S st0 (measure_into hw b upd st)"
proof -
  have "snd (hw_time hw (rp_dev st)) \<in> S" using assms by (auto simp: answers_def stays_def)
  then show ?thesis using assms(2,3)
    by (auto simp: measure_into_def stays_def same_setup_def split: prod.splits)
qed

lemma replay_submitted_returns:
  assumes an: "answers hw fuel S" and d: "rp_dev st \<in> S"
  shows "\<exists>st'. replay_submitted hw fuel st = Inr st' \<and> stays S st st'"
proof -
  have time: "snd (hw_time hw d) \<in> S" if "d \<in> S" for d using an that by (auto simp: answers_def)
  obtain ts st1 where b: "before_irq hw st = (ts, st1)" by (cases "before_irq hw st")
  have "stays S st (snd (before_irq hw st))"
    using time [OF d] by (auto simp: before_irq_def Let_def split: prod.splits
        intro!: stays_measure [OF an] stays_dev)
  then have s1: "stays S st st1" by (simp add: b)
  then have "rp_dev st1 \<in> S" by (simp add: stays_def)
  then obtain r d2 where p: "gr_wait_job_irq hw fuel 0 (rp_dev st1) = Inr (r, d2)" and d2: "d2 \<in> S"
    using an by (auto simp: answers_def gr_wait_job_irq_def)
  let ?st2 = "st1\<lparr> rp_dev := d2 \<rparr>"
  have "stays S ?st2 (job_ended hw ts ?st2)"
    using time [OF d2] by (auto simp: job_ended_def Let_def split: prod.splits
        intro!: stays_measure [OF an]) (simp_all add: stays_def same_setup_def)
  then have "stays S ?st2 (after_irq hw ts ?st2)"
    by (auto simp: after_irq_def Let_def intro!: stays_measure [OF an])
  then have "stays S st (after_irq hw ts ?st2)" using s1 by (simp add: stays_def same_setup_def)
  then show ?thesis using b p by (simp add: replay_submitted_def)
qed

lemma gr_copy_to_gpu_returns:
  assumes "gr_io_ok rctx pm a (length buf) gm"
  shows "\<exists>pm'. gr_copy_to_gpu rctx pm a buf = Inr pm' \<and> mappable pm' = mappable pm"
  using gr_gpu_mem_io_refines [OF assms, of False] by (auto simp: gr_copy_to_gpu_def io_refines_def)

lemma tune_write_returns:
  assumes an: "answers hw fuel S" and d: "rp_dev st \<in> S" and rec: "recording_ok hw S st (io # ios)"
    and io: "io_is_read io \<noteq> CHR ''R''"
  shows "\<exists>v st'. tune_write hw (io_offset io) (io_value io) st = Inr (v, st') \<and> rp_dev st' \<in> S \<and>
    same_setup st st' \<and> recording_ok hw S st' ios"
proof -
  have cfg: "\<not> test_checkpoint (config (rp_ctx st))" using rec by (simp add: recording_ok_def)
  have neq: "JOB_SLOT_REG GR_JS JS_HEAD_NEXT_HI \<noteq> JOB_SLOT_REG GR_JS JS_HEAD_NEXT_LO" by (simp add: reg_defs)
  consider "io_offset io = JOB_SLOT_REG GR_JS JS_HEAD_NEXT_LO" | "io_offset io = JOB_SLOT_REG GR_JS JS_HEAD_NEXT_HI"
    | "io_offset io \<noteq> JOB_SLOT_REG GR_JS JS_HEAD_NEXT_LO" "io_offset io \<noteq> JOB_SLOT_REG GR_JS JS_HEAD_NEXT_HI" by blast
  then show ?thesis
  proof cases
    case 1
    then show ?thesis using d rec io
      by (auto simp: tune_write_def gr_js_tune_def recording_ok_def same_setup_def)
  next
    case 2
    let ?a = "push_bit 32 (ucast (io_value io)) OR ucast (jc_lo st) :: u64"
    from rec io 2 neq d obtain gm where "gr_io_ok (rp_ctx st) (hw_mem hw (rp_dev st)) ?a (length (le_bytes 8 (0 :: u64))) gm"
      by (auto simp: recording_ok_def)
    from gr_copy_to_gpu_returns [OF this] obtain pm where
      c: "gr_copy_to_gpu (rp_ctx st) (hw_mem hw (rp_dev st)) ?a (le_bytes 8 (0 :: u64)) = Inr pm"
      and m: "mappable pm = mappable (hw_mem hw (rp_dev st))" by blast
    have "hw_put_mem hw pm (rp_dev st) \<in> S" using an d m by (auto simp: answers_def)
    then show ?thesis using 2 neq c rec io
      by (auto simp: tune_write_def gr_js_tune_def recording_ok_def same_setup_def Let_def)
  next
    case 3
    then show ?thesis using d rec io cfg
      by (auto simp: tune_write_def recording_ok_def same_setup_def)
  qed
qed

lemma recording_ok_setup:
  "recording_ok hw S st ios \<Longrightarrow> same_setup st st' \<Longrightarrow> jc_lo st' = jc_lo st \<Longrightarrow> recording_ok hw S st' ios"
  by (simp add: recording_ok_def same_setup_def gr_io_ok_def gr_find_region_enclosing_address_def)

lemma replay_io_returns:
  assumes an: "answers hw fuel S" and d: "rp_dev st \<in> S" and rec: "recording_ok hw S st (io # ios)"
  shows "\<exists>st'. replay_io hw fuel io st = Inr st' \<and> rp_dev st' \<in> S \<and> recording_ok hw S st' ios"
proof -
  have off: "unat (io_offset io) + 4 \<le> GPU_REG_PA_SIZE" and val: "\<not> is_validate (config (rp_ctx st))"
    using rec by (auto simp: recording_ok_def)
  show ?thesis
  proof (cases "io_is_read io = CHR ''R''")
    case True
    obtain v d1 where r: "hw_read hw (io_offset io) (rp_dev st) = (v, d1)" by (metis surj_pair)
    moreover have "snd (hw_read hw (io_offset io) (rp_dev st)) \<in> S" using an d by (auto simp: answers_def)
    ultimately have d1: "d1 \<in> S" by simp
    then obtain d2 where w: "reg_read_wait hw (MMU_AS_REG GR_AS_NR AS_STATUS) AS_STATUS_AS_INACTIVE d1 = Inr d2" "d2 \<in> S"
      using an by (auto simp: answers_def)
    have "\<exists>st'. replay_read hw (io_offset io) (io_value io) st = Inr st' \<and> stays S st st'"
      using off r d1 w by (auto simp: replay_read_def stays_def same_setup_def)
    then obtain st' where s: "replay_read hw (io_offset io) (io_value io) st = Inr st'" "stays S st st'" by blast
    have "recording_ok hw S st ios" using rec True by (simp add: recording_ok_def)
    then show ?thesis using s True val
      by (auto simp: replay_io_def replay_validate_def stays_def same_setup_def intro: recording_ok_setup)
  next
    case False
    from tune_write_returns [OF an d rec False] obtain v st1 where
      t: "tune_write hw (io_offset io) (io_value io) st = Inr (v, st1)" "rp_dev st1 \<in> S"
        "same_setup st st1" "recording_ok hw S st1 ios" by blast
    define st2 where "st2 = st1\<lparr> rp_dev := hw_write hw (io_offset io) v (rp_dev st1) \<rparr>"
    have d2: "rp_dev st2 \<in> S" using an t(2) by (auto simp: st2_def answers_def)
    have "\<exists>st'. replay_written hw fuel (io_offset io) v st2 = Inr st' \<and> stays S st2 st'"
      using replay_submitted_returns [OF an d2] d2 an
      by (auto simp: replay_written_def GPU_CONTROL_REG_def stays_def same_setup_def answers_def)
    then obtain st' where s: "replay_written hw fuel (io_offset io) v st2 = Inr st'" "stays S st2 st'" by blast
    have "recording_ok hw S st2 ios"
      by (rule recording_ok_setup [OF t(4)]) (simp_all add: st2_def same_setup_def)
    then have "recording_ok hw S st' ios" using s(2) by (auto simp: stays_def intro: recording_ok_setup)
    moreover have "\<not> is_validate (config (rp_ctx st'))" using calculation by (simp add: recording_ok_def)
    ultimately show ?thesis using False t(1) off s
      by (simp add: replay_io_def replay_write_def replay_validate_def stays_def flip: st2_def)
  qed
qed

lemma replay_loop_returns:
  assumes "answers hw fuel S" and "rp_dev st \<in> S" and "recording_ok hw S st ios"
  shows "\<exists>st'. replay_loop hw fuel ios st = Inr st'"
  using assms(2,3)
proof (induction ios arbitrary: st)
  case Nil
  then show ?case by simp
next
  case (Cons io ios)
  from replay_io_returns [OF assms(1) Cons.prems] obtain st1 where
    "replay_io hw fuel io st = Inr st1" "rp_dev st1 \<in> S" "recording_ok hw S st1 ios" by blast
  then show ?case using Cons.IH [of st1] by simp
qed

section \<open>Properties\<close>

text \<open>A GPU whose registers read as their offset, except the address space status, which is inactive.\<close>

definition demo_hw :: "pmem machine" where
  "demo_hw = \<lparr> hw_read = (\<lambda>off d. (if off = MMU_AS_REG GR_AS_NR AS_STATUS then AS_STATUS_AS_INACTIVE else off, d)),
     hw_write = (\<lambda>off v d. d), hw_poll = (\<lambda>irq t d. ((1, True), d)), hw_time = (\<lambda>d. (0, d)),
     hw_mem = (\<lambda>d. d), hw_put_mem = (\<lambda>pm d. pm) \<rparr>"

definition demo_ios :: "reg_io list" where
  "demo_ios =
     [\<lparr> io_ts = 0, io_is_read = CHR ''R'', io_offset = 0x38, io_value = 5 \<rparr>,
      \<lparr> io_ts = 1, io_is_read = CHR ''W'', io_offset = 0x2400, io_value = 0x1234000 \<rparr>,
      \<lparr> io_ts = 2, io_is_read = CHR ''W'', io_offset = 0x18C0, io_value = 0x10040 \<rparr>,
      \<lparr> io_ts = 3, io_is_read = CHR ''W'', io_offset = 0x18C4, io_value = 0 \<rparr>,
      \<lparr> io_ts = 4, io_is_read = CHR ''W'', io_offset = 0x18F0, io_value = 5 \<rparr>,
      \<lparr> io_ts = 5, io_is_read = CHR ''W'', io_offset = 0x18E0, io_value = 1 \<rparr>]"

definition demo_replay :: "'d \<Rightarrow> 'd replay" where
  "demo_replay d = \<lparr> rp_dev = d, rp_ctx = demo_rctx, latest_flush_id = 0, jc_lo = 0, ckpt_count = 0,
     regmap = None, reg_fp = fopen [], job_submit_cnt = 1, sum_comp_time = 0 \<rparr>"

definition demo_states :: "(pmem \<times> event list) set" where
  "demo_states = {(d, es). mappable d = mappable demo_pmem}"

lemma reg_wait_loop_now: "0 < n \<Longrightarrow> reg_wait_loop hw off v n v d = Inr (n - 1, d)"
  by (cases n) auto

lemma demo_answers: "answers (traced demo_hw) 1 demo_states"
proof -
  have "\<exists>d'. reg_read_wait (traced demo_hw) (MMU_AS_REG GR_AS_NR AS_STATUS) AS_STATUS_AS_INACTIVE d = Inr d' \<and> d' \<in> demo_states"
    if "d \<in> demo_states" for d
    using that by (auto simp: reg_read_wait_def reg_wait_loop_now gr_reg_read_def reg_defs traced_def demo_hw_def demo_states_def
        split: prod.splits)
  then show ?thesis
    by (auto simp: answers_def traced_def demo_hw_def demo_states_def)
qed

lemma demo_head_ok:
  assumes "mappable d = mappable demo_pmem"
  shows "gr_io_ok demo_rctx d 0x10040 8 demo_region"
  using assms by (simp add: gr_io_ok_def demo_rctx_def demo_pmem_def demo_region_def
      gr_find_region_enclosing_address_def pages_ok_def page_aligned_def)

lemma demo_recording_ok: "recording_ok (traced demo_hw) demo_states (demo_replay d) demo_ios"
proof -
  have "job_heads 0 demo_ios = [0x10040]"
    by (simp add: demo_ios_def reg_defs)
  moreover have "\<forall>io \<in> set demo_ios. unat (io_offset io) + 4 \<le> GPU_REG_PA_SIZE"
    by (simp add: demo_ios_def)
  ultimately show ?thesis
    using demo_head_ok by (auto simp: recording_ok_def demo_replay_def demo_states_def traced_def demo_hw_def demo_rctx_def)
qed

lemma demo_returns: "\<exists>st'. gr_replay_run (traced demo_hw) 1 demo_ios (demo_replay (demo_pmem, [])) = Inr st'"
proof -
  let ?st = "(demo_replay (demo_pmem, []))\<lparr> rp_dev := (demo_pmem, []), job_submit_cnt := 1, sum_comp_time := 0 \<rparr>"
  have "recording_ok (traced demo_hw) demo_states ?st demo_ios"
    by (rule recording_ok_setup [OF demo_recording_ok]) (simp_all add: same_setup_def demo_replay_def)
  then have "\<exists>st'. replay_loop (traced demo_hw) 1 demo_ios ?st = Inr st'"
    by (intro replay_loop_returns [OF demo_answers]) (simp add: demo_states_def)
  then show ?thesis by (auto simp: gr_replay_run_def traced_def demo_hw_def demo_replay_def)
qed

text \<open>
  C1. A replay does what was recorded, in order: without checkpoints and validation, the events
  at the GPU are those of the recorded accesses. Every recorded write is done once, with its
  recorded value, except that the translation table base is that of the new page table and the flush
  identifier is the one read last; every recorded read is done, a soft reset is followed by the
  write that enables its interrupt; and each job submission is followed by its interrupt before
  anything else happens at the GPU.
\<close>

theorem gr_replay_run_follows_recording:
  assumes "gr_replay_run (traced hw) fuel ios st = Inr st'"
    and "\<not> test_checkpoint (config (rp_ctx st))" and "\<not> is_validate (config (rp_ctx st))"
  shows "\<exists>es. snd (rp_dev st') = snd (rp_dev st) @ es \<and>
    replays (new_transtab (rp_ctx st)) (latest_flush_id st) ios es (latest_flush_id st')"
proof -
  obtain ts d where t: "hw_time (traced hw) (rp_dev st) = (ts, d)" by (cases "hw_time (traced hw) (rp_dev st)")
  define st0 where "st0 = st\<lparr> rp_dev := d, job_submit_cnt := 1, sum_comp_time := 0 \<rparr>"
  from assms(1) obtain st1 where l: "replay_loop (traced hw) fuel ios st0 = Inr st1"
    and s: "rp_dev st' = rp_dev st1" "latest_flush_id st' = latest_flush_id st1"
    by (auto simp: gr_replay_run_def t bindR_eq_Inr simp flip: st0_def)
  have "snd d = snd (rp_dev st)" using time_traced [of hw "rp_dev st"] t by simp
  then show ?thesis using replay_loop_events [OF l] assms(2,3) s by (auto simp: st0_def emits_def)
qed

theorem gr_replay_run_follows_recording_witness:
  "\<exists>es fl. replays (new_transtab demo_rctx) 0 demo_ios es fl"
proof -
  from demo_returns obtain st' where
    "gr_replay_run (traced demo_hw) 1 demo_ios (demo_replay (demo_pmem, [])) = Inr st'" by blast
  from gr_replay_run_follows_recording [OF this] show ?thesis
    by (auto simp: demo_replay_def demo_rctx_def)
qed



text \<open>
  Without a job interrupt the replay never returns: when no call of \<open>poll\<close> reports one, the wait
  after a submission uses up any fuel, although the code passes a timeout; the loop of
  \<open>gr_manager_poll\<close> calls \<open>poll\<close> again after every timeout.
\<close>

theorem replay_waits_forever:
  assumes "\<And>d t. quiet_poll hw IRQ_TYPE_JOB t d"
  shows "replay_submitted hw fuel st = Inl No_Fuel"
proof -
  have "gr_manager_poll hw fuel IRQ_TYPE_JOB t d = Inl No_Fuel" for t d
    using gr_manager_poll_after [of fuel hw IRQ_TYPE_JOB t d 0] assms by simp
  then show ?thesis by (auto simp: replay_submitted_def gr_wait_job_irq_def split: prod.splits)
qed

theorem replay_waits_forever_witness:
  "replay_submitted (demo_hw\<lparr> hw_poll := \<lambda>irq t d. ((0, False), d) \<rparr>) 1000 (demo_replay demo_pmem) = Inl No_Fuel"
  by (rule replay_waits_forever) (simp add: quiet_poll_def)

text \<open>
  After a recorded read of the address space status the next flush identifier is that
  status: the case for the status falls through to the one for the flush identifier, so the
  replayed write of the flush identifier holds the value of a different register.
\<close>

theorem status_becomes_flush_id:
  assumes "replay_loop (traced hw) fuel [io1, io2] st = Inr st'"
    and "\<not> test_checkpoint (config (rp_ctx st))" and "\<not> is_validate (config (rp_ctx st))"
    and "io_is_read io1 = CHR ''R''" and "io_offset io1 = MMU_AS_REG GR_AS_NR AS_STATUS"
    and "io_value io1 \<noteq> AS_STATUS_AS_ACTIVE"
    and "io_is_read io2 = CHR ''W''" and "io_offset io2 = JOB_SLOT_REG GR_JS JS_FLUSH_ID_NEXT"
  shows "\<exists>status. snd (rp_dev st') = snd (rp_dev st) @
    [Rd (MMU_AS_REG GR_AS_NR AS_STATUS) status, Wr (JOB_SLOT_REG GR_JS JS_FLUSH_ID_NEXT) status]"
proof -
  from replay_loop_events [OF assms(1-3)] obtain es f where
    r: "replays (new_transtab (rp_ctx st)) (latest_flush_id st) [io1, io2] es f" and e: "snd (rp_dev st') = snd (rp_dev st) @ es"
    by (auto simp: emits_def)
  from r obtain es1 f1 es2 where
    s1: "io_events (new_transtab (rp_ctx st)) (latest_flush_id st) io1 es1 f1"
    and s2: "io_events (new_transtab (rp_ctx st)) f1 io2 es2 f" and es: "es = es1 @ es2"
    by (auto elim!: replays_ConsE replays_NilE)
  have neq: "MMU_AS_REG GR_AS_NR AS_STATUS \<noteq> GPU_CONTROL_REG LATEST_FLUSH" by (simp add: reg_defs)
  have "es1 = [Rd (MMU_AS_REG GR_AS_NR AS_STATUS) f1]"
    using s1 assms(4-6) neq by (cases rule: io_events.cases) auto
  moreover have "es2 = [Wr (JOB_SLOT_REG GR_JS JS_FLUSH_ID_NEXT) f1]"
    using s2 assms(7,8) by (cases rule: io_events.cases) (auto simp: tuned_def reg_defs)
  ultimately show ?thesis using e es by auto
qed

theorem status_becomes_flush_id_witness:
  "\<exists>status st'. replay_loop (traced demo_hw) 1
     [\<lparr> io_ts = 0, io_is_read = CHR ''R'', io_offset = 0x2428, io_value = 0 \<rparr>,
      \<lparr> io_ts = 1, io_is_read = CHR ''W'', io_offset = 0x18F0, io_value = 5 \<rparr>] (demo_replay (demo_pmem, [])) = Inr st' \<and>
     snd (rp_dev st') = [Rd 0x2428 status, Wr 0x18F0 status]"
proof -
  let ?ios = "[\<lparr> io_ts = 0, io_is_read = CHR ''R'', io_offset = 0x2428, io_value = 0 \<rparr>,
      \<lparr> io_ts = 1, io_is_read = CHR ''W'', io_offset = 0x18F0, io_value = 5 \<rparr>]"
  have "recording_ok (traced demo_hw) demo_states (demo_replay (demo_pmem, [])) ?ios"
    by (simp add: recording_ok_def demo_replay_def demo_rctx_def reg_defs)
  then have "\<exists>st'. replay_loop (traced demo_hw) 1 ?ios (demo_replay (demo_pmem, [])) = Inr st'"
    by (intro replay_loop_returns [OF demo_answers]) (simp add: demo_replay_def demo_states_def)
  then obtain st' where r: "replay_loop (traced demo_hw) 1 ?ios (demo_replay (demo_pmem, [])) = Inr st'" by blast
  from status_becomes_flush_id [OF r] have
    "\<exists>status. snd (rp_dev st') = [Rd 0x2428 status, Wr 0x18F0 status]"
    by (simp add: demo_replay_def demo_rctx_def reg_defs)
  then show ?thesis using r by blast
qed

text \<open>
  Before a job chain is submitted its status word is cleared: after the two halves of the
  address have been written, the eight bytes at that address are zero and no other byte of the
  region and no other page has changed.
\<close>

theorem gr_js_tune_clears_status:
  assumes "gr_io_ok (rp_ctx st) (hw_mem hw (rp_dev st)) addr 8 gm"
    and "addr = push_bit 32 (ucast hi) OR ucast lo" and "page_offset_of addr + 8 \<le> PAGE_SIZE"
  shows "\<exists>pm. bindR (gr_js_tune hw (JOB_SLOT_REG GR_JS JS_HEAD_NEXT_LO) lo st)
        (gr_js_tune hw (JOB_SLOT_REG GR_JS JS_HEAD_NEXT_HI) hi) =
      Inr (st\<lparr> jc_lo := lo, rp_dev := hw_put_mem hw pm (rp_dev st) \<rparr>) \<and>
    region_bytes (gm_pages gm) pm =
      frame_put (region_bytes (gm_pages gm) (hw_mem hw (rp_dev st))) (region_pos gm addr) (replicate 8 0) \<and>
    (\<forall>q. q \<notin> set (gm_pages gm) \<longrightarrow> frames pm q = frames (hw_mem hw (rp_dev st)) q)"
proof -
  have z: "le_bytes 8 (0 :: u64) = replicate 8 0" by (simp add: le_bytes_def numeral_eq_Suc)
  have neq: "JOB_SLOT_REG GR_JS JS_HEAD_NEXT_HI \<noteq> JOB_SLOT_REG GR_JS JS_HEAD_NEXT_LO" by (simp add: reg_defs)
  have "gr_xfer_len (page_offset_of addr) 8 = 8 \<or> gr_page_count (page_offset_of addr) 8 = 2 \<and> PAGE_SIZE - page_offset_of addr \<ge> 8"
    using assms(3) by (auto simp: gr_xfer_len_def)
  then have t: "take (gr_xfer_len (page_offset_of addr) 8) (replicate 8 (0 :: u8)) = replicate 8 0"
    using assms(3) by (auto simp: gr_xfer_len_def)
  from gr_gpu_mem_io_refines [of "rp_ctx st" "hw_mem hw (rp_dev st)" addr "replicate 8 0" gm False] assms(1) t
  obtain pm where c: "gr_copy_to_gpu (rp_ctx st) (hw_mem hw (rp_dev st)) addr (replicate 8 0) = Inr pm"
    and r: "region_bytes (gm_pages gm) pm =
      frame_put (region_bytes (gm_pages gm) (hw_mem hw (rp_dev st))) (region_pos gm addr) (replicate 8 0)"
      "\<forall>q. q \<notin> set (gm_pages gm) \<longrightarrow> frames pm q = frames (hw_mem hw (rp_dev st)) q"
    by (auto simp: gr_copy_to_gpu_def io_refines_def lin_io_def)
  show ?thesis using c r neq
    by (intro exI [of _ pm]) (simp add: gr_js_tune_def z assms(2))
qed

theorem gr_js_tune_clears_status_witness:
  "\<exists>pm. bindR (gr_js_tune demo_hw (JOB_SLOT_REG GR_JS JS_HEAD_NEXT_LO) 0x10040 (demo_replay demo_pmem))
        (gr_js_tune demo_hw (JOB_SLOT_REG GR_JS JS_HEAD_NEXT_HI) 0) =
      Inr ((demo_replay demo_pmem)\<lparr> jc_lo := 0x10040, rp_dev := pm \<rparr>)"
proof -
  have "gr_io_ok (rp_ctx (demo_replay demo_pmem)) (hw_mem demo_hw (rp_dev (demo_replay demo_pmem))) 0x10040 8 demo_region"
    using demo_head_ok [of demo_pmem] by (simp add: demo_replay_def demo_hw_def)
  from gr_js_tune_clears_status [OF this, where hi = 0 and lo = "0x10040"] show ?thesis
    by (auto simp: demo_hw_def demo_replay_def page_offset_of_def)
qed

end
