(* ===== verification/GR_Clean.thy ===== *)
theory GR_Clean
  imports GR_MemContents GR_MemIO
begin

text \<open>
  Preparing the memory for another run (\<open>replayer/gr_utils.c\<close>): the pages of regions that were not
  recorded are zeroed (\<open>gr_clean_invalid_region\<close>), the marks of executed atoms are removed
  (\<open>gr_clean_used_atom\<close>), and the page table entries are written again (\<open>gr_restore_pte\<close>).
\<close>

unbundle bit_operations_syntax

section \<open>Model\<close>

text \<open>The page of a region that is not valid, from number \<open>j\<close> on.\<close>

fun clean_pages :: "replay_context \<Rightarrow> gpu_mem_region \<Rightarrow> nat list \<Rightarrow> pmem \<Rightarrow> pmem res" where
  "clean_pages rctx gm [] pm = Inr pm"
| "clean_pages rctx gm (j # js) pm =
     bindR (gr_copy_to_gpu rctx pm (gm_start gm + of_nat (j * PAGE_SIZE)) (replicate PAGE_SIZE 0))
       (clean_pages rctx gm js)"

fun clean_invalid :: "replay_context \<Rightarrow> gpu_mem_region list \<Rightarrow> pmem \<Rightarrow> pmem res" where
  "clean_invalid rctx [] pm = Inr pm"
| "clean_invalid rctx (gm # gms) pm =
     bindR (if gm_is_valid gm then Inr pm else clean_pages rctx gm [0..<gm_nr_pages gm] pm) (clean_invalid rctx gms)"

definition gr_clean_invalid_region :: "replay_context \<Rightarrow> pmem \<Rightarrow> pmem res" where
  "gr_clean_invalid_region rctx pm = clean_invalid rctx (gm_region rctx) pm"

text \<open>
  The marks \<open>mk\<close> of executed atoms in the words of a page. The test of the last word also reads the
  word behind the buffer when the last word is a mark.
\<close>

fun clean_words :: "u64 \<Rightarrow> u64 list \<Rightarrow> (u64 list \<times> bool) res" where
  "clean_words mk [] = Inr ([], False)"
| "clean_words mk [w] = (if w = mk then Inl Bad_Access else Inr ([w], False))"
| "clean_words mk (w # v # ws) =
     bindR (clean_words mk (v # ws)) (\<lambda>(rest, is_used).
       Inr (if w = mk \<and> v = 0 then (0 # rest, True) else (w # rest, is_used)))"

definition buf_words :: "u8 list \<Rightarrow> u64 list" where
  "buf_words bs = map (\<lambda>i. le_word (take 8 (drop (8 * i) bs))) [0..<length bs div 8]"

definition is_atom_region :: "nat \<Rightarrow> gpu_mem_region \<Rightarrow> bool" where
  "is_atom_region i gm \<longleftrightarrow> i > 6 \<and> gm_nr_pages gm = 1 \<and> (gm_flags gm = 0x606e \<or> gm_flags gm = 0x604e)"

fun clean_atoms :: "nat \<Rightarrow> gpu_mem_region list \<Rightarrow> pmem \<Rightarrow> pmem res" where
  "clean_atoms i [] pm = Inr pm"
| "clean_atoms i (gm # gms) pm =
     bindR (if is_atom_region i gm
            then case gm_pages gm of
                   [] \<Rightarrow> Inl Bad_Access
                 | p # _ \<Rightarrow>
                     bindR (gr_read_phys pm p PAGE_SIZE) (\<lambda>buf.
                     bindR (clean_words 0x010258 (buf_words buf)) (\<lambda>(ws, is_used).
                       if is_used then gr_write_phys pm p (words_bytes ws) else Inr pm))
            else Inr pm)
       (clean_atoms (Suc i) gms)"

definition gr_clean_used_atom :: "replay_context \<Rightarrow> pmem \<Rightarrow> pmem res" where
  "gr_clean_used_atom rctx pm = clean_atoms 0 (gm_region rctx) pm"

text \<open>The entries of one region, \<open>n\<close> pages of which are left, and of all regions.\<close>

fun restore_pages :: "user_pgtable \<Rightarrow> u64 \<Rightarrow> u64 \<Rightarrow> nat \<Rightarrow> u64 list \<Rightarrow> u64 \<Rightarrow> pmem \<Rightarrow> pmem res" where
  "restore_pages up flags gm_e 0 pages gaddr pm = Inr pm"
| "restore_pages up flags gm_e (Suc n) pages gaddr pm =
     (if gaddr < gm_e
      then bindR (user_walk (PFN_DOWN gaddr) MIDGARD_MMU_TOPLEVEL MIDGARD_MMU_BOTTOMLEVEL up) (\<lambda>target_pgt.
           case pages of
             [] \<Rightarrow> Inl Bad_Access
           | target_page # pages' \<Rightarrow>
               restore_pages up flags gm_e n pages' (gaddr + 4096)
                 (gr_write64 pm (phys_page target_pgt) (pte_index (PFN_DOWN gaddr) MIDGARD_MMU_BOTTOMLEVEL)
                    (gr_entry_get_ate target_page flags MIDGARD_MMU_BOTTOMLEVEL)))
      else Inr pm)"

fun restore_regions :: "user_pgtable \<Rightarrow> gpu_mem_region list \<Rightarrow> pmem \<Rightarrow> pmem res" where
  "restore_regions up [] pm = Inr pm"
| "restore_regions up (gm # gms) pm =
     bindR (restore_pages up (gm_flags gm) (gm_end gm) (gm_nr_pages gm) (gm_pages gm) (gm_start gm) pm)
       (restore_regions up gms)"

definition gr_restore_pte :: "replay_context \<Rightarrow> pmem \<Rightarrow> pmem res" where
  "gr_restore_pte rctx pm = restore_regions (user_pgt rctx) (gm_region rctx) pm"

section \<open>Regions that were not recorded\<close>

text \<open>The page that the replayer's lookup finds for an address.\<close>

definition backing :: "replay_context \<Rightarrow> u64 \<Rightarrow> u64" where
  "backing rctx a =
     (case gr_find_region_enclosing_address rctx a of
        None \<Rightarrow> 0
      | Some ro \<Rightarrow> gm_pages (gm_region rctx ! ro) ! unat (drop_bit PAGE_SHIFT (a - gm_start (gm_region rctx ! ro))))"

definition backed :: "replay_context \<Rightarrow> pmem \<Rightarrow> u64 \<Rightarrow> bool" where
  "backed rctx pm a \<longleftrightarrow> (\<exists>ro. gr_find_region_enclosing_address rctx a = Some ro \<and>
     unat (drop_bit PAGE_SHIFT (a - gm_start (gm_region rctx ! ro))) < length (gm_pages (gm_region rctx ! ro)) \<and>
     \<not> gm_end (gm_region rctx ! ro) < a + 4096) \<and>
     page_aligned a \<and> valid_pa (backing rctx a) \<and> mappable pm (backing rctx a)"

lemma copy_page:
  assumes "backed rctx pm a" and "length buf = PAGE_SIZE"
  shows "gr_copy_to_gpu rctx pm a buf = Inr (put_page pm (backing rctx a) buf)"
proof -
  from assms(1) obtain ro where ro: "gr_find_region_enclosing_address rctx a = Some ro"
    and p: "unat (drop_bit PAGE_SHIFT (a - gm_start (gm_region rctx ! ro))) < length (gm_pages (gm_region rctx ! ro))"
    and e: "\<not> gm_end (gm_region rctx ! ro) < a + 4096" and al: "page_aligned a"
    and v: "valid_pa (backing rctx a)" "mappable pm (backing rctx a)" by (auto simp: backed_def)
  have b: "gm_pages (gm_region rctx ! ro) ! unat (drop_bit PAGE_SHIFT (a - gm_start (gm_region rctx ! ro))) = backing rctx a"
    using ro by (simp add: backing_def)
  have cnt: "gr_page_count 0 PAGE_SIZE = 1" by (simp add: gr_page_count_eq)
  have w: "gr_write_phys pm (backing rctx a) buf = Inr (put_page pm (backing rctx a) buf)"
    by (rule put_page_write [OF v assms(2)])
  have "gr_gpu_mem_io rctx pm a buf False = Inr (put_page pm (backing rctx a) buf, buf)"
    using ro p e al cnt w assms(2)
    by (simp add: gr_gpu_mem_io_def Let_def b io_first_middle_last_def page_io_def)
  then show ?thesis by (simp add: gr_copy_to_gpu_def)
qed

definition zeroed :: "pmem \<Rightarrow> u64 \<Rightarrow> bool" where
  "zeroed pm p \<longleftrightarrow> frame_get (frames pm p) 0 PAGE_SIZE = replicate PAGE_SIZE 0"

lemma zeroed_put: "zeroed pm q \<or> q = p \<Longrightarrow> zeroed (put_page pm p (replicate PAGE_SIZE 0)) q"
  by (auto simp: zeroed_def put_page_def frame_get_put_same)

definition page_addr :: "gpu_mem_region \<Rightarrow> nat \<Rightarrow> u64" where
  "page_addr gm j = gm_start gm + of_nat (j * PAGE_SIZE)"

text \<open>What cleaning a list of addresses does.\<close>

definition cleans :: "replay_context \<Rightarrow> pmem \<Rightarrow> u64 set \<Rightarrow> pmem \<Rightarrow> bool" where
  "cleans rctx pm A pm' \<longleftrightarrow> (\<forall>a \<in> A. zeroed pm' (backing rctx a)) \<and> mappable pm' = mappable pm \<and>
     (\<forall>q. zeroed pm q \<longrightarrow> zeroed pm' q) \<and> (\<forall>q. q \<notin> backing rctx ` A \<longrightarrow> frames pm' q = frames pm q)"

lemma cleans_refl: "cleans rctx pm {} pm"
  by (simp add: cleans_def)

lemma cleans_trans: "cleans rctx pm A pm1 \<Longrightarrow> cleans rctx pm1 B pm2 \<Longrightarrow> cleans rctx pm (A \<union> B) pm2"
  unfolding cleans_def by (auto simp: image_Un)

lemma cleans_one: "cleans rctx pm {a} (put_page pm (backing rctx a) (replicate PAGE_SIZE 0))"
  using zeroed_put by (auto simp: cleans_def put_page_def)

lemma backed_mappable: "mappable pm' = mappable pm \<Longrightarrow> backed rctx pm' a = backed rctx pm a"
  by (simp add: backed_def)

lemma clean_pages_cleans:
  assumes "\<forall>j \<in> set js. backed rctx pm (page_addr gm j)"
  shows "\<exists>pm'. clean_pages rctx gm js pm = Inr pm' \<and> cleans rctx pm (page_addr gm ` set js) pm'"
  using assms
proof (induction js arbitrary: pm)
  case Nil
  then show ?case by (simp add: cleans_refl)
next
  case (Cons j js)
  let ?pm1 = "put_page pm (backing rctx (page_addr gm j)) (replicate PAGE_SIZE 0)"
  have c: "gr_copy_to_gpu rctx pm (page_addr gm j) (replicate PAGE_SIZE 0) = Inr ?pm1"
    using Cons.prems by (intro copy_page) auto
  have "\<forall>i \<in> set js. backed rctx ?pm1 (page_addr gm i)"
    using Cons.prems by (simp add: backed_mappable [of ?pm1 pm])
  from Cons.IH [OF this] obtain pm' where p: "clean_pages rctx gm js ?pm1 = Inr pm'"
    "cleans rctx ?pm1 (page_addr gm ` set js) pm'" by blast
  have "cleans rctx pm (page_addr gm ` set (j # js)) pm'"
    using cleans_trans [OF cleans_one p(2)] by simp
  moreover have "clean_pages rctx gm (j # js) pm = Inr pm'"
    using c p(1) by (simp add: page_addr_def)
  ultimately show ?case by blast
qed

definition invalid_addrs :: "gpu_mem_region list \<Rightarrow> u64 set" where
  "invalid_addrs gms = (\<Union>gm \<in> {gm \<in> set gms. \<not> gm_is_valid gm}. page_addr gm ` {0..<gm_nr_pages gm})"

lemma invalid_addrs_Cons:
  "invalid_addrs (gm # gms) = (if gm_is_valid gm then {} else page_addr gm ` {0..<gm_nr_pages gm}) \<union> invalid_addrs gms"
  by (auto simp: invalid_addrs_def)

lemma clean_invalid_cleans:
  assumes "\<forall>a \<in> invalid_addrs gms. backed rctx pm a"
  shows "\<exists>pm'. clean_invalid rctx gms pm = Inr pm' \<and> cleans rctx pm (invalid_addrs gms) pm'"
  using assms
proof (induction gms arbitrary: pm)
  case Nil
  then show ?case by (simp add: cleans_refl invalid_addrs_def)
next
  case (Cons gm gms)
  let ?A = "if gm_is_valid gm then {} else page_addr gm ` {0..<gm_nr_pages gm}"
  have "\<exists>pm1. (if gm_is_valid gm then Inr pm else clean_pages rctx gm [0..<gm_nr_pages gm] pm) = Inr pm1 \<and> cleans rctx pm ?A pm1"
    using clean_pages_cleans [of "[0..<gm_nr_pages gm]" rctx pm gm] Cons.prems cleans_refl
    by (auto simp: invalid_addrs_Cons)
  then obtain pm1 where
    p: "(if gm_is_valid gm then Inr pm else clean_pages rctx gm [0..<gm_nr_pages gm] pm) = Inr pm1"
    and c: "cleans rctx pm ?A pm1" by blast
  have m: "mappable pm1 = mappable pm" using c by (simp add: cleans_def)
  have "\<forall>a \<in> invalid_addrs gms. backed rctx pm1 a"
    using Cons.prems by (simp add: backed_mappable [OF m] invalid_addrs_Cons)
  from Cons.IH [OF this] obtain pm' where "clean_invalid rctx gms pm1 = Inr pm'" "cleans rctx pm1 (invalid_addrs gms) pm'"
    by blast
  then show ?case using p cleans_trans [OF c] by (auto simp: invalid_addrs_Cons)
qed

section \<open>Marks of executed atoms\<close>

definition cleaned :: "u64 \<Rightarrow> u64 list \<Rightarrow> nat \<Rightarrow> u64" where
  "cleaned mk ws i = (if ws ! i = mk \<and> Suc i < length ws \<and> ws ! Suc i = 0 then 0 else ws ! i)"

lemma clean_words_ok:
  "ws \<noteq> [] \<Longrightarrow> last ws \<noteq> mk \<Longrightarrow>
   \<exists>ws' u. clean_words mk ws = Inr (ws', u) \<and> length ws' = length ws \<and>
     (\<forall>i < length ws. ws' ! i = cleaned mk ws i) \<and> (\<not> u \<longrightarrow> ws' = ws)"
proof (induction mk ws rule: clean_words.induct)
  case (1 mk)
  then show ?case by simp
next
  case (2 mk w)
  then show ?case by (auto simp: cleaned_def intro: exI [of _ False])
next
  case (3 mk w v ws)
  then obtain ws' u where ih: "clean_words mk (v # ws) = Inr (ws', u)" "length ws' = Suc (length ws)"
    "\<forall>i < Suc (length ws). ws' ! i = cleaned mk (v # ws) i" "\<not> u \<longrightarrow> ws' = v # ws" by auto
  have "(y # ws') ! i = cleaned mk (w # v # ws) i"
    if "i < Suc (Suc (length ws))" and y: "y = (if w = mk \<and> v = 0 then 0 else w)" for i y
  proof (cases i)
    case 0
    then show ?thesis using y by (simp add: cleaned_def)
  next
    case (Suc k)
    then have "ws' ! k = cleaned mk (v # ws) k" using ih(3) that(1) by simp
    then show ?thesis using Suc by (simp add: cleaned_def)
  qed
  then show ?case using ih by auto
qed

lemma buf_words_frame: "buf_words (frame_get f 0 PAGE_SIZE) = frame_words f"
proof (rule nth_equalityI)
  show "length (buf_words (frame_get f 0 PAGE_SIZE)) = length (frame_words f)" by (simp add: buf_words_def)
next
  fix i assume "i < length (buf_words (frame_get f 0 PAGE_SIZE))"
  then have i: "i < 512" by (simp add: buf_words_def)
  then have "take 8 (drop (8 * i) (frame_get f 0 PAGE_SIZE)) = frame_get f (8 * i) 8"
    by (intro nth_equalityI) auto
  then show "buf_words (frame_get f 0 PAGE_SIZE) ! i = frame_words f ! i"
    using i by (simp add: buf_words_def frame_get64_def)
qed

text \<open>The pages with atoms, and that their last word is no mark.\<close>

fun atom_pages :: "nat \<Rightarrow> gpu_mem_region list \<Rightarrow> u64 list" where
  "atom_pages i [] = []"
| "atom_pages i (gm # gms) = (if is_atom_region i gm then hd (gm_pages gm) # atom_pages (Suc i) gms else atom_pages (Suc i) gms)"

definition atom_page_ok :: "pmem \<Rightarrow> u64 \<Rightarrow> bool" where
  "atom_page_ok pm p \<longleftrightarrow> valid_pa p \<and> mappable pm p \<and> frame_get64 (frames pm p) 511 \<noteq> 0x010258"

definition atoms_cleaned :: "pmem \<Rightarrow> u64 set \<Rightarrow> pmem \<Rightarrow> bool" where
  "atoms_cleaned pm P pm' \<longleftrightarrow> mappable pm' = mappable pm \<and>
     (\<forall>p \<in> P. \<forall>i < 512. frame_get64 (frames pm' p) i = cleaned 0x010258 (frame_words (frames pm p)) i) \<and>
     (\<forall>q. q \<notin> P \<longrightarrow> frames pm' q = frames pm q)"

lemma clean_atom_page:
  assumes "atom_page_ok pm p"
  shows "\<exists>buf ws u pm'. gr_read_phys pm p PAGE_SIZE = Inr buf \<and> clean_words 0x010258 (buf_words buf) = Inr (ws, u) \<and>
    (if u then gr_write_phys pm p (words_bytes ws) else Inr pm) = Inr pm' \<and> atoms_cleaned pm {p} pm'"
proof -
  let ?f = "frames pm p"
  have v: "valid_pa p" "mappable pm p" using assms by (auto simp: atom_page_ok_def)
  have rd: "gr_read_phys pm p PAGE_SIZE = Inr (frame_get ?f 0 PAGE_SIZE)"
    using v by (simp add: gr_read_phys_def valid_pa_def and_mask_page gr_map_page_ok)
  have ne: "frame_words ?f \<noteq> []" using length_frame_words [of ?f] by (metis list.size(3) zero_neq_numeral)
  have "last (frame_words ?f) = frame_words ?f ! 511" using ne by (simp add: last_conv_nth)
  then have "last (frame_words ?f) \<noteq> 0x010258" using assms by (simp add: atom_page_ok_def)
  from clean_words_ok [OF ne this] obtain ws u where
    c: "clean_words 0x010258 (frame_words ?f) = Inr (ws, u)" and l: "length ws = 512"
    and w: "\<forall>i < 512. ws ! i = cleaned 0x010258 (frame_words ?f) i" and u: "\<not> u \<longrightarrow> ws = frame_words ?f" by auto
  have wr: "gr_write_phys pm p (words_bytes ws) = Inr (put_page pm p (words_bytes ws))"
    by (rule put_page_write [OF v]) (simp add: l)
  have "atoms_cleaned pm {p} (put_page pm p (words_bytes ws))"
    using w l by (simp add: atoms_cleaned_def put_page_def frame_get64_words)
  moreover have "atoms_cleaned pm {p} pm" if "\<not> u"
  proof -
    have "frame_get64 ?f i = cleaned 0x010258 (frame_words ?f) i" if i: "i < 512" for i
      using w u \<open>\<not> u\<close> i nth_frame_words [OF i, of ?f] by simp
    then show ?thesis by (simp add: atoms_cleaned_def)
  qed
  ultimately show ?thesis using rd c wr by (auto simp: buf_words_frame)
qed

lemma atoms_cleaned_trans:
  assumes "atoms_cleaned pm P pm1" "atoms_cleaned pm1 Q pm2" "P \<inter> Q = {}"
  shows "atoms_cleaned pm (P \<union> Q) pm2"
proof -
  have f: "frames pm1 q = frames pm q" if "q \<notin> P" for q using assms(1) that by (simp add: atoms_cleaned_def)
  have g: "frames pm2 q = frames pm1 q" if "q \<notin> Q" for q using assms(2) that by (simp add: atoms_cleaned_def)
  have "frame_get64 (frames pm2 p) i = cleaned 0x010258 (frame_words (frames pm p)) i" if "p \<in> P \<union> Q" "i < 512" for p i
  proof (cases "p \<in> P")
    case True
    then have "frames pm2 p = frames pm1 p" using assms(3) by (intro g) auto
    then show ?thesis using assms(1) True that(2) by (simp add: atoms_cleaned_def)
  next
    case False
    then have "frames pm1 p = frames pm p" by (rule f)
    moreover have "p \<in> Q" using False that(1) by simp
    ultimately show ?thesis using assms(2) that(2) by (simp add: atoms_cleaned_def)
  qed
  moreover have "frames pm2 q = frames pm q" if "q \<notin> P \<union> Q" for q
    using f [of q] g [of q] that by simp
  moreover have "mappable pm2 = mappable pm" using assms(1,2) by (simp add: atoms_cleaned_def)
  ultimately show ?thesis unfolding atoms_cleaned_def by blast
qed

lemma clean_atoms_ok:
  assumes "\<forall>p \<in> set (atom_pages i gms). atom_page_ok pm p" and "distinct (atom_pages i gms)"
    and "\<forall>gm \<in> set gms. gm_pages gm \<noteq> []"
  shows "\<exists>pm'. clean_atoms i gms pm = Inr pm' \<and> atoms_cleaned pm (set (atom_pages i gms)) pm'"
  using assms
proof (induction gms arbitrary: i pm)
  case Nil
  then show ?case by (simp add: atoms_cleaned_def)
next
  case (Cons gm gms)
  show ?case
  proof (cases "is_atom_region i gm")
    case False
    then show ?thesis using Cons.IH [of "Suc i" pm] Cons.prems by simp
  next
    case True
    obtain p ps where p: "gm_pages gm = p # ps" using Cons.prems(3) by (cases "gm_pages gm") auto
    have "atom_page_ok pm p" using Cons.prems(1) True p by simp
    from clean_atom_page [OF this] obtain buf ws u pm1 where
      r: "gr_read_phys pm p PAGE_SIZE = Inr buf" "clean_words 0x010258 (buf_words buf) = Inr (ws, u)"
        "(if u then gr_write_phys pm p (words_bytes ws) else Inr pm) = Inr pm1"
      and c1: "atoms_cleaned pm {p} pm1" by blast
    have np: "p \<notin> set (atom_pages (Suc i) gms)" using Cons.prems(2) True p by simp
    have "\<forall>q \<in> set (atom_pages (Suc i) gms). atom_page_ok pm1 q"
    proof
      fix q assume q: "q \<in> set (atom_pages (Suc i) gms)"
      then have "atom_page_ok pm q" using Cons.prems(1) True by simp
      moreover have "frames pm1 q = frames pm q" using c1 q np by (auto simp: atoms_cleaned_def)
      ultimately show "atom_page_ok pm1 q" using c1 by (simp add: atom_page_ok_def atoms_cleaned_def)
    qed
    from Cons.IH [OF this] Cons.prems(2,3) True obtain pm' where
      "clean_atoms (Suc i) gms pm1 = Inr pm'" and c2: "atoms_cleaned pm1 (set (atom_pages (Suc i) gms)) pm'" by auto
    then have "clean_atoms i (gm # gms) pm = Inr pm'" using True p r by simp
    moreover have "atoms_cleaned pm (set (atom_pages i (gm # gms))) pm'"
      using atoms_cleaned_trans [OF c1 c2] np True p by simp
    ultimately show ?thesis by blast
  qed
qed

section \<open>Page table entries\<close>

definition pte_region_ok :: "user_pgtable \<Rightarrow> gpu_mem_region \<Rightarrow> bool" where
  "pte_region_ok up gm \<longleftrightarrow> gm_nr_pages gm = length (gm_pages gm) \<and>
     walkable up (gm_start gm) (gm_nr_pages gm) \<and>
     unat (gm_start gm) + PAGE_SIZE * gm_nr_pages gm \<le> unat (gm_end gm) \<and>
     unat (gm_start gm) + PAGE_SIZE * gm_nr_pages gm \<le> 2 ^ 48 \<and>
     distinct (gm_pages gm) \<and> set (gm_pages gm) \<inter> upages 3 up = {}"

definition covers :: "gpu_mem_region \<Rightarrow> u64 \<Rightarrow> bool" where
  "covers gm w \<longleftrightarrow> (\<exists>j < gm_nr_pages gm. take_bit 36 w = take_bit 36 (vpn (gm_start gm) j))"

definition pte_at :: "gpu_mem_region \<Rightarrow> nat \<Rightarrow> u64" where
  "pte_at gm j = gr_entry_get_ate (gm_pages gm ! j) (gm_flags gm) MIDGARD_MMU_BOTTOMLEVEL"

lemma restore_pages_fill:
  assumes "walkable up va (length ps)"
    and "unat va + PAGE_SIZE * length ps \<le> unat gm_e" and "unat va + PAGE_SIZE * length ps \<le> 2 ^ 48"
  shows "restore_pages up flags gm_e (length ps) ps va pm = Inr (fill_pages up flags va (map (\<lambda>p. (p, None)) ps) pm)"
  using assms
proof (induction ps arbitrary: va pm)
  case Nil
  then show ?case by simp
next
  case (Cons p ps)
  from Cons.prems(1) obtain leaf where l: "user_walk (PFN_DOWN va) 0 3 up = Inr leaf"
    and w: "walkable up (va + 4096) (length ps)" by (auto simp: walkable_Suc)
  note below = region_below_end [OF Cons.prems(2)]
  have va1: "unat (va + 4096) = unat va + PAGE_SIZE" using below(2) Cons.prems(3) by simp
  have "restore_pages up flags gm_e (length ps) ps (va + 4096) pm' =
      Inr (fill_pages up flags (va + 4096) (map (\<lambda>p. (p, None)) ps) pm')" for pm'
    by (rule Cons.IH [OF w]) (use Cons.prems va1 in auto)
  then show ?case using below(1) l by (simp add: Let_def)
qed

lemma fill_none_frames:
  assumes "tree_ok up pm" and "q \<notin> upages 3 up"
  shows "frames (fill_pages up flags va (map (\<lambda>p. (p, None)) ps) pm) q = frames pm q"
  using assms(1)
proof (induction ps arbitrary: va pm)
  case Nil
  then show ?case by simp
next
  case (Cons p ps)
  show ?case
  proof (cases "user_walk (PFN_DOWN va) 0 3 up")
    case (Inl e)
    then show ?thesis using Cons by (simp add: Let_def)
  next
    case (Inr leaf)
    note t = tree_write_pte [OF Cons.prems Inr, where e = "gr_entry_get_ate p flags 3"]
    show ?thesis using Cons.IH [OF t(1)] t(4) [OF assms(2)] by (simp add: Inr Let_def)
  qed
qed

lemma restore_region:
  assumes "tree_ok up pm" and "pte_region_ok up gm"
  obtains pm' where "restore_pages up (gm_flags gm) (gm_end gm) (gm_nr_pages gm) (gm_pages gm) (gm_start gm) pm = Inr pm'"
    and "tree_ok up pm'" and "mappable pm' = mappable pm"
    and "\<And>q. q \<notin> upages 3 up \<Longrightarrow> frames pm' q = frames pm q"
    and "\<And>j. j < gm_nr_pages gm \<Longrightarrow> pte_of up pm' (vpn (gm_start gm) j) = Some (pte_at gm j)"
    and "\<And>w. \<not> covers gm w \<Longrightarrow> pte_of up pm' w = pte_of up pm w"
proof -
  let ?xs = "map (\<lambda>p. (p, None :: u8 list option)) (gm_pages gm)"
  define pm' where "pm' = fill_pages up (gm_flags gm) (gm_start gm) ?xs pm"
  have n: "gm_nr_pages gm = length (gm_pages gm)" using assms(2) by (simp add: pte_region_ok_def)
  have m: "map fst ?xs = gm_pages gm" by (simp add: comp_def)
  have w: "walkable up (gm_start gm) (length ?xs)" "unat (gm_start gm) + PAGE_SIZE * length ?xs \<le> 2 ^ 48"
    "distinct (map fst ?xs)" "set (map fst ?xs) \<inter> upages 3 up = {}"
    "\<forall>x \<in> set ?xs. \<forall>bs. snd x = Some bs \<longrightarrow> length bs = PAGE_SIZE"
    using assms(2) m by (auto simp: pte_region_ok_def)
  note fp = fill_pages_ok [OF assms(1) w, of "gm_flags gm", folded pm'_def]
  have "restore_pages up (gm_flags gm) (gm_end gm) (gm_nr_pages gm) (gm_pages gm) (gm_start gm) pm = Inr pm'"
    unfolding n pm'_def by (rule restore_pages_fill) (use assms(2) n in \<open>simp_all add: pte_region_ok_def\<close>)
  moreover have "pte_of up pm' (vpn (gm_start gm) j) = Some (pte_at gm j)" if "j < gm_nr_pages gm" for j
    using fp that by (simp add: n filled_def pte_at_def)
  moreover have "pte_of up pm' w = pte_of up pm w" if "\<not> covers gm w" for w
    using fp that by (auto simp: covers_def n)
  moreover have "frames pm' q = frames pm q" if "q \<notin> upages 3 up" for q
    unfolding pm'_def by (rule fill_none_frames [OF assms(1) that])
  ultimately show thesis using that fp by blast
qed

definition restores :: "user_pgtable \<Rightarrow> gpu_mem_region list \<Rightarrow> pmem \<Rightarrow> pmem \<Rightarrow> bool" where
  "restores up gms pm pm' \<longleftrightarrow> tree_ok up pm' \<and> mappable pm' = mappable pm \<and>
     (\<forall>q. q \<notin> upages 3 up \<longrightarrow> frames pm' q = frames pm q) \<and>
     (\<forall>i < length gms. \<forall>j < gm_nr_pages (gms ! i).
        (\<forall>k < length gms. i < k \<longrightarrow> \<not> covers (gms ! k) (vpn (gm_start (gms ! i)) j)) \<longrightarrow>
        pte_of up pm' (vpn (gm_start (gms ! i)) j) = Some (pte_at (gms ! i) j)) \<and>
     (\<forall>w. (\<forall>gm \<in> set gms. \<not> covers gm w) \<longrightarrow> pte_of up pm' w = pte_of up pm w)"

lemma restore_regions_ok:
  assumes "tree_ok up pm" and "\<forall>gm \<in> set gms. pte_region_ok up gm"
  shows "\<exists>pm'. restore_regions up gms pm = Inr pm' \<and> restores up gms pm pm'"
  using assms
proof (induction gms arbitrary: pm)
  case Nil
  then show ?case by (simp add: restores_def)
next
  case (Cons gm gms)
  have "pte_region_ok up gm" using Cons.prems(2) by simp
  from restore_region [OF Cons.prems(1) this] obtain pm1 where
    r: "restore_pages up (gm_flags gm) (gm_end gm) (gm_nr_pages gm) (gm_pages gm) (gm_start gm) pm = Inr pm1"
      "tree_ok up pm1" "mappable pm1 = mappable pm"
      "\<And>q. q \<notin> upages 3 up \<Longrightarrow> frames pm1 q = frames pm q"
      "\<And>j. j < gm_nr_pages gm \<Longrightarrow> pte_of up pm1 (vpn (gm_start gm) j) = Some (pte_at gm j)"
      "\<And>w. \<not> covers gm w \<Longrightarrow> pte_of up pm1 w = pte_of up pm w" by metis
  from Cons.IH [OF r(2)] Cons.prems(2) obtain pm' where
    p: "restore_regions up gms pm1 = Inr pm'" and s: "restores up gms pm1 pm'" by auto
  have "pte_of up pm' (vpn (gm_start ((gm # gms) ! i)) j) = Some (pte_at ((gm # gms) ! i) j)"
    if i: "i < length (gm # gms)" and j: "j < gm_nr_pages ((gm # gms) ! i)"
      and nc: "\<forall>k < length (gm # gms). i < k \<longrightarrow> \<not> covers ((gm # gms) ! k) (vpn (gm_start ((gm # gms) ! i)) j)" for i j
  proof (cases i)
    case 0
    have "\<not> covers g (vpn (gm_start gm) j)" if "g \<in> set gms" for g
    proof -
      from that obtain k where "k < length gms" "g = gms ! k" by (metis in_set_conv_nth)
      then show ?thesis using nc [rule_format, of "Suc k"] 0 by simp
    qed
    then have "pte_of up pm' (vpn (gm_start gm) j) = pte_of up pm1 (vpn (gm_start gm) j)"
      using s by (simp add: restores_def)
    then show ?thesis using r(5) j 0 by simp
  next
    case (Suc m)
    have "\<forall>k < length gms. m < k \<longrightarrow> \<not> covers (gms ! k) (vpn (gm_start (gms ! m)) j)"
      using nc Suc by (auto dest: spec [of _ "Suc k" for k])
    then show ?thesis using s i j Suc by (simp add: restores_def)
  qed
  moreover have "tree_ok up pm'" "mappable pm' = mappable pm" using s r(3) by (simp_all add: restores_def)
  moreover have "frames pm' q = frames pm q" if "q \<notin> upages 3 up" for q
    using s r(4) that by (simp add: restores_def)
  moreover have "pte_of up pm' w = pte_of up pm w" if "\<forall>g \<in> set (gm # gms). \<not> covers g w" for w
    using s r(6) that by (simp add: restores_def)
  ultimately have "restores up (gm # gms) pm pm'" unfolding restores_def by blast
  then show ?case using p r(1) by simp
qed

section \<open>Properties\<close>

text \<open>
  C38. After \<open>gr_restore_pte\<close> the page table maps the regions again: whatever entries the GPU or a
  fault has left, when the tables themselves are intact, every page of every region has the entry
  of its page with the flags of its region (of the last region that covers the address), no
  other entry and no page outside the tables is changed.
\<close>

theorem gr_restore_pte_restores:
  assumes "tree_ok (user_pgt rctx) pm" and "\<forall>gm \<in> set (gm_region rctx). pte_region_ok (user_pgt rctx) gm"
  shows "\<exists>pm'. gr_restore_pte rctx pm = Inr pm' \<and> restores (user_pgt rctx) (gm_region rctx) pm pm'"
  using restore_regions_ok [OF assms] by (simp add: gr_restore_pte_def)

definition demo_link :: "u64 \<Rightarrow> user_pgtable option \<Rightarrow> user_pgtable" where
  "demo_link p u = User_Pgtable p (\<lambda>i. if i = 0 then u else None)"

definition demo_tree :: user_pgtable where
  "demo_tree = demo_link 0x1000 (Some (demo_link 0x2000 (Some (demo_link 0x3000 (Some (demo_link 0x4000 None))))))"

definition demo_tree_mem :: pmem where
  "demo_tree_mem = \<lparr> frames = (\<lambda>p. frame_put64 (\<lambda>i. 0) 0 (gr_entry_get_pte (p + 0x1000))), mappable = (\<lambda>p. True) \<rparr>"

lemma demo_link_UN:
  "(\<Union>i \<in> {..<512 :: nat}. case pgd (demo_link p (Some u)) i of None \<Rightarrow> {} | Some u \<Rightarrow> f u) = f u"
  by (auto simp: demo_link_def split: if_splits)

lemma demo_upages: "upages 3 demo_tree = {0x1000, 0x2000, 0x3000, 0x4000}"
  unfolding demo_tree_def numeral_3_eq_3 upages.simps demo_link_UN by (auto simp: demo_link_def)

lemma demo_tree_ok: "tree_ok demo_tree demo_tree_mem"
proof -
  have e: "pte_to_phys_addr (gr_entry_get_pte p) = p" if "valid_pa p" for p
    unfolding gr_entry_get_pte_def or.assoc
    by (rule pte_to_phys_addr_or) (use that in \<open>force simp: valid_pa_def bit_or_iff entry_bits\<close>)+
  have v: "valid_pa 0x1000" "valid_pa 0x2000" "valid_pa 0x3000" "valid_pa 0x4000"
    by (simp_all add: valid_pa_def page_aligned_def bit_iff_odd_drop_bit)
  moreover have "upt_distinct 3 demo_tree"
    by (auto simp: demo_tree_def demo_link_def numeral_3_eq_3 split: if_splits option.splits)
  moreover have "tree_agrees 3 demo_tree demo_tree_mem"
    by (auto simp: demo_tree_def demo_link_def numeral_3_eq_3 demo_tree_mem_def frame_simps e v split: if_splits)
  ultimately show ?thesis using v by (simp add: tree_ok_def demo_upages demo_tree_mem_def)
qed

definition demo_clean_region :: "bool \<Rightarrow> gpu_mem_region" where
  "demo_clean_region v = \<lparr> gm_start = 0x1000, gm_end = 0x2000, gm_pages = [0x8000], gm_nr_pages = 1, gm_flags = 0x606e,
     gm_is_valid = v, gm_is_synced = False \<rparr>"

definition demo_clean_rctx :: "gpu_mem_region list \<Rightarrow> replay_context" where
  "demo_clean_rctx gms = demo_rctx\<lparr> gm_region := gms, user_pgt := demo_tree \<rparr>"

lemma demo_region_ok: "pte_region_ok demo_tree (demo_clean_region v)"
proof -
  have "walkable demo_tree 0x1000 1"
    by (simp add: walkable_def vpn_def PFN_DOWN_def demo_tree_def demo_link_def user_walk.simps pte_index_def
        Let_def drop_bit_eq_div take_bit_eq_mod)
  then show ?thesis by (simp add: pte_region_ok_def demo_clean_region_def demo_upages)
qed

theorem gr_restore_pte_restores_witness:
  "\<exists>pm'. gr_restore_pte (demo_clean_rctx [demo_clean_region True]) demo_tree_mem = Inr pm' \<and>
    pte_of demo_tree pm' 1 = Some (gr_entry_get_ate 0x8000 0x606e 3)"
proof -
  have "\<exists>pm'. gr_restore_pte (demo_clean_rctx [demo_clean_region True]) demo_tree_mem = Inr pm' \<and>
      restores (user_pgt (demo_clean_rctx [demo_clean_region True])) (gm_region (demo_clean_rctx [demo_clean_region True]))
        demo_tree_mem pm'"
    by (rule gr_restore_pte_restores) (simp_all add: demo_clean_rctx_def demo_tree_ok demo_region_ok)
  then show ?thesis
    by (auto simp: restores_def demo_clean_rctx_def demo_clean_region_def pte_at_def PFN_DOWN_def)
qed

text \<open>
  After \<open>gr_clean_invalid_region\<close> every page behind a region that was not recorded is zero: the
  page that the lookup finds for each of its addresses is zeroed, and no page that is behind no such
  address is changed.
\<close>

theorem gr_clean_invalid_region_zeroes:
  assumes "\<forall>a \<in> invalid_addrs (gm_region rctx). backed rctx pm a"
  shows "\<exists>pm'. gr_clean_invalid_region rctx pm = Inr pm' \<and> cleans rctx pm (invalid_addrs (gm_region rctx)) pm'"
  using clean_invalid_cleans [OF assms] by (simp add: gr_clean_invalid_region_def)

theorem gr_clean_invalid_region_zeroes_witness:
  "\<exists>pm'. gr_clean_invalid_region (demo_clean_rctx [demo_clean_region False]) demo_tree_mem = Inr pm' \<and> zeroed pm' 0x8000"
proof -
  let ?c = "demo_clean_rctx [demo_clean_region False]"
  have A: "invalid_addrs (gm_region ?c) = {0x1000}"
    by (simp add: invalid_addrs_def demo_clean_rctx_def demo_clean_region_def page_addr_def)
  have b: "backing ?c 0x1000 = 0x8000"
    by (simp add: backing_def gr_find_region_enclosing_address_def demo_clean_rctx_def demo_clean_region_def)
  have "valid_pa 0x8000" by (simp add: valid_pa_def page_aligned_def bit_iff_odd_drop_bit)
  then have "backed ?c demo_tree_mem 0x1000"
    by (simp add: backed_def b) (simp add: gr_find_region_enclosing_address_def demo_clean_rctx_def
        demo_clean_region_def page_aligned_def demo_tree_mem_def)
  then have "\<exists>pm'. gr_clean_invalid_region ?c demo_tree_mem = Inr pm' \<and> cleans ?c demo_tree_mem (invalid_addrs (gm_region ?c)) pm'"
    by (intro gr_clean_invalid_region_zeroes) (simp add: A)
  then show ?thesis by (auto simp: A cleans_def b)
qed

text \<open>
  After \<open>gr_clean_used_atom\<close> no atom is marked as executed: in the page of every atom region each
  word \<open>0x10258\<close> that is followed by a zero is cleared, and nothing else changes, when the last word
  of the page is no such mark (the code then reads behind its buffer).
\<close>

theorem gr_clean_used_atom_clears:
  assumes "\<forall>p \<in> set (atom_pages 0 (gm_region rctx)). atom_page_ok pm p" and "distinct (atom_pages 0 (gm_region rctx))"
    and "\<forall>gm \<in> set (gm_region rctx). gm_pages gm \<noteq> []"
  shows "\<exists>pm'. gr_clean_used_atom rctx pm = Inr pm' \<and> atoms_cleaned pm (set (atom_pages 0 (gm_region rctx))) pm'"
  using clean_atoms_ok [OF assms] by (simp add: gr_clean_used_atom_def)

definition demo_atom_mem :: pmem where
  "demo_atom_mem = \<lparr> frames = (\<lambda>p. frame_put64 (\<lambda>i. 0) 5 0x010258), mappable = (\<lambda>p. True) \<rparr>"

theorem gr_clean_used_atom_clears_witness:
  "\<exists>pm'. gr_clean_used_atom (demo_clean_rctx (replicate 8 (demo_clean_region True))) demo_atom_mem = Inr pm' \<and>
    frame_get64 (frames pm' 0x8000) 5 = 0 \<and> frame_get64 (frames demo_atom_mem 0x8000) 5 = 0x010258"
proof -
  let ?c = "demo_clean_rctx (replicate 8 (demo_clean_region True))"
  have z: "frame_get64 (\<lambda>i. 0) i = 0" for i
    by (simp add: frame_get64_def frame_get_def map_replicate_const numeral_eq_Suc)
  have A: "atom_pages 0 (gm_region ?c) = [0x8000]"
    by (simp add: demo_clean_rctx_def demo_clean_region_def is_atom_region_def numeral_eq_Suc)
  have "valid_pa 0x8000" by (simp add: valid_pa_def page_aligned_def bit_iff_odd_drop_bit)
  then have ok: "atom_page_ok demo_atom_mem 0x8000"
    by (simp add: atom_page_ok_def demo_atom_mem_def frame_simps z)
  have "\<exists>pm'. gr_clean_used_atom ?c demo_atom_mem = Inr pm' \<and> atoms_cleaned demo_atom_mem (set (atom_pages 0 (gm_region ?c))) pm'"
    by (rule gr_clean_used_atom_clears) (simp_all only: A ok, simp_all add: ok demo_clean_rctx_def demo_clean_region_def)
  then obtain pm' where p: "gr_clean_used_atom ?c demo_atom_mem = Inr pm'" and c: "atoms_cleaned demo_atom_mem {0x8000} pm'"
    by (auto simp: A)
  have "frame_get64 (frames pm' 0x8000) 5 = cleaned 0x010258 (frame_words (frames demo_atom_mem 0x8000)) 5"
    using c by (simp add: atoms_cleaned_def)
  then have "frame_get64 (frames pm' 0x8000) 5 = 0"
    by (simp add: cleaned_def demo_atom_mem_def frame_simps z)
  then show ?thesis using p by (simp add: demo_atom_mem_def frame_simps)
qed

end
