(* ===== verification/GR_TuneMc.thy ===== *)
theory GR_TuneMc
  imports GR_Clean
begin

text \<open>
  The tool that prepares a recorded memory image (\<open>gr_tune_mc\<close> of \<open>replayer/gr_utils.c\<close>, in debug
  builds): the file is copied, and in the pages with atoms the marks of executed atoms are removed.
  The messages with the hash and the number of pages are left out.
\<close>

unbundle bit_operations_syntax

section \<open>Model\<close>

text \<open>
  The loop over the pages of a region: \<open>n\<close> are left, \<open>first\<close> holds for page number 0, \<open>atoms\<close> when the
  region is one with atoms. \<open>paddr\<close> and \<open>buf\<close> keep their values; the last argument is the output.
\<close>

definition tune_buf :: "bool \<Rightarrow> u8 list \<Rightarrow> u8 list res" where
  "tune_buf atoms bs =
     (if atoms then bindR (clean_words 1 (buf_words bs)) (\<lambda>(ws, is_used). Inr (words_bytes ws)) else Inr bs)"

fun tune_pages ::
  "bool \<Rightarrow> bool \<Rightarrow> u64 \<Rightarrow> nat \<Rightarrow> bool \<Rightarrow> u64 \<Rightarrow> cfile \<Rightarrow> u64 option \<Rightarrow> u8 list option \<Rightarrow> u8 list \<Rightarrow>
   (cfile \<times> u64 option \<times> u8 list option \<times> u8 list) res" where
  "tune_pages is_valid atoms gm_e 0 first vaddr f paddr buf out = Inr (f, paddr, buf, out)"
| "tune_pages is_valid atoms gm_e (Suc n) first vaddr f paddr buf out =
     (if \<not> vaddr < gm_e then Inr (f, paddr, buf, out)
      else if \<not> is_valid then tune_pages is_valid atoms gm_e n False (vaddr + 4096) f paddr buf out
      else bindR (fread_word 8 (Some vaddr) f) (\<lambda>(v, f1).
           bindR (fread_word 8 paddr f1) (\<lambda>(p, f2).
           bindR (var v) (\<lambda>vaddr'.
           bindR (var p) (\<lambda>paddr'.
             let out1 = out @ le_bytes 8 vaddr' @ le_bytes 8 paddr'
             in if vaddr' > 0xffffffffffff
                then tune_pages is_valid atoms gm_e n False (vaddr' + 4096) f2 p buf out1
                else bindR (fread_buf PAGE_SIZE buf f2) (\<lambda>(b, f3).
                     bindR (var b) (\<lambda>bs.
                     bindR (tune_buf (atoms \<and> first) bs) (\<lambda>bs'.
                       tune_pages is_valid atoms gm_e n False (vaddr' + 4096) f3 p (Some bs') (out1 @ bs')))))))))"

definition tune_round ::
  "nat \<Rightarrow> mc_vars \<Rightarrow> u64 option \<Rightarrow> cfile \<Rightarrow> u8 list \<Rightarrow>
   (bool \<times> nat \<times> mc_vars \<times> u64 option \<times> cfile \<times> u8 list) res" where
  "tune_round as_cnt vs paddr f out =
     bindR (mc_header vs f) (\<lambda>(vs', f').
     bindR (var (mc_start vs')) (\<lambda>gm_s.
       if gm_s > 0xffffffffffff then Inr (False, as_cnt, vs', paddr, f', out)
       else if cf_eof f' then Inr (True, as_cnt, vs', paddr, f', out)
       else
         bindR (var (mc_end vs')) (\<lambda>gm_e.
         bindR (var (mc_nents vs')) (\<lambda>nents.
         bindR (var (mc_flags vs')) (\<lambda>flags.
         bindR (var (mc_is_valid vs')) (\<lambda>is_valid.
           let out1 = out @ le_bytes 8 gm_s @ le_bytes 8 gm_e @ le_bytes 8 nents @ le_bytes 4 flags @ le_bytes 1 is_valid;
               atoms = (as_cnt > 6 \<and> nents = 1 \<and> (flags = 0x606e \<or> flags = 0x604e))
           in bindR (tune_pages (is_valid \<noteq> 0) atoms gm_e (unat nents) True gm_s f' paddr (mc_buf vs') out1)
                (\<lambda>(f'', paddr', buf', out').
                   Inr (False, as_cnt + 1, vs'\<lparr> mc_buf := buf' \<rparr>, paddr', f'', out'))))))))"

lemma tune_pages_le:
  "tune_pages iv at e n first va f pa buf out = Inr (f', pa', b', out') \<Longrightarrow> file_le f' f"
proof (induction n arbitrary: first va f pa buf out)
  case 0
  then show ?case by simp
next
  case (Suc n)
  show ?case
  proof (cases "va < e \<and> iv")
    case True
    then have iv: "iv = True" by simp
    note IH = Suc.IH [unfolded iv]
    have "\<exists>v f1 p f2. fread_word 8 (Some va) f = Inr (v, f1) \<and> fread_word 8 pa f1 = Inr (p, f2) \<and>
        (file_le f' f2 \<or> (\<exists>b f3. fread_buf PAGE_SIZE buf f2 = Inr (b, f3) \<and> file_le f' f3))"
      using Suc.prems True unfolding iv by (auto simp: Let_def bindR_eq_Inr split: if_splits dest!: IH)
    then obtain v f1 p f2 where r: "fread_word 8 (Some va) f = Inr (v, f1)" "fread_word 8 pa f1 = Inr (p, f2)"
      and "file_le f' f2 \<or> (\<exists>b f3. fread_buf PAGE_SIZE buf f2 = Inr (b, f3) \<and> file_le f' f3)" by blast
    then have "file_le f' f2" using fread_le file_le_trans by blast
    moreover have "file_le f1 f" "file_le f2 f1" using r by (auto intro: fread_le)
    ultimately show ?thesis by (blast intro: file_le_trans)
  next
    case False
    then show ?thesis using Suc by (auto split: if_splits)
  qed
qed

lemma tune_round_less:
  assumes "tune_round c vs pa f out = Inr (stop, c', vs', pa', f', out')"
  shows "file_less f' f"
proof -
  from assms obtain v1 f1 where "mc_header vs f = Inr (v1, f1)" "file_le f' f1"
    by (auto simp: tune_round_def bindR_eq_Inr Let_def split: if_splits intro: tune_pages_le)
  then show ?thesis using mc_header_less file_less_trans by blast
qed

function tune_loop :: "nat \<Rightarrow> mc_vars \<Rightarrow> u64 option \<Rightarrow> cfile \<Rightarrow> u8 list \<Rightarrow> u8 list res" where
  "tune_loop as_cnt vs paddr f out =
     (if cf_eof f then Inr out
      else bindR (tune_round as_cnt vs paddr f out)
             (\<lambda>(stop, as_cnt', vs', paddr', f', out').
                if stop then Inr out' else tune_loop as_cnt' vs' paddr' f' out'))"
  by pat_completeness auto
termination
proof (relation "measure (\<lambda>(c, vs, pa, f, out). length (cf_rest f) + (if cf_eof f then 0 else 1))", goal_cases)
  case (2 c vs pa f out x stop y c' z vs' u pa' v f' out')
  then have "tune_round c vs pa f out = Inr (stop, c', vs', pa', f', out')" by simp
  then have "file_less f' f" by (rule tune_round_less)
  then show ?case using 2(1) by (auto simp: file_less_def file_le_def)
qed simp

declare tune_loop.simps [simp del]

definition gr_tune_mc :: "u8 list option \<Rightarrow> u8 list res" where
  "gr_tune_mc rpath =
     (case rpath of
        None \<Rightarrow> Inl Bug
      | Some bs \<Rightarrow>
          tune_loop 0 \<lparr> mc_start = None, mc_end = None, mc_nents = None, mc_flags = None, mc_is_valid = None,
            mc_buf = None \<rparr> None (fopen bs) [])"

section \<open>What the tool makes of a recording\<close>

definition is_atom_rec :: "nat \<Rightarrow> mc_rec \<Rightarrow> bool" where
  "is_atom_rec i r \<longleftrightarrow> i > 6 \<and> r_nents r = 1 \<and> (r_flags r = 0x606e \<or> r_flags r = 0x604e)"

definition tuned_page :: "u8 list \<Rightarrow> u8 list" where
  "tuned_page bs = words_bytes (map (cleaned 1 (buf_words bs)) [0..<512])"

definition tuned_rec :: "nat \<Rightarrow> mc_rec \<Rightarrow> mc_rec" where
  "tuned_rec i r = (if is_atom_rec i r then r\<lparr> r_pages := map (\<lambda>(pa, bs). (pa, tuned_page bs)) (r_pages r) \<rparr> else r)"

fun tuned_recs :: "nat \<Rightarrow> mc_rec list \<Rightarrow> mc_rec list" where
  "tuned_recs i [] = []"
| "tuned_recs i (r # rs) = tuned_rec i r # tuned_recs (Suc i) rs"

text \<open>Regions the tool can take: the last word of a page with atoms is no mark.\<close>

definition tunable :: "nat \<Rightarrow> mc_rec \<Rightarrow> bool" where
  "tunable i r \<longleftrightarrow> rec_ok r \<and>
     (is_atom_rec i r \<and> r_valid r \<longrightarrow> (\<forall>x \<in> set (r_pages r). last (buf_words (snd x)) \<noteq> 1))"

lemma tune_buf_atoms:
  assumes "length bs = PAGE_SIZE" and "last (buf_words bs) \<noteq> 1"
  shows "tune_buf True bs = Inr (tuned_page bs)"
proof -
  have l: "length (buf_words bs) = 512" using assms(1) by (simp add: buf_words_def)
  then have "buf_words bs \<noteq> []" by auto
  from clean_words_ok [OF this assms(2)] obtain ws u where
    c: "clean_words 1 (buf_words bs) = Inr (ws, u)" "length ws = 512" "\<forall>i < 512. ws ! i = cleaned 1 (buf_words bs) i"
    using l by auto
  then have "ws = map (cleaned 1 (buf_words bs)) [0..<512]" by (intro nth_equalityI) auto
  then show ?thesis using c(1) by (simp add: tune_buf_def tuned_page_def)
qed

lemma length_tuned_page [simp]: "length (tuned_page bs) = 4096"
  by (simp add: tuned_page_def)

lemma tune_pages_plain:
  assumes "unat va + PAGE_SIZE * length cs \<le> unat gm_e" and "unat va + PAGE_SIZE * length cs \<le> 2 ^ 48"
    and "\<forall>x \<in> set cs. length (snd x) = PAGE_SIZE"
  shows "\<exists>pa' b'. tune_pages True False gm_e (length cs) first va \<lparr> cf_rest = mc_page_bytes va cs @ g, cf_eof = False \<rparr> pa buf out =
    Inr (\<lparr> cf_rest = g, cf_eof = False \<rparr>, pa', b', out @ mc_page_bytes va cs)"
  using assms
proof (induction cs arbitrary: first va pa buf out)
  case Nil
  then show ?case by simp
next
  case (Cons c cs)
  obtain p bs where c: "c = (p, bs)" by (cases c)
  note below = region_below_end [OF Cons.prems(1)]
  have va1: "unat (va + 4096) = unat va + PAGE_SIZE" using below(2) Cons.prems(2) by simp
  have lo: "\<not> va > 0xffffffffffff" using Cons.prems(2) by (simp add: word_less_nat_alt)
  have "\<exists>pa' b'. tune_pages True False gm_e (length cs) False (va + 4096)
        \<lparr> cf_rest = mc_page_bytes (va + 4096) cs @ g, cf_eof = False \<rparr> (Some p) (Some bs)
        ((out @ le_bytes 8 va @ le_bytes 8 p) @ bs) =
      Inr (\<lparr> cf_rest = g, cf_eof = False \<rparr>, pa', b', ((out @ le_bytes 8 va @ le_bytes 8 p) @ bs) @ mc_page_bytes (va + 4096) cs)"
    by (rule Cons.IH) (use Cons.prems va1 in auto)
  then show ?case using below(1) lo Cons.prems(3) c by (simp add: fread_simps Let_def tune_buf_def)
qed

lemma tune_pages_atom:
  assumes "va < gm_e" and "unat va + PAGE_SIZE \<le> 2 ^ 48" and "length bs = PAGE_SIZE" and "last (buf_words bs) \<noteq> 1"
  shows "\<exists>pa' b'. tune_pages True True gm_e 1 True va \<lparr> cf_rest = mc_page_bytes va [(p, bs)] @ g, cf_eof = False \<rparr> pa buf out =
    Inr (\<lparr> cf_rest = g, cf_eof = False \<rparr>, pa', b', out @ mc_page_bytes va [(p, tuned_page bs)])"
proof -
  have lo: "\<not> va > 0xffffffffffff" using assms(2) by (simp add: word_less_nat_alt)
  then show ?thesis using assms tune_buf_atoms [OF assms(3,4)] by (simp add: fread_simps Let_def)
qed

lemma tune_pages_invalid: "tune_pages False at e n first va f pa buf out = Inr (f, pa, buf, out)"
  by (induction n arbitrary: first va) auto

lemma tune_round_record:
  assumes "tunable i r"
  shows "\<exists>vs' pa'. tune_round i vs pa \<lparr> cf_rest = mc_bytes r @ g, cf_eof = False \<rparr> out =
      Inr (False, i + 1, vs', pa', \<lparr> cf_rest = g, cf_eof = False \<rparr>, out @ mc_bytes (tuned_rec i r)) \<and>
    mc_start vs' = Some (r_start r)"
proof -
  have ok: "rec_ok r" using assms by (simp add: tunable_def)
  have n: "unat (of_nat (r_nents r) :: u64) = r_nents r" by (rule rec_ok_nents [OF ok])
  have one: "(of_nat (r_nents r) :: u64) = 1 \<longleftrightarrow> r_nents r = 1" using n by (metis of_nat_1 unat_1)
  have bd: "unat (r_start r) + PAGE_SIZE * r_nents r \<le> unat (r_end r)" "unat (r_start r) + PAGE_SIZE * r_nents r \<le> 2 ^ 48"
    and pos: "0 < r_nents r" using ok by (auto simp: rec_ok_def)
  have lo: "\<not> r_start r > 0xffffffffffff"
    using bd(2) pos by (simp add: word_less_nat_alt)
  define head where "head = le_bytes 8 (r_start r) @ le_bytes 8 (r_end r) @ le_bytes 8 (of_nat (r_nents r) :: u64) @
    le_bytes 4 (r_flags r) @ [if r_valid r then 1 else 0]"
  have b1: "le_bytes 1 (if r_valid r then 1 else 0 :: u8) = [if r_valid r then 1 else 0]"
    by (simp add: le_bytes_def)
  have hd: "mc_bytes (tuned_rec i r) = head @ rec_body (tuned_rec i r)"
    by (simp add: mc_bytes_def head_def rec_body_def tuned_rec_def)
  have "\<exists>pa' b'. tune_pages (r_valid r) (is_atom_rec i r) (r_end r) (r_nents r) True (r_start r)
      \<lparr> cf_rest = rec_body r @ g, cf_eof = False \<rparr> pa (mc_buf vs) (out @ head) =
    Inr (\<lparr> cf_rest = g, cf_eof = False \<rparr>, pa', b', (out @ head) @ rec_body (tuned_rec i r))"
  proof (cases "r_valid r")
    case False
    then show ?thesis by (simp add: tune_pages_invalid rec_body_def tuned_rec_def)
  next
    case True
    have pg: "length (r_pages r) = r_nents r" "\<forall>x \<in> set (r_pages r). length (snd x) = PAGE_SIZE"
      using ok True by (auto simp: rec_ok_def)
    show ?thesis
    proof (cases "is_atom_rec i r")
      case False
      then show ?thesis
        using tune_pages_plain [of "r_start r" "r_pages r" "r_end r" True g pa "mc_buf vs" "out @ head"] bd pg True
        by (simp add: rec_body_def tuned_rec_def)
    next
      case at: True
      then have n1: "r_nents r = 1" by (simp add: is_atom_rec_def)
      then obtain p bs where x: "r_pages r = [(p, bs)]"
        using pg(1) by (metis length_0_conv length_Suc_conv One_nat_def surj_pair)
      have "last (buf_words bs) \<noteq> 1" using assms at True x by (simp add: tunable_def)
      moreover have "r_start r < r_end r" using region_below_end(1) [OF bd(1) pos] .
      ultimately show ?thesis
        using tune_pages_atom [of "r_start r" "r_end r" bs p g pa "mc_buf vs" "out @ head"] bd pg x n1 at True
        by (simp add: rec_body_def tuned_rec_def)
    qed
  qed
  then obtain pa' b' where tp: "tune_pages (r_valid r) (is_atom_rec i r) (r_end r) (r_nents r) True (r_start r)
      \<lparr> cf_rest = rec_body r @ g, cf_eof = False \<rparr> pa (mc_buf vs) (out @ head) =
    Inr (\<lparr> cf_rest = g, cf_eof = False \<rparr>, pa', b', (out @ head) @ rec_body (tuned_rec i r))" by blast
  have at: "(i > 6 \<and> (of_nat (r_nents r) :: u64) = 1 \<and> (r_flags r = 0x606e \<or> r_flags r = 0x604e)) = is_atom_rec i r"
    by (simp only: is_atom_rec_def one)
  have iv: "((if r_valid r then 1 else 0 :: u8) \<noteq> 0) = r_valid r" by simp
  have ot: "out @ le_bytes 8 (r_start r) @ le_bytes 8 (r_end r) @ le_bytes 8 (of_nat (r_nents r) :: u64) @
      le_bytes 4 (r_flags r) @ le_bytes 1 (if r_valid r then 1 else 0 :: u8) = out @ head"
    by (simp only: head_def b1)
  have "tune_round i vs pa \<lparr> cf_rest = mc_bytes r @ g, cf_eof = False \<rparr> out =
      Inr (False, i + 1, (vars_of r (mc_buf vs))\<lparr> mc_buf := b' \<rparr>, pa', \<lparr> cf_rest = g, cf_eof = False \<rparr>,
           out @ mc_bytes (tuned_rec i r))"
    unfolding tune_round_def mc_header_rec bindR_simps prod.case Let_def
    by (simp only: vars_of_def mc_vars.simps var_simps bindR_simps lo if_False cfile.simps ot at iv n tp prod.case hd append_assoc)
  then show ?thesis by (simp add: vars_of_def)
qed

lemma tune_loop_records:
  assumes "\<forall>k < length rs. tunable (i + k) (rs ! k)" and "rs \<noteq> [] \<or> (\<exists>s. mc_start vs = Some s \<and> \<not> s > 0xffffffffffff)"
  shows "tune_loop i vs pa \<lparr> cf_rest = concat (map mc_bytes rs), cf_eof = False \<rparr> out =
    Inr (out @ concat (map mc_bytes (tuned_recs i rs)))"
  using assms
proof (induction rs arbitrary: i vs pa out)
  case Nil
  then obtain s where s: "mc_start vs = Some s" "\<not> s > 0xffffffffffff" by auto
  have "\<exists>vs'. mc_header vs \<lparr> cf_rest = [], cf_eof = False \<rparr> = Inr (vs', \<lparr> cf_rest = [], cf_eof = True \<rparr>) \<and> mc_start vs' = Some s"
    using s by (simp add: mc_header_def fread_simps)
  then show ?case using s(2) by (subst tune_loop.simps) (auto simp: tune_round_def)
next
  case (Cons r rs)
  have "tunable i r" using Cons.prems(1) by (auto dest: spec [of _ 0])
  from tune_round_record [OF this, of vs pa "concat (map mc_bytes rs)" out] obtain vs' pa' where
    r: "tune_round i vs pa \<lparr> cf_rest = concat (map mc_bytes (r # rs)), cf_eof = False \<rparr> out =
      Inr (False, i + 1, vs', pa', \<lparr> cf_rest = concat (map mc_bytes rs), cf_eof = False \<rparr>, out @ mc_bytes (tuned_rec i r))"
    and s: "mc_start vs' = Some (r_start r)" by auto
  have ok: "rec_ok r" using \<open>tunable i r\<close> by (simp add: tunable_def)
  have lo: "\<not> r_start r > 0xffffffffffff"
    using ok by (simp add: rec_ok_def word_less_nat_alt)
  have "tune_loop (i + 1) vs' pa' \<lparr> cf_rest = concat (map mc_bytes rs), cf_eof = False \<rparr> (out @ mc_bytes (tuned_rec i r)) =
      Inr ((out @ mc_bytes (tuned_rec i r)) @ concat (map mc_bytes (tuned_recs (i + 1) rs)))"
    by (rule Cons.IH) (use Cons.prems(1) s lo in \<open>auto dest: spec [of _ "Suc k" for k]\<close>)
  then show ?case using r by (subst tune_loop.simps) simp
qed

section \<open>Properties\<close>

text \<open>
  C39. The tool keeps a recording and removes the marks: on a file of recorded regions it writes the
  same regions in the same order, with the same headers, addresses and contents, except that in the
  pages of atom regions each word 1 that is followed by a zero word is cleared. Its loop ends at the end
  of the file without an extra round.
\<close>

theorem gr_tune_mc_tunes:
  assumes "rs \<noteq> []" and "\<forall>k < length rs. tunable k (rs ! k)"
  shows "gr_tune_mc (Some (concat (map mc_bytes rs))) = Inr (concat (map mc_bytes (tuned_recs 0 rs)))"
  using tune_loop_records [of rs 0] assms by (simp add: gr_tune_mc_def fopen_def)

definition demo_tune_rec :: mc_rec where
  "demo_tune_rec = \<lparr> r_start = 0x10000, r_end = 0x11000, r_nents = 1, r_flags = 0x606e, r_valid = False, r_pages = [] \<rparr>"

definition demo_atom_rec :: mc_rec where
  "demo_atom_rec = \<lparr> r_start = 0x20000, r_end = 0x21000, r_nents = 1, r_flags = 0x606e, r_valid = True,
     r_pages = [(0x9000, words_bytes (1 # replicate 511 0))] \<rparr>"

lemma words_bytes_words: "buf_words (words_bytes ws) = ws"
  by (rule nth_equalityI) (simp_all add: buf_words_def words_bytes_slice)

theorem gr_tune_mc_tunes_witness:
  "gr_tune_mc (Some (concat (map mc_bytes (replicate 7 demo_tune_rec @ [demo_atom_rec])))) =
    Inr (concat (map mc_bytes (replicate 7 demo_tune_rec @ [demo_atom_rec\<lparr> r_pages := [(0x9000, words_bytes (replicate 512 0))] \<rparr>])))"
proof -
  let ?rs = "replicate 7 demo_tune_rec @ [demo_atom_rec]"
  have nt: "\<not> is_atom_rec k demo_tune_rec" if "k < 7" for k using that by (simp add: is_atom_rec_def)
  have "tunable k demo_tune_rec" for k
    by (simp add: tunable_def demo_tune_rec_def rec_ok_def page_aligned_def)
  moreover have "tunable 7 demo_atom_rec"
    by (simp add: tunable_def demo_atom_rec_def rec_ok_def page_aligned_def words_bytes_words del: words_bytes_simps)
  ultimately have t: "\<forall>k < length ?rs. tunable k (?rs ! k)"
    by (simp add: nth_append less_Suc_eq numeral_eq_Suc)
  have "map (cleaned 1 (1 # replicate 511 0)) [0..<512] = replicate 512 0"
    by (rule nth_equalityI) (auto simp: cleaned_def nth_Cons')
  then have p: "tuned_page (words_bytes (1 # replicate 511 0)) = words_bytes (replicate 512 0)"
    by (simp only: tuned_page_def words_bytes_words)
  have "tuned_rec 7 demo_atom_rec = demo_atom_rec\<lparr> r_pages := [(0x9000, words_bytes (replicate 512 0))] \<rparr>"
    using p by (simp add: tuned_rec_def is_atom_rec_def demo_atom_rec_def del: words_bytes_simps)
  then have "tuned_recs 0 ?rs = replicate 7 demo_tune_rec @ [demo_atom_rec\<lparr> r_pages := [(0x9000, words_bytes (replicate 512 0))] \<rparr>]"
    using nt by (simp add: numeral_eq_Suc tuned_rec_def is_atom_rec_def)
  then show ?thesis using gr_tune_mc_tunes [OF _ t] by simp
qed

end
