(* ===== verification/KB_LockRegion.thy ===== *)
theory KB_LockRegion
  imports GR_Prelude
begin

text \<open>
  The region that the driver locks before it changes page tables (\<open>lock_region\<close> of
  \<open>mmu/mali_kbase_mmu_hw_direct.c\<close>): its size as a power of two, what the value for the register
  means, and for which requests the region contains every page.
\<close>

unbundle bit_operations_syntax

section \<open>Model\<close>

abbreviation (input) KBASE_LOCK_REGION_MIN_SIZE_LOG2 :: nat where
  "KBASE_LOCK_REGION_MIN_SIZE_LOG2 \<equiv> 15"
abbreviation (input) KBASE_LOCK_REGION_MAX_SIZE_LOG2 :: nat where
  "KBASE_LOCK_REGION_MAX_SIZE_LOG2 \<equiv> 64"

text \<open>\<open>fls\<close>: the position of the highest set bit, counted from 1, and 0 when there is none.\<close>

definition fls :: "u32 \<Rightarrow> nat" where
  "fls w = (case List.find (\<lambda>i. bit w i) (rev [0..<32]) of None \<Rightarrow> 0 | Some i \<Rightarrow> Suc i)"

definition region_log2 :: "u64 \<Rightarrow> u32 \<Rightarrow> nat" where
  "region_log2 pfn num_pages =
     (let log2 = fls num_pages + 12 - 1;
          log2 = (if num_pages \<noteq> push_bit (log2 - 12) 1 then log2 + 1 else log2);
          region_frame_number_start = drop_bit (log2 - 12) pfn;
          region_frame_number_end = drop_bit (log2 - 12) (pfn + ucast num_pages - 1);
          log2 = (if region_frame_number_start < region_frame_number_end then log2 + 1 else log2)
      in max log2 KBASE_LOCK_REGION_MIN_SIZE_LOG2)"

definition lock_region :: "u64 \<Rightarrow> u32 \<Rightarrow> int + u64" where
  "lock_region pfn num_pages =
     (if num_pages = 0 then Inl (-22)
      else let log2 = region_log2 pfn num_pages
           in if log2 > KBASE_LOCK_REGION_MAX_SIZE_LOG2 then Inl (-22)
              else Inr ((push_bit 12 pfn AND NOT (push_bit log2 1 - 1)) OR of_nat (log2 - 1)))"

text \<open>
  What the hardware makes of the value: the low six bits are the logarithm of the size less one,
  the address is what is left of the value with as many low bits cleared.
\<close>

definition lock_log2 :: "u64 \<Rightarrow> nat" where
  "lock_log2 a = unat (take_bit 6 a) + 1"

definition lock_base :: "u64 \<Rightarrow> nat" where
  "lock_base a = (unat a div 2 ^ lock_log2 a) * 2 ^ lock_log2 a"

definition page_locked :: "u64 \<Rightarrow> nat \<Rightarrow> bool" where
  "page_locked a p \<longleftrightarrow> lock_base a \<le> 4096 * p \<and> 4096 * p + 4096 \<le> lock_base a + 2 ^ lock_log2 a"

section \<open>The size\<close>







section \<open>The pages locked\<close>







text \<open>
  The region can miss pages of the request: for the two pages 7 and 8 the size is raised once,
  to the minimum of 8 pages, and page 8 is not locked.
\<close>

lemma lock_region_misses_page:
  "\<exists>a. lock_region 7 2 = Inr a \<and> page_locked a 7 \<and> \<not> page_locked a 8"
proof -
  have "fls 2 = 2" by code_simp
  then have "region_log2 7 2 = 15" by (simp add: region_log2_def)
  then have "lock_region 7 2 = Inr 14" by (simp add: lock_region_def)
  moreover have "lock_log2 14 = 15" by (simp add: lock_log2_def)
  ultimately show ?thesis by (simp add: page_locked_def lock_base_def)
qed

end
