(* ===== verification/KB_MmuHw.thy ===== *)
theory KB_MmuHw
  imports KB_LockRegion KB_MmuMode GR_Device
begin

text \<open>
  Programming the address spaces of the MMU in the driver: \<open>mmu/mali_kbase_mmu_hw_direct.c\<close>,
  \<open>mmu_update\<close> and \<open>mmu_disable_as\<close> of the two MMU modes, and the flushes, updates and disabling
  of \<open>mmu/mali_kbase_mmu.c\<close> that use them. The registers are the parameter \<open>mmio\<close>.
\<close>

unbundle bit_operations_syntax

section \<open>Registers and state\<close>

abbreviation (input) AS_MEMATTR_LO :: u32 where "AS_MEMATTR_LO \<equiv> 0x08"
abbreviation (input) AS_MEMATTR_HI :: u32 where "AS_MEMATTR_HI \<equiv> 0x0C"
abbreviation (input) AS_TRANSCFG_LO :: u32 where "AS_TRANSCFG_LO \<equiv> 0x30"
abbreviation (input) AS_TRANSCFG_HI :: u32 where "AS_TRANSCFG_HI \<equiv> 0x34"
abbreviation (input) MMU_CLEAR :: u32 where "MMU_CLEAR \<equiv> 0x004"
abbreviation (input) MMU_MASK :: u32 where "MMU_MASK \<equiv> 0x008"

abbreviation (input) AS_COMMAND_UPDATE :: u32 where "AS_COMMAND_UPDATE \<equiv> 1"
abbreviation (input) AS_COMMAND_UNLOCK :: u32 where "AS_COMMAND_UNLOCK \<equiv> 3"

definition AS_TRANSCFG_PTW_MEMATTR_MASK :: u64 where "AS_TRANSCFG_PTW_MEMATTR_MASK = push_bit 24 3"
definition AS_TRANSCFG_PTW_MEMATTR_WRITE_BACK :: u64 where "AS_TRANSCFG_PTW_MEMATTR_WRITE_BACK = push_bit 24 2"
definition AS_TRANSCFG_PTW_SH_MASK :: u64 where "AS_TRANSCFG_PTW_SH_MASK = push_bit 28 3"
definition AS_TRANSCFG_PTW_SH_OS :: u64 where "AS_TRANSCFG_PTW_SH_OS = push_bit 28 2"
definition AS_TRANSCFG_R_ALLOCATE :: u64 where "AS_TRANSCFG_R_ALLOCATE = push_bit 30 1"
definition AS_TRANSTAB_LPAE_SHARE_OUTER :: u64 where "AS_TRANSTAB_LPAE_SHARE_OUTER = push_bit 4 1"

text \<open>
  The device: whether it has the AArch64 page table format (which also decides its MMU mode) and
  the ACE coherency; the settings of its address spaces (\<open>kbdev->as[i].current_setup\<close>), whether a
  reset is in flight, the resets of the GPU that were requested, and the registers.
\<close>

record kb_conf =
  aarch64_mmu :: bool
  coherency_ace :: bool

record 'h kb =
  kb_as :: "nat \<Rightarrow> kbase_mmu_setup"
  irq_reset_flush :: bool
  resets :: nat
  kb_regs :: 'h

definition kbase_reg_write :: "'h mmio \<Rightarrow> u32 \<Rightarrow> u32 \<Rightarrow> 'h kb \<Rightarrow> 'h kb" where
  "kbase_reg_write hw offset value kb = kb\<lparr> kb_regs := mm_write hw offset value (kb_regs kb) \<rparr>"

definition kbase_reg_read :: "'h mmio \<Rightarrow> u32 \<Rightarrow> 'h kb \<Rightarrow> u32 \<times> 'h kb" where
  "kbase_reg_read hw offset kb =
     (let (val, h) = mm_read hw offset (kb_regs kb) in (val, kb\<lparr> kb_regs := h \<rparr>))"

definition AS_REG :: "nat \<Rightarrow> u32 \<Rightarrow> u32" where
  "AS_REG as_nr r = MMU_AS_REG (of_nat as_nr) r"

section \<open>Commands\<close>

fun as_wait_loop :: "'h mmio \<Rightarrow> nat \<Rightarrow> nat \<Rightarrow> u32 \<Rightarrow> 'h kb \<Rightarrow> nat \<times> 'h kb" where
  "as_wait_loop hw as_nr 0 val kb = (0, kb)"
| "as_wait_loop hw as_nr (Suc max_loops) val kb =
     (if max_loops \<noteq> 0 \<and> val AND AS_STATUS_AS_ACTIVE \<noteq> 0
      then let (val', kb') = kbase_reg_read hw (AS_REG as_nr AS_STATUS) kb
           in as_wait_loop hw as_nr max_loops val' kb'
      else (max_loops, kb))"

definition wait_ready :: "'h mmio \<Rightarrow> nat \<Rightarrow> 'h kb \<Rightarrow> int \<times> 'h kb" where
  "wait_ready hw as_nr kb =
     (let (val, kb1) = kbase_reg_read hw (AS_REG as_nr AS_STATUS) kb;
          (max_loops, kb2) = as_wait_loop hw as_nr KBASE_AS_INACTIVE_MAX_LOOPS val kb1
      in if max_loops = 0 then (-1, kb2)
         else if KBASE_AS_INACTIVE_MAX_LOOPS - 1 > max_loops
              then (0, snd (kbase_reg_read hw (AS_REG as_nr AS_STATUS) kb2))
              else (0, kb2))"

definition write_cmd :: "'h mmio \<Rightarrow> nat \<Rightarrow> u32 \<Rightarrow> 'h kb \<Rightarrow> int \<times> 'h kb" where
  "write_cmd hw as_nr cmd kb =
     (let (status, kb1) = wait_ready hw as_nr kb
      in (status, if status = 0 then kbase_reg_write hw (AS_REG as_nr AS_COMMAND) cmd kb1 else kb1))"

definition kbase_mmu_hw_do_operation ::
  "'h mmio \<Rightarrow> nat \<Rightarrow> u64 \<Rightarrow> u32 \<Rightarrow> u32 \<Rightarrow> 'h kb \<Rightarrow> int \<times> 'h kb" where
  "kbase_mmu_hw_do_operation hw as_nr vpfn nr op kb =
     (if op = AS_COMMAND_UNLOCK then write_cmd hw as_nr AS_COMMAND_UNLOCK kb
      else case lock_region vpfn nr of
        Inl err \<Rightarrow> (err, kb)
      | Inr lock_addr \<Rightarrow>
          let kb1 = kbase_reg_write hw (AS_REG as_nr AS_LOCKADDR_LO) (ucast (lock_addr AND 0xFFFFFFFF)) kb;
              kb2 = kbase_reg_write hw (AS_REG as_nr AS_LOCKADDR_HI)
                      (ucast (drop_bit 32 lock_addr AND 0xFFFFFFFF)) kb1;
              kb3 = snd (write_cmd hw as_nr AS_COMMAND_LOCK kb2);
              kb4 = snd (write_cmd hw as_nr op kb3)
          in wait_ready hw as_nr kb4)"

section \<open>Settings of an address space\<close>

definition hw_transcfg :: "kb_conf \<Rightarrow> u64 \<Rightarrow> u64" where
  "hw_transcfg cf t =
     (let t = t AND NOT AS_TRANSCFG_PTW_MEMATTR_MASK;
          t = t OR AS_TRANSCFG_PTW_MEMATTR_WRITE_BACK;
          t = t OR AS_TRANSCFG_R_ALLOCATE
      in if coherency_ace cf then (t AND NOT AS_TRANSCFG_PTW_SH_MASK) OR AS_TRANSCFG_PTW_SH_OS else t)"

definition kbase_mmu_hw_configure :: "'h mmio \<Rightarrow> kb_conf \<Rightarrow> nat \<Rightarrow> 'h kb \<Rightarrow> 'h kb" where
  "kbase_mmu_hw_configure hw cf as_nr kb =
     (let kb1 =
        (if aarch64_mmu cf
         then let t = hw_transcfg cf (transcfg (kb_as kb as_nr));
                  kb = kbase_reg_write hw (AS_REG as_nr AS_TRANSCFG_LO) (ucast t) kb
              in kbase_reg_write hw (AS_REG as_nr AS_TRANSCFG_HI) (ucast (drop_bit 32 t AND 0xFFFFFFFF)) kb
         else if coherency_ace cf
              then kb\<lparr> kb_as := (kb_as kb)(as_nr := (kb_as kb as_nr)\<lparr> transtab :=
                       transtab (kb_as kb as_nr) OR AS_TRANSTAB_LPAE_SHARE_OUTER \<rparr>) \<rparr>
              else kb);
          s = kb_as kb1 as_nr;
          kb2 = kbase_reg_write hw (AS_REG as_nr AS_TRANSTAB_LO) (ucast (transtab s AND 0xFFFFFFFF)) kb1;
          kb3 = kbase_reg_write hw (AS_REG as_nr AS_TRANSTAB_HI)
                  (ucast (drop_bit 32 (transtab s) AND 0xFFFFFFFF)) kb2;
          kb4 = kbase_reg_write hw (AS_REG as_nr AS_MEMATTR_LO) (ucast (memattr s AND 0xFFFFFFFF)) kb3;
          kb5 = kbase_reg_write hw (AS_REG as_nr AS_MEMATTR_HI)
                  (ucast (drop_bit 32 (memattr s) AND 0xFFFFFFFF)) kb4
      in snd (write_cmd hw as_nr AS_COMMAND_UPDATE kb5))"

text \<open>
  The operations of the two modes. \<open>as_nr\<close> is the C \<open>int\<close>; using an address space with a negative
  number is an invalid access, except in \<open>mmu_update\<close>, which checks for it.
\<close>

definition mode_as_setup :: "kb_conf \<Rightarrow> u64 \<Rightarrow> kbase_mmu_setup" where
  "mode_as_setup cf mmut_pgd =
     (if aarch64_mmu cf then kbase_mmu_get_as_setup mmut_pgd else mmu_get_as_setup mmut_pgd)"

definition mmu_update :: "'h mmio \<Rightarrow> kb_conf \<Rightarrow> u64 \<Rightarrow> int \<Rightarrow> 'h kb \<Rightarrow> 'h kb res" where
  "mmu_update hw cf mmut_pgd as_nr kb =
     (if as_nr = -1 then Inr kb
      else if as_nr < 0 then Inl Bad_Access
      else Inr (kbase_mmu_hw_configure hw cf (nat as_nr)
                  (kb\<lparr> kb_as := (kb_as kb)(nat as_nr := mode_as_setup cf mmut_pgd) \<rparr>)))"

definition unmapped_setup :: "kb_conf \<Rightarrow> kbase_mmu_setup \<Rightarrow> kbase_mmu_setup" where
  "unmapped_setup cf s =
     (if aarch64_mmu cf then s\<lparr> transtab := 0, transcfg := 1 \<rparr> else s\<lparr> transtab := 0 \<rparr>)"

definition mmu_disable_as :: "'h mmio \<Rightarrow> kb_conf \<Rightarrow> int \<Rightarrow> 'h kb \<Rightarrow> 'h kb res" where
  "mmu_disable_as hw cf as_nr kb =
     (if as_nr < 0 then Inl Bad_Access
      else Inr (kbase_mmu_hw_configure hw cf (nat as_nr)
                  (kb\<lparr> kb_as := (kb_as kb)(nat as_nr := unmapped_setup cf (kb_as kb (nat as_nr))) \<rparr>)))"

definition kbase_mmu_update :: "'h mmio \<Rightarrow> kb_conf \<Rightarrow> u64 \<Rightarrow> int \<Rightarrow> 'h kb \<Rightarrow> 'h kb res" where
  "kbase_mmu_update hw cf mmut_pgd as_nr kb = mmu_update hw cf mmut_pgd as_nr kb"

definition kbase_mmu_disable_as :: "'h mmio \<Rightarrow> kb_conf \<Rightarrow> int \<Rightarrow> 'h kb \<Rightarrow> 'h kb res" where
  "kbase_mmu_disable_as hw cf as_nr kb = mmu_disable_as hw cf as_nr kb"

text \<open>
  Flushes. A flush that does not complete requests a reset (\<open>kbase_prepare_to_reset_gpu\<close> and
  \<open>kbase_reset_gpu\<close>). The number of pages is a \<open>size_t\<close> that is passed on as a \<open>u32\<close>.
\<close>

definition flush_op :: "bool \<Rightarrow> u32" where
  "flush_op sync = (if sync then AS_COMMAND_FLUSH_MEM else AS_COMMAND_FLUSH_PT)"

definition kbase_mmu_flush_invalidate_noretain ::
  "'h mmio \<Rightarrow> int \<Rightarrow> u64 \<Rightarrow> u64 \<Rightarrow> bool \<Rightarrow> 'h kb \<Rightarrow> 'h kb res" where
  "kbase_mmu_flush_invalidate_noretain hw as_nr vpfn nr sync kb =
     (if nr = 0 then Inr kb
      else if as_nr < 0 then Inl Bad_Access
      else let (err, kb1) = kbase_mmu_hw_do_operation hw (nat as_nr) vpfn (ucast nr) (flush_op sync) kb
           in Inr (if err \<noteq> 0 then kb1\<lparr> resets := resets kb1 + 1 \<rparr> else kb1))"

text \<open>\<open>powered\<close> tells whether the GPU could be kept active (\<open>kbase_pm_context_active_handle_suspend\<close>).\<close>

definition kbase_mmu_flush_invalidate_as ::
  "'h mmio \<Rightarrow> bool \<Rightarrow> nat \<Rightarrow> u64 \<Rightarrow> u64 \<Rightarrow> bool \<Rightarrow> 'h kb \<Rightarrow> 'h kb" where
  "kbase_mmu_flush_invalidate_as hw powered as_nr vpfn nr sync kb =
     (if \<not> powered then kb
      else let (err, kb1) = kbase_mmu_hw_do_operation hw as_nr vpfn (ucast nr) (flush_op sync) kb
           in if err \<noteq> 0 then kb1\<lparr> resets := resets kb1 + 1 \<rparr> else kb1)"

definition kbase_mmu_disable :: "'h mmio \<Rightarrow> kb_conf \<Rightarrow> int \<Rightarrow> 'h kb \<Rightarrow> 'h kb res" where
  "kbase_mmu_disable hw cf as_nr kb =
     bindR (kbase_mmu_flush_invalidate_noretain hw as_nr 0 (NOT 0) True kb) (\<lambda>kb1.
       mmu_disable_as hw cf as_nr kb1)"

section \<open>Faults\<close>

datatype kbase_mmu_fault_type =
  FAULT_TYPE_UNKNOWN | FAULT_TYPE_PAGE | FAULT_TYPE_BUS | FAULT_TYPE_PAGE_UNEXPECTED
| FAULT_TYPE_BUS_UNEXPECTED

definition fault_bits :: "nat \<Rightarrow> kbase_mmu_fault_type \<Rightarrow> u32" where
  "fault_bits as_nr type =
     (let page = push_bit as_nr 1
      in if type = FAULT_TYPE_BUS \<or> type = FAULT_TYPE_BUS_UNEXPECTED
         then page OR push_bit (as_nr + 16) 1 else page)"

definition kbase_mmu_hw_clear_fault :: "'h mmio \<Rightarrow> nat \<Rightarrow> kbase_mmu_fault_type \<Rightarrow> 'h kb \<Rightarrow> 'h kb" where
  "kbase_mmu_hw_clear_fault hw as_nr type kb =
     (if irq_reset_flush kb then kb
      else kbase_reg_write hw (MMU_REG MMU_CLEAR) (fault_bits as_nr type) kb)"

definition kbase_mmu_hw_enable_fault :: "'h mmio \<Rightarrow> nat \<Rightarrow> kbase_mmu_fault_type \<Rightarrow> 'h kb \<Rightarrow> 'h kb" where
  "kbase_mmu_hw_enable_fault hw as_nr type kb =
     (if irq_reset_flush kb then kb
      else let (irq_mask, kb1) = kbase_reg_read hw (MMU_REG MMU_MASK) kb
           in kbase_reg_write hw (MMU_REG MMU_MASK) (irq_mask OR fault_bits as_nr type) kb1)"

section \<open>Sequences of register writes\<close>

text \<open>
  The statements below are about the writes that reach the registers: \<open>log\<close> gives those of a
  register state so far. An address space is idle when its status never shows a command being
  executed, and stuck when it always does.
\<close>

definition logged :: "'h mmio \<Rightarrow> ('h \<Rightarrow> (u32 \<times> u32) list) \<Rightarrow> bool" where
  "logged hw log \<longleftrightarrow> (\<forall>r h. log (snd (mm_read hw r h)) = log h) \<and>
     (\<forall>r v h. log (mm_write hw r v h) = log h @ [(r, v)])"

definition as_idle :: "'h mmio \<Rightarrow> nat \<Rightarrow> bool" where
  "as_idle hw as_nr \<longleftrightarrow> (\<forall>h. fst (mm_read hw (AS_REG as_nr AS_STATUS) h) AND 1 = 0)"

definition as_stuck :: "'h mmio \<Rightarrow> nat \<Rightarrow> bool" where
  "as_stuck hw as_nr \<longleftrightarrow> (\<forall>h. fst (mm_read hw (AS_REG as_nr AS_STATUS) h) AND 1 \<noteq> 0)"

text \<open>\<open>issues\<close>: a piece of code that leaves all but the registers alone and makes these writes.\<close>

definition issues :: "('h \<Rightarrow> (u32 \<times> u32) list) \<Rightarrow> 'h kb \<Rightarrow> 'h kb \<Rightarrow> (u32 \<times> u32) list \<Rightarrow> bool" where
  "issues log kb kb' ws \<longleftrightarrow> kb_as kb' = kb_as kb \<and> irq_reset_flush kb' = irq_reset_flush kb \<and>
     resets kb' = resets kb \<and> log (kb_regs kb') = log (kb_regs kb) @ ws"

lemma issues_trans: "issues log a b us \<Longrightarrow> issues log b c vs \<Longrightarrow> issues log a c (us @ vs)"
  by (simp add: issues_def)

lemma issues_refl: "issues log kb kb []"
  by (simp add: issues_def)

lemma issues_write: "logged hw log \<Longrightarrow> issues log kb (kbase_reg_write hw r v kb) [(r, v)]"
  by (simp add: issues_def kbase_reg_write_def logged_def)

lemma issues_read: "logged hw log \<Longrightarrow> issues log kb (snd (kbase_reg_read hw r kb)) []"
  by (simp add: issues_def kbase_reg_read_def logged_def split_beta)

lemma fst_read_status: "fst (kbase_reg_read hw r kb) = fst (mm_read hw r (kb_regs kb))"
  by (simp add: kbase_reg_read_def split_beta)

lemma wait_ready_idle:
  assumes "logged hw log" and "as_idle hw as_nr"
  obtains kb' where "wait_ready hw as_nr kb = (0, kb')" and "issues log kb kb' []"
proof -
  let ?r = "kbase_reg_read hw (AS_REG as_nr AS_STATUS) kb"
  have "as_wait_loop hw as_nr (Suc n) (fst ?r) (snd ?r) = (n, snd ?r)" for n
    using assms(2) by (simp add: as_idle_def fst_read_status)
  then have loop: "as_wait_loop hw as_nr KBASE_AS_INACTIVE_MAX_LOOPS (fst ?r) (snd ?r) =
      (KBASE_AS_INACTIVE_MAX_LOOPS - 1, snd ?r)"
    using Suc_diff_1 [of KBASE_AS_INACTIVE_MAX_LOOPS] by (metis zero_less_numeral)
  have "wait_ready hw as_nr kb = (0, snd ?r)"
    unfolding wait_ready_def split_beta Let_def loop by simp
  then show thesis using that issues_read [OF assms(1)] by blast
qed

lemma as_wait_loop_stuck:
  assumes "logged hw log" and "as_stuck hw as_nr" and "val AND 1 \<noteq> 0"
  shows "\<exists>kb'. as_wait_loop hw as_nr (Suc n) val kb = (0, kb') \<and> issues log kb kb' []"
  using assms(3)
proof (induction n arbitrary: val kb)
  case 0
  then show ?case by (simp add: issues_refl)
next
  case (Suc n)
  let ?r = "kbase_reg_read hw (AS_REG as_nr AS_STATUS) kb"
  have "fst ?r AND 1 \<noteq> 0" using assms(2) by (simp add: as_stuck_def fst_read_status)
  then obtain kb' where "as_wait_loop hw as_nr (Suc n) (fst ?r) (snd ?r) = (0, kb')"
    and "issues log (snd ?r) kb' []" using Suc.IH by blast
  moreover have "as_wait_loop hw as_nr (Suc (Suc n)) val kb = as_wait_loop hw as_nr (Suc n) (fst ?r) (snd ?r)"
    using Suc.prems by (subst as_wait_loop.simps) (simp add: split_beta)
  ultimately show ?case
    using issues_trans [OF issues_read [OF assms(1)]] by (metis append_Nil)
qed

lemma wait_ready_stuck:
  assumes "logged hw log" and "as_stuck hw as_nr"
  obtains kb' where "wait_ready hw as_nr kb = (-1, kb')" and "issues log kb kb' []"
proof -
  let ?r = "kbase_reg_read hw (AS_REG as_nr AS_STATUS) kb"
  have "fst ?r AND 1 \<noteq> 0" using assms(2) by (simp add: as_stuck_def fst_read_status)
  then obtain kb' where "as_wait_loop hw as_nr (Suc 99999999) (fst ?r) (snd ?r) = (0, kb')"
    and "issues log (snd ?r) kb' []" using as_wait_loop_stuck [OF assms] by blast
  moreover have "Suc 99999999 = KBASE_AS_INACTIVE_MAX_LOOPS" by simp
  ultimately have loop: "as_wait_loop hw as_nr KBASE_AS_INACTIVE_MAX_LOOPS (fst ?r) (snd ?r) = (0, kb')"
    by metis
  have "wait_ready hw as_nr kb = (-1, kb')"
    unfolding wait_ready_def split_beta Let_def loop by simp
  then show thesis
    using that issues_trans [OF issues_read [OF assms(1)] \<open>issues log (snd ?r) kb' []\<close>] by simp
qed

lemma write_cmd_idle:
  assumes "logged hw log" and "as_idle hw as_nr"
  obtains kb' where "write_cmd hw as_nr cmd kb = (0, kb')"
    and "issues log kb kb' [(AS_REG as_nr AS_COMMAND, cmd)]"
proof -
  obtain kb1 where wait: "wait_ready hw as_nr kb = (0, kb1)" and "issues log kb kb1 []"
    by (rule wait_ready_idle [OF assms])
  then show thesis
    using that issues_trans [OF _ issues_write [OF assms(1)]] by (fastforce simp: write_cmd_def)
qed

lemma write_cmd_stuck:
  assumes "logged hw log" and "as_stuck hw as_nr"
  obtains kb' where "write_cmd hw as_nr cmd kb = (-1, kb')" and "issues log kb kb' []"
proof -
  obtain kb1 where wait: "wait_ready hw as_nr kb = (-1, kb1)" and "issues log kb kb1 []"
    by (rule wait_ready_stuck [OF assms])
  then show thesis using that by (simp add: write_cmd_def)
qed

text \<open>The writes that lock a region.\<close>

definition lock_writes :: "nat \<Rightarrow> u64 \<Rightarrow> (u32 \<times> u32) list" where
  "lock_writes as_nr a =
     [(AS_REG as_nr AS_LOCKADDR_LO, ucast a), (AS_REG as_nr AS_LOCKADDR_HI, ucast (drop_bit 32 a))]"

lemma ucast_low: "ucast (x AND 0xFFFFFFFF :: u64) = (ucast x :: u32)"
proof -
  have "(0xFFFFFFFF :: u64) = mask 32" by (simp add: mask_eq_exp_minus_1)
  then have "bit (0xFFFFFFFF :: u64) n" if "n < 32" for n
    using that by (simp only: bit_mask_iff) auto
  then show ?thesis by (intro bit_word_eqI) (simp add: bit_simps)
qed

lemma do_operation_idle:
  assumes "logged hw log" and "as_idle hw as_nr" and "lock_region vpfn nr = Inr a"
    and "op \<noteq> AS_COMMAND_UNLOCK"
  obtains kb' where "kbase_mmu_hw_do_operation hw as_nr vpfn nr op kb = (0, kb')"
    and "issues log kb kb' (lock_writes as_nr a @
           [(AS_REG as_nr AS_COMMAND, AS_COMMAND_LOCK), (AS_REG as_nr AS_COMMAND, op)])"
proof -
  let ?kb2 = "kbase_reg_write hw (AS_REG as_nr AS_LOCKADDR_HI) (ucast (drop_bit 32 a))
                (kbase_reg_write hw (AS_REG as_nr AS_LOCKADDR_LO) (ucast a) kb)"
  obtain kb3 where kb3: "write_cmd hw as_nr AS_COMMAND_LOCK ?kb2 = (0, kb3)"
    "issues log ?kb2 kb3 [(AS_REG as_nr AS_COMMAND, AS_COMMAND_LOCK)]"
    by (rule write_cmd_idle [OF assms(1,2)])
  obtain kb4 where kb4: "write_cmd hw as_nr op kb3 = (0, kb4)"
    "issues log kb3 kb4 [(AS_REG as_nr AS_COMMAND, op)]"
    by (rule write_cmd_idle [OF assms(1,2)])
  obtain kb5 where kb5: "wait_ready hw as_nr kb4 = (0, kb5)" "issues log kb4 kb5 []"
    by (rule wait_ready_idle [OF assms(1,2)])
  have "kbase_mmu_hw_do_operation hw as_nr vpfn nr op kb = (0, kb5)"
    using assms(3,4) kb3(1) kb4(1) kb5(1)
    by (simp add: kbase_mmu_hw_do_operation_def ucast_low)
  moreover have "issues log kb ?kb2 (lock_writes as_nr a)"
    using issues_trans [OF issues_write [OF assms(1)] issues_write [OF assms(1)]]
    by (simp add: lock_writes_def)
  ultimately show thesis
    using that issues_trans [OF issues_trans [OF issues_trans [OF _ kb3(2)] kb4(2)] kb5(2)] by fastforce
qed

lemma do_operation_stuck:
  assumes "logged hw log" and "as_stuck hw as_nr" and "lock_region vpfn nr = Inr a"
    and "op \<noteq> AS_COMMAND_UNLOCK"
  obtains kb' where "kbase_mmu_hw_do_operation hw as_nr vpfn nr op kb = (-1, kb')"
    and "issues log kb kb' (lock_writes as_nr a)"
proof -
  let ?kb2 = "kbase_reg_write hw (AS_REG as_nr AS_LOCKADDR_HI) (ucast (drop_bit 32 a))
                (kbase_reg_write hw (AS_REG as_nr AS_LOCKADDR_LO) (ucast a) kb)"
  obtain kb3 where kb3: "write_cmd hw as_nr AS_COMMAND_LOCK ?kb2 = (-1, kb3)" "issues log ?kb2 kb3 []"
    by (rule write_cmd_stuck [OF assms(1,2)])
  obtain kb4 where kb4: "write_cmd hw as_nr op kb3 = (-1, kb4)" "issues log kb3 kb4 []"
    by (rule write_cmd_stuck [OF assms(1,2)])
  obtain kb5 where kb5: "wait_ready hw as_nr kb4 = (-1, kb5)" "issues log kb4 kb5 []"
    by (rule wait_ready_stuck [OF assms(1,2)])
  have "kbase_mmu_hw_do_operation hw as_nr vpfn nr op kb = (-1, kb5)"
    using assms(3,4) kb3(1) kb4(1) kb5(1)
    by (simp add: kbase_mmu_hw_do_operation_def ucast_low)
  moreover have "issues log kb ?kb2 (lock_writes as_nr a)"
    using issues_trans [OF issues_write [OF assms(1)] issues_write [OF assms(1)]]
    by (simp add: lock_writes_def)
  ultimately show thesis
    using that issues_trans [OF issues_trans [OF issues_trans [OF _ kb3(2)] kb4(2)] kb5(2)] by fastforce
qed

lemma ucast_high: "ucast (drop_bit 32 x AND 0xFFFFFFFF :: u64) = (ucast (drop_bit 32 x) :: u32)"
  by (rule ucast_low)

text \<open>
  An operation on an address space whose MMU is ready locks the region of the request, gives
  the lock command and then the operation, and succeeds; when a command never completes the
  region is written, no command is given and the operation fails.
\<close>

theorem kbase_mmu_hw_do_operation_locks:
  assumes "logged hw log" and "lock_region vpfn nr = Inr a" and "op \<noteq> AS_COMMAND_UNLOCK"
  shows "(as_idle hw as_nr \<longrightarrow>
            (\<exists>kb'. kbase_mmu_hw_do_operation hw as_nr vpfn nr op kb = (0, kb') \<and>
               log (kb_regs kb') = log (kb_regs kb) @
                 [(AS_REG as_nr AS_LOCKADDR_LO, ucast a), (AS_REG as_nr AS_LOCKADDR_HI, ucast (drop_bit 32 a)),
                  (AS_REG as_nr AS_COMMAND, AS_COMMAND_LOCK), (AS_REG as_nr AS_COMMAND, op)])) \<and>
         (as_stuck hw as_nr \<longrightarrow>
            (\<exists>kb'. kbase_mmu_hw_do_operation hw as_nr vpfn nr op kb = (-1, kb') \<and>
               log (kb_regs kb') = log (kb_regs kb) @
                 [(AS_REG as_nr AS_LOCKADDR_LO, ucast a), (AS_REG as_nr AS_LOCKADDR_HI, ucast (drop_bit 32 a))]))"
proof (intro conjI impI)
  assume "as_idle hw as_nr"
  then obtain kb' where "kbase_mmu_hw_do_operation hw as_nr vpfn nr op kb = (0, kb')"
    and "issues log kb kb' (lock_writes as_nr a @
           [(AS_REG as_nr AS_COMMAND, AS_COMMAND_LOCK), (AS_REG as_nr AS_COMMAND, op)])"
    by (rule do_operation_idle [OF assms(1) _ assms(2,3)])
  then show "\<exists>kb'. kbase_mmu_hw_do_operation hw as_nr vpfn nr op kb = (0, kb') \<and>
               log (kb_regs kb') = log (kb_regs kb) @
                 [(AS_REG as_nr AS_LOCKADDR_LO, ucast a), (AS_REG as_nr AS_LOCKADDR_HI, ucast (drop_bit 32 a)),
                  (AS_REG as_nr AS_COMMAND, AS_COMMAND_LOCK), (AS_REG as_nr AS_COMMAND, op)]"
    by (simp add: issues_def lock_writes_def)
next
  assume "as_stuck hw as_nr"
  then obtain kb' where "kbase_mmu_hw_do_operation hw as_nr vpfn nr op kb = (-1, kb')"
    and "issues log kb kb' (lock_writes as_nr a)"
    by (rule do_operation_stuck [OF assms(1) _ assms(2,3)])
  then show "\<exists>kb'. kbase_mmu_hw_do_operation hw as_nr vpfn nr op kb = (-1, kb') \<and>
               log (kb_regs kb') = log (kb_regs kb) @
                 [(AS_REG as_nr AS_LOCKADDR_LO, ucast a), (AS_REG as_nr AS_LOCKADDR_HI, ucast (drop_bit 32 a))]"
    by (simp add: issues_def lock_writes_def)
qed

text \<open>Registers that keep the log of their writes and answer every read with one value.\<close>

definition log_regs :: "u32 \<Rightarrow> (u32 \<times> u32) list mmio" where
  "log_regs v = \<lparr> mm_read = (\<lambda>r h. (v, h)), mm_write = (\<lambda>r w h. h @ [(r, w)]) \<rparr>"

definition demo_kb :: "(u32 \<times> u32) list kb" where
  "demo_kb = \<lparr> kb_as = (\<lambda>i. \<lparr> transtab = 0, memattr = 0, transcfg = 1 \<rparr>), irq_reset_flush = False,
               resets = 0, kb_regs = [] \<rparr>"

lemma log_regs_logged: "logged (log_regs v) (\<lambda>h. h)"
  by (simp add: logged_def log_regs_def)

lemma log_regs_idle: "as_idle (log_regs 0) as_nr" and log_regs_stuck: "as_stuck (log_regs 1) as_nr"
  by (simp_all add: as_idle_def as_stuck_def log_regs_def)

lemma kbase_mmu_hw_do_operation_locks_witness:
  "\<exists>kb1 kb2. kbase_mmu_hw_do_operation (log_regs 0) 1 7 2 AS_COMMAND_FLUSH_MEM demo_kb = (0, kb1) \<and>
     kbase_mmu_hw_do_operation (log_regs 1) 1 7 2 AS_COMMAND_FLUSH_MEM demo_kb = (-1, kb2) \<and>
     length (kb_regs kb1) = 4 \<and> length (kb_regs kb2) = 2"
proof -
  have region: "lock_region 7 2 = Inr 14" by code_simp
  obtain kb1 where "kbase_mmu_hw_do_operation (log_regs 0) 1 7 2 AS_COMMAND_FLUSH_MEM demo_kb = (0, kb1)"
    and "length (kb_regs kb1) = 4"
    using kbase_mmu_hw_do_operation_locks [OF log_regs_logged [of 0] region,
        of AS_COMMAND_FLUSH_MEM 1 demo_kb] log_regs_idle [of 1] by (auto simp: demo_kb_def)
  moreover obtain kb2
    where "kbase_mmu_hw_do_operation (log_regs 1) 1 7 2 AS_COMMAND_FLUSH_MEM demo_kb = (-1, kb2)"
    and "length (kb_regs kb2) = 2"
    using kbase_mmu_hw_do_operation_locks [OF log_regs_logged [of 1] region,
        of AS_COMMAND_FLUSH_MEM 1 demo_kb] log_regs_stuck [of 1] by (auto simp: demo_kb_def)
  ultimately show ?thesis by blast
qed

section \<open>Programming and disabling an address space\<close>

text \<open>The writes of \<open>kbase_mmu_hw_configure\<close> from the translation table base on.\<close>

definition setup_writes :: "nat \<Rightarrow> kbase_mmu_setup \<Rightarrow> (u32 \<times> u32) list" where
  "setup_writes as_nr s =
     [(AS_REG as_nr AS_TRANSTAB_LO, ucast (transtab s)),
      (AS_REG as_nr AS_TRANSTAB_HI, ucast (drop_bit 32 (transtab s))),
      (AS_REG as_nr AS_MEMATTR_LO, ucast (memattr s)),
      (AS_REG as_nr AS_MEMATTR_HI, ucast (drop_bit 32 (memattr s))),
      (AS_REG as_nr AS_COMMAND, AS_COMMAND_UPDATE)]"

definition cfg_writes :: "kb_conf \<Rightarrow> nat \<Rightarrow> kbase_mmu_setup \<Rightarrow> (u32 \<times> u32) list" where
  "cfg_writes cf as_nr s =
     (let t = hw_transcfg cf (transcfg s)
      in if aarch64_mmu cf
         then [(AS_REG as_nr AS_TRANSCFG_LO, ucast t), (AS_REG as_nr AS_TRANSCFG_HI, ucast (drop_bit 32 t))]
         else [])"

lemma kb_as_write [simp]: "kb_as (kbase_reg_write hw r v kb) = kb_as kb"
  by (simp add: kbase_reg_write_def)

text \<open>The setting an address space has in the end.\<close>

definition final_setup :: "kb_conf \<Rightarrow> kbase_mmu_setup \<Rightarrow> kbase_mmu_setup" where
  "final_setup cf s =
     (if \<not> aarch64_mmu cf \<and> coherency_ace cf
      then s\<lparr> transtab := transtab s OR AS_TRANSTAB_LPAE_SHARE_OUTER \<rparr> else s)"

lemma kb_as_read [simp]: "kb_as (snd (kbase_reg_read hw r kb)) = kb_as kb"
  by (simp add: kbase_reg_read_def split_beta)

lemma wait_ready_as [simp]: "kb_as (snd (wait_ready hw as_nr kb)) = kb_as kb"
proof -
  have "kb_as (snd (as_wait_loop hw as_nr n val kb)) = kb_as kb" for n val and kb :: "'a kb"
    by (induction n arbitrary: val kb) (simp_all add: split_beta)
  then show ?thesis by (simp add: wait_ready_def split_beta)
qed

lemma write_cmd_as [simp]: "kb_as (snd (write_cmd hw as_nr cmd kb)) = kb_as kb"
  by (simp add: write_cmd_def split_beta)

lemma do_operation_as [simp]:
  "kb_as (snd (kbase_mmu_hw_do_operation hw as_nr vpfn nr op kb)) = kb_as kb"
  by (simp add: kbase_mmu_hw_do_operation_def Let_def split: sum.splits)

lemma kbase_mmu_hw_configure_as:
  "kb_as (kbase_mmu_hw_configure hw cf as_nr kb) =
     (kb_as kb)(as_nr := final_setup cf (kb_as kb as_nr))"
  by (simp add: kbase_mmu_hw_configure_def final_setup_def Let_def)

lemma kbase_mmu_update_setup:
  obtains kb' where "kbase_mmu_update hw cf p (int i) kb = Inr kb'"
    and "kb_as kb' = (kb_as kb)(i := final_setup cf (mode_as_setup cf p))"
  by (simp add: kbase_mmu_update_def mmu_update_def kbase_mmu_hw_configure_as)

lemma kbase_mmu_disable_as_setup:
  obtains kb' where "kbase_mmu_disable_as hw cf (int i) kb = Inr kb'"
    and "\<forall>j. j \<noteq> i \<longrightarrow> kb_as kb' j = kb_as kb j"
  by (simp add: kbase_mmu_disable_as_def mmu_disable_as_def kbase_mmu_hw_configure_as)

lemma all_pages_u32: "(ucast (NOT 0 :: u64) :: u32) = 0xFFFFFFFF"
proof -
  have "(0xFFFFFFFF :: u32) = NOT 0" by simp
  then show ?thesis by (simp only:) (rule bit_word_eqI, simp only: bit_simps, simp)
qed

lemma kbase_mmu_disable_setup:
  obtains kb' where "kbase_mmu_disable hw cf (int i) kb = Inr kb'"
    and "\<forall>j. j \<noteq> i \<longrightarrow> kb_as kb' j = kb_as kb j"
proof -
  let ?op = "kbase_mmu_hw_do_operation hw i 0 0xFFFFFFFF (flush_op True) kb"
  let ?kb1 = "if fst ?op \<noteq> 0 then (snd ?op)\<lparr> resets := resets (snd ?op) + 1 \<rparr> else snd ?op"
  have nz: "(NOT 0 :: u64) \<noteq> 0" by simp
  have "kbase_mmu_flush_invalidate_noretain hw (int i) 0 (NOT 0) True kb = Inr ?kb1"
    unfolding kbase_mmu_flush_invalidate_noretain_def all_pages_u32 if_not_P [OF nz]
    by (simp add: split_beta)
  moreover have "kb_as ?kb1 = kb_as kb" by simp
  ultimately show thesis
    using that by (simp add: kbase_mmu_disable_def mmu_disable_as_def kbase_mmu_hw_configure_as)
qed

lemma issues_writes2:
  assumes "logged hw log"
  shows "issues log kb (kbase_reg_write hw r2 v2 (kbase_reg_write hw r1 v1 kb)) [(r1, v1), (r2, v2)]"
  using issues_trans [OF issues_write [OF assms] issues_write [OF assms]] by simp

lemma setup_written:
  assumes "logged hw log" and "as_idle hw as_nr"
  shows "issues log kb (snd (write_cmd hw as_nr AS_COMMAND_UPDATE
           (kbase_reg_write hw (AS_REG as_nr AS_MEMATTR_HI) (ucast (drop_bit 32 (memattr s)))
             (kbase_reg_write hw (AS_REG as_nr AS_MEMATTR_LO) (ucast (memattr s))
               (kbase_reg_write hw (AS_REG as_nr AS_TRANSTAB_HI) (ucast (drop_bit 32 (transtab s)))
                 (kbase_reg_write hw (AS_REG as_nr AS_TRANSTAB_LO) (ucast (transtab s)) kb))))))
           (setup_writes as_nr s)"
  (is "issues log kb (snd (write_cmd hw as_nr _ ?kb4)) _")
proof -
  obtain kb' where "write_cmd hw as_nr AS_COMMAND_UPDATE ?kb4 = (0, kb')"
    and "issues log ?kb4 kb' [(AS_REG as_nr AS_COMMAND, AS_COMMAND_UPDATE)]"
    by (rule write_cmd_idle [OF assms])
  moreover note issues_trans [OF issues_writes2 [OF assms(1)] issues_writes2 [OF assms(1)]]
  ultimately show ?thesis
    using issues_trans unfolding setup_writes_def by fastforce
qed

lemma kbase_mmu_hw_configure_writes:
  assumes "logged hw log" and "as_idle hw as_nr"
  shows "log (kb_regs (kbase_mmu_hw_configure hw cf as_nr kb)) =
    log (kb_regs kb) @ cfg_writes cf as_nr (kb_as kb as_nr) @
    setup_writes as_nr (final_setup cf (kb_as kb as_nr))"
proof (cases "aarch64_mmu cf")
  case True
  let ?u = "hw_transcfg cf (transcfg (kb_as kb as_nr))"
  let ?kb1 = "kbase_reg_write hw (AS_REG as_nr AS_TRANSCFG_HI) (ucast (drop_bit 32 ?u))
      (kbase_reg_write hw (AS_REG as_nr AS_TRANSCFG_LO) (ucast ?u) kb)"
  have first: "issues log kb ?kb1 (cfg_writes cf as_nr (kb_as kb as_nr))"
    using issues_writes2 [OF assms(1), of kb "AS_REG as_nr AS_TRANSCFG_HI" "ucast (drop_bit 32 ?u)"
        "AS_REG as_nr AS_TRANSCFG_LO" "ucast ?u"] True
    by (simp add: cfg_writes_def Let_def)
  have conf: "kbase_mmu_hw_configure hw cf as_nr kb =
      snd (write_cmd hw as_nr AS_COMMAND_UPDATE
           (kbase_reg_write hw (AS_REG as_nr AS_MEMATTR_HI) (ucast (drop_bit 32 (memattr (kb_as kb as_nr))))
             (kbase_reg_write hw (AS_REG as_nr AS_MEMATTR_LO) (ucast (memattr (kb_as kb as_nr)))
               (kbase_reg_write hw (AS_REG as_nr AS_TRANSTAB_HI) (ucast (drop_bit 32 (transtab (kb_as kb as_nr))))
                 (kbase_reg_write hw (AS_REG as_nr AS_TRANSTAB_LO) (ucast (transtab (kb_as kb as_nr))) ?kb1)))))"
    unfolding kbase_mmu_hw_configure_def Let_def if_P [OF True] ucast_low kb_as_write by (rule refl)
  show ?thesis
    using issues_trans [OF first setup_written [OF assms, of ?kb1 "kb_as kb as_nr"]] True
    unfolding conf by (simp add: issues_def final_setup_def)
next
  case False
  let ?kb1 = "kb\<lparr> kb_as := (kb_as kb)(as_nr := final_setup cf (kb_as kb as_nr)) \<rparr>"
  let ?s = "final_setup cf (kb_as kb as_nr)"
  have conf: "kbase_mmu_hw_configure hw cf as_nr kb =
      snd (write_cmd hw as_nr AS_COMMAND_UPDATE
           (kbase_reg_write hw (AS_REG as_nr AS_MEMATTR_HI) (ucast (drop_bit 32 (memattr ?s)))
             (kbase_reg_write hw (AS_REG as_nr AS_MEMATTR_LO) (ucast (memattr ?s))
               (kbase_reg_write hw (AS_REG as_nr AS_TRANSTAB_HI) (ucast (drop_bit 32 (transtab ?s)))
                 (kbase_reg_write hw (AS_REG as_nr AS_TRANSTAB_LO) (ucast (transtab ?s)) ?kb1)))))"
    using False
    by (simp add: kbase_mmu_hw_configure_def Let_def ucast_low final_setup_def)
  show ?thesis
    using setup_written [OF assms, of ?kb1 ?s] False
    unfolding conf by (simp add: issues_def cfg_writes_def)
qed

lemma word_halves:
  fixes x :: u64
  shows "(ucast (ucast x :: u32) :: u64) OR push_bit 32 (ucast (ucast (drop_bit 32 x) :: u32) :: u64) = x"
proof (rule bit_word_eqI)
  fix n assume "n < LENGTH(64)"
  then show "bit ((ucast (ucast x :: u32) :: u64) OR
        push_bit 32 (ucast (ucast (drop_bit 32 x) :: u32) :: u64)) n \<longleftrightarrow> bit x n"
    by (cases "n < 32") (auto simp: bit_simps)
qed

lemma final_setup_base:
  assumes "page_aligned p" and "p < 2 ^ 40"
  shows "transtab (final_setup cf (mode_as_setup cf p)) AND PAGE_MASK = p"
proof (cases "aarch64_mmu cf")
  case True
  then show ?thesis
    using kbase_mmu_get_as_setup_transtab [OF assms] and_mask_page [OF assms(1)]
    by (simp add: final_setup_def mode_as_setup_def)
next
  case False
  let ?x = "transtab (mmu_get_as_setup p)"
  have "AS_TRANSTAB_LPAE_SHARE_OUTER AND PAGE_MASK = 0"
    by (simp add: AS_TRANSTAB_LPAE_SHARE_OUTER_def mask_eq_exp_minus_1)
  then have "(?x OR AS_TRANSTAB_LPAE_SHARE_OUTER) AND PAGE_MASK = ?x AND PAGE_MASK"
    by (simp only: bit.conj_disj_distrib2 or.right_neutral)
  then show ?thesis
    using False mmu_get_as_setup_transtab [OF assms(1)]
    by (simp add: final_setup_def mode_as_setup_def)
qed

text \<open>
  Giving an address space to a page table programs the MMU with it: on an idle address space
  the last writes are the translation table base, the memory attributes and the update command,
  the two halves of the base hold the address of the page directory in both page table formats,
  and the driver's copy of the setting is the one that was programmed.
\<close>

theorem kbase_mmu_update_programs:
  assumes "logged hw log" and "as_idle hw i" and "page_aligned p" and "p < 2 ^ 40"
  shows "\<exists>kb' cfg lo hi mlo mhi. kbase_mmu_update hw cf p (int i) kb = Inr kb' \<and>
           log (kb_regs kb') = log (kb_regs kb) @ cfg @
             [(AS_REG i AS_TRANSTAB_LO, lo), (AS_REG i AS_TRANSTAB_HI, hi),
              (AS_REG i AS_MEMATTR_LO, mlo), (AS_REG i AS_MEMATTR_HI, mhi),
              (AS_REG i AS_COMMAND, AS_COMMAND_UPDATE)] \<and>
           fst ` set cfg \<subseteq> {AS_REG i AS_TRANSCFG_LO, AS_REG i AS_TRANSCFG_HI} \<and>
           ucast lo OR push_bit 32 (ucast hi) = transtab (kb_as kb' i) \<and>
           transtab (kb_as kb' i) AND PAGE_MASK = p"
proof -
  let ?kb1 = "kb\<lparr> kb_as := (kb_as kb)(i := mode_as_setup cf p) \<rparr>"
  let ?kb2 = "kbase_mmu_hw_configure hw cf i ?kb1"
  let ?s = "final_setup cf (mode_as_setup cf p)"
  have upd: "kbase_mmu_update hw cf p (int i) kb = Inr ?kb2"
    by (simp add: kbase_mmu_update_def mmu_update_def)
  have as: "kb_as ?kb2 i = ?s" by (simp add: kbase_mmu_hw_configure_as)
  have cfg: "fst ` set (cfg_writes cf i (mode_as_setup cf p)) \<subseteq>
      {AS_REG i AS_TRANSCFG_LO, AS_REG i AS_TRANSCFG_HI}"
    by (auto simp: cfg_writes_def Let_def)
  have "log (kb_regs ?kb2) = log (kb_regs kb) @ cfg_writes cf i (mode_as_setup cf p) @ setup_writes i ?s"
    using kbase_mmu_hw_configure_writes [OF assms(1,2), of cf ?kb1] by simp
  then show ?thesis
    using upd as cfg word_halves [of "transtab ?s"] final_setup_base [OF assms(3,4), of cf]
    unfolding setup_writes_def by metis
qed

lemma kbase_mmu_update_programs_witness:
  "\<exists>kb'. kbase_mmu_update (log_regs 0) \<lparr> aarch64_mmu = True, coherency_ace = False \<rparr> 0x5000 1 demo_kb = Inr kb' \<and>
     transtab (kb_as kb' 1) AND PAGE_MASK = 0x5000"
  using kbase_mmu_update_programs [OF log_regs_logged [of 0] log_regs_idle [of 1], of "0x5000"
      "\<lparr> aarch64_mmu = True, coherency_ace = False \<rparr>" demo_kb]
  by (auto simp: page_aligned_def)

text \<open>
  Disabling the address space of a context flushes before it unmaps: on an idle address space
  the region is locked and flushed, then the setting is written without a table. The region is
  meant to be everything, but the number of pages \<open>~0\<close> is cut to 32 bits on the way, so pages from
  the frame number \<open>2 ^ 32\<close> on, which a 48-bit address space has, are not in it.
\<close>

theorem kbase_mmu_disable_flushes_low_pages:
  assumes "logged hw log" and "as_idle hw i"
  shows "\<exists>kb' a ws. kbase_mmu_disable hw cf (int i) kb = Inr kb' \<and>
           log (kb_regs kb') = log (kb_regs kb) @
             [(AS_REG i AS_LOCKADDR_LO, ucast a), (AS_REG i AS_LOCKADDR_HI, ucast (drop_bit 32 a)),
              (AS_REG i AS_COMMAND, AS_COMMAND_LOCK), (AS_REG i AS_COMMAND, AS_COMMAND_FLUSH_MEM)] @ ws @
             [(AS_REG i AS_COMMAND, AS_COMMAND_UPDATE)] \<and>
           (\<forall>p. page_locked a p \<longleftrightarrow> p < 2 ^ 32) \<and>
           kb_as kb' i = final_setup cf (unmapped_setup cf (kb_as kb i))"
proof -
  have region: "lock_region 0 0xFFFFFFFF = Inr 43" by code_simp
  have "lock_log2 43 = 44" by code_simp
  then have locked: "page_locked 43 p \<longleftrightarrow> p < 2 ^ 32" for p
    by (auto simp: page_locked_def lock_base_def)
  obtain kb1 where kb1: "kbase_mmu_hw_do_operation hw i 0 0xFFFFFFFF AS_COMMAND_FLUSH_MEM kb = (0, kb1)"
    and first: "issues log kb kb1 (lock_writes i 43 @
           [(AS_REG i AS_COMMAND, AS_COMMAND_LOCK), (AS_REG i AS_COMMAND, AS_COMMAND_FLUSH_MEM)])"
    using do_operation_idle [OF assms region, of AS_COMMAND_FLUSH_MEM kb] by auto
  let ?kb2 = "kb1\<lparr> kb_as := (kb_as kb1)(i := unmapped_setup cf (kb_as kb1 i)) \<rparr>"
  let ?kb3 = "kbase_mmu_hw_configure hw cf i ?kb2"
  have nz: "(NOT 0 :: u64) \<noteq> 0" by simp
  have dis: "kbase_mmu_disable hw cf (int i) kb = Inr ?kb3"
    using kb1
    unfolding kbase_mmu_disable_def kbase_mmu_flush_invalidate_noretain_def all_pages_u32
      if_not_P [OF nz] by (simp add: flush_op_def mmu_disable_as_def)
  have as: "kb_as ?kb3 i = final_setup cf (unmapped_setup cf (kb_as kb i))"
    using first by (simp add: kbase_mmu_hw_configure_as issues_def)
  let ?tl = "setup_writes i (kb_as ?kb3 i)"
  obtain pre where "?tl = pre @ [(AS_REG i AS_COMMAND, AS_COMMAND_UPDATE)]"
    by (simp add: setup_writes_def)
  moreover have "log (kb_regs ?kb3) = log (kb_regs ?kb2) @ cfg_writes cf i (kb_as ?kb2 i) @ ?tl"
    unfolding kbase_mmu_hw_configure_writes [OF assms] by (simp add: kbase_mmu_hw_configure_as)
  ultimately have "log (kb_regs ?kb3) = log (kb_regs kb) @
      [(AS_REG i AS_LOCKADDR_LO, ucast (43 :: u64)), (AS_REG i AS_LOCKADDR_HI, ucast (drop_bit 32 (43 :: u64))),
       (AS_REG i AS_COMMAND, AS_COMMAND_LOCK), (AS_REG i AS_COMMAND, AS_COMMAND_FLUSH_MEM)] @
      (cfg_writes cf i (kb_as ?kb2 i) @ pre) @ [(AS_REG i AS_COMMAND, AS_COMMAND_UPDATE)]"
    using first by (simp add: issues_def lock_writes_def)
  then show ?thesis using dis locked as by blast
qed

lemma kbase_mmu_disable_flushes_low_pages_witness:
  "\<exists>kb' a. kbase_mmu_disable (log_regs 0) \<lparr> aarch64_mmu = True, coherency_ace = False \<rparr> 1 demo_kb = Inr kb' \<and>
     transcfg (kb_as kb' 1) = 1 \<and> page_locked a 0 \<and> \<not> page_locked a (2 ^ 32)"
proof -
  obtain kb' a where "kbase_mmu_disable (log_regs 0) \<lparr> aarch64_mmu = True, coherency_ace = False \<rparr> 1 demo_kb = Inr kb'"
    and "\<forall>p. page_locked a p \<longleftrightarrow> p < 2 ^ 32"
    and "kb_as kb' 1 = final_setup \<lparr> aarch64_mmu = True, coherency_ace = False \<rparr>
           (unmapped_setup \<lparr> aarch64_mmu = True, coherency_ace = False \<rparr> (kb_as demo_kb 1))"
    using kbase_mmu_disable_flushes_low_pages [OF log_regs_logged [of 0] log_regs_idle [of 1],
        of "\<lparr> aarch64_mmu = True, coherency_ace = False \<rparr>" demo_kb] by auto
  then show ?thesis
    by (intro exI [of _ kb'] exI [of _ a]) (simp add: final_setup_def unmapped_setup_def)
qed

end
