(* ===== verification/KB_CtxSched.thy ===== *)
theory KB_CtxSched
  imports KB_MmuHw
begin

text \<open>
  The assignment of GPU address spaces to contexts (\<open>mali_kbase_ctx_sched.c\<close>) over the programming
  of address spaces in \<open>KB_MmuHw\<close>. Contexts are elements of a type \<open>'c\<close>.
\<close>

unbundle bit_operations_syntax

section \<open>State\<close>

text \<open>
  The fields of \<open>struct kbase_device\<close> and of \<open>struct kbase_context\<close> that the component uses.
  \<open>as_to_kctx\<close> has \<open>BASE_MAX_NR_AS\<close> places, only the first \<open>nr_hw_address_spaces\<close> are used.
  \<open>mmut_pgd_of\<close> is the page directory of a context, which does not change.
\<close>

abbreviation (input) BASE_MAX_NR_AS :: nat where "BASE_MAX_NR_AS \<equiv> 16"
abbreviation (input) KBASEP_AS_NR_INVALID :: int where "KBASEP_AS_NR_INVALID \<equiv> -1"

record ('c, 'h) sched =
  nr_hw_address_spaces :: nat
  nr_user_address_spaces :: nat
  as_free :: u16
  as_to_kctx :: "nat \<Rightarrow> 'c option"
  as_nr_of :: "'c \<Rightarrow> int"
  refcount :: "'c \<Rightarrow> int"
  mmut_pgd_of :: "'c \<Rightarrow> u64"
  gpu_powered :: bool
  kbdev :: "'h kb"

section \<open>Operations\<close>

definition kbase_ctx_sched_init :: "('c, 'h) sched \<Rightarrow> int \<times> ('c, 'h) sched" where
  "kbase_ctx_sched_init s =
     (let as_present = push_bit (nr_hw_address_spaces s) (1 :: u32) - 1
      in (0, s\<lparr> nr_user_address_spaces := nr_hw_address_spaces s, as_free := ucast as_present,
                as_to_kctx := (\<lambda>i. None) \<rparr>))"

text \<open>\<open>kbase_ctx_sched_term\<close> only checks; its result here is whether one of its warnings fires.\<close>

definition kbase_ctx_sched_term :: "('c, 'h) sched \<Rightarrow> bool" where
  "kbase_ctx_sched_term s =
     list_ex (\<lambda>i. as_to_kctx s i \<noteq> None \<or> \<not> bit (as_free s) i) [0..<nr_hw_address_spaces s]"

definition lowest_bit :: "u16 \<Rightarrow> nat option" where
  "lowest_bit w = List.find (\<lambda>i. bit w i) [0..<16]"

definition kbasep_ctx_sched_find_as_for_ctx :: "'c \<Rightarrow> ('c, 'h) sched \<Rightarrow> int" where
  "kbasep_ctx_sched_find_as_for_ctx c s =
     (if as_nr_of s c \<noteq> KBASEP_AS_NR_INVALID \<and> bit (as_free s) (nat (as_nr_of s c)) then as_nr_of s c
      else case lowest_bit (as_free s) of
        Some i \<Rightarrow> if i < nr_hw_address_spaces s then int i else KBASEP_AS_NR_INVALID
      | None \<Rightarrow> KBASEP_AS_NR_INVALID)"

text \<open>Taking an address space that the context has not had: the last owner is thrown out first.\<close>

definition take_as ::
  "'h mmio \<Rightarrow> kb_conf \<Rightarrow> 'c \<Rightarrow> nat \<Rightarrow> ('c, 'h) sched \<Rightarrow> ('c, 'h) sched res" where
  "take_as hw cf c free_as s =
     bindR (case as_to_kctx s free_as of
              Some prev_kctx \<Rightarrow>
                bindR (kbase_mmu_disable hw cf (as_nr_of s prev_kctx) (kbdev s)) (\<lambda>kb.
                  Inr (s\<lparr> kbdev := kb, as_nr_of := (as_nr_of s)(prev_kctx := KBASEP_AS_NR_INVALID) \<rparr>))
            | None \<Rightarrow> Inr s)
       (\<lambda>s1. let s2 = s1\<lparr> as_nr_of := (as_nr_of s1)(c := int free_as),
                          as_to_kctx := (as_to_kctx s1)(free_as := Some c) \<rparr>
             in bindR (kbase_mmu_update hw cf (mmut_pgd_of s2 c) (as_nr_of s2 c) (kbdev s2)) (\<lambda>kb.
                  Inr (s2\<lparr> kbdev := kb \<rparr>)))"

definition kbase_ctx_sched_retain_ctx ::
  "'h mmio \<Rightarrow> kb_conf \<Rightarrow> 'c \<Rightarrow> ('c, 'h) sched \<Rightarrow> (int \<times> ('c, 'h) sched) res" where
  "kbase_ctx_sched_retain_ctx hw cf c s =
     (let s1 = s\<lparr> refcount := (refcount s)(c := refcount s c + 1) \<rparr>
      in bindR
          (if refcount s1 c = 1
           then let free_as = kbasep_ctx_sched_find_as_for_ctx c s1
                in if free_as \<noteq> KBASEP_AS_NR_INVALID
                   then let s2 = s1\<lparr> as_free := as_free s1 AND NOT (push_bit (nat free_as) 1) \<rparr>
                        in if free_as \<noteq> as_nr_of s2 c then take_as hw cf c (nat free_as) s2 else Inr s2
                   else Inr (s1\<lparr> refcount := (refcount s1)(c := refcount s1 c - 1) \<rparr>)
           else Inr s1)
          (\<lambda>s2. Inr (as_nr_of s2 c, s2)))"

definition kbase_ctx_sched_retain_ctx_refcount :: "'c \<Rightarrow> ('c, 'h) sched \<Rightarrow> ('c, 'h) sched" where
  "kbase_ctx_sched_retain_ctx_refcount c s =
     s\<lparr> refcount := (refcount s)(c := refcount s c + 1) \<rparr>"






section \<open>The invariant\<close>

text \<open>
  \<open>sched_inv\<close>: the two directions of the assignment agree, the free address spaces are those
  whose context is not in use, a context in use has an address space, and the driver's setting
  of the address space of a context is that of the context's page table.
\<close>

definition as_owner_ok :: "('c, 'h) sched \<Rightarrow> bool" where
  "as_owner_ok s \<longleftrightarrow> nr_hw_address_spaces s \<le> BASE_MAX_NR_AS \<and>
     (\<forall>c. as_nr_of s c = KBASEP_AS_NR_INVALID \<or>
        (\<exists>i < nr_hw_address_spaces s. as_nr_of s c = int i \<and> as_to_kctx s i = Some c)) \<and>
     (\<forall>i < nr_hw_address_spaces s. \<forall>c. as_to_kctx s i = Some c \<longrightarrow> as_nr_of s c = int i)"

definition as_free_ok :: "('c, 'h) sched \<Rightarrow> bool" where
  "as_free_ok s \<longleftrightarrow>
     (\<forall>i. bit (as_free s) i \<longleftrightarrow> i < nr_hw_address_spaces s \<and>
        (\<forall>c. as_to_kctx s i = Some c \<longrightarrow> refcount s c = 0)) \<and>
     (\<forall>c. 0 \<le> refcount s c \<and> (refcount s c \<noteq> 0 \<longrightarrow> as_nr_of s c \<noteq> KBASEP_AS_NR_INVALID))"

definition as_programmed :: "kb_conf \<Rightarrow> ('c, 'h) sched \<Rightarrow> bool" where
  "as_programmed cf s \<longleftrightarrow>
     (\<forall>c i. as_nr_of s c = int i \<longrightarrow>
        kb_as (kbdev s) i = final_setup cf (mode_as_setup cf (mmut_pgd_of s c)))"

definition sched_inv :: "kb_conf \<Rightarrow> ('c, 'h) sched \<Rightarrow> bool" where
  "sched_inv cf s \<longleftrightarrow> as_owner_ok s \<and> as_free_ok s \<and> as_programmed cf s"

lemma as_owner_okD:
  assumes "as_owner_ok s"
  shows "as_to_kctx s i = Some c \<Longrightarrow> i < nr_hw_address_spaces s \<Longrightarrow> as_nr_of s c = int i"
    and "as_nr_of s c = int i \<Longrightarrow> as_to_kctx s i = Some c \<and> i < nr_hw_address_spaces s"
  using assms unfolding as_owner_ok_def by (blast, metis int_int_eq of_nat_0_le_iff not_one_le_zero
    int_one_le_iff_zero_less neg_equal_iff_equal le_minus_one_simps(3))

lemma as_owner_okI:
  assumes "nr_hw_address_spaces s \<le> BASE_MAX_NR_AS"
    and "\<And>c. as_nr_of s c = -1 \<or>
           (\<exists>i. as_nr_of s c = int i \<and> i < nr_hw_address_spaces s \<and> as_to_kctx s i = Some c)"
    and "\<And>i c. as_to_kctx s i = Some c \<Longrightarrow> i < nr_hw_address_spaces s \<Longrightarrow> as_nr_of s c = int i"
  shows "as_owner_ok s"
  using assms unfolding as_owner_ok_def by blast

lemma as_free_okI:
  assumes "\<And>i. bit (as_free s) i \<longleftrightarrow>
             i < nr_hw_address_spaces s \<and> (\<forall>c. as_to_kctx s i = Some c \<longrightarrow> refcount s c = 0)"
    and "\<And>c. 0 \<le> refcount s c" and "\<And>c. refcount s c \<noteq> 0 \<Longrightarrow> as_nr_of s c \<noteq> -1"
  shows "as_free_ok s"
  using assms by (simp_all add: as_free_ok_def)

lemma as_free_okD:
  assumes "as_free_ok s"
  shows "bit (as_free s) i \<longleftrightarrow>
           i < nr_hw_address_spaces s \<and> (\<forall>c. as_to_kctx s i = Some c \<longrightarrow> refcount s c = 0)"
    and "0 \<le> refcount s c" and "refcount s c \<noteq> 0 \<Longrightarrow> as_nr_of s c \<noteq> -1"
  using assms by (simp_all add: as_free_ok_def)

lemma lowest_bit_Some: "lowest_bit w = Some i \<Longrightarrow> bit w i"
  by (auto simp: lowest_bit_def find_Some_iff)

lemma lowest_bit_None: "lowest_bit w = None \<Longrightarrow> \<not> bit w i"
  using bit_imp_le_length [of w i] by (auto simp: lowest_bit_def find_None_iff)

section \<open>Initialisation\<close>

lemma sched_inv_init:
  assumes "nr_hw_address_spaces s \<le> BASE_MAX_NR_AS"
    and "\<forall>c. as_nr_of s c = KBASEP_AS_NR_INVALID" and "\<forall>c. refcount s c = 0"
  shows "sched_inv cf (snd (kbase_ctx_sched_init s))"
proof -
  let ?n = "nr_hw_address_spaces s"
  have "push_bit ?n (1 :: u32) - 1 = mask ?n" by (simp add: mask_eq_exp_minus_1 push_bit_eq_mult)
  then have free: "bit (ucast (push_bit ?n (1 :: u32) - 1) :: u16) i \<longleftrightarrow> i < ?n" for i
    using assms(1) by (simp only: bit_simps) (auto simp: bit_mask_iff)
  show ?thesis
    using assms free
    by (simp add: sched_inv_def as_owner_ok_def as_free_ok_def as_programmed_def kbase_ctx_sched_init_def
        Let_def)
qed

section \<open>Every operation keeps the invariant\<close>


lemma bit_clear: "bit (w AND NOT (2 ^ i)) j \<longleftrightarrow> bit w j \<and> j \<noteq> i" for w :: u16
  using bit_imp_le_length [of w j] by (auto simp: bit_simps)


text \<open>The three cases in which no address space changes hands.\<close>

lemma retain_in_use:
  assumes "sched_inv cf s" and "refcount s c \<noteq> 0"
  shows "kbase_ctx_sched_retain_ctx hw cf c s =
           Inr (as_nr_of s c, s\<lparr> refcount := (refcount s)(c := refcount s c + 1) \<rparr>)"
  using assms by (simp add: kbase_ctx_sched_retain_ctx_def Let_def)

lemma retain_same_as:
  assumes "sched_inv cf s" and "refcount s c = 0" and "as_nr_of s c = int i"
  shows "kbase_ctx_sched_retain_ctx hw cf c s =
           Inr (int i, s\<lparr> refcount := (refcount s)(c := 1), as_free := as_free s AND NOT (push_bit i 1) \<rparr>)"
proof -
  have "as_to_kctx s i = Some c \<and> i < nr_hw_address_spaces s"
    using assms(1,3) as_owner_okD(2) [of s c i] by (simp add: sched_inv_def)
  then have "bit (as_free s) i" using assms(1,2) by (simp add: sched_inv_def as_free_ok_def)
  then show ?thesis
    using assms(2,3) by (simp add: kbase_ctx_sched_retain_ctx_def kbasep_ctx_sched_find_as_for_ctx_def Let_def)
qed

lemma retain_none_free:
  assumes "sched_inv cf s" and "refcount s c = 0" and "as_nr_of s c = -1"
    and "lowest_bit (as_free s) = None"
  shows "kbase_ctx_sched_retain_ctx hw cf c s = Inr (-1, s)"
proof -
  have "(refcount s)(c := 0) = refcount s" using assms(2) by auto
  then have same: "s\<lparr> refcount := (refcount s)(c := 0) \<rparr> = s" by simp
  show ?thesis
    using assms(2-4) same
    by (simp add: kbase_ctx_sched_retain_ctx_def kbasep_ctx_sched_find_as_for_ctx_def Let_def)
qed

text \<open>Taking over a free address space.\<close>

lemma take_as_ok:
  assumes "as_owner_ok s" and "i < nr_hw_address_spaces s" and "as_nr_of s c = -1"
  obtains s' where "take_as hw cf c i s = Inr s'"
    and "as_to_kctx s' = (as_to_kctx s)(i := Some c)"
    and "as_nr_of s' = (\<lambda>d. if d = c then int i else if as_to_kctx s i = Some d then -1 else as_nr_of s d)"
    and "kb_as (kbdev s') i = final_setup cf (mode_as_setup cf (mmut_pgd_of s c))"
    and "\<forall>j. j \<noteq> i \<longrightarrow> kb_as (kbdev s') j = kb_as (kbdev s) j"
    and "as_free s' = as_free s" and "refcount s' = refcount s" and "mmut_pgd_of s' = mmut_pgd_of s"
    and "nr_hw_address_spaces s' = nr_hw_address_spaces s"
proof (cases "as_to_kctx s i")
  case None
  obtain kb' where "kbase_mmu_update hw cf (mmut_pgd_of s c) (int i) (kbdev s) = Inr kb'"
    and "kb_as kb' = (kb_as (kbdev s))(i := final_setup cf (mode_as_setup cf (mmut_pgd_of s c)))"
    by (rule kbase_mmu_update_setup)
  then show thesis
    using None assms(3)
    by (intro that [of "s\<lparr> as_nr_of := (as_nr_of s)(c := int i),
          as_to_kctx := (as_to_kctx s)(i := Some c), kbdev := kb' \<rparr>"])
      (auto simp: take_as_def Let_def)
next
  case (Some p)
  have p: "as_nr_of s p = int i" using as_owner_okD(1) [OF assms(1) Some assms(2)] .
  then have "p \<noteq> c" using assms(3) by auto
  obtain kb1 where kb1: "kbase_mmu_disable hw cf (int i) (kbdev s) = Inr kb1"
    "\<forall>j. j \<noteq> i \<longrightarrow> kb_as kb1 j = kb_as (kbdev s) j"
    by (rule kbase_mmu_disable_setup)
  obtain kb2 where "kbase_mmu_update hw cf (mmut_pgd_of s c) (int i) kb1 = Inr kb2"
    and "kb_as kb2 = (kb_as kb1)(i := final_setup cf (mode_as_setup cf (mmut_pgd_of s c)))"
    by (rule kbase_mmu_update_setup)
  then show thesis
    using Some p kb1 \<open>p \<noteq> c\<close>
    by (intro that [of "s\<lparr> as_nr_of := (as_nr_of s)(p := -1, c := int i),
          as_to_kctx := (as_to_kctx s)(i := Some c), kbdev := kb2 \<rparr>"])
      (auto simp: take_as_def Let_def)
qed

lemma retain_take:
  assumes "sched_inv cf s" and "refcount s c = 0" and "as_nr_of s c = -1"
    and "lowest_bit (as_free s) = Some i"
  obtains s' where "kbase_ctx_sched_retain_ctx hw cf c s = Inr (int i, s')" and "sched_inv cf s'"
    and "refcount s' = (refcount s)(c := 1)" and "i < nr_hw_address_spaces s"
    and "mmut_pgd_of s' = mmut_pgd_of s" and "nr_hw_address_spaces s' = nr_hw_address_spaces s"
    and "\<forall>d. refcount s d \<noteq> 0 \<longrightarrow> as_nr_of s' d = as_nr_of s d" and "as_nr_of s' c = int i"
proof -
  have bit: "bit (as_free s) i" using lowest_bit_Some [OF assms(4)] .
  then have i: "i < nr_hw_address_spaces s" using assms(1) by (simp add: sched_inv_def as_free_ok_def)
  let ?s2 = "s\<lparr> refcount := (refcount s)(c := 1), as_free := as_free s AND NOT (push_bit i 1) \<rparr>"
  have owner: "as_owner_ok ?s2" and inv: "as_owner_ok s" "as_free_ok s" "as_programmed cf s"
    using assms(1) by (auto simp: sched_inv_def as_owner_ok_def)
  have pre: "i < nr_hw_address_spaces ?s2" "as_nr_of ?s2 c = -1" using i assms(3) by simp_all
  obtain s' where take: "take_as hw cf c i ?s2 = Inr s'"
    and raw: "as_to_kctx s' = (as_to_kctx ?s2)(i := Some c)"
      "as_nr_of s' = (\<lambda>d. if d = c then int i else if as_to_kctx ?s2 i = Some d then -1 else as_nr_of ?s2 d)"
      "kb_as (kbdev s') i = final_setup cf (mode_as_setup cf (mmut_pgd_of ?s2 c))"
      "\<forall>j. j \<noteq> i \<longrightarrow> kb_as (kbdev s') j = kb_as (kbdev ?s2) j"
      "as_free s' = as_free ?s2" "refcount s' = refcount ?s2" "mmut_pgd_of s' = mmut_pgd_of ?s2"
      "nr_hw_address_spaces s' = nr_hw_address_spaces ?s2"
    by (rule take_as_ok [OF owner pre])
  note s' = raw [simplified]
  have ret: "kbase_ctx_sched_retain_ctx hw cf c s = Inr (int i, s')"
    using assms(2-4) i take raw(2)
    by (simp add: kbase_ctx_sched_retain_ctx_def kbasep_ctx_sched_find_as_for_ctx_def Let_def)
  have idle: "refcount s d = 0" if "as_to_kctx s i = Some d" for d
    using bit inv(2) that by (simp add: as_free_ok_def)
  have owns: "as_nr_of s d = int j" if "as_to_kctx s j = Some d" and "j < nr_hw_address_spaces s" for d j
    using as_owner_okD(1) [OF inv(1) that] .
  have "as_owner_ok s'"
  proof (rule as_owner_okI)
    show "nr_hw_address_spaces s' \<le> BASE_MAX_NR_AS" using inv(1) by (simp add: s'(8) as_owner_ok_def)
  next
    fix d
    show "as_nr_of s' d = -1 \<or>
        (\<exists>j. as_nr_of s' d = int j \<and> j < nr_hw_address_spaces s' \<and> as_to_kctx s' j = Some d)"
    proof (cases "d = c \<or> as_to_kctx s i = Some d \<or> as_nr_of s d = -1")
      case True
      then show ?thesis using i by (auto simp: s'(1,2,8))
    next
      case False
      then obtain j where "as_nr_of s d = int j" "j < nr_hw_address_spaces s" "as_to_kctx s j = Some d"
        using inv(1) by (auto simp: as_owner_ok_def)
      then show ?thesis using False by (intro disjI2 exI [of _ j]) (auto simp: s'(1,2,8))
    qed
  next
    fix j d assume "as_to_kctx s' j = Some d" and j: "j < nr_hw_address_spaces s'"
    then consider "j = i" "d = c" | "j \<noteq> i" "as_to_kctx s j = Some d"
      by (auto simp: s'(1) split: if_splits)
    then show "as_nr_of s' d = int j"
    proof cases
      case 2
      then have "as_nr_of s d = int j" using owns j by (simp add: s'(8))
      moreover from this have "d \<noteq> c" and "as_to_kctx s i \<noteq> Some d"
        using assms(3) owns [of i d] i 2(1) by auto
      ultimately show ?thesis by (simp add: s'(2))
    qed (simp add: s'(2))
  qed
  moreover have "as_free_ok s'"
  proof (rule as_free_okI)
    fix j
    show "bit (as_free s') j \<longleftrightarrow> j < nr_hw_address_spaces s' \<and>
        (\<forall>d. as_to_kctx s' j = Some d \<longrightarrow> refcount s' d = 0)"
    proof (cases "j = i")
      case False
      have "d \<noteq> c" if "as_to_kctx s j = Some d" and "j < nr_hw_address_spaces s" for d
        using owns [OF that] assms(3) by auto
      then show ?thesis
        using False as_free_okD(1) [OF inv(2), of j] by (auto simp: s'(1,5,6,8) bit_clear)
    qed (simp add: s'(1,5,6,8) bit_clear)
  next
    fix d
    show "0 \<le> refcount s' d" using as_free_okD(2) [OF inv(2), of d] by (simp add: s'(6))
  next
    fix d assume "refcount s' d \<noteq> 0"
    then show "as_nr_of s' d \<noteq> -1"
      using as_free_okD(3) [OF inv(2), of d] idle by (auto simp: s'(2,6) split: if_splits)
  qed
  moreover have "as_programmed cf s'"
  proof -
    have "kb_as (kbdev s') j = final_setup cf (mode_as_setup cf (mmut_pgd_of s d))"
      if "as_nr_of s' d = int j" for d j
    proof (cases "d = c")
      case True
      then show ?thesis using that s'(2,3) by simp
    next
      case False
      then have d: "as_nr_of s d = int j" "as_to_kctx s i \<noteq> Some d"
        using that s'(2) by (auto split: if_splits)
      then have "j \<noteq> i" using as_owner_okD(2) [OF inv(1) d(1)] by auto
      then show ?thesis using s'(4) inv(3) d(1) by (simp add: as_programmed_def)
    qed
    then show ?thesis unfolding as_programmed_def s'(7) by blast
  qed
  moreover have "\<forall>d. refcount s d \<noteq> 0 \<longrightarrow> as_nr_of s' d = as_nr_of s d"
    using idle assms(2) by (auto simp: s'(2))
  ultimately show thesis using that ret s' i by (simp add: sched_inv_def)
qed

text \<open>The other operations, under the conditions that their warnings check.\<close>

lemma sched_inv_refcount:
  assumes "sched_inv cf s" and "refcount s c \<noteq> 0" and "0 < n"
  shows "sched_inv cf (s\<lparr> refcount := (refcount s)(c := n) \<rparr>)"
proof -
  have "0 < refcount s c" using assms as_free_okD(2) [of s c] by (simp add: sched_inv_def)
  moreover have "as_nr_of s c \<noteq> -1" using assms as_free_okD(3) [of s c] by (simp add: sched_inv_def)
  ultimately have "as_free_ok (s\<lparr> refcount := (refcount s)(c := n) \<rparr>)"
    using assms as_free_okD [of s]
    by (intro as_free_okI) (auto simp: sched_inv_def split: if_splits)
  then show ?thesis using assms(1) by (simp add: sched_inv_def as_owner_ok_def as_programmed_def)
qed

lemma retain_refcount_inv:
  assumes "sched_inv cf s" and "refcount s c \<noteq> 0"
  shows "sched_inv cf (kbase_ctx_sched_retain_ctx_refcount c s)"
proof -
  have "0 < refcount s c + 1"
    using assms as_free_okD(2) [of s c] by (simp add: sched_inv_def)
  then show ?thesis
    unfolding kbase_ctx_sched_retain_ctx_refcount_def by (rule sched_inv_refcount [OF assms])
qed

lemma retain_inv:
  assumes "sched_inv cf s"
  obtains r s' where "kbase_ctx_sched_retain_ctx hw cf c s = Inr (r, s')" and "sched_inv cf s'"
    and "mmut_pgd_of s' = mmut_pgd_of s" and "nr_hw_address_spaces s' = nr_hw_address_spaces s"
    and "r = as_nr_of s' c" and "\<forall>d. refcount s d \<noteq> 0 \<longrightarrow> as_nr_of s' d = as_nr_of s d"
    and "if r = -1
         then s' = s \<and> (\<forall>i < nr_hw_address_spaces s. \<exists>d. as_to_kctx s i = Some d \<and> refcount s d \<noteq> 0)
         else refcount s' = (refcount s)(c := refcount s c + 1)"
    and "as_nr_of s c \<noteq> -1 \<longrightarrow> r = as_nr_of s c \<and> kbdev s' = kbdev s"
proof -
  have parts: "as_owner_ok s" "as_free_ok s" using assms by (simp_all add: sched_inv_def)
  show thesis
  proof (cases "refcount s c = 0")
    case False
    have "sched_inv cf (kbase_ctx_sched_retain_ctx_refcount c s)"
      by (rule retain_refcount_inv [OF assms False])
    moreover have "as_nr_of s c \<noteq> -1" using as_free_okD(3) [OF parts(2) False] .
    ultimately show thesis
      using retain_in_use [OF assms False, of hw]
      by (intro that [of "as_nr_of s c" "kbase_ctx_sched_retain_ctx_refcount c s"])
        (simp_all add: kbase_ctx_sched_retain_ctx_refcount_def)
  next
    case unused: True
    show thesis
    proof (cases "as_nr_of s c = -1")
      case False
      then obtain i where i: "as_nr_of s c = int i" "i < nr_hw_address_spaces s" "as_to_kctx s i = Some c"
        using parts(1) by (auto simp: as_owner_ok_def)
      let ?s = "s\<lparr> refcount := (refcount s)(c := 1), as_free := as_free s AND NOT (2 ^ i) \<rparr>"
      have only: "j = i" if "as_to_kctx s j = Some c" and "j < nr_hw_address_spaces s" for j
        using as_owner_okD(1) [OF parts(1) that] i(1) by simp
      have "as_free_ok ?s"
      proof (rule as_free_okI)
        fix j
        show "bit (as_free ?s) j \<longleftrightarrow> j < nr_hw_address_spaces ?s \<and>
            (\<forall>d. as_to_kctx ?s j = Some d \<longrightarrow> refcount ?s d = 0)"
          using only [of j] i as_free_okD(1) [OF parts(2), of j] by (auto simp: bit_clear)
      qed (use i as_free_okD(2,3) [OF parts(2)] in \<open>auto split: if_splits\<close>)
      then have "sched_inv cf ?s"
        using assms by (simp add: sched_inv_def as_owner_ok_def as_programmed_def)
      then show thesis
        using retain_same_as [OF assms unused i(1), of hw] i(1) unused
        by (intro that [of "int i" ?s]) simp_all
    next
      case True
      show thesis
      proof (cases "lowest_bit (as_free s)")
        case None
        have "\<exists>d. as_to_kctx s i = Some d \<and> refcount s d \<noteq> 0" if "i < nr_hw_address_spaces s" for i
          using lowest_bit_None [OF None, of i] as_free_okD(1) [OF parts(2), of i] that by auto
        then show thesis
          using retain_none_free [OF assms unused True None, of hw] assms True
          by (intro that [of "-1" s]) simp_all
      next
        case (Some i)
        obtain s' where t: "kbase_ctx_sched_retain_ctx hw cf c s = Inr (int i, s')" "sched_inv cf s'"
          "refcount s' = (refcount s)(c := 1)" "i < nr_hw_address_spaces s"
          "mmut_pgd_of s' = mmut_pgd_of s" "nr_hw_address_spaces s' = nr_hw_address_spaces s"
          "\<forall>d. refcount s d \<noteq> 0 \<longrightarrow> as_nr_of s' d = as_nr_of s d" "as_nr_of s' c = int i"
          by (rule retain_take [OF assms unused True Some])
        have counted: "if int i = -1
            then s' = s \<and> (\<forall>i < nr_hw_address_spaces s. \<exists>d. as_to_kctx s i = Some d \<and> refcount s d \<noteq> 0)
            else refcount s' = (refcount s)(c := refcount s c + 1)"
          using unused by (simp add: t(3))
        show thesis
          by (rule that [OF t(1,2,5,6) t(8) [symmetric] t(7) counted]) (simp add: True)
      qed
    qed
  qed
qed







section \<open>Reachable assignments\<close>






definition demo_sched :: "(nat, (u32 \<times> u32) list) sched" where
  "demo_sched =
     \<lparr> nr_hw_address_spaces = 2, nr_user_address_spaces = 0, as_free = 0, as_to_kctx = (\<lambda>i. None),
       as_nr_of = (\<lambda>c. -1), refcount = (\<lambda>c. 0), mmut_pgd_of = (\<lambda>c. 0x5000), gpu_powered = True,
       kbdev = demo_kb \<rparr>"

definition demo_conf :: kb_conf where
  "demo_conf = \<lparr> aarch64_mmu = True, coherency_ace = False \<rparr>"

lemma demo_sched_inv: "sched_inv demo_conf (snd (kbase_ctx_sched_init demo_sched))"
  by (rule sched_inv_init) (simp_all add: demo_sched_def)


text \<open>
  Retaining a context: a context that has an address space keeps it and the MMU is not
  touched; otherwise it gets one, unless all are in use by other contexts, which is reported by
  \<open>-1\<close> and changes nothing. No context in use ever loses its address space.
\<close>

theorem kbase_ctx_sched_retain_ctx_result:
  assumes "sched_inv cf s"
  shows "\<exists>r s'. kbase_ctx_sched_retain_ctx hw cf c s = Inr (r, s') \<and> sched_inv cf s' \<and> r = as_nr_of s' c \<and>
           (as_nr_of s c \<noteq> -1 \<longrightarrow> r = as_nr_of s c \<and> kbdev s' = kbdev s) \<and>
           (r = -1 \<longrightarrow> s' = s \<and>
              (\<forall>i < nr_hw_address_spaces s. \<exists>d. as_nr_of s d = int i \<and> refcount s d \<noteq> 0)) \<and>
           (r \<noteq> -1 \<longrightarrow> refcount s' = (refcount s)(c := refcount s c + 1)) \<and>
           (\<forall>d. refcount s d \<noteq> 0 \<longrightarrow> as_nr_of s' d = as_nr_of s d)"
proof -
  obtain r s' where r: "kbase_ctx_sched_retain_ctx hw cf c s = Inr (r, s')" "sched_inv cf s'"
    "r = as_nr_of s' c" "\<forall>d. refcount s d \<noteq> 0 \<longrightarrow> as_nr_of s' d = as_nr_of s d"
    "if r = -1 then s' = s \<and> (\<forall>i < nr_hw_address_spaces s. \<exists>d. as_to_kctx s i = Some d \<and> refcount s d \<noteq> 0)
     else refcount s' = (refcount s)(c := refcount s c + 1)"
    "as_nr_of s c \<noteq> -1 \<longrightarrow> r = as_nr_of s c \<and> kbdev s' = kbdev s"
    by (rule retain_inv [OF assms])
  have owns: "as_nr_of s d = int i" if "as_to_kctx s i = Some d" and "i < nr_hw_address_spaces s" for i d
    using as_owner_okD(1) [OF _ that] assms by (simp add: sched_inv_def)
  have "s' = s \<and> (\<forall>i < nr_hw_address_spaces s. \<exists>d. as_nr_of s d = int i \<and> refcount s d \<noteq> 0)" if "r = -1"
    using r(5) owns unfolding if_P [OF that] by blast
  moreover have "refcount s' = (refcount s)(c := refcount s c + 1)" if "r \<noteq> -1"
    using r(5) unfolding if_not_P [OF that] .
  ultimately show ?thesis
    using r(1-4,6) by blast
qed


lemma kbase_ctx_sched_retain_ctx_result_witness:
  "\<exists>r s'. kbase_ctx_sched_retain_ctx (log_regs 0) demo_conf 7 (snd (kbase_ctx_sched_init demo_sched)) =
      Inr (r, s') \<and> sched_inv demo_conf s' \<and> r = as_nr_of s' 7"
  using kbase_ctx_sched_retain_ctx_result [OF demo_sched_inv, of "log_regs 0" 7] by blast

end
