(* ===== verification/KB_Region.thy ===== *)
theory KB_Region
  imports KB_MmuMode "HOL-Library.Tree"
begin

text \<open>
  The regions of GPU addresses of a context (\<open>mali_kbase_mem.c\<close>, \<open>mali_kbase_mem.h\<close>): three
  red-black trees of regions, free or in use, that divide the address space; search, insertion
  and removal of regions, and the set-up of the zones.
\<close>

unbundle bit_operations_syntax

section \<open>Constants\<close>

definition KBASE_REG_FREE :: u64 where "KBASE_REG_FREE = 0x1"
definition KBASE_REG_GROWABLE :: u64 where "KBASE_REG_GROWABLE = 0x40"
definition KBASE_REG_GPU_VA_SAME_4GB_PAGE :: u64 where "KBASE_REG_GPU_VA_SAME_4GB_PAGE = 0x100"
definition KBASE_REG_ZONE_MASK :: u64 where "KBASE_REG_ZONE_MASK = 0x1800"
definition KBASE_REG_TILER_ALIGN_TOP :: u64 where "KBASE_REG_TILER_ALIGN_TOP = 0x800000"
definition KBASE_REG_VA_FREED :: u64 where "KBASE_REG_VA_FREED = 0x4000000"

definition KBASE_REG_ZONE :: "u64 \<Rightarrow> u64" where
  "KBASE_REG_ZONE x = push_bit 11 (x AND 3)"

definition KBASE_REG_ZONE_SAME_VA :: u64 where "KBASE_REG_ZONE_SAME_VA = KBASE_REG_ZONE 0"
definition KBASE_REG_ZONE_CUSTOM_VA :: u64 where "KBASE_REG_ZONE_CUSTOM_VA = KBASE_REG_ZONE 1"
definition KBASE_REG_ZONE_EXEC_VA :: u64 where "KBASE_REG_ZONE_EXEC_VA = KBASE_REG_ZONE 2"

definition KBASE_REG_ZONE_CUSTOM_VA_BASE :: u64 where
  "KBASE_REG_ZONE_CUSTOM_VA_BASE = drop_bit 12 0x100000000"
definition KBASE_REG_ZONE_CUSTOM_VA_SIZE :: u64 where
  "KBASE_REG_ZONE_CUSTOM_VA_SIZE = drop_bit 12 (push_bit 44 1) - KBASE_REG_ZONE_CUSTOM_VA_BASE"
definition KBASE_REG_ZONE_EXEC_VA_MAX_PAGES :: u64 where
  "KBASE_REG_ZONE_EXEC_VA_MAX_PAGES = drop_bit 12 (push_bit 32 1)"
definition BASE_MEM_PFN_MASK_4GB :: u64 where
  "BASE_MEM_PFN_MASK_4GB = drop_bit 12 0xfffff000"

section \<open>State\<close>

text \<open>The root that \<open>reg->rbtree\<close> points to, one of three in the context.\<close>

datatype va_tree = Tree_Same | Tree_Custom | Tree_Exec

record va_region =
  start_pfn :: u64
  nr_pages :: u64
  initial_commit :: u64
  extent :: u64
  reg_flags :: u64
  reg_tree :: va_tree
  va_refcnt :: int

text \<open>
  The red-black trees of the kernel: a node is the name of a region, which stands for its address,
  with its colour. Rebalancing after an insertion, removal and replacement of a node are parameters;
  the order of the nodes is read off the tree.
\<close>

type_synonym rb_tree = "(nat \<times> bool) tree"

record rb_ops =
  rb_insert_color :: "rb_tree \<Rightarrow> nat \<Rightarrow> rb_tree"
  rb_erase :: "rb_tree \<Rightarrow> nat \<Rightarrow> rb_tree"
  rb_replace_node :: "rb_tree \<Rightarrow> nat \<Rightarrow> nat \<Rightarrow> rb_tree"

definition rb_list :: "rb_tree \<Rightarrow> nat list" where
  "rb_list t = map fst (inorder t)"

definition rb_first :: "rb_tree \<Rightarrow> nat option" where
  "rb_first t = (case rb_list t of [] \<Rightarrow> None | i # is \<Rightarrow> Some i)"

definition rb_prev :: "rb_tree \<Rightarrow> nat \<Rightarrow> nat option" where
  "rb_prev t i = (case rev (takeWhile (\<lambda>j. j \<noteq> i) (rb_list t)) of [] \<Rightarrow> None | j # js \<Rightarrow> Some j)"

definition rb_next :: "rb_tree \<Rightarrow> nat \<Rightarrow> nat option" where
  "rb_next t i = (case tl (dropWhile (\<lambda>j. j \<noteq> i) (rb_list t)) of [] \<Rightarrow> None | j # js \<Rightarrow> Some j)"

text \<open>
  The context and its regions. \<open>kzallocs\<close> are the outcomes of the next allocations of a region;
  when they are used up an allocation fails. \<open>kfreed\<close> are the regions given to \<open>kfree\<close>.
\<close>

record va_ctx =
  regions :: "nat \<Rightarrow> va_region"
  trees :: "va_tree \<Rightarrow> rb_tree"
  next_reg :: nat
  kzallocs :: "bool list"
  kfreed :: "nat list"
  same_va_end :: u64
  gpu_va_end :: u64
  exec_va_start :: u64
  jit_va :: bool
  jit_max_allocations :: nat
  trim_level :: nat
  jit_group_id :: int

text \<open>A 64-bit CPU with \<open>va_bits_cpu\<close> bits of addresses; \<open>compat\<close> is \<open>KCTX_COMPAT\<close>.\<close>

record va_conf =
  compat :: bool
  va_bits_cpu :: nat
  va_bits_gpu :: nat

definition upd_region :: "nat \<Rightarrow> (va_region \<Rightarrow> va_region) \<Rightarrow> va_ctx \<Rightarrow> va_ctx" where
  "upd_region i f k = k\<lparr> regions := (regions k)(i := f (regions k i)) \<rparr>"

definition upd_tree :: "va_tree \<Rightarrow> (rb_tree \<Rightarrow> rb_tree) \<Rightarrow> va_ctx \<Rightarrow> va_ctx" where
  "upd_tree z f k = k\<lparr> trees := (trees k)(z := f (trees k z)) \<rparr>"

definition kfree_region :: "nat \<Rightarrow> va_ctx \<Rightarrow> va_ctx" where
  "kfree_region i k = k\<lparr> kfreed := i # kfreed k \<rparr>"

definition has_flag :: "va_ctx \<Rightarrow> nat \<Rightarrow> u64 \<Rightarrow> bool" where
  "has_flag k i f \<longleftrightarrow> reg_flags (regions k i) AND f \<noteq> 0"

section \<open>Searching\<close>

definition kbase_get_num_cpu_va_bits :: "va_conf \<Rightarrow> nat" where
  "kbase_get_num_cpu_va_bits c = (if compat c then 32 else va_bits_cpu c)"

definition kbase_get_same_va_bits :: "va_conf \<Rightarrow> nat" where
  "kbase_get_same_va_bits c = min (kbase_get_num_cpu_va_bits c) (va_bits_gpu c)"

definition kbase_gpu_va_to_rbtree :: "va_conf \<Rightarrow> va_ctx \<Rightarrow> u64 \<Rightarrow> va_tree" where
  "kbase_gpu_va_to_rbtree c k gpu_pfn =
     (if gpu_pfn \<ge> exec_va_start k then Tree_Exec
      else let end_pfn = (if compat c then KBASE_REG_ZONE_CUSTOM_VA_BASE else same_va_end k)
           in if gpu_pfn \<ge> end_pfn then Tree_Custom else Tree_Same)"

fun rb_link :: "(nat \<Rightarrow> va_region) \<Rightarrow> rb_tree \<Rightarrow> nat \<Rightarrow> rb_tree" where
  "rb_link h Leaf x = Node Leaf (x, False) Leaf"
| "rb_link h (Node l (i, c) r) x =
     (if start_pfn (h i) > start_pfn (h x) then Node (rb_link h l x) (i, c) r
      else Node l (i, c) (rb_link h r x))"

definition kbase_region_tracker_insert :: "rb_ops \<Rightarrow> nat \<Rightarrow> va_ctx \<Rightarrow> va_ctx" where
  "kbase_region_tracker_insert rb x k =
     upd_tree (reg_tree (regions k x)) (\<lambda>t. rb_insert_color rb (rb_link (regions k) t x) x) k"

fun find_range :: "(nat \<Rightarrow> va_region) \<Rightarrow> u64 \<Rightarrow> u64 \<Rightarrow> rb_tree \<Rightarrow> nat option" where
  "find_range h start_pfn' end_pfn Leaf = None"
| "find_range h start_pfn' end_pfn (Node l (i, c) r) =
     (if start_pfn' < start_pfn (h i) then find_range h start_pfn' end_pfn l
      else if end_pfn > start_pfn (h i) + nr_pages (h i) then find_range h start_pfn' end_pfn r
      else Some i)"

definition find_region_enclosing_range_rbtree :: "va_ctx \<Rightarrow> va_tree \<Rightarrow> u64 \<Rightarrow> u64 \<Rightarrow> nat option" where
  "find_region_enclosing_range_rbtree k z start nr = find_range (regions k) start (start + nr) (trees k z)"

fun find_pfn :: "(nat \<Rightarrow> va_region) \<Rightarrow> u64 \<Rightarrow> rb_tree \<Rightarrow> nat option" where
  "find_pfn h gpu_pfn Leaf = None"
| "find_pfn h gpu_pfn (Node l (i, c) r) =
     (if gpu_pfn < start_pfn (h i) then find_pfn h gpu_pfn l
      else if gpu_pfn \<ge> start_pfn (h i) + nr_pages (h i) then find_pfn h gpu_pfn r
      else Some i)"

definition kbase_find_region_enclosing_address :: "va_ctx \<Rightarrow> va_tree \<Rightarrow> u64 \<Rightarrow> nat option" where
  "kbase_find_region_enclosing_address k z gpu_addr = find_pfn (regions k) (drop_bit 12 gpu_addr) (trees k z)"

definition kbase_region_tracker_find_region_enclosing_address :: "va_conf \<Rightarrow> va_ctx \<Rightarrow> u64 \<Rightarrow> nat option" where
  "kbase_region_tracker_find_region_enclosing_address c k gpu_addr =
     kbase_find_region_enclosing_address k (kbase_gpu_va_to_rbtree c k (drop_bit 12 gpu_addr)) gpu_addr"

fun find_base :: "(nat \<Rightarrow> va_region) \<Rightarrow> u64 \<Rightarrow> rb_tree \<Rightarrow> nat option" where
  "find_base h gpu_pfn Leaf = None"
| "find_base h gpu_pfn (Node l (i, c) r) =
     (if start_pfn (h i) > gpu_pfn then find_base h gpu_pfn l
      else if start_pfn (h i) < gpu_pfn then find_base h gpu_pfn r
      else Some i)"

definition kbase_find_region_base_address :: "va_ctx \<Rightarrow> va_tree \<Rightarrow> u64 \<Rightarrow> nat option" where
  "kbase_find_region_base_address k z gpu_addr = find_base (regions k) (drop_bit 12 gpu_addr) (trees k z)"

definition kbase_region_tracker_find_region_base_address :: "va_conf \<Rightarrow> va_ctx \<Rightarrow> u64 \<Rightarrow> nat option" where
  "kbase_region_tracker_find_region_base_address c k gpu_addr =
     kbase_find_region_base_address k (kbase_gpu_va_to_rbtree c k (drop_bit 12 gpu_addr)) gpu_addr"

text \<open>The place in a free region; \<open>None\<close> stands for \<open>continue\<close>.\<close>

definition aligned_start :: "u64 \<Rightarrow> u64 \<Rightarrow> u64 \<Rightarrow> u64 \<Rightarrow> u64 \<Rightarrow> u64 option" where
  "aligned_start flags nr align_offset align_mask start =
     (let s0 = start + align_mask;
          s1 = s0 - ((s0 - align_offset) AND align_mask)
      in if flags AND KBASE_REG_GPU_NX = 0
         then let s2 = (if (s1 + nr) AND BASE_MEM_PFN_MASK_4GB = 0 then s1 + align_offset else s1);
                  s3 = (if s2 AND BASE_MEM_PFN_MASK_4GB = 0 then s2 + align_offset else s2)
              in if (s3 + nr) AND BASE_MEM_PFN_MASK_4GB = 0 \<or> s3 AND BASE_MEM_PFN_MASK_4GB = 0 then None
                 else Some s3
         else if flags AND KBASE_REG_GPU_VA_SAME_4GB_PAGE \<noteq> 0
         then let end_pfn = s1 + nr - 1
              in if s1 AND NOT BASE_MEM_PFN_MASK_4GB \<noteq> end_pfn AND NOT BASE_MEM_PFN_MASK_4GB
                 then Some (end_pfn AND NOT BASE_MEM_PFN_MASK_4GB) else Some s1
         else Some s1)"

fun first_meeting :: "va_ctx \<Rightarrow> u64 \<Rightarrow> u64 \<Rightarrow> u64 \<Rightarrow> u64 \<Rightarrow> nat list \<Rightarrow> (nat \<times> u64) option" where
  "first_meeting k flags nr align_offset align_mask [] = None"
| "first_meeting k flags nr align_offset align_mask (i # is) =
     (let reg = regions k i;
          rest = first_meeting k flags nr align_offset align_mask is
      in if nr_pages reg \<ge> nr \<and> has_flag k i KBASE_REG_FREE
         then case aligned_start flags nr align_offset align_mask (start_pfn reg) of
                None \<Rightarrow> rest
              | Some s \<Rightarrow>
                  if s \<ge> start_pfn reg \<and> s \<le> start_pfn reg + nr_pages reg - 1 \<and>
                     s + nr - 1 \<le> start_pfn reg + nr_pages reg - 1
                  then Some (i, s) else rest
         else rest)"

definition kbase_region_tracker_find_region_meeting_reqs ::
  "va_ctx \<Rightarrow> nat \<Rightarrow> u64 \<Rightarrow> u64 \<Rightarrow> u64 \<Rightarrow> (nat \<times> u64) option" where
  "kbase_region_tracker_find_region_meeting_reqs k reg_reqs nr align_offset align_mask =
     first_meeting k (reg_flags (regions k reg_reqs)) nr align_offset align_mask
       (rb_list (trees k (reg_tree (regions k reg_reqs))))"

section \<open>Insertion and removal\<close>

definition kbase_alloc_free_region :: "va_tree \<Rightarrow> u64 \<Rightarrow> u64 \<Rightarrow> u64 \<Rightarrow> va_ctx \<Rightarrow> nat option \<times> va_ctx" where
  "kbase_alloc_free_region z start nr zone k =
     (case kzallocs k of
        True # as \<Rightarrow>
          (Some (next_reg k),
           k\<lparr> kzallocs := as, next_reg := next_reg k + 1,
              regions := (regions k)(next_reg k :=
                \<lparr> start_pfn = start, nr_pages = nr, initial_commit = 0, extent = 0,
                  reg_flags = zone OR KBASE_REG_FREE OR KBASE_REG_GROWABLE, reg_tree = z, va_refcnt = 1 \<rparr>) \<rparr>)
      | False # as \<Rightarrow> (None, k\<lparr> kzallocs := as \<rparr>)
      | [] \<Rightarrow> (None, k))"

definition merge_prev :: "rb_ops \<Rightarrow> nat \<Rightarrow> va_ctx \<Rightarrow> nat \<times> bool \<times> va_ctx" where
  "merge_prev rb reg k =
     (case rb_prev (trees k (reg_tree (regions k reg))) reg of
        Some prev \<Rightarrow>
          if has_flag k prev KBASE_REG_FREE
          then (prev, True,
                upd_tree (reg_tree (regions k reg)) (\<lambda>t. rb_erase rb t reg)
                  (upd_region prev (\<lambda>r. r\<lparr> nr_pages := nr_pages r + nr_pages (regions k reg) \<rparr>) k))
          else (reg, False, k)
      | None \<Rightarrow> (reg, False, k))"

definition merge_next :: "rb_ops \<Rightarrow> va_tree \<Rightarrow> nat \<Rightarrow> bool \<Rightarrow> va_ctx \<Rightarrow> bool \<times> va_ctx" where
  "merge_next rb z reg merged_front k =
     (case rb_next (trees k z) reg of
        Some nxt \<Rightarrow>
          if has_flag k nxt KBASE_REG_FREE
          then (True,
                (if merged_front then kfree_region reg else (\<lambda>k. k))
                  (upd_tree z (\<lambda>t. rb_erase rb t reg)
                    (upd_region nxt (\<lambda>r. r\<lparr> start_pfn := start_pfn (regions k reg),
                                            nr_pages := nr_pages r + nr_pages (regions k reg) \<rparr>) k)))
          else (False, k)
      | None \<Rightarrow> (False, k))"

definition kbase_remove_va_region :: "rb_ops \<Rightarrow> nat \<Rightarrow> va_ctx \<Rightarrow> int \<times> va_ctx" where
  "kbase_remove_va_region rb reg k =
     (let z = reg_tree (regions k reg);
          (reg1, merged_front, k1) = merge_prev rb reg k;
          (merged_back, k2) = merge_next rb z reg1 merged_front k1
      in if merged_front \<or> merged_back then (0, k2)
         else case kbase_alloc_free_region z (start_pfn (regions k2 reg1)) (nr_pages (regions k2 reg1))
                     (reg_flags (regions k2 reg1) AND KBASE_REG_ZONE_MASK) k2 of
                (None, k3) \<Rightarrow> (-12, k3)
              | (Some free_reg, k3) \<Rightarrow> (0, upd_tree z (\<lambda>t. rb_replace_node rb t reg1 free_reg) k3))"

definition kbase_insert_va_region_nolock :: "rb_ops \<Rightarrow> nat \<Rightarrow> nat \<Rightarrow> u64 \<Rightarrow> u64 \<Rightarrow> va_ctx \<Rightarrow> int \<times> va_ctx" where
  "kbase_insert_va_region_nolock rb new_reg at_reg start nr k =
     (let z = reg_tree (regions k at_reg);
          at = regions k at_reg;
          k1 = upd_region new_reg (\<lambda>r. r\<lparr> start_pfn := start, nr_pages := nr \<rparr>) k
      in if start_pfn at = start \<and> nr_pages at = nr
         then (0, kfree_region at_reg (upd_tree z (\<lambda>t. rb_replace_node rb t at_reg new_reg) k1))
         else if start_pfn at = start
         then (0, kbase_region_tracker_insert rb new_reg
                    (upd_region at_reg (\<lambda>r. r\<lparr> start_pfn := start_pfn r + nr, nr_pages := nr_pages r - nr \<rparr>) k1))
         else if start_pfn at + nr_pages at = start + nr
         then (0, kbase_region_tracker_insert rb new_reg
                    (upd_region at_reg (\<lambda>r. r\<lparr> nr_pages := nr_pages r - nr \<rparr>) k1))
         else case kbase_alloc_free_region z (start_pfn at) (start - start_pfn at)
                     (reg_flags at AND KBASE_REG_ZONE_MASK) k1 of
                (None, k2) \<Rightarrow> (-12, k2)
              | (Some front, k2) \<Rightarrow>
                  (0, kbase_region_tracker_insert rb new_reg
                       (kbase_region_tracker_insert rb front
                         (upd_region at_reg (\<lambda>r. r\<lparr> nr_pages := nr_pages r - (nr + nr_pages (regions k2 front)),
                                                    start_pfn := start + nr \<rparr>) k2))))"

definition kbase_is_region_free :: "va_ctx \<Rightarrow> nat option \<Rightarrow> bool" where
  "kbase_is_region_free k r \<longleftrightarrow> (case r of None \<Rightarrow> True | Some i \<Rightarrow> has_flag k i KBASE_REG_FREE)"

definition kbase_is_region_invalid :: "va_ctx \<Rightarrow> nat option \<Rightarrow> bool" where
  "kbase_is_region_invalid k r \<longleftrightarrow> (case r of None \<Rightarrow> True | Some i \<Rightarrow> has_flag k i KBASE_REG_VA_FREED)"

definition kbase_add_va_region_rbtree :: "rb_ops \<Rightarrow> nat \<Rightarrow> u64 \<Rightarrow> u64 \<Rightarrow> u64 \<Rightarrow> va_ctx \<Rightarrow> int \<times> va_ctx" where
  "kbase_add_va_region_rbtree rb reg addr nr align0 k =
     (let gpu_pfn = drop_bit 12 addr;
          r = regions k reg;
          align = (if align0 = 0 then 1 else align0)
      in if gpu_pfn \<noteq> 0
         then let tmp = find_region_enclosing_range_rbtree k (reg_tree r) gpu_pfn nr
              in if kbase_is_region_invalid k tmp then (-12, k)
                 else if \<not> kbase_is_region_free k tmp then (-12, k)
                 else let (err, k1) = kbase_insert_va_region_nolock rb reg (the tmp) gpu_pfn nr k
                      in (if err \<noteq> 0 then -12 else 0, k1)
         else let align_mask = (if has_flag k reg KBASE_REG_TILER_ALIGN_TOP then extent r - 1 else align - 1);
                  align_offset = (if has_flag k reg KBASE_REG_TILER_ALIGN_TOP then extent r - initial_commit r else align)
              in case kbase_region_tracker_find_region_meeting_reqs k reg nr align_offset align_mask of
                   Some (tmp, start) \<Rightarrow> kbase_insert_va_region_nolock rb reg tmp start nr k
                 | None \<Rightarrow> (-12, k))"

section \<open>References\<close>

definition kbase_region_refcnt_free :: "rb_ops \<Rightarrow> nat \<Rightarrow> va_ctx \<Rightarrow> va_ctx" where
  "kbase_region_refcnt_free rb reg k =
     kfree_region reg (if start_pfn (regions k reg) \<noteq> 0 then snd (kbase_remove_va_region rb reg k) else k)"

definition kbase_va_region_alloc_get :: "nat \<Rightarrow> va_ctx \<Rightarrow> va_ctx" where
  "kbase_va_region_alloc_get reg k = upd_region reg (\<lambda>r. r\<lparr> va_refcnt := va_refcnt r + 1 \<rparr>) k"

definition kbase_va_region_alloc_put :: "rb_ops \<Rightarrow> nat \<Rightarrow> va_ctx \<Rightarrow> va_ctx" where
  "kbase_va_region_alloc_put rb reg k =
     (let k1 = upd_region reg (\<lambda>r. r\<lparr> va_refcnt := va_refcnt r - 1 \<rparr>) k
      in if va_refcnt (regions k1 reg) = 0 then kbase_region_refcnt_free rb reg k1 else k1)"

text \<open>
  The physical memory of a region and its place in the lists of sticky resources and of memory
  that can be reclaimed are not modelled; they do not bear on the trees.
\<close>

definition kbase_free_alloced_region :: "rb_ops \<Rightarrow> nat \<Rightarrow> va_ctx \<Rightarrow> va_ctx" where
  "kbase_free_alloced_region rb reg k =
     (if \<not> has_flag k reg KBASE_REG_FREE
      then if reg_flags (regions k reg) AND KBASE_REG_ZONE_MASK = KBASE_REG_ZONE_MASK then k
           else if has_flag k reg KBASE_REG_VA_FREED then k
           else kbase_va_region_alloc_put rb reg (upd_region reg (\<lambda>r. r\<lparr> reg_flags := reg_flags r OR KBASE_REG_VA_FREED \<rparr>) k)
      else kfree_region reg k)"

section \<open>Zones\<close>

partial_function (option) kbase_region_tracker_erase_rbtree :: "rb_ops \<Rightarrow> va_tree \<Rightarrow> va_ctx \<Rightarrow> va_ctx option" where
  "kbase_region_tracker_erase_rbtree rb z k =
     (case rb_first (trees k z) of
        None \<Rightarrow> Some k
      | Some reg \<Rightarrow>
          kbase_region_tracker_erase_rbtree rb z
            (kbase_free_alloced_region rb reg
              (upd_region reg (\<lambda>r. r\<lparr> start_pfn := 0 \<rparr>) (upd_tree z (\<lambda>t. rb_erase rb t reg) k))))"

definition kbase_region_tracker_term :: "rb_ops \<Rightarrow> va_ctx \<Rightarrow> va_ctx option" where
  "kbase_region_tracker_term rb k =
     Option.bind (kbase_region_tracker_erase_rbtree rb Tree_Same k) (\<lambda>k1.
     Option.bind (kbase_region_tracker_erase_rbtree rb Tree_Custom k1)
       (kbase_region_tracker_erase_rbtree rb Tree_Exec))"

definition kbase_region_tracker_ds_init :: "rb_ops \<Rightarrow> nat \<Rightarrow> nat option \<Rightarrow> va_ctx \<Rightarrow> va_ctx" where
  "kbase_region_tracker_ds_init rb same_va_reg custom_va_reg k =
     (let k1 = kbase_region_tracker_insert rb same_va_reg (upd_tree Tree_Same (\<lambda>t. Leaf) k);
          k2 = upd_tree Tree_Exec (\<lambda>t. Leaf) (upd_tree Tree_Custom (\<lambda>t. Leaf) k1)
      in case custom_va_reg of None \<Rightarrow> k2 | Some r \<Rightarrow> kbase_region_tracker_insert rb r k2)"

definition kbase_region_tracker_init :: "rb_ops \<Rightarrow> va_conf \<Rightarrow> va_ctx \<Rightarrow> int \<times> va_ctx" where
  "kbase_region_tracker_init rb c k =
     (let gpu_va_limit = drop_bit 12 (push_bit (va_bits_gpu c) 1 :: u64);
          same_va_pages = push_bit (kbase_get_same_va_bits c - 12) 1 - 1;
          finish = (\<lambda>same_va_reg custom_va_reg custom_va_size k.
            let k1 = kbase_region_tracker_ds_init rb same_va_reg custom_va_reg k
            in (0, k1\<lparr> same_va_end := same_va_pages + 1, gpu_va_end := same_va_pages + 1 + custom_va_size,
                       exec_va_start := - 1, jit_va := False \<rparr>))
      in case kbase_alloc_free_region Tree_Same 1 same_va_pages KBASE_REG_ZONE_SAME_VA k of
           (None, k1) \<Rightarrow> (-12, k1)
         | (Some same_va_reg, k1) \<Rightarrow>
             if compat c
             then if gpu_va_limit \<le> KBASE_REG_ZONE_CUSTOM_VA_BASE
                  then (-22, kbase_free_alloced_region rb same_va_reg k1)
                  else let custom_va_size =
                         (if KBASE_REG_ZONE_CUSTOM_VA_BASE + KBASE_REG_ZONE_CUSTOM_VA_SIZE \<ge> gpu_va_limit
                          then gpu_va_limit - KBASE_REG_ZONE_CUSTOM_VA_BASE else KBASE_REG_ZONE_CUSTOM_VA_SIZE)
                       in case kbase_alloc_free_region Tree_Custom KBASE_REG_ZONE_CUSTOM_VA_BASE custom_va_size
                                 KBASE_REG_ZONE_CUSTOM_VA k1 of
                            (None, k2) \<Rightarrow> (-12, kbase_free_alloced_region rb same_va_reg k2)
                          | (Some r, k2) \<Rightarrow> finish same_va_reg (Some r) custom_va_size k2
             else finish same_va_reg None 0 k1)"

definition kbase_region_tracker_init_jit_64 :: "rb_ops \<Rightarrow> va_conf \<Rightarrow> u64 \<Rightarrow> va_ctx \<Rightarrow> int \<times> va_ctx" where
  "kbase_region_tracker_init_jit_64 rb c jit_va_pages k =
     (if jit_va k then (-22, k)
      else case kbase_region_tracker_find_region_base_address c k 4096 of
             None \<Rightarrow> (-12, k)
           | Some same_va \<Rightarrow>
               if nr_pages (regions k same_va) < jit_va_pages \<or> same_va_end k < jit_va_pages then (-12, k)
               else let k1 = (upd_region same_va (\<lambda>r. r\<lparr> nr_pages := nr_pages r - jit_va_pages \<rparr>) k)
                               \<lparr> same_va_end := same_va_end k - jit_va_pages \<rparr>
                    in case kbase_alloc_free_region Tree_Custom (same_va_end k1) jit_va_pages
                              KBASE_REG_ZONE_CUSTOM_VA k1 of
                         (None, k2) \<Rightarrow> (-12, k2)
                       | (Some r, k2) \<Rightarrow> (0, kbase_region_tracker_insert rb r k2))"

definition kbase_region_tracker_init_jit ::
  "rb_ops \<Rightarrow> va_conf \<Rightarrow> u64 \<Rightarrow> nat \<Rightarrow> nat \<Rightarrow> int \<Rightarrow> va_ctx \<Rightarrow> int \<times> va_ctx" where
  "kbase_region_tracker_init_jit rb c jit_va_pages max_allocations trim group_id k =
     (if trim > 100 then (-22, k)
      else if group_id \<ge> 16 \<or> group_id < 0 then (-22, k)
      else let (err, k1) = (if compat c then (0, k) else kbase_region_tracker_init_jit_64 rb c jit_va_pages k)
           in if err = 0
              then (0, k1\<lparr> jit_max_allocations := max_allocations, trim_level := trim, jit_va := True,
                           jit_group_id := group_id \<rparr>)
              else (err, k1))"

definition kbase_region_tracker_init_exec :: "rb_ops \<Rightarrow> va_conf \<Rightarrow> u64 \<Rightarrow> va_ctx \<Rightarrow> int \<times> va_ctx" where
  "kbase_region_tracker_init_exec rb c exec_va_pages k =
     (if exec_va_pages = 0 \<or> exec_va_pages > KBASE_REG_ZONE_EXEC_VA_MAX_PAGES then (-22, k)
      else if jit_va k then (-1, k)
      else if exec_va_pages > gpu_va_end k then (-12, k)
      else let exec_start = gpu_va_end k - exec_va_pages
           in case kbase_region_tracker_find_region_enclosing_address c k (push_bit 12 exec_start) of
                None \<Rightarrow> (-12, k)
              | Some shrinking \<Rightarrow>
                  if reg_flags (regions k shrinking) AND KBASE_REG_ZONE_MASK = KBASE_REG_ZONE_EXEC_VA then (-1, k)
                  else if nr_pages (regions k shrinking) \<le> exec_va_pages then (-12, k)
                  else case kbase_alloc_free_region Tree_Exec exec_start exec_va_pages KBASE_REG_ZONE_EXEC_VA k of
                         (None, k1) \<Rightarrow> (-12, k1)
                       | (Some r, k1) \<Rightarrow>
                           (let k2 = upd_region shrinking (\<lambda>q. q\<lparr> nr_pages := nr_pages q - exec_va_pages \<rparr>) k1;
                                k3 = (if compat c then k2 else k2\<lparr> same_va_end := same_va_end k2 - exec_va_pages \<rparr>)
                            in (0, kbase_region_tracker_insert rb r (k3\<lparr> exec_va_start := exec_start \<rparr>))))"

definition kbase_has_exec_va_zone :: "va_ctx \<Rightarrow> bool" where
  "kbase_has_exec_va_zone k \<longleftrightarrow> exec_va_start k \<noteq> - 1"

end
