(* ===== verification/KB_RegionMap.thy ===== *)
theory KB_RegionMap
  imports KB_Region
begin

text \<open>
  The trees of regions as lists of segments that divide a zone of the address space. The abstract
  operations cut a free segment into pieces (\<open>carve\<close>), and free a segment and join it with its free
  neighbours (\<open>release\<close>); they undo each other.
\<close>

section \<open>Segments\<close>

text \<open>First page, number of pages, whether it is free.\<close>

type_synonym seg = "nat \<times> nat \<times> bool"

fun tiles :: "nat \<Rightarrow> seg list \<Rightarrow> nat \<Rightarrow> bool" where
  "tiles lo [] hi \<longleftrightarrow> lo = hi"
| "tiles lo ((a, m, f) # ss) hi \<longleftrightarrow> a = lo \<and> 0 < m \<and> tiles (lo + m) ss hi"

definition coalesced :: "seg list \<Rightarrow> bool" where
  "coalesced = successively (\<lambda>(a, m, f) (b, n, g). \<not> (f \<and> g))"

definition pieces :: "nat \<Rightarrow> nat \<Rightarrow> nat \<Rightarrow> nat \<Rightarrow> seg list" where
  "pieces s n a m =
     (if a < s then [(a, s - a, True)] else []) @ [(s, n, False)] @
     (if s + n < a + m then [(s + n, a + m - (s + n), True)] else [])"

fun carve :: "nat \<Rightarrow> nat \<Rightarrow> seg list \<Rightarrow> seg list" where
  "carve s n [] = []"
| "carve s n ((a, m, f) # ss) = (if a \<le> s \<and> s < a + m then pieces s n a m @ ss else (a, m, f) # carve s n ss)"

fun join_free :: "seg list \<Rightarrow> seg list" where
  "join_free ((a, m, True) # (b, n, True) # ss) = join_free ((a, m + n, True) # ss)"
| "join_free (x # ss) = x # join_free ss"
| "join_free [] = []"

definition release :: "nat \<Rightarrow> seg list \<Rightarrow> seg list" where
  "release s ss = join_free (map (\<lambda>(a, m, f). (a, m, f \<or> a = s)) ss)"

lemma tiles_append: "tiles lo (xs @ ys) hi \<longleftrightarrow> (\<exists>mid. tiles lo xs mid \<and> tiles mid ys hi)"
  by (induction lo xs hi rule: tiles.induct) auto

lemma tiles_le: "tiles lo ss hi \<Longrightarrow> lo \<le> hi"
  by (induction lo ss hi rule: tiles.induct) auto

lemma tiles_mem: "tiles lo ss hi \<Longrightarrow> (a, m, f) \<in> set ss \<Longrightarrow> lo \<le> a \<and> 0 < m \<and> a + m \<le> hi"
proof (induction lo ss hi rule: tiles.induct)
  case (2 lo b n g ss hi)
  then show ?case using tiles_le [of "lo + n" ss hi] by auto
qed simp

lemma coalesced_Nil [simp]: "coalesced []"
  by (simp add: coalesced_def)

lemma coalesced_Cons: "coalesced (x # ss) \<longleftrightarrow> coalesced ss \<and> (ss = [] \<or> \<not> (snd (snd x) \<and> snd (snd (hd ss))))"
  by (cases ss) (auto simp: coalesced_def split: prod.splits)

lemma coalesced_append:
  "coalesced (xs @ ys) \<longleftrightarrow>
     coalesced xs \<and> coalesced ys \<and> (xs = [] \<or> ys = [] \<or> \<not> (snd (snd (last xs)) \<and> snd (snd (hd ys))))"
  by (auto simp: coalesced_def successively_append_iff split: prod.splits)

text \<open>Where the page lies decides which segment is cut.\<close>

lemma carve_at:
  assumes "tiles lo (xs @ (a, m, f) # ys) hi" and "a \<le> s" and "s < a + m"
  shows "carve s n (xs @ (a, m, f) # ys) = xs @ pieces s n a m @ ys"
  using assms
proof (induction xs arbitrary: lo)
  case (Cons x xs)
  obtain b l g where x: "x = (b, l, g)" by (metis prod_cases3)
  have t: "tiles (b + l) (xs @ (a, m, f) # ys) hi" using Cons.prems(1) x by simp
  have "b + l \<le> a" using tiles_mem [OF t] by auto
  then show ?case using Cons.IH [OF t Cons.prems(2,3)] Cons.prems(2) x by simp
qed simp

lemma tiles_pieces:
  assumes "a \<le> s" and "s + n \<le> a + m" and "0 < n"
  shows "tiles a (pieces s n a m) (a + m)"
  using assms by (auto simp: pieces_def)

lemma carve_tiles:
  assumes "tiles lo (xs @ (a, m, f) # ys) hi" and "a \<le> s" and "s + n \<le> a + m" and "0 < n"
  shows "tiles lo (carve s n (xs @ (a, m, f) # ys)) hi"
proof -
  have "s < a + m" using assms(3,4) by simp
  then show ?thesis
    using carve_at [OF assms(1,2)] assms(1) tiles_pieces [OF assms(2-4)] by (auto simp: tiles_append)
qed

lemma carve_coalesced:
  assumes "tiles lo (xs @ (a, m, True) # ys) hi" and "coalesced (xs @ (a, m, True) # ys)"
    and "a \<le> s" and "s + n \<le> a + m" and "0 < n"
  shows "coalesced (carve s n (xs @ (a, m, True) # ys))"
proof -
  have l: "s < a + m" using assms(4,5) by simp
  show ?thesis
    unfolding carve_at [OF assms(1,3) l] using assms(2)
    by (auto simp: coalesced_append coalesced_Cons pieces_def)
qed

section \<open>Joining\<close>

lemma join_free_coalesced: "coalesced ss \<Longrightarrow> join_free ss = ss"
  by (induction ss rule: join_free.induct) (auto simp: coalesced_Cons)

lemma join_free_prefix:
  assumes "coalesced xs" and "xs = [] \<or> ys = [] \<or> \<not> (snd (snd (last xs)) \<and> snd (snd (hd ys)))"
  shows "join_free (xs @ ys) = xs @ join_free ys"
  using assms
proof (induction xs)
  case (Cons x xs)
  obtain a m f where x: "x = (a, m, f)" by (metis prod_cases3)
  have IH: "join_free (xs @ ys) = xs @ join_free ys"
    by (rule Cons.IH) (use Cons.prems in \<open>auto simp: coalesced_Cons split: if_splits\<close>)
  have "f \<Longrightarrow> xs @ ys = [] \<or> \<not> snd (snd (hd (xs @ ys)))"
    using Cons.prems x by (cases xs) (auto simp: coalesced_Cons)
  then have "join_free (x # xs @ ys) = x # join_free (xs @ ys)"
    using x by (cases f; cases "xs @ ys") auto
  then show ?case using IH by simp
qed simp

lemma join_free_tiles: "tiles lo ss hi \<Longrightarrow> tiles lo (join_free ss) hi"
proof (induction ss arbitrary: lo rule: join_free.induct)
  case (1 a m b n ss)
  then show ?case by (auto simp: algebra_simps)
qed auto

lemma hd_join_free: "ss \<noteq> [] \<Longrightarrow> join_free ss \<noteq> [] \<and> snd (snd (hd (join_free ss))) = snd (snd (hd ss))"
  by (induction ss rule: join_free.induct) auto

lemma coalesced_join_free: "coalesced (join_free ss)"
  by (induction ss rule: join_free.induct) (auto simp: coalesced_Cons hd_join_free)

section \<open>Releasing\<close>

lemma mark_other: "tiles lo ss hi \<Longrightarrow> hi \<le> s \<or> s < lo \<Longrightarrow> map (\<lambda>(a, m, f). (a, m, f \<or> a = s)) ss = ss"
  by (rule map_idI) (auto dest: tiles_mem)

lemma release_at:
  assumes "tiles lo (xs @ (s, m, f) # ys) hi"
  shows "release s (xs @ (s, m, f) # ys) = join_free (xs @ (s, m, True) # ys)"
proof -
  have t: "tiles lo xs s" "tiles (s + m) ys hi" "0 < m" using assms by (auto simp: tiles_append)
  show ?thesis
    using mark_other [OF t(1), of s] mark_other [OF t(2), of s] t(3) by (simp add: release_def)
qed

lemma release_tiles: "tiles lo ss hi \<Longrightarrow> tiles lo (release s ss) hi"
proof -
  assume t: "tiles lo ss hi"
  have "tiles lo (map (\<lambda>(a, m, f). (a, m, f \<or> a = s)) ss) hi" using t by (induction lo ss hi rule: tiles.induct) auto
  then show ?thesis by (simp add: release_def join_free_tiles)
qed

lemma release_coalesced: "coalesced (release s ss)"
  by (simp add: release_def coalesced_join_free)

lemma release_carve:
  assumes t: "tiles lo (xs @ (a, m, True) # ys) hi" and c: "coalesced (xs @ (a, m, True) # ys)"
    and s: "a \<le> s" "s + n \<le> a + m" "0 < n"
  shows "release s (carve s n (xs @ (a, m, True) # ys)) = xs @ (a, m, True) # ys"
proof -
  have l: "s < a + m" using s by simp
  define front where "front = (if a < s then [(a, s - a, True)] else [])"
  define rear where "rear = (if s + n < a + m then [(s + n, a + m - (s + n), True)] else [])"
  have cv: "carve s n (xs @ (a, m, True) # ys) = (xs @ front) @ (s, n, False) # rear @ ys"
    using carve_at [OF t s(1) l] by (simp add: pieces_def front_def rear_def)
  have tc: "tiles lo ((xs @ front) @ (s, n, False) # rear @ ys) hi"
    using carve_tiles [OF t s] cv by simp
  have r: "release s (carve s n (xs @ (a, m, True) # ys)) = join_free (xs @ front @ (s, n, True) # rear @ ys)"
    unfolding cv release_at [OF tc] by simp
  have free: "join_free (front @ (s, n, True) # rear @ ys) = join_free ((a, m, True) # ys)"
  proof -
    obtain d where d: "s = a + d" using s(1) le_Suc_ex by blast
    obtain e where e: "m = d + n + e" using s(2) d le_Suc_ex [of "d + n" m] by auto
    show ?thesis by (simp add: front_def rear_def d e)
  qed
  have y: "coalesced ((a, m, True) # ys)" and x: "coalesced xs" "xs = [] \<or> \<not> snd (snd (last xs))"
    using c by (auto simp: coalesced_append)
  have "join_free (xs @ front @ (s, n, True) # rear @ ys) = xs @ join_free (front @ (s, n, True) # rear @ ys)"
    by (rule join_free_prefix [OF x(1)]) (use x(2) in auto)
  then show ?thesis using r free join_free_coalesced [OF y] by simp
qed

section \<open>The segments of a tree\<close>

definition seg :: "va_ctx \<Rightarrow> nat \<Rightarrow> seg" where
  "seg k i = (unat (start_pfn (regions k i)), unat (nr_pages (regions k i)), has_flag k i KBASE_REG_FREE)"

definition segs :: "va_ctx \<Rightarrow> va_tree \<Rightarrow> seg list" where
  "segs k z = map (seg k) (rb_list (trees k z))"

text \<open>The regions of a tree that are in use.\<close>

definition used :: "va_ctx \<Rightarrow> va_tree \<Rightarrow> nat set" where
  "used k z = {i \<in> set (rb_list (trees k z)). \<not> has_flag k i KBASE_REG_FREE}"

definition zone_wf :: "va_ctx \<Rightarrow> va_tree \<Rightarrow> nat \<Rightarrow> nat \<Rightarrow> bool" where
  "zone_wf k z lo hi \<longleftrightarrow>
     distinct (rb_list (trees k z)) \<and> tiles lo (segs k z) hi \<and> coalesced (segs k z) \<and> hi \<le> 2 ^ 52 \<and>
     (\<forall>i \<in> set (kfreed k). i < next_reg k) \<and>
     (\<forall>i \<in> set (rb_list (trees k z)). reg_tree (regions k i) = z \<and> i < next_reg k \<and> i \<notin> set (kfreed k))"

text \<open>What the code relies on in the red-black trees of the kernel.\<close>

definition rb_ok :: "rb_ops \<Rightarrow> bool" where
  "rb_ok rb \<longleftrightarrow>
     (\<forall>t x. rb_list (rb_insert_color rb t x) = rb_list t) \<and>
     (\<forall>t x. distinct (rb_list t) \<longrightarrow> rb_list (rb_erase rb t x) = filter (\<lambda>i. i \<noteq> x) (rb_list t)) \<and>
     (\<forall>t x y. rb_list (rb_replace_node rb t x y) = map (\<lambda>i. if i = x then y else i) (rb_list t))"

lemma rb_list_simps [simp]:
  "rb_list Leaf = []" "rb_list (Node l (i, c) r) = rb_list l @ i # rb_list r"
  by (simp_all add: rb_list_def)

lemma seg_cong: "regions k' i = regions k i \<Longrightarrow> seg k' i = seg k i"
  by (simp add: seg_def has_flag_def)

lemma zone_wf_cong:
  assumes "zone_wf k z lo hi" and "trees k' z = trees k z" and "next_reg k \<le> next_reg k'"
    and "\<And>i. i \<in> set (rb_list (trees k z)) \<Longrightarrow> regions k' i = regions k i \<and> i \<notin> set (kfreed k')"
    and "\<And>i. i \<in> set (kfreed k') \<Longrightarrow> i < next_reg k'"
  shows "zone_wf k' z lo hi" and "segs k' z = segs k z"
proof -
  show s: "segs k' z = segs k z" using assms by (auto simp: segs_def intro: seg_cong)
  show "zone_wf k' z lo hi" using assms unfolding zone_wf_def s by fastforce
qed

text \<open>Sizes and places as numbers: nothing wraps around.\<close>

lemma zone_region:
  assumes "zone_wf k z lo hi" and "i \<in> set (rb_list (trees k z))"
  shows "lo \<le> unat (start_pfn (regions k i))" "0 < unat (nr_pages (regions k i))"
    and "unat (start_pfn (regions k i)) + unat (nr_pages (regions k i)) \<le> hi"
    and "unat (start_pfn (regions k i) + nr_pages (regions k i)) =
      unat (start_pfn (regions k i)) + unat (nr_pages (regions k i))"
proof -
  have "seg k i \<in> set (segs k z)" using assms(2) by (simp add: segs_def)
  then have m: "lo \<le> unat (start_pfn (regions k i)) \<and> 0 < unat (nr_pages (regions k i)) \<and>
      unat (start_pfn (regions k i)) + unat (nr_pages (regions k i)) \<le> hi"
    using tiles_mem assms(1) by (auto simp: zone_wf_def seg_def)
  then show "lo \<le> unat (start_pfn (regions k i))" "0 < unat (nr_pages (regions k i))"
    "unat (start_pfn (regions k i)) + unat (nr_pages (regions k i)) \<le> hi" by simp_all
  have "hi \<le> 2 ^ 52" using assms(1) by (simp add: zone_wf_def)
  then have "unat (start_pfn (regions k i)) + unat (nr_pages (regions k i)) < 2 ^ 64" using m by simp
  then show "unat (start_pfn (regions k i) + nr_pages (regions k i)) =
      unat (start_pfn (regions k i)) + unat (nr_pages (regions k i))"
    by (simp add: unat_word_ariths)
qed

text \<open>Regions before and after a region in the tree.\<close>

lemma zone_split:
  assumes "zone_wf k z lo hi" and "rb_list (trees k z) = xs @ i # ys"
  shows "j \<in> set xs \<Longrightarrow> unat (start_pfn (regions k j)) + unat (nr_pages (regions k j)) \<le> unat (start_pfn (regions k i))"
    and "j \<in> set ys \<Longrightarrow> unat (start_pfn (regions k i)) + unat (nr_pages (regions k i)) \<le> unat (start_pfn (regions k j))"
proof -
  have "tiles lo (map (seg k) xs @ seg k i # map (seg k) ys) hi" using assms by (simp add: zone_wf_def segs_def)
  then have t: "tiles lo (map (seg k) xs) (unat (start_pfn (regions k i)))"
    "tiles (unat (start_pfn (regions k i)) + unat (nr_pages (regions k i))) (map (seg k) ys) hi"
    by (auto simp: tiles_append seg_def)
  show "unat (start_pfn (regions k j)) + unat (nr_pages (regions k j)) \<le> unat (start_pfn (regions k i))" if "j \<in> set xs"
    using tiles_mem [OF t(1), of "unat (start_pfn (regions k j))" "unat (nr_pages (regions k j))"
        "has_flag k j KBASE_REG_FREE"] that by (auto simp: seg_def)
  show "unat (start_pfn (regions k i)) + unat (nr_pages (regions k i)) \<le> unat (start_pfn (regions k j))" if "j \<in> set ys"
    using tiles_mem [OF t(2), of "unat (start_pfn (regions k j))" "unat (nr_pages (regions k j))"
        "has_flag k j KBASE_REG_FREE"] that by (auto simp: seg_def)
qed

end
