(* ===== verification/KB_RegionFind.thy ===== *)
theory KB_RegionFind
  imports KB_RegionMap
begin

text \<open>
  Searching the trees of regions: in a zone that is divided into segments, the search by page finds
  the one region that holds the page, the search by range the region that holds the range, and the
  search by requirements a place inside a free region.
\<close>

section \<open>Descending a tree\<close>

definition holds_page :: "(nat \<Rightarrow> va_region) \<Rightarrow> u64 \<Rightarrow> nat \<Rightarrow> bool" where
  "holds_page h p i \<longleftrightarrow> start_pfn (h i) \<le> p \<and> p < start_pfn (h i) + nr_pages (h i)"

definition in_order :: "(nat \<Rightarrow> va_region) \<Rightarrow> nat list \<Rightarrow> bool" where
  "in_order h = sorted_wrt (\<lambda>i j. start_pfn (h i) < start_pfn (h i) + nr_pages (h i) \<and>
     start_pfn (h i) + nr_pages (h i) \<le> start_pfn (h j) \<and> start_pfn (h j) < start_pfn (h j) + nr_pages (h j))"

lemma find_pfn_iff:
  "in_order h (rb_list t) \<Longrightarrow> find_pfn h p t = Some i \<longleftrightarrow> i \<in> set (rb_list t) \<and> holds_page h p i"
proof (induction t)
  case (Node l ic r)
  obtain j c where ic: "ic = (j, c)" by (cases ic)
  have l: "in_order h (rb_list l)" and r: "in_order h (rb_list r)"
    and lj: "\<And>q. q \<in> set (rb_list l) \<Longrightarrow> start_pfn (h q) + nr_pages (h q) \<le> start_pfn (h j)"
    and jr: "\<And>q. q \<in> set (rb_list r) \<Longrightarrow> start_pfn (h j) + nr_pages (h j) \<le> start_pfn (h q)"
    and lr: "\<And>q q'. q \<in> set (rb_list l) \<Longrightarrow> q' \<in> set (rb_list r) \<Longrightarrow>
      start_pfn (h q) + nr_pages (h q) \<le> start_pfn (h q') \<and> start_pfn (h q') < start_pfn (h q') + nr_pages (h q')"
    using Node.prems by (auto simp: in_order_def ic sorted_wrt_append)
  have lj': "\<And>q. q \<in> set (rb_list l) \<Longrightarrow> start_pfn (h j) < start_pfn (h j) + nr_pages (h j)"
    and jr': "\<And>q. q \<in> set (rb_list r) \<Longrightarrow> start_pfn (h j) < start_pfn (h j) + nr_pages (h j)"
    using Node.prems by (auto simp: in_order_def ic sorted_wrt_append)
  consider "p < start_pfn (h j)" | "start_pfn (h j) \<le> p" "start_pfn (h j) + nr_pages (h j) \<le> p" | "holds_page h p j"
    unfolding holds_page_def by (meson leI)
  then show ?case
  proof cases
    case 1
    have "\<not> start_pfn (h q) \<le> p" if "q \<in> set (rb_list r)" for q
      using 1 jr' [OF that] jr [OF that] by (meson leD order.strict_trans order.strict_trans2)
    then have "\<not> holds_page h p q" if "q \<in> set (j # rb_list r)" for q
      using 1 that by (auto simp: holds_page_def)
    then show ?thesis using Node.IH(1) [OF l] 1 ic by auto
  next
    case 2
    have "\<not> holds_page h p q" if "q \<in> set (j # rb_list l)" for q
      using 2 lj that by (auto simp: holds_page_def) (meson leD order.trans order.strict_trans2)
    then show ?thesis using Node.IH(2) [OF r] 2 ic by (auto simp: not_less)
  next
    case 3
    have "\<not> holds_page h p q" if "q \<in> set (rb_list l @ rb_list r)" for q
      using 3 lj jr that by (auto simp: holds_page_def) (meson leD order.trans order.strict_trans2)+
    then have "i \<in> set (rb_list (Node l ic r)) \<and> holds_page h p i \<longleftrightarrow> i = j" using 3 ic by auto
    moreover have "find_pfn h p (Node l ic r) = Some j" using 3 ic by (auto simp: holds_page_def not_less)
    ultimately show ?thesis by auto
  qed
qed simp

lemma find_range_sound:
  "find_range h s e t = Some i \<Longrightarrow>
     i \<in> set (rb_list t) \<and> start_pfn (h i) \<le> s \<and> e \<le> start_pfn (h i) + nr_pages (h i)"
  by (induction h s e t rule: find_range.induct) (auto split: if_splits simp: not_less)

lemma find_base_sound:
  "find_base h p t = Some i \<Longrightarrow> i \<in> set (rb_list t) \<and> start_pfn (h i) = p"
  by (induction h p t rule: find_base.induct) (auto split: if_splits)

lemma first_meeting_sound:
  "first_meeting k flags nr align_offset align_mask is = Some (i, s) \<Longrightarrow>
     i \<in> set is \<and> has_flag k i KBASE_REG_FREE \<and> nr \<le> nr_pages (regions k i) \<and>
     aligned_start flags nr align_offset align_mask (start_pfn (regions k i)) = Some s \<and>
     start_pfn (regions k i) \<le> s \<and> s \<le> start_pfn (regions k i) + nr_pages (regions k i) - 1 \<and>
     s + nr - 1 \<le> start_pfn (regions k i) + nr_pages (regions k i) - 1"
  by (induction k flags nr align_offset align_mask "is" rule: first_meeting.induct)
    (auto simp: Let_def split: if_splits option.splits)

section \<open>Descending a zone\<close>

lemma zone_sorted:
  assumes w: "zone_wf k z lo hi"
  shows "in_order (regions k) (rb_list (trees k z))"
  unfolding in_order_def sorted_wrt_iff_nth_less
proof (intro allI impI)
  fix a b
  let ?L = "rb_list (trees k z)"
  assume ab: "a < b" "b < length ?L"
  define i where "i = ?L ! a"
  define j where "j = ?L ! b"
  have sp: "?L = take a ?L @ i # drop (Suc a) ?L" using ab by (simp add: i_def id_take_nth_drop)
  have "j = drop (Suc a) ?L ! (b - Suc a)" "b - Suc a < length (drop (Suc a) ?L)" using ab by (auto simp: j_def)
  then have "j \<in> set (drop (Suc a) ?L)" by (metis nth_mem)
  then have o: "unat (start_pfn (regions k i)) + unat (nr_pages (regions k i)) \<le> unat (start_pfn (regions k j))"
    using zone_split(2) [OF w sp] by simp
  have m: "i \<in> set ?L" "j \<in> set ?L" using ab by (auto simp: i_def j_def)
  show "start_pfn (regions k (?L ! a)) < start_pfn (regions k (?L ! a)) + nr_pages (regions k (?L ! a)) \<and>
        start_pfn (regions k (?L ! a)) + nr_pages (regions k (?L ! a)) \<le> start_pfn (regions k (?L ! b)) \<and>
        start_pfn (regions k (?L ! b)) < start_pfn (regions k (?L ! b)) + nr_pages (regions k (?L ! b))"
    unfolding i_def [symmetric] j_def [symmetric] word_less_nat_alt word_le_nat_alt
    using o zone_region(2,4) [OF w m(1)] zone_region(2,4) [OF w m(2)] by simp
qed

lemma holds_page_nat:
  assumes "zone_wf k z lo hi" and "i \<in> set (rb_list (trees k z))"
  shows "holds_page (regions k) p i \<longleftrightarrow>
    unat (start_pfn (regions k i)) \<le> unat p \<and>
    unat p < unat (start_pfn (regions k i)) + unat (nr_pages (regions k i))"
  using zone_region(4) [OF assms] by (simp add: holds_page_def word_less_nat_alt word_le_nat_alt)

lemma tiles_cover: "tiles lo ss hi \<Longrightarrow> lo \<le> p \<Longrightarrow> p < hi \<Longrightarrow> \<exists>(a, m, f) \<in> set ss. a \<le> p \<and> p < a + m"
proof (induction lo ss hi rule: tiles.induct)
  case (2 lo a m f ss hi)
  then show ?case by (cases "p < lo + m") auto
qed simp

lemma zone_cover:
  assumes w: "zone_wf k z lo hi" and "lo \<le> unat p" and "unat p < hi"
  shows "\<exists>i \<in> set (rb_list (trees k z)). holds_page (regions k) p i"
proof -
  obtain a m f where "(a, m, f) \<in> set (segs k z)" "a \<le> unat p" "unat p < a + m"
    using tiles_cover [of lo "segs k z" hi "unat p"] assms by (auto simp: zone_wf_def)
  then show ?thesis using holds_page_nat [OF w] by (auto simp: segs_def seg_def)
qed

end
