(* ===== verification/KB_RegionIns.thy ===== *)
theory KB_RegionIns
  imports KB_RegionFind
begin

text \<open>
  Inserting a region into a free one (\<open>kbase_insert_va_region_nolock\<close>) cuts a free segment of the
  zone into pieces and leaves the rest of the context alone.
\<close>

section \<open>Placing a node\<close>

lemma rb_link_list:
  "sorted_wrt (\<lambda>i j. start_pfn (h j) \<le> start_pfn (h x) \<longrightarrow> start_pfn (h i) \<le> start_pfn (h x)) (rb_list t) \<Longrightarrow>
   rb_list (rb_link h t x) =
     takeWhile (\<lambda>i. start_pfn (h i) \<le> start_pfn (h x)) (rb_list t) @ x #
     dropWhile (\<lambda>i. start_pfn (h i) \<le> start_pfn (h x)) (rb_list t)"
proof (induction t)
  case (Node l ic r)
  let ?P = "\<lambda>i. start_pfn (h i) \<le> start_pfn (h x)"
  obtain i c where ic: "ic = (i, c)" by (cases ic)
  note s = Node.prems [unfolded ic rb_list_simps sorted_wrt_append sorted_wrt.simps]
  show ?case
  proof (cases "?P i")
    case True
    then have "\<forall>j \<in> set (rb_list l). ?P j" using s by auto
    then show ?thesis using Node.IH(2) s True ic by (simp add: takeWhile_append dropWhile_append not_less)
  next
    case False
    then have "takeWhile ?P (rb_list r) = []" "dropWhile ?P (rb_list r) = rb_list r"
      using s by (cases "rb_list r"; auto)+
    then show ?thesis using Node.IH(1) s False ic
      by (auto simp: takeWhile_append dropWhile_append not_less dropWhile_eq_Nil_conv)
  qed
qed simp

lemma rb_link_between:
  assumes "rb_list t = us @ vs"
    and "\<And>i. i \<in> set us \<Longrightarrow> start_pfn (h i) \<le> start_pfn (h x)"
    and "\<And>i. i \<in> set vs \<Longrightarrow> start_pfn (h x) < start_pfn (h i)"
  shows "rb_list (rb_link h t x) = us @ x # vs"
proof -
  let ?P = "\<lambda>i. start_pfn (h i) \<le> start_pfn (h x)"
  have n: "\<And>i. i \<in> set vs \<Longrightarrow> \<not> ?P i" using assms(3) by (meson leD)
  have "sorted_wrt (\<lambda>i j. ?P j \<longrightarrow> ?P i) us" "sorted_wrt (\<lambda>i j. ?P j \<longrightarrow> ?P i) vs"
    using assms(2) n by (auto intro!: sorted_wrt_mono_rel [of _ "\<lambda>i j. True"] simp: sorted_wrt_iff_nth_less)
  then have s: "sorted_wrt (\<lambda>i j. ?P j \<longrightarrow> ?P i) (rb_list t)"
    using assms(1,2) n by (auto simp: sorted_wrt_append)
  have "takeWhile ?P vs = []" "dropWhile ?P vs = vs" using n by (cases vs; auto)+
  then show ?thesis using rb_link_list [OF s] assms(1,2) by (simp add: takeWhile_append dropWhile_append)
qed

section \<open>Replacing a free segment\<close>

lemma has_flag_fresh: "(x OR KBASE_REG_FREE OR KBASE_REG_GROWABLE) AND KBASE_REG_FREE \<noteq> 0"
proof -
  have "bit ((x OR KBASE_REG_FREE OR KBASE_REG_GROWABLE) AND KBASE_REG_FREE) 0"
    by (simp add: KBASE_REG_FREE_def bit_simps)
  then show ?thesis by (metis bit_0_eq bot_apply bot_bool_def)
qed

text \<open>What an operation on zone \<open>z\<close> leaves alone: everything but the regions \<open>is\<close>.\<close>

definition rest_same :: "va_tree \<Rightarrow> nat set \<Rightarrow> va_ctx \<Rightarrow> va_ctx \<Rightarrow> bool" where
  "rest_same z is k k' \<longleftrightarrow>
     (\<forall>y. y \<noteq> z \<longrightarrow> trees k' y = trees k y) \<and>
     (\<forall>i. i \<notin> is \<and> i < next_reg k \<longrightarrow> regions k' i = regions k i) \<and> set (kfreed k') \<subseteq> set (kfreed k) \<union> is \<and>
     next_reg k \<le> next_reg k' \<and>
     same_va_end k' = same_va_end k \<and> gpu_va_end k' = gpu_va_end k \<and> exec_va_start k' = exec_va_start k"

lemma zone_kept:
  assumes w: "zone_wf k z lo hi" and r: "rest_same z is k k'" "\<And>j. j \<in> is \<Longrightarrow> j < next_reg k"
    and o: "set os \<subseteq> set (rb_list (trees k z))" "is \<inter> set os = {}"
  shows "j \<in> set os \<Longrightarrow>
      regions k' j = regions k j \<and> j \<notin> set (kfreed k') \<and> reg_tree (regions k j) = z \<and> j < next_reg k'"
    and "map (seg k') os = map (seg k) os" and "j \<in> set (kfreed k') \<Longrightarrow> j < next_reg k'"
proof -
  have k: "regions k' j = regions k j \<and> j \<notin> set (kfreed k') \<and> reg_tree (regions k j) = z \<and> j < next_reg k'"
    if "j \<in> set os" for j
  proof -
    have "j < next_reg k" "j \<notin> set (kfreed k)" "reg_tree (regions k j) = z" "j \<notin> is"
      using w o that by (auto simp: zone_wf_def)
    then show ?thesis using r by (auto simp: rest_same_def)
  qed
  then show "j \<in> set os \<Longrightarrow>
      regions k' j = regions k j \<and> j \<notin> set (kfreed k') \<and> reg_tree (regions k j) = z \<and> j < next_reg k'" .
  show "map (seg k') os = map (seg k) os" using k by (auto intro: seg_cong)
  show "j < next_reg k'" if "j \<in> set (kfreed k')"
  proof -
    have "j \<in> set (kfreed k) \<union> is" "next_reg k \<le> next_reg k'" using that r(1) by (auto simp: rest_same_def)
    moreover have "j < next_reg k" if "j \<in> set (kfreed k)" using that w by (simp add: zone_wf_def)
    ultimately show ?thesis using r(2) [of j] by fastforce
  qed
qed

lemma zone_replace:
  assumes w: "zone_wf k z lo hi" and L: "rb_list (trees k z) = xs @ i # ys" and f: "has_flag k i KBASE_REG_FREE"
    and b: "unat (start_pfn (regions k i)) \<le> s"
      "s + n \<le> unat (start_pfn (regions k i)) + unat (nr_pages (regions k i))" "0 < n"
    and L': "rb_list (trees k' z) = xs @ mids @ ys"
    and m: "map (seg k') mids = pieces s n (unat (start_pfn (regions k i))) (unat (nr_pages (regions k i)))"
    and d: "distinct mids" "set mids \<inter> (set xs \<union> set ys) = {}"
    and mi: "\<And>j. j \<in> set mids \<Longrightarrow> reg_tree (regions k' j) = z \<and> j < next_reg k' \<and> j \<notin> set (kfreed k')"
    and r: "rest_same z is k k'" "is \<inter> (set xs \<union> set ys) = {}" "\<And>j. j \<in> is \<Longrightarrow> j < next_reg k"
  shows "segs k' z = carve s n (segs k z)" and "zone_wf k' z lo hi"
proof -
  have "set (xs @ ys) \<subseteq> set (rb_list (trees k z))" "is \<inter> set (xs @ ys) = {}" using L r(2) by auto
  note o = zone_kept [OF w r(1,3) this]
  have sx: "map (seg k') xs = map (seg k) xs" "map (seg k') ys = map (seg k) ys" using o(2) by simp_all
  let ?a = "unat (start_pfn (regions k i))" and ?m = "unat (nr_pages (regions k i))"
  have sg: "segs k z = map (seg k) xs @ (?a, ?m, True) # map (seg k) ys" using L f by (simp add: segs_def seg_def)
  have t: "tiles lo (map (seg k) xs @ (?a, ?m, True) # map (seg k) ys) hi"
    and c: "coalesced (map (seg k) xs @ (?a, ?m, True) # map (seg k) ys)" using w by (simp_all add: zone_wf_def sg)
  show s': "segs k' z = carve s n (segs k z)"
    unfolding sg using carve_at [OF t b(1)] b(2,3) by (simp add: segs_def L' sx m)
  have "distinct (xs @ mids @ ys)" using w L d by (auto simp: zone_wf_def)
  moreover have "tiles lo (segs k' z) hi" "coalesced (segs k' z)"
    unfolding s' sg by (rule carve_tiles [OF t b], rule carve_coalesced [OF t c b])
  ultimately show "zone_wf k' z lo hi"
    unfolding zone_wf_def L' using o(1,3) mi w by (auto simp: zone_wf_def)
qed

section \<open>Insertion\<close>

lemma upd_region_simps [simp]:
  "regions (upd_region i f k) = (regions k)(i := f (regions k i))" "trees (upd_region i f k) = trees k"
  "next_reg (upd_region i f k) = next_reg k" "kfreed (upd_region i f k) = kfreed k"
  "kzallocs (upd_region i f k) = kzallocs k" "same_va_end (upd_region i f k) = same_va_end k"
  "gpu_va_end (upd_region i f k) = gpu_va_end k" "exec_va_start (upd_region i f k) = exec_va_start k"
  by (simp_all add: upd_region_def)

lemma upd_tree_simps [simp]:
  "regions (upd_tree z g k) = regions k" "trees (upd_tree z g k) = (trees k)(z := g (trees k z))"
  "next_reg (upd_tree z g k) = next_reg k" "kfreed (upd_tree z g k) = kfreed k"
  "kzallocs (upd_tree z g k) = kzallocs k" "same_va_end (upd_tree z g k) = same_va_end k"
  "gpu_va_end (upd_tree z g k) = gpu_va_end k" "exec_va_start (upd_tree z g k) = exec_va_start k"
  by (simp_all add: upd_tree_def)

lemma kfree_region_simps [simp]:
  "regions (kfree_region i k) = regions k" "trees (kfree_region i k) = trees k"
  "next_reg (kfree_region i k) = next_reg k" "kfreed (kfree_region i k) = i # kfreed k"
  "kzallocs (kfree_region i k) = kzallocs k" "same_va_end (kfree_region i k) = same_va_end k"
  "gpu_va_end (kfree_region i k) = gpu_va_end k" "exec_va_start (kfree_region i k) = exec_va_start k"
  by (simp_all add: kfree_region_def)

lemma has_flag_simps [simp]:
  "has_flag (upd_tree z g k) i m = has_flag k i m" "has_flag (kfree_region j k) i m = has_flag k i m"
  by (simp_all add: has_flag_def)

lemma kbase_alloc_free_region_cases:
  obtains (fail) as where "kbase_alloc_free_region z s n zone k = (None, k\<lparr> kzallocs := as \<rparr>)"
  | (ok) as where "kbase_alloc_free_region z s n zone k =
      (Some (next_reg k), k\<lparr> kzallocs := as, next_reg := next_reg k + 1,
         regions := (regions k)(next_reg k :=
           \<lparr> start_pfn = s, nr_pages = n, initial_commit = 0, extent = 0,
             reg_flags = zone OR KBASE_REG_FREE OR KBASE_REG_GROWABLE, reg_tree = z, va_refcnt = 1 \<rparr>) \<rparr>)"
proof (cases "kzallocs k")
  case Nil
  then have "kbase_alloc_free_region z s n zone k = (None, k\<lparr> kzallocs := kzallocs k \<rparr>)"
    by (simp add: kbase_alloc_free_region_def)
  then show ?thesis by (rule fail)
next
  case (Cons b as)
  show ?thesis
  proof (cases b)
    case True
    then show ?thesis using Cons by (intro ok [of as]) (simp add: kbase_alloc_free_region_def)
  next
    case False
    then show ?thesis using Cons by (intro fail [of as]) (simp add: kbase_alloc_free_region_def)
  qed
qed

lemma rb_okD:
  assumes "rb_ok rb"
  shows "rb_list (rb_insert_color rb t x) = rb_list t"
    and "distinct (rb_list t) \<Longrightarrow> rb_list (rb_erase rb t x) = filter (\<lambda>i. i \<noteq> x) (rb_list t)"
    and "rb_list (rb_replace_node rb t x y) = map (\<lambda>i. if i = x then y else i) (rb_list t)"
  using assms by (simp_all add: rb_ok_def)


text \<open>A region that is allocated, not in use as a free one and not in the tree.\<close>

definition addable :: "va_ctx \<Rightarrow> va_tree \<Rightarrow> nat \<Rightarrow> bool" where
  "addable k z i \<longleftrightarrow>
     reg_tree (regions k i) = z \<and> i < next_reg k \<and> i \<notin> set (kfreed k) \<and> i \<notin> set (rb_list (trees k z)) \<and>
     \<not> has_flag k i KBASE_REG_FREE"

lemma seg_unfold:
  "seg k i = (unat (start_pfn (regions k i)), unat (nr_pages (regions k i)),
     reg_flags (regions k i) AND KBASE_REG_FREE \<noteq> 0)"
  by (simp add: seg_def has_flag_def)

lemma tracker_insert_simps [simp]:
  "regions (kbase_region_tracker_insert rb x k) = regions k"
  "next_reg (kbase_region_tracker_insert rb x k) = next_reg k" "kfreed (kbase_region_tracker_insert rb x k) = kfreed k"
  "same_va_end (kbase_region_tracker_insert rb x k) = same_va_end k"
  "gpu_va_end (kbase_region_tracker_insert rb x k) = gpu_va_end k"
  "exec_va_start (kbase_region_tracker_insert rb x k) = exec_va_start k"
  "y \<noteq> reg_tree (regions k x) \<Longrightarrow> trees (kbase_region_tracker_insert rb x k) y = trees k y"
  by (simp_all add: kbase_region_tracker_insert_def)

lemma tracker_insert_between:
  assumes "rb_ok rb" and "reg_tree (regions k x) = z" and "rb_list (trees k z) = us @ vs"
    and "\<And>i. i \<in> set us \<Longrightarrow> unat (start_pfn (regions k i)) \<le> unat (start_pfn (regions k x))"
    and "\<And>i. i \<in> set vs \<Longrightarrow> unat (start_pfn (regions k x)) < unat (start_pfn (regions k i))"
  shows "rb_list (trees (kbase_region_tracker_insert rb x k) z) = us @ x # vs"
  using rb_link_between [OF assms(3), of "regions k" x] assms
  by (simp add: kbase_region_tracker_insert_def rb_okD(1) [OF assms(1)] word_le_nat_alt word_less_nat_alt)

text \<open>Region \<open>new\<close> is to be put at page \<open>s\<close> of the free region \<open>i\<close>.\<close>

definition insertable ::
  "va_ctx \<Rightarrow> va_tree \<Rightarrow> nat \<Rightarrow> nat \<Rightarrow> nat list \<Rightarrow> nat \<Rightarrow> nat list \<Rightarrow> nat \<Rightarrow> u64 \<Rightarrow> u64 \<Rightarrow> bool" where
  "insertable k z lo hi xs i ys new s n \<longleftrightarrow>
     zone_wf k z lo hi \<and> rb_list (trees k z) = xs @ i # ys \<and> has_flag k i KBASE_REG_FREE \<and> addable k z new \<and>
     unat (start_pfn (regions k i)) \<le> unat s \<and>
     unat s + unat n \<le> unat (start_pfn (regions k i)) + unat (nr_pages (regions k i)) \<and> 0 < unat n"

definition inserted ::
  "va_ctx \<Rightarrow> va_tree \<Rightarrow> nat list \<Rightarrow> nat \<Rightarrow> nat list \<Rightarrow> nat \<Rightarrow> u64 \<Rightarrow> u64 \<Rightarrow> va_ctx \<Rightarrow> bool" where
  "inserted k z xs i ys new s n k' \<longleftrightarrow>
     (\<exists>mids. rb_list (trees k' z) = xs @ mids @ ys \<and>
        map (seg k') mids = pieces (unat s) (unat n) (unat (start_pfn (regions k i))) (unat (nr_pages (regions k i))) \<and>
        distinct mids \<and> set mids \<inter> (set xs \<union> set ys) = {} \<and> new \<in> set mids \<and>
        (\<forall>j \<in> set mids. reg_tree (regions k' j) = z \<and> j < next_reg k' \<and> j \<notin> set (kfreed k'))) \<and>
     rest_same z {new, i} k k' \<and>
     regions k' new = (regions k new)\<lparr> start_pfn := s, nr_pages := n \<rparr>"

lemma insertable_facts:
  assumes "insertable k z lo hi xs i ys new s n"
  defines "A \<equiv> unat (start_pfn (regions k i))" and "M \<equiv> unat (nr_pages (regions k i))"
  shows "rb_list (trees k z) = xs @ i # ys" "distinct (xs @ i # ys)"
    and "reg_tree (regions k i) = z" "i < next_reg k" "i \<notin> set (kfreed k)"
    and "new \<noteq> i" "new \<notin> set xs" "new \<notin> set ys" "reg_tree (regions k new) = z" "new < next_reg k"
      "new \<notin> set (kfreed k)"
    and "reg_flags (regions k i) AND KBASE_REG_FREE \<noteq> 0" "reg_flags (regions k new) AND KBASE_REG_FREE = 0"
    and "A \<le> unat s" "unat s + unat n \<le> A + M" "0 < unat n" "A + M \<le> 2 ^ 52"
    and "unat (s + n) = unat s + unat n" "unat (start_pfn (regions k i) + nr_pages (regions k i)) = A + M"
      "unat (nr_pages (regions k i) - n) = M - unat n"
    and "j \<in> set xs \<Longrightarrow> unat (start_pfn (regions k j)) \<le> A"
    and "j \<in> set ys \<Longrightarrow> A + M \<le> unat (start_pfn (regions k j))"
    and "j \<in> set xs \<union> set ys \<union> set (kfreed k) \<Longrightarrow> j < next_reg k"
proof -
  note a = assms(1) [unfolded insertable_def]
  have w: "zone_wf k z lo hi" and L: "rb_list (trees k z) = xs @ i # ys" using a by simp_all
  have iL: "i \<in> set (rb_list (trees k z))" using L by simp
  show "rb_list (trees k z) = xs @ i # ys" by (rule L)
  show "distinct (xs @ i # ys)" "reg_tree (regions k i) = z" "i < next_reg k" "i \<notin> set (kfreed k)"
    using w L by (auto simp: zone_wf_def)
  show "new \<noteq> i" "new \<notin> set xs" "new \<notin> set ys" "reg_tree (regions k new) = z" "new < next_reg k"
    "new \<notin> set (kfreed k)" "reg_flags (regions k i) AND KBASE_REG_FREE \<noteq> 0"
    "reg_flags (regions k new) AND KBASE_REG_FREE = 0" using a L by (auto simp: addable_def has_flag_def)
  show "A \<le> unat s" "unat s + unat n \<le> A + M" "0 < unat n" using a by (simp_all add: A_def M_def)
  show A: "A + M \<le> 2 ^ 52" using zone_region(3) [OF w iL] w by (simp add: A_def M_def zone_wf_def)
  show "unat (s + n) = unat s + unat n" using a A by (simp add: unat_word_ariths A_def M_def)
  show "unat (start_pfn (regions k i) + nr_pages (regions k i)) = A + M"
    using zone_region(4) [OF w iL] by (simp add: A_def M_def)
  show "unat (nr_pages (regions k i) - n) = M - unat n" using a by (simp add: unat_sub_if' A_def M_def)
  show "unat (start_pfn (regions k j)) \<le> A" if "j \<in> set xs" using zone_split(1) [OF w L that] by (simp add: A_def)
  show "A + M \<le> unat (start_pfn (regions k j))" if "j \<in> set ys"
    using zone_split(2) [OF w L that] by (simp add: A_def M_def)
  show "j < next_reg k" if "j \<in> set xs \<union> set ys \<union> set (kfreed k)" using that w L by (auto simp: zone_wf_def)
qed

lemma insert_whole:
  assumes ok: "rb_ok rb" and ins: "insertable k z lo hi xs i ys new s n"
    and whole: "start_pfn (regions k i) = s" "nr_pages (regions k i) = n"
    and res: "kbase_insert_va_region_nolock rb new i s n k = (0, k')"
  shows "inserted k z xs i ys new s n k'"
proof -
  define A where "A = unat (start_pfn (regions k i))"
  define M where "M = unat (nr_pages (regions k i))"
  note F = insertable_facts [OF ins, folded A_def M_def]
  note L = F(1) and dL = F(2) and iz = F(3-5) and nw = F(6-11) and fi = F(12) and fn = F(13)
  note b = F(14-16) and AM = F(17) and sn = F(18) and am = F(19) and mn = F(20) and xs = F(21) and ys = F(22)
  note lt = F(23)
  have k': "k' = kfree_region i (upd_tree z (\<lambda>t. rb_replace_node rb t i new)
      (upd_region new (\<lambda>r. r\<lparr> start_pfn := s, nr_pages := n \<rparr>) k))"
    using res whole by (simp add: kbase_insert_va_region_nolock_def Let_def iz)
  have "map (\<lambda>j. if j = i then new else j) (xs @ i # ys) = xs @ [new] @ ys"
    using dL by (auto intro!: map_idI)
  then have "rb_list (trees k' z) = xs @ [new] @ ys" using rb_okD(3) [OF ok] L by (simp add: k')
  moreover have "map (seg k') [new] = pieces (unat s) (unat n) A M"
    using whole fn by (simp add: k' seg_unfold pieces_def A_def M_def)
  ultimately show ?thesis unfolding inserted_def A_def [symmetric] M_def [symmetric] using nw by (intro conjI exI [of _ "[new]"]) (auto simp: k' rest_same_def)
qed

lemma insert_front:
  assumes ok: "rb_ok rb" and ins: "insertable k z lo hi xs i ys new s n"
    and front: "start_pfn (regions k i) = s" "nr_pages (regions k i) \<noteq> n"
    and res: "kbase_insert_va_region_nolock rb new i s n k = (0, k')"
  shows "inserted k z xs i ys new s n k'"
proof -
  define A where "A = unat (start_pfn (regions k i))"
  define M where "M = unat (nr_pages (regions k i))"
  note F = insertable_facts [OF ins, folded A_def M_def]
  note L = F(1) and dL = F(2) and iz = F(3-5) and nw = F(6-11) and fi = F(12) and fn = F(13)
  note b = F(14-16) and AM = F(17) and sn = F(18) and am = F(19) and mn = F(20) and xs = F(21) and ys = F(22)
  note lt = F(23)
  define K where "K = upd_region i (\<lambda>r. r\<lparr> start_pfn := start_pfn r + n, nr_pages := nr_pages r - n \<rparr>)
      (upd_region new (\<lambda>r. r\<lparr> start_pfn := s, nr_pages := n \<rparr>) k)"
  have k': "k' = kbase_region_tracker_insert rb new K" using res front by (simp add: kbase_insert_va_region_nolock_def Let_def iz K_def)
  have As: "A = unat s" using front by (simp add: A_def)
  have lt: "unat n < M" using front b As by (simp add: A_def M_def) (metis order_le_neq_trans word_unat_eq_iff)
  have K: "regions K new = (regions k new)\<lparr> start_pfn := s, nr_pages := n \<rparr>"
    "unat (start_pfn (regions K i)) = unat s + unat n"
    "j \<in> set xs \<union> set ys \<Longrightarrow> regions K j = regions k j" for j
    using nw dL sn front by (auto simp: K_def)
  have "rb_list (trees (kbase_region_tracker_insert rb new K) z) = xs @ new # i # ys"
  proof (rule tracker_insert_between [OF ok])
    show "reg_tree (regions K new) = z" using K nw by simp
    show "rb_list (trees K z) = xs @ i # ys" using L by (simp add: K_def)
    show "unat (start_pfn (regions K j)) \<le> unat (start_pfn (regions K new))" if "j \<in> set xs" for j
      using K that xs [OF that] As by simp
    show "unat (start_pfn (regions K new)) < unat (start_pfn (regions K j))" if "j \<in> set (i # ys)" for j
    proof (cases "j = i")
      case True
      then show ?thesis using K b(3) by simp
    next
      case False
      then have "j \<in> set ys" using that by simp
      then show ?thesis using K ys [of j] b As by simp
    qed
  qed
  then have "rb_list (trees k' z) = xs @ [new, i] @ ys" by (simp add: k')
  moreover have "map (seg k') [new, i] = pieces (unat s) (unat n) A M"
    using front fn fi nw sn As lt mn by (simp add: k' K_def seg_unfold pieces_def)
  ultimately show ?thesis unfolding inserted_def A_def [symmetric] M_def [symmetric] using nw iz dL
    by (intro conjI exI [of _ "[new, i]"]) (auto simp: k' K_def rest_same_def)
qed

lemma insert_rear:
  assumes ok: "rb_ok rb" and ins: "insertable k z lo hi xs i ys new s n"
    and rear: "start_pfn (regions k i) \<noteq> s" "start_pfn (regions k i) + nr_pages (regions k i) = s + n"
    and res: "kbase_insert_va_region_nolock rb new i s n k = (0, k')"
  shows "inserted k z xs i ys new s n k'"
proof -
  define A where "A = unat (start_pfn (regions k i))"
  define M where "M = unat (nr_pages (regions k i))"
  note F = insertable_facts [OF ins, folded A_def M_def]
  note L = F(1) and dL = F(2) and iz = F(3-5) and nw = F(6-11) and fi = F(12) and fn = F(13)
  note b = F(14-16) and AM = F(17) and sn = F(18) and am = F(19) and mn = F(20) and xs = F(21) and ys = F(22)
  note lt = F(23)
  have e: "A + M = unat s + unat n" using rear am sn by metis
  have As: "A < unat s" using rear b(1) by (simp add: A_def) (metis order_le_neq_trans word_unat_eq_iff)
  have ns: "\<not> (start_pfn (regions k i) = s \<and> nr_pages (regions k i) = n)" using rear by simp
  define K where "K = upd_region i (\<lambda>r. r\<lparr> nr_pages := nr_pages r - n \<rparr>)
      (upd_region new (\<lambda>r. r\<lparr> start_pfn := s, nr_pages := n \<rparr>) k)"
  have k': "k' = kbase_region_tracker_insert rb new K" using res rear by (simp add: kbase_insert_va_region_nolock_def Let_def iz K_def)
  have K: "regions K new = (regions k new)\<lparr> start_pfn := s, nr_pages := n \<rparr>"
    "unat (start_pfn (regions K i)) = A"
    "j \<in> set xs \<union> set ys \<Longrightarrow> regions K j = regions k j" for j
    using nw dL by (auto simp: K_def A_def)
  have "rb_list (trees (kbase_region_tracker_insert rb new K) z) = (xs @ [i]) @ new # ys"
  proof (rule tracker_insert_between [OF ok])
    show "reg_tree (regions K new) = z" using K nw by simp
    show "rb_list (trees K z) = (xs @ [i]) @ ys" using L by (simp add: K_def)
    show "unat (start_pfn (regions K j)) \<le> unat (start_pfn (regions K new))" if "j \<in> set (xs @ [i])" for j
      using that K xs [of j] As by auto
    show "unat (start_pfn (regions K new)) < unat (start_pfn (regions K j))" if "j \<in> set ys" for j
      using K that ys [OF that] e b(3) by simp
  qed
  then have "rb_list (trees k' z) = xs @ [i, new] @ ys" by (simp add: k')
  moreover have "map (seg k') [i, new] = pieces (unat s) (unat n) A M"
    using rear fn fi nw sn As mn e b
    by (simp add: k' K_def seg_unfold pieces_def A_def [symmetric])
  ultimately show ?thesis unfolding inserted_def A_def [symmetric] M_def [symmetric] using nw iz dL
    by (intro conjI exI [of _ "[i, new]"]) (auto simp: k' K_def rest_same_def)
qed

text \<open>The state of the split before the two insertions.\<close>

definition split_ctx :: "va_ctx \<Rightarrow> nat \<Rightarrow> nat \<Rightarrow> u64 \<Rightarrow> u64 \<Rightarrow> bool list \<Rightarrow> va_ctx" where
  "split_ctx k new i s n as =
     upd_region i (\<lambda>r. r\<lparr> nr_pages := nr_pages r - (n + (s - start_pfn (regions k i))), start_pfn := s + n \<rparr>)
       ((upd_region new (\<lambda>r. r\<lparr> start_pfn := s, nr_pages := n \<rparr>) k)\<lparr> kzallocs := as, next_reg := next_reg k + 1,
         regions := (regions (upd_region new (\<lambda>r. r\<lparr> start_pfn := s, nr_pages := n \<rparr>) k))(next_reg k :=
           \<lparr> start_pfn = start_pfn (regions k i), nr_pages = s - start_pfn (regions k i),
             initial_commit = 0, extent = 0,
             reg_flags = (reg_flags (regions k i) AND KBASE_REG_ZONE_MASK) OR KBASE_REG_FREE OR KBASE_REG_GROWABLE,
             reg_tree = reg_tree (regions k i), va_refcnt = 1 \<rparr>) \<rparr>)"

lemma insert_split_ctx:
  assumes "start_pfn (regions k i) \<noteq> s" and "start_pfn (regions k i) + nr_pages (regions k i) \<noteq> s + n"
    and "kbase_insert_va_region_nolock rb new i s n k = (0, k')"
  shows "\<exists>as. k' = kbase_region_tracker_insert rb new
    (kbase_region_tracker_insert rb (next_reg k) (split_ctx k new i s n as))"
proof -
  define k1 where "k1 = upd_region new (\<lambda>r. r\<lparr> start_pfn := s, nr_pages := n \<rparr>) k"
  show ?thesis
  proof (cases rule: kbase_alloc_free_region_cases [of "reg_tree (regions k i)" "start_pfn (regions k i)"
        "s - start_pfn (regions k i)" "reg_flags (regions k i) AND KBASE_REG_ZONE_MASK" k1])
    case (fail as)
    then show ?thesis using assms by (simp add: kbase_insert_va_region_nolock_def Let_def k1_def)
  next
    case (ok as)
    then show ?thesis using assms
      by (intro exI [of _ as]) (simp add: kbase_insert_va_region_nolock_def Let_def k1_def split_ctx_def)
  qed
qed

lemma insert_two:
  assumes ok: "rb_ok rb" and L: "rb_list (trees K z) = xs @ i # ys"
    and z: "reg_tree (regions K fr) = z" "reg_tree (regions K new) = z"
    and xs: "\<And>j. j \<in> set xs \<Longrightarrow> unat (start_pfn (regions K j)) \<le> unat (start_pfn (regions K fr))"
    and ys: "\<And>j. j \<in> set ys \<Longrightarrow> unat (start_pfn (regions K i)) \<le> unat (start_pfn (regions K j))"
    and o: "unat (start_pfn (regions K fr)) < unat (start_pfn (regions K new))"
      "unat (start_pfn (regions K new)) < unat (start_pfn (regions K i))"
  shows "rb_list (trees (kbase_region_tracker_insert rb new (kbase_region_tracker_insert rb fr K)) z) =
    xs @ [fr, new, i] @ ys"
proof -
  let ?K1 = "kbase_region_tracker_insert rb fr K"
  have L1: "rb_list (trees ?K1 z) = xs @ fr # i # ys"
    by (rule tracker_insert_between [OF ok z(1) L xs]) (use o ys in fastforce)+
  have "rb_list (trees (kbase_region_tracker_insert rb new ?K1) z) = (xs @ [fr]) @ new # i # ys"
    by (rule tracker_insert_between [OF ok]) (use o z L1 xs ys in \<open>fastforce+\<close>)
  then show ?thesis by simp
qed

lemma insert_split:
  assumes ok: "rb_ok rb" and ins: "insertable k z lo hi xs i ys new s n"
    and split: "start_pfn (regions k i) \<noteq> s" "start_pfn (regions k i) + nr_pages (regions k i) \<noteq> s + n"
    and res: "kbase_insert_va_region_nolock rb new i s n k = (0, k')"
  shows "inserted k z xs i ys new s n k'"
proof -
  define A where "A = unat (start_pfn (regions k i))"
  define M where "M = unat (nr_pages (regions k i))"
  note F = insertable_facts [OF ins, folded A_def M_def]
  note L = F(1) and dL = F(2) and iz = F(3-5) and nw = F(6-11) and fi = F(12) and fn = F(13)
  note b = F(14-16) and AM = F(17) and sn = F(18) and am = F(19) and mn = F(20) and xs = F(21) and ys = F(22)
  note lt = F(23)
  have As: "A < unat s" using split b(1) by (simp add: A_def) (metis order_le_neq_trans word_unat_eq_iff)
  have Me: "unat s + unat n < A + M"
    using split(2) b(2) am sn by (simp add: A_def M_def) (metis order_le_neq_trans word_unat_eq_iff)
  define fr where "fr = next_reg k"
  have sm: "unat (s - start_pfn (regions k i)) = unat s - A" using As by (simp add: unat_sub_if' A_def)
  obtain as where k': "k' = kbase_region_tracker_insert rb new (kbase_region_tracker_insert rb fr (split_ctx k new i s n as))"
    using insert_split_ctx [OF split res] by (auto simp: fr_def)
  define K where "K = split_ctx k new i s n as"
  note k' = k' [folded K_def]
  have fr: "fr \<noteq> i" "fr \<noteq> new" "fr \<notin> set xs" "fr \<notin> set ys"
    using iz nw lt by (auto simp: fr_def)
  have K: "regions K new = (regions k new)\<lparr> start_pfn := s, nr_pages := n \<rparr>"
    "unat (start_pfn (regions K i)) = unat s + unat n"
    "reg_flags (regions K i) = reg_flags (regions k i)" "reg_tree (regions K i) = z"
    "nr_pages (regions K i) = nr_pages (regions k i) - (n + (s - start_pfn (regions k i)))"
    "regions K fr = \<lparr> start_pfn = start_pfn (regions k i), nr_pages = s - start_pfn (regions k i), initial_commit = 0, extent = 0,
             reg_flags = (reg_flags (regions k i) AND KBASE_REG_ZONE_MASK) OR KBASE_REG_FREE OR KBASE_REG_GROWABLE,
             reg_tree = z, va_refcnt = 1 \<rparr>"
    using nw sn fr iz by (simp_all add: K_def split_ctx_def fr_def)
  have Ko: "regions K j = regions k j" if "j \<noteq> new" "j \<noteq> i" "j \<noteq> fr" for j using that by (simp add: K_def split_ctx_def fr_def)
  have Kxy: "regions K j = regions k j" if "j \<in> set xs \<union> set ys" for j
    using Ko [of j] that nw dL fr by auto
  have Kr: "trees K = trees k" "next_reg K = next_reg k + 1" "kfreed K = kfreed k"
    "same_va_end K = same_va_end k" "gpu_va_end K = gpu_va_end k" "exec_va_start K = exec_va_start k"
    by (simp_all add: K_def split_ctx_def fr_def)
  have un: "unat (nr_pages (regions k i) - (n + (s - start_pfn (regions k i)))) = A + M - (unat s + unat n)"
  proof -
    have "unat (n + (s - start_pfn (regions k i))) = unat n + (unat s - A)"
      using sm Me AM by (simp add: unat_word_ariths)
    then show ?thesis using Me As by (auto simp: unat_sub_if' M_def)
  qed
  have "rb_list (trees k' z) = xs @ [fr, new, i] @ ys" unfolding k'
  proof (rule insert_two [OF ok])
    show "rb_list (trees K z) = xs @ i # ys" using L by (simp add: Kr)
    show "unat (start_pfn (regions K j)) \<le> unat (start_pfn (regions K fr))" if "j \<in> set xs" for j
      using Kxy [of j] that xs [OF that] by (simp add: K A_def)
    show "unat (start_pfn (regions K i)) \<le> unat (start_pfn (regions K j))" if "j \<in> set ys" for j
      using that Kxy [of j] ys [of j] Me K by simp
  qed (use As b(3) K nw A_def in auto)
  moreover have "map (seg k') [fr, new, i] = pieces (unat s) (unat n) A M"
    using fn fi As Me un sm
    by (simp add: k' K seg_unfold pieces_def has_flag_fresh A_def [symmetric])
  moreover have "rest_same z {new, i} k k'"
    using K nw by (auto simp: rest_same_def k' Kr Ko fr_def)
  ultimately show ?thesis unfolding inserted_def A_def [symmetric] M_def [symmetric] using nw iz dL fr K
    by (intro conjI exI [of _ "[fr, new, i]"]) (use lt [of fr] in \<open>auto simp: k' Kr fr_def\<close>)
qed

lemma insert_branches:
  assumes "rb_ok rb" and "insertable k z lo hi xs i ys new s n"
    and "kbase_insert_va_region_nolock rb new i s n k = (0, k')"
  shows "inserted k z xs i ys new s n k'"
  using insert_whole [OF assms(1,2) _ _ assms(3)] insert_front [OF assms(1,2) _ _ assms(3)]
    insert_rear [OF assms(1,2) _ _ assms(3)] insert_split [OF assms(1,2) _ _ assms(3)] by blast

lemma insert_carves:
  assumes "rb_ok rb" and i: "insertable k z lo hi xs i ys new s n"
    and "kbase_insert_va_region_nolock rb new i s n k = (0, k')"
  shows "segs k' z = carve (unat s) (unat n) (segs k z)" and "zone_wf k' z lo hi"
    and "rest_same z {new, i} k k'" and "regions k' new = (regions k new)\<lparr> start_pfn := s, nr_pages := n \<rparr>"
    and "new \<in> set (rb_list (trees k' z))"
    and "used k' z = insert new (used k z)" and "j \<in> used k z \<Longrightarrow> regions k' j = regions k j"
proof -
  note b = insert_branches [OF assms, unfolded inserted_def]
  have w: "zone_wf k z lo hi" "rb_list (trees k z) = xs @ i # ys" "has_flag k i KBASE_REG_FREE"
    "unat (start_pfn (regions k i)) \<le> unat s"
    "unat s + unat n \<le> unat (start_pfn (regions k i)) + unat (nr_pages (regions k i))" "0 < unat n"
    using i by (simp_all add: insertable_def)
  note F = insertable_facts [OF i]
  obtain mids where m: "rb_list (trees k' z) = xs @ mids @ ys"
    "map (seg k') mids = pieces (unat s) (unat n) (unat (start_pfn (regions k i))) (unat (nr_pages (regions k i)))"
    "distinct mids" "set mids \<inter> (set xs \<union> set ys) = {}" "new \<in> set mids"
    "\<And>j. j \<in> set mids \<Longrightarrow> reg_tree (regions k' j) = z \<and> j < next_reg k' \<and> j \<notin> set (kfreed k')" using b by blast
  show r: "rest_same z {new, i} k k'" and "regions k' new = (regions k new)\<lparr> start_pfn := s, nr_pages := n \<rparr>"
    using b by simp_all
  have d: "{new, i} \<inter> (set xs \<union> set ys) = {}" using F(2,7,8) by auto
  have l: "j < next_reg k" if "j \<in> {new, i}" for j using that F(4,10) by auto
  show "segs k' z = carve (unat s) (unat n) (segs k z)" and "zone_wf k' z lo hi"
    by (rule zone_replace [OF w m(1-4,6) r d l], assumption+)+
  show "new \<in> set (rb_list (trees k' z))" using m(1,5) by simp
  have o: "regions k' j = regions k j" if "j \<in> set (xs @ ys)" for j
    by (rule zone_kept(1) [OF w(1) r l _ _ that, THEN conjunct1]) (use w(2) d in auto)
  show "regions k' j = regions k j" if "j \<in> used k z" using that w(2,3) o by (auto simp: used_def)
  have new: "\<not> has_flag k' new KBASE_REG_FREE" using b F(13) by (simp add: has_flag_def)
  have "j = new" if "j \<in> set mids" "\<not> has_flag k' j KBASE_REG_FREE" for j
  proof -
    have one: "length (filter (\<lambda>g. \<not> snd (snd g)) (map (seg k') mids)) = 1" unfolding m(2) by (simp add: pieces_def)
    have "length (filter (\<lambda>j. \<not> has_flag k' j KBASE_REG_FREE) mids) = 1"
      using one by (simp add: filter_map o_def seg_def)
    then obtain y where y: "filter (\<lambda>j. \<not> has_flag k' j KBASE_REG_FREE) mids = [y]" by (auto simp: length_Suc_conv)
    have "j \<in> set [y]" "new \<in> set [y]" unfolding y [symmetric] using that m(5) new by simp_all
    then show ?thesis by simp
  qed
  then have mids: "{j \<in> set mids. \<not> has_flag k' j KBASE_REG_FREE} = {new}" using m(5) new by blast
  have "has_flag k' j KBASE_REG_FREE = has_flag k j KBASE_REG_FREE" if "j \<in> set (xs @ ys)" for j
    using o [OF that] by (simp add: has_flag_def)
  then have "used k' z = {j \<in> set (xs @ ys). \<not> has_flag k j KBASE_REG_FREE} \<union> {j \<in> set mids. \<not> has_flag k' j KBASE_REG_FREE}"
    unfolding used_def m(1) by auto
  then show "used k' z = insert new (used k z)" unfolding mids using w(2,3) by (auto simp: used_def)
qed

end
