(* ===== verification/KB_RegionAdd.thy ===== *)
theory KB_RegionAdd
  imports KB_RegionIns
begin

text \<open>
  Adding a region to its zone (\<open>kbase_add_va_region_rbtree\<close>), at a given page or at a place that is
  searched for: one free segment is cut, and a failure leaves the trees as they are.
\<close>

section \<open>A place for the region\<close>

lemma insertable_split:
  assumes "zone_wf k z lo hi" and "i \<in> set (rb_list (trees k z))" and "has_flag k i KBASE_REG_FREE"
    and "addable k z new" and "unat (start_pfn (regions k i)) \<le> unat s"
    and "unat s + unat n \<le> unat (start_pfn (regions k i)) + unat (nr_pages (regions k i))" and "0 < unat n"
  shows "\<exists>xs ys. insertable k z lo hi xs i ys new s n"
  using assms split_list [OF assms(2)] by (auto simp: insertable_def)

lemma drop_bit_lt: "unat (drop_bit 12 (addr :: u64)) < 2 ^ 52"
proof -
  have "unat addr < 2 ^ 64" using unsigned_less [of addr] by simp
  then show ?thesis by (simp add: drop_bit_eq_div unat_div)
qed

lemma place_at:
  assumes w: "zone_wf k z lo hi" and a: "addable k z new" and n: "0 < unat n" "unat n \<le> 2 ^ 52"
    and f: "find_region_enclosing_range_rbtree k z (drop_bit 12 addr) n = Some i" and "has_flag k i KBASE_REG_FREE"
  shows "\<exists>xs ys. insertable k z lo hi xs i ys new (drop_bit 12 addr) n"
proof -
  let ?s = "drop_bit 12 addr"
  have i: "i \<in> set (rb_list (trees k z))" "start_pfn (regions k i) \<le> ?s"
    "?s + n \<le> start_pfn (regions k i) + nr_pages (regions k i)"
    using find_range_sound f by (auto simp: find_region_enclosing_range_rbtree_def)
  have "unat (?s + n) = unat ?s + unat n" using drop_bit_lt [of addr] n(2) by (simp add: unat_word_ariths)
  then show ?thesis
    using i(2,3) zone_region(4) [OF w i(1)]
    by (intro insertable_split [OF w i(1) assms(6) a _ _ n(1)]) (simp_all add: word_le_nat_alt)
qed

lemma place_found:
  assumes w: "zone_wf k z lo hi" and a: "addable k z new" and n: "0 < unat n"
    and f: "kbase_region_tracker_find_region_meeting_reqs k new n align_offset align_mask = Some (i, s)"
  shows "\<exists>xs ys. insertable k z lo hi xs i ys new s n"
proof -
  have z: "reg_tree (regions k new) = z" using a by (simp add: addable_def)
  have i: "i \<in> set (rb_list (trees k z))" "has_flag k i KBASE_REG_FREE" "n \<le> nr_pages (regions k i)"
    "start_pfn (regions k i) \<le> s" "s \<le> start_pfn (regions k i) + nr_pages (regions k i) - 1"
    "s + n - 1 \<le> start_pfn (regions k i) + nr_pages (regions k i) - 1"
    using first_meeting_sound f z by (auto simp: kbase_region_tracker_find_region_meeting_reqs_def)
  note g = zone_region [OF w i(1)]
  have h: "hi \<le> 2 ^ 52" using w by (simp add: zone_wf_def)
  let ?A = "unat (start_pfn (regions k i))" and ?M = "unat (nr_pages (regions k i))"
  have e: "unat (start_pfn (regions k i) + nr_pages (regions k i) - 1) = ?A + ?M - 1"
    using g by (subst unat_minus_one) auto
  have s: "unat s \<le> ?A + ?M - 1" using i(5) e by (simp add: word_le_nat_alt)
  have "unat n \<le> ?M" using i(3) by (simp add: word_le_nat_alt)
  then have "unat (s + n) = unat s + unat n" using s g h by (simp add: unat_word_ariths)
  then have "unat (s + n - 1) = unat s + unat n - 1" using n by (subst unat_minus_one) auto
  then have "unat s + unat n \<le> ?A + ?M" using i(6) e n g(2) by (simp add: word_le_nat_alt)
  then show ?thesis
    using i(4) by (intro insertable_split [OF w i(1,2) a _ _ n]) (simp_all add: word_le_nat_alt)
qed

section \<open>Adding\<close>

lemma insert_error:
  assumes "kbase_insert_va_region_nolock rb new i s n k = (err, k')" and "err \<noteq> 0"
  shows "err = -12 \<and> trees k' = trees k \<and> next_reg k' = next_reg k \<and> kfreed k' = kfreed k \<and>
    same_va_end k' = same_va_end k \<and> gpu_va_end k' = gpu_va_end k \<and> exec_va_start k' = exec_va_start k \<and>
    (\<forall>j. j \<noteq> new \<longrightarrow> regions k' j = regions k j)"
proof -
  let ?k1 = "upd_region new (\<lambda>r. r\<lparr> start_pfn := s, nr_pages := n \<rparr>) k"
  show ?thesis
  proof (cases rule: kbase_alloc_free_region_cases [of "reg_tree (regions k i)" "start_pfn (regions k i)"
        "s - start_pfn (regions k i)" "reg_flags (regions k i) AND KBASE_REG_ZONE_MASK" ?k1])
    case (fail as)
    then show ?thesis using assms by (auto simp: kbase_insert_va_region_nolock_def Let_def split: if_splits)
  next
    case (ok as)
    then show ?thesis using assms by (auto simp: kbase_insert_va_region_nolock_def Let_def split: if_splits)
  qed
qed

text \<open>The outcome of \<open>kbase_add_va_region_rbtree\<close> is that of an insertion, or an error without effect.\<close>

lemma add_cases:
  assumes w: "zone_wf k z lo hi" and a: "addable k z new" and n: "0 < unat n" "unat n \<le> 2 ^ 52"
    and res: "kbase_add_va_region_rbtree rb new addr n align k = (err, k')"
  obtains "err = -12" "k' = k"
  | xs i ys s where "insertable k z lo hi xs i ys new s n" "kbase_insert_va_region_nolock rb new i s n k = (err, k')"
      "drop_bit 12 addr \<noteq> 0 \<Longrightarrow> s = drop_bit 12 addr"
proof (cases "drop_bit 12 addr = (0 :: u64)")
  case True
  define am where "am = (if has_flag k new KBASE_REG_TILER_ALIGN_TOP then extent (regions k new) - 1
    else (if align = 0 then 1 else align) - 1)"
  define ao where "ao = (if has_flag k new KBASE_REG_TILER_ALIGN_TOP
    then extent (regions k new) - initial_commit (regions k new) else (if align = 0 then 1 else align))"
  have r: "(case kbase_region_tracker_find_region_meeting_reqs k new n ao am of
      Some (i, s) \<Rightarrow> kbase_insert_va_region_nolock rb new i s n k | None \<Rightarrow> (-12, k)) = (err, k')"
    using res True by (simp add: kbase_add_va_region_rbtree_def Let_def ao_def am_def)
  show ?thesis
  proof (cases "kbase_region_tracker_find_region_meeting_reqs k new n ao am")
    case None
    then show ?thesis using r that(1) by simp
  next
    case (Some q)
    obtain i s where q: "q = (i, s)" by (cases q)
    show ?thesis
      using place_found [OF w a n(1) Some [unfolded q]] r Some q True that(2) by auto
  qed
next
  case False
  have z: "reg_tree (regions k new) = z" using a by (simp add: addable_def)
  let ?f = "find_region_enclosing_range_rbtree k z (drop_bit 12 addr) n"
  show ?thesis
  proof (cases "kbase_is_region_invalid k ?f \<or> \<not> kbase_is_region_free k ?f")
    case True
    then show ?thesis using res False z that(1) by (auto simp: kbase_add_va_region_rbtree_def Let_def split: if_splits)
  next
    case F: False
    then obtain i where i: "?f = Some i" "has_flag k i KBASE_REG_FREE"
      by (auto simp: kbase_is_region_invalid_def kbase_is_region_free_def split: option.splits)
    obtain e where e: "kbase_insert_va_region_nolock rb new i (drop_bit 12 addr) n k = (e, k')"
      "err = (if e \<noteq> 0 then -12 else 0)"
      using res False F i z by (auto simp: kbase_add_va_region_rbtree_def Let_def split: prod.splits)
    have "e = err" using e insert_error by fastforce
    then show ?thesis using place_at [OF w a n i] e(1) that(2) by blast
  qed
qed

lemma zone_other:
  assumes r: "rest_same z is k k'" "\<And>j. j \<in> is \<Longrightarrow> j < next_reg k \<and> reg_tree (regions k j) = z"
    and y: "y \<noteq> z" and w: "zone_wf k y lo hi"
  shows "segs k' y = segs k y" and "zone_wf k' y lo hi"
proof -
  have i: "is \<inter> set (rb_list (trees k y)) = {}" using r(2) w y by (auto simp: zone_wf_def)
  have r': "trees k' y = trees k y" "next_reg k \<le> next_reg k'"
    "\<And>j. j \<notin> is \<Longrightarrow> j < next_reg k \<Longrightarrow> regions k' j = regions k j" "set (kfreed k') \<subseteq> set (kfreed k) \<union> is"
    using r(1) y by (auto simp: rest_same_def)
  have s: "regions k' j = regions k j \<and> j \<notin> set (kfreed k')" if "j \<in> set (rb_list (trees k y))" for j
    using that i w r'(3) [of j] r'(4) by (auto simp: zone_wf_def)
  have f: "j < next_reg k'" if "j \<in> set (kfreed k')" for j
    using that r'(2,4) r(2) w unfolding zone_wf_def by (meson Un_iff less_le_trans subsetD)
  show "segs k' y = segs k y" "zone_wf k' y lo hi" using zone_wf_cong [OF w r'(1,2) s f] by simp_all
qed

lemma add_frame:
  assumes "insertable k z lo hi xs i ys new s n"
  shows "j \<in> {new, i} \<Longrightarrow> j < next_reg k \<and> reg_tree (regions k j) = z"
  using insertable_facts(3,4,9,10) [OF assms] by auto

lemma add_carves:
  assumes "rb_ok rb" and "zone_wf k z lo hi" and "addable k z new" and "0 < unat n" and "unat n \<le> 2 ^ 52"
    and "kbase_add_va_region_rbtree rb new addr n align k = (0, k')"
  shows "(drop_bit 12 addr \<noteq> 0 \<longrightarrow> start_pfn (regions k' new) = drop_bit 12 addr) \<and>
    (\<exists>(a, m, f) \<in> set (segs k z). f \<and> a \<le> unat (start_pfn (regions k' new)) \<and>
        unat (start_pfn (regions k' new)) + unat n \<le> a + m) \<and>
    segs k' z = carve (unat (start_pfn (regions k' new))) (unat n) (segs k z) \<and>
    new \<in> set (rb_list (trees k' z)) \<and> zone_wf k' z lo hi \<and>
    (\<forall>y lo' hi'. y \<noteq> z \<and> zone_wf k y lo' hi' \<longrightarrow> segs k' y = segs k y \<and> zone_wf k' y lo' hi')"
proof -
  obtain xs i ys s where i: "insertable k z lo hi xs i ys new s n"
    "kbase_insert_va_region_nolock rb new i s n k = (0, k')"
    "drop_bit 12 addr \<noteq> (0 :: u64) \<Longrightarrow> s = drop_bit 12 addr"
    using add_cases [OF assms(2-6)] by (metis zero_neq_neg_numeral)
  note c = insert_carves [OF assms(1) i(1,2)]
  have r: "start_pfn (regions k' new) = s" using c(4) by simp
  have "seg k i \<in> set (segs k z)" using insertable_facts(1) [OF i(1)] by (simp add: segs_def)
  then have "\<exists>(a, m, f) \<in> set (segs k z). f \<and> a \<le> unat s \<and> unat s + unat n \<le> a + m"
    using i(1) by (auto simp: insertable_def seg_def intro!: bexI [of _ "seg k i"])
  moreover have "segs k' y = segs k y \<and> zone_wf k' y lo' hi'" if "y \<noteq> z" "zone_wf k y lo' hi'" for y lo' hi'
    using zone_other [OF c(3) add_frame [OF i(1)] that] by simp
  ultimately show ?thesis using i(3) c(1,2,5) unfolding r by blast
qed

text \<open>A failed call is \<open>-ENOMEM\<close> and changes no region of a tree.\<close>

text \<open>Releasing a region that was just added gives the segments from before.\<close>

lemma release_added:
  assumes ok: "rb_ok rb" and w: "zone_wf k z lo hi" and a: "addable k z new" and n: "0 < unat n" "unat n \<le> 2 ^ 52"
    and r: "kbase_add_va_region_rbtree rb new addr n align k = (0, k1)"
  shows "release (unat (start_pfn (regions k1 new))) (segs k1 z) = segs k z"
proof -
  note A = add_carves [OF ok w a n r]
  let ?s = "unat (start_pfn (regions k1 new))"
  obtain b m where b: "(b, m, True) \<in> set (segs k z)" "b \<le> ?s" "?s + unat n \<le> b + m" using A by auto
  obtain xs ys where sp: "segs k z = xs @ (b, m, True) # ys" using split_list [OF b(1)] by blast
  have t: "tiles lo (xs @ (b, m, True) # ys) hi" "coalesced (xs @ (b, m, True) # ys)"
    using w by (simp_all add: zone_wf_def sp)
  show ?thesis using release_carve [OF t b(2,3) n(1)] A by (simp add: sp)
qed

lemma kbase_add_va_region_error:
  assumes "zone_wf k z lo hi" and "addable k z new" and "0 < unat n" and "unat n \<le> 2 ^ 52"
    and "kbase_add_va_region_rbtree rb new addr n align k = (err, k')" and "err \<noteq> 0"
  shows "err = -12" and "trees k' = trees k" and "next_reg k' = next_reg k" and "kfreed k' = kfreed k"
    and "same_va_end k' = same_va_end k" and "gpu_va_end k' = gpu_va_end k" and "exec_va_start k' = exec_va_start k"
    and "j \<noteq> new \<Longrightarrow> regions k' j = regions k j"
proof -
  have "err = -12 \<and> trees k' = trees k \<and> next_reg k' = next_reg k \<and> kfreed k' = kfreed k \<and>
    same_va_end k' = same_va_end k \<and> gpu_va_end k' = gpu_va_end k \<and> exec_va_start k' = exec_va_start k \<and>
    (\<forall>j. j \<noteq> new \<longrightarrow> regions k' j = regions k j)"
    using add_cases [OF assms(1-5)] insert_error assms(6) by (metis (no_types, lifting))
  then show "err = -12" "trees k' = trees k" "next_reg k' = next_reg k" "kfreed k' = kfreed k"
    "same_va_end k' = same_va_end k" "gpu_va_end k' = gpu_va_end k" "exec_va_start k' = exec_va_start k"
    "j \<noteq> new \<Longrightarrow> regions k' j = regions k j" by simp_all
qed

end
