(* ===== verification/KB_RegionDel.thy ===== *)
theory KB_RegionDel
  imports KB_RegionAdd
begin

text \<open>
  Removing a region (\<open>kbase_remove_va_region\<close>): its segment becomes free and is joined with free
  neighbours; a new free region is needed when there are none.
\<close>

section \<open>Neighbours\<close>

lemma rb_prev_split:
  assumes "rb_list t = xs @ i # ys" and "distinct (xs @ i # ys)"
  shows "rb_prev t i = (if xs = [] then None else Some (last xs))"
proof -
  have "takeWhile (\<lambda>j. j \<noteq> i) (xs @ i # ys) = xs" using assms(2) by (auto simp: takeWhile_append)
  then show ?thesis using assms(1) by (cases xs rule: rev_cases) (simp_all add: rb_prev_def)
qed

lemma rb_next_split:
  assumes "rb_list t = xs @ i # ys" and "distinct (xs @ i # ys)"
  shows "rb_next t i = (case ys of [] \<Rightarrow> None | j # js \<Rightarrow> Some j)"
proof -
  have "dropWhile (\<lambda>j. j \<noteq> i) (xs @ i # ys) = i # ys" using assms(2) by (auto simp: dropWhile_append)
  then show ?thesis using assms(1) by (simp add: rb_next_def)
qed

lemma erase_split:
  assumes "rb_ok rb" and "rb_list t = xs @ i # ys" and "distinct (xs @ i # ys)"
  shows "rb_list (rb_erase rb t i) = xs @ ys"
proof -
  have "filter (\<lambda>j. j \<noteq> i) xs = xs" "filter (\<lambda>j. j \<noteq> i) ys = ys" using assms(3) by (auto intro!: filter_True)
  then have "filter (\<lambda>j. j \<noteq> i) (xs @ i # ys) = xs @ ys" by simp
  then show ?thesis using assms rb_okD(2) [OF assms(1)] by simp
qed

section \<open>Joining segments\<close>

definition joined :: "va_ctx \<Rightarrow> nat list \<Rightarrow> seg" where
  "joined k is = (unat (start_pfn (regions k (hd is))), sum_list (map (\<lambda>j. unat (nr_pages (regions k j))) is), True)"

definition few_free :: "va_ctx \<Rightarrow> nat list \<Rightarrow> bool" where
  "few_free k is \<longleftrightarrow> is = [] \<or> (\<exists>i. is = [i] \<and> has_flag k i KBASE_REG_FREE)"

lemma join_middle:
  assumes "few_free k ps" and "few_free k qs" and "coalesced (map (seg k) vs)"
    and "vs = [] \<or> \<not> has_flag k (hd vs) KBASE_REG_FREE"
    and "seg k i = (s, m, f)"
  shows "join_free (map (seg k) ps @ (s, m, True) # map (seg k) qs @ map (seg k) vs) =
    joined k (ps @ i # qs) # map (seg k) vs"
proof -
  have c: "coalesced ((a, t, True) # map (seg k) vs)" for a t
    using assms(3,4) by (cases vs) (auto simp: coalesced_Cons seg_def)
  show ?thesis
    using assms(1,2,5) join_free_coalesced [OF c]
    by (auto simp: few_free_def joined_def seg_def add.assoc)
qed

lemma zone_rejoin:
  assumes w: "zone_wf k z lo hi" and L: "rb_list (trees k z) = us @ ps @ i # qs @ vs"
    and f: "few_free k ps" "few_free k qs" "us = [] \<or> \<not> has_flag k (last us) KBASE_REG_FREE"
      "vs = [] \<or> \<not> has_flag k (hd vs) KBASE_REG_FREE"
    and L': "rb_list (trees k' z) = us @ c # vs" and j: "seg k' c = joined k (ps @ i # qs)"
    and c: "reg_tree (regions k' c) = z" "c < next_reg k'" "c \<notin> set (kfreed k')" "c \<notin> set us \<union> set vs"
    and r: "rest_same z is k k'" "is \<inter> set (us @ vs) = {}" "\<And>j. j \<in> is \<Longrightarrow> j < next_reg k"
  shows "segs k' z = release (unat (start_pfn (regions k i))) (segs k z)" and "zone_wf k' z lo hi"
proof -
  have "set (us @ vs) \<subseteq> set (rb_list (trees k z))" using L by auto
  note o = zone_kept [OF w r(1,3) this r(2)]
  obtain s m g where si: "seg k i = (s, m, g)" "s = unat (start_pfn (regions k i))" by (simp add: seg_def)
  have sg: "segs k z = (map (seg k) us @ map (seg k) ps) @ (s, m, g) # map (seg k) qs @ map (seg k) vs"
    using L si by (simp add: segs_def)
  have t: "tiles lo (segs k z) hi" and co: "coalesced (segs k z)" using w by (simp_all add: zone_wf_def)
  have cu: "coalesced (map (seg k) us)" and cv: "coalesced (map (seg k) vs)"
    using co by (auto simp: sg coalesced_append coalesced_Cons)
  have "release s (segs k z) = join_free (map (seg k) us @ map (seg k) ps @ (s, m, True) # map (seg k) qs @ map (seg k) vs)"
    using release_at [OF t [unfolded sg]] sg by simp
  also have "\<dots> = map (seg k) us @ join_free (map (seg k) ps @ (s, m, True) # map (seg k) qs @ map (seg k) vs)"
    by (rule join_free_prefix [OF cu]) (use f(3) in \<open>auto simp: last_map seg_def\<close>)
  also have "\<dots> = map (seg k) us @ joined k (ps @ i # qs) # map (seg k) vs"
    using join_middle [OF f(1,2) cv f(4) si(1)] by simp
  also have "\<dots> = segs k' z" using o(2) j by (simp add: segs_def L')
  finally show e: "segs k' z = release (unat (start_pfn (regions k i))) (segs k z)" using si(2) by simp
  have "distinct (us @ c # vs)" using w L c(4) by (auto simp: zone_wf_def)
  moreover have "tiles lo (segs k' z) hi" "coalesced (segs k' z)"
    unfolding e by (rule release_tiles [OF t], rule release_coalesced)
  ultimately show "zone_wf k' z lo hi"
    unfolding zone_wf_def L' using o(1,3) c w by (auto simp: zone_wf_def)
qed

lemma joined_word:
  assumes w: "zone_wf k z lo hi" and L: "rb_list (trees k z) = us @ is @ vs"
  shows "sum_list (map (\<lambda>j. unat (nr_pages (regions k j))) is) \<le> 2 ^ 52"
proof -
  have t: "tiles lo (map (seg k) us @ map (seg k) is @ map (seg k) vs) hi" "hi \<le> 2 ^ 52"
    using w L by (simp_all add: zone_wf_def segs_def)
  then obtain a b where t': "tiles a (map (seg k) is) b" "b \<le> hi" using tiles_le by (auto simp: tiles_append)
  have "tiles a (map (seg k) js) b \<Longrightarrow> b = a + sum_list (map (\<lambda>j. unat (nr_pages (regions k j))) js)" for js
  proof (induction js arbitrary: a)
    case (Cons j js)
    then have "tiles (a + unat (nr_pages (regions k j))) (map (seg k) js) b" by (simp add: seg_def [of k j])
    from Cons.IH [OF this] show ?case by simp
  qed simp
  then show ?thesis using t' t(2) by fastforce
qed

section \<open>Removal\<close>

definition removable :: "va_ctx \<Rightarrow> va_tree \<Rightarrow> nat \<Rightarrow> nat \<Rightarrow> nat list \<Rightarrow> nat \<Rightarrow> nat list \<Rightarrow> bool" where
  "removable k z lo hi xs i ys \<longleftrightarrow> zone_wf k z lo hi \<and> rb_list (trees k z) = xs @ i # ys"

definition removed :: "va_ctx \<Rightarrow> va_tree \<Rightarrow> nat \<Rightarrow> nat \<Rightarrow> nat \<Rightarrow> va_ctx \<Rightarrow> bool" where
  "removed k z lo hi i k' \<longleftrightarrow>
     segs k' z = release (unat (start_pfn (regions k i))) (segs k z) \<and> zone_wf k' z lo hi \<and>
     i \<notin> set (rb_list (trees k' z)) \<and> i \<notin> set (kfreed k') \<and>
     used k' z = used k z - {i} \<and> (\<forall>j \<in> used k' z. regions k' j = regions k j) \<and>
     (\<exists>is. rest_same z is k k' \<and> (\<forall>j \<in> is. j < next_reg k \<and> reg_tree (regions k j) = z))"

lemma removable_facts:
  assumes "removable k z lo hi xs i ys"
  shows "rb_list (trees k z) = xs @ i # ys" "distinct (xs @ i # ys)"
    and "j \<in> set (xs @ i # ys) \<Longrightarrow> reg_tree (regions k j) = z \<and> j < next_reg k \<and> j \<notin> set (kfreed k)"
    and "j \<in> set (kfreed k) \<Longrightarrow> j < next_reg k"
  using assms by (auto simp: removable_def zone_wf_def)

lemma neighbours_not_free:
  assumes "zone_wf k z lo hi" and "rb_list (trees k z) = us @ p # q # vs"
    and "has_flag k p KBASE_REG_FREE"
  shows "us = [] \<or> \<not> has_flag k (last us) KBASE_REG_FREE" and "\<not> has_flag k q KBASE_REG_FREE"
proof -
  have "coalesced (map (seg k) us @ seg k p # seg k q # map (seg k) vs)" using assms(1,2) by (simp add: zone_wf_def segs_def)
  then have c: "us = [] \<or> \<not> (snd (snd (last (map (seg k) us))) \<and> snd (snd (seg k p)))"
    "\<not> (snd (snd (seg k p)) \<and> snd (snd (seg k q)))"
    by (simp_all add: coalesced_append coalesced_Cons)
  show "us = [] \<or> \<not> has_flag k (last us) KBASE_REG_FREE" using c(1) assms(3) by (auto simp: last_map seg_def)
  show "\<not> has_flag k q KBASE_REG_FREE" using c(2) assms(3) by (simp add: seg_def)
qed

lemma removedI:
  assumes w: "zone_wf k z lo hi" and L: "rb_list (trees k z) = us @ ps @ i # qs @ vs"
    and f: "us = [] \<or> \<not> has_flag k (last us) KBASE_REG_FREE" "vs = [] \<or> \<not> has_flag k (hd vs) KBASE_REG_FREE"
    and L': "rb_list (trees k' z) = us @ c # vs" and j: "seg k' c = joined k (ps @ i # qs)"
    and r: "rest_same z js k k'" and "few_free k ps" "few_free k qs"
    and "reg_tree (regions k' c) = z" "c < next_reg k'" "c \<notin> set (kfreed k')" "c \<notin> set us \<union> set vs" "c \<noteq> i"
    and "js \<inter> set (us @ vs) = {}" "js \<subseteq> set (rb_list (trees k z))" "i \<notin> set (kfreed k')"
  shows "removed k z lo hi i k'"
proof -
  have n: "j < next_reg k \<and> reg_tree (regions k j) = z" if "j \<in> js" for j
    using w assms(16) that by (auto simp: zone_wf_def)
  have "segs k' z = release (unat (start_pfn (regions k i))) (segs k z)" "zone_wf k' z lo hi"
    by (rule zone_rejoin [OF w L assms(8,9) f L' j assms(10-13) r assms(15)]; use n in blast)+
  moreover have "i \<notin> set (rb_list (trees k' z))" using w L assms(14) L' by (auto simp: zone_wf_def)
  moreover have "used k' z = used k z - {i} \<and> (\<forall>j \<in> used k' z. regions k' j = regions k j)"
  proof -
    have k: "regions k' j = regions k j" if "j \<in> set (us @ vs)" for j
      by (rule zone_kept(1) [OF w r(1) n [THEN conjunct1] _ assms(15), THEN conjunct1]) (use L that in auto)
    have p: "has_flag k j KBASE_REG_FREE" if "j \<in> set ps \<union> set qs" for j
      using that assms(8,9) by (auto simp: few_free_def)
    have c: "has_flag k' c KBASE_REG_FREE" using j by (simp add: seg_def joined_def)
    have "i \<notin> set (us @ vs)" using w L by (auto simp: zone_wf_def)
    then show ?thesis using k p c L L' by (auto simp: used_def has_flag_def)
  qed
  ultimately show ?thesis using r n assms(17) unfolding removed_def by blast
qed

text \<open>A free neighbour on each side, on one side, or none.\<close>

lemma merge_prev_cases:
  assumes ok: "rb_ok rb" and r: "removable k z lo hi xs i ys"
  obtains (free) us p where "xs = us @ [p]" "has_flag k p KBASE_REG_FREE"
      "us = [] \<or> \<not> has_flag k (last us) KBASE_REG_FREE"
      "merge_prev rb i k = (p, True, upd_tree z (\<lambda>t. rb_erase rb t i)
         (upd_region p (\<lambda>r. r\<lparr> nr_pages := nr_pages r + nr_pages (regions k i) \<rparr>) k))"
  | (none) "xs = [] \<or> \<not> has_flag k (last xs) KBASE_REG_FREE" "merge_prev rb i k = (i, False, k)"
proof -
  note F = removable_facts [OF r]
  have z: "reg_tree (regions k i) = z" using F(3) by simp
  note pv = rb_prev_split [OF F(1,2)]
  show ?thesis
  proof (cases "xs = [] \<or> \<not> has_flag k (last xs) KBASE_REG_FREE")
    case True
    then show ?thesis using none pv z by (auto simp: merge_prev_def)
  next
    case False
    then obtain us p where x: "xs = us @ [p]" by (metis rev_exhaust)
    have f: "has_flag k p KBASE_REG_FREE" using False x by simp
    have "rb_list (trees k z) = us @ p # i # ys" using F(1) x by simp
    then have "us = [] \<or> \<not> has_flag k (last us) KBASE_REG_FREE"
      using neighbours_not_free(1) r f unfolding removable_def by blast
    then show ?thesis using free [OF x f] pv z x f by (simp add: merge_prev_def)
  qed
qed

lemma next_cases:
  assumes r: "removable k z lo hi xs i ys"
  obtains (free) q vs where "ys = q # vs" "has_flag k q KBASE_REG_FREE" "vs = [] \<or> \<not> has_flag k (hd vs) KBASE_REG_FREE"
  | (none) "ys = [] \<or> \<not> has_flag k (hd ys) KBASE_REG_FREE"
proof (cases "ys = [] \<or> \<not> has_flag k (hd ys) KBASE_REG_FREE")
  case True
  then show ?thesis by (rule none)
next
  case False
  then obtain q vs where y: "ys = q # vs" "has_flag k q KBASE_REG_FREE" by (cases ys) auto
  have "vs = [] \<or> \<not> has_flag k (hd vs) KBASE_REG_FREE"
  proof (cases vs)
    case (Cons v ws)
    then have "rb_list (trees k z) = (xs @ [i]) @ q # v # ws" using removable_facts(1) [OF r] y by simp
    then show ?thesis using neighbours_not_free(2) r y(2) Cons unfolding removable_def by (metis list.sel(1))
  qed simp
  then show ?thesis using free y by blast
qed

lemma remove_both:
  assumes ok: "rb_ok rb" and r: "removable k z lo hi (us @ [p]) i (q # vs)"
    and p: "has_flag k p KBASE_REG_FREE" "us = [] \<or> \<not> has_flag k (last us) KBASE_REG_FREE"
    and q: "has_flag k q KBASE_REG_FREE" "vs = [] \<or> \<not> has_flag k (hd vs) KBASE_REG_FREE"
    and mp: "merge_prev rb i k = (p, True, upd_tree z (\<lambda>t. rb_erase rb t i)
         (upd_region p (\<lambda>r. r\<lparr> nr_pages := nr_pages r + nr_pages (regions k i) \<rparr>) k))"
    and res: "kbase_remove_va_region rb i k = (0, k')"
  shows "removed k z lo hi i k'"
proof -
  note F = removable_facts [OF r]
  let ?k1 = "upd_tree z (\<lambda>t. rb_erase rb t i)
         (upd_region p (\<lambda>r. r\<lparr> nr_pages := nr_pages r + nr_pages (regions k i) \<rparr>) k)"
  have w: "zone_wf k z lo hi" and L: "rb_list (trees k z) = us @ [p] @ i # [q] @ vs"
    using r by (simp_all add: removable_def)
  have L1: "rb_list (trees ?k1 z) = us @ p # q # vs" using erase_split [OF ok F(1,2)] by simp
  have d: "distinct (us @ p # i # q # vs)" using F(2) by simp
  then have d1: "distinct (us @ p # q # vs)" by auto
  have z: "reg_tree (regions k i) = z" "reg_tree (regions k p) = z" "reg_tree (regions k q) = z" using F(3) by auto
  define k2 where "k2 = kfree_region p (upd_tree z (\<lambda>t. rb_erase rb t p)
     (upd_region q (\<lambda>r. r\<lparr> start_pfn := start_pfn (regions ?k1 p), nr_pages := nr_pages r + nr_pages (regions ?k1 p) \<rparr>) ?k1))"
  have "merge_next rb z p True ?k1 = (True, k2)"
    using rb_next_split [OF L1 d1] q(1) d by (auto simp: merge_next_def k2_def has_flag_def)
  then have k': "k' = k2" using res mp z by (simp add: kbase_remove_va_region_def)
  have L': "rb_list (trees k' z) = us @ q # vs" using erase_split [OF ok L1 d1] by (simp add: k' k2_def)
  have sg: "seg k' q = joined k ([p] @ i # [q])"
    using joined_word [OF w, of us "[p] @ i # [q]" vs] L q(1) d
    by (auto simp: seg_def joined_def has_flag_def k' k2_def unat_word_ariths)
  show ?thesis
    by (rule removedI [OF w L p(2) q(2) L' sg, where js = "{p, i, q}"])
      (use d z L F(3) p(1) q(1) in \<open>auto simp: few_free_def rest_same_def k' k2_def\<close>)
qed

lemma remove_prev:
  assumes ok: "rb_ok rb" and r: "removable k z lo hi (us @ [p]) i vs"
    and p: "has_flag k p KBASE_REG_FREE" "us = [] \<or> \<not> has_flag k (last us) KBASE_REG_FREE"
    and q: "vs = [] \<or> \<not> has_flag k (hd vs) KBASE_REG_FREE"
    and mp: "merge_prev rb i k = (p, True, upd_tree z (\<lambda>t. rb_erase rb t i)
         (upd_region p (\<lambda>r. r\<lparr> nr_pages := nr_pages r + nr_pages (regions k i) \<rparr>) k))"
    and res: "kbase_remove_va_region rb i k = (0, k')"
  shows "removed k z lo hi i k'"
proof -
  note F = removable_facts [OF r]
  let ?k1 = "upd_tree z (\<lambda>t. rb_erase rb t i)
         (upd_region p (\<lambda>r. r\<lparr> nr_pages := nr_pages r + nr_pages (regions k i) \<rparr>) k)"
  have w: "zone_wf k z lo hi" and L: "rb_list (trees k z) = us @ [p] @ i # [] @ vs"
    using r by (simp_all add: removable_def)
  have L1: "rb_list (trees ?k1 z) = us @ p # vs" using erase_split [OF ok F(1,2)] by simp
  have d: "distinct (us @ p # i # vs)" using F(2) by simp
  then have d1: "distinct (us @ p # vs)" by auto
  have z: "reg_tree (regions k i) = z" "reg_tree (regions k p) = z" using F(3) by auto
  have "has_flag ?k1 j KBASE_REG_FREE = has_flag k j KBASE_REG_FREE" for j by (simp add: has_flag_def)
  then have "merge_next rb z p True ?k1 = (False, ?k1)"
    using rb_next_split [OF L1 d1] q by (cases vs) (auto simp: merge_next_def)
  then have k': "k' = ?k1" using res mp z by (simp add: kbase_remove_va_region_def)
  have L': "rb_list (trees k' z) = us @ p # vs" using L1 by (simp add: k')
  have sg: "seg k' p = joined k ([p] @ i # [])"
    using joined_word [OF w, of us "[p] @ [i]" vs] L p(1) d
    by (auto simp: seg_def joined_def has_flag_def k' unat_word_ariths)
  show ?thesis
    by (rule removedI [OF w L p(2) q L' sg, where js = "{p, i}"])
      (use d z L F(3) p(1) in \<open>auto simp: few_free_def rest_same_def k'\<close>)
qed

lemma remove_next:
  assumes ok: "rb_ok rb" and r: "removable k z lo hi us i (q # vs)"
    and p: "us = [] \<or> \<not> has_flag k (last us) KBASE_REG_FREE"
    and q: "has_flag k q KBASE_REG_FREE" "vs = [] \<or> \<not> has_flag k (hd vs) KBASE_REG_FREE"
    and mp: "merge_prev rb i k = (i, False, k)"
    and res: "kbase_remove_va_region rb i k = (0, k')"
  shows "removed k z lo hi i k'"
proof -
  note F = removable_facts [OF r]
  have w: "zone_wf k z lo hi" and L: "rb_list (trees k z) = us @ [] @ i # [q] @ vs"
    using r by (simp_all add: removable_def)
  have d: "distinct (us @ i # q # vs)" using F(2) by simp
  have z: "reg_tree (regions k i) = z" "reg_tree (regions k q) = z" using F(3) by auto
  have k': "k' = upd_tree z (\<lambda>t. rb_erase rb t i)
     (upd_region q (\<lambda>r. r\<lparr> start_pfn := start_pfn (regions k i), nr_pages := nr_pages r + nr_pages (regions k i) \<rparr>) k)"
    using rb_next_split [OF F(1,2)] q(1) res mp z by (simp add: kbase_remove_va_region_def merge_next_def)
  have L': "rb_list (trees k' z) = us @ q # vs" using erase_split [OF ok F(1,2)] by (simp add: k')
  have sg: "seg k' q = joined k ([] @ i # [q])"
    using joined_word [OF w, of us "[i] @ [q]" vs] L q(1) d
    by (auto simp: seg_def joined_def has_flag_def k' unat_word_ariths)
  show ?thesis
    by (rule removedI [OF w L p q(2) L' sg, where js = "{i, q}"])
      (use d z L F(3) q(1) in \<open>auto simp: few_free_def rest_same_def k'\<close>)
qed

lemma remove_alone:
  assumes ok: "rb_ok rb" and r: "removable k z lo hi us i vs"
    and p: "us = [] \<or> \<not> has_flag k (last us) KBASE_REG_FREE"
    and q: "vs = [] \<or> \<not> has_flag k (hd vs) KBASE_REG_FREE"
    and mp: "merge_prev rb i k = (i, False, k)"
    and res: "kbase_remove_va_region rb i k = (0, k')"
  shows "removed k z lo hi i k'"
proof -
  note F = removable_facts [OF r]
  have w: "zone_wf k z lo hi" and L: "rb_list (trees k z) = us @ [] @ i # [] @ vs"
    using r by (simp_all add: removable_def)
  have d: "distinct (us @ i # vs)" using F(2) by simp
  have z: "reg_tree (regions k i) = z" using F(3) by auto
  have mn: "merge_next rb z i False k = (False, k)"
    using rb_next_split [OF F(1,2)] q by (cases vs) (auto simp: merge_next_def)
  let ?a = "regions k i"
  define c where "c = next_reg k"
  obtain as where k': "k' = upd_tree z (\<lambda>t. rb_replace_node rb t i c)
    (k\<lparr> kzallocs := as, next_reg := next_reg k + 1,
       regions := (regions k)(c := \<lparr> start_pfn = start_pfn ?a, nr_pages = nr_pages ?a, initial_commit = 0, extent = 0,
         reg_flags = (reg_flags ?a AND KBASE_REG_ZONE_MASK) OR KBASE_REG_FREE OR KBASE_REG_GROWABLE,
         reg_tree = z, va_refcnt = 1 \<rparr>) \<rparr>)"
  proof (cases rule: kbase_alloc_free_region_cases [of z "start_pfn ?a" "nr_pages ?a"
        "reg_flags ?a AND KBASE_REG_ZONE_MASK" k])
    case (fail as)
    then show ?thesis using res mp mn z by (simp add: kbase_remove_va_region_def)
  next
    case (ok as)
    then show ?thesis using res mp mn z that [of as] by (simp add: kbase_remove_va_region_def c_def)
  qed
  have n: "c \<noteq> i" "c \<notin> set us \<union> set vs" "c \<notin> set (kfreed k)" using F(3,4) by (fastforce simp: c_def)+
  have "map (\<lambda>j. if j = i then c else j) us = us" "map (\<lambda>j. if j = i then c else j) vs = vs"
    using d by (auto intro!: map_idI)
  then have L': "rb_list (trees k' z) = us @ c # vs" using rb_okD(3) [OF ok] F(1) by (simp add: k')
  have sg: "seg k' c = joined k ([] @ i # [])" by (simp add: seg_unfold joined_def k' has_flag_fresh)
  show ?thesis
    by (rule removedI [OF w L p q L' sg, where js = "{i}"])
      (use d z L F(3) n in \<open>auto simp: few_free_def rest_same_def k' c_def\<close>)
qed

lemma remove_releases:
  assumes ok: "rb_ok rb" and w: "zone_wf k z lo hi" and i: "i \<in> set (rb_list (trees k z))"
    and res: "kbase_remove_va_region rb i k = (0, k')"
  shows "removed k z lo hi i k'"
proof -
  obtain xs ys where r: "removable k z lo hi xs i ys" using w split_list [OF i] by (auto simp: removable_def)
  show ?thesis
  proof (cases rule: merge_prev_cases [OF ok r])
    case (1 us p)
    note p = this
    show ?thesis
    proof (cases rule: next_cases [OF r])
      case (1 q vs)
      then show ?thesis using remove_both [OF ok _ p(2,3) _ _ p(4) res] r p(1) by blast
    next
      case 2
      then show ?thesis using remove_prev [OF ok _ p(2,3) _ p(4) res] r p(1) by blast
    qed
  next
    case 2
    note p = this
    show ?thesis
    proof (cases rule: next_cases [OF r])
      case (1 q vs)
      then show ?thesis using remove_next [OF ok _ p(1) _ _ p(2) res] r by blast
    next
      case 2
      then show ?thesis using remove_alone [OF ok r p(1) _ p(2) res] by blast
    qed
  qed
qed

text \<open>A failure needs a region without free neighbours; nothing changes then.\<close>

lemma remove_error:
  assumes "kbase_remove_va_region rb i k = (err, k')" and "err \<noteq> 0"
  shows "err = -12 \<and> (\<exists>as. k' = k\<lparr> kzallocs := as \<rparr>)"
proof -
  obtain reg mf k1 where mp: "merge_prev rb i k = (reg, mf, k1)" by (metis prod_cases3)
  obtain mb k2 where mn: "merge_next rb (reg_tree (regions k i)) reg mf k1 = (mb, k2)" by fastforce
  have n: "\<not> mf" "\<not> mb" using assms mp mn by (auto simp: kbase_remove_va_region_def)
  then have k: "reg = i" "k1 = k" "k2 = k"
    using mp mn by (auto simp: merge_prev_def merge_next_def split: option.splits if_splits)
  show ?thesis
    using assms mp mn n k
    by (cases rule: kbase_alloc_free_region_cases [of "reg_tree (regions k i)" "start_pfn (regions k i)"
          "nr_pages (regions k i)" "reg_flags (regions k i) AND KBASE_REG_ZONE_MASK" k])
      (auto simp: kbase_remove_va_region_def Let_def)
qed

end
