(* ===== verification/KB_RegionZones.thy ===== *)
theory KB_RegionZones
  imports KB_RegionDel
begin

text \<open>
  The zones of a context together: lookups by address, the set-up of the zones, and the runs of
  operations on them. Every page of the address space belongs to exactly one region throughout.
\<close>

section \<open>All zones\<close>

text \<open>Zone \<open>z\<close> covers the pages from \<open>lo z\<close> to \<open>hi z\<close>, and a lookup of these pages goes to its tree.\<close>

definition zones_wf :: "va_conf \<Rightarrow> va_ctx \<Rightarrow> (va_tree \<Rightarrow> nat) \<Rightarrow> (va_tree \<Rightarrow> nat) \<Rightarrow> bool" where
  "zones_wf c k lo hi \<longleftrightarrow>
     (\<forall>z. zone_wf k z (lo z) (hi z) \<and> 0 < lo z \<and>
        (\<forall>p. lo z \<le> unat p \<and> unat p < hi z \<longrightarrow> kbase_gpu_va_to_rbtree c k p = z))"

lemma find_pfn_zone:
  assumes "zone_wf k z lo hi"
  shows "find_pfn (regions k) p (trees k z) = Some i \<longleftrightarrow> i \<in> set (rb_list (trees k z)) \<and> holds_page (regions k) p i"
  by (rule find_pfn_iff [OF zone_sorted [OF assms]])

lemma holder_zone:
  assumes w: "zones_wf c k lo hi" and i: "i \<in> set (rb_list (trees k z))" "holds_page (regions k) p i"
  shows "kbase_gpu_va_to_rbtree c k p = z"
proof -
  have z: "zone_wf k z (lo z) (hi z)" using w by (simp add: zones_wf_def)
  have "lo z \<le> unat p" "unat p < hi z" using i(2) zone_region(1,3) [OF z i(1)] holds_page_nat [OF z i(1)] by auto
  then show ?thesis using w by (simp add: zones_wf_def)
qed

lemma find_address_iff:
  assumes w: "zones_wf c k lo hi"
  shows "kbase_region_tracker_find_region_enclosing_address c k addr = Some i \<longleftrightarrow>
    (\<exists>z. i \<in> set (rb_list (trees k z)) \<and> holds_page (regions k) (drop_bit 12 addr) i)"
proof -
  let ?p = "drop_bit 12 addr" and ?z = "kbase_gpu_va_to_rbtree c k (drop_bit 12 addr)"
  have z: "zone_wf k z (lo z) (hi z)" for z using w by (simp add: zones_wf_def)
  have "kbase_region_tracker_find_region_enclosing_address c k addr = Some i \<longleftrightarrow>
      i \<in> set (rb_list (trees k ?z)) \<and> holds_page (regions k) ?p i"
    by (simp add: kbase_region_tracker_find_region_enclosing_address_def kbase_find_region_enclosing_address_def
        find_pfn_zone [OF z])
  then show ?thesis using holder_zone [OF w] by blast
qed

lemma one_holder:
  assumes w: "zones_wf c k lo hi" and i: "i \<in> set (rb_list (trees k z))" "holds_page (regions k) p i"
    and j: "j \<in> set (rb_list (trees k y))" "holds_page (regions k) p j"
  shows "i = j"
proof -
  have "z = y" using holder_zone [OF w i] holder_zone [OF w j] by simp
  moreover have "zone_wf k z (lo z) (hi z)" using w by (simp add: zones_wf_def)
  ultimately show ?thesis using find_pfn_zone i j by (metis option.inject)
qed

lemma zone_holder:
  assumes w: "zones_wf c k lo hi" and "lo z \<le> unat p" "unat p < hi z"
  obtains i where "i \<in> set (rb_list (trees k z))" "holds_page (regions k) p i"
  using zone_cover [of k z "lo z" "hi z" p] assms by (auto simp: zones_wf_def)

lemma zones_wf_keep:
  assumes w: "zones_wf c k lo hi" and "\<And>z. zone_wf k' z (lo z) (hi z)"
    and "same_va_end k' = same_va_end k" "exec_va_start k' = exec_va_start k"
  shows "zones_wf c k' lo hi"
proof -
  have "kbase_gpu_va_to_rbtree c k' = kbase_gpu_va_to_rbtree c k"
    using assms(3,4) by (simp add: fun_eq_iff kbase_gpu_va_to_rbtree_def)
  then show ?thesis using assms(1,2) by (simp add: zones_wf_def)
qed

lemma zones_wf_other:
  assumes w: "zones_wf c k lo hi" and r: "rest_same z is k k'" "\<forall>j \<in> is. j < next_reg k \<and> reg_tree (regions k j) = z"
    and z: "zone_wf k' z (lo z) (hi z)"
  shows "zones_wf c k' lo hi"
proof (rule zones_wf_keep [OF w])
  show "zone_wf k' y (lo y) (hi y)" for y
  proof (cases "y = z")
    case False
    have "zone_wf k y (lo y) (hi y)" using w by (simp add: zones_wf_def)
    with r False show ?thesis by (intro zone_other(2) [OF r(1)]) auto
  qed (use z in simp)
  show "same_va_end k' = same_va_end k" "exec_va_start k' = exec_va_start k" using r(1) by (simp_all add: rest_same_def)
qed

text \<open>Changes of a region that the trees do not depend on.\<close>

lemma upd_region_wf:
  assumes w: "zone_wf k z lo hi" and f: "start_pfn (f (regions k i)) = start_pfn (regions k i)"
      "nr_pages (f (regions k i)) = nr_pages (regions k i)" "reg_tree (f (regions k i)) = reg_tree (regions k i)"
      "reg_flags (f (regions k i)) AND KBASE_REG_FREE = reg_flags (regions k i) AND KBASE_REG_FREE"
  shows "zone_wf (upd_region i f k) z lo hi" and "segs (upd_region i f k) z = segs k z"
proof -
  have "seg (upd_region i f k) = seg k" using f by (auto simp: fun_eq_iff seg_unfold)
  then show s: "segs (upd_region i f k) z = segs k z" by (simp add: segs_def)
  show "zone_wf (upd_region i f k) z lo hi" using w f(3) unfolding zone_wf_def s by auto
qed

lemma upd_zones_wf:
  assumes w: "zones_wf c k lo hi" and f: "start_pfn (f (regions k i)) = start_pfn (regions k i)"
      "nr_pages (f (regions k i)) = nr_pages (regions k i)" "reg_tree (f (regions k i)) = reg_tree (regions k i)"
      "reg_flags (f (regions k i)) AND KBASE_REG_FREE = reg_flags (regions k i) AND KBASE_REG_FREE"
  shows "zones_wf c (upd_region i f k) lo hi"
proof (rule zones_wf_keep [OF w])
  show "zone_wf (upd_region i f k) z (lo z) (hi z)" for z
    using w by (intro upd_region_wf(1) f) (simp add: zones_wf_def)
qed simp_all

text \<open>A region outside the trees may change or be freed.\<close>

lemma outside_wf:
  assumes w: "zones_wf c k lo hi" and i: "\<And>z. i \<notin> set (rb_list (trees k z))"
    and k': "trees k' = trees k" "next_reg k \<le> next_reg k'" "\<And>j. j \<noteq> i \<Longrightarrow> j < next_reg k \<Longrightarrow> regions k' j = regions k j"
      "set (kfreed k') \<subseteq> insert i (set (kfreed k))" "i < next_reg k'"
      "same_va_end k' = same_va_end k" "exec_va_start k' = exec_va_start k"
  shows "zones_wf c k' lo hi"
proof (rule zones_wf_keep [OF w])
  fix z
  have z: "zone_wf k z (lo z) (hi z)" using w by (simp add: zones_wf_def)
  show "zone_wf k' z (lo z) (hi z)"
  proof (rule zone_wf_cong(1) [OF z])
    show "regions k' j = regions k j \<and> j \<notin> set (kfreed k')" if "j \<in> set (rb_list (trees k z))" for j
    proof -
      have "j \<noteq> i" "j < next_reg k" "j \<notin> set (kfreed k)" using that i z by (auto simp: zone_wf_def)
      then show ?thesis using k'(3) [of j] k'(4) by auto
    qed
    show "j < next_reg k'" if "j \<in> set (kfreed k')" for j
    proof -
      have "j = i \<or> j < next_reg k" using that k'(4) z by (auto simp: zone_wf_def)
      then show ?thesis using k'(2,5) by auto
    qed
  qed (use k' in simp_all)
qed (use k' in simp_all)

section \<open>The set-up\<close>

definition lo_init :: "va_conf \<Rightarrow> va_tree \<Rightarrow> nat" where
  "lo_init c z = (if z = Tree_Custom \<and> compat c then 2 ^ 20 else 1)"

definition hi_init :: "va_conf \<Rightarrow> va_ctx \<Rightarrow> va_tree \<Rightarrow> nat" where
  "hi_init c k z = (case z of Tree_Same \<Rightarrow> unat (same_va_end k)
     | Tree_Custom \<Rightarrow> if compat c then unat (gpu_va_end k) else 1
     | Tree_Exec \<Rightarrow> 1)"

lemma ds_init_lists:
  assumes ok: "rb_ok rb" and a: "reg_tree (regions k a) = Tree_Same"
    and b: "\<And>r. b = Some r \<Longrightarrow> reg_tree (regions k r) = Tree_Custom"
  defines "k' \<equiv> kbase_region_tracker_ds_init rb a b k"
  shows "rb_list (trees k' z) = (case z of Tree_Same \<Rightarrow> [a] | Tree_Custom \<Rightarrow> (case b of None \<Rightarrow> [] | Some r \<Rightarrow> [r]) | Tree_Exec \<Rightarrow> [])"
    and "regions k' = regions k" "next_reg k' = next_reg k" "kfreed k' = kfreed k"
proof -
  have l: "rb_list (rb_insert_color rb (rb_link h Leaf x) x) = [x]" for h x using rb_okD(1) [OF ok] by simp
  show "rb_list (trees k' z) = (case z of Tree_Same \<Rightarrow> [a] | Tree_Custom \<Rightarrow> (case b of None \<Rightarrow> [] | Some r \<Rightarrow> [r]) | Tree_Exec \<Rightarrow> [])"
    using a b l
    by (cases z; cases b) (simp_all add: k'_def kbase_region_tracker_ds_init_def kbase_region_tracker_insert_def)
  show "regions k' = regions k" "next_reg k' = next_reg k" "kfreed k' = kfreed k"
    by (simp_all add: k'_def kbase_region_tracker_ds_init_def Let_def split: option.split)
qed

lemma single_zone:
  assumes "rb_list (trees k z) = [i]" and "reg_tree (regions k i) = z" and "has_flag k i KBASE_REG_FREE"
    and "i < next_reg k" and "i \<notin> set (kfreed k)" and "\<And>j. j \<in> set (kfreed k) \<Longrightarrow> j < next_reg k"
    and "unat (start_pfn (regions k i)) = lo" and "0 < unat (nr_pages (regions k i))"
    and "lo + unat (nr_pages (regions k i)) = hi" and "hi \<le> 2 ^ 52"
  shows "zone_wf k z lo hi"
  using assms by (auto simp: zone_wf_def segs_def seg_def coalesced_Cons)

lemma empty_zone: "rb_list (trees k z) = [] \<Longrightarrow> (\<And>j. j \<in> set (kfreed k) \<Longrightarrow> j < next_reg k) \<Longrightarrow> zone_wf k z 1 1"
  by (simp add: zone_wf_def segs_def)

lemma unat_shift: "b < 64 \<Longrightarrow> unat (push_bit b 1 :: u64) = 2 ^ b"
proof -
  assume b: "b < 64"
  have "unat (of_nat (2 ^ b) :: u64) = 2 ^ b" 
    by (simp only: unsigned_of_nat) (simp add: take_bit_nat_eq_self b)
  then show ?thesis by (simp add: push_bit_eq_mult)
qed

lemma unat_limit: "12 \<le> b \<Longrightarrow> b < 64 \<Longrightarrow> unat (drop_bit 12 (push_bit b 1 :: u64)) = 2 ^ (b - 12)"
proof -
  assume b: "12 \<le> b" "b < 64"
  have "(2 :: nat) ^ b = 2 ^ (b - 12) * 4096" using b(1) power_add [of "2 :: nat" "b - 12" 12] by simp
  then show ?thesis using unat_shift [OF b(2)] by (simp add: drop_bit_eq_div unat_div)
qed

definition new_region :: "va_tree \<Rightarrow> u64 \<Rightarrow> u64 \<Rightarrow> u64 \<Rightarrow> va_region" where
  "new_region z s n zone = \<lparr> start_pfn = s, nr_pages = n, initial_commit = 0, extent = 0,
     reg_flags = zone OR KBASE_REG_FREE OR KBASE_REG_GROWABLE, reg_tree = z, va_refcnt = 1 \<rparr>"

lemma alloc_ok:
  assumes "kbase_alloc_free_region z s n zone k = (Some i, k')"
  shows "i = next_reg k" and "regions k' = (regions k)(next_reg k := new_region z s n zone)"
    and "next_reg k' = next_reg k + 1" and "kfreed k' = kfreed k" and "trees k' = trees k"
    and "same_va_end k' = same_va_end k" and "exec_va_start k' = exec_va_start k" and "gpu_va_end k' = gpu_va_end k"
  using assms by (cases rule: kbase_alloc_free_region_cases [of z s n zone k]; auto simp: new_region_def)+

text \<open>A context whose set-up has succeeded, in terms of the two regions.\<close>

lemma init_native:
  assumes "kbase_region_tracker_init rb c k = (0, k')" and "\<not> compat c"
  shows "\<exists>k1. kbase_alloc_free_region Tree_Same 1 (push_bit (kbase_get_same_va_bits c - 12) 1 - 1)
      KBASE_REG_ZONE_SAME_VA k = (Some (next_reg k), k1) \<and>
    k' = (kbase_region_tracker_ds_init rb (next_reg k) None k1)
      \<lparr> same_va_end := push_bit (kbase_get_same_va_bits c - 12) 1 - 1 + 1,
         gpu_va_end := push_bit (kbase_get_same_va_bits c - 12) 1 - 1 + 1 + 0, exec_va_start := - 1, jit_va := False \<rparr>"
proof (cases rule: kbase_alloc_free_region_cases [of Tree_Same 1 "push_bit (kbase_get_same_va_bits c - 12) 1 - 1"
      KBASE_REG_ZONE_SAME_VA k])
  case (fail as)
  then show ?thesis using assms by (simp add: kbase_region_tracker_init_def Let_def)
next
  case (ok as)
  then show ?thesis using assms by (simp add: kbase_region_tracker_init_def Let_def)
qed

lemma init_compat:
  assumes "kbase_region_tracker_init rb c k = (0, k')" and "compat c"
  defines "lim \<equiv> drop_bit 12 (push_bit (va_bits_gpu c) 1 :: u64)" and "sp \<equiv> push_bit (kbase_get_same_va_bits c - 12) 1 - 1"
  defines "cs \<equiv> if KBASE_REG_ZONE_CUSTOM_VA_BASE + KBASE_REG_ZONE_CUSTOM_VA_SIZE \<ge> lim
    then lim - KBASE_REG_ZONE_CUSTOM_VA_BASE else KBASE_REG_ZONE_CUSTOM_VA_SIZE"
  shows "lim > KBASE_REG_ZONE_CUSTOM_VA_BASE \<and>
    (\<exists>k1 k2. kbase_alloc_free_region Tree_Same 1 sp KBASE_REG_ZONE_SAME_VA k = (Some (next_reg k), k1) \<and>
       kbase_alloc_free_region Tree_Custom KBASE_REG_ZONE_CUSTOM_VA_BASE cs KBASE_REG_ZONE_CUSTOM_VA k1 =
         (Some (next_reg k1), k2) \<and>
       k' = (kbase_region_tracker_ds_init rb (next_reg k) (Some (next_reg k1)) k2)
         \<lparr> same_va_end := sp + 1, gpu_va_end := sp + 1 + cs, exec_va_start := - 1, jit_va := False \<rparr>)"
proof (cases rule: kbase_alloc_free_region_cases [of Tree_Same 1 sp KBASE_REG_ZONE_SAME_VA k])
  case (fail as)
  then show ?thesis using assms(1,2) by (simp add: kbase_region_tracker_init_def Let_def sp_def)
next
  case (ok as)
  note ok1 = ok [unfolded sp_def]
  have l: "lim > KBASE_REG_ZONE_CUSTOM_VA_BASE"
    using assms(1,2) ok1 by (auto simp: kbase_region_tracker_init_def Let_def lim_def not_le split: if_splits)
  define k1 where "k1 = snd (kbase_alloc_free_region Tree_Same 1 sp KBASE_REG_ZONE_SAME_VA k)"
  have a1: "kbase_alloc_free_region Tree_Same 1 sp KBASE_REG_ZONE_SAME_VA k = (Some (next_reg k), k1)"
    using ok by (simp add: k1_def)
  show ?thesis
  proof (cases rule: kbase_alloc_free_region_cases [of Tree_Custom KBASE_REG_ZONE_CUSTOM_VA_BASE cs
        KBASE_REG_ZONE_CUSTOM_VA k1])
    case (fail as)
    then show ?thesis using assms(1,2) a1 [unfolded sp_def] l
      by (simp add: kbase_region_tracker_init_def Let_def lim_def cs_def split: if_splits)
  next
    case (ok as)
    then show ?thesis using assms(1,2) a1 [unfolded sp_def] l
      by (simp add: kbase_region_tracker_init_def Let_def lim_def cs_def sp_def split: if_splits)
  qed
qed

lemma alloc_region_facts:
  assumes "kbase_alloc_free_region z s n zone k = (Some i, k')"
  shows "reg_tree (regions k' i) = z" "has_flag k' i KBASE_REG_FREE" "i < next_reg k'"
    and "start_pfn (regions k' i) = s" "nr_pages (regions k' i) = n"
    and "j < next_reg k \<Longrightarrow> regions k' j = regions k j" "i = next_reg k" "next_reg k' = next_reg k + 1" "kfreed k' = kfreed k"
  using alloc_ok [OF assms] by (simp_all add: new_region_def has_flag_def has_flag_fresh)

text \<open>The zones after the set-up, in terms of what it leaves in the context.\<close>

lemma zones_wfI:
  assumes s: "rb_list (trees k Tree_Same) = [a]" "reg_tree (regions k a) = Tree_Same" "has_flag k a KBASE_REG_FREE"
      "a < next_reg k" "a \<notin> set (kfreed k)" "start_pfn (regions k a) = 1" "0 < unat (nr_pages (regions k a))"
      "1 + unat (nr_pages (regions k a)) = unat (same_va_end k)" "unat (same_va_end k) \<le> 2 ^ 52"
    and cu: "zone_wf k Tree_Custom (lo_init c Tree_Custom) (hi_init c k Tree_Custom)"
    and e: "rb_list (trees k Tree_Exec) = []" "exec_va_start k = -1"
    and cp: "compat c \<Longrightarrow> same_va_end k = KBASE_REG_ZONE_CUSTOM_VA_BASE \<and> unat (gpu_va_end k) \<le> 2 ^ 52"
    and f: "\<And>j. j \<in> set (kfreed k) \<Longrightarrow> j < next_reg k"
  shows "zones_wf c k (lo_init c) (hi_init c k)"
proof -
  have "zone_wf k z (lo_init c z) (hi_init c k z)" for z
  proof (cases z)
    case Tree_Same
    show ?thesis unfolding Tree_Same
      by (rule single_zone [OF s(1-5) f]) (use s in \<open>simp_all add: lo_init_def hi_init_def\<close>)
  next
    case Tree_Custom
    then show ?thesis using cu by simp
  next
    case Tree_Exec
    then show ?thesis using empty_zone [OF e(1) f] by (simp add: lo_init_def hi_init_def)
  qed
  moreover have "kbase_gpu_va_to_rbtree c k p = z" if "lo_init c z \<le> unat p" "unat p < hi_init c k z" for z p
  proof -
    have m: "unat p < 2 ^ 52" using that(2) s(9) cp by (cases z) (auto simp: hi_init_def split: if_splits)
    have "unat (- 1 :: u64) = 2 ^ 64 - 1" by (simp add: unsigned_minus_1_eq_mask mask_eq_exp_minus_1)
    then have x: "\<not> exec_va_start k \<le> p" unfolding e(2) word_le_nat_alt using m by simp
    show ?thesis
    proof (cases z)
      case Tree_Same
      then show ?thesis using that x cp
        by (cases "compat c") (simp_all add: hi_init_def kbase_gpu_va_to_rbtree_def word_le_nat_alt)
    next
      case Tree_Custom
      then show ?thesis using that x cp
        by (cases "compat c") (simp_all add: hi_init_def lo_init_def kbase_gpu_va_to_rbtree_def word_le_nat_alt
            KBASE_REG_ZONE_CUSTOM_VA_BASE_def)
    next
      case Tree_Exec
      then show ?thesis using that by (simp add: hi_init_def lo_init_def)
    qed
  qed
  ultimately show ?thesis by (simp add: zones_wf_def lo_init_def)
qed

lemma unat_pages: "12 < b \<Longrightarrow> b < 64 \<Longrightarrow> unat (push_bit (b - 12) 1 - 1 :: u64) = 2 ^ (b - 12) - 1 \<and>
    unat (push_bit (b - 12) 1 - 1 + 1 :: u64) = 2 ^ (b - 12)"
proof -
  assume b: "12 < b" "b < 64"
  have "unat (push_bit (b - 12) 1 :: u64) = 2 ^ (b - 12)" using b by (intro unat_shift) simp
  moreover have "(push_bit (b - 12) 1 :: u64) \<noteq> 0" using calculation by (metis power_not_zero unat_0 zero_neq_numeral)
  ultimately show ?thesis by (simp add: unat_minus_one)
qed

lemma compat_sizes:
  assumes c: "compat c" and b: "12 < kbase_get_same_va_bits c" "va_bits_gpu c < 64"
  defines "lim \<equiv> drop_bit 12 (push_bit (va_bits_gpu c) 1 :: u64)"
  assumes lim: "lim > KBASE_REG_ZONE_CUSTOM_VA_BASE"
  defines "cs \<equiv> if KBASE_REG_ZONE_CUSTOM_VA_BASE + KBASE_REG_ZONE_CUSTOM_VA_SIZE \<ge> lim
    then lim - KBASE_REG_ZONE_CUSTOM_VA_BASE else KBASE_REG_ZONE_CUSTOM_VA_SIZE"
  shows "unat (push_bit (kbase_get_same_va_bits c - 12) 1 - 1 :: u64) = 2 ^ 20 - 1"
    and "push_bit (kbase_get_same_va_bits c - 12) 1 - 1 + 1 = KBASE_REG_ZONE_CUSTOM_VA_BASE"
    and "0 < unat cs" and "2 ^ 20 + unat cs \<le> 2 ^ 52"
proof -
  have vb: "12 < va_bits_gpu c" using b(1) by (simp add: kbase_get_same_va_bits_def)
  have l: "unat lim = 2 ^ (va_bits_gpu c - 12)" unfolding lim_def using vb b(2) by (intro unat_limit) simp_all
  have "(2 :: nat) ^ 20 < 2 ^ (va_bits_gpu c - 12)"
    using lim l by (simp add: word_less_nat_alt KBASE_REG_ZONE_CUSTOM_VA_BASE_def)
  then have "20 < va_bits_gpu c - 12" by (simp only: power_strict_increasing_iff)
  then have s: "kbase_get_same_va_bits c = 32" using c by (simp add: kbase_get_same_va_bits_def kbase_get_num_cpu_va_bits_def)
  show "unat (push_bit (kbase_get_same_va_bits c - 12) 1 - 1 :: u64) = 2 ^ 20 - 1"
    "push_bit (kbase_get_same_va_bits c - 12) 1 - 1 + 1 = KBASE_REG_ZONE_CUSTOM_VA_BASE"
    by (simp_all add: s KBASE_REG_ZONE_CUSTOM_VA_BASE_def)
  have "(2 :: nat) ^ (va_bits_gpu c - 12) \<le> 2 ^ 52" using b(2) by (intro power_increasing) simp_all
  then have "unat cs = (if unat lim \<le> 2 ^ 32 then unat lim - 2 ^ 20 else 2 ^ 32 - 2 ^ 20)" "unat lim \<le> 2 ^ 52" "2 ^ 20 < unat lim"
    using lim l by (simp_all add: cs_def word_le_nat_alt word_less_nat_alt unat_sub_if' KBASE_REG_ZONE_CUSTOM_VA_BASE_def
        KBASE_REG_ZONE_CUSTOM_VA_SIZE_def)
  then show "0 < unat cs" "2 ^ 20 + unat cs \<le> 2 ^ 52" by (auto split: if_splits)
qed

theorem kbase_region_tracker_init_zones:
  assumes ok: "rb_ok rb" and f: "\<And>j. j \<in> set (kfreed k) \<Longrightarrow> j < next_reg k"
    and b: "12 < kbase_get_same_va_bits c" "va_bits_gpu c < 64"
    and i: "kbase_region_tracker_init rb c k = (0, k')"
  shows "zones_wf c k' (lo_init c) (hi_init c k')"
proof (cases "compat c")
  case False
  have bb: "kbase_get_same_va_bits c < 64" using b by (simp add: kbase_get_same_va_bits_def)
  let ?sp = "push_bit (kbase_get_same_va_bits c - 12) 1 - 1 :: u64"
  obtain k1 where k1: "kbase_alloc_free_region Tree_Same 1 ?sp KBASE_REG_ZONE_SAME_VA k = (Some (next_reg k), k1)"
    and k': "k' = (kbase_region_tracker_ds_init rb (next_reg k) None k1)
      \<lparr> same_va_end := ?sp + 1, gpu_va_end := ?sp + 1 + 0, exec_va_start := - 1, jit_va := False \<rparr>"
    using init_native [OF i False] by blast
  note A = alloc_region_facts [OF k1]
  note D = ds_init_lists [OF ok A(1), of None]
  have fl: "has_flag k' j g = has_flag k1 j g" for j g using D(2) by (simp add: has_flag_def k')
  have p: "(2 :: nat) ^ (kbase_get_same_va_bits c - 12) \<le> 2 ^ 52" "(2 :: nat) ^ 1 \<le> 2 ^ (kbase_get_same_va_bits c - 12)"
    using b bb by (intro power_increasing; simp)+
  have g: "\<And>j. j \<in> set (kfreed k') \<Longrightarrow> j < next_reg k'" using f A(8,9) D by (fastforce simp: k')
  have n: "next_reg k \<notin> set (kfreed k)" using f by blast
  show ?thesis
  proof (rule zones_wfI)
    show "zone_wf k' Tree_Custom (lo_init c Tree_Custom) (hi_init c k' Tree_Custom)"
      using False empty_zone [of k' Tree_Custom] D(1) g by (simp add: lo_init_def hi_init_def k')
  qed (use False A D fl g p unat_pages [OF b(1) bb] f n in \<open>auto simp: k'\<close>)
next
  case True
  let ?lim = "drop_bit 12 (push_bit (va_bits_gpu c) 1 :: u64)"
  let ?sp = "push_bit (kbase_get_same_va_bits c - 12) 1 - 1 :: u64"
  define cs where "cs = (if KBASE_REG_ZONE_CUSTOM_VA_BASE + KBASE_REG_ZONE_CUSTOM_VA_SIZE \<ge> ?lim
    then ?lim - KBASE_REG_ZONE_CUSTOM_VA_BASE else KBASE_REG_ZONE_CUSTOM_VA_SIZE)"
  obtain k1 k2 where k1: "kbase_alloc_free_region Tree_Same 1 ?sp KBASE_REG_ZONE_SAME_VA k = (Some (next_reg k), k1)"
    and k2: "kbase_alloc_free_region Tree_Custom KBASE_REG_ZONE_CUSTOM_VA_BASE cs KBASE_REG_ZONE_CUSTOM_VA k1 =
         (Some (next_reg k1), k2)"
    and k': "k' = (kbase_region_tracker_ds_init rb (next_reg k) (Some (next_reg k1)) k2)
         \<lparr> same_va_end := ?sp + 1, gpu_va_end := ?sp + 1 + cs, exec_va_start := - 1, jit_va := False \<rparr>"
    and lim: "?lim > KBASE_REG_ZONE_CUSTOM_VA_BASE"
    using init_compat [OF i True] unfolding cs_def by blast
  have sp: "unat ?sp = 2 ^ 20 - 1" "?sp + 1 = KBASE_REG_ZONE_CUSTOM_VA_BASE" and cs: "0 < unat cs" "2 ^ 20 + unat cs \<le> 2 ^ 52"
    using compat_sizes [OF True b lim] by (simp_all add: cs_def)
  have ge: "unat (?sp + 1 + cs) = 2 ^ 20 + unat cs"
    using cs(2) unfolding sp(2) by (simp add: unat_word_ariths KBASE_REG_ZONE_CUSTOM_VA_BASE_def)
  note A = alloc_region_facts [OF k1] and B = alloc_region_facts [OF k2]
  have k12: "regions k2 (next_reg k) = regions k1 (next_reg k)" using A(3) B(6) by simp
  have at: "reg_tree (regions k2 (next_reg k)) = Tree_Same" using A(1) k12 by simp
  have bt: "reg_tree (regions k2 r) = Tree_Custom" if "Some (next_reg k1) = Some r" for r using B(1) that by simp
  note D = ds_init_lists [where b = "Some (next_reg k1)", OF ok at bt]
  have fl: "has_flag k' j g = has_flag k2 j g" for j g using D(2) by (simp add: has_flag_def k')
  have f2: "has_flag k2 (next_reg k) g = has_flag k1 (next_reg k) g" for g using k12 by (simp add: has_flag_def)
  have K: "rb_list (trees k' Tree_Same) = [next_reg k]" "rb_list (trees k' Tree_Custom) = [next_reg k + 1]"
    "rb_list (trees k' Tree_Exec) = []" "regions k' = regions k2" "next_reg k' = next_reg k + 2" "kfreed k' = kfreed k"
    "same_va_end k' = KBASE_REG_ZONE_CUSTOM_VA_BASE" "unat (gpu_va_end k') = 2 ^ 20 + unat cs" "exec_va_start k' = - 1"
    using D A(8,9) B(8,9) sp(2) ge by (simp_all add: k')
  have b1: "next_reg k1 = next_reg k + 1" using A(8) by simp
  note B = B(1-5) [unfolded b1]
  have g: "\<And>j. j \<in> set (kfreed k') \<Longrightarrow> j < next_reg k'" using f K by fastforce
  have n: "next_reg k \<notin> set (kfreed k')" "next_reg k + 1 \<notin> set (kfreed k')" using f K by (fastforce, fastforce)
  have "unat KBASE_REG_ZONE_CUSTOM_VA_BASE = 2 ^ 20" by (simp add: KBASE_REG_ZONE_CUSTOM_VA_BASE_def)
  note u = this cs
  have E: "start_pfn (regions k' (next_reg k)) = 1" "nr_pages (regions k' (next_reg k)) = ?sp"
    "reg_tree (regions k' (next_reg k)) = Tree_Same" "has_flag k' (next_reg k) KBASE_REG_FREE"
    unfolding K(4) k12 fl f2 by (rule A)+
  have e: "unat (nr_pages (regions k' (next_reg k))) = 2 ^ 20 - 1" unfolding E(2) by (rule sp(1))
  show ?thesis
  proof (rule zones_wfI)
    show "zone_wf k' Tree_Custom (lo_init c Tree_Custom) (hi_init c k' Tree_Custom)"
      by (rule single_zone [OF K(2) _ _ _ n(2) g])
        (use True K B fl u in \<open>simp_all add: lo_init_def hi_init_def\<close>)
  qed (use K(1,3,5,7-9) E(1,3,4) e n(1) g u in \<open>simp_all\<close>)
qed

end
