(* ===== verification/KB_RegionRuns.thy ===== *)
theory KB_RegionRuns
  imports KB_RegionZones
begin

text \<open>
  Runs of operations on the regions of a context, from its set-up on: allocation, insertion, use and
  release of regions, and the end of the context.
\<close>

section \<open>Release\<close>

definition count_down :: "nat \<Rightarrow> va_ctx \<Rightarrow> va_ctx" where
  "count_down i = upd_region i (\<lambda>r. r\<lparr> va_refcnt := va_refcnt r - 1 \<rparr>)"

lemma put_unfold:
  "kbase_va_region_alloc_put rb i k =
     (if va_refcnt (regions k i) = 1 then kbase_region_refcnt_free rb i (count_down i k) else count_down i k)"
  by (simp add: kbase_va_region_alloc_put_def count_down_def Let_def)

lemma count_down_wf:
  "zones_wf c k lo hi \<Longrightarrow> zones_wf c (count_down i k) lo hi" "zone_wf k z l h \<Longrightarrow> zone_wf (count_down i k) z l h"
  unfolding count_down_def by (rule upd_zones_wf upd_region_wf(1); simp)+

lemma count_down_simps [simp]:
  "trees (count_down i k) = trees k" "segs (count_down i k) z = segs k z"
  "start_pfn (regions (count_down i k) j) = start_pfn (regions k j)"
  "nr_pages (regions (count_down i k) j) = nr_pages (regions k j)" "kfreed (count_down i k) = kfreed k"
  "next_reg (count_down i k) = next_reg k" "has_flag (count_down i k) j f = has_flag k j f"
  by (simp_all add: count_down_def segs_def seg_def has_flag_def)

lemma tree_start:
  assumes "zones_wf c k lo hi" and "i \<in> set (rb_list (trees k z))"
  shows "start_pfn (regions k i) \<noteq> 0" "i < next_reg k" "reg_tree (regions k i) = z"
proof -
  have z: "zone_wf k z (lo z) (hi z)" "0 < lo z" using assms(1) by (simp_all add: zones_wf_def)
  then show "start_pfn (regions k i) \<noteq> 0" using zone_region(1) [OF z(1) assms(2)] by auto
  show "i < next_reg k" "reg_tree (regions k i) = z" using z(1) assms(2) by (simp_all add: zone_wf_def)
qed

text \<open>The last reference to a region gives its pages back.\<close>

lemma put_last:
  assumes ok: "rb_ok rb" and w: "zones_wf c k lo hi" and i: "i \<in> set (rb_list (trees k z))"
    and n: "va_refcnt (regions k i) = 1" and r: "fst (kbase_remove_va_region rb i (count_down i k)) = 0"
  defines "k' \<equiv> kbase_va_region_alloc_put rb i k"
  shows "zones_wf c k' lo hi" and "segs k' z = release (unat (start_pfn (regions k i))) (segs k z)"
    and "y \<noteq> z \<Longrightarrow> segs k' y = segs k y" and "i \<in> set (kfreed k')" and "\<And>y. i \<notin> set (rb_list (trees k' y))"
proof -
  let ?k = "count_down i k"
  define k2 where "k2 = snd (kbase_remove_va_region rb i ?k)"
  have r': "kbase_remove_va_region rb i ?k = (0, k2)" using r by (simp add: k2_def prod_eq_iff)
  have w1: "zones_wf c ?k lo hi" by (rule count_down_wf(1) [OF w])
  have z1: "zone_wf ?k z (lo z) (hi z)" using w1 by (simp add: zones_wf_def)
  have i1: "i \<in> set (rb_list (trees ?k z))" using i by simp
  note R = remove_releases [OF ok z1 i1 r', unfolded removed_def]
  obtain js where js: "rest_same z js ?k k2" "\<forall>j \<in> js. j < next_reg ?k \<and> reg_tree (regions ?k j) = z" using R by blast
  have w2: "zones_wf c k2 lo hi" by (rule zones_wf_other [OF w1 js]) (use R in simp)
  have k': "k' = kfree_region i k2"
    using n tree_start(1) [OF w i] by (simp add: k'_def put_unfold kbase_region_refcnt_free_def k2_def)
  have o: "i \<notin> set (rb_list (trees k2 y))" for y
  proof (cases "y = z")
    case False
    then have "trees k2 y = trees k y" using js(1) by (simp add: rest_same_def)
    then show ?thesis using False tree_start(3) [OF w i] tree_start(3) [OF w, of i y] by auto
  qed (use R in simp)
  have il: "i < next_reg k2" using js(1) tree_start(2) [OF w i] by (auto simp: rest_same_def)
  show "zones_wf c k' lo hi" unfolding k' by (rule outside_wf [OF w2 o]) (use il in auto)
  have s: "segs k' y = segs k2 y" for y by (simp add: k' segs_def seg_def has_flag_def)
  show "segs k' z = release (unat (start_pfn (regions k i))) (segs k z)" using R by (simp add: s)
  show "segs k' y = segs k y" if "y \<noteq> z"
  proof -
    have "zone_wf ?k y (lo y) (hi y)" using w1 by (simp add: zones_wf_def)
    then have "segs k2 y = segs ?k y" using js(2) by (intro zone_other(1) [OF js(1) _ that]) auto
    then show ?thesis by (simp add: s)
  qed
  show "i \<in> set (kfreed k')" by (simp add: k')
  show "i \<notin> set (rb_list (trees k' y))" for y using o by (simp add: k')
qed

section \<open>Runs\<close>

text \<open>
  A region is allocated free and then marked as in use, before it is added at an address or at any
  place; references are taken and dropped while it is in a tree. The last reference is dropped only
  where the removal does not run out of memory.
\<close>

inductive va_step :: "rb_ops \<Rightarrow> va_ctx \<Rightarrow> va_ctx \<Rightarrow> bool" for rb where
  va_alloc: "kbase_alloc_free_region z 0 n zone k = (Some i, k1) \<Longrightarrow> f AND KBASE_REG_FREE = 0 \<Longrightarrow>
    va_step rb k (upd_region i (\<lambda>r. r\<lparr> reg_flags := f, initial_commit := ic, extent := ex \<rparr>) k1)"
| va_add: "addable k (reg_tree (regions k i)) i \<Longrightarrow> 0 < unat n \<Longrightarrow> unat n \<le> 2 ^ 52 \<Longrightarrow>
    kbase_add_va_region_rbtree rb i addr n align k = (err, k') \<Longrightarrow> va_step rb k k'"
| va_get: "va_step rb k (kbase_va_region_alloc_get i k)"
| va_put: "i \<in> set (rb_list (trees k z)) \<Longrightarrow>
    (va_refcnt (regions k i) = 1 \<Longrightarrow> fst (kbase_remove_va_region rb i (count_down i k)) = 0) \<Longrightarrow>
    va_step rb k (kbase_va_region_alloc_put rb i k)"

abbreviation va_run :: "rb_ops \<Rightarrow> va_ctx \<Rightarrow> va_ctx \<Rightarrow> bool" where
  "va_run rb \<equiv> (va_step rb)\<^sup>*\<^sup>*"

lemma add_keeps:
  assumes ok: "rb_ok rb" and w: "zones_wf c k lo hi" and a: "addable k (reg_tree (regions k i)) i"
    and n: "0 < unat n" "unat n \<le> 2 ^ 52" and r: "kbase_add_va_region_rbtree rb i addr n align k = (err, k')"
  shows "zones_wf c k' lo hi \<and> gpu_va_end k' = gpu_va_end k"
proof -
  let ?z = "reg_tree (regions k i)"
  have z: "zone_wf k ?z (lo ?z) (hi ?z)" using w by (simp add: zones_wf_def)
  have o: "i \<notin> set (rb_list (trees k y))" for y
    using a tree_start(3) [OF w, of i y] by (auto simp: addable_def)
  show ?thesis
  proof (cases "err = 0")
    case True
    obtain xs j ys s where j: "insertable k ?z (lo ?z) (hi ?z) xs j ys i s n"
      "kbase_insert_va_region_nolock rb i j s n k = (0, k')"
      using add_cases [OF z a n r] True by (metis zero_neq_neg_numeral)
    note c = insert_carves [OF ok j]
    have "\<forall>q \<in> {i, j}. q < next_reg k \<and> reg_tree (regions k q) = ?z" using add_frame [OF j(1)] by blast
    then show ?thesis using zones_wf_other [OF w c(3) _ c(2)] c(3) by (simp add: rest_same_def)
  next
    case False
    note e = kbase_add_va_region_error [OF z a n r False]
    have "i < next_reg k" using a by (simp add: addable_def)
    then have "zones_wf c k' lo hi" by (intro outside_wf [OF w o e(2)]) (auto simp: e)
    then show ?thesis by (simp add: e)
  qed
qed

lemma alloc_keeps:
  assumes w: "zones_wf c k lo hi" and a: "kbase_alloc_free_region z 0 n zone k = (Some i, k1)"
  shows "zones_wf c (upd_region i f k1) lo hi"
proof -
  note A = alloc_ok [OF a]
  have o: "i \<notin> set (rb_list (trees k y))" for y using tree_start(2) [OF w, of i y] A(1) by auto
  show ?thesis by (rule outside_wf [OF w o]) (use A in auto)
qed

lemma put_keeps:
  assumes ok: "rb_ok rb" and w: "zones_wf c k lo hi" and i: "i \<in> set (rb_list (trees k z))"
    and r: "va_refcnt (regions k i) = 1 \<Longrightarrow> fst (kbase_remove_va_region rb i (count_down i k)) = 0"
  shows "zones_wf c (kbase_va_region_alloc_put rb i k) lo hi"
  using put_last(1) [OF ok w i _ r] count_down_wf(1) [OF w] by (cases "va_refcnt (regions k i) = 1") (simp_all add: put_unfold)

lemma va_step_keeps:
  assumes "va_step rb k k'" and "rb_ok rb" and w: "zones_wf c k lo hi"
  shows "zones_wf c k' lo hi"
  using assms(1)
proof cases
  case (va_alloc z n zone i k1 f ic ex)
  then show ?thesis using alloc_keeps [OF w] by blast
next
  case (va_add i n addr align err)
  then show ?thesis using add_keeps [OF assms(2) w] by blast
next
  case (va_get i)
  then show ?thesis using upd_zones_wf [OF w] by (simp add: kbase_va_region_alloc_get_def)
next
  case (va_put i z)
  then show ?thesis using put_keeps [OF assms(2) w] by blast
qed

lemma va_run_keeps:
  assumes "va_run rb k k'" and "rb_ok rb" and "zones_wf c k lo hi"
  shows "zones_wf c k' lo hi"
  using assms(1,3) va_step_keeps [OF _ assms(2)] by induction blast+

section \<open>The end of the context\<close>

text \<open>Regions that nothing but the tree refers to.\<close>

definition disposable :: "va_ctx \<Rightarrow> nat \<Rightarrow> bool" where
  "disposable k i \<longleftrightarrow> has_flag k i KBASE_REG_FREE \<or>
     va_refcnt (regions k i) = 1 \<and> \<not> has_flag k i KBASE_REG_VA_FREED \<and>
     reg_flags (regions k i) AND KBASE_REG_ZONE_MASK \<noteq> KBASE_REG_ZONE_MASK"

lemma free_alloced_disposable:
  assumes "disposable k i" and "start_pfn (regions k i) = 0"
  shows "trees (kbase_free_alloced_region rb i k) = trees k"
    and "kfreed (kbase_free_alloced_region rb i k) = i # kfreed k"
    and "j \<noteq> i \<Longrightarrow> regions (kbase_free_alloced_region rb i k) j = regions k j"
  using assms
  by (auto simp: kbase_free_alloced_region_def disposable_def kbase_va_region_alloc_put_def
      kbase_region_refcnt_free_def Let_def)

lemma erase_rbtree_frees:
  assumes ok: "rb_ok rb"
  shows "rb_list (trees k z) = L \<Longrightarrow> distinct L \<Longrightarrow> (\<And>i. i \<in> set L \<Longrightarrow> disposable k i) \<Longrightarrow>
    \<exists>k'. kbase_region_tracker_erase_rbtree rb z k = Some k' \<and> rb_list (trees k' z) = [] \<and>
      (\<forall>y. y \<noteq> z \<longrightarrow> trees k' y = trees k y) \<and> kfreed k' = rev L @ kfreed k \<and>
      (\<forall>j. j \<notin> set L \<longrightarrow> regions k' j = regions k j)"
proof (induction L arbitrary: k)
  case Nil
  then show ?case by (subst kbase_region_tracker_erase_rbtree.simps) (simp add: rb_first_def)
next
  case (Cons i L)
  let ?k1 = "upd_region i (\<lambda>r. r\<lparr> start_pfn := 0 \<rparr>) (upd_tree z (\<lambda>t. rb_erase rb t i) k)"
  let ?k2 = "kbase_free_alloced_region rb i ?k1"
  have d: "disposable ?k1 i" using Cons.prems(3) [of i] by (simp add: disposable_def has_flag_def)
  note f = free_alloced_disposable [OF d, where rb = rb]
  have f1: "trees ?k2 = trees ?k1" "kfreed ?k2 = i # kfreed k" "\<And>j. j \<noteq> i \<Longrightarrow> regions ?k2 j = regions k j"
    using f by simp_all
  have L: "rb_list (trees ?k2 z) = L"
    using f1(1) erase_split [OF ok, of "trees k z" "[]" i L] Cons.prems(1,2) by simp
  have "disposable ?k2 j" if "j \<in> set L" for j
  proof -
    have "j \<noteq> i" using that Cons.prems(2) by auto
    then show ?thesis using f1(3) Cons.prems(3) [of j] that by (simp add: disposable_def has_flag_def)
  qed
  then obtain k' where k': "kbase_region_tracker_erase_rbtree rb z ?k2 = Some k'" "rb_list (trees k' z) = []"
    "\<And>y. y \<noteq> z \<Longrightarrow> trees k' y = trees ?k2 y" "kfreed k' = rev L @ kfreed ?k2"
    "\<And>j. j \<notin> set L \<Longrightarrow> regions k' j = regions ?k2 j"
    using Cons.IH [OF L] Cons.prems(2) by auto
  have "kbase_region_tracker_erase_rbtree rb z k = Some k'"
    using k'(1) Cons.prems(1) by (subst kbase_region_tracker_erase_rbtree.simps) (simp add: rb_first_def)
  then show ?case using k' f1 by auto
qed

end
