(* ===== verification/KB_AllocFlags.thy ===== *)
theory KB_AllocFlags
  imports KB_Region
begin

text \<open>
  The flags and sizes of a request for memory (\<open>mali_base_kernel.h\<close>, \<open>kbase_check_alloc_flags\<close>,
  \<open>kbase_check_import_flags\<close>, \<open>kbase_check_alloc_sizes\<close> and \<open>kbase_update_region_flags\<close> of
  \<open>mali_kbase_mem.c\<close>, \<open>mali_kbase_cache_policy.c\<close>): which requests are let through, and which
  flags the region gets.
\<close>

unbundle bit_operations_syntax

section \<open>Flags of a request\<close>

text \<open>\<open>base_mem_alloc_flags\<close> has 32 bits, the flags that are checked are an \<open>unsigned long\<close>.\<close>

definition BASE_MEM_PROT_CPU_RD :: u64 where "BASE_MEM_PROT_CPU_RD = 0x1"
definition BASE_MEM_PROT_CPU_WR :: u64 where "BASE_MEM_PROT_CPU_WR = 0x2"
definition BASE_MEM_PROT_GPU_RD :: u64 where "BASE_MEM_PROT_GPU_RD = 0x4"
definition BASE_MEM_PROT_GPU_WR :: u64 where "BASE_MEM_PROT_GPU_WR = 0x8"
definition BASE_MEM_PROT_GPU_EX :: u64 where "BASE_MEM_PROT_GPU_EX = 0x10"
definition BASEP_MEM_PERMANENT_KERNEL_MAPPING :: u64 where "BASEP_MEM_PERMANENT_KERNEL_MAPPING = 0x20"
definition BASE_MEM_GPU_VA_SAME_4GB_PAGE :: u64 where "BASE_MEM_GPU_VA_SAME_4GB_PAGE = 0x40"
definition BASEP_MEM_NO_USER_FREE :: u64 where "BASEP_MEM_NO_USER_FREE = 0x80"
definition BASE_MEM_GROW_ON_GPF :: u64 where "BASE_MEM_GROW_ON_GPF = 0x200"
definition BASE_MEM_COHERENT_SYSTEM :: u64 where "BASE_MEM_COHERENT_SYSTEM = 0x400"
definition BASE_MEM_COHERENT_LOCAL :: u64 where "BASE_MEM_COHERENT_LOCAL = 0x800"
definition BASE_MEM_CACHED_CPU :: u64 where "BASE_MEM_CACHED_CPU = 0x1000"
definition BASE_MEM_COHERENT_SYSTEM_REQUIRED :: u64 where "BASE_MEM_COHERENT_SYSTEM_REQUIRED = 0x8000"
definition BASE_MEM_PROTECTED :: u64 where "BASE_MEM_PROTECTED = 0x10000"
definition BASE_MEM_IMPORT_SHARED :: u64 where "BASE_MEM_IMPORT_SHARED = 0x40000"
definition BASE_MEM_TILER_ALIGN_TOP :: u64 where "BASE_MEM_TILER_ALIGN_TOP = 0x100000"
definition BASE_MEM_UNCACHED_GPU :: u64 where "BASE_MEM_UNCACHED_GPU = 0x200000"
definition BASE_MEM_IMPORT_SYNC_ON_MAP_UNMAP :: u64 where "BASE_MEM_IMPORT_SYNC_ON_MAP_UNMAP = 0x4000000"

definition BASE_MEM_NEED_MMAP :: u32 where "BASE_MEM_NEED_MMAP = 0x4000"
definition BASE_MEM_FLAGS_INPUT_MASK :: u32 where
  "BASE_MEM_FLAGS_INPUT_MASK = (push_bit 28 1 - 1) AND NOT BASE_MEM_NEED_MMAP"

definition KBASE_MEM_ALLOC_MAX_SIZE :: u64 where "KBASE_MEM_ALLOC_MAX_SIZE = drop_bit 12 (push_bit 30 8)"
definition BASE_MEM_TILER_ALIGN_TOP_EXTENT_MAX_PAGES :: u64 where
  "BASE_MEM_TILER_ALIGN_TOP_EXTENT_MAX_PAGES = push_bit (21 - 12) 1"

section \<open>Checks\<close>

text \<open>The complement of the mask is taken with 32 bits and then extended by zeros.\<close>

definition unknown_flags :: u64 where
  "unknown_flags = ucast (NOT BASE_MEM_FLAGS_INPUT_MASK)"

definition kbase_check_alloc_flags :: "u64 \<Rightarrow> bool" where
  "kbase_check_alloc_flags flags =
     (if flags AND unknown_flags \<noteq> 0 then False
      else if flags = 0 then False
      else if flags AND (BASE_MEM_PROT_CPU_RD OR BASE_MEM_PROT_GPU_RD) = 0 then False
      else if flags AND (BASE_MEM_PROT_CPU_WR OR BASE_MEM_PROT_GPU_WR) = 0 then False
      else if flags AND BASE_MEM_PROT_GPU_EX \<noteq> 0 \<and>
        flags AND (BASE_MEM_PROT_GPU_WR OR BASE_MEM_GROW_ON_GPF OR BASE_MEM_TILER_ALIGN_TOP) \<noteq> 0 then False
      else if flags AND BASE_MEM_GPU_VA_SAME_4GB_PAGE \<noteq> 0 \<and>
        flags AND (BASE_MEM_PROT_GPU_EX OR BASE_MEM_TILER_ALIGN_TOP) \<noteq> 0 then False
      else if flags AND (BASE_MEM_PROT_GPU_RD OR BASE_MEM_PROT_GPU_WR) = 0 then False
      else if flags AND BASE_MEM_IMPORT_SHARED = BASE_MEM_IMPORT_SHARED then False
      else if flags AND BASE_MEM_IMPORT_SYNC_ON_MAP_UNMAP = BASE_MEM_IMPORT_SYNC_ON_MAP_UNMAP then False
      else if flags AND (BASE_MEM_COHERENT_LOCAL OR BASE_MEM_COHERENT_SYSTEM) =
        BASE_MEM_COHERENT_LOCAL OR BASE_MEM_COHERENT_SYSTEM then False
      else True)"

definition kbase_check_import_flags :: "u64 \<Rightarrow> bool" where
  "kbase_check_import_flags flags =
     (if flags AND unknown_flags \<noteq> 0 then False
      else if flags = 0 then False
      else if flags AND BASE_MEM_PROT_GPU_EX \<noteq> 0 then False
      else if flags AND BASE_MEM_GROW_ON_GPF \<noteq> 0 then False
      else if flags AND BASE_MEM_TILER_ALIGN_TOP \<noteq> 0 then False
      else if flags AND (BASE_MEM_PROT_GPU_RD OR BASE_MEM_PROT_GPU_WR) = 0 then False
      else if flags AND BASE_MEM_PROTECTED \<noteq> 0 \<and> flags AND BASE_MEM_PROT_CPU_RD \<noteq> 0 then False
      else True)"

definition is_power_of_2 :: "u64 \<Rightarrow> bool" where
  "is_power_of_2 n \<longleftrightarrow> n \<noteq> 0 \<and> n AND (n - 1) = 0"

definition kbase_check_alloc_sizes :: "nat \<Rightarrow> u64 \<Rightarrow> u64 \<Rightarrow> u64 \<Rightarrow> u64 \<Rightarrow> int" where
  "kbase_check_alloc_sizes gpu_pc_bits flags va_pages commit_pages large_extent =
     (let gpu_pc_pages_max = drop_bit 12 (push_bit gpu_pc_bits 1);
          grows = flags AND (BASE_MEM_GROW_ON_GPF OR BASE_MEM_TILER_ALIGN_TOP) \<noteq> 0
      in if va_pages = 0 then -22
         else if va_pages > KBASE_MEM_ALLOC_MAX_SIZE then -12
         else if flags AND BASE_MEM_PROT_GPU_EX \<noteq> 0 \<and> va_pages > gpu_pc_pages_max then -22
         else if grows \<and> large_extent = 0 then -22
         else if \<not> grows \<and> large_extent \<noteq> 0 then -22
         else if flags AND BASE_MEM_TILER_ALIGN_TOP \<noteq> 0 \<and>
           (large_extent > BASE_MEM_TILER_ALIGN_TOP_EXTENT_MAX_PAGES \<or> \<not> is_power_of_2 large_extent \<or>
            commit_pages > large_extent) then -22
         else if flags AND BASE_MEM_GPU_VA_SAME_4GB_PAGE \<noteq> 0 \<and> va_pages > BASE_MEM_PFN_MASK_4GB + 1 then -22
         else 0)"

section \<open>Flags of a region\<close>

definition KBASE_REG_CPU_WR :: u64 where "KBASE_REG_CPU_WR = 0x2"
definition KBASE_REG_CPU_CACHED :: u64 where "KBASE_REG_CPU_CACHED = 0x10"
definition KBASE_REG_GPU_CACHED :: u64 where "KBASE_REG_GPU_CACHED = 0x20"
definition KBASE_REG_PF_GROW :: u64 where "KBASE_REG_PF_GROW = 0x80"
definition KBASE_REG_CPU_RD :: u64 where "KBASE_REG_CPU_RD = 0x4000"
definition KBASE_REG_NO_USER_FREE :: u64 where "KBASE_REG_NO_USER_FREE = 0x1000000"
definition KBASE_REG_PERMANENT_KERNEL_MAPPING :: u64 where "KBASE_REG_PERMANENT_KERNEL_MAPPING = 0x2000000"

definition KBASE_REG_MEMATTR_INDEX :: "u64 \<Rightarrow> u64" where
  "KBASE_REG_MEMATTR_INDEX x = push_bit 16 (x AND 7)"

definition AS_MEMATTR_INDEX_DEFAULT :: u64 where "AS_MEMATTR_INDEX_DEFAULT = 0"
definition AS_MEMATTR_INDEX_DEFAULT_ACE :: u64 where "AS_MEMATTR_INDEX_DEFAULT_ACE = 3"
definition AS_MEMATTR_INDEX_NON_CACHEABLE :: u64 where "AS_MEMATTR_INDEX_NON_CACHEABLE = 5"

datatype coherency = COHERENCY_ACE_LITE | COHERENCY_ACE | COHERENCY_NONE

definition kbase_device_is_cpu_coherent :: "coherency \<Rightarrow> bool" where
  "kbase_device_is_cpu_coherent co \<longleftrightarrow> co = COHERENCY_ACE_LITE \<or> co = COHERENCY_ACE"

definition kbase_cache_enabled :: "u32 \<Rightarrow> u32" where
  "kbase_cache_enabled flags =
     (let cache_flags = (if (ucast flags :: u64) AND BASE_MEM_UNCACHED_GPU = 0 then ucast KBASE_REG_GPU_CACHED else 0)
      in if (ucast flags :: u64) AND BASE_MEM_CACHED_CPU \<noteq> 0 then cache_flags OR ucast KBASE_REG_CPU_CACHED
         else cache_flags)"

definition set_if :: "bool \<Rightarrow> u64 \<Rightarrow> u64 \<Rightarrow> u64" where
  "set_if b f r = (if b then r OR f else r)"

definition update_access_flags :: "u64 \<Rightarrow> u64 \<Rightarrow> u64" where
  "update_access_flags flags r =
     set_if (flags AND BASE_MEM_PROT_GPU_EX = 0) KBASE_REG_GPU_NX
     (set_if (flags AND BASE_MEM_PROT_GPU_RD \<noteq> 0) KBASE_REG_GPU_RD
     (set_if (flags AND BASE_MEM_PROT_GPU_WR \<noteq> 0) KBASE_REG_GPU_WR
     (set_if (flags AND BASE_MEM_PROT_CPU_RD \<noteq> 0) KBASE_REG_CPU_RD
     (set_if (flags AND BASE_MEM_PROT_CPU_WR \<noteq> 0) KBASE_REG_CPU_WR
     (set_if (flags AND BASE_MEM_GROW_ON_GPF \<noteq> 0) KBASE_REG_PF_GROW
     ((r OR ucast (kbase_cache_enabled (ucast flags))) OR KBASE_REG_GROWABLE))))))"

definition update_share_flags :: "coherency \<Rightarrow> u64 \<Rightarrow> u64 \<Rightarrow> u64" where
  "update_share_flags co flags r =
     (let r = set_if (kbase_device_is_cpu_coherent co \<and>
                flags AND (BASE_MEM_COHERENT_SYSTEM OR BASE_MEM_COHERENT_SYSTEM_REQUIRED) \<noteq> 0) KBASE_REG_SHARE_BOTH r;
          r = set_if (r AND KBASE_REG_SHARE_BOTH = 0 \<and> flags AND BASE_MEM_COHERENT_LOCAL \<noteq> 0) KBASE_REG_SHARE_IN r
      in set_if (flags AND BASE_MEM_TILER_ALIGN_TOP \<noteq> 0) KBASE_REG_TILER_ALIGN_TOP r)"

definition update_memattr_flags :: "coherency \<Rightarrow> u64 \<Rightarrow> u64" where
  "update_memattr_flags co r =
     (if r AND KBASE_REG_GPU_CACHED = 0
      then (r AND NOT (KBASE_REG_SHARE_IN OR KBASE_REG_SHARE_BOTH)) OR
        KBASE_REG_MEMATTR_INDEX AS_MEMATTR_INDEX_NON_CACHEABLE
      else if co = COHERENCY_ACE \<and> r AND KBASE_REG_SHARE_BOTH \<noteq> 0
      then r OR KBASE_REG_MEMATTR_INDEX AS_MEMATTR_INDEX_DEFAULT_ACE
      else r OR KBASE_REG_MEMATTR_INDEX AS_MEMATTR_INDEX_DEFAULT)"

definition update_other_flags :: "u64 \<Rightarrow> u64 \<Rightarrow> u64" where
  "update_other_flags flags r =
     set_if (flags AND BASE_MEM_GPU_VA_SAME_4GB_PAGE \<noteq> 0) KBASE_REG_GPU_VA_SAME_4GB_PAGE
     (set_if (flags AND BASEP_MEM_NO_USER_FREE \<noteq> 0) KBASE_REG_NO_USER_FREE
     (set_if (flags AND BASEP_MEM_PERMANENT_KERNEL_MAPPING \<noteq> 0) KBASE_REG_PERMANENT_KERNEL_MAPPING r))"

text \<open>\<open>nc\<close> is \<open>KBASE_MMU_MODE_HAS_NON_CACHEABLE\<close>. The region keeps what was set before a failure.\<close>

definition kbase_update_region_flags :: "coherency \<Rightarrow> bool \<Rightarrow> u64 \<Rightarrow> u64 \<Rightarrow> int \<times> u64" where
  "kbase_update_region_flags co nc flags r =
     (let r1 = update_access_flags flags r;
          r2 = update_share_flags co flags r1
      in if \<not> kbase_device_is_cpu_coherent co \<and> flags AND BASE_MEM_COHERENT_SYSTEM_REQUIRED \<noteq> 0 \<and>
           flags AND BASE_MEM_UNCACHED_GPU = 0
         then (-22, r1)
         else if r2 AND KBASE_REG_GPU_CACHED = 0 \<and> \<not> nc then (-22, r2)
         else (0, update_other_flags flags (update_memattr_flags co r2)))"

section \<open>Flags as bits\<close>

named_theorems flag_bits

lemma and_flag: "x AND (2 ^ n) = 0 \<longleftrightarrow> \<not> bit (x :: u64) n"
  by (simp add: and_exp_eq_0_iff_not_bit)

lemma flag_exps:
  "BASE_MEM_PROT_CPU_RD = 2 ^ 0" "BASE_MEM_PROT_CPU_WR = 2 ^ 1" "BASE_MEM_PROT_GPU_RD = 2 ^ 2"
  "BASE_MEM_PROT_GPU_WR = 2 ^ 3" "BASE_MEM_PROT_GPU_EX = 2 ^ 4" "BASEP_MEM_PERMANENT_KERNEL_MAPPING = 2 ^ 5"
  "BASE_MEM_GPU_VA_SAME_4GB_PAGE = 2 ^ 6" "BASEP_MEM_NO_USER_FREE = 2 ^ 7" "BASE_MEM_GROW_ON_GPF = 2 ^ 9"
  "BASE_MEM_COHERENT_SYSTEM = 2 ^ 10" "BASE_MEM_COHERENT_LOCAL = 2 ^ 11" "BASE_MEM_CACHED_CPU = 2 ^ 12"
  "BASE_MEM_COHERENT_SYSTEM_REQUIRED = 2 ^ 15" "BASE_MEM_TILER_ALIGN_TOP = 2 ^ 20" "BASE_MEM_UNCACHED_GPU = 2 ^ 21"
  by (simp_all add: BASE_MEM_PROT_CPU_RD_def BASE_MEM_PROT_CPU_WR_def BASE_MEM_PROT_GPU_RD_def BASE_MEM_PROT_GPU_WR_def
      BASE_MEM_PROT_GPU_EX_def BASEP_MEM_PERMANENT_KERNEL_MAPPING_def BASE_MEM_GPU_VA_SAME_4GB_PAGE_def
      BASEP_MEM_NO_USER_FREE_def BASE_MEM_GROW_ON_GPF_def BASE_MEM_COHERENT_SYSTEM_def BASE_MEM_COHERENT_LOCAL_def
      BASE_MEM_CACHED_CPU_def BASE_MEM_COHERENT_SYSTEM_REQUIRED_def BASE_MEM_TILER_ALIGN_TOP_def BASE_MEM_UNCACHED_GPU_def)

lemma bit_flags [flag_bits]:
  "bit BASE_MEM_PROT_GPU_WR n \<longleftrightarrow> n = 3" "bit BASE_MEM_PROT_GPU_EX n \<longleftrightarrow> n = 4"
  "bit BASE_MEM_GROW_ON_GPF n \<longleftrightarrow> n = 9" "bit BASE_MEM_TILER_ALIGN_TOP n \<longleftrightarrow> n = 20"
  unfolding flag_exps bit_exp_iff by auto

lemma reg_exps:
  "KBASE_REG_FREE = 2 ^ 0" "KBASE_REG_CPU_WR = 2 ^ 1" "KBASE_REG_GPU_WR = 2 ^ 2" "KBASE_REG_GPU_NX = 2 ^ 3"
  "KBASE_REG_CPU_CACHED = 2 ^ 4" "KBASE_REG_GPU_CACHED = 2 ^ 5" "KBASE_REG_GROWABLE = 2 ^ 6" "KBASE_REG_PF_GROW = 2 ^ 7"
  "KBASE_REG_GPU_VA_SAME_4GB_PAGE = 2 ^ 8" "KBASE_REG_SHARE_IN = 2 ^ 9" "KBASE_REG_SHARE_BOTH = 2 ^ 10"
  "KBASE_REG_GPU_RD = 2 ^ 13" "KBASE_REG_CPU_RD = 2 ^ 14" "KBASE_REG_TILER_ALIGN_TOP = 2 ^ 23"
  "KBASE_REG_NO_USER_FREE = 2 ^ 24" "KBASE_REG_PERMANENT_KERNEL_MAPPING = 2 ^ 25" "KBASE_REG_VA_FREED = 2 ^ 26"
  by (simp_all add: KBASE_REG_FREE_def KBASE_REG_CPU_WR_def KBASE_REG_GPU_WR_def KBASE_REG_GPU_NX_def
      KBASE_REG_CPU_CACHED_def KBASE_REG_GPU_CACHED_def KBASE_REG_GROWABLE_def KBASE_REG_PF_GROW_def
      KBASE_REG_GPU_VA_SAME_4GB_PAGE_def KBASE_REG_SHARE_IN_def KBASE_REG_SHARE_BOTH_def KBASE_REG_GPU_RD_def
      KBASE_REG_CPU_RD_def KBASE_REG_TILER_ALIGN_TOP_def KBASE_REG_NO_USER_FREE_def
      KBASE_REG_PERMANENT_KERNEL_MAPPING_def KBASE_REG_VA_FREED_def push_bit_eq_mult)

lemma bit_regs [flag_bits]:
  "bit KBASE_REG_FREE n \<longleftrightarrow> n = 0" "bit KBASE_REG_CPU_WR n \<longleftrightarrow> n = 1" "bit KBASE_REG_GPU_WR n \<longleftrightarrow> n = 2"
  "bit KBASE_REG_GPU_NX n \<longleftrightarrow> n = 3" "bit KBASE_REG_CPU_CACHED n \<longleftrightarrow> n = 4" "bit KBASE_REG_GPU_CACHED n \<longleftrightarrow> n = 5"
  "bit KBASE_REG_GROWABLE n \<longleftrightarrow> n = 6" "bit KBASE_REG_PF_GROW n \<longleftrightarrow> n = 7"
  "bit KBASE_REG_GPU_VA_SAME_4GB_PAGE n \<longleftrightarrow> n = 8" "bit KBASE_REG_SHARE_IN n \<longleftrightarrow> n = 9"
  "bit KBASE_REG_SHARE_BOTH n \<longleftrightarrow> n = 10" "bit KBASE_REG_GPU_RD n \<longleftrightarrow> n = 13" "bit KBASE_REG_CPU_RD n \<longleftrightarrow> n = 14"
  "bit KBASE_REG_TILER_ALIGN_TOP n \<longleftrightarrow> n = 23" "bit KBASE_REG_NO_USER_FREE n \<longleftrightarrow> n = 24"
  "bit KBASE_REG_PERMANENT_KERNEL_MAPPING n \<longleftrightarrow> n = 25" "bit KBASE_REG_VA_FREED n \<longleftrightarrow> n = 26"
  unfolding reg_exps bit_exp_iff by auto

lemma bit_memattr [flag_bits]: "bit (KBASE_REG_MEMATTR_INDEX x) n \<longleftrightarrow> 16 \<le> n \<and> n < 19 \<and> bit x (n - 16)"
  unfolding KBASE_REG_MEMATTR_INDEX_def bit_push_bit_iff bit_and_iff bit_seven by auto

lemma bit_set_if [flag_bits]: "bit (set_if b f r) n \<longleftrightarrow> bit r n \<or> b \<and> bit f n"
  by (simp add: set_if_def bit_or_iff)

lemma and_low_word: "c < 2 ^ 32 \<Longrightarrow> (ucast (ucast f :: u32) :: u64) AND c = f AND c"
proof (rule bit_word_eqI)
  fix n
  assume c: "c < 2 ^ 32"
  have "\<not> bit c n" if "32 \<le> n"
    using c that bit_uint_iff [of c n] bit_take_bit_iff [of 32 c n] by (metis less_mask_eq linorder_not_less take_bit_eq_mask bit_take_bit_iff)
  then show "bit ((ucast (ucast f :: u32) :: u64) AND c) n = bit (f AND c) n"
    by (cases "n < 32") (auto simp: bit_and_iff bit_ucast_iff)
qed

lemma bit_cache [flag_bits]:
  "bit (ucast (kbase_cache_enabled (ucast flags)) :: u64) n \<longleftrightarrow>
     n = 5 \<and> flags AND BASE_MEM_UNCACHED_GPU = 0 \<or> n = 4 \<and> flags AND BASE_MEM_CACHED_CPU \<noteq> 0"
proof -
  have "BASE_MEM_UNCACHED_GPU < 2 ^ 32" "BASE_MEM_CACHED_CPU < 2 ^ 32" by code_simp+
  then have "(ucast (ucast flags :: u32) :: u64) AND BASE_MEM_UNCACHED_GPU = flags AND BASE_MEM_UNCACHED_GPU"
    "(ucast (ucast flags :: u32) :: u64) AND BASE_MEM_CACHED_CPU = flags AND BASE_MEM_CACHED_CPU"
    by (simp_all add: and_low_word)
  then show ?thesis by (auto simp: kbase_cache_enabled_def Let_def bit_ucast_iff bit_or_iff flag_bits)
qed

text \<open>The bits that the flags of a request decide, and those that stay.\<close>

lemma update_access_bits:
  "bit (update_access_flags flags r) n \<longleftrightarrow> bit r n \<or>
     (n = 1 \<and> flags AND BASE_MEM_PROT_CPU_WR \<noteq> 0) \<or> (n = 2 \<and> bit flags 3) \<or> (n = 3 \<and> \<not> bit flags 4) \<or>
     (n = 4 \<and> flags AND BASE_MEM_CACHED_CPU \<noteq> 0) \<or> (n = 5 \<and> flags AND BASE_MEM_UNCACHED_GPU = 0) \<or> n = 6 \<or>
     (n = 7 \<and> flags AND BASE_MEM_GROW_ON_GPF \<noteq> 0) \<or> (n = 13 \<and> flags AND BASE_MEM_PROT_GPU_RD \<noteq> 0) \<or>
     (n = 14 \<and> flags AND BASE_MEM_PROT_CPU_RD \<noteq> 0)"
  unfolding update_access_flags_def bit_set_if bit_or_iff bit_cache bit_regs
    and_flag [of flags 4, folded flag_exps(5)] and_flag [of flags 3, folded flag_exps(4)]
  by blast

lemma update_share_bits: "n \<notin> {9, 10, 23} \<Longrightarrow> bit (update_share_flags co flags r) n = bit r n"
  by (simp add: update_share_flags_def Let_def flag_bits)

lemma update_memattr_bits: "n \<notin> {9, 10, 16, 17, 18} \<Longrightarrow> bit (update_memattr_flags co r) n = bit r n"
proof -
  assume n: "n \<notin> {9, 10, 16, 17, 18}"
  then have "\<not> (16 \<le> n \<and> n < 19)" by auto
  then show ?thesis using n
    by (cases "n < 64") (auto simp: update_memattr_flags_def bit_or_iff bit_and_iff bit_not_iff flag_bits dest: bit_imp_le_length)
qed

lemma update_other_bits: "n \<notin> {8, 24, 25} \<Longrightarrow> bit (update_other_flags flags r) n = bit r n"
  by (simp add: update_other_flags_def flag_bits)

lemma update_region_bits:
  assumes "kbase_update_region_flags co nc flags r = (0, r')"
  shows "n \<notin> {8, 9, 10, 16, 17, 18, 23, 24, 25} \<Longrightarrow> bit r' n = bit (update_access_flags flags r) n"
  using assms update_other_bits [of n] update_memattr_bits [of n] update_share_bits [of n]
  by (auto simp: kbase_update_region_flags_def Let_def split: if_splits)

lemma check_alloc_wx: "kbase_check_alloc_flags flags \<Longrightarrow> bit flags 4 \<Longrightarrow> \<not> bit flags 3"
proof -
  assume c: "kbase_check_alloc_flags flags" and e: "bit flags 4"
  have "flags AND BASE_MEM_PROT_GPU_EX \<noteq> 0" using e by (simp add: flag_exps(5) and_flag del: power_numeral)
  then have "flags AND (BASE_MEM_PROT_GPU_WR OR BASE_MEM_GROW_ON_GPF OR BASE_MEM_TILER_ALIGN_TOP) = 0"
    using c by (auto simp: kbase_check_alloc_flags_def split: if_splits)
  then have "\<not> bit (flags AND (BASE_MEM_PROT_GPU_WR OR BASE_MEM_GROW_ON_GPF OR BASE_MEM_TILER_ALIGN_TOP)) 3" by simp
  then show ?thesis by (simp add: bit_and_iff bit_or_iff flag_bits)
qed

lemma unknown_flags_val: "unknown_flags = 0xF0004000"
  by (simp add: unknown_flags_def BASE_MEM_FLAGS_INPUT_MASK_def BASE_MEM_NEED_MMAP_def)

lemma unat_power_lower64: "n < 64 \<Longrightarrow> unat ((2 :: u64) ^ n) = 2 ^ n"
proof -
  assume "n < 64"
  then have "unat (of_nat (2 ^ n) :: u64) = 2 ^ n" by (intro unat_of_nat_u64 power_strict_increasing) auto
  then show ?thesis by simp
qed

lemmas low_consts = BASE_MEM_PROT_CPU_RD_def BASE_MEM_PROT_CPU_WR_def BASE_MEM_PROT_GPU_RD_def BASE_MEM_PROT_GPU_WR_def
  BASE_MEM_PROT_GPU_EX_def BASE_MEM_GPU_VA_SAME_4GB_PAGE_def BASE_MEM_GROW_ON_GPF_def BASE_MEM_COHERENT_SYSTEM_def
  BASE_MEM_COHERENT_LOCAL_def BASE_MEM_IMPORT_SHARED_def BASE_MEM_TILER_ALIGN_TOP_def BASE_MEM_IMPORT_SYNC_ON_MAP_UNMAP_def

text \<open>The rights in an entry of the page table, for the two formats.\<close>

definition aarch64_writable :: "u64 \<Rightarrow> bool" where "aarch64_writable e \<longleftrightarrow> bit e 6 \<and> \<not> bit e 7"
definition lpae_writable :: "u64 \<Rightarrow> bool" where "lpae_writable e \<longleftrightarrow> bit e 7"
definition entry_executable :: "u64 \<Rightarrow> bool" where "entry_executable e \<longleftrightarrow> \<not> bit e 54"

lemma as_phys_bits: "n < 12 \<Longrightarrow> \<not> bit (as_phys_addr_t phy) n"
  by (rule page_aligned_bit) (simp_all add: as_phys_addr_t_def)

lemma reg_wr_nx: "r AND KBASE_REG_GPU_WR \<noteq> 0 \<longleftrightarrow> bit r 2" "r AND KBASE_REG_GPU_NX \<noteq> 0 \<longleftrightarrow> bit r 3"
  unfolding reg_exps and_flag by simp_all

lemma reg_cached: "r AND KBASE_REG_GPU_CACHED = 0 \<longleftrightarrow> \<not> bit r 5"
  unfolding reg_exps and_flag by simp

lemma zone_mask_bits: "bit KBASE_REG_ZONE_MASK n \<Longrightarrow> n \<in> {11, 12}"
proof -
  have "KBASE_REG_ZONE_MASK = push_bit 11 3" by (simp add: KBASE_REG_ZONE_MASK_def push_bit_eq_mult)
  moreover have "bit (push_bit 11 (3 :: u64)) n \<longleftrightarrow> 11 \<le> n \<and> n < 64 \<and> n - 11 < 2"
    unfolding bit_push_bit_iff bit_three by auto
  ultimately have "bit KBASE_REG_ZONE_MASK n \<longleftrightarrow> 11 \<le> n \<and> n < 64 \<and> n - 11 < 2" by metis
  then show "bit KBASE_REG_ZONE_MASK n \<Longrightarrow> n \<in> {11, 12}" by auto
qed

lemma aarch64_rights:
  "aarch64_writable (aarch64_entry_set_ate phy r l) \<longleftrightarrow> bit r 2"
  "bit r 3 \<Longrightarrow> \<not> entry_executable (aarch64_entry_set_ate phy r l)"
proof -
  have m: "\<not> bit (push_bit 2 (KBASE_REG_MEMATTR_VALUE r)) 6" "\<not> bit (push_bit 2 (KBASE_REG_MEMATTR_VALUE r)) 7"
    using bit_memattr_value [of r 4] bit_memattr_value [of r 5] by (auto simp: bit_push_bit_iff)
  have w: "bit (aarch64_mmu_flags r) 6 \<and> \<not> bit (aarch64_mmu_flags r) 7 \<longleftrightarrow> bit r 2"
    using m by (auto simp: aarch64_mmu_flags_def Let_def bit_or_iff entry_bits reg_wr_nx)
  show "aarch64_writable (aarch64_entry_set_ate phy r l) \<longleftrightarrow> bit r 2"
    unfolding w [symmetric]
    by (auto simp: aarch64_writable_def aarch64_entry_set_ate_def bit_or_iff entry_bits as_phys_bits)
  show "bit r 3 \<Longrightarrow> \<not> entry_executable (aarch64_entry_set_ate phy r l)"
    by (auto simp: entry_executable_def aarch64_entry_set_ate_def aarch64_mmu_flags_def Let_def bit_or_iff entry_bits reg_wr_nx)
qed

lemma lpae_rights:
  "lpae_writable (lpae_entry_set_ate phy r l) \<longleftrightarrow> bit r 2"
  "bit r 3 \<Longrightarrow> \<not> entry_executable (lpae_entry_set_ate phy r l)"
proof -
  have m: "\<not> bit (push_bit 2 (if KBASE_REG_MEMATTR_VALUE r = 5 then 0 else KBASE_REG_MEMATTR_VALUE r)) 7"
    using bit_memattr_value [of r 5] by (auto simp: bit_push_bit_iff)
  have w: "bit (lpae_mmu_flags r) 7 \<longleftrightarrow> bit r 2"
    using m by (auto simp: lpae_mmu_flags_def Let_def bit_or_iff entry_bits reg_wr_nx)
  show "lpae_writable (lpae_entry_set_ate phy r l) \<longleftrightarrow> bit r 2"
    unfolding w [symmetric] by (auto simp: lpae_writable_def lpae_entry_set_ate_def bit_or_iff entry_bits as_phys_bits)
  show "bit r 3 \<Longrightarrow> \<not> entry_executable (lpae_entry_set_ate phy r l)"
    by (auto simp: entry_executable_def lpae_entry_set_ate_def lpae_mmu_flags_def Let_def bit_or_iff entry_bits reg_wr_nx)
qed

lemma gpu_rights_bits:
  assumes "kbase_update_region_flags co nc flags r = (0, r')" "\<not> bit r 2"
  shows "bit r' 2 \<longleftrightarrow> bit flags 3" and "\<not> bit flags 4 \<Longrightarrow> bit r' 3"
  using update_region_bits [OF assms(1), of 2] update_region_bits [OF assms(1), of 3] assms(2)
  by (simp_all add: update_access_bits)

text \<open>The powers of two that an extent can be.\<close>

lemma nat_power_of_2: "0 < n \<Longrightarrow> n AND (n - 1) = 0 \<Longrightarrow> \<exists>k. (n :: nat) = 2 ^ k"
proof (induction n rule: less_induct)
  case (less n)
  show ?case
  proof (cases "even n")
    case True
    then obtain m where m: "n = 2 * m" and "0 < m" using less.prems(1) by auto
    have "(n - 1) div 2 = m - 1" using m by arith
    then have "n AND (n - 1) = 2 * (m AND (m - 1))" using m by (subst and_rec) simp
    then obtain k where "m = 2 ^ k" using less.IH [of m] less.prems m \<open>0 < m\<close> by auto
    then show ?thesis using m by (intro exI [of _ "Suc k"]) simp
  next
    case False
    then have h: "(n - 1) div 2 = n div 2" "even (n - 1)" by (auto elim: oddE)
    then have "n AND (n - 1) = 2 * (n div 2)" using False by (subst and_rec) simp
    then have "n = 1" using less.prems(2) False by (metis mult_eq_0_iff odd_two_times_div_two_succ zero_neq_numeral add_0)
    then show ?thesis by (intro exI [of _ 0]) simp
  qed
qed

lemma power_of_2_up_to:
  "ext \<le> BASE_MEM_TILER_ALIGN_TOP_EXTENT_MAX_PAGES \<Longrightarrow> is_power_of_2 ext \<Longrightarrow> \<exists>k\<le>9. ext = 2 ^ k"
proof -
  assume le: "ext \<le> BASE_MEM_TILER_ALIGN_TOP_EXTENT_MAX_PAGES" and p: "is_power_of_2 ext"
  have "unat ext AND (unat ext - 1) = unat (ext AND (ext - 1))"
    using p unat_minus_one [of ext] unsigned_and_eq [of ext "ext - 1", where 'a = nat]
    by (simp add: is_power_of_2_def)
  then obtain k where k: "unat ext = 2 ^ k"
    using p nat_power_of_2 [of "unat ext"] by (auto simp: is_power_of_2_def unat_gt_0)
  moreover have "of_nat (unat ext) = ext" by simp
  ultimately have e: "ext = 2 ^ k" by simp
  have "unat ext \<le> 2 ^ 9" using le by (simp add: BASE_MEM_TILER_ALIGN_TOP_EXTENT_MAX_PAGES_def word_le_nat_alt)
  then have "k \<le> 9" unfolding k by (rule power_le_imp_le_exp [rotated]) simp
  then show ?thesis using e by blast
qed

section \<open>Properties\<close>

text \<open>
  C20. No memory is writable and executable for the GPU: whenever \<open>kbase_check_alloc_flags\<close> lets the
  flags of a request through and \<open>kbase_update_region_flags\<close> succeeds on a region that the GPU could
  not write before, the page table entries made with the flags of the region, in either format, at
  every level and for every page, are writable by the GPU exactly when the request asked for it,
  and those that are writable cannot be executed.
\<close>

theorem alloc_write_xor_execute:
  assumes "kbase_check_alloc_flags flags" and "r AND KBASE_REG_GPU_WR = 0"
    and "kbase_update_region_flags co nc flags r = (0, r')"
  shows "(aarch64_writable (aarch64_entry_set_ate phy r' l) \<longleftrightarrow> flags AND BASE_MEM_PROT_GPU_WR \<noteq> 0) \<and>
    (lpae_writable (lpae_entry_set_ate phy r' l) \<longleftrightarrow> flags AND BASE_MEM_PROT_GPU_WR \<noteq> 0) \<and>
    \<not> (aarch64_writable (aarch64_entry_set_ate phy r' l) \<and> entry_executable (aarch64_entry_set_ate phy r' l)) \<and>
    \<not> (lpae_writable (lpae_entry_set_ate phy r' l) \<and> entry_executable (lpae_entry_set_ate phy r' l))"
proof -
  have w: "bit r' 2 \<longleftrightarrow> bit flags 3" and x: "\<not> bit flags 4 \<Longrightarrow> bit r' 3"
    using gpu_rights_bits [OF assms(3)] assms(2) reg_wr_nx(1) by blast+
  have "flags AND BASE_MEM_PROT_GPU_WR \<noteq> 0 \<longleftrightarrow> bit flags 3" unfolding flag_exps and_flag by simp
  then show ?thesis using w x check_alloc_wx [OF assms(1)] aarch64_rights lpae_rights by blast
qed

lemma alloc_write_xor_execute_witness:
  "aarch64_writable (aarch64_entry_set_ate 0x80000000 (snd (kbase_update_region_flags COHERENCY_NONE True 0xF 1)) 3) \<and>
   \<not> entry_executable (aarch64_entry_set_ate 0x80000000 (snd (kbase_update_region_flags COHERENCY_NONE True 0xF 1)) 3)"
proof -
  have "kbase_check_alloc_flags 0xF" and "(1 :: u64) AND KBASE_REG_GPU_WR = 0"
    and "fst (kbase_update_region_flags COHERENCY_NONE True 0xF 1) = 0" and "0xF AND BASE_MEM_PROT_GPU_WR \<noteq> 0"
    by code_simp+
  then show ?thesis
    using alloc_write_xor_execute [of "0xF" 1 COHERENCY_NONE True "snd (kbase_update_region_flags COHERENCY_NONE True 0xF 1)" "0x80000000" 3]
    by (auto simp: prod_eq_iff)
qed

text \<open>
  What \<open>kbase_update_region_flags\<close> returns and leaves alone: it fails exactly when the CPU has to
  be coherent and is not (unless the memory is not cached by the GPU), or when the memory is not
  cached by the GPU and the MMU has no such attribute. Whether it fails or not, the region keeps its
  state (free, address released) and its zone; when it succeeds on memory that the GPU does not
  cache, the memory is not shared and has the memory attribute for it.
\<close>

theorem kbase_update_region_flags_result:
  assumes "r AND KBASE_REG_GPU_CACHED = 0"
  shows "case kbase_update_region_flags co nc flags r of (e, r') \<Rightarrow>
    (e = (if flags AND BASE_MEM_UNCACHED_GPU = 0
          then if co = COHERENCY_NONE \<and> flags AND BASE_MEM_COHERENT_SYSTEM_REQUIRED \<noteq> 0 then -22 else 0
          else if nc then 0 else -22)) \<and>
    r' AND KBASE_REG_FREE = r AND KBASE_REG_FREE \<and> r' AND KBASE_REG_VA_FREED = r AND KBASE_REG_VA_FREED \<and>
    r' AND KBASE_REG_ZONE_MASK = r AND KBASE_REG_ZONE_MASK \<and>
    (e = 0 \<and> flags AND BASE_MEM_UNCACHED_GPU \<noteq> 0 \<longrightarrow>
      r' AND (KBASE_REG_SHARE_IN OR KBASE_REG_SHARE_BOTH) = 0 \<and>
      r' AND KBASE_REG_MEMATTR_INDEX AS_MEMATTR_INDEX_NON_CACHEABLE =
        KBASE_REG_MEMATTR_INDEX AS_MEMATTR_INDEX_NON_CACHEABLE)"
proof -
  let ?u = "kbase_update_region_flags co nc flags r"
  have keep: "bit (snd ?u) n = bit r n" if "n \<in> {0, 11, 12, 26}" for n
  proof -
    have "bit (update_access_flags flags r) n = bit r n" and "bit (update_share_flags co flags (update_access_flags flags r)) n = bit r n"
      using that update_share_bits [of n] by (auto simp: update_access_bits)
    moreover have "fst ?u = 0 \<Longrightarrow> bit (snd ?u) n = bit (update_access_flags flags r) n"
      using that by (intro update_region_bits [where co = co and nc = nc]) (auto simp: prod_eq_iff)
    ultimately show ?thesis by (auto simp: kbase_update_region_flags_def Let_def split: if_splits)
  qed
  have cached: "bit (update_share_flags co flags (update_access_flags flags r)) 5 \<longleftrightarrow> flags AND BASE_MEM_UNCACHED_GPU = 0"
    using assms update_share_bits [of 5] reg_cached by (simp add: update_access_bits)
  have e: "fst ?u = (if flags AND BASE_MEM_UNCACHED_GPU = 0
      then if co = COHERENCY_NONE \<and> flags AND BASE_MEM_COHERENT_SYSTEM_REQUIRED \<noteq> 0 then -22 else 0
      else if nc then 0 else -22)"
    using cached by (auto simp: kbase_update_region_flags_def Let_def reg_cached kbase_device_is_cpu_coherent_def
        split: coherency.splits intro: coherency.exhaust)
  have "snd ?u AND (KBASE_REG_SHARE_IN OR KBASE_REG_SHARE_BOTH) = 0 \<and>
      snd ?u AND KBASE_REG_MEMATTR_INDEX AS_MEMATTR_INDEX_NON_CACHEABLE = KBASE_REG_MEMATTR_INDEX AS_MEMATTR_INDEX_NON_CACHEABLE"
    if "fst ?u = 0" "flags AND BASE_MEM_UNCACHED_GPU \<noteq> 0"
  proof -
    define x where "x = update_share_flags co flags (update_access_flags flags r)"
    have c: "x AND KBASE_REG_GPU_CACHED = 0" using cached that(2) reg_cached unfolding x_def by blast
    have "snd ?u = update_other_flags flags (update_memattr_flags co x)"
      using that by (auto simp: kbase_update_region_flags_def Let_def x_def split: if_splits)
    moreover have "update_other_flags flags (update_memattr_flags co x) AND (KBASE_REG_SHARE_IN OR KBASE_REG_SHARE_BOTH) = 0"
      by (rule bit_word_eqI) (use c in \<open>auto simp: bit_and_iff bit_or_iff bit_not_iff update_other_flags_def update_memattr_flags_def flag_bits\<close>)
    moreover have "update_other_flags flags (update_memattr_flags co x) AND KBASE_REG_MEMATTR_INDEX AS_MEMATTR_INDEX_NON_CACHEABLE
        = KBASE_REG_MEMATTR_INDEX AS_MEMATTR_INDEX_NON_CACHEABLE"
      by (rule bit_word_eqI) (use c in \<open>auto simp: bit_and_iff bit_or_iff bit_not_iff update_other_flags_def update_memattr_flags_def bit_set_if\<close>)
    ultimately show ?thesis by simp
  qed
  moreover
  have "snd ?u AND c = r AND c" if "\<And>n. bit c n \<Longrightarrow> n \<in> {0, 11, 12, 26}" for c
    by (rule bit_word_eqI) (use that keep in \<open>auto simp: bit_and_iff\<close>)
  from this [of KBASE_REG_FREE] this [of KBASE_REG_VA_FREED] this [of KBASE_REG_ZONE_MASK]
  have "snd ?u AND KBASE_REG_FREE = r AND KBASE_REG_FREE" "snd ?u AND KBASE_REG_VA_FREED = r AND KBASE_REG_VA_FREED"
    "snd ?u AND KBASE_REG_ZONE_MASK = r AND KBASE_REG_ZONE_MASK"
    using zone_mask_bits by (auto simp: flag_bits)
  ultimately show ?thesis using e by (auto simp: case_prod_beta)
qed

lemma kbase_update_region_flags_result_witness:
  "case kbase_update_region_flags COHERENCY_NONE True 0x20000F 1 of (e, r') \<Rightarrow>
     e = 0 \<and> r' AND KBASE_REG_FREE = 1 \<and> r' AND (KBASE_REG_SHARE_IN OR KBASE_REG_SHARE_BOTH) = 0"
proof -
  have "(1 :: u64) AND KBASE_REG_GPU_CACHED = 0" and "1 AND KBASE_REG_FREE = 1" and "0x20000F AND BASE_MEM_UNCACHED_GPU \<noteq> 0"
    by code_simp+
  then show ?thesis
    using kbase_update_region_flags_result [where r = 1 and co = COHERENCY_NONE and nc = True and flags = "0x20000F"] by (auto split: prod.splits)
qed

text \<open>
  C33. A request whose sizes \<open>kbase_check_alloc_sizes\<close> accepts has at least one page and at most 8 GB;
  executable memory is within the range of the program counter; memory that must stay in one 4 GB
  page is at most that large; and memory that grows has an extent, which for tiler memory is a power
  of two of at most 2 MB and no smaller than what is committed.
\<close>

theorem kbase_check_alloc_sizes_bounds:
  assumes "kbase_check_alloc_sizes pc flags va commit ext = 0" and "12 \<le> pc" and "pc < 64"
  shows "1 \<le> va \<and> unat va \<le> 2 ^ 21 \<and>
    (flags AND BASE_MEM_PROT_GPU_EX \<noteq> 0 \<longrightarrow> unat va * 4096 \<le> 2 ^ pc) \<and>
    (flags AND BASE_MEM_GPU_VA_SAME_4GB_PAGE \<noteq> 0 \<longrightarrow> unat va \<le> 2 ^ 20) \<and>
    (flags AND BASE_MEM_TILER_ALIGN_TOP \<noteq> 0 \<longrightarrow> (\<exists>k\<le>9. ext = 2 ^ k \<and> commit \<le> ext)) \<and>
    (ext = 0 \<longleftrightarrow> flags AND (BASE_MEM_GROW_ON_GPF OR BASE_MEM_TILER_ALIGN_TOP) = 0)"
proof -
  have z: "va \<noteq> 0" and m: "va \<le> KBASE_MEM_ALLOC_MAX_SIZE"
    and x: "flags AND BASE_MEM_PROT_GPU_EX \<noteq> 0 \<Longrightarrow> va \<le> drop_bit 12 (push_bit pc 1)"
    and f: "flags AND BASE_MEM_GPU_VA_SAME_4GB_PAGE \<noteq> 0 \<Longrightarrow> va \<le> BASE_MEM_PFN_MASK_4GB + 1"
    and t: "flags AND BASE_MEM_TILER_ALIGN_TOP \<noteq> 0 \<Longrightarrow>
      ext \<le> BASE_MEM_TILER_ALIGN_TOP_EXTENT_MAX_PAGES \<and> is_power_of_2 ext \<and> commit \<le> ext"
    and g: "ext = 0 \<longleftrightarrow> flags AND (BASE_MEM_GROW_ON_GPF OR BASE_MEM_TILER_ALIGN_TOP) = 0"
    using assms(1) unfolding kbase_check_alloc_sizes_def Let_def
    by (simp_all add: not_less split: if_splits del: push_bit_of_1) blast+
  have "1 \<le> va" using z by (simp add: word_le_nat_alt unat_gt_0 Suc_le_eq)
  moreover have "unat va \<le> 2 ^ 21" using m by (simp add: KBASE_MEM_ALLOC_MAX_SIZE_def word_le_nat_alt)
  moreover have "unat va * 4096 \<le> 2 ^ pc" if "flags AND BASE_MEM_PROT_GPU_EX \<noteq> 0"
  proof -
    have "unat (drop_bit 12 (push_bit pc 1) :: u64) = 2 ^ pc div 2 ^ 12"
      using unat_power_lower64 [OF assms(3)] by (simp add: unat_drop_bit_eq drop_bit_eq_div [where 'a = nat] push_bit_eq_mult)
    then have "unat va \<le> 2 ^ pc div 2 ^ 12" using x [OF that] by (simp add: word_le_nat_alt)
    then have "unat va * 2 ^ 12 \<le> 2 ^ pc" by (simp add: less_eq_div_iff_mult_less_eq)
    then show ?thesis by simp
  qed
  moreover have "unat va \<le> 2 ^ 20" if "flags AND BASE_MEM_GPU_VA_SAME_4GB_PAGE \<noteq> 0"
    using f [OF that] by (simp add: BASE_MEM_PFN_MASK_4GB_def word_le_nat_alt)
  moreover have "\<exists>k\<le>9. ext = 2 ^ k \<and> commit \<le> ext" if "flags AND BASE_MEM_TILER_ALIGN_TOP \<noteq> 0"
    using t [OF that] power_of_2_up_to by blast
  ultimately show ?thesis using g by blast
qed

lemma kbase_check_alloc_sizes_bounds_witness:
  "unat (0x200 :: u64) \<le> 2 ^ 21 \<and> (\<exists>k\<le>9. (0x100 :: u64) = 2 ^ k \<and> 0x80 \<le> (0x100 :: u64)) \<and>
   kbase_check_alloc_sizes 24 0x10000F 0x200 0x80 0x101 = -22"
proof -
  have "kbase_check_alloc_sizes 24 0x10000F 0x200 0x80 0x100 = 0" and "0x10000F AND BASE_MEM_TILER_ALIGN_TOP \<noteq> 0"
    and "kbase_check_alloc_sizes 24 0x10000F 0x200 0x80 0x101 = -22"
    by code_simp+
  then show ?thesis using kbase_check_alloc_sizes_bounds [of 24 "0x10000F" "0x200" "0x80" "0x100"] by simp
qed

text \<open>
  \<open>kbase_check_alloc_flags\<close> looks at the low 32 bits of the flags only, although they have 64: the
  complement of the mask of known flags has 32 bits, so that the unknown flags 32 to 63 are let through.
\<close>

theorem kbase_check_alloc_flags_low:
  "kbase_check_alloc_flags (ucast (ucast flags :: u32)) = kbase_check_alloc_flags flags \<and>
   (kbase_check_alloc_flags 0xF \<and> kbase_check_alloc_flags 0xFFFFFFFF0000000F)"
proof -
  have low0: "flags AND 5 = 0" if "(ucast (ucast flags :: u32) :: u64) = 0"
    using and_low_word [of 5 flags] unfolding that by simp
  have "kbase_check_alloc_flags (ucast (ucast flags :: u32)) = kbase_check_alloc_flags flags"
    unfolding kbase_check_alloc_flags_def unknown_flags_val low_consts
    using low0 by (auto simp add: and_low_word)
  moreover have "kbase_check_alloc_flags 0xF" "kbase_check_alloc_flags 0xFFFFFFFF0000000F" by code_simp+
  ultimately show ?thesis by blast
qed
end
