(* ===== verification/KB_MemPool.thy ===== *)
theory KB_MemPool
  imports KB_MmuMode GR_Context "HOL-Library.Multiset"
begin

text \<open>
  The pools of free pages of the driver (\<open>mali_kbase_mem_pool.c\<close>, \<open>mali_kbase_mem_pool_group.c\<close>,
  and the tagged addresses of \<open>mali_kbase_mem_lowlevel.h\<close>). A pool of a context passes requests
  and surplus pages on to a pool of the device. What is
  shown of them is in \<open>KB_PoolSteps\<close> and \<open>KB_PoolRuns\<close>.
\<close>

unbundle bit_operations_syntax

section \<open>Tagged addresses\<close>

definition HUGE_PAGE :: u64 where "HUGE_PAGE = push_bit 0 1"
definition HUGE_HEAD :: u64 where "HUGE_HEAD = push_bit 1 1"

definition as_tagged :: "u64 \<Rightarrow> u64" where
  "as_tagged phys = phys AND PAGE_MASK"

definition as_tagged_tag :: "u64 \<Rightarrow> u64 \<Rightarrow> u64" where
  "as_tagged_tag phys tag = (phys AND PAGE_MASK) OR (tag AND NOT PAGE_MASK)"

definition is_huge :: "u64 \<Rightarrow> bool" where
  "is_huge t \<longleftrightarrow> t AND HUGE_PAGE \<noteq> 0"

definition is_huge_head :: "u64 \<Rightarrow> bool" where
  "is_huge_head t \<longleftrightarrow> t AND (HUGE_HEAD OR HUGE_PAGE) = (HUGE_HEAD OR HUGE_PAGE)"

section \<open>State\<close>

text \<open>
  A page is named by its physical address. \<open>cur_size\<close> and the list are kept apart, as in the
  code. A pool is named by an identifier, which stands for its address; \<open>pool_next\<close> is
  \<open>next_pool\<close>, \<open>None\<close> for NULL. The functions are atomic under the lock of the pool, so the
  lock is not modelled.
\<close>

record 'i mem_pool =
  page_list :: "u64 list"
  pool_size :: nat
  max_size :: nat
  pool_order :: nat
  pool_group_id :: int
  pool_next :: "'i option"
  dying :: bool
  dont_reclaim :: bool

text \<open>
  The memory behind the pools. The next results of \<open>mgm_alloc_page\<close> and \<open>dma_map_page\<close>
  are given: no page, a page that cannot be mapped for the device, or a page; when they are used
  up there is no page. \<open>taken\<close> and \<open>released\<close> are the pages, with their order, that the kernel
  has given and that were given back; \<open>synced\<close> are the pages synchronised for the device.
\<close>

datatype page_answer = No_Page | Unmappable_Page u64 | Fresh_Page u64

record 'i mem_state =
  pools :: "'i \<Rightarrow> 'i mem_pool"
  page_mem :: pmem
  answers :: "page_answer list"
  taken :: "(u64 \<times> nat) list"
  released :: "(u64 \<times> nat) list"
  synced :: "(u64 \<times> nat) list"

definition upd_pool :: "'i \<Rightarrow> ('i mem_pool \<Rightarrow> 'i mem_pool) \<Rightarrow> 'i mem_state \<Rightarrow> 'i mem_state" where
  "upd_pool i f s = s\<lparr> pools := (pools s)(i := f (pools s i)) \<rparr>"

section \<open>One pool\<close>

definition kbase_mem_pool_capacity :: "'i \<Rightarrow> 'i mem_state \<Rightarrow> nat" where
  "kbase_mem_pool_capacity i s = max_size (pools s i) - pool_size (pools s i)"

definition kbase_mem_pool_is_full :: "'i \<Rightarrow> 'i mem_state \<Rightarrow> bool" where
  "kbase_mem_pool_is_full i s \<longleftrightarrow> pool_size (pools s i) \<ge> max_size (pools s i)"

definition kbase_mem_pool_is_empty :: "'i \<Rightarrow> 'i mem_state \<Rightarrow> bool" where
  "kbase_mem_pool_is_empty i s \<longleftrightarrow> pool_size (pools s i) = 0"

definition kbase_mem_pool_add_locked :: "'i \<Rightarrow> u64 \<Rightarrow> 'i mem_state \<Rightarrow> 'i mem_state" where
  "kbase_mem_pool_add_locked i p =
     upd_pool i (\<lambda>q. q\<lparr> page_list := p # page_list q, pool_size := pool_size q + 1 \<rparr>)"

definition kbase_mem_pool_add :: "'i \<Rightarrow> u64 \<Rightarrow> 'i mem_state \<Rightarrow> 'i mem_state" where
  "kbase_mem_pool_add i p s = kbase_mem_pool_add_locked i p s"

definition kbase_mem_pool_add_list_locked :: "'i \<Rightarrow> u64 list \<Rightarrow> nat \<Rightarrow> 'i mem_state \<Rightarrow> 'i mem_state" where
  "kbase_mem_pool_add_list_locked i ps nr_pages =
     upd_pool i (\<lambda>q. q\<lparr> page_list := ps @ page_list q, pool_size := pool_size q + nr_pages \<rparr>)"

definition kbase_mem_pool_add_list :: "'i \<Rightarrow> u64 list \<Rightarrow> nat \<Rightarrow> 'i mem_state \<Rightarrow> 'i mem_state" where
  "kbase_mem_pool_add_list i ps nr_pages s = kbase_mem_pool_add_list_locked i ps nr_pages s"

text \<open>
  \<open>list_first_entry\<close> of an empty list is no page; \<open>hd []\<close> is unspecified as well. It is never
  evaluated, since the size is the length of the list in every state that can be reached.
\<close>

definition kbase_mem_pool_remove_locked :: "'i \<Rightarrow> 'i mem_state \<Rightarrow> u64 option \<times> 'i mem_state" where
  "kbase_mem_pool_remove_locked i s =
     (if kbase_mem_pool_is_empty i s then (None, s)
      else (Some (hd (page_list (pools s i))),
            upd_pool i (\<lambda>q. q\<lparr> page_list := tl (page_list q), pool_size := pool_size q - 1 \<rparr>) s))"

definition kbase_mem_pool_remove :: "'i \<Rightarrow> 'i mem_state \<Rightarrow> u64 option \<times> 'i mem_state" where
  "kbase_mem_pool_remove i s = kbase_mem_pool_remove_locked i s"

definition kbase_mem_pool_sync_page :: "'i \<Rightarrow> u64 \<Rightarrow> 'i mem_state \<Rightarrow> 'i mem_state" where
  "kbase_mem_pool_sync_page i p s = s\<lparr> synced := (p, pool_order (pools s i)) # synced s \<rparr>"

definition clear_page :: "u64 \<Rightarrow> nat \<Rightarrow> pmem \<Rightarrow> pmem" where
  "clear_page p order pm =
     pm\<lparr> frames := fold (\<lambda>i f. f(p + of_nat (PAGE_SIZE * i) := (\<lambda>j. 0))) [0..<2 ^ order] (frames pm) \<rparr>"

definition kbase_mem_pool_zero_page :: "'i \<Rightarrow> u64 \<Rightarrow> 'i mem_state \<Rightarrow> 'i mem_state" where
  "kbase_mem_pool_zero_page i p s =
     kbase_mem_pool_sync_page i p
       (s\<lparr> page_mem := clear_page p (pool_order (pools s i)) (page_mem s) \<rparr>)"

definition kbase_mem_pool_spill :: "'i \<Rightarrow> u64 \<Rightarrow> 'i mem_state \<Rightarrow> 'i mem_state" where
  "kbase_mem_pool_spill next_pool p s = kbase_mem_pool_add next_pool p (kbase_mem_pool_zero_page next_pool p s)"

text \<open>
  A page from the kernel is cleared (\<open>__GFP_ZERO\<close>). A page that cannot be mapped is given
  back. The DMA address of a page is its physical address (the code warns if it is not).
\<close>

definition take_page :: "u64 \<Rightarrow> nat \<Rightarrow> 'i mem_state \<Rightarrow> 'i mem_state" where
  "take_page p order s =
     s\<lparr> taken := (p, order) # taken s, page_mem := clear_page p order (page_mem s) \<rparr>"

definition kbase_mem_alloc_page :: "'i \<Rightarrow> 'i mem_state \<Rightarrow> u64 option \<times> 'i mem_state" where
  "kbase_mem_alloc_page i s =
     (let order = pool_order (pools s i) in
      case answers s of
        [] \<Rightarrow> (None, s)
      | No_Page # as \<Rightarrow> (None, s\<lparr> answers := as \<rparr>)
      | Unmappable_Page p # as \<Rightarrow>
          (let s1 = take_page p order (s\<lparr> answers := as \<rparr>)
           in (None, s1\<lparr> released := (p, order) # released s1 \<rparr>))
      | Fresh_Page p # as \<Rightarrow> (Some p, take_page p order (s\<lparr> answers := as \<rparr>)))"

definition kbase_mem_pool_free_page :: "'i \<Rightarrow> u64 \<Rightarrow> 'i mem_state \<Rightarrow> 'i mem_state" where
  "kbase_mem_pool_free_page i p s = s\<lparr> released := (p, pool_order (pools s i)) # released s \<rparr>"

fun kbase_mem_pool_shrink_locked :: "'i \<Rightarrow> nat \<Rightarrow> 'i mem_state \<Rightarrow> nat \<times> 'i mem_state" where
  "kbase_mem_pool_shrink_locked i 0 s = (0, s)"
| "kbase_mem_pool_shrink_locked i (Suc n) s =
     (if kbase_mem_pool_is_empty i s then (0, s)
      else let (p, s1) = kbase_mem_pool_remove_locked i s;
               s2 = kbase_mem_pool_free_page i (the p) s1;
               (k, s3) = kbase_mem_pool_shrink_locked i n s2
           in (k + 1, s3))"

definition kbase_mem_pool_shrink :: "'i \<Rightarrow> nat \<Rightarrow> 'i mem_state \<Rightarrow> nat \<times> 'i mem_state" where
  "kbase_mem_pool_shrink i nr_to_shrink s = kbase_mem_pool_shrink_locked i nr_to_shrink s"

definition set_dont_reclaim :: "'i \<Rightarrow> bool \<Rightarrow> 'i mem_state \<Rightarrow> 'i mem_state" where
  "set_dont_reclaim i b = upd_pool i (\<lambda>q. q\<lparr> dont_reclaim := b \<rparr>)"

fun grow_loop :: "'i \<Rightarrow> nat \<Rightarrow> nat \<Rightarrow> 'i mem_state \<Rightarrow> int \<times> 'i mem_state" where
  "grow_loop i nr_to_grow 0 s = (0, set_dont_reclaim i False s)"
| "grow_loop i nr_to_grow (Suc n) s =
     (if dying (pools s i)
      then (-12, snd (kbase_mem_pool_shrink_locked i nr_to_grow (set_dont_reclaim i False s)))
      else case kbase_mem_alloc_page i s of
             (None, s1) \<Rightarrow> (-12, set_dont_reclaim i False s1)
           | (Some p, s1) \<Rightarrow> grow_loop i nr_to_grow n (kbase_mem_pool_add_locked i p s1))"

definition kbase_mem_pool_grow :: "'i \<Rightarrow> nat \<Rightarrow> 'i mem_state \<Rightarrow> int \<times> 'i mem_state" where
  "kbase_mem_pool_grow i nr_to_grow s = grow_loop i nr_to_grow nr_to_grow (set_dont_reclaim i True s)"

definition kbase_mem_pool_trim :: "'i \<Rightarrow> nat \<Rightarrow> 'i mem_state \<Rightarrow> 'i mem_state" where
  "kbase_mem_pool_trim i new_size s =
     (let cur_size = pool_size (pools s i);
          new_size = (if new_size > max_size (pools s i) then max_size (pools s i) else new_size)
      in if new_size < cur_size then snd (kbase_mem_pool_shrink i (cur_size - new_size) s)
         else if new_size > cur_size then snd (kbase_mem_pool_grow i (new_size - cur_size) s)
         else s)"

definition kbase_mem_pool_set_max_size :: "'i \<Rightarrow> nat \<Rightarrow> 'i mem_state \<Rightarrow> 'i mem_state" where
  "kbase_mem_pool_set_max_size i new_max s =
     (let s1 = upd_pool i (\<lambda>q. q\<lparr> max_size := new_max \<rparr>) s;
          cur_size = pool_size (pools s1 i)
      in if new_max < cur_size then snd (kbase_mem_pool_shrink_locked i (cur_size - new_max) s1) else s1)"

definition kbase_mem_pool_reclaim_count_objects :: "'i \<Rightarrow> 'i mem_state \<Rightarrow> nat" where
  "kbase_mem_pool_reclaim_count_objects i s =
     (if dont_reclaim (pools s i) \<and> \<not> dying (pools s i) then 0 else pool_size (pools s i))"

definition kbase_mem_pool_reclaim_scan_objects :: "'i \<Rightarrow> nat \<Rightarrow> 'i mem_state \<Rightarrow> nat \<times> 'i mem_state" where
  "kbase_mem_pool_reclaim_scan_objects i nr_to_scan s =
     (if dont_reclaim (pools s i) \<and> \<not> dying (pools s i) then (0, s)
      else kbase_mem_pool_shrink_locked i nr_to_scan s)"

text \<open>\<open>dont_reclaim\<close> is not set: it keeps what the memory of the pool holds.\<close>

definition kbase_mem_pool_init ::
  "'i \<Rightarrow> nat \<Rightarrow> nat \<Rightarrow> int \<Rightarrow> 'i option \<Rightarrow> 'i mem_state \<Rightarrow> int \<times> 'i mem_state" where
  "kbase_mem_pool_init i cfg_max order group_id next_pool s =
     (if group_id < 0 \<or> group_id \<ge> 16 then (-22, s)
      else (0, upd_pool i (\<lambda>q. \<lparr> page_list = [], pool_size = 0, max_size = cfg_max, pool_order = order,
                                 pool_group_id = group_id, pool_next = next_pool, dying = False,
                                 dont_reclaim = dont_reclaim q \<rparr>) s))"

definition kbase_mem_pool_mark_dying :: "'i \<Rightarrow> 'i mem_state \<Rightarrow> 'i mem_state" where
  "kbase_mem_pool_mark_dying i = upd_pool i (\<lambda>q. q\<lparr> dying := True \<rparr>)"

text \<open>Moves pages from the pool to the front of a local list.\<close>

fun remove_pages :: "'i \<Rightarrow> nat \<Rightarrow> u64 list \<Rightarrow> 'i mem_state \<Rightarrow> u64 list \<times> 'i mem_state" where
  "remove_pages i 0 ps s = (ps, s)"
| "remove_pages i (Suc n) ps s =
     (let (p, s1) = kbase_mem_pool_remove_locked i s in remove_pages i n (the p # ps) s1)"

definition kbase_mem_pool_term :: "'i \<Rightarrow> 'i mem_state \<Rightarrow> 'i mem_state" where
  "kbase_mem_pool_term i s =
     (let s1 = upd_pool i (\<lambda>q. q\<lparr> max_size := 0 \<rparr>) s;
          nr_to_spill = (case pool_next (pools s1 i) of
                           None \<Rightarrow> 0
                         | Some nx \<Rightarrow> if kbase_mem_pool_is_full nx s1 then 0
                                      else min (pool_size (pools s1 i)) (kbase_mem_pool_capacity nx s1));
          (spill_list, s2) = remove_pages i nr_to_spill [] s1;
          (free_list, s3) = remove_pages i (pool_size (pools s2 i)) [] s2;
          s4 = (case pool_next (pools s1 i) of
                  None \<Rightarrow> s3
                | Some nx \<Rightarrow>
                    if nr_to_spill = 0 then s3
                    else kbase_mem_pool_add_list nx spill_list nr_to_spill
                           (fold (kbase_mem_pool_zero_page i) spill_list s3))
      in fold (kbase_mem_pool_free_page i) free_list s4)"

section \<open>Single pages\<close>

text \<open>The search along the pools does not return if they form a ring.\<close>

partial_function (option) kbase_mem_pool_alloc :: "'i \<Rightarrow> 'i mem_state \<Rightarrow> (u64 option \<times> 'i mem_state) option" where
  "kbase_mem_pool_alloc i s =
     (case kbase_mem_pool_remove i s of
        (Some p, s1) \<Rightarrow> Some (Some p, s1)
      | (None, s1) \<Rightarrow>
          (case pool_next (pools s1 i) of
             None \<Rightarrow> Some (None, s1)
           | Some nx \<Rightarrow> kbase_mem_pool_alloc nx s1))"

definition kbase_mem_pool_alloc_locked :: "'i \<Rightarrow> 'i mem_state \<Rightarrow> u64 option \<times> 'i mem_state" where
  "kbase_mem_pool_alloc_locked i s = kbase_mem_pool_remove_locked i s"

definition kbase_mem_pool_free :: "'i \<Rightarrow> u64 \<Rightarrow> bool \<Rightarrow> 'i mem_state \<Rightarrow> 'i mem_state" where
  "kbase_mem_pool_free i p dirty s =
     (if \<not> kbase_mem_pool_is_full i s
      then kbase_mem_pool_add i p (if dirty then kbase_mem_pool_sync_page i p s else s)
      else case pool_next (pools s i) of
             Some nx \<Rightarrow> if \<not> kbase_mem_pool_is_full nx s then kbase_mem_pool_spill nx p s
                        else kbase_mem_pool_free_page i p s
           | None \<Rightarrow> kbase_mem_pool_free_page i p s)"

definition kbase_mem_pool_free_locked :: "'i \<Rightarrow> u64 \<Rightarrow> bool \<Rightarrow> 'i mem_state \<Rightarrow> 'i mem_state" where
  "kbase_mem_pool_free_locked i p dirty s =
     (if \<not> kbase_mem_pool_is_full i s
      then kbase_mem_pool_add_locked i p (if dirty then kbase_mem_pool_sync_page i p s else s)
      else kbase_mem_pool_free_page i p s)"

section \<open>Arrays of pages\<close>

text \<open>
  An array of tagged addresses is a list with the entries from the pointer on. A page of a pool
  with an order greater than 0 fills \<open>2 ^ order\<close> entries, the first with the tag of a head.
\<close>

definition page_entries :: "nat \<Rightarrow> u64 \<Rightarrow> u64 list" where
  "page_entries order p =
     (if order \<noteq> 0
      then as_tagged_tag p (HUGE_HEAD OR HUGE_PAGE) #
           map (\<lambda>j. as_tagged_tag (p + of_nat (PAGE_SIZE * j)) HUGE_PAGE) [1..<2 ^ order]
      else [as_tagged p])"

fun add_array_loop ::
  "'i \<Rightarrow> bool \<Rightarrow> bool \<Rightarrow> u64 list \<Rightarrow> u64 list \<Rightarrow> 'i mem_state \<Rightarrow> u64 list \<times> u64 list \<times> 'i mem_state" where
  "add_array_loop i zero sync [] new_list s = ([], new_list, s)"
| "add_array_loop i zero sync (e # es) new_list s =
     (if as_phys_addr_t e = 0
      then let (es', l, s') = add_array_loop i zero sync es new_list s in (e # es', l, s')
      else if is_huge_head e \<or> \<not> is_huge e
      then let p = as_phys_addr_t e;
               s1 = (if zero then kbase_mem_pool_zero_page i p s
                     else if sync then kbase_mem_pool_sync_page i p s else s);
               (es', l, s') = add_array_loop i zero sync es (p # new_list) s1
           in (as_tagged 0 # es', l, s')
      else let (es', l, s') = add_array_loop i zero sync es new_list s in (as_tagged 0 # es', l, s'))"

definition kbase_mem_pool_add_array_locked ::
  "'i \<Rightarrow> nat \<Rightarrow> u64 list \<Rightarrow> bool \<Rightarrow> bool \<Rightarrow> 'i mem_state \<Rightarrow> u64 list \<times> 'i mem_state" where
  "kbase_mem_pool_add_array_locked i nr_pages pages zero sync s =
     (if nr_pages = 0 then (pages, s)
      else let (es, new_list, s1) = add_array_loop i zero sync (take nr_pages pages) [] s
           in (es @ drop nr_pages pages, kbase_mem_pool_add_list_locked i new_list (length new_list) s1))"

definition kbase_mem_pool_add_array ::
  "'i \<Rightarrow> nat \<Rightarrow> u64 list \<Rightarrow> bool \<Rightarrow> bool \<Rightarrow> 'i mem_state \<Rightarrow> u64 list \<times> 'i mem_state" where
  "kbase_mem_pool_add_array i nr_pages pages zero sync s =
     (if nr_pages = 0 then (pages, s)
      else let (es, new_list, s1) = add_array_loop i zero sync (take nr_pages pages) [] s
           in (es @ drop nr_pages pages, kbase_mem_pool_add_list i new_list (length new_list) s1))"

text \<open>The loop that gives the remaining pages back to the kernel.\<close>

fun free_rest :: "'i \<Rightarrow> u64 list \<Rightarrow> 'i mem_state \<Rightarrow> u64 list \<times> 'i mem_state" where
  "free_rest i [] s = ([], s)"
| "free_rest i (e # es) s =
     (if as_phys_addr_t e = 0 then let (es', s') = free_rest i es s in (e # es', s')
      else if is_huge e \<and> \<not> is_huge_head e
      then let (es', s') = free_rest i es s in (as_tagged 0 # es', s')
      else let (es', s') = free_rest i es (kbase_mem_pool_free_page i (as_phys_addr_t e) s)
           in (as_tagged 0 # es', s'))"

text \<open>The pages that find room in the pool and the next one, the new array, and their number.\<close>

definition add_to_pools ::
  "'i \<Rightarrow> nat \<Rightarrow> u64 list \<Rightarrow> bool \<Rightarrow> 'i mem_state \<Rightarrow> nat \<times> u64 list \<times> 'i mem_state" where
  "add_to_pools i nr_pages pages dirty s =
     (let n1 = min nr_pages (kbase_mem_pool_capacity i s);
          (pages1, s1) = kbase_mem_pool_add_array i n1 pages False dirty s
      in case pool_next (pools s i) of
           None \<Rightarrow> (n1, pages1, s1)
         | Some nx \<Rightarrow>
             if n1 = nr_pages then (n1, pages1, s1)
             else let n2 = min (nr_pages - n1) (kbase_mem_pool_capacity nx s1);
                      (pages2, s2) = kbase_mem_pool_add_array nx n2 (drop n1 pages1) True dirty s1
                  in (n1 + n2, take n1 pages1 @ pages2, s2))"

definition kbase_mem_pool_free_pages ::
  "'i \<Rightarrow> nat \<Rightarrow> u64 list \<Rightarrow> bool \<Rightarrow> bool \<Rightarrow> 'i mem_state \<Rightarrow> u64 list \<times> 'i mem_state" where
  "kbase_mem_pool_free_pages i nr_pages pages dirty reclaimed s =
     (let (k, pages1, s1) = (if reclaimed then (0, pages, s) else add_to_pools i nr_pages pages dirty s);
          (es, s3) = free_rest i (take (nr_pages - k) (drop k pages1)) s1
      in (take k pages1 @ es @ drop nr_pages pages1, s3))"

text \<open>The locked variant adds all pages to the pool, whatever its capacity.\<close>

definition kbase_mem_pool_free_pages_locked ::
  "'i \<Rightarrow> nat \<Rightarrow> u64 list \<Rightarrow> bool \<Rightarrow> bool \<Rightarrow> 'i mem_state \<Rightarrow> u64 list \<times> 'i mem_state" where
  "kbase_mem_pool_free_pages_locked i nr_pages pages dirty reclaimed s =
     (let (k, pages1, s1) =
        (if reclaimed then (0, pages, s)
         else let n1 = min nr_pages (kbase_mem_pool_capacity i s);
                  (pages1, s1) = kbase_mem_pool_add_array_locked i nr_pages pages False dirty s
              in (n1, pages1, s1));
          (es, s3) = free_rest i (take (nr_pages - k) (drop k pages1)) s1
      in (take k pages1 @ es @ drop nr_pages pages1, s3))"

fun entries_from_pool :: "'i \<Rightarrow> nat \<Rightarrow> 'i mem_state \<Rightarrow> u64 list \<times> 'i mem_state" where
  "entries_from_pool i 0 s = ([], s)"
| "entries_from_pool i (Suc n) s =
     (let (p, s1) = kbase_mem_pool_remove_locked i s;
          (es, s2) = entries_from_pool i n s1
      in (page_entries (pool_order (pools s i)) (the p) @ es, s2))"

text \<open>Up to \<open>n\<close> pages from the kernel; the flag tells whether there were fewer.\<close>

fun entries_from_kernel :: "'i \<Rightarrow> nat \<Rightarrow> 'i mem_state \<Rightarrow> u64 list \<times> bool \<times> 'i mem_state" where
  "entries_from_kernel i 0 s = ([], False, s)"
| "entries_from_kernel i (Suc n) s =
     (case kbase_mem_alloc_page i s of
        (None, s1) \<Rightarrow> ([], True, s1)
      | (Some p, s1) \<Rightarrow>
          (let (es, failed, s2) = entries_from_kernel i n s1
           in (page_entries (pool_order (pools s i)) p @ es, failed, s2)))"

definition put_entries :: "nat \<Rightarrow> u64 list \<Rightarrow> u64 list \<Rightarrow> u64 list" where
  "put_entries k es pages = take k pages @ es @ drop (k + length es) pages"

text \<open>
  The two ways to get the entries from \<open>k\<close> on: from the kernel, or by a request to the next pool
  with the result \<open>(err, ps, s2)\<close>. If they fail, the first entries are given back.
\<close>

definition alloc_from_kernel ::
  "'i \<Rightarrow> nat \<Rightarrow> nat \<Rightarrow> u64 list \<Rightarrow> bool \<Rightarrow> 'i mem_state \<Rightarrow> int \<times> u64 list \<times> 'i mem_state" where
  "alloc_from_kernel i nr_4k_pages k pages partial_allowed s1 =
     (let (es, failed, s2) = entries_from_kernel i ((nr_4k_pages - k) div 2 ^ pool_order (pools s1 i)) s1;
          n = k + length es;
          pages1 = put_entries k es pages
      in if failed \<and> \<not> partial_allowed
         then (let (ps, s3) = kbase_mem_pool_free_pages i n pages1 False False s2 in (-12, ps, s3))
         else (int n, pages1, s2))"

fun alloc_via_next :: "'i \<Rightarrow> nat \<Rightarrow> u64 list \<Rightarrow> int \<times> u64 list \<times> 'i mem_state \<Rightarrow> int \<times> u64 list \<times> 'i mem_state" where
  "alloc_via_next i k pages (err, ps, s2) =
     (if err < 0
      then let (ps', s3) = kbase_mem_pool_free_pages i k (take k pages @ ps) False False s2 in (err, ps', s3)
      else (int k + err, take k pages @ ps, s2))"

partial_function (option) kbase_mem_pool_alloc_pages ::
  "'i \<Rightarrow> nat \<Rightarrow> u64 list \<Rightarrow> bool \<Rightarrow> 'i mem_state \<Rightarrow> (int \<times> u64 list \<times> 'i mem_state) option" where
  "kbase_mem_pool_alloc_pages i nr_4k_pages pages partial_allowed s =
     (let order = pool_order (pools s i);
          nr_pages_internal = nr_4k_pages div 2 ^ order
      in if nr_pages_internal * 2 ^ order \<noteq> nr_4k_pages then Some (-22, pages, s)
         else
          (let (es, s1) = entries_from_pool i (min nr_pages_internal (pool_size (pools s i))) s;
               k = length es;
               pages1 = put_entries 0 es pages
           in case pool_next (pools s1 i) of
                Some nx \<Rightarrow>
                  if k = nr_4k_pages then Some (int k, pages1, s1)
                  else Option.bind (kbase_mem_pool_alloc_pages nx (nr_4k_pages - k) (drop k pages1) partial_allowed s1)
                    (\<lambda>res. Some (alloc_via_next i k pages1 res))
              | None \<Rightarrow> Some (alloc_from_kernel i nr_4k_pages k pages1 partial_allowed s1)))"

definition kbase_mem_pool_alloc_pages_locked ::
  "'i \<Rightarrow> nat \<Rightarrow> u64 list \<Rightarrow> 'i mem_state \<Rightarrow> int \<times> u64 list \<times> 'i mem_state" where
  "kbase_mem_pool_alloc_pages_locked i nr_4k_pages pages s =
     (let order = pool_order (pools s i);
          nr_pages_internal = nr_4k_pages div 2 ^ order
      in if nr_pages_internal * 2 ^ order \<noteq> nr_4k_pages then (-22, pages, s)
         else if pool_size (pools s i) < nr_pages_internal then (-12, pages, s)
         else let (es, s1) = entries_from_pool i nr_pages_internal s
              in (int nr_4k_pages, put_entries 0 es pages, s1))"

section \<open>Groups of pools\<close>

text \<open>A pool for small and one for large pages for each of the 16 memory groups.\<close>

record 'i mem_pool_group =
  small :: "nat \<Rightarrow> 'i"
  large :: "nat \<Rightarrow> 'i"

definition kbase_mem_pool_group_config_set_max_size :: "nat \<Rightarrow> (nat \<Rightarrow> nat) \<times> (nat \<Rightarrow> nat)" where
  "kbase_mem_pool_group_config_set_max_size new_max = ((\<lambda>gid. new_max), (\<lambda>gid. drop_bit (9 - 0) new_max))"

text \<open>\<open>configs\<close> are the maximal sizes of the small and the large pools.\<close>

fun group_init_loop ::
  "'i mem_pool_group \<Rightarrow> (nat \<Rightarrow> nat) \<times> (nat \<Rightarrow> nat) \<Rightarrow> 'i mem_pool_group option \<Rightarrow> nat list \<Rightarrow>
   'i mem_state \<Rightarrow> int \<times> nat \<times> 'i mem_state" where
  "group_init_loop g configs next_pools [] s = (0, 16, s)"
| "group_init_loop g configs next_pools (gid # gids) s =
     (let (err, s1) = kbase_mem_pool_init (small g gid) (fst configs gid) 0 (int gid)
                        (map_option (\<lambda>np. small np gid) next_pools) s
      in if err \<noteq> 0 then (err, gid, s1)
         else let (err, s2) = kbase_mem_pool_init (large g gid) (snd configs gid) 9 (int gid)
                                (map_option (\<lambda>np. large np gid) next_pools) s1
              in if err \<noteq> 0 then (err, gid, kbase_mem_pool_term (small g gid) s2)
                 else group_init_loop g configs next_pools gids s2)"

definition kbase_mem_pool_group_init ::
  "'i mem_pool_group \<Rightarrow> (nat \<Rightarrow> nat) \<times> (nat \<Rightarrow> nat) \<Rightarrow> 'i mem_pool_group option \<Rightarrow>
   'i mem_state \<Rightarrow> int \<times> 'i mem_state" where
  "kbase_mem_pool_group_init g configs next_pools s =
     (let (err, gid, s1) = group_init_loop g configs next_pools [0..<16] s
      in if err \<noteq> 0
         then (err, fold (\<lambda>k s. kbase_mem_pool_term (large g k) (kbase_mem_pool_term (small g k) s))
                      (rev [0..<gid]) s1)
         else (err, s1))"

definition kbase_mem_pool_group_term :: "'i mem_pool_group \<Rightarrow> 'i mem_state \<Rightarrow> 'i mem_state" where
  "kbase_mem_pool_group_term g =
     fold (\<lambda>gid s. kbase_mem_pool_term (large g gid) (kbase_mem_pool_term (small g gid) s)) [0..<16]"

definition kbase_mem_pool_group_mark_dying :: "'i mem_pool_group \<Rightarrow> 'i mem_state \<Rightarrow> 'i mem_state" where
  "kbase_mem_pool_group_mark_dying g =
     fold (\<lambda>gid s. kbase_mem_pool_mark_dying (large g gid) (kbase_mem_pool_mark_dying (small g gid) s)) [0..<16]"

end
