(* ===== verification/KB_PoolSteps.thy ===== *)
theory KB_PoolSteps
  imports KB_MemPool
begin

text \<open>
  The specification of the operations on pools of pages (\<open>pool_step\<close>) and the proof that each
  meets it. The lemmas are composed with \<open>pool_step_trans\<close> and \<open>pool_step_frame\<close>, along the
  calls of the code.
\<close>

unbundle bit_operations_syntax

section \<open>What an operation may do\<close>

text \<open>
  The specification every operation meets: pages handed in (\<open>X\<close>) or taken from the kernel are
  handed out (\<open>Y\<close>), given back to the kernel or in a pool afterwards, each with its order; the
  sizes stay right; memory is only ever cleared; and, if \<open>d\<close> says that the pages handed in are
  clear, those in pools of the device and those handed out are clear again.
\<close>

definition pool_mset :: "'i mem_pool \<Rightarrow> (u64 \<times> nat) multiset" where
  "pool_mset q = image_mset (\<lambda>p. (p, pool_order q)) (mset (page_list q))"

definition pool_pages :: "'i::finite mem_state \<Rightarrow> (u64 \<times> nat) multiset" where
  "pool_pages s = (\<Sum>i\<in>UNIV. pool_mset (pools s i))"

definition good_page :: "u64 \<Rightarrow> bool" where
  "good_page p \<longleftrightarrow> page_aligned p \<and> p \<noteq> 0"

definition good_answer :: "page_answer \<Rightarrow> bool" where
  "good_answer a = (case a of No_Page \<Rightarrow> True | Unmappable_Page p \<Rightarrow> good_page p | Fresh_Page p \<Rightarrow> good_page p)"

definition pools_ok :: "'i mem_state \<Rightarrow> bool" where
  "pools_ok s \<longleftrightarrow>
     (\<forall>i. pool_size (pools s i) = length (page_list (pools s i))) \<and>
     (\<forall>i. \<forall>p \<in> set (page_list (pools s i)). good_page p) \<and>
     (\<forall>i j. pool_next (pools s i) = Some j \<longrightarrow> pool_order (pools s j) = pool_order (pools s i)) \<and>
     (\<forall>a \<in> set (answers s). good_answer a)"

definition same_shape :: "'i mem_state \<Rightarrow> 'i mem_state \<Rightarrow> bool" where
  "same_shape s s' \<longleftrightarrow>
     (\<forall>i. pool_order (pools s' i) = pool_order (pools s i) \<and> pool_next (pools s' i) = pool_next (pools s i))"

definition only_clears :: "'i mem_state \<Rightarrow> 'i mem_state \<Rightarrow> bool" where
  "only_clears s s' \<longleftrightarrow>
     (\<forall>a. frames (page_mem s') a = frames (page_mem s) a \<or> frames (page_mem s') a = (\<lambda>j. 0))"

definition is_clear :: "'i mem_state \<Rightarrow> u64 \<times> nat \<Rightarrow> bool" where
  "is_clear s pn \<longleftrightarrow> (\<forall>j < 2 ^ snd pn. frames (page_mem s) (fst pn + of_nat (PAGE_SIZE * j)) = (\<lambda>k. 0))"

definition device_clear :: "'i mem_state \<Rightarrow> bool" where
  "device_clear s \<longleftrightarrow>
     (\<forall>i. pool_next (pools s i) = None \<longrightarrow> (\<forall>p \<in> set (page_list (pools s i)). is_clear s (p, pool_order (pools s i))))"

definition balanced ::
  "'i::finite mem_state \<Rightarrow> (u64 \<times> nat) multiset \<Rightarrow> 'i mem_state \<Rightarrow> (u64 \<times> nat) multiset \<Rightarrow> bool" where
  "balanced s X s' Y \<longleftrightarrow>
     pool_pages s + mset (released s) + X + mset (taken s') = pool_pages s' + mset (released s') + Y + mset (taken s)"

definition pool_step ::
  "bool \<Rightarrow> 'i::finite mem_state \<Rightarrow> (u64 \<times> nat) multiset \<Rightarrow> 'i mem_state \<Rightarrow> (u64 \<times> nat) multiset \<Rightarrow> bool" where
  "pool_step d s X s' Y \<longleftrightarrow>
     same_shape s s' \<and> only_clears s s' \<and>
     (pools_ok s \<and> (\<forall>x \<in># X. good_page (fst x)) \<longrightarrow>
        pools_ok s' \<and> (\<forall>y \<in># Y. good_page (fst y)) \<and> balanced s X s' Y \<and>
        (device_clear s \<and> (d \<longrightarrow> (\<forall>x \<in># X. is_clear s x)) \<longrightarrow>
           device_clear s' \<and> (d \<longrightarrow> (\<forall>y \<in># Y. is_clear s' y))))"

lemma same_shape_refl [simp]: "same_shape s s"
  by (simp add: same_shape_def)

lemma same_shape_trans: "same_shape s t \<Longrightarrow> same_shape t u \<Longrightarrow> same_shape s u"
  by (simp add: same_shape_def)

lemma only_clears_refl [simp]: "only_clears s s"
  by (simp add: only_clears_def)

lemma only_clears_trans: "only_clears s t \<Longrightarrow> only_clears t u \<Longrightarrow> only_clears s u"
  unfolding only_clears_def by metis

lemma is_clear_mono: "only_clears s t \<Longrightarrow> is_clear s x \<Longrightarrow> is_clear t x"
  unfolding only_clears_def is_clear_def by metis

lemma balanced_trans:
  assumes "balanced s X t Y" and "balanced t Y u Z"
  shows "balanced s X u Z"
proof -
  have "(pool_pages s + mset (released s) + X + mset (taken u)) + (pool_pages t + mset (released t) + Y + mset (taken t))
      = (pool_pages u + mset (released u) + Z + mset (taken s)) + (pool_pages t + mset (released t) + Y + mset (taken t))"
    using arg_cong2 [where f = "(+)", OF assms [unfolded balanced_def]] by (simp add: ac_simps)
  then show ?thesis unfolding balanced_def by (simp only: add_right_cancel)
qed

lemma balanced_frame: "balanced s X t Y \<Longrightarrow> balanced s (X + W) t (Y + W)"
  unfolding balanced_def by (metis (no_types, lifting) add.assoc add.commute)

lemma pool_step_refl [simp]: "pool_step d s X s X"
  by (simp add: pool_step_def balanced_def)

lemma pool_stepI:
  assumes "same_shape s t" and "only_clears s t"
    and "pools_ok s \<Longrightarrow> \<forall>x \<in># X. good_page (fst x) \<Longrightarrow> pools_ok t"
    and "pools_ok s \<Longrightarrow> \<forall>x \<in># X. good_page (fst x) \<Longrightarrow> \<forall>y \<in># Y. good_page (fst y)"
    and "pools_ok s \<Longrightarrow> balanced s X t Y"
    and "pools_ok s \<Longrightarrow> device_clear s \<Longrightarrow> (d \<Longrightarrow> \<forall>x \<in># X. is_clear s x) \<Longrightarrow> device_clear t"
    and "pools_ok s \<Longrightarrow> device_clear s \<Longrightarrow> d \<Longrightarrow> \<forall>x \<in># X. is_clear s x \<Longrightarrow> \<forall>y \<in># Y. is_clear t y"
  shows "pool_step d s X t Y"
  unfolding pool_step_def using assms by blast

lemma pool_stepD:
  assumes "pool_step d s X t Y"
  shows "same_shape s t" and "only_clears s t"
    and "pools_ok s \<Longrightarrow> \<forall>x \<in># X. good_page (fst x) \<Longrightarrow> pools_ok t"
    and "pools_ok s \<Longrightarrow> \<forall>x \<in># X. good_page (fst x) \<Longrightarrow> \<forall>y \<in># Y. good_page (fst y)"
    and "pools_ok s \<Longrightarrow> \<forall>x \<in># X. good_page (fst x) \<Longrightarrow> balanced s X t Y"
    and "pools_ok s \<Longrightarrow> \<forall>x \<in># X. good_page (fst x) \<Longrightarrow> device_clear s \<Longrightarrow>
      (d \<Longrightarrow> \<forall>x \<in># X. is_clear s x) \<Longrightarrow> device_clear t"
    and "pools_ok s \<Longrightarrow> \<forall>x \<in># X. good_page (fst x) \<Longrightarrow> device_clear s \<Longrightarrow> d \<Longrightarrow>
      \<forall>x \<in># X. is_clear s x \<Longrightarrow> \<forall>y \<in># Y. is_clear t y"
  using assms unfolding pool_step_def by blast+

lemma pool_step_trans:
  assumes st: "pool_step d s X t Y" and tu: "pool_step d t Y u Z"
  shows "pool_step d s X u Z"
  unfolding pool_step_def
proof (intro conjI impI; (elim conjE)?)
  show "same_shape s u" by (rule same_shape_trans [OF pool_stepD(1) [OF st] pool_stepD(1) [OF tu]])
  show "only_clears s u" by (rule only_clears_trans [OF pool_stepD(2) [OF st] pool_stepD(2) [OF tu]])
next
  assume ok: "pools_ok s" "\<forall>x \<in># X. good_page (fst x)"
  note t = pool_stepD(3,4) [OF st ok]
  show "pools_ok u" by (rule pool_stepD(3) [OF tu t])
  show "\<forall>z \<in># Z. good_page (fst z)" by (rule pool_stepD(4) [OF tu t])
  show "balanced s X u Z" by (rule balanced_trans [OF pool_stepD(5) [OF st ok] pool_stepD(5) [OF tu t]])
  assume dc: "device_clear s" "d \<longrightarrow> (\<forall>x \<in># X. is_clear s x)"
  have dt: "device_clear t" by (rule pool_stepD(6) [OF st ok dc(1)]) (use dc(2) in blast)
  have cy: "\<forall>y \<in># Y. is_clear t y" if d by (rule pool_stepD(7) [OF st ok dc(1) that]) (use dc(2) that in blast)
  show "device_clear u" by (rule pool_stepD(6) [OF tu t dt cy])
  show "\<forall>z \<in># Z. is_clear u z" if d by (rule pool_stepD(7) [OF tu t dt that cy [OF that]])
qed

lemma pool_step_frame:
  assumes st: "pool_step d s X t Y"
  shows "pool_step d s (X + W) t (Y + W)"
  unfolding pool_step_def
proof (intro conjI impI; (elim conjE)?)
  show "same_shape s t" "only_clears s t" by (rule pool_stepD [OF st])+
next
  assume ok: "pools_ok s" "\<forall>x \<in># X + W. good_page (fst x)"
  then have okX: "\<forall>x \<in># X. good_page (fst x)" by simp
  note t = ok(1) okX
  show "pools_ok t" by (rule pool_stepD(3) [OF st t])
  show "\<forall>y \<in># Y + W. good_page (fst y)" using pool_stepD(4) [OF st t] ok(2) by auto
  show "balanced s (X + W) t (Y + W)" by (rule balanced_frame [OF pool_stepD(5) [OF st t]])
  assume dc: "device_clear s" "d \<longrightarrow> (\<forall>x \<in># X + W. is_clear s x)"
  show "device_clear t" by (rule pool_stepD(6) [OF st t dc(1)]) (use dc(2) in simp)
  assume d
  with dc(2) have c: "\<forall>x \<in># X. is_clear s x" "\<forall>x \<in># W. is_clear s x" by simp_all
  show "\<forall>y \<in># Y + W. is_clear t y"
    using pool_stepD(7) [OF st t dc(1) \<open>d\<close> c(1)] is_clear_mono [OF pool_stepD(2) [OF st]] c(2) by auto
qed

lemma pool_step_weaken:
  assumes "pool_step True s {#} t Y"
  shows "pool_step d s {#} t Y"
proof (rule pool_stepI)
  note st = pool_stepD [OF assms]
  show "same_shape s t" "only_clears s t" by (rule st)+
  show "pools_ok t" if "pools_ok s" by (rule st(3) [OF that]) simp
  show "\<forall>y \<in># Y. good_page (fst y)" if "pools_ok s" by (rule st(4) [OF that]) simp
  show "balanced s {#} t Y" if "pools_ok s" by (rule st(5) [OF that]) simp
  show "device_clear t" if "pools_ok s" "device_clear s" by (rule st(6) [OF that(1) _ that(2)]) simp_all
  show "\<forall>y \<in># Y. is_clear t y" if "pools_ok s" "device_clear s"
    by (rule st(7) [OF that(1) _ that(2)]) simp_all
qed

lemma pool_step_shape:
  "pool_step d s X t Y \<Longrightarrow> pool_next (pools t i) = pool_next (pools s i)"
  "pool_step d s X t Y \<Longrightarrow> pool_order (pools t i) = pool_order (pools s i)"
  by (simp_all add: pool_step_def same_shape_def)

section \<open>The operations meet it\<close>

lemma pools_upd [simp]: "pools (upd_pool i f s) j = (if j = i then f (pools s i) else pools s j)"
  by (simp add: upd_pool_def)

lemma upd_pool_other [simp]:
  "page_mem (upd_pool i f s) = page_mem s" "answers (upd_pool i f s) = answers s"
  "taken (upd_pool i f s) = taken s" "released (upd_pool i f s) = released s"
  "synced (upd_pool i f s) = synced s"
  by (simp_all add: upd_pool_def)

lemma is_clear_upd [simp]: "is_clear (upd_pool i f s) x = is_clear s x"
  by (simp add: is_clear_def)

lemma pool_pages_upd:
  "pool_pages (upd_pool i f s) + pool_mset (pools s i) = pool_pages s + pool_mset (f (pools s i))"
proof -
  have "pool_pages (upd_pool i f s) = pool_mset (f (pools s i)) + (\<Sum>j \<in> UNIV - {i}. pool_mset (pools s j))"
    by (simp add: pool_pages_def sum.remove [of UNIV i])
  moreover have "pool_pages s = pool_mset (pools s i) + (\<Sum>j \<in> UNIV - {i}. pool_mset (pools s j))"
    by (simp add: pool_pages_def sum.remove [of UNIV i])
  ultimately show ?thesis by (simp add: ac_simps)
qed

lemma upd_pool_pools_ok:
  assumes "pools_ok s" and "pool_size (f (pools s i)) = length (page_list (f (pools s i)))"
    and "\<forall>p \<in> set (page_list (f (pools s i))). good_page p"
    and "pool_order (f (pools s i)) = pool_order (pools s i)" "pool_next (f (pools s i)) = pool_next (pools s i)"
  shows "pools_ok (upd_pool i f s)"
  unfolding pools_ok_def
proof (intro conjI allI ballI impI)
  have ok: "pool_size (pools s j) = length (page_list (pools s j))" "\<forall>p \<in> set (page_list (pools s j)). good_page p"
    "pool_next (pools s j) = Some k \<Longrightarrow> pool_order (pools s k) = pool_order (pools s j)"
    "\<forall>a \<in> set (answers s). good_answer a" for j k using assms(1) by (auto simp: pools_ok_def)
  have same: "pool_order (pools (upd_pool i f s) j) = pool_order (pools s j)"
    "pool_next (pools (upd_pool i f s) j) = pool_next (pools s j)" for j
    by (cases "j = i"; simp add: assms(4,5))+
  show "pool_size (pools (upd_pool i f s) j) = length (page_list (pools (upd_pool i f s) j))" for j
    using ok(1) assms(2) by (cases "j = i") simp_all
  show "good_page p" if "p \<in> set (page_list (pools (upd_pool i f s) j))" for j p
    using that ok(2) assms(3) by (cases "j = i") auto
  show "pool_order (pools (upd_pool i f s) k) = pool_order (pools (upd_pool i f s) j)"
    if "pool_next (pools (upd_pool i f s) j) = Some k" for j k
    using that unfolding same by (rule ok(3))
  show "good_answer a" if "a \<in> set (answers (upd_pool i f s))" for a
    using that ok(4) by simp
qed

lemma upd_pool_device_clear:
  assumes "device_clear s"
    and "pool_order (f (pools s i)) = pool_order (pools s i)" "pool_next (f (pools s i)) = pool_next (pools s i)"
    and "pool_next (pools s i) = None \<Longrightarrow>
      \<forall>p \<in> set (page_list (f (pools s i))). is_clear s (p, pool_order (pools s i))"
  shows "device_clear (upd_pool i f s)"
  using assms unfolding device_clear_def by simp

lemma upd_pool_same:
  assumes "pool_order (f (pools s i)) = pool_order (pools s i)" "pool_next (f (pools s i)) = pool_next (pools s i)"
  shows "same_shape s (upd_pool i f s)" and "only_clears s (upd_pool i f s)"
  using assms by (simp_all add: same_shape_def only_clears_def)

lemma upd_pool_balanced:
  assumes "pool_mset (f (pools s i)) + Y = pool_mset (pools s i) + X"
  shows "balanced s X (upd_pool i f s) Y"
proof -
  have "(pool_pages (upd_pool i f s) + Y) + pool_mset (pools s i) =
      (pool_pages (upd_pool i f s) + pool_mset (pools s i)) + Y" by (simp only: ac_simps)
  also have "\<dots> = pool_pages s + (pool_mset (f (pools s i)) + Y)" by (simp only: pool_pages_upd add.assoc)
  also have "\<dots> = (pool_pages s + X) + pool_mset (pools s i)" unfolding assms by (simp only: ac_simps)
  finally have "pool_pages (upd_pool i f s) + Y = pool_pages s + X" by (simp only: add_right_cancel)
  then show ?thesis by (simp add: balanced_def ac_simps)
qed

text \<open>Changes of a pool that leave its pages alone.\<close>

lemma upd_pool_step:
  assumes "\<And>q. page_list (f q) = page_list q" "\<And>q. pool_size (f q) = pool_size q"
    "\<And>q. pool_order (f q) = pool_order q" "\<And>q. pool_next (f q) = pool_next q"
  shows "pool_step d s X (upd_pool i f s) X"
proof (rule pool_stepI)
  show "same_shape s (upd_pool i f s)" "only_clears s (upd_pool i f s)"
    by (rule upd_pool_same; simp add: assms)+
  show "pools_ok s \<Longrightarrow> pools_ok (upd_pool i f s)"
    by (rule upd_pool_pools_ok) (auto simp: assms pools_ok_def)
  show "balanced s X (upd_pool i f s) X"
    by (rule upd_pool_balanced) (simp add: pool_mset_def assms)
  show "device_clear s \<Longrightarrow> device_clear (upd_pool i f s)"
    by (rule upd_pool_device_clear) (auto simp: assms device_clear_def)
qed simp_all

lemma set_dont_reclaim_step: "pool_step d s X (set_dont_reclaim i b s) X"
  unfolding set_dont_reclaim_def by (rule upd_pool_step) simp_all

lemma mark_dying_step: "pool_step d s X (kbase_mem_pool_mark_dying i s) X"
  unfolding kbase_mem_pool_mark_dying_def by (rule upd_pool_step) simp_all

lemma set_max_step: "pool_step d s X (upd_pool i (\<lambda>q. q\<lparr> max_size := n \<rparr>) s) X"
  by (rule upd_pool_step) simp_all

lemma set_tlD: "x \<in> set (tl xs) \<Longrightarrow> x \<in> set xs"
  by (cases xs) simp_all

text \<open>Pages of the pool \<open>i\<close> as elements of the balance.\<close>

abbreviation pages_of :: "'i mem_state \<Rightarrow> 'i \<Rightarrow> u64 list \<Rightarrow> (u64 \<times> nat) multiset" where
  "pages_of s i ps \<equiv> image_mset (\<lambda>p. (p, pool_order (pools s i))) (mset ps)"

lemma add_list_locked_step:
  assumes "n = length ps" and "pool_next (pools s i) = None \<Longrightarrow> d"
  shows "pool_step d s (pages_of s i ps) (kbase_mem_pool_add_list_locked i ps n s) {#}"
proof -
  define f where "f = (\<lambda>q. q\<lparr> page_list := ps @ page_list q, pool_size := pool_size q + n \<rparr> :: 'a mem_pool)"
  have f: "page_list (f q) = ps @ page_list q" "pool_size (f q) = pool_size q + n"
    "pool_order (f q) = pool_order q" "pool_next (f q) = pool_next q" for q
    by (simp_all add: f_def)
  have eq: "kbase_mem_pool_add_list_locked i ps n s = upd_pool i f s"
    by (simp add: kbase_mem_pool_add_list_locked_def f_def)
  show ?thesis unfolding eq
  proof (rule pool_stepI)
    show "same_shape s (upd_pool i f s)" "only_clears s (upd_pool i f s)"
      by (rule upd_pool_same; simp add: f)+
    show "pools_ok (upd_pool i f s)" if "pools_ok s" "\<forall>x \<in># pages_of s i ps. good_page (fst x)"
      using that by (intro upd_pool_pools_ok) (auto simp: f assms(1) pools_ok_def)
    show "balanced s (pages_of s i ps) (upd_pool i f s) {#}"
      by (rule upd_pool_balanced) (simp add: pool_mset_def f)
    show "device_clear (upd_pool i f s)"
      if "device_clear s" and "d \<Longrightarrow> \<forall>x \<in># pages_of s i ps. is_clear s x"
      using that assms(2) by (intro upd_pool_device_clear) (auto simp: f device_clear_def)
  qed simp_all
qed

lemma add_locked_eq: "kbase_mem_pool_add_locked i p s = kbase_mem_pool_add_list_locked i [p] 1 s"
  by (simp add: kbase_mem_pool_add_locked_def kbase_mem_pool_add_list_locked_def)

lemma add_locked_step:
  assumes "pool_next (pools s i) = None \<Longrightarrow> d"
  shows "pool_step d s {#(p, pool_order (pools s i))#} (kbase_mem_pool_add_locked i p s) {#}"
  using add_list_locked_step [of 1 "[p]" s i d] assms by (simp add: add_locked_eq)

lemma remove_locked_None:
  "kbase_mem_pool_remove_locked i s = (None, t) \<Longrightarrow> t = s \<and> kbase_mem_pool_is_empty i s"
  by (simp add: kbase_mem_pool_remove_locked_def split: if_splits)

lemma remove_locked_step:
  assumes "kbase_mem_pool_remove_locked i s = (Some p, t)" and "d \<Longrightarrow> pool_next (pools s i) = None"
  shows "pool_step d s {#} t {#(p, pool_order (pools s i))#}"
proof -
  define f where "f = (\<lambda>q. q\<lparr> page_list := tl (page_list q), pool_size := pool_size q - 1 \<rparr> :: 'a mem_pool)"
  have f: "page_list (f q) = tl (page_list q)" "pool_size (f q) = pool_size q - 1"
    "pool_order (f q) = pool_order q" "pool_next (f q) = pool_next q" for q
    by (simp_all add: f_def)
  have t: "t = upd_pool i f s" and p: "p = hd (page_list (pools s i))"
    and ne: "pool_size (pools s i) \<noteq> 0"
    using assms(1) unfolding f_def
    by (auto simp: kbase_mem_pool_remove_locked_def kbase_mem_pool_is_empty_def split: if_splits)
  have list: "page_list (pools s i) = p # tl (page_list (pools s i))"
    if "pools_ok s" using that ne p by (cases "page_list (pools s i)") (auto simp: pools_ok_def)
  have mem: "p \<in> set (page_list (pools s i))" if "pools_ok s"
    by (subst list [OF that]) simp
  show ?thesis unfolding t
  proof (rule pool_stepI)
    show "same_shape s (upd_pool i f s)" "only_clears s (upd_pool i f s)"
      by (rule upd_pool_same; simp add: f)+
    show "pools_ok (upd_pool i f s)" if "pools_ok s"
      by (rule upd_pool_pools_ok [OF that]) (use that in \<open>auto simp: f pools_ok_def dest: set_tlD\<close>)
    show "\<forall>y \<in># {#(p, pool_order (pools s i))#}. good_page (fst y)" if "pools_ok s"
      using that mem [OF that] by (simp add: pools_ok_def)
    show "balanced s {#} (upd_pool i f s) {#(p, pool_order (pools s i))#}" if "pools_ok s"
    proof (rule upd_pool_balanced)
      have "pool_mset (pools s i) = pages_of s i (p # tl (page_list (pools s i)))"
        unfolding pool_mset_def by (subst list [OF that]) (rule refl)
      then show "pool_mset (f (pools s i)) + {#(p, pool_order (pools s i))#} = pool_mset (pools s i) + {#}"
        by (simp add: pool_mset_def f)
    qed
    show "device_clear (upd_pool i f s)" if "device_clear s"
      using that by (intro upd_pool_device_clear) (auto simp: f device_clear_def dest: set_tlD)
    show "\<forall>y \<in># {#(p, pool_order (pools s i))#}. is_clear (upd_pool i f s) y"
      if "pools_ok s" "device_clear s" d
      using that(2) mem [OF that(1)] assms(2) [OF that(3)] by (simp add: device_clear_def)
  qed
qed

text \<open>Changes outside the pools.\<close>

lemma other_step:
  assumes "pools t = pools s" "taken t = taken s" "released t = released s"
    "set (answers t) \<subseteq> set (answers s)" "only_clears s t"
  shows "pool_step d s X t X"
proof (rule pool_stepI)
  show "same_shape s t" by (simp add: same_shape_def assms(1))
  show "pools_ok s \<Longrightarrow> pools_ok t" using assms(4) unfolding pools_ok_def assms(1) by blast
  show "balanced s X t X" by (simp add: balanced_def pool_pages_def assms(1-3))
  show "device_clear s \<Longrightarrow> device_clear t"
    unfolding device_clear_def assms(1) using is_clear_mono [OF assms(5)] by blast
  show "d \<Longrightarrow> \<forall>x \<in># X. is_clear s x \<Longrightarrow> \<forall>y \<in># X. is_clear t y"
    using is_clear_mono [OF assms(5)] by blast
qed (simp_all add: assms(5))

lemma sync_page_step: "pool_step d s X (kbase_mem_pool_sync_page i p s) X"
  by (rule other_step) (simp_all add: kbase_mem_pool_sync_page_def only_clears_def)

lemma fold_clear:
  "fold (\<lambda>i f. f(g i := z)) is f a = (if a \<in> g ` set is then z else f a)"
  by (induction "is" arbitrary: f) auto

lemma frames_clear_page:
  "frames (clear_page p n pm) a =
     (if a \<in> (\<lambda>j. p + of_nat (PAGE_SIZE * j)) ` {0..<2 ^ n} then (\<lambda>k. 0) else frames pm a)"
  using fold_clear [of "\<lambda>i. p + of_nat (PAGE_SIZE * i)" "\<lambda>k. 0" "[0..<2 ^ n]" "frames pm" a]
  unfolding clear_page_def by simp

lemma clear_page_clears:
  assumes "page_mem t = clear_page p n (page_mem s)"
  shows "only_clears s t" and "is_clear t (p, n)"
  unfolding only_clears_def is_clear_def assms frames_clear_page by auto

lemma zero_page_step:
  "pool_step d s X (kbase_mem_pool_zero_page i p s) X"
  "is_clear (kbase_mem_pool_zero_page i p s) (p, pool_order (pools s i))"
proof -
  have m: "page_mem (kbase_mem_pool_zero_page i p s) = clear_page p (pool_order (pools s i)) (page_mem s)"
    by (simp add: kbase_mem_pool_zero_page_def kbase_mem_pool_sync_page_def)
  show "pool_step d s X (kbase_mem_pool_zero_page i p s) X"
    by (rule other_step) (simp_all add: clear_page_clears [OF m],
        simp_all add: kbase_mem_pool_zero_page_def kbase_mem_pool_sync_page_def)
  show "is_clear (kbase_mem_pool_zero_page i p s) (p, pool_order (pools s i))"
    by (rule clear_page_clears [OF m])
qed

lemma pool_step_cleared:
  assumes st: "pool_step d s X t Y" and "\<forall>y \<in># Y. is_clear t y" and tu: "pool_step True t Y u {#}"
  shows "pool_step d s X u {#}"
  unfolding pool_step_def
proof (intro conjI impI; (elim conjE)?)
  show "same_shape s u" by (rule same_shape_trans [OF pool_stepD(1) [OF st] pool_stepD(1) [OF tu]])
  show "only_clears s u" by (rule only_clears_trans [OF pool_stepD(2) [OF st] pool_stepD(2) [OF tu]])
next
  assume ok: "pools_ok s" "\<forall>x \<in># X. good_page (fst x)"
  note t = pool_stepD(3,4) [OF st ok]
  show "pools_ok u" by (rule pool_stepD(3) [OF tu t])
  show "balanced s X u {#}" by (rule balanced_trans [OF pool_stepD(5) [OF st ok] pool_stepD(5) [OF tu t]])
  assume dc: "device_clear s" "d \<longrightarrow> (\<forall>x \<in># X. is_clear s x)"
  have dt: "device_clear t" by (rule pool_stepD(6) [OF st ok dc(1)]) (use dc(2) in blast)
  show "device_clear u" by (rule pool_stepD(6) [OF tu t dt]) (rule assms(2))
qed simp_all

lemma spill_step: "pool_step d s {#(p, pool_order (pools s i))#} (kbase_mem_pool_spill i p s) {#}"
proof (rule pool_step_cleared)
  let ?t = "kbase_mem_pool_zero_page i p s"
  show "pool_step d s {#(p, pool_order (pools s i))#} ?t {#(p, pool_order (pools s i))#}"
    by (rule zero_page_step)
  show "\<forall>y \<in># {#(p, pool_order (pools s i))#}. is_clear ?t y"
    using zero_page_step(2) [of i p s] by simp
  have "pools ?t = pools s" by (simp add: kbase_mem_pool_zero_page_def kbase_mem_pool_sync_page_def)
  then show "pool_step True ?t {#(p, pool_order (pools s i))#} (kbase_mem_pool_spill i p s) {#}"
    using add_locked_step [of ?t i True p] by (simp add: kbase_mem_pool_spill_def kbase_mem_pool_add_def)
qed

lemma free_page_step: "pool_step d s {#(p, pool_order (pools s i))#} (kbase_mem_pool_free_page i p s) {#}"
  unfolding kbase_mem_pool_free_page_def
proof (rule pool_stepI)
  let ?t = "s\<lparr> released := (p, pool_order (pools s i)) # released s \<rparr>"
  show "same_shape s ?t" "only_clears s ?t" by (simp_all add: same_shape_def only_clears_def)
  show "pools_ok s \<Longrightarrow> pools_ok ?t" by (simp add: pools_ok_def)
  show "balanced s {#(p, pool_order (pools s i))#} ?t {#}" by (simp add: balanced_def pool_pages_def)
  show "device_clear s \<Longrightarrow> device_clear ?t" by (simp add: device_clear_def is_clear_def)
qed simp_all

lemma take_page_step:
  assumes "good_page p"
  shows "pool_step d s {#} (take_page p n s) {#(p, n)#}"
proof (rule pool_stepI)
  let ?t = "take_page p n s"
  have eq: "pools ?t = pools s" "answers ?t = answers s" "released ?t = released s"
    "taken ?t = (p, n) # taken s" "page_mem ?t = clear_page p n (page_mem s)"
    by (simp_all add: take_page_def)
  note cl = clear_page_clears [OF eq(5)]
  show "same_shape s ?t" by (simp add: same_shape_def eq)
  show "only_clears s ?t" by (rule cl)
  show "pools_ok s \<Longrightarrow> pools_ok ?t" by (simp add: pools_ok_def eq)
  show "\<forall>y \<in># {#(p, n)#}. good_page (fst y)" using assms by simp
  show "balanced s {#} ?t {#(p, n)#}" by (simp add: balanced_def pool_pages_def eq)
  show "device_clear s \<Longrightarrow> device_clear ?t"
    unfolding device_clear_def eq using is_clear_mono [OF cl(1)] by blast
  show "\<forall>y \<in># {#(p, n)#}. is_clear ?t y" using cl(2) by simp
qed

text \<open>A page from the kernel. Its answers are good as part of \<open>pools_ok\<close>.\<close>

lemma pool_step_ok:
  assumes "pools_ok s \<Longrightarrow> pool_step d s X t Y" and "same_shape s t" and "only_clears s t"
  shows "pool_step d s X t Y"
  using assms unfolding pool_step_def by blast

lemma alloc_page_step:
  assumes "kbase_mem_alloc_page i s = (r, t)"
  shows "pool_step d s {#} t (case r of None \<Rightarrow> {#} | Some p \<Rightarrow> {#(p, pool_order (pools s i))#})"
proof (cases "answers s")
  case Nil
  then show ?thesis using assms by (auto simp: kbase_mem_alloc_page_def)
next
  case (Cons a as)
  let ?s1 = "s\<lparr> answers := as \<rparr>" and ?n = "pool_order (pools s i)"
  have s1: "pool_step d s {#} ?s1 {#}"
    by (rule other_step) (auto simp: Cons only_clears_def)
  have take: "same_shape ?s1 (take_page p ?n ?s1)" "only_clears ?s1 (take_page p ?n ?s1)" for p
    by (simp add: same_shape_def take_page_def)
      (rule clear_page_clears [where p = p and n = ?n], simp add: take_page_def)
  have shape: "same_shape s (take_page p ?n ?s1)" "only_clears s (take_page p ?n ?s1)" for p
    using same_shape_trans [OF pool_stepD(1) [OF s1] take(1)] only_clears_trans [OF pool_stepD(2) [OF s1] take(2)]
    by blast+
  have st: "pool_step d s {#} (take_page p ?n ?s1) {#(p, ?n)#}" if "pools_ok s \<Longrightarrow> good_page p" for p
    by (rule pool_step_ok [OF pool_step_trans [OF s1 take_page_step [OF that]] shape])
  show ?thesis
  proof (cases a)
    case No_Page
    then show ?thesis using assms Cons s1 by (auto simp: kbase_mem_alloc_page_def)
  next
    case (Unmappable_Page p)
    let ?t = "take_page p ?n ?s1"
    have g: "pools_ok s \<Longrightarrow> good_page p" using Cons Unmappable_Page by (auto simp: pools_ok_def good_answer_def)
    have "t = kbase_mem_pool_free_page i p ?t" and r: "r = None"
      using assms Cons Unmappable_Page
      by (auto simp: kbase_mem_alloc_page_def kbase_mem_pool_free_page_def Let_def take_page_def)
    moreover have "pool_order (pools ?t i) = ?n" by (simp add: take_page_def)
    ultimately have "pool_step d ?t {#(p, ?n)#} t {#}" using free_page_step [of d ?t p i] by simp
    then show ?thesis using pool_step_trans [OF st [OF g]] r by simp
  next
    case (Fresh_Page p)
    have g: "pools_ok s \<Longrightarrow> good_page p" using Cons Fresh_Page by (auto simp: pools_ok_def good_answer_def)
    show ?thesis using assms Cons Fresh_Page st [OF g] by (auto simp: kbase_mem_alloc_page_def)
  qed
qed

lemma pool_step_empty: "pool_step d s {#} t {#} \<Longrightarrow> pool_step e s {#} t {#}"
  by (rule pool_step_weaken [where d = e], rule pool_stepI) (simp_all add: pool_stepD)

lemma remove_locked_Some:
  assumes "pool_size (pools s i) \<noteq> 0"
  obtains p t where "kbase_mem_pool_remove_locked i s = (Some p, t)"
    and "pool_size (pools t i) = pool_size (pools s i) - 1"
  using assms that by (simp add: kbase_mem_pool_remove_locked_def kbase_mem_pool_is_empty_def)

lemma shrink_step:
  "kbase_mem_pool_shrink_locked i n s = (k, t) \<Longrightarrow> pool_step d s {#} t {#}"
proof (induction n arbitrary: s k)
  case 0
  then show ?case by simp
next
  case (Suc n)
  show ?case
  proof (cases "kbase_mem_pool_is_empty i s")
    case True
    then show ?thesis using Suc.prems by simp
  next
    case False
    then obtain p s1 where s1: "kbase_mem_pool_remove_locked i s = (Some p, s1)"
      by (rule remove_locked_Some [of s i, unfolded kbase_mem_pool_is_empty_def [symmetric]])
    obtain k' where t: "kbase_mem_pool_shrink_locked i n (kbase_mem_pool_free_page i p s1) = (k', t)"
      using Suc.prems False s1 by (auto split: prod.splits)
    have rm: "pool_step False s {#} s1 {#(p, pool_order (pools s i))#}"
      by (rule remove_locked_step [OF s1]) simp
    have "pool_step False s {#} (kbase_mem_pool_free_page i p s1) {#}"
      by (rule pool_step_trans [OF rm]) (use free_page_step [of False s1 p i] pool_step_shape(2) [OF rm] in simp)
    then show ?thesis using pool_step_trans [OF pool_step_empty Suc.IH [OF t]] by blast
  qed
qed

lemma shrink_snd_step: "pool_step d s {#} (snd (kbase_mem_pool_shrink_locked i n s)) {#}"
  by (rule shrink_step [OF surjective_pairing])

lemma grow_loop_step:
  "grow_loop i m n s = (r, t) \<Longrightarrow> pool_step True s {#} t {#}"
proof (induction n arbitrary: s)
  case 0
  then show ?case using set_dont_reclaim_step by auto
next
  case (Suc n)
  show ?case
  proof (cases "dying (pools s i)")
    case True
    have "pool_step True s {#} (snd (kbase_mem_pool_shrink_locked i m (set_dont_reclaim i False s))) {#}"
      by (rule pool_step_trans [OF set_dont_reclaim_step shrink_snd_step])
    then show ?thesis using Suc.prems True by auto
  next
    case False
    obtain r1 s1 where s1: "kbase_mem_alloc_page i s = (r1, s1)" by (cases "kbase_mem_alloc_page i s")
    note al = alloc_page_step [OF s1, of True]
    show ?thesis
    proof (cases r1)
      case None
      then show ?thesis
        using Suc.prems False s1 al pool_step_trans [OF al set_dont_reclaim_step] by auto
    next
      case (Some p)
      have "pool_step True s1 {#(p, pool_order (pools s i))#} (kbase_mem_pool_add_locked i p s1) {#}"
        using add_locked_step [of s1 i True p] pool_step_shape(2) [OF al, of i] by simp
      then show ?thesis
        using Suc False s1 Some al by (auto intro: pool_step_trans)
    qed
  qed
qed

lemma grow_step: "kbase_mem_pool_grow i n s = (r, t) \<Longrightarrow> pool_step d s {#} t {#}"
  unfolding kbase_mem_pool_grow_def
  by (rule pool_step_empty [OF pool_step_trans [OF set_dont_reclaim_step grow_loop_step]])

lemma trim_step: "pool_step d s {#} (kbase_mem_pool_trim i n s) {#}"
  unfolding kbase_mem_pool_trim_def kbase_mem_pool_shrink_def Let_def
  by (simp add: shrink_snd_step grow_step [OF surjective_pairing])

lemma set_max_size_step: "pool_step d s {#} (kbase_mem_pool_set_max_size i n s) {#}"
  unfolding kbase_mem_pool_set_max_size_def Let_def
  by (simp add: set_max_step pool_step_trans [OF set_max_step shrink_snd_step] del: pools_upd)

lemma reclaim_scan_step: "kbase_mem_pool_reclaim_scan_objects i n s = (k, t) \<Longrightarrow> pool_step d s {#} t {#}"
  unfolding kbase_mem_pool_reclaim_scan_objects_def using shrink_step by (auto split: if_splits)

lemma remove_pages_step:
  assumes "d \<Longrightarrow> pool_next (pools s i) = None"
  shows "remove_pages i n ps s = (qs, t) \<Longrightarrow> n \<le> pool_size (pools s i) \<Longrightarrow>
    pool_step d s (pages_of s i ps) t (pages_of s i qs)"
  using assms
proof (induction n arbitrary: s ps)
  case 0
  then show ?case by simp
next
  case (Suc n)
  from Suc.prems(2) have "pool_size (pools s i) \<noteq> 0" by simp
  then obtain p s1 where s1: "kbase_mem_pool_remove_locked i s = (Some p, s1)"
    "pool_size (pools s1 i) = pool_size (pools s i) - 1" by (rule remove_locked_Some)
  have rm: "pool_step d s {#} s1 {#(p, pool_order (pools s i))#}"
    by (rule remove_locked_step [OF s1(1)]) (use Suc.prems(3) in blast)
  note sh = pool_step_shape [OF rm]
  have "pool_step d s1 (pages_of s1 i (p # ps)) t (pages_of s1 i qs)"
    by (rule Suc.IH) (use Suc.prems s1 sh in simp_all)
  then show ?case
    using pool_step_trans pool_step_frame [OF rm, of "pages_of s i ps"] sh by simp
qed

lemma fold_zero_step:
  "pool_step d s X (fold (kbase_mem_pool_zero_page i) ps s) X \<and>
   (\<forall>p \<in> set ps. is_clear (fold (kbase_mem_pool_zero_page i) ps s) (p, pool_order (pools s i)))"
proof (induction ps arbitrary: s)
  case Nil
  then show ?case by simp
next
  case (Cons p ps)
  note z = zero_page_step [where i = i and p = p]
  let ?s1 = "kbase_mem_pool_zero_page i p s" and ?t = "fold (kbase_mem_pool_zero_page i) (p # ps) s"
  have IH: "pool_step d ?s1 X ?t X"
    "\<forall>q \<in> set ps. is_clear ?t (q, pool_order (pools ?s1 i))" using Cons.IH [of ?s1] by simp_all
  have o: "pool_order (pools ?s1 i) = pool_order (pools s i)" by (rule pool_step_shape(2) [OF z(1)])
  have "is_clear ?t (p, pool_order (pools s i))"
    by (rule is_clear_mono [OF pool_stepD(2) [OF IH(1)] z(2)])
  then show ?case using pool_step_trans [OF z(1) IH(1)] IH(2) o by simp
qed

lemma fold_free_step:
  "pool_step d s (pages_of s i ps) (fold (kbase_mem_pool_free_page i) ps s) {#}"
proof (induction ps arbitrary: s)
  case Nil
  then show ?case by simp
next
  case (Cons p ps)
  note f = free_page_step [of d s p i]
  show ?case
    using pool_step_trans [OF pool_step_frame [OF f, of "pages_of s i ps"]] Cons.IH [of "kbase_mem_pool_free_page i p s"]
      pool_step_shape(2) [OF f, of i] by simp
qed

definition orders_ok :: "'i mem_state \<Rightarrow> bool" where
  "orders_ok s \<longleftrightarrow> (\<forall>i j. pool_next (pools s i) = Some j \<longrightarrow> pool_order (pools s j) = pool_order (pools s i))"

lemma orders_okD: "orders_ok s \<Longrightarrow> pool_next (pools s i) = Some j \<Longrightarrow> pool_order (pools s j) = pool_order (pools s i)"
  by (simp add: orders_ok_def)

lemma pools_ok_orders: "pools_ok s \<Longrightarrow> orders_ok s"
  by (simp add: pools_ok_def orders_ok_def)

lemma orders_ok_step: "orders_ok s \<Longrightarrow> pool_step d s X t Y \<Longrightarrow> orders_ok t"
  by (simp add: orders_ok_def pool_step_shape)

lemma add_list_clear_step:
  assumes "\<forall>p \<in> set ps. is_clear s (p, pool_order (pools s i))"
  shows "pool_step d s (pages_of s i ps) (kbase_mem_pool_add_list i ps (length ps) s) {#}"
  unfolding kbase_mem_pool_add_list_def
  by (rule pool_step_cleared [OF pool_step_refl _ add_list_locked_step]) (use assms in auto)

text \<open>Spilling a list: zeroed, then added to the next pool.\<close>

lemma spill_list_step:
  assumes "pool_order (pools s nx) = pool_order (pools s i)"
  shows "pool_step d s (pages_of s i ps)
    (kbase_mem_pool_add_list nx ps (length ps) (fold (kbase_mem_pool_zero_page i) ps s)) {#}"
proof -
  let ?t = "fold (kbase_mem_pool_zero_page i) ps s"
  have z: "pool_step d s (pages_of s i ps) ?t (pages_of s i ps)" 
    "\<forall>p \<in> set ps. is_clear ?t (p, pool_order (pools s i))"
    using fold_zero_step by blast+
  have o: "pool_order (pools ?t nx) = pool_order (pools s i)"
    using pool_step_shape(2) [OF z(1), of nx] assms by simp
  have "pool_step d ?t (pages_of ?t nx ps) (kbase_mem_pool_add_list nx ps (length ps) ?t) {#}"
    by (rule add_list_clear_step) (use z(2) o in simp)
  then show ?thesis using pool_step_trans [OF z(1)] o by simp
qed

lemma remove_pages_length: "remove_pages i n ps s = (qs, t) \<Longrightarrow> length qs = n + length ps"
proof (induction n arbitrary: ps s)
  case 0
  then show ?case by simp
next
  case (Suc n)
  obtain p s1 where "kbase_mem_pool_remove_locked i s = (p, s1)" by (cases "kbase_mem_pool_remove_locked i s")
  then show ?case using Suc.IH [of "the p # ps" s1] Suc.prems by simp
qed

lemma term_step:
  assumes "orders_ok s"
  shows "pool_step d s {#} (kbase_mem_pool_term i s) {#}"
proof -
  define s1 where "s1 = upd_pool i (\<lambda>q. q\<lparr> max_size := 0 \<rparr>) s"
  define n where "n = (case pool_next (pools s1 i) of None \<Rightarrow> 0
    | Some nx \<Rightarrow> if kbase_mem_pool_is_full nx s1 then 0
                 else min (pool_size (pools s1 i)) (kbase_mem_pool_capacity nx s1))"
  obtain spill s2 where s2: "remove_pages i n [] s1 = (spill, s2)" by (cases "remove_pages i n [] s1")
  obtain fr s3 where s3: "remove_pages i (pool_size (pools s2 i)) [] s2 = (fr, s3)"
    by (cases "remove_pages i (pool_size (pools s2 i)) [] s2")
  define s4 where "s4 = (case pool_next (pools s1 i) of None \<Rightarrow> s3
    | Some nx \<Rightarrow> if n = 0 then s3 else kbase_mem_pool_add_list nx spill n (fold (kbase_mem_pool_zero_page i) spill s3))"
  have t: "kbase_mem_pool_term i s = fold (kbase_mem_pool_free_page i) fr s4"
    unfolding kbase_mem_pool_term_def s1_def [symmetric] Let_def n_def [symmetric] s2 s3 prod.case s4_def by simp
  have a: "pool_step False s {#} s1 {#}" unfolding s1_def by (rule set_max_step)
  have "n \<le> pool_size (pools s1 i)" by (simp add: n_def split: option.splits)
  then have b: "pool_step False s1 {#} s2 (pages_of s1 i spill)"
    using remove_pages_step [OF _ s2, of False] by simp
  have c: "pool_step False s2 {#} s3 (pages_of s2 i fr)"
    using remove_pages_step [OF _ s3, of False] by simp
  note o = pool_step_shape(2) [OF a] pool_step_shape(2) [OF b] pool_step_shape(2) [OF c]
  note x = pool_step_shape(1) [OF a] pool_step_shape(1) [OF b] pool_step_shape(1) [OF c]
  have len: "length spill = n" using remove_pages_length [OF s2] by simp
  have e: "pool_step False s3 (pages_of s3 i spill) s4 {#}"
  proof (cases "pool_next (pools s1 i)")
    case None
    then show ?thesis using len by (simp add: s4_def n_def)
  next
    case (Some nx)
    have "pool_order (pools s3 nx) = pool_order (pools s3 i)"
      using orders_okD [OF assms, of i nx] Some by (simp add: o x)
    then show ?thesis
      using Some len spill_list_step [of s3 nx i False spill] by (cases "n = 0") (simp_all add: s4_def)
  qed
  have ac: "pool_step False s {#} s3 (pages_of s3 i spill + pages_of s3 i fr)"
    using pool_step_trans [OF pool_step_trans [OF a b] pool_step_frame [OF c, of "pages_of s1 i spill", simplified]]
    by (simp add: o ac_simps)
  have "pool_step False s {#} s4 (pages_of s4 i fr)"
    using pool_step_trans [OF ac pool_step_frame [OF e]] by (simp add: pool_step_shape(2) [OF e])
  then have "pool_step False s {#} (kbase_mem_pool_term i s) {#}"
    unfolding t by (rule pool_step_trans [OF _ fold_free_step])
  then show ?thesis by (rule pool_step_empty)
qed

section \<open>Single pages\<close>

text \<open>The pools do not form a ring: a rank falls along \<open>pool_next\<close>.\<close>

definition ranked :: "('i \<Rightarrow> nat) \<Rightarrow> 'i mem_state \<Rightarrow> bool" where
  "ranked r s \<longleftrightarrow> (\<forall>i j. pool_next (pools s i) = Some j \<longrightarrow> r j < r i)"

lemma rankedD: "ranked r s \<Longrightarrow> pool_next (pools s i) = Some j \<Longrightarrow> r j < r i"
  by (simp add: ranked_def)

lemma ranked_step: "ranked r s \<Longrightarrow> pool_step d s X t Y \<Longrightarrow> ranked r t"
  by (simp add: ranked_def pool_step_shape)

lemma alloc_step:
  assumes "ranked r s" and "orders_ok s"
  shows "\<exists>p t. kbase_mem_pool_alloc i s = Some (p, t) \<and>
    pool_step False s {#} t (case p of None \<Rightarrow> {#} | Some q \<Rightarrow> {#(q, pool_order (pools s i))#})"
proof (induction "r i" arbitrary: i rule: less_induct)
  case less
  obtain p t where t: "kbase_mem_pool_remove_locked i s = (p, t)" by (cases "kbase_mem_pool_remove_locked i s")
  show ?case
  proof (cases p)
    case (Some q)
    have eq: "kbase_mem_pool_alloc i s = Some (Some q, t)"
      unfolding kbase_mem_pool_alloc.simps [of i s] kbase_mem_pool_remove_def t Some by simp
    have "pool_step False s {#} t {#(q, pool_order (pools s i))#}"
      by (rule remove_locked_step [OF t [unfolded Some]]) simp
    then show ?thesis unfolding eq by (intro exI [of _ "Some q"] exI [of _ t]) simp
  next
    case None
    have ts: "t = s" using remove_locked_None [OF t [unfolded None]] by simp
    show ?thesis
    proof (cases "pool_next (pools s i)")
      case n: None
      have eq: "kbase_mem_pool_alloc i s = Some (None, s)"
        unfolding kbase_mem_pool_alloc.simps [of i s] kbase_mem_pool_remove_def t None ts
        by (simp add: n)
      show ?thesis unfolding eq by (intro exI [of _ None] exI [of _ s]) simp
    next
      case (Some nx)
      have eq: "kbase_mem_pool_alloc i s = kbase_mem_pool_alloc nx s"
        unfolding kbase_mem_pool_alloc.simps [of i s] kbase_mem_pool_remove_def t None ts
        by (simp add: Some)
      show ?thesis
        unfolding eq orders_okD [OF assms(2) Some, symmetric]
        by (rule less [OF rankedD [OF assms(1) Some]])
    qed
  qed
qed

lemma free_step:
  assumes "orders_ok s" and "pool_next (pools s i) = None \<Longrightarrow> d"
  shows "pool_step d s {#(p, pool_order (pools s i))#} (kbase_mem_pool_free i p dirty s) {#}"
proof (cases "kbase_mem_pool_is_full i s")
  case False
  let ?s1 = "if dirty then kbase_mem_pool_sync_page i p s else s"
  have s1: "pool_step d s {#(p, pool_order (pools s i))#} ?s1 {#(p, pool_order (pools s i))#}"
    by (simp add: sync_page_step)
  have "pool_step d ?s1 {#(p, pool_order (pools ?s1 i))#} (kbase_mem_pool_add_locked i p ?s1) {#}"
    by (rule add_locked_step) (use assms(2) pool_step_shape(1) [OF s1, of i] in metis)
  then show ?thesis
    using False pool_step_trans [OF s1] pool_step_shape(2) [OF s1, of i]
    by (simp add: kbase_mem_pool_free_def kbase_mem_pool_add_def)
next
  case True
  show ?thesis
  proof (cases "pool_next (pools s i)")
    case None
    then show ?thesis using True free_page_step [of d s p i] by (simp add: kbase_mem_pool_free_def)
  next
    case (Some nx)
    then show ?thesis
      using True free_page_step [of d s p i] spill_step [of d s p nx] orders_okD [OF assms(1) Some]
      by (simp add: kbase_mem_pool_free_def)
  qed
qed

lemma free_locked_step:
  assumes "pool_next (pools s i) = None \<Longrightarrow> d"
  shows "pool_step d s {#(p, pool_order (pools s i))#} (kbase_mem_pool_free_locked i p dirty s) {#}"
proof (cases "kbase_mem_pool_is_full i s")
  case False
  let ?s1 = "if dirty then kbase_mem_pool_sync_page i p s else s"
  have s1: "pool_step d s {#(p, pool_order (pools s i))#} ?s1 {#(p, pool_order (pools s i))#}"
    by (simp add: sync_page_step)
  have "pool_step d ?s1 {#(p, pool_order (pools ?s1 i))#} (kbase_mem_pool_add_locked i p ?s1) {#}"
    by (rule add_locked_step) (use assms pool_step_shape(1) [OF s1, of i] in metis)
  then show ?thesis
    using False pool_step_trans [OF s1] pool_step_shape(2) [OF s1, of i]
    by (simp add: kbase_mem_pool_free_locked_def)
next
  case True
  then show ?thesis using free_page_step [of d s p i] by (simp add: kbase_mem_pool_free_locked_def)
qed

section \<open>Arrays\<close>

text \<open>
  The pages that an array holds: an entry stands for a page unless it is a hole or belongs to a
  large page without being its head.
\<close>

definition is_head :: "u64 \<Rightarrow> bool" where
  "is_head e \<longleftrightarrow> as_phys_addr_t e \<noteq> 0 \<and> (is_huge_head e \<or> \<not> is_huge e)"

definition head_pages :: "u64 list \<Rightarrow> u64 list" where
  "head_pages es = map as_phys_addr_t (filter is_head es)"

lemma head_pages_simps [simp]:
  "head_pages [] = []"
  "head_pages (e # es) = (if is_head e then as_phys_addr_t e # head_pages es else head_pages es)"
  "head_pages (es @ fs) = head_pages es @ head_pages fs"
  by (simp_all add: head_pages_def)

lemma as_tagged_0 [simp]: "as_tagged 0 = 0"
  by (simp add: as_tagged_def)

lemma is_head_0 [simp]: "\<not> is_head 0"
  by (simp add: is_head_def as_phys_addr_t_def)

lemma bit_huge [simp]: "bit HUGE_PAGE n \<longleftrightarrow> n = 0" "bit HUGE_HEAD n \<longleftrightarrow> n = 1"
  using bit_exp_iff [where 'a = "64 word", of 0 n] bit_exp_iff [where 'a = "64 word", of 1 n]
  by (auto simp: HUGE_PAGE_def HUGE_HEAD_def)

lemma is_huge_iff: "is_huge t \<longleftrightarrow> bit t 0"
proof
  have "t AND HUGE_PAGE = 0" if "\<not> bit t 0"
    by (rule bit_word_eqI) (use that in \<open>auto simp: bit_and_iff intro!: gr0I\<close>)
  then show "is_huge t \<Longrightarrow> bit t 0" by (auto simp: is_huge_def)
  assume "bit t 0"
  then have "bit (t AND HUGE_PAGE) 0" by (simp add: bit_and_iff)
  then show "is_huge t" by (auto simp: is_huge_def)
qed

lemma is_huge_head_iff: "is_huge_head t \<longleftrightarrow> bit t 0 \<and> bit t 1"
proof
  assume "is_huge_head t"
  then have "\<And>n. bit (t AND (HUGE_HEAD OR HUGE_PAGE)) n = bit (HUGE_HEAD OR HUGE_PAGE) n"
    by (simp add: is_huge_head_def)
  from this [of 0] this [of 1] show "bit t 0 \<and> bit t 1" by (simp add: bit_and_iff bit_or_iff)
next
  assume "bit t 0 \<and> bit t 1"
  then show "is_huge_head t"
    unfolding is_huge_head_def by (intro bit_word_eqI) (auto simp: bit_and_iff bit_or_iff)
qed

lemma bit_as_tagged_tag:
  "bit (as_tagged_tag p t) n \<longleftrightarrow> (if n < 12 then bit t n else bit p n) \<and> n < 64"
  using bit_imp_le_length [of t n] bit_imp_le_length [of p n]
  by (auto simp: as_tagged_tag_def bit_simps)

lemma as_phys_as_tagged_tag: "good_page p \<Longrightarrow> as_phys_addr_t (as_tagged_tag p t) = p"
  unfolding as_phys_addr_t_def good_page_def
  by (rule bit_word_eqI) (auto simp: bit_as_tagged_tag bit_simps dest: page_aligned_bit)

lemma page_entries_heads:
  assumes "good_page p"
  shows "head_pages (page_entries order p) = [p]" and "length (page_entries order p) = 2 ^ order"
proof -
  have p0: "as_phys_addr_t p = p" "p \<noteq> 0" "\<not> is_huge p"
    using assms page_aligned_bit [of p 0] by (simp_all add: good_page_def as_phys_addr_t_def and_mask_page is_huge_iff)
  have tail: "\<not> is_head (as_tagged_tag q HUGE_PAGE)" for q
    by (simp add: is_head_def is_huge_iff is_huge_head_iff bit_as_tagged_tag)
  have hd: "is_head (as_tagged_tag p (HUGE_HEAD OR HUGE_PAGE))"
    using as_phys_as_tagged_tag [OF assms] p0(2)
    by (simp add: is_head_def is_huge_head_iff bit_as_tagged_tag bit_or_iff)
  have "filter is_head (map (\<lambda>j. as_tagged_tag (p + of_nat (PAGE_SIZE * j)) HUGE_PAGE) js) = []" for js
    by (induction js) (use tail in simp_all)
  then have "head_pages (map (\<lambda>j. as_tagged_tag (p + of_nat (PAGE_SIZE * j)) HUGE_PAGE) js) = []" for js
    by (simp add: head_pages_def)
  moreover have "is_head (as_tagged p)" "as_phys_addr_t (as_tagged p) = p"
    using p0 assms by (simp_all add: is_head_def as_tagged_def good_page_def and_mask_page)
  ultimately show "head_pages (page_entries order p) = [p]"
    using hd as_phys_as_tagged_tag [OF assms] by (simp add: page_entries_def)
  show "length (page_entries order p) = 2 ^ order"
    by (simp add: page_entries_def Suc_diff_Suc)
qed

lemma add_array_loop_step:
  "add_array_loop i zero sync es acc s = (es', l, t) \<Longrightarrow>
     pool_step d s X t X \<and> mset l = mset acc + mset (head_pages es) \<and>
     (zero \<longrightarrow> (\<forall>p \<in> set acc. is_clear s (p, pool_order (pools s i))) \<longrightarrow>
        (\<forall>p \<in> set l. is_clear t (p, pool_order (pools s i)))) \<and>
     head_pages es' = [] \<and> length es' = length es"
proof (induction es arbitrary: acc s es' l)
  case Nil
  then show ?case by simp
next
  case (Cons e es)
  define s1 where "s1 = (if is_head e then if zero then kbase_mem_pool_zero_page i (as_phys_addr_t e) s
      else if sync then kbase_mem_pool_sync_page i (as_phys_addr_t e) s else s else s)"
  define acc1 where "acc1 = (if is_head e then as_phys_addr_t e # acc else acc)"
  obtain es1 where es1: "add_array_loop i zero sync es acc1 s1 = (es1, l, t)"
    and es': "es' = (if as_phys_addr_t e = 0 then e else 0) # es1"
    using Cons.prems by (auto simp: s1_def acc1_def is_head_def Let_def split: if_splits prod.splits)
  have a: "pool_step d s X s1 X" by (simp add: s1_def zero_page_step sync_page_step)
  note o = pool_step_shape(2) [OF a, of i]
  have cl: "\<forall>p \<in> set acc1. is_clear s1 (p, pool_order (pools s1 i))"
    if "zero" "\<forall>p \<in> set acc. is_clear s (p, pool_order (pools s i))"
    using that zero_page_step(2) [of i "as_phys_addr_t e" s] is_clear_mono [OF pool_stepD(2) [OF a]] o
    by (auto simp: acc1_def s1_def)
  have "\<not> is_head (if as_phys_addr_t e = 0 then e else 0)" by (simp add: is_head_def as_phys_addr_t_def)
  then show ?case
    using Cons.IH [OF es1] pool_step_trans [OF a] cl o by (auto simp: es' acc1_def)
qed

lemma add_array_step:
  assumes "kbase_mem_pool_add_array i n pages zero sync s = (pages', t)" and "n \<le> length pages"
    and "\<not> zero \<Longrightarrow> pool_next (pools s i) = None \<Longrightarrow> d"
  shows "pool_step d s (pages_of s i (head_pages (take n pages))) t {#}"
    and "head_pages (take n pages') = []" and "drop n pages' = drop n pages" and "length pages' = length pages"
proof -
  obtain es l s1 where s1: "add_array_loop i zero sync (take n pages) [] s = (es, l, s1)"
    by (metis prod_cases3)
  note a = add_array_loop_step [OF s1]
  show "head_pages (take n pages') = []" "drop n pages' = drop n pages" "length pages' = length pages"
    using assms(1,2) s1 a by (auto simp: kbase_mem_pool_add_array_def split: if_splits)
  show "pool_step d s (pages_of s i (head_pages (take n pages))) t {#}"
  proof (cases "n = 0")
    case True
    then show ?thesis using assms(1) by (simp add: kbase_mem_pool_add_array_def)
  next
    case False
    have t: "t = kbase_mem_pool_add_list i l (length l) s1"
      using assms(1) False s1 by (simp add: kbase_mem_pool_add_array_def)
    let ?X = "pages_of s i (head_pages (take n pages))"
    have st: "pool_step d s ?X s1 ?X" using a by blast
    have X: "?X = pages_of s1 i l" using a pool_step_shape(2) [OF st, of i] by simp
    have "pool_step d s1 (pages_of s1 i l) t {#}"
    proof (cases zero)
      case True
      then have "\<forall>p \<in> set l. is_clear s1 (p, pool_order (pools s1 i))"
        using a pool_step_shape(2) [OF st, of i] by simp
      then show ?thesis unfolding t by (rule add_list_clear_step)
    next
      case False
      then show ?thesis unfolding t kbase_mem_pool_add_list_def
        using assms(3) pool_step_shape(1) [OF st, of i] by (intro add_list_locked_step) simp_all
    qed
    then show ?thesis using pool_step_trans [OF st] X by simp
  qed
qed

lemma add_array_locked_eq:
  "kbase_mem_pool_add_array_locked i n pages zero sync s = kbase_mem_pool_add_array i n pages zero sync s"
  by (simp add: kbase_mem_pool_add_array_locked_def kbase_mem_pool_add_array_def kbase_mem_pool_add_list_def)

lemma free_rest_step:
  "free_rest i es s = (es', t) \<Longrightarrow>
     pool_step d s (pages_of s i (head_pages es)) t {#} \<and> head_pages es' = [] \<and> length es' = length es"
proof (induction es arbitrary: s es')
  case Nil
  then show ?case by simp
next
  case (Cons e es)
  define s1 where "s1 = (if is_head e then kbase_mem_pool_free_page i (as_phys_addr_t e) s else s)"
  obtain es1 where es1: "free_rest i es s1 = (es1, t)"
    and es': "es' = (if as_phys_addr_t e = 0 then e else 0) # es1"
    using Cons.prems by (auto simp: s1_def is_head_def Let_def split: if_splits prod.splits)
  let ?X = "pages_of s i (head_pages es)"
  have a: "pool_step d s (pages_of s i (head_pages (e # es))) s1 ?X"
    using pool_step_frame [OF free_page_step [of d s "as_phys_addr_t e" i], of ?X] by (simp add: s1_def)
  have "\<not> is_head (if as_phys_addr_t e = 0 then e else 0)" by (simp add: is_head_def as_phys_addr_t_def)
  then show ?case
    using Cons.IH [OF es1] pool_step_trans [OF a] pool_step_shape(2) [OF a, of i] by (simp add: es')
qed

text \<open>
  \<open>gives i n pages s k pages' t\<close>: of the first \<open>n\<close> entries, the first \<open>k\<close> have been given
  away, and nothing else has changed in the array.
\<close>

definition gives ::
  "bool \<Rightarrow> 'i::finite \<Rightarrow> u64 list \<Rightarrow> 'i mem_state \<Rightarrow> nat \<Rightarrow> u64 list \<Rightarrow> 'i mem_state \<Rightarrow> bool" where
  "gives d i pages s k pages' t \<longleftrightarrow>
     pool_step d s (pages_of s i (head_pages (take k pages))) t {#} \<and>
     head_pages (take k pages') = [] \<and> drop k pages' = drop k pages \<and> length pages' = length pages"

lemma head_pages_take_add:
  "head_pages (take (k + m) pages) = head_pages (take k pages) @ head_pages (take m (drop k pages))"
  by (simp add: take_add)

lemma add_array_gives:
  assumes "kbase_mem_pool_add_array i n pages zero sync s = (pages', t)" and "n \<le> length pages"
    and "\<not> zero \<Longrightarrow> pool_next (pools s i) = None \<Longrightarrow> d"
  shows "gives d i pages s n pages' t"
  using add_array_step [OF assms] by (simp add: gives_def)

lemma gives_then:
  assumes "gives d i pages s k pages1 t"
    and "pool_step d t (pages_of t i (head_pages (take m (drop k pages)))) u {#}"
    and "head_pages (take m rest) = []" "drop m rest = drop m (drop k pages)" "length rest = length (drop k pages)"
    and "k \<le> length pages"
  shows "gives d i pages s (k + m) (take k pages1 @ rest) u"
proof -
  let ?X = "pages_of s i (head_pages (take k pages))" and ?Z = "pages_of s i (head_pages (take m (drop k pages)))"
  have a: "pool_step d s ?X t {#}" and len: "length pages1 = length pages"
    and hd: "head_pages (take k pages1) = []" and dr: "drop k pages1 = drop k pages"
    using assms(1) by (simp_all add: gives_def)
  have "pool_step d s (?X + ?Z) t ?Z" using pool_step_frame [OF a, of ?Z] by simp
  then have st: "pool_step d s (?X + ?Z) u {#}"
    by (rule pool_step_trans) (use assms(2) pool_step_shape(2) [OF a, of i] in simp)
  have "take (k + m) (take k pages1 @ rest) = take k pages1 @ take m rest"
    using assms(6) len by simp
  moreover have "drop (k + m) (take k pages1 @ rest) = drop (k + m) pages"
    using assms(4,6) len by (simp add: add.commute)
  ultimately show ?thesis
    using st hd assms(3,5,6) len by (simp add: gives_def head_pages_take_add)
qed

lemma add_to_pools_gives:
  assumes "add_to_pools i n pages dirty s = (k, pages', t)" and "n \<le> length pages" and "orders_ok s"
    and "pool_next (pools s i) = None \<Longrightarrow> d"
  shows "gives d i pages s k pages' t" and "k \<le> n"
proof -
  define n1 where "n1 = min n (kbase_mem_pool_capacity i s)"
  obtain pages1 s1 where s1: "kbase_mem_pool_add_array i n1 pages False dirty s = (pages1, s1)"
    by (cases "kbase_mem_pool_add_array i n1 pages False dirty s")
  have g: "gives d i pages s n1 pages1 s1"
    by (rule add_array_gives [OF s1]) (use assms(2,4) in \<open>auto simp: n1_def\<close>)
  have le: "n1 \<le> n" by (simp add: n1_def)
  note eq = assms(1) [unfolded add_to_pools_def Let_def, folded n1_def, unfolded s1 prod.case]
  have "gives d i pages s k pages' t \<and> k \<le> n"
  proof (cases "pool_next (pools s i) = None \<or> n1 = n")
    case True
    then show ?thesis using eq g le by (auto split: option.splits)
  next
    case False
    then obtain nx where nx: "pool_next (pools s i) = Some nx" and ne: "n1 \<noteq> n" by auto
    define n2 where "n2 = min (n - n1) (kbase_mem_pool_capacity nx s1)"
    obtain pages2 s2 where s2: "kbase_mem_pool_add_array nx n2 (drop n1 pages1) True dirty s1 = (pages2, s2)"
      by (cases "kbase_mem_pool_add_array nx n2 (drop n1 pages1) True dirty s1")
    have res: "k = n1 + n2" "pages' = take n1 pages1 @ pages2" "t = s2"
      using eq nx ne s2 by (auto simp: n2_def)
    have dr: "drop n1 pages1 = drop n1 pages" "length pages1 = length pages"
      and st: "pool_step d s (pages_of s i (head_pages (take n1 pages))) s1 {#}"
      using g by (simp_all add: gives_def)
    have n2: "n2 \<le> length (drop n1 pages1)" using le assms(2) dr(2) by (simp add: n2_def)
    have o: "pool_order (pools s1 nx) = pool_order (pools s1 i)"
      using orders_okD [OF assms(3) nx] pool_step_shape(2) [OF st] by simp
    note a = add_array_step [OF s2 n2, of d, unfolded dr(1) o]
    have "gives d i pages s (n1 + n2) (take n1 pages1 @ pages2) s2"
      by (rule gives_then [OF g]) (use a le assms(2) in simp_all)
    then show ?thesis using le by (simp add: res n2_def)
  qed
  then show "gives d i pages s k pages' t" "k \<le> n" by blast+
qed

lemma gives_0: "gives d i pages s 0 pages s"
  by (simp add: gives_def)

text \<open>Giving the rest to the kernel completes it.\<close>

lemma free_rest_gives:
  assumes "gives d i pages s k pages1 s1" and "k \<le> n" and "n \<le> length pages"
    and "free_rest i (take (n - k) (drop k pages1)) s1 = (es, t)"
  shows "gives d i pages s n (take k pages1 @ es @ drop n pages1) t"
proof -
  have dr: "drop k pages1 = drop k pages" "length pages1 = length pages" using assms(1) by (simp_all add: gives_def)
  have "drop n pages1 = drop (n - k) (drop k pages1)" using assms(2) by simp
  then have dn: "drop n pages1 = drop (n - k) (drop k pages)" unfolding dr .
  note a = free_rest_step [OF assms(4), of d, unfolded dr(1)]
  have len: "length es = n - k" using a assms(2,3) by simp
  have "gives d i pages s (k + (n - k)) (take k pages1 @ (es @ drop n pages1)) t"
    by (rule gives_then [OF assms(1)]) (use a len assms(2,3) dn in simp_all)
  then show ?thesis using assms(2) by simp
qed

lemma free_pages_gives:
  assumes "kbase_mem_pool_free_pages i n pages dirty reclaimed s = (pages', t)" and "n \<le> length pages"
    and "orders_ok s" and "pool_next (pools s i) = None \<Longrightarrow> d"
  shows "gives d i pages s n pages' t"
proof -
  obtain k pages1 s1 where s1: "(if reclaimed then (0, pages, s) else add_to_pools i n pages dirty s) = (k, pages1, s1)"
    by (metis prod_cases3)
  obtain es s3 where s3: "free_rest i (take (n - k) (drop k pages1)) s1 = (es, s3)"
    by (cases "free_rest i (take (n - k) (drop k pages1)) s1")
  have "gives d i pages s k pages1 s1 \<and> k \<le> n"
    using s1 add_to_pools_gives [OF _ assms(2-4)] gives_0 by (auto split: if_splits)
  moreover have "pages' = take k pages1 @ es @ drop n pages1" "t = s3"
    using assms(1) unfolding kbase_mem_pool_free_pages_def s1 Let_def prod.case s3 by simp_all
  ultimately show ?thesis using free_rest_gives [OF _ _ assms(2) s3] by blast
qed

lemma free_pages_locked_gives:
  assumes "kbase_mem_pool_free_pages_locked i n pages dirty reclaimed s = (pages', t)" and "n \<le> length pages"
    and "pool_next (pools s i) = None \<Longrightarrow> d"
  shows "gives d i pages s n pages' t"
proof (cases reclaimed)
  case True
  obtain es s3 where s3: "free_rest i (take n pages) s = (es, s3)" by (cases "free_rest i (take n pages) s")
  then show ?thesis
    using assms(1) True free_rest_gives [OF gives_0, of n pages i s es s3 d] assms(2)
    by (simp add: kbase_mem_pool_free_pages_locked_def)
next
  case False
  define k where "k = min n (kbase_mem_pool_capacity i s)"
  obtain pages1 s1 where s1: "kbase_mem_pool_add_array_locked i n pages False dirty s = (pages1, s1)"
    by (cases "kbase_mem_pool_add_array_locked i n pages False dirty s")
  obtain es s3 where s3: "free_rest i (take (n - k) (drop k pages1)) s1 = (es, s3)"
    by (cases "free_rest i (take (n - k) (drop k pages1)) s1")
  have res: "pages' = take k pages1 @ es @ drop n pages1" "t = s3"
    using assms(1) unfolding kbase_mem_pool_free_pages_locked_def Let_def k_def [symmetric] s1 prod.case
    by (simp_all add: False s3)
  have g: "gives d i pages s n pages1 s1"
    by (rule add_array_gives [OF s1 [unfolded add_array_locked_eq] assms(2)]) (use assms(3) in blast)
  have "take n pages1 = take k pages1 @ take (n - k) (drop k pages1)"
    using take_add [of k "n - k" pages1] by (simp add: k_def)
  then have no: "head_pages (take k pages1) = []" "head_pages (take (n - k) (drop k pages1)) = []"
    using g by (simp_all add: gives_def)
  note a = free_rest_step [OF s3, of d, unfolded no(2)]
  have len: "length pages1 = length pages" "length es = n - k" "k \<le> n"
    using g a assms(2) by (simp_all add: gives_def k_def)
  have tk: "take n pages' = take k pages1 @ es" and dr: "drop n pages' = drop n pages1"
    using len assms(2) by (simp_all add: res(1))
  have "pool_step d s (pages_of s i (head_pages (take n pages))) t {#}"
    using g a pool_step_trans unfolding res(2) gives_def by (metis image_mset_empty mset.simps(1))
  moreover have "head_pages (take n pages') = []" unfolding tk using a no by simp
  moreover have "drop n pages' = drop n pages" unfolding dr using g by (simp add: gives_def)
  moreover have "length pages' = length pages" using len assms(2) by (simp add: res(1))
  ultimately show ?thesis unfolding gives_def by blast
qed

text \<open>Taking pages: under \<open>pools_ok\<close>, the new entries hold exactly the pages taken.\<close>

lemma entries_from_pool_step:
  "entries_from_pool i n s = (es, t) \<Longrightarrow> n \<le> pool_size (pools s i) \<Longrightarrow> pools_ok s \<Longrightarrow>
     (d \<Longrightarrow> pool_next (pools s i) = None) \<Longrightarrow>
     pool_step d s {#} t (pages_of s i (head_pages es)) \<and> length es = n * 2 ^ pool_order (pools s i)"
proof (induction n arbitrary: s es)
  case 0
  then show ?case by simp
next
  case (Suc n)
  from Suc.prems(2) have "pool_size (pools s i) \<noteq> 0" by simp
  then obtain p s1 where s1: "kbase_mem_pool_remove_locked i s = (Some p, s1)"
    "pool_size (pools s1 i) = pool_size (pools s i) - 1" by (rule remove_locked_Some)
  obtain es1 where es1: "entries_from_pool i n s1 = (es1, t)"
    and es: "es = page_entries (pool_order (pools s i)) p @ es1"
    using Suc.prems(1) s1 by (auto split: prod.splits)
  have a: "pool_step d s {#} s1 {#(p, pool_order (pools s i))#}"
    by (rule remove_locked_step [OF s1(1)]) (use Suc.prems(4) in blast)
  have ok: "pools_ok s1" by (rule pool_stepD(3) [OF a Suc.prems(3)]) simp
  have good: "good_page p" using pool_stepD(4) [OF a Suc.prems(3)] by simp
  have b: "pool_step d s1 {#} t (pages_of s1 i (head_pages es1)) \<and> length es1 = n * 2 ^ pool_order (pools s1 i)"
    by (rule Suc.IH [OF es1 _ ok]) (use Suc.prems s1 pool_step_shape(1) [OF a] in simp_all)
  have "pool_step d s {#} t (pages_of s1 i (head_pages es1) + {#(p, pool_order (pools s i))#})"
    using pool_step_trans [OF a pool_step_frame [OF conjunct1 [OF b], of "{#(p, pool_order (pools s i))#}", simplified]]
    by simp
  then show ?case
    using b pool_step_shape(2) [OF a, of i] page_entries_heads [OF good] by (simp add: es)
qed

lemma entries_from_kernel_step:
  "entries_from_kernel i n s = (es, failed, t) \<Longrightarrow> pools_ok s \<Longrightarrow>
     pool_step d s {#} t (pages_of s i (head_pages es)) \<and>
     (\<exists>m \<le> n. length es = m * 2 ^ pool_order (pools s i) \<and> (\<not> failed \<longrightarrow> m = n))"
proof (induction n arbitrary: s es)
  case 0
  then show ?case by simp
next
  case (Suc n)
  obtain r s1 where s1: "kbase_mem_alloc_page i s = (r, s1)" by (cases "kbase_mem_alloc_page i s")
  note a = alloc_page_step [OF s1, of d]
  show ?case
  proof (cases r)
    case None
    then show ?thesis using Suc.prems(1) s1 a by auto
  next
    case (Some p)
    obtain es1 where es1: "entries_from_kernel i n s1 = (es1, failed, t)"
      and es: "es = page_entries (pool_order (pools s i)) p @ es1"
      using Suc.prems(1) s1 Some by (auto split: prod.splits)
    have a': "pool_step d s {#} s1 {#(p, pool_order (pools s i))#}" using a Some by simp
    have ok: "pools_ok s1" by (rule pool_stepD(3) [OF a' Suc.prems(2)]) simp
    have good: "good_page p" using pool_stepD(4) [OF a' Suc.prems(2)] by simp
    note o = pool_step_shape(2) [OF a', of i]
    obtain m where b: "pool_step d s1 {#} t (pages_of s1 i (head_pages es1))"
      and m: "m \<le> n" "length es1 = m * 2 ^ pool_order (pools s1 i)" "\<not> failed \<longrightarrow> m = n"
      using Suc.IH [OF es1 ok] by blast
    have "pool_step d s {#} t (pages_of s1 i (head_pages es1) + {#(p, pool_order (pools s i))#})"
      using pool_step_trans [OF a' pool_step_frame [OF b, of "{#(p, pool_order (pools s i))#}", simplified]]
      by simp
    moreover have "Suc m \<le> Suc n \<and> length es = Suc m * 2 ^ pool_order (pools s i) \<and> (\<not> failed \<longrightarrow> Suc m = Suc n)"
      using m o page_entries_heads(2) [OF good] by (simp add: es)
    ultimately show ?thesis
      using o page_entries_heads(1) [OF good] by (auto simp: es)
  qed
qed

lemma pool_step_any: "pool_step d s {#} t Y \<Longrightarrow> pool_step False s {#} t Y"
  by (cases d) (simp_all add: pool_step_weaken)

text \<open>
  The outcome \<open>(r, pages', t)\<close> of a request for \<open>n\<close> entries: \<open>r\<close> entries with pages at the
  front of the array, or an error and nothing taken.
\<close>

definition alloc_outcome ::
  "bool \<Rightarrow> 'i::finite \<Rightarrow> nat \<Rightarrow> bool \<Rightarrow> u64 list \<Rightarrow> 'i mem_state \<Rightarrow> int \<Rightarrow> u64 list \<Rightarrow> 'i mem_state \<Rightarrow> bool" where
  "alloc_outcome d i n partial pages s r pages' t \<longleftrightarrow>
     length pages' = length pages \<and> drop n pages' = drop n pages \<and>
     (r < 0 \<longrightarrow> pool_step d s {#} t {#}) \<and>
     (0 \<le> r \<longrightarrow> nat r \<le> n \<and> (\<not> partial \<longrightarrow> nat r = n) \<and>
        pool_step d s {#} t (pages_of s i (head_pages (take (nat r) pages'))))"

lemma put_entries_props:
  assumes "k + length es \<le> length pages"
  shows "length (put_entries k es pages) = length pages"
    and "take k (put_entries k es pages) = take k pages"
    and "take (k + length es) (put_entries k es pages) = take k pages @ es"
    and "drop (k + length es) (put_entries k es pages) = drop (k + length es) pages"
  using assms by (simp_all add: put_entries_def)

lemma drop_mono_eq: "drop k xs = drop k ys \<Longrightarrow> k \<le> n \<Longrightarrow> drop n xs = drop n ys"
  by (metis drop_drop le_add_diff_inverse2)

lemma alloc_rollback:
  assumes "pool_step d s {#} t (pages_of s i (head_pages (take k pages1)))"
    and "kbase_mem_pool_free_pages i k pages1 False False t = (pages', u)"
    and "k \<le> n" "n \<le> length pages1" "orders_ok t" "pool_next (pools t i) = None \<Longrightarrow> d"
    and "length pages1 = length pages" "drop n pages1 = drop n pages" "r < 0"
  shows "alloc_outcome d i n partial pages s r pages' u"
proof -
  have g: "gives d i pages1 t k pages' u"
    by (rule free_pages_gives [OF assms(2)]) (use assms(3-6) in simp_all)
  have "pool_step d s {#} u {#}"
    by (rule pool_step_trans [OF assms(1)])
      (use g pool_step_shape(2) [OF assms(1), of i] in \<open>simp add: gives_def\<close>)
  moreover have "drop n pages' = drop n pages"
    using drop_mono_eq [of k pages' pages1 n] g assms(3,8) by (simp add: gives_def)
  ultimately show ?thesis using g assms(7,9) by (simp add: alloc_outcome_def gives_def)
qed

text \<open>
  \<open>fronted d i n k pages pages1 s t\<close>: the first \<open>k\<close> of \<open>n\<close> entries have been filled from
  the pool \<open>i\<close>.
\<close>

definition fronted ::
  "bool \<Rightarrow> 'i::finite \<Rightarrow> nat \<Rightarrow> nat \<Rightarrow> u64 list \<Rightarrow> u64 list \<Rightarrow> 'i mem_state \<Rightarrow> 'i mem_state \<Rightarrow> bool" where
  "fronted d i n k pages pages1 s t \<longleftrightarrow>
     pools_ok t \<and> pool_step d s {#} t (pages_of s i (head_pages (take k pages1))) \<and>
     k \<le> n \<and> n \<le> length pages1 \<and> length pages1 = length pages \<and> drop n pages1 = drop n pages \<and>
     (n - k) div 2 ^ pool_order (pools s i) * 2 ^ pool_order (pools s i) = n - k"

lemma fronted_entries:
  assumes "pools_ok s" and "n \<le> length pages" and "m * 2 ^ pool_order (pools s i) = n"
    and "entries_from_pool i (min m (pool_size (pools s i))) s = (es, t)"
    and "d \<Longrightarrow> pool_next (pools s i) = None"
  shows "fronted d i n (length es) pages (put_entries 0 es pages) s t"
proof -
  have a: "pool_step d s {#} t (pages_of s i (head_pages es))"
    and les: "length es = min m (pool_size (pools s i)) * 2 ^ pool_order (pools s i)"
    using entries_from_pool_step [OF assms(4) _ assms(1), of d] assms(5) by simp_all
  have kn: "length es \<le> n" unfolding les assms(3) [symmetric] by simp
  have "pools_ok t" by (rule pool_stepD(3) [OF a assms(1)]) simp
  moreover have "(n - length es) div 2 ^ pool_order (pools s i) * 2 ^ pool_order (pools s i) = n - length es"
    unfolding les assms(3) [symmetric] by (simp add: diff_mult_distrib [symmetric])
  moreover have "drop n (put_entries 0 es pages) = drop n pages"
    using drop_mono_eq [of "length es" "put_entries 0 es pages" pages n] put_entries_props [of 0 es pages] kn assms(2)
    by simp
  ultimately show ?thesis
    using put_entries_props [of 0 es pages] kn assms(2) a by (simp add: fronted_def)
qed

lemma alloc_from_kernel_outcome:
  assumes f: "fronted d i n k pages pages1 s t" and "pool_next (pools s i) = None \<Longrightarrow> d"
    and res: "alloc_from_kernel i n k pages1 partial t = (r, pages', u)"
  shows "alloc_outcome d i n partial pages s r pages' u"
proof -
  let ?o = "pool_order (pools s i)"
  note f = f [unfolded fronted_def]
  have a: "pool_step d s {#} t (pages_of s i (head_pages (take k pages1)))" using f by blast
  note o1 = pool_step_shape(2) [OF a, of i] and nx1 = pool_step_shape(1) [OF a, of i]
  obtain es failed s2 where s2: "entries_from_kernel i ((n - k) div 2 ^ ?o) t = (es, failed, s2)"
    by (metis prod_cases3)
  obtain m where b: "pool_step d t {#} s2 (pages_of s i (head_pages es))"
    and m: "m \<le> (n - k) div 2 ^ ?o" "length es = m * 2 ^ ?o" "\<not> failed \<longrightarrow> m = (n - k) div 2 ^ ?o"
    using entries_from_kernel_step [OF s2, of d] f unfolding o1 by blast
  define j where "j = k + length es"
  have jn: "j \<le> n" "\<not> failed \<longrightarrow> j = n"
    using m f mult_le_mono1 [OF m(1), of "2 ^ ?o"] by (auto simp: j_def)
  define pages2 where "pages2 = put_entries k es pages1"
  have room: "k + length es \<le> length pages1" using jn(1) f by (simp add: j_def)
  note pe = put_entries_props [OF room, folded pages2_def j_def]
  have p2: "length pages2 = length pages" "drop n pages2 = drop n pages"
    using pe f drop_mono_eq [OF pe(4) jn(1)] by simp_all
  have st: "pool_step d s {#} s2 (pages_of s i (head_pages (take j pages2)))"
    using pool_step_trans [OF a pool_step_frame [OF b, of "pages_of s i (head_pages (take k pages1))", simplified]]
    unfolding pe(3) by (simp add: ac_simps)
  note res = res [unfolded alloc_from_kernel_def o1 s2 Let_def prod.case, folded j_def pages2_def]
  show ?thesis
  proof (cases "failed \<and> \<not> partial")
    case True
    obtain ps s3 where s3: "kbase_mem_pool_free_pages i j pages2 False False s2 = (ps, s3)"
      by (cases "kbase_mem_pool_free_pages i j pages2 False False s2")
    have "alloc_outcome d i n partial pages s (-12) ps s3"
      by (rule alloc_rollback [OF st s3 jn(1)])
        (use p2 f assms(2) in \<open>simp_all add: orders_ok_step [OF pools_ok_orders b] pool_step_shape(1) [OF b] nx1\<close>)
    then show ?thesis using res True s3 by simp
  next
    case False
    then have "r = int j" "pages' = pages2" "u = s2" using res by auto
    then show ?thesis using st jn False p2 by (auto simp: alloc_outcome_def)
  qed
qed

lemma alloc_via_next_outcome:
  assumes f: "fronted False i n k pages pages1 s t" and nx: "pool_next (pools s i) = Some nx"
    and o: "pool_order (pools s nx) = pool_order (pools s i)"
    and out: "alloc_outcome d nx (n - k) partial (drop k pages1) t e ps s2"
    and res: "alloc_via_next i k pages1 (e, ps, s2) = (r, pages', u)"
  shows "alloc_outcome False i n partial pages s r pages' u"
proof -
  note f = f [unfolded fronted_def] and out = out [unfolded alloc_outcome_def]
  let ?X = "pages_of s i (head_pages (take k pages1))"
  have a: "pool_step False s {#} t ?X" using f by blast
  note sh = pool_step_shape [OF a]
  define pages2 where "pages2 = take k pages1 @ ps"
  have p2: "length pages2 = length pages" "drop n pages2 = drop n pages" "take k pages2 = take k pages1"
    using out f by (simp_all add: pages2_def)
  show ?thesis
  proof (cases "e < 0")
    case True
    obtain ps' s3 where s3: "kbase_mem_pool_free_pages i k pages2 False False s2 = (ps', s3)"
      by (cases "kbase_mem_pool_free_pages i k pages2 False False s2")
    have b: "pool_step False t {#} s2 {#}" using out True pool_step_any by blast
    then have "pool_step False s {#} s2 (pages_of s i (head_pages (take k pages2)))"
      using pool_step_trans [OF a pool_step_frame [OF b, of ?X, simplified]] p2(3) by simp
    then have "alloc_outcome False i n partial pages s e ps' s3"
      by (rule alloc_rollback [OF _ s3])
        (use p2 f True nx in \<open>simp_all add: orders_ok_step [OF pools_ok_orders b] pool_step_shape(1) [OF b] sh\<close>)
    then show ?thesis using res True s3 by (simp add: pages2_def)
  next
    case False
    have ne: "nat e \<le> n - k" "\<not> partial \<longrightarrow> nat e = n - k"
      and b: "pool_step False t {#} s2 (pages_of s i (head_pages (take (nat e) ps)))"
      using out False pool_step_any by (auto simp: sh o)
    have tk: "take (nat (int k + e)) pages2 = take k pages1 @ take (nat e) ps"
      using False f by (simp add: pages2_def nat_add_distrib)
    have "pool_step False s {#} s2 (pages_of s i (head_pages (take (nat (int k + e)) pages2)))"
      using pool_step_trans [OF a pool_step_frame [OF b, of ?X, simplified]] unfolding tk by (simp add: ac_simps)
    moreover have "r = int k + e" "pages' = pages2" "u = s2" using res False by (simp_all add: pages2_def)
    moreover have "k + nat e \<le> n" "\<not> partial \<longrightarrow> k + nat e = n" using ne f by auto
    ultimately show ?thesis
      using False p2 by (simp add: alloc_outcome_def nat_add_distrib)
  qed
qed

lemma alloc_pages_outcome:
  assumes "ranked r s" and "pools_ok s" and "n \<le> length pages"
  shows "\<exists>res pages' t. kbase_mem_pool_alloc_pages i n pages partial s = Some (res, pages', t) \<and>
    alloc_outcome (pool_next (pools s i) = None) i n partial pages s res pages' t"
  using assms
proof (induction "r i" arbitrary: i n pages s rule: less_induct)
  case less
  let ?o = "pool_order (pools s i)" and ?d = "pool_next (pools s i) = None"
  define m where "m = n div 2 ^ ?o"
  obtain es t where t: "entries_from_pool i (min m (pool_size (pools s i))) s = (es, t)"
    by (cases "entries_from_pool i (min m (pool_size (pools s i))) s")
  define k pages1 where "k = length es" and "pages1 = put_entries 0 es pages"
  note unf = kbase_mem_pool_alloc_pages.simps [of i n pages] Let_def m_def [symmetric] t
    prod.case k_def [symmetric] pages1_def [symmetric]
  show ?case
  proof (cases "m * 2 ^ ?o = n")
    case False
    have eq: "kbase_mem_pool_alloc_pages i n pages partial s = Some (-22, pages, s)"
      unfolding unf using False by simp
    show ?thesis unfolding eq
      by (intro exI [of _ "-22"] exI [of _ pages] exI [of _ s]) (simp add: alloc_outcome_def)
  next
    case True
    have f: "fronted ?d i n k pages pages1 s t"
      unfolding k_def pages1_def by (rule fronted_entries [OF less.prems(2,3) True t])
    then have a: "pool_step ?d s {#} t (pages_of s i (head_pages (take k pages1)))" and ok: "pools_ok t"
      and room: "n - k \<le> length (drop k pages1)" by (auto simp: fronted_def)
    note nx1 = pool_step_shape(1) [OF a]
    show ?thesis
    proof (cases "pool_next (pools s i)")
      case None
      have eq: "kbase_mem_pool_alloc_pages i n pages partial s = Some (alloc_from_kernel i n k pages1 partial t)"
        unfolding unf by (simp add: True nx1 None)
      show ?thesis unfolding eq
        by (cases "alloc_from_kernel i n k pages1 partial t")
          (use alloc_from_kernel_outcome [OF f] in \<open>simp add: None\<close>)
    next
      case (Some nx)
      show ?thesis
      proof (cases "k = n")
        case k: True
        have eq: "kbase_mem_pool_alloc_pages i n pages partial s = Some (int k, pages1, t)"
          unfolding unf by (simp add: True nx1 Some k)
        show ?thesis unfolding eq
          by (intro exI [of _ "int k"] exI [of _ pages1] exI [of _ t] conjI refl)
            (use f k in \<open>simp add: alloc_outcome_def fronted_def\<close>)
      next
        case False
        obtain e ps s2 where s2: "kbase_mem_pool_alloc_pages nx (n - k) (drop k pages1) partial t = Some (e, ps, s2)"
          and out: "alloc_outcome (pool_next (pools t nx) = None) nx (n - k) partial (drop k pages1) t e ps s2"
          using less.hyps [OF rankedD [OF less.prems(1) Some] ranked_step [OF less.prems(1) a] ok room] by blast
        have eq: "kbase_mem_pool_alloc_pages i n pages partial s = Some (alloc_via_next i k pages1 (e, ps, s2))"
          unfolding unf by (simp add: True nx1 Some False s2 del: alloc_via_next.simps)
        have o: "pool_order (pools s nx) = ?o"
          by (rule orders_okD [OF pools_ok_orders [OF less.prems(2)] Some])
        show ?thesis unfolding eq
          by (cases "alloc_via_next i k pages1 (e, ps, s2)")
            (use alloc_via_next_outcome [OF _ Some o out] f in \<open>simp add: Some del: alloc_via_next.simps\<close>)
      qed
    qed
  qed
qed

lemma alloc_pages_locked_outcome:
  assumes "kbase_mem_pool_alloc_pages_locked i n pages s = (r, pages', t)" and "pools_ok s" and "n \<le> length pages"
  shows "alloc_outcome (pool_next (pools s i) = None) i n False pages s r pages' t"
proof -
  let ?o = "pool_order (pools s i)"
  define m where "m = n div 2 ^ ?o"
  note d = assms(1) [unfolded kbase_mem_pool_alloc_pages_locked_def Let_def, folded m_def]
  show ?thesis
  proof (cases "m * 2 ^ ?o = n \<and> m \<le> pool_size (pools s i)")
    case True
    obtain es s1 where s1: "entries_from_pool i m s = (es, s1)" by (cases "entries_from_pool i m s")
    have res: "r = int n" "pages' = put_entries 0 es pages" "t = s1" using d True s1 by simp_all
    have a: "pool_step (pool_next (pools s i) = None) s {#} s1 (pages_of s i (head_pages es))"
      and les: "length es = n"
      using entries_from_pool_step [OF s1 _ assms(2), of "pool_next (pools s i) = None"] True by simp_all
    show ?thesis
      using put_entries_props [of 0 es pages] a les assms(3) by (simp add: alloc_outcome_def res)
  next
    case False
    then show ?thesis using d by (auto simp: alloc_outcome_def split: if_splits)
  qed
qed

end
