(* ===== verification/KB_PoolRuns.thy ===== *)
theory KB_PoolRuns
  imports KB_PoolSteps
begin

text \<open>
  Runs of a system with pools of pages: the users of the pools call their functions in any order
  on the pages they hold, and write to these. Every page the kernel has given is in one place,
  and what a context has written does not reach another context through a pool of the device.
\<close>

section \<open>Runs\<close>

text \<open>
  What the rest of the driver does with the pools: one of their functions at a time, on pages it
  has got from them before, and writes to the pages it holds. \<open>given\<close> are the pages that an
  operation hands in, \<open>exec_op\<close> gives those that it hands out.
\<close>

datatype 'i pool_op =
    Alloc 'i | Alloc_Locked 'i | Free 'i u64 bool | Free_Locked 'i u64 bool
  | Alloc_Pages 'i nat bool | Alloc_Pages_Locked 'i nat
  | Free_Pages 'i nat "u64 list" bool bool | Free_Pages_Locked 'i nat "u64 list" bool bool
  | Grow 'i nat | Trim 'i nat | Set_Max_Size 'i nat | Reclaim 'i nat | Mark_Dying 'i | Term 'i

fun op_pool :: "'i pool_op \<Rightarrow> 'i" where
  "op_pool (Alloc i) = i" | "op_pool (Alloc_Locked i) = i"
| "op_pool (Free i p b) = i" | "op_pool (Free_Locked i p b) = i"
| "op_pool (Alloc_Pages i n b) = i" | "op_pool (Alloc_Pages_Locked i n) = i"
| "op_pool (Free_Pages i n ps b c) = i" | "op_pool (Free_Pages_Locked i n ps b c) = i"
| "op_pool (Grow i n) = i" | "op_pool (Trim i n) = i" | "op_pool (Set_Max_Size i n) = i"
| "op_pool (Reclaim i n) = i" | "op_pool (Mark_Dying i) = i" | "op_pool (Term i) = i"

fun given :: "'i pool_op \<Rightarrow> 'i mem_state \<Rightarrow> (u64 \<times> nat) multiset" where
  "given (Free i p b) s = pages_of s i [p]"
| "given (Free_Locked i p b) s = pages_of s i [p]"
| "given (Free_Pages i n ps b c) s = pages_of s i (head_pages (take n ps))"
| "given (Free_Pages_Locked i n ps b c) s = pages_of s i (head_pages (take n ps))"
| "given _ s = {#}"

text \<open>The caller's arrays: of \<open>n\<close> cleared entries, or at least as long as it says.\<close>

fun fits :: "'i pool_op \<Rightarrow> bool" where
  "fits (Free_Pages i n ps b c) \<longleftrightarrow> n \<le> length ps"
| "fits (Free_Pages_Locked i n ps b c) \<longleftrightarrow> n \<le> length ps"
| "fits _ \<longleftrightarrow> True"

definition got_entries :: "'i mem_state \<Rightarrow> 'i \<Rightarrow> int \<times> u64 list \<times> 'i mem_state \<Rightarrow> (u64 \<times> nat) multiset \<times> 'i mem_state" where
  "got_entries s i = (\<lambda>(r, pages, t). (if r < 0 then {#} else pages_of s i (head_pages (take (nat r) pages)), t))"

definition got_page :: "'i mem_state \<Rightarrow> 'i \<Rightarrow> u64 option \<times> 'i mem_state \<Rightarrow> (u64 \<times> nat) multiset \<times> 'i mem_state" where
  "got_page s i = (\<lambda>(r, t). (case r of None \<Rightarrow> {#} | Some p \<Rightarrow> pages_of s i [p], t))"

fun exec_op :: "'i pool_op \<Rightarrow> 'i mem_state \<Rightarrow> ((u64 \<times> nat) multiset \<times> 'i mem_state) option" where
  "exec_op (Alloc i) s = map_option (got_page s i) (kbase_mem_pool_alloc i s)"
| "exec_op (Alloc_Locked i) s = Some (got_page s i (kbase_mem_pool_alloc_locked i s))"
| "exec_op (Free i p dirty) s = Some ({#}, kbase_mem_pool_free i p dirty s)"
| "exec_op (Free_Locked i p dirty) s = Some ({#}, kbase_mem_pool_free_locked i p dirty s)"
| "exec_op (Alloc_Pages i n partial) s =
     map_option (got_entries s i) (kbase_mem_pool_alloc_pages i n (replicate n 0) partial s)"
| "exec_op (Alloc_Pages_Locked i n) s =
     Some (got_entries s i (kbase_mem_pool_alloc_pages_locked i n (replicate n 0) s))"
| "exec_op (Free_Pages i n ps dirty reclaimed) s =
     Some ({#}, snd (kbase_mem_pool_free_pages i n ps dirty reclaimed s))"
| "exec_op (Free_Pages_Locked i n ps dirty reclaimed) s =
     Some ({#}, snd (kbase_mem_pool_free_pages_locked i n ps dirty reclaimed s))"
| "exec_op (Grow i n) s = Some ({#}, snd (kbase_mem_pool_grow i n s))"
| "exec_op (Trim i n) s = Some ({#}, kbase_mem_pool_trim i n s)"
| "exec_op (Set_Max_Size i n) s = Some ({#}, kbase_mem_pool_set_max_size i n s)"
| "exec_op (Reclaim i n) s = Some ({#}, snd (kbase_mem_pool_reclaim_scan_objects i n s))"
| "exec_op (Mark_Dying i) s = Some ({#}, kbase_mem_pool_mark_dying i s)"
| "exec_op (Term i) s = Some ({#}, kbase_mem_pool_term i s)"

lemma alloc_outcome_got:
  assumes "alloc_outcome d i n partial pages s r pages' t"
  shows "pool_step d s {#} (snd (got_entries s i (r, pages', t))) (fst (got_entries s i (r, pages', t)))"
  using assms by (simp add: alloc_outcome_def got_entries_def)

lemma pool_step_given:
  assumes "pool_step b s X t {#}"
  shows "pool_step (X \<noteq> {#} \<and> b) s X t {#}"
  using assms pool_step_empty [of b s t] by (cases "X = {#}") auto

text \<open>Every operation returns and meets the specification.\<close>

lemma exec_op_step:
  assumes "ranked r s" and "pools_ok s" and "fits op"
  shows "\<exists>Y t. exec_op op s = Some (Y, t) \<and>
    pool_step (given op s \<noteq> {#} \<and> pool_next (pools s (op_pool op)) = None) s (given op s) t Y"
proof (cases op)
  case (Alloc i)
  obtain p t where "kbase_mem_pool_alloc i s = Some (p, t)"
    and "pool_step False s {#} t (case p of None \<Rightarrow> {#} | Some q \<Rightarrow> {#(q, pool_order (pools s i))#})"
    using alloc_step [OF assms(1) pools_ok_orders [OF assms(2)], of i] by blast
  then show ?thesis using Alloc by (cases p) (simp_all add: got_page_def)
next
  case (Alloc_Locked i)
  obtain p t where t: "kbase_mem_pool_remove_locked i s = (p, t)" by (cases "kbase_mem_pool_remove_locked i s")
  then have "pool_step False s {#} t (case p of None \<Rightarrow> {#} | Some q \<Rightarrow> pages_of s i [q])"
    using remove_locked_step [of i s _ t False] remove_locked_None [of i s t] by (cases p) auto
  then show ?thesis using t Alloc_Locked by (simp add: got_page_def kbase_mem_pool_alloc_locked_def)
next
  case (Free i p dirty)
  then show ?thesis using free_step [OF pools_ok_orders [OF assms(2)], of i _ p dirty] by simp
next
  case (Free_Locked i p dirty)
  then show ?thesis using free_locked_step [of s i _ p dirty] by simp
next
  case (Alloc_Pages i n partial)
  obtain res pages' t where t: "kbase_mem_pool_alloc_pages i n (replicate n 0) partial s = Some (res, pages', t)"
    and o: "alloc_outcome (pool_next (pools s i) = None) i n partial (replicate n 0) s res pages' t"
    using alloc_pages_outcome [OF assms(1,2), of n "replicate n 0" i partial] by auto
  show ?thesis using t pool_step_any [OF alloc_outcome_got [OF o]] Alloc_Pages
    by (cases "got_entries s i (res, pages', t)") simp
next
  case (Alloc_Pages_Locked i n)
  obtain res pages' t where t: "kbase_mem_pool_alloc_pages_locked i n (replicate n 0) s = (res, pages', t)"
    by (metis prod_cases3)
  have o: "alloc_outcome (pool_next (pools s i) = None) i n False (replicate n 0) s res pages' t"
    by (rule alloc_pages_locked_outcome [OF t assms(2)]) simp
  show ?thesis using t pool_step_any [OF alloc_outcome_got [OF o]] Alloc_Pages_Locked
    by (cases "got_entries s i (res, pages', t)") simp
next
  case (Free_Pages i n ps dirty reclaimed)
  have n: "n \<le> length ps" using assms(3) Free_Pages by simp
  have "gives (pool_next (pools s i) = None) i ps s n (fst (kbase_mem_pool_free_pages i n ps dirty reclaimed s))
      (snd (kbase_mem_pool_free_pages i n ps dirty reclaimed s))"
    by (rule free_pages_gives [OF surjective_pairing n pools_ok_orders [OF assms(2)]])
  from pool_step_given [OF conjunct1 [OF this [unfolded gives_def]]] show ?thesis
    using Free_Pages by simp
next
  case (Free_Pages_Locked i n ps dirty reclaimed)
  have n: "n \<le> length ps" using assms(3) Free_Pages_Locked by simp
  have "gives (pool_next (pools s i) = None) i ps s n (fst (kbase_mem_pool_free_pages_locked i n ps dirty reclaimed s))
      (snd (kbase_mem_pool_free_pages_locked i n ps dirty reclaimed s))"
    by (rule free_pages_locked_gives [OF surjective_pairing n])
  from pool_step_given [OF conjunct1 [OF this [unfolded gives_def]]] show ?thesis
    using Free_Pages_Locked by simp
next
  case (Grow i n)
  then show ?thesis by (simp add: grow_step [OF surjective_pairing])
next
  case (Trim i n)
  then show ?thesis by (simp add: trim_step)
next
  case (Set_Max_Size i n)
  then show ?thesis by (simp add: set_max_size_step)
next
  case (Reclaim i n)
  then show ?thesis by (simp add: reclaim_scan_step [OF surjective_pairing])
next
  case (Mark_Dying i)
  then show ?thesis by (simp add: mark_dying_step)
next
  case (Term i)
  then show ?thesis by (simp add: term_step [OF pools_ok_orders [OF assms(2)]])
qed

text \<open>
  The kernel never hands out a page that overlaps one it has handed out and not got back.
  \<open>extent\<close> are the frames of a page.
\<close>

definition extent :: "u64 \<times> nat \<Rightarrow> u64 set" where
  "extent x = (\<lambda>j. fst x + of_nat (PAGE_SIZE * j)) ` {0..<2 ^ snd x}"

definition kernel_ok :: "'i mem_state \<Rightarrow> bool" where
  "kernel_ok s \<longleftrightarrow>
     (\<forall>x y. {#x, y#} \<subseteq># mset (taken s) - mset (released s) \<longrightarrow> extent x \<inter> extent y = {})"

text \<open>
  The runs: operations on held pages, and writes of a frame \<open>a\<close> of a held page while the kernel
  keeps its promise. \<open>contexts_only\<close> restricts a run to operations that hand pages in to pools
  that have a next one, those of contexts.
\<close>

definition write_frame :: "u64 \<Rightarrow> frame \<Rightarrow> 'i mem_state \<Rightarrow> 'i mem_state" where
  "write_frame a f s = s\<lparr> page_mem := (page_mem s)\<lparr> frames := (frames (page_mem s))(a := f) \<rparr> \<rparr>"

inductive pool_run :: "bool \<Rightarrow> 'i::finite mem_state \<Rightarrow> 'i mem_state \<times> (u64 \<times> nat) multiset \<Rightarrow> bool"
  for contexts_only :: bool and s0 :: "'i mem_state" where
  start: "pool_run contexts_only s0 (s0, {#})"
| oper: "pool_run contexts_only s0 (s, held) \<Longrightarrow> given op s \<subseteq># held \<Longrightarrow> fits op \<Longrightarrow>
     (contexts_only \<Longrightarrow> given op s \<noteq> {#} \<Longrightarrow> pool_next (pools s (op_pool op)) \<noteq> None) \<Longrightarrow>
     exec_op op s = Some (Y, t) \<Longrightarrow> pool_run contexts_only s0 (t, held - given op s + Y)"
| wr: "pool_run contexts_only s0 (s, held) \<Longrightarrow> kernel_ok s \<Longrightarrow> x \<in># held \<Longrightarrow> a \<in> extent x \<Longrightarrow>
     pool_run contexts_only s0 (write_frame a f s, held)"

definition fresh_pools :: "('i \<Rightarrow> nat) \<Rightarrow> 'i::finite mem_state \<Rightarrow> bool" where
  "fresh_pools r s \<longleftrightarrow> ranked r s \<and> pools_ok s \<and> (\<forall>i. page_list (pools s i) = []) \<and> taken s = [] \<and> released s = []"

definition run_inv :: "bool \<Rightarrow> ('i \<Rightarrow> nat) \<Rightarrow> 'i::finite mem_state \<Rightarrow> (u64 \<times> nat) multiset \<Rightarrow> bool" where
  "run_inv contexts_only r s held \<longleftrightarrow>
     ranked r s \<and> pools_ok s \<and> (\<forall>x \<in># held. good_page (fst x)) \<and>
     mset (taken s) = pool_pages s + mset (released s) + held \<and> (contexts_only \<longrightarrow> device_clear s)"

lemma run_inv_start: "fresh_pools r s \<Longrightarrow> run_inv b r s {#}"
  by (simp add: fresh_pools_def run_inv_def pool_pages_def pool_mset_def device_clear_def)

lemma run_inv_op:
  assumes inv: "run_inv b r s held" and "given op s \<subseteq># held" and "fits op"
    and dev: "b \<Longrightarrow> given op s \<noteq> {#} \<Longrightarrow> pool_next (pools s (op_pool op)) \<noteq> None"
    and ex: "exec_op op s = Some (Y, t)"
  shows "run_inv b r t (held - given op s + Y)"
proof -
  let ?X = "given op s"
  define W where "W = held - ?X"
  have held: "held = ?X + W" using assms(2) by (simp add: W_def)
  have i: "ranked r s" "pools_ok s" "\<forall>x \<in># ?X. good_page (fst x)" "\<forall>x \<in># W. good_page (fst x)"
    "mset (taken s) = pool_pages s + mset (released s) + (?X + W)" "b \<Longrightarrow> device_clear s"
    using inv held by (auto simp: run_inv_def)
  obtain d where st: "pool_step d s ?X t Y"
    and d: "d \<longleftrightarrow> ?X \<noteq> {#} \<and> pool_next (pools s (op_pool op)) = None"
    using exec_op_step [OF i(1,2) assms(3)] ex by auto
  have bal: "pool_pages s + mset (released s) + ?X + mset (taken t) =
      pool_pages t + mset (released t) + Y + mset (taken s)"
    using pool_stepD(5) [OF st i(2,3)] by (simp add: balanced_def)
  have "mset (taken t) = pool_pages t + mset (released t) + (W + Y)"
    using bal unfolding i(5) by (simp add: ac_simps)
  moreover have "device_clear t" if b
    by (rule pool_stepD(6) [OF st i(2,3,6)]) (use that dev d in auto)
  ultimately show ?thesis
    using ranked_step [OF i(1) st] pool_stepD(3,4) [OF st i(2,3)] i(4)
    by (auto simp: run_inv_def W_def [symmetric] ac_simps)
qed

lemma run_inv_write:
  assumes inv: "run_inv b r s held" and "kernel_ok s" and x: "x \<in># held" and a: "a \<in> extent x"
  shows "run_inv b r (write_frame a f s) held"
proof -
  let ?t = "write_frame a f s"
  have eq: "pools ?t = pools s" "taken ?t = taken s" "released ?t = released s" "answers ?t = answers s"
    by (simp_all add: write_frame_def)
  have "device_clear ?t" if b
    unfolding device_clear_def eq
  proof (intro allI impI ballI)
    fix i p
    assume dev: "pool_next (pools s i) = None" and p: "p \<in> set (page_list (pools s i))"
    let ?y = "(p, pool_order (pools s i))"
    have "?y \<in># pool_pages s"
      unfolding pool_pages_def using p by (auto simp: pool_mset_def set_mset_sum)
    then obtain A B where "pool_pages s = add_mset ?y A" "held = add_mset x B"
      using x by (auto dest!: multi_member_split)
    then have "{#?y, x#} \<subseteq># pool_pages s + held" by simp
    then have "{#?y, x#} \<subseteq># mset (taken s) - mset (released s)"
      using inv by (simp add: run_inv_def ac_simps)
    then have "extent ?y \<inter> extent x = {}" using assms(2) unfolding kernel_ok_def by blast
    then have "a \<notin> extent ?y" using a by blast
    moreover have "is_clear s ?y" using inv that dev p by (simp add: run_inv_def device_clear_def)
    ultimately show "is_clear ?t ?y" by (auto simp: is_clear_def extent_def write_frame_def)
  qed
  then show ?thesis
    using inv by (simp add: run_inv_def ranked_def pools_ok_def pool_pages_def eq)
qed

lemma pool_run_inv:
  assumes "pool_run b s0 sh" and "fresh_pools r s0"
  shows "run_inv b r (fst sh) (snd sh)"
  using assms
proof (induction rule: pool_run.induct)
  case start
  then show ?case by (simp add: run_inv_start)
next
  case (oper s held op Y t)
  then show ?case using run_inv_op [of b r s held op Y t] by simp
next
  case (wr s held x a f)
  then show ?case using run_inv_write [of b r s held x a f] by simp
qed

section \<open>Properties\<close>

text \<open>
  A system with a pool of a context (\<open>False\<close>) and one of the device (\<open>True\<close>), both for two
  pages, and a kernel that has four pages to give.
\<close>

definition demo_memory :: "bool mem_state" where
  "demo_memory =
     \<lparr> pools = (\<lambda>i. \<lparr> page_list = [], pool_size = 0, max_size = 0, pool_order = 0, pool_group_id = 0,
                      pool_next = None, dying = False, dont_reclaim = False \<rparr>),
       page_mem = \<lparr> frames = (\<lambda>a j. 1), mappable = (\<lambda>a. True) \<rparr>,
       answers = [Fresh_Page 0x1000, Fresh_Page 0x2000, Fresh_Page 0x3000, Fresh_Page 0x4000],
       taken = [], released = [], synced = [] \<rparr>"

definition demo_pools :: "bool mem_state" where
  "demo_pools =
     snd (kbase_mem_pool_init False 2 0 0 (Some True)
       (snd (kbase_mem_pool_init True 2 0 0 None demo_memory)))"

lemma demo_pools_simps:
  "pools demo_pools False = \<lparr> page_list = [], pool_size = 0, max_size = 2, pool_order = 0, pool_group_id = 0,
     pool_next = Some True, dying = False, dont_reclaim = False \<rparr>"
  "pools demo_pools True = \<lparr> page_list = [], pool_size = 0, max_size = 2, pool_order = 0, pool_group_id = 0,
     pool_next = None, dying = False, dont_reclaim = False \<rparr>"
  "taken demo_pools = []" "released demo_pools = []"
  "answers demo_pools = [Fresh_Page 0x1000, Fresh_Page 0x2000, Fresh_Page 0x3000, Fresh_Page 0x4000]"
  by (simp_all add: demo_pools_def kbase_mem_pool_init_def demo_memory_def)

lemma demo_pools_fresh: "fresh_pools (\<lambda>i. if i then 0 else 1) demo_pools"
proof -
  have g: "good_page 0x1000" "good_page 0x2000" "good_page 0x3000" "good_page 0x4000"
    by (simp_all add: good_page_def page_aligned_def)
  have all: "(\<forall>i. P i) \<longleftrightarrow> P False \<and> P True" for P by (metis (full_types))
  show ?thesis
    by (simp add: fresh_pools_def ranked_def pools_ok_def all demo_pools_simps good_answer_def g)
qed

text \<open>
  A run: the context asks for a page and gets the first one of the kernel, writes to it, its
  pool may no longer hold pages, and the page goes back.
\<close>

definition demo_run1 :: "bool mem_state" where
  "demo_run1 = take_page 0x1000 0 (demo_pools\<lparr> answers := [Fresh_Page 0x2000, Fresh_Page 0x3000, Fresh_Page 0x4000] \<rparr>)"

definition demo_run4 :: "bool mem_state" where
  "demo_run4 = kbase_mem_pool_free False 0x1000 True
     (kbase_mem_pool_set_max_size False 0 (write_frame 0x1000 (\<lambda>j. 7) demo_run1))"

lemma demo_run1_alloc:
  "exec_op (Alloc_Pages False 1 False) demo_pools = Some ({#(0x1000, 0)#}, demo_run1)"
proof -
  have g: "good_page 0x1000" by (simp add: good_page_def page_aligned_def)
  have e: "page_entries 0 0x1000 = [as_tagged 0x1000]" by (simp add: page_entries_def)
  then have h: "head_pages [as_tagged 0x1000] = [0x1000]"
    using page_entries_heads(1) [OF g, of 0] by simp
  have k: "entries_from_kernel True 1 demo_pools = ([as_tagged 0x1000], False, demo_run1)"
    by (simp add: kbase_mem_alloc_page_def demo_pools_simps demo_run1_def e)
  have "kbase_mem_pool_alloc_pages True 1 [0] False demo_pools = Some (1, [as_tagged 0x1000], demo_run1)"
    unfolding kbase_mem_pool_alloc_pages.simps [of True 1 "[0]" False demo_pools]
    by (simp add: demo_pools_simps put_entries_def alloc_from_kernel_def k [simplified])
  then have "kbase_mem_pool_alloc_pages False 1 [0] False demo_pools = Some (1, [as_tagged 0x1000], demo_run1)"
    unfolding kbase_mem_pool_alloc_pages.simps [of False 1 "[0]" False demo_pools]
    by (simp add: demo_pools_simps put_entries_def)
  then show ?thesis using h by (simp add: got_entries_def demo_pools_simps del: head_pages_simps)
qed

lemma demo_pool_run: "pool_run True demo_pools (demo_run4, {#})"
proof -
  let ?s2 = "write_frame 0x1000 (\<lambda>j. 7) demo_run1"
  let ?s3 = "kbase_mem_pool_set_max_size False 0 ?s2"
  have p1: "pools demo_run1 = pools demo_pools" "taken demo_run1 = [(0x1000, 0)]" "released demo_run1 = []"
    by (simp_all add: demo_run1_def take_page_def demo_pools_simps)
  have "pool_run True demo_pools (demo_run1, {#} - given (Alloc_Pages False 1 False) demo_pools + {#(0x1000, 0)#})"
    by (rule pool_run.oper [OF pool_run.start _ _ _ demo_run1_alloc]) simp_all
  then have r1: "pool_run True demo_pools (demo_run1, {#(0x1000, 0)#})" by simp
  have no: "\<not> {#x, y#} \<subseteq># {#z#}" for x y z :: "u64 \<times> nat"
    using size_mset_mono [of "{#x, y#}" "{#z#}"] by auto
  have ok: "kernel_ok demo_run1" by (simp add: kernel_ok_def p1 no)
  have r2: "pool_run True demo_pools (?s2, {#(0x1000, 0)#})"
    by (rule pool_run.wr [OF r1 ok]) (simp, simp add: extent_def image_iff)
  have "pool_run True demo_pools (?s3, {#(0x1000, 0)#} - given (Set_Max_Size False 0) ?s2 + {#})"
    by (rule pool_run.oper [OF r2]) simp_all
  then have r3: "pool_run True demo_pools (?s3, {#(0x1000, 0)#})" by simp
  have p3: "pool_order (pools ?s3 False) = 0" "pool_next (pools ?s3 False) = Some True"
    by (simp_all add: kbase_mem_pool_set_max_size_def write_frame_def p1 demo_pools_simps)
  have "pool_run True demo_pools
      (demo_run4, {#(0x1000, 0)#} - given (Free False 0x1000 True) ?s3 + {#})"
    by (rule pool_run.oper [OF r3]) (simp_all add: p3 demo_run4_def)
  then show ?thesis by (simp add: p3)
qed

lemma demo_run4_list: "page_list (pools demo_run4 True) = [0x1000]" "pool_order (pools demo_run4 True) = 0"
  "pool_next (pools demo_run4 True) = None"
  by (simp_all add: demo_run4_def kbase_mem_pool_free_def kbase_mem_pool_is_full_def kbase_mem_pool_spill_def
      kbase_mem_pool_set_max_size_def write_frame_def demo_run1_def take_page_def demo_pools_simps
      kbase_mem_pool_zero_page_def kbase_mem_pool_sync_page_def kbase_mem_pool_add_def kbase_mem_pool_add_locked_def)

text \<open>
  C14. In every run every page that the kernel has given is in exactly one place: in a pool, with
  the user of the pools, or given back to the kernel, with the same order; no operation loses,
  duplicates or frees a page twice. The size of a pool is the length of its list.
\<close>

theorem mem_pools_conserve_pages:
  assumes "pool_run b s0 (s, held)" and "fresh_pools r s0"
  shows "mset (taken s) = pool_pages s + held + mset (released s) \<and>
    (\<forall>i. pool_size (pools s i) = length (page_list (pools s i)))"
  using pool_run_inv [OF assms] by (simp add: run_inv_def pools_ok_def ac_simps)

lemma mem_pools_conserve_pages_witness:
  "mset (taken demo_run4) = pool_pages demo_run4 + {#} + mset (released demo_run4)"
  using mem_pools_conserve_pages [OF demo_pool_run demo_pools_fresh] by simp

text \<open>
  C25. If contexts hand pages in to their own pools only, and write only to pages they hold, every
  page in a pool of the device is clear: nothing passes from one context to another through it.
\<close>

theorem device_pools_clear:
  assumes "pool_run True s0 (s, held)" and "fresh_pools r s0"
    and "pool_next (pools s i) = None" and "p \<in> set (page_list (pools s i))" and "j < 2 ^ pool_order (pools s i)"
  shows "frames (page_mem s) (p + of_nat (PAGE_SIZE * j)) = (\<lambda>k. 0)"
  using pool_run_inv [OF assms(1,2)] assms(3-5) by (simp add: run_inv_def device_clear_def is_clear_def)

lemma device_pools_clear_witness:
  "page_list (pools demo_run4 True) = [0x1000] \<and> frames (page_mem demo_run4) 0x1000 = (\<lambda>k. 0)"
  using device_pools_clear [OF demo_pool_run demo_pools_fresh demo_run4_list(3), where p = "0x1000" and j = 0] by (simp add: demo_run4_list)

text \<open>
  A request for an array of pages returns. It gives as many entries as were asked for, or
  fewer if the caller allows it; or it fails and no page has left its place. The rest of the array
  is as before.
\<close>

theorem kbase_mem_pool_alloc_pages_all_or_nothing:
  assumes "ranked r s" and "pools_ok s" and "n \<le> length pages"
  shows "\<exists>res pages' t. kbase_mem_pool_alloc_pages i n pages partial s = Some (res, pages', t) \<and>
    drop n pages' = drop n pages \<and> length pages' = length pages \<and>
    (if res < 0 then balanced s {#} t {#}
     else (if partial then res \<le> int n else res = int n) \<and>
       balanced s {#} t (pages_of s i (head_pages (take (nat res) pages'))))"
proof -
  obtain res pages' t where eq: "kbase_mem_pool_alloc_pages i n pages partial s = Some (res, pages', t)"
    and out: "alloc_outcome (pool_next (pools s i) = None) i n partial pages s res pages' t"
    using alloc_pages_outcome [OF assms] by blast
  have none: "\<forall>x \<in># {#}. good_page (fst x)" by simp
  note out = out [unfolded alloc_outcome_def]
  have "balanced s {#} t {#}" if "res < 0"
    using out that pool_stepD(5) [OF _ assms(2) none] by blast
  moreover have "(if partial then res \<le> int n else res = int n) \<and>
      balanced s {#} t (pages_of s i (head_pages (take (nat res) pages')))" if "\<not> res < 0"
  proof
    show "if partial then res \<le> int n else res = int n" using out that by auto
    show "balanced s {#} t (pages_of s i (head_pages (take (nat res) pages')))"
      using out that pool_stepD(5) [OF _ assms(2) none] by (meson not_less)
  qed
  ultimately show ?thesis using eq out by auto
qed

lemma kbase_mem_pool_alloc_pages_all_or_nothing_witness:
  "\<exists>res pages' t. kbase_mem_pool_alloc_pages False 3 [0, 0, 0, 5] False demo_pools = Some (res, pages', t) \<and>
     drop 3 pages' = [5] \<and> (res < 0 \<or> res = 3)"
proof -
  have f: "ranked (\<lambda>i. if i then 0 else 1) demo_pools" "pools_ok demo_pools"
    using demo_pools_fresh by (simp_all add: fresh_pools_def)
  show ?thesis
    using kbase_mem_pool_alloc_pages_all_or_nothing [OF f, of 3 "[0, 0, 0, 5]" False False]
    by (auto split: if_splits)
qed

text \<open>
  \<open>kbase_mem_pool_free_pages_locked\<close> ignores the capacity: a pool for two pages holds three.
\<close>

lemma free_pages_locked_overfills:
  "pool_size (pools (snd (kbase_mem_pool_free_pages_locked False 3 [0x1000, 0x2000, 0x3000] False False demo_pools)) False) = 3"
  "max_size (pools (snd (kbase_mem_pool_free_pages_locked False 3 [0x1000, 0x2000, 0x3000] False False demo_pools)) False) = 2"
  by (simp_all add: kbase_mem_pool_free_pages_locked_def kbase_mem_pool_capacity_def demo_pools_simps
      kbase_mem_pool_add_array_locked_def as_phys_addr_t_def is_huge_head_def is_huge_def
      kbase_mem_pool_add_list_locked_def HUGE_PAGE_def HUGE_HEAD_def mask_eq_exp_minus_1)

end
