(* ===== verification/KB_MmuTable.thy ===== *)
theory KB_MmuTable
  imports KB_MemPool KB_MmuHw
begin

text \<open>
  The page tables of the driver (\<open>mmu/mali_kbase_mmu.c\<close>): allocation of tables out of the page
  pool of the device, insertion, update and removal of pages, the recovery of a failed insertion,
  and set-up and removal of a whole table. Tables lie in the memory of the page pools
  (\<open>KB_MemPool\<close>); the flushes that follow a change are those of \<open>KB_MmuHw\<close>.
\<close>

unbundle bit_operations_syntax

section \<open>State\<close>

text \<open>
  \<open>struct kbase_mmu_table\<close>: the root, the pool \<open>mem_pools.small[group_id]\<close> of the device, and
  whether the table belongs to a context.
\<close>

record 'i mmu_table =
  mt_pgd :: u64
  mt_pool :: 'i
  mt_kctx :: bool

text \<open>
  The memory, the counters \<open>used_pages\<close> of the context and the device, and \<open>pgt_nr_pages\<close> and \<open>pgd\<close>
  of the recorder (\<open>gr_ctx->tmmu\<close>).
\<close>

record 'i mmu_mem =
  mm :: "'i mem_state"
  kctx_used_pages :: int
  kbdev_used_pages :: int
  nr_table_pages :: nat
  recorded_pgd :: u64

definition kmap_ok :: "'i mmu_mem \<Rightarrow> u64 \<Rightarrow> bool" where
  "kmap_ok s p \<longleftrightarrow> mappable (page_mem (mm s)) (p AND PAGE_MASK)"

definition get_entry :: "'i mmu_mem \<Rightarrow> u64 \<Rightarrow> nat \<Rightarrow> u64" where
  "get_entry s p i = frame_get64 (frames (page_mem (mm s)) (p AND PAGE_MASK)) i"

definition put_entry :: "u64 \<Rightarrow> nat \<Rightarrow> u64 \<Rightarrow> 'i mmu_mem \<Rightarrow> 'i mmu_mem" where
  "put_entry p i e s =
     s\<lparr> mm := (mm s)\<lparr> page_mem := (page_mem (mm s))\<lparr> frames := (frames (page_mem (mm s)))
          (p AND PAGE_MASK := frame_put64 (frames (page_mem (mm s)) (p AND PAGE_MASK)) i e) \<rparr> \<rparr> \<rparr>"

text \<open>The entries \<open>es\<close> from the index \<open>i\<close> on.\<close>

definition put_entries_at :: "u64 \<Rightarrow> nat \<Rightarrow> u64 list \<Rightarrow> 'i mmu_mem \<Rightarrow> 'i mmu_mem" where
  "put_entries_at p i es s = fold (\<lambda>(j, e). put_entry p j e) (enumerate i es) s"

definition account :: "'i mmu_table \<Rightarrow> int \<Rightarrow> 'i mmu_mem \<Rightarrow> 'i mmu_mem" where
  "account mmut n s =
     s\<lparr> kctx_used_pages := kctx_used_pages s + (if mt_kctx mmut then n else 0),
        kbdev_used_pages := kbdev_used_pages s + n \<rparr>"

definition pgd_index :: "u64 \<Rightarrow> nat \<Rightarrow> nat" where
  "pgd_index vpfn level = unat (drop_bit ((3 - level) * 9) vpfn AND 0x1FF)"

section \<open>Tables\<close>

text \<open>The result 0 is the failure, as in the code.\<close>

definition kbase_mmu_alloc_pgd ::
  "kbase_mmu_mode \<Rightarrow> 'i mmu_table \<Rightarrow> 'i mmu_mem \<Rightarrow> (u64 \<times> 'i mmu_mem) option" where
  "kbase_mmu_alloc_pgd mode mmut s =
     Option.bind (kbase_mem_pool_alloc (mt_pool mmut) (mm s)) (\<lambda>(r, m).
       case r of
         None \<Rightarrow> Some (0, s\<lparr> mm := m \<rparr>)
       | Some p \<Rightarrow>
           (let s1 = s\<lparr> mm := m \<rparr>
            in if \<not> kmap_ok s1 p then Some (0, s1\<lparr> mm := kbase_mem_pool_free (mt_pool mmut) p False m \<rparr>)
               else let s2 = account mmut 1 s1;
                        s3 = (if mt_kctx mmut then s2\<lparr> nr_table_pages := nr_table_pages s2 + 1 \<rparr> else s2)
                    in Some (p, put_entries_at p 0 (replicate 512 (entry_invalidate mode)) s3)))"

definition mmu_get_next_pgd ::
  "kbase_mmu_mode \<Rightarrow> 'i mmu_table \<Rightarrow> u64 \<Rightarrow> u64 \<Rightarrow> nat \<Rightarrow> 'i mmu_mem \<Rightarrow> (int \<times> u64 \<times> 'i mmu_mem) option" where
  "mmu_get_next_pgd mode mmut tab vpfn level s =
     (if \<not> kmap_ok s tab then Some (-22, tab, s)
      else let target_pgd = pte_to_phy_addr mode (get_entry s tab (pgd_index vpfn level))
           in if target_pgd \<noteq> 0 then Some (0, target_pgd, s)
              else Option.bind (kbase_mmu_alloc_pgd mode mmut s) (\<lambda>(target_pgd, s1).
                if target_pgd = 0 then Some (-12, tab, s1)
                else Some (0, target_pgd, put_entry tab (pgd_index vpfn level) (entry_set_pte mode target_pgd) s1)))"

text \<open>\<open>walk_tables\<close> goes down \<open>n\<close> levels from level \<open>l\<close>.\<close>

fun walk_tables ::
  "kbase_mmu_mode \<Rightarrow> 'i mmu_table \<Rightarrow> u64 \<Rightarrow> nat \<Rightarrow> nat \<Rightarrow> u64 \<Rightarrow> 'i mmu_mem \<Rightarrow> (int \<times> u64 \<times> 'i mmu_mem) option" where
  "walk_tables mode mmut vpfn l 0 tab s = Some (0, tab, s)"
| "walk_tables mode mmut vpfn l (Suc n) tab s =
     Option.bind (mmu_get_next_pgd mode mmut tab vpfn l s) (\<lambda>(err, pgd', s1).
       if err \<noteq> 0 then Some (err, pgd', s1) else walk_tables mode mmut vpfn (Suc l) n pgd' s1)"

definition mmu_get_pgd_at_level ::
  "kbase_mmu_mode \<Rightarrow> 'i mmu_table \<Rightarrow> u64 \<Rightarrow> nat \<Rightarrow> 'i mmu_mem \<Rightarrow> (int \<times> u64 \<times> 'i mmu_mem) option" where
  "mmu_get_pgd_at_level mode mmut vpfn level s =
     walk_tables mode mmut vpfn MIDGARD_MMU_TOPLEVEL (level - MIDGARD_MMU_TOPLEVEL) (mt_pgd mmut) s"

definition mmu_get_bottom_pgd ::
  "kbase_mmu_mode \<Rightarrow> 'i mmu_table \<Rightarrow> u64 \<Rightarrow> 'i mmu_mem \<Rightarrow> (int \<times> u64 \<times> 'i mmu_mem) option" where
  "mmu_get_bottom_pgd mode mmut vpfn s = mmu_get_pgd_at_level mode mmut vpfn MIDGARD_MMU_BOTTOMLEVEL s"

text \<open>
  The loop around the walk, the same in all three functions that need a table: when the pool is
  empty it is filled with as many pages as there are levels and the walk starts again.
\<close>

partial_function (option) get_pgd_grow ::
  "kbase_mmu_mode \<Rightarrow> 'i mmu_table \<Rightarrow> u64 \<Rightarrow> nat \<Rightarrow> 'i mmu_mem \<Rightarrow> (int \<times> u64 \<times> 'i mmu_mem) option" where
  "get_pgd_grow mode mmut vpfn level s =
     Option.bind (mmu_get_pgd_at_level mode mmut vpfn level s) (\<lambda>(err, tab, s1).
       if err \<noteq> -12 then Some (err, tab, s1)
       else (let (err, m) = kbase_mem_pool_grow (mt_pool mmut) level (mm s1)
             in if err = 0 then get_pgd_grow mode mmut vpfn level (s1\<lparr> mm := m \<rparr>)
                else Some (err, tab, s1\<lparr> mm := m \<rparr>)))"

section \<open>Insertion\<close>

text \<open>The native memory group manager leaves entries as they are.\<close>

definition kbase_native_mgm_update_gpu_pte :: "int \<Rightarrow> nat \<Rightarrow> u64 \<Rightarrow> u64" where
  "kbase_native_mgm_update_gpu_pte group_id mmu_level pte = pte"

definition kbase_mmu_create_ate :: "kbase_mmu_mode \<Rightarrow> u64 \<Rightarrow> u64 \<Rightarrow> nat \<Rightarrow> int \<Rightarrow> u64" where
  "kbase_mmu_create_ate mode phy flags level group_id =
     kbase_native_mgm_update_gpu_pte group_id level (entry_set_ate mode phy flags level)"

definition cleanup_empty_pte :: "kbase_mmu_mode \<Rightarrow> 'i mmu_table \<Rightarrow> u64 \<Rightarrow> 'i mmu_mem \<Rightarrow> 'i mmu_mem" where
  "cleanup_empty_pte mode mmut pte s =
     account mmut (-1) (s\<lparr> mm := kbase_mem_pool_free (mt_pool mmut) (pte_to_phy_addr mode pte) False (mm s) \<rparr>)"

text \<open>
  The walk that looks for a page entry: the table and level it stops at. \<open>4\<close> is the level after
  the loop; the code then uses the table of the last level no more.
\<close>

fun find_ate :: "kbase_mmu_mode \<Rightarrow> 'i mmu_mem \<Rightarrow> u64 \<Rightarrow> nat \<Rightarrow> nat \<Rightarrow> u64 \<Rightarrow> nat \<times> u64" where
  "find_ate mode s vpfn l 0 tab = (l, tab)"
| "find_ate mode s vpfn l (Suc n) tab =
     (let e = get_entry s tab (pgd_index vpfn l)
      in if ate_is_valid mode e l then (l, tab)
         else find_ate mode s vpfn (Suc l) n (pte_to_phy_addr mode e))"

definition invalidate_entries :: "kbase_mmu_mode \<Rightarrow> u64 \<Rightarrow> nat \<Rightarrow> nat \<Rightarrow> 'i mmu_mem \<Rightarrow> 'i mmu_mem" where
  "invalidate_entries mode tab i n s = put_entries_at tab i (replicate n (entry_invalidate mode)) s"

text \<open>\<open>left\<close> is an unsigned int.\<close>

partial_function (option) mmu_insert_pages_failure_recovery ::
  "kbase_mmu_mode \<Rightarrow> 'i mmu_table \<Rightarrow> u64 \<Rightarrow> u64 \<Rightarrow> 'i mmu_mem \<Rightarrow> 'i mmu_mem option" where
  "mmu_insert_pages_failure_recovery mode mmut vpfn to_vpfn s =
     (if \<not> vpfn < to_vpfn then Some s
      else (let left = unat (ucast (to_vpfn - vpfn) :: u32);
                count = min (512 - pgd_index vpfn 3) left;
                (level, tab) = find_ate mode s vpfn MIDGARD_MMU_TOPLEVEL 4 (mt_pgd mmut);
                s1 = (if level = 2 then invalidate_entries mode tab (pgd_index vpfn 2) 1 s
                      else if level = MIDGARD_MMU_BOTTOMLEVEL
                      then invalidate_entries mode tab (pgd_index vpfn 3) count s
                      else s)
            in mmu_insert_pages_failure_recovery mode mmut (vpfn + of_nat count) to_vpfn s1))"

text \<open>
  The body of the loops that insert: \<open>fail\<close> undoes what has been inserted and returns the error.
\<close>

definition insert_fail ::
  "kbase_mmu_mode \<Rightarrow> 'i mmu_table \<Rightarrow> u64 \<Rightarrow> u64 \<Rightarrow> int \<Rightarrow> 'i mmu_mem \<Rightarrow> (int \<times> 'i mmu_mem) option" where
  "insert_fail mode mmut start_vpfn vpfn err s =
     (if vpfn \<noteq> start_vpfn
      then Option.bind (mmu_insert_pages_failure_recovery mode mmut start_vpfn vpfn s) (\<lambda>s1. Some (err, s1))
      else Some (err, s))"

definition insert_large ::
  "kbase_mmu_mode \<Rightarrow> u64 \<Rightarrow> int \<Rightarrow> 'i mmu_table \<Rightarrow> u64 \<Rightarrow> u64 \<Rightarrow> u64 \<Rightarrow> 'i mmu_mem \<Rightarrow> 'i mmu_mem" where
  "insert_large mode flags group_id mmut tab vpfn phy s =
     (let level_index = pgd_index vpfn 2;
          target = get_entry s tab level_index;
          s1 = (if pte_is_valid mode target 2 then cleanup_empty_pte mode mmut target s else s)
      in put_entry tab level_index (kbase_mmu_create_ate mode phy flags 2 group_id) s1)"

definition insert_small ::
  "kbase_mmu_mode \<Rightarrow> u64 \<Rightarrow> int \<Rightarrow> u64 \<Rightarrow> nat \<Rightarrow> u64 list \<Rightarrow> 'i mmu_mem \<Rightarrow> 'i mmu_mem" where
  "insert_small mode flags group_id tab vindex phys s =
     put_entries_at tab vindex
       (map (\<lambda>phy. kbase_mmu_create_ate mode phy flags MIDGARD_MMU_BOTTOMLEVEL group_id) phys) s"

partial_function (option) insert_loop ::
  "kbase_mmu_mode \<Rightarrow> u64 \<Rightarrow> int \<Rightarrow> 'i mmu_table \<Rightarrow> u64 \<Rightarrow> u64 \<Rightarrow> u64 list \<Rightarrow> nat \<Rightarrow> 'i mmu_mem \<Rightarrow>
   (int \<times> 'i mmu_mem) option" where
  "insert_loop mode flags group_id mmut start_vpfn insert_vpfn phys remain s =
     (if remain = 0 then Some (0, s)
      else (let vindex = pgd_index insert_vpfn 3;
                count = min (512 - vindex) remain;
                cur_level = (if vindex = 0 \<and> is_huge_head (hd phys) then 2 else MIDGARD_MMU_BOTTOMLEVEL)
            in Option.bind (get_pgd_grow mode mmut insert_vpfn cur_level s) (\<lambda>(err, tab, s1).
                 if err \<noteq> 0 then insert_fail mode mmut start_vpfn insert_vpfn err s1
                 else if \<not> kmap_ok s1 tab then insert_fail mode mmut start_vpfn insert_vpfn (-12) s1
                 else insert_loop mode flags group_id mmut start_vpfn (insert_vpfn + of_nat count) (drop count phys)
                        (remain - count)
                        (if cur_level = 2 then insert_large mode flags group_id mmut tab insert_vpfn (hd phys) s1
                         else insert_small mode flags group_id tab vindex (take count phys) s1))))"

definition kbase_mmu_insert_pages_no_flush ::
  "kbase_mmu_mode \<Rightarrow> 'i mmu_table \<Rightarrow> u64 \<Rightarrow> u64 list \<Rightarrow> nat \<Rightarrow> u64 \<Rightarrow> int \<Rightarrow> 'i mmu_mem \<Rightarrow>
   (int \<times> 'i mmu_mem) option" where
  "kbase_mmu_insert_pages_no_flush mode mmut start_vpfn phys nr flags group_id s =
     (if nr = 0 then Some (0, s) else insert_loop mode flags group_id mmut start_vpfn start_vpfn phys nr s)"

text \<open>The same page again and again; \<open>recover_count\<close> is the number of pages done.\<close>

partial_function (option) insert_single_loop ::
  "kbase_mmu_mode \<Rightarrow> u64 \<Rightarrow> int \<Rightarrow> 'i mmu_table \<Rightarrow> u64 \<Rightarrow> nat \<Rightarrow> u64 \<Rightarrow> u64 \<Rightarrow> nat \<Rightarrow> 'i mmu_mem \<Rightarrow>
   (int \<times> 'i mmu_mem) option" where
  "insert_single_loop mode flags group_id mmut start_vpfn recover_count vpfn phy remain s =
     (if remain = 0 then Some (0, s)
      else (let index = pgd_index vpfn 3;
                count = min (512 - index) remain
            in Option.bind (get_pgd_grow mode mmut vpfn MIDGARD_MMU_BOTTOMLEVEL s) (\<lambda>(err, tab, s1).
                 if err \<noteq> 0
                 then insert_fail mode mmut start_vpfn (start_vpfn + of_nat recover_count) err s1
                 else if \<not> kmap_ok s1 tab
                 then insert_fail mode mmut start_vpfn (start_vpfn + of_nat recover_count) (-12) s1
                 else insert_single_loop mode flags group_id mmut start_vpfn (recover_count + count)
                        (vpfn + of_nat count) phy (remain - count)
                        (insert_small mode flags group_id tab index (replicate count phy) s1))))"

section \<open>Update and removal\<close>

partial_function (option) update_loop ::
  "kbase_mmu_mode \<Rightarrow> u64 \<Rightarrow> int \<Rightarrow> 'i mmu_table \<Rightarrow> u64 \<Rightarrow> u64 list \<Rightarrow> nat \<Rightarrow> 'i mmu_mem \<Rightarrow>
   (int \<times> 'i mmu_mem) option" where
  "update_loop mode flags group_id mmut vpfn phys nr s =
     (if nr = 0 then Some (0, s)
      else (let index = pgd_index vpfn 3;
                count = min (512 - index) nr
            in Option.bind (get_pgd_grow mode mmut vpfn MIDGARD_MMU_BOTTOMLEVEL s) (\<lambda>(err, tab, s1).
                 if err \<noteq> 0 then Some (err, s1)
                 else if \<not> kmap_ok s1 tab then Some (-12, s1)
                 else update_loop mode flags group_id mmut (vpfn + of_nat count) (drop count phys) (nr - count)
                        (insert_small mode flags group_id tab index (take count phys) s1))))"

definition kbase_mmu_update_pages_no_flush ::
  "kbase_mmu_mode \<Rightarrow> 'i mmu_table \<Rightarrow> u64 \<Rightarrow> u64 list \<Rightarrow> nat \<Rightarrow> u64 \<Rightarrow> int \<Rightarrow> 'i mmu_mem \<Rightarrow>
   (int \<times> 'i mmu_mem) option" where
  "kbase_mmu_update_pages_no_flush mode mmut vpfn phys nr flags group_id s =
     (if nr = 0 then Some (0, s) else update_loop mode flags group_id mmut vpfn phys nr s)"

text \<open>
  The walk of the removal also stops at an entry that is no table: the level, the table, and
  whether the entry maps a page. The level 4 stands for a walk through four tables, which no
  format allows.
\<close>

fun find_entry :: "kbase_mmu_mode \<Rightarrow> 'i mmu_mem \<Rightarrow> u64 \<Rightarrow> nat \<Rightarrow> nat \<Rightarrow> u64 \<Rightarrow> nat \<times> u64 \<times> bool" where
  "find_entry mode s vpfn l 0 tab = (l, tab, True)"
| "find_entry mode s vpfn l (Suc n) tab =
     (let e = get_entry s tab (pgd_index vpfn l)
      in if ate_is_valid mode e l then (l, tab, True)
         else if \<not> pte_is_valid mode e l then (l, tab, False)
         else find_entry mode s vpfn (Suc l) n (pte_to_phy_addr mode e))"

definition hole_size :: "nat \<Rightarrow> nat" where
  "hole_size level = (if level = 0 then 134217728 else if level = 1 then 262144 else if level = 2 then 512 else 1)"

partial_function (option) teardown_loop ::
  "kbase_mmu_mode \<Rightarrow> 'i mmu_table \<Rightarrow> u64 \<Rightarrow> nat \<Rightarrow> 'i mmu_mem \<Rightarrow> (int \<times> 'i mmu_mem) option" where
  "teardown_loop mode mmut vpfn nr s =
     (if nr = 0 then Some (0, s)
      else (let count = min (512 - pgd_index vpfn 3) nr;
                (level, tab, found) = find_entry mode s vpfn MIDGARD_MMU_TOPLEVEL 4 (mt_pgd mmut)
            in if \<not> found
               then let count = min (hole_size level) nr
                    in teardown_loop mode mmut (vpfn + of_nat count) (nr - count) s
               else if level = 0 \<or> level = 1 then Some (-14, s)
               else let pcount = (if level = 2 then (if count \<ge> 512 then 1 else 0)
                                  else if level = 3 then count else 0);
                        s1 = invalidate_entries mode tab (pgd_index vpfn level) pcount s
                    in teardown_loop mode mmut (vpfn + of_nat count) (nr - count) s1))"

section \<open>The functions with their flushes\<close>

text \<open>
  Memory and hardware together. \<open>in_runpool\<close> is the result of \<open>kbasep_js_runpool_retain_ctx\<close>,
  \<open>as_nr\<close> the address space of the context, \<open>powered\<close> as in \<open>KB_MmuHw\<close>.
\<close>

record flush_env =
  in_runpool :: bool
  ctx_as_nr :: nat
  gpu_powered :: bool

definition kbase_mmu_flush_invalidate :: "'h mmio \<Rightarrow> flush_env \<Rightarrow> u64 \<Rightarrow> nat \<Rightarrow> bool \<Rightarrow> 'h kb \<Rightarrow> 'h kb" where
  "kbase_mmu_flush_invalidate hw env vpfn nr sync kb =
     (if nr = 0 then kb
      else if in_runpool env
      then kbase_mmu_flush_invalidate_as hw (gpu_powered env) (ctx_as_nr env) vpfn (of_nat nr) sync kb
      else kb)"

definition kbase_mmu_flush_invalidate_no_ctx ::
  "'h mmio \<Rightarrow> flush_env \<Rightarrow> u64 \<Rightarrow> nat \<Rightarrow> bool \<Rightarrow> nat \<Rightarrow> 'h kb \<Rightarrow> 'h kb" where
  "kbase_mmu_flush_invalidate_no_ctx hw env vpfn nr sync as_nr kb =
     (if nr \<noteq> 0 then kbase_mmu_flush_invalidate_as hw (gpu_powered env) as_nr vpfn (of_nat nr) sync kb else kb)"

definition flush_table ::
  "'h mmio \<Rightarrow> flush_env \<Rightarrow> 'i mmu_table \<Rightarrow> u64 \<Rightarrow> nat \<Rightarrow> bool \<Rightarrow> nat \<Rightarrow> 'h kb \<Rightarrow> 'h kb" where
  "flush_table hw env mmut vpfn nr sync as_nr kb =
     (if mt_kctx mmut then kbase_mmu_flush_invalidate hw env vpfn nr sync kb
      else kbase_mmu_flush_invalidate_no_ctx hw env vpfn nr sync as_nr kb)"

definition kbase_mmu_insert_pages ::
  "kbase_mmu_mode \<Rightarrow> 'h mmio \<Rightarrow> flush_env \<Rightarrow> 'i mmu_table \<Rightarrow> u64 \<Rightarrow> u64 list \<Rightarrow> nat \<Rightarrow> u64 \<Rightarrow> nat \<Rightarrow> int \<Rightarrow>
   'i mmu_mem \<times> 'h kb \<Rightarrow> (int \<times> 'i mmu_mem \<times> 'h kb) option" where
  "kbase_mmu_insert_pages mode hw env mmut vpfn phys nr flags as_nr group_id skb =
     map_option (\<lambda>(err, s). (err, s, flush_table hw env mmut vpfn nr False as_nr (snd skb)))
       (kbase_mmu_insert_pages_no_flush mode mmut vpfn phys nr flags group_id (fst skb))"

definition kbase_mmu_insert_single_page ::
  "kbase_mmu_mode \<Rightarrow> 'h mmio \<Rightarrow> flush_env \<Rightarrow> 'i mmu_table \<Rightarrow> u64 \<Rightarrow> u64 \<Rightarrow> nat \<Rightarrow> u64 \<Rightarrow> int \<Rightarrow>
   'i mmu_mem \<times> 'h kb \<Rightarrow> (int \<times> 'i mmu_mem \<times> 'h kb) option" where
  "kbase_mmu_insert_single_page mode hw env mmut vpfn phy nr flags group_id skb =
     (if nr = 0 then Some (0, skb)
      else map_option (\<lambda>(err, s). (err, s, kbase_mmu_flush_invalidate hw env vpfn nr False (snd skb)))
             (insert_single_loop mode flags group_id mmut vpfn 0 vpfn phy nr (fst skb)))"

definition kbase_mmu_teardown_pages ::
  "kbase_mmu_mode \<Rightarrow> 'h mmio \<Rightarrow> flush_env \<Rightarrow> 'i mmu_table \<Rightarrow> u64 \<Rightarrow> nat \<Rightarrow> nat \<Rightarrow>
   'i mmu_mem \<times> 'h kb \<Rightarrow> (int \<times> 'i mmu_mem \<times> 'h kb) option" where
  "kbase_mmu_teardown_pages mode hw env mmut vpfn nr as_nr skb =
     (if nr = 0 then Some (0, skb)
      else map_option (\<lambda>(err, s). (err, s, flush_table hw env mmut vpfn nr True as_nr (snd skb)))
             (teardown_loop mode mmut vpfn nr (fst skb)))"

definition kbase_mmu_update_pages ::
  "kbase_mmu_mode \<Rightarrow> 'h mmio \<Rightarrow> flush_env \<Rightarrow> 'i mmu_table \<Rightarrow> u64 \<Rightarrow> u64 list \<Rightarrow> nat \<Rightarrow> u64 \<Rightarrow> int \<Rightarrow>
   'i mmu_mem \<times> 'h kb \<Rightarrow> (int \<times> 'i mmu_mem \<times> 'h kb) option" where
  "kbase_mmu_update_pages mode hw env mmut vpfn phys nr flags group_id skb =
     map_option (\<lambda>(err, s). (err, s, kbase_mmu_flush_invalidate hw env vpfn nr True (snd skb)))
       (kbase_mmu_update_pages_no_flush mode mmut vpfn phys nr flags group_id (fst skb))"

section \<open>Whole tables\<close>

text \<open>
  Removal of a table \<open>d\<close> levels above the bottom and of the tables below it. The entries are
  copied to a buffer of four pages first; a table entry at the bottom level would need a fifth.
\<close>

fun each_table :: "(u64 \<Rightarrow> 's \<Rightarrow> 's res) \<Rightarrow> (u64 \<Rightarrow> u64 option) \<Rightarrow> u64 list \<Rightarrow> 's \<Rightarrow> 's res" where
  "each_table down sub [] s = Inr s"
| "each_table down sub (e # es) s =
     (case sub e of
        None \<Rightarrow> each_table down sub es s
      | Some p \<Rightarrow> bindR (down p s) (each_table down sub es))"

definition table_entry :: "kbase_mmu_mode \<Rightarrow> nat \<Rightarrow> u64 \<Rightarrow> u64 option" where
  "table_entry mode level e =
     (let target_pgd = pte_to_phy_addr mode e
      in if target_pgd \<noteq> 0 \<and> pte_is_valid mode e level then Some target_pgd else None)"

definition free_table :: "'i mmu_table \<Rightarrow> u64 \<Rightarrow> 'i mmu_mem \<Rightarrow> 'i mmu_mem" where
  "free_table mmut tab s =
     account mmut (-1) (s\<lparr> mm := kbase_mem_pool_free (mt_pool mmut) (tab AND PAGE_MASK) True (mm s) \<rparr>)"

primrec teardown_at :: "kbase_mmu_mode \<Rightarrow> 'i mmu_table \<Rightarrow> nat \<Rightarrow> u64 \<Rightarrow> 'i mmu_mem \<Rightarrow> 'i mmu_mem res" where
  "teardown_at mode mmut 0 = (\<lambda>tab s.
     bindR (each_table (\<lambda>p s. Inl Bad_Access) (table_entry mode 3) (map (get_entry s tab) [0..<512]) s)
       (\<lambda>s1. Inr (free_table mmut tab s1)))"
| "teardown_at mode mmut (Suc d) = (\<lambda>tab s.
     bindR (each_table (teardown_at mode mmut d) (table_entry mode (3 - Suc d)) (map (get_entry s tab) [0..<512]) s)
       (\<lambda>s1. Inr (free_table mmut tab s1)))"

definition mmu_teardown_level :: "kbase_mmu_mode \<Rightarrow> 'i mmu_table \<Rightarrow> u64 \<Rightarrow> nat \<Rightarrow> 'i mmu_mem \<Rightarrow> 'i mmu_mem res" where
  "mmu_teardown_level mode mmut tab level s = teardown_at mode mmut (3 - level) tab s"

definition kbase_mmu_term :: "kbase_mmu_mode \<Rightarrow> 'i mmu_table \<Rightarrow> 'i mmu_mem \<Rightarrow> 'i mmu_mem res" where
  "kbase_mmu_term mode mmut s =
     (if mt_pgd mmut \<noteq> 0 then mmu_teardown_level mode mmut (mt_pgd mmut) MIDGARD_MMU_TOPLEVEL s else Inr s)"

text \<open>
  Set-up: the error, the table, the memory. With an error there is no root yet, so
  \<open>kbase_mmu_term\<close> only frees the buffer. \<open>malloc_ok\<close> is the outcome of \<open>kmalloc\<close>. At the end the
  code reads \<open>kctx->gr_ctx\<close>: for a table without a context, where \<open>kctx\<close> is NULL, nothing is
  returned.
\<close>

partial_function (option) init_loop ::
  "kbase_mmu_mode \<Rightarrow> 'i mmu_table \<Rightarrow> 'i mmu_mem \<Rightarrow> (int \<times> 'i mmu_table \<times> 'i mmu_mem) option" where
  "init_loop mode mmut s =
     (if mt_pgd mmut \<noteq> 0
      then if mt_kctx mmut then Some (0, mmut, s\<lparr> recorded_pgd := mt_pgd mmut \<rparr>) else None
      else (let (err, m) = kbase_mem_pool_grow (mt_pool mmut) MIDGARD_MMU_BOTTOMLEVEL (mm s)
            in if err \<noteq> 0 then Some (-12, mmut, s\<lparr> mm := m \<rparr>)
               else Option.bind (kbase_mmu_alloc_pgd mode mmut (s\<lparr> mm := m \<rparr>)) (\<lambda>(p, s1).
                      init_loop mode (mmut\<lparr> mt_pgd := p \<rparr>) s1)))"

definition kbase_mmu_init ::
  "kbase_mmu_mode \<Rightarrow> bool \<Rightarrow> bool \<Rightarrow> int \<Rightarrow> (int \<Rightarrow> 'i) \<Rightarrow> 'i mmu_table \<Rightarrow> 'i mmu_mem \<Rightarrow>
   (int \<times> 'i mmu_table \<times> 'i mmu_mem) option" where
  "kbase_mmu_init mode malloc_ok kctx group_id small_pool mmut s =
     (if group_id \<ge> 16 \<or> group_id < 0 then Some (-22, mmut, s)
      else if \<not> malloc_ok then Some (-12, mmut\<lparr> mt_pool := small_pool group_id, mt_kctx := kctx \<rparr>, s)
      else init_loop mode (mmut\<lparr> mt_pool := small_pool group_id, mt_kctx := kctx, mt_pgd := 0 \<rparr>) s)"

end
