(* ===== verification/KB_PhyAlloc.thy ===== *)
theory KB_PhyAlloc
  imports KB_PoolRuns KB_MmuTable
begin

text \<open>
  The physical memory of a region (\<open>struct kbase_mem_phy_alloc\<close> in \<open>mali_kbase_mem.h\<close>, the
  functions that fill and empty it in \<open>mali_kbase_mem.c\<close>): an array of pages that come from the
  pools of the context, its references, and the counters of used pages. The build has no 2 MB
  pages (\<open>CONFIG_MALI_2MB_ALLOC\<close>).
\<close>

unbundle bit_operations_syntax

section \<open>State\<close>

datatype kbase_memory_type =
    KBASE_MEM_TYPE_NATIVE | KBASE_MEM_TYPE_IMPORTED_UMM | KBASE_MEM_TYPE_IMPORTED_USER_BUF
  | KBASE_MEM_TYPE_ALIAS | KBASE_MEM_TYPE_RAW

text \<open>An entry of an alias: the memory it shows (\<open>None\<close> for the sink page), offset and length in pages.\<close>

record kbase_aliased =
  al_alloc :: "nat option"
  al_offset :: nat
  al_length :: nat

text \<open>
  \<open>pa_pages\<close> is the whole array, of which the first \<open>pa_nents\<close> entries are valid. Objects are named
  by numbers. \<open>native_kctx\<close> says that \<open>imported.native.kctx\<close> is set.
\<close>

record phy_alloc =
  pa_kref :: int
  gpu_mappings :: int
  pa_nents :: nat
  pa_pages :: "u64 list"
  pa_evicted :: nat
  pa_reg :: "nat option"
  pa_type :: kbase_memory_type
  accessed_cached :: bool
  pa_group :: nat
  native_kctx :: bool
  alias_stride :: u64
  alias_list :: "kbase_aliased list"
  usage_count :: u32

text \<open>
  The objects of a context, the outcomes of the next allocations of an object (a failure when they
  are used up), the objects given to \<open>kfree\<close>, and the memory with the counters of used pages.
\<close>

record 'i phys =
  pallocs :: "nat \<Rightarrow> phy_alloc"
  next_alloc :: nat
  create_ok :: "bool list"
  pfreed :: "nat list"
  pmem :: "'i mmu_mem"

definition upd_alloc :: "nat \<Rightarrow> (phy_alloc \<Rightarrow> phy_alloc) \<Rightarrow> 'i phys \<Rightarrow> 'i phys" where
  "upd_alloc a f s = s\<lparr> pallocs := (pallocs s)(a := f (pallocs s a)) \<rparr>"

definition set_pools :: "'i mem_state \<Rightarrow> 'i phys \<Rightarrow> 'i phys" where
  "set_pools m s = s\<lparr> pmem := (pmem s)\<lparr> mm := m \<rparr> \<rparr>"

text \<open>Both counters; the memory counters of the process are not modelled.\<close>

definition use_pages :: "int \<Rightarrow> 'i phys \<Rightarrow> 'i phys" where
  "use_pages n s =
     s\<lparr> pmem := (pmem s)\<lparr> kctx_used_pages := kctx_used_pages (pmem s) + n,
                          kbdev_used_pages := kbdev_used_pages (pmem s) + n \<rparr> \<rparr>"

definition FROM_PARTIAL :: u64 where "FROM_PARTIAL = push_bit 2 1"

definition is_partial :: "u64 \<Rightarrow> bool" where
  "is_partial t \<longleftrightarrow> t AND FROM_PARTIAL \<noteq> 0"

section \<open>Objects\<close>

text \<open>\<open>struct_size\<close> is \<open>sizeof (struct kbase_mem_phy_alloc)\<close>; the type tells the size of an entry.\<close>

definition new_alloc :: "nat \<Rightarrow> kbase_memory_type \<Rightarrow> nat \<Rightarrow> phy_alloc" where
  "new_alloc nr_pages type grp =
     \<lparr> pa_kref = 1, gpu_mappings = 0, pa_nents = 0, pa_pages = replicate nr_pages 0, pa_evicted = 0,
       pa_reg = None, pa_type = type, accessed_cached = False, pa_group = grp, native_kctx = False,
       alias_stride = 0, alias_list = [], usage_count = 0 \<rparr>"

definition kbase_alloc_create :: "u64 \<Rightarrow> u64 \<Rightarrow> kbase_memory_type \<Rightarrow> nat \<Rightarrow> 'i phys \<Rightarrow> nat option \<times> 'i phys" where
  "kbase_alloc_create struct_size nr_pages type grp s =
     (let per_page_size = (if type = KBASE_MEM_TYPE_IMPORTED_USER_BUF then 16 else 8)
      in if nr_pages > (- 1 - struct_size) div per_page_size then (None, s)
         else case create_ok s of
           True # as \<Rightarrow>
             (Some (next_alloc s),
              s\<lparr> create_ok := as, next_alloc := next_alloc s + 1,
                 pallocs := (pallocs s)(next_alloc s := new_alloc (unat nr_pages) type grp) \<rparr>)
         | False # as \<Rightarrow> (None, s\<lparr> create_ok := as \<rparr>)
         | [] \<Rightarrow> (None, s))"

definition kbase_mem_phy_alloc_get :: "nat \<Rightarrow> 'i phys \<Rightarrow> 'i phys" where
  "kbase_mem_phy_alloc_get a = upd_alloc a (\<lambda>al. al\<lparr> pa_kref := pa_kref al + 1 \<rparr>)"

definition kbase_mem_phy_alloc_gpu_mapped :: "nat \<Rightarrow> 'i phys \<Rightarrow> 'i phys" where
  "kbase_mem_phy_alloc_gpu_mapped a s =
     (if pa_type (pallocs s a) = KBASE_MEM_TYPE_NATIVE
      then upd_alloc a (\<lambda>al. al\<lparr> gpu_mappings := gpu_mappings al + 1 \<rparr>) s else s)"

definition kbase_mem_phy_alloc_gpu_unmapped :: "nat \<Rightarrow> 'i phys \<Rightarrow> 'i phys" where
  "kbase_mem_phy_alloc_gpu_unmapped a s =
     (if pa_type (pallocs s a) = KBASE_MEM_TYPE_NATIVE
      then upd_alloc a (\<lambda>al. al\<lparr> gpu_mappings := gpu_mappings al - 1 \<rparr>) s else s)"

section \<open>Pages of an object\<close>

text \<open>
  \<open>small_of\<close> are the pools of the context, \<open>reg_pages\<close> the sizes of the regions. \<open>None\<close> stands for a
  write behind the end of the array (or for pools that form a ring).
\<close>

definition kbase_alloc_phy_pages_helper ::
  "(nat \<Rightarrow> 'i) \<Rightarrow> (nat \<Rightarrow> u64) \<Rightarrow> nat \<Rightarrow> nat \<Rightarrow> 'i phys \<Rightarrow> (int \<times> 'i phys) option" where
  "kbase_alloc_phy_pages_helper small_of reg_pages a nr s =
     (let al = pallocs s a
      in if pa_type al \<noteq> KBASE_MEM_TYPE_NATIVE \<or> \<not> native_kctx al \<or> pa_group al \<ge> 16 then Some (-22, s)
         else if (case pa_reg al of None \<Rightarrow> False | Some r \<Rightarrow> of_nat nr > reg_pages r - of_nat (pa_nents al))
         then Some (-12, s)
         else if nr = 0 then Some (0, s)
         else if pa_nents al + nr > length (pa_pages al) then None
         else let s1 = use_pages (int nr) s
              in Option.bind (kbase_mem_pool_alloc_pages (small_of (pa_group al)) nr (drop (pa_nents al) (pa_pages al)) False (mm (pmem s1)))
                   (\<lambda>(res, tp, m).
                     let s2 = upd_alloc a (\<lambda>al. al\<lparr> pa_pages := take (pa_nents al) (pa_pages al) @ tp \<rparr>) (set_pools m s1)
                     in if res \<le> 0 then Some (-12, use_pages (- int nr) s2)
                        else Some (0, upd_alloc a (\<lambda>al. al\<lparr> pa_nents := pa_nents al + nr \<rparr>) s2)))"

text \<open>
  The variant under the lock of a pool gives the index of the first new entry, \<open>None\<close> for NULL,
  which is also what a request for no page gets.
\<close>

definition kbase_alloc_phy_pages_helper_locked ::
  "'i \<Rightarrow> (nat \<Rightarrow> u64) \<Rightarrow> nat \<Rightarrow> nat \<Rightarrow> 'i phys \<Rightarrow> (nat option \<times> 'i phys) option" where
  "kbase_alloc_phy_pages_helper_locked pool reg_pages a nr s =
     (let al = pallocs s a
      in if (case pa_reg al of None \<Rightarrow> False | Some r \<Rightarrow> of_nat nr > reg_pages r - of_nat (pa_nents al))
         then Some (None, s)
         else if nr = 0 then Some (None, s)
         else if pa_nents al + nr > length (pa_pages al) then None
         else let s1 = use_pages (int nr) s;
                  (res, tp, m) = kbase_mem_pool_alloc_pages_locked pool nr (drop (pa_nents al) (pa_pages al)) (mm (pmem s1));
                  s2 = upd_alloc a (\<lambda>al. al\<lparr> pa_pages := take (pa_nents al) (pa_pages al) @ tp \<rparr>) (set_pools m s1)
              in Some (if res \<le> 0 then (None, use_pages (- int nr) s2)
                       else (Some (pa_nents al), upd_alloc a (\<lambda>al. al\<lparr> pa_nents := pa_nents al + nr \<rparr>) s2)))"

text \<open>
  \<open>None\<close> stands for entries of 2 MB pages, which this build does not make, and for a context that is
  not set, which the code reads through before it checks it.
\<close>

definition kbase_free_phy_pages_helper :: "(nat \<Rightarrow> 'i) \<Rightarrow> nat \<Rightarrow> nat \<Rightarrow> 'i phys \<Rightarrow> (int \<times> 'i phys) option" where
  "kbase_free_phy_pages_helper small_of a nr s =
     (let al = pallocs s a; reclaimed = (pa_evicted al \<noteq> 0)
      in if \<not> native_kctx al then None
         else if pa_type al \<noteq> KBASE_MEM_TYPE_NATIVE \<or> pa_nents al < nr \<or> pa_group al \<ge> 16
         then Some (-22, s)
         else if nr = 0 then Some (0, s)
         else let start = pa_nents al - nr;
                  es = take nr (drop start (pa_pages al))
              in if \<exists>e \<in> set es. is_huge e \<or> is_partial e then None
                 else let (es', m) = kbase_mem_pool_free_pages (small_of (pa_group al)) nr es (accessed_cached al) reclaimed (mm (pmem s));
                          s1 = upd_alloc a (\<lambda>al. al\<lparr> pa_pages := take start (pa_pages al) @ es' @ drop (start + nr) (pa_pages al),
                                                     pa_nents := start \<rparr>) (set_pools m s)
                      in Some (0, if reclaimed then s1 else use_pages (- int nr) s1))"

definition kbase_free_phy_pages_helper_locked :: "'i \<Rightarrow> nat \<Rightarrow> nat \<Rightarrow> nat \<Rightarrow> 'i phys \<Rightarrow> 'i phys option" where
  "kbase_free_phy_pages_helper_locked pool a start nr s =
     (let al = pallocs s a; reclaimed = (pa_evicted al \<noteq> 0)
      in if nr = 0 then Some s
         else let es = take nr (drop start (pa_pages al))
              in if \<exists>e \<in> set es. is_huge e \<or> is_partial e then None
                 else let (es', m) = kbase_mem_pool_free_pages_locked pool nr es (accessed_cached al) reclaimed (mm (pmem s));
                          s1 = upd_alloc a (\<lambda>al. al\<lparr> pa_pages := take start (pa_pages al) @ es' @ drop (start + nr) (pa_pages al),
                                                     pa_nents := pa_nents al - nr \<rparr>) (set_pools m s)
                      in Some (if reclaimed then s1 else use_pages (- int nr) s1))"

text \<open>
  Dropping a reference. The object of an alias drops its references to the memory it shows, which is
  native, so that one level of calls is enough; \<open>None\<close> would be an alias of an alias.
\<close>

definition put_with :: "(nat \<Rightarrow> 'i phys \<Rightarrow> 'i phys option) \<Rightarrow> nat \<Rightarrow> 'i phys \<Rightarrow> 'i phys option" where
  "put_with kref_free a s =
     (let s1 = upd_alloc a (\<lambda>al. al\<lparr> pa_kref := pa_kref al - 1 \<rparr>) s
      in if pa_kref (pallocs s1 a) = 0 then kref_free a s1 else Some s1)"

definition kref_free_with :: "(nat \<Rightarrow> 'i) \<Rightarrow> (nat \<Rightarrow> 'i phys \<Rightarrow> 'i phys option) \<Rightarrow> nat \<Rightarrow> 'i phys \<Rightarrow> 'i phys option" where
  "kref_free_with small_of put a s =
     (let al = pallocs s a
      in map_option (\<lambda>s. s\<lparr> pfreed := a # pfreed s \<rparr>)
        (case pa_type al of
           KBASE_MEM_TYPE_NATIVE \<Rightarrow> map_option snd (kbase_free_phy_pages_helper small_of a (pa_nents al) s)
         | KBASE_MEM_TYPE_ALIAS \<Rightarrow>
             fold (\<lambda>e r. Option.bind r (\<lambda>s. case al_alloc e of None \<Rightarrow> Some s | Some b \<Rightarrow> put b s)) (alias_list al) (Some s)
         | _ \<Rightarrow> Some s))"

definition kbase_mem_kref_free :: "(nat \<Rightarrow> 'i) \<Rightarrow> nat \<Rightarrow> 'i phys \<Rightarrow> 'i phys option" where
  "kbase_mem_kref_free small_of = kref_free_with small_of (put_with (kref_free_with small_of (\<lambda>b s. None)))"

definition kbase_mem_phy_alloc_put :: "(nat \<Rightarrow> 'i) \<Rightarrow> nat \<Rightarrow> 'i phys \<Rightarrow> 'i phys option" where
  "kbase_mem_phy_alloc_put small_of = put_with (kbase_mem_kref_free small_of)"

section \<open>The memory of a region\<close>

text \<open>
  The two objects of a region, the second for the GPU; mostly they are the same. \<open>split\<close> is the
  condition that they are not: an infinite cache and memory that the CPU caches. The flag of the
  region that the code clears at the end is in \<open>KB_Region\<close>.
\<close>

definition set_native :: "nat \<Rightarrow> 'i phys \<Rightarrow> 'i phys" where
  "set_native a = upd_alloc a (\<lambda>al. al\<lparr> native_kctx := True \<rparr>)"

definition kbase_reg_prepare_native ::
  "(nat \<Rightarrow> 'i) \<Rightarrow> u64 \<Rightarrow> u64 \<Rightarrow> bool \<Rightarrow> nat \<Rightarrow> 'i phys \<Rightarrow> (int \<times> nat \<times> nat \<times> 'i phys) option" where
  "kbase_reg_prepare_native small_of struct_size nr_pages split_alloc grp s =
     (case kbase_alloc_create struct_size nr_pages KBASE_MEM_TYPE_NATIVE grp s of
        (None, s1) \<Rightarrow> Some (-12, 0, 0, s1)
      | (Some cpu, s1) \<Rightarrow>
          (let s2 = set_native cpu s1
           in if split_alloc
              then case kbase_alloc_create struct_size nr_pages KBASE_MEM_TYPE_NATIVE grp s2 of
                     (None, s3) \<Rightarrow> map_option (\<lambda>s. (-12, cpu, 0, s)) (kbase_mem_phy_alloc_put small_of cpu s3)
                   | (Some gpu, s3) \<Rightarrow> Some (0, cpu, gpu, set_native gpu s3)
              else Some (0, cpu, cpu, kbase_mem_phy_alloc_get cpu s2)))"

definition kbase_alloc_phy_pages ::
  "(nat \<Rightarrow> 'i) \<Rightarrow> (nat \<Rightarrow> u64) \<Rightarrow> nat \<Rightarrow> nat \<Rightarrow> nat \<Rightarrow> u64 \<Rightarrow> u64 \<Rightarrow> 'i phys \<Rightarrow> (int \<times> 'i phys) option" where
  "kbase_alloc_phy_pages small_of reg_pages reg cpu gpu vsize commit s =
     (if commit > vsize \<or> vsize > reg_pages reg then Some (-1, s)
      else if vsize > - 1 div 8 then Some (-1, s)
      else Option.bind (kbase_alloc_phy_pages_helper small_of reg_pages cpu (unat commit) s) (\<lambda>(err, s1).
        if err \<noteq> 0 then Some (-1, s1)
        else let s2 = upd_alloc cpu (\<lambda>al. al\<lparr> pa_reg := Some reg \<rparr>) s1
             in if cpu = gpu then Some (0, s2)
                else Option.bind (kbase_alloc_phy_pages_helper small_of reg_pages gpu (unat commit) s2) (\<lambda>(err, s3).
                       if err \<noteq> 0 then map_option (\<lambda>(e, s4). (-1, s4)) (kbase_free_phy_pages_helper small_of cpu (unat commit) s3)
                       else Some (0, upd_alloc gpu (\<lambda>al. al\<lparr> pa_reg := Some reg \<rparr>) s3))))"

end
