(* ===== verification/KB_GpuMmap.thy ===== *)
theory KB_GpuMmap
  imports KB_RegionRuns KB_AllocFlags KB_PhyAlloc KB_MmuTable
begin

text \<open>
  Allocating, mapping and freeing GPU memory (\<open>mali_kbase_mem.c\<close>, \<open>mali_kbase_mem_linux.c\<close>): the
  requests that put the regions of a context (\<open>KB_Region\<close>), its page table (\<open>KB_MmuTable\<close>) and the
  physical memory of the regions (\<open>KB_PhyAlloc\<close>) together.
\<close>

unbundle bit_operations_syntax

section \<open>State\<close>

definition KBASE_REG_MEMATTR_MASK :: u64 where "KBASE_REG_MEMATTR_MASK = push_bit 16 7"
definition KBASE_REG_DONT_NEED :: u64 where "KBASE_REG_DONT_NEED = push_bit 20 1"
definition KBASE_REG_IMPORT_PAD :: u64 where "KBASE_REG_IMPORT_PAD = push_bit 21 1"
definition AS_MEMATTR_INDEX_WRITE_ALLOC :: u64 where "AS_MEMATTR_INDEX_WRITE_ALLOC = 2"
definition AS_MEMATTR_INDEX_OUTER_WA :: u64 where "AS_MEMATTR_INDEX_OUTER_WA = 4"
definition BASE_MEM_SAME_VA :: u64 where "BASE_MEM_SAME_VA = 0x2000"
definition BASE_MEM_FLAG_MAP_FIXED :: u64 where "BASE_MEM_FLAG_MAP_FIXED = push_bit 27 1"
definition BASE_MEM_COOKIE_BASE :: u64 where "BASE_MEM_COOKIE_BASE = push_bit 12 64"
definition BASE_MEM_FIRST_FREE_ADDRESS :: u64 where
  "BASE_MEM_FIRST_FREE_ADDRESS = push_bit 12 64 + BASE_MEM_COOKIE_BASE"
definition PINNED_ON_IMPORT :: u32 where "PINNED_ON_IMPORT = push_bit 31 1"

text \<open>
  The regions, the physical memory with the page table in it, and the registers; the two objects of
  each region; the objects that can be evicted; the regions in the pool of JIT memory, the newest
  first; the regions that wait for their mapping with the bit mask of free cookies.
\<close>

record ('i, 'h) gctx =
  gva :: va_ctx
  gph :: "'i phys"
  gkb :: "'h kb"
  cpu_alloc :: "nat \<Rightarrow> nat option"
  gpu_alloc :: "nat \<Rightarrow> nat option"
  evict_list :: "nat list"
  jit_pool :: "nat list"
  pending_regions :: "nat \<Rightarrow> nat option"
  cookies :: u64

text \<open>
  What does not change: the format and the table of the context, the hardware, the operations on
  trees, the coherency, GPU write tracking, the bits of the program counter, the sink page of aliases,
  the pools of the context, the size of a \<open>struct kbase_mem_phy_alloc\<close>, whether caches are infinite,
  whether the format has memory that is not cached (\<open>KBASE_MMU_MODE_HAS_NON_CACHEABLE\<close>), and the result of a permanent mapping for the kernel
  (\<open>kbase_phy_alloc_mapping_init\<close>, which is not modelled).
\<close>

record ('i, 'h) genv =
  ge_mode :: kbase_mmu_mode
  ge_mmut :: "'i mmu_table"
  ge_hw :: "'h mmio"
  ge_flush :: flush_env
  ge_rb :: rb_ops
  ge_conf :: va_conf
  ge_coherency :: coherency
  ge_gwt :: bool
  ge_pc_bits :: nat
  ge_sink :: u64
  ge_small :: "nat \<Rightarrow> 'i"
  ge_struct_size :: u64
  ge_infinite_cache :: bool
  ge_non_cacheable :: bool
  ge_kernel_map :: int

definition on_va :: "(va_ctx \<Rightarrow> va_ctx) \<Rightarrow> ('i, 'h) gctx \<Rightarrow> ('i, 'h) gctx" where
  "on_va f s = s\<lparr> gva := f (gva s) \<rparr>"

definition on_ph :: "('i phys \<Rightarrow> 'i phys) \<Rightarrow> ('i, 'h) gctx \<Rightarrow> ('i, 'h) gctx" where
  "on_ph f s = s\<lparr> gph := f (gph s) \<rparr>"

definition try_ph :: "('i phys \<Rightarrow> 'i phys option) \<Rightarrow> ('i, 'h) gctx \<Rightarrow> ('i, 'h) gctx option" where
  "try_ph f s = map_option (\<lambda>p. s\<lparr> gph := p \<rparr>) (f (gph s))"

definition with_mmu ::
  "('i mmu_mem \<times> 'h kb \<Rightarrow> (int \<times> 'i mmu_mem \<times> 'h kb) option) \<Rightarrow> ('i, 'h) gctx \<Rightarrow> (int \<times> ('i, 'h) gctx) option" where
  "with_mmu f s =
     map_option (\<lambda>(err, m, kb). (err, s\<lparr> gph := (gph s)\<lparr> pmem := m \<rparr>, gkb := kb \<rparr>)) (f (pmem (gph s), gkb s))"

abbreviation region_of :: "('i, 'h) gctx \<Rightarrow> nat \<Rightarrow> va_region" where
  "region_of s i \<equiv> regions (gva s) i"

abbreviation alloc_of :: "('i, 'h) gctx \<Rightarrow> nat \<Rightarrow> phy_alloc" where
  "alloc_of s a \<equiv> pallocs (gph s) a"

definition reg_sizes :: "('i, 'h) gctx \<Rightarrow> nat \<Rightarrow> u64" where
  "reg_sizes s i = nr_pages (region_of s i)"

definition kbase_reg_current_backed_size :: "('i, 'h) gctx \<Rightarrow> nat \<Rightarrow> nat" where
  "kbase_reg_current_backed_size s reg = (case cpu_alloc s reg of None \<Rightarrow> 0 | Some a \<Rightarrow> pa_nents (alloc_of s a))"

section \<open>Mapping of ranges\<close>

text \<open>\<open>None\<close> stands for an access behind the end of the array of pages.\<close>

definition map_pages ::
  "('i, 'h) genv \<Rightarrow> u64 \<Rightarrow> u64 list \<Rightarrow> nat \<Rightarrow> u64 \<Rightarrow> nat \<Rightarrow> ('i, 'h) gctx \<Rightarrow> (int \<times> ('i, 'h) gctx) option" where
  "map_pages env v pages nr flags grp s =
     (if nr > length pages then None
      else with_mmu (kbase_mmu_insert_pages (ge_mode env) (ge_hw env) (ge_flush env) (ge_mmut env) v (take nr pages) nr
             flags (ctx_as_nr (ge_flush env)) (int grp)) s)"

definition map_sink ::
  "('i, 'h) genv \<Rightarrow> u64 \<Rightarrow> nat \<Rightarrow> u64 \<Rightarrow> nat \<Rightarrow> ('i, 'h) gctx \<Rightarrow> (int \<times> ('i, 'h) gctx) option" where
  "map_sink env v nr flags grp =
     with_mmu (kbase_mmu_insert_single_page (ge_mode env) (ge_hw env) (ge_flush env) (ge_mmut env) v (ge_sink env) nr
       flags (int grp))"

definition unmap_pages :: "('i, 'h) genv \<Rightarrow> u64 \<Rightarrow> nat \<Rightarrow> ('i, 'h) gctx \<Rightarrow> (int \<times> ('i, 'h) gctx) option" where
  "unmap_pages env v nr =
     with_mmu (kbase_mmu_teardown_pages (ge_mode env) (ge_hw env) (ge_flush env) (ge_mmut env) v nr
       (ctx_as_nr (ge_flush env)))"

definition kbase_mem_grow_gpu_mapping ::
  "('i, 'h) genv \<Rightarrow> nat \<Rightarrow> u64 \<Rightarrow> u64 \<Rightarrow> ('i, 'h) gctx \<Rightarrow> (int \<times> ('i, 'h) gctx) option" where
  "kbase_mem_grow_gpu_mapping env reg new_pages old_pages s =
     Option.bind (gpu_alloc s reg) (\<lambda>a.
       map_pages env (start_pfn (region_of s reg) + old_pages) (drop (unat old_pages) (pa_pages (alloc_of s a)))
         (unat (new_pages - old_pages)) (reg_flags (region_of s reg)) (pa_group (alloc_of s a)) s)"

section \<open>Unmapping\<close>

text \<open>The pages of a user buffer are unpinned, and it has no pages any more.\<close>

definition kbase_jd_user_buf_unmap :: "nat \<Rightarrow> ('i, 'h) gctx \<Rightarrow> ('i, 'h) gctx" where
  "kbase_jd_user_buf_unmap a = on_ph (upd_alloc a (\<lambda>al. al\<lparr> pa_nents := 0 \<rparr>))"

definition unpin_user_buf :: "nat \<Rightarrow> ('i, 'h) gctx \<Rightarrow> ('i, 'h) gctx" where
  "unpin_user_buf a s =
     (if usage_count (alloc_of s a) AND PINNED_ON_IMPORT \<noteq> 0
      then let s1 = on_ph (upd_alloc a (\<lambda>al. al\<lparr> usage_count := usage_count al AND NOT PINNED_ON_IMPORT \<rparr>)) s
           in if usage_count (alloc_of s1 a) = 0 then kbase_jd_user_buf_unmap a s1 else s1
      else s)"

definition aliased_allocs :: "phy_alloc \<Rightarrow> nat list" where
  "aliased_allocs al = List.map_filter al_alloc (alias_list al)"

definition kbase_gpu_munmap :: "('i, 'h) genv \<Rightarrow> nat \<Rightarrow> ('i, 'h) gctx \<Rightarrow> (int \<times> ('i, 'h) gctx) option" where
  "kbase_gpu_munmap env reg s =
     (let r = region_of s reg
      in if start_pfn r = 0 then Some (0, s)
         else case gpu_alloc s reg of
           None \<Rightarrow> Some (-22, s)
         | Some a \<Rightarrow>
             (let type = pa_type (alloc_of s a);
                  nr = (if type = KBASE_MEM_TYPE_ALIAS \<or> type = KBASE_MEM_TYPE_IMPORTED_UMM then unat (nr_pages r)
                        else kbase_reg_current_backed_size s reg)
              in map_option (\<lambda>(err, s1).
                   (err,
                    if type = KBASE_MEM_TYPE_ALIAS
                    then on_ph (fold kbase_mem_phy_alloc_gpu_unmapped (aliased_allocs (alloc_of s a))) s1
                    else on_ph (kbase_mem_phy_alloc_gpu_unmapped a)
                           (if type = KBASE_MEM_TYPE_IMPORTED_USER_BUF then unpin_user_buf a s1 else s1)))
                 (unmap_pages env (start_pfn r) nr s)))"

text \<open>Memory that was marked as reclaimable is used again, with new pages when the old ones are gone.\<close>

definition kbase_mem_evictable_unmark_reclaim :: "nat \<Rightarrow> ('i, 'h) gctx \<Rightarrow> ('i, 'h) gctx" where
  "kbase_mem_evictable_unmark_reclaim a s = on_ph (use_pages (int (pa_nents (alloc_of s a)))) s"

definition kbase_mem_evictable_unmake :: "('i, 'h) genv \<Rightarrow> nat \<Rightarrow> ('i, 'h) gctx \<Rightarrow> (bool \<times> ('i, 'h) gctx) option" where
  "kbase_mem_evictable_unmake env a s0 =
     (let s = s0\<lparr> evict_list := removeAll a (evict_list s0) \<rparr>;
          evicted = pa_evicted (alloc_of s a)
      in map_option (\<lambda>(err, s1).
           (err = 0,
            case pa_reg (alloc_of s1 a) of
              None \<Rightarrow> s1
            | Some r \<Rightarrow> on_va (upd_region r (\<lambda>q. q\<lparr> reg_flags := reg_flags q AND NOT KBASE_REG_DONT_NEED \<rparr>)) s1))
         (if evicted = 0 then Some (0, kbase_mem_evictable_unmark_reclaim a s)
          else case pa_reg (alloc_of s a) of
            None \<Rightarrow> Some (0, s)
          | Some r \<Rightarrow>
              map_option (\<lambda>(err, s2). (err, on_ph (upd_alloc a (\<lambda>al. al\<lparr> pa_evicted := 0 \<rparr>)) s2))
                (Option.bind (kbase_alloc_phy_pages_helper (ge_small env) (reg_sizes s) a evicted (gph s)) (\<lambda>(err, p).
                   let s1 = s\<lparr> gph := p \<rparr>
                   in if err = 0 then kbase_mem_grow_gpu_mapping env r (of_nat evicted) 0 s1 else Some (err, s1)))))"

section \<open>Freeing\<close>

definition unlink_allocs :: "nat \<Rightarrow> nat \<Rightarrow> ('i, 'h) gctx \<Rightarrow> ('i, 'h) gctx" where
  "unlink_allocs cpu gpu =
     on_ph (upd_alloc gpu (\<lambda>al. al\<lparr> pa_reg := None \<rparr>) \<circ> upd_alloc cpu (\<lambda>al. al\<lparr> pa_reg := None \<rparr>))"

definition unmake_if_dont_need :: "('i, 'h) genv \<Rightarrow> nat \<Rightarrow> nat \<Rightarrow> ('i, 'h) gctx \<Rightarrow> ('i, 'h) gctx option" where
  "unmake_if_dont_need env reg gpu s =
     (if has_flag (gva s) reg KBASE_REG_DONT_NEED then map_option snd (kbase_mem_evictable_unmake env gpu s) else Some s)"

text \<open>
  The whole of \<open>kbase_free_alloced_region\<close>, of which \<open>KB_Region\<close> has the part on the trees. The lists of
  sticky resources are not modelled. \<open>None\<close> stands for a region without memory, which the code reads.
\<close>

definition free_region_memory :: "('i, 'h) genv \<Rightarrow> nat \<Rightarrow> ('i, 'h) gctx \<Rightarrow> ('i, 'h) gctx option" where
  "free_region_memory env reg s =
     (if has_flag (gva s) reg KBASE_REG_FREE \<or> reg_flags (region_of s reg) AND KBASE_REG_ZONE_MASK = KBASE_REG_ZONE_MASK \<or>
         has_flag (gva s) reg KBASE_REG_VA_FREED
      then Some s
      else Option.bind (cpu_alloc s reg) (\<lambda>cpu. Option.bind (gpu_alloc s reg) (\<lambda>gpu.
             Option.bind (if gpu \<in> set (evict_list s) then unmake_if_dont_need env reg gpu (unlink_allocs cpu gpu s) else Some s)
               (\<lambda>s1. Option.bind (try_ph (kbase_mem_phy_alloc_put (ge_small env) cpu) s1)
                       (try_ph (kbase_mem_phy_alloc_put (ge_small env) gpu))))))"

definition free_alloced_region :: "('i, 'h) genv \<Rightarrow> nat \<Rightarrow> ('i, 'h) gctx \<Rightarrow> ('i, 'h) gctx option" where
  "free_alloced_region env reg s = map_option (on_va (kbase_free_alloced_region (ge_rb env) reg)) (free_region_memory env reg s)"

definition kbase_mem_free_region :: "('i, 'h) genv \<Rightarrow> nat \<Rightarrow> ('i, 'h) gctx \<Rightarrow> (int \<times> ('i, 'h) gctx) option" where
  "kbase_mem_free_region env reg s =
     (if has_flag (gva s) reg KBASE_REG_NO_USER_FREE then Some (-22, s)
      else Option.bind (cpu_alloc s reg) (\<lambda>cpu. Option.bind (gpu_alloc s reg) (\<lambda>gpu.
             Option.bind (unmake_if_dont_need env reg gpu (unlink_allocs cpu gpu s)) (\<lambda>s1.
             Option.bind (kbase_gpu_munmap env reg s1) (\<lambda>(err, s2).
               if err \<noteq> 0 then Some (err, s2) else map_option (Pair 0) (free_alloced_region env reg s2))))))"

definition kbase_mem_free :: "('i, 'h) genv \<Rightarrow> u64 \<Rightarrow> ('i, 'h) gctx \<Rightarrow> (int \<times> ('i, 'h) gctx) option" where
  "kbase_mem_free env gpu_addr s =
     (if gpu_addr AND NOT PAGE_MASK \<noteq> 0 \<and> gpu_addr \<ge> 4096 then Some (-22, s)
      else if gpu_addr = 0 then Some (-22, s)
      else if gpu_addr \<ge> BASE_MEM_COOKIE_BASE \<and> gpu_addr < BASE_MEM_FIRST_FREE_ADDRESS
      then let cookie = unat (drop_bit 12 (gpu_addr - BASE_MEM_COOKIE_BASE))
           in case pending_regions s cookie of
                None \<Rightarrow> Some (-22, s)
              | Some reg \<Rightarrow>
                  map_option (Pair 0)
                    (free_alloced_region env reg
                      (s\<lparr> pending_regions := (pending_regions s)(cookie := None), cookies := set_bit cookie (cookies s) \<rparr>))
      else case kbase_region_tracker_find_region_base_address (ge_conf env) (gva s) gpu_addr of
             None \<Rightarrow> Some (-22, s)
           | Some reg \<Rightarrow>
               if has_flag (gva s) reg KBASE_REG_VA_FREED \<or> has_flag (gva s) reg KBASE_REG_FREE then Some (-22, s)
               else if reg_flags (region_of s reg) AND KBASE_REG_ZONE_MASK = KBASE_REG_ZONE_SAME_VA then Some (-22, s)
               else kbase_mem_free_region env reg s)"

section \<open>Places for regions\<close>

text \<open>The oldest region of the JIT pool is freed to make room.\<close>

definition kbase_jit_evict :: "('i, 'h) genv \<Rightarrow> ('i, 'h) gctx \<Rightarrow> (bool \<times> ('i, 'h) gctx) option" where
  "kbase_jit_evict env s =
     (case rev (jit_pool s) of
        [] \<Rightarrow> Some (False, s)
      | reg # regs \<Rightarrow>
          Option.bind (gpu_alloc s reg) (\<lambda>a.
            map_option (\<lambda>(err, s1). (True, s1))
              (kbase_mem_free_region env reg
                (on_va (upd_region reg (\<lambda>r. r\<lparr> reg_flags := reg_flags r AND NOT KBASE_REG_NO_USER_FREE \<rparr>))
                  (s\<lparr> jit_pool := rev regs, evict_list := removeAll a (evict_list s) \<rparr>)))))"

partial_function (option) add_va_region_loop ::
  "('i, 'h) genv \<Rightarrow> nat \<Rightarrow> u64 \<Rightarrow> u64 \<Rightarrow> u64 \<Rightarrow> ('i, 'h) gctx \<Rightarrow> (int \<times> ('i, 'h) gctx) option" where
  "add_va_region_loop env reg addr nr align s =
     (let (err, k) = kbase_add_va_region_rbtree (ge_rb env) reg addr nr align (gva s);
          s1 = s\<lparr> gva := k \<rparr>
      in if err \<noteq> -12 then Some (err, s1)
         else if reg_flags (region_of s1 reg) AND KBASE_REG_ZONE_MASK \<noteq> KBASE_REG_ZONE_CUSTOM_VA then Some (err, s1)
         else Option.bind (kbase_jit_evict env s1) (\<lambda>(evicted, s2).
                if evicted then add_va_region_loop env reg addr nr align s2 else Some (err, s2)))"

definition kbase_add_va_region ::
  "('i, 'h) genv \<Rightarrow> nat \<Rightarrow> u64 \<Rightarrow> u64 \<Rightarrow> u64 \<Rightarrow> ('i, 'h) gctx \<Rightarrow> (int \<times> ('i, 'h) gctx) option" where
  "kbase_add_va_region env reg addr nr align s =
     (let align' =
        (if reg_flags (region_of s reg) AND KBASE_REG_GPU_NX = 0 \<and> addr = 0 \<and>
            reg_flags (region_of s reg) AND KBASE_REG_ZONE_MASK \<noteq> KBASE_REG_ZONE_EXEC_VA \<and>
            kbase_get_num_cpu_va_bits (ge_conf env) > ge_pc_bits env
         then max align (drop_bit 12 (push_bit (ge_pc_bits env) 1)) else align)
      in add_va_region_loop env reg addr nr align' s)"

section \<open>Mapping\<close>

text \<open>The entries of an alias from the index \<open>i\<close> on: the error, the index where it stopped, the state.\<close>

fun mmap_aliased ::
  "('i, 'h) genv \<Rightarrow> u64 \<Rightarrow> u64 \<Rightarrow> u64 \<Rightarrow> u64 \<Rightarrow> nat \<Rightarrow> nat \<Rightarrow> kbase_aliased list \<Rightarrow> ('i, 'h) gctx \<Rightarrow>
   (int \<times> nat \<times> ('i, 'h) gctx) option" where
  "mmap_aliased env start stride flags sink_flags grp i [] s = Some (0, i, s)"
| "mmap_aliased env start stride flags sink_flags grp i (e # es) s =
     Option.bind
       (case al_alloc e of
          Some b \<Rightarrow>
            map_option (\<lambda>(err, s1). (err, if err = 0 then on_ph (kbase_mem_phy_alloc_gpu_mapped b) s1 else s1))
              (map_pages env (start + of_nat i * stride) (drop (al_offset e) (pa_pages (alloc_of s b))) (al_length e) flags grp s)
        | None \<Rightarrow> map_sink env (start + of_nat i * stride) (al_length e) sink_flags grp s)
       (\<lambda>(err, s1). if err \<noteq> 0 then Some (err, i, s1)
                    else mmap_aliased env start stride flags sink_flags grp (Suc i) es s1)"

text \<open>What the code does at \<open>bad_insert\<close>; it does not look at the results.\<close>

definition mmap_undo :: "('i, 'h) genv \<Rightarrow> nat \<Rightarrow> nat list \<Rightarrow> ('i, 'h) gctx \<Rightarrow> ('i, 'h) gctx option" where
  "mmap_undo env reg counted s =
     map_option (\<lambda>(err, s1).
         on_va (\<lambda>k. snd (kbase_remove_va_region (ge_rb env) reg k))
           (on_ph (fold kbase_mem_phy_alloc_gpu_unmapped counted) s1))
       (unmap_pages env (start_pfn (region_of s reg)) (unat (nr_pages (region_of s reg))) s)"

definition mmap_memory ::
  "('i, 'h) genv \<Rightarrow> nat \<Rightarrow> nat \<Rightarrow> ('i, 'h) gctx \<Rightarrow> (int \<times> nat list \<times> ('i, 'h) gctx) option" where
  "mmap_memory env reg a s =
     (let gwt_mask = (if ge_gwt env then NOT KBASE_REG_GPU_WR else - 1);
          r = region_of s reg;
          al = alloc_of s a;
          attr = KBASE_REG_MEMATTR_INDEX
            (if ge_coherency env = COHERENCY_ACE \<and> reg_flags r AND KBASE_REG_SHARE_BOTH \<noteq> 0
             then AS_MEMATTR_INDEX_OUTER_WA else AS_MEMATTR_INDEX_WRITE_ALLOC)
      in if pa_type al = KBASE_MEM_TYPE_ALIAS
         then map_option (\<lambda>(err, i, s1). (err, List.map_filter al_alloc (take i (alias_list al)), s1))
                (mmap_aliased env (start_pfn r) (alias_stride al) (reg_flags r AND gwt_mask)
                   (reg_flags r AND NOT KBASE_REG_MEMATTR_MASK AND gwt_mask OR attr) (pa_group al) 0 (alias_list al) s)
         else map_option (\<lambda>(err, s1). (err, [], if err = 0 then on_ph (kbase_mem_phy_alloc_gpu_mapped a) s1 else s1))
                (map_pages env (start_pfn r) (pa_pages al) (kbase_reg_current_backed_size s reg)
                   (reg_flags r AND gwt_mask) (pa_group al) s))"

text \<open>The end of a dma-buf that is shorter than its region shows the sink page.\<close>

definition mmap_padding :: "('i, 'h) genv \<Rightarrow> nat \<Rightarrow> nat \<Rightarrow> ('i, 'h) gctx \<Rightarrow> (int \<times> ('i, 'h) gctx) option" where
  "mmap_padding env reg a s =
     (let r = region_of s reg; al = alloc_of s a
      in if reg_flags r AND KBASE_REG_IMPORT_PAD \<noteq> 0 \<and> \<not> unat (nr_pages r) < pa_nents al \<and>
            pa_type al = KBASE_MEM_TYPE_IMPORTED_UMM \<and> usage_count al \<noteq> 0
         then map_sink env (start_pfn r + of_nat (pa_nents al)) (unat (nr_pages r) - pa_nents al)
                ((reg_flags r OR KBASE_REG_GPU_RD) AND NOT KBASE_REG_GPU_WR) 0 s
         else Some (0, s))"

definition kbase_gpu_mmap ::
  "('i, 'h) genv \<Rightarrow> nat \<Rightarrow> u64 \<Rightarrow> u64 \<Rightarrow> u64 \<Rightarrow> ('i, 'h) gctx \<Rightarrow> (int \<times> ('i, 'h) gctx) option" where
  "kbase_gpu_mmap env reg addr nr align s =
     Option.bind (kbase_add_va_region env reg addr nr align s) (\<lambda>(err, s1).
       if err \<noteq> 0 then Some (err, s1)
       else Option.bind (gpu_alloc s1 reg) (\<lambda>a.
            Option.bind (mmap_memory env reg a s1) (\<lambda>(err, counted, s2).
              if err \<noteq> 0 then map_option (Pair err) (mmap_undo env reg counted s2)
              else Option.bind (mmap_padding env reg a s2) (\<lambda>(err, s3).
                     if err \<noteq> 0 then map_option (Pair err) (mmap_undo env reg counted s3) else Some (0, s3)))))"

section \<open>Allocation\<close>

text \<open>The flags are constants of 32 bits, whose complement is extended by zeros.\<close>

definition clear_flags :: "u64 \<Rightarrow> u64 \<Rightarrow> u64" where
  "clear_flags f flags = flags AND ucast (NOT (ucast f :: u32))"

definition coherency_flags :: "('i, 'h) genv \<Rightarrow> u64 \<Rightarrow> bool \<times> u64" where
  "coherency_flags env flags =
     (let coherent = kbase_device_is_cpu_coherent (ge_coherency env);
          f1 = (if ge_infinite_cache env
                then clear_flags (BASE_MEM_COHERENT_SYSTEM_REQUIRED OR BASE_MEM_COHERENT_SYSTEM) flags else flags);
          f2 = (if f1 AND BASE_MEM_UNCACHED_GPU \<noteq> 0 \<and> f1 AND BASE_MEM_COHERENT_SYSTEM_REQUIRED \<noteq> 0
                then clear_flags BASE_MEM_COHERENT_SYSTEM_REQUIRED f1 else f1)
      in if f2 AND BASE_MEM_COHERENT_SYSTEM_REQUIRED \<noteq> 0 \<and> \<not> coherent then (False, f2)
         else (True, if f2 AND BASE_MEM_COHERENT_SYSTEM \<noteq> 0 \<and> \<not> coherent
                     then clear_flags BASE_MEM_COHERENT_SYSTEM f2 else f2))"

definition base_mem_group_id_get :: "u64 \<Rightarrow> nat" where
  "base_mem_group_id_get flags = unat (drop_bit 22 (flags AND push_bit 22 0xF))"

definition alloc_zone :: "u64 \<Rightarrow> va_ctx \<Rightarrow> va_tree \<times> u64" where
  "alloc_zone flags k =
     (if flags AND BASE_MEM_SAME_VA \<noteq> 0 then (Tree_Same, KBASE_REG_ZONE_SAME_VA)
      else if flags AND BASE_MEM_PROT_GPU_EX \<noteq> 0 \<and> kbase_has_exec_va_zone k then (Tree_Exec, KBASE_REG_ZONE_EXEC_VA)
      else (Tree_Custom, KBASE_REG_ZONE_CUSTOM_VA))"

text \<open>The region waits for its mapping under a cookie; \<open>None\<close> stands for \<open>BUG_ON\<close>.\<close>

definition bind_cookie :: "nat \<Rightarrow> ('i, 'h) gctx \<Rightarrow> (u64 \<times> ('i, 'h) gctx) option" where
  "bind_cookie reg s =
     (let cookie_nr = hd (filter (bit (cookies s)) [0..<64])
      in if pending_regions s cookie_nr \<noteq> None then None
         else Some (push_bit 12 (of_nat cookie_nr + drop_bit 12 BASE_MEM_COOKIE_BASE),
                    s\<lparr> cookies := unset_bit cookie_nr (cookies s),
                       pending_regions := (pending_regions s)(cookie_nr := Some reg) \<rparr>))"

text \<open>The ways out of \<open>kbase_mem_alloc\<close> that drop the memory and the region.\<close>

definition drop_region :: "('i, 'h) genv \<Rightarrow> nat \<Rightarrow> nat \<Rightarrow> nat \<Rightarrow> ('i, 'h) gctx \<Rightarrow> ('i, 'h) gctx option" where
  "drop_region env reg cpu gpu s =
     Option.bind (try_ph (kbase_mem_phy_alloc_put (ge_small env) cpu) s) (\<lambda>s1.
       map_option (on_va (kfree_region reg)) (try_ph (kbase_mem_phy_alloc_put (ge_small env) gpu) s1))"

text \<open>The address that a region with its memory gets; \<open>Inl\<close> when there is none.\<close>

definition place_region ::
  "('i, 'h) genv \<Rightarrow> u64 \<Rightarrow> nat \<Rightarrow> u64 \<Rightarrow> u64 \<Rightarrow> ('i, 'h) gctx \<Rightarrow> (u64 option \<times> ('i, 'h) gctx) option" where
  "place_region env flags reg va_pages gpu_va s =
     (if has_flag (gva s) reg KBASE_REG_PERMANENT_KERNEL_MAPPING \<and> ge_kernel_map env < 0 then Some (None, s)
      else if flags AND BASE_MEM_SAME_VA \<noteq> 0
      then if cookies s = 0 then Some (None, s) else map_option (\<lambda>(a, s1). (Some a, s1)) (bind_cookie reg s)
      else map_option (\<lambda>(err, s1). (if err \<noteq> 0 then None else Some (push_bit 12 (start_pfn (region_of s1 reg))), s1))
             (kbase_gpu_mmap env reg gpu_va va_pages 1 s))"

text \<open>A region with its two objects, its extent and its pages.\<close>

definition fill_region ::
  "('i, 'h) genv \<Rightarrow> u64 \<Rightarrow> u64 \<Rightarrow> u64 \<Rightarrow> u64 \<Rightarrow> nat \<Rightarrow> nat \<Rightarrow> nat \<Rightarrow> ('i, 'h) gctx \<Rightarrow> (int \<times> ('i, 'h) gctx) option" where
  "fill_region env va_pages commit_pages large_extent flags reg cpu gpu s =
     (let grows = flags AND (BASE_MEM_GROW_ON_GPF OR BASE_MEM_TILER_ALIGN_TOP) \<noteq> 0;
          s1 = on_va (upd_region reg (\<lambda>r. r\<lparr> reg_flags := reg_flags r AND NOT KBASE_REG_FREE,
                                             extent := (if grows then large_extent else 0) \<rparr>))
                 (s\<lparr> cpu_alloc := (cpu_alloc s)(reg := Some cpu), gpu_alloc := (gpu_alloc s)(reg := Some gpu) \<rparr>)
      in map_option (\<lambda>(err, p).
             (err, (if err = 0 then on_va (upd_region reg (\<lambda>r. r\<lparr> initial_commit := commit_pages \<rparr>)) else id) (s1\<lparr> gph := p \<rparr>)))
           (kbase_alloc_phy_pages (ge_small env) (reg_sizes s1) reg cpu gpu va_pages commit_pages (gph s1)))"

text \<open>A region that has its objects gets its pages and its address; the result is the region, the flags and the address.\<close>

definition finish_alloc ::
  "('i, 'h) genv \<Rightarrow> u64 \<Rightarrow> u64 \<Rightarrow> u64 \<Rightarrow> u64 \<Rightarrow> nat \<Rightarrow> nat \<Rightarrow> nat \<Rightarrow> u64 \<Rightarrow> ('i, 'h) gctx \<Rightarrow>
   (nat option \<times> u64 \<times> u64 \<times> ('i, 'h) gctx) option" where
  "finish_alloc env va_pages commit_pages large_extent flags reg cpu gpu gpu_va s =
     Option.bind (fill_region env va_pages commit_pages large_extent flags reg cpu gpu s) (\<lambda>(err, s3).
       Option.bind (if err \<noteq> 0 then Some (None, s3) else place_region env flags reg va_pages gpu_va s3) (\<lambda>(addr, s4).
         case addr of
           Some a \<Rightarrow> Some (Some reg, flags, a, s4)
         | None \<Rightarrow> map_option (\<lambda>s5. (None, flags, gpu_va, s5)) (drop_region env reg cpu gpu s4)))"

text \<open>A new region gets its flags, its objects and the rest.\<close>

definition region_alloc ::
  "('i, 'h) genv \<Rightarrow> u64 \<Rightarrow> u64 \<Rightarrow> u64 \<Rightarrow> u64 \<Rightarrow> nat \<Rightarrow> u64 \<Rightarrow> ('i, 'h) gctx \<Rightarrow> (nat option \<times> u64 \<times> u64 \<times> ('i, 'h) gctx) option" where
  "region_alloc env va_pages commit_pages large_extent flags reg gpu_va s =
     (let (err, rf) = kbase_update_region_flags (ge_coherency env) (ge_non_cacheable env) flags (reg_flags (region_of s reg));
          s1 = on_va (upd_region reg (\<lambda>r. r\<lparr> reg_flags := rf \<rparr>)) s
      in if err \<noteq> 0 then Some (None, flags, gpu_va, on_va (kfree_region reg) s1)
         else Option.bind (kbase_reg_prepare_native (ge_small env) (ge_struct_size env) va_pages
                (ge_infinite_cache env \<and> rf AND KBASE_REG_CPU_CACHED \<noteq> 0) (base_mem_group_id_get flags) (gph s1))
           (\<lambda>(err, cpu, gpu, p).
             if err \<noteq> 0 then Some (None, flags, gpu_va, on_va (kfree_region reg) (s1\<lparr> gph := p \<rparr>))
             else finish_alloc env va_pages commit_pages large_extent flags reg cpu gpu gpu_va (s1\<lparr> gph := p \<rparr>)))"

definition kbase_mem_alloc ::
  "('i, 'h) genv \<Rightarrow> u64 \<Rightarrow> u64 \<Rightarrow> u64 \<Rightarrow> u64 \<Rightarrow> u64 \<Rightarrow> ('i, 'h) gctx \<Rightarrow> (nat option \<times> u64 \<times> u64 \<times> ('i, 'h) gctx) option" where
  "kbase_mem_alloc env va_pages commit_pages large_extent flags0 gpu_va0 s =
     (let gpu_va = (if flags0 AND BASE_MEM_FLAG_MAP_FIXED = 0 then 0 else gpu_va0);
          (coherent_ok, flags) = coherency_flags env flags0
      in if \<not> kbase_check_alloc_flags flags0 then Some (None, flags0, gpu_va, s)
         else if \<not> coherent_ok then Some (None, flags, gpu_va, s)
         else if kbase_check_alloc_sizes (ge_pc_bits env) flags va_pages commit_pages large_extent \<noteq> 0
         then Some (None, flags, gpu_va, s)
         else let (z, zone) = alloc_zone flags (gva s)
              in case kbase_alloc_free_region z (drop_bit 12 gpu_va) va_pages zone (gva s) of
                   (None, k) \<Rightarrow> Some (None, flags, gpu_va, s\<lparr> gva := k \<rparr>)
                 | (Some reg, k) \<Rightarrow> region_alloc env va_pages commit_pages large_extent flags reg gpu_va (s\<lparr> gva := k \<rparr>))"

end
