(* ===== verification/KB_PhyRuns.thy ===== *)
theory KB_PhyRuns
  imports KB_PhyAlloc
begin

text \<open>
  What the functions on physical memory promise: the pages of an object come from the pools and go
  back to them, none backs two objects, and the counters of used pages are exact, in every run.
\<close>

unbundle bit_operations_syntax

section \<open>Entries of small pages\<close>

lemma good_entry:
  assumes "good_page e"
  shows "is_head e" "as_phys_addr_t e = e" "\<not> is_huge e" "\<not> is_partial e" "as_tagged e = e"
proof -
  have a: "page_aligned e" "e \<noteq> 0" using assms by (simp_all add: good_page_def)
  then show p: "as_phys_addr_t e = e" "as_tagged e = e" by (simp_all add: as_phys_addr_t_def as_tagged_def and_mask_page)
  show h: "\<not> is_huge e" using page_aligned_bit [OF a(1), of 0] by (simp add: is_huge_iff)
  have f: "FROM_PARTIAL = 2 ^ 2" by (simp add: FROM_PARTIAL_def push_bit_eq_mult)
  have "e AND FROM_PARTIAL = 0 \<longleftrightarrow> \<not> bit e 2" unfolding f by (rule and_exp_eq_0_iff_not_bit)
  then show "\<not> is_partial e" using page_aligned_bit [OF a(1), of 2] by (simp add: is_partial_def)
  show "is_head e" using p h a by (simp add: is_head_def)
qed

lemma good_head_pages: "\<forall>e \<in> set es. good_page e \<Longrightarrow> head_pages es = es"
  by (induction es) (simp_all add: good_entry)

lemma pool_entries_good:
  "entries_from_pool i n (s :: 'i::finite mem_state) = (es, t) \<Longrightarrow> n \<le> pool_size (pools s i) \<Longrightarrow> pools_ok s \<Longrightarrow> pool_order (pools s i) = 0 \<Longrightarrow>
   \<forall>e \<in> set es. good_page e"
proof (induction n arbitrary: s es)
  case 0
  then show ?case by simp
next
  case (Suc n)
  from Suc.prems(2) have "pool_size (pools s i) \<noteq> 0" by simp
  then obtain p s1 where s1: "kbase_mem_pool_remove_locked i s = (Some p, s1)"
    "pool_size (pools s1 i) = pool_size (pools s i) - 1" by (rule remove_locked_Some)
  obtain es1 where es1: "entries_from_pool i n s1 = (es1, t)" and es: "es = as_tagged p # es1"
    using Suc.prems(1,4) s1 by (auto simp: page_entries_def split: prod.splits)
  have a: "pool_step False s {#} s1 {#(p, pool_order (pools s i))#}"
    by (rule remove_locked_step [OF s1(1)]) simp
  have ok: "pools_ok s1" by (rule pool_stepD(3) [OF a Suc.prems(3)]) simp
  have good: "good_page p" using pool_stepD(4) [OF a Suc.prems(3)] by simp
  have "\<forall>e \<in> set es1. good_page e"
    by (rule Suc.IH [OF es1 _ ok]) (use Suc.prems s1 pool_step_shape(2) [OF a] in simp_all)
  then show ?case using good good_entry(5) [OF good] by (simp add: es)
qed

lemma kernel_entries_good:
  "entries_from_kernel i n (s :: 'i::finite mem_state) = (es, failed, t) \<Longrightarrow> pools_ok s \<Longrightarrow> pool_order (pools s i) = 0 \<Longrightarrow>
   \<forall>e \<in> set es. good_page e"
proof (induction n arbitrary: s es)
  case 0
  then show ?case by simp
next
  case (Suc n)
  obtain r s1 where s1: "kbase_mem_alloc_page i s = (r, s1)" by (cases "kbase_mem_alloc_page i s")
  note a = alloc_page_step [OF s1, of False]
  show ?case
  proof (cases r)
    case None
    then show ?thesis using Suc.prems(1) s1 by auto
  next
    case (Some p)
    obtain es1 where es1: "entries_from_kernel i n s1 = (es1, failed, t)" and es: "es = as_tagged p # es1"
      using Suc.prems(1,3) s1 Some by (auto simp: page_entries_def split: prod.splits)
    have a': "pool_step False s {#} s1 {#(p, pool_order (pools s i))#}" using a Some by simp
    have ok: "pools_ok s1" by (rule pool_stepD(3) [OF a' Suc.prems(2)]) simp
    have good: "good_page p" using pool_stepD(4) [OF a' Suc.prems(2)] by simp
    have "\<forall>e \<in> set es1. good_page e"
      by (rule Suc.IH [OF es1 ok]) (use Suc.prems pool_step_shape(2) [OF a'] in simp)
    then show ?thesis using good good_entry(5) [OF good] by (simp add: es)
  qed
qed

lemma alloc_pages_good:
  "ranked r (s :: 'i::finite mem_state) \<Longrightarrow> pools_ok s \<Longrightarrow> n \<le> length pages \<Longrightarrow> pool_order (pools s i) = 0 \<Longrightarrow>
   kbase_mem_pool_alloc_pages i n pages False s = Some (res, pages', t) \<Longrightarrow> 0 \<le> res \<Longrightarrow>
   \<forall>e \<in> set (take (nat res) pages'). good_page e"
proof (induction "r i" arbitrary: i n pages s res pages' t rule: less_induct)
  case less
  obtain es s1 where e: "entries_from_pool i (min n (pool_size (pools s i))) s = (es, s1)"
    by (cases "entries_from_pool i (min n (pool_size (pools s i))) s")
  have g: "\<forall>e \<in> set es. good_page e" by (rule pool_entries_good [OF e _ less.prems(2,4)]) simp
  have st: "pool_step False s {#} s1 (pages_of s i (head_pages es))" and le: "length es = min n (pool_size (pools s i))"
    using entries_from_pool_step [OF e _ less.prems(2), of False] less.prems(4) by simp_all
  have ok: "pools_ok s1" by (rule pool_stepD(3) [OF st less.prems(2)]) simp
  note sh = pool_step_shape [OF st]
  define pages1 where "pages1 = put_entries 0 es pages"
  have p1: "pages1 = es @ drop (length es) pages" by (simp add: pages1_def put_entries_def)
  have eq: "(case pool_next (pools s1 i) of
      None \<Rightarrow> Some (alloc_from_kernel i n (length es) pages1 False s1)
    | Some nx \<Rightarrow>
        if length es = n then Some (int (length es), pages1, s1)
        else Option.bind (kbase_mem_pool_alloc_pages nx (n - length es) (drop (length es) pages1) False s1)
          (\<lambda>res. Some (alloc_via_next i (length es) pages1 res))) = Some (res, pages', t)"
    using less.prems(4,5) e unfolding kbase_mem_pool_alloc_pages.simps [of i n pages] pages1_def
    by (simp add: Let_def del: alloc_via_next.simps)
  show ?case
  proof (cases "pool_next (pools s i)")
    case None
    obtain fs failed s2 where f: "entries_from_kernel i (n - length es) s1 = (fs, failed, s2)" by (metis prod_cases3)
    have gf: "\<forall>e \<in> set fs. good_page e"
      by (rule kernel_entries_good [OF f ok]) (simp add: sh less.prems(4))
    have k: "alloc_from_kernel i n (length es) pages1 False s1 = (res, pages', t)"
      using eq None by (simp add: sh)
    obtain m where m: "length fs = m" "\<not> failed \<longrightarrow> m = n - length es" "m \<le> n - length es"
      using entries_from_kernel_step [OF f ok, of False] by (auto simp: sh less.prems(4))
    have nf: "\<not> failed"
    proof
      assume failed
      then have "res = -12" using k f by (auto simp: alloc_from_kernel_def sh less.prems(4) Let_def split: prod.splits)
      then show False using less.prems(6) by simp
    qed
    then have r: "pages' = put_entries (length es) fs pages1" "res = int (length es + length fs)"
      using k f by (auto simp: alloc_from_kernel_def sh less.prems(4) Let_def)
    have "take (nat res) pages' = es @ fs"
      using r m nf le less.prems(3) by (simp add: put_entries_def p1)
    then show ?thesis using g gf by auto
  next
    case (Some nx)
    show ?thesis
    proof (cases "length es = n")
      case True
      then have "res = int n" "pages' = pages1" using eq Some by (simp_all add: sh)
      then show ?thesis using g True by (simp add: p1)
    next
      case False
      obtain e' ps s2 where s2: "kbase_mem_pool_alloc_pages nx (n - length es) (drop (length es) pages1) False s1 = Some (e', ps, s2)"
        and v: "alloc_via_next i (length es) pages1 (e', ps, s2) = (res, pages', t)"
        using eq Some False by (auto simp: sh bind_eq_Some_conv)
      have pos: "0 \<le> e'"
        using v less.prems(6) by (auto split: if_splits prod.splits)
      have o: "pool_order (pools s1 nx) = 0"
        using orders_okD [OF pools_ok_orders [OF less.prems(2)] Some] by (simp add: sh less.prems(4))
      have "\<forall>e \<in> set (take (nat e') ps). good_page e"
        by (rule less.hyps [OF rankedD [OF less.prems(1) Some] ranked_step [OF less.prems(1) st] ok _ o s2 pos])
          (use less.prems(3) in \<open>simp add: p1\<close>)
      moreover have "take (nat res) pages' = es @ take (nat e') ps"
        using v pos by (auto simp: p1 nat_add_distrib)
      ultimately show ?thesis using g by auto
    qed
  qed
qed

section \<open>The invariant\<close>

text \<open>
  The pages that an object holds, all of order 0. The invariant over the objects of a context: every
  page the kernel has given is in a pool, backs one object, is with another user (\<open>T\<close>), or has been
  given back; the counters have grown by the number of pages that back objects.
\<close>

definition backing :: "phy_alloc \<Rightarrow> (u64 \<times> nat) multiset" where
  "backing al = image_mset (\<lambda>p. (p, 0)) (mset (take (pa_nents al) (pa_pages al)))"

definition sound :: "phy_alloc \<Rightarrow> bool" where
  "sound al \<longleftrightarrow> pa_nents al \<le> length (pa_pages al) \<and> (\<forall>e \<in> set (take (pa_nents al) (pa_pages al)). good_page e) \<and>
     pa_evicted al = 0 \<and> pa_type al = KBASE_MEM_TYPE_NATIVE \<and>
     native_kctx al \<and> (0 < pa_nents al \<longrightarrow> pa_group al < 16)"

definition phys_inv ::
  "('i \<Rightarrow> nat) \<Rightarrow> (nat \<Rightarrow> 'i) \<Rightarrow> (u64 \<times> nat) multiset \<Rightarrow> int \<times> int \<Rightarrow> 'i::finite phys \<Rightarrow> bool" where
  "phys_inv r small_of T k0 s \<longleftrightarrow>
     ranked r (mm (pmem s)) \<and> pools_ok (mm (pmem s)) \<and> (\<forall>g. pool_order (pools (mm (pmem s)) (small_of g)) = 0) \<and>
     mset (taken (mm (pmem s))) = pool_pages (mm (pmem s)) + mset (released (mm (pmem s))) +
       (\<Sum>a<next_alloc s. backing (pallocs s a)) + T \<and>
     (\<forall>a < next_alloc s. sound (pallocs s a)) \<and>
     kctx_used_pages (pmem s) = fst k0 + (\<Sum>a<next_alloc s. int (pa_nents (pallocs s a))) \<and>
     kbdev_used_pages (pmem s) = snd k0 + (\<Sum>a<next_alloc s. int (pa_nents (pallocs s a)))"

lemma phys_simps [simp]:
  "pallocs (upd_alloc a f s) = (pallocs s)(a := f (pallocs s a))" "next_alloc (upd_alloc a f s) = next_alloc s"
  "pfreed (upd_alloc a f s) = pfreed s" "create_ok (upd_alloc a f s) = create_ok s" "pmem (upd_alloc a f s) = pmem s"
  "pallocs (set_pools m s) = pallocs s" "next_alloc (set_pools m s) = next_alloc s" "pfreed (set_pools m s) = pfreed s"
  "create_ok (set_pools m s) = create_ok s" "mm (pmem (set_pools m s)) = m"
  "kctx_used_pages (pmem (set_pools m s)) = kctx_used_pages (pmem s)"
  "kbdev_used_pages (pmem (set_pools m s)) = kbdev_used_pages (pmem s)"
  "pallocs (use_pages n s) = pallocs s" "next_alloc (use_pages n s) = next_alloc s" "pfreed (use_pages n s) = pfreed s"
  "create_ok (use_pages n s) = create_ok s" "mm (pmem (use_pages n s)) = mm (pmem s)"
  "kctx_used_pages (pmem (use_pages n s)) = kctx_used_pages (pmem s) + n"
  "kbdev_used_pages (pmem (use_pages n s)) = kbdev_used_pages (pmem s) + n"
  by (simp_all add: upd_alloc_def set_pools_def use_pages_def)

lemma sum_upd:
  fixes f :: "'b \<Rightarrow> 'c::comm_monoid_add"
  assumes "a < (n :: nat)"
  shows "(\<Sum>b<n. f ((g(a := y)) b)) + f (g a) = (\<Sum>b<n. f (g b)) + f y"
proof -
  have "(\<Sum>b<n. f ((g(a := y)) b)) = f y + (\<Sum>b\<in>{..<n} - {a}. f (g b))"
    using assms by (subst sum.remove [of _ a]) (auto intro: sum.cong)
  moreover have "(\<Sum>b<n. f (g b)) = f (g a) + (\<Sum>b\<in>{..<n} - {a}. f (g b))"
    using assms by (subst sum.remove [of _ a]) auto
  ultimately show ?thesis by (simp add: ac_simps)
qed

text \<open>One object changes, and the pools with it.\<close>

lemma phys_change:
  assumes inv: "phys_inv r small_of T k0 s" and a: "a < next_alloc s"
    and st: "pool_step d (mm (pmem s)) X m Y" and X: "X \<subseteq># backing (pallocs s a)"
    and b: "backing al + X = backing (pallocs s a) + Y" and al: "sound al"
    and s': "pallocs s' = (pallocs s)(a := al)" "next_alloc s' = next_alloc s" "mm (pmem s') = m"
      "kctx_used_pages (pmem s') = kctx_used_pages (pmem s) + (int (pa_nents al) - int (pa_nents (pallocs s a)))"
      "kbdev_used_pages (pmem s') = kbdev_used_pages (pmem s) + (int (pa_nents al) - int (pa_nents (pallocs s a)))"
  shows "phys_inv r small_of T k0 s'"
proof -
  note i = inv [unfolded phys_inv_def]
  let ?m = "mm (pmem s)" and ?old = "backing (pallocs s a)"
  have "\<forall>x \<in># ?old. good_page (fst x)" using i a by (auto simp: sound_def backing_def)
  then have gX: "\<forall>x \<in># X. good_page (fst x)" using mset_subset_eqD [OF X] by blast
  have ok: "pools_ok ?m" using i by blast
  note p = pool_stepD(3-5) [OF st ok gX]
  let ?S = "\<Sum>b<next_alloc s. backing (pallocs s b)" and ?S' = "\<Sum>b<next_alloc s. backing (((pallocs s)(a := al)) b)"
  have S: "?S' + ?old = ?S + backing al" by (rule sum_upd [OF a])
  have "mset (taken m) + (?old + Y) + (pool_pages ?m + mset (released ?m)) =
      pool_pages m + mset (released m) + ?S' + T + (?old + Y) + (pool_pages ?m + mset (released ?m))"
  proof -
    have b': "?old + Y = X + backing al" using b by (simp add: ac_simps)
    have "mset (taken m) + (?old + Y) + (pool_pages ?m + mset (released ?m)) =
        (pool_pages ?m + mset (released ?m) + X + mset (taken m)) + backing al" unfolding b' by (simp only: ac_simps)
    also have "\<dots> = (pool_pages m + mset (released m) + Y + mset (taken ?m)) + backing al"
      using p(3) by (simp only: balanced_def)
    also have "\<dots> = pool_pages m + mset (released m) + Y + (pool_pages ?m + mset (released ?m)) + T + (?S + backing al)"
      using i by (simp add: ac_simps)
    also have "\<dots> = pool_pages m + mset (released m) + ?S' + T + (?old + Y) + (pool_pages ?m + mset (released ?m))"
      unfolding S [symmetric] by (simp only: ac_simps)
    finally show ?thesis .
  qed
  then have t: "mset (taken m) = pool_pages m + mset (released m) + ?S' + T" by (simp only: add_right_cancel)
  have c: "(\<Sum>b<next_alloc s. int (pa_nents (((pallocs s)(a := al)) b))) + int (pa_nents (pallocs s a)) =
      (\<Sum>b<next_alloc s. int (pa_nents (pallocs s b))) + int (pa_nents al)"
    by (rule sum_upd [OF a])
  show ?thesis
    unfolding phys_inv_def s'
    using t c i p(1) al ranked_step [OF _ st] pool_step_shape(2) [OF st] by simp
qed

definition touched :: "nat \<Rightarrow> nat \<Rightarrow> 'i phys \<Rightarrow> 'i phys \<Rightarrow> bool" where
  "touched a n s s' \<longleftrightarrow> next_alloc s' = next_alloc s \<and> pfreed s' = pfreed s \<and> create_ok s' = create_ok s \<and>
     (\<forall>b. b \<noteq> a \<longrightarrow> pallocs s' b = pallocs s b) \<and>
     (\<exists>ps. length ps = length (pa_pages (pallocs s a)) \<and>
        take (min n (pa_nents (pallocs s a))) ps = take (min n (pa_nents (pallocs s a))) (pa_pages (pallocs s a)) \<and>
        pallocs s' a = (pallocs s a)\<lparr> pa_pages := ps, pa_nents := n \<rparr>)"

lemma touched_refl: "n = pa_nents (pallocs s a) \<Longrightarrow> touched a n s s"
  by (auto simp: touched_def)

lemma pools_outcome:
  assumes inv: "phys_inv r small_of T k0 s" and n: "n \<le> length pages"
  obtains res tp m where "kbase_mem_pool_alloc_pages (small_of g) n pages False (mm (pmem s)) = Some (res, tp, m)"
    and "length tp = length pages"
    and "res < 0 \<and> pool_step False (mm (pmem s)) {#} m {#} \<or>
      res = int n \<and> (\<forall>e \<in> set (take n tp). good_page e) \<and>
      pool_step False (mm (pmem s)) {#} m (image_mset (\<lambda>p. (p, 0)) (mset (take n tp)))"
proof -
  note i = inv [unfolded phys_inv_def]
  have o: "pool_order (pools (mm (pmem s)) (small_of g)) = 0" using i by blast
  obtain res tp m where r: "kbase_mem_pool_alloc_pages (small_of g) n pages False (mm (pmem s)) = Some (res, tp, m)"
    and out: "alloc_outcome (pool_next (pools (mm (pmem s)) (small_of g)) = None) (small_of g) n False pages (mm (pmem s)) res tp m"
    using alloc_pages_outcome [of r "mm (pmem s)" n pages "small_of g" False] i n by blast
  note out = out [unfolded alloc_outcome_def]
  have "res < 0 \<and> pool_step False (mm (pmem s)) {#} m {#} \<or>
      res = int n \<and> (\<forall>e \<in> set (take n tp). good_page e) \<and>
      pool_step False (mm (pmem s)) {#} m (image_mset (\<lambda>p. (p, 0)) (mset (take n tp)))"
  proof (cases "res < 0")
    case True
    then show ?thesis using out pool_step_any by blast
  next
    case False
    then have rn: "nat res = n" using out by simp
    have g: "\<forall>e \<in> set (take (nat res) tp). good_page e"
      by (rule alloc_pages_good [where r = r, OF _ _ n o r]) (use i False in simp_all)
    have "pool_step False (mm (pmem s)) {#} m (pages_of (mm (pmem s)) (small_of g) (head_pages (take (nat res) tp)))"
      using out False pool_step_any by auto
    then show ?thesis using g rn False by (simp add: good_head_pages o)
  qed
  then show ?thesis using that [OF r] out by blast
qed

lemma alloc_helper_ok:
  assumes inv: "phys_inv r small_of T k0 s" and a: "a < next_alloc s"
    and room: "pa_nents (pallocs s a) + nr \<le> length (pa_pages (pallocs s a))"
  obtains err s' where "kbase_alloc_phy_pages_helper small_of reg_pages a nr s = Some (err, s')"
    and "phys_inv r small_of T k0 s'" and "err = 0 \<or> err = -12 \<or> err = -22"
    and "touched a (pa_nents (pallocs s a) + (if err = 0 then nr else 0)) s s'"
proof -
  let ?al = "pallocs s a"
  note d = kbase_alloc_phy_pages_helper_def [of small_of reg_pages a nr s, unfolded Let_def]
  have so: "sound ?al" using inv a by (simp add: phys_inv_def)
  consider (bad) err where "kbase_alloc_phy_pages_helper small_of reg_pages a nr s = Some (err, s)"
      "err = -12 \<or> err = -22 \<or> err = 0 \<and> nr = 0"
    | (go) "pa_type ?al = KBASE_MEM_TYPE_NATIVE" "native_kctx ?al" "pa_group ?al < 16" "nr \<noteq> 0"
      "kbase_alloc_phy_pages_helper small_of reg_pages a nr s =
        Option.bind (kbase_mem_pool_alloc_pages (small_of (pa_group ?al)) nr (drop (pa_nents ?al) (pa_pages ?al)) False (mm (pmem s)))
          (\<lambda>(res, tp, m).
            let s2 = upd_alloc a (\<lambda>al. al\<lparr> pa_pages := take (pa_nents al) (pa_pages al) @ tp \<rparr>) (set_pools m (use_pages (int nr) s))
            in if res \<le> 0 then Some (-12, use_pages (- int nr) s2)
               else Some (0, upd_alloc a (\<lambda>al. al\<lparr> pa_nents := pa_nents al + nr \<rparr>) s2))"
  proof (cases "pa_type ?al \<noteq> KBASE_MEM_TYPE_NATIVE \<or> \<not> native_kctx ?al \<or> pa_group ?al \<ge> 16")
    case True
    then show ?thesis using bad [of "-22"] by (simp add: d)
  next
    case ok: False
    show ?thesis
    proof (cases "case pa_reg ?al of None \<Rightarrow> False | Some r \<Rightarrow> of_nat nr > reg_pages r - of_nat (pa_nents ?al)")
      case True
      then show ?thesis using bad [of "-12"] ok by (simp add: d)
    next
      case False
      show ?thesis
      proof (cases "nr = 0")
        case True
        then have "kbase_alloc_phy_pages_helper small_of reg_pages a nr s = Some (0, s)"
          unfolding d using ok False by auto
        then show ?thesis using bad True by blast
      next
        case nz: False
        show ?thesis by (rule go) (use ok False room nz in \<open>simp_all add: d Let_def\<close>)
      qed
    qed
  qed
  then show ?thesis
  proof cases
    case bad
    then show ?thesis using that [OF bad(1) inv] touched_refl [of _ s a, OF refl] by auto
  next
    case go
    have len: "nr \<le> length (drop (pa_nents ?al) (pa_pages ?al))" using room by simp
    obtain res tp m where r: "kbase_mem_pool_alloc_pages (small_of (pa_group ?al)) nr (drop (pa_nents ?al) (pa_pages ?al)) False (mm (pmem s)) = Some (res, tp, m)"
      and lt: "length tp = length (drop (pa_nents ?al) (pa_pages ?al))"
      and out: "res < 0 \<and> pool_step False (mm (pmem s)) {#} m {#} \<or>
        res = int nr \<and> (\<forall>e \<in> set (take nr tp). good_page e) \<and>
        pool_step False (mm (pmem s)) {#} m (image_mset (\<lambda>p. (p, 0)) (mset (take nr tp)))"
      by (rule pools_outcome [OF inv len])
    define ps where "ps = take (pa_nents ?al) (pa_pages ?al) @ tp"
    have ps: "length ps = length (pa_pages ?al)" "take (pa_nents ?al) ps = take (pa_nents ?al) (pa_pages ?al)"
      "take (pa_nents ?al + nr) ps = take (pa_nents ?al) (pa_pages ?al) @ take nr tp"
      using so lt room by (simp_all add: ps_def sound_def)
    show ?thesis
    proof (cases "res < 0")
      case True
      define s' where "s' = use_pages (- int nr) (upd_alloc a (\<lambda>al. al\<lparr> pa_pages := ps \<rparr>) (set_pools m (use_pages (int nr) s)))"
      have e: "kbase_alloc_phy_pages_helper small_of reg_pages a nr s = Some (-12, s')"
        unfolding go(5) r using True by (simp add: s'_def ps_def Let_def upd_alloc_def)
      have "phys_inv r small_of T k0 s'"
      proof (rule phys_change [OF inv a, where X = "{#}" and Y = "{#}" and al = "?al\<lparr> pa_pages := ps \<rparr>" and d = False and m = m])
        show "pool_step False (mm (pmem s)) {#} m {#}" using out True by auto
        show "sound (?al\<lparr> pa_pages := ps \<rparr>)" using so ps by (simp add: sound_def)
      qed (use ps in \<open>simp_all add: s'_def backing_def\<close>)
      moreover have "touched a (pa_nents ?al) s s'" using ps by (auto simp: touched_def s'_def)
      ultimately show ?thesis using that [OF e] by simp
    next
      case False
      then have rn: "res = int nr" using out by simp
      let ?al' = "?al\<lparr> pa_pages := ps, pa_nents := pa_nents ?al + nr \<rparr>"
      define s' where "s' = upd_alloc a (\<lambda>al. al\<lparr> pa_nents := pa_nents al + nr \<rparr>)
        (upd_alloc a (\<lambda>al. al\<lparr> pa_pages := ps \<rparr>) (set_pools m (use_pages (int nr) s)))"
      have e: "kbase_alloc_phy_pages_helper small_of reg_pages a nr s = Some (0, s')"
        unfolding go(5) r using rn go(4) by (simp add: s'_def ps_def Let_def upd_alloc_def)
      have "phys_inv r small_of T k0 s'"
      proof (rule phys_change [OF inv a, where X = "{#}" and Y = "image_mset (\<lambda>p. (p, 0)) (mset (take nr tp))"
            and al = ?al' and d = False and m = m])
        show "pool_step False (mm (pmem s)) {#} m (image_mset (\<lambda>p. (p, 0)) (mset (take nr tp)))" using out False by auto
        show "backing ?al' + {#} = backing ?al + image_mset (\<lambda>p. (p, 0)) (mset (take nr tp))" by (simp add: backing_def ps(3))
        show "sound ?al'" using so ps room go out False by (auto simp: sound_def)
      qed (simp_all add: s'_def)
      moreover have "touched a (pa_nents ?al + nr) s s'"
        using ps so by (auto simp: touched_def s'_def sound_def intro!: exI [of _ ps])
      ultimately show ?thesis using that [OF e] by simp
    qed
  qed
qed

lemma free_helper_ok:
  assumes inv: "phys_inv r small_of T k0 s" and a: "a < next_alloc s"
  obtains err s' where "kbase_free_phy_pages_helper small_of a nr s = Some (err, s')" and "phys_inv r small_of T k0 s'"
    and "touched a (if nr \<le> pa_nents (pallocs s a) then pa_nents (pallocs s a) - nr else pa_nents (pallocs s a)) s s'"
proof -
  let ?al = "pallocs s a"
  note d = kbase_free_phy_pages_helper_def [of small_of a nr s, unfolded Let_def]
  have so: "sound ?al" using inv a by (simp add: phys_inv_def)
  show ?thesis
  proof (cases "nr = 0 \<or> pa_nents ?al < nr")
    case True
    then have "\<exists>err. kbase_free_phy_pages_helper small_of a nr s = Some (err, s)" using so unfolding d by (auto simp: sound_def)
    then show ?thesis using that [OF _ inv] True touched_refl [of _ s a, OF refl] by auto
  next
    case False
    then have n: "nr \<noteq> 0" "nr \<le> pa_nents ?al" by auto
    define start es where "start = pa_nents ?al - nr" and "es = take nr (drop start (pa_pages ?al))"
    have tk: "take (pa_nents ?al) (pa_pages ?al) = take start (pa_pages ?al) @ es"
      using n by (simp add: start_def es_def take_add [symmetric])
    have le: "length es = nr" using so n by (auto simp: es_def start_def sound_def min_def)
    have g: "\<forall>e \<in> set es. good_page e" using so tk by (auto simp: sound_def)
    note i = inv [unfolded phys_inv_def]
    obtain es' m where f: "kbase_mem_pool_free_pages (small_of (pa_group ?al)) nr es (accessed_cached ?al) False (mm (pmem s)) = (es', m)"
      by fastforce
    have gv: "gives True (small_of (pa_group ?al)) es (mm (pmem s)) nr es' m"
      by (rule free_pages_gives [OF f]) (use le i pools_ok_orders in auto)
    then have st: "pool_step True (mm (pmem s)) (image_mset (\<lambda>p. (p, 0)) (mset es)) m {#}" and le': "length es' = nr"
      using i by (simp_all add: gives_def le good_head_pages [OF g])
    define ps where "ps = take start (pa_pages ?al) @ es' @ drop (start + nr) (pa_pages ?al)"
    define s' where "s' = use_pages (- int nr) (upd_alloc a (\<lambda>al. al\<lparr> pa_pages := ps, pa_nents := start \<rparr>) (set_pools m s))"
    have e: "kbase_free_phy_pages_helper small_of a nr s = Some (0, s')"
      unfolding d using so n g f good_entry(3,4)
      by (auto simp: sound_def s'_def ps_def start_def [symmetric] es_def [symmetric] upd_alloc_def)
    have sl: "start + nr = pa_nents ?al" "pa_nents ?al \<le> length (pa_pages ?al)" using so n by (simp_all add: start_def sound_def)
    have ps: "take start ps = take start (pa_pages ?al)" "length ps = length (pa_pages ?al)"
      using sl(2) le' by (auto simp add: ps_def sl(1) [symmetric] min_def)
    let ?al' = "?al\<lparr> pa_pages := ps, pa_nents := start \<rparr>"
    have "phys_inv r small_of T k0 s'"
    proof (rule phys_change [OF inv a st])
      show "image_mset (\<lambda>p. (p, 0)) (mset es) \<subseteq># backing ?al" by (simp add: backing_def tk)
      show "backing ?al' + image_mset (\<lambda>p. (p, 0)) (mset es) = backing ?al + {#}" by (simp add: backing_def tk ps(1))
      show "sound ?al'" using so n ps tk by (auto simp: sound_def start_def)
    qed (use n in \<open>simp_all add: s'_def start_def\<close>)
    moreover have "touched a start s s'"
      using ps so n by (auto simp: touched_def s'_def start_def sound_def intro!: exI [of _ ps])
    ultimately show ?thesis using that [OF e] n by (simp add: start_def)
  qed
qed

text \<open>Changes of an object that do not bear on its pages.\<close>

lemma phys_plain:
  assumes inv: "phys_inv r small_of T k0 s" and a: "a < next_alloc s"
    and al: "pa_nents (f (pallocs s a)) = pa_nents (pallocs s a)" "pa_pages (f (pallocs s a)) = pa_pages (pallocs s a)"
      "pa_evicted (f (pallocs s a)) = pa_evicted (pallocs s a)" "pa_type (f (pallocs s a)) = pa_type (pallocs s a)"
      "native_kctx (pallocs s a) \<Longrightarrow> native_kctx (f (pallocs s a))" "pa_group (f (pallocs s a)) = pa_group (pallocs s a)"
  shows "phys_inv r small_of T k0 (upd_alloc a f s)"
proof (rule phys_change [OF inv a pool_step_refl, where al = "f (pallocs s a)" and X = "{#}"])
  show "sound (f (pallocs s a))" using inv a al by (simp add: phys_inv_def sound_def)
qed (simp_all add: backing_def al)

lemma freed_inv: "phys_inv r small_of T k0 s \<Longrightarrow> phys_inv r small_of T k0 (s\<lparr> pfreed := l \<rparr>)"
  by (simp add: phys_inv_def)

lemma create_inv:
  assumes inv: "phys_inv r small_of T k0 s" and c: "kbase_alloc_create sz nr KBASE_MEM_TYPE_NATIVE g s = (res, s')"
  shows "res = None \<Longrightarrow> phys_inv r small_of T k0 s'"
    and "res = Some a \<Longrightarrow> phys_inv r small_of T k0 (set_native a s')"
    and "res = None \<Longrightarrow> next_alloc s' = next_alloc s \<and> pallocs s' = pallocs s"
    and "res = Some a \<Longrightarrow> a = next_alloc s \<and> next_alloc s' = next_alloc s + 1 \<and> pa_nents (pallocs s' a) = 0 \<and>
      length (pa_pages (pallocs s' a)) = unat nr \<and> pa_kref (pallocs s' a) = 1 \<and> pa_group (pallocs s' a) = g \<and>
      pa_type (pallocs s' a) = KBASE_MEM_TYPE_NATIVE \<and> pa_reg (pallocs s' a) = None \<and>
      (\<forall>b. b \<noteq> a \<longrightarrow> pallocs s' b = pallocs s b)"
proof -
  consider "res = None" "s' = s" | as where "res = None" "s' = s\<lparr> create_ok := as \<rparr>"
    | as where "res = Some (next_alloc s)"
      "s' = s\<lparr> create_ok := as, next_alloc := next_alloc s + 1,
        pallocs := (pallocs s)(next_alloc s := new_alloc (unat nr) KBASE_MEM_TYPE_NATIVE g) \<rparr>"
  proof -
    define C where "C \<longleftrightarrow> nr > (- 1 - sz) div 8"
    note d = c [unfolded kbase_alloc_create_def Let_def, simplified kbase_memory_type.distinct if_False, folded C_def]
    have "res = None \<and> s' = s \<or> (\<exists>as. res = None \<and> s' = s\<lparr> create_ok := as \<rparr>) \<or>
      (\<exists>as. res = Some (next_alloc s) \<and> s' = s\<lparr> create_ok := as, next_alloc := next_alloc s + 1,
        pallocs := (pallocs s)(next_alloc s := new_alloc (unat nr) KBASE_MEM_TYPE_NATIVE g) \<rparr>)"
      using d by (cases C) (auto split: list.splits bool.splits)
    then show ?thesis using that by blast
  qed
  note cs = this
  have sm: "(\<Sum>b<n. f ((if b = n then x else h b))) = (\<Sum>b<n. f (h b))" for f :: "phy_alloc \<Rightarrow> 'c::comm_monoid_add" and n :: nat and x h
    by (rule sum.cong) auto
  show "phys_inv r small_of T k0 s'" if "res = None"
    using cs by cases (use inv that in \<open>auto simp: phys_inv_def\<close>)
  show "phys_inv r small_of T k0 (set_native a s')" if "res = Some a"
    using cs
  proof cases
    case 3
    then show ?thesis
      using inv sm that by (auto simp: set_native_def phys_inv_def sound_def backing_def new_alloc_def less_Suc_eq)
  qed (use that in simp_all)
  show "res = None \<Longrightarrow> next_alloc s' = next_alloc s \<and> pallocs s' = pallocs s" using cs by cases auto
  show "res = Some a \<Longrightarrow> a = next_alloc s \<and> next_alloc s' = next_alloc s + 1 \<and> pa_nents (pallocs s' a) = 0 \<and>
      length (pa_pages (pallocs s' a)) = unat nr \<and> pa_kref (pallocs s' a) = 1 \<and> pa_group (pallocs s' a) = g \<and>
      pa_type (pallocs s' a) = KBASE_MEM_TYPE_NATIVE \<and> pa_reg (pallocs s' a) = None \<and>
      (\<forall>b. b \<noteq> a \<longrightarrow> pallocs s' b = pallocs s b)"
    using cs by cases (auto simp: new_alloc_def)
qed

lemma put_inv:
  assumes inv: "phys_inv r small_of T k0 s" and a: "a < next_alloc s"
  obtains s' where "kbase_mem_phy_alloc_put small_of a s = Some s'" and "phys_inv r small_of T k0 s'"
    and "next_alloc s' = next_alloc s" and "\<forall>b. b \<noteq> a \<longrightarrow> pallocs s' b = pallocs s b"
    and "if pa_kref (pallocs s a) = 1 then pa_nents (pallocs s' a) = 0 \<and> pfreed s' = a # pfreed s
      else pallocs s' a = (pallocs s a)\<lparr> pa_kref := pa_kref (pallocs s a) - 1 \<rparr> \<and> pfreed s' = pfreed s"
proof -
  let ?s1 = "upd_alloc a (\<lambda>al. al\<lparr> pa_kref := pa_kref al - 1 \<rparr>) s"
  have inv1: "phys_inv r small_of T k0 ?s1" by (rule phys_plain [OF inv a]) simp_all
  have so: "sound (pallocs s a)" using inv a by (simp add: phys_inv_def)
  show ?thesis
  proof (cases "pa_kref (pallocs s a) = 1")
    case False
    then have "kbase_mem_phy_alloc_put small_of a s = Some ?s1" by (simp add: kbase_mem_phy_alloc_put_def put_with_def)
    then show ?thesis using that inv1 False by simp
  next
    case True
    have a1: "a < next_alloc ?s1" using a by simp
    obtain err s2 where f: "kbase_free_phy_pages_helper small_of a (pa_nents (pallocs ?s1 a)) ?s1 = Some (err, s2)"
      and inv2: "phys_inv r small_of T k0 s2"
      and t: "touched a (if pa_nents (pallocs ?s1 a) \<le> pa_nents (pallocs ?s1 a) then pa_nents (pallocs ?s1 a) - pa_nents (pallocs ?s1 a)
        else pa_nents (pallocs ?s1 a)) ?s1 s2"
      by (rule free_helper_ok [OF inv1 a1])
    have "kbase_mem_phy_alloc_put small_of a s = Some (s2\<lparr> pfreed := a # pfreed s2 \<rparr>)"
      using True f so by (simp add: kbase_mem_phy_alloc_put_def put_with_def kbase_mem_kref_free_def kref_free_with_def sound_def Let_def)
    then show ?thesis by (rule that) (use t freed_inv [OF inv2] True in \<open>auto simp: touched_def\<close>)
  qed
qed

end
