(* ===== verification/KB_PhyProps.thy ===== *)
theory KB_PhyProps
  imports KB_PhyRuns
begin

text \<open>
  Runs over the physical memory of the regions of a context: pages are conserved, the counters are
  exact, no page backs two regions, and a request for the pages of a region is all or nothing.
\<close>

section \<open>The memory of a region\<close>

lemma create_pmem: "kbase_alloc_create sz nr type g s = (res, s') \<Longrightarrow> pmem s' = pmem s"
  by (auto simp: kbase_alloc_create_def Let_def split: if_splits list.splits bool.splits)

text \<open>The end of an object without pages.\<close>

lemma put_empty:
  assumes "kbase_mem_phy_alloc_put small_of a s = Some s'" and "sound (pallocs s a)" and "pa_nents (pallocs s a) = 0"
  shows "pmem s' = pmem s"
  using assms
  by (auto simp: kbase_mem_phy_alloc_put_def put_with_def kbase_mem_kref_free_def kref_free_with_def sound_def
      kbase_free_phy_pages_helper_def Let_def split: if_splits)

lemma prepare_ok:
  assumes inv: "phys_inv r small_of T k0 s"
  obtains err cpu gpu s' where "kbase_reg_prepare_native small_of sz n split_alloc g s = Some (err, cpu, gpu, s')"
    and "phys_inv r small_of T k0 s'"
    and "err = 0 \<Longrightarrow> cpu < next_alloc s' \<and> gpu < next_alloc s' \<and> (\<forall>a \<in> {cpu, gpu}. pa_nents (pallocs s' a) = 0 \<and>
      length (pa_pages (pallocs s' a)) = unat n \<and> pa_reg (pallocs s' a) = None \<and>
      pa_kref (pallocs s' a) = (if cpu = gpu then 2 else 1) \<and> next_alloc s \<le> a)"
    and "pmem s' = pmem s"
proof -
  note d = kbase_reg_prepare_native_def [of small_of sz n split_alloc g s]
  obtain res s1 where c: "kbase_alloc_create sz n KBASE_MEM_TYPE_NATIVE g s = (res, s1)" by fastforce
  note C = create_inv [OF inv c] and pm = create_pmem [OF c]
  show ?thesis
  proof (cases res)
    case None
    then have "kbase_reg_prepare_native small_of sz n split_alloc g s = Some (-12, 0, 0, s1)" by (simp add: d c)
    then show ?thesis using that C(1) [OF None] pm by simp
  next
    case (Some cpu)
    have cpu: "cpu < next_alloc s1" and cpu1: "pa_nents (pallocs s1 cpu) = 0" "length (pa_pages (pallocs s1 cpu)) = unat n"
      "pa_reg (pallocs s1 cpu) = None" "pa_kref (pallocs s1 cpu) = 1" "next_alloc s \<le> cpu"
      using C(4) [OF Some] by (metis less_add_one order_refl)+
    note inv2 = C(2) [OF Some]
    have s2: "next_alloc (set_native cpu s1) = next_alloc s1"
      "pallocs (set_native cpu s1) = (pallocs s1)(cpu := (pallocs s1 cpu)\<lparr> native_kctx := True \<rparr>)"
      "pmem (set_native cpu s1) = pmem s"
      by (simp_all add: set_native_def pm)
    show ?thesis
    proof (cases split_alloc)
      case False
      have i: "phys_inv r small_of T k0 (kbase_mem_phy_alloc_get cpu (set_native cpu s1))"
        unfolding kbase_mem_phy_alloc_get_def by (rule phys_plain [OF inv2]) (use cpu s2 in simp_all)
      have e: "kbase_reg_prepare_native small_of sz n split_alloc g s =
          Some (0, cpu, cpu, kbase_mem_phy_alloc_get cpu (set_native cpu s1))"
        unfolding d c Some using False by simp
      show ?thesis by (rule that [OF e i]) (simp_all add: s2 kbase_mem_phy_alloc_get_def cpu cpu1)
    next
      case True
      obtain res2 s3 where c2: "kbase_alloc_create sz n KBASE_MEM_TYPE_NATIVE g (set_native cpu s1) = (res2, s3)" by fastforce
      note C2 = create_inv [OF inv2 c2] and pm2 = create_pmem [OF c2]
      show ?thesis
      proof (cases res2)
        case None
        have "cpu < next_alloc s3" using C2(3) [OF None] cpu s2 by simp
        then obtain s4 where s4: "kbase_mem_phy_alloc_put small_of cpu s3 = Some s4" "phys_inv r small_of T k0 s4"
          using put_inv [OF C2(1) [OF None]] by metis
        have so: "sound (pallocs s3 cpu)" using C2(1) [OF None] \<open>cpu < next_alloc s3\<close> by (simp add: phys_inv_def)
        have "pa_nents (pallocs s3 cpu) = 0" using C2(3) [OF None] cpu1 s2 by simp
        then have pm4: "pmem s4 = pmem s" using put_empty [OF s4(1) so] pm2 s2 by simp
        from s4(1) have "kbase_reg_prepare_native small_of sz n split_alloc g s = Some (-12, cpu, 0, s4)"
          unfolding d c Some using True by (simp add: c2 None)
        then show ?thesis by (rule that [OF _ s4(2)]) (simp_all add: pm4)
      next
        case gpu: (Some gpu)
        have g: "gpu < next_alloc s3" "cpu < next_alloc s3" "cpu \<noteq> gpu" using C2(4) [OF gpu] cpu s2 by auto
        note inv4 = C2(2) [OF gpu]
        have gpu1: "pa_nents (pallocs s3 gpu) = 0" "length (pa_pages (pallocs s3 gpu)) = unat n" "pa_reg (pallocs s3 gpu) = None"
          "pa_kref (pallocs s3 gpu) = 1" "next_alloc s \<le> gpu"
          using C2(4) [OF gpu] s2 cpu cpu1 by auto
        have p: "pallocs s3 cpu = pallocs (set_native cpu s1) cpu" using C2(4) [OF gpu] g(3) by simp
        have "kbase_reg_prepare_native small_of sz n split_alloc g s = Some (0, cpu, gpu, set_native gpu s3)"
          unfolding d c Some using True by (simp add: c2 gpu)
        then show ?thesis by (rule that [OF _ inv4]) (use g cpu1 gpu1 p s2 pm2 in \<open>simp_all add: set_native_def\<close>)
      qed
    qed
  qed
qed

text \<open>Both objects of a region get the pages that are committed, or none does.\<close>

lemma alloc_region_ok:
  assumes inv: "phys_inv r small_of T k0 s" and a: "cpu < next_alloc s" "gpu < next_alloc s"
    and z: "pa_nents (pallocs s cpu) = 0" "pa_nents (pallocs s gpu) = 0"
    and len: "unat (reg_pages reg) \<le> length (pa_pages (pallocs s cpu))" "unat (reg_pages reg) \<le> length (pa_pages (pallocs s gpu))"
  obtains err s' where "kbase_alloc_phy_pages small_of reg_pages reg cpu gpu vsize commit s = Some (err, s')"
    and "phys_inv r small_of T k0 s'" and "err = 0 \<or> err = -1" and "next_alloc s' = next_alloc s"
    and "\<forall>b. b \<noteq> cpu \<longrightarrow> b \<noteq> gpu \<longrightarrow> pallocs s' b = pallocs s b"
    and "\<forall>b \<in> {cpu, gpu}. pa_nents (pallocs s' b) = (if err = 0 then unat commit else 0) \<and>
      pa_kref (pallocs s' b) = pa_kref (pallocs s b)"
proof -
  note d = kbase_alloc_phy_pages_def [of small_of reg_pages reg cpu gpu vsize commit s]
  show ?thesis
  proof (cases "commit > vsize \<or> vsize > reg_pages reg \<or> vsize > - 1 div 8")
    case True
    then have "kbase_alloc_phy_pages small_of reg_pages reg cpu gpu vsize commit s = Some (-1, s)" unfolding d by auto
    then show ?thesis using that inv z by simp
  next
    case False
    then have c: "unat commit \<le> unat (reg_pages reg)" by (simp add: not_less word_le_nat_alt)
    obtain e1 s1 where f1: "kbase_alloc_phy_pages_helper small_of reg_pages cpu (unat commit) s = Some (e1, s1)"
      and inv1: "phys_inv r small_of T k0 s1" and e1: "e1 = 0 \<or> e1 = -12 \<or> e1 = -22"
      and t1: "touched cpu (pa_nents (pallocs s cpu) + (if e1 = 0 then unat commit else 0)) s s1"
      by (rule alloc_helper_ok [OF inv a(1), of "unat commit" reg_pages]) (use c z len in simp)
    show ?thesis
    proof (cases "e1 = 0")
      case False
      then have "kbase_alloc_phy_pages small_of reg_pages reg cpu gpu vsize commit s = Some (-1, s1)"
        unfolding d using \<open>\<not> (commit > vsize \<or> _)\<close> f1 by simp
      moreover have "pa_nents (pallocs s1 cpu) = 0 \<and> pa_kref (pallocs s1 cpu) = pa_kref (pallocs s cpu)"
        "gpu \<noteq> cpu \<Longrightarrow> pa_nents (pallocs s1 gpu) = 0 \<and> pa_kref (pallocs s1 gpu) = pa_kref (pallocs s gpu)"
        using t1 False z by (auto simp: touched_def)
      ultimately show ?thesis using that inv1 False t1 by (cases "cpu = gpu") (auto simp: touched_def)
    next
      case ok1: True
      define s2 where "s2 = upd_alloc cpu (\<lambda>al. al\<lparr> pa_reg := Some reg \<rparr>) s1"
      have n1: "next_alloc s1 = next_alloc s" using t1 by (simp add: touched_def)
      have inv2: "phys_inv r small_of T k0 s2"
        unfolding s2_def by (rule phys_plain [OF inv1]) (use a(1) n1 in simp_all)
      have cpu2: "pa_nents (pallocs s2 cpu) = unat commit" "pa_kref (pallocs s2 cpu) = pa_kref (pallocs s cpu)" "next_alloc s2 = next_alloc s"
        and oth2: "\<forall>b. b \<noteq> cpu \<longrightarrow> pallocs s2 b = pallocs s b"
        using t1 ok1 z by (auto simp: touched_def s2_def)
      have e: "kbase_alloc_phy_pages small_of reg_pages reg cpu gpu vsize commit s =
          (if cpu = gpu then Some (0, s2)
           else Option.bind (kbase_alloc_phy_pages_helper small_of reg_pages gpu (unat commit) s2) (\<lambda>(err, s3).
             if err \<noteq> 0 then map_option (\<lambda>(e, s4). (-1, s4)) (kbase_free_phy_pages_helper small_of cpu (unat commit) s3)
             else Some (0, upd_alloc gpu (\<lambda>al. al\<lparr> pa_reg := Some reg \<rparr>) s3)))"
        unfolding d using \<open>\<not> (commit > vsize \<or> _)\<close> f1 ok1 by (simp add: s2_def Let_def)
      show ?thesis
      proof (cases "cpu = gpu")
        case True
        then show ?thesis using that [of 0 s2] e inv2 cpu2 oth2 by simp
      next
        case ne: False
        have g2: "pallocs s2 gpu = pallocs s gpu" using oth2 ne by simp
        obtain e2 s3 where f2: "kbase_alloc_phy_pages_helper small_of reg_pages gpu (unat commit) s2 = Some (e2, s3)"
          and inv3: "phys_inv r small_of T k0 s3"
          and t2: "touched gpu (pa_nents (pallocs s2 gpu) + (if e2 = 0 then unat commit else 0)) s2 s3"
          by (rule alloc_helper_ok [OF inv2, of gpu "unat commit" reg_pages]) (use c z len a cpu2 g2 in simp_all)
        have n3: "next_alloc s3 = next_alloc s" and c3: "pa_nents (pallocs s3 cpu) = unat commit" "pa_kref (pallocs s3 cpu) = pa_kref (pallocs s cpu)"
          and o3: "\<forall>b. b \<noteq> gpu \<longrightarrow> pallocs s3 b = pallocs s2 b"
          using t2 cpu2 ne by (simp_all add: touched_def)
        show ?thesis
        proof (cases "e2 = 0")
          case True
          define s5 where "s5 = upd_alloc gpu (\<lambda>al. al\<lparr> pa_reg := Some reg \<rparr>) s3"
          have "phys_inv r small_of T k0 s5" unfolding s5_def by (rule phys_plain [OF inv3]) (use a(2) n3 in simp_all)
          then show ?thesis
            by (intro that [of 0 s5]) (use e ne f2 True n3 c3 o3 oth2 t2 z g2 in \<open>auto simp: s5_def touched_def\<close>)
        next
          case False
          obtain e3 s4 where f3: "kbase_free_phy_pages_helper small_of cpu (unat commit) s3 = Some (e3, s4)"
            and inv4: "phys_inv r small_of T k0 s4"
            and t3: "touched cpu (if unat commit \<le> pa_nents (pallocs s3 cpu) then pa_nents (pallocs s3 cpu) - unat commit else pa_nents (pallocs s3 cpu)) s3 s4"
            by (rule free_helper_ok [OF inv3, of cpu "unat commit"]) (use a(1) n3 in simp)
          show ?thesis
            by (rule that [of "-1" s4])
              (use e ne f2 False f3 inv4 n3 c3 o3 oth2 t2 t3 z g2 in \<open>auto simp: touched_def\<close>)
        qed
      qed
    qed
  qed
qed

section \<open>Runs\<close>

text \<open>
  Regions get their objects and pages, grow, shrink and share them, and drop references to objects
  that have not been freed. The array of an object is large enough for its region, and no request
  goes behind its end.
\<close>

inductive phys_step :: "(nat \<Rightarrow> 'i::finite) \<Rightarrow> u64 \<Rightarrow> (nat \<Rightarrow> u64) \<Rightarrow> 'i phys \<Rightarrow> 'i phys \<Rightarrow> bool"
  for small_of sz reg_pages where
  ps_prepare: "kbase_reg_prepare_native small_of sz n split_alloc g s = Some (err, cpu, gpu, s') \<Longrightarrow>
    phys_step small_of sz reg_pages s s'"
| ps_region: "cpu < next_alloc s \<Longrightarrow> gpu < next_alloc s \<Longrightarrow> pa_nents (pallocs s cpu) = 0 \<Longrightarrow> pa_nents (pallocs s gpu) = 0 \<Longrightarrow>
    unat (reg_pages reg) \<le> length (pa_pages (pallocs s cpu)) \<Longrightarrow> unat (reg_pages reg) \<le> length (pa_pages (pallocs s gpu)) \<Longrightarrow>
    kbase_alloc_phy_pages small_of reg_pages reg cpu gpu vsize commit s = Some (err, s') \<Longrightarrow> phys_step small_of sz reg_pages s s'"
| ps_grow: "a < next_alloc s \<Longrightarrow> pa_nents (pallocs s a) + nr \<le> length (pa_pages (pallocs s a)) \<Longrightarrow>
    kbase_alloc_phy_pages_helper small_of reg_pages a nr s = Some (err, s') \<Longrightarrow> phys_step small_of sz reg_pages s s'"
| ps_shrink: "a < next_alloc s \<Longrightarrow> kbase_free_phy_pages_helper small_of a nr s = Some (err, s') \<Longrightarrow>
    phys_step small_of sz reg_pages s s'"
| ps_get: "a < next_alloc s \<Longrightarrow> phys_step small_of sz reg_pages s (kbase_mem_phy_alloc_get a s)"
| ps_put: "a < next_alloc s \<Longrightarrow> kbase_mem_phy_alloc_put small_of a s = Some s' \<Longrightarrow> phys_step small_of sz reg_pages s s'"

lemma phys_step_inv:
  assumes "phys_step small_of sz reg_pages s s'" and inv: "phys_inv r small_of T k0 s"
  shows "phys_inv r small_of T k0 s'"
  using assms(1)
proof cases
  case (ps_prepare n split_alloc g err cpu gpu)
  then show ?thesis using prepare_ok [OF inv, of sz n split_alloc g] by auto
next
  case (ps_region cpu gpu reg vsize commit err)
  then show ?thesis using alloc_region_ok [where reg_pages = reg_pages and reg = reg, OF inv ps_region(1-6), of vsize commit] by auto
next
  case (ps_grow a nr err)
  then show ?thesis using alloc_helper_ok [OF inv ps_grow(1,2), of reg_pages] by auto
next
  case (ps_shrink a nr err)
  then show ?thesis using free_helper_ok [OF inv ps_shrink(1), of nr] by auto
next
  case (ps_get a)
  then show ?thesis unfolding kbase_mem_phy_alloc_get_def ps_get(1) by (intro phys_plain [OF inv ps_get(2)]) simp_all
next
  case (ps_put a)
  then show ?thesis using put_inv [OF inv ps_put(1)] by auto
qed

lemma phys_run_inv:
  "(phys_step small_of sz reg_pages)\<^sup>*\<^sup>* s s' \<Longrightarrow> phys_inv r small_of T k0 s \<Longrightarrow> phys_inv r small_of T k0 s'"
  by (induction rule: rtranclp_induct) (auto intro: phys_step_inv)

lemma count_entries: "count (image_mset (\<lambda>p. (p, 0 :: nat)) (mset xs)) (p, 0) = count (mset xs) p"
  by (induction xs) simp_all

text \<open>The start: no objects, and pages only in the pools, with other users, or given back.\<close>

definition phys_start :: "('i \<Rightarrow> nat) \<Rightarrow> (nat \<Rightarrow> 'i) \<Rightarrow> (u64 \<times> nat) multiset \<Rightarrow> 'i::finite phys \<Rightarrow> bool" where
  "phys_start r small_of T s \<longleftrightarrow> next_alloc s = 0 \<and> ranked r (mm (pmem s)) \<and> pools_ok (mm (pmem s)) \<and>
     (\<forall>g. pool_order (pools (mm (pmem s)) (small_of g)) = 0) \<and>
     mset (taken (mm (pmem s))) = pool_pages (mm (pmem s)) + mset (released (mm (pmem s))) + T"

lemma phys_start_inv: "phys_start r small_of T s \<Longrightarrow> phys_inv r small_of T (kctx_used_pages (pmem s), kbdev_used_pages (pmem s)) s"
  by (simp add: phys_start_def phys_inv_def)

section \<open>Properties\<close>

text \<open>
  C15. Invariant over all runs of the functions on physical memory: every page the kernel has given is
  in a pool, backs exactly one entry of one object, is with another user of the pools, or has been
  given back; and the counters of used pages of the context and of the device have grown by exactly
  the number of pages that back objects, whatever failed on the way.
\<close>

theorem phys_run_accounts:
  assumes "(phys_step small_of sz reg_pages)\<^sup>*\<^sup>* s0 s" and "phys_start r small_of T s0"
  shows "mset (taken (mm (pmem s))) = pool_pages (mm (pmem s)) + mset (released (mm (pmem s))) +
      (\<Sum>a<next_alloc s. backing (pallocs s a)) + T \<and>
    kctx_used_pages (pmem s) = kctx_used_pages (pmem s0) + (\<Sum>a<next_alloc s. int (pa_nents (pallocs s a))) \<and>
    kbdev_used_pages (pmem s) = kbdev_used_pages (pmem s0) + (\<Sum>a<next_alloc s. int (pa_nents (pallocs s a)))"
  using phys_run_inv [OF assms(1) phys_start_inv [OF assms(2)]] by (simp add: phys_inv_def)

text \<open>
  C16. No page backs two objects: when the kernel never gives a page that is still out, then in every
  run the valid entries of two objects are disjoint and those of one object are distinct, and none is
  in a pool.
\<close>

theorem phys_run_disjoint:
  assumes "(phys_step small_of sz reg_pages)\<^sup>*\<^sup>* s0 s" and "phys_start r small_of T s0"
    and k: "\<And>p. count (mset (taken (mm (pmem s)))) (p, 0) \<le> count (mset (released (mm (pmem s)))) (p, 0) + 1"
    and a: "a < next_alloc s"
  shows "distinct (take (pa_nents (pallocs s a)) (pa_pages (pallocs s a))) \<and>
    (\<forall>p \<in> set (take (pa_nents (pallocs s a)) (pa_pages (pallocs s a))).
       (p, 0) \<notin># pool_pages (mm (pmem s)) \<and>
       (\<forall>b < next_alloc s. b \<noteq> a \<longrightarrow> p \<notin> set (take (pa_nents (pallocs s b)) (pa_pages (pallocs s b)))))"
proof -
  let ?B = "\<lambda>a. backing (pallocs s a)" and ?V = "\<lambda>a. take (pa_nents (pallocs s a)) (pa_pages (pallocs s a))"
  have cnt: "count (?B b) (p, 0) = count (mset (?V b)) p" for b p
    unfolding backing_def by (rule count_entries)
  have i: "mset (taken (mm (pmem s))) = pool_pages (mm (pmem s)) + mset (released (mm (pmem s))) + (\<Sum>a<next_alloc s. ?B a) + T"
    using phys_run_inv [OF assms(1) phys_start_inv [OF assms(2)]] by (simp add: phys_inv_def)
  have tot: "count (pool_pages (mm (pmem s))) (p, 0) + (\<Sum>b<next_alloc s. count (?B b) (p, 0)) \<le> 1" for p
    using k [of p] unfolding i by (simp add: count_sum)
  have one: "count (pool_pages (mm (pmem s))) (p, 0) + count (mset (?V a)) p + (\<Sum>b\<in>{..<next_alloc s} - {a}. count (mset (?V b)) p) \<le> 1" for p
    using tot [of p] a by (simp add: cnt sum.remove [of "{..<next_alloc s}" a])
  have "distinct (?V a)"
  proof -
    have "count (mset (?V a)) p \<le> 1" for p using one [of p] by simp
    then show ?thesis by (simp add: distinct_count_atmost_1 le_Suc_eq)
  qed
  moreover have "(p, 0) \<notin># pool_pages (mm (pmem s)) \<and> (\<forall>b < next_alloc s. b \<noteq> a \<longrightarrow> p \<notin> set (?V b))" if "p \<in> set (?V a)" for p
  proof -
    have "0 < count (mset (?V a)) p" using that by (simp add: count_greater_zero_iff)
    then have z: "count (pool_pages (mm (pmem s))) (p, 0) = 0" "(\<Sum>b\<in>{..<next_alloc s} - {a}. count (mset (?V b)) p) = 0"
      using one [of p] by linarith+
    have "p \<notin> set (?V b)" if "b < next_alloc s" "b \<noteq> a" for b
    proof -
      have "count (mset (?V b)) p = 0" using z(2) that by (simp add: sum_eq_0_iff)
      then show ?thesis by (metis count_eq_zero_iff set_mset_mset)
    qed
    then show ?thesis using z(1) by (simp add: not_in_iff)
  qed
  ultimately show ?thesis by blast
qed

text \<open>
  C17. \<open>kbase_alloc_phy_pages\<close> returns, and both objects of the region get all pages that are committed
  or neither keeps any, also when the second object is the one that fails; a request for more than
  the region has gets none, no other object changes, and the invariant holds afterwards.
\<close>

theorem kbase_alloc_phy_pages_all_or_nothing:
  assumes "phys_inv r small_of T k0 s" and "cpu < next_alloc s" and "gpu < next_alloc s"
    and "pa_nents (pallocs s cpu) = 0" and "pa_nents (pallocs s gpu) = 0"
    and "unat (reg_pages reg) \<le> length (pa_pages (pallocs s cpu))" and "unat (reg_pages reg) \<le> length (pa_pages (pallocs s gpu))"
  shows "\<exists>err s'. kbase_alloc_phy_pages small_of reg_pages reg cpu gpu vsize commit s = Some (err, s') \<and>
    (err = 0 \<or> err = -1) \<and> (reg_pages reg < commit \<longrightarrow> err = -1) \<and>
    (\<forall>b \<in> {cpu, gpu}. pa_nents (pallocs s' b) = (if err = 0 then unat commit else 0)) \<and>
    (\<forall>b. b \<noteq> cpu \<and> b \<noteq> gpu \<longrightarrow> pallocs s' b = pallocs s b) \<and> phys_inv r small_of T k0 s'"
proof -
  obtain err s' where e: "kbase_alloc_phy_pages small_of reg_pages reg cpu gpu vsize commit s = Some (err, s')"
    and p: "phys_inv r small_of T k0 s'" "err = 0 \<or> err = -1" "\<forall>b. b \<noteq> cpu \<longrightarrow> b \<noteq> gpu \<longrightarrow> pallocs s' b = pallocs s b"
      "\<forall>b \<in> {cpu, gpu}. pa_nents (pallocs s' b) = (if err = 0 then unat commit else 0) \<and>
        pa_kref (pallocs s' b) = pa_kref (pallocs s b)"
    by (rule alloc_region_ok [where reg_pages = reg_pages and reg = reg, OF assms, of vsize commit])
  have "err = -1" if "reg_pages reg < commit"
  proof -
    have c: "commit > vsize \<or> vsize > reg_pages reg" using that by auto
    have "kbase_alloc_phy_pages small_of reg_pages reg cpu gpu vsize commit s = Some (-1, s)"
      unfolding kbase_alloc_phy_pages_def if_P [OF c] by (rule refl)
    then show ?thesis using e by simp
  qed
  then show ?thesis by (intro exI [of _ err] exI [of _ s'] conjI impI) (use e p in auto)
qed

section \<open>A run\<close>

text \<open>The pools of \<open>KB_PoolRuns\<close>, with four pages to give, and a region of three pages that the CPU caches.\<close>

definition demo_phys :: "bool phys" where
  "demo_phys = \<lparr> pallocs = (\<lambda>a. new_alloc 0 KBASE_MEM_TYPE_NATIVE 0), next_alloc = 0, create_ok = [True, True], pfreed = [],
     pmem = \<lparr> mm = demo_pools, kctx_used_pages = 7, kbdev_used_pages = 9, nr_table_pages = 0, recorded_pgd = 0 \<rparr> \<rparr>"

definition demo_phys1 :: "bool phys" where
  "demo_phys1 = (case kbase_reg_prepare_native (\<lambda>g. False) 64 3 True 0 demo_phys of Some (err, cpu, gpu, s) \<Rightarrow> s)"

definition demo_phys2 :: "bool phys" where
  "demo_phys2 = (case kbase_alloc_phy_pages (\<lambda>g. False) (\<lambda>i. 3) 0 0 1 3 2 demo_phys1 of Some (err, s) \<Rightarrow> s)"

lemma demo_phys_simps:
  "phys_start (\<lambda>i. if i then 0 else 1) (\<lambda>g. False) {#} demo_phys"
  "map_option (\<lambda>(err, cpu, gpu, s). (err, cpu, gpu)) (kbase_reg_prepare_native (\<lambda>g. False) 64 3 True 0 demo_phys) = Some (0, 0, 1)"
  "next_alloc demo_phys1 = 2 \<and> map (\<lambda>a. pa_nents (pallocs demo_phys1 a)) [0, 1] = [0, 0] \<and>
   map (\<lambda>a. length (pa_pages (pallocs demo_phys1 a))) [0, 1] = [3, 3]"
proof -
  show "phys_start (\<lambda>i. if i then 0 else 1) (\<lambda>g. False) {#} demo_phys"
    using demo_pools_fresh by (simp add: phys_start_def demo_phys_def fresh_pools_def demo_pools_simps pool_pages_def pool_mset_def)
qed code_simp+

lemma demo_phys1_vals:
  "next_alloc demo_phys1 = 2" "pa_nents (pallocs demo_phys1 0) = 0" "pa_nents (pallocs demo_phys1 1) = 0"
  "length (pa_pages (pallocs demo_phys1 0)) = 3" "length (pa_pages (pallocs demo_phys1 1)) = 3"
  using demo_phys_simps(3) by simp_all

lemma demo_phys1_prepared: "kbase_reg_prepare_native (\<lambda>g. False) 64 3 True 0 demo_phys = Some (0, 0, 1, demo_phys1)"
  using demo_phys_simps(2) by (auto simp: demo_phys1_def)

declare kbase_mem_pool_alloc_pages.simps [code]

lemma demo_phys2_filled:
  "map_option (\<lambda>(err, s). (err, map (\<lambda>a. take (pa_nents (pallocs s a)) (pa_pages (pallocs s a))) [0, 1], kctx_used_pages (pmem s),
       next_alloc s, taken (mm (pmem s))))
     (kbase_alloc_phy_pages (\<lambda>g. False) (\<lambda>i. 3) 0 0 1 3 2 demo_phys1) = Some (0, [[0x1000, 0x2000], [0x3000, 0x4000]], 11,
       2, [(0x4000, 0), (0x3000, 0), (0x2000, 0), (0x1000, 0)])"
  by code_simp

lemma demo_phys2_eq: "kbase_alloc_phy_pages (\<lambda>g. False) (\<lambda>i. 3) 0 0 1 3 2 demo_phys1 = Some (0, demo_phys2)"
  and demo_phys2_taken: "taken (mm (pmem demo_phys2)) = [(0x4000, 0), (0x3000, 0), (0x2000, 0), (0x1000, 0)]"
    "next_alloc demo_phys2 = 2" "kctx_used_pages (pmem demo_phys2) = 11"
    "take (pa_nents (pallocs demo_phys2 0)) (pa_pages (pallocs demo_phys2 0)) = [0x1000, 0x2000]"
  using demo_phys2_filled by (auto simp: demo_phys2_def)

lemma demo_phys1_run: "(phys_step (\<lambda>g. False) 64 (\<lambda>i. 3))\<^sup>*\<^sup>* demo_phys demo_phys1"
  using ps_prepare [OF demo_phys1_prepared] by blast

lemma demo_phys2_run: "(phys_step (\<lambda>g. False) 64 (\<lambda>i. 3))\<^sup>*\<^sup>* demo_phys demo_phys2"
proof -
  have "phys_step (\<lambda>g. False) 64 (\<lambda>i. 3) demo_phys1 demo_phys2"
    by (rule ps_region [OF _ _ _ _ _ _ demo_phys2_eq]) (simp_all add: demo_phys1_vals del: One_nat_def)
  then show ?thesis using demo_phys1_run by (rule rtranclp.rtrancl_into_rtrancl [rotated])
qed

lemma phys_run_accounts_witness:
  "kctx_used_pages (pmem demo_phys2) = 7 + (\<Sum>a<2. int (pa_nents (pallocs demo_phys2 a))) \<and>
   (\<Sum>a<2. int (pa_nents (pallocs demo_phys2 a))) = 4"
  using phys_run_accounts [OF demo_phys2_run demo_phys_simps(1)] demo_phys2_taken
  by (simp add: demo_phys_def)

lemma phys_run_disjoint_witness:
  "0x1000 \<notin> set (take (pa_nents (pallocs demo_phys2 1)) (pa_pages (pallocs demo_phys2 1)))"
proof -
  have "count (mset (taken (mm (pmem demo_phys2)))) (p, 0) \<le> count (mset (released (mm (pmem demo_phys2)))) (p, 0) + 1" for p
    by (simp add: demo_phys2_taken)
  then show ?thesis
    using phys_run_disjoint [OF demo_phys2_run demo_phys_simps(1), of 0] demo_phys2_taken by simp
qed

lemma kbase_alloc_phy_pages_all_or_nothing_witness:
  "pa_nents (pallocs demo_phys2 0) = 2 \<and> pa_nents (pallocs demo_phys2 1) = 2 \<and>
   (\<exists>s. kbase_alloc_phy_pages (\<lambda>g. False) (\<lambda>i. 3) 0 0 1 3 4 demo_phys1 = Some (-1, s))"
proof -
  have i: "phys_inv (\<lambda>i. if i then 0 else 1) (\<lambda>g. False) {#} (kctx_used_pages (pmem demo_phys), kbdev_used_pages (pmem demo_phys)) demo_phys1"
    by (rule phys_run_inv [OF demo_phys1_run phys_start_inv [OF demo_phys_simps(1)]])
  note t = kbase_alloc_phy_pages_all_or_nothing [where reg_pages = "\<lambda>i. 3" and reg = 0 and cpu = 0 and gpu = 1, OF i]
  show ?thesis using t [of 3 2] t [of 3 4] demo_phys2_eq by (auto simp add: demo_phys1_vals simp del: One_nat_def)
qed

end
