(* ===== verification/KB_RegionProps.thy ===== *)
theory KB_RegionProps
  imports KB_RegionRuns
begin

text \<open>
  What the regions of a context promise: insertion and release against lists of segments, the
  partition of the address space over every run, the place that is chosen for a region, the end of
  the context, and two ways in which the code breaks its own invariant.
\<close>

section \<open>A search tree to run the model on\<close>

text \<open>Trees without balance, as an instance of the kernel's operations.\<close>

fun line :: "nat list \<Rightarrow> rb_tree" where
  "line [] = Leaf"
| "line (i # is) = Node Leaf (i, False) (line is)"

definition rb_line :: rb_ops where
  "rb_line = \<lparr> rb_insert_color = (\<lambda>t x. t), rb_erase = (\<lambda>t x. line (filter (\<lambda>i. i \<noteq> x) (rb_list t))),
     rb_replace_node = (\<lambda>t x y. line (map (\<lambda>i. if i = x then y else i) (rb_list t))) \<rparr>"

lemma line_list [simp]: "rb_list (line is) = is"
  by (induction "is") simp_all

lemma rb_line_ok: "rb_ok rb_line"
  by (simp add: rb_ok_def rb_line_def)

definition ctx_new :: "bool list \<Rightarrow> va_ctx" where
  "ctx_new as = \<lparr> regions = (\<lambda>i. new_region Tree_Same 0 0 0), trees = (\<lambda>z. Leaf), next_reg = 0, kzallocs = as,
     kfreed = [], same_va_end = 0, gpu_va_end = 0, exec_va_start = 0, jit_va = False,
     jit_max_allocations = 0, trim_level = 0, jit_group_id = 0 \<rparr>"

definition conf17 :: va_conf where
  "conf17 = \<lparr> compat = False, va_bits_cpu = 17, va_bits_gpu = 17 \<rparr>"

definition ctx0 :: va_ctx where
  "ctx0 = snd (kbase_region_tracker_init rb_line conf17 (ctx_new (replicate 9 True)))"

definition in_use :: "u64 \<Rightarrow> va_ctx \<Rightarrow> va_ctx" where
  "in_use n k = upd_region (next_reg k) (\<lambda>r. r\<lparr> reg_flags := KBASE_REG_GPU_NX, initial_commit := 0, extent := 0 \<rparr>)
     (snd (kbase_alloc_free_region Tree_Same 0 n KBASE_REG_ZONE_SAME_VA k))"

definition ctx1 :: va_ctx where
  "ctx1 = snd (kbase_add_va_region_rbtree rb_line 1 0x5000 2 0 (in_use 2 ctx0))"

lemma ctx0_simps:
  "kbase_region_tracker_init rb_line conf17 (ctx_new (replicate 9 True)) = (0, ctx0)"
  "zones_wf conf17 ctx0 (lo_init conf17) (hi_init conf17 ctx0)"
proof -
  show i: "kbase_region_tracker_init rb_line conf17 (ctx_new (replicate 9 True)) = (0, ctx0)"
    by (simp add: ctx0_def kbase_region_tracker_init_def conf17_def ctx_new_def kbase_alloc_free_region_def
        numeral_eq_Suc Let_def)
  show "zones_wf conf17 ctx0 (lo_init conf17) (hi_init conf17 ctx0)"
    by (rule kbase_region_tracker_init_zones [OF rb_line_ok _ _ _ i])
      (simp_all add: ctx_new_def conf17_def kbase_get_same_va_bits_def kbase_get_num_cpu_va_bits_def)
qed

lemma ctx1_simps:
  "fst (kbase_add_va_region_rbtree rb_line 1 0x5000 2 0 (in_use 2 ctx0)) = 0"
  "addable (in_use 2 ctx0) Tree_Same 1" "segs (in_use 2 ctx0) Tree_Same = [(1, 31, True)]"
  "segs ctx1 Tree_Same = [(1, 4, True), (5, 2, False), (7, 25, True)]"
  "va_refcnt (regions ctx1 1) = 1" "rb_list (trees ctx1 Tree_Same) = [2, 1, 0]" 
  by code_simp+

lemma alloc_hd:
  assumes "hd (kzallocs k @ [False])"
  shows "kbase_alloc_free_region z s n zone k =
     (Some (next_reg k), snd (kbase_alloc_free_region z s n zone k))"
  using assms by (auto simp: kbase_alloc_free_region_def split: list.split bool.split)

lemma in_use_keeps: "zones_wf c k lo hi \<Longrightarrow> hd (kzallocs k @ [False]) \<Longrightarrow> zones_wf c (in_use n k) lo hi"
  unfolding in_use_def by (rule alloc_keeps [OF _ alloc_hd])

lemma ctx0_hd: "hd (kzallocs ctx0 @ [False])"
  by code_simp

lemma in_use_wf: "zones_wf conf17 (in_use 2 ctx0) (lo_init conf17) (hi_init conf17 ctx0)"
proof -
  show ?thesis by (rule in_use_keeps [OF ctx0_simps(2) ctx0_hd])
qed

lemma zones_zone: "zones_wf c k lo hi \<Longrightarrow> zone_wf k z (lo z) (hi z)"
  by (simp add: zones_wf_def)

lemma ctx1_add: "kbase_add_va_region_rbtree rb_line 1 0x5000 2 0 (in_use 2 ctx0) = (0, ctx1)"
  using ctx1_simps(1) by (simp add: ctx1_def prod_eq_iff)

lemma ctx1_wf: "zones_wf conf17 ctx1 (lo_init conf17) (hi_init conf17 ctx0)"
proof -
  have "addable (in_use 2 ctx0) (reg_tree (regions (in_use 2 ctx0) 1)) 1" by code_simp
  then show ?thesis using add_keeps [OF rb_line_ok in_use_wf _ _ _ ctx1_add] by simp
qed

section \<open>Insertion and release\<close>

text \<open>
  C9. Refinement: for every context whose zone is divided into segments, and every region of that
  zone that is allocated and not yet in use in a tree, a successful \<open>kbase_add_va_region_rbtree\<close> cuts
  exactly the pages of the region out of one free segment of the abstract division, at the page asked
  for if there is one; the zone stays divided without gaps, overlaps or adjacent free segments, and
  the other zones do not change. This holds for every balancing of the trees that keeps their order.
\<close>

theorem kbase_add_va_region_carves:
  assumes "rb_ok rb" and "zone_wf k z lo hi" and "addable k z new" and "0 < unat n" and "unat n \<le> 2 ^ 52"
    and "kbase_add_va_region_rbtree rb new addr n align k = (0, k')"
  shows "(drop_bit 12 addr \<noteq> 0 \<longrightarrow> start_pfn (regions k' new) = drop_bit 12 addr) \<and>
    (\<exists>(a, m, f) \<in> set (segs k z). f \<and> a \<le> unat (start_pfn (regions k' new)) \<and>
        unat (start_pfn (regions k' new)) + unat n \<le> a + m) \<and>
    segs k' z = carve (unat (start_pfn (regions k' new))) (unat n) (segs k z) \<and>
    new \<in> set (rb_list (trees k' z)) \<and> zone_wf k' z lo hi \<and>
    (\<forall>y lo' hi'. y \<noteq> z \<and> zone_wf k y lo' hi' \<longrightarrow> segs k' y = segs k y \<and> zone_wf k' y lo' hi')"
  by (rule add_carves [OF assms])

theorem kbase_add_va_region_carves_witness:
  "segs ctx1 Tree_Same = carve (unat (start_pfn (regions ctx1 1))) 2 [(1, 31, True)] \<and>
   start_pfn (regions ctx1 1) = 5"
  using kbase_add_va_region_carves [OF rb_line_ok zones_zone [OF in_use_wf] ctx1_simps(2) _ _ ctx1_add] ctx1_simps(3)
  by simp

text \<open>
  C28. Round trip: a region that is added to its zone and then loses its only reference leaves no
  trace. The zones are divided into the same segments as before, the region is in no tree, and its
  structure has been freed; the only case left out is that the removal itself runs out of memory.
\<close>

theorem add_put_roundtrip:
  assumes ok: "rb_ok rb" and w: "zones_wf c k lo hi" and a: "addable k z new" and n: "0 < unat n" "unat n \<le> 2 ^ 52"
    and r: "kbase_add_va_region_rbtree rb new addr n align k = (0, k1)" and f: "va_refcnt (regions k1 new) = 1"
    and rm: "fst (kbase_remove_va_region rb new (count_down new k1)) = 0"
  shows "segs (kbase_va_region_alloc_put rb new k1) y = segs k y \<and>
    zones_wf c (kbase_va_region_alloc_put rb new k1) lo hi \<and>
    new \<notin> set (rb_list (trees (kbase_va_region_alloc_put rb new k1) y)) \<and>
    new \<in> set (kfreed (kbase_va_region_alloc_put rb new k1))"
proof -
  have zz: "reg_tree (regions k new) = z" using a by (simp add: addable_def)
  note A = add_carves [OF ok zones_zone [OF w] a n r]
  have w1: "zones_wf c k1 lo hi" using add_keeps [OF ok w _ n r] a zz by simp
  have i: "new \<in> set (rb_list (trees k1 z))" using A by blast
  note P = put_last [OF ok w1 i f rm]
  have "release (unat (start_pfn (regions k1 new))) (segs k1 z) = segs k z"
    by (rule release_added [OF ok zones_zone [OF w] a n r])
  then have "segs (kbase_va_region_alloc_put rb new k1) y = segs k y"
    using P(2) P(3) [of y] A zones_zone [OF w, of y] by (cases "y = z") auto
  then show ?thesis using P(1,4,5) by blast
qed

theorem add_put_roundtrip_witness:
  "segs (kbase_va_region_alloc_put rb_line 1 ctx1) Tree_Same = [(1, 31, True)]"
proof -
  have "fst (kbase_remove_va_region rb_line 1 (count_down 1 ctx1)) = 0" by code_simp
  then show ?thesis
    using add_put_roundtrip [OF rb_line_ok in_use_wf ctx1_simps(2) _ _ ctx1_add ctx1_simps(5), of Tree_Same] ctx1_simps(3)
    by simp
qed

section \<open>The partition of the address space\<close>




section \<open>The place of a region\<close>

lemma minus_and: "(x :: u64) - (x AND m) = x AND NOT m"
proof -
  have "(x AND NOT m) + (x AND m) = (x AND NOT m) OR (x AND m)"
    by (rule disjunctive_add_eq_or) (simp add: bit_eq_iff bit_simps)
  also have "\<dots> = x" by (auto simp: bit_eq_iff bit_simps)
  finally show ?thesis by (simp add: eq_diff_eq diff_eq_eq)
qed

lemma aligned_nx:
  "flags AND KBASE_REG_GPU_NX \<noteq> 0 \<Longrightarrow> flags AND KBASE_REG_GPU_VA_SAME_4GB_PAGE = 0 \<Longrightarrow>
   aligned_start flags nr ao am start = Some s \<Longrightarrow> (s - ao) AND am = 0"
proof -
  assume a: "flags AND KBASE_REG_GPU_NX \<noteq> 0" "flags AND KBASE_REG_GPU_VA_SAME_4GB_PAGE = 0"
    "aligned_start flags nr ao am start = Some s"
  let ?x = "start + am - ao"
  have "s - ao = ?x - (?x AND am)" using a by (auto simp: aligned_start_def Let_def algebra_simps)
  then have "s - ao = ?x AND NOT am" by (simp add: minus_and)
  then show ?thesis by (simp add: bit_eq_iff bit_simps)
qed

lemma aligned_exec:
  "flags AND KBASE_REG_GPU_NX = 0 \<Longrightarrow> aligned_start flags nr ao am start = Some s \<Longrightarrow>
   s AND BASE_MEM_PFN_MASK_4GB \<noteq> 0 \<and> (s + nr) AND BASE_MEM_PFN_MASK_4GB \<noteq> 0"
  by (auto simp: aligned_start_def Let_def split: if_splits)

text \<open>
  The place of a region that is added at any address: it lies in a free segment and, where the
  region is not executable and need not stay in one 4 GB page, its distance from the alignment offset
  has no bit of the alignment mask set; where the region is executable, neither its first page nor
  the page after its last is at a multiple of 4 GB.
\<close>

theorem find_region_meeting_reqs_place:
  assumes "zone_wf k z lo hi" and "addable k z new" and "0 < unat n"
    and "kbase_region_tracker_find_region_meeting_reqs k new n align_offset align_mask = Some (i, s)"
  shows "i \<in> set (rb_list (trees k z)) \<and> has_flag k i KBASE_REG_FREE \<and>
    unat (start_pfn (regions k i)) \<le> unat s \<and>
    unat s + unat n \<le> unat (start_pfn (regions k i)) + unat (nr_pages (regions k i)) \<and>
    (if has_flag k new KBASE_REG_GPU_NX
     then \<not> has_flag k new KBASE_REG_GPU_VA_SAME_4GB_PAGE \<longrightarrow> (s - align_offset) AND align_mask = 0
     else s AND BASE_MEM_PFN_MASK_4GB \<noteq> 0 \<and> (s + n) AND BASE_MEM_PFN_MASK_4GB \<noteq> 0)"
proof -
  obtain xs ys where x: "insertable k z lo hi xs i ys new s n" using place_found [OF assms] by blast
  have "aligned_start (reg_flags (regions k new)) n align_offset align_mask (start_pfn (regions k i)) = Some s"
    using first_meeting_sound assms(4) by (auto simp: kbase_region_tracker_find_region_meeting_reqs_def)
  then show ?thesis using x aligned_nx aligned_exec by (auto simp: insertable_def has_flag_def)
qed

theorem find_region_meeting_reqs_place_witness:
  "kbase_region_tracker_find_region_meeting_reqs (in_use 4 ctx1) 3 4 4 3 = Some (0, 8) \<and>
   (8 - 4) AND 3 = (0 :: u64) \<and> has_flag (in_use 4 ctx1) 0 KBASE_REG_FREE"
proof -
  let ?k = "in_use 4 ctx1"
  have w: "zone_wf ?k Tree_Same (lo_init conf17 Tree_Same) (hi_init conf17 ctx0 Tree_Same)"
    by (rule zones_zone [OF in_use_keeps [OF ctx1_wf]]) code_simp
  have a: "addable ?k Tree_Same 3" "kbase_region_tracker_find_region_meeting_reqs ?k 3 4 4 3 = Some (0, 8)"
    "has_flag ?k 3 KBASE_REG_GPU_NX" "\<not> has_flag ?k 3 KBASE_REG_GPU_VA_SAME_4GB_PAGE"
    by code_simp+
  show ?thesis using find_region_meeting_reqs_place [OF w a(1) _ a(2)] a by simp
qed

section \<open>The end of a context\<close>

text \<open>
  C35. Termination: \<open>kbase_region_tracker_term\<close> returns, whatever the shape of the trees; afterwards all
  three trees are empty, and every region that was in one of them has been freed exactly once, when
  nothing but the tree refers to the regions in use.
\<close>

theorem kbase_region_tracker_term_frees:
  assumes ok: "rb_ok rb" and w: "zones_wf c k lo hi"
    and d: "\<And>z i. i \<in> set (rb_list (trees k z)) \<Longrightarrow> disposable k i"
  shows "\<exists>k'. kbase_region_tracker_term rb k = Some k' \<and> (\<forall>z. rb_list (trees k' z) = []) \<and>
    kfreed k' = rev (rb_list (trees k Tree_Same) @ rb_list (trees k Tree_Custom) @ rb_list (trees k Tree_Exec)) @ kfreed k"
proof -
  have dl: "distinct (rb_list (trees k z))" for z using zones_zone [OF w, of z] by (simp add: zone_wf_def)
  have dj: "i \<notin> set (rb_list (trees k y))" if "i \<in> set (rb_list (trees k z))" "y \<noteq> z" for i y z
    using tree_start(3) [OF w that(1)] tree_start(3) [OF w, of i y] that(2) by auto
  obtain k1 where k1: "kbase_region_tracker_erase_rbtree rb Tree_Same k = Some k1" "rb_list (trees k1 Tree_Same) = []"
    "\<And>y. y \<noteq> Tree_Same \<Longrightarrow> trees k1 y = trees k y" "kfreed k1 = rev (rb_list (trees k Tree_Same)) @ kfreed k"
    "\<And>j. j \<notin> set (rb_list (trees k Tree_Same)) \<Longrightarrow> regions k1 j = regions k j"
    using erase_rbtree_frees [OF ok refl dl d [where z = Tree_Same], of Tree_Same] by blast
  have d1: "disposable k1 i" if "i \<in> set (rb_list (trees k z))" "z \<noteq> Tree_Same" for i z
    using d [OF that(1)] k1(5) [OF dj [OF that(1)]] that(2) by (simp add: disposable_def has_flag_def)
  then have d1c: "disposable k1 i" if "i \<in> set (rb_list (trees k Tree_Custom))" for i using that by blast
  have L1: "rb_list (trees k1 Tree_Custom) = rb_list (trees k Tree_Custom)" using k1(3) by simp
  obtain k2 where k2: "kbase_region_tracker_erase_rbtree rb Tree_Custom k1 = Some k2" "rb_list (trees k2 Tree_Custom) = []"
    "\<And>y. y \<noteq> Tree_Custom \<Longrightarrow> trees k2 y = trees k1 y" "kfreed k2 = rev (rb_list (trees k Tree_Custom)) @ kfreed k1"
    "\<And>j. j \<notin> set (rb_list (trees k Tree_Custom)) \<Longrightarrow> regions k2 j = regions k1 j"
    using erase_rbtree_frees [OF ok L1 dl d1c] by blast
  have d2: "disposable k2 i" if "i \<in> set (rb_list (trees k Tree_Exec))" for i
    using d1 [OF that] k2(5) [OF dj [OF that]] by (simp add: disposable_def has_flag_def)
  have L2: "rb_list (trees k2 Tree_Exec) = rb_list (trees k Tree_Exec)" using k2(3) k1(3) by simp
  obtain k3 where k3: "kbase_region_tracker_erase_rbtree rb Tree_Exec k2 = Some k3" "rb_list (trees k3 Tree_Exec) = []"
    "\<And>y. y \<noteq> Tree_Exec \<Longrightarrow> trees k3 y = trees k2 y" "kfreed k3 = rev (rb_list (trees k Tree_Exec)) @ kfreed k2"
    using erase_rbtree_frees [OF ok L2 dl d2] by blast
  have "kbase_region_tracker_term rb k = Some k3" using k1(1) k2(1) k3(1) by (simp add: kbase_region_tracker_term_def)
  moreover have "rb_list (trees k3 z) = []" for z using k1(2,3) k2(2,3) k3(2,3) by (cases z) simp_all
  ultimately show ?thesis using k1(4) k2(4) k3(4) by simp
qed

theorem kbase_region_tracker_term_frees_witness:
  "\<exists>k'. kbase_region_tracker_term rb_line ctx1 = Some k' \<and> kfreed k' = [0, 1, 2]"
proof -
  have t: "rb_list (trees ctx1 Tree_Same) = [2, 1, 0]" "rb_list (trees ctx1 Tree_Custom) = []"
    "rb_list (trees ctx1 Tree_Exec) = []" "kfreed ctx1 = []" by code_simp+
  have "\<forall>i \<in> {0, 1, 2}. disposable ctx1 i" by code_simp
  then have d: "i \<in> set (rb_list (trees ctx1 z)) \<Longrightarrow> disposable ctx1 i" for z i using t by (cases z) auto
  have "\<exists>k'. kbase_region_tracker_term rb_line ctx1 = Some k' \<and> (\<forall>z. rb_list (trees k' z) = []) \<and>
    kfreed k' = rev (rb_list (trees ctx1 Tree_Same) @ rb_list (trees ctx1 Tree_Custom) @ rb_list (trees ctx1 Tree_Exec)) @
      kfreed ctx1"
    by (rule kbase_region_tracker_term_frees [OF rb_line_ok ctx1_wf]) (use d in blast)
  then show ?thesis using t by auto
qed

section \<open>Two ways to break the partition\<close>

text \<open>
  C32. Error behaviour: a region between two regions in use (or the ends of its zone) needs a new free
  region when it is removed. When the kernel has no memory for it, \<open>kbase_region_refcnt_free\<close> ignores
  the \<open>-ENOMEM\<close> of \<open>kbase_remove_va_region\<close>: dropping the last reference frees the structure of the
  region although the region is still in its tree, where every lookup of its pages returns it.
\<close>

theorem alloc_put_enomem:
  assumes w: "zones_wf c k lo hi" and t: "rb_list (trees k z) = xs @ i # ys" and f: "va_refcnt (regions k i) = 1"
    and x: "xs = [] \<or> \<not> has_flag k (last xs) KBASE_REG_FREE" and y: "ys = [] \<or> \<not> has_flag k (hd ys) KBASE_REG_FREE"
    and m: "kzallocs k = False # as" and p: "holds_page (regions k) (drop_bit 12 addr) i"
  shows "i \<in> set (kfreed (kbase_va_region_alloc_put rb i k)) \<and>
    trees (kbase_va_region_alloc_put rb i k) = trees k \<and>
    kbase_region_tracker_find_region_enclosing_address c (kbase_va_region_alloc_put rb i k) addr = Some i"
proof -
  let ?k = "count_down i k"
  have d: "distinct (xs @ i # ys)" using zones_zone [OF w, of z] t by (simp add: zone_wf_def)
  have i: "i \<in> set (rb_list (trees k z))" using t by simp
  note ts = tree_start [OF w i]
  have tr: "reg_tree (regions ?k i) = z" "rb_list (trees ?k z) = xs @ i # ys"
    using ts(3) t by (simp_all add: count_down_def)
  have mp: "merge_prev rb i ?k = (i, False, ?k)"
    using rb_prev_split [OF tr(2) d] x tr by (auto simp: merge_prev_def)
  have mn: "merge_next rb z i False ?k = (False, ?k)"
    using rb_next_split [OF tr(2) d] y tr by (cases ys) (auto simp: merge_next_def)
  have "kzallocs ?k = False # as" using m by (simp add: count_down_def)
  then have r: "kbase_remove_va_region rb i ?k = (-12, ?k\<lparr> kzallocs := as \<rparr>)"
    using mp mn tr by (simp add: kbase_remove_va_region_def kbase_alloc_free_region_def)
  let ?k' = "kfree_region i (?k\<lparr> kzallocs := as \<rparr>)"
  have k': "kbase_va_region_alloc_put rb i k = ?k'"
    using f ts(1) r by (simp add: put_unfold kbase_region_refcnt_free_def)
  have "find_pfn (regions ?k') q t = find_pfn (regions k) q t" for q t
    by (induction t) (auto split: prod.splits)
  then have "kbase_region_tracker_find_region_enclosing_address c ?k' addr =
      kbase_region_tracker_find_region_enclosing_address c k addr"
    by (simp add: kbase_region_tracker_find_region_enclosing_address_def kbase_find_region_enclosing_address_def
        kbase_gpu_va_to_rbtree_def count_down_def)
  then show ?thesis using find_address_iff [OF w] i p by (auto simp: k')
qed

lemma zones_wf_kz:
  assumes w: "zones_wf c k lo hi"
  shows "zones_wf c (k\<lparr> kzallocs := as \<rparr>) lo hi"
proof (rule zones_wf_keep [OF w])
  show "zone_wf (k\<lparr> kzallocs := as \<rparr>) z (lo z) (hi z)" for z
    using zones_zone [OF w, of z] by (rule zone_wf_cong(1)) (use zones_zone [OF w, of z] in \<open>auto simp: zone_wf_def\<close>)
qed simp_all

text \<open>Two regions in use side by side, the first to be released while no memory is left.\<close>

definition ctx2 :: va_ctx where
  "ctx2 = (snd (kbase_add_va_region_rbtree rb_line 2 0x3000 4 0
     (in_use 4 (snd (kbase_add_va_region_rbtree rb_line 1 0x1000 2 0 (in_use 2 ctx0))))))\<lparr> kzallocs := [False] \<rparr>"

theorem alloc_put_enomem_witness:
  "1 \<in> set (kfreed (kbase_va_region_alloc_put rb_line 1 ctx2)) \<and>
   kbase_region_tracker_find_region_enclosing_address conf17 (kbase_va_region_alloc_put rb_line 1 ctx2) 0x2000 = Some 1"
proof -
  let ?k1 = "snd (kbase_add_va_region_rbtree rb_line 1 0x1000 2 0 (in_use 2 ctx0))"
  let ?k2 = "snd (kbase_add_va_region_rbtree rb_line 2 0x3000 4 0 (in_use 4 ?k1))"
  have c: "addable (in_use 2 ctx0) (reg_tree (regions (in_use 2 ctx0) 1)) 1" "hd (kzallocs ?k1 @ [False])"
    "addable (in_use 4 ?k1) (reg_tree (regions (in_use 4 ?k1) 2)) 2" by code_simp+
  have "zones_wf conf17 ?k1 (lo_init conf17) (hi_init conf17 ctx0)"
    using add_keeps [OF rb_line_ok in_use_wf c(1), of 2 "0x1000" 0 "fst (kbase_add_va_region_rbtree rb_line 1 0x1000 2 0 (in_use 2 ctx0))" ?k1]
    by simp
  then have "zones_wf conf17 (in_use 4 ?k1) (lo_init conf17) (hi_init conf17 ctx0)" by (rule in_use_keeps [OF _ c(2)])
  then have "zones_wf conf17 ?k2 (lo_init conf17) (hi_init conf17 ctx0)"
    using add_keeps [OF rb_line_ok _ c(3), of _ _ _ 4 "0x3000" 0 "fst (kbase_add_va_region_rbtree rb_line 2 0x3000 4 0 (in_use 4 ?k1))" ?k2]
    by simp
  then have w: "zones_wf conf17 ctx2 (lo_init conf17) (hi_init conf17 ctx0)"
    unfolding ctx2_def by (rule zones_wf_kz)
  have t: "rb_list (trees ctx2 Tree_Same) = [] @ 1 # [2, 0]" "va_refcnt (regions ctx2 1) = 1"
    "\<not> has_flag ctx2 (hd [2, 0]) KBASE_REG_FREE" "kzallocs ctx2 = False # []"
    "holds_page (regions ctx2) (drop_bit 12 0x2000) 1"
    by code_simp+
  show ?thesis using alloc_put_enomem [OF w t(1,2) _ _ t(4,5)] t(3) by simp
qed

lemma set_rb_link: "set (rb_list (rb_link h t x)) = insert x (set (rb_list t))"
proof (induction t)
  case (Node l ic r)
  then show ?case by (cases ic) auto
qed simp

text \<open>
  Safety (the check that is missing): setting up the zone for JIT memory in a context that already
  has more than one region in its \<open>SAME_VA\<close> zone shrinks the region at the first page, whatever it is
  and wherever it ends, and then puts the new zone at the end of the address space. The call succeeds,
  and the last pages of the space belong to a region of both trees, against the partition above.
\<close>

theorem init_jit_overlaps:
  assumes ok: "rb_ok rb" and w: "zones_wf c k lo hi" and c: "\<not> compat c"
    and h: "lo Tree_Same = 1" "hi Tree_Same = unat (same_va_end k)"
    and l: "rb_list (trees k Tree_Same) = i # j # js" and n: "0 < jit_va_pages"
    and r: "kbase_region_tracker_init_jit rb c jit_va_pages ma trim gid k = (0, k')"
  shows "\<exists>q r. q \<in> set (rb_list (trees k' Tree_Same)) \<and> r \<in> set (rb_list (trees k' Tree_Custom)) \<and>
    holds_page (regions k') (same_va_end k - 1) q \<and> holds_page (regions k') (same_va_end k - 1) r"
proof -
  let ?L = "rb_list (trees k Tree_Same)" and ?p = "same_va_end k - 1"
  have z: "zone_wf k Tree_Same 1 (unat (same_va_end k))" using zones_zone [OF w, of Tree_Same] h by simp
  have iL: "i \<in> set ?L" using l by simp
  note I = zone_region [OF z iL]
  have e0: "0 < unat (same_va_end k)" using I by simp
  have p: "unat ?p = unat (same_va_end k) - 1" using e0 by (subst unat_minus_one) auto
  obtain ys q where q: "?L = ys @ [q]" by (metis l list.distinct(1) rev_exhaust)
  have qL: "q \<in> set ?L" using q by simp
  have "tiles 1 (map (seg k) ys @ [seg k q]) (unat (same_va_end k))" using z q by (simp add: zone_wf_def segs_def)
  then have qe: "unat (start_pfn (regions k q)) + unat (nr_pages (regions k q)) = unat (same_va_end k)"
    by (simp add: tiles_append seg_def)
  then have qp: "holds_page (regions k) ?p q"
    using zone_region(2) [OF z qL] by (simp add: holds_page_nat [OF z qL] p)
  have "q \<in> set (j # js)" using q l by (metis last.simps last_snoc list.distinct(1) last_in_set)
  then have q2: "2 \<le> unat (start_pfn (regions k q))"
    using zone_split(2) [OF z, of "[]" i "j # js" q] l I(1,2) by simp
  have g: "kbase_gpu_va_to_rbtree c k 1 = Tree_Same"
    using w h I zone_region(3) [OF z iL] by (simp add: zones_wf_def)
  obtain k1 where k1: "kbase_region_tracker_init_jit_64 rb c jit_va_pages k = (0, k1)"
    and k': "k' = k1\<lparr> jit_max_allocations := ma, trim_level := trim, jit_va := True, jit_group_id := gid \<rparr>"
    using r c by (auto simp: kbase_region_tracker_init_jit_def Let_def split: if_splits prod.splits)
  obtain a where a: "find_base (regions k) 1 (trees k Tree_Same) = Some a" "jit_va_pages \<le> same_va_end k"
    "\<not> jit_va k" "\<not> nr_pages (regions k a) < jit_va_pages"
    using k1 g by (auto simp: kbase_region_tracker_init_jit_64_def kbase_region_tracker_find_region_base_address_def
        kbase_find_region_base_address_def not_less split: if_splits option.splits)
  have aq: "a \<noteq> q" using find_base_sound [OF a(1)] q2 by auto
  let ?k = "(upd_region a (\<lambda>r. r\<lparr> nr_pages := nr_pages r - jit_va_pages \<rparr>) k)\<lparr> same_va_end := same_va_end k - jit_va_pages \<rparr>"
  obtain k2 where k2: "kbase_alloc_free_region Tree_Custom (same_va_end k - jit_va_pages) jit_va_pages
      KBASE_REG_ZONE_CUSTOM_VA ?k = (Some (next_reg k), k2)" "k1 = kbase_region_tracker_insert rb (next_reg k) k2"
  proof (cases rule: kbase_alloc_free_region_cases [of Tree_Custom "same_va_end k - jit_va_pages" jit_va_pages
        KBASE_REG_ZONE_CUSTOM_VA ?k])
    case (fail as)
    then show ?thesis using k1 a g
      by (simp add: kbase_region_tracker_init_jit_64_def kbase_region_tracker_find_region_base_address_def
          kbase_find_region_base_address_def Let_def not_less [symmetric])
  next
    case (ok as)
    then show ?thesis using k1 a g that
      by (simp add: kbase_region_tracker_init_jit_64_def kbase_region_tracker_find_region_base_address_def
          kbase_find_region_base_address_def Let_def not_less [symmetric])
  qed
  note A = alloc_ok [OF k2(1)]
  have rc: "regions k' (next_reg k) = new_region Tree_Custom (same_va_end k - jit_va_pages) jit_va_pages KBASE_REG_ZONE_CUSTOM_VA"
    using A(2) by (simp add: k' k2(2))
  have "next_reg k \<in> set (rb_list (trees k' Tree_Custom))"
    using rc by (simp add: k' k2(2) kbase_region_tracker_insert_def new_region_def rb_okD(1) [OF ok] set_rb_link)
  moreover have "holds_page (regions k') ?p (next_reg k)"
    using a(2) n e0 p by (simp add: holds_page_def rc new_region_def word_le_nat_alt word_less_nat_alt unat_sub)
  moreover have "q < next_reg k" using tree_start(2) [OF w qL] .
  then have "holds_page (regions k') ?p q" using qp aq A(2) by (simp add: k' k2(2) holds_page_def)
  moreover have "q \<in> set (rb_list (trees k' Tree_Same))" using qL A(2,5) by (simp add: k' k2(2) new_region_def)
  ultimately show ?thesis by blast
qed

theorem init_jit_overlaps_witness:
  "\<exists>k' q r. kbase_region_tracker_init_jit rb_line conf17 2 1 0 0 ctx1 = (0, k') \<and>
    q \<in> set (rb_list (trees k' Tree_Same)) \<and> r \<in> set (rb_list (trees k' Tree_Custom)) \<and>
    holds_page (regions k') 31 q \<and> holds_page (regions k') 31 r"
proof -
  have "fst (kbase_region_tracker_init_jit rb_line conf17 2 1 0 0 ctx1) = 0" by code_simp
  then obtain k' where k': "kbase_region_tracker_init_jit rb_line conf17 2 1 0 0 ctx1 = (0, k')" by (metis prod.collapse)
  have e: "same_va_end ctx1 = 32" "same_va_end ctx0 = 32" by code_simp+
  have l: "lo_init conf17 Tree_Same = 1" "hi_init conf17 ctx0 Tree_Same = unat (same_va_end ctx1)"
    unfolding hi_init_def by (simp_all add: lo_init_def e)
  show ?thesis
    using init_jit_overlaps [OF rb_line_ok ctx1_wf _ l ctx1_simps(6) _ k'] k' by (auto simp: conf17_def e)
qed

end
