(* ===== verification/KB_GpuAlloc.thy ===== *)
theory KB_GpuAlloc
  imports KB_GpuMmap KB_PhyProps KB_RegionProps
begin

text \<open>
  Requests for memory whose address the CPU chooses (\<open>BASE_MEM_SAME_VA\<close>): \<open>kbase_mem_alloc\<close> on every
  branch, and freeing the cookie under which such memory waits for its mapping.
\<close>

unbundle bit_operations_syntax

section \<open>Objects\<close>

text \<open>Both references of a region are dropped, which are the only ones to its objects.\<close>

lemma puts_free:
  assumes inv: "phys_inv r small_of T k0 p" and a: "cpu < next_alloc p" "gpu < next_alloc p"
    and n: "\<forall>a \<in> {cpu, gpu}. pa_kref (pallocs p a) = (if cpu = gpu then 2 else 1)"
  obtains p' where "Option.bind (kbase_mem_phy_alloc_put small_of cpu p) (kbase_mem_phy_alloc_put small_of gpu) = Some p'"
    and "phys_inv r small_of T k0 p'" and "next_alloc p' = next_alloc p"
    and "\<forall>b. b \<noteq> cpu \<longrightarrow> b \<noteq> gpu \<longrightarrow> pallocs p' b = pallocs p b" and "\<forall>b \<in> {cpu, gpu}. pa_nents (pallocs p' b) = 0"
proof -
  obtain q where q: "kbase_mem_phy_alloc_put small_of cpu p = Some q" and iq: "phys_inv r small_of T k0 q"
    and nq: "next_alloc q = next_alloc p" "\<forall>b. b \<noteq> cpu \<longrightarrow> pallocs q b = pallocs p b"
      "if pa_kref (pallocs p cpu) = 1 then pa_nents (pallocs q cpu) = 0 \<and> pfreed q = cpu # pfreed p
       else pallocs q cpu = (pallocs p cpu)\<lparr> pa_kref := pa_kref (pallocs p cpu) - 1 \<rparr> \<and> pfreed q = pfreed p"
    by (rule put_inv [OF inv a(1)])
  have g: "gpu < next_alloc q" using a nq by simp
  have kg: "pa_kref (pallocs q gpu) = 1" using n nq by (cases "cpu = gpu") simp_all
  obtain p' where p': "kbase_mem_phy_alloc_put small_of gpu q = Some p'" "phys_inv r small_of T k0 p'" "next_alloc p' = next_alloc q"
    "\<forall>b. b \<noteq> gpu \<longrightarrow> pallocs p' b = pallocs q b" "pa_nents (pallocs p' gpu) = 0"
    using put_inv [OF iq g] kg by metis
  have "pa_nents (pallocs p' cpu) = 0" using p'(4,5) nq(3) n by (cases "cpu = gpu") simp_all
  then show ?thesis using that [of p'] q p' nq by simp
qed

lemma used_same:
  assumes "phys_inv r small_of T k0 p" and "phys_inv r small_of T k0 p'" and "next_alloc p' = next_alloc p"
    and "\<And>b. b < next_alloc p \<Longrightarrow> pa_nents (pallocs p' b) = pa_nents (pallocs p b)"
  shows "kctx_used_pages (pmem p') = kctx_used_pages (pmem p)" "kbdev_used_pages (pmem p') = kbdev_used_pages (pmem p)"
proof -
  have "(\<Sum>a<next_alloc p. int (pa_nents (pallocs p' a))) = (\<Sum>a<next_alloc p. int (pa_nents (pallocs p a)))"
    using assms(4) by (intro sum.cong) simp_all
  then show "kctx_used_pages (pmem p') = kctx_used_pages (pmem p)" "kbdev_used_pages (pmem p') = kbdev_used_pages (pmem p)"
    using assms(1-3) by (simp_all add: phys_inv_def)
qed

lemma drop_region_puts:
  "drop_region env reg cpu gpu s =
     map_option (\<lambda>p. on_va (kfree_region reg) (s\<lparr> gph := p \<rparr>))
       (Option.bind (kbase_mem_phy_alloc_put (ge_small env) cpu (gph s)) (kbase_mem_phy_alloc_put (ge_small env) gpu))"
  by (cases "kbase_mem_phy_alloc_put (ge_small env) cpu (gph s)") (simp_all add: drop_region_def try_ph_def option.map_comp comp_def)

lemma free_memory_puts:
  assumes "\<not> has_flag (gva s) reg KBASE_REG_FREE" "\<not> has_flag (gva s) reg KBASE_REG_VA_FREED"
    "reg_flags (region_of s reg) AND KBASE_REG_ZONE_MASK \<noteq> KBASE_REG_ZONE_MASK"
    and "cpu_alloc s reg = Some cpu" "gpu_alloc s reg = Some gpu" "gpu \<notin> set (evict_list s)"
  shows "free_region_memory env reg s =
     map_option (\<lambda>p. s\<lparr> gph := p \<rparr>)
       (Option.bind (kbase_mem_phy_alloc_put (ge_small env) cpu (gph s)) (kbase_mem_phy_alloc_put (ge_small env) gpu))"
  using assms
  by (cases "kbase_mem_phy_alloc_put (ge_small env) cpu (gph s)") (simp_all add: free_region_memory_def try_ph_def option.map_comp comp_def)

section \<open>Flags and cookies\<close>

lemma clear_bit: "\<not> bit (ucast f :: u32) n \<Longrightarrow> n < 32 \<Longrightarrow> bit (clear_flags f flags) n = bit (flags :: u64) n"
  by (simp add: clear_flags_def bit_and_iff bit_ucast_iff bit_not_iff)

lemma coherency_same_va:
  assumes "coherency_flags env flags = (ok, flags')"
  shows "flags' AND BASE_MEM_SAME_VA = 0 \<longleftrightarrow> flags AND BASE_MEM_SAME_VA = 0"
proof -
  have e: "BASE_MEM_SAME_VA = 2 ^ 13" by (simp add: BASE_MEM_SAME_VA_def)
  have n: "\<not> bit (ucast (BASE_MEM_COHERENT_SYSTEM_REQUIRED OR BASE_MEM_COHERENT_SYSTEM) :: u32) 13"
    "\<not> bit (ucast BASE_MEM_COHERENT_SYSTEM_REQUIRED :: u32) 13" "\<not> bit (ucast BASE_MEM_COHERENT_SYSTEM :: u32) 13"
    by (simp_all add: bit_ucast_iff bit_or_iff BASE_MEM_COHERENT_SYSTEM_REQUIRED_def BASE_MEM_COHERENT_SYSTEM_def)
  have "bit flags' 13 = bit flags 13"
    using assms by (auto simp: coherency_flags_def Let_def clear_bit n split: if_splits)
  then show ?thesis unfolding e and_flag by simp
qed

lemma first_cookie:
  assumes "(x :: u64) \<noteq> 0"
  shows "hd (filter (bit x) [0..<64]) < 64" "bit x (hd (filter (bit x) [0..<64]))"
proof -
  obtain n where "bit x n" "n < 64" using assms bit_imp_le_length [of x] by (auto simp: bit_eq_iff)
  then have "filter (bit x) [0..<64] \<noteq> []" by (auto simp: filter_empty_conv)
  from hd_in_set [OF this] show "hd (filter (bit x) [0..<64]) < 64" "bit x (hd (filter (bit x) [0..<64]))" by auto
qed

lemma place_same_va:
  assumes "flags AND BASE_MEM_SAME_VA \<noteq> 0" and "\<And>c. c < 64 \<Longrightarrow> bit (cookies s) c \<Longrightarrow> pending_regions s c = None"
  obtains "place_region env flags reg va_pages gpu_va s = Some (None, s)"
  | c where "c < 64" "bit (cookies s) c"
      "place_region env flags reg va_pages gpu_va s =
        Some (Some (push_bit 12 (of_nat c + 64)), s\<lparr> cookies := unset_bit c (cookies s), pending_regions := (pending_regions s)(c := Some reg) \<rparr>)"
proof (cases "has_flag (gva s) reg KBASE_REG_PERMANENT_KERNEL_MAPPING \<and> ge_kernel_map env < 0 \<or> cookies s = 0")
  case True
  then show ?thesis using that(1) assms(1) by (auto simp: place_region_def)
next
  case False
  let ?c = "hd (filter (bit (cookies s)) [0..<64])"
  have c: "?c < 64" "bit (cookies s) ?c" using first_cookie False by blast+
  have b: "drop_bit 12 BASE_MEM_COOKIE_BASE = 64" by (simp add: BASE_MEM_COOKIE_BASE_def)
  show ?thesis
    by (rule that(2) [OF c]) (use False assms(2) [OF c] in \<open>simp add: place_region_def bind_cookie_def Let_def b assms(1)\<close>)
qed

text \<open>The flags of a region for memory that the CPU places, once it has its memory.\<close>

lemma same_va_flags:
  assumes "kbase_update_region_flags co nc flags (KBASE_REG_ZONE_SAME_VA OR KBASE_REG_FREE OR KBASE_REG_GROWABLE) = (0, f)"
  shows "(f AND NOT KBASE_REG_FREE) AND KBASE_REG_FREE = 0" "(f AND NOT KBASE_REG_FREE) AND KBASE_REG_VA_FREED = 0"
    "(f AND NOT KBASE_REG_FREE) AND KBASE_REG_ZONE_MASK \<noteq> KBASE_REG_ZONE_MASK"
proof -
  have b: "\<not> bit (KBASE_REG_ZONE_SAME_VA OR KBASE_REG_FREE OR KBASE_REG_GROWABLE) n" if "n \<in> {11, 26}" for n
    using that by (auto simp: KBASE_REG_ZONE_SAME_VA_def KBASE_REG_ZONE_def KBASE_REG_FREE_def KBASE_REG_GROWABLE_def bit_or_iff)
  have f: "\<not> bit f 11" "\<not> bit f 26"
    using update_region_bits [OF assms, of 11] update_region_bits [OF assms, of 26] b by (simp_all add: update_access_bits)
  show "(f AND NOT KBASE_REG_FREE) AND KBASE_REG_FREE = 0" by (simp add: and.assoc)
  have e: "KBASE_REG_VA_FREED = 2 ^ 26" by (simp add: KBASE_REG_VA_FREED_def)
  show "(f AND NOT KBASE_REG_FREE) AND KBASE_REG_VA_FREED = 0" unfolding e and_flag using f(2) by (simp add: bit_and_iff)
  have "bit KBASE_REG_ZONE_MASK 11" by (simp add: KBASE_REG_ZONE_MASK_def)
  then show "(f AND NOT KBASE_REG_FREE) AND KBASE_REG_ZONE_MASK \<noteq> KBASE_REG_ZONE_MASK" using f(1) by (metis bit_and_iff)
qed

section \<open>Allocation\<close>

text \<open>What a request does not change, and what a request without result leaves.\<close>

definition mem_frame :: "('i, 'h) gctx \<Rightarrow> ('i, 'h) gctx \<Rightarrow> bool" where
  "mem_frame s s' \<longleftrightarrow> trees (gva s') = trees (gva s) \<and> (\<forall>i < next_reg (gva s). region_of s' i = region_of s i) \<and>
     evict_list s' = evict_list s"

definition no_trace ::
  "('i \<Rightarrow> nat) \<Rightarrow> (nat \<Rightarrow> 'i) \<Rightarrow> (u64 \<times> nat) multiset \<Rightarrow> int \<times> int \<Rightarrow> ('i::finite, 'h) gctx \<Rightarrow> ('i, 'h) gctx \<Rightarrow> bool" where
  "no_trace r small_of T k0 s s' \<longleftrightarrow> mem_frame s s' \<and> phys_inv r small_of T k0 (gph s') \<and>
     kctx_used_pages (pmem (gph s')) = kctx_used_pages (pmem (gph s)) \<and>
     kbdev_used_pages (pmem (gph s')) = kbdev_used_pages (pmem (gph s)) \<and>
     cookies s' = cookies s \<and> pending_regions s' = pending_regions s"

text \<open>A region with its memory: \<open>p\<close> is the state of the physical memory before the pages were taken.\<close>

definition filled ::
  "('i \<Rightarrow> nat) \<Rightarrow> (nat \<Rightarrow> 'i) \<Rightarrow> (u64 \<times> nat) multiset \<Rightarrow> int \<times> int \<Rightarrow> ('i::finite, 'h) gctx \<Rightarrow> ('i, 'h) gctx \<Rightarrow> nat \<Rightarrow> nat \<Rightarrow> nat \<Rightarrow> bool" where
  "filled r small_of T k0 s s' reg cpu gpu \<longleftrightarrow> mem_frame s s' \<and> phys_inv r small_of T k0 (gph s') \<and>
     next_reg (gva s) \<le> reg \<and> cpu_alloc s' reg = Some cpu \<and> gpu_alloc s' reg = Some gpu \<and>
     cpu < next_alloc (gph s') \<and> gpu < next_alloc (gph s') \<and> next_alloc (gph s) \<le> gpu \<and>
     (\<forall>a \<in> {cpu, gpu}. pa_kref (alloc_of s' a) = (if cpu = gpu then 2 else 1)) \<and>
     (\<exists>p. phys_inv r small_of T k0 p \<and> pmem p = pmem (gph s) \<and> next_alloc p = next_alloc (gph s') \<and>
        (\<forall>b. b \<noteq> cpu \<longrightarrow> b \<noteq> gpu \<longrightarrow> alloc_of s' b = pallocs p b) \<and> (\<forall>b \<in> {cpu, gpu}. pa_nents (pallocs p b) = 0))"

text \<open>Dropping the region again takes its pages back.\<close>

lemma filled_puts:
  assumes "filled r small_of T k0 s s' reg cpu gpu"
  obtains p' where "Option.bind (kbase_mem_phy_alloc_put small_of cpu (gph s')) (kbase_mem_phy_alloc_put small_of gpu) = Some p'"
    and "phys_inv r small_of T k0 p'" and "kctx_used_pages (pmem p') = kctx_used_pages (pmem (gph s))"
    and "kbdev_used_pages (pmem p') = kbdev_used_pages (pmem (gph s))"
proof -
  note F = assms [unfolded filled_def]
  obtain p where p: "phys_inv r small_of T k0 p" "pmem p = pmem (gph s)" "next_alloc p = next_alloc (gph s')"
    "\<forall>b. b \<noteq> cpu \<longrightarrow> b \<noteq> gpu \<longrightarrow> alloc_of s' b = pallocs p b" "\<forall>b \<in> {cpu, gpu}. pa_nents (pallocs p b) = 0"
    using F by blast
  have i: "phys_inv r small_of T k0 (gph s')" "cpu < next_alloc (gph s')" "gpu < next_alloc (gph s')"
    and n: "\<forall>a \<in> {cpu, gpu}. pa_kref (alloc_of s' a) = (if cpu = gpu then 2 else 1)" using F by blast+
  obtain p' where p': "Option.bind (kbase_mem_phy_alloc_put small_of cpu (gph s')) (kbase_mem_phy_alloc_put small_of gpu) = Some p'"
    "phys_inv r small_of T k0 p'" "next_alloc p' = next_alloc (gph s')"
    "\<forall>b. b \<noteq> cpu \<longrightarrow> b \<noteq> gpu \<longrightarrow> pallocs p' b = alloc_of s' b" "\<forall>b \<in> {cpu, gpu}. pa_nents (pallocs p' b) = 0"
    by (rule puts_free [OF i n])
  have "pa_nents (pallocs p' b) = pa_nents (pallocs p b)" for b using p(4,5) p'(4,5) by (cases "b = cpu \<or> b = gpu") auto
  then show ?thesis using that [OF p'(1,2)] used_same [OF p(1) p'(2)] p(2,3) p'(3) by simp
qed

lemma drop_filled:
  assumes f: "filled r (ge_small env) T k0 s s' reg cpu gpu" and "cookies s' = cookies s" "pending_regions s' = pending_regions s"
  obtains s'' where "drop_region env reg cpu gpu s' = Some s''" and "no_trace r (ge_small env) T k0 s s''"
proof -
  obtain p' where p': "Option.bind (kbase_mem_phy_alloc_put (ge_small env) cpu (gph s')) (kbase_mem_phy_alloc_put (ge_small env) gpu) = Some p'"
    "phys_inv r (ge_small env) T k0 p'" "kctx_used_pages (pmem p') = kctx_used_pages (pmem (gph s))"
    "kbdev_used_pages (pmem p') = kbdev_used_pages (pmem (gph s))"
    by (rule filled_puts [OF f])
  have "mem_frame s s'" using f by (simp add: filled_def)
  then have "no_trace r (ge_small env) T k0 s (on_va (kfree_region reg) (s'\<lparr> gph := p' \<rparr>))"
    using p' assms(2,3) by (simp add: no_trace_def mem_frame_def on_va_def kfree_region_def)
  then show ?thesis by (rule that [rotated]) (simp add: drop_region_puts p'(1))
qed

lemma fill_region_result:
  assumes inv: "phys_inv r (ge_small env) T k0 (gph s1)" and a: "cpu < next_alloc (gph s1)" "gpu < next_alloc (gph s1)"
    and o: "\<forall>a \<in> {cpu, gpu}. pa_nents (alloc_of s1 a) = 0 \<and> length (pa_pages (alloc_of s1 a)) = unat va_pages \<and>
      pa_kref (alloc_of s1 a) = (if cpu = gpu then 2 else 1) \<and> next_alloc (gph s) \<le> a"
    and n: "nr_pages (region_of s1 reg) = va_pages" and m: "pmem (gph s1) = pmem (gph s)" "mem_frame s s1" "next_reg (gva s) \<le> reg"
  obtains err s2 where "fill_region env va_pages commit_pages large_extent flags reg cpu gpu s1 = Some (err, s2)"
    and "filled r (ge_small env) T k0 s s2 reg cpu gpu" and "cookies s2 = cookies s1" "pending_regions s2 = pending_regions s1"
    and "reg_flags (region_of s2 reg) = reg_flags (region_of s1 reg) AND NOT KBASE_REG_FREE"
      "start_pfn (region_of s2 reg) = start_pfn (region_of s1 reg)" "va_refcnt (region_of s2 reg) = va_refcnt (region_of s1 reg)"
    and "err = 0 \<Longrightarrow> pa_nents (alloc_of s2 cpu) = unat commit_pages \<and> pa_nents (alloc_of s2 gpu) = unat commit_pages"
proof -
  define s2 where "s2 = on_va (upd_region reg (\<lambda>r. r\<lparr> reg_flags := reg_flags r AND NOT KBASE_REG_FREE,
      extent := (if flags AND (BASE_MEM_GROW_ON_GPF OR BASE_MEM_TILER_ALIGN_TOP) \<noteq> 0 then large_extent else 0) \<rparr>))
    (s1\<lparr> cpu_alloc := (cpu_alloc s1)(reg := Some cpu), gpu_alloc := (gpu_alloc s1)(reg := Some gpu) \<rparr>)"
  have g: "gph s2 = gph s1" "reg_sizes s2 reg = va_pages" using n by (simp_all add: s2_def on_va_def reg_sizes_def)
  obtain err p where p: "kbase_alloc_phy_pages (ge_small env) (reg_sizes s2) reg cpu gpu va_pages commit_pages (gph s1) = Some (err, p)"
    "phys_inv r (ge_small env) T k0 p" "err = 0 \<or> err = -1" "next_alloc p = next_alloc (gph s1)"
    "\<forall>b. b \<noteq> cpu \<longrightarrow> b \<noteq> gpu \<longrightarrow> pallocs p b = alloc_of s1 b"
    "\<forall>b \<in> {cpu, gpu}. pa_nents (pallocs p b) = (if err = 0 then unat commit_pages else 0) \<and> pa_kref (pallocs p b) = pa_kref (alloc_of s1 b)"
    by (rule alloc_region_ok [OF inv a, of "reg_sizes s2" reg va_pages commit_pages]) (use o g in auto)
  let ?s3 = "(if err = 0 then on_va (upd_region reg (\<lambda>r. r\<lparr> initial_commit := commit_pages \<rparr>)) else id) (s2\<lparr> gph := p \<rparr>)"
  have e: "fill_region env va_pages commit_pages large_extent flags reg cpu gpu s1 = Some (err, ?s3)"
    using p(1) g(1) by (simp add: fill_region_def s2_def [symmetric] Let_def)
  have "filled r (ge_small env) T k0 s ?s3 reg cpu gpu"
    unfolding filled_def
    using m p inv a o by (auto simp: s2_def on_va_def mem_frame_def intro!: exI [of _ "gph s1"])
  then show ?thesis
    by (rule that [OF e]) (use p in \<open>auto simp: s2_def on_va_def\<close>)
qed

text \<open>A region that waits under the cookie \<open>c\<close>.\<close>

definition waits :: "('i, 'h) gctx \<Rightarrow> ('i, 'h) gctx \<Rightarrow> nat \<Rightarrow> nat \<Rightarrow> u64 \<Rightarrow> bool" where
  "waits s s' reg c commit_pages \<longleftrightarrow> c < 64 \<and> bit (cookies s) c \<and> cookies s' = unset_bit c (cookies s) \<and>
     pending_regions s' = (pending_regions s)(c := Some reg) \<and>
     \<not> has_flag (gva s') reg KBASE_REG_FREE \<and> \<not> has_flag (gva s') reg KBASE_REG_VA_FREED \<and>
     reg_flags (region_of s' reg) AND KBASE_REG_ZONE_MASK \<noteq> KBASE_REG_ZONE_MASK \<and>
     start_pfn (region_of s' reg) = 0 \<and> va_refcnt (region_of s' reg) = 1 \<and>
     kbase_reg_current_backed_size s' reg = unat commit_pages"

lemma finish_result:
  assumes inv: "phys_inv r (ge_small env) T k0 (gph s1)" and a: "cpu < next_alloc (gph s1)" "gpu < next_alloc (gph s1)"
    and o: "\<forall>a \<in> {cpu, gpu}. pa_nents (alloc_of s1 a) = 0 \<and> length (pa_pages (alloc_of s1 a)) = unat va_pages \<and>
      pa_kref (alloc_of s1 a) = (if cpu = gpu then 2 else 1) \<and> next_alloc (gph s) \<le> a"
    and n: "nr_pages (region_of s1 reg) = va_pages" and m: "pmem (gph s1) = pmem (gph s)" "mem_frame s s1" "next_reg (gva s) \<le> reg"
    and c: "cookies s1 = cookies s" "pending_regions s1 = pending_regions s" and sv: "flags AND BASE_MEM_SAME_VA \<noteq> 0"
    and ck: "\<And>c. c < 64 \<Longrightarrow> bit (cookies s) c \<Longrightarrow> pending_regions s c = None"
    and u: "kbase_update_region_flags co nc fl (KBASE_REG_ZONE_SAME_VA OR KBASE_REG_FREE OR KBASE_REG_GROWABLE) =
        (0, reg_flags (region_of s1 reg))"
    and z: "start_pfn (region_of s1 reg) = 0" "va_refcnt (region_of s1 reg) = 1"
  obtains (none) s' where "finish_alloc env va_pages commit_pages large_extent flags reg cpu gpu 0 s1 = Some (None, flags, 0, s')"
      "no_trace r (ge_small env) T k0 s s'"
  | (some) s' c where "finish_alloc env va_pages commit_pages large_extent flags reg cpu gpu 0 s1 =
        Some (Some reg, flags, push_bit 12 (of_nat c + 64), s')"
      "filled r (ge_small env) T k0 s s' reg cpu gpu" "waits s s' reg c commit_pages"
proof -
  obtain err s2 where f: "fill_region env va_pages commit_pages large_extent flags reg cpu gpu s1 = Some (err, s2)"
    and F: "filled r (ge_small env) T k0 s s2 reg cpu gpu" and c2: "cookies s2 = cookies s1" "pending_regions s2 = pending_regions s1"
    and g: "reg_flags (region_of s2 reg) = reg_flags (region_of s1 reg) AND NOT KBASE_REG_FREE"
      "start_pfn (region_of s2 reg) = start_pfn (region_of s1 reg)" "va_refcnt (region_of s2 reg) = va_refcnt (region_of s1 reg)"
    and b: "err = 0 \<Longrightarrow> pa_nents (alloc_of s2 cpu) = unat commit_pages \<and> pa_nents (alloc_of s2 gpu) = unat commit_pages"
    by (rule fill_region_result [OF inv a o n m, of commit_pages large_extent flags]) (rule that; blast)
  obtain s3 where dr: "drop_region env reg cpu gpu s2 = Some s3" "no_trace r (ge_small env) T k0 s s3"
    by (rule drop_filled [OF F]) (use c c2 in simp_all)
  show ?thesis
  proof (cases "err = 0")
    case False
    then show ?thesis using none [OF _ dr(2)] f dr(1) by (simp add: finish_alloc_def)
  next
    case True
    have ck2: "pending_regions s2 c = None" if "c < 64" "bit (cookies s2) c" for c using ck that c c2 by simp
    show ?thesis
    proof (rule place_same_va [OF sv ck2, of env reg va_pages 0])
      assume "place_region env flags reg va_pages 0 s2 = Some (None, s2)"
      then show ?thesis using none [OF _ dr(2)] f dr(1) True by (simp add: finish_alloc_def)
    next
      fix c assume p: "c < 64" "bit (cookies s2) c" "place_region env flags reg va_pages 0 s2 =
        Some (Some (push_bit 12 (of_nat c + 64)), s2\<lparr> cookies := unset_bit c (cookies s2), pending_regions := (pending_regions s2)(c := Some reg) \<rparr>)"
      let ?s' = "s2\<lparr> cookies := unset_bit c (cookies s2), pending_regions := (pending_regions s2)(c := Some reg) \<rparr>"
      have F': "filled r (ge_small env) T k0 s ?s' reg cpu gpu" using F by (simp add: filled_def mem_frame_def)
      have "cpu_alloc s2 reg = Some cpu" using F by (simp add: filled_def)
      then have "waits s ?s' reg c commit_pages"
        using p(1,2) c c2 b True z same_va_flags [OF u] g by (simp add: waits_def kbase_reg_current_backed_size_def has_flag_def)
      then show ?thesis using some [OF _ F'] f p(3) True by (simp add: finish_alloc_def)
    qed
  qed
qed

lemma region_alloc_result:
  assumes inv: "phys_inv r (ge_small env) T k0 (gph s)" and sv: "flags AND BASE_MEM_SAME_VA \<noteq> 0"
    and ck: "\<And>c. c < 64 \<Longrightarrow> bit (cookies s) c \<Longrightarrow> pending_regions s c = None"
    and a: "kbase_alloc_free_region Tree_Same 0 va_pages KBASE_REG_ZONE_SAME_VA (gva s) = (Some reg, k)"
  obtains (none) s' where "region_alloc env va_pages commit_pages large_extent flags reg 0 (s\<lparr> gva := k \<rparr>) = Some (None, flags, 0, s')"
      "no_trace r (ge_small env) T k0 s s'"
  | (some) s' c cpu gpu where "region_alloc env va_pages commit_pages large_extent flags reg 0 (s\<lparr> gva := k \<rparr>) =
        Some (Some reg, flags, push_bit 12 (of_nat c + 64), s')"
      "filled r (ge_small env) T k0 s s' reg cpu gpu" "waits s s' reg c commit_pages"
proof -
  note A = alloc_ok [OF a]
  let ?f = "KBASE_REG_ZONE_SAME_VA OR KBASE_REG_FREE OR KBASE_REG_GROWABLE"
  obtain err rf where u: "kbase_update_region_flags (ge_coherency env) (ge_non_cacheable env) flags ?f = (err, rf)" by fastforce
  have rk: "regions k reg = new_region Tree_Same 0 va_pages KBASE_REG_ZONE_SAME_VA" using A by simp
  define s1 where "s1 = on_va (upd_region reg (\<lambda>r. r\<lparr> reg_flags := rf \<rparr>)) (s\<lparr> gva := k \<rparr>)"
  have s1: "mem_frame s s1" "cookies s1 = cookies s" "pending_regions s1 = pending_regions s" "gph s1 = gph s"
    "region_of s1 reg = (new_region Tree_Same 0 va_pages KBASE_REG_ZONE_SAME_VA)\<lparr> reg_flags := rf \<rparr>" "next_reg (gva s) \<le> reg"
    using A by (auto simp: mem_frame_def s1_def on_va_def)
  have fre: "no_trace r (ge_small env) T k0 s (on_va (kfree_region reg) (s1\<lparr> gph := p \<rparr>))"
    if "phys_inv r (ge_small env) T k0 p" "pmem p = pmem (gph s)" for p
    using s1 that by (simp add: no_trace_def mem_frame_def on_va_def kfree_region_def)
  obtain perr cpu gpu p where pr: "kbase_reg_prepare_native (ge_small env) (ge_struct_size env) va_pages
      (ge_infinite_cache env \<and> rf AND KBASE_REG_CPU_CACHED \<noteq> 0) (base_mem_group_id_get flags) (gph s) = Some (perr, cpu, gpu, p)"
    and ip: "phys_inv r (ge_small env) T k0 p"
    and o: "perr = 0 \<Longrightarrow> cpu < next_alloc p \<and> gpu < next_alloc p \<and> (\<forall>a \<in> {cpu, gpu}. pa_nents (pallocs p a) = 0 \<and>
      length (pa_pages (pallocs p a)) = unat va_pages \<and> pa_reg (pallocs p a) = None \<and>
      pa_kref (pallocs p a) = (if cpu = gpu then 2 else 1) \<and> next_alloc (gph s) \<le> a)"
    and pm: "pmem p = pmem (gph s)"
    by (rule prepare_ok [OF inv, of "ge_struct_size env" va_pages "ge_infinite_cache env \<and> rf AND KBASE_REG_CPU_CACHED \<noteq> 0"
      "base_mem_group_id_get flags"]) (erule that, assumption, erule meta_mp, assumption+)
  have e: "region_alloc env va_pages commit_pages large_extent flags reg 0 (s\<lparr> gva := k \<rparr>) =
      (if err \<noteq> 0 then Some (None, flags, 0, on_va (kfree_region reg) s1)
       else if perr \<noteq> 0 then Some (None, flags, 0, on_va (kfree_region reg) (s1\<lparr> gph := p \<rparr>))
       else finish_alloc env va_pages commit_pages large_extent flags reg cpu gpu 0 (s1\<lparr> gph := p \<rparr>))"
    using u pr s1(4) by (simp add: region_alloc_def rk new_region_def s1_def [symmetric])
  consider "err \<noteq> 0" | "err = 0" "perr \<noteq> 0" | "err = 0" "perr = 0" by blast
  then show ?thesis
  proof cases
    case 1
    have "s1\<lparr> gph := gph s \<rparr> = s1" by (simp add: s1(4) [symmetric])
    then show ?thesis using none e 1 fre [OF inv refl] by simp
  next
    case 2
    then show ?thesis using none e fre [OF ip pm] by simp
  next
    case 3
    let ?s1 = "s1\<lparr> gph := p \<rparr>"
    note O = o [OF 3(2)]
    show ?thesis
    proof (rule finish_result [of r env T k0 ?s1 cpu gpu va_pages s reg flags "ge_coherency env" "ge_non_cacheable env" flags])
      show "mem_frame s ?s1" using s1(1) by (simp add: mem_frame_def)
      show "finish_alloc env va_pages commit_pages large_extent flags reg cpu gpu 0 ?s1 = Some (None, flags, 0, s') \<Longrightarrow>
          no_trace r (ge_small env) T k0 s s' \<Longrightarrow> thesis" for s' using none e 3 by simp
      show "finish_alloc env va_pages commit_pages large_extent flags reg cpu gpu 0 ?s1 =
            Some (Some reg, flags, push_bit 12 (of_nat c + 64), s') \<Longrightarrow>
          filled r (ge_small env) T k0 s s' reg cpu gpu \<Longrightarrow> waits s s' reg c commit_pages \<Longrightarrow> thesis" for s' c
        using some e 3 by simp
    qed (use ip O s1 pm sv ck u 3 in \<open>auto simp: new_region_def\<close>)
  qed
qed

lemma mem_alloc_result:
  assumes inv: "phys_inv r (ge_small env) T k0 (gph s)" and sv: "flags0 AND BASE_MEM_SAME_VA \<noteq> 0"
    and nf: "flags0 AND BASE_MEM_FLAG_MAP_FIXED = 0"
    and ck: "\<And>c. c < 64 \<Longrightarrow> bit (cookies s) c \<Longrightarrow> pending_regions s c = None"
  obtains (none) flags s' where "kbase_mem_alloc env va_pages commit_pages large_extent flags0 gpu_va s = Some (None, flags, 0, s')"
      "no_trace r (ge_small env) T k0 s s'"
  | (some) reg flags c cpu gpu s' where
      "kbase_mem_alloc env va_pages commit_pages large_extent flags0 gpu_va s = Some (Some reg, flags, push_bit 12 (of_nat c + 64), s')"
      "filled r (ge_small env) T k0 s s' reg cpu gpu" "waits s s' reg c commit_pages"
proof -
  obtain ok fl where cf: "coherency_flags env flags0 = (ok, fl)" by fastforce
  have sf: "fl AND BASE_MEM_SAME_VA \<noteq> 0" using coherency_same_va [OF cf] sv by simp
  have az: "alloc_zone fl k = (Tree_Same, KBASE_REG_ZONE_SAME_VA)" for k using sf by (simp add: alloc_zone_def)
  have same: "no_trace r (ge_small env) T k0 s s" using inv by (simp add: no_trace_def mem_frame_def)
  obtain res k where fr: "kbase_alloc_free_region Tree_Same 0 va_pages KBASE_REG_ZONE_SAME_VA (gva s) = (res, k)" by fastforce
  have e: "kbase_mem_alloc env va_pages commit_pages large_extent flags0 gpu_va s =
      (if \<not> kbase_check_alloc_flags flags0 then Some (None, flags0, 0, s)
       else if \<not> ok \<or> kbase_check_alloc_sizes (ge_pc_bits env) fl va_pages commit_pages large_extent \<noteq> 0 then Some (None, fl, 0, s)
       else case res of None \<Rightarrow> Some (None, fl, 0, s\<lparr> gva := k \<rparr>)
            | Some reg \<Rightarrow> region_alloc env va_pages commit_pages large_extent fl reg 0 (s\<lparr> gva := k \<rparr>))"
    using fr by (cases res) (simp_all add: kbase_mem_alloc_def nf cf az)
  consider "\<not> kbase_check_alloc_flags flags0"
    | "kbase_check_alloc_flags flags0" "\<not> ok \<or> kbase_check_alloc_sizes (ge_pc_bits env) fl va_pages commit_pages large_extent \<noteq> 0"
    | "kbase_check_alloc_flags flags0" "\<not> (\<not> ok \<or> kbase_check_alloc_sizes (ge_pc_bits env) fl va_pages commit_pages large_extent \<noteq> 0)"
    by blast
  then show ?thesis
  proof cases
    case 3
    show ?thesis
    proof (cases res)
      case None
      have "no_trace r (ge_small env) T k0 s (s\<lparr> gva := k \<rparr>)"
        using inv fr None by (auto simp: no_trace_def mem_frame_def kbase_alloc_free_region_def split: list.splits bool.splits)
      then show ?thesis using none e 3 None by simp
    next
      case (Some reg)
      then have "kbase_mem_alloc env va_pages commit_pages large_extent flags0 gpu_va s =
          region_alloc env va_pages commit_pages large_extent fl reg 0 (s\<lparr> gva := k \<rparr>)" using e 3 by simp
      then show ?thesis
        using region_alloc_result [OF inv sf ck fr [unfolded Some], of commit_pages large_extent] none some by metis
    qed
  qed (use none same e in simp_all)
qed

section \<open>Freeing a cookie\<close>

lemma cookie_address:
  assumes "c < 64"
  shows "(push_bit 12 (of_nat c + 64) :: u64) AND NOT PAGE_MASK = 0" "(push_bit 12 (of_nat c + 64) :: u64) \<noteq> 0"
    "BASE_MEM_COOKIE_BASE \<le> push_bit 12 (of_nat c + 64)" "push_bit 12 (of_nat c + 64) < BASE_MEM_FIRST_FREE_ADDRESS"
    "unat (drop_bit 12 (push_bit 12 (of_nat c + 64) - BASE_MEM_COOKIE_BASE)) = c"
proof -
  let ?b = "push_bit 12 (of_nat c) :: u64"
  have e: "push_bit 12 (of_nat c + 64) = of_nat (c * 4096 + 0x40000)" "?b = of_nat (c * 4096)" by (simp_all add: push_bit_eq_mult algebra_simps)
  have u: "unat (of_nat (c * 4096 + 0x40000) :: u64) = c * 4096 + 0x40000" "unat ?b = c * 4096"
    unfolding e(2) using assms by (intro unat_of_nat_u64; simp)+
  have k: "unat BASE_MEM_COOKIE_BASE = 0x40000" "unat BASE_MEM_FIRST_FREE_ADDRESS = 0x80000"
    by (simp_all add: BASE_MEM_COOKIE_BASE_def BASE_MEM_FIRST_FREE_ADDRESS_def)
  show "(push_bit 12 (of_nat c + 64) :: u64) AND NOT PAGE_MASK = 0" by (simp add: take_bit_eq_mask [symmetric] take_bit_push_bit)
  show "(push_bit 12 (of_nat c + 64) :: u64) \<noteq> 0" unfolding e(1) using u(1) by (metis add_is_0 unat_0 zero_neq_numeral)
  show "BASE_MEM_COOKIE_BASE \<le> push_bit 12 (of_nat c + 64)" "push_bit 12 (of_nat c + 64) < BASE_MEM_FIRST_FREE_ADDRESS"
    unfolding e(1) word_le_nat_alt word_less_nat_alt u(1) k using assms by simp_all
  have "push_bit 12 (of_nat c + 64) - BASE_MEM_COOKIE_BASE = ?b" by (simp add: push_bit_add BASE_MEM_COOKIE_BASE_def)
  then show "unat (drop_bit 12 (push_bit 12 (of_nat c + 64) - BASE_MEM_COOKIE_BASE)) = c"
    using u(2) by (simp add: drop_bit_eq_div unat_div)
qed

lemma set_unset: "bit (x :: u64) c \<Longrightarrow> set_bit c (unset_bit c x) = x"
  by (rule bit_eqI) (auto simp: bit_set_bit_iff bit_unset_bit_iff)

lemma free_unplaced:
  assumes "\<not> has_flag k i KBASE_REG_FREE" "\<not> has_flag k i KBASE_REG_VA_FREED"
    "reg_flags (regions k i) AND KBASE_REG_ZONE_MASK \<noteq> KBASE_REG_ZONE_MASK" "start_pfn (regions k i) = 0" "va_refcnt (regions k i) = 1"
  shows "trees (kbase_free_alloced_region rb i k) = trees k" "kfreed (kbase_free_alloced_region rb i k) = i # kfreed k"
    "j \<noteq> i \<Longrightarrow> regions (kbase_free_alloced_region rb i k) j = regions k j"
  using assms
  by (simp_all add: kbase_free_alloced_region_def kbase_va_region_alloc_put_def kbase_region_refcnt_free_def kfree_region_def Let_def)

lemma free_cookie:
  assumes f: "filled r (ge_small env) T k0 s s' reg cpu gpu" and w: "waits s s' reg c commit_pages"
    and ck: "pending_regions s c = None" and ev: "\<forall>a \<in> set (evict_list s). a < next_alloc (gph s)"
  obtains s2 where "kbase_mem_free env (push_bit 12 (of_nat c + 64)) s' = Some (0, s2)" and "no_trace r (ge_small env) T k0 s s2"
    and "reg \<in> set (kfreed (gva s2))"
proof -
  note F = f [unfolded filled_def] and W = w [unfolded waits_def]
  obtain p where p: "Option.bind (kbase_mem_phy_alloc_put (ge_small env) cpu (gph s')) (kbase_mem_phy_alloc_put (ge_small env) gpu) = Some p"
    "phys_inv r (ge_small env) T k0 p" "kctx_used_pages (pmem p) = kctx_used_pages (pmem (gph s))"
    "kbdev_used_pages (pmem p) = kbdev_used_pages (pmem (gph s))"
    by (rule filled_puts [OF f])
  define s1 where "s1 = s'\<lparr> pending_regions := pending_regions s, cookies := cookies s \<rparr>"
  have g: "gpu \<notin> set (evict_list s1)" using ev F by (auto simp: s1_def mem_frame_def)
  have m: "free_region_memory env reg s1 = Some (s1\<lparr> gph := p \<rparr>)"
    using free_memory_puts [OF _ _ _ _ _ g, of reg cpu env] F W p(1) by (simp add: s1_def)
  let ?s2 = "on_va (kbase_free_alloced_region (ge_rb env) reg) (s1\<lparr> gph := p \<rparr>)"
  have c: "set_bit c (unset_bit c (cookies s)) = cookies s" using W by (simp add: set_unset)
  have q: "(pending_regions s)(c := None) = pending_regions s" using ck by auto
  have e: "kbase_mem_free env (push_bit 12 (of_nat c + 64)) s' = Some (0, ?s2)"
    using cookie_address [of c] W m c q by (simp add: kbase_mem_free_def Let_def free_alloced_region_def s1_def)
  note U = free_unplaced [of "gva s'" reg, where rb = "ge_rb env"]
  have "no_trace r (ge_small env) T k0 s ?s2"
    using p(2-4) F W U by (auto simp: no_trace_def mem_frame_def on_va_def s1_def)
  then show ?thesis using that [OF e] W U(2) by (simp add: on_va_def s1_def)
qed

section \<open>Properties\<close>

text \<open>
  C11. A request for memory that the CPU places, without a fixed address, always returns. It gives a
  region with all pages that are to be committed, which waits under a free cookie and whose address
  is that of the cookie; or it gives nothing, and then trees, cookies, the regions that wait and the
  counters of used pages are as before, and no page is lost. This holds for every failure of the
  kernel's allocations and of the pools, and for every set of flags and sizes.
\<close>

theorem mem_alloc_all_or_nothing:
  assumes "phys_inv r (ge_small env) T k0 (gph s)" and "flags0 AND BASE_MEM_SAME_VA \<noteq> 0" and "flags0 AND BASE_MEM_FLAG_MAP_FIXED = 0"
    and "\<And>c. c < 64 \<Longrightarrow> bit (cookies s) c \<Longrightarrow> pending_regions s c = None"
  shows "\<exists>res flags addr s'. kbase_mem_alloc env va_pages commit_pages large_extent flags0 gpu_va s = Some (res, flags, addr, s') \<and>
    (res = None \<and> addr = 0 \<and> no_trace r (ge_small env) T k0 s s' \<or>
     (\<exists>reg c. res = Some reg \<and> c < 64 \<and> bit (cookies s) c \<and> addr = push_bit 12 (of_nat c + 64) \<and>
        cookies s' = unset_bit c (cookies s) \<and> pending_regions s' = (pending_regions s)(c := Some reg) \<and>
        kbase_reg_current_backed_size s' reg = unat commit_pages \<and> mem_frame s s' \<and> phys_inv r (ge_small env) T k0 (gph s')))"
proof (rule mem_alloc_result [OF assms, of va_pages commit_pages large_extent gpu_va])
  fix flags s' assume "kbase_mem_alloc env va_pages commit_pages large_extent flags0 gpu_va s = Some (None, flags, 0, s')"
    "no_trace r (ge_small env) T k0 s s'"
  then show ?thesis by blast
next
  fix reg flags c cpu gpu s' assume
    "kbase_mem_alloc env va_pages commit_pages large_extent flags0 gpu_va s = Some (Some reg, flags, push_bit 12 (of_nat c + 64), s')"
    "filled r (ge_small env) T k0 s s' reg cpu gpu" "waits s s' reg c commit_pages"
  then show ?thesis unfolding filled_def waits_def by blast
qed

text \<open>
  C13. Round trip: when the address that such a request gave is freed before anything was mapped
  there, the free succeeds and leaves no trace of the request: the cookie is free again, the pages are
  back in the pools or with the kernel, the counters are what they were, no tree has changed, and the
  structure of the region has been freed.
\<close>

theorem mem_alloc_free_cookie:
  assumes inv: "phys_inv r (ge_small env) T k0 (gph s)" and sv: "flags0 AND BASE_MEM_SAME_VA \<noteq> 0"
    and nf: "flags0 AND BASE_MEM_FLAG_MAP_FIXED = 0"
    and ck: "\<And>c. c < 64 \<Longrightarrow> bit (cookies s) c \<Longrightarrow> pending_regions s c = None"
    and ev: "\<forall>a \<in> set (evict_list s). a < next_alloc (gph s)"
    and m: "kbase_mem_alloc env va_pages commit_pages large_extent flags0 gpu_va s = Some (Some reg, flags, addr, s1)"
  shows "\<exists>s2. kbase_mem_free env addr s1 = Some (0, s2) \<and> no_trace r (ge_small env) T k0 s s2 \<and> reg \<in> set (kfreed (gva s2))"
proof (rule mem_alloc_result [OF inv sv nf ck, of va_pages commit_pages large_extent gpu_va])
  fix reg' flags' c cpu gpu s' assume
    "kbase_mem_alloc env va_pages commit_pages large_extent flags0 gpu_va s = Some (Some reg', flags', push_bit 12 (of_nat c + 64), s')"
    and f: "filled r (ge_small env) T k0 s s' reg' cpu gpu" "waits s s' reg' c commit_pages"
  then have e: "reg' = reg" "s' = s1" "addr = push_bit 12 (of_nat c + 64)" using m by simp_all
  have "pending_regions s c = None" using f(2) ck by (simp add: waits_def)
  then show ?thesis using free_cookie [OF f _ ev] e by metis
qed (use m in simp_all)

section \<open>A request\<close>

text \<open>Three pages of address space with two pages of memory, readable and writable; only cookie 1 is free.\<close>

definition demo_wait :: "(bool, (u32 \<times> u32) list) gctx" where
  "demo_wait = \<lparr> gva = ctx0, gph = demo_phys, gkb = demo_kb, cpu_alloc = (\<lambda>i. None), gpu_alloc = (\<lambda>i. None), evict_list = [],
     jit_pool = [], pending_regions = (\<lambda>i. None), cookies = 2 \<rparr>"

definition demo_wait_env :: "(bool, (u32 \<times> u32) list) genv" where
  "demo_wait_env = \<lparr> ge_mode = aarch64_mode, ge_mmut = \<lparr> mt_pgd = 0x1000, mt_pool = False, mt_kctx = True \<rparr>, ge_hw = log_regs 0,
     ge_flush = \<lparr> in_runpool = False, ctx_as_nr = 0, gpu_powered = False \<rparr>, ge_rb = rb_line, ge_conf = conf17, ge_coherency = COHERENCY_NONE, ge_gwt = False, ge_pc_bits = 24,
     ge_sink = 0xF000, ge_small = (\<lambda>g. False), ge_struct_size = 64, ge_infinite_cache = False, ge_non_cacheable = True, ge_kernel_map = 0 \<rparr>"

declare add_va_region_loop.simps [code]

lemma demo_wait_alloc:
  "map_option (\<lambda>(res, flags, addr, s1). (res, addr)) (kbase_mem_alloc demo_wait_env 3 2 0 0x200F 0 demo_wait) = Some (Some 1, 0x41000)"
  by code_simp

lemma demo_wait_facts:
  "phys_inv (\<lambda>i. if i then 0 else 1) (ge_small demo_wait_env) {#} (7, 9) (gph demo_wait)" "cookies demo_wait = 2"
  "(0x200F :: u64) AND BASE_MEM_SAME_VA \<noteq> 0" "(0x200F :: u64) AND BASE_MEM_FLAG_MAP_FIXED = 0"
  "pending_regions demo_wait c = None" "evict_list demo_wait = []" "gva demo_wait = ctx0"
  using phys_start_inv [OF demo_phys_simps(1)]
  by (simp_all add: demo_wait_def demo_wait_env_def demo_phys_def BASE_MEM_SAME_VA_def BASE_MEM_FLAG_MAP_FIXED_def)

lemma demo_wait_result:
  obtains flags s1 where "kbase_mem_alloc demo_wait_env 3 2 0 0x200F 0 demo_wait = Some (Some 1, flags, 0x41000, s1)"
  using demo_wait_alloc by auto

lemma mem_alloc_all_or_nothing_witness:
  "\<exists>flags s'. kbase_mem_alloc demo_wait_env 3 2 0 0x200F 0 demo_wait = Some (Some 1, flags, 0x41000, s') \<and>
     cookies s' = 0 \<and> kbase_reg_current_backed_size s' 1 = 2"
proof (rule demo_wait_result)
  fix flags s1 assume e: "kbase_mem_alloc demo_wait_env 3 2 0 0x200F 0 demo_wait = Some (Some 1, flags, 0x41000, s1)"
  obtain c where c: "bit (2 :: u64) c" "cookies s1 = unset_bit c 2" "kbase_reg_current_backed_size s1 1 = 2"
    using mem_alloc_all_or_nothing [OF demo_wait_facts(1,3,4,5), of 3 2 0 0] e by (auto simp: demo_wait_facts(2))
  have "c = 1" using c(1) by (metis bit_numeral_Bit0_iff bit_1_iff numeral_One One_nat_def Suc_pred)
  then have "cookies s1 = 0" using c(2) by (simp add: unset_bit_eq_and_not)
  then show ?thesis using e c(3) by auto
qed

lemma mem_alloc_free_cookie_witness:
  "\<exists>flags s1 s2. kbase_mem_alloc demo_wait_env 3 2 0 0x200F 0 demo_wait = Some (Some 1, flags, 0x41000, s1) \<and>
     kbase_mem_free demo_wait_env 0x41000 s1 = Some (0, s2) \<and> cookies s2 = 2 \<and> kctx_used_pages (pmem (gph s2)) = 7"
proof (rule demo_wait_result)
  fix flags s1 assume e: "kbase_mem_alloc demo_wait_env 3 2 0 0x200F 0 demo_wait = Some (Some 1, flags, 0x41000, s1)"
  have "kctx_used_pages (pmem (gph demo_wait)) = 7" by (simp add: demo_wait_def demo_phys_def)
  then show ?thesis
    using mem_alloc_free_cookie [OF demo_wait_facts(1,3,4,5) _ e] demo_wait_facts(2,6) e by (auto simp: no_trace_def)
qed

end
