(* ===== verification/KB_MmuMap.thy ===== *)
theory KB_MmuMap
  imports KB_MmuTable
begin

text \<open>
  The page table of the driver as a map: the tables on the way to a page, the entry that maps it,
  and the invariant under which each table is reached on one way only and every entry is of one
  of the kinds that the entry format makes.
\<close>

unbundle bit_operations_syntax

section \<open>Reading and writing entries\<close>

lemma get_entry_put_entry:
  "get_entry (put_entry p i e s) q j =
     (if q AND PAGE_MASK = p AND PAGE_MASK \<and> j = i then e else get_entry s q j)"
  by (simp add: get_entry_def put_entry_def frame_simps)

lemma put_entry_mm [simp]:
  "pools (mm (put_entry p i e s)) = pools (mm s)" "answers (mm (put_entry p i e s)) = answers (mm s)"
  "mappable (page_mem (mm (put_entry p i e s))) = mappable (page_mem (mm s))"
  "nr_table_pages (put_entry p i e s) = nr_table_pages s"
  by (simp_all add: put_entry_def)

lemma put_entries_at_Nil [simp]: "put_entries_at p i [] s = s"
  by (simp add: put_entries_at_def)

lemma put_entries_at_Cons [simp]:
  "put_entries_at p i (e # es) s = put_entries_at p (Suc i) es (put_entry p i e s)"
  by (simp add: put_entries_at_def)

lemma put_entries_at_mm [simp]:
  "pools (mm (put_entries_at p i es s)) = pools (mm s)"
  "answers (mm (put_entries_at p i es s)) = answers (mm s)"
  "mappable (page_mem (mm (put_entries_at p i es s))) = mappable (page_mem (mm s))"
  "nr_table_pages (put_entries_at p i es s) = nr_table_pages s"
  by (induction es arbitrary: i s) simp_all

lemma get_entry_put_entries_at:
  "get_entry (put_entries_at p i es s) q j =
     (if q AND PAGE_MASK = p AND PAGE_MASK \<and> i \<le> j \<and> j < i + length es then es ! (j - i) else get_entry s q j)"
proof (induction es arbitrary: i s)
  case Nil
  show ?case by auto
next
  case (Cons e es)
  show ?case
    by (simp add: Cons.IH get_entry_put_entry) (auto simp: nth_Cons' Suc_diff_le)
qed

section \<open>Indexes\<close>

lemma pgd_index_nat: "pgd_index v l = unat v div 512 ^ (3 - l) mod 512"
proof -
  have "pgd_index v l = take_bit 9 (unat (drop_bit ((3 - l) * 9) v))"
    unfolding pgd_index_def by (simp add: unsigned_and_eq mask_eq_exp_minus_1 take_bit_eq_mask)
  also have "unat (drop_bit ((3 - l) * 9) v) = drop_bit ((3 - l) * 9) (unat v)"
    by (rule unat_drop_bit_eq)
  also have "take_bit 9 (drop_bit ((3 - l) * 9) (unat v)) = unat v div 2 ^ ((3 - l) * 9) mod 2 ^ 9"
    by (simp only: take_bit_eq_mod drop_bit_eq_div)
  also have "(2 :: nat) ^ ((3 - l) * 9) = 512 ^ (3 - l)"
    by (simp add: mult.commute [of "3 - l"] power_mult)
  finally show ?thesis by simp
qed

lemma pgd_index_less [simp]: "pgd_index v l < 512"
  by (simp add: pgd_index_nat)

lemma pgd_index_3: "pgd_index v 3 = unat v mod 512"
  by (simp add: pgd_index_nat)

text \<open>The path of indexes down to a level: pages that share a table have the same one.\<close>

definition same_path :: "nat \<Rightarrow> u64 \<Rightarrow> u64 \<Rightarrow> bool" where
  "same_path l v w \<longleftrightarrow> (\<forall>j < l. pgd_index v j = pgd_index w j)"

lemma same_path_simps [simp]:
  "same_path 0 v w" "same_path (Suc l) v w \<longleftrightarrow> same_path l v w \<and> pgd_index v l = pgd_index w l"
  by (auto simp: same_path_def less_Suc_eq)

lemma same_path_refl [simp]: "same_path l v v"
  by (simp add: same_path_def)

lemma same_path_sym: "same_path l v w \<Longrightarrow> same_path l w v"
  by (simp add: same_path_def)

lemma same_path_trans: "same_path l u v \<Longrightarrow> same_path l v w \<Longrightarrow> same_path l u w"
  by (simp add: same_path_def)

lemma same_path_mono: "same_path l v w \<Longrightarrow> k \<le> l \<Longrightarrow> same_path k v w"
  by (simp add: same_path_def)

lemma path_digits:
  assumes "k < 2 ^ 36"
  shows "k div 512 = (k div 134217728 mod 512) * 262144 + (k div 262144 mod 512) * 512 + k div 512 mod (512 :: nat)"
proof -
  have "k div 512 div 512 = k div 262144" "k div 262144 div 512 = k div 134217728"
    by (simp_all add: div_mult2_eq [symmetric])
  moreover have "k div 134217728 mod 512 = k div 134217728"
    using assms by simp
  ultimately show ?thesis
    using div_mult_mod_eq [of "k div 512" 512] div_mult_mod_eq [of "k div 262144" 512] by simp
qed

lemma same_path_3:
  assumes "unat v < 2 ^ 36" and "unat w < 2 ^ 36"
  shows "same_path 3 v w \<longleftrightarrow> unat v div 512 = unat w div 512"
proof
  assume "same_path 3 v w"
  then have p: "pgd_index v 0 = pgd_index w 0" "pgd_index v 1 = pgd_index w 1" "pgd_index v 2 = pgd_index w 2"
    by (simp_all add: same_path_def)
  have i: "pgd_index u 0 = unat u div 134217728 mod 512" "pgd_index u 1 = unat u div 262144 mod 512"
    "pgd_index u 2 = unat u div 512 mod 512" for u
    by (simp_all add: pgd_index_nat)
  have "unat v div 512 = pgd_index v 0 * 262144 + pgd_index v 1 * 512 + pgd_index v 2"
    unfolding i by (rule path_digits [OF assms(1)])
  also have "\<dots> = pgd_index w 0 * 262144 + pgd_index w 1 * 512 + pgd_index w 2"
    unfolding p ..
  also have "\<dots> = unat w div 512"
    unfolding i by (rule path_digits [OF assms(2), symmetric])
  finally show "unat v div 512 = unat w div 512" .
next
  assume eq: "unat v div 512 = unat w div 512"
  have "pgd_index u j = unat u div 512 div 512 ^ (2 - j) mod 512" if "j < 3" for u j
  proof -
    have "(512 :: nat) ^ (3 - j) = 512 * 512 ^ (2 - j)"
      using that by (simp add: power_Suc [symmetric] Suc_diff_le numeral_3_eq_3 numeral_2_eq_2 del: power_Suc)
    then show ?thesis by (simp add: pgd_index_nat div_mult2_eq)
  qed
  then show "same_path 3 v w" using eq by (simp add: same_path_def)
qed

text \<open>The pages that a run of entries of one bottom table maps.\<close>

lemma run_of_table:
  fixes m n c :: nat
  assumes "m mod 512 + c \<le> 512"
  shows "n div 512 = m div 512 \<and> m mod 512 \<le> n mod 512 \<and> n mod 512 < m mod 512 + c \<longleftrightarrow> m \<le> n \<and> n < m + c"
proof
  assume a: "n div 512 = m div 512 \<and> m mod 512 \<le> n mod 512 \<and> n mod 512 < m mod 512 + c"
  have "n = n div 512 * 512 + n mod 512" "m = m div 512 * 512 + m mod 512" by simp_all
  then show "m \<le> n \<and> n < m + c" using a by linarith
next
  assume a: "m \<le> n \<and> n < m + c"
  then obtain k where k: "n = m + k" "k < c" by (metis add_less_cancel_left le_Suc_ex)
  have n: "n = (m mod 512 + k) + 512 * (m div 512)" using k by simp
  have less: "m mod 512 + k < 512" using k assms by simp
  have "n div 512 = m div 512 + (m mod 512 + k) div 512"
    by (subst n, rule div_mult_self2) simp
  moreover have "n mod 512 = (m mod 512 + k) mod 512"
    by (subst n, rule mod_mult_self2)
  ultimately have "n div 512 = m div 512" "n mod 512 = m mod 512 + k" using less by simp_all
  then show "n div 512 = m div 512 \<and> m mod 512 \<le> n mod 512 \<and> n mod 512 < m mod 512 + c"
    using k by simp
qed

lemma run_diff:
  fixes m n c :: nat
  assumes "n div 512 = m div 512"
  shows "n mod 512 - m mod 512 = n - m"
proof -
  have "n = n div 512 * 512 + n mod 512" "m = m div 512 * 512 + m mod 512" by simp_all
  then show ?thesis using assms by linarith
qed

lemma run_iff:
  assumes "unat v < 2 ^ 36" "unat w < 2 ^ 36" and "pgd_index v 3 + c \<le> 512"
  shows "same_path 3 w v \<and> pgd_index v 3 \<le> pgd_index w 3 \<and> pgd_index w 3 < pgd_index v 3 + c \<longleftrightarrow>
     unat v \<le> unat w \<and> unat w < unat v + c"
  using run_of_table [of "unat v" c "unat w"] assms by (simp add: pgd_index_3 same_path_3)

lemma run_index:
  assumes "unat v < 2 ^ 36" "unat w < 2 ^ 36" and "same_path 3 w v"
  shows "pgd_index w 3 - pgd_index v 3 = unat w - unat v"
  using run_diff [of "unat w" "unat v"] assms by (simp add: pgd_index_3 same_path_3)

lemma unat_add_small: "unat v + n < 2 ^ 64 \<Longrightarrow> unat (v + of_nat n :: u64) = unat v + n"
  by (simp add: unat_word_ariths unat_of_nat)

section \<open>Pools that serve one table\<close>

fun answer_pages :: "page_answer list \<Rightarrow> u64 list" where
  "answer_pages [] = []"
| "answer_pages (No_Page # as) = answer_pages as"
| "answer_pages (Unmappable_Page p # as) = p # answer_pages as"
| "answer_pages (Fresh_Page p # as) = p # answer_pages as"

text \<open>All pages that the pool has or can get.\<close>

definition stock :: "'i \<Rightarrow> 'i mem_state \<Rightarrow> u64 list" where
  "stock i m = page_list (pools m i) @ answer_pages (answers m)"

definition pool_ready :: "'i \<Rightarrow> 'i mem_state \<Rightarrow> bool" where
  "pool_ready i m \<longleftrightarrow> pool_next (pools m i) = None \<and> pool_order (pools m i) = 0 \<and>
     pool_size (pools m i) = length (page_list (pools m i)) \<and> distinct (stock i m)"

text \<open>What may have happened to the memory when pages were taken.\<close>

definition drawn :: "'i \<Rightarrow> 'i mem_state \<Rightarrow> 'i mem_state \<Rightarrow> bool" where
  "drawn i m m' \<longleftrightarrow> pool_ready i m' \<and> set (stock i m') \<subseteq> set (stock i m) \<and>
     mappable (page_mem m') = mappable (page_mem m) \<and>
     (\<forall>p. p \<notin> set (stock i m) \<longrightarrow> frames (page_mem m') p = frames (page_mem m) p)"

lemma drawn_trans: "drawn i m m' \<Longrightarrow> drawn i m' m'' \<Longrightarrow> drawn i m m''"
  unfolding drawn_def by (metis subset_iff)

lemma drawn_refl: "pool_ready i m \<Longrightarrow> drawn i m m"
  by (simp add: drawn_def)

lemma drawn_dont_reclaim: "pool_ready i m \<Longrightarrow> drawn i m (set_dont_reclaim i b m)"
  by (simp add: drawn_def pool_ready_def stock_def set_dont_reclaim_def upd_pool_def)

lemma drawn_shrink: "pool_ready i m \<Longrightarrow> drawn i m (snd (kbase_mem_pool_shrink_locked i n m))"
proof (induction n arbitrary: m)
  case 0
  then show ?case by (simp add: drawn_refl)
next
  case (Suc n)
  show ?case
  proof (cases "page_list (pools m i)")
    case Nil
    then show ?thesis using Suc.prems
      by (simp add: kbase_mem_pool_is_empty_def pool_ready_def drawn_refl)
  next
    case (Cons p ps)
    define m1 where "m1 = kbase_mem_pool_free_page i p (snd (kbase_mem_pool_remove_locked i m))"
    have m1: "drawn i m m1"
      using Suc.prems Cons
      by (auto simp: m1_def drawn_def pool_ready_def stock_def kbase_mem_pool_free_page_def
          kbase_mem_pool_remove_locked_def kbase_mem_pool_is_empty_def upd_pool_def)
    have "snd (kbase_mem_pool_shrink_locked i (Suc n) m) = snd (kbase_mem_pool_shrink_locked i n m1)"
      using Suc.prems Cons
      by (simp add: m1_def kbase_mem_pool_remove_locked_def kbase_mem_pool_is_empty_def pool_ready_def
          split: prod.split)
    then show ?thesis using Suc.IH [of m1] m1 drawn_trans by (auto simp: drawn_def)
  qed
qed

lemma drawn_take_page:
  assumes "pool_ready i m" and "answers m = Fresh_Page p # as \<or> answers m = Unmappable_Page p # as"
  shows "drawn i m (take_page p 0 (m\<lparr> answers := as \<rparr>))"
  using assms by (auto simp: drawn_def pool_ready_def stock_def take_page_def clear_page_def)

lemma alloc_page_drawn:
  assumes "pool_ready i m" and "kbase_mem_alloc_page i m = (r, m')"
  shows "case r of None \<Rightarrow> drawn i m m' | Some p \<Rightarrow> drawn i m (kbase_mem_pool_add_locked i p m')"
proof -
  have o: "pool_order (pools m i) = 0" using assms(1) by (simp add: pool_ready_def)
  show ?thesis
  proof (cases "answers m")
    case Nil
    then show ?thesis using assms by (auto simp: kbase_mem_alloc_page_def drawn_refl)
  next
    case (Cons a as)
    show ?thesis
    proof (cases a)
      case No_Page
      then show ?thesis using assms Cons
        by (auto simp: kbase_mem_alloc_page_def drawn_def pool_ready_def stock_def)
    next
      case (Unmappable_Page p)
      have "drawn i m (take_page p 0 (m\<lparr> answers := as \<rparr>))"
        by (rule drawn_take_page [OF assms(1)]) (simp add: Cons Unmappable_Page)
      then show ?thesis using assms(2) Cons Unmappable_Page o
        by (auto simp: kbase_mem_alloc_page_def drawn_def pool_ready_def stock_def Let_def)
    next
      case (Fresh_Page p)
      have "drawn i m (take_page p 0 (m\<lparr> answers := as \<rparr>))"
        by (rule drawn_take_page [OF assms(1)]) (simp add: Cons Fresh_Page)
      then show ?thesis using assms Cons Fresh_Page o
        by (auto simp: kbase_mem_alloc_page_def drawn_def pool_ready_def stock_def Let_def
            kbase_mem_pool_add_locked_def upd_pool_def take_page_def)
    qed
  qed
qed

lemma alloc_page_list:
  assumes "kbase_mem_alloc_page i m = (r, m')"
  shows "pools m' = pools m"
  using assms by (auto simp: kbase_mem_alloc_page_def take_page_def Let_def split: list.splits page_answer.splits)

lemma grow_loop_drawn:
  assumes "pool_ready i m" and "grow_loop i k n m = (r, m')"
  shows "drawn i m m' \<and> (r = 0 \<or> r = -12) \<and>
    (r = 0 \<longrightarrow> length (page_list (pools m' i)) = length (page_list (pools m i)) + n)"
  using assms
proof (induction n arbitrary: m)
  case 0
  then show ?case
    using drawn_dont_reclaim [of i m False] by (auto simp: set_dont_reclaim_def upd_pool_def)
next
  case (Suc n)
  show ?case
  proof (cases "dying (pools m i)")
    case True
    note d = drawn_dont_reclaim [OF Suc.prems(1), of False]
    have "drawn i m (snd (kbase_mem_pool_shrink_locked i k (set_dont_reclaim i False m)))"
      by (rule drawn_trans [OF d drawn_shrink]) (use d in \<open>simp add: drawn_def\<close>)
    then show ?thesis using Suc.prems(2) True by auto
  next
    case False
    obtain q m1 where q: "kbase_mem_alloc_page i m = (q, m1)" by fastforce
    note d = alloc_page_drawn [OF Suc.prems(1) q] and l = alloc_page_list [OF q]
    show ?thesis
    proof (cases q)
      case None
      have d1: "drawn i m m1" using d None by simp
      have "drawn i m (set_dont_reclaim i False m1)"
        by (rule drawn_trans [OF d1 drawn_dont_reclaim]) (use d1 in \<open>simp add: drawn_def\<close>)
      then show ?thesis using Suc.prems(2) False q None by auto
    next
      case (Some p)
      define m2 where "m2 = kbase_mem_pool_add_locked i p m1"
      have m2: "drawn i m m2" using d Some by (simp add: m2_def)
      have len: "length (page_list (pools m2 i)) = Suc (length (page_list (pools m i)))"
        by (simp add: m2_def kbase_mem_pool_add_locked_def upd_pool_def l)
      have "grow_loop i k n m2 = (r, m')" using Suc.prems(2) False q Some by (simp add: m2_def)
      then have "drawn i m2 m' \<and> (r = 0 \<or> r = -12) \<and>
          (r = 0 \<longrightarrow> length (page_list (pools m' i)) = length (page_list (pools m2 i)) + n)"
        using Suc.IH [of m2] m2 by (simp add: drawn_def)
      then show ?thesis using drawn_trans [OF m2] len by auto
    qed
  qed
qed

lemma grow_drawn:
  assumes "pool_ready i m" and "kbase_mem_pool_grow i n m = (r, m')"
  shows "drawn i m m' \<and> (r = 0 \<or> r = -12) \<and> (r = 0 \<longrightarrow> n \<le> length (page_list (pools m' i)))"
proof -
  define m0 where "m0 = set_dont_reclaim i True m"
  have m0: "drawn i m m0" using drawn_dont_reclaim [OF assms(1)] by (simp add: m0_def)
  have "grow_loop i n n m0 = (r, m')" using assms(2) by (simp add: kbase_mem_pool_grow_def m0_def)
  then have "drawn i m0 m' \<and> (r = 0 \<or> r = -12) \<and>
      (r = 0 \<longrightarrow> length (page_list (pools m' i)) = length (page_list (pools m0 i)) + n)"
    by (rule grow_loop_drawn [rotated]) (use m0 in \<open>simp add: drawn_def\<close>)
  then show ?thesis using drawn_trans [OF m0] by auto
qed

lemma alloc_from_ready:
  assumes "pool_ready i m"
  shows "(page_list (pools m i) = [] \<longrightarrow> kbase_mem_pool_alloc i m = Some (None, m)) \<and>
    (\<forall>p ps. page_list (pools m i) = p # ps \<longrightarrow>
       kbase_mem_pool_alloc i m = Some (Some p, upd_pool i (\<lambda>q. q\<lparr> page_list := ps, pool_size := length ps \<rparr>) m))"
  using assms
  by (auto simp: kbase_mem_pool_alloc.simps [of i m] kbase_mem_pool_remove_def kbase_mem_pool_remove_locked_def
      kbase_mem_pool_is_empty_def pool_ready_def upd_pool_def split: option.splits)

end
