(* ===== verification/KB_MmuWalk.thy ===== *)
theory KB_MmuWalk
  imports KB_MmuMap
begin

text \<open>
  The page table of the driver as a map from pages to entries: the invariant of the tables and of
  the pool they come from, and what the walks do to them. A walk that makes tables changes no
  mapping, and it fails only when no page can be had.
\<close>

section \<open>Tables and mappings\<close>

primrec table_at :: "kbase_mmu_mode \<Rightarrow> u64 \<Rightarrow> 'i mmu_mem \<Rightarrow> u64 \<Rightarrow> nat \<Rightarrow> u64 option" where
  "table_at mode root s v 0 = Some root"
| "table_at mode root s v (Suc l) =
     (case table_at mode root s v l of
        None \<Rightarrow> None
      | Some t \<Rightarrow> table_entry mode l (get_entry s t (pgd_index v l)))"

definition mapped_entry :: "kbase_mmu_mode \<Rightarrow> u64 \<Rightarrow> 'i mmu_mem \<Rightarrow> u64 \<Rightarrow> u64 option" where
  "mapped_entry mode root s v =
     (case table_at mode root s v 3 of
        None \<Rightarrow> None
      | Some t \<Rightarrow>
          (let e = get_entry s t (pgd_index v 3) in if ate_is_valid mode e 3 then Some e else None))"

definition usable :: "'i mmu_mem \<Rightarrow> u64 \<Rightarrow> bool" where
  "usable s p \<longleftrightarrow> page_aligned p \<and> p \<noteq> 0 \<and> kmap_ok s p"

text \<open>The entries of a table of level \<open>l\<close> in a table without 2 MB pages.\<close>

definition entry_ok :: "kbase_mmu_mode \<Rightarrow> 'i mmu_mem \<Rightarrow> nat \<Rightarrow> u64 \<Rightarrow> bool" where
  "entry_ok mode s l e \<longleftrightarrow>
     e = entry_invalidate mode \<or>
     (if l < 3 then \<exists>p. usable s p \<and> e = entry_set_pte mode p
      else \<exists>phy fl. e = entry_set_ate mode phy fl 3)"

text \<open>Every table that can be reached is in order, and is reached on one path only.\<close>

definition table_wf :: "kbase_mmu_mode \<Rightarrow> u64 \<Rightarrow> 'i mmu_mem \<Rightarrow> bool" where
  "table_wf mode root s \<longleftrightarrow>
     (\<forall>v l t. l \<le> 3 \<longrightarrow> table_at mode root s v l = Some t \<longrightarrow>
        usable s t \<and> (\<forall>i < 512. entry_ok mode s l (get_entry s t i))) \<and>
     (\<forall>v w l k t. l \<le> 3 \<longrightarrow> k \<le> 3 \<longrightarrow> table_at mode root s v l = Some t \<longrightarrow>
        table_at mode root s w k = Some t \<longrightarrow> l = k \<and> same_path l v w)"

text \<open>The pages the pool can give are not in use as tables.\<close>

definition stock_wf :: "kbase_mmu_mode \<Rightarrow> u64 \<Rightarrow> 'i \<Rightarrow> 'i mmu_mem \<Rightarrow> bool" where
  "stock_wf mode root i s \<longleftrightarrow>
     pool_ready i (mm s) \<and>
     (\<forall>p \<in> set (stock i (mm s)). usable s p \<and> (\<forall>v l. l \<le> 3 \<longrightarrow> table_at mode root s v l \<noteq> Some p))"

definition mmu_inv :: "kbase_mmu_mode \<Rightarrow> 'i mmu_table \<Rightarrow> 'i mmu_mem \<Rightarrow> bool" where
  "mmu_inv mode mmut s \<longleftrightarrow> table_wf mode (mt_pgd mmut) s \<and> stock_wf mode (mt_pgd mmut) (mt_pool mmut) s"

section \<open>Facts about the tables\<close>

lemma table_wfD:
  assumes "table_wf mode root s" and "table_at mode root s v l = Some t" and "l \<le> 3"
  shows "usable s t" and "i < 512 \<Longrightarrow> entry_ok mode s l (get_entry s t i)"
    and "table_at mode root s w k = Some t \<Longrightarrow> k \<le> 3 \<Longrightarrow> l = k \<and> same_path l v w"
  using assms unfolding table_wf_def by blast+

lemma table_at_same_path: "same_path l v w \<Longrightarrow> table_at mode root s v l = table_at mode root s w l"
  by (induction l) (simp_all split: option.split)

lemma table_at_prefix:
  "table_at mode root s v l = Some t \<Longrightarrow> k \<le> l \<Longrightarrow> \<exists>t'. table_at mode root s v k = Some t'"
  by (induction l arbitrary: t) (auto simp: le_Suc_eq split: option.splits)

lemma table_at_cong:
  assumes "\<And>j t. j < k \<Longrightarrow> table_at mode root s w j = Some t \<Longrightarrow>
      get_entry s' t (pgd_index w j) = get_entry s t (pgd_index w j)"
  shows "table_at mode root s' w k = table_at mode root s w k"
  using assms by (induction k) (auto split: option.split)

lemma usable_cong: "mappable (page_mem (mm s')) = mappable (page_mem (mm s)) \<Longrightarrow> usable s' p = usable s p"
  by (simp add: usable_def kmap_ok_def)

lemma entry_ok_cong:
  "mappable (page_mem (mm s')) = mappable (page_mem (mm s)) \<Longrightarrow> entry_ok mode s' l e = entry_ok mode s l e"
  by (simp add: entry_ok_def usable_cong [of s' s])

lemma usable_aligned: "usable s p \<Longrightarrow> p AND PAGE_MASK = p"
  by (simp add: usable_def and_mask_page)

text \<open>
  What a step that takes pages and makes tables leaves: the invariant, the mappings and the tables
  that were there.
\<close>

definition extends :: "kbase_mmu_mode \<Rightarrow> 'i mmu_table \<Rightarrow> 'i mmu_mem \<Rightarrow> 'i mmu_mem \<Rightarrow> bool" where
  "extends mode mmut s s' \<longleftrightarrow> mmu_inv mode mmut s' \<and>
     (\<forall>w. mapped_entry mode (mt_pgd mmut) s' w = mapped_entry mode (mt_pgd mmut) s w) \<and>
     (\<forall>w k t. k \<le> 3 \<longrightarrow> table_at mode (mt_pgd mmut) s w k = Some t \<longrightarrow> table_at mode (mt_pgd mmut) s' w k = Some t)"

lemma extends_refl: "mmu_inv mode mmut s \<Longrightarrow> extends mode mmut s s"
  by (simp add: extends_def)

lemma extends_trans: "extends mode mmut s s' \<Longrightarrow> extends mode mmut s' s'' \<Longrightarrow> extends mode mmut s s''"
  by (simp add: extends_def)

text \<open>Taking pages leaves the tables as they are.\<close>

lemma drawn_extends:
  assumes inv: "mmu_inv mode mmut s" and d: "drawn (mt_pool mmut) (mm s) (mm s')"
  shows "extends mode mmut s s'"
proof -
  let ?root = "mt_pgd mmut"
  have wf: "table_wf mode ?root s" and st: "stock_wf mode ?root (mt_pool mmut) s"
    using inv by (simp_all add: mmu_inv_def)
  have mp: "mappable (page_mem (mm s')) = mappable (page_mem (mm s))" using d by (simp add: drawn_def)
  have e: "get_entry s' t i = get_entry s t i" if "table_at mode ?root s w k = Some t" "k \<le> 3" for w k t i
  proof -
    have "t \<notin> set (stock (mt_pool mmut) (mm s))" using st that by (auto simp: stock_wf_def)
    moreover have "t AND PAGE_MASK = t" using table_wfD(1) [OF wf that] by (rule usable_aligned)
    ultimately show ?thesis using d by (simp add: get_entry_def drawn_def)
  qed
  have t: "table_at mode ?root s' w k = table_at mode ?root s w k" if "k \<le> 3" for w k
    by (rule table_at_cong) (use e that in \<open>meson le_trans less_imp_le\<close>)
  have wf': "table_wf mode ?root s'"
    using wf unfolding table_wf_def by (simp add: t e usable_cong [OF mp] entry_ok_cong [OF mp])
  have st': "stock_wf mode ?root (mt_pool mmut) s'"
    using st d unfolding stock_wf_def drawn_def by (auto simp: t usable_cong [OF mp])
  have m: "mapped_entry mode ?root s' w = mapped_entry mode ?root s w" for w
    using e [of w 3] by (simp add: mapped_entry_def t split: option.split)
  show ?thesis using wf' st' m t by (simp add: extends_def mmu_inv_def)
qed

text \<open>
  A page \<open>p\<close> of the stock is hung, with invalid entries, into the free place of the table \<open>tab\<close>
  on the path of \<open>v\<close>; \<open>s'\<close> is the state after it.
\<close>

definition hangs ::
  "kbase_mmu_mode \<Rightarrow> 'i mmu_table \<Rightarrow> 'i mmu_mem \<Rightarrow> u64 \<Rightarrow> nat \<Rightarrow> u64 \<Rightarrow> u64 \<Rightarrow> 'i mmu_mem \<Rightarrow> bool" where
  "hangs mode mmut s v l tab p s' \<longleftrightarrow>
     mmu_inv mode mmut s \<and> table_at mode (mt_pgd mmut) s v l = Some tab \<and> l < 3 \<and>
     p \<in> set (stock (mt_pool mmut) (mm s)) \<and> get_entry s tab (pgd_index v l) = entry_invalidate mode \<and>
     (\<forall>q i. usable s q \<longrightarrow> i < 512 \<longrightarrow> get_entry s' q i =
        (if q = tab \<and> i = pgd_index v l then entry_set_pte mode p
         else if q = p then entry_invalidate mode else get_entry s q i)) \<and>
     mappable (page_mem (mm s')) = mappable (page_mem (mm s)) \<and> pool_ready (mt_pool mmut) (mm s') \<and>
     set (stock (mt_pool mmut) (mm s')) \<subseteq> set (stock (mt_pool mmut) (mm s)) - {p}"

lemma hangsD:
  assumes "hangs mode mmut s v l tab p s'"
  shows "mmu_inv mode mmut s" "table_at mode (mt_pgd mmut) s v l = Some tab" "l < 3"
    and "table_wf mode (mt_pgd mmut) s" "usable s p" "usable s tab"
    and "usable s q \<Longrightarrow> i < 512 \<Longrightarrow> get_entry s' q i =
        (if q = tab \<and> i = pgd_index v l then entry_set_pte mode p
         else if q = p then entry_invalidate mode else get_entry s q i)"
    and "usable s' q = usable s q" "entry_ok mode s' k e = entry_ok mode s k e"
proof -
  note d = assms [unfolded hangs_def]
  show "mmu_inv mode mmut s" "table_at mode (mt_pgd mmut) s v l = Some tab" "l < 3" using d by simp_all
  show "usable s p" using d by (simp add: mmu_inv_def stock_wf_def)
  show wf: "table_wf mode (mt_pgd mmut) s" using d by (simp add: mmu_inv_def)
  show "usable s tab" using table_wfD(1) [OF wf, of v l tab] d by simp
  show "get_entry s' q i = (if q = tab \<and> i = pgd_index v l then entry_set_pte mode p
      else if q = p then entry_invalidate mode else get_entry s q i)" if "usable s q" "i < 512"
    using d that by blast
  show "usable s' q = usable s q" "entry_ok mode s' k e = entry_ok mode s k e"
    using d usable_cong [of s' s] entry_ok_cong [of s' s] by simp_all
qed

text \<open>The new table is no table of the old state, and its place was free.\<close>

lemma hangs_new:
  assumes h: "hangs mode mmut s v l tab p s'" and "k \<le> 3"
  shows "table_at mode (mt_pgd mmut) s w k \<noteq> Some p"
  using assms unfolding hangs_def mmu_inv_def stock_wf_def by blast

lemma hangs_other: "hangs mode mmut s v l tab p s' \<Longrightarrow> p \<noteq> tab"
  using hangs_new [of mode mmut s v l tab p s' l v] hangsD(2,3) [of mode mmut s v l tab p s'] by auto

lemma hangs_level:
  assumes h: "hangs mode mmut s v l tab p s'" and "table_at mode (mt_pgd mmut) s w k = Some tab" and "k \<le> 3"
  shows "k = l \<and> same_path l w v"
  using table_wfD(3) [OF hangsD(4) [OF h] assms(2,3) hangsD(2) [OF h]] hangsD(3) [OF h] by auto

context entry_codec
begin

lemma table_entry_inval [simp]: "table_entry mode l (entry_invalidate mode) = None"
  by (simp add: table_entry_def inval_addr)

lemma table_entry_pte: "l < 3 \<Longrightarrow> usable s p \<Longrightarrow> table_entry mode l (entry_set_pte mode p) = Some p"
  by (simp add: table_entry_def usable_def pte_addr pte_valid)

lemma entry_cases:
  assumes "entry_ok mode s l e" and "l < 3"
  obtains "e = entry_invalidate mode" "table_entry mode l e = None" "pte_to_phy_addr mode e = 0"
      "\<not> ate_is_valid mode e l" "\<not> pte_is_valid mode e l"
    | p where "usable s p" "e = entry_set_pte mode p" "table_entry mode l e = Some p" "pte_to_phy_addr mode e = p"
      "\<not> ate_is_valid mode e l" "pte_is_valid mode e l"
proof (cases "e = entry_invalidate mode")
  case True
  then show ?thesis using that(1) by (simp add: inval_addr inval_not_ate inval_not_pte)
next
  case False
  then obtain p where p: "usable s p" "e = entry_set_pte mode p"
    using assms by (auto simp: entry_ok_def)
  then have a: "page_aligned p" by (simp add: usable_def)
  show ?thesis using that(2) [of p] p table_entry_pte [OF assms(2) p(1)] walk_step [OF a, of l] assms(2) by simp
qed

section \<open>A new table\<close>

lemma hangs_at:
  assumes h: "hangs mode mmut s v l tab p s'" and k: "k \<le> 3"
  shows "table_at mode (mt_pgd mmut) s' w k =
    (if k \<le> l \<or> \<not> same_path (Suc l) w v then table_at mode (mt_pgd mmut) s w k
     else if k = Suc l then Some p else None)"
  using k
proof (induction k)
  case 0
  show ?case by simp
next
  case (Suc k)
  let ?root = "mt_pgd mmut"
  note e = hangsD(7) [OF h]
  have old: "table_at mode ?root s' w (Suc k) = table_at mode ?root s w (Suc k)"
    if same: "table_at mode ?root s' w k = table_at mode ?root s w k"
      and other: "\<And>t. table_at mode ?root s w k = Some t \<Longrightarrow> \<not> (t = tab \<and> pgd_index w k = pgd_index v l)"
  proof (cases "table_at mode ?root s w k")
    case None
    then show ?thesis using same by simp
  next
    case (Some t)
    have "usable s t" using table_wfD(1) [OF hangsD(4) [OF h] Some] Suc.prems by simp
    then have "get_entry s' t (pgd_index w k) = get_entry s t (pgd_index w k)"
      using e [of t] other [OF Some] hangs_new [OF h, of k w] Some Suc.prems by auto
    then show ?thesis using Some same by simp
  qed
  show ?case
  proof (cases "k < l \<or> \<not> same_path (Suc l) w v")
    case True
    have same: "table_at mode ?root s' w k = table_at mode ?root s w k"
      using Suc True by (auto simp del: table_at.simps)
    have "table_at mode ?root s' w (Suc k) = table_at mode ?root s w (Suc k)"
      by (rule old [OF same]) (use hangs_level [OF h, of w k] Suc.prems True in auto)
    then show ?thesis using True by (auto simp del: table_at.simps)
  next
    case False
    show ?thesis
    proof (cases "k = l")
      case True
      have "table_at mode ?root s' w k = Some tab"
        using Suc True False hangsD(2) [OF h] table_at_same_path [of l w v mode ?root s] by simp
      moreover have "get_entry s' tab (pgd_index w k) = entry_set_pte mode p"
        using e [OF hangsD(6) [OF h]] True False by simp
      ultimately show ?thesis using True False table_entry_pte [OF hangsD(3,5) [OF h]] by simp
    next
      case kl: False
      have "table_at mode ?root s' w k = (if k = Suc l then Some p else None)"
        using Suc False kl by simp
      moreover have "get_entry s' p (pgd_index w k) = entry_invalidate mode"
        using e [OF hangsD(5) [OF h]] hangs_other [OF h] by simp
      ultimately show ?thesis using False kl by (cases "k = Suc l") auto
    qed
  qed
qed

lemma hangs_cases:
  assumes h: "hangs mode mmut s v l tab p s'" and "table_at mode (mt_pgd mmut) s' w k = Some t" and "k \<le> 3"
  shows "table_at mode (mt_pgd mmut) s w k = Some t \<or> (t = p \<and> k = Suc l \<and> same_path (Suc l) w v)"
  using assms(2) hangs_at [OF h assms(3), of w] by (auto split: if_splits simp del: table_at.simps)

lemma hangs_hole:
  assumes h: "hangs mode mmut s v l tab p s'" and "same_path (Suc l) w v" and "Suc l \<le> k"
  shows "table_at mode (mt_pgd mmut) s w k = None"
proof (rule ccontr)
  assume "table_at mode (mt_pgd mmut) s w k \<noteq> None"
  then obtain t where "table_at mode (mt_pgd mmut) s w (Suc l) = Some t" using table_at_prefix assms(3) by blast
  moreover have "table_at mode (mt_pgd mmut) s w l = Some tab"
    using table_at_same_path [of l w v mode "mt_pgd mmut" s] assms(2) hangsD(2) [OF h] by simp
  ultimately show False using assms(1,2) by (simp add: hangs_def)
qed

lemma hangs_keep:
  assumes h: "hangs mode mmut s v l tab p s'" and "table_at mode (mt_pgd mmut) s w k = Some t" and "k \<le> 3"
  shows "table_at mode (mt_pgd mmut) s' w k = Some t"
  using hangs_at [OF h assms(3), of w] hangs_hole [OF h, of w k] assms(2) by (auto simp del: table_at.simps)

lemma hangs_entries:
  assumes h: "hangs mode mmut s v l tab p s'" and t: "table_at mode (mt_pgd mmut) s' w k = Some t" "k \<le> 3"
    and i: "i < 512"
  shows "usable s t" and "entry_ok mode s k (get_entry s' t i)"
proof -
  note e = hangsD(7) [OF h]
  from hangs_cases [OF h t] consider (old) "table_at mode (mt_pgd mmut) s w k = Some t" | (new) "t = p" by blast
  then have "usable s t \<and> entry_ok mode s k (get_entry s' t i)"
  proof cases
    case old
    note w = table_wfD(1,2) [OF hangsD(4) [OF h] old t(2)]
    have "t \<noteq> p" using hangs_new [OF h t(2)] old by blast
    moreover have "k = l" if "t = tab" using hangs_level [OF h _ t(2)] old that by blast
    ultimately show ?thesis
      using w(1) w(2) [OF i] e [OF w(1) i] hangsD(3,5) [OF h] by (auto simp: entry_ok_def)
  next
    case new
    then show ?thesis
      using e [OF hangsD(5) [OF h] i] hangs_other [OF h] hangsD(5) [OF h] by (simp add: entry_ok_def)
  qed
  then show "usable s t" and "entry_ok mode s k (get_entry s' t i)" by simp_all
qed

lemma hangs_inv:
  assumes h: "hangs mode mmut s v l tab p s'"
  shows "mmu_inv mode mmut s'"
proof -
  let ?T = "table_at mode (mt_pgd mmut)"
  have one: "k = j \<and> same_path k w u" if t: "?T s' w k = Some t" "?T s' u j = Some t" "k \<le> 3" "j \<le> 3" for w u k j t
  proof (cases "t = p")
    case False
    then have "?T s w k = Some t" "?T s u j = Some t"
      using hangs_cases [OF h t(1,3)] hangs_cases [OF h t(2,4)] by simp_all
    then show ?thesis using table_wfD(3) [OF hangsD(4) [OF h]] t(3,4) by blast
  next
    case True
    then have "k = Suc l" "j = Suc l" "same_path (Suc l) w v" "same_path (Suc l) u v"
      using hangs_cases [OF h t(1,3)] hangs_cases [OF h t(2,4)] hangs_new [OF h t(3)] hangs_new [OF h t(4)] by blast+
    then show ?thesis using same_path_trans [OF _ same_path_sym] by blast
  qed
  have "usable s t \<and> (\<forall>i < 512. entry_ok mode s k (get_entry s' t i))" if "?T s' w k = Some t" "k \<le> 3" for w k t
    using hangs_entries [OF h that] zero_less_numeral by blast
  then have "table_wf mode (mt_pgd mmut) s'"
    using one unfolding table_wf_def hangsD(8,9) [OF h] by blast
  moreover have "?T s' w k \<noteq> Some q" if "q \<in> set (stock (mt_pool mmut) (mm s'))" "k \<le> 3" for q w k
    using hangs_cases [OF h, of w k q] that h unfolding hangs_def mmu_inv_def stock_wf_def by blast
  then have "stock_wf mode (mt_pgd mmut) (mt_pool mmut) s'"
    using h unfolding stock_wf_def hangsD(8) [OF h] by (auto simp: hangs_def mmu_inv_def stock_wf_def simp del: table_at.simps)
  ultimately show ?thesis by (simp add: mmu_inv_def)
qed

lemma hangs_mapped:
  assumes h: "hangs mode mmut s v l tab p s'"
  shows "mapped_entry mode (mt_pgd mmut) s' w = mapped_entry mode (mt_pgd mmut) s w"
proof (cases "same_path (Suc l) w v")
  case False
  have t3: "table_at mode (mt_pgd mmut) s' w 3 = table_at mode (mt_pgd mmut) s w 3"
    using hangs_at [OF h, of 3 w] False by simp
  show ?thesis
  proof (cases "table_at mode (mt_pgd mmut) s w 3")
    case (Some t)
    have "t \<noteq> tab" using hangs_level [OF h, of w 3] hangsD(3) [OF h] Some by auto
    moreover have "t \<noteq> p" using hangs_new [OF h, of 3 w] Some by auto
    ultimately show ?thesis
      using hangsD(7) [OF h, of t] table_wfD(1) [OF hangsD(4) [OF h] Some] t3 Some by (simp add: mapped_entry_def)
  qed (simp add: mapped_entry_def t3)
next
  case True
  have o: "mapped_entry mode (mt_pgd mmut) s w = None"
    using hangs_hole [OF h True, of 3] hangsD(3) [OF h] by (simp add: mapped_entry_def)
  have "\<not> ate_is_valid mode (get_entry s' p (pgd_index w 3)) 3"
    using hangsD(7) [OF h hangsD(5) [OF h]] hangs_other [OF h] by (simp add: inval_not_ate)
  then show ?thesis using hangs_at [OF h, of 3 w] True hangsD(3) [OF h] o by (simp add: mapped_entry_def)
qed

lemma hangs_extends:
  assumes h: "hangs mode mmut s v l tab p s'"
  shows "extends mode mmut s s'" and "table_at mode (mt_pgd mmut) s' v (Suc l) = Some p"
proof -
  show "extends mode mmut s s'"
    unfolding extends_def using hangs_inv [OF h] hangs_mapped [OF h] hangs_keep [OF h] by blast
  show "table_at mode (mt_pgd mmut) s' v (Suc l) = Some p"
    using hangs_at [OF h, of "Suc l" v] hangsD(3) [OF h] by (simp del: table_at.simps)
qed

section \<open>The walks\<close>

abbreviation "free_pages mmut s \<equiv> length (page_list (pools (mm s) (mt_pool mmut)))"

lemma alloc_pgd_ready:
  assumes r: "pool_ready (mt_pool mmut) (mm s)" and u: "\<And>p. p \<in> set (stock (mt_pool mmut) (mm s)) \<Longrightarrow> usable s p"
  shows "page_list (pools (mm s) (mt_pool mmut)) = [] \<Longrightarrow> kbase_mmu_alloc_pgd mode mmut s = Some (0, s)"
    and "page_list (pools (mm s) (mt_pool mmut)) = p # ps \<Longrightarrow>
      \<exists>s1. kbase_mmu_alloc_pgd mode mmut s = Some (p, s1) \<and> p \<in> set (stock (mt_pool mmut) (mm s)) \<and>
        (\<forall>q i. q AND PAGE_MASK = q \<longrightarrow> i < 512 \<longrightarrow>
           get_entry s1 q i = (if q = p then entry_invalidate mode else get_entry s q i)) \<and>
        mappable (page_mem (mm s1)) = mappable (page_mem (mm s)) \<and> pool_ready (mt_pool mmut) (mm s1) \<and>
        set (stock (mt_pool mmut) (mm s1)) \<subseteq> set (stock (mt_pool mmut) (mm s)) - {p} \<and>
        page_list (pools (mm s1) (mt_pool mmut)) = ps"
proof -
  let ?i = "mt_pool mmut"
  note al = alloc_from_ready [OF r]
  show "kbase_mmu_alloc_pgd mode mmut s = Some (0, s)" if "page_list (pools (mm s) ?i) = []"
    using al that by (simp add: kbase_mmu_alloc_pgd_def)
  assume pl: "page_list (pools (mm s) ?i) = p # ps"
  define m where "m = upd_pool ?i (\<lambda>q. q\<lparr> page_list := ps, pool_size := length ps \<rparr>) (mm s)"
  have p: "p \<in> set (stock ?i (mm s))" using pl by (simp add: stock_def)
  then have up: "usable s p" by (rule u)
  have mm: "pools m ?i = (pools (mm s) ?i)\<lparr> page_list := ps, pool_size := length ps \<rparr>"
    "answers m = answers (mm s)" "page_mem m = page_mem (mm s)"
    by (simp_all add: m_def upd_pool_def)
  have k: "kmap_ok (s\<lparr> mm := m \<rparr>) p" using up by (simp add: usable_def kmap_ok_def mm)
  obtain s2 where s2: "kbase_mmu_alloc_pgd mode mmut s =
      Some (p, put_entries_at p 0 (replicate 512 (entry_invalidate mode)) s2)" "mm s2 = m"
    using al pl k by (auto simp: kbase_mmu_alloc_pgd_def m_def [symmetric] Let_def account_def)
  have "get_entry s2 q i = get_entry s q i" for q i by (simp add: get_entry_def s2(2) mm)
  moreover have "stock ?i (mm s) = p # stock ?i m" using pl by (simp add: stock_def mm)
  ultimately show "\<exists>s1. kbase_mmu_alloc_pgd mode mmut s = Some (p, s1) \<and> p \<in> set (stock ?i (mm s)) \<and>
        (\<forall>q i. q AND PAGE_MASK = q \<longrightarrow> i < 512 \<longrightarrow>
           get_entry s1 q i = (if q = p then entry_invalidate mode else get_entry s q i)) \<and>
        mappable (page_mem (mm s1)) = mappable (page_mem (mm s)) \<and> pool_ready ?i (mm s1) \<and>
        set (stock ?i (mm s1)) \<subseteq> set (stock ?i (mm s)) - {p} \<and>
        page_list (pools (mm s1) ?i) = ps"
    using r p s2 usable_aligned [OF up] mm
    by (auto simp: get_entry_put_entries_at stock_def pool_ready_def)
qed

lemma next_pgd_extends:
  assumes inv: "mmu_inv mode mmut s" and tab: "table_at mode (mt_pgd mmut) s v l = Some tab" and l: "l < 3"
  shows "\<exists>err t s'. mmu_get_next_pgd mode mmut tab v l s = Some (err, t, s') \<and> extends mode mmut s s' \<and>
    (err = 0 \<and> table_at mode (mt_pgd mmut) s' v (Suc l) = Some t \<and> free_pages mmut s \<le> Suc (free_pages mmut s') \<or>
     err = -12 \<and> free_pages mmut s = 0)"
proof -
  let ?e = "get_entry s tab (pgd_index v l)"
  have wf: "table_wf mode (mt_pgd mmut) s" using inv by (simp add: mmu_inv_def)
  have ut: "usable s tab" and ok: "entry_ok mode s l ?e"
    using table_wfD(1,2) [OF wf tab] l by simp_all
  have k: "kmap_ok s tab" using ut by (simp add: usable_def)
  have r: "pool_ready (mt_pool mmut) (mm s)" and u: "\<And>p. p \<in> set (stock (mt_pool mmut) (mm s)) \<Longrightarrow> usable s p"
    using inv by (simp_all add: mmu_inv_def stock_wf_def)
  from ok l show ?thesis
  proof (cases rule: entry_cases)
    case (2 p)
    then have "mmu_get_next_pgd mode mmut tab v l s = Some (0, p, s)"
      using k by (simp add: mmu_get_next_pgd_def usable_def)
    moreover have "table_at mode (mt_pgd mmut) s v (Suc l) = Some p" using tab 2 by simp
    ultimately show ?thesis using extends_refl [OF inv] by simp
  next
    case 1
    show ?thesis
    proof (cases "page_list (pools (mm s) (mt_pool mmut))")
      case Nil
      then have "mmu_get_next_pgd mode mmut tab v l s = Some (-12, tab, s)"
        using k 1 alloc_pgd_ready(1) [OF r u] by (simp add: mmu_get_next_pgd_def)
      then show ?thesis using extends_refl [OF inv] Nil by simp
    next
      case (Cons p ps)
      obtain s1 where s1: "kbase_mmu_alloc_pgd mode mmut s = Some (p, s1)" "p \<in> set (stock (mt_pool mmut) (mm s))"
        "\<And>q i. q AND PAGE_MASK = q \<Longrightarrow> i < 512 \<Longrightarrow>
           get_entry s1 q i = (if q = p then entry_invalidate mode else get_entry s q i)"
        "mappable (page_mem (mm s1)) = mappable (page_mem (mm s))" "pool_ready (mt_pool mmut) (mm s1)"
        "set (stock (mt_pool mmut) (mm s1)) \<subseteq> set (stock (mt_pool mmut) (mm s)) - {p}"
        "page_list (pools (mm s1) (mt_pool mmut)) = ps"
        using alloc_pgd_ready(2) [OF r u Cons] by blast
      define s' where "s' = put_entry tab (pgd_index v l) (entry_set_pte mode p) s1"
      have p0: "p \<noteq> 0" using inv s1(2) by (auto simp: mmu_inv_def stock_wf_def usable_def)
      then have r: "mmu_get_next_pgd mode mmut tab v l s = Some (0, p, s')"
        using k 1 s1(1) by (simp add: mmu_get_next_pgd_def s'_def)
      have e: "get_entry s' q i = (if q = tab \<and> i = pgd_index v l then entry_set_pte mode p
         else if q = p then entry_invalidate mode else get_entry s q i)" if "usable s q" "i < 512" for q i
        using that s1(3) [of q i] usable_aligned [OF that(1)] usable_aligned [OF ut]
        by (auto simp: s'_def get_entry_put_entry)
      have mm: "pools (mm s') = pools (mm s1)" "answers (mm s') = answers (mm s1)"
        "mappable (page_mem (mm s')) = mappable (page_mem (mm s1))"
        by (simp_all add: s'_def)
      then have "pool_ready (mt_pool mmut) (mm s')" "stock (mt_pool mmut) (mm s') = stock (mt_pool mmut) (mm s1)"
        using s1(5) by (simp_all add: pool_ready_def stock_def)
      then have "extends mode mmut s s' \<and> table_at mode (mt_pgd mmut) s' v (Suc l) = Some p"
        by (intro conjI hangs_extends [of mmut s v l tab p s']; unfold hangs_def)
          (use inv tab l s1(2,4,6) 1(1) e mm in simp_all)
      then show ?thesis using r mm s1(7) Cons by simp
    qed
  qed
qed

lemma walk_tables_extends:
  assumes "mmu_inv mode mmut s" and "table_at mode (mt_pgd mmut) s v l = Some tab" and "l + n \<le> 3"
  shows "\<exists>err t s'. walk_tables mode mmut v l n tab s = Some (err, t, s') \<and> extends mode mmut s s' \<and>
    (err = 0 \<and> table_at mode (mt_pgd mmut) s' v (l + n) = Some t \<or> err = -12 \<and> free_pages mmut s < n)"
  using assms
proof (induction n arbitrary: s l tab)
  case 0
  then show ?case by (simp add: extends_refl)
next
  case (Suc n)
  obtain err t s1 where n: "mmu_get_next_pgd mode mmut tab v l s = Some (err, t, s1)" "extends mode mmut s s1"
    "err = 0 \<and> table_at mode (mt_pgd mmut) s1 v (Suc l) = Some t \<and> free_pages mmut s \<le> Suc (free_pages mmut s1) \<or>
     err = -12 \<and> free_pages mmut s = 0"
    using next_pgd_extends [OF Suc.prems(1,2)] Suc.prems(3) by auto
  show ?case
  proof (cases "err = 0")
    case False
    then show ?thesis using n by auto
  next
    case True
    then have n0: "table_at mode (mt_pgd mmut) s1 v (Suc l) = Some t" "free_pages mmut s \<le> Suc (free_pages mmut s1)"
      using n(3) by auto
    have i1: "mmu_inv mode mmut s1" using n(2) by (simp add: extends_def)
    obtain err' t' s' where w: "walk_tables mode mmut v (Suc l) n t s1 = Some (err', t', s')" "extends mode mmut s1 s'"
      "err' = 0 \<and> table_at mode (mt_pgd mmut) s' v (Suc l + n) = Some t' \<or> err' = -12 \<and> free_pages mmut s1 < n"
      using Suc.IH [OF i1 n0(1)] Suc.prems(3) by auto
    have "walk_tables mode mmut v l (Suc n) tab s = Some (err', t', s')" using n(1) True w(1) by simp
    moreover have "extends mode mmut s s'" using extends_trans n(2) w(2) by blast
    ultimately show ?thesis using w(3) n0(2) by auto
  qed
qed

text \<open>The walk with its loop: it succeeds in the first or the second round, or no page can be had.\<close>

lemma get_pgd_grow_extends:
  assumes inv: "mmu_inv mode mmut s" and l: "level \<le> 3"
  shows "\<exists>err t s'. get_pgd_grow mode mmut v level s = Some (err, t, s') \<and> extends mode mmut s s' \<and>
    (err = 0 \<and> table_at mode (mt_pgd mmut) s' v level = Some t \<or> err = -12)"
proof -
  obtain err t s1 where w: "mmu_get_pgd_at_level mode mmut v level s = Some (err, t, s1)" "extends mode mmut s s1"
    "err = 0 \<and> table_at mode (mt_pgd mmut) s1 v level = Some t \<or> err = -12"
    using walk_tables_extends [OF inv, of v 0 "mt_pgd mmut" level] l by (auto simp: mmu_get_pgd_at_level_def)
  show ?thesis
  proof (cases "err = 0")
    case True
    then show ?thesis using w get_pgd_grow.simps [of mode mmut v level s] by auto
  next
    case False
    obtain r m where g: "kbase_mem_pool_grow (mt_pool mmut) level (mm s1) = (r, m)" by fastforce
    have i1: "mmu_inv mode mmut s1" using w(2) by (simp add: extends_def)
    have d: "drawn (mt_pool mmut) (mm s1) m" "r = 0 \<or> r = -12"
      "r = 0 \<Longrightarrow> level \<le> length (page_list (pools m (mt_pool mmut)))"
      using grow_drawn [OF _ g] i1 by (auto simp: mmu_inv_def stock_wf_def)
    define s2 where "s2 = s1\<lparr> mm := m \<rparr>"
    have e2: "extends mode mmut s s2"
      using extends_trans [OF w(2) drawn_extends [OF i1]] d(1) by (simp add: s2_def)
    have u: "get_pgd_grow mode mmut v level s =
        (if r = 0 then get_pgd_grow mode mmut v level s2 else Some (r, t, s2))"
      using w False g by (subst get_pgd_grow.simps) (auto simp: s2_def)
    show ?thesis
    proof (cases "r = 0")
      case False
      then show ?thesis using u e2 d(2) by auto
    next
      case True
      have i2: "mmu_inv mode mmut s2" using e2 by (simp add: extends_def)
      have "\<not> free_pages mmut s2 < level" using d(3) True by (simp add: s2_def)
      then obtain t3 s3 where w3: "mmu_get_pgd_at_level mode mmut v level s2 = Some (0, t3, s3)"
        "extends mode mmut s2 s3" "table_at mode (mt_pgd mmut) s3 v level = Some t3"
        using walk_tables_extends [OF i2, of v 0 "mt_pgd mmut" level] l by (auto simp: mmu_get_pgd_at_level_def)
      then have "get_pgd_grow mode mmut v level s2 = Some (0, t3, s3)"
        by (subst get_pgd_grow.simps) simp
      then show ?thesis using u True w3 extends_trans [OF e2 w3(2)] by simp
    qed
  qed
qed

end

end
