(* ===== verification/KB_MmuInsert.thy ===== *)
theory KB_MmuInsert
  imports KB_MmuWalk
begin

text \<open>
  Insertion, update and removal of pages, as changes of the map from pages to entries: an insertion
  sets exactly the entries of its range or, when it fails, takes back what it has set.
\<close>

section \<open>Overlays\<close>

text \<open>The map \<open>f\<close> with the values \<open>xs\<close> for the pages from \<open>n\<close> on.\<close>

definition overlay :: "(u64 \<Rightarrow> 'a) \<Rightarrow> nat \<Rightarrow> 'a list \<Rightarrow> u64 \<Rightarrow> 'a" where
  "overlay f n xs w = (if n \<le> unat w \<and> unat w < n + length xs then xs ! (unat w - n) else f w)"

lemma overlay_Nil [simp]: "overlay f n [] = f"
  by (rule ext) (auto simp: overlay_def)

lemma overlay_append: "overlay (overlay f n xs) (n + length xs) ys = overlay f n (xs @ ys)"
  by (rule ext) (auto simp: overlay_def nth_append intro: arg_cong [of _ _ "(!) ys"])

lemma overlay_over: "length xs \<le> length ys \<Longrightarrow> overlay (overlay f n xs) n ys = overlay f n ys"
  by (rule ext) (auto simp: overlay_def)

lemma overlay_cong: "f w = g w \<Longrightarrow> overlay f n xs w = overlay g n xs w"
  by (simp add: overlay_def)

text \<open>Two states have the same tables; the map of the second is an overlay of that of the first.\<close>

definition maps_to ::
  "kbase_mmu_mode \<Rightarrow> 'i mmu_table \<Rightarrow> 'i mmu_mem \<Rightarrow> nat \<Rightarrow> u64 option list \<Rightarrow> 'i mmu_mem \<Rightarrow> bool" where
  "maps_to mode mmut s n xs s' \<longleftrightarrow> mmu_inv mode mmut s' \<and>
     (\<forall>w k t. k \<le> 3 \<longrightarrow> table_at mode (mt_pgd mmut) s w k = Some t \<longrightarrow> table_at mode (mt_pgd mmut) s' w k = Some t) \<and>
     (\<forall>w. unat w < 2 ^ 36 \<longrightarrow>
        mapped_entry mode (mt_pgd mmut) s' w = overlay (mapped_entry mode (mt_pgd mmut) s) n xs w)"

lemma maps_to_refl: "mmu_inv mode mmut s \<Longrightarrow> maps_to mode mmut s n [] s"
  by (simp add: maps_to_def)

lemma extends_maps_to: "extends mode mmut s s' \<Longrightarrow> maps_to mode mmut s n [] s'"
  by (simp add: extends_def maps_to_def)

lemma maps_to_trans:
  assumes "maps_to mode mmut s n xs s'" and "maps_to mode mmut s' (n + length xs) ys s''"
  shows "maps_to mode mmut s n (xs @ ys) s''"
proof -
  let ?f = "mapped_entry mode (mt_pgd mmut)"
  have "?f s'' w = overlay (?f s) n (xs @ ys) w" if "unat w < 2 ^ 36" for w
    using assms that overlay_cong [of "?f s'" w "overlay (?f s) n xs" "n + length xs" ys]
    by (simp add: maps_to_def overlay_append)
  then show ?thesis using assms by (simp add: maps_to_def)
qed

lemma maps_to_over:
  assumes "maps_to mode mmut s n xs s'" and "maps_to mode mmut s' n ys s''" and "length xs \<le> length ys"
  shows "maps_to mode mmut s n ys s''"
proof -
  let ?f = "mapped_entry mode (mt_pgd mmut)"
  have "?f s'' w = overlay (?f s) n ys w" if "unat w < 2 ^ 36" for w
    using assms that overlay_cong [of "?f s'" w "overlay (?f s) n xs" n ys]
    by (simp add: maps_to_def overlay_over)
  then show ?thesis using assms by (simp add: maps_to_def)
qed

lemma maps_toD:
  assumes "maps_to mode mmut s n xs s'"
  shows "mmu_inv mode mmut s'"
    and "k \<le> 3 \<Longrightarrow> table_at mode (mt_pgd mmut) s w k = Some t \<Longrightarrow> table_at mode (mt_pgd mmut) s' w k = Some t"
    and "unat w < 2 ^ 36 \<Longrightarrow>
      mapped_entry mode (mt_pgd mmut) s' w = overlay (mapped_entry mode (mt_pgd mmut) s) n xs w"
  using assms by (simp_all add: maps_to_def)

context entry_codec
begin

definition page_value :: "u64 \<Rightarrow> u64 option" where
  "page_value e = (if ate_is_valid mode e 3 then Some e else None)"

lemma page_value_simps [simp]:
  "page_value (entry_invalidate mode) = None"
  "page_value (entry_set_ate mode phy fl 3) = Some (entry_set_ate mode phy fl 3)"
  by (simp_all add: page_value_def inval_not_ate ate_valid)

section \<open>Writing a run of entries of a bottom table\<close>

lemma bottom_tables:
  assumes inv: "mmu_inv mode mmut s" and tab: "table_at mode (mt_pgd mmut) s v 3 = Some tab" and k: "k \<le> 3"
  shows "table_at mode (mt_pgd mmut) (put_entries_at tab i es s) w k = table_at mode (mt_pgd mmut) s w k"
proof (rule table_at_cong)
  fix j t
  assume j: "j < k" and t: "table_at mode (mt_pgd mmut) s w j = Some t"
  have wf: "table_wf mode (mt_pgd mmut) s" using inv by (simp add: mmu_inv_def)
  have "t AND PAGE_MASK = t" "tab AND PAGE_MASK = tab"
    using usable_aligned [OF table_wfD(1) [OF wf t]] usable_aligned [OF table_wfD(1) [OF wf tab]] j k by simp_all
  moreover have "t \<noteq> tab" using table_wfD(3) [OF wf tab _, of w j] t j k by auto
  ultimately show "get_entry (put_entries_at tab i es s) t (pgd_index w j) = get_entry s t (pgd_index w j)"
    by (simp add: get_entry_put_entries_at)
qed

lemma bottom_inv:
  assumes inv: "mmu_inv mode mmut s" and tab: "table_at mode (mt_pgd mmut) s v 3 = Some tab"
    and es: "\<forall>e \<in> set es. entry_ok mode s 3 e"
  shows "mmu_inv mode mmut (put_entries_at tab i es s)"
proof -
  let ?root = "mt_pgd mmut" and ?s' = "put_entries_at tab i es s"
  have wf: "table_wf mode ?root s" and sw: "stock_wf mode ?root (mt_pool mmut) s"
    using inv by (simp_all add: mmu_inv_def)
  note at = bottom_tables [OF inv tab]
  have mp: "mappable (page_mem (mm ?s')) = mappable (page_mem (mm s))" by simp
  have "entry_ok mode s k (get_entry ?s' t j)" if t: "table_at mode ?root s w k = Some t" "k \<le> 3" "j < 512" for w k t j
  proof (cases "t = tab")
    case True
    then have "k = 3" using table_wfD(3) [OF wf tab _, of w k] t by auto
    then show ?thesis
      using table_wfD(2) [OF wf t] es by (auto simp: get_entry_put_entries_at)
  next
    case False
    then have "get_entry ?s' t j = get_entry s t j"
      using usable_aligned [OF table_wfD(1) [OF wf t(1,2)]] usable_aligned [OF table_wfD(1) [OF wf tab]]
      by (simp add: get_entry_put_entries_at)
    then show ?thesis using table_wfD(2) [OF wf t] by simp
  qed
  then have "table_wf mode ?root ?s'"
    using wf unfolding table_wf_def by (simp add: at usable_cong [OF mp] entry_ok_cong [OF mp])
  moreover have "stock_wf mode ?root (mt_pool mmut) ?s'"
    using sw unfolding stock_wf_def by (simp add: at usable_cong [OF mp] pool_ready_def stock_def)
  ultimately show ?thesis by (simp add: mmu_inv_def)
qed

lemma bottom_maps_to:
  assumes inv: "mmu_inv mode mmut s" and tab: "table_at mode (mt_pgd mmut) s v 3 = Some tab"
    and es: "\<forall>e \<in> set es. entry_ok mode s 3 e"
    and len: "pgd_index v 3 + length es \<le> 512" and v: "unat v < 2 ^ 36"
  shows "maps_to mode mmut s (unat v) (map page_value es) (put_entries_at tab (pgd_index v 3) es s)"
proof -
  let ?root = "mt_pgd mmut" and ?s' = "put_entries_at tab (pgd_index v 3) es s"
  have wf: "table_wf mode ?root s" using inv by (simp add: mmu_inv_def)
  note at = bottom_tables [OF inv tab]
  have "mapped_entry mode ?root ?s' w = overlay (mapped_entry mode ?root s) (unat v) (map page_value es) w"
    if w: "unat w < 2 ^ 36" for w
  proof (cases "same_path 3 w v")
    case True
    then have t: "table_at mode ?root s w 3 = Some tab"
      using table_at_same_path [of 3 w v mode ?root s] tab by simp
    have "get_entry ?s' tab (pgd_index w 3) =
        (if unat v \<le> unat w \<and> unat w < unat v + length es then es ! (unat w - unat v) else get_entry s tab (pgd_index w 3))"
      using run_iff [OF v w len] run_index [OF v w True] True by (simp add: get_entry_put_entries_at)
    then show ?thesis using t
      by (cases "unat v \<le> unat w \<and> unat w < unat v + length es")
        (auto simp: mapped_entry_def at overlay_def page_value_def less_diff_conv2)
  next
    case False
    then have o: "\<not> (unat v \<le> unat w \<and> unat w < unat v + length es)" using run_iff [OF v w len] by blast
    have "get_entry ?s' t j = get_entry s t j" if t: "table_at mode ?root s w 3 = Some t" for t j
    proof -
      have "t \<noteq> tab" using table_wfD(3) [OF wf t _, of v 3] tab False by auto
      then show ?thesis
        using usable_aligned [OF table_wfD(1) [OF wf t]] usable_aligned [OF table_wfD(1) [OF wf tab]]
        by (simp add: get_entry_put_entries_at)
    qed
    then have "mapped_entry mode ?root ?s' w = mapped_entry mode ?root s w"
      by (simp add: mapped_entry_def at split: option.split)
    then show ?thesis using o by (auto simp: overlay_def)
  qed
  then show ?thesis using bottom_inv [OF inv tab es] at by (simp add: maps_to_def)
qed

text \<open>The two ways in which the code writes such a run.\<close>

lemma insert_small_maps_to:
  assumes "mmu_inv mode mmut s" and "table_at mode (mt_pgd mmut) s v 3 = Some tab"
    and "pgd_index v 3 + length phys \<le> 512" and "unat v < 2 ^ 36"
  shows "maps_to mode mmut s (unat v) (map (\<lambda>phy. Some (entry_set_ate mode phy flags 3)) phys)
    (insert_small mode flags group_id tab (pgd_index v 3) phys s)"
proof -
  have "\<forall>e \<in> set (map (\<lambda>phy. entry_set_ate mode phy flags 3) phys). entry_ok mode s 3 e"
    by (auto simp: entry_ok_def)
  from bottom_maps_to [OF assms(1,2) this] assms(3,4) show ?thesis
    by (simp add: insert_small_def kbase_mmu_create_ate_def kbase_native_mgm_update_gpu_pte_def o_def)
qed

lemma invalidate_maps_to:
  assumes "mmu_inv mode mmut s" and "table_at mode (mt_pgd mmut) s v 3 = Some tab"
    and "pgd_index v 3 + n \<le> 512" and "unat v < 2 ^ 36"
  shows "maps_to mode mmut s (unat v) (replicate n None) (invalidate_entries mode tab (pgd_index v 3) n s)"
proof -
  have "\<forall>e \<in> set (replicate n (entry_invalidate mode)). entry_ok mode s 3 e"
    by (simp add: entry_ok_def)
  from bottom_maps_to [OF assms(1,2) this] assms(3,4) show ?thesis
    by (simp add: invalidate_entries_def)
qed

section \<open>Finding an entry\<close>

lemma mapped_table: "mapped_entry mode root s v \<noteq> None \<Longrightarrow> \<exists>t. table_at mode root s v 3 = Some t"
  by (auto simp: mapped_entry_def split: option.splits)

lemma mapped_iff:
  "table_at mode root s v 3 = Some t \<Longrightarrow>
     mapped_entry mode root s v \<noteq> None \<longleftrightarrow> ate_is_valid mode (get_entry s t (pgd_index v 3)) 3"
  by (simp add: mapped_entry_def Let_def)

lemma find_ate_mapped:
  assumes wf: "table_wf mode root s" and tab: "table_at mode root s v 3 = Some tab"
    and e: "ate_is_valid mode (get_entry s tab (pgd_index v 3)) 3"
    and t: "table_at mode root s v l = Some t" and n: "l + n = 3"
  shows "find_ate mode s v l (Suc n) t = (3, tab)"
  using t n
proof (induction n arbitrary: l t)
  case 0
  then show ?case using tab e by simp
next
  case (Suc n)
  then have l: "l < 3" by simp
  obtain t' where t': "table_at mode root s v (Suc l) = Some t'"
    using table_at_prefix [OF tab, of "Suc l"] l by auto
  have ok: "entry_ok mode s l (get_entry s t (pgd_index v l))"
    using table_wfD(2) [OF wf Suc.prems(1)] l by simp
  show ?case
    using ok l
  proof (cases rule: entry_cases)
    case 1
    then show ?thesis using t' Suc.prems(1) by simp
  next
    case (2 p)
    then have "p = t'" using t' Suc.prems(1) by simp
    then show ?thesis using 2 Suc.IH [OF t'] Suc.prems(2) by (simp add: Let_def)
  qed
qed

lemma find_entry_found:
  assumes wf: "table_wf mode root s" and tab: "table_at mode root s v 3 = Some tab"
    and t: "table_at mode root s v l = Some t" and n: "l + n = 3"
  shows "find_entry mode s v l (Suc n) t = (3, tab, mapped_entry mode root s v \<noteq> None)"
  using t n
proof (induction n arbitrary: l t)
  case 0
  then have l: "l = 3" "t = tab" using tab by simp_all
  have "entry_ok mode s 3 (get_entry s tab (pgd_index v 3))" using table_wfD(2) [OF wf tab] by simp
  then show ?case
    using l mapped_iff [OF tab] by (auto simp: entry_ok_def inval_not_ate inval_not_pte ate_valid Let_def)
next
  case (Suc n)
  then have l: "l < 3" by simp
  obtain t' where t': "table_at mode root s v (Suc l) = Some t'"
    using table_at_prefix [OF tab, of "Suc l"] l by auto
  have ok: "entry_ok mode s l (get_entry s t (pgd_index v l))"
    using table_wfD(2) [OF wf Suc.prems(1)] l by simp
  show ?case
    using ok l
  proof (cases rule: entry_cases)
    case 1
    then show ?thesis using t' Suc.prems(1) by simp
  next
    case (2 p)
    then have "p = t'" using t' Suc.prems(1) by simp
    then show ?thesis using 2 Suc.IH [OF t'] Suc.prems(2) by (simp add: Let_def)
  qed
qed

text \<open>Without a bottom table the walk stops above it.\<close>

lemma find_entry_hole:
  assumes wf: "table_wf mode root s" and tab: "table_at mode root s v 3 = None"
    and t: "table_at mode root s v l = Some t" and n: "l + n = 3"
  shows "\<exists>k t'. find_entry mode s v l (Suc n) t = (k, t', False) \<and> k < 3 \<and> l \<le> k \<and>
    table_at mode root s v k = Some t' \<and> table_at mode root s v (Suc k) = None"
  using t n
proof (induction n arbitrary: l t)
  case 0
  then show ?case using tab by simp
next
  case (Suc n)
  then have l: "l < 3" by simp
  have ok: "entry_ok mode s l (get_entry s t (pgd_index v l))"
    using table_wfD(2) [OF wf Suc.prems(1)] l by simp
  show ?case
    using ok l
  proof (cases rule: entry_cases)
    case 1
    then show ?thesis using Suc.prems(1) l by simp
  next
    case (2 p)
    then have "table_at mode root s v (Suc l) = Some p" using Suc.prems(1) by simp
    from Suc.IH [OF this] Suc.prems(2) 2 show ?thesis by (auto simp: Let_def)
  qed
qed

end

end
