(* ===== verification/KB_MmuLoops.thy ===== *)
theory KB_MmuLoops
  imports KB_MmuInsert
begin

text \<open>
  The loops over the runs of a range of pages: recovery, insertion, update and removal each return,
  and change the map from pages to entries as an overlay. Each lemma is an induction on the number
  of pages that remain, with one run of a bottom table in each round.
\<close>

lemma run_len: "n \<noteq> 0 \<Longrightarrow> 0 < min (512 - pgd_index v 3) n \<and> min (512 - pgd_index v 3) n \<le> n \<and>
    pgd_index v 3 + min (512 - pgd_index v 3) n \<le> 512"
  using pgd_index_less [of v 3] less_imp_le [OF pgd_index_less [of v 3]] by (auto simp: min_def)

context entry_codec
begin

section \<open>Recovery\<close>

lemma recovery_maps_to:
  assumes "mmu_inv mode mmut s" and "unat v \<le> unat to" and "unat to \<le> 2 ^ 36" and "unat to - unat v < 2 ^ 32"
    and "\<And>w. unat v \<le> unat w \<Longrightarrow> unat w < unat to \<Longrightarrow> mapped_entry mode (mt_pgd mmut) s w \<noteq> None"
  shows "\<exists>s'. mmu_insert_pages_failure_recovery mode mmut v to s = Some s' \<and>
    maps_to mode mmut s (unat v) (replicate (unat to - unat v) None) s'"
  using assms
proof (induction "unat to - unat v" arbitrary: v s rule: less_induct)
  case less
  let ?root = "mt_pgd mmut"
  show ?case
  proof (cases "unat v < unat to")
    case False
    then show ?thesis
      using less.prems maps_to_refl
      by (simp add: mmu_insert_pages_failure_recovery.simps [of mode mmut v to s] word_less_nat_alt)
  next
    case True
    define left where "left = unat to - unat v"
    define count where "count = min (512 - pgd_index v 3) left"
    have lt: "left \<noteq> 0" using True by (simp add: left_def)
    have c: "0 < count" "count \<le> left" "pgd_index v 3 + count \<le> 512"
      using run_len [OF lt] by (simp_all add: count_def)
    have "unat (to - v) = left" using True by (simp add: left_def unat_sub word_le_nat_alt)
    then have lf: "unat (ucast (to - v) :: u32) = left"
      using less.prems(4) by (simp add: left_def unsigned_ucast_eq take_bit_nat_eq_self)
    have v36: "unat v < 2 ^ 36" using True less.prems(3) by simp
    have wf: "table_wf mode ?root s" using less.prems(1) by (simp add: mmu_inv_def)
    have mv: "mapped_entry mode ?root s v \<noteq> None" using less.prems(5) True by simp
    then obtain tab where tab: "table_at mode ?root s v 3 = Some tab" using mapped_table by blast
    have "find_ate mode s v 0 (Suc 3) ?root = (3, tab)"
      using find_ate_mapped [OF wf tab, of 0 ?root 3] mapped_iff [OF tab] mv by simp
    then have fa: "find_ate mode s v 0 4 ?root = (3, tab)" by (simp add: eval_nat_numeral)
    define s1 where "s1 = invalidate_entries mode tab (pgd_index v 3) count s"
    have m1: "maps_to mode mmut s (unat v) (replicate count None) s1"
      unfolding s1_def by (rule invalidate_maps_to [OF less.prems(1) tab c(3) v36])
    have un: "unat (v + of_nat count) = unat v + count"
      using c v36 by (intro unat_add_small) (simp add: left_def; linarith)
    have r: "mmu_insert_pages_failure_recovery mode mmut v to s =
        mmu_insert_pages_failure_recovery mode mmut (v + of_nat count) to s1"
      using True fa lf
      by (subst mmu_insert_pages_failure_recovery.simps) (simp add: word_less_nat_alt count_def s1_def Let_def)
    have "mapped_entry mode ?root s1 w \<noteq> None" if "unat (v + of_nat count) \<le> unat w" "unat w < unat to" for w
      using maps_toD(3) [OF m1, of w] less.prems(3,5) that by (simp add: overlay_def un)
    moreover have ar: "unat to - (unat v + count) < unat to - unat v" "unat v + count \<le> unat to"
      "unat to - (unat v + count) < 2 ^ 32"
      using c less.prems(2,4) by (auto simp: left_def)
    ultimately obtain s' where s': "mmu_insert_pages_failure_recovery mode mmut (v + of_nat count) to s1 = Some s'"
      "maps_to mode mmut s1 (unat v + count) (replicate (left - count) None) s'"
      using less.hyps [of "v + of_nat count" s1] maps_toD(1) [OF m1] less.prems(3,4) ar un
      by (auto simp: left_def)
    have "maps_to mode mmut s (unat v) (replicate count None @ replicate (left - count) None) s'"
      by (rule maps_to_trans [OF m1]) (use s'(2) in simp)
    moreover have "replicate count None @ replicate (left - count) None = replicate left (None :: u64 option)"
      using c(2) by (metis le_add_diff_inverse replicate_add)
    ultimately show ?thesis using r s'(1) by (simp add: left_def)
  qed
qed

lemma insert_fail_maps_to:
  assumes "mmu_inv mode mmut s" and "unat v \<le> unat to" and "unat to \<le> 2 ^ 36" and "unat to - unat v < 2 ^ 32"
    and "\<And>w. unat v \<le> unat w \<Longrightarrow> unat w < unat to \<Longrightarrow> mapped_entry mode (mt_pgd mmut) s w \<noteq> None"
  shows "\<exists>s'. insert_fail mode mmut v to err s = Some (err, s') \<and>
    maps_to mode mmut s (unat v) (replicate (unat to - unat v) None) s'"
  using recovery_maps_to [OF assms] maps_to_refl [OF assms(1)]
  by (cases "to = v") (auto simp: insert_fail_def)

section \<open>Insertion\<close>

text \<open>One round of the loops: the run has its table, or there is no page for it.\<close>

lemma bottom_table:
  assumes "mmu_inv mode mmut s"
  obtains tab s1 where "get_pgd_grow mode mmut v 3 s = Some (0, tab, s1)" "kmap_ok s1 tab"
      "table_at mode (mt_pgd mmut) s1 v 3 = Some tab" "\<And>n. maps_to mode mmut s n [] s1"
    | tab s1 where "get_pgd_grow mode mmut v 3 s = Some (-12, tab, s1)" "\<And>n. maps_to mode mmut s n [] s1"
proof -
  obtain err t s' where g: "get_pgd_grow mode mmut v 3 s = Some (err, t, s')" "extends mode mmut s s'"
    "err = 0 \<and> table_at mode (mt_pgd mmut) s' v 3 = Some t \<or> err = -12"
    using get_pgd_grow_extends [OF assms, of 3 v] by auto
  have m: "maps_to mode mmut s n [] s'" for n using extends_maps_to [OF g(2)] .
  show thesis
  proof (cases "err = 0")
    case True
    then have t: "table_at mode (mt_pgd mmut) s' v 3 = Some t" using g(3) by simp
    have "table_wf mode (mt_pgd mmut) s'" using g(2) by (simp add: extends_def mmu_inv_def)
    from table_wfD(1) [OF this t] have "kmap_ok s' t" by (simp add: usable_def)
    then show ?thesis using that(1) g(1) True t m by blast
  next
    case False
    then show ?thesis using that(2) g(1,3) m by auto
  qed
qed

definition ates :: "u64 \<Rightarrow> u64 list \<Rightarrow> u64 option list" where
  "ates flags phys = map (\<lambda>phy. Some (entry_set_ate mode phy flags 3)) phys"

lemma ates_simps [simp]: "length (ates flags phys) = length phys" "ates flags (xs @ ys) = ates flags xs @ ates flags ys"
  by (simp_all add: ates_def)

text \<open>
  What the loop does from the page \<open>n\<close> on, when the pages from \<open>a\<close> to \<open>n\<close> are done: all pages are
  mapped, or the loop stops after \<open>m\<close> of them and everything from \<open>a\<close> on is taken back.
\<close>

definition insert_result ::
  "u64 \<Rightarrow> 'i mmu_table \<Rightarrow> nat \<Rightarrow> nat \<Rightarrow> u64 list \<Rightarrow> 'i mmu_mem \<Rightarrow> (int \<times> 'i mmu_mem) option \<Rightarrow> bool" where
  "insert_result flags mmut a n phys s r \<longleftrightarrow>
     (\<exists>s'. r = Some (0, s') \<and> maps_to mode mmut s n (ates flags phys) s') \<or>
     (\<exists>s' m. r = Some (-12, s') \<and> m \<le> length phys \<and> maps_to mode mmut s a (replicate (n - a + m) None) s')"

lemma insert_result_step:
  assumes m: "maps_to mode mmut s n (ates flags xs) s1" and r: "insert_result flags mmut a (n + length xs) ys s1 r"
    and a: "a \<le> n"
  shows "insert_result flags mmut a n (xs @ ys) s r"
proof -
  have over: "maps_to mode mmut s a (replicate (n + length xs - a + k) None) s'"
    if k: "maps_to mode mmut s1 a (replicate (n + length xs - a + k) None) s'" for k s'
  proof -
    let ?f = "mapped_entry mode (mt_pgd mmut)"
    have "?f s' w = overlay (?f s) a (replicate (n + length xs - a + k) None) w" if "unat w < 2 ^ 36" for w
      using maps_toD(3) [OF k that] maps_toD(3) [OF m that] a by (auto simp: overlay_def)
    then show ?thesis using m k by (simp add: maps_to_def)
  qed
  from r show ?thesis
    unfolding insert_result_def
  proof (elim disjE exE conjE)
    fix s'
    assume "r = Some (0, s')" "maps_to mode mmut s1 (n + length xs) (ates flags ys) s'"
    then show "(\<exists>s'. r = Some (0, s') \<and> maps_to mode mmut s n (ates flags (xs @ ys)) s') \<or>
        (\<exists>s' m. r = Some (-12, s') \<and> m \<le> length (xs @ ys) \<and> maps_to mode mmut s a (replicate (n - a + m) None) s')"
      using maps_to_trans [OF m] by simp
  next
    fix s' k
    assume k: "r = Some (-12, s')" "k \<le> length ys"
      "maps_to mode mmut s1 a (replicate (n + length xs - a + k) None) s'"
    have "n - a + (length xs + k) = n + length xs - a + k" using a by simp
    then show "(\<exists>s'. r = Some (0, s') \<and> maps_to mode mmut s n (ates flags (xs @ ys)) s') \<or>
        (\<exists>s' m. r = Some (-12, s') \<and> m \<le> length (xs @ ys) \<and> maps_to mode mmut s a (replicate (n - a + m) None) s')"
      using over [OF k(3)] k(1,2) by (metis add_le_cancel_left length_append)
  qed
qed

lemma insert_loop_result:
  assumes "mmu_inv mode mmut s" and "unat start \<le> unat v" and "unat v + remain \<le> 2 ^ 36"
    and "unat v + remain - unat start < 2 ^ 32" and "length phys = remain" and "\<forall>p \<in> set phys. \<not> is_huge_head p"
    and "\<And>w. unat start \<le> unat w \<Longrightarrow> unat w < unat v \<Longrightarrow> mapped_entry mode (mt_pgd mmut) s w \<noteq> None"
  shows "insert_result flags mmut (unat start) (unat v) phys s
    (insert_loop mode flags group_id mmut start v phys remain s)"
  using assms
proof (induction remain arbitrary: v phys s rule: less_induct)
  case (less remain)
  let ?root = "mt_pgd mmut"
  show ?case
  proof (cases "remain = 0")
    case True
    then show ?thesis using less.prems maps_to_refl
      by (subst insert_loop.simps) (simp add: insert_result_def ates_def)
  next
    case False
    define count where "count = min (512 - pgd_index v 3) remain"
    have c: "0 < count" "count \<le> remain" "pgd_index v 3 + count \<le> 512"
      using run_len [OF False] by (simp_all add: count_def)
    have v36: "unat v < 2 ^ 36" using less.prems(3) False by simp
    have nh: "\<not> is_huge_head (hd phys)" using less.prems(5,6) False by (cases phys) auto
    show ?thesis
    proof (rule bottom_table [OF less.prems(1), of v])
      fix tab s1
      assume g: "get_pgd_grow mode mmut v 3 s = Some (-12, tab, s1)" and m: "\<And>n. maps_to mode mmut s n [] s1"
      have r: "insert_loop mode flags group_id mmut start v phys remain s = insert_fail mode mmut start v (-12) s1"
        using False nh g by (subst insert_loop.simps) simp
      have mp: "mapped_entry mode ?root s1 w \<noteq> None" if "unat start \<le> unat w" "unat w < unat v" for w
        using maps_toD(3) [OF m, of w] less.prems(7) that v36 by simp
      have d: "unat v - unat start < 2 ^ 32" using less.prems(4) by linarith
      obtain s' where "insert_fail mode mmut start v (-12) s1 = Some (-12, s')"
        "maps_to mode mmut s1 (unat start) (replicate (unat v - unat start) None) s'"
        using insert_fail_maps_to [OF maps_toD(1) [OF m] less.prems(2) _ d mp] v36 by auto
      then show ?thesis using r maps_to_over [OF m] by (fastforce simp: insert_result_def)
    next
      fix tab s1
      assume g: "get_pgd_grow mode mmut v 3 s = Some (0, tab, s1)" and k: "kmap_ok s1 tab"
        and t: "table_at mode ?root s1 v 3 = Some tab" and m: "\<And>n. maps_to mode mmut s n [] s1"
      define s2 where "s2 = insert_small mode flags group_id tab (pgd_index v 3) (take count phys) s1"
      have r: "insert_loop mode flags group_id mmut start v phys remain s =
          insert_loop mode flags group_id mmut start (v + of_nat count) (drop count phys) (remain - count) s2"
        using False nh g k by (subst insert_loop.simps) (simp add: Let_def count_def s2_def)
      have lc: "length (take count phys) = count" using c(2) less.prems(5) by simp
      have "maps_to mode mmut s1 (unat v) (ates flags (take count phys)) s2"
        unfolding s2_def ates_def
        by (rule insert_small_maps_to [OF maps_toD(1) [OF m] t _ v36]) (use c(3) lc in simp)
      then have m2: "maps_to mode mmut s (unat v) (ates flags (take count phys)) s2"
        using maps_to_over [OF m] by simp
      have un: "unat (v + of_nat count) = unat v + count"
        using c less.prems(3) by (intro unat_add_small) simp
      have mp: "mapped_entry mode ?root s2 w \<noteq> None"
        if "unat start \<le> unat w" "unat w < unat (v + of_nat count)" for w
        using maps_toD(3) [OF m2, of w] less.prems(3,7) that c lc un by (auto simp: overlay_def ates_def)
      have "insert_result flags mmut (unat start) (unat (v + of_nat count)) (drop count phys) s2
          (insert_loop mode flags group_id mmut start (v + of_nat count) (drop count phys) (remain - count) s2)"
        using less.prems c mp
        by (intro less.IH maps_toD(1) [OF m2]) (auto simp: un dest: in_set_dropD)
      then have "insert_result flags mmut (unat start) (unat v) (take count phys @ drop count phys) s
          (insert_loop mode flags group_id mmut start (v + of_nat count) (drop count phys) (remain - count) s2)"
        using insert_result_step [OF m2] un lc less.prems(2) by metis
      then show ?thesis using r by simp
    qed
  qed
qed

section \<open>Update\<close>

text \<open>When it fails, the entries of the first \<open>m\<close> pages have their new values.\<close>

lemma update_loop_maps_to:
  assumes "mmu_inv mode mmut s" and "unat v + nr \<le> 2 ^ 36" and "length phys = nr"
  shows "\<exists>err s' m. update_loop mode flags group_id mmut v phys nr s = Some (err, s') \<and>
    maps_to mode mmut s (unat v) (ates flags (take m phys)) s' \<and> (err = 0 \<and> m = nr \<or> err = -12 \<and> m < nr)"
  using assms
proof (induction nr arbitrary: v phys s rule: less_induct)
  case (less nr)
  show ?case
  proof (cases "nr = 0")
    case True
    then show ?thesis using less.prems maps_to_refl
      by (subst update_loop.simps) (simp add: ates_def)
  next
    case False
    define count where "count = min (512 - pgd_index v 3) nr"
    have c: "0 < count" "count \<le> nr" "pgd_index v 3 + count \<le> 512"
      using run_len [OF False] by (simp_all add: count_def)
    have v36: "unat v < 2 ^ 36" using less.prems(2) False by simp
    show ?thesis
    proof (rule bottom_table [OF less.prems(1), of v])
      fix tab s1
      assume "get_pgd_grow mode mmut v 3 s = Some (-12, tab, s1)" and m: "\<And>n. maps_to mode mmut s n [] s1"
      then have "update_loop mode flags group_id mmut v phys nr s = Some (-12, s1)"
        using False by (subst update_loop.simps) simp
      moreover have "maps_to mode mmut s (unat v) (ates flags (take 0 phys)) s1" using m by (simp add: ates_def)
      ultimately show ?thesis using False by blast
    next
      fix tab s1
      assume g: "get_pgd_grow mode mmut v 3 s = Some (0, tab, s1)" and k: "kmap_ok s1 tab"
        and t: "table_at mode (mt_pgd mmut) s1 v 3 = Some tab" and m: "\<And>n. maps_to mode mmut s n [] s1"
      define s2 where "s2 = insert_small mode flags group_id tab (pgd_index v 3) (take count phys) s1"
      have r: "update_loop mode flags group_id mmut v phys nr s =
          update_loop mode flags group_id mmut (v + of_nat count) (drop count phys) (nr - count) s2"
        using False g k by (subst update_loop.simps) (simp add: Let_def count_def s2_def)
      have lc: "length (take count phys) = count" using c(2) less.prems(3) by simp
      have "maps_to mode mmut s1 (unat v) (ates flags (take count phys)) s2"
        unfolding s2_def ates_def
        by (rule insert_small_maps_to [OF maps_toD(1) [OF m] t _ v36]) (use c(3) lc in simp)
      then have m2: "maps_to mode mmut s (unat v) (ates flags (take count phys)) s2"
        using maps_to_over [OF m] by simp
      have un: "unat (v + of_nat count) = unat v + count"
        using c less.prems(2) by (intro unat_add_small) simp
      obtain err s' k where u: "update_loop mode flags group_id mmut (v + of_nat count) (drop count phys) (nr - count) s2
            = Some (err, s')"
        "maps_to mode mmut s2 (unat v + count) (ates flags (take k (drop count phys))) s'"
        "err = 0 \<and> k = nr - count \<or> err = -12 \<and> k < nr - count"
        using less.IH [of "nr - count" s2 "v + of_nat count" "drop count phys"] maps_toD(1) [OF m2] less.prems c un
        by auto
      have "maps_to mode mmut s (unat v) (ates flags (take count phys) @ ates flags (take k (drop count phys))) s'"
        by (rule maps_to_trans [OF m2]) (use u(2) lc in simp)
      then have "maps_to mode mmut s (unat v) (ates flags (take (count + k) phys)) s'"
        by (simp add: take_add flip: ates_simps)
      moreover have "err = 0 \<and> count + k = nr \<or> err = -12 \<and> count + k < nr" using u(3) c(2) by auto
      ultimately show ?thesis using r u(1) by auto
    qed
  qed
qed

section \<open>Removal\<close>

text \<open>
  The tables stay. Every page outside the range keeps its entry, and a page of the range loses
  its entry or keeps it; it loses it if all bottom tables of the range are there.
\<close>

definition removes :: "'i mmu_table \<Rightarrow> 'i mmu_mem \<Rightarrow> nat \<Rightarrow> nat \<Rightarrow> 'i mmu_mem \<Rightarrow> bool" where
  "removes mmut s n nr s' \<longleftrightarrow> mmu_inv mode mmut s' \<and>
     (\<forall>w k t. k \<le> 3 \<longrightarrow> table_at mode (mt_pgd mmut) s w k = Some t \<longrightarrow> table_at mode (mt_pgd mmut) s' w k = Some t) \<and>
     (\<forall>w. unat w < 2 ^ 36 \<longrightarrow>
        mapped_entry mode (mt_pgd mmut) s' w = mapped_entry mode (mt_pgd mmut) s w \<or>
        mapped_entry mode (mt_pgd mmut) s' w = None \<and> n \<le> unat w \<and> unat w < n + nr) \<and>
     ((\<forall>w. n \<le> unat w \<longrightarrow> unat w < n + nr \<longrightarrow> table_at mode (mt_pgd mmut) s w 3 \<noteq> None) \<longrightarrow>
        (\<forall>w. n \<le> unat w \<longrightarrow> unat w < n + nr \<longrightarrow> mapped_entry mode (mt_pgd mmut) s' w = None))"

lemma removes_refl: "mmu_inv mode mmut s \<Longrightarrow> removes mmut s n 0 s"
  by (simp add: removes_def)

lemma removesD:
  assumes "removes mmut s n nr s'" and "unat w < 2 ^ 36"
  shows "mapped_entry mode (mt_pgd mmut) s' w = mapped_entry mode (mt_pgd mmut) s w \<or>
    mapped_entry mode (mt_pgd mmut) s' w = None \<and> n \<le> unat w \<and> unat w < n + nr"
  using assms by (simp add: removes_def)

lemma removes_run:
  assumes m: "maps_to mode mmut s n (replicate c None) s1" and r: "removes mmut s1 (n + c) k s'" and n: "n + c \<le> 2 ^ 36"
  shows "removes mmut s n (c + k) s'"
proof -
  let ?f = "mapped_entry mode (mt_pgd mmut)" and ?T = "table_at mode (mt_pgd mmut)"
  have f1: "?f s1 w = (if n \<le> unat w \<and> unat w < n + c then None else ?f s w)" if "unat w < 2 ^ 36" for w
    using maps_toD(3) [OF m that] by (auto simp: overlay_def)
  have a: "?f s' w = ?f s w \<or> ?f s' w = None \<and> n \<le> unat w \<and> unat w < n + (c + k)" if "unat w < 2 ^ 36" for w
    using r f1 [OF that] that unfolding removes_def by (auto split: if_splits)
  have b: "?f s' w = None"
    if t: "\<forall>w. n \<le> unat w \<longrightarrow> unat w < n + (c + k) \<longrightarrow> ?T s w 3 \<noteq> None" and w: "n \<le> unat w" "unat w < n + (c + k)" for w
  proof (cases "unat w < n + c")
    case True
    then have w36: "unat w < 2 ^ 36" using n by simp
    have "?f s' w = ?f s1 w \<or> ?f s' w = None" using removesD [OF r w36] by auto
    then show ?thesis using f1 [OF w36] True w(1) by auto
  next
    case False
    have "?T s1 u 3 \<noteq> None" if "n + c \<le> unat u" "unat u < n + c + k" for u
    proof -
      have "?T s u 3 \<noteq> None" using t that by simp
      then obtain x where "?T s u 3 = Some x" by blast
      then have "?T s1 u 3 = Some x" by (rule maps_toD(2) [OF m, rotated]) simp
      then show ?thesis by simp
    qed
    then show ?thesis using r False w unfolding removes_def by auto
  qed
  show ?thesis using r m a b unfolding removes_def maps_to_def by auto
qed

lemma removes_skip:
  assumes r: "removes mmut s (n + c) k s'" and v: "n = unat v" "0 < c"
    and hole: "table_at mode (mt_pgd mmut) s v 3 = None \<or> c = 1 \<and> mapped_entry mode (mt_pgd mmut) s v = None"
    and n: "n < 2 ^ 36"
  shows "removes mmut s n (c + k) s'"
proof -
  let ?f = "mapped_entry mode (mt_pgd mmut)" and ?T = "table_at mode (mt_pgd mmut)"
  have a: "?f s' w = ?f s w \<or> ?f s' w = None \<and> n \<le> unat w \<and> unat w < n + (c + k)" if "unat w < 2 ^ 36" for w
    using r that unfolding removes_def by auto
  have b: "?f s' w = None"
    if t: "\<forall>w. n \<le> unat w \<longrightarrow> unat w < n + (c + k) \<longrightarrow> ?T s w 3 \<noteq> None" and w: "n \<le> unat w" "unat w < n + (c + k)" for w
  proof (cases "unat w < n + c")
    case True
    have "c = 1 \<and> ?f s v = None" using hole t v by auto
    then have "w = v" "?f s v = None" using True w v(1) by (simp_all add: word_unat_eq_iff)
    then show ?thesis using a [of v] n v(1) by auto
  next
    case False
    then show ?thesis using r t w unfolding removes_def by auto
  qed
  show ?thesis using r a b unfolding removes_def by auto
qed

lemma teardown_loop_removes:
  assumes "mmu_inv mode mmut s" and "unat v + nr \<le> 2 ^ 36"
  shows "\<exists>s'. teardown_loop mode mmut v nr s = Some (0, s') \<and> removes mmut s (unat v) nr s'"
  using assms
proof (induction nr arbitrary: v s rule: less_induct)
  case (less nr)
  let ?root = "mt_pgd mmut"
  show ?case
  proof (cases "nr = 0")
    case True
    then show ?thesis using less.prems removes_refl by (subst teardown_loop.simps) simp
  next
    case False
    have wf: "table_wf mode ?root s" using less.prems(1) by (simp add: mmu_inv_def)
    have v36: "unat v < 2 ^ 36" using less.prems(2) False by simp
    have next_round: "\<exists>s'. teardown_loop mode mmut (v + of_nat c) (nr - c) s1 = Some (0, s') \<and>
        removes mmut s1 (unat v + c) (nr - c) s'" if "mmu_inv mode mmut s1" "0 < c" "c \<le> nr" for c s1
    proof -
      have "unat (v + of_nat c) = unat v + c"
        using that less.prems(2) by (intro unat_add_small) simp
      then show ?thesis using less.IH [of "nr - c" s1 "v + of_nat c"] that less.prems(2) by simp
    qed
    have skip: ?thesis
      if f: "find_entry mode s v 0 4 ?root = (k, t, False)"
        and h: "table_at mode ?root s v 3 = None \<or> k = 3 \<and> mapped_entry mode ?root s v = None" for k t
    proof -
      define c where "c = min (hole_size k) nr"
      have c: "0 < c" "c \<le> nr" "k = 3 \<Longrightarrow> c = 1" using False by (auto simp: c_def hole_size_def)
      have "teardown_loop mode mmut v nr s = teardown_loop mode mmut (v + of_nat c) (nr - c) s"
        using False f by (subst teardown_loop.simps) (simp add: Let_def c_def)
      then show ?thesis
        using next_round [OF less.prems(1) c(1,2)] removes_skip [of mmut s "unat v" c "nr - c" _ v] c h v36 by auto
    qed
    show ?thesis
    proof (cases "table_at mode ?root s v 3")
      case None
      obtain k t where "find_entry mode s v 0 (Suc 3) ?root = (k, t, False)"
        using find_entry_hole [OF wf None, of 0 ?root 3] by auto
      then show ?thesis using skip None by (simp add: eval_nat_numeral)
    next
      case (Some tab)
      have "find_entry mode s v 0 (Suc 3) ?root = (3, tab, mapped_entry mode ?root s v \<noteq> None)"
        by (rule find_entry_found [OF wf Some]) simp_all
      then have f: "find_entry mode s v 0 4 ?root = (3, tab, mapped_entry mode ?root s v \<noteq> None)"
        by (simp add: eval_nat_numeral)
      show ?thesis
      proof (cases "mapped_entry mode ?root s v")
        case None
        then show ?thesis using skip f by auto
      next
        case (Some e)
        define c where "c = min (512 - pgd_index v 3) nr"
        have c: "0 < c" "c \<le> nr" "pgd_index v 3 + c \<le> 512"
          using run_len [OF False] by (simp_all add: c_def)
        define s1 where "s1 = invalidate_entries mode tab (pgd_index v 3) c s"
        have m: "maps_to mode mmut s (unat v) (replicate c None) s1"
          unfolding s1_def by (rule invalidate_maps_to [OF less.prems(1) \<open>table_at mode ?root s v 3 = Some tab\<close> c(3) v36])
        have "teardown_loop mode mmut v nr s = teardown_loop mode mmut (v + of_nat c) (nr - c) s1"
          using False f Some by (subst teardown_loop.simps) (simp add: Let_def c_def s1_def)
        then show ?thesis
          using next_round [OF maps_toD(1) [OF m] c(1,2)] removes_run [OF m, of "nr - c"] c less.prems(2) by auto
      qed
    qed
  qed
qed

end

section \<open>One page many times\<close>

text \<open>The insertion of one page is that of an array with the page in each place.\<close>

lemma insert_single_loop_array:
  assumes "\<not> is_huge_head phy"
  shows "insert_single_loop mode flags group_id mmut start cnt (start + of_nat cnt) phy remain s =
    insert_loop mode flags group_id mmut start (start + of_nat cnt) (replicate remain phy) remain s"
proof (induction remain arbitrary: cnt s rule: less_induct)
  case (less remain)
  show ?case
  proof (cases "remain = 0")
    case True
    then show ?thesis by (subst insert_single_loop.simps, subst insert_loop.simps) simp
  next
    case False
    define v where "v = start + of_nat cnt"
    define count where "count = min (512 - pgd_index v 3) remain"
    have c: "0 < count" "count \<le> remain" using run_len [OF False] by (simp_all add: count_def)
    have h: "hd (replicate remain phy) = phy" using False by (cases remain) simp_all
    have step: "start + of_nat (cnt + count) = v + of_nat count" by (simp add: v_def)
    have tk: "take count (replicate remain phy) = replicate count phy"
      "drop count (replicate remain phy) = replicate (remain - count) phy"
      using c by (simp_all add: min_def)
    have "insert_single_loop mode flags group_id mmut start (cnt + count) (v + of_nat count) phy (remain - count) s1 =
        insert_loop mode flags group_id mmut start (v + of_nat count) (replicate (remain - count) phy) (remain - count) s1"
      for s1 using less.IH [of "remain - count" "cnt + count" s1] c unfolding step by simp
    then show ?thesis
      using False assms h tk
      by (subst insert_single_loop.simps, subst insert_loop.simps)
        (simp add: v_def [symmetric] count_def [symmetric] Let_def cong: if_cong)
  qed
qed

end
