(* ===== verification/KB_MmuPages.thy ===== *)
theory KB_MmuPages
  imports KB_MmuLoops
begin

text \<open>
  What the driver promises of its page tables: set-up makes an empty table, every sequence of
  insertions, updates and removals returns and keeps the tables in order, an insertion maps its
  range or nothing, and a removal undoes it.
\<close>

section \<open>Set-up\<close>

text \<open>The pages of the pool and the kernel can be used as tables.\<close>

definition stock_usable :: "'i \<Rightarrow> 'i mmu_mem \<Rightarrow> bool" where
  "stock_usable i s \<longleftrightarrow> pool_ready i (mm s) \<and> (\<forall>p \<in> set (stock i (mm s)). usable s p)"

context entry_codec
begin

lemma fresh_table:
  assumes r: "pool_ready (mt_pool mmut) (mm s)" and u: "usable s (mt_pgd mmut)"
    and st: "\<And>p. p \<in> set (stock (mt_pool mmut) (mm s)) \<Longrightarrow> usable s p \<and> p \<noteq> mt_pgd mmut"
    and e: "\<And>i. i < 512 \<Longrightarrow> get_entry s (mt_pgd mmut) i = entry_invalidate mode"
  shows "mmu_inv mode mmut s" and "mapped_entry mode (mt_pgd mmut) s w = None"
proof -
  let ?root = "mt_pgd mmut"
  have deep: "table_at mode ?root s v (Suc l) = None" for v l
    by (induction l) (simp_all add: e)
  have at: "table_at mode ?root s v l = Some t \<longleftrightarrow> l = 0 \<and> t = ?root" for v l t
    by (cases l) (auto simp: deep simp del: table_at.simps(2))
  have "table_wf mode ?root s"
    unfolding table_wf_def at using u e by (auto simp: entry_ok_def)
  moreover have "stock_wf mode ?root (mt_pool mmut) s"
    unfolding stock_wf_def at using r st by auto
  ultimately show "mmu_inv mode mmut s" by (simp add: mmu_inv_def)
  show "mapped_entry mode ?root s w = None"
    using deep [of w 2] by (simp add: mapped_entry_def eval_nat_numeral)
qed

lemma init_loop_ready:
  assumes "stock_usable (mt_pool mmut) s" and "mt_pgd mmut = 0" and "mt_kctx mmut"
  shows "\<exists>err mmut' s'. init_loop mode mmut s = Some (err, mmut', s') \<and>
    (err = -12 \<or> err = 0 \<and> mt_pool mmut' = mt_pool mmut \<and> mmu_inv mode mmut' s' \<and>
       (\<forall>w. mapped_entry mode (mt_pgd mmut') s' w = None))"
proof -
  let ?i = "mt_pool mmut"
  obtain r m where g: "kbase_mem_pool_grow ?i 3 (mm s) = (r, m)" by fastforce
  have d: "drawn ?i (mm s) m" "r = 0 \<or> r = -12" "r = 0 \<Longrightarrow> 3 \<le> length (page_list (pools m ?i))"
    using grow_drawn [OF _ g] assms(1) by (auto simp: stock_usable_def)
  show ?thesis
  proof (cases "r = 0")
    case False
    then show ?thesis using g assms(2) by (subst init_loop.simps) simp
  next
    case True
    define s1 where "s1 = s\<lparr> mm := m \<rparr>"
    have ready: "pool_ready ?i (mm s1)" using d(1) by (simp add: drawn_def s1_def)
    have us: "usable s1 p" if "p \<in> set (stock ?i (mm s1))" for p
      using that d(1) assms(1) usable_cong [of s1 s p] by (auto simp: drawn_def s1_def stock_usable_def)
    obtain p ps where pl: "page_list (pools (mm s1) ?i) = p # ps"
      using d(3) [OF True] by (cases "page_list (pools m ?i)") (auto simp: s1_def)
    obtain s2 where a: "kbase_mmu_alloc_pgd mode mmut s1 = Some (p, s2)" "p \<in> set (stock ?i (mm s1))"
      "\<And>q i. q AND PAGE_MASK = q \<Longrightarrow> i < 512 \<Longrightarrow>
         get_entry s2 q i = (if q = p then entry_invalidate mode else get_entry s1 q i)"
      "mappable (page_mem (mm s2)) = mappable (page_mem (mm s1))" "pool_ready ?i (mm s2)"
      "set (stock ?i (mm s2)) \<subseteq> set (stock ?i (mm s1)) - {p}"
      using alloc_pgd_ready(2) [OF ready us pl] by blast
    have p: "usable s1 p" using us a(2) by simp
    define t where "t = mmut\<lparr> mt_pgd := p \<rparr>"
    define s3 where "s3 = s2\<lparr> recorded_pgd := p \<rparr>"
    have s3: "mm s3 = mm s2" "get_entry s3 q i = get_entry s2 q i" for q i
      by (simp_all add: s3_def get_entry_def)
    have u3: "usable s3 q = usable s1 q" for q by (rule usable_cong) (simp add: s3 a(4))
    have "init_loop mode mmut s = init_loop mode t s2"
      using g True assms(2) a(1) by (subst init_loop.simps) (simp add: s1_def t_def)
    also have "\<dots> = Some (0, t, s3)"
      using p assms(3) by (subst init_loop.simps) (simp add: t_def s3_def usable_def)
    finally have i: "init_loop mode mmut s = Some (0, t, s3)" .
    have f: "pool_ready (mt_pool t) (mm s3)" "usable s3 (mt_pgd t)"
      "\<And>q. q \<in> set (stock (mt_pool t) (mm s3)) \<Longrightarrow> usable s3 q \<and> q \<noteq> mt_pgd t"
      "\<And>i. i < 512 \<Longrightarrow> get_entry s3 (mt_pgd t) i = entry_invalidate mode"
      using a(3,5,6) p us usable_aligned [OF p] by (auto simp: t_def s3 u3)
    show ?thesis using i fresh_table [OF f] by (simp add: t_def)
  qed
qed

lemma kbase_mmu_init_ready:
  assumes "stock_usable (small_pool group_id) s"
  shows "\<exists>err mmut' s'. kbase_mmu_init mode malloc_ok True group_id small_pool mmut s = Some (err, mmut', s') \<and>
    (err = -12 \<or> err = -22 \<or> err = 0 \<and> mmu_inv mode mmut' s' \<and>
       (\<forall>w. mapped_entry mode (mt_pgd mmut') s' w = None))"
  using init_loop_ready [of "mmut\<lparr> mt_pool := small_pool group_id, mt_kctx := True, mt_pgd := 0 \<rparr>" s] assms
  by (auto simp: kbase_mmu_init_def)

section \<open>The functions of the driver\<close>

lemma insert_pages_result:
  assumes "mmu_inv mode mmut s" and "unat v + length phys \<le> 2 ^ 36" and "length phys < 2 ^ 32"
    and "\<forall>p \<in> set phys. \<not> is_huge_head p"
  shows "\<exists>err s' m. kbase_mmu_insert_pages mode hw env mmut v phys (length phys) flags as_nr group_id (s, kb) =
      Some (err, s', flush_table hw env mmut v (length phys) False as_nr kb) \<and>
    (err = 0 \<and> maps_to mode mmut s (unat v) (ates flags phys) s' \<or>
     err = -12 \<and> m \<le> length phys \<and> maps_to mode mmut s (unat v) (replicate m None) s')"
proof (cases "phys = []")
  case True
  then show ?thesis using maps_to_refl [OF assms(1)]
    by (auto simp: kbase_mmu_insert_pages_def kbase_mmu_insert_pages_no_flush_def ates_def)
next
  case False
  have "insert_result flags mmut (unat v) (unat v) phys s
      (insert_loop mode flags group_id mmut v v phys (length phys) s)"
    using assms by (intro insert_loop_result) simp_all
  then show ?thesis using False
    by (auto simp: insert_result_def kbase_mmu_insert_pages_def kbase_mmu_insert_pages_no_flush_def)
qed

lemma update_pages_result:
  assumes "mmu_inv mode mmut s" and "unat v + length phys \<le> 2 ^ 36"
  shows "\<exists>err s' m. kbase_mmu_update_pages mode hw env mmut v phys (length phys) flags group_id (s, kb) =
      Some (err, s', kbase_mmu_flush_invalidate hw env v (length phys) True kb) \<and>
    maps_to mode mmut s (unat v) (ates flags (take m phys)) s' \<and>
    (err = 0 \<and> m = length phys \<or> err = -12 \<and> m < length phys)"
proof (cases "phys = []")
  case True
  then show ?thesis using maps_to_refl [OF assms(1)]
    by (auto simp: kbase_mmu_update_pages_def kbase_mmu_update_pages_no_flush_def ates_def)
next
  case False
  then show ?thesis using update_loop_maps_to [OF assms, where flags = flags and group_id = group_id]
    by (auto simp: kbase_mmu_update_pages_def kbase_mmu_update_pages_no_flush_def)
qed

lemma teardown_pages_result:
  assumes "mmu_inv mode mmut s" and "unat v + nr \<le> 2 ^ 36"
  shows "\<exists>s' kb'. kbase_mmu_teardown_pages mode hw env mmut v nr as_nr (s, kb) = Some (0, s', kb') \<and>
    kb' = (if nr = 0 then kb else flush_table hw env mmut v nr True as_nr kb) \<and> removes mmut s (unat v) nr s'"
  using teardown_loop_removes [OF assms] removes_refl [OF assms(1)]
  by (auto simp: kbase_mmu_teardown_pages_def)

lemma maps_to_page:
  assumes "maps_to mode mmut s n xs s'" and "unat w < 2 ^ 36" and "unat w < n \<or> n + length xs \<le> unat w"
  shows "mapped_entry mode (mt_pgd mmut) s' w = mapped_entry mode (mt_pgd mmut) s w"
  using maps_toD(3) [OF assms(1,2)] assms(3) by (auto simp: overlay_def)

lemma maps_to_in:
  assumes "maps_to mode mmut s n xs s'" and "unat w < 2 ^ 36" and "n \<le> unat w" and "unat w < n + length xs"
  shows "mapped_entry mode (mt_pgd mmut) s' w = xs ! (unat w - n)"
  using maps_toD(3) [OF assms(1,2)] assms(3,4) by (simp add: overlay_def)

text \<open>After an insertion all tables of the range are there, so a removal takes all of it away.\<close>

lemma insert_then_removes:
  assumes m: "maps_to mode mmut s n (ates flags phys) s1" and r: "removes mmut s1 n (length phys) s'"
    and free: "\<And>w. n \<le> unat w \<Longrightarrow> unat w < n + length phys \<Longrightarrow> mapped_entry mode (mt_pgd mmut) s w = None"
    and n: "n + length phys \<le> 2 ^ 36" and w: "unat w < 2 ^ 36"
  shows "mapped_entry mode (mt_pgd mmut) s' w = mapped_entry mode (mt_pgd mmut) s w"
proof (cases "n \<le> unat w \<and> unat w < n + length phys")
  case False
  then show ?thesis using removesD [OF r w] maps_to_page [OF m w] by auto
next
  case True
  have "table_at mode (mt_pgd mmut) s1 u 3 \<noteq> None" if u: "n \<le> unat u" "unat u < n + length phys" for u
  proof -
    have "mapped_entry mode (mt_pgd mmut) s1 u = ates flags phys ! (unat u - n)"
      using maps_to_in [OF m, of u] u n by simp
    then have "mapped_entry mode (mt_pgd mmut) s1 u \<noteq> None" using u by (simp add: ates_def less_diff_conv2)
    then show ?thesis using mapped_table by fastforce
  qed
  then have "mapped_entry mode (mt_pgd mmut) s' w = None" using r True by (simp add: removes_def)
  then show ?thesis using free True by simp
qed

text \<open>An insertion into one bottom table succeeds when the pool has a page for each level.\<close>

lemma get_pgd_grow_ok:
  assumes "mmu_inv mode mmut s" and "3 \<le> length (page_list (pools (mm s) (mt_pool mmut)))"
  shows "\<exists>t s1. get_pgd_grow mode mmut v 3 s = Some (0, t, s1)"
  using walk_tables_extends [OF assms(1), of v 0 "mt_pgd mmut" 3] assms(2)
  by (subst get_pgd_grow.simps) (auto simp: mmu_get_pgd_at_level_def)

lemma insert_pages_ok:
  assumes "mmu_inv mode mmut s" and "3 \<le> length (page_list (pools (mm s) (mt_pool mmut)))"
    and "pgd_index v 3 + length phys \<le> 512" and "\<forall>p \<in> set phys. \<not> is_huge_head p"
  shows "\<exists>s1. kbase_mmu_insert_pages mode hw env mmut v phys (length phys) flags as_nr group_id (s, kb) =
    Some (0, s1, flush_table hw env mmut v (length phys) False as_nr kb)"
proof (cases phys)
  case Nil
  then show ?thesis by (simp add: kbase_mmu_insert_pages_def kbase_mmu_insert_pages_no_flush_def)
next
  case (Cons p ps)
  then have c: "min (512 - pgd_index v 3) (length phys) = length phys" "\<not> is_huge_head (hd phys)"
    using assms(3,4) by auto
  show ?thesis
  proof (rule bottom_table [OF assms(1), of v])
    fix tab s1
    assume "get_pgd_grow mode mmut v 3 s = Some (-12, tab, s1)"
    then show ?thesis using get_pgd_grow_ok [OF assms(1,2), of v] by simp
  next
    fix tab s1
    assume g: "get_pgd_grow mode mmut v 3 s = Some (0, tab, s1)" "kmap_ok s1 tab"
    have "insert_loop mode flags group_id mmut v v phys (length phys) s =
        insert_loop mode flags group_id mmut v (v + of_nat (length phys)) [] 0
          (insert_small mode flags group_id tab (pgd_index v 3) phys s1)"
      using g c Cons by (subst insert_loop.simps) (simp add: Let_def)
    also have "\<dots> = Some (0, insert_small mode flags group_id tab (pgd_index v 3) phys s1)"
      by (subst insert_loop.simps) simp
    finally show ?thesis using Cons
      by (simp add: kbase_mmu_insert_pages_def kbase_mmu_insert_pages_no_flush_def)
  qed
qed

text \<open>The walk of the removal follows the tables.\<close>

lemma find_entry_follows:
  "table_at mode root s v k = Some t \<Longrightarrow> find_entry mode s v 0 (k + n) root = find_entry mode s v k n t"
proof (induction k arbitrary: t n)
  case 0
  then show ?case by simp
next
  case (Suc k)
  then obtain t' where t': "table_at mode root s v k = Some t'"
    "table_entry mode k (get_entry s t' (pgd_index v k)) = Some t"
    by (auto split: option.splits)
  then have "pte_is_valid mode (get_entry s t' (pgd_index v k)) k"
    "pte_to_phy_addr mode (get_entry s t' (pgd_index v k)) = t"
    by (auto simp: table_entry_def Let_def split: if_splits)
  moreover from this(1) have "\<not> ate_is_valid mode (get_entry s t' (pgd_index v k)) k" using ate_not_pte by blast
  ultimately show ?case using Suc.IH [OF t'(1), of "Suc n"] by (simp add: Let_def)
qed

lemma teardown_skips:
  assumes "table_at mode (mt_pgd mmut) s v 2 = Some t" and "get_entry s t (pgd_index v 2) = entry_invalidate mode"
    and "nr \<le> 512"
  shows "teardown_loop mode mmut v nr s = Some (0, s)"
proof (cases "nr = 0")
  case True
  then show ?thesis by (subst teardown_loop.simps) simp
next
  case False
  have "find_entry mode s v 0 (2 + Suc (Suc 0)) (mt_pgd mmut) = (2, t, False)"
    unfolding find_entry_follows [OF assms(1)] using assms(2) by (simp add: inval_not_ate inval_not_pte)
  then have "find_entry mode s v 0 4 (mt_pgd mmut) = (2, t, False)" by (simp add: eval_nat_numeral)
  moreover have "min (hole_size 2) nr = nr" using assms(3) by (simp add: hole_size_def)
  ultimately have "teardown_loop mode mmut v nr s = teardown_loop mode mmut (v + of_nat nr) 0 s"
    using False by (subst teardown_loop.simps) (simp add: Let_def)
  then show ?thesis by (subst (asm) (2) teardown_loop.simps) simp
qed

end

section \<open>Sequences of operations\<close>

datatype mmu_op =
    Op_Insert u64 "u64 list" u64 int
  | Op_Update u64 "u64 list" u64 int
  | Op_Teardown u64 nat

fun op_range :: "mmu_op \<Rightarrow> nat \<times> nat" where
  "op_range (Op_Insert v phys flags group_id) = (unat v, length phys)"
| "op_range (Op_Update v phys flags group_id) = (unat v, length phys)"
| "op_range (Op_Teardown v nr) = (unat v, nr)"

definition op_touches :: "mmu_op \<Rightarrow> u64 \<Rightarrow> bool" where
  "op_touches c w \<longleftrightarrow> fst (op_range c) \<le> unat w \<and> unat w < fst (op_range c) + snd (op_range c)"

text \<open>The range lies in the address space; insertions are of small pages.\<close>

definition op_ok :: "mmu_op \<Rightarrow> bool" where
  "op_ok c \<longleftrightarrow> fst (op_range c) + snd (op_range c) \<le> 2 ^ 36 \<and> snd (op_range c) < 2 ^ 32 \<and>
     (case c of Op_Insert v phys flags group_id \<Rightarrow> \<forall>p \<in> set phys. \<not> is_huge_head p | _ \<Rightarrow> True)"

fun mmu_exec ::
  "kbase_mmu_mode \<Rightarrow> 'h mmio \<Rightarrow> flush_env \<Rightarrow> 'i mmu_table \<Rightarrow> nat \<Rightarrow> mmu_op \<Rightarrow> 'i mmu_mem \<times> 'h kb \<Rightarrow>
   (int \<times> 'i mmu_mem \<times> 'h kb) option" where
  "mmu_exec mode hw env mmut as_nr (Op_Insert v phys flags group_id) skb =
     kbase_mmu_insert_pages mode hw env mmut v phys (length phys) flags as_nr group_id skb"
| "mmu_exec mode hw env mmut as_nr (Op_Update v phys flags group_id) skb =
     kbase_mmu_update_pages mode hw env mmut v phys (length phys) flags group_id skb"
| "mmu_exec mode hw env mmut as_nr (Op_Teardown v nr) skb =
     kbase_mmu_teardown_pages mode hw env mmut v nr as_nr skb"

fun mmu_run ::
  "kbase_mmu_mode \<Rightarrow> 'h mmio \<Rightarrow> flush_env \<Rightarrow> 'i mmu_table \<Rightarrow> nat \<Rightarrow> mmu_op list \<Rightarrow> 'i mmu_mem \<times> 'h kb \<Rightarrow>
   ('i mmu_mem \<times> 'h kb) option" where
  "mmu_run mode hw env mmut as_nr [] skb = Some skb"
| "mmu_run mode hw env mmut as_nr (c # cs) skb =
     Option.bind (mmu_exec mode hw env mmut as_nr c skb) (\<lambda>(err, skb'). mmu_run mode hw env mmut as_nr cs skb')"

context entry_codec
begin

lemma mmu_exec_keeps:
  assumes "mmu_inv mode mmut s" and "op_ok c"
  shows "\<exists>err s' kb'. mmu_exec mode hw env mmut as_nr c (s, kb) = Some (err, s', kb') \<and> mmu_inv mode mmut s' \<and>
    (\<forall>w. unat w < 2 ^ 36 \<longrightarrow> \<not> op_touches c w \<longrightarrow>
       mapped_entry mode (mt_pgd mmut) s' w = mapped_entry mode (mt_pgd mmut) s w)"
proof (cases c)
  case (Op_Insert v phys flags g)
  then obtain err s' m where i: "kbase_mmu_insert_pages mode hw env mmut v phys (length phys) flags as_nr g (s, kb) =
      Some (err, s', flush_table hw env mmut v (length phys) False as_nr kb)"
    "maps_to mode mmut s (unat v) (ates flags phys) s' \<or>
     m \<le> length phys \<and> maps_to mode mmut s (unat v) (replicate m None) s'"
    using insert_pages_result [OF assms(1), of v phys hw env flags as_nr g kb] assms(2) by (auto simp: op_ok_def)
  have "mapped_entry mode (mt_pgd mmut) s' w = mapped_entry mode (mt_pgd mmut) s w"
    if "unat w < 2 ^ 36" "\<not> op_touches c w" for w
    using i(2) that Op_Insert by (auto simp: op_touches_def intro!: maps_to_page)
  then show ?thesis using i Op_Insert by (auto dest: maps_toD(1))
next
  case (Op_Update v phys flags g)
  then obtain err s' m where i: "kbase_mmu_update_pages mode hw env mmut v phys (length phys) flags g (s, kb) =
      Some (err, s', kbase_mmu_flush_invalidate hw env v (length phys) True kb)"
    "maps_to mode mmut s (unat v) (ates flags (take m phys)) s'"
    using update_pages_result [OF assms(1), of v phys hw env flags g kb] assms(2) by (auto simp: op_ok_def)
  have "mapped_entry mode (mt_pgd mmut) s' w = mapped_entry mode (mt_pgd mmut) s w"
    if "unat w < 2 ^ 36" "\<not> op_touches c w" for w
    using that Op_Update by (intro maps_to_page [OF i(2)]) (auto simp: op_touches_def)
  then show ?thesis using i maps_toD(1) [OF i(2)] Op_Update by auto
next
  case (Op_Teardown v nr)
  then obtain s' kb' where t: "kbase_mmu_teardown_pages mode hw env mmut v nr as_nr (s, kb) = Some (0, s', kb')"
    "removes mmut s (unat v) nr s'"
    using teardown_pages_result [OF assms(1), of v nr hw env as_nr kb] assms(2) by (auto simp: op_ok_def)
  have "mapped_entry mode (mt_pgd mmut) s' w = mapped_entry mode (mt_pgd mmut) s w"
    if "unat w < 2 ^ 36" "\<not> op_touches c w" for w
    using removesD [OF t(2) that(1)] that(2) Op_Teardown by (auto simp: op_touches_def)
  moreover have "mmu_inv mode mmut s'" using t(2) by (simp add: removes_def)
  ultimately show ?thesis using t(1) Op_Teardown by auto
qed

lemma mmu_run_keeps:
  assumes "mmu_inv mode mmut s" and "\<forall>c \<in> set cs. op_ok c"
  shows "\<exists>s' kb'. mmu_run mode hw env mmut as_nr cs (s, kb) = Some (s', kb') \<and> mmu_inv mode mmut s' \<and>
    (\<forall>w. unat w < 2 ^ 36 \<longrightarrow> (\<forall>c \<in> set cs. \<not> op_touches c w) \<longrightarrow>
       mapped_entry mode (mt_pgd mmut) s' w = mapped_entry mode (mt_pgd mmut) s w)"
  using assms
proof (induction cs arbitrary: s kb)
  case Nil
  then show ?case by simp
next
  case (Cons c cs)
  obtain err s1 kb1 where e: "mmu_exec mode hw env mmut as_nr c (s, kb) = Some (err, s1, kb1)" "mmu_inv mode mmut s1"
    "\<And>w. unat w < 2 ^ 36 \<Longrightarrow> \<not> op_touches c w \<Longrightarrow>
       mapped_entry mode (mt_pgd mmut) s1 w = mapped_entry mode (mt_pgd mmut) s w"
    using mmu_exec_keeps [OF Cons.prems(1), of c hw env as_nr kb] Cons.prems(2) by auto
  then show ?case using Cons.IH [OF e(2), of kb1] Cons.prems(2) by auto
qed

end

section \<open>Properties\<close>

lemma entry_codec_modes: "mode = aarch64_mode \<or> mode = lpae_mode \<Longrightarrow> entry_codec mode"
  using aarch64.entry_codec_axioms lpae.entry_codec_axioms by auto

text \<open>A table with a root and nothing below it, for the examples.\<close>

definition demo_table :: "nat mmu_table" where
  "demo_table = \<lparr> mt_pgd = 0x1000, mt_pool = 0, mt_kctx = True \<rparr>"

definition demo_base :: "u64 list \<Rightarrow> nat mmu_mem" where
  "demo_base ps =
     \<lparr> mm = \<lparr> pools = (\<lambda>i. \<lparr> page_list = ps, pool_size = length ps, max_size = 64, pool_order = 0, pool_group_id = 0,
                              pool_next = None, dying = False, dont_reclaim = False \<rparr>),
              page_mem = \<lparr> frames = (\<lambda>p i. 0), mappable = (\<lambda>p. True) \<rparr>,
              answers = [], taken = [], released = [], synced = [] \<rparr>,
       kctx_used_pages = 0, kbdev_used_pages = 0, nr_table_pages = 0, recorded_pgd = 0 \<rparr>"

definition demo_mem :: "nat mmu_mem" where
  "demo_mem = put_entries_at 0x1000 0 (replicate 512 (entry_invalidate aarch64_mode))
     (demo_base [0x2000, 0x3000, 0x4000])"

definition demo_env :: flush_env where
  "demo_env = \<lparr> in_runpool = False, ctx_as_nr = 0, gpu_powered = False \<rparr>"

lemma demo_stock: "stock 0 (mm demo_mem) = [0x2000, 0x3000, 0x4000]" "pool_ready 0 (mm demo_mem)"
  by (simp_all add: stock_def pool_ready_def demo_mem_def demo_base_def)

lemma demo_aligned: "page_aligned 0x1000" "page_aligned 0x2000" "page_aligned 0x3000" "page_aligned 0x4000"
  by (simp_all add: page_aligned_def take_bit_eq_mod)

lemma demo_usable: "page_aligned p \<Longrightarrow> p \<noteq> 0 \<Longrightarrow> usable demo_mem p"
  by (simp add: usable_def kmap_ok_def demo_mem_def) (simp add: demo_base_def)

lemma demo_inv: "mmu_inv aarch64_mode demo_table demo_mem"
  and demo_unmapped: "mapped_entry aarch64_mode (mt_pgd demo_table) demo_mem w = None"
proof -
  have f: "pool_ready (mt_pool demo_table) (mm demo_mem)" "usable demo_mem (mt_pgd demo_table)"
    "\<And>p. p \<in> set (stock (mt_pool demo_table) (mm demo_mem)) \<Longrightarrow> usable demo_mem p \<and> p \<noteq> mt_pgd demo_table"
    "\<And>i. i < 512 \<Longrightarrow> get_entry demo_mem (mt_pgd demo_table) i = entry_invalidate aarch64_mode"
    using demo_aligned by (auto simp: demo_table_def demo_stock demo_usable)
      (simp add: demo_mem_def get_entry_put_entries_at)
  show "mmu_inv aarch64_mode demo_table demo_mem" "mapped_entry aarch64_mode (mt_pgd demo_table) demo_mem w = None"
    by (rule aarch64.fresh_table [OF f]; assumption)+
qed

lemma demo_not_huge: "\<forall>p \<in> set [0x9000, 0xA000]. \<not> is_huge_head p"
  by (simp add: is_huge_head_def HUGE_HEAD_def HUGE_PAGE_def)

text \<open>
  C3. Insertion of small pages returns, in both page table formats, and keeps the invariant of the
  tables. With error 0 exactly the pages of the range have new entries, made of the pages given;
  otherwise the error is -12 and, when nothing was mapped in the range, nothing has changed. The
  TLB is flushed in both cases.
\<close>

theorem kbase_mmu_insert_pages_maps:
  assumes "mode = aarch64_mode \<or> mode = lpae_mode" and "mmu_inv mode mmut s"
    and "unat v + length phys \<le> 2 ^ 36" and "length phys < 2 ^ 32" and "\<forall>p \<in> set phys. \<not> is_huge_head p"
    and "\<forall>w. unat v \<le> unat w \<longrightarrow> unat w < unat v + length phys \<longrightarrow> mapped_entry mode (mt_pgd mmut) s w = None"
  shows "\<exists>err s'. kbase_mmu_insert_pages mode hw env mmut v phys (length phys) flags as_nr group_id (s, kb) =
      Some (err, s', flush_table hw env mmut v (length phys) False as_nr kb) \<and> mmu_inv mode mmut s' \<and>
    (err = 0 \<and> (\<forall>w. unat w < 2 ^ 36 \<longrightarrow> mapped_entry mode (mt_pgd mmut) s' w =
       (if unat v \<le> unat w \<and> unat w < unat v + length phys
        then Some (entry_set_ate mode (phys ! (unat w - unat v)) flags 3) else mapped_entry mode (mt_pgd mmut) s w)) \<or>
     err = -12 \<and> (\<forall>w. unat w < 2 ^ 36 \<longrightarrow>
       mapped_entry mode (mt_pgd mmut) s' w = mapped_entry mode (mt_pgd mmut) s w))"
proof -
  note C = entry_codec_modes [OF assms(1)]
  let ?f = "mapped_entry mode (mt_pgd mmut)"
  obtain err s' m where r: "kbase_mmu_insert_pages mode hw env mmut v phys (length phys) flags as_nr group_id (s, kb) =
      Some (err, s', flush_table hw env mmut v (length phys) False as_nr kb)"
    "err = 0 \<and> maps_to mode mmut s (unat v) (entry_codec.ates mode flags phys) s' \<or>
     err = -12 \<and> m \<le> length phys \<and> maps_to mode mmut s (unat v) (replicate m None) s'"
    using entry_codec.insert_pages_result [OF C assms(2-5)] by blast
  have ok: "?f s' w = (if unat v \<le> unat w \<and> unat w < unat v + length phys
      then Some (entry_set_ate mode (phys ! (unat w - unat v)) flags 3) else ?f s w)"
    if "maps_to mode mmut s (unat v) (entry_codec.ates mode flags phys) s'" "unat w < 2 ^ 36" for w
    using maps_toD(3) [OF that] by (auto simp: overlay_def entry_codec.ates_def [OF C] less_diff_conv2)
  have undone: "?f s' w = ?f s w"
    if "m \<le> length phys" "maps_to mode mmut s (unat v) (replicate m None) s'" "unat w < 2 ^ 36" for w
    using maps_toD(3) [OF that(2,3)] that(1) assms(6) by (auto simp: overlay_def)
  from r(2) show ?thesis
  proof (elim disjE conjE)
    assume "err = 0" and m: "maps_to mode mmut s (unat v) (entry_codec.ates mode flags phys) s'"
    then show ?thesis using r(1) maps_toD(1) [OF m] ok [OF m]
      by (intro exI [of _ err] exI [of _ s']) simp
  next
    assume "err = -12" "m \<le> length phys" and m: "maps_to mode mmut s (unat v) (replicate m None) s'"
    then show ?thesis using r(1) maps_toD(1) [OF m] undone
      by (intro exI [of _ err] exI [of _ s']) simp
  qed
qed

lemma kbase_mmu_insert_pages_maps_witness:
  "\<exists>err s'. kbase_mmu_insert_pages aarch64_mode (log_regs 0) demo_env demo_table 5 [0x9000, 0xA000] 2 0 0 0
      (demo_mem, demo_kb) = Some (err, s', flush_table (log_regs 0) demo_env demo_table 5 2 False 0 demo_kb) \<and>
    mmu_inv aarch64_mode demo_table s'"
proof -
  have two: "length [0x9000, 0xA000 :: u64] = 2" by simp
  have r: "unat (5 :: u64) + 2 \<le> 2 ^ 36" "(2 :: nat) < 2 ^ 32" by simp_all
  show ?thesis
    using kbase_mmu_insert_pages_maps [OF disjI1 [OF refl] demo_inv _ _ demo_not_huge, unfolded two, OF r,
        where hw = "log_regs 0" and env = demo_env and flags = 0 and as_nr = 0 and group_id = 0 and kb = demo_kb]
      demo_unmapped by blast
qed

text \<open>
  C29. Removal returns 0, in both page table formats, keeps the invariant and touches no page outside
  its range; a page of the range loses its entry, or keeps it where a bottom table of the range is
  missing. All of the range is unmapped if all its bottom tables are there.
\<close>

theorem kbase_mmu_teardown_pages_removes:
  assumes "mode = aarch64_mode \<or> mode = lpae_mode" and "mmu_inv mode mmut s" and "unat v + nr \<le> 2 ^ 36"
  shows "\<exists>s' kb'. kbase_mmu_teardown_pages mode hw env mmut v nr as_nr (s, kb) = Some (0, s', kb') \<and>
    mmu_inv mode mmut s' \<and>
    (\<forall>w. unat w < 2 ^ 36 \<longrightarrow> mapped_entry mode (mt_pgd mmut) s' w = mapped_entry mode (mt_pgd mmut) s w \<or>
       mapped_entry mode (mt_pgd mmut) s' w = None \<and> unat v \<le> unat w \<and> unat w < unat v + nr) \<and>
    ((\<forall>w. unat v \<le> unat w \<longrightarrow> unat w < unat v + nr \<longrightarrow> table_at mode (mt_pgd mmut) s w 3 \<noteq> None) \<longrightarrow>
       (\<forall>w. unat v \<le> unat w \<longrightarrow> unat w < unat v + nr \<longrightarrow> mapped_entry mode (mt_pgd mmut) s' w = None))"
proof -
  note C = entry_codec_modes [OF assms(1)]
  obtain s' kb' where t: "kbase_mmu_teardown_pages mode hw env mmut v nr as_nr (s, kb) = Some (0, s', kb')"
    and r: "entry_codec.removes mode mmut s (unat v) nr s'"
    using entry_codec.teardown_pages_result [OF C assms(2,3)] by blast
  show ?thesis using t r unfolding entry_codec.removes_def [OF C] by blast
qed

lemma kbase_mmu_teardown_pages_removes_witness:
  "\<exists>s' kb'. kbase_mmu_teardown_pages aarch64_mode (log_regs 0) demo_env demo_table 3 700 0 (demo_mem, demo_kb) =
      Some (0, s', kb') \<and> mmu_inv aarch64_mode demo_table s'"
  using kbase_mmu_teardown_pages_removes [OF disjI1 [OF refl] demo_inv, of 3 700 "log_regs 0" demo_env 0 demo_kb]
  by auto

text \<open>
  C27. Pages that were inserted where nothing was mapped and are then removed leave every mapping as
  it was.
\<close>

theorem insert_teardown_roundtrip:
  assumes "mode = aarch64_mode \<or> mode = lpae_mode" and "mmu_inv mode mmut s"
    and "unat v + length phys \<le> 2 ^ 36" and "length phys < 2 ^ 32" and "\<forall>p \<in> set phys. \<not> is_huge_head p"
    and "\<forall>w. unat v \<le> unat w \<longrightarrow> unat w < unat v + length phys \<longrightarrow> mapped_entry mode (mt_pgd mmut) s w = None"
    and "kbase_mmu_insert_pages mode hw env mmut v phys (length phys) flags as_nr group_id (s, kb) = Some (0, s1, kb1)"
  shows "\<exists>s' kb'. kbase_mmu_teardown_pages mode hw env mmut v (length phys) as_nr (s1, kb1) = Some (0, s', kb') \<and>
    mmu_inv mode mmut s' \<and>
    (\<forall>w. unat w < 2 ^ 36 \<longrightarrow> mapped_entry mode (mt_pgd mmut) s' w = mapped_entry mode (mt_pgd mmut) s w)"
proof -
  note C = entry_codec_modes [OF assms(1)]
  have m: "maps_to mode mmut s (unat v) (entry_codec.ates mode flags phys) s1"
    using entry_codec.insert_pages_result [OF C assms(2-5), of hw env flags as_nr group_id kb] assms(7) by auto
  obtain s' kb' where t: "kbase_mmu_teardown_pages mode hw env mmut v (length phys) as_nr (s1, kb1) = Some (0, s', kb')"
    and r: "entry_codec.removes mode mmut s1 (unat v) (length phys) s'"
    using entry_codec.teardown_pages_result [OF C maps_toD(1) [OF m] assms(3)] by blast
  have "mapped_entry mode (mt_pgd mmut) s' w = mapped_entry mode (mt_pgd mmut) s w" if "unat w < 2 ^ 36" for w
    by (rule entry_codec.insert_then_removes [OF C m r _ assms(3) that]) (use assms(6) in blast)
  moreover have "mmu_inv mode mmut s'" using r unfolding entry_codec.removes_def [OF C] by blast
  ultimately show ?thesis using t by blast
qed

lemma insert_teardown_roundtrip_witness:
  "\<exists>s1 kb1 s' kb'.
     kbase_mmu_insert_pages aarch64_mode (log_regs 0) demo_env demo_table 5 [0x9000, 0xA000] 2 0 0 0 (demo_mem, demo_kb)
       = Some (0, s1, kb1) \<and>
     kbase_mmu_teardown_pages aarch64_mode (log_regs 0) demo_env demo_table 5 2 0 (s1, kb1) = Some (0, s', kb') \<and>
     mapped_entry aarch64_mode 0x1000 s' 6 = None"
proof -
  have two: "length [0x9000, 0xA000 :: u64] = 2" by simp
  have "pgd_index 5 3 + 2 \<le> 512" "3 \<le> length (page_list (pools (mm demo_mem) (mt_pool demo_table)))"
    by (simp_all add: pgd_index_3 demo_mem_def demo_base_def)
  then obtain s1 kb1 where i:
    "kbase_mmu_insert_pages aarch64_mode (log_regs 0) demo_env demo_table 5 [0x9000, 0xA000] 2 0 0 0 (demo_mem, demo_kb)
       = Some (0, s1, kb1)"
    using aarch64.insert_pages_ok [OF demo_inv _ _ demo_not_huge, unfolded two, of 5 "log_regs 0" demo_env 0 0 0 demo_kb]
    by blast
  obtain s' kb' where
    "kbase_mmu_teardown_pages aarch64_mode (log_regs 0) demo_env demo_table 5 2 0 (s1, kb1) = Some (0, s', kb')"
    "\<forall>w. unat w < 2 ^ 36 \<longrightarrow> mapped_entry aarch64_mode (mt_pgd demo_table) s' w = None"
    using insert_teardown_roundtrip [OF disjI1 [OF refl] demo_inv _ _ demo_not_huge, unfolded two demo_unmapped, OF _ _ _ i]
    by auto
  then show ?thesis using i by (auto simp: demo_table_def)
qed

text \<open>
  C7. Set-up of the table of a context either fails with -22 or -12 or makes a table in which nothing is mapped, and from then
  on every sequence of insertions, updates and removals returns, whatever the errors of its
  operations are, keeps the invariant (every table is reached on one path and holds entries of its
  level only), and leaves the pages that none of the operations names unmapped.
\<close>

theorem kbase_mmu_runs_typed:
  assumes "mode = aarch64_mode \<or> mode = lpae_mode"
    and "pool_ready (small_pool group_id) (mm s)" and "\<forall>p \<in> set (stock (small_pool group_id) (mm s)). usable s p"
    and "\<forall>c \<in> set cs. op_ok c"
  shows "\<exists>err mmut' s1. kbase_mmu_init mode malloc_ok True group_id small_pool mmut s = Some (err, mmut', s1) \<and>
    (err = -12 \<or> err = -22 \<or>
     err = 0 \<and> (\<exists>s' kb'. mmu_run mode hw env mmut' as_nr cs (s1, kb) = Some (s', kb') \<and> mmu_inv mode mmut' s' \<and>
       (\<forall>w. unat w < 2 ^ 36 \<longrightarrow> (\<forall>c \<in> set cs. \<not> op_touches c w) \<longrightarrow> mapped_entry mode (mt_pgd mmut') s' w = None)))"
proof -
  note C = entry_codec_modes [OF assms(1)]
  have st: "stock_usable (small_pool group_id) s"
    using assms(2,3) by (simp add: stock_usable_def)
  obtain err mmut' s1 where i: "kbase_mmu_init mode malloc_ok True group_id small_pool mmut s = Some (err, mmut', s1)"
    "err = -12 \<or> err = -22 \<or> err = 0 \<and> mmu_inv mode mmut' s1 \<and> (\<forall>w. mapped_entry mode (mt_pgd mmut') s1 w = None)"
    using entry_codec.kbase_mmu_init_ready [OF C, where small_pool = small_pool and group_id = group_id, OF st] by blast
  show ?thesis
  proof (cases "err = 0")
    case True
    then have inv: "mmu_inv mode mmut' s1" "\<forall>w. mapped_entry mode (mt_pgd mmut') s1 w = None" using i(2) by auto
    show ?thesis using entry_codec.mmu_run_keeps [OF C inv(1) assms(4), of hw env as_nr kb] i(1) True inv(2) by auto
  qed (use i in auto)
qed

text \<open>
  Where a bottom table is missing, removal goes on 512 pages later even if it is not at the
  start of the table: pages of the range that the next table maps stay mapped, and 0 is returned.
\<close>

theorem kbase_mmu_teardown_pages_skips:
  assumes "mode = aarch64_mode \<or> mode = lpae_mode"
    and "table_at mode (mt_pgd mmut) s v 2 = Some t" and "get_entry s t (pgd_index v 2) = entry_invalidate mode"
    and "nr \<noteq> 0" and "nr \<le> 512"
    and "unat v < unat w" and "unat w < unat v + nr" and "mapped_entry mode (mt_pgd mmut) s w = Some e"
  shows "\<exists>s' kb'. kbase_mmu_teardown_pages mode hw env mmut v nr as_nr (s, kb) = Some (0, s', kb') \<and>
    mapped_entry mode (mt_pgd mmut) s' w = Some e"
  using entry_codec.teardown_skips [OF entry_codec_modes [OF assms(1)] assms(2,3,5)] assms(4,8)
  by (simp add: kbase_mmu_teardown_pages_def)

lemma kbase_mmu_runs_typed_witness:
  "\<exists>err mmut' s1. kbase_mmu_init lpae_mode True True 0 nat demo_table demo_mem = Some (err, mmut', s1) \<and>
    (err = -12 \<or> err = -22 \<or>
     err = 0 \<and> (\<exists>s' kb'. mmu_run lpae_mode (log_regs 0) demo_env mmut' 0
         [Op_Insert 5 [0x9000, 0xA000] 0 0, Op_Update 6 [0xB000] 0 0, Op_Teardown 4 600] (s1, demo_kb) = Some (s', kb') \<and>
       mmu_inv lpae_mode mmut' s'))"
proof -
  let ?cs = "[Op_Insert 5 [0x9000, 0xA000] 0 0, Op_Update 6 [0xB000] 0 0, Op_Teardown 4 600]"
  have st: "pool_ready (nat 0) (mm demo_mem)" "\<forall>p \<in> set (stock (nat 0) (mm demo_mem)). usable demo_mem p"
    using demo_aligned by (auto simp: demo_stock demo_usable)
  have ok: "\<forall>c \<in> set ?cs. op_ok c"
    using demo_not_huge by (simp add: op_ok_def)
  show ?thesis
    using kbase_mmu_runs_typed [OF disjI2 [OF refl], where small_pool = nat and group_id = 0, OF st ok,
        of True demo_table "log_regs 0" demo_env 0 demo_kb] by blast
qed

text \<open>Page 512 is mapped, and the bottom table of page 511 is missing.\<close>

definition demo_hole :: "nat mmu_mem" where
  "demo_hole = put_entry 0x4000 0 (entry_set_ate aarch64_mode 0x9000 0 3)
     (put_entry 0x3000 0 (entry_invalidate aarch64_mode)
     (put_entry 0x3000 1 (entry_set_pte aarch64_mode 0x4000)
     (put_entry 0x2000 0 (entry_set_pte aarch64_mode 0x3000)
     (put_entry 0x1000 0 (entry_set_pte aarch64_mode 0x2000) (demo_base [])))))"

lemma kbase_mmu_teardown_pages_skips_witness:
  "\<exists>s' kb' e. kbase_mmu_teardown_pages aarch64_mode (log_regs 0) demo_env demo_table 511 2 0 (demo_hole, demo_kb) =
      Some (0, s', kb') \<and> mapped_entry aarch64_mode (mt_pgd demo_table) s' 512 = Some e"
proof -
  have m: "(0x1000 :: u64) AND PAGE_MASK = 0x1000" "(0x2000 :: u64) AND PAGE_MASK = 0x2000"
    "(0x3000 :: u64) AND PAGE_MASK = 0x3000" "(0x4000 :: u64) AND PAGE_MASK = 0x4000"
    using demo_aligned by (simp_all add: and_mask_page)
  note get = demo_hole_def get_entry_put_entry m
  have u: "usable demo_mem 0x2000" "usable demo_mem 0x3000" "usable demo_mem 0x4000"
    using demo_aligned by (simp_all add: demo_usable)
  note entries = aarch64.table_entry_pte [OF _ u(1)] aarch64.table_entry_pte [OF _ u(2)]
    aarch64.table_entry_pte [OF _ u(3)]
  have ix: "pgd_index 511 0 = 0" "pgd_index 511 1 = 0" "pgd_index 511 2 = 0"
    "pgd_index 512 0 = 0" "pgd_index 512 1 = 0" "pgd_index 512 2 = 1" "pgd_index 512 3 = 0"
    by (simp_all add: pgd_index_nat)
  have t2: "table_at aarch64_mode (mt_pgd demo_table) demo_hole v 2 = Some 0x3000" if "v = 511 \<or> v = 512" for v
  proof -
    have z: "pgd_index v 0 = 0" "pgd_index v 1 = 0" using that ix by auto
    have "table_at aarch64_mode (mt_pgd demo_table) demo_hole v 1 = Some 0x2000"
      unfolding One_nat_def by (simp add: z get demo_table_def entries)
    then show ?thesis unfolding numeral_2_eq_2 One_nat_def by (simp add: z [unfolded One_nat_def] get entries)
  qed
  have i: "get_entry demo_hole 0x3000 (pgd_index 511 2) = entry_invalidate aarch64_mode"
    by (simp add: get ix)
  have g: "table_entry aarch64_mode 2 (get_entry demo_hole 0x3000 1) = Some 0x4000"
    by (simp add: get entries)
  have three: "(3 :: nat) = Suc 2" by simp
  have "table_at aarch64_mode (mt_pgd demo_table) demo_hole 512 3 = Some 0x4000"
    unfolding three table_at.simps(2) t2 [OF disjI2 [OF refl]] option.case ix by (rule g)
  then have e: "mapped_entry aarch64_mode (mt_pgd demo_table) demo_hole 512 = Some (entry_set_ate aarch64_mode 0x9000 0 3)"
    by (simp add: mapped_entry_def get ix aarch64.ate_valid)
  show ?thesis
    using kbase_mmu_teardown_pages_skips [OF disjI1 [OF refl] t2 i _ _ _ _ e, of 2 "log_regs 0" demo_env 0 demo_kb] by auto
qed

end
