(* ===== verification/KB_GpuShows.thy ===== *)
theory KB_GpuShows
  imports KB_GpuMmap KB_RegionProps KB_MmuPages
begin

text \<open>
  What the GPU sees: the page table of a context maps exactly the memory of the regions in use, each
  at its address. Mapping a region and freeing one keep this.
\<close>

unbundle bit_operations_syntax

section \<open>Regions in use\<close>

lemma used_zone:
  assumes "zones_wf c k lo hi" and "i \<in> used k z"
  shows "i \<in> set (rb_list (trees k z))" "\<not> has_flag k i KBASE_REG_FREE" "reg_tree (regions k i) = z" "i < next_reg k"
    and "start_pfn (regions k i) \<noteq> 0"
    and "unat (start_pfn (regions k i)) + unat (nr_pages (regions k i)) \<le> hi z"
    and "unat (start_pfn (regions k i) + nr_pages (regions k i)) = unat (start_pfn (regions k i)) + unat (nr_pages (regions k i))"
proof -
  show i: "i \<in> set (rb_list (trees k z))" "\<not> has_flag k i KBASE_REG_FREE" using assms(2) by (simp_all add: used_def)
  show "reg_tree (regions k i) = z" "i < next_reg k" "start_pfn (regions k i) \<noteq> 0" using tree_start [OF assms(1) i(1)] by simp_all
  show "unat (start_pfn (regions k i)) + unat (nr_pages (regions k i)) \<le> hi z"
    "unat (start_pfn (regions k i) + nr_pages (regions k i)) = unat (start_pfn (regions k i)) + unat (nr_pages (regions k i))"
    using zone_region [OF zones_zone [OF assms(1)] i(1)] by simp_all
qed

lemma used_other:
  assumes r: "rest_same z is k k'" "\<forall>j \<in> is. j < next_reg k \<and> reg_tree (regions k j) = z"
    and w: "zones_wf c k lo hi" and y: "y \<noteq> z"
  shows "used k' y = used k y" and "j \<in> used k y \<Longrightarrow> regions k' j = regions k j"
proof -
  have t: "trees k' y = trees k y" using r(1) y by (simp add: rest_same_def)
  have s: "regions k' j = regions k j" if "j \<in> set (rb_list (trees k y))" for j
  proof -
    have "reg_tree (regions k j) = y" "j < next_reg k" using tree_start [OF w that] by simp_all
    then show ?thesis using r y by (auto simp: rest_same_def)
  qed
  then show "used k' y = used k y" by (auto simp: used_def t has_flag_def)
  show "regions k' j = regions k j" if "j \<in> used k y" using that s by (simp add: used_def)
qed

lemma add_used:
  assumes ok: "rb_ok rb" and w: "zones_wf c k lo hi" and a: "addable k z new" and n: "0 < unat n" "unat n \<le> 2 ^ 52"
    and r: "kbase_add_va_region_rbtree rb new addr n align k = (0, k')"
  shows "used k' y = (if y = z then insert new (used k z) else used k y)"
    and "j \<in> used k y \<Longrightarrow> regions k' j = regions k j"
    and "\<exists>s. regions k' new = (regions k new)\<lparr> start_pfn := s, nr_pages := n \<rparr>"
proof -
  obtain xs i ys s where i: "insertable k z (lo z) (hi z) xs i ys new s n" "kbase_insert_va_region_nolock rb new i s n k = (0, k')"
    using add_cases [OF zones_zone [OF w] a n r] by (metis zero_neq_neg_numeral)
  note c = insert_carves [OF ok i]
  have f: "\<forall>j \<in> {new, i}. j < next_reg k \<and> reg_tree (regions k j) = z" using add_frame [OF i(1)] by blast
  note o = used_other [OF c(3) f w]
  show "used k' y = (if y = z then insert new (used k z) else used k y)" using c(6) o(1) by simp
  show "regions k' j = regions k j" if "j \<in> used k y" using that c(7) o(2) by (cases "y = z") auto
  show "\<exists>s. regions k' new = (regions k new)\<lparr> start_pfn := s, nr_pages := n \<rparr>" using c(4) by blast
qed

lemma remove_used:
  assumes ok: "rb_ok rb" and w: "zones_wf c k lo hi" and i: "i \<in> set (rb_list (trees k z))"
    and r: "kbase_remove_va_region rb i k = (0, k')"
  shows "used k' y = used k y - {i}" and "j \<in> used k' y \<Longrightarrow> regions k' j = regions k j"
    and "zones_wf c k' lo hi" and "segs k' y = (if y = z then release (unat (start_pfn (regions k i))) (segs k z) else segs k y)"
proof -
  note R = remove_releases [OF ok zones_zone [OF w] i r, unfolded removed_def]
  obtain js where js: "rest_same z js k k'" "\<forall>j \<in> js. j < next_reg k \<and> reg_tree (regions k j) = z" using R by blast
  note o = used_other [OF js w]
  have i': "i \<notin> used k y" if "y \<noteq> z" using tree_start(3) [OF w i] used_zone(3) [OF w, of i y] that by auto
  show "used k' y = used k y - {i}" using R o(1) i' by (cases "y = z") auto
  show "regions k' j = regions k j" if "j \<in> used k' y" using that R o by (cases "y = z") auto
  show "zones_wf c k' lo hi" by (rule zones_wf_other [OF w js]) (use R in simp)
  have "segs k' y = segs k y" if "y \<noteq> z"
    using js(2) by (intro zone_other(1) [OF js(1) _ that zones_zone [OF w]]) auto
  then show "segs k' y = (if y = z then release (unat (start_pfn (regions k i))) (segs k z) else segs k y)" using R by simp
qed

lemma remove_fails:
  assumes "kbase_remove_va_region rb i k = (err, k')" and "err \<noteq> 0"
  shows "trees k' = trees k" and "regions k' j = regions k j"
  using assms
  by (auto simp: kbase_remove_va_region_def merge_prev_def merge_next_def kbase_alloc_free_region_def Let_def
      split: option.splits if_splits prod.splits list.splits bool.splits)

text \<open>The last reference of a region in use is dropped, and the region leaves its tree.\<close>

lemma free_alloced_last:
  assumes ok: "rb_ok rb" and w: "zones_wf c k lo hi" and i: "i \<in> used k z" and n: "va_refcnt (regions k i) = 1"
    and f: "\<not> has_flag k i KBASE_REG_VA_FREED" "reg_flags (regions k i) AND KBASE_REG_ZONE_MASK \<noteq> KBASE_REG_ZONE_MASK"
    and out: "i \<notin> set (rb_list (trees (kbase_free_alloced_region rb i k) z))"
  defines "k' \<equiv> kbase_free_alloced_region rb i k"
  shows "used k' y = used k y - {i}" and "j \<in> used k' y \<Longrightarrow> regions k' j = regions k j" and "zones_wf c k' lo hi"
    and "segs k' y = (if y = z then release (unat (start_pfn (regions k i))) (segs k z) else segs k y)"
proof -
  note u = used_zone [OF w i]
  let ?k1 = "upd_region i (\<lambda>r. r\<lparr> reg_flags := reg_flags r OR KBASE_REG_VA_FREED \<rparr>) k"
  let ?k2 = "count_down i ?k1"
  have fl: "(x OR KBASE_REG_VA_FREED) AND KBASE_REG_FREE = x AND KBASE_REG_FREE" for x :: u64
    by (simp add: KBASE_REG_VA_FREED_def KBASE_REG_FREE_def bit.conj_disj_distrib2)
  have h: "has_flag ?k1 j KBASE_REG_FREE = has_flag k j KBASE_REG_FREE" for j by (simp add: has_flag_def fl)
  have w1: "zones_wf c ?k1 lo hi" by (rule upd_zones_wf [OF w]) (simp_all add: fl)
  have w2: "zones_wf c ?k2 lo hi" by (rule count_down_wf(1) [OF w1])
  have u2: "used ?k2 y = used k y" for y by (simp add: used_def h)
  have s2: "segs ?k2 y = segs k y" for y
    using upd_region_wf(2) [OF zones_zone [OF w], of "\<lambda>r. r\<lparr> reg_flags := reg_flags r OR KBASE_REG_VA_FREED \<rparr>"] by (simp add: fl)
  have i2: "i \<in> set (rb_list (trees ?k2 z))" using u(1) by simp
  obtain err k3 where k3: "kbase_remove_va_region rb i ?k2 = (err, k3)" by fastforce
  have k': "k' = kfree_region i k3"
    using u(2,5) n f k3 by (simp add: k'_def kbase_free_alloced_region_def put_unfold kbase_region_refcnt_free_def)
  have err: "err = 0" using remove_fails(1) [OF k3] out i2 by (cases "err = 0") (simp_all add: k' [unfolded k'_def])
  note R = remove_used [OF ok w2 i2 k3 [unfolded err]]
  have h3: "has_flag k' j F = has_flag k3 j F" for j F by (simp add: k' has_flag_def)
  show u': "used k' y = used k y - {i}" for y using R(1) [of y] u2 by (simp add: used_def h3) (simp add: k')
  show "regions k' j = regions k j" if "j \<in> used k' y"
  proof -
    have j: "j \<in> used k3 y" "j \<noteq> i" using that u' [of y] R(1) [of y] by (simp_all add: u2)
    then show ?thesis using R(2) [OF j(1)] by (simp add: k' count_down_def)
  qed
  show "segs k' y = (if y = z then release (unat (start_pfn (regions k i))) (segs k z) else segs k y)"
  proof -
    have "segs k' y = segs k3 y" by (simp add: k' segs_def seg_def has_flag_def)
    then show ?thesis unfolding R(4) s2 by simp
  qed
  have "\<And>y. i \<notin> set (rb_list (trees k3 y))"
  proof -
    fix y show "i \<notin> set (rb_list (trees k3 y))"
    proof (cases "y = z")
      case True
      then show ?thesis using out by (simp add: k' [unfolded k'_def])
    next
      case False
      then show ?thesis using tree_start(3) [OF R(3)] remove_releases [OF ok zones_zone [OF w2] i2 k3 [unfolded err]] u(3) tree_start(3) [OF w, of i y]
        by (auto simp: removed_def rest_same_def)
    qed
  qed
  moreover have "i < next_reg k3"
    using remove_releases [OF ok zones_zone [OF w2] i2 k3 [unfolded err]] u(4) by (auto simp: removed_def rest_same_def)
  ultimately show "zones_wf c k' lo hi" unfolding k' by (intro outside_wf [OF R(3)]) auto
qed

section \<open>What the page table shows\<close>

definition gpu_entry :: "('i, 'h) genv \<Rightarrow> ('i, 'h) gctx \<Rightarrow> u64 \<Rightarrow> u64 option" where
  "gpu_entry env s = mapped_entry (ge_mode env) (mt_pgd (ge_mmut env)) (pmem (gph s))"

definition live_regions :: "('i, 'h) gctx \<Rightarrow> nat set" where
  "live_regions s = (\<Union>z. used (gva s) z)"

text \<open>The page \<open>w\<close> is one of the first pages of the region \<open>i\<close>, those that have memory.\<close>

definition covers :: "('i, 'h) gctx \<Rightarrow> nat \<Rightarrow> u64 \<Rightarrow> bool" where
  "covers s i w \<longleftrightarrow> unat (start_pfn (region_of s i)) \<le> unat w \<and>
     unat w < unat (start_pfn (region_of s i)) + kbase_reg_current_backed_size s i"

definition shown_entry :: "('i, 'h) genv \<Rightarrow> ('i, 'h) gctx \<Rightarrow> nat \<Rightarrow> u64 \<Rightarrow> u64" where
  "shown_entry env s i w =
     entry_set_ate (ge_mode env)
       (pa_pages (alloc_of s (the (gpu_alloc s i))) ! (unat w - unat (start_pfn (region_of s i))))
       (reg_flags (region_of s i) AND (if ge_gwt env then NOT KBASE_REG_GPU_WR else - 1)) 3"

text \<open>Memory of small pages from the pools, the same amount for the CPU and the GPU.\<close>

definition native_region :: "('i, 'h) gctx \<Rightarrow> nat \<Rightarrow> bool" where
  "native_region s i \<longleftrightarrow>
     (\<exists>cpu gpu. cpu_alloc s i = Some cpu \<and> gpu_alloc s i = Some gpu \<and>
        pa_type (alloc_of s gpu) = KBASE_MEM_TYPE_NATIVE \<and> pa_nents (alloc_of s cpu) = pa_nents (alloc_of s gpu) \<and>
        pa_nents (alloc_of s gpu) \<le> length (pa_pages (alloc_of s gpu)) \<and> pa_nents (alloc_of s gpu) < 2 ^ 32 \<and>
        (\<forall>p \<in> set (take (pa_nents (alloc_of s gpu)) (pa_pages (alloc_of s gpu))). \<not> is_huge_head p))"

definition shows_regions :: "('i, 'h) genv \<Rightarrow> ('i, 'h) gctx \<Rightarrow> bool" where
  "shows_regions env s \<longleftrightarrow>
     (\<forall>i \<in> live_regions s. \<forall>w. covers s i w \<longrightarrow> gpu_entry env s w = Some (shown_entry env s i w)) \<and>
     (\<forall>w. unat w < 2 ^ 36 \<longrightarrow> (\<forall>i \<in> live_regions s. \<not> covers s i w) \<longrightarrow> gpu_entry env s w = None)"

definition gpu_inv :: "('i, 'h) genv \<Rightarrow> (va_tree \<Rightarrow> nat) \<Rightarrow> (va_tree \<Rightarrow> nat) \<Rightarrow> ('i, 'h) gctx \<Rightarrow> bool" where
  "gpu_inv env lo hi s \<longleftrightarrow>
     zones_wf (ge_conf env) (gva s) lo hi \<and> (\<forall>z. hi z \<le> 2 ^ 36) \<and> mmu_inv (ge_mode env) (ge_mmut env) (pmem (gph s)) \<and>
     (\<forall>i \<in> live_regions s. native_region s i \<and> kbase_reg_current_backed_size s i \<le> unat (nr_pages (region_of s i))) \<and>
     shows_regions env s"

text \<open>The memory objects have the same pages.\<close>

definition same_pages :: "('i, 'h) gctx \<Rightarrow> ('i, 'h) gctx \<Rightarrow> bool" where
  "same_pages s s' \<longleftrightarrow> cpu_alloc s' = cpu_alloc s \<and> gpu_alloc s' = gpu_alloc s \<and>
     (\<forall>a. pa_type (alloc_of s' a) = pa_type (alloc_of s a) \<and> pa_nents (alloc_of s' a) = pa_nents (alloc_of s a) \<and>
        pa_pages (alloc_of s' a) = pa_pages (alloc_of s a))"

lemma same_pages_trans: "same_pages s t \<Longrightarrow> same_pages t u \<Longrightarrow> same_pages s u"
  by (simp add: same_pages_def)

lemma same_pages_refl [simp]: "same_pages s s"
  by (simp add: same_pages_def)

lemma same_pagesD:
  assumes "same_pages s s'"
  shows "kbase_reg_current_backed_size s' i = kbase_reg_current_backed_size s i" "native_region s' i = native_region s i"
    and "region_of s' i = region_of s i \<Longrightarrow> covers s' i w = covers s i w \<and> shown_entry env s' i w = shown_entry env s i w"
  using assms
  by (auto simp: same_pages_def kbase_reg_current_backed_size_def native_region_def covers_def shown_entry_def split: option.split)

lemma native_backed: "native_region s i \<Longrightarrow> gpu_alloc s i = Some a \<Longrightarrow> kbase_reg_current_backed_size s i = pa_nents (alloc_of s a)"
  by (auto simp: native_region_def kbase_reg_current_backed_size_def)

text \<open>Two regions in use cover no common page.\<close>

lemma covers_apart:
  fixes p :: u64
  assumes w: "zones_wf c (gva s) lo hi" and i: "i \<in> live_regions s" "unat (start_pfn (region_of s i)) \<le> unat p"
      "unat p < unat (start_pfn (region_of s i)) + unat (nr_pages (region_of s i))"
    and j: "j \<in> live_regions s" "unat (start_pfn (region_of s j)) \<le> unat p"
      "unat p < unat (start_pfn (region_of s j)) + unat (nr_pages (region_of s j))"
  shows "i = j"
proof -
  have h: "\<exists>z. i \<in> set (rb_list (trees (gva s) z)) \<and> holds_page (regions (gva s)) p i"
    if u: "i \<in> live_regions s" "unat (start_pfn (region_of s i)) \<le> unat p"
      "unat p < unat (start_pfn (region_of s i)) + unat (nr_pages (region_of s i))" for i
  proof -
    obtain z where z: "i \<in> used (gva s) z" using u(1) by (auto simp: live_regions_def)
    then show ?thesis using used_zone(1,7) [OF w z] u(2,3) by (auto simp: holds_page_def word_le_nat_alt word_less_nat_alt)
  qed
  show ?thesis using one_holder [OF w] h [OF i] h [OF j] by blast
qed

lemma covers_low:
  assumes "gpu_inv env lo hi s" and "i \<in> live_regions s" and "covers s i w"
  shows "unat w < 2 ^ 36" and "unat w < unat (start_pfn (region_of s i)) + unat (nr_pages (region_of s i))"
proof -
  note d = assms(1) [unfolded gpu_inv_def]
  obtain z where "i \<in> used (gva s) z" using assms(2) by (auto simp: live_regions_def)
  moreover have w: "zones_wf (ge_conf env) (gva s) lo hi" using d by blast
  ultimately have "unat (start_pfn (region_of s i)) + unat (nr_pages (region_of s i)) \<le> 2 ^ 36"
    using used_zone(6) [OF w] d by (meson le_trans)
  moreover have b: "kbase_reg_current_backed_size s i \<le> unat (nr_pages (region_of s i))" using d assms(2) by blast
  ultimately show "unat w < 2 ^ 36" "unat w < unat (start_pfn (region_of s i)) + unat (nr_pages (region_of s i))"
    using assms(3) by (simp_all add: covers_def)
qed

end
