(* ===== verification/KB_GpuSteps.thy ===== *)
theory KB_GpuSteps
  imports KB_GpuShows
begin

text \<open>
  Mapping a native region on the GPU and freeing one, step by step, on the invariant of \<open>KB_GpuShows\<close>.
\<close>

unbundle bit_operations_syntax

section \<open>Changes that do not show\<close>

lemma shows_same:
  assumes inv: "gpu_inv env lo hi s" and w: "zones_wf (ge_conf env) (gva s') lo hi"
    and m: "mmu_inv (ge_mode env) (ge_mmut env) (pmem (gph s'))"
    and e: "\<And>w. unat w < 2 ^ 36 \<Longrightarrow> gpu_entry env s' w = gpu_entry env s w"
    and u: "live_regions s' = live_regions s" "\<And>i. i \<in> live_regions s \<Longrightarrow> region_of s' i = region_of s i" and p: "same_pages s s'"
  shows "gpu_inv env lo hi s'"
proof -
  note d = inv [unfolded gpu_inv_def] and q = same_pagesD [OF p]
  have c: "covers s' i w = covers s i w" "shown_entry env s' i w = shown_entry env s i w" if "i \<in> live_regions s" for i w
    using q(3) [OF u(2) [OF that]] by blast+
  have "shows_regions env s'"
    using d c e u(1) covers_low(1) [OF inv] by (simp add: shows_regions_def)
  then show ?thesis using d w m u q by (simp add: gpu_inv_def)
qed

lemma add_place:
  assumes "jit_pool s = []"
  obtains err k align' where "kbase_add_va_region env reg addr nr align s = Some (err, s\<lparr> gva := k \<rparr>)"
    and "kbase_add_va_region_rbtree (ge_rb env) reg addr nr align' (gva s) = (err, k)"
proof -
  define al where "al =
     (if reg_flags (region_of s reg) AND KBASE_REG_GPU_NX = 0 \<and> addr = 0 \<and>
            reg_flags (region_of s reg) AND KBASE_REG_ZONE_MASK \<noteq> KBASE_REG_ZONE_EXEC_VA \<and>
            kbase_get_num_cpu_va_bits (ge_conf env) > ge_pc_bits env
         then max align (drop_bit 12 (push_bit (ge_pc_bits env) 1)) else align)"
  obtain err k where r: "kbase_add_va_region_rbtree (ge_rb env) reg addr nr al (gva s) = (err, k)" by fastforce
  have "kbase_jit_evict env (s\<lparr> gva := k \<rparr>) = Some (False, s\<lparr> gva := k \<rparr>)" using assms by (simp add: kbase_jit_evict_def)
  then have "kbase_add_va_region env reg addr nr align s = Some (err, s\<lparr> gva := k \<rparr>)"
    unfolding kbase_add_va_region_def al_def [symmetric] Let_def by (subst add_va_region_loop.simps) (simp add: r Let_def)
  then show ?thesis using r that by blast
qed

lemma not_used:
  assumes "zones_wf c k lo hi" and "addable k z i"
  shows "i \<notin> used k y"
  using used_zone(1,3) [OF assms(1), of i y] assms(2) by (auto simp: addable_def)

text \<open>Other references keep the memory of the region, as a mapping for the CPU does.\<close>

definition kept_memory :: "('i, 'h) gctx \<Rightarrow> nat \<Rightarrow> bool" where
  "kept_memory s i \<longleftrightarrow> (\<forall>cpu gpu. cpu_alloc s i = Some cpu \<longrightarrow> gpu_alloc s i = Some gpu \<longrightarrow>
     (if cpu = gpu then 2 < pa_kref (alloc_of s cpu) else 1 < pa_kref (alloc_of s cpu) \<and> 1 < pa_kref (alloc_of s gpu)))"

text \<open>A region that a user may free and that nothing else refers to; its memory cannot be evicted.\<close>

definition freeable :: "('i, 'h) gctx \<Rightarrow> nat \<Rightarrow> bool" where
  "freeable s i \<longleftrightarrow> va_refcnt (region_of s i) = 1 \<and> \<not> has_flag (gva s) i KBASE_REG_NO_USER_FREE \<and>
     \<not> has_flag (gva s) i KBASE_REG_DONT_NEED \<and> \<not> has_flag (gva s) i KBASE_REG_VA_FREED \<and>
     reg_flags (region_of s i) AND KBASE_REG_ZONE_MASK \<noteq> KBASE_REG_ZONE_MASK \<and>
     (\<forall>gpu. gpu_alloc s i = Some gpu \<longrightarrow> gpu \<notin> set (evict_list s))"

section \<open>The page table\<close>

context entry_codec
begin

lemma map_pages_result:
  assumes "ge_mode env = mode" and "mmu_inv mode (ge_mmut env) (pmem (gph s))" and "unat v + nr \<le> 2 ^ 36" and "nr < 2 ^ 32"
    and "nr \<le> length pages" and "\<forall>p \<in> set (take nr pages). \<not> is_huge_head p"
  obtains (ok) m kb where "map_pages env v pages nr flags grp s = Some (0, s\<lparr> gph := (gph s)\<lparr> pmem := m \<rparr>, gkb := kb \<rparr>)"
      "maps_to mode (ge_mmut env) (pmem (gph s)) (unat v) (ates flags (take nr pages)) m"
  | (bad) m kb j where "map_pages env v pages nr flags grp s = Some (-12, s\<lparr> gph := (gph s)\<lparr> pmem := m \<rparr>, gkb := kb \<rparr>)"
      "j \<le> nr" "maps_to mode (ge_mmut env) (pmem (gph s)) (unat v) (replicate j None) m"
proof -
  have l: "length (take nr pages) = nr" using assms(5) by simp
  have "unat v + length (take nr pages) \<le> 2 ^ 36" "length (take nr pages) < 2 ^ 32" using assms(3,4) l by simp_all
  from insert_pages_result [OF assms(2) this assms(6), of "ge_hw env" "ge_flush env" flags "ctx_as_nr (ge_flush env)" "int grp" "gkb s"]
  show ?thesis using assms(1,5) ok bad unfolding l by (auto simp: map_pages_def with_mmu_def)
qed

lemma unmap_pages_result:
  assumes "ge_mode env = mode" and "mmu_inv mode (ge_mmut env) (pmem (gph s))" and "unat v + nr \<le> 2 ^ 36"
  obtains m kb where "unmap_pages env v nr s = Some (0, s\<lparr> gph := (gph s)\<lparr> pmem := m \<rparr>, gkb := kb \<rparr>)"
    and "removes (ge_mmut env) (pmem (gph s)) (unat v) nr m"
  using teardown_pages_result [OF assms(2,3), of "ge_hw env" "ge_flush env" "ctx_as_nr (ge_flush env)" "gkb s"] assms(1) that
  by (fastforce simp: unmap_pages_def with_mmu_def)

section \<open>Mapping\<close>

text \<open>The region has its place, \<open>s1\<close>; no page of it is mapped.\<close>

lemma placed_unmapped:
  assumes inv: "gpu_inv env lo hi s" and w: "zones_wf (ge_conf env) (gva s1) lo hi"
    and u: "live_regions s1 = insert reg (live_regions s)" "reg \<notin> live_regions s" "\<And>i. i \<in> live_regions s \<Longrightarrow> region_of s1 i = region_of s i"
    and p: "unat (start_pfn (region_of s1 reg)) \<le> unat w"
      "unat w < unat (start_pfn (region_of s1 reg)) + unat (nr_pages (region_of s1 reg))"
  shows "gpu_entry env s w = None" and "i \<in> live_regions s \<Longrightarrow> \<not> covers s i w"
proof -
  note d = inv [unfolded gpu_inv_def]
  have c: "\<not> covers s i w" if i: "i \<in> live_regions s" for i
  proof
    assume c: "covers s i w"
    have "i = reg"
      by (rule covers_apart [OF w, of _ w]) (use i u p c covers_low(2) [OF inv i c] in \<open>auto simp: covers_def\<close>)
    then show False using i u(2) by simp
  qed
  then show "i \<in> live_regions s \<Longrightarrow> \<not> covers s i w" .
  obtain z where "reg \<in> used (gva s1) z" using u(1) by (auto simp: live_regions_def)
  then have "unat w < 2 ^ 36" using used_zone(6) [OF w] p(2) d by (meson less_le_trans le_trans)
  then show "gpu_entry env s w = None" using d c by (simp add: shows_regions_def)
qed

lemma placed_shows:
  assumes inv: "gpu_inv env lo hi s" and md: "ge_mode env = mode" and w: "zones_wf (ge_conf env) (gva s') lo hi"
    and u: "live_regions s' = insert reg (live_regions s)" "reg \<notin> live_regions s" "\<And>i. i \<in> live_regions s \<Longrightarrow> region_of s' i = region_of s i"
    and p: "same_pages s s'" and nt: "native_region s reg" "gpu_alloc s reg = Some a"
    and b: "pa_nents (alloc_of s a) \<le> unat (nr_pages (region_of s' reg))"
    and m: "maps_to mode (ge_mmut env) (pmem (gph s)) (unat (start_pfn (region_of s' reg)))
      (ates (reg_flags (region_of s' reg) AND (if ge_gwt env then NOT KBASE_REG_GPU_WR else - 1))
        (take (pa_nents (alloc_of s a)) (pa_pages (alloc_of s a)))) (pmem (gph s'))"
  shows "gpu_inv env lo hi s'"
    and "unat v < 2 ^ 36 \<Longrightarrow> gpu_entry env s' v = (if covers s' reg v then Some (shown_entry env s' reg v) else gpu_entry env s v)"
proof -
  note d = inv [unfolded gpu_inv_def] and q = same_pagesD [OF p]
  let ?st = "unat (start_pfn (region_of s' reg))" and ?n = "pa_nents (alloc_of s a)"
  let ?fl = "reg_flags (region_of s' reg) AND (if ge_gwt env then NOT KBASE_REG_GPU_WR else - 1)"
  have bk: "kbase_reg_current_backed_size s' reg = ?n" using native_backed [OF nt] q(1) by simp
  have len: "length (take ?n (pa_pages (alloc_of s a))) = ?n" using nt by (auto simp: native_region_def)
  have ov: "gpu_entry env s' v = overlay (gpu_entry env s) ?st (ates ?fl (take ?n (pa_pages (alloc_of s a)))) v" if "unat v < 2 ^ 36" for v
    using maps_toD(3) [OF m that] md by (simp add: gpu_entry_def)
  have reg: "gpu_entry env s' v = Some (shown_entry env s' reg v)" if c: "covers s' reg v" "unat v < 2 ^ 36" for v
  proof -
    have i: "unat v - ?st < ?n" "?st \<le> unat v" using c(1) by (auto simp: covers_def bk)
    have "gpu_entry env s' v = ates ?fl (take ?n (pa_pages (alloc_of s a))) ! (unat v - ?st)"
      using c(1) len by (simp add: ov [OF c(2)] overlay_def covers_def bk)
    also have "\<dots> = Some (shown_entry env s' reg v)"
      using i len p nt(2) md by (simp add: ates_def shown_entry_def same_pages_def)
    finally show ?thesis .
  qed
  have old: "covers s' i v = covers s i v" "shown_entry env s' i v = shown_entry env s i v" if "i \<in> live_regions s" for i v
    using q(3) [OF u(3) [OF that]] by blast+
  have rest: "gpu_entry env s' v = gpu_entry env s v" if "unat v < 2 ^ 36" "\<not> covers s' reg v" for v
    using that(2) len by (auto simp: ov [OF that(1)] overlay_def covers_def bk)
  have apart: "\<not> covers s' reg v" if "i \<in> live_regions s" "covers s i v" for i v
  proof
    assume "covers s' reg v"
    then have r: "?st \<le> unat v" "unat v < ?st + unat (nr_pages (region_of s' reg))" using b by (auto simp: covers_def bk)
    show False using placed_unmapped(2) [OF inv w u r that(1)] that(2) by blast
  qed
  obtain z where "reg \<in> used (gva s') z" using u(1) by (auto simp: live_regions_def)
  then have hi: "?st + unat (nr_pages (region_of s' reg)) \<le> 2 ^ 36" using used_zone(6) [OF w] d by (meson le_trans)
  have low: "unat v < 2 ^ 36" if "covers s' reg v" for v using that hi b by (simp add: covers_def bk)
  have "shows_regions env s'"
    unfolding shows_regions_def u(1)
  proof (intro conjI ballI allI impI)
    fix i v assume i: "i \<in> insert reg (live_regions s)" "covers s' i v"
    show "gpu_entry env s' v = Some (shown_entry env s' i v)"
    proof (cases "i = reg")
      case True
      then show ?thesis using reg low i(2) by simp
    next
      case False
      then have i': "i \<in> live_regions s" "covers s i v" using i old by auto
      then show ?thesis using rest [OF covers_low(1) [OF inv i'] apart [OF i']] old d by (simp add: shows_regions_def)
    qed
  next
    fix v assume v: "unat v < 2 ^ 36" "\<forall>i \<in> insert reg (live_regions s). \<not> covers s' i v"
    then show "gpu_entry env s' v = None" using rest [OF v(1)] old d by (simp add: shows_regions_def)
  qed
  moreover have "mmu_inv mode (ge_mmut env) (pmem (gph s'))" by (rule maps_toD(1) [OF m])
  moreover have "native_region s' reg" using nt(1) q(2) by simp
  ultimately show "gpu_inv env lo hi s'" using d w md b bk q u by (auto simp: gpu_inv_def)
  show "gpu_entry env s' v = (if covers s' reg v then Some (shown_entry env s' reg v) else gpu_entry env s v)" if "unat v < 2 ^ 36"
    using reg rest that by simp
qed

lemma mmap_memory_native:
  assumes "ge_mode env = mode" and "mmu_inv mode (ge_mmut env) (pmem (gph s))" and nt: "native_region s reg" "gpu_alloc s reg = Some a"
    and "unat (start_pfn (region_of s reg)) + pa_nents (alloc_of s a) \<le> 2 ^ 36"
  defines "fl \<equiv> reg_flags (region_of s reg) AND (if ge_gwt env then NOT KBASE_REG_GPU_WR else - 1)"
  obtains (ok) m kb where "mmap_memory env reg a s =
        Some (0, [], on_ph (kbase_mem_phy_alloc_gpu_mapped a) (s\<lparr> gph := (gph s)\<lparr> pmem := m \<rparr>, gkb := kb \<rparr>))"
      "maps_to mode (ge_mmut env) (pmem (gph s)) (unat (start_pfn (region_of s reg)))
        (ates fl (take (pa_nents (alloc_of s a)) (pa_pages (alloc_of s a)))) m"
  | (bad) m kb j where "mmap_memory env reg a s = Some (-12, [], s\<lparr> gph := (gph s)\<lparr> pmem := m \<rparr>, gkb := kb \<rparr>)"
      "j \<le> pa_nents (alloc_of s a)" "maps_to mode (ge_mmut env) (pmem (gph s)) (unat (start_pfn (region_of s reg))) (replicate j None) m"
proof -
  have t: "pa_type (alloc_of s a) = KBASE_MEM_TYPE_NATIVE" "pa_nents (alloc_of s a) < 2 ^ 32"
    "pa_nents (alloc_of s a) \<le> length (pa_pages (alloc_of s a))"
    "\<forall>p \<in> set (take (pa_nents (alloc_of s a)) (pa_pages (alloc_of s a))). \<not> is_huge_head p"
    using nt by (auto simp: native_region_def)
  have mm: "mmap_memory env reg a s =
      map_option (\<lambda>(err, s1). (err, [], if err = 0 then on_ph (kbase_mem_phy_alloc_gpu_mapped a) s1 else s1))
        (map_pages env (start_pfn (region_of s reg)) (pa_pages (alloc_of s a)) (pa_nents (alloc_of s a)) fl (pa_group (alloc_of s a)) s)"
    using t(1) by (simp add: mmap_memory_def native_backed [OF nt] fl_def Let_def)
  show ?thesis
    by (rule map_pages_result [OF assms(1,2,5) t(2-4), of fl "pa_group (alloc_of s a)"]) (use mm ok bad in auto)
qed

lemma on_ph_id [simp]: "on_ph id s = s"
  by (simp add: on_ph_def)

lemma mapped_pages: "same_pages s (on_ph (kbase_mem_phy_alloc_gpu_mapped a) s)" "same_pages s (on_ph (kbase_mem_phy_alloc_gpu_unmapped a) s)"
  "pmem (gph (on_ph (kbase_mem_phy_alloc_gpu_mapped a) s)) = pmem (gph s)" "gva (on_ph f s) = gva s"
  "pmem (gph (on_ph (kbase_mem_phy_alloc_gpu_unmapped a) s)) = pmem (gph s)"
  by (auto simp: same_pages_def on_ph_def kbase_mem_phy_alloc_gpu_mapped_def kbase_mem_phy_alloc_gpu_unmapped_def upd_alloc_def)

text \<open>The region finds no place.\<close>

lemma add_failed:
  assumes ok: "rb_ok (ge_rb env)" and inv: "gpu_inv env lo hi s" and a: "addable (gva s) z reg" and n: "0 < unat nr" "unat nr \<le> 2 ^ 52"
    and r: "kbase_add_va_region_rbtree (ge_rb env) reg addr nr align (gva s) = (err, k)" and e0: "err \<noteq> 0"
  shows "gpu_inv env lo hi (s\<lparr> gva := k \<rparr>)" and "live_regions (s\<lparr> gva := k \<rparr>) = live_regions s"
    and "segs k y = segs (gva s) y" and "err = -12"
proof -
  note d = inv [unfolded gpu_inv_def]
  have w: "zones_wf (ge_conf env) (gva s) lo hi" using d by blast
  have w1: "zones_wf (ge_conf env) k lo hi" using add_keeps [OF ok w _ n r] a by (simp add: addable_def)
  note e = kbase_add_va_region_error [OF zones_zone [OF w] a n r e0]
  have rg: "regions k j = region_of s j" if "j \<in> set (rb_list (trees (gva s) y))" for j y
    using e(8) [of j] that tree_start(3) [OF w that] a by (auto simp: addable_def)
  have u: "used k y = used (gva s) y" for y using rg by (auto simp: used_def e(2) has_flag_def)
  show i: "live_regions (s\<lparr> gva := k \<rparr>) = live_regions s" by (simp add: live_regions_def u)
  show "segs k y = segs (gva s) y" using rg by (simp add: segs_def e(2) seg_def has_flag_def)
  have sp: "same_pages s (s\<lparr> gva := k \<rparr>)" by (simp add: same_pages_def)
  show "gpu_inv env lo hi (s\<lparr> gva := k \<rparr>)"
    by (rule shows_same [OF inv _ _ _ i _ sp]) (use w1 d rg in \<open>auto simp: gpu_entry_def live_regions_def used_def\<close>)
  show "err = -12" by (rule e(1))
qed

text \<open>
  The insertion fails in the middle: nothing that was mapped before is lost, and what the insertion
  left is removed.
\<close>

lemma undo_entries:
  assumes md: "ge_mode env = mode" and inv: "gpu_inv env lo hi s" and w: "zones_wf (ge_conf env) k lo hi"
    and u: "live_regions (s\<lparr> gva := k \<rparr>) = insert reg (live_regions s)" "reg \<notin> live_regions s"
      "\<And>i. i \<in> live_regions s \<Longrightarrow> regions k i = region_of s i"
    and m: "maps_to mode (ge_mmut env) (pmem (gph s)) (unat (start_pfn (regions k reg))) (replicate j None) m"
      "j \<le> unat (nr_pages (regions k reg))"
    and rm: "removes (ge_mmut env) m (unat (start_pfn (regions k reg))) (unat (nr_pages (regions k reg))) m'"
    and lw: "unat v < 2 ^ 36"
  shows "mapped_entry mode (mt_pgd (ge_mmut env)) m' v = gpu_entry env s v"
proof (cases "unat (start_pfn (regions k reg)) \<le> unat v \<and> unat v < unat (start_pfn (regions k reg)) + unat (nr_pages (regions k reg))")
  case False
  have "mapped_entry mode (mt_pgd (ge_mmut env)) m' v = mapped_entry mode (mt_pgd (ge_mmut env)) m v"
    using removesD [OF rm lw] False by auto
  also have "\<dots> = mapped_entry mode (mt_pgd (ge_mmut env)) (pmem (gph s)) v"
    using maps_to_page [OF m(1) lw] False m(2) by force
  finally show ?thesis by (simp add: gpu_entry_def md)
next
  case True
  have rg: "region_of (s\<lparr> gva := k \<rparr>) i = region_of s i" if "i \<in> live_regions s" for i using u(3) [OF that] by simp
  have none: "mapped_entry mode (mt_pgd (ge_mmut env)) (pmem (gph s)) v = None"
    using placed_unmapped(1) [OF inv _ u(1,2) rg] w True md by (simp add: gpu_entry_def)
  have "mapped_entry mode (mt_pgd (ge_mmut env)) m v = None"
    using maps_toD(3) [OF m(1) lw] none m(2) by (auto simp: overlay_def)
  then show ?thesis using removesD [OF rm lw] none by (auto simp: gpu_entry_def md)
qed

lemma undo_place:
  assumes ok: "rb_ok (ge_rb env)" and inv: "gpu_inv env lo hi s" and a: "addable (gva s) z reg" and n: "0 < unat nr" "unat nr \<le> 2 ^ 52"
    and r: "kbase_add_va_region_rbtree (ge_rb env) reg addr nr align (gva s) = (0, k)"
    and k': "kbase_remove_va_region (ge_rb env) reg k = (er, k')" and out: "reg \<notin> used k' z"
  shows "used k' y = used (gva s) y" and "i \<in> used (gva s) y \<Longrightarrow> regions k' i = region_of s i"
    and "zones_wf (ge_conf env) k' lo hi" and "segs k' y = segs (gva s) y"
proof -
  have w: "zones_wf (ge_conf env) (gva s) lo hi" using inv by (simp add: gpu_inv_def)
  have w1: "zones_wf (ge_conf env) k lo hi" using add_keeps [OF ok w _ n r] a by (simp add: addable_def)
  note U = add_used [OF ok w a n r]
  have ru: "reg \<in> used k z" using U(1) [of z] by simp
  then have ri: "reg \<in> set (rb_list (trees k z))" by (simp add: used_def)
  have "er = 0"
  proof (rule ccontr)
    assume "er \<noteq> 0"
    then have "trees k' = trees k" "regions k' reg = regions k reg" using remove_fails [OF k'] used_zone(4) [OF w1 ru] by auto
    then show False using ru out by (simp add: used_def has_flag_def)
  qed
  note R = remove_used [OF ok w1 ri k' [unfolded this]]
  show u: "used k' y = used (gva s) y" for y using R(1) [of y] U(1) [of y] not_used [OF w a] by auto
  show "regions k' i = region_of s i" if "i \<in> used (gva s) y" using R(2) [of i y] U(2) [OF that] that u by simp
  show "zones_wf (ge_conf env) k' lo hi" by (rule R(3))
  show "segs k' y = segs (gva s) y"
    using R(4) [of y] release_added [OF ok zones_zone [OF w] a n r] add_carves [OF ok zones_zone [OF w] a n r] zones_zone [OF w, of y]
    by (cases "y = z") simp_all
qed

text \<open>
  A native region is mapped, with all its pages, or nothing new is mapped; in the latter case it is in
  no tree again unless its removal, which the code does not look at, has failed.
\<close>

lemma gpu_mmap_result:
  assumes md: "ge_mode env = mode" and ok: "rb_ok (ge_rb env)" and inv: "gpu_inv env lo hi s" and jit: "jit_pool s = []"
    and a: "addable (gva s) z reg" and n: "0 < unat nr" "unat nr \<le> 2 ^ 52" and nt: "native_region s reg"
    and b: "kbase_reg_current_backed_size s reg \<le> unat nr"
  obtains (mapped) s' where "kbase_gpu_mmap env reg addr nr align s = Some (0, s')" "gpu_inv env lo hi s'"
      "live_regions s' = insert reg (live_regions s)" "same_pages s s'" "reg \<in> used (gva s') z"
      "segs (gva s') z = carve (unat (start_pfn (region_of s' reg))) (unat nr) (segs (gva s) z)"
      "release (unat (start_pfn (region_of s' reg))) (segs (gva s') z) = segs (gva s) z"
      "\<And>y. y \<noteq> z \<Longrightarrow> segs (gva s') y = segs (gva s) y"
      "\<And>w. unat w < 2 ^ 36 \<Longrightarrow>
         gpu_entry env s' w = (if covers s' reg w then Some (shown_entry env s' reg w) else gpu_entry env s w)"
      "\<And>w. covers s' reg w \<Longrightarrow> gpu_entry env s w = None"
  | (failed) s' where "kbase_gpu_mmap env reg addr nr align s = Some (-12, s')" "same_pages s s'"
      "\<And>w. unat w < 2 ^ 36 \<Longrightarrow> gpu_entry env s' w = gpu_entry env s w"
      "reg \<notin> live_regions s' \<Longrightarrow> gpu_inv env lo hi s' \<and> live_regions s' = live_regions s \<and> (\<forall>y. segs (gva s') y = segs (gva s) y)"
proof -
  note d = inv [unfolded gpu_inv_def]
  have w: "zones_wf (ge_conf env) (gva s) lo hi" using d by blast
  obtain err k align' where pl: "kbase_add_va_region env reg addr nr align s = Some (err, s\<lparr> gva := k \<rparr>)"
    and r: "kbase_add_va_region_rbtree (ge_rb env) reg addr nr align' (gva s) = (err, k)" by (rule add_place [OF jit])
  let ?s1 = "s\<lparr> gva := k \<rparr>"
  show ?thesis
  proof (cases "err = 0")
    case False
    note F = add_failed [OF ok inv a n r False]
    have "kbase_gpu_mmap env reg addr nr align s = Some (-12, ?s1)" using pl False F(4) by (simp add: kbase_gpu_mmap_def)
    then show ?thesis using failed [of ?s1] F(1-3) by (simp add: gpu_entry_def same_pages_def)
  next
    case True
    note r0 = r [unfolded True]
    note U = add_used [OF ok w a n r0] and A = add_carves [OF ok zones_zone [OF w] a n r0]
    have w1: "zones_wf (ge_conf env) k lo hi" using add_keeps [OF ok w _ n r] a by (simp add: addable_def)
    have nrp: "nr_pages (regions k reg) = nr" using U(3) by auto
    have nu: "reg \<notin> live_regions s" using not_used [OF w a] by (auto simp: live_regions_def)
    have u1: "live_regions ?s1 = insert reg (live_regions s)" by (auto simp: live_regions_def U(1) split: if_splits)
    have rg: "regions k i = region_of s i" if "i \<in> live_regions s" for i using that U(2) by (auto simp: live_regions_def)
    have ru: "reg \<in> used k z" using U(1) [of z] by simp
    obtain g where g: "gpu_alloc s reg = Some g" and tg: "pa_type (alloc_of s g) = KBASE_MEM_TYPE_NATIVE"
      using nt by (auto simp: native_region_def)
    have bk: "pa_nents (alloc_of s g) \<le> unat nr" using b native_backed [OF nt g] by simp
    have hi: "unat (start_pfn (regions k reg)) + unat nr \<le> 2 ^ 36" using used_zone(6) [OF w1 ru] d nrp by (metis le_trans)
    have nt1: "native_region ?s1 reg" "gpu_alloc ?s1 reg = Some g" using nt g by (simp_all add: native_region_def)
    have mi: "mmu_inv mode (ge_mmut env) (pmem (gph ?s1))" using d md by simp
    have hi1: "unat (start_pfn (region_of ?s1 reg)) + pa_nents (alloc_of ?s1 g) \<le> 2 ^ 36" using hi bk by simp
    show ?thesis
    proof (cases rule: mmap_memory_native [OF md mi nt1 hi1])
      case (1 m kb)
      define s' where "s' = on_ph (kbase_mem_phy_alloc_gpu_mapped g) (?s1\<lparr> gph := (gph ?s1)\<lparr> pmem := m \<rparr>, gkb := kb \<rparr>)"
      have sp: "same_pages s s'"
        unfolding s'_def by (rule same_pages_trans [OF _ mapped_pages(1)]) (simp add: same_pages_def)
      have v: "gva s' = k" "pmem (gph s') = m" by (simp_all add: s'_def mapped_pages)
      have "pa_type (alloc_of s' g) = KBASE_MEM_TYPE_NATIVE" using sp tg by (simp add: same_pages_def)
      then have pd: "mmap_padding env reg g s' = Some (0, s')" by (simp add: mmap_padding_def)
      have e: "kbase_gpu_mmap env reg addr nr align s = Some (0, s')"
        using pl True g 1(1) pd by (simp add: kbase_gpu_mmap_def s'_def)
      have u': "live_regions s' = insert reg (live_regions s)" using u1 by (simp add: live_regions_def v)
      have P: "gpu_inv env lo hi s'" "unat x < 2 ^ 36 \<Longrightarrow>
          gpu_entry env s' x = (if covers s' reg x then Some (shown_entry env s' reg x) else gpu_entry env s x)" for x
        by (rule placed_shows [OF inv md _ u' nu _ sp nt g]; use w1 rg bk nrp 1(2) in \<open>simp add: v\<close>)+
      have sz: "segs k z = carve (unat (start_pfn (regions k reg))) (unat nr) (segs (gva s) z)" using A by blast
      have rl: "release (unat (start_pfn (regions k reg))) (segs k z) = segs (gva s) z"
        by (rule release_added [OF ok zones_zone [OF w] a n r0])
      have un: "gpu_entry env s x = None" if "covers s' reg x" for x
      proof (rule placed_unmapped(1) [OF inv _ u' nu])
        have "kbase_reg_current_backed_size s' reg \<le> unat nr" using b same_pagesD(1) [OF sp] by simp
        then show "unat (start_pfn (region_of s' reg)) \<le> unat x"
          "unat x < unat (start_pfn (region_of s' reg)) + unat (nr_pages (region_of s' reg))"
          using that nrp by (simp_all add: covers_def v)
      qed (use w1 rg in \<open>simp_all add: v\<close>)
      have sy: "segs k y = segs (gva s) y" if "y \<noteq> z" for y using A zones_zone [OF w, of y] that by blast
      show ?thesis
        by (rule mapped [OF e P(1) u' sp]) (use sz rl sy ru P(2) un in \<open>simp_all add: v\<close>)
    next
      case (2 m kb j)
      let ?s2 = "?s1\<lparr> gph := (gph ?s1)\<lparr> pmem := m \<rparr>, gkb := kb \<rparr>"
      have mi2: "mmu_inv mode (ge_mmut env) (pmem (gph ?s2))" using maps_toD(1) [OF 2(3)] by simp
      obtain m' kb' where t: "unmap_pages env (start_pfn (regions k reg)) (unat nr) ?s2 =
          Some (0, ?s2\<lparr> gph := (gph ?s2)\<lparr> pmem := m' \<rparr>, gkb := kb' \<rparr>)"
        and rm: "removes (ge_mmut env) (pmem (gph ?s2)) (unat (start_pfn (regions k reg))) (unat nr) m'"
        by (rule unmap_pages_result [OF md mi2 hi])
      obtain er k' where k': "kbase_remove_va_region (ge_rb env) reg k = (er, k')" by fastforce
      let ?s' = "?s2\<lparr> gph := (gph ?s2)\<lparr> pmem := m' \<rparr>, gkb := kb', gva := k' \<rparr>"
      have e: "kbase_gpu_mmap env reg addr nr align s = Some (-12, ?s')"
        using pl True g 2(1) t k' nrp by (simp add: kbase_gpu_mmap_def mmap_undo_def on_ph_def on_va_def)
      have sp: "same_pages s ?s'" by (simp add: same_pages_def)
      have mt: "maps_to mode (ge_mmut env) (pmem (gph s)) (unat (start_pfn (regions k reg))) (replicate j None) m"
        and jb: "j \<le> unat (nr_pages (regions k reg))"
        and rm': "removes (ge_mmut env) m (unat (start_pfn (regions k reg))) (unat (nr_pages (regions k reg))) m'"
        using 2(2,3) rm bk nrp by simp_all
      have en: "gpu_entry env ?s' x = gpu_entry env s x" if "unat x < 2 ^ 36" for x
      proof -
        have "gpu_entry env ?s' x = mapped_entry mode (mt_pgd (ge_mmut env)) m' x" by (simp add: gpu_entry_def md)
        then show ?thesis using undo_entries [OF md inv w1 u1 nu rg mt jb rm' that] by (rule trans)
      qed
      show ?thesis
      proof (rule failed [OF e sp en])
        assume "reg \<notin> live_regions ?s'"
        then have "reg \<notin> used k' z" by (auto simp: live_regions_def)
        note R = undo_place [OF ok inv a n r0 k' this]
        have i': "live_regions ?s' = live_regions s" by (simp add: live_regions_def R(1))
        have "gpu_inv env lo hi ?s'"
          by (rule shows_same [OF inv _ _ en i' _ sp]) (use R(2,3) rm md in \<open>auto simp: removes_def live_regions_def\<close>)
        then show "gpu_inv env lo hi ?s' \<and> live_regions ?s' = live_regions s \<and> (\<forall>y. segs (gva ?s') y = segs (gva s) y)"
          using i' R(4) by simp
      qed
    qed
  qed
qed

section \<open>Freeing\<close>

lemma put_kept: "pa_kref (pallocs p a) \<noteq> 1 \<Longrightarrow>
  kbase_mem_phy_alloc_put small_of a p = Some (upd_alloc a (\<lambda>al. al\<lparr> pa_kref := pa_kref al - 1 \<rparr>) p)"
  by (simp add: kbase_mem_phy_alloc_put_def put_with_def upd_alloc_def)

lemma puts_kept:
  assumes "kept_memory s i" and c: "cpu_alloc s i = Some cpu" and g: "gpu_alloc s i = Some gpu"
  shows "\<exists>p. Option.bind (try_ph (kbase_mem_phy_alloc_put small_of cpu) s) (try_ph (kbase_mem_phy_alloc_put small_of gpu)) =
      Some (s\<lparr> gph := p \<rparr>) \<and> pmem p = pmem (gph s) \<and> same_pages s (s\<lparr> gph := p \<rparr>)"
  using assms(1) c g
  by (auto simp: kept_memory_def try_ph_def put_kept upd_alloc_def same_pages_def split: if_splits)

lemma munmap_native:
  assumes md: "ge_mode env = mode" and inv: "gpu_inv env lo hi s" and i: "i \<in> live_regions s" and g: "gpu_alloc s i = Some g"
  obtains m kb where "kbase_gpu_munmap env i s = Some (0, on_ph (kbase_mem_phy_alloc_gpu_unmapped g) (s\<lparr> gph := (gph s)\<lparr> pmem := m \<rparr>, gkb := kb \<rparr>))"
    and "mmu_inv mode (ge_mmut env) m"
    and "\<And>w. unat w < 2 ^ 36 \<Longrightarrow> mapped_entry mode (mt_pgd (ge_mmut env)) m w = (if covers s i w then None else gpu_entry env s w)"
proof -
  note d = inv [unfolded gpu_inv_def]
  have w: "zones_wf (ge_conf env) (gva s) lo hi" and nt: "native_region s i" using d i by blast+
  obtain z where u: "i \<in> used (gva s) z" using i by (auto simp: live_regions_def)
  let ?st = "start_pfn (region_of s i)" and ?n = "kbase_reg_current_backed_size s i"
  have hi: "unat ?st + ?n \<le> 2 ^ 36"
    using used_zone(6) [OF w u] d i by (meson add_left_mono le_trans)
  have mi: "mmu_inv mode (ge_mmut env) (pmem (gph s))" using d md by simp
  obtain m kb where t: "unmap_pages env ?st ?n s = Some (0, s\<lparr> gph := (gph s)\<lparr> pmem := m \<rparr>, gkb := kb \<rparr>)"
    and rm: "removes (ge_mmut env) (pmem (gph s)) (unat ?st) ?n m"
    by (rule unmap_pages_result [OF md mi hi])
  have ty: "pa_type (alloc_of s g) = KBASE_MEM_TYPE_NATIVE" using nt g by (auto simp: native_region_def)
  have e: "kbase_gpu_munmap env i s = Some (0, on_ph (kbase_mem_phy_alloc_gpu_unmapped g) (s\<lparr> gph := (gph s)\<lparr> pmem := m \<rparr>, gkb := kb \<rparr>))"
    using used_zone(5) [OF w u] g ty t by (simp add: kbase_gpu_munmap_def Let_def)
  have "mapped_entry mode (mt_pgd (ge_mmut env)) m v = (if covers s i v then None else gpu_entry env s v)"
    if v: "unat v < 2 ^ 36" for v
  proof (cases "covers s i v")
    case False
    then show ?thesis using removesD [OF rm v] by (auto simp: covers_def gpu_entry_def md)
  next
    case True
    have "table_at mode (mt_pgd (ge_mmut env)) (pmem (gph s)) x 3 \<noteq> None" if "unat ?st \<le> unat x" "unat x < unat ?st + ?n" for x
    proof -
      have "gpu_entry env s x \<noteq> None" using d i that by (simp add: shows_regions_def covers_def)
      then show ?thesis using mapped_table by (fastforce simp: gpu_entry_def md)
    qed
    then have "mapped_entry mode (mt_pgd (ge_mmut env)) m v = None" using rm True by (simp add: removes_def covers_def)
    then show ?thesis using True by simp
  qed
  then show ?thesis using that [OF e] rm by (simp add: removes_def)
qed

lemma gpu_free_result:
  assumes md: "ge_mode env = mode" and ok: "rb_ok (ge_rb env)" and inv: "gpu_inv env lo hi s" and i: "i \<in> used (gva s) z"
    and f: "freeable s i" and kept: "kept_memory s i"
  obtains s' where "kbase_mem_free_region env i s = Some (0, s')" and "same_pages s s'"
    and "\<And>w. unat w < 2 ^ 36 \<Longrightarrow> gpu_entry env s' w = (if covers s i w then None else gpu_entry env s w)"
    and "i \<notin> set (rb_list (trees (gva s') z)) \<Longrightarrow> gpu_inv env lo hi s' \<and> live_regions s' = live_regions s - {i} \<and>
      (\<forall>y. segs (gva s') y = (if y = z then release (unat (start_pfn (region_of s i))) (segs (gva s) z) else segs (gva s) y))"
proof -
  note d = inv [unfolded gpu_inv_def]
  have w: "zones_wf (ge_conf env) (gva s) lo hi" using d by blast
  have iu: "i \<in> live_regions s" using i by (auto simp: live_regions_def)
  obtain cpu gpu where g: "cpu_alloc s i = Some cpu" "gpu_alloc s i = Some gpu" using d iu by (auto simp: native_region_def)
  note F = f [unfolded freeable_def]
  define s1 where "s1 = unlink_allocs cpu gpu s"
  have s1: "same_pages s s1" "gva s1 = gva s" "pmem (gph s1) = pmem (gph s)" "evict_list s1 = evict_list s" "kept_memory s1 i"
    using kept by (auto simp: s1_def unlink_allocs_def on_ph_def same_pages_def upd_alloc_def kept_memory_def)
  have i1: "live_regions s1 = live_regions s" by (simp add: live_regions_def s1)
  have inv1: "gpu_inv env lo hi s1" by (rule shows_same [OF inv _ _ _ i1 _ s1(1)]) (use d in \<open>simp_all add: s1 gpu_entry_def\<close>)
  have g1: "cpu_alloc s1 i = Some cpu" "gpu_alloc s1 i = Some gpu" using s1(1) g by (simp_all add: same_pages_def)
  have iu1: "i \<in> live_regions s1" using iu i1 by simp
  obtain m kb where um: "kbase_gpu_munmap env i s1 =
      Some (0, on_ph (kbase_mem_phy_alloc_gpu_unmapped gpu) (s1\<lparr> gph := (gph s1)\<lparr> pmem := m \<rparr>, gkb := kb \<rparr>))"
    and mi: "mmu_inv mode (ge_mmut env) m"
    and me: "\<And>w. unat w < 2 ^ 36 \<Longrightarrow> mapped_entry mode (mt_pgd (ge_mmut env)) m w = (if covers s1 i w then None else gpu_entry env s1 w)"
    using munmap_native [OF md inv1 iu1 g1(2)] by metis
  define s2 where "s2 = on_ph (kbase_mem_phy_alloc_gpu_unmapped gpu) (s1\<lparr> gph := (gph s1)\<lparr> pmem := m \<rparr>, gkb := kb \<rparr>)"
  have s2: "same_pages s s2" "gva s2 = gva s" "pmem (gph s2) = m" "evict_list s2 = evict_list s" "kept_memory s2 i"
    "cpu_alloc s2 i = Some cpu" "gpu_alloc s2 i = Some gpu"
    using s1 g1 by (auto simp: s2_def on_ph_def same_pages_def kbase_mem_phy_alloc_gpu_unmapped_def upd_alloc_def kept_memory_def)
  obtain p where p: "Option.bind (try_ph (kbase_mem_phy_alloc_put (ge_small env) cpu) s2) (try_ph (kbase_mem_phy_alloc_put (ge_small env) gpu)) =
      Some (s2\<lparr> gph := p \<rparr>)" "pmem p = m" "same_pages s2 (s2\<lparr> gph := p \<rparr>)"
    using puts_kept [OF s2(5-7), of "ge_small env"] s2(3) by auto
  have fr: "free_region_memory env i s2 = Some (s2\<lparr> gph := p \<rparr>)"
    using F used_zone(2) [OF w i] p(1) s2 g by (simp add: free_region_memory_def)
  define s' where "s' = on_va (kbase_free_alloced_region (ge_rb env) i) (s2\<lparr> gph := p \<rparr>)"
  have s': "gva s' = kbase_free_alloced_region (ge_rb env) i (gva s)" "pmem (gph s') = m" "same_pages s s'"
    using same_pages_trans [OF s2(1) p(3)] s2(2) p(2) by (simp_all add: s'_def on_va_def same_pages_def)
  have "unmake_if_dont_need env i gpu s1 = Some s1" using F by (simp add: unmake_if_dont_need_def s1)
  then have e: "kbase_mem_free_region env i s = Some (0, s')"
    using F g um fr by (simp add: kbase_mem_free_region_def s1_def [symmetric] s2_def [symmetric] free_alloced_region_def s'_def)
  have en: "gpu_entry env s' v = (if covers s i v then None else gpu_entry env s v)" if "unat v < 2 ^ 36" for v
    using me [OF that] same_pagesD(3) [OF s1(1)] by (simp add: gpu_entry_def s' md s1)
  have good: "gpu_inv env lo hi s' \<and> live_regions s' = live_regions s - {i} \<and>
      (\<forall>y. segs (gva s') y = (if y = z then release (unat (start_pfn (region_of s i))) (segs (gva s) z) else segs (gva s) y))"
    if out: "i \<notin> set (rb_list (trees (gva s') z))"
  proof -
    note R = free_alloced_last [OF ok w i _ _ _ out [unfolded s'(1)], folded s'(1)]
    have u: "used (gva s') y = used (gva s) y - {i}" for y using R(1) F by simp
    have u': "live_regions s' = live_regions s - {i}" by (auto simp: live_regions_def u)
    have rg: "region_of s' j = region_of s j" if "j \<in> live_regions s'" for j using that R(2) F by (auto simp: live_regions_def)
    have c: "covers s' j v = covers s j v" "shown_entry env s' j v = shown_entry env s j v" if "j \<in> live_regions s'" for j v
      using same_pagesD(3) [OF s'(3) rg [OF that]] by blast+
    have ap: "\<not> covers s i v" if j: "j \<in> live_regions s'" "covers s j v" for j v
    proof
      assume ci: "covers s i v"
      have ju: "j \<in> live_regions s" "j \<noteq> i" using j(1) u' by auto
      have "i = j"
        by (rule covers_apart [OF w iu _ _ ju(1)])
          (use ci j(2) covers_low(2) [OF inv ju(1) j(2)] covers_low(2) [OF inv iu ci] in \<open>simp_all add: covers_def\<close>)
      then show False using ju by simp
    qed
    have "shows_regions env s'"
      unfolding shows_regions_def
    proof (intro conjI ballI allI impI)
      fix j v assume j: "j \<in> live_regions s'" "covers s' j v"
      then have cj: "covers s j v" "j \<in> live_regions s" using c u' by auto
      then show "gpu_entry env s' v = Some (shown_entry env s' j v)"
        using en [OF covers_low(1) [OF inv cj(2,1)]] ap [OF j(1) cj(1)] c j(1) d by (simp add: shows_regions_def)
    next
      fix v assume v: "unat v < 2 ^ 36" "\<forall>j \<in> live_regions s'. \<not> covers s' j v"
      then show "gpu_entry env s' v = None" using en [OF v(1)] c u' d by (auto simp: shows_regions_def)
    qed
    moreover have "zones_wf (ge_conf env) (gva s') lo hi" using R(3) F by simp
    moreover have "native_region s' j \<and> kbase_reg_current_backed_size s' j \<le> unat (nr_pages (region_of s' j))" if "j \<in> live_regions s'" for j
      using same_pagesD(1,2) [OF s'(3)] rg [OF that] that u' d by simp
    ultimately have "gpu_inv env lo hi s'" using d mi md by (simp add: gpu_inv_def s'(2))
    then show ?thesis using u' R(4) F by simp
  qed
  show ?thesis by (rule that [OF e s'(3) en good])
qed

end

end
