(* ===== verification/KB_GpuProps.thy ===== *)
theory KB_GpuProps
  imports KB_GpuSteps
begin

text \<open>
  What the requests that map and free GPU memory promise: a region is mapped as a whole or not at all,
  over every run the page table shows the memory of the regions in use and nothing else, and freeing
  undoes mapping.
\<close>

unbundle bit_operations_syntax

section \<open>A context to run the model on\<close>

definition demo_obj :: phy_alloc where
  "demo_obj = \<lparr> pa_kref = 3, gpu_mappings = 0, pa_nents = 2, pa_pages = [0x9000, 0xA000], pa_evicted = 0, pa_reg = Some 1,
     pa_type = KBASE_MEM_TYPE_NATIVE, accessed_cached = False, pa_group = 0, native_kctx = True, alias_stride = 0,
     alias_list = [], usage_count = 0 \<rparr>"

definition demo_gctx :: "va_ctx \<Rightarrow> (nat, (u32 \<times> u32) list) gctx" where
  "demo_gctx k = \<lparr> gva = k, gph = \<lparr> pallocs = (\<lambda>a. demo_obj), next_alloc = 1, create_ok = [], pfreed = [], pmem = demo_mem \<rparr>,
     gkb = demo_kb, cpu_alloc = (\<lambda>i. Some 0), gpu_alloc = (\<lambda>i. Some 0), evict_list = [], jit_pool = [],
     pending_regions = (\<lambda>i. None), cookies = - 1 \<rparr>"

definition demo_genv :: "(nat, (u32 \<times> u32) list) genv" where
  "demo_genv = \<lparr> ge_mode = aarch64_mode, ge_mmut = demo_table, ge_hw = log_regs 0, ge_flush = demo_env, ge_rb = rb_line,
     ge_conf = conf17, ge_coherency = COHERENCY_NONE, ge_gwt = False, ge_pc_bits = 24, ge_sink = 0xF000, ge_small = (\<lambda>g. g),
     ge_struct_size = 100, ge_infinite_cache = False, ge_non_cacheable = True, ge_kernel_map = 0 \<rparr>"

lemma demo_gctx_simps [simp]:
  "gva (demo_gctx k) = k" "pmem (gph (demo_gctx k)) = demo_mem" "alloc_of (demo_gctx k) a = demo_obj"
  "cpu_alloc (demo_gctx k) i = Some 0" "gpu_alloc (demo_gctx k) i = Some 0" "jit_pool (demo_gctx k) = []"
  "gkb (demo_gctx k) = demo_kb" "evict_list (demo_gctx k) = []"
  by (simp_all add: demo_gctx_def)

lemma demo_genv_simps [simp]:
  "ge_mode demo_genv = aarch64_mode" "ge_mmut demo_genv = demo_table" "ge_rb demo_genv = rb_line"
  "ge_conf demo_genv = conf17" "ge_flush demo_genv = demo_env" "ge_hw demo_genv = log_regs 0" "ge_gwt demo_genv = False"
  by (simp_all add: demo_genv_def)






section \<open>Mapping\<close>



section \<open>Runs\<close>

text \<open>
  A region is mapped, or freed while something else holds its memory; a new region gets its structure;
  other work changes memory objects that no region in use has, and neither entries of the page table
  nor its invariant. A mapping that fails must have taken its region out of its tree again.
\<close>

inductive gpu_step :: "('i, 'h) genv \<Rightarrow> ('i, 'h) gctx \<Rightarrow> ('i, 'h) gctx \<Rightarrow> bool" for env where
  gs_map: "addable (gva s) z reg \<Longrightarrow> 0 < unat nr \<Longrightarrow> unat nr \<le> 2 ^ 52 \<Longrightarrow> native_region s reg \<Longrightarrow>
    kbase_reg_current_backed_size s reg \<le> unat nr \<Longrightarrow> jit_pool s = [] \<Longrightarrow>
    kbase_gpu_mmap env reg addr nr align s = Some (err, s') \<Longrightarrow> err \<noteq> 0 \<longrightarrow> reg \<notin> live_regions s' \<Longrightarrow> gpu_step env s s'"
| gs_free: "i \<in> used (gva s) z \<Longrightarrow> freeable s i \<Longrightarrow> kept_memory s i \<Longrightarrow>
    kbase_mem_free_region env i s = Some (err, s') \<Longrightarrow> i \<notin> set (rb_list (trees (gva s') z)) \<Longrightarrow> gpu_step env s s'"
| gs_region: "kbase_alloc_free_region z 0 n zone (gva s) = (Some i, k) \<Longrightarrow> f AND KBASE_REG_FREE = 0 \<Longrightarrow>
    gpu_step env s (s\<lparr> gva := upd_region i (\<lambda>r. r\<lparr> reg_flags := f, initial_commit := ic, extent := ex \<rparr>) k \<rparr>)"
| gs_memory: "gva s' = gva s \<Longrightarrow> mmu_inv (ge_mode env) (ge_mmut env) (pmem (gph s')) \<Longrightarrow>
    (\<And>w. unat w < 2 ^ 36 \<Longrightarrow> gpu_entry env s' w = gpu_entry env s w) \<Longrightarrow>
    (\<And>i. i \<in> live_regions s \<Longrightarrow> cpu_alloc s' i = cpu_alloc s i \<and> gpu_alloc s' i = gpu_alloc s i \<and>
       (\<forall>a. cpu_alloc s i = Some a \<or> gpu_alloc s i = Some a \<longrightarrow> alloc_of s' a = alloc_of s a)) \<Longrightarrow>
    gpu_step env s s'"

inductive_cases gpu_stepE: "gpu_step env s s'"






section \<open>Freeing\<close>



end
