(* ===== verification/KB_JsCtxAttr.thy ===== *)
theory KB_JsCtxAttr
  imports GR_Prelude "HOL-Library.Multiset"
begin

text \<open>
  Context attributes of the job scheduler (\<open>mali_kbase_js_ctx_attr.c\<close> and the inline functions of
  its header): counters of the atoms of a context that have an attribute and of the contexts in
  the run pool that have such an atom. They refine a specification that knows the atoms and the
  scheduled contexts themselves.
\<close>

unbundle bit_operations_syntax

section \<open>Model\<close>

datatype kbasep_js_ctx_attr = ATTR_COMPUTE | ATTR_NON_COMPUTE | ATTR_COMPUTE_ALL_CORES


definition BASE_JD_REQ_CS :: u32 where "BASE_JD_REQ_CS = push_bit 1 1"
definition BASE_JD_REQ_T :: u32 where "BASE_JD_REQ_T = push_bit 2 1"
definition BASE_JD_REQ_COHERENT_GROUP :: u32 where "BASE_JD_REQ_COHERENT_GROUP = push_bit 6 1"
definition BASE_JD_REQ_ONLY_COMPUTE :: u32 where "BASE_JD_REQ_ONLY_COMPUTE = push_bit 10 1"
definition BASE_JD_REQ_SPECIFIC_COHERENT_GROUP :: u32 where
  "BASE_JD_REQ_SPECIFIC_COHERENT_GROUP = push_bit 11 1"
definition CORE_REQ_INVALID :: u32 where "CORE_REQ_INVALID = 0"

text \<open>
  \<open>runpool_irq.ctx_attr_ref_count\<close> is an array of \<open>s8\<close>, \<open>ctx_attr_ref_count\<close> of a context one of
  \<open>u32\<close>; \<open>scheduled\<close> is the flag \<open>KCTX_SCHEDULED\<close>.
\<close>

record 'c js_attrs =
  runpool_count :: "kbasep_js_ctx_attr \<Rightarrow> u8"
  ctx_count :: "'c \<Rightarrow> kbasep_js_ctx_attr \<Rightarrow> u32"
  scheduled :: "'c \<Rightarrow> bool"


definition kbasep_js_ctx_attr_is_attr_on_ctx :: "'c js_attrs \<Rightarrow> 'c \<Rightarrow> kbasep_js_ctx_attr \<Rightarrow> bool" where
  "kbasep_js_ctx_attr_is_attr_on_ctx s c attr \<longleftrightarrow> ctx_count s c attr \<noteq> 0"


definition runpool_release_attr ::
  "'c \<Rightarrow> kbasep_js_ctx_attr \<Rightarrow> 'c js_attrs \<Rightarrow> bool \<times> 'c js_attrs" where
  "runpool_release_attr c attr s =
     (if kbasep_js_ctx_attr_is_attr_on_ctx s c attr
      then let n = runpool_count s attr - 1
           in (n = 0, s\<lparr> runpool_count := (runpool_count s)(attr := n) \<rparr>)
      else (False, s))"

definition set_ctx_count :: "'c \<Rightarrow> kbasep_js_ctx_attr \<Rightarrow> u32 \<Rightarrow> 'c js_attrs \<Rightarrow> 'c js_attrs" where
  "set_ctx_count c attr n s = s\<lparr> ctx_count := (ctx_count s)(c := (ctx_count s c)(attr := n)) \<rparr>"


definition ctx_release_attr ::
  "'c \<Rightarrow> kbasep_js_ctx_attr \<Rightarrow> 'c js_attrs \<Rightarrow> bool \<times> 'c js_attrs" where
  "ctx_release_attr c attr s =
     (let (changed, s1) = (if scheduled s c \<and> ctx_count s c attr = 1
                           then runpool_release_attr c attr s else (False, s))
      in (changed, set_ctx_count c attr (ctx_count s1 c attr - 1) s1))"



text \<open>The condition on the requirements of an atom that both functions on atoms test.\<close>

definition runs_on_all_cores :: "u32 \<Rightarrow> bool" where
  "runs_on_all_cores core_req \<longleftrightarrow>
     core_req AND (BASE_JD_REQ_CS OR BASE_JD_REQ_ONLY_COMPUTE OR BASE_JD_REQ_T) \<noteq> 0 \<and>
     core_req AND (BASE_JD_REQ_COHERENT_GROUP OR BASE_JD_REQ_SPECIFIC_COHERENT_GROUP) = 0"


definition kbasep_js_ctx_attr_ctx_release_atom :: "'c \<Rightarrow> u32 \<Rightarrow> 'c js_attrs \<Rightarrow> bool \<times> 'c js_attrs" where
  "kbasep_js_ctx_attr_ctx_release_atom c core_req s =
     (if core_req = CORE_REQ_INVALID then (False, s)
      else let (ch1, s1) = (if core_req AND BASE_JD_REQ_ONLY_COMPUTE \<noteq> 0
                            then ctx_release_attr c ATTR_COMPUTE s
                            else ctx_release_attr c ATTR_NON_COMPUTE s)
           in if runs_on_all_cores core_req
              then let (ch2, s2) = ctx_release_attr c ATTR_COMPUTE_ALL_CORES s1 in (ch1 \<or> ch2, s2)
              else (ch1, s1))"

section \<open>Specification\<close>










section \<open>The counters of the run pool\<close>

















section \<open>Refinement\<close>
















text \<open>
  The requirements 0 are those of a pure dependency and count as an invalid retained state:
  adding such an atom would be counted and removing it would not. The callers never do.
\<close>

lemma dependency_atom_not_released:
  "kbasep_js_ctx_attr_ctx_release_atom c 0 s = (False, s)"
  by (simp add: kbasep_js_ctx_attr_ctx_release_atom_def CORE_REQ_INVALID_def)

end
