(* ===== verification/KB_MmuTerm.thy ===== *)
theory KB_MmuTerm
  imports KB_MmuPages "HOL-Library.Multiset"
begin

text \<open>
  Removal of a whole table: every table that can be reached is freed exactly once, after the tables
  below it, and no page is cleared.
\<close>

section \<open>The tables below a table\<close>

definition children :: "kbase_mmu_mode \<Rightarrow> 'i mmu_mem \<Rightarrow> nat \<Rightarrow> u64 \<Rightarrow> u64 list" where
  "children mode s l t = List.map_filter (table_entry mode l) (map (get_entry s t) [0..<512])"

primrec tables_below :: "kbase_mmu_mode \<Rightarrow> 'i mmu_mem \<Rightarrow> nat \<Rightarrow> u64 \<Rightarrow> u64 list" where
  "tables_below mode s 0 = (\<lambda>t. [t])"
| "tables_below mode s (Suc d) = (\<lambda>t. concat (map (tables_below mode s d) (children mode s (3 - Suc d) t)) @ [t])"

lemma children_iff:
  "p \<in> set (children mode s l t) \<longleftrightarrow> (\<exists>i < 512. table_entry mode l (get_entry s t i) = Some p)"
  by (auto simp: children_def List.map_filter_def) (force intro: rev_image_eqI)

text \<open>A page with another index at one level and the same indexes above it.\<close>

lemma path_with_index:
  assumes "l \<le> 3" and "i < 512"
  shows "\<exists>w. same_path l w v \<and> pgd_index w l = i"
proof -
  define B :: nat where "B = 512 ^ (3 - l)"
  define X where "X = unat v div (512 * B)"
  define n where "n = i * B + (512 * B) * X"
  have B: "0 < B" by (simp add: B_def)
  have iB: "i * B < 512 * B" using assms(2) B by simp
  have "n < 512 * B + 512 * B * X" using iB by (simp add: n_def)
  moreover have "512 * B * X \<le> unat v" by (simp add: X_def)
  moreover have "512 * B * X + 512 * B \<le> 2 ^ 64"
  proof -
    have "512 * B dvd (2 :: nat) ^ 64"
      using le_imp_power_dvd [of "9 + 9 * (3 - l)" 64 "2 :: nat"] assms(1)
      by (simp add: B_def power_add power_mult)
    then obtain k where k: "(2 :: nat) ^ 64 = 512 * B * k" by blast
    have "unat v < 2 ^ 64" using unsigned_less [where 'a = nat, of v] by simp
    then have "512 * B * X < 512 * B * k"
      using \<open>512 * B * X \<le> unat v\<close> unfolding k by linarith
    then have "Suc X \<le> k" by simp
    then have "512 * B * Suc X \<le> 512 * B * k" by (intro mult_le_mono2)
    then show ?thesis using k by simp
  qed
  ultimately have n64: "n < 2 ^ 64" by linarith
  define w :: u64 where "w = of_nat n"
  have w: "unat w = n" using n64 by (simp add: w_def unat_of_nat)
  have "n div B = i + 512 * X"
    using B by (simp add: n_def mult.assoc [symmetric])
  then have "pgd_index w l = i" using assms(2) by (simp add: pgd_index_nat w B_def [symmetric])
  moreover have "pgd_index w j = pgd_index v j" if j: "j < l" for j
  proof -
    have e: "(512 :: nat) ^ (3 - j) = 512 * B * 512 ^ (l - Suc j)"
      unfolding B_def power_Suc [symmetric] power_add [symmetric] using j assms(1) by (intro arg_cong2 [of _ _ _ _ "(^)"]) auto
    have "n div (512 * B) = X" using iB B by (simp add: n_def)
    then show ?thesis unfolding pgd_index_nat w e div_mult2_eq [of _ "512 * B"] X_def by simp
  qed
  ultimately show ?thesis by (auto simp: same_path_def)
qed

section \<open>Freeing\<close>

lemma free_table_effect:
  assumes "pool_next (pools (mm s) (mt_pool mmut)) = None" and "t AND PAGE_MASK = t"
  shows "page_mem (mm (free_table mmut t s)) = page_mem (mm s)"
    and "pool_next (pools (mm (free_table mmut t s)) (mt_pool mmut)) = None"
    and "kbdev_used_pages (free_table mmut t s) = kbdev_used_pages s - 1"
    and "mset (page_list (pools (mm (free_table mmut t s)) (mt_pool mmut))) + mset (map fst (released (mm (free_table mmut t s)))) =
      add_mset t (mset (page_list (pools (mm s) (mt_pool mmut))) + mset (map fst (released (mm s))))"
  using assms
  by (simp_all add: free_table_def account_def kbase_mem_pool_free_def kbase_mem_pool_add_def kbase_mem_pool_add_locked_def
      kbase_mem_pool_sync_page_def kbase_mem_pool_free_page_def upd_pool_def)

lemma each_table_fold:
  assumes "\<And>p s'. p \<in> set (List.map_filter sub es) \<Longrightarrow> P s' \<Longrightarrow> down p s' = Inr (g p s') \<and> P (g p s')" and "P s"
  shows "each_table down sub es s = Inr (fold g (List.map_filter sub es) s) \<and> P (fold g (List.map_filter sub es) s)"
  using assms
proof (induction es arbitrary: s)
  case Nil
  then show ?case by (simp add: List.map_filter_def)
next
  case (Cons e es)
  show ?case
  proof (cases "sub e")
    case None
    then show ?thesis using Cons.IH [of s] Cons.prems by (simp add: List.map_filter_simps)
  next
    case (Some p)
    then have "down p s = Inr (g p s) \<and> P (g p s)" using Cons.prems by (simp add: List.map_filter_simps)
    then show ?thesis using Cons.IH [of "g p s"] Cons.prems Some by (simp add: List.map_filter_simps)
  qed
qed

text \<open>The state of the tables does not change while they are freed.\<close>

definition same_tables :: "'i mmu_table \<Rightarrow> 'i mmu_mem \<Rightarrow> 'i mmu_mem \<Rightarrow> bool" where
  "same_tables mmut s s' \<longleftrightarrow> page_mem (mm s') = page_mem (mm s) \<and> pool_next (pools (mm s') (mt_pool mmut)) = None"

lemma fold_free_same:
  assumes "same_tables mmut s s'" and "\<forall>t \<in> set ts. t AND PAGE_MASK = t"
  shows "same_tables mmut s (fold (free_table mmut) ts s')"
  using assms
proof (induction ts arbitrary: s')
  case (Cons t ts)
  then show ?case using free_table_effect [of s' mmut t] by (simp add: same_tables_def)
qed simp

lemma fold_free_effect:
  assumes "same_tables mmut s s'" and "\<forall>t \<in> set ts. t AND PAGE_MASK = t"
  shows "kbdev_used_pages (fold (free_table mmut) ts s') = kbdev_used_pages s' - int (length ts)"
    and "mset (page_list (pools (mm (fold (free_table mmut) ts s')) (mt_pool mmut))) +
        mset (map fst (released (mm (fold (free_table mmut) ts s')))) =
      mset ts + (mset (page_list (pools (mm s') (mt_pool mmut))) + mset (map fst (released (mm s'))))"
proof -
  have "kbdev_used_pages (fold (free_table mmut) ts s') = kbdev_used_pages s' - int (length ts) \<and>
      mset (page_list (pools (mm (fold (free_table mmut) ts s')) (mt_pool mmut))) +
        mset (map fst (released (mm (fold (free_table mmut) ts s')))) =
      mset ts + (mset (page_list (pools (mm s') (mt_pool mmut))) + mset (map fst (released (mm s'))))"
    using assms
  proof (induction ts arbitrary: s')
    case (Cons t ts)
    have n: "pool_next (pools (mm s') (mt_pool mmut)) = None" using Cons.prems(1) by (simp add: same_tables_def)
    note f = free_table_effect [OF n, of t]
    have "same_tables mmut s (free_table mmut t s')"
      using Cons.prems f by (simp add: same_tables_def)
    then show ?case using Cons.IH Cons.prems(2) f by simp
  qed simp
  then show "kbdev_used_pages (fold (free_table mmut) ts s') = kbdev_used_pages s' - int (length ts)"
    and "mset (page_list (pools (mm (fold (free_table mmut) ts s')) (mt_pool mmut))) +
        mset (map fst (released (mm (fold (free_table mmut) ts s')))) =
      mset ts + (mset (page_list (pools (mm s') (mt_pool mmut))) + mset (map fst (released (mm s'))))" by blast+
qed

section \<open>The removal\<close>

context entry_codec
begin

lemma children_path:
  assumes t: "table_at mode root s v l = Some t" and l: "l < 3" and p: "p \<in> set (children mode s l t)"
  shows "\<exists>w. same_path l w v \<and> table_at mode root s w (Suc l) = Some p"
proof -
  obtain i where i: "i < 512" "table_entry mode l (get_entry s t i) = Some p" using p children_iff by blast
  obtain w where w: "same_path l w v" "pgd_index w l = i" using path_with_index [of l i v] i(1) l by auto
  have "table_at mode root s w l = Some t" using table_at_same_path [OF w(1), of mode root s] t by simp
  then show ?thesis using w i(2) by auto
qed

lemma children_distinct:
  assumes wf: "table_wf mode root s" and t: "table_at mode root s v l = Some t" and l: "l < 3"
  shows "distinct (children mode s l t)"
proof -
  have inj: "i = j" if ij: "i < 512" "j < 512" "table_entry mode l (get_entry s t i) = Some p"
      "table_entry mode l (get_entry s t j) = Some p" for i j p
  proof -
    obtain w where w: "same_path l w v" "pgd_index w l = i" using path_with_index [of l i v] ij(1) l by auto
    obtain u where u: "same_path l u v" "pgd_index u l = j" using path_with_index [of l j v] ij(2) l by auto
    have "table_at mode root s w (Suc l) = Some p" "table_at mode root s u (Suc l) = Some p"
      using table_at_same_path [OF w(1), of mode root s] table_at_same_path [OF u(1), of mode root s] t w u ij by auto
    then have "same_path (Suc l) w u" using table_wfD(3) [OF wf, of w "Suc l" p u "Suc l"] l by simp
    then show ?thesis using w u by simp
  qed
  show ?thesis
    unfolding children_def List.map_filter_def
    by (auto simp: distinct_map filter_map o_def intro!: inj_onI inj)
qed

text \<open>The tables below are the ones reached on paths through the table, each once.\<close>

lemma tables_below_set:
  assumes wf: "table_wf mode root s" and t: "table_at mode root s v (3 - d) = Some t" and d: "d \<le> 3"
  shows "u \<in> set (tables_below mode s d t) \<longleftrightarrow>
    (\<exists>w k. 3 - d \<le> k \<and> k \<le> 3 \<and> same_path (3 - d) w v \<and> table_at mode root s w k = Some u)"
  using t d
proof (induction d arbitrary: v t)
  case 0
  have t: "table_at mode root s v 3 = Some t" using 0 by simp
  show ?case
  proof
    assume "u \<in> set (tables_below mode s 0 t)"
    then show "\<exists>w k. 3 - 0 \<le> k \<and> k \<le> 3 \<and> same_path (3 - 0) w v \<and> table_at mode root s w k = Some u"
      using t by (intro exI [of _ v] exI [of _ 3]) simp
  next
    assume "\<exists>w k. 3 - 0 \<le> k \<and> k \<le> 3 \<and> same_path (3 - 0) w v \<and> table_at mode root s w k = Some u"
    then obtain w where w: "same_path 3 w v" "table_at mode root s w 3 = Some u"
      by (metis diff_zero le_antisym)
    then show "u \<in> set (tables_below mode s 0 t)"
      using table_at_same_path [OF w(1), of mode root s] t by simp
  qed
next
  case (Suc d)
  define l where "l = 3 - Suc d"
  have l: "l < 3" "3 - d = Suc l" using Suc.prems(2) by (simp_all add: l_def)
  have t: "table_at mode root s v l = Some t" using Suc.prems(1) by (simp add: l_def)
  have IH: "u \<in> set (tables_below mode s d p) \<longleftrightarrow>
      (\<exists>w k. Suc l \<le> k \<and> k \<le> 3 \<and> same_path (Suc l) w x \<and> table_at mode root s w k = Some u)"
    if "table_at mode root s x (Suc l) = Some p" for x p
    using Suc.IH [of x p] that Suc.prems(2) l(2) by simp
  show ?case
  proof
    assume "u \<in> set (tables_below mode s (Suc d) t)"
    then consider "u = t" | p where "p \<in> set (children mode s l t)" "u \<in> set (tables_below mode s d p)"
      by (auto simp: l_def)
    then show "\<exists>w k. 3 - Suc d \<le> k \<and> k \<le> 3 \<and> same_path (3 - Suc d) w v \<and> table_at mode root s w k = Some u"
    proof cases
      case 1
      then show ?thesis using t by (intro exI [of _ v] exI [of _ l]) (simp add: l_def)
    next
      case 2
      obtain x where x: "same_path l x v" "table_at mode root s x (Suc l) = Some p"
        using children_path [OF t l(1) 2(1)] by blast
      obtain w k where "Suc l \<le> k" "k \<le> 3" "same_path (Suc l) w x" "table_at mode root s w k = Some u"
        using IH [OF x(2)] 2(2) by blast
      moreover from this(3) x(1) have "same_path l w v" using same_path_trans by (auto simp: same_path_def)
      ultimately show ?thesis unfolding l_def [symmetric] by (meson Suc_leD)
    qed
  next
    assume "\<exists>w k. 3 - Suc d \<le> k \<and> k \<le> 3 \<and> same_path (3 - Suc d) w v \<and> table_at mode root s w k = Some u"
    then obtain w k where w: "l \<le> k" "k \<le> 3" "same_path l w v" "table_at mode root s w k = Some u"
      unfolding l_def by blast
    have wt: "table_at mode root s w l = Some t" using table_at_same_path [OF w(3), of mode root s] t by simp
    show "u \<in> set (tables_below mode s (Suc d) t)"
    proof (cases "k = l")
      case True
      then show ?thesis using wt w(4) by simp
    next
      case False
      then obtain p where p: "table_at mode root s w (Suc l) = Some p"
        using table_at_prefix [OF w(4), of "Suc l"] w(1) by auto
      then have c: "p \<in> set (children mode s l t)" using wt children_iff pgd_index_less by fastforce
      have "u \<in> set (tables_below mode s d p)" using IH [OF p] w False by (auto intro!: exI [of _ w] exI [of _ k])
      moreover have "2 - d = l" using Suc.prems(2) by (simp add: l_def)
      ultimately show ?thesis using c by auto
    qed
  qed
qed

lemma tables_below_distinct:
  assumes wf: "table_wf mode root s" and t: "table_at mode root s v (3 - d) = Some t" and d: "d \<le> 3"
  shows "distinct (tables_below mode s d t)"
  using t d
proof (induction d arbitrary: v t)
  case 0
  show ?case by simp
next
  case (Suc d)
  define l where "l = 3 - Suc d"
  have l: "l < 3" "3 - d = Suc l" "d \<le> 3" using Suc.prems(2) by (simp_all add: l_def)
  have t: "table_at mode root s v l = Some t" using Suc.prems(1) by (simp add: l_def)
  have mem: "\<exists>w k. Suc l \<le> k \<and> k \<le> 3 \<and> same_path (Suc l) w x \<and> table_at mode root s w k = Some u"
    if "table_at mode root s x (Suc l) = Some p" "u \<in> set (tables_below mode s d p)" for x p u
    using tables_below_set [OF wf, of x d p u] that l by simp
  have one: "p = q"
    if p: "p \<in> set (children mode s l t)" "u \<in> set (tables_below mode s d p)"
      and q: "q \<in> set (children mode s l t)" "u \<in> set (tables_below mode s d q)" for p q u
  proof -
    obtain x where x: "table_at mode root s x (Suc l) = Some p" using children_path [OF t l(1) p(1)] by blast
    obtain y where y: "table_at mode root s y (Suc l) = Some q" using children_path [OF t l(1) q(1)] by blast
    obtain w k where w: "Suc l \<le> k" "k \<le> 3" "same_path (Suc l) w x" "table_at mode root s w k = Some u"
      using mem [OF x p(2)] by blast
    obtain w' k' where w': "Suc l \<le> k'" "k' \<le> 3" "same_path (Suc l) w' y" "table_at mode root s w' k' = Some u"
      using mem [OF y q(2)] by blast
    have "same_path k w w'" using table_wfD(3) [OF wf w(4) w(2) w'(4) w'(2)] by blast
    then have "same_path (Suc l) x y"
      using w(1,3) w'(3) by (auto simp: same_path_def)
    then show ?thesis using table_at_same_path [of "Suc l" x y mode root s] x y by simp
  qed
  have self: "p \<in> set (tables_below mode s d p)" for p by (cases d) simp_all
  have "distinct (concat (map (tables_below mode s d) (children mode s l t)))"
  proof (rule distinct_concat)
    show "distinct (map (tables_below mode s d) (children mode s l t))"
      unfolding distinct_map using children_distinct [OF wf t l(1)] one self by (auto intro!: inj_onI) metis
    fix ys
    assume "ys \<in> set (map (tables_below mode s d) (children mode s l t))"
    then obtain p where p: "p \<in> set (children mode s l t)" "ys = tables_below mode s d p" by auto
    obtain x where "table_at mode root s x (Suc l) = Some p" using children_path [OF t l(1) p(1)] by blast
    then show "distinct ys" using Suc.IH [of x p] p(2) l by simp
    fix zs
    assume "zs \<in> set (map (tables_below mode s d) (children mode s l t))" "ys \<noteq> zs"
    then show "set ys \<inter> set zs = {}" using p one by auto
  qed
  moreover have "t \<notin> set (tables_below mode s d p)" if p: "p \<in> set (children mode s l t)" for p
  proof
    assume u: "t \<in> set (tables_below mode s d p)"
    obtain x where "table_at mode root s x (Suc l) = Some p" using children_path [OF t l(1) p(1)] by blast
    then obtain w k where "Suc l \<le> k" "k \<le> 3" "table_at mode root s w k = Some t" using mem u by blast
    then show False using table_wfD(3) [OF wf t, of w k] l by simp
  qed
  moreover have "2 - d = l" using Suc.prems(2) by (simp add: l_def)
  ultimately show ?case by auto
qed

lemma teardown_at_frees:
  assumes wf: "table_wf mode root s" and t: "table_at mode root s v (3 - d) = Some t" and d: "d \<le> 3"
    and s': "same_tables mmut s s'"
  shows "teardown_at mode mmut d t s' = Inr (fold (free_table mmut) (tables_below mode s d t) s')"
  using t d s'
proof (induction d arbitrary: v t s')
  case 0
  have e: "get_entry s' t = get_entry s t" using "0.prems"(3) by (intro ext) (simp add: get_entry_def same_tables_def)
  have "table_entry mode 3 (get_entry s t i) = None" if "i < 512" for i
    using table_wfD(2) [OF wf, of v 3 t i] "0.prems"(1) that inval_not_pte ate_valid ate_not_pte
    by (auto simp: entry_ok_def table_entry_def)
  then have "List.map_filter (table_entry mode 3) (map (get_entry s' t) [0..<512]) = []"
    by (simp add: e List.map_filter_def filter_empty_conv)
  then show ?case
    using each_table_fold [of "table_entry mode 3" "map (get_entry s' t) [0..<512]" "\<lambda>s. True"
        "\<lambda>p s. Inl Bad_Access" "\<lambda>p s. s" s'] by simp
next
  case (Suc d)
  define l where "l = 3 - Suc d"
  have l: "l < 3" "3 - d = Suc l" "d \<le> 3" "2 - d = l" using Suc.prems(2) by (simp_all add: l_def)
  have t: "table_at mode root s v l = Some t" using Suc.prems(1) by (simp add: l_def)
  have e: "get_entry s' t = get_entry s t" using Suc.prems(3) by (intro ext) (simp add: get_entry_def same_tables_def)
  have aligned: "u AND PAGE_MASK = u" if x: "table_at mode root s x (Suc l) = Some p" and u: "u \<in> set (tables_below mode s d p)"
    for x p u
  proof -
    obtain w k where "k \<le> 3" "table_at mode root s w k = Some u" using tables_below_set [OF wf, of x d p u] x u l by auto
    then show ?thesis using table_wfD(1) [OF wf] usable_aligned by blast
  qed
  have step: "teardown_at mode mmut d p s1 = Inr (fold (free_table mmut) (tables_below mode s d p) s1) \<and>
      same_tables mmut s (fold (free_table mmut) (tables_below mode s d p) s1)"
    if p: "p \<in> set (children mode s l t)" and s1: "same_tables mmut s s1" for p s1
  proof -
    obtain x where x: "table_at mode root s x (Suc l) = Some p" using children_path [OF t l(1) p] by blast
    show ?thesis using Suc.IH [of x p s1] x l s1 fold_free_same [OF s1, of "tables_below mode s d p"] aligned [OF x] by simp
  qed
  have f: "fold (\<lambda>p. fold (free_table mmut) (tables_below mode s d p)) ps s1 =
      fold (free_table mmut) (concat (map (tables_below mode s d) ps)) s1" for ps s1
    by (induction ps arbitrary: s1) simp_all
  show ?case
    using each_table_fold [of "table_entry mode l" "map (get_entry s t) [0..<512]" "same_tables mmut s"
        "teardown_at mode mmut d" "\<lambda>p. fold (free_table mmut) (tables_below mode s d p)" s', OF _ Suc.prems(3)] step
    by (simp add: e l(4) children_def [symmetric] f)
qed

end

section \<open>The property\<close>

text \<open>
  C22. Removing a table returns, in both page table formats, and frees every table that can be
  reached exactly once, to the pool of the device or to the kernel; nothing else is freed. No page
  is cleared: the entries stay in the pages of the pool.
\<close>

theorem kbase_mmu_term_frees_once:
  assumes "mode = aarch64_mode \<or> mode = lpae_mode" and "mmu_inv mode mmut s"
  shows "\<exists>s' ts. kbase_mmu_term mode mmut s = Inr s' \<and> distinct ts \<and>
    set ts = {t. \<exists>w k. k \<le> 3 \<and> table_at mode (mt_pgd mmut) s w k = Some t} \<and>
    mset (page_list (pools (mm s') (mt_pool mmut))) + mset (map fst (released (mm s'))) =
      mset ts + (mset (page_list (pools (mm s) (mt_pool mmut))) + mset (map fst (released (mm s)))) \<and>
    kbdev_used_pages s' = kbdev_used_pages s - int (length ts) \<and> page_mem (mm s') = page_mem (mm s)"
proof -
  note C = entry_codec_modes [OF assms(1)]
  let ?ts = "tables_below mode s 3 (mt_pgd mmut)"
  have wf: "table_wf mode (mt_pgd mmut) s" using assms(2) by (simp add: mmu_inv_def)
  have st: "same_tables mmut s s"
    using assms(2) by (simp add: same_tables_def mmu_inv_def stock_wf_def pool_ready_def)
  have root: "table_at mode (mt_pgd mmut) s 0 (3 - 3) = Some (mt_pgd mmut)" by simp
  note set = entry_codec.tables_below_set [OF C wf root order.refl]
  have al: "\<forall>t \<in> set ?ts. t AND PAGE_MASK = t"
    using set table_wfD(1) [OF wf] usable_aligned by blast
  have "mt_pgd mmut \<noteq> 0" using table_wfD(1) [OF wf, of 0 0] by (simp add: usable_def)
  then have r: "kbase_mmu_term mode mmut s = Inr (fold (free_table mmut) ?ts s)"
    using entry_codec.teardown_at_frees [OF C wf root order.refl st]
    by (simp add: kbase_mmu_term_def mmu_teardown_level_def)
  have "page_mem (mm (fold (free_table mmut) ?ts s)) = page_mem (mm s)"
    using fold_free_same [OF st al] by (simp add: same_tables_def)
  moreover have "set ?ts = {t. \<exists>w k. k \<le> 3 \<and> table_at mode (mt_pgd mmut) s w k = Some t}" using set by auto
  ultimately show ?thesis
    using r entry_codec.tables_below_distinct [OF C wf root order.refl] fold_free_effect [OF st al] by blast
qed

lemma kbase_mmu_term_frees_once_witness:
  "\<exists>s' ts. kbase_mmu_term aarch64_mode demo_table demo_mem = Inr s' \<and> distinct ts \<and> (0x1000 :: u64) \<in> set ts \<and>
    page_mem (mm s') = page_mem (mm demo_mem)"
proof -
  have "\<exists>w k. k \<le> 3 \<and> table_at aarch64_mode (mt_pgd demo_table) demo_mem w k = Some 0x1000"
    by (intro exI [of _ 0]) (simp add: demo_table_def)
  then show ?thesis using kbase_mmu_term_frees_once [OF disjI1 [OF refl] demo_inv] by blast
qed

end
