(* ===== verification/Spec2Isabelle.thy ===== *)
theory Spec2Isabelle
  imports GR_IOHistory GR_MemCheck GR_MemReplay GR_NanoMain GR_Replay GR_TuneMc KB_CtxSched
    KB_GpuAlloc KB_GpuProps KB_JsCtxAttr KB_MmuTerm
begin

text \<open>
  GPUReplay records the accesses of a GPU driver to an ARM Mali GPU (registers, page tables,
  memory) and replays them later without the driver and the GPU stack. The program has four parts:
  the driver (\<open>Bifrost-kdriver/.../midgard\<close>, below \<open>M\<close>), the recorder inside it (\<open>M/gr\<close>), the
  replayer, a user program (\<open>replayer/*.c\<close>), and its kernel module (\<open>replayer/nano_driver\<close>). The
  recorder leaves files: the page table, the memory contents, the list of synchronised address
  spaces and the history of register accesses; the replayer reads them, builds a page table on
  pages of the kernel module, loads the memory and repeats the register accesses.

  \<^bold>\<open>Conventions.\<close> Machine integers are words of their width; counters that cannot get near
  their bounds are \<open>nat\<close>. Functions of the driver that return a negative error number return an
  \<open>int\<close>. Undefined behaviour, \<open>abort\<close>, \<open>exit\<close> and lack of fuel are the values of \<open>abort\<close> in
  the result type \<open>res\<close> (\<open>GR_Prelude\<close>). Physical memory is \<open>pmem\<close>: a page frame for each page
  address, and the pages that can be mapped. State is passed explicitly, as records with the fields
  of the C structures. Assertions and printing are left out; locks too, except where a protocol
  without locks is the subject (\<open>GR_NanoIrq\<close>).

  \<^bold>\<open>Shared theories.\<close> \<open>GR_Prelude\<close> (results, little-endian words, page frames with the
  collection \<open>frame_simps\<close>), \<open>GR_KList\<close> (the linked lists of the kernel as a heap of links),
  \<open>GR_File\<close> (\<open>fread\<close>, \<open>feof\<close> and writes to files).

  \<^bold>\<open>Driver.\<close>
  \<^item> \<open>KB_MmuMode\<close>: the page table entry formats (\<open>M/mmu/mali_kbase_mmu_mode_*.c\<close>). The locale
    \<open>entry_codec\<close> states what page walks need of a format; both formats interpret it.
  \<^item> \<open>KB_MmuDump\<close>: the recursive dump of a page table (\<open>M/mmu/mali_kbase_mmu.c\<close>,
    \<open>gr_mmu_dump\<close> of \<open>M/gr/gr_as.c\<close>) against the list of the tables in pre-order.
  \<^item> \<open>KB_LockRegion\<close>, \<open>KB_MmuHw\<close>: the region that is locked for an operation, the commands
    and settings of an address space (\<open>M/mmu/mali_kbase_mmu_hw_direct.c\<close>), and the flushes,
    update and disabling of \<open>mali_kbase_mmu.c\<close>, as writes to registers in their order.
  \<^item> \<open>KB_CtxSched\<close>: which context owns which address space (\<open>M/mali_kbase_ctx_sched.c\<close>);
    an inductive step relation, isolation of contexts in every reachable state.
  \<^item> \<open>KB_JsCtxAttr\<close>: the counters of job attributes (\<open>M/mali_kbase_js_ctx_attr.c\<close>) refine
    multisets of atoms.
  \<^item> \<open>KB_MemPool\<close>: the pools of free pages (\<open>M/mali_kbase_mem_pool.c\<close> and
    \<open>mali_kbase_mem_pool_group.c\<close>). Each operation is a \<open>pool_step\<close>, which says that pages are
    conserved, sizes stay right and pages of device pools are clear.
  \<^item> \<open>KB_MmuTable\<close>: the page tables of the driver (\<open>M/mmu/mali_kbase_mmu.c\<close>): set-up,
    insertion, update and removal of pages, recovery and the end of a table, on pages of
    \<open>KB_MemPool\<close> and with the flushes of \<open>KB_MmuHw\<close>.
  \<^item> \<open>KB_MmuMap\<close>, \<open>KB_MmuWalk\<close>: indexes, the pages a pool can give, the table as a map from
    pages to entries, its invariant (each table is reached on one path, its entries are of its
    level), and the walks, which change no mapping. 2 MB pages are in the model but outside the
    invariant, since walks take their entries for tables.
  \<^item> \<open>KB_MmuInsert\<close>, \<open>KB_MmuLoops\<close>, \<open>KB_MmuPages\<close>, \<open>KB_MmuTerm\<close>: runs of entries as overlays
    of the map, the loops by induction on the remaining pages, what the functions promise, alone
    and in sequences, and the end of a table, which frees each table once.
  \<^item> \<open>KB_Region\<close>: the regions of GPU addresses of a context (\<open>M/mali_kbase_mem.c\<close>): three
    red-black trees, of which the kernel's balancing is a parameter (\<open>rb_ops\<close>) that keeps the
    order of the nodes (\<open>rb_ok\<close>), with search, insertion, removal, references and the set-up of
    the zones.
  \<^item> \<open>KB_RegionMap\<close>, \<open>KB_RegionFind\<close>: a tree as a list of segments without gaps or adjacent free
    ones, the abstract operations \<open>carve\<close> and \<open>release\<close>, which undo each other, and the searches.
  \<^item> \<open>KB_RegionIns\<close>, \<open>KB_RegionAdd\<close>, \<open>KB_RegionDel\<close>: insertion and removal refine \<open>carve\<close> and
    \<open>release\<close>. \<open>KB_RegionZones\<close>, \<open>KB_RegionRuns\<close>, \<open>KB_RegionProps\<close>: the zones after the set-up,
    runs of operations, the end of a context, and where the code breaks the partition.
  \<^item> \<open>KB_AllocFlags\<close>: the flags and sizes of a request for memory (\<open>kbase_check_alloc_flags\<close>,
    \<open>kbase_check_alloc_sizes\<close>), the flags of its region, and what they become in the entries of
    \<open>KB_MmuMode\<close>: no memory is writable and executable for the GPU.
  \<^item> \<open>KB_PhyAlloc\<close>, \<open>KB_PhyRuns\<close>, \<open>KB_PhyProps\<close>: the physical memory of the regions, on the pages
    of \<open>KB_MemPool\<close>: an invariant over all runs, by which no page is lost or backs two regions and
    the counters of used pages are exact.
  \<^item> \<open>KB_GpuMmap\<close>: the requests that allocate, map and free GPU memory
    (\<open>M/mali_kbase_mem_linux.c\<close>, \<open>M/mali_kbase_mem.c\<close>) over regions, page table and physical memory
    together. \<open>KB_GpuShows\<close>, \<open>KB_GpuSteps\<close>, \<open>KB_GpuProps\<close>: the page table shows the memory of the
    regions in use and nothing else, step by step and over runs; mapping is all or nothing, and
    freeing undoes it. These are about memory from the pools, without JIT memory.
    \<open>KB_GpuAlloc\<close>: requests for memory that the CPU places, on every branch, and the cookie under
    which it waits.

  \<^bold>\<open>Recorder.\<close>
  \<^item> \<open>GR_Recorder\<close>: the list of address spaces, their dump, the synchronised ranges
    (\<open>M/gr/gr_as.c\<close>, \<open>gr_defs.h\<close>, and the calls in \<open>mali_kbase_core_linux.c\<close>); an invariant over
    all runs of the recorder.
  \<^item> \<open>GR_IOHistory\<close>: the ring buffer of register accesses, its dump as text, and the reader in
    \<open>replayer/gr_replay.c\<close>, put together in a round trip.

  \<^bold>\<open>Replayer.\<close>
  \<^item> \<open>GR_Context\<close>, \<open>GR_MemIO\<close>: the replay context (\<open>include/gr_defs.h\<close>) and copies between
    buffers and GPU memory (\<open>gr_mem.c\<close>).
  \<^item> \<open>GR_Pte\<close>, \<open>GR_PgTable\<close>, \<open>GR_UserTree\<close>: entries, the two page walks, and the
    reconstruction of the page table from the file; the rebuilt table as a map from page numbers
    to entries. \<open>GR_PageSource\<close> states as locales what is needed of the source of pages.
  \<^item> \<open>GR_MemContents\<close>, \<open>GR_MemReplay\<close>: loading the recorded memory and the list of
    synchronised address spaces.
  \<^item> \<open>GR_PgtReplay\<close>: driver dump, reconstruction and walks put together.
  \<^item> \<open>GR_Device\<close>, \<open>GR_Replay\<close>: register accesses, waiting for interrupts, and the replay loop
    (\<open>gr_manager.c\<close>, \<open>gr_validation.c\<close>, \<open>gr_replay.c\<close>) over a machine that is a parameter;
    the events at the GPU follow the recording, and the replay returns.
  \<^item> \<open>GR_Checkpoint\<close>, \<open>GR_MemCheck\<close>, \<open>GR_Clean\<close>, \<open>GR_TuneMc\<close>: checkpoints, the check and
    repair of the memory between runs, cleaning, and the tool that prepares a recording
    (\<open>gr_checkpoint.c\<close>, \<open>gr_utils.c\<close>).

  \<^bold>\<open>Kernel module.\<close>
  \<^item> \<open>GR_Mempool\<close>: the pool of pages (\<open>gr_mempool.c\<close>) with its requests in \<open>gr_main.c\<close> and
    wrappers in \<open>gr_manager.c\<close>; it interprets the locales of \<open>GR_PageSource\<close>.
  \<^item> \<open>GR_NanoIrq\<close>: interrupt handlers and poll (\<open>gr_irq.c\<close>, \<open>gr_hw.c\<close>); the interleavings of
    handler and polling process as a step relation.
  \<^item> \<open>GR_NanoMain\<close>: probing, opening, closing and the requests (\<open>gr_main.c\<close>).

  \<^bold>\<open>Bounds and fuel.\<close> Recursion over page tables is on the number of levels below. Loops of
  the code over files, polls and lists whose end depends on the environment take fuel: the reader
  of the register history needs one unit for each line of its file and never ends on a line that
  starts with no number, whatever the fuel (\<open>gr_reg_init_list_stuck\<close>); the wait for an interrupt
  needs one for each call of \<open>poll\<close> until the interrupt or the timeout; the lists of the page pool
  one for each node. The theorems about them are stated for every fuel that is enough. The search along the
  pools of pages is a \<open>partial_function\<close>, which returns when the pools do not form a ring.

  \<^bold>\<open>Not modelled.\<close> The kernel, the C library, the CPU caches and the GPU are parameters:
  results of allocations and mappings are scripts, the GPU is a machine that answers register
  accesses and raises interrupts. Of the driver, the job manager and scheduler
  (\<open>mali_kbase_jd.c\<close>, \<open>mali_kbase_js.c\<close>, \<open>backend/gpu/mali_kbase_jm_*.c\<close>), power management,
  page fault handling, hardware counters and trace points are left out: GPUReplay does not change
  them and the recorder only sees their calls that are modelled. Of its memory management
  (\<open>mali_kbase_mem.c\<close>, \<open>mali_kbase_mem_linux.c\<close>) mappings for the CPU and the kernel, imports,
  sticky resources, making memory evictable, filling the JIT pool and 2 MB pages are left out. So is code that only prints, measures or frees.

  \<^bold>\<open>Plan.\<close> What would come next: mappings for the CPU (\<open>kbase_context_mmap\<close>), which end the wait of
  regions under a cookie, the page faults that grow a region, and imports.
\<close>

end
